(* ===== verification/C_Prelude.thy ===== *)
theory C_Prelude
  imports Main "HOL-Library.Word" "HOL-Library.Monad_Syntax"
begin

text \<open>
  The vocabulary the component theories share: the C integer types, the \<open>errno\<close> values, byte
  memory addressed by pointers, and the lemma collections.

  A definition that returns \<open>'a option\<close> uses \<open>None\<close> for "the C code has no defined
  outcome here": it dereferences \<open>NULL\<close> or a dangling pointer, reads or writes outside an
  object, fails an \<open>assert\<close> or never returns. Errors the code reports are ordinary values.
\<close>

section \<open>Types\<close>

type_synonym u8 = "8 word"
type_synonym u16 = "16 word"
type_synonym u32 = "32 word"
type_synonym bytes = "u8 list"

text \<open>Byte memory: a pointer is an \<open>int\<close>, so that code which steps below a buffer is expressible.\<close>

type_synonym mem = "int \<Rightarrow> u8"

datatype errno = E_OK | EIO | ENOSPC | EINVAL | EOVERFLOW | ENOENT | ENOTDIR | EISDIR
  | ENOTEMPTY | EBUSY | EINTR

text \<open>The Linux values of the constants (\<open>errno.h\<close>); \<open>E_OK\<close> is \<open>errno == 0\<close>.\<close>

fun errno_code :: "errno \<Rightarrow> int" where
  "errno_code E_OK = 0"
| "errno_code ENOENT = 2"
| "errno_code EINTR = 4"
| "errno_code EIO = 5"
| "errno_code EBUSY = 16"
| "errno_code ENOTDIR = 20"
| "errno_code EISDIR = 21"
| "errno_code EINVAL = 22"
| "errno_code ENOSPC = 28"
| "errno_code ENOTEMPTY = 39"
| "errno_code EOVERFLOW = 75"

lemma errno_code_nonneg [simp]: "0 \<le> errno_code e"
  by (cases e) auto

lemma errno_code_zero [simp]: "errno_code e = 0 \<longleftrightarrow> e = E_OK"
  by (cases e) auto

section \<open>Lemma collections\<close>

named_theorems bytes_simps \<open>reads and writes of byte memory and of the device\<close>
named_theorems frame_simps \<open>what an operation leaves unchanged\<close>

section \<open>Byte memory\<close>

definition mem_read :: "mem \<Rightarrow> int \<Rightarrow> nat \<Rightarrow> bytes" where
  "mem_read m p n = map (\<lambda>i. m (p + int i)) [0..<n]"

definition mem_write :: "mem \<Rightarrow> int \<Rightarrow> bytes \<Rightarrow> mem" where
  "mem_write m p bs = (\<lambda>q. if p \<le> q \<and> q < p + int (length bs) then bs ! nat (q - p) else m q)"

lemma length_mem_read [simp]: "length (mem_read m p n) = n"
  by (simp add: mem_read_def)

lemma mem_read_eq_Nil [simp]: "mem_read m p n = [] \<longleftrightarrow> n = 0"
  by (simp add: mem_read_def)

lemma nth_mem_read [simp]: "i < n \<Longrightarrow> mem_read m p n ! i = m (p + int i)"
  by (simp add: mem_read_def)

lemma mem_write_Nil [simp]: "mem_write m p [] = m"
  by (rule ext) (auto simp: mem_write_def)

lemma mem_write_outside: "q < p \<or> p + int (length bs) \<le> q \<Longrightarrow> mem_write m p bs q = m q"
  by (auto simp: mem_write_def)

lemma mem_write_inside: "i < length bs \<Longrightarrow> mem_write m p bs (p + int i) = bs ! i"
  by (simp add: mem_write_def)

lemma mem_read_write_same [bytes_simps]: "mem_read (mem_write m p bs) p (length bs) = bs"
  by (rule nth_equalityI) (simp_all add: mem_write_inside)

lemma mem_read_write_disjoint:
  "q + int n \<le> p \<or> p + int (length bs) \<le> q \<Longrightarrow> mem_read (mem_write m p bs) q n = mem_read m q n"
  by (rule nth_equalityI) (auto intro!: mem_write_outside)

lemma mem_write_append:
  "mem_write m p (bs @ cs) = mem_write (mem_write m p bs) (p + int (length bs)) cs"
  by (rule ext) (auto simp: mem_write_def nth_append nat_diff_distrib nat_less_iff
      intro!: arg_cong [where f = "(!) cs"])

lemma mem_read_append:
  "mem_read m p (a + b) = mem_read m p a @ mem_read m (p + int a) b"
  by (rule nth_equalityI) (auto simp: nth_append)

section \<open>Little-endian integers\<close>

text \<open>On the little-endian host the conversions of \<open>fat_types.h\<close> are the identity.\<close>

definition le16_bytes :: "u16 \<Rightarrow> bytes" where
  "le16_bytes w = [ucast w, ucast (drop_bit 8 w)]"

definition le32_bytes :: "u32 \<Rightarrow> bytes" where
  "le32_bytes w = [ucast w, ucast (drop_bit 8 w), ucast (drop_bit 16 w), ucast (drop_bit 24 w)]"

definition le16_at :: "bytes \<Rightarrow> nat \<Rightarrow> u16" where
  "le16_at bs i = or (ucast (bs ! i)) (push_bit 8 (ucast (bs ! (i + 1))))"

definition le32_at :: "bytes \<Rightarrow> nat \<Rightarrow> u32" where
  "le32_at bs i = or (or (ucast (bs ! i)) (push_bit 8 (ucast (bs ! (i + 1)))))
     (or (push_bit 16 (ucast (bs ! (i + 2)))) (push_bit 24 (ucast (bs ! (i + 3)))))"

lemma length_le16_bytes [simp]: "length (le16_bytes w) = 2"
  by (simp add: le16_bytes_def)

lemma length_le32_bytes [simp]: "length (le32_bytes w) = 4"
  by (simp add: le32_bytes_def)

lemma le16_at_bytes: "le16_at (le16_bytes w) 0 = w"
  by (rule bit_word_eqI) (auto simp: le16_at_def le16_bytes_def bit_simps)

lemma le32_at_bytes: "le32_at (le32_bytes w) 0 = w"
proof (rule bit_word_eqI)
  fix n assume "n < LENGTH(32)"
  then consider "n < 8" | "8 \<le> n" "n < 16" | "16 \<le> n" "n < 24" | "24 \<le> n" "n < 32"
    by fastforce
  then show "bit (le32_at (le32_bytes w) 0) n = bit w n"
    by cases (auto simp: le32_at_def le32_bytes_def bit_simps nth_Cons')
qed

lemma le16_at_append: "i + 1 < length xs \<Longrightarrow> le16_at (xs @ ys) i = le16_at xs i"
  by (simp add: le16_at_def nth_append)

lemma le32_at_append: "i + 3 < length xs \<Longrightarrow> le32_at (xs @ ys) i = le32_at xs i"
  by (simp add: le32_at_def nth_append)

lemma le16_at_skip: "length xs \<le> i \<Longrightarrow> le16_at (xs @ ys) i = le16_at ys (i - length xs)"
  by (simp add: le16_at_def nth_append Suc_diff_le)

lemma le32_at_skip: "length xs \<le> i \<Longrightarrow> le32_at (xs @ ys) i = le32_at ys (i - length xs)"
  by (simp add: le32_at_def nth_append Suc_diff_le)

section \<open>Option monad\<close>

lemma bind_eq_Some [simp]: "(m \<bind> f = Some y) \<longleftrightarrow> (\<exists>x. m = Some x \<and> f x = Some y)"
  by (cases m) auto

end
