(* ===== verification/Fat_Util.thy ===== *)
theory Fat_Util
  imports C_Prelude
begin

unbundle bit_operations_syntax

text \<open>
  \<open>Lab4/fat-fuse/fat_util.c\<close>: the retrying device reads and writes and the FAT time stamps.

  The device is a byte array that the system calls \<open>pread\<close> and \<open>pwrite\<close> transfer to and from.
  What the kernel answers is part of the state: the list \<open>script\<close> gives the outcome of the next
  system calls, one each (an error number, or the most bytes that call will move); when it is
  used up, every call moves as much as it can. Any finite run of short transfers, interrupts and
  failures is such a list.
\<close>

section \<open>The device and its system calls\<close>

datatype io_answer = IO_Error errno | IO_Bytes nat

record dev =
  disk :: "nat \<Rightarrow> u8"
  dsize :: nat
  script :: "io_answer list"
  err :: errno

definition next_answer :: "'a dev_scheme \<Rightarrow> nat \<Rightarrow> io_answer \<times> 'a dev_scheme" where
  "next_answer s n = (case script s of
      [] \<Rightarrow> (IO_Bytes n, s)
    | a # as \<Rightarrow> (a, s\<lparr>script := as\<rparr>))"

definition disk_read :: "'a dev_scheme \<Rightarrow> nat \<Rightarrow> nat \<Rightarrow> bytes" where
  "disk_read s off n = map (disk s) [off..<off + n]"

definition disk_write :: "'a dev_scheme \<Rightarrow> nat \<Rightarrow> bytes \<Rightarrow> 'a dev_scheme" where
  "disk_write s off bs =
     (if bs = [] then s
      else s\<lparr>disk := (\<lambda>i. if off \<le> i \<and> i < off + length bs then bs ! (i - off)
                          else if dsize s \<le> i \<and> i < off then 0 else disk s i),
             dsize := max (dsize s) (off + length bs)\<rparr>)"

definition sys_pread :: "'a dev_scheme \<Rightarrow> nat \<Rightarrow> int \<Rightarrow> int \<times> bytes \<times> 'a dev_scheme" where
  "sys_pread s count off = (case next_answer s count of
      (IO_Error e, s1) \<Rightarrow> (-1, [], s1\<lparr>err := e\<rparr>)
    | (IO_Bytes k, s1) \<Rightarrow>
        if off < 0 then (-1, [], s1\<lparr>err := EINVAL\<rparr>)
        else let n = min (min k count) (dsize s - nat off)
             in (int n, disk_read s1 (nat off) n, s1))"

definition sys_pwrite :: "'a dev_scheme \<Rightarrow> bytes \<Rightarrow> int \<Rightarrow> int \<times> 'a dev_scheme" where
  "sys_pwrite s bs off = (case next_answer s (length bs) of
      (IO_Error e, s1) \<Rightarrow> (-1, s1\<lparr>err := e\<rparr>)
    | (IO_Bytes k, s1) \<Rightarrow>
        if off < 0 then (-1, s1\<lparr>err := EINVAL\<rparr>)
        else let n = min k (length bs)
             in (int n, disk_write s1 (nat off) (take n bs)))"

lemma script_same [simp]: "script s = as \<Longrightarrow> s\<lparr>script := as\<rparr> = s"
  by (cases s) simp

lemma length_disk_read [simp]: "length (disk_read s off n) = n"
  by (simp add: disk_read_def)

lemma nth_disk_read [simp]: "i < n \<Longrightarrow> disk_read s off n ! i = disk s (off + i)"
  by (simp add: disk_read_def)

lemma disk_write_Nil [simp]: "disk_write s off [] = s"
  by (simp add: disk_write_def)

lemma disk_write_frame [frame_simps, simp]:
  "script (disk_write s off bs) = script s"
  "err (disk_write s off bs) = err s"
  "dev.more (disk_write s off bs) = dev.more s"
  by (simp_all add: disk_write_def)

lemma disk_write_script [frame_simps]:
  "(disk_write s off bs)\<lparr>script := as\<rparr> = disk_write (s\<lparr>script := as\<rparr>) off bs"
  by (cases s) (simp add: disk_write_def fun_eq_iff)

lemma dsize_disk_write [simp]:
  "off + length bs \<le> dsize s \<Longrightarrow> dsize (disk_write s off bs) = dsize s"
  by (simp add: disk_write_def)

lemma disk_write_inside [bytes_simps]:
  "i < length bs \<Longrightarrow> disk (disk_write s off bs) (off + i) = bs ! i"
  by (auto simp: disk_write_def)

lemma disk_write_outside [bytes_simps]:
  "i < off \<or> off + length bs \<le> i \<Longrightarrow> off \<le> dsize s \<Longrightarrow> disk (disk_write s off bs) i = disk s i"
  by (auto simp: disk_write_def)

lemma disk_read_write_same [bytes_simps]:
  "disk_read (disk_write s off bs) off (length bs) = bs"
  by (rule nth_equalityI) (simp_all add: disk_write_inside)

lemma disk_read_write_disjoint [bytes_simps]:
  "o2 + n \<le> off \<or> off + length bs \<le> o2 \<Longrightarrow> off \<le> dsize s
    \<Longrightarrow> disk_read (disk_write s off bs) o2 n = disk_read s o2 n"
  by (rule nth_equalityI) (auto intro!: disk_write_outside)

lemma disk_read_append: "disk_read s off (a + b) = disk_read s off a @ disk_read s (off + a) b"
  by (rule nth_equalityI) (auto simp: nth_append)

lemma disk_write_append:
  "off \<le> dsize s \<Longrightarrow>
    disk_write (disk_write s off bs) (off + length bs) cs = disk_write s off (bs @ cs)"
  by (cases s, cases "bs = []"; cases "cs = []")
    (auto simp: disk_write_def nth_append fun_eq_iff)

section \<open>full_pread and full_pwrite\<close>

text \<open>
  The loop of \<open>full_pread\<close>; the result holds \<open>bytes_remaining\<close>. The \<open>continue\<close> after
  \<open>EINTR\<close> still runs the increments of the \<open>for\<close> statement, with \<open>bytes_read = -1\<close>.
\<close>

function full_pread_loop ::
  "'a dev_scheme \<Rightarrow> mem \<Rightarrow> int \<Rightarrow> nat \<Rightarrow> int \<Rightarrow> nat \<times> mem \<times> 'a dev_scheme" where
  "full_pread_loop s m buf rem off =
     (if rem = 0 then (0, m, s)
      else (case sys_pread s rem off of (r, bs, s1) \<Rightarrow>
        let m1 = mem_write m buf bs in
        if 0 < r \<or> r \<noteq> 0 \<and> err s1 = EINTR
        then full_pread_loop s1 m1 (buf + r) (nat (int rem - r)) (off + r)
        else (rem, m1, if r = 0 then s1\<lparr>err := EIO\<rparr> else s1)))"
  by pat_completeness auto
termination
  by (relation "measures [\<lambda>(s, m, buf, rem, off). length (script s), \<lambda>(s, m, buf, rem, off). rem]")
    (auto simp: sys_pread_def next_answer_def Let_def split: list.splits io_answer.splits if_splits)

function full_pwrite_loop ::
  "'a dev_scheme \<Rightarrow> mem \<Rightarrow> int \<Rightarrow> nat \<Rightarrow> int \<Rightarrow> nat \<times> 'a dev_scheme" where
  "full_pwrite_loop s m buf rem off =
     (if rem = 0 then (0, s)
      else (case sys_pwrite s (mem_read m buf rem) off of (r, s1) \<Rightarrow>
        if 0 < r \<or> r \<noteq> 0 \<and> err s1 = EINTR
        then full_pwrite_loop s1 m (buf + r) (nat (int rem - r)) (off + r)
        else (rem, if r = 0 then s1\<lparr>err := EIO\<rparr> else s1)))"
  by pat_completeness auto
termination
  by (relation "measures [\<lambda>(s, m, buf, rem, off). length (script s), \<lambda>(s, m, buf, rem, off). rem]")
    (auto simp: sys_pwrite_def next_answer_def Let_def split: list.splits io_answer.splits if_splits)

declare full_pread_loop.simps [simp del] full_pwrite_loop.simps [simp del]

text \<open>Both return \<open>count - bytes_remaining\<close> as a \<open>size_t\<close>.\<close>

definition full_pread ::
  "'a dev_scheme \<Rightarrow> mem \<Rightarrow> int \<Rightarrow> nat \<Rightarrow> int \<Rightarrow> 64 word \<times> mem \<times> 'a dev_scheme" where
  "full_pread s m buf count off =
     (case full_pread_loop s m buf count off of (rem, m1, s1) \<Rightarrow>
        (of_nat count - of_nat rem, m1, s1))"

definition full_pwrite ::
  "'a dev_scheme \<Rightarrow> mem \<Rightarrow> int \<Rightarrow> nat \<Rightarrow> int \<Rightarrow> 64 word \<times> 'a dev_scheme" where
  "full_pwrite s m buf count off =
     (case full_pwrite_loop s m buf count off of (rem, s1) \<Rightarrow>
        (of_nat count - of_nat rem, s1))"

subsection \<open>Short transfers are made up for\<close>

text \<open>A run of the kernel without errors: every call moves at least one byte.\<close>

definition benign :: "io_answer list \<Rightarrow> bool" where
  "benign as \<longleftrightarrow> (\<forall>a \<in> set as. case a of IO_Error _ \<Rightarrow> False | IO_Bytes k \<Rightarrow> 0 < k)"

lemma benign_Nil [simp]: "benign []"
  by (simp add: benign_def)

lemma sys_pread_benign:
  assumes "benign (script s)" and "0 < rem" and "off + rem \<le> dsize s"
  obtains n sc where "sys_pread s rem (int off) = (int n, disk_read s off n, s\<lparr>script := sc\<rparr>)"
    and "0 < n" and "n \<le> rem" and "benign sc"
proof (cases "script s")
  case Nil
  then have "sys_pread s rem (int off) = (int rem, disk_read s off rem, s\<lparr>script := []\<rparr>)"
    using assms script_same [of s] by (auto simp: sys_pread_def next_answer_def disk_read_def Let_def)
  then show thesis using assms that [of rem "[]"] by simp
next
  case (Cons a as)
  then obtain k where k: "a = IO_Bytes k" "0 < k" and as: "benign as"
    using assms(1) by (auto simp: benign_def split: io_answer.splits)
  have "sys_pread s rem (int off) = (int (min k rem), disk_read s off (min k rem), s\<lparr>script := as\<rparr>)"
    using Cons k assms by (auto simp: sys_pread_def next_answer_def disk_read_def Let_def)
  then show thesis using k as assms that [of "min k rem" as] by simp
qed

lemma sys_pwrite_benign:
  assumes "benign (script s)" and "bs \<noteq> []"
  obtains n sc where "sys_pwrite s bs (int off) = (int n, disk_write (s\<lparr>script := sc\<rparr>) off (take n bs))"
    and "0 < n" and "n \<le> length bs" and "benign sc"
proof (cases "script s")
  case Nil
  then have "sys_pwrite s bs (int off) = (int (length bs), disk_write (s\<lparr>script := []\<rparr>) off (take (length bs) bs))"
    using assms script_same [of s] by (auto simp: sys_pwrite_def next_answer_def Let_def)
  then show thesis using assms that [of "length bs" "[]"] by simp
next
  case (Cons a as)
  then obtain k where k: "a = IO_Bytes k" "0 < k" and as: "benign as"
    using assms(1) by (auto simp: benign_def split: io_answer.splits)
  have "sys_pwrite s bs (int off) =
      (int (min k (length bs)), disk_write (s\<lparr>script := as\<rparr>) off (take (min k (length bs)) bs))"
    using Cons k assms by (auto simp: sys_pwrite_def next_answer_def Let_def)
  then show thesis using k as assms that [of "min k (length bs)" as] by simp
qed

lemma full_pread_loop_benign:
  assumes "benign (script s)" and "off + rem \<le> dsize s"
  shows "\<exists>sc. full_pread_loop s m buf rem (int off)
           = (0, mem_write m buf (disk_read s off rem), s\<lparr>script := sc\<rparr>) \<and> benign sc"
  using assms
proof (induction rem arbitrary: s m buf off rule: less_induct)
  case (less rem)
  show ?case
  proof (cases "rem = 0")
    case True
    then show ?thesis using less.prems(1)
      by (intro exI [of _ "script s"]) (simp add: full_pread_loop.simps disk_read_def)
  next
    case False
    then obtain n sc where call: "sys_pread s rem (int off) = (int n, disk_read s off n, s\<lparr>script := sc\<rparr>)"
      and n: "0 < n" "n \<le> rem" and sc: "benign sc"
      using sys_pread_benign less.prems by (metis gr0I)
    let ?s = "s\<lparr>script := sc\<rparr>" and ?m = "mem_write m buf (disk_read s off n)"
    have "\<exists>sc'. full_pread_loop ?s ?m (buf + int n) (rem - n) (int (off + n))
        = (0, mem_write ?m (buf + int n) (disk_read ?s (off + n) (rem - n)), ?s\<lparr>script := sc'\<rparr>) \<and> benign sc'"
      using less.IH [of "rem - n" ?s "off + n" ?m "buf + int n"] n sc less.prems by simp
    moreover have "mem_write ?m (buf + int n) (disk_read ?s (off + n) (rem - n))
        = mem_write m buf (disk_read s off rem)"
      using n disk_read_append [of s off n "rem - n"]
      by (simp add: mem_write_append disk_read_def)
    moreover have "nat (int rem - int n) = rem - n" using n by simp
    ultimately show ?thesis
      using False n call
      by (subst full_pread_loop.simps) (simp add: Let_def del: of_nat_diff)
  qed
qed

lemma full_pwrite_loop_benign:
  assumes "benign (script s)" and "off \<le> dsize s"
  shows "\<exists>sc. full_pwrite_loop s m buf rem (int off)
           = (0, disk_write (s\<lparr>script := sc\<rparr>) off (mem_read m buf rem)) \<and> benign sc"
  using assms
proof (induction rem arbitrary: s buf off rule: less_induct)
  case (less rem)
  show ?case
  proof (cases "rem = 0")
    case True
    then show ?thesis using less.prems(1)
      by (intro exI [of _ "script s"]) (simp add: full_pwrite_loop.simps mem_read_def)
  next
    case False
    then have "mem_read m buf rem \<noteq> []" by (auto simp: mem_read_def)
    then obtain n sc where call: "sys_pwrite s (mem_read m buf rem) (int off)
          = (int n, disk_write (s\<lparr>script := sc\<rparr>) off (take n (mem_read m buf rem)))"
      and n: "0 < n" "n \<le> rem" and sc: "benign sc"
      using sys_pwrite_benign [OF less.prems(1)] by (metis length_mem_read)
    have tk: "take n (mem_read m buf rem) = mem_read m buf n"
      using n by (simp add: mem_read_def take_map)
    let ?s = "disk_write (s\<lparr>script := sc\<rparr>) off (mem_read m buf n)"
    have size: "off + n \<le> dsize ?s" using n by (auto simp: disk_write_def)
    have "\<exists>sc'. full_pwrite_loop ?s m (buf + int n) (rem - n) (int (off + n))
        = (0, disk_write (?s\<lparr>script := sc'\<rparr>) (off + n) (mem_read m (buf + int n) (rem - n))) \<and> benign sc'"
      using less.IH [of "rem - n" ?s "off + n" "buf + int n"] n sc size by simp
    then obtain sc' where IH: "full_pwrite_loop ?s m (buf + int n) (rem - n) (int (off + n))
        = (0, disk_write (?s\<lparr>script := sc'\<rparr>) (off + n) (mem_read m (buf + int n) (rem - n)))"
      and sc': "benign sc'" by blast
    have "?s\<lparr>script := sc'\<rparr> = disk_write (s\<lparr>script := sc'\<rparr>) off (mem_read m buf n)"
      by (simp add: disk_write_script)
    then have "disk_write (?s\<lparr>script := sc'\<rparr>) (off + n) (mem_read m (buf + int n) (rem - n))
        = disk_write (s\<lparr>script := sc'\<rparr>) off (mem_read m buf rem)"
      using disk_write_append [of off "s\<lparr>script := sc'\<rparr>" "mem_read m buf n"] less.prems(2)
        mem_read_append [of m buf n "rem - n"] n by simp
    with IH have "full_pwrite_loop ?s m (buf + int n) (rem - n) (int (off + n))
        = (0, disk_write (s\<lparr>script := sc'\<rparr>) off (mem_read m buf rem))" by simp
    moreover have "nat (int rem - int n) = rem - n" using n by simp
    ultimately have "full_pwrite_loop s m buf rem (int off)
        = (0, disk_write (s\<lparr>script := sc'\<rparr>) off (mem_read m buf rem))"
      using False n call tk
      by (subst full_pwrite_loop.simps) (simp add: Let_def del: of_nat_diff)
    then show ?thesis using sc' by blast
  qed
qed

text \<open>
  \<open>full_pwrite\<close> and \<open>full_pread\<close> keep trying until everything has moved: under any run
  of short transfers both report the full count, and reading back what was written gives the
  written bytes.
\<close>

theorem full_write_read_back:
  assumes "benign (script s)" and "off \<le> dsize s"
  shows "\<exists>s1 s2. full_pwrite s m buf n (int off) = (of_nat n, s1)
    \<and> full_pread s1 m2 buf2 n (int off) = (of_nat n, mem_write m2 buf2 (mem_read m buf n), s2)"
proof -
  obtain sc where w: "full_pwrite_loop s m buf n (int off)
      = (0, disk_write (s\<lparr>script := sc\<rparr>) off (mem_read m buf n))" and sc: "benign sc"
    using full_pwrite_loop_benign [OF assms] by blast
  let ?s1 = "disk_write (s\<lparr>script := sc\<rparr>) off (mem_read m buf n)"
  have "off + n \<le> dsize ?s1 \<or> n = 0" by (auto simp: disk_write_def)
  moreover have "benign (script ?s1)" using sc by simp
  ultimately obtain sc2 where "full_pread_loop ?s1 m2 buf2 n (int off)
      = (0, mem_write m2 buf2 (disk_read ?s1 off n), ?s1\<lparr>script := sc2\<rparr>)"
    using full_pread_loop_benign [of ?s1 off n m2 buf2] assms(2) by auto
  then show ?thesis
    using w disk_read_write_same [of "s\<lparr>script := sc\<rparr>" off "mem_read m buf n"]
    by (auto simp: full_pwrite_def full_pread_def)
qed

theorem full_write_read_back_witness:
  "\<exists>s1 s2. full_pwrite \<lparr>disk = (\<lambda>_. 0), dsize = 8, script = [IO_Bytes 1, IO_Bytes 2], err = E_OK\<rparr>
      (\<lambda>p. of_int p) 10 4 (int 2) = (of_nat 4, s1)
    \<and> full_pread s1 (\<lambda>_. 0) 0 4 (int 2)
        = (of_nat 4, mem_write (\<lambda>_. 0) 0 (mem_read (\<lambda>p. of_int p) 10 4), s2)"
  by (rule full_write_read_back) (simp_all add: benign_def)

text \<open>
  after an \<open>EINTR\<close>, \<open>full_pwrite\<close> steps back: it writes one byte more, starting one byte
  before the requested offset, and that byte comes from before the caller's buffer.
\<close>

theorem full_pwrite_EINTR:
  assumes "script s = [IO_Error EINTR]" and "0 < n" and "0 < off" and "off \<le> dsize s"
  shows "full_pwrite s m buf n (int off)
    = (of_nat n, disk_write (s\<lparr>script := [], err := EINTR\<rparr>) (off - 1) (mem_read m (buf - 1) (n + 1)))"
proof -
  let ?s = "s\<lparr>script := [], err := EINTR\<rparr>"
  have "full_pwrite_loop s m buf n (int off) = full_pwrite_loop ?s m (buf - 1) (n + 1) (int (off - 1))"
    using assms by (subst full_pwrite_loop.simps)
      (simp add: sys_pwrite_def next_answer_def of_nat_diff nat_add_distrib)
  also have "\<dots> = (0, disk_write ?s (off - 1) (mem_read m (buf - 1) (n + 1)))"
    using assms by (subst full_pwrite_loop.simps, subst full_pwrite_loop.simps)
      (simp add: sys_pwrite_def next_answer_def del: of_nat_diff)
  finally show ?thesis by (simp add: full_pwrite_def)
qed

theorem full_pwrite_EINTR_witness:
  "full_pwrite \<lparr>disk = (\<lambda>_. 0), dsize = 8, script = [IO_Error EINTR], err = E_OK\<rparr> (\<lambda>p. 7) 0 2 (int 4)
    = (of_nat 2, disk_write \<lparr>disk = (\<lambda>_. 0), dsize = 8, script = [], err = EINTR\<rparr> (4 - 1)
        (mem_read (\<lambda>p. 7) (0 - 1) (2 + 1)))"
  using full_pwrite_EINTR [of "\<lparr>disk = (\<lambda>_. 0), dsize = 8, script = [IO_Error EINTR], err = E_OK\<rparr>" 2 4 "\<lambda>p. 7" 0]
  by simp

section \<open>FAT time stamps\<close>

record tm =
  tm_sec :: nat
  tm_min :: nat
  tm_hour :: nat
  tm_mday :: nat
  tm_mon :: nat
  tm_year :: nat

text \<open>
  \<open>gmtime_r\<close> and \<open>mktime\<close> of the C library for instants from 1970 on: \<open>split_year\<close> counts
  years off a number of days, \<open>split_month\<close> months off a day of the year.
\<close>

definition leap :: "nat \<Rightarrow> bool" where
  "leap y \<longleftrightarrow> 4 dvd y \<and> (\<not> 100 dvd y \<or> 400 dvd y)"

definition month_lengths :: "nat \<Rightarrow> nat list" where
  "month_lengths y = [31, if leap y then 29 else 28, 31, 30, 31, 30, 31, 31, 30, 31, 30, 31]"

definition year_length :: "nat \<Rightarrow> nat" where
  "year_length y = (if leap y then 366 else 365)"

function split_year :: "nat \<Rightarrow> nat \<Rightarrow> nat \<times> nat" where
  "split_year y d = (if d < year_length y then (y, d) else split_year (y + 1) (d - year_length y))"
  by pat_completeness auto
termination
  by (relation "measure (\<lambda>(y, d). d)") (auto simp: year_length_def)

fun split_month :: "nat list \<Rightarrow> nat \<Rightarrow> nat \<times> nat" where
  "split_month [] d = (0, d)"
| "split_month (l # ls) d =
     (if d < l then (0, d) else case split_month ls (d - l) of (mon, e) \<Rightarrow> (Suc mon, e))"

definition gmtime_r :: "nat \<Rightarrow> tm" where
  "gmtime_r t =
     (case split_year 1970 (t div 86400) of (y, yday) \<Rightarrow>
      case split_month (month_lengths y) yday of (mon, mday) \<Rightarrow>
        \<lparr>tm_sec = t mod 60, tm_min = t div 60 mod 60, tm_hour = t div 3600 mod 24,
         tm_mday = mday + 1, tm_mon = mon, tm_year = y - 1900\<rparr>)"

definition days_before :: "nat \<Rightarrow> nat \<Rightarrow> nat" where
  "days_before y mon = sum_list (map year_length [1970..<y]) + sum_list (take mon (month_lengths y))"

definition mktime :: "int \<Rightarrow> tm \<Rightarrow> int" where
  "mktime tz t =
     86400 * (int (days_before (tm_year t + 1900 + tm_mon t div 12) (tm_mon t mod 12)) + int (tm_mday t) - 1)
     + 3600 * int (tm_hour t) + 60 * int (tm_min t) + int (tm_sec t) - tz"

declare split_year.simps [simp del]

lemma split_year_sum:
  "split_year y d = (y', d') \<Longrightarrow> y \<le> y' \<and> d' < year_length y' \<and> sum_list (map year_length [y..<y']) + d' = d"
proof (induction y d rule: split_year.induct)
  case (1 y d)
  show ?case
  proof (cases "d < year_length y")
    case True
    then show ?thesis using "1.prems" by (simp add: split_year.simps [of y d])
  next
    case False
    then have "split_year (y + 1) (d - year_length y) = (y', d')"
      using "1.prems" by (simp add: split_year.simps [of y d])
    with "1.IH" [OF False] have "y + 1 \<le> y'" "d' < year_length y'"
      "sum_list (map year_length [y + 1..<y']) + d' = d - year_length y" by auto
    then show ?thesis using False by (simp add: upt_conv_Cons)
  qed
qed

lemma split_month_sum:
  "split_month ls d = (mon, e) \<Longrightarrow> d < sum_list ls
    \<Longrightarrow> mon < length ls \<and> e < ls ! mon \<and> sum_list (take mon ls) + e = d"
  by (induction ls arbitrary: d mon e) (fastforce split: if_splits prod.splits)+

lemma sum_month_lengths: "sum_list (month_lengths y) = year_length y"
  by (simp add: month_lengths_def year_length_def)

lemma month_lengths_le: "mon < 12 \<Longrightarrow> month_lengths y ! mon \<le> 31"
proof -
  have "\<forall>l \<in> set (month_lengths y). l \<le> 31" by (simp add: month_lengths_def)
  moreover have "length (month_lengths y) = 12" by (simp add: month_lengths_def)
  ultimately show "mon < 12 \<Longrightarrow> month_lengths y ! mon \<le> 31" by simp
qed

lemma seconds_split:
  "int t = 86400 * int (t div 86400) + 3600 * int (t div 3600 mod 24)
      + 60 * int (t div 60 mod 60) + int (t mod 60)"
proof -
  have "t = 60 * (t div 60) + t mod 60" by simp
  moreover have "t div 60 = 60 * (t div 3600) + t div 60 mod 60"
    using div_mult2_eq [of t 60 60] by simp
  moreover have "t div 3600 = 24 * (t div 86400) + t div 3600 mod 24"
    using div_mult2_eq [of t 3600 24] by simp
  ultimately show ?thesis by linarith
qed

text \<open>What \<open>gmtime_r\<close> promises: fields in range, and \<open>mktime\<close> undoes it.\<close>

lemma gmtime_r_fields:
  fixes t
  defines "g \<equiv> gmtime_r t"
  shows "tm_sec g < 60" "tm_min g < 60" "tm_hour g < 24" "1 \<le> tm_mday g" "tm_mday g \<le> 31"
    "tm_mon g < 12" "70 \<le> tm_year g" "mktime 0 g = int t"
proof -
  obtain y yday where y: "split_year 1970 (t div 86400) = (y, yday)" by (cases "split_year 1970 (t div 86400)")
  obtain mon mday where m: "split_month (month_lengths y) yday = (mon, mday)"
    by (cases "split_month (month_lengths y) yday")
  note ys = split_year_sum [OF y]
  have ms: "mon < 12 \<and> mday < month_lengths y ! mon \<and> sum_list (take mon (month_lengths y)) + mday = yday"
    using split_month_sum [OF m] ys by (simp add: sum_month_lengths) (simp add: month_lengths_def)
  have g: "g = \<lparr>tm_sec = t mod 60, tm_min = t div 60 mod 60, tm_hour = t div 3600 mod 24,
         tm_mday = mday + 1, tm_mon = mon, tm_year = y - 1900\<rparr>"
    unfolding g_def gmtime_r_def by (simp add: y m)
  show "tm_sec g < 60" "tm_min g < 60" "tm_hour g < 24" "1 \<le> tm_mday g" "tm_mon g < 12" "70 \<le> tm_year g"
    using g ms ys by auto
  show "tm_mday g \<le> 31" using g ms month_lengths_le [of mon y] by simp
  have "days_before y mon + mday = t div 86400"
    using ms ys by (simp add: days_before_def)
  moreover have "int t = 86400 * int (t div 86400) + 3600 * int (t div 3600 mod 24)
      + 60 * int (t div 60 mod 60) + int (t mod 60)" by (rule seconds_split)
  moreover have "y - 1900 + 1900 = y" using ys by simp
  ultimately show "mktime 0 g = int t" using g ms by (simp add: mktime_def flip: of_nat_add)
qed

definition fill_time :: "nat \<Rightarrow> u16 \<times> u16" where
  "fill_time t =
     (let time_st = gmtime_r t;
          bmask3 = 0x07FF; bmask2 = 0x01FF; bmask1 = 0x001F;
          date0 = of_nat (tm_mday time_st) AND bmask1;
          date1 = (date0 OR push_bit 5 (of_nat (tm_mon time_st) + 1)) AND bmask2;
          date = date1 OR push_bit 9 (of_nat (tm_year time_st + 1900 - 1980));
          tim0 = of_nat (tm_sec time_st div 2) AND bmask1;
          tim1 = (tim0 OR push_bit 5 (of_nat (tm_min time_st))) AND bmask3;
          tim = tim1 OR push_bit 11 (of_nat (tm_hour time_st))
      in (date, tim))"

definition fat_time_fields :: "u16 \<Rightarrow> u16 \<Rightarrow> tm" where
  "fat_time_fields date time =
     (let year = drop_bit 9 date + (1980 - 1900);
          month = (drop_bit 5 date AND 0xf) - 1;
          day = date AND 0x1f;
          hours = drop_bit 11 time;
          minutes = drop_bit 5 time AND 0x3f;
          seconds = (time AND 0x1f) * 2
      in \<lparr>tm_sec = unat seconds, tm_min = unat minutes, tm_hour = unat hours,
          tm_mday = unat day, tm_mon = unat month, tm_year = unat year\<rparr>)"

definition time_to_unix_time :: "int \<Rightarrow> u16 \<Rightarrow> u16 \<Rightarrow> int" where
  "time_to_unix_time tz le_date le_time = mktime tz (fat_time_fields le_date le_time)"

text \<open>Disjoint bit fields of a 16-bit word.\<close>

lemma bit_nat_bound: "a < 2 ^ k \<Longrightarrow> bit (a::nat) n \<Longrightarrow> n < k"
proof (rule ccontr)
  assume a: "a < 2 ^ k" and b: "bit a n" and "\<not> n < k"
  then have "(2::nat) ^ k \<le> 2 ^ n" by simp
  then have "a div 2 ^ n = 0" using a by (metis div_less order_less_le_trans)
  with b show False by (simp add: bit_iff_odd)
qed

lemma pack3_fields:
  fixes a b c k :: nat
  assumes "a < 2 ^ 5" "b < 2 ^ k" "c < 2 ^ (11 - k)" "k \<le> 11"
  defines "w \<equiv> (((of_nat a AND mask 5) OR push_bit 5 (of_nat b)) AND mask (5 + k)) OR push_bit (5 + k) (of_nat c) :: u16"
  shows "w AND mask 5 = of_nat a" and "drop_bit 5 w AND mask k = of_nat b" and "drop_bit (5 + k) w = of_nat c"
proof -
  note bnds = bit_nat_bound [OF assms(1)] bit_nat_bound [OF assms(2)] bit_nat_bound [OF assms(3)]
  show "w AND mask 5 = of_nat a"
    using assms(4) by (intro bit_word_eqI) (auto simp: w_def bit_simps dest: bnds)
  show "drop_bit 5 w AND mask k = of_nat b"
    using assms(4) by (intro bit_word_eqI) (auto simp: w_def bit_simps dest: bnds)
  show "drop_bit (5 + k) w = of_nat c"
    using assms(4) by (intro bit_word_eqI) (auto simp: w_def bit_simps dest: bnds)
qed

lemma fat_time_fields_fill_time:
  assumes "80 \<le> tm_year (gmtime_r t)" and "tm_year (gmtime_r t) < 208"
  shows "fat_time_fields (fst (fill_time t)) (snd (fill_time t))
    = (gmtime_r t)\<lparr>tm_sec := 2 * (tm_sec (gmtime_r t) div 2)\<rparr>"
proof -
  let ?g = "gmtime_r t"
  note r = gmtime_r_fields [of t]
  have masks: "(0x1F::u16) = mask 5" "(0x1FF::u16) = mask (5 + 4)" "(0x7FF::u16) = mask (5 + 6)"
    "(0xf::u16) = mask 4" "(0x3f::u16) = mask 6" by (simp_all add: mask_eq_exp_minus_1)
  have y: "tm_year ?g + 1900 - 1980 = tm_year ?g - 80" by simp
  have d: "fst (fill_time t) = ((of_nat (tm_mday ?g) AND mask 5 OR push_bit 5 (of_nat (tm_mon ?g + 1)))
      AND mask (5 + 4)) OR push_bit (5 + 4) (of_nat (tm_year ?g - 80))"
    unfolding fill_time_def Let_def masks y by (simp add: add.commute)
  have s: "snd (fill_time t) = ((of_nat (tm_sec ?g div 2) AND mask 5 OR push_bit 5 (of_nat (tm_min ?g)))
      AND mask (5 + 6)) OR push_bit (5 + 6) (of_nat (tm_hour ?g))"
    unfolding fill_time_def Let_def masks by simp
  have date: "fst (fill_time t) AND mask 5 = of_nat (tm_mday ?g)"
    "drop_bit 5 (fst (fill_time t)) AND mask 4 = of_nat (tm_mon ?g + 1)"
    "drop_bit (5 + 4) (fst (fill_time t)) = of_nat (tm_year ?g - 80)"
    unfolding d using r assms
    by (intro pack3_fields [where k = 4]; simp)+
  have time: "snd (fill_time t) AND mask 5 = of_nat (tm_sec ?g div 2)"
    "drop_bit 5 (snd (fill_time t)) AND mask 6 = of_nat (tm_min ?g)"
    "drop_bit (5 + 6) (snd (fill_time t)) = of_nat (tm_hour ?g)"
    unfolding s using r
    by (intro pack3_fields [where k = 6]; simp)+
  have "unat (of_nat (tm_year ?g - 80) + (1980 - 1900) :: u16) = tm_year ?g"
    using assms by (simp add: unat_word_ariths unat_of_nat)
  moreover have "unat (of_nat (tm_mon ?g + 1) - 1 :: u16) = tm_mon ?g"
    using r by (simp add: unat_of_nat)
  moreover have "unat (of_nat (tm_sec ?g div 2) * 2 :: u16) = 2 * (tm_sec ?g div 2)"
    using r by (simp add: unat_word_ariths unat_of_nat)
  ultimately show ?thesis
    using date time r unfolding fat_time_fields_def Let_def masks
    by (simp add: unat_of_nat)
qed

lemma mktime_sec: "mktime tz (g\<lparr>tm_sec := n\<rparr>) = mktime 0 g - int (tm_sec g) + int n - tz"
  by (simp add: mktime_def)

text \<open>
  a time stamp written by \<open>fill_time\<close> reads back as the same instant, to the two-second
  resolution of FAT, for every instant of the years 1980 to 2107; the zone offset \<open>tz\<close> that
  \<open>mktime\<close> applies and \<open>gmtime_r\<close> does not is an error of the result.
\<close>

theorem fat_time_roundtrip:
  assumes "80 \<le> tm_year (gmtime_r t)" and "tm_year (gmtime_r t) < 208"
  shows "time_to_unix_time tz (fst (fill_time t)) (snd (fill_time t)) = int (2 * (t div 2)) - tz"
proof -
  let ?g = "gmtime_r t"
  have half: "2 * (n div 2) + n mod 2 = n" for n :: nat by simp
  have "mktime tz (?g\<lparr>tm_sec := 2 * (tm_sec ?g div 2)\<rparr>) = mktime 0 ?g - int (tm_sec ?g mod 2) - tz"
    using half [of "tm_sec ?g"] unfolding mktime_sec by linarith
  moreover have "tm_sec ?g mod 2 = t mod 2"
    by (simp add: gmtime_r_def mod_mod_cancel split: prod.splits)
  ultimately show ?thesis
    unfolding time_to_unix_time_def fat_time_fields_fill_time [OF assms]
    using gmtime_r_fields(8) [of t] half [of t] by linarith
qed

lemma gmtime_r_example: "tm_year (gmtime_r 1667347200) = 122"
  by (simp add: gmtime_r_def split_year.simps year_length_def leap_def split: prod.splits)

theorem fat_time_roundtrip_witness:
  "time_to_unix_time (-10800) (fst (fill_time 1667347200)) (snd (fill_time 1667347200)) = 1667347200 + 10800"
  using fat_time_roundtrip [of 1667347200 "-10800"] by (simp add: gmtime_r_example)

section \<open>Powers of two\<close>

definition is_power_of_2 :: "64 word \<Rightarrow> bool" where
  "is_power_of_2 n \<longleftrightarrow> n AND (n - 1) = 0 \<and> n \<noteq> 0"

fun bsr :: "nat \<Rightarrow> nat" where
  "bsr n = (if n < 2 then 0 else Suc (bsr (n div 2)))"

declare bsr.simps [simp del]

lemma bsr_power: "bsr (2 ^ k) = k"
proof (induction k)
  case (Suc k)
  have "(2::nat) ^ Suc k \<ge> 2" by (simp add: self_le_power)
  then show ?case using Suc by (simp add: bsr.simps [of "2 * 2 ^ k"])
qed (simp add: bsr.simps)

lemma bsr_bounds: "0 < n \<Longrightarrow> 2 ^ bsr n \<le> n \<and> n < 2 ^ Suc (bsr n)"
proof (induction n rule: bsr.induct)
  case (1 n)
  show ?case
  proof (cases "n < 2")
    case True
    then show ?thesis using "1.prems" by (auto simp: bsr.simps)
  next
    case False
    then have "2 ^ bsr (n div 2) \<le> n div 2 \<and> n div 2 < 2 ^ Suc (bsr (n div 2))"
      using "1.IH" by simp
    then show ?thesis using False by (auto simp: bsr.simps [of n])
  qed
qed

lemma and_pred_eq_0: "0 < (n::nat) \<Longrightarrow> n AND (n - 1) = 0 \<Longrightarrow> n = 2 ^ bsr n"
proof (induction n rule: bsr.induct)
  case (1 n)
  show ?case
  proof (cases "n < 2")
    case True
    then show ?thesis using "1.prems" by (auto simp: bsr.simps)
  next
    case False
    obtain m where m: "n = 2 * m \<or> n = 2 * m + 1" by (metis evenE oddE)
    show ?thesis
    proof (cases "n = 2 * m")
      case True
      then have "n - 1 = 1 + 2 * (m - 1)" using False by auto
      then have "2 * (m AND (m - 1)) = 0" 
        using "1.prems"(2) True by (simp add: and_nat_rec [of "2 * m"])
      then show ?thesis using "1.IH" False True by (simp add: bsr.simps [of "2 * m"])
    next
      case False2: False
      then have "n AND (n - 1) = 2 * (m AND m)" using m by (simp add: and_nat_rec [of "2 * m + 1"] and_nat_rec [of "Suc (2 * m)"])
      then show ?thesis using False False2 m "1.prems" by simp
    qed
  qed
qed

lemma is_power_of_2_bsr: "is_power_of_2 w \<Longrightarrow> unat w = 2 ^ bsr (unat w)"
proof -
  assume a: "is_power_of_2 w"
  then have "unat (w - 1) = unat w - 1" by (simp add: is_power_of_2_def unat_minus_one)
  then have "unat w AND (unat w - 1) = 0"
    using a by (metis is_power_of_2_def unsigned_and_eq unat_0)
  then show ?thesis using a and_pred_eq_0 [of "unat w"] by (simp add: is_power_of_2_def unat_gt_0)
qed

section \<open>Strings in fixed buffers\<close>

text \<open>
  A \<open>char\<close> buffer is its list of bytes; the string in it ends before the first NUL.
  \<open>strip_from p s\<close> is the loop of \<open>remove_trailing_spaces\<close> with \<open>p\<close> bytes left before the pointer.
\<close>

fun strip_from :: "nat \<Rightarrow> bytes \<Rightarrow> bytes" where
  "strip_from 0 s = s"
| "strip_from (Suc p) s = (if s ! p = 0x20 then strip_from p (s[p := 0]) else s)"

definition c_strlen :: "bytes \<Rightarrow> nat" where
  "c_strlen s = length (takeWhile (\<lambda>c. c \<noteq> 0) s)"

definition c_string :: "bytes \<Rightarrow> bytes" where
  "c_string s = takeWhile (\<lambda>c. c \<noteq> 0) s"

definition remove_trailing_spaces :: "bytes \<Rightarrow> bytes" where
  "remove_trailing_spaces s = strip_from (c_strlen s) s"

lemma c_string_append: "0 \<notin> set xs \<Longrightarrow> c_string (xs @ 0 # ys) = xs"
  unfolding c_string_def by (subst takeWhile_append2) auto

lemma strip_from_append:
  "0 \<notin> set xs \<Longrightarrow> c_string (strip_from (length xs) (xs @ 0 # ys)) = rev (dropWhile (\<lambda>c. c = 0x20) (rev xs))"
proof (induction xs arbitrary: ys rule: rev_induct)
  case Nil
  then show ?case by (simp add: c_string_def)
next
  case (snoc x xs)
  then show ?case
    using snoc.IH [of "0 # ys"] c_string_append [of "xs @ [x]" ys]
    by (auto simp: list_update_append nth_append)
qed

text \<open>
  \<open>remove_trailing_spaces\<close> leaves the string without its trailing spaces and changes
  nothing else of it.
\<close>

theorem remove_trailing_spaces_string:
  assumes "0 \<in> set s"
  shows "c_string (remove_trailing_spaces s) = rev (dropWhile (\<lambda>c. c = 0x20) (rev (c_string s)))"
proof -
  obtain ys where s: "s = c_string s @ 0 # ys" and "0 \<notin> set (c_string s)"
    using assms split_list_first [of 0 s] c_string_append by metis
  then show ?thesis
    using strip_from_append [of "c_string s" ys] unfolding remove_trailing_spaces_def
    by (metis c_string_def c_strlen_def)
qed

theorem remove_trailing_spaces_witness:
  "c_string (remove_trailing_spaces [65, 32, 66, 32, 32, 0, 9]) = [65, 32, 66]"
  using remove_trailing_spaces_string [of "[65, 32, 66, 32, 32, 0, 9]"] by (simp add: c_string_def)

end
