(* ===== verification/Fat_Table.thy ===== *)
theory Fat_Table
  imports Fat_Util
begin

unbundle bit_operations_syntax

text \<open>
  \<open>Lab4/fat-fuse/fat_table.c\<close>: the file allocation table, and the chains of clusters in it.

  The record holds the device, the mapped table \<open>fat_map\<close> (a list of 32-bit entries, its length
  the size of the mapping) and the geometry of the volume. Byte offsets and sizes are natural
  numbers: they stay far below \<open>2 ^ 63\<close> for every volume the code mounts. Cluster numbers are
  32-bit words and wrap as in the code.
\<close>

section \<open>The table\<close>

record fat_table = dev +
  fat_map :: "u32 list"
  fat_offset :: nat
  num_data_clusters :: u32
  data_start_offset :: nat
  cluster_order :: nat

definition FAT_CLUSTER_END_OF_CHAIN_MIN :: u32 where "FAT_CLUSTER_END_OF_CHAIN_MIN = 0x0FFFFFF8"
definition FAT_CLUSTER_END_OF_CHAIN_MAX :: u32 where "FAT_CLUSTER_END_OF_CHAIN_MAX = 0x0FFFFFFF"
definition FAT_CLUSTER_FREE :: u32 where "FAT_CLUSTER_FREE = 0"
definition FAT_CLUSTER_BAD_SECTOR :: u32 where "FAT_CLUSTER_BAD_SECTOR = 0x0FFFFFF7"

lemmas fat_consts = FAT_CLUSTER_END_OF_CHAIN_MIN_def FAT_CLUSTER_END_OF_CHAIN_MAX_def
  FAT_CLUSTER_FREE_def FAT_CLUSTER_BAD_SECTOR_def

text \<open>\<open>((const le32 *)table->fat_map)[cluster]\<close>, defined inside the mapping only.\<close>

definition fat_entry :: "'a fat_table_scheme \<Rightarrow> u32 \<Rightarrow> u32 option" where
  "fat_entry t c = (if unat c < length (fat_map t) then Some (fat_map t ! unat c) else None)"

definition fat_table_is_valid_cluster_number :: "'a fat_table_scheme \<Rightarrow> u32 \<Rightarrow> bool" where
  "fat_table_is_valid_cluster_number t cluster \<longleftrightarrow> cluster \<ge> 2 \<and> cluster < num_data_clusters t + 2"

definition fat_table_get_next_cluster :: "'a fat_table_scheme \<Rightarrow> u32 \<Rightarrow> u32 option" where
  "fat_table_get_next_cluster t cur_cluster = do {
     next_cluster \<leftarrow> fat_entry t cur_cluster;
     Some (if \<not> fat_table_is_valid_cluster_number t next_cluster
           then FAT_CLUSTER_END_OF_CHAIN_MAX else next_cluster) }"

definition fat_table_bytes_per_cluster :: "'a fat_table_scheme \<Rightarrow> nat" where
  "fat_table_bytes_per_cluster t = push_bit (cluster_order t) 1"

definition fat_table_mask_offset :: "nat \<Rightarrow> 'a fat_table_scheme \<Rightarrow> nat" where
  "fat_table_mask_offset offset t =
     (let bytes_per_cluster = fat_table_bytes_per_cluster t in offset AND (bytes_per_cluster - 1))"

definition fat_table_get_cluster_remaining_bytes :: "'a fat_table_scheme \<Rightarrow> nat \<Rightarrow> nat \<Rightarrow> nat" where
  "fat_table_get_cluster_remaining_bytes t bytes_remaining offset =
     (let bytes_per_cluster = fat_table_bytes_per_cluster t;
          masked_offset = fat_table_mask_offset offset t
      in min (bytes_per_cluster - masked_offset) bytes_remaining)"

definition fat_table_get_clusters_for_size :: "'a fat_table_scheme \<Rightarrow> nat \<Rightarrow> u32" where
  "fat_table_get_clusters_for_size t file_size =
     (let bytes_per_cluster = fat_table_bytes_per_cluster t
      in of_nat (drop_bit (cluster_order t) (file_size + (bytes_per_cluster - 1))))"

text \<open>
  The search loop has no bound of its own: it stops at the first zero entry, or leaves the
  mapping (\<open>None\<close>). The counter is 32 bits wide.
\<close>

partial_function (option) next_free_from :: "'a fat_table_scheme \<Rightarrow> u32 \<Rightarrow> u32 option" where
  "next_free_from t c = do {
     v \<leftarrow> fat_entry t c;
     (if v \<noteq> FAT_CLUSTER_FREE then next_free_from t (c + 1) else Some c) }"

definition fat_table_get_next_free_cluster :: "'a fat_table_scheme \<Rightarrow> u32 option" where
  "fat_table_get_next_free_cluster t = do {
     c \<leftarrow> next_free_from t 2;
     Some (if \<not> fat_table_is_valid_cluster_number t c
           then FAT_CLUSTER_END_OF_CHAIN_MAX else c) }"

definition fat_table_cluster_offset :: "'a fat_table_scheme \<Rightarrow> u32 \<Rightarrow> nat" where
  "fat_table_cluster_offset t cluster =
     data_start_offset t + push_bit (cluster_order t) (unat (cluster - 2))"

definition fat_table_is_cluster_used :: "'a fat_table_scheme \<Rightarrow> u32 \<Rightarrow> bool option" where
  "fat_table_is_cluster_used t cluster = do { v \<leftarrow> fat_entry t cluster; Some (v \<noteq> 0) }"

definition fat_table_set_next_cluster ::
  "'a fat_table_scheme \<Rightarrow> u32 \<Rightarrow> u32 \<Rightarrow> 'a fat_table_scheme option" where
  "fat_table_set_next_cluster t cur_cluster next_cluster =
     (let entry_offset = unat (cur_cluster * 4) + fat_offset t in
      case sys_pwrite t (le32_bytes next_cluster) (int entry_offset) of (written_bytes, t1) \<Rightarrow>
        if written_bytes \<le> 0 then Some (t1\<lparr>err := EIO\<rparr>)
        else if unat cur_cluster < length (fat_map t1)
        then Some (t1\<lparr>fat_map := (fat_map t1)[unat cur_cluster := next_cluster]\<rparr>)
        else None)"

fun seek_loop :: "nat \<Rightarrow> 'a fat_table_scheme \<Rightarrow> u32 \<Rightarrow> (u32 \<times> 'a fat_table_scheme) option" where
  "seek_loop 0 t start_cluster = Some (start_cluster, t)"
| "seek_loop (Suc n) t start_cluster =
     (if start_cluster = FAT_CLUSTER_END_OF_CHAIN_MAX then Some (0, t\<lparr>err := EOVERFLOW\<rparr>)
      else do { c \<leftarrow> fat_table_get_next_cluster t start_cluster; seek_loop n t c })"

definition fat_table_seek_cluster ::
  "'a fat_table_scheme \<Rightarrow> u32 \<Rightarrow> nat \<Rightarrow> (u32 \<times> 'a fat_table_scheme) option" where
  "fat_table_seek_cluster t start_cluster offset =
     (let positions_to_move = of_nat (drop_bit (cluster_order t) offset) :: u32
      in seek_loop (unat positions_to_move) t start_cluster)"

definition fat_table_cluster_is_EOC :: "u32 \<Rightarrow> bool" where
  "fat_table_cluster_is_EOC cluster \<longleftrightarrow>
     cluster \<ge> FAT_CLUSTER_END_OF_CHAIN_MIN \<and> cluster \<le> FAT_CLUSTER_END_OF_CHAIN_MAX"

definition fat_table_cluster_is_bad_sector :: "u32 \<Rightarrow> bool" where
  "fat_table_cluster_is_bad_sector cluster \<longleftrightarrow> cluster = FAT_CLUSTER_BAD_SECTOR"

definition fat_table_cluster_is_valid :: "u32 \<Rightarrow> bool" where
  "fat_table_cluster_is_valid cluster \<longleftrightarrow>
     \<not> fat_table_cluster_is_EOC cluster \<and> \<not> fat_table_cluster_is_bad_sector cluster"

lemma bytes_per_cluster_eq: "fat_table_bytes_per_cluster t = 2 ^ cluster_order t"
  by (simp add: fat_table_bytes_per_cluster_def push_bit_eq_mult)

lemma mask_offset_eq: "fat_table_mask_offset offset t = offset mod 2 ^ cluster_order t"
  by (simp add: fat_table_mask_offset_def bytes_per_cluster_eq take_bit_eq_mask
      mask_eq_exp_minus_1 flip: take_bit_eq_mod)

lemma remaining_bytes_eq:
  "fat_table_get_cluster_remaining_bytes t n offset = min (2 ^ cluster_order t - offset mod 2 ^ cluster_order t) n"
  by (simp add: fat_table_get_cluster_remaining_bytes_def mask_offset_eq bytes_per_cluster_eq)

lemma cluster_offset_eq:
  "fat_table_cluster_offset t c = data_start_offset t + unat (c - 2) * 2 ^ cluster_order t"
  by (simp add: fat_table_cluster_offset_def push_bit_eq_mult)

section \<open>Chains over a store of links\<close>

text \<open>
  A chain is the list of clusters that the links lead through, from its head to the cluster whose
  link is the end mark \<open>e\<close>.
\<close>

fun chain :: "('c \<Rightarrow> 'c option) \<Rightarrow> 'c \<Rightarrow> 'c list \<Rightarrow> bool" where
  "chain g e [] = False"
| "chain g e [c] = (g c = Some e)"
| "chain g e (c # d # cs) = (g c = Some d \<and> chain g e (d # cs))"

lemma chain_Cons: "chain g e (c # cs) \<longleftrightarrow> g c = Some (if cs = [] then e else hd cs) \<and> (cs = [] \<or> chain g e cs)"
  by (cases cs) auto

lemma chain_cong: "chain g e cs \<Longrightarrow> (\<And>c. c \<in> set cs \<Longrightarrow> h c = g c) \<Longrightarrow> chain h e cs"
  by (induction g e cs rule: chain.induct) auto

lemma chain_append:
  "xs \<noteq> [] \<Longrightarrow> ys \<noteq> [] \<Longrightarrow> chain g e (xs @ ys) \<longleftrightarrow> chain g (hd ys) xs \<and> chain g e ys"
  by (induction g e xs rule: chain.induct) (auto simp: chain_Cons)

lemma chain_take: "chain g e cs \<Longrightarrow> k < length cs \<Longrightarrow> chain g (if k + 1 = length cs then e else cs ! (k + 1)) (take (k + 1) cs)"
proof (cases "k + 1 = length cs")
  case False
  assume c: "chain g e cs" and k: "k < length cs"
  then have "drop (k + 1) cs \<noteq> []" "take (k + 1) cs \<noteq> []" using False by auto
  then have "chain g (hd (drop (k + 1) cs)) (take (k + 1) cs)"
    using c chain_append [of "take (k + 1) cs" "drop (k + 1) cs" g e] by simp
  then show ?thesis using False k by (simp add: hd_drop_conv_nth)
qed auto

lemma chain_drop: "chain g e cs \<Longrightarrow> k < length cs \<Longrightarrow> chain g e (drop k cs)"
proof (induction k arbitrary: cs)
  case (Suc k)
  then show ?case by (cases cs) (auto simp: chain_Cons)
qed simp

lemma chain_next:
  "chain g e cs \<Longrightarrow> k < length cs \<Longrightarrow> g (cs ! k) = Some (if k + 1 = length cs then e else cs ! (k + 1))"
proof (induction k arbitrary: cs)
  case 0
  then show ?case by (cases cs) (auto simp: chain_Cons hd_conv_nth)
next
  case (Suc k)
  then show ?case by (cases cs) (auto simp: chain_Cons)
qed

lemma chain_retarget:
  "chain g e cs \<Longrightarrow> distinct cs \<Longrightarrow> h (last cs) = Some e' \<Longrightarrow> (\<And>c. c \<in> set (butlast cs) \<Longrightarrow> h c = g c) \<Longrightarrow> chain h e' cs"
  by (induction g e cs rule: chain.induct) auto

text \<open>
  What the file operations need of a table: reading and writing links inside the valid cluster
  numbers is defined, keeps the invariant, and a written link is what the next read gives.
\<close>

primrec release :: "('s \<Rightarrow> 'c \<Rightarrow> 'c \<Rightarrow> 's option) \<Rightarrow> 'c \<Rightarrow> 's \<Rightarrow> 'c list \<Rightarrow> 's option" where
  "release put f s [] = Some s"
| "release put f s (c # cs) = put s c f \<bind> (\<lambda>s'. release put f s' cs)"

locale cluster_store =
  fixes inv :: "'s \<Rightarrow> bool"
    and ok :: "'s \<Rightarrow> 'c \<Rightarrow> bool"
    and get :: "'s \<Rightarrow> 'c \<Rightarrow> 'c option"
    and put :: "'s \<Rightarrow> 'c \<Rightarrow> 'c \<Rightarrow> 's option"
    and norm :: "'s \<Rightarrow> 'c \<Rightarrow> 'c"
  assumes put_total: "inv s \<Longrightarrow> ok s c \<Longrightarrow> \<exists>s'. put s c v = Some s'"
    and put_inv: "inv s \<Longrightarrow> ok s c \<Longrightarrow> put s c v = Some s' \<Longrightarrow> inv s'"
    and put_ok: "inv s \<Longrightarrow> ok s c \<Longrightarrow> put s c v = Some s' \<Longrightarrow> ok s' = ok s"
    and put_norm: "inv s \<Longrightarrow> ok s c \<Longrightarrow> put s c v = Some s' \<Longrightarrow> norm s' = norm s"
    and get_put: "inv s \<Longrightarrow> ok s c \<Longrightarrow> put s c v = Some s' \<Longrightarrow> get s' = (get s)(c \<mapsto> norm s v)"
begin

text \<open>A chain of a file: distinct valid clusters, closed by a mark that is no valid cluster.\<close>

lemma put_obtain:
  assumes "inv s" "ok s c"
  obtains s' where "put s c v = Some s'" "inv s'" "ok s' = ok s" "norm s' = norm s"
    "get s' = (get s)(c \<mapsto> norm s v)"
  using put_total put_inv put_ok put_norm get_put assms by metis

lemma put_frame:
  "inv s \<Longrightarrow> ok s c \<Longrightarrow> put s c v = Some s' \<Longrightarrow> c \<notin> set cs \<Longrightarrow> chain (get s) e cs \<Longrightarrow> chain (get s') e cs"
  by (erule chain_cong) (auto simp: get_put)

text \<open>Linking a fresh cluster behind the last one extends the chain by it.\<close>

lemma extend:
  assumes "inv s" "chain (get s) e cs" "distinct cs" "ok s (last cs)" "ok s n" "n \<notin> set cs"
    and "norm s n = n" "norm s e = e"
    and "put s (last cs) n = Some s1" "put s1 n e = Some s2"
  shows "chain (get s2) e (cs @ [n])" and "inv s2" and "ok s2 = ok s" and "norm s2 = norm s"
proof -
  have cs: "cs \<noteq> []" using assms(2) by auto
  have 1: "inv s1" "ok s1 = ok s" "norm s1 = norm s" "get s1 = (get s)(last cs \<mapsto> n)"
    using put_inv put_ok put_norm get_put assms by metis+
  then have 2: "get s2 = (get s)(last cs \<mapsto> n, n \<mapsto> e)"
    using get_put [of s1 n e s2] assms by simp
  have "chain (get s2) n cs"
  proof (rule chain_retarget [OF assms(2,3)])
    show "get s2 (last cs) = Some n" using 2 assms(6) cs by (auto simp: fun_upd_def)
    fix c assume "c \<in> set (butlast cs)"
    moreover from this have "c \<noteq> last cs"
      using assms(3) cs by (metis append_butlast_last_id distinct_butlast not_distinct_conv_prefix)
    moreover from calculation have "c \<noteq> n" using assms(6) by (auto dest: in_set_butlastD)
    ultimately show "get s2 c = get s c" using 2 by simp
  qed
  then show "chain (get s2) e (cs @ [n])" using cs 2 by (simp add: chain_append)
  show "inv s2" "ok s2 = ok s" "norm s2 = norm s"
    using put_inv [of s1 n e s2] put_ok [of s1 n e s2] put_norm [of s1 n e s2] 1 assms by simp_all
qed

text \<open>Writing the end mark behind position \<open>k\<close> cuts the chain there.\<close>

lemma cut:
  assumes "inv s" "chain (get s) e cs" "distinct cs" "k < length cs" "ok s (cs ! k)" "norm s e = e"
    and "put s (cs ! k) e = Some s1"
  shows "chain (get s1) e (take (k + 1) cs)"
proof -
  have g: "get s1 = (get s)(cs ! k \<mapsto> e)" using get_put assms by metis
  have last: "last (take (k + 1) cs) = cs ! k" using assms(4) by (simp add: take_Suc_conv_app_nth)
  show ?thesis
  proof (rule chain_retarget [OF chain_take [OF assms(2,4)]])
    show "distinct (take (k + 1) cs)" using assms(3) by simp
    show "get s1 (last (take (k + 1) cs)) = Some e" using last g by simp
    fix c assume "c \<in> set (butlast (take (k + 1) cs))"
    then have "c \<in> set (take k cs)" using assms(4) by (simp add: butlast_take)
    then have "c \<noteq> cs ! k" using assms(3,4) by (metis distinct_take id_take_nth_drop not_distinct_conv_prefix distinct_append disjoint_iff list.set_intros(1))
    then show "get s1 c = get s c" using g by simp
  qed
qed

text \<open>Writing one mark into every cluster of a list.\<close>

lemma release:
  assumes "inv s" "\<forall>c \<in> set cs. ok s c"
  shows "\<exists>s'. release put f s cs = Some s' \<and> inv s' \<and> ok s' = ok s \<and> norm s' = norm s
    \<and> get s' = (\<lambda>c. if c \<in> set cs then Some (norm s f) else get s c)"
  using assms
proof (induction cs arbitrary: s)
  case (Cons c cs)
  then obtain s1 where s1: "put s c f = Some s1" "inv s1" "ok s1 = ok s" "norm s1 = norm s"
    "get s1 = (get s)(c \<mapsto> norm s f)"
    using put_obtain [of s c f] by auto
  then show ?case
    using Cons.IH [of s1] Cons.prems by (auto simp: fun_eq_iff)
qed auto

end

section \<open>The table as a store of links\<close>

text \<open>
  A volume in working order: no error pending and no fault to come, the mapping covers every
  cluster number, the cluster count is one FAT32 allows, a cluster has 32 to 524288 bytes (the
  orders \<open>read_dos_2_0_bpb\<close> accepts), the table lies before the data area and the data area
  inside the device.
\<close>

definition fat_wf :: "'a fat_table_scheme \<Rightarrow> bool" where
  "fat_wf t \<longleftrightarrow> script t = [] \<and> err t = E_OK
     \<and> unat (num_data_clusters t) + 2 \<le> length (fat_map t)
     \<and> num_data_clusters t \<le> 0x0FFFFFF5
     \<and> 5 \<le> cluster_order t \<and> cluster_order t \<le> 19
     \<and> fat_offset t + 4 * length (fat_map t) \<le> data_start_offset t
     \<and> data_start_offset t + unat (num_data_clusters t) * 2 ^ cluster_order t \<le> dsize t"

abbreviation valid_cluster :: "'a fat_table_scheme \<Rightarrow> u32 \<Rightarrow> bool" where
  "valid_cluster \<equiv> fat_table_is_valid_cluster_number"

definition fat_norm :: "'a fat_table_scheme \<Rightarrow> u32 \<Rightarrow> u32" where
  "fat_norm t v = (if valid_cluster t v then v else FAT_CLUSTER_END_OF_CHAIN_MAX)"

lemma valid_cluster_bounds:
  assumes "fat_wf t" "valid_cluster t c"
  shows "2 \<le> unat c" "unat c < unat (num_data_clusters t) + 2" "unat c < length (fat_map t)"
    "unat c \<le> 0x0FFFFFF6"
proof -
  have n: "unat (num_data_clusters t) \<le> 0x0FFFFFF5" and l: "unat (num_data_clusters t) + 2 \<le> length (fat_map t)"
    using assms(1) by (auto simp: fat_wf_def word_le_nat_alt)
  have c: "2 \<le> unat c" "unat c < unat (num_data_clusters t + 2)"
    using assms(2) by (auto simp: fat_table_is_valid_cluster_number_def word_le_nat_alt word_less_nat_alt)
  have "unat (num_data_clusters t + 2) = unat (num_data_clusters t) + 2"
    using n by (subst unat_add_lem [THEN iffD1]) simp_all
  then show "2 \<le> unat c" "unat c < unat (num_data_clusters t) + 2" "unat c < length (fat_map t)"
    "unat c \<le> 0x0FFFFFF6" using c n l by simp_all
qed

lemma EOC_not_valid [simp]:
  assumes "fat_wf t"
  shows "\<not> valid_cluster t FAT_CLUSTER_END_OF_CHAIN_MAX"
  using valid_cluster_bounds(4) [OF assms] by (force simp: fat_consts)

lemma EOC_is_EOC [simp]: "fat_table_cluster_is_EOC FAT_CLUSTER_END_OF_CHAIN_MAX"
  "\<not> fat_table_cluster_is_valid FAT_CLUSTER_END_OF_CHAIN_MAX"
  by (simp_all add: fat_table_cluster_is_EOC_def fat_table_cluster_is_valid_def fat_consts)

lemma valid_cluster_plain:
  assumes "fat_wf t" "valid_cluster t c"
  shows "\<not> fat_table_cluster_is_EOC c" "fat_table_cluster_is_valid c" "c \<noteq> FAT_CLUSTER_END_OF_CHAIN_MAX"
  using valid_cluster_bounds(4) [OF assms]
  by (auto simp: fat_table_cluster_is_EOC_def fat_table_cluster_is_valid_def
      fat_table_cluster_is_bad_sector_def fat_consts word_le_nat_alt)

lemma get_next_eq:
  "fat_table_get_next_cluster t c = map_option (fat_norm t) (fat_entry t c)"
  by (cases "fat_entry t c") (auto simp: fat_table_get_next_cluster_def fat_norm_def)

lemma disk_write_fat [frame_simps, simp]:
  fixes t :: "'a fat_table_scheme"
  shows "fat_map (disk_write t off bs) = fat_map t"
    "fat_offset (disk_write t off bs) = fat_offset t"
    "num_data_clusters (disk_write t off bs) = num_data_clusters t"
    "data_start_offset (disk_write t off bs) = data_start_offset t"
    "cluster_order (disk_write t off bs) = cluster_order t"
  by (simp_all add: disk_write_def)

lemma set_next_cluster_wf:
  fixes t :: "'a fat_table_scheme"
  assumes "fat_wf t" "valid_cluster t c"
  shows "fat_table_set_next_cluster t c v = Some ((disk_write t (unat c * 4 + fat_offset t) (le32_bytes v))
    \<lparr>fat_map := (fat_map t)[unat c := v]\<rparr>)"
proof -
  have "unat (c * 4) = unat c * 4"
    using valid_cluster_bounds [OF assms] by (subst unat_mult_lem [THEN iffD1]) simp_all
  moreover have "script t = []" using assms(1) by (simp add: fat_wf_def)
  ultimately show ?thesis
    using valid_cluster_bounds [OF assms]
    by (simp add: fat_table_set_next_cluster_def sys_pwrite_def next_answer_def)
qed

lemma set_next_cluster_laws:
  fixes t :: "'a fat_table_scheme"
  assumes "fat_wf t" "valid_cluster t c" "fat_table_set_next_cluster t c v = Some t'"
  shows "fat_wf t'" "valid_cluster t' = valid_cluster t" "fat_entry t' = (fat_entry t)(c \<mapsto> v)"
    "fat_norm t' = fat_norm t"
proof -
  let ?off = "unat c * 4 + fat_offset t"
  have t': "t' = (disk_write t ?off (le32_bytes v))\<lparr>fat_map := (fat_map t)[unat c := v]\<rparr>"
    using assms set_next_cluster_wf [OF assms(1,2)] by simp
  show valid: "valid_cluster t' = valid_cluster t"
    by (auto simp: t' fun_eq_iff fat_table_is_valid_cluster_number_def)
  show "fat_norm t' = fat_norm t" using valid by (auto simp: fun_eq_iff fat_norm_def)
  have "?off + 4 \<le> dsize t"
    using valid_cluster_bounds [OF assms(1,2)] assms(1) by (simp add: fat_wf_def)
  then show "fat_wf t'" using assms(1) by (simp add: fat_wf_def t')
  show "fat_entry t' = (fat_entry t)(c \<mapsto> v)"
    using valid_cluster_bounds(3) [OF assms(1,2)]
    by (auto simp: t' fat_entry_def fun_eq_iff nth_list_update word_unat_eq_iff)
qed

lemma set_next_get_next:
  assumes "fat_wf t" "valid_cluster t c" "fat_table_set_next_cluster t c v = Some t'"
  shows "fat_table_get_next_cluster t' = (fat_table_get_next_cluster t)(c \<mapsto> fat_norm t v)"
  using set_next_cluster_laws [OF assms] by (intro ext) (simp add: get_next_eq)

interpretation raw: cluster_store fat_wf fat_table_is_valid_cluster_number fat_entry
    fat_table_set_next_cluster "\<lambda>_ v. v"
  by unfold_locales (blast intro: set_next_cluster_wf set_next_cluster_laws)+

interpretation links: cluster_store fat_wf fat_table_is_valid_cluster_number fat_table_get_next_cluster
    fat_table_set_next_cluster fat_norm
  by unfold_locales (blast intro: set_next_cluster_wf set_next_cluster_laws set_next_get_next)+

section \<open>Finding a free cluster\<close>

lemma next_free_from_zero: "next_free_from t c = Some r \<Longrightarrow> fat_entry t r = Some 0"
proof (rule next_free_from.raw_induct [where P = "\<lambda>t c r. fat_entry t r = Some 0"])
  fix f and t :: "'a fat_table_scheme" and c r
  assume "\<And>t c r. f t c = Some r \<Longrightarrow> fat_entry t r = Some 0"
    and "fat_entry t c \<bind> (\<lambda>v. if v \<noteq> FAT_CLUSTER_FREE then f t (c + 1) else Some c) = Some r"
  then show "fat_entry t r = Some 0" by (auto simp: fat_consts split: if_splits)
qed

lemma next_free_from_least:
  assumes "unat c < length (fat_map t)" "unat c \<le> k" "k < length (fat_map t)" "k < 2 ^ 32"
    and "fat_map t ! k = 0" "\<forall>i. unat c \<le> i \<and> i < k \<longrightarrow> fat_map t ! i \<noteq> 0"
  shows "next_free_from t c = Some (of_nat k)"
  using assms
proof (induction "k - unat c" arbitrary: c)
  case 0
  then have uc: "unat c = k" by simp
  have "next_free_from t c = Some c"
    using 0 uc by (subst next_free_from.simps) (simp add: fat_entry_def fat_consts)
  then show ?case using uc by auto
next
  case (Suc n)
  then have "fat_entry t c = Some (fat_map t ! unat c)" "fat_map t ! unat c \<noteq> 0"
    by (auto simp: fat_entry_def)
  moreover have "unat (c + 1) = unat c + 1"
    using Suc by (subst unat_add_lem [THEN iffD1]) simp_all
  ultimately show ?case
    using Suc.hyps(1) [of "c + 1"] Suc.prems Suc.hyps(2)
    by (simp add: next_free_from.simps [of t c] fat_consts)
qed

lemma next_free_least:
  assumes "fat_wf t" and "valid_cluster t d" and "fat_entry t d = Some 0"
  shows "\<exists>c. fat_table_get_next_free_cluster t = Some c \<and> valid_cluster t c
    \<and> fat_entry t c = Some 0 \<and> (\<forall>b. valid_cluster t b \<and> b < c \<longrightarrow> fat_entry t b \<noteq> Some 0)"
proof -
  define P where "P k \<longleftrightarrow> 2 \<le> k \<and> k < length (fat_map t) \<and> fat_map t ! k = 0" for k
  have d: "P (unat d)" using valid_cluster_bounds [OF assms(1,2)] assms(3)
    by (auto simp: P_def fat_entry_def)
  define k where "k = (LEAST k. P k)"
  have k: "P k" and least: "\<And>i. P i \<Longrightarrow> k \<le> i"
    unfolding k_def using d by (auto intro: LeastI Least_le)
  have kd: "k \<le> unat d" using least d by simp
  have unat_d: "unat d < 2 ^ LENGTH(32)" by (rule unsigned_less)
  with kd have k32: "k < 2 ^ 32" using unat_d by simp
  have "next_free_from t 2 = Some (of_nat k)"
  proof (rule next_free_from_least)
    show "\<forall>i. unat (2 :: u32) \<le> i \<and> i < k \<longrightarrow> fat_map t ! i \<noteq> 0"
      using least k by (fastforce simp: P_def)
  qed (use k k32 in \<open>auto simp: P_def\<close>)
  moreover have uk: "unat (of_nat k :: u32) = k" using k32 by (simp add: unat_of_nat)
  moreover have valid: "valid_cluster t (of_nat k)"
    using k kd uk assms(2)
    by (auto simp: P_def fat_table_is_valid_cluster_number_def word_le_nat_alt word_less_nat_alt)
  moreover have "fat_entry t b \<noteq> Some 0" if "valid_cluster t b" "b < of_nat k" for b
    using valid_cluster_bounds [OF assms(1) that(1)] least [of "unat b"] that(2) uk
    by (auto simp: fat_entry_def P_def word_less_nat_alt)
  ultimately show ?thesis using k
    by (auto simp: fat_table_get_next_free_cluster_def P_def fat_entry_def)
qed

text \<open>
  when some valid cluster is free, \<open>fat_table_get_next_free_cluster\<close> returns the free
  cluster with the smallest number.
\<close>

theorem next_free_cluster_least:
  assumes "fat_wf t" and "valid_cluster t d" and "fat_entry t d = Some 0"
  shows "\<exists>c. fat_table_get_next_free_cluster t = Some c \<and> valid_cluster t c
    \<and> fat_entry t c = Some 0 \<and> (\<forall>b. valid_cluster t b \<and> b < c \<longrightarrow> fat_entry t b \<noteq> Some 0)"
  by (rule next_free_least [OF assms])

text \<open>A volume of three clusters used in examples: cluster 2 links to 4, cluster 3 is free.\<close>

definition small_fat :: fat_table where
  "small_fat = \<lparr>disk = (\<lambda>_. 0), dsize = 512, script = [], err = E_OK,
     fat_map = [0x0FFFFFF8, 0x0FFFFFFF, 4, 0, 0x0FFFFFFF, 0x0FFFFFFF], fat_offset = 32, num_data_clusters = 4,
     data_start_offset = 64, cluster_order = 5\<rparr>"

lemma small_fat_wf [simp]: "fat_wf small_fat"
  by (simp add: small_fat_def fat_wf_def)

theorem next_free_cluster_least_witness:
  "\<exists>c. fat_table_get_next_free_cluster small_fat = Some c \<and> valid_cluster small_fat c
    \<and> fat_entry small_fat c = Some 0
    \<and> (\<forall>b. valid_cluster small_fat b \<and> b < c \<longrightarrow> fat_entry small_fat b \<noteq> Some 0)"
  by (rule next_free_cluster_least [of _ 3])
    (simp_all add: small_fat_def fat_table_is_valid_cluster_number_def fat_entry_def fat_wf_def)

text \<open>
  on a volume whose table holds no free entry the search has no defined outcome: it never
  reports the full volume, but reads on until it leaves the mapping.
\<close>

theorem next_free_cluster_full:
  assumes "0 \<notin> set (fat_map t)"
  shows "fat_table_get_next_free_cluster t = None"
proof (rule ccontr)
  assume "fat_table_get_next_free_cluster t \<noteq> None"
  then obtain r where "next_free_from t 2 = Some r"
    by (auto simp: fat_table_get_next_free_cluster_def)
  then have "fat_entry t r = Some 0" by (rule next_free_from_zero)
  then show False using assms by (auto simp: fat_entry_def split: if_splits) (metis nth_mem)
qed

theorem next_free_cluster_full_witness:
  "fat_table_get_next_free_cluster (small_fat\<lparr>fat_map := [1, 1, 3, 4, 5, 0x0FFFFFFF]\<rparr>) = None"
  by (rule next_free_cluster_full) simp

section \<open>Walking a chain\<close>

text \<open>The chain of a file in the table: distinct valid clusters, ended by an end mark.\<close>

definition file_chain :: "'a fat_table_scheme \<Rightarrow> u32 list \<Rightarrow> bool" where
  "file_chain t cs \<longleftrightarrow> chain (fat_table_get_next_cluster t) FAT_CLUSTER_END_OF_CHAIN_MAX cs
     \<and> distinct cs \<and> (\<forall>c \<in> set cs. valid_cluster t c)"

lemma file_chain_nonempty [simp]: "file_chain t cs \<Longrightarrow> cs \<noteq> []"
  by (auto simp: file_chain_def)

lemma seek_loop_chain:
  assumes "fat_wf t" "file_chain t cs" "k < length cs"
  shows "seek_loop n t (cs ! k) =
    (if k + n < length cs then Some (cs ! (k + n), t)
     else if k + n = length cs then Some (FAT_CLUSTER_END_OF_CHAIN_MAX, t)
     else Some (0, t\<lparr>err := EOVERFLOW\<rparr>))"
  using assms(3)
proof (induction n arbitrary: k)
  case (Suc n)
  have nx: "fat_table_get_next_cluster t (cs ! k)
      = Some (if k + 1 = length cs then FAT_CLUSTER_END_OF_CHAIN_MAX else cs ! (k + 1))"
    using assms(2) Suc.prems by (auto simp: file_chain_def dest: chain_next)
  have neq: "cs ! k \<noteq> FAT_CLUSTER_END_OF_CHAIN_MAX"
    using assms Suc.prems by (intro valid_cluster_plain(3) [OF assms(1)]) (simp add: file_chain_def)
  show ?case
  proof (cases "k + 1 = length cs")
    case True
    then show ?thesis using nx neq by (cases n) auto
  next
    case False
    then have "k + 1 < length cs" using Suc.prems by simp
    with Suc.IH [OF this] show ?thesis using nx neq False by simp
  qed
qed simp

lemma seek_cluster_chain:
  assumes "fat_wf t" "file_chain t cs" "offset div 2 ^ cluster_order t < 2 ^ 32"
  shows "fat_table_seek_cluster t (hd cs) offset =
    (let k = offset div 2 ^ cluster_order t in
     if k < length cs then Some (cs ! k, t)
     else if k = length cs then Some (FAT_CLUSTER_END_OF_CHAIN_MAX, t)
     else Some (0, t\<lparr>err := EOVERFLOW\<rparr>))"
proof -
  have "unat (of_nat (drop_bit (cluster_order t) offset) :: u32) = offset div 2 ^ cluster_order t"
    using assms(3) by (simp add: unat_of_nat drop_bit_eq_div)
  moreover have "cs \<noteq> []" using assms(2) by simp
  ultimately show ?thesis
    using seek_loop_chain [OF assms(1,2), of 0 "offset div 2 ^ cluster_order t"]
    by (simp add: fat_table_seek_cluster_def Let_def hd_conv_nth)
qed

text \<open>
  \<open>fat_table_seek_cluster\<close> finds the cluster that holds a byte offset of a file; an offset
  just past the last cluster gives the end mark, a larger one \<open>EOVERFLOW\<close>.
\<close>

theorem seek_cluster_finds:
  assumes "fat_wf t" and "file_chain t cs" and "offset div 2 ^ cluster_order t < 2 ^ 32"
  shows "fat_table_seek_cluster t (hd cs) offset =
    (if offset < length cs * 2 ^ cluster_order t then Some (cs ! (offset div 2 ^ cluster_order t), t)
     else if offset div 2 ^ cluster_order t = length cs then Some (FAT_CLUSTER_END_OF_CHAIN_MAX, t)
     else Some (0, t\<lparr>err := EOVERFLOW\<rparr>))"
  using seek_cluster_chain [OF assms] by (simp add: Let_def div_less_iff_less_mult)

lemma small_fat_chain [simp]: "file_chain small_fat [2, 4]"
  by (simp add: file_chain_def small_fat_def fat_table_get_next_cluster_def fat_entry_def
      fat_table_is_valid_cluster_number_def fat_consts)

theorem seek_cluster_finds_witness:
  "fat_table_seek_cluster small_fat 2 40 = Some (4, small_fat)"
  using seek_cluster_finds [OF small_fat_wf small_fat_chain, of 40] by (simp add: small_fat_def)

section \<open>Memory and image agree\<close>

text \<open>Every entry of the mapped table is stored on the device, in little-endian order.\<close>

definition fat_mirrors :: "'a fat_table_scheme \<Rightarrow> bool" where
  "fat_mirrors t \<longleftrightarrow> (\<forall>i < length (fat_map t). disk_read t (fat_offset t + 4 * i) 4 = le32_bytes (fat_map t ! i))"

text \<open>
  writing an entry keeps the table in memory and the table on the device equal; when the
  device refuses the write, both stay as they were and \<open>EIO\<close> is reported.
\<close>

theorem set_next_cluster_mirrors:
  fixes t :: "'a fat_table_scheme"
  assumes "fat_wf t" and "valid_cluster t c" and "fat_mirrors t"
  shows "(\<exists>t'. fat_table_set_next_cluster t c v = Some t' \<and> fat_mirrors t' \<and> fat_entry t' c = Some v)
    \<and> fat_table_set_next_cluster (t\<lparr>script := [IO_Error e]\<rparr>) c v = Some (t\<lparr>err := EIO\<rparr>)"
proof -
  let ?t = "(disk_write t (unat c * 4 + fat_offset t) (le32_bytes v))\<lparr>fat_map := (fat_map t)[unat c := v]\<rparr>"
  have "disk_read ?t (fat_offset t + 4 * i) 4 = le32_bytes ((fat_map t)[unat c := v] ! i)"
    if i: "i < length (fat_map t)" for i
  proof (cases "i = unat c")
    case True
    then show ?thesis using i disk_read_write_same [of t "unat c * 4 + fat_offset t" "le32_bytes v"]
      by (simp add: disk_read_def add.commute mult.commute)
  next
    case False
    have "fat_offset t + 4 * unat c \<le> dsize t"
      using assms(1) valid_cluster_bounds(3) [OF assms(1,2)] by (simp add: fat_wf_def)
    moreover have "fat_offset t + 4 * i + 4 \<le> unat c * 4 + fat_offset t
        \<or> unat c * 4 + fat_offset t + 4 \<le> fat_offset t + 4 * i"
      using False by (cases "i < unat c") auto
    ultimately have "disk_read ?t (fat_offset t + 4 * i) 4 = disk_read t (fat_offset t + 4 * i) 4"
      using disk_read_write_disjoint [of "fat_offset t + 4 * i" 4 "unat c * 4 + fat_offset t" "le32_bytes v" t]
      by (simp add: disk_read_def)
    then show ?thesis using assms(3) i False by (simp add: fat_mirrors_def)
  qed
  then have "fat_mirrors ?t" by (simp add: fat_mirrors_def)
  moreover have "fat_entry ?t c = Some v"
    using valid_cluster_bounds(3) [OF assms(1,2)] by (simp add: fat_entry_def)
  ultimately have ok: "\<exists>t'. fat_table_set_next_cluster t c v = Some t' \<and> fat_mirrors t' \<and> fat_entry t' c = Some v"
    using set_next_cluster_wf [OF assms(1,2)] by blast
  have "script t = []" using assms(1) by (simp add: fat_wf_def)
  then have "fat_table_set_next_cluster (t\<lparr>script := [IO_Error e]\<rparr>) c v = Some (t\<lparr>err := EIO\<rparr>)"
    by (cases t) (simp add: fat_table_set_next_cluster_def sys_pwrite_def next_answer_def)
  with ok show ?thesis by blast
qed

text \<open>The small volume with its table written to the device.\<close>

definition small_image :: fat_table where
  "small_image = small_fat\<lparr>disk := (\<lambda>i. if 32 \<le> i \<and> i < 56
     then concat (map le32_bytes (fat_map small_fat)) ! (i - 32) else 0)\<rparr>"

lemma small_image_wf [simp]: "fat_wf small_image"
  using small_fat_wf by (simp add: fat_wf_def small_image_def)

lemma small_image_mirrors [simp]: "fat_mirrors small_image"
proof -
  have "disk_read small_image (32 + 4 * i) 4 = le32_bytes (fat_map small_fat ! i)" if "i < 6" for i
  proof -
    have "i \<in> {0, 1, 2, 3, 4, 5}" using that by auto
    then show ?thesis
      by (auto simp: disk_read_def small_image_def small_fat_def le32_bytes_def upt_rec)
  qed
  then show ?thesis by (simp add: fat_mirrors_def small_image_def small_fat_def)
qed

theorem set_next_cluster_mirrors_witness:
  "(\<exists>t'. fat_table_set_next_cluster small_image 3 4 = Some t' \<and> fat_mirrors t' \<and> fat_entry t' 3 = Some 4)
    \<and> fat_table_set_next_cluster (small_image\<lparr>script := [IO_Error EIO]\<rparr>) 3 4 = Some (small_image\<lparr>err := EIO\<rparr>)"
  by (rule set_next_cluster_mirrors [OF small_image_wf _ small_image_mirrors])
    (simp add: small_image_def small_fat_def fat_table_is_valid_cluster_number_def)

end
