(* ===== verification/Fat_Filename.thy ===== *)
theory Fat_Filename
  imports Fat_Util
begin

text \<open>
  \<open>Lab4/fat-fuse/fat_filename_util.c\<close>: conversion between paths and the 8.3 names of directory
  entries. A \<open>char *\<close> argument is the list of bytes from the pointer to the end of its
  allocation; reading past that end is \<open>None\<close>.
\<close>

section \<open>Legal characters\<close>

definition char_legal_in_filename :: "u8 \<Rightarrow> bool" where
  "char_legal_in_filename c \<longleftrightarrow>
     97 \<le> c \<and> c \<le> 122 \<or> 65 \<le> c \<and> c \<le> 90 \<or> 48 \<le> c \<and> c \<le> 57 \<or> 128 \<le> c
     \<or> c \<in> {32, 36, 37, 45, 95, 64, 126, 96, 33, 40, 41, 123, 125, 94, 35, 38}"

fun inline_strcmp :: "bytes \<Rightarrow> bytes \<Rightarrow> int option" where
  "inline_strcmp (c # cs) (d # ds) =
     (if c \<noteq> 0 \<and> c = d then inline_strcmp cs ds else Some (sint c - sint d))"
| "inline_strcmp _ _ = None"

text \<open>The \<open>do\<close> loop of \<open>file_basename_valid\<close> on the bytes from position \<open>i\<close> on.\<close>

fun basename_valid_from :: "bytes \<Rightarrow> bool" where
  "basename_valid_from [] = True"
| "basename_valid_from (c # cs) =
     (char_legal_in_filename c \<and> (cs = [] \<or> hd cs = 0 \<or> hd cs = 0x20 \<or> basename_valid_from cs))"

definition file_basename_valid :: "bytes \<Rightarrow> bool" where
  "file_basename_valid base_name =
     (if base_name ! 0 = 0 \<or> base_name ! 0 = 0x20 \<or> base_name ! 0 = 0xe5 then False
      else basename_valid_from base_name)"

fun file_extension_valid :: "bytes \<Rightarrow> bool" where
  "file_extension_valid [] = True"
| "file_extension_valid (c # cs) =
     (if c = 0 \<or> c = 0x20 then True
      else if \<not> char_legal_in_filename c then False else file_extension_valid cs)"

section \<open>From directory entry to name\<close>

fun filename_len :: "bytes \<Rightarrow> nat \<Rightarrow> nat option" where
  "filename_len name 0 = None"
| "filename_len name (Suc len) =
     (if length name \<le> len then None
      else if name ! len \<noteq> 0x20 \<and> name ! len \<noteq> 0 then Some (Suc len)
      else if len = 0 then Some 0 else filename_len name len)"

text \<open>The bytes \<open>build_filename\<close> writes to its destination, the closing NUL included.\<close>

definition build_filename :: "bytes \<Rightarrow> bytes \<Rightarrow> bytes option" where
  "build_filename src_name src_extension = do {
     name_len \<leftarrow> filename_len src_name 8;
     (if name_len = 0 then Some [0x2F, 0]
      else do {
        extension_len \<leftarrow> filename_len src_extension 3;
        Some (take name_len src_name
          @ (if extension_len \<noteq> 0 then 0x2E # take extension_len src_extension else []) @ [0]) }) }"

section \<open>From path to directory entry\<close>

text \<open>
  \<open>filename_from_path\<close> writes into a 32-byte directory entry, the base name at offset 0 and the
  extension at offset 8; writing past the entry is \<open>None\<close>. \<open>strrchr_dot\<close> is \<open>strrchr(s, '.')\<close>.
\<close>

definition strrchr_dot :: "bytes \<Rightarrow> nat option" where
  "strrchr_dot s = (let dots = filter (\<lambda>i. s ! i = 0x2E) [0..<c_strlen s]
     in if dots = [] then None else Some (last dots))"

function copy_base :: "bytes \<Rightarrow> nat option \<Rightarrow> nat \<Rightarrow> nat \<Rightarrow> bytes \<Rightarrow> nat \<times> bytes" where
  "copy_base src dot_pos name_len i d =
     (let d1 = d[i := src ! i] in
      if i + 1 < name_len \<and> dot_pos \<noteq> Some (i + 1)
      then copy_base src dot_pos name_len (i + 1) d1 else (i + 1, d1))"
  by pat_completeness auto
termination by (relation "measure (\<lambda>(src, dot, n, i, d). n - i)") auto

function copy_extension :: "bytes \<Rightarrow> nat \<Rightarrow> nat \<Rightarrow> bytes \<Rightarrow> (nat \<times> bytes) option" where
  "copy_extension src i j d =
     (if length src \<le> i then None
      else if src ! i = 0x20 \<or> src ! i = 0 then Some (j, d)
      else if length d \<le> 8 + j then None
      else copy_extension src (i + 1) (j + 1) (d[8 + j := src ! i]))"
  by pat_completeness auto
termination by (relation "measure (\<lambda>(src, i, j, d). length src - i)") auto

declare copy_base.simps [simp del] copy_extension.simps [simp del]

definition filename_from_path :: "bytes \<Rightarrow> bytes \<Rightarrow> bytes option" where
  "filename_from_path src d = do {
     name_len \<leftarrow> filename_len src 8;
     (if name_len = 0 then Some (d[0 := 0, 8 := 0])
      else if 0 \<notin> set src then None
      else let dot_pos = strrchr_dot src; (i, d1) = copy_base src dot_pos name_len 0 d in do {
        (j, d2) \<leftarrow> (if dot_pos \<noteq> None \<and> i < name_len then copy_extension src (i + 1) 0 d1
                    else Some (0, d1));
        Some (if j < 3 then d2[8 + (j + 1) := 0] else d2) }) }"

text \<open>
  \<open>filepath_from_name\<close>: the size it allocates and the bytes it writes there. The arguments are
  the strings without their NUL.
\<close>

definition filepath_from_name :: "bytes \<Rightarrow> bytes \<Rightarrow> (nat \<times> bytes) option" where
  "filepath_from_name parent_filepath file_name =
     (if parent_filepath = [] then None
      else Some (length parent_filepath + length file_name + 1,
        parent_filepath @ (if last parent_filepath \<noteq> 0x2F then [0x2F] else []) @ file_name @ [0]))"

section \<open>The loops\<close>

abbreviation blank :: "u8 \<Rightarrow> bool" where "blank c \<equiv> c = 0x20 \<or> c = 0"

lemma filename_len_eq:
  "k \<le> n \<Longrightarrow> 0 < n \<Longrightarrow> n \<le> length x \<Longrightarrow> (k = 0 \<or> \<not> blank (x ! (k - 1)))
    \<Longrightarrow> (\<And>i. k \<le> i \<Longrightarrow> i < n \<Longrightarrow> blank (x ! i)) \<Longrightarrow> filename_len x n = Some k"
proof (induction n)
  case (Suc n)
  show ?case
  proof (cases "k = Suc n")
    case False
    then have "blank (x ! n)" using Suc.prems by simp
    then show ?thesis using Suc False by (cases "n = 0") auto
  qed (use Suc in auto)
qed simp

lemma filename_len_le: "0 < n \<Longrightarrow> n \<le> length x \<Longrightarrow> \<exists>k \<le> n. filename_len x n = Some k"
proof (induction n)
  case (Suc n)
  then show ?case by (cases "n = 0") (auto simp: le_Suc_eq)
qed simp

lemma copy_base_result:
  assumes "i < m" "m \<le> n" "m = n \<or> dot = Some m" "\<And>j. i < j \<Longrightarrow> j < m \<Longrightarrow> dot \<noteq> Some j" "m \<le> length d"
  shows "\<exists>d'. copy_base src dot n i d = (m, d') \<and> length d' = length d
    \<and> (\<forall>j < length d. d' ! j = (if i \<le> j \<and> j < m then src ! j else d ! j))"
  using assms
proof (induction "m - i" arbitrary: i d)
  case (Suc k)
  show ?case
  proof (cases "i + 1 = m")
    case True
    then show ?thesis using Suc.prems
      by (auto simp: copy_base.simps [of src dot n i d] Let_def nth_list_update)
  next
    case False
    then have "copy_base src dot n i d = copy_base src dot n (i + 1) (d[i := src ! i])"
      using Suc.prems by (subst copy_base.simps) (auto simp: Let_def)
    moreover have "\<exists>d'. copy_base src dot n (i + 1) (d[i := src ! i]) = (m, d') \<and> length d' = length (d[i := src ! i])
      \<and> (\<forall>j < length (d[i := src ! i]). d' ! j = (if i + 1 \<le> j \<and> j < m then src ! j else d[i := src ! i] ! j))"
      by (rule Suc.hyps(1)) (use Suc.hyps(2) Suc.prems False in auto)
    ultimately show ?thesis using Suc.prems by (fastforce simp: nth_list_update)
  qed
qed simp

lemma copy_extension_result:
  assumes "drop i src = e @ 0 # rest" "\<forall>c \<in> set e. \<not> blank c" "8 + j + length e \<le> length d"
  shows "\<exists>d'. copy_extension src i j d = Some (j + length e, d') \<and> length d' = length d
    \<and> (\<forall>k < length d. d' ! k = (if 8 + j \<le> k \<and> k < 8 + j + length e then e ! (k - 8 - j) else d ! k))"
  using assms
proof (induction e arbitrary: i j d)
  case Nil
  then have "i < length src" "src ! i = 0" by (auto simp: drop_eq_Nil2 nth_via_drop intro: ccontr)
  then show ?case by (auto simp: copy_extension.simps [of src i j d])
next
  case (Cons c e)
  have c: "i < length src" "src ! i = c"
    using Cons.prems(1) nth_via_drop [of i src c] by (auto intro: ccontr)
  have "drop (i + 1) src = e @ 0 # rest"
    using Cons.prems(1) by (metis append_Cons drop_Suc list.sel(3) tl_drop Suc_eq_plus1)
  then obtain d' where d': "copy_extension src (i + 1) (j + 1) (d[8 + j := c]) = Some (j + 1 + length e, d')"
    "length d' = length d"
    "\<forall>k < length d. d' ! k = (if 8 + (j + 1) \<le> k \<and> k < 8 + (j + 1) + length e then e ! (k - 8 - (j + 1))
        else d[8 + j := c] ! k)"
    using Cons.IH [of "i + 1" "j + 1" "d[8 + j := c]"] Cons.prems by auto
  have "copy_extension src i j d = Some (j + length (c # e), d')"
    using c Cons.prems d'(1) by (subst copy_extension.simps) auto
  moreover have "d' ! k = (if 8 + j \<le> k \<and> k < 8 + j + length (c # e) then (c # e) ! (k - 8 - j) else d ! k)"
    if "k < length d" for k
    using d'(3) that by (cases "k = 8 + j") (auto simp: nth_Cons' nth_list_update)
  ultimately show ?case using d'(2) by blast
qed

lemma strrchr_dot_none: "0x2E \<notin> set xs \<Longrightarrow> 0 \<notin> set xs \<Longrightarrow> strrchr_dot (xs @ 0 # ys) = None"
proof -
  assume d: "0x2E \<notin> set xs" and z: "0 \<notin> set xs"
  have "c_strlen (xs @ 0 # ys) = length xs" using c_string_append [OF z, of ys] by (simp add: c_strlen_def c_string_def)
  moreover have "filter (\<lambda>i. (xs @ 0 # ys) ! i = 0x2E) [0..<length xs] = []"
    using d by (auto simp: filter_empty_conv nth_append) (metis nth_mem)
  ultimately show ?thesis by (simp add: strrchr_dot_def)
qed

lemma strrchr_dot_last:
  assumes "0x2E \<notin> set e" "0 \<notin> set b" "0 \<notin> set e"
  shows "strrchr_dot (b @ 0x2E # e @ 0 # ys) = Some (length b)"
proof -
  let ?s = "b @ 0x2E # e @ 0 # ys"
  have "c_strlen ?s = length b + 1 + length e"
    using c_string_append [of "b @ 0x2E # e" ys] assms by (simp add: c_strlen_def c_string_def)
  then have "[0..<c_strlen ?s] = [0..<length b + 1] @ [length b + 1..<length b + 1 + length e]"
    using upt_add_eq_append [of 0 "length b + 1" "length e"] by (simp only: add.assoc)
  moreover have nz: "?s ! i \<noteq> 0x2E" if "length b + 1 \<le> i" "i < length b + 1 + length e" for i
  proof -
    have "?s ! i = e ! (i - (length b + 1))" using that by (auto simp: nth_append nth_Cons')
    moreover have "e ! (i - (length b + 1)) \<in> set e" using that by (intro nth_mem) arith
    ultimately show ?thesis using assms(1) by auto
  qed
  moreover have "filter (\<lambda>i. ?s ! i = 0x2E) [length b + 1..<length b + 1 + length e] = []"
    using nz by (auto simp: filter_empty_conv simp del: upt_Suc)
  ultimately have "filter (\<lambda>i. ?s ! i = 0x2E) [0..<c_strlen ?s]
      = filter (\<lambda>i. ?s ! i = 0x2E) [0..<length b] @ [length b]"
    by (simp only: filter_append) simp
  then show ?thesis by (simp add: strrchr_dot_def)
qed

lemma take_nth_eq: "n \<le> length d \<Longrightarrow> (\<And>j. j < n \<Longrightarrow> d ! j = f j) \<Longrightarrow> take n d = map f [0..<n]"
  by (rule nth_equalityI) auto

section \<open>Names survive the round trip\<close>

text \<open>The entry \<open>fat_file_init_direntry\<close> starts from, and the two name fields of an entry.\<close>

abbreviation "blank_entry \<equiv> replicate 32 (0 :: u8)"

definition entry_name :: "bytes \<Rightarrow> bytes option" where
  "entry_name d = build_filename (take 8 d) (take 3 (drop 8 d))"

lemma entry_name_eq:
  assumes "length d = 32" "0 < k" "k \<le> 8" "\<not> blank (d ! (k - 1))" "\<And>i. k \<le> i \<Longrightarrow> i < 8 \<Longrightarrow> blank (d ! i)"
    and "j \<le> 3" "j = 0 \<or> \<not> blank (d ! (8 + j - 1))" "\<And>i. j \<le> i \<Longrightarrow> i < 3 \<Longrightarrow> blank (d ! (8 + i))"
  shows "entry_name d = Some (take k d @ (if j \<noteq> 0 then 0x2E # take j (drop 8 d) else []) @ [0])"
proof -
  have "filename_len (take 8 d) 8 = Some k"
    using assms(1-5) by (intro filename_len_eq) auto
  moreover have "filename_len (take 3 (drop 8 d)) 3 = Some j"
    using assms(1,6-8) by (intro filename_len_eq) auto
  ultimately show ?thesis using assms(2,3,6) by (simp add: entry_name_def build_filename_def min_absorb1)
qed

text \<open>A legal 8.3 name, split at its dot.\<close>

definition name_part :: "bytes \<Rightarrow> bool" where
  "name_part b \<longleftrightarrow> (\<forall>c \<in> set b. \<not> blank c \<and> c \<noteq> 0x2E)"

lemma name_part_zero: "name_part b \<Longrightarrow> 0 \<notin> set b" and name_part_dot: "name_part b \<Longrightarrow> 0x2E \<notin> set b"
  by (auto simp: name_part_def)

lemma name_part_nth: "name_part b \<Longrightarrow> i < length b \<Longrightarrow> \<not> blank (b ! i) \<and> b ! i \<noteq> 0x2E"
  by (auto simp: name_part_def)

lemma from_path_plain:
  assumes "name_part b" "0 < length b" "length b \<le> 8"
  shows "\<exists>d. filename_from_path (b @ replicate 8 0) blank_entry = Some d \<and> length d = 32
    \<and> (\<forall>j < 32. d ! j = (if j < length b then b ! j else 0))"
proof -
  let ?src = "b @ 0 # replicate 7 0"
  have src: "b @ replicate 8 0 = ?src" by (simp add: numeral_eq_Suc)
  have len: "filename_len ?src 8 = Some (length b)"
    using assms name_part_nth [OF assms(1), of "length b - 1"]
    by (intro filename_len_eq) (auto simp: nth_append nth_Cons')
  have dot: "strrchr_dot ?src = None"
    using strrchr_dot_none assms(1) name_part_zero name_part_dot by blast
  obtain d where d: "copy_base ?src None (length b) 0 blank_entry = (length b, d)" "length d = 32"
    "\<forall>j < 32. d ! j = (if j < length b then ?src ! j else 0)"
    using copy_base_result [of 0 "length b" "length b" None blank_entry ?src] assms by auto
  have "filename_from_path ?src blank_entry = Some (d[9 := 0])"
    using assms(2) by (simp add: filename_from_path_def len dot d)
  moreover have "d[9 := 0] ! j = (if j < length b then b ! j else 0)" if "j < 32" for j
    using that assms(3) d by (auto simp: nth_list_update nth_append)
  ultimately show ?thesis using d(2) src by auto
qed

lemma from_path_dotted:
  assumes "name_part b" "0 < length b" "length b \<le> 7" "name_part e" "length e \<le> 3" "e \<noteq> []"
  shows "\<exists>d. filename_from_path (b @ 0x2E # e @ replicate 8 0) blank_entry = Some d \<and> length d = 32
    \<and> (\<forall>j < 32. d ! j = (if j < length b then b ! j else if 8 \<le> j \<and> j < 8 + length e then e ! (j - 8) else 0))"
proof -
  let ?src = "b @ 0x2E # e @ 0 # replicate 7 0"
  have src: "b @ 0x2E # e @ replicate 8 0 = ?src" by (simp add: numeral_eq_Suc)
  have e: "0 < length e" using assms(6) by simp
  have len: "filename_len ?src 8 = Some (min 8 (length b + 1 + length e))"
    using assms name_part_nth [OF assms(4)] e
    by (intro filename_len_eq) (auto simp: nth_append nth_Cons' min_def split: if_splits)
  then obtain n where n: "filename_len ?src 8 = Some n" "length b < n" using assms(3) e by auto
  have dot: "strrchr_dot ?src = Some (length b)"
    using strrchr_dot_last assms name_part_zero name_part_dot by blast
  obtain d where d: "copy_base ?src (Some (length b)) n 0 blank_entry = (length b, d)"
    "length d = 32" "\<forall>j < 32. d ! j = (if j < length b then ?src ! j else 0)"
    using copy_base_result [of 0 "length b" n "Some (length b)" blank_entry ?src] assms n(2)
    by auto
  obtain d' where d': "copy_extension ?src (length b + 1) 0 d = Some (length e, d')" "length d' = 32"
    "\<forall>k < 32. d' ! k = (if 8 \<le> k \<and> k < 8 + length e then e ! (k - 8) else d ! k)"
    using copy_extension_result [of "length b + 1" ?src e "replicate 7 0" 0 d] assms d(2)
    by (auto simp: name_part_def)
  have "filename_from_path ?src blank_entry = Some (if length e < 3 then d'[8 + (length e + 1) := 0] else d')"
    using assms(2,3) e d' n(2) by (simp add: filename_from_path_def n(1) dot d)
  moreover have "(if length e < 3 then d'[8 + (length e + 1) := 0] else d') ! j
      = (if j < length b then b ! j else if 8 \<le> j \<and> j < 8 + length e then e ! (j - 8) else 0)"
    if "j < 32" for j
    using that assms(3,5) d d' by (auto simp: nth_list_update nth_append)
  ultimately show ?thesis using d'(2) src by auto
qed

text \<open>
  converting a name to a directory entry and back gives the name again: for a base name of 1
  to 7 characters with an extension of 1 to 3, and of 1 to 8 characters without one, when zero
  bytes follow the name in memory.
\<close>

theorem filename_roundtrip:
  assumes "name_part b" and "name_part e" and "0 < length b" and "length e \<le> 3"
    and "length b + (if e = [] then 0 else 1) \<le> 8"
  shows "\<exists>d. filename_from_path (b @ (if e = [] then [] else 0x2E # e) @ replicate 8 0) blank_entry = Some d
    \<and> entry_name d = Some (b @ (if e = [] then [] else 0x2E # e) @ [0])"
proof -
  obtain d where d: "filename_from_path (b @ (if e = [] then [] else 0x2E # e) @ replicate 8 0) blank_entry = Some d"
    "length d = 32"
    "\<forall>j < 32. d ! j = (if j < length b then b ! j else if 8 \<le> j \<and> j < 8 + length e then e ! (j - 8) else 0)"
    using from_path_plain [of b] from_path_dotted [of b e] assms by (cases "e = []") auto
  have b8: "length b \<le> 8" using assms(5) by (auto split: if_splits)
  have "entry_name d = Some (take (length b) d
      @ (if length e \<noteq> 0 then 0x2E # take (length e) (drop 8 d) else []) @ [0])"
  proof (rule entry_name_eq)
    show "\<not> blank (d ! (length b - 1))" using d(3) b8 assms(3) name_part_nth [OF assms(1), of "length b - 1"] by auto
    show "length e = 0 \<or> \<not> blank (d ! (8 + length e - 1))"
      using d(3) assms(4) b8 name_part_nth [OF assms(2), of "length e - 1"] by (cases "length e") auto
  qed (use d b8 assms(3,4) in auto)
  moreover have "take (length b) d = b" using d b8 by (intro nth_equalityI) auto
  moreover have "take (length e) (drop 8 d) = e" using d b8 assms(4) by (intro nth_equalityI) auto
  ultimately show ?thesis using d(1) by auto
qed

text \<open>The name \<open>fs.log\<close>.\<close>

theorem filename_roundtrip_witness:
  "\<exists>d. filename_from_path ([102, 115] @ (if [108, 111, 103 :: u8] = [] then [] else 0x2E # [108, 111, 103])
      @ replicate 8 0) blank_entry = Some d
    \<and> entry_name d = Some ([102, 115] @ (if [108, 111, 103 :: u8] = [] then [] else 0x2E # [108, 111, 103]) @ [0])"
  by (rule filename_roundtrip) (simp_all add: name_part_def)

text \<open>
  a base name of exactly 8 characters loses its extension: the loop stops at
  \<open>i == name_len == 8\<close>, and the test \<open>i < name_len\<close> then skips the extension.
\<close>

theorem filename_8_loses_extension:
  assumes "name_part b" and "length b = 8" and "name_part e"
  shows "\<exists>d. filename_from_path (b @ 0x2E # e @ 0 # rest) blank_entry = Some d \<and> entry_name d = Some (b @ [0])"
proof -
  let ?src = "b @ 0x2E # e @ 0 # rest"
  have len: "filename_len ?src 8 = Some 8"
    using assms name_part_nth [OF assms(1), of 7] by (intro filename_len_eq) (auto simp: nth_append)
  have dot: "strrchr_dot ?src = Some (length b)"
    using strrchr_dot_last assms name_part_zero name_part_dot by blast
  obtain d where d: "copy_base ?src (Some (length b)) 8 0 blank_entry = (8, d)" "length d = 32"
    "\<forall>j < 32. d ! j = (if j < 8 then ?src ! j else 0)"
    using copy_base_result [of 0 8 8 "Some (length b)" blank_entry ?src] assms(2) by auto
  define D where "D = d[9 := 0]"
  have r: "filename_from_path ?src blank_entry = Some D"
    by (simp add: filename_from_path_def len dot d D_def)
  have D: "length D = 32" "\<And>j. j < 32 \<Longrightarrow> D ! j = (if j < 8 then b ! j else 0)"
    using assms(2) d by (auto simp: D_def nth_list_update nth_append)
  have "entry_name D = Some (take 8 D @ (if (0::nat) \<noteq> 0 then 0x2E # take 0 (drop 8 D) else []) @ [0])"
    using D assms(2) name_part_nth [OF assms(1), of 7] by (intro entry_name_eq) auto
  moreover have "take 8 D = b"
    using D assms(2) by (intro nth_equalityI) auto
  ultimately show ?thesis using r by simp
qed

theorem filename_8_loses_extension_witness:
  "\<exists>d. filename_from_path ([97, 98, 99, 100, 101, 102, 103, 104] @ 0x2E # [116, 120, 116] @ 0 # []) blank_entry = Some d
    \<and> entry_name d = Some ([97, 98, 99, 100, 101, 102, 103, 104] @ [0])"
  by (rule filename_8_loses_extension) (simp_all add: name_part_def)

text \<open>
  \<open>build_filename\<close> never writes more than the 13 bytes of \<open>MAX_FILENAME\<close>, and always ends
  the name with a NUL.
\<close>

theorem build_filename_bounds:
  assumes "length src_name = 8" and "length src_extension = 3"
  shows "\<exists>r. build_filename src_name src_extension = Some r \<and> length r \<le> 13 \<and> last r = 0"
proof -
  obtain n where n: "filename_len src_name 8 = Some n" "n \<le> 8"
    using filename_len_le [of 8 src_name] assms by auto
  obtain e where e: "filename_len src_extension 3 = Some e" "e \<le> 3"
    using filename_len_le [of 3 src_extension] assms by auto
  show ?thesis using n e by (auto simp: build_filename_def)
qed

theorem build_filename_bounds_witness:
  "\<exists>r. build_filename [102, 115, 0, 0, 0, 0, 0, 0] [108, 111, 103] = Some r \<and> length r \<le> 13 \<and> last r = 0"
  by (rule build_filename_bounds) simp_all

text \<open>
  \<open>filepath_from_name\<close> joins directory and file name with one separator, but allocates no
  room for a separator it adds: then it writes one byte more than it allocated.
\<close>

theorem filepath_from_name_overflow:
  assumes "parent \<noteq> []"
  shows "\<exists>size path. filepath_from_name parent name = Some (size, path)
    \<and> c_string path = c_string (if last parent = 0x2F then parent @ name @ [0] else parent @ [0x2F] @ name @ [0])
    \<and> (length path \<le> size \<longleftrightarrow> last parent = 0x2F)"
  using assms by (auto simp: filepath_from_name_def)

theorem filepath_from_name_overflow_witness:
  "\<exists>size path. filepath_from_name [0x2F, 98, 98] [102] = Some (size, path)
    \<and> c_string path = c_string (if last [0x2F, 98, 98 :: u8] = 0x2F then [0x2F, 98, 98] @ [102] @ [0] else [0x2F, 98, 98] @ [0x2F] @ [102] @ [0])
    \<and> (length path \<le> size \<longleftrightarrow> last [0x2F, 98, 98 :: u8] = 0x2F)"
  by (rule filepath_from_name_overflow) simp

end
