(* ===== verification/Fat_File.thy ===== *)
theory Fat_File
  imports Fat_Table Fat_Filename
begin

unbundle bit_operations_syntax

text \<open>
  \<open>Lab4/fat-fuse/fat_file.c\<close>: directory entries, files, and the operations that move data between
  buffers and the cluster chain of a file.

  A file is a record; the code's shared \<open>fat_file\<close> pointers are threaded explicitly: an operation
  returns the records it changed. \<open>errno\<close> is the field \<open>err\<close> of the volume, \<open>time(NULL)\<close> its
  field \<open>clock\<close>.
\<close>

section \<open>Directory entries\<close>

record fat_vol = fat_table +
  clock :: nat

record fat_dir_entry =
  base_name :: bytes
  extension :: bytes
  attribs :: u8
  reserved :: u8
  create_time_fine_res :: u8
  create_time :: u16
  create_date :: u16
  last_access_date :: u16
  fat32_start_cluster_high :: u16
  last_modified_time :: u16
  last_modified_date :: u16
  start_cluster_low :: u16
  file_size :: u32

text \<open>The 32 bytes of an entry on the device, and the entry they hold.\<close>

definition dentry_bytes :: "fat_dir_entry \<Rightarrow> bytes" where
  "dentry_bytes d = base_name d @ extension d @ [attribs d, reserved d, create_time_fine_res d]
     @ le16_bytes (create_time d) @ le16_bytes (create_date d) @ le16_bytes (last_access_date d)
     @ le16_bytes (fat32_start_cluster_high d) @ le16_bytes (last_modified_time d)
     @ le16_bytes (last_modified_date d) @ le16_bytes (start_cluster_low d) @ le32_bytes (file_size d)"

definition dentry_of_bytes :: "bytes \<Rightarrow> fat_dir_entry" where
  "dentry_of_bytes bs =
     \<lparr>base_name = take 8 bs, extension = take 3 (drop 8 bs), attribs = bs ! 11, reserved = bs ! 12,
      create_time_fine_res = bs ! 13, create_time = le16_at bs 14, create_date = le16_at bs 16,
      last_access_date = le16_at bs 18, fat32_start_cluster_high = le16_at bs 20,
      last_modified_time = le16_at bs 22, last_modified_date = le16_at bs 24,
      start_cluster_low = le16_at bs 26, file_size = le32_at bs 28\<rparr>"

definition FILE_ATTRIBUTE_READONLY :: u8 where "FILE_ATTRIBUTE_READONLY = 0x01"
definition FILE_ATTRIBUTE_VOLUME :: u8 where "FILE_ATTRIBUTE_VOLUME = 0x08"
definition FILE_ATTRIBUTE_DIRECTORY :: u8 where "FILE_ATTRIBUTE_DIRECTORY = 0x10"
definition FILE_ATTRIBUTE_ARCHIVE :: u8 where "FILE_ATTRIBUTE_ARCHIVE = 0x20"

text \<open>The union of \<open>dir.nentries\<close> and \<open>file.num_clusters\<close> is the one field \<open>nentries\<close>.\<close>

record fat_file =
  dentry :: "fat_dir_entry option"
  fname :: bytes
  filepath :: bytes
  start_cluster :: u32
  nentries :: u32
  pos_in_parent :: u32
  num_times_opened :: "31 word"
  children_read :: bool

definition fill_dentry_time_now :: "nat \<Rightarrow> fat_dir_entry \<Rightarrow> bool \<Rightarrow> bool \<Rightarrow> int \<times> fat_dir_entry" where
  "fill_dentry_time_now now d fill_create fill_modified =
     (if \<not> (\<not> fill_create \<or> fill_modified) then (-1, d)
      else let (entry_date, entry_time) = fill_time now;
               d1 = (if fill_modified
                     then d\<lparr>last_modified_date := entry_date, last_modified_time := entry_time,
                            last_access_date := entry_date\<rparr>
                     else d\<lparr>last_access_date := entry_date\<rparr>)
           in (0, if fill_create
                  then d1\<lparr>create_date := last_modified_date d1, create_time := last_modified_time d1\<rparr>
                  else d1))"

definition set_first_cluster :: "fat_dir_entry \<Rightarrow> u32 \<Rightarrow> fat_dir_entry" where
  "set_first_cluster d cluster = d\<lparr>start_cluster_low := ucast cluster,
     fat32_start_cluster_high := ucast (drop_bit 16 cluster)\<rparr>"

definition file_start_cluster :: "fat_dir_entry \<Rightarrow> u32" where
  "file_start_cluster d = ucast (start_cluster_low d) OR push_bit 16 (ucast (fat32_start_cluster_high d))"

section \<open>Creating files\<close>

text \<open>GNU \<open>basename\<close>: what follows the last slash.\<close>

definition basename :: "bytes \<Rightarrow> bytes" where
  "basename path = rev (takeWhile (\<lambda>c. c \<noteq> 0x2F) (rev path))"

definition fat_file_init_empty :: "bool \<Rightarrow> bytes \<Rightarrow> fat_file" where
  "fat_file_init_empty is_dir path =
     \<lparr>dentry = None, fname = [], filepath = path, start_cluster = 0, nentries = 0,
      pos_in_parent = 0, num_times_opened = 0, children_read = False\<rparr>"

text \<open>
  \<open>filename_len\<close> reads eight bytes of the name, whatever its length: \<open>heap\<close> stands for the bytes
  that follow the copy of the path in memory.
\<close>

definition fat_file_init_direntry :: "bytes \<Rightarrow> nat \<Rightarrow> bool \<Rightarrow> bytes \<Rightarrow> u32 \<Rightarrow> fat_dir_entry option" where
  "fat_file_init_direntry heap now is_dir path cluster = do {
     raw \<leftarrow> filename_from_path (basename path @ 0 # heap) (replicate 32 0);
     let d = (dentry_of_bytes raw)
       \<lparr>attribs := (if is_dir then FILE_ATTRIBUTE_DIRECTORY else FILE_ATTRIBUTE_ARCHIVE),
        reserved := 0, create_time_fine_res := 0\<rparr> in
     let d1 = snd (fill_dentry_time_now now d True True) in
     Some ((set_first_cluster d1 cluster)\<lparr>file_size := 0\<rparr>) }"

definition fat_file_init_orphan_dir ::
  "bytes \<Rightarrow> bytes \<Rightarrow> 'a fat_vol_scheme \<Rightarrow> u32 \<Rightarrow> fat_file option option" where
  "fat_file_init_orphan_dir heap name v cluster = do {
     orphan_entry \<leftarrow> fat_file_init_direntry heap (clock v) True name cluster;
     (if err v \<noteq> E_OK then Some None
      else do {
        nm \<leftarrow> build_filename (base_name orphan_entry) (extension orphan_entry);
        Some (Some ((fat_file_init_empty True name)
          \<lparr>dentry := Some orphan_entry, fname := c_string nm, start_cluster := cluster\<rparr>)) }) }"

text \<open>
  \<open>errno < 0\<close> is never true, so the first test of \<open>fat_file_init\<close> never takes its branch. The
  result \<open>Some (None, v)\<close> is the code's \<open>NULL\<close>.
\<close>

definition fat_file_init ::
  "bytes \<Rightarrow> 'a fat_vol_scheme \<Rightarrow> bool \<Rightarrow> bytes \<Rightarrow> (fat_file option \<times> 'a fat_vol_scheme) option" where
  "fat_file_init heap v is_dir path =
     (let new_file = fat_file_init_empty is_dir path in
      if errno_code (err v) < 0 then Some (None, v)
      else do {
        cluster \<leftarrow> fat_table_get_next_free_cluster v;
        used \<leftarrow> fat_table_is_cluster_used v cluster;
        (if used then Some (None, v\<lparr>err := ENOSPC\<rparr>)
         else do {
           d \<leftarrow> fat_file_init_direntry heap (clock v) is_dir path cluster;
           nm \<leftarrow> build_filename (base_name d) (extension d);
           let new_file = new_file\<lparr>dentry := Some d, fname := c_string nm,
             start_cluster := file_start_cluster d\<rparr> in do {
           v1 \<leftarrow> fat_table_set_next_cluster v cluster FAT_CLUSTER_END_OF_CHAIN_MAX;
           Some (if err v1 \<noteq> E_OK then None else Some new_file, v1) } }) })"

definition init_file_from_dentry :: "fat_dir_entry \<Rightarrow> fat_file \<Rightarrow> fat_file option" where
  "init_file_from_dentry d parent = do {
     nm \<leftarrow> build_filename (base_name d) (extension d);
     (_, path) \<leftarrow> filepath_from_name (filepath parent) (c_string nm);
     Some \<lparr>dentry = Some d, fname = c_string nm, filepath = c_string path,
       start_cluster = file_start_cluster d, nentries = 0, pos_in_parent = nentries parent,
       num_times_opened = 0, children_read = False\<rparr> }"

fun strcmp :: "bytes \<Rightarrow> bytes \<Rightarrow> int" where
  "strcmp [] [] = 0"
| "strcmp [] (d # ds) = - uint d"
| "strcmp (c # cs) [] = uint c"
| "strcmp (c # cs) (d # ds) = (if c = d then strcmp cs ds else uint c - uint d)"

definition fat_file_cmp :: "fat_file \<Rightarrow> fat_file \<Rightarrow> int" where
  "fat_file_cmp file1 file2 = strcmp (filepath file1) (filepath file2)"

definition fat_file_cmp_path :: "fat_file \<Rightarrow> bytes \<Rightarrow> int" where
  "fat_file_cmp_path file1 path = strcmp (filepath file1) path"

section \<open>Metadata\<close>

definition fat_file_is_directory :: "fat_file \<Rightarrow> bool" where
  "fat_file_is_directory file = (case dentry file of
      None \<Rightarrow> True
    | Some d \<Rightarrow> attribs d AND FILE_ATTRIBUTE_DIRECTORY \<noteq> 0)"

definition fat_file_inc_num_times_opened :: "fat_file \<Rightarrow> fat_file" where
  "fat_file_inc_num_times_opened file = file\<lparr>num_times_opened := num_times_opened file + 1\<rparr>"

definition fat_file_dec_num_times_opened :: "fat_file \<Rightarrow> fat_file" where
  "fat_file_dec_num_times_opened file = file\<lparr>num_times_opened := num_times_opened file - 1\<rparr>"

record stat =
  st_nlink :: nat
  st_dir :: bool
  st_perm :: nat
  st_size :: nat
  st_blocks :: nat
  st_blksize :: nat
  st_ctime :: int
  st_atime :: int
  st_mtime :: int

text \<open>\<open>st_mode\<close> is split: \<open>st_dir\<close> says \<open>S_IFDIR\<close> or \<open>S_IFREG\<close>, \<open>st_perm\<close> the permission bits.\<close>

definition fat_file_to_stbuf :: "int \<Rightarrow> 'a fat_table_scheme \<Rightarrow> fat_file \<Rightarrow> stat option" where
  "fat_file_to_stbuf tz t file = do {
     d \<leftarrow> dentry file;
     Some \<lparr>st_nlink = 1, st_dir = fat_file_is_directory file,
       st_perm = (if attribs d AND FILE_ATTRIBUTE_READONLY \<noteq> 0 then 0x16D else 0x1FF),
       st_size = unat (file_size d),
       st_blocks = unat (fat_table_get_clusters_for_size t (unat (file_size d))),
       st_blksize = fat_table_bytes_per_cluster t,
       st_ctime = time_to_unix_time tz (create_date d) (create_time d),
       st_atime = time_to_unix_time tz (last_access_date d) 0,
       st_mtime = time_to_unix_time tz (last_modified_date d) (last_modified_time d)\<rparr> }"

section \<open>Directory entries on the device\<close>

text \<open>
  \<open>written_bytes < entry_size\<close> compares as unsigned: the \<open>-1\<close> of a failed call is not smaller.
\<close>

definition write_dir_entry :: "'a fat_vol_scheme \<Rightarrow> fat_file \<Rightarrow> fat_file \<Rightarrow> 'a fat_vol_scheme option" where
  "write_dir_entry v parent file =
     (let chunk_size = fat_table_bytes_per_cluster v;
          parent_offset = fat_table_cluster_offset v (start_cluster parent);
          entry_size = 32
      in if chunk_size \<le> unat (pos_in_parent file) * entry_size then Some (v\<lparr>err := ENOSPC\<rparr>)
         else do {
           d \<leftarrow> dentry file;
           let entry_offset = unat (pos_in_parent file) * entry_size + parent_offset;
               (written_bytes, v1) = sys_pwrite v (dentry_bytes d) (int entry_offset)
           in Some (if (of_int written_bytes :: 64 word) < of_nat entry_size then v1\<lparr>err := EIO\<rparr> else v1) })"

definition fat_utime :: "'a fat_vol_scheme \<Rightarrow> fat_file \<Rightarrow> fat_file \<Rightarrow> nat \<Rightarrow> nat
    \<Rightarrow> (fat_file \<times> 'a fat_vol_scheme) option" where
  "fat_utime v file parent actime modtime = do {
     d \<leftarrow> dentry file;
     let (accdate, acctime) = fill_time actime; (moddate, modtime) = fill_time modtime;
         file1 = file\<lparr>dentry := Some (d\<lparr>last_access_date := accdate, last_modified_date := moddate,
           last_modified_time := modtime\<rparr>)\<rparr> in do {
     v1 \<leftarrow> write_dir_entry v parent file1;
     Some (file1, v1) } }"

text \<open>The result is the parent, the child and the volume.\<close>

definition fat_file_dentry_add_child :: "'a fat_vol_scheme \<Rightarrow> fat_file \<Rightarrow> fat_file
    \<Rightarrow> (fat_file \<times> fat_file \<times> 'a fat_vol_scheme) option" where
  "fat_file_dentry_add_child v parent child =
     (let child1 = child\<lparr>pos_in_parent := nentries parent\<rparr> in do {
      v1 \<leftarrow> write_dir_entry v parent child1;
      Some (if err v1 \<noteq> E_OK then (parent, child1, v1)
            else (parent\<lparr>nentries := nentries parent + 1\<rparr>, child1, v1)) })"

definition is_end_of_directory :: "fat_dir_entry \<Rightarrow> bool" where
  "is_end_of_directory d \<longleftrightarrow> base_name d ! 0 = 0"

definition ignore_dentry :: "fat_dir_entry \<Rightarrow> bool" where
  "ignore_dentry d \<longleftrightarrow> attribs d AND FILE_ATTRIBUTE_VOLUME \<noteq> 0
     \<or> \<not> file_basename_valid (base_name d) \<or> \<not> file_extension_valid (extension d)"

text \<open>The \<open>for\<close> loop of \<open>read_cluster_dir_entries\<close>, \<open>n\<close> entries processed, \<open>ds\<close> to come.\<close>

fun read_cluster_dir_entries :: "fat_dir_entry list \<Rightarrow> nat \<Rightarrow> fat_file \<Rightarrow> fat_file list
    \<Rightarrow> (fat_file \<times> fat_file list) option" where
  "read_cluster_dir_entries [] n dir elems = Some (dir, elems)"
| "read_cluster_dir_entries (d # ds) n dir elems =
     (let dir1 = dir\<lparr>nentries := of_nat n\<rparr> in
      if is_end_of_directory d then Some (dir1\<lparr>children_read := True\<rparr>, elems)
      else if ignore_dentry d then read_cluster_dir_entries ds (n + 1) dir1 elems
      else do {
        child \<leftarrow> init_file_from_dentry d dir1;
        read_cluster_dir_entries ds (n + 1) dir1 (elems @ [child]) })"

text \<open>The entries of a buffer of whole directory entries.\<close>

definition entries_of :: "bytes \<Rightarrow> fat_dir_entry list" where
  "entries_of bs = map (\<lambda>i. dentry_of_bytes (take 32 (drop (32 * i) bs))) [0..<length bs div 32]"

text \<open>
  The cluster loop of \<open>fat_file_read_children\<close>; the list result \<open>None\<close> is the \<open>NULL\<close> of an error.
  The buffer is a local array of one cluster, at address 0 of a memory of its own.
\<close>

partial_function (option) read_children_loop :: "'a fat_vol_scheme \<Rightarrow> fat_file \<Rightarrow> u32 \<Rightarrow> fat_file list
    \<Rightarrow> (fat_file list option \<times> fat_file \<times> 'a fat_vol_scheme) option" where
  "read_children_loop v dir cluster elems =
     (if \<not> fat_table_cluster_is_valid cluster then Some (Some elems, dir\<lparr>children_read := True\<rparr>, v)
      else (let n = fat_table_bytes_per_cluster v;
                (r, buf, v1) = full_pread v (\<lambda>_. 0) 0 n (int (fat_table_cluster_offset v cluster))
            in if r \<noteq> of_nat n then Some (None, dir, v1\<lparr>err := EIO\<rparr>)
            else do {
              (dir1, elems1) \<leftarrow> read_cluster_dir_entries (entries_of (mem_read buf 0 n)) 0 dir elems;
              cluster1 \<leftarrow> fat_table_get_next_cluster v1 cluster;
              read_children_loop v1 dir1 cluster1 elems1 }))"

definition fat_file_read_children :: "'a fat_vol_scheme \<Rightarrow> fat_file
    \<Rightarrow> (fat_file list option \<times> fat_file \<times> 'a fat_vol_scheme) option" where
  "fat_file_read_children v dir =
     (if \<not> fat_table_is_valid_cluster_number v (start_cluster dir) then Some (None, dir, v\<lparr>err := EIO\<rparr>)
      else read_children_loop v dir (start_cluster dir) [])"

end
