(* ===== verification/Fat_Data.thy ===== *)
theory Fat_Data
  imports Fat_File
begin

unbundle bit_operations_syntax

text \<open>
  The read and write operations of \<open>Lab4/fat-fuse/fat_file.c\<close>. Buffers are ranges of a byte memory
  \<open>m\<close>, addressed by a pointer. \<open>ssize_t\<close> values are integers; the \<open>size_t\<close> that
  \<open>full_pread\<close> and \<open>full_pwrite\<close> return is read as signed where the code assigns it to one.
\<close>

section \<open>Reading\<close>

partial_function (option) pread_loop ::
  "'a fat_vol_scheme \<Rightarrow> mem \<Rightarrow> int \<Rightarrow> nat \<Rightarrow> nat \<Rightarrow> u32 \<Rightarrow> (nat \<times> mem \<times> 'a fat_vol_scheme) option" where
  "pread_loop v m buf offset bytes_remaining cluster =
     (if bytes_remaining = 0 \<or> \<not> fat_table_cluster_is_valid cluster then Some (bytes_remaining, m, v)
      else (let to_read = fat_table_get_cluster_remaining_bytes v bytes_remaining offset;
                cluster_off = fat_table_cluster_offset v cluster + fat_table_mask_offset offset v;
                (r, m1, v1) = full_pread v m buf to_read (int cluster_off);
                bytes_read = sint r
            in if bytes_read \<noteq> int to_read then Some (bytes_remaining, m1, v1)
               else do {
                 cluster1 \<leftarrow> fat_table_get_next_cluster v1 cluster;
                 pread_loop v1 m1 (buf + bytes_read) (offset + to_read) (bytes_remaining - to_read) cluster1 }))"

text \<open>The result: the count, the memory, the file and the volume.\<close>

definition fat_file_pread :: "'a fat_vol_scheme \<Rightarrow> fat_file \<Rightarrow> mem \<Rightarrow> int \<Rightarrow> nat \<Rightarrow> nat \<Rightarrow> fat_file
    \<Rightarrow> (int \<times> mem \<times> fat_file \<times> 'a fat_vol_scheme) option" where
  "fat_file_pread v file m buf sz offset parent = do {
     d \<leftarrow> dentry file;
     (if offset > unat (file_size d) then Some (0, m, file, v\<lparr>err := EOVERFLOW\<rparr>)
      else let sz = min sz (unat (file_size d) - offset) in
      if sz = 0 then Some (0, m, file, v)
      else do {
        (cluster, v1) \<leftarrow> fat_table_seek_cluster v (start_cluster file) offset;
        (if err v1 \<noteq> E_OK then Some (0, m, file, v1)
         else do {
           (bytes_remaining, m1, v2) \<leftarrow> pread_loop v1 m buf offset sz cluster;
           let file1 = file\<lparr>dentry := Some (snd (fill_dentry_time_now (clock v2) d False False))\<rparr> in do {
           v3 \<leftarrow> write_dir_entry v2 parent file1;
           Some (int sz - int bytes_remaining, m1, file1, v3) } }) }) }"

section \<open>Truncating and deleting\<close>

text \<open>The loops that free a chain: one stops at any special cluster, the other at an end mark.\<close>

partial_function (option) free_valid_from :: "'a fat_vol_scheme \<Rightarrow> u32 \<Rightarrow> 'a fat_vol_scheme option" where
  "free_valid_from v last_cluster =
     (if \<not> fat_table_cluster_is_valid last_cluster then Some v
      else do {
        next_cluster \<leftarrow> fat_table_get_next_cluster v last_cluster;
        v1 \<leftarrow> fat_table_set_next_cluster v last_cluster FAT_CLUSTER_FREE;
        free_valid_from v1 next_cluster })"

partial_function (option) free_to_EOC_from :: "'a fat_vol_scheme \<Rightarrow> u32 \<Rightarrow> 'a fat_vol_scheme option" where
  "free_to_EOC_from v last_cluster =
     (if fat_table_cluster_is_EOC last_cluster then Some v
      else do {
        next_cluster \<leftarrow> fat_table_get_next_cluster v last_cluster;
        v1 \<leftarrow> fat_table_set_next_cluster v last_cluster FAT_CLUSTER_FREE;
        free_to_EOC_from v1 next_cluster })"

definition fat_file_truncate :: "'a fat_vol_scheme \<Rightarrow> fat_file \<Rightarrow> nat \<Rightarrow> fat_file
    \<Rightarrow> (fat_file \<times> 'a fat_vol_scheme) option" where
  "fat_file_truncate v file offset parent = do {
     d \<leftarrow> dentry file;
     (if offset > unat (file_size d) then Some (file, v)
      else do {
        (last_cluster, v1) \<leftarrow> fat_table_seek_cluster v (start_cluster file) offset;
        (if err v1 \<noteq> E_OK then Some (file, v1)
         else do {
           next_cluster \<leftarrow> fat_table_get_next_cluster v1 last_cluster;
           v2 \<leftarrow> fat_table_set_next_cluster v1 last_cluster FAT_CLUSTER_END_OF_CHAIN_MAX;
           (if err v2 \<noteq> E_OK then Some (file, v2)
            else do {
              v3 \<leftarrow> free_valid_from v2 next_cluster;
              let d1 = d\<lparr>file_size := of_nat offset\<rparr>;
                  file1 = file\<lparr>dentry := Some (snd (fill_dentry_time_now (clock v3) d1 False True))\<rparr> in do {
              v4 \<leftarrow> write_dir_entry v3 parent file1;
              Some (file1, v4) } }) }) }) }"

definition fat_file_eliminate :: "'a fat_vol_scheme \<Rightarrow> fat_file \<Rightarrow> fat_file
    \<Rightarrow> (fat_file \<times> 'a fat_vol_scheme) option" where
  "fat_file_eliminate v file parent = do {
     v1 \<leftarrow> free_to_EOC_from v (start_cluster file);
     d \<leftarrow> dentry file;
     let file1 = file\<lparr>dentry := Some (d\<lparr>base_name := (base_name d)[0 := 0xE5]\<rparr>)\<rparr> in do {
     v2 \<leftarrow> write_dir_entry v1 parent file1;
     Some (file1, v2) } }"

section \<open>Writing\<close>

definition next_or_new_cluster :: "'a fat_vol_scheme \<Rightarrow> u32 \<Rightarrow> (u32 \<times> 'a fat_vol_scheme) option" where
  "next_or_new_cluster v last_cluster = do {
     next \<leftarrow> fat_table_get_next_cluster v last_cluster;
     (if fat_table_cluster_is_EOC next then do {
        next \<leftarrow> fat_table_get_next_free_cluster v;
        (if fat_table_cluster_is_EOC next then Some (0, v\<lparr>err := EIO\<rparr>)
         else do {
           v1 \<leftarrow> fat_table_set_next_cluster v last_cluster next;
           v2 \<leftarrow> fat_table_set_next_cluster v1 next FAT_CLUSTER_END_OF_CHAIN_MAX;
           Some (if err v2 \<noteq> E_OK then 0 else next, v2) }) }
      else Some (next, v)) }"

partial_function (option) pwrite_loop ::
  "'a fat_vol_scheme \<Rightarrow> mem \<Rightarrow> int \<Rightarrow> nat \<Rightarrow> int \<Rightarrow> u32 \<Rightarrow> (int \<times> 'a fat_vol_scheme) option" where
  "pwrite_loop v m buf offset bytes_remaining cluster =
     (if bytes_remaining \<le> 0 then Some (bytes_remaining, v)
      else (let to_write = fat_table_get_cluster_remaining_bytes v (nat bytes_remaining) offset;
                cluster_off = fat_table_cluster_offset v cluster + fat_table_mask_offset offset v;
                (r, v1) = full_pwrite v m buf to_write (int cluster_off);
                bytes_written = sint r;
                remaining = bytes_remaining - bytes_written
            in if bytes_written \<noteq> int to_write then Some (remaining, v1)
               else if remaining > 0 then do {
                 (cluster1, v2) \<leftarrow> next_or_new_cluster v1 cluster;
                 (if err v2 \<noteq> E_OK \<or> \<not> fat_table_cluster_is_valid cluster1 then Some (remaining, v2)
                  else pwrite_loop v2 m (buf + bytes_written) (offset + to_write) remaining cluster1) }
               else Some (remaining, v1)))"

definition fat_file_pwrite :: "'a fat_vol_scheme \<Rightarrow> fat_file \<Rightarrow> mem \<Rightarrow> int \<Rightarrow> nat \<Rightarrow> nat \<Rightarrow> fat_file
    \<Rightarrow> (int \<times> fat_file \<times> 'a fat_vol_scheme) option" where
  "fat_file_pwrite v file m buf sz offset parent = do {
     d \<leftarrow> dentry file;
     (if offset > unat (file_size d) then Some (0, file, v\<lparr>err := EOVERFLOW\<rparr>)
      else let starting_point = (if offset \<noteq> 0 then offset - 1 else 0) in do {
        (cluster, v1) \<leftarrow> fat_table_seek_cluster v (start_cluster file) starting_point;
        (cluster, v2) \<leftarrow> (if offset mod fat_table_bytes_per_cluster v1 = 0 \<and> cluster \<noteq> 0 \<and> offset \<noteq> 0
                          then next_or_new_cluster v1 cluster else Some (cluster, v1));
        (if err v2 \<noteq> E_OK then Some (- errno_code (err v2), file, v2)
         else do {
           (bytes_remaining, v3) \<leftarrow> pwrite_loop v2 m buf offset (int sz) cluster;
           let new_size = int offset + int sz - bytes_remaining;
               d1 = (if new_size > int (unat (file_size d)) then d\<lparr>file_size := of_int new_size\<rparr> else d);
               file1 = file\<lparr>dentry := Some (snd (fill_dentry_time_now (clock v3) d1 False True))\<rparr> in do {
           v4 \<leftarrow> write_dir_entry v3 parent file1;
           Some (int sz - bytes_remaining, file1, v4) } }) }) }"

section \<open>Transfers without faults\<close>

lemma full_pread_plain:
  assumes "script s = []" "off + n \<le> dsize s"
  shows "full_pread s m buf n (int off) = (of_nat n, mem_write m buf (disk_read s off n), s)"
proof -
  have "full_pread_loop s m buf n (int off) = (0, mem_write m buf (disk_read s off n), s)"
    using assms by (subst full_pread_loop.simps, subst full_pread_loop.simps)
      (auto simp: sys_pread_def next_answer_def disk_read_def)
  then show ?thesis by (simp add: full_pread_def)
qed

lemma full_pwrite_plain:
  assumes "script s = []"
  shows "full_pwrite s m buf n (int off) = (of_nat n, disk_write s off (mem_read m buf n))"
proof -
  have "full_pwrite_loop s m buf n (int off) = (0, disk_write s off (mem_read m buf n))"
    using assms by (subst full_pwrite_loop.simps, subst full_pwrite_loop.simps)
      (auto simp: sys_pwrite_def next_answer_def mem_read_def)
  then show ?thesis by (simp add: full_pwrite_def)
qed

lemma sint_of_nat64: "n < 2 ^ 63 \<Longrightarrow> sint (of_nat n :: 64 word) = int n"
  by (simp add: signed_of_nat signed_take_bit_int_eq_self)

section \<open>The data area\<close>

abbreviation cluster_bytes :: "'a fat_table_scheme \<Rightarrow> nat" where
  "cluster_bytes t \<equiv> 2 ^ cluster_order t"

definition data_byte :: "'a fat_table_scheme \<Rightarrow> u32 \<Rightarrow> nat \<Rightarrow> u8" where
  "data_byte t c j = disk t (fat_table_cluster_offset t c + j)"

definition file_byte :: "'a fat_table_scheme \<Rightarrow> u32 list \<Rightarrow> nat \<Rightarrow> u8" where
  "file_byte t cs p = data_byte t (cs ! (p div cluster_bytes t)) (p mod cluster_bytes t)"

definition free_clusters :: "'a fat_table_scheme \<Rightarrow> u32 set" where
  "free_clusters t = {c. valid_cluster t c \<and> fat_entry t c = Some 0}"

lemma cluster_bytes_bounds:
  assumes "fat_wf t"
  shows "32 \<le> cluster_bytes t" "cluster_bytes t \<le> 2 ^ 19"
  using assms power_increasing [of 5 "cluster_order t" "2 :: nat"] power_increasing [of "cluster_order t" 19 "2 :: nat"]
  by (simp_all add: fat_wf_def)

lemma unat_minus_2: 
  assumes "fat_wf t" "valid_cluster t c"
  shows "unat (c - 2) = unat c - 2"
  using valid_cluster_bounds(1) [OF assms] by (subst unat_sub) (simp_all add: word_le_nat_alt)

lemma cluster_in_device:
  assumes "fat_wf t" "valid_cluster t c"
  shows "data_start_offset t \<le> fat_table_cluster_offset t c"
    "fat_table_cluster_offset t c + cluster_bytes t \<le> dsize t"
proof -
  let ?B = "cluster_bytes t"
  show "data_start_offset t \<le> fat_table_cluster_offset t c" by (simp add: cluster_offset_eq)
  have "(unat c - 2 + 1) * ?B \<le> unat (num_data_clusters t) * ?B"
    using valid_cluster_bounds(1,2) [OF assms] by (intro mult_right_mono) auto
  then have "(unat c - 2) * ?B + ?B \<le> unat (num_data_clusters t) * ?B" by (simp add: algebra_simps)
  then show "fat_table_cluster_offset t c + ?B \<le> dsize t"
    using assms(1) by (simp add: cluster_offset_eq unat_minus_2 [OF assms] fat_wf_def)
qed

lemma clusters_disjoint:
  assumes "fat_wf t" "valid_cluster t c" "valid_cluster t d" "c \<noteq> d"
  shows "fat_table_cluster_offset t c + cluster_bytes t \<le> fat_table_cluster_offset t d
    \<or> fat_table_cluster_offset t d + cluster_bytes t \<le> fat_table_cluster_offset t c"
proof -
  let ?B = "cluster_bytes t"
  have apart: "(a + 1) * ?B \<le> b * ?B" if "a < b" for a b :: nat using that by (intro mult_right_mono) auto
  define x y where "x = unat c - 2" and "y = unat d - 2"
  have co: "fat_table_cluster_offset t c = data_start_offset t + x * ?B"
    "fat_table_cluster_offset t d = data_start_offset t + y * ?B"
    by (simp_all add: cluster_offset_eq unat_minus_2 [OF assms(1,2)] unat_minus_2 [OF assms(1,3)] x_def y_def)
  have "x \<noteq> y"
    using assms(4) valid_cluster_bounds(1) [OF assms(1,2)] valid_cluster_bounds(1) [OF assms(1,3)]
    by (metis x_def y_def word_unat_eq_iff le_add_diff_inverse2)
  then show ?thesis unfolding co using apart [of x y] apart [of y x] by (cases "x < y") (auto simp: algebra_simps)
qed

text \<open>Writing inside one cluster.\<close>

lemma data_byte_write:
  fixes t :: "'a fat_table_scheme"
  assumes "fat_wf t" "valid_cluster t c" "valid_cluster t d" "o1 + length bs \<le> cluster_bytes t" "j < cluster_bytes t"
  shows "data_byte (disk_write t (fat_table_cluster_offset t c + o1) bs) d j =
    (if d = c \<and> o1 \<le> j \<and> j < o1 + length bs then bs ! (j - o1) else data_byte t d j)"
proof -
  let ?o = "fat_table_cluster_offset t c + o1"
  have co: "fat_table_cluster_offset (disk_write t ?o bs) d = fat_table_cluster_offset t d"
    by (simp add: cluster_offset_eq)
  have o: "?o \<le> dsize t" using cluster_in_device(2) [OF assms(1,2)] assms(4) by simp
  show ?thesis
  proof (cases "d = c \<and> o1 \<le> j \<and> j < o1 + length bs")
    case True
    then show ?thesis
      using disk_write_inside [of "j - o1" bs t ?o] co by (auto simp: data_byte_def)
  next
    case False
    have "fat_table_cluster_offset t d + j < ?o \<or> ?o + length bs \<le> fat_table_cluster_offset t d + j"
      using False clusters_disjoint [OF assms(1-3)] assms(4,5) by (cases "d = c") auto
    then show ?thesis using False co disk_write_outside o by (auto simp: data_byte_def)
  qed
qed

lemma fat_wf_data_write:
  fixes t :: "'a fat_table_scheme"
  assumes "fat_wf t" "off + length bs \<le> dsize t"
  shows "fat_wf (disk_write t off bs)"
  using assms by (simp add: fat_wf_def)

lemma valid_cluster_write [simp]:
  fixes t :: "'a fat_table_scheme"
  shows "valid_cluster (disk_write t off bs) = valid_cluster t"
    "fat_entry (disk_write t off bs) = fat_entry t"
    "fat_table_get_next_cluster (disk_write t off bs) = fat_table_get_next_cluster t"
    "file_chain (disk_write t off bs) = file_chain t"
    "free_clusters (disk_write t off bs) = free_clusters t"
proof -
  show v: "valid_cluster (disk_write t off bs) = valid_cluster t"
    by (simp add: fun_eq_iff fat_table_is_valid_cluster_number_def)
  show e: "fat_entry (disk_write t off bs) = fat_entry t" by (simp add: fun_eq_iff fat_entry_def)
  show g: "fat_table_get_next_cluster (disk_write t off bs) = fat_table_get_next_cluster t"
    by (simp add: fun_eq_iff fat_table_get_next_cluster_def v e)
  show "file_chain (disk_write t off bs) = file_chain t" by (simp add: fun_eq_iff file_chain_def v g)
  show "free_clusters (disk_write t off bs) = free_clusters t" by (simp add: free_clusters_def v e)
qed

text \<open>Writing a table entry leaves the data area alone.\<close>

lemma data_byte_set_next:
  fixes t :: "'a fat_table_scheme"
  assumes "fat_wf t" "valid_cluster t c" "fat_table_set_next_cluster t c x = Some t'"
  shows "data_byte t' = data_byte t" "cluster_order t' = cluster_order t"
    "data_start_offset t' = data_start_offset t"
proof -
  let ?off = "unat c * 4 + fat_offset t"
  have t': "t' = (disk_write t ?off (le32_bytes x))\<lparr>fat_map := (fat_map t)[unat c := x]\<rparr>"
    using assms set_next_cluster_wf [OF assms(1,2)] by simp
  have off: "?off + 4 \<le> data_start_offset t" "?off \<le> dsize t"
    using valid_cluster_bounds(3) [OF assms(1,2)] assms(1) by (simp_all add: fat_wf_def)
  show "data_byte t' = data_byte t"
  proof (intro ext)
    fix d j
    have "?off + length (le32_bytes x) \<le> fat_table_cluster_offset t d + j"
      using off by (simp add: cluster_offset_eq)
    then have "disk (disk_write t ?off (le32_bytes x)) (fat_table_cluster_offset t d + j)
        = disk t (fat_table_cluster_offset t d + j)"
      using off disk_write_outside by blast
    then show "data_byte t' d j = data_byte t d j" by (simp add: data_byte_def t' cluster_offset_eq)
  qed
  show "cluster_order t' = cluster_order t" "data_start_offset t' = data_start_offset t" by (simp_all add: t')
qed


section \<open>Reading a chain\<close>

lemma file_chain_valid: "file_chain t cs \<Longrightarrow> k < length cs \<Longrightarrow> valid_cluster t (cs ! k)"
  by (simp add: file_chain_def)

lemma file_chain_next:
  "file_chain t cs \<Longrightarrow> k < length cs \<Longrightarrow>
    fat_table_get_next_cluster t (cs ! k) = Some (if k + 1 = length cs then FAT_CLUSTER_END_OF_CHAIN_MAX else cs ! (k + 1))"
  by (auto simp: file_chain_def dest: chain_next)

text \<open>The part of a transfer that falls into the cluster of its first byte.\<close>

lemma chunk_bounds:
  fixes off B n :: nat
  assumes "0 < B" "0 < n"
  defines "c \<equiv> min (B - off mod B) n"
  shows "0 < c" "c \<le> n" "off mod B + c \<le> B" "\<And>i. i < c \<Longrightarrow> (off + i) div B = off div B \<and> (off + i) mod B = off mod B + i"
    "c < n \<Longrightarrow> (off + c) div B = off div B + 1"
proof -
  have m: "off mod B < B" using assms(1) by simp
  show "0 < c" "c \<le> n" "off mod B + c \<le> B" using m assms(2) by (auto simp: c_def)
  fix i assume "i < c"
  then have i: "off mod B + i < B" by (auto simp: c_def)
  have "off + i = off div B * B + (off mod B + i)" by simp
  then show "(off + i) div B = off div B \<and> (off + i) mod B = off mod B + i"
    using i assms(1) by (metis add.commute div_mult_self3 mod_mult_self3 div_less mod_less add_0 less_not_refl)
next
  assume "c < n"
  then have c: "c = B - off mod B" by (auto simp: c_def)
  have "off mod B < B" using assms(1) by simp
  then have "off + c = off div B * B + B" using c by (metis add.assoc div_mult_mod_eq le_add_diff_inverse less_imp_le)
  then show "(off + c) div B = off div B + 1" using assms(1) by simp
qed

lemma pread_loop_chain:
  fixes v :: "'a fat_vol_scheme"
  assumes "fat_wf v" "file_chain v cs" "offset + n \<le> length cs * cluster_bytes v" "0 < n"
    and "cluster = cs ! (offset div cluster_bytes v)"
  shows "pread_loop v m buf offset n cluster
    = Some (0, mem_write m buf (map (file_byte v cs) [offset..<offset + n]), v)"
  using assms(3-5)
proof (induction n arbitrary: offset m buf cluster rule: less_induct)
  case (less n)
  let ?B = "cluster_bytes v" and ?k = "offset div cluster_bytes v"
  define c where "c = min (?B - offset mod ?B) n"
  have "offset < length cs * ?B" using less.prems by simp
  then have k: "?k < length cs" by (simp add: div_less_iff_less_mult)
  note valid = file_chain_valid [OF assms(2) k]
  note ch = chunk_bounds [where B = ?B and n = n and off = offset, folded c_def]
  have cB: "offset mod ?B + c \<le> ?B" "0 < c" "c \<le> n" using ch(1-3) less.prems by simp_all
  have "?B < 2 ^ 63" using cluster_bytes_bounds(2) [OF assms(1)] by (rule order_le_less_trans) simp
  then have c63: "sint (of_nat c :: 64 word) = int c" using cB by (intro sint_of_nat64) linarith
  let ?off = "fat_table_cluster_offset v cluster + offset mod ?B"
  let ?part = "map (file_byte v cs) [offset..<offset + c]"
  have "?off + c \<le> dsize v"
    using cluster_in_device(2) [OF assms(1) valid] cB less.prems by simp
  then have rd: "full_pread v m buf c (int ?off) = (of_nat c, mem_write m buf (disk_read v ?off c), v)"
    using assms(1) by (intro full_pread_plain) (simp_all add: fat_wf_def)
  have part: "disk_read v ?off c = ?part"
  proof (rule nth_equalityI)
    fix i assume "i < length (disk_read v ?off c)"
    then show "disk_read v ?off c ! i = ?part ! i"
      using ch(4) less.prems by (simp add: file_byte_def data_byte_def add.assoc)
  qed simp
  have step: "pread_loop v m buf offset n cluster = do {
      cluster1 \<leftarrow> fat_table_get_next_cluster v cluster;
      pread_loop v (mem_write m buf ?part) (buf + int c) (offset + c) (n - c) cluster1 }"
    using less.prems valid_cluster_plain(2) [OF assms(1) valid] rd part c63
    by (subst pread_loop.simps) (simp add: remaining_bytes_eq mask_offset_eq Let_def c_def)
  have nx: "fat_table_get_next_cluster v cluster
      = Some (if ?k + 1 = length cs then FAT_CLUSTER_END_OF_CHAIN_MAX else cs ! (?k + 1))"
    using file_chain_next [OF assms(2) k] less.prems by simp
  show ?case
  proof (cases "c = n")
    case True
    then show ?thesis using step nx by (simp add: pread_loop.simps)
  next
    case False
    then have c: "c < n" using cB by simp
    have next_k: "(offset + c) div ?B = ?k + 1" using ch(5) c less.prems by simp
    have "offset + c < length cs * ?B" using less.prems c by simp
    then have k1: "?k + 1 < length cs" using next_k by (metis div_less_iff_less_mult zero_less_power zero_less_numeral)
    let ?rest = "map (file_byte v cs) [offset + c..<offset + n]"
    have eqn: "offset + c + (n - c) = offset + n" using c by simp
    have "pread_loop v (mem_write m buf ?part) (buf + int c) (offset + c) (n - c) (cs ! (?k + 1))
      = Some (0, mem_write (mem_write m buf ?part) (buf + int c) ?rest, v)"
      unfolding eqn [symmetric]
      by (rule less.IH) (use less.prems c cB next_k in auto)
    moreover have "map (file_byte v cs) [offset..<offset + n] = ?part @ ?rest"
      using c upt_add_eq_append [of offset "offset + c" "n - c"] by (simp flip: map_append)
    moreover have "mem_write m buf (?part @ ?rest) = mem_write (mem_write m buf ?part) (buf + int c) ?rest"
      by (simp add: mem_write_append)
    ultimately show ?thesis using step nx k1 by simp
  qed
qed


section \<open>Extending a chain\<close>

text \<open>
  \<open>grows v cs v' ns\<close>: between \<open>v\<close> and \<open>v'\<close> the chain \<open>cs\<close> was extended by \<open>ns\<close>, clusters that
  were free, and nothing else changed in the table; the data of clusters outside the chain is as
  before.
\<close>

definition grows :: "'a fat_vol_scheme \<Rightarrow> u32 list \<Rightarrow> 'a fat_vol_scheme \<Rightarrow> u32 list \<Rightarrow> bool" where
  "grows v cs v' ns \<longleftrightarrow> fat_wf v' \<and> file_chain v' (cs @ ns)
     \<and> cluster_order v' = cluster_order v \<and> data_start_offset v' = data_start_offset v
     \<and> clock v' = clock v \<and> valid_cluster v' = valid_cluster v
     \<and> set ns \<subseteq> free_clusters v
     \<and> (\<forall>c. c \<notin> set (cs @ ns) \<longrightarrow> fat_entry v' c = fat_entry v c)
     \<and> (\<forall>c \<in> set (cs @ ns). fat_entry v' c \<noteq> Some 0)
     \<and> (\<forall>c j. valid_cluster v c \<longrightarrow> c \<notin> set (cs @ ns) \<longrightarrow> j < cluster_bytes v \<longrightarrow> data_byte v' c j = data_byte v c j)"

text \<open>No cluster of the chain is marked free (the last one holds an end mark, not 0).\<close>

abbreviation chain_used :: "'a fat_table_scheme \<Rightarrow> u32 list \<Rightarrow> bool" where
  "chain_used t cs \<equiv> \<forall>c \<in> set cs. fat_entry t c \<noteq> Some 0"

lemma grows_refl: "fat_wf v \<Longrightarrow> file_chain v cs \<Longrightarrow> chain_used v cs \<Longrightarrow> grows v cs v []"
  by (simp add: grows_def)

lemma grows_free: 
  assumes "grows v cs v' ns" "chain_used v cs"
  shows "free_clusters v' = free_clusters v - set ns"
proof (rule set_eqI)
  fix c
  show "c \<in> free_clusters v' \<longleftrightarrow> c \<in> free_clusters v - set ns"
    using assms by (cases "c \<in> set (cs @ ns)") (auto simp: grows_def free_clusters_def)
qed

lemma grows_trans:
  assumes "grows v cs v1 ns" "grows v1 (cs @ ns) v2 ms" "chain_used v cs"
  shows "grows v cs v2 (ns @ ms)"
  using assms grows_free [OF assms(1,3)] unfolding grows_def by auto

lemma finite_free_clusters [simp]: "finite (free_clusters t)"
  by (rule finite_subset [OF subset_UNIV]) simp

text \<open>One table write through a chain keeps all that \<open>grows\<close> asks of the rest.\<close>

lemma set_next_clock:
  fixes v :: "'a fat_vol_scheme"
  assumes "fat_wf v" "valid_cluster v c" "fat_table_set_next_cluster v c x = Some v'"
  shows "clock v' = clock v"
proof -
  have "v' = (disk_write v (unat c * 4 + fat_offset v) (le32_bytes x))\<lparr>fat_map := (fat_map v)[unat c := x]\<rparr>"
    using assms set_next_cluster_wf [OF assms(1,2)] by simp
  then show ?thesis by (simp add: disk_write_def)
qed

lemma next_free_cluster_some:
  assumes "fat_wf t" "free_clusters t \<noteq> {}"
  shows "\<exists>n \<in> free_clusters t. fat_table_get_next_free_cluster t = Some n"
proof -
  obtain d where "valid_cluster t d" "fat_entry t d = Some 0" using assms(2) by (auto simp: free_clusters_def)
  then show ?thesis using next_free_least [OF assms(1)] by (auto simp: free_clusters_def)
qed

lemma next_or_new_cluster_chain:
  fixes v :: "'a fat_vol_scheme"
  assumes wf: "fat_wf v" and fc: "file_chain v cs" and used: "chain_used v cs" and k: "k < length cs"
    and room: "k + 1 < length cs \<or> free_clusters v \<noteq> {}"
  shows "\<exists>ns v'. next_or_new_cluster v (cs ! k) = Some ((cs @ ns) ! (k + 1), v')
    \<and> grows v cs v' ns \<and> data_byte v' = data_byte v \<and> k + 1 < length (cs @ ns)
    \<and> length ns = (if k + 1 < length cs then 0 else 1)"
proof (cases "k + 1 < length cs")
  case True
  then have "fat_table_get_next_cluster v (cs ! k) = Some (cs ! (k + 1))"
    using file_chain_next [OF fc k] by simp
  moreover have "\<not> fat_table_cluster_is_EOC (cs ! (k + 1))"
    using valid_cluster_plain(1) [OF wf file_chain_valid [OF fc True]] .
  ultimately have "next_or_new_cluster v (cs ! k) = Some ((cs @ []) ! (k + 1), v)"
    by (simp add: next_or_new_cluster_def)
  then show ?thesis using grows_refl [OF wf fc used] True by (intro exI [of _ "[]"] exI [of _ v]) simp
next
  case False
  have cs: "cs \<noteq> []" using fc by simp
  have kl: "k = length cs - 1" using False k by simp
  have last: "cs ! k = last cs" "k + 1 = length cs" using kl k cs by (simp_all add: last_conv_nth)
  obtain n where n: "n \<in> free_clusters v" and free: "fat_table_get_next_free_cluster v = Some n"
    using next_free_cluster_some [OF wf] room False by auto
  then have nv: "valid_cluster v n" and n0: "fat_entry v n = Some 0" by (auto simp: free_clusters_def)
  have ncs: "n \<notin> set cs" using n0 used by auto
  have lv: "valid_cluster v (last cs)" using fc cs by (simp add: file_chain_def)
  obtain v1 where v1: "fat_table_set_next_cluster v (last cs) n = Some v1" "fat_wf v1"
    "valid_cluster v1 = valid_cluster v"
    using links.put_obtain [OF wf lv, of n] by metis
  obtain v2 where v2: "fat_table_set_next_cluster v1 n FAT_CLUSTER_END_OF_CHAIN_MAX = Some v2" "fat_wf v2"
    "valid_cluster v2 = valid_cluster v1"
    using links.put_obtain [OF v1(2), of n FAT_CLUSTER_END_OF_CHAIN_MAX] v1(3) nv by metis
  have norm: "fat_norm v n = n" "fat_norm v FAT_CLUSTER_END_OF_CHAIN_MAX = FAT_CLUSTER_END_OF_CHAIN_MAX"
    using nv wf by (auto simp: fat_norm_def)
  have "chain (fat_table_get_next_cluster v2) FAT_CLUSTER_END_OF_CHAIN_MAX (cs @ [n])"
    using fc ncs lv nv v1 v2 norm by (intro links.extend(1) [OF wf]) (auto simp: file_chain_def)
  then have fc2: "file_chain v2 (cs @ [n])"
    using fc ncs nv v1(3) v2(3) by (auto simp: file_chain_def)
  have entry: "fat_entry v2 = (fat_entry v)(last cs \<mapsto> n, n \<mapsto> FAT_CLUSTER_END_OF_CHAIN_MAX)"
    using set_next_cluster_laws(3) [OF wf lv v1(1)] set_next_cluster_laws(3) [OF v1(2) _ v2(1)] v1(3) nv by simp
  have n_nz: "n \<noteq> 0" using valid_cluster_bounds(1) [OF wf nv] by auto
  have data: "data_byte v2 = data_byte v" "cluster_order v2 = cluster_order v" "data_start_offset v2 = data_start_offset v"
    using data_byte_set_next [OF wf lv v1(1)] data_byte_set_next [OF v1(2) _ v2(1)] v1(3) nv by simp_all
  have clk: "clock v2 = clock v"
    using set_next_clock [OF wf lv v1(1)] set_next_clock [OF v1(2) _ v2(1)] v1(3) nv by simp
  have "next_or_new_cluster v (cs ! k) = Some (n, v2)"
    using file_chain_next [OF fc k] last free valid_cluster_plain(1) [OF wf nv] v1 v2
    by (simp add: next_or_new_cluster_def fat_wf_def)
  moreover have "grows v cs v2 [n]"
    using v2 v1(3) fc2 data clk n used entry n_nz last(1) cs
    by (auto simp: grows_def fat_consts)
  ultimately show ?thesis using data last
    by (intro exI [of _ "[n]"] exI [of _ v2]) (auto simp: nth_append)
qed


section \<open>Writing a chain\<close>

lemma file_byte_write:
  fixes t :: "'a fat_table_scheme"
  assumes "fat_wf t" "file_chain t cs" "k < length cs" "o1 + length bs \<le> cluster_bytes t"
    and "p < length cs * cluster_bytes t"
  shows "file_byte (disk_write t (fat_table_cluster_offset t (cs ! k) + o1) bs) cs p =
    (if p div cluster_bytes t = k \<and> o1 \<le> p mod cluster_bytes t \<and> p mod cluster_bytes t < o1 + length bs
     then bs ! (p mod cluster_bytes t - o1) else file_byte t cs p)"
proof -
  have q: "p div cluster_bytes t < length cs" using assms(5) by (simp add: div_less_iff_less_mult)
  have "cs ! (p div cluster_bytes t) = cs ! k \<longleftrightarrow> p div cluster_bytes t = k"
    using assms(2,3) q by (simp add: file_chain_def nth_eq_iff_index_eq)
  then show ?thesis
    using data_byte_write [OF assms(1) file_chain_valid [OF assms(2,3)] file_chain_valid [OF assms(2) q] assms(4)]
    by (simp add: file_byte_def)
qed

lemma file_byte_append:
  "p < length cs * cluster_bytes t \<Longrightarrow> file_byte t (cs @ ns) p = file_byte t cs p"
  by (simp add: file_byte_def nth_append div_less_iff_less_mult)

lemma file_byte_cong:
  "data_byte t' = data_byte t \<Longrightarrow> cluster_order t' = cluster_order t \<Longrightarrow> file_byte t' cs p = file_byte t cs p"
  by (simp add: file_byte_def)

text \<open>The bytes of a file after \<open>n\<close> bytes of memory at \<open>buf\<close> were put at \<open>offset\<close>.\<close>

definition file_written :: "'a fat_table_scheme \<Rightarrow> u32 list \<Rightarrow> 'a fat_table_scheme \<Rightarrow> u32 list
    \<Rightarrow> mem \<Rightarrow> int \<Rightarrow> nat \<Rightarrow> nat \<Rightarrow> bool" where
  "file_written t cs t' ns m buf offset n \<longleftrightarrow>
     (\<forall>p. offset \<le> p \<and> p < offset + n \<longrightarrow> file_byte t' (cs @ ns) p = m (buf + int (p - offset))) \<and>
     (\<forall>p < length cs * cluster_bytes t. p < offset \<or> offset + n \<le> p \<longrightarrow> file_byte t' (cs @ ns) p = file_byte t cs p)"

text \<open>Writing the part that falls into the first cluster.\<close>

lemma chunk_written:
  fixes v :: "'a fat_vol_scheme" and m :: mem and buf :: int
  assumes "fat_wf v" "file_chain v cs" "chain_used v cs" "k < length cs" "k = offset div cluster_bytes v"
    and "offset mod cluster_bytes v + c \<le> cluster_bytes v" "0 < c"
  defines "v1 \<equiv> disk_write v (fat_table_cluster_offset v (cs ! k) + offset mod cluster_bytes v) (mem_read m buf c)"
  shows "grows v cs v1 []" "file_written v cs v1 [] m buf offset c"
    "full_pwrite v m buf c (int (fat_table_cluster_offset v (cs ! k) + offset mod cluster_bytes v)) = (of_nat c, v1)"
proof -
  let ?B = "cluster_bytes v"
  let ?o = "fat_table_cluster_offset v (cs ! k) + offset mod ?B"
  note valid = file_chain_valid [OF assms(2,4)]
  have dev: "?o + length (mem_read m buf c) \<le> dsize v"
    using cluster_in_device(2) [OF assms(1) valid] assms(6) by simp
  have "fat_wf v1" unfolding v1_def by (rule fat_wf_data_write [OF assms(1) dev])
  moreover have "data_byte v1 d j = data_byte v d j" if "valid_cluster v d" "d \<notin> set cs" "j < ?B" for d j
    unfolding v1_def using data_byte_write [OF assms(1) valid that(1), of "offset mod ?B" "mem_read m buf c" j]
      that assms(4,6) nth_mem [OF assms(4)] by auto
  moreover have "clock v1 = clock v" by (simp add: v1_def disk_write_def)
  ultimately show "grows v cs v1 []"
    using assms(2,3) by (simp add: grows_def v1_def)
  show "full_pwrite v m buf c (int ?o) = (of_nat c, v1)"
    unfolding v1_def using assms(1) by (intro full_pwrite_plain) (simp add: fat_wf_def)
  have ob: "offset = k * ?B + offset mod ?B" unfolding assms(5) by (rule div_mult_mod_eq [symmetric])
  have len: "k * ?B + ?B \<le> length cs * ?B"
    using mult_right_mono [of "k + 1" "length cs" ?B] assms(4) by (simp add: algebra_simps)
  have fb: "file_byte v1 cs p = (if offset \<le> p \<and> p < offset + c then m (buf + int (p - offset)) else file_byte v cs p)"
    if p: "p < length cs * ?B" for p
  proof (cases "p div ?B = k")
    case True
    then have "p = k * ?B + p mod ?B" by (metis div_mult_mod_eq)
    then have d: "p - offset = p mod ?B - offset mod ?B" "offset \<le> p \<longleftrightarrow> offset mod ?B \<le> p mod ?B"
      "p < offset + c \<longleftrightarrow> p mod ?B < offset mod ?B + c"
      using ob by linarith+
    show ?thesis
      unfolding v1_def d using file_byte_write [OF assms(1,2,4) _ p, of "offset mod ?B" "mem_read m buf c"] True assms(6)
      by auto
  next
    case False
    have lt: "p div ?B \<le> k" if "p < k * ?B + ?B" using that by (simp add: less_Suc_eq_le [symmetric] div_less_iff_less_mult)
    have "\<not> (offset \<le> p \<and> p < offset + c)"
      using False ob assms(5,6) div_le_mono [of offset p ?B]
        lt by fastforce
    then show ?thesis
      unfolding v1_def using file_byte_write [OF assms(1,2,4) _ p, of "offset mod ?B" "mem_read m buf c"] False assms(6)
      by auto
  qed
  show "file_written v cs v1 [] m buf offset c"
    unfolding file_written_def using fb ob assms(6) len by auto
qed

lemma file_written_trans:
  assumes "file_written t cs t1 ns m buf offset c" "file_written t1 (cs @ ns) t2 ms m (buf + int c) (offset + c) n"
    and "cluster_order t1 = cluster_order t" "offset + c \<le> length (cs @ ns) * cluster_bytes t"
  shows "file_written t cs t2 (ns @ ms) m buf offset (c + n)"
  unfolding file_written_def
proof (intro conjI allI impI)
  fix p assume p: "offset \<le> p \<and> p < offset + (c + n)"
  show "file_byte t2 (cs @ ns @ ms) p = m (buf + int (p - offset))"
  proof (cases "p < offset + c")
    case True
    then show ?thesis using assms p by (auto simp: file_written_def)
  next
    case False
    then have "file_byte t2 (cs @ ns @ ms) p = m (buf + int c + int (p - (offset + c)))"
      using assms(2) p by (auto simp: file_written_def)
    then show ?thesis using False by simp
  qed
next
  fix p assume p: "p < length cs * cluster_bytes t" "p < offset \<or> offset + (c + n) \<le> p"
  then have "p < length (cs @ ns) * cluster_bytes t" by (simp add: algebra_simps)
  then have "file_byte t2 (cs @ ns @ ms) p = file_byte t1 (cs @ ns) p"
    using assms(2,3) p by (auto simp: file_written_def)
  moreover have "file_byte t1 (cs @ ns) p = file_byte t cs p"
    using assms(1) p by (auto simp: file_written_def)
  ultimately show "file_byte t2 (cs @ ns @ ms) p = file_byte t cs p" by simp
qed


lemma pwrite_loop_chain:
  fixes v :: "'a fat_vol_scheme"
  assumes "fat_wf v" "file_chain v cs" "chain_used v cs" "0 < n"
    and "offset div cluster_bytes v < length cs"
    and "offset + n \<le> (length cs + card (free_clusters v)) * cluster_bytes v"
    and "cluster = cs ! (offset div cluster_bytes v)"
  shows "\<exists>v' ns. pwrite_loop v m buf offset (int n) cluster = Some (0, v') \<and> grows v cs v' ns
    \<and> file_written v cs v' ns m buf offset n \<and> offset + n \<le> length (cs @ ns) * cluster_bytes v"
  using assms
proof (induction n arbitrary: v cs offset buf cluster rule: less_induct)
  case (less n)
  let ?B = "cluster_bytes v" and ?k = "offset div cluster_bytes v"
  define c where "c = min (?B - offset mod ?B) n"
  note wf = less.prems(1) and k = less.prems(5)
  note valid = file_chain_valid [OF less.prems(2) k]
  note ch = chunk_bounds [where B = ?B and n = n and off = offset, folded c_def]
  have cB: "offset mod ?B + c \<le> ?B" "0 < c" "c \<le> n" using ch(1-3) less.prems by simp_all
  have "?B < 2 ^ 63" using cluster_bytes_bounds(2) [OF wf] by (rule order_le_less_trans) simp
  then have c63: "sint (of_nat c :: 64 word) = int c" using cB by (intro sint_of_nat64) linarith
  define v1 where "v1 = disk_write v (fat_table_cluster_offset v (cs ! ?k) + offset mod ?B) (mem_read m buf c)"
  note cw = chunk_written [where m = m and buf = buf, OF less.prems(1,2,3) k refl cB(1,2), folded v1_def]
  have rem: "fat_table_get_cluster_remaining_bytes v n offset = c"
    by (simp add: remaining_bytes_eq c_def)
  have step: "pwrite_loop v m buf offset (int n) cluster =
     (if c < n then do {
        (cluster1, v2) \<leftarrow> next_or_new_cluster v1 cluster;
        (if err v2 \<noteq> E_OK \<or> \<not> fat_table_cluster_is_valid cluster1 then Some (int (n - c), v2)
         else pwrite_loop v2 m (buf + int c) (offset + c) (int (n - c)) cluster1) }
      else Some (0, v1))"
    using less.prems(4,7) cB
    by (subst pwrite_loop.simps)
      (auto simp: mask_offset_eq Let_def of_nat_diff rem cw(3) [unfolded of_nat_add] c63 cong: if_cong)
  show ?case
  proof (cases "c = n")
    case True
    have "?k * ?B + ?B \<le> length cs * ?B"
      using mult_right_mono [of "?k + 1" "length cs" ?B] k by (simp add: algebra_simps)
    then have "offset + n \<le> length cs * ?B"
      using cB(1) True div_mult_mod_eq [of offset ?B] by linarith
    then show ?thesis using step True cw by (intro exI [of _ v1] exI [of _ "[]"]) simp
  next
    case False
    then have c: "c < n" using cB by simp
    have next_k: "(offset + c) div ?B = ?k + 1" using ch(5) c less.prems by simp
    have g1: "fat_wf v1" "file_chain v1 cs" "cluster_order v1 = cluster_order v"
      using cw(1) by (simp_all add: grows_def)
    have used1: "chain_used v1 cs" and free1: "free_clusters v1 = free_clusters v"
      using less.prems(3) grows_free [OF cw(1) less.prems(3)] by (simp_all add: v1_def)
    have "offset + c < (length cs + card (free_clusters v)) * ?B" using less.prems(6) c by simp
    then have room: "?k + 1 < length cs + card (free_clusters v)"
      using next_k by (metis div_less_iff_less_mult zero_less_power zero_less_numeral)
    then have "?k + 1 < length cs \<or> free_clusters v1 \<noteq> {}" using free1 by fastforce
    from next_or_new_cluster_chain [OF g1(1,2) used1 k this]
    obtain ns v2 where ns: "next_or_new_cluster v1 cluster = Some ((cs @ ns) ! (?k + 1), v2)"
      "grows v1 cs v2 ns" "data_byte v2 = data_byte v1" "?k + 1 < length (cs @ ns)"
      using less.prems(7) by metis
    have gr: "grows v cs v2 ns" using grows_trans [OF cw(1) _ less.prems(3), of v2 ns] ns(2) by simp
    then have g2: "fat_wf v2" "file_chain v2 (cs @ ns)" "cluster_order v2 = cluster_order v" "chain_used v2 (cs @ ns)"
      "set ns \<subseteq> free_clusters v"
      by (simp_all add: grows_def)
    have d: "distinct ns" using g2(2) by (simp add: file_chain_def)
    have "card (free_clusters v2) = card (free_clusters v) - length ns"
      using grows_free [OF gr less.prems(3)] d g2(5) by (simp add: card_Diff_subset distinct_card)
    moreover have "length ns \<le> card (free_clusters v)"
      using d g2(5) card_mono [of "free_clusters v" "set ns"] by (simp add: distinct_card)
    ultimately have total: "length (cs @ ns) + card (free_clusters v2) = length cs + card (free_clusters v)"
      by simp
    have room2: "offset + c + (n - c) \<le> (length (cs @ ns) + card (free_clusters v2)) * cluster_bytes v2"
      using less.prems(6) cB(3) unfolding total g2(3) by simp
    let ?c1 = "(cs @ ns) ! (?k + 1)"
    have nkB: "(offset + c) div cluster_bytes v2 = ?k + 1" using next_k g2(3) by simp
    have "\<exists>v' ms. pwrite_loop v2 m (buf + int c) (offset + c) (int (n - c)) ?c1 = Some (0, v')
        \<and> grows v2 (cs @ ns) v' ms \<and> file_written v2 (cs @ ns) v' ms m (buf + int c) (offset + c) (n - c)
        \<and> offset + c + (n - c) \<le> length ((cs @ ns) @ ms) * cluster_bytes v2"
      by (rule less.IH) (use c cB g2 nkB ns(4) room2 in auto)
    then obtain v' ms where ih: "pwrite_loop v2 m (buf + int c) (offset + c) (int (n - c)) ?c1 = Some (0, v')"
        "grows v2 (cs @ ns) v' ms" "file_written v2 (cs @ ns) v' ms m (buf + int c) (offset + c) (n - c)"
        "offset + c + (n - c) \<le> length ((cs @ ns) @ ms) * cluster_bytes v2"
      by blast
    have vc1: "fat_table_cluster_is_valid ?c1"
      by (rule valid_cluster_plain(2) [OF g2(1) file_chain_valid [OF g2(2) ns(4)]])
    have "pwrite_loop v m buf offset (int n) cluster = Some (0, v')"
      using step c ns(1) vc1 ih(1) g2(1) by (simp add: fat_wf_def)
    moreover have "grows v cs v' (ns @ ms)" by (rule grows_trans [OF gr ih(2) less.prems(3)])
    moreover have "file_written v cs v2 ns m buf offset c"
    proof -
      have "?k * ?B + ?B \<le> length cs * ?B"
        using mult_right_mono [of "?k + 1" "length cs" ?B] k by (simp add: algebra_simps)
      then have "offset + c \<le> length cs * ?B"
        using cB(1) div_mult_mod_eq [of offset ?B] by linarith
      then show ?thesis
        using cw(2) file_byte_cong [OF ns(3)] g1(3) g2(3)
        by (auto simp: file_written_def file_byte_append)
    qed
    moreover have "offset + c \<le> length (cs @ ns) * ?B"
      using nkB ns(4) next_k g2(3) ch(5) c cB
      by (metis (no_types, lifting) div_less_iff_less_mult less_imp_le zero_less_power zero_less_numeral)
    ultimately show ?thesis
      using file_written_trans [OF _ ih(3) g2(3)] c ih(4) g2(3)
      by (intro exI [of _ v'] exI [of _ "ns @ ms"]) simp
  qed
qed

section \<open>Files in good order\<close>

lemma length_dentry_bytes:
  "length (base_name d) = 8 \<Longrightarrow> length (extension d) = 3 \<Longrightarrow> length (dentry_bytes d) = 32"
  by (simp add: dentry_bytes_def)

text \<open>
  \<open>dir_slot\<close> is where the entry of a file lies on the device. \<open>file_ok v f d cs parent\<close>: \<open>f\<close> has
  the entry \<open>d\<close> and the chain \<open>cs\<close>, which is long enough for its size and made of used clusters,
  and its slot lies in the first cluster of the parent directory, a used cluster of another chain.
\<close>

definition dir_slot :: "'a fat_table_scheme \<Rightarrow> fat_file \<Rightarrow> fat_file \<Rightarrow> nat" where
  "dir_slot v parent file = fat_table_cluster_offset v (start_cluster parent) + unat (pos_in_parent file) * 32"

definition file_ok :: "'a fat_vol_scheme \<Rightarrow> fat_file \<Rightarrow> fat_dir_entry \<Rightarrow> u32 list \<Rightarrow> fat_file \<Rightarrow> bool" where
  "file_ok v file d cs parent \<longleftrightarrow> fat_wf v \<and> file_chain v cs \<and> chain_used v cs
     \<and> dentry file = Some d \<and> length (base_name d) = 8 \<and> length (extension d) = 3
     \<and> start_cluster file = hd cs \<and> unat (file_size d) \<le> length cs * cluster_bytes v
     \<and> valid_cluster v (start_cluster parent) \<and> start_cluster parent \<notin> set cs
     \<and> fat_entry v (start_cluster parent) \<noteq> Some 0
     \<and> unat (pos_in_parent file) * 32 + 32 \<le> cluster_bytes v"

lemma write_dir_entry_ok:
  fixes v :: "'a fat_vol_scheme"
  assumes "fat_wf v" "dentry file = Some d" "length (base_name d) = 8" "length (extension d) = 3"
    and "unat (pos_in_parent file) * 32 + 32 \<le> cluster_bytes v"
  shows "write_dir_entry v parent file = Some (disk_write v (dir_slot v parent file) (dentry_bytes d))"
  using assms length_dentry_bytes [OF assms(3,4)]
  by (auto simp: write_dir_entry_def Let_def bytes_per_cluster_eq dir_slot_def add.commute
      sys_pwrite_def next_answer_def fat_wf_def)

text \<open>Writing the entry of a file does not touch the data of a chain without the parent cluster.\<close>

lemma entry_write_frame:
  fixes v :: "'a fat_vol_scheme"
  assumes "fat_wf v" "file_chain v cs" "valid_cluster v (start_cluster parent)" "start_cluster parent \<notin> set cs"
    and "unat (pos_in_parent file) * 32 + 32 \<le> cluster_bytes v" "length bs = 32"
  defines "v' \<equiv> disk_write v (dir_slot v parent file) bs"
  shows "fat_wf v'" "file_chain v' cs" "clock v' = clock v"
    "p < length cs * cluster_bytes v \<Longrightarrow> file_byte v' cs p = file_byte v cs p"
    "disk_read v' (dir_slot v' parent file) 32 = bs"
proof -
  let ?pc = "start_cluster parent" and ?o = "unat (pos_in_parent file) * 32"
  have slot: "dir_slot v parent file = fat_table_cluster_offset v ?pc + ?o" by (simp add: dir_slot_def)
  have "dir_slot v parent file + length bs \<le> dsize v"
    using cluster_in_device(2) [OF assms(1,3)] assms(5,6) slot by simp
  then show "fat_wf v'" unfolding v'_def by (rule fat_wf_data_write [OF assms(1)])
  show "file_chain v' cs" using assms(2) by (simp add: v'_def)
  show "clock v' = clock v" by (simp add: v'_def disk_write_def)
  show "disk_read v' (dir_slot v' parent file) 32 = bs"
    using disk_read_write_same [of v "dir_slot v parent file" bs] assms(6)
    by (simp add: v'_def dir_slot_def cluster_offset_eq)
  assume p: "p < length cs * cluster_bytes v"
  then have q: "p div cluster_bytes v < length cs" by (simp add: div_less_iff_less_mult)
  then have "cs ! (p div cluster_bytes v) \<noteq> ?pc" using assms(4) by (metis nth_mem)
  then show "file_byte v' cs p = file_byte v cs p"
    using data_byte_write [OF assms(1,3) file_chain_valid [OF assms(2) q], of ?o bs "p mod cluster_bytes v"] assms(5,6)
    by (auto simp: file_byte_def v'_def slot)
qed

lemma seek_inside:
  assumes "fat_wf v" "file_chain v cs" "p < length cs * cluster_bytes v" "p < 2 ^ 32"
  shows "fat_table_seek_cluster v (hd cs) p = Some (cs ! (p div cluster_bytes v), v)"
proof -
  have "p div cluster_bytes v < 2 ^ 32" using assms(4) div_le_dividend le_less_trans by blast
  then show ?thesis
    using seek_cluster_chain [OF assms(1,2)] assms(3) by (simp add: Let_def div_less_iff_less_mult)
qed

section \<open>Reading a file\<close>

lemma fat_file_pread_ok:
  fixes v :: "'a fat_vol_scheme" and sz :: nat
  assumes ok: "file_ok v file d cs parent" and "offset \<le> unat (file_size d)"
  defines "n \<equiv> min sz (unat (file_size d) - offset)"
  defines "d' \<equiv> if n = 0 then d else snd (fill_dentry_time_now (clock v) d False False)"
  shows "\<exists>v'. fat_file_pread v file m buf sz offset parent
      = Some (int n, mem_write m buf (map (file_byte v cs) [offset..<offset + n]), file\<lparr>dentry := Some d'\<rparr>, v')
    \<and> file_ok v' (file\<lparr>dentry := Some d'\<rparr>) d' cs parent
    \<and> (\<forall>p < length cs * cluster_bytes v. file_byte v' cs p = file_byte v cs p)"
proof (cases "n = 0")
  case True
  then show ?thesis
    using ok assms(2) by (auto simp: fat_file_pread_def file_ok_def n_def d'_def Let_def)
next
  case False
  note wf = ok [unfolded file_ok_def]
  let ?f = "file\<lparr>dentry := Some d'\<rparr>"
  have d': "base_name d' = base_name d" "extension d' = extension d" "file_size d' = file_size d"
    using False by (simp_all add: d'_def fill_dentry_time_now_def Let_def split: prod.splits)
  have o: "offset < unat (file_size d)" "0 < n" "offset + n \<le> unat (file_size d)"
    using False assms(2) by (auto simp: n_def)
  have "unat (file_size d) < 2 ^ 32" using unsigned_less [of "file_size d"] by simp
  then have o32: "offset < 2 ^ 32" using o by simp
  have room: "offset + n \<le> length cs * cluster_bytes v" "offset < length cs * cluster_bytes v"
    using o wf by linarith+
  have sk: "fat_table_seek_cluster v (start_cluster file) offset = Some (cs ! (offset div cluster_bytes v), v)"
    using seek_inside [OF _ _ room(2) o32] wf by simp
  have lp: "pread_loop v m buf offset n (cs ! (offset div cluster_bytes v))
      = Some (0, mem_write m buf (map (file_byte v cs) [offset..<offset + n]), v)"
    using pread_loop_chain [OF _ _ room(1) o(2) refl] wf by simp
  define v' where "v' = disk_write v (dir_slot v parent ?f) (dentry_bytes d')"
  have len: "length (dentry_bytes d') = 32" using length_dentry_bytes [of d'] d' wf by simp
  have wd: "write_dir_entry v parent ?f = Some v'"
    unfolding v'_def by (rule write_dir_entry_ok) (use wf d' in simp_all)
  have fr: "fat_wf v'" "file_chain v' cs" "\<forall>p < length cs * cluster_bytes v. file_byte v' cs p = file_byte v cs p"
    using entry_write_frame [of v cs parent ?f "dentry_bytes d'"] wf len by (simp_all add: v'_def)
  have "file_ok v' ?f d' cs parent"
    using wf fr(1,2) d' by (simp add: file_ok_def v'_def)
  moreover have "fat_file_pread v file m buf sz offset parent
      = Some (int n, mem_write m buf (map (file_byte v cs) [offset..<offset + n]), ?f, v')"
  proof -
    have n: "min sz (unat (file_size d) - offset) = n" and dd: "snd (fill_dentry_time_now (clock v) d False False) = d'"
      using False by (simp add: n_def, simp add: d'_def)
    show ?thesis
      using wf o sk lp wd by (simp add: fat_file_pread_def Let_def n dd fat_wf_def)
  qed
  ultimately show ?thesis using fr(3) by blast
qed


section \<open>Writing a file\<close>

lemma grows_slot:
  assumes "grows v cs v' ns" "valid_cluster v c" "c \<notin> set cs" "fat_entry v c \<noteq> Some 0"
  shows "valid_cluster v' c" "c \<notin> set (cs @ ns)" "fat_entry v' c \<noteq> Some 0"
  using assms by (auto simp: grows_def free_clusters_def)

lemma div_pred:
  fixes a b :: nat
  assumes "0 < a"
  shows "a div b = (if a mod b = 0 then (a - 1) div b + 1 else (a - 1) div b)"
  using assms by (cases a) (simp_all add: div_Suc)

text \<open>Where the first byte goes: inside the chain, or in the next cluster, which may be new.\<close>

lemma pwrite_start:
  fixes v :: "'a fat_vol_scheme"
  assumes "file_ok v file d cs parent" "offset \<le> unat (file_size d)" "0 < sz"
    and "offset + sz \<le> (length cs + card (free_clusters v)) * cluster_bytes v"
  shows "\<exists>c ns v1. fat_table_seek_cluster v (start_cluster file) (if offset \<noteq> 0 then offset - 1 else 0) = Some (c, v)
    \<and> c \<noteq> 0
    \<and> (if offset mod cluster_bytes v = 0 \<and> offset \<noteq> 0 then next_or_new_cluster v c else Some (c, v))
        = Some ((cs @ ns) ! (offset div cluster_bytes v), v1)
    \<and> grows v cs v1 ns \<and> data_byte v1 = data_byte v \<and> offset div cluster_bytes v < length (cs @ ns)"
proof -
  let ?B = "cluster_bytes v" and ?p = "if offset \<noteq> 0 then offset - 1 else 0"
  note wf = assms(1) [unfolded file_ok_def]
  have cs: "cs \<noteq> []" using wf file_chain_nonempty by blast
  have "0 < length cs * ?B" using cs by simp
  then have p: "?p < length cs * ?B" using assms(2) wf by auto
  have "unat (file_size d) < 2 ^ 32" using unsigned_less [of "file_size d"] by simp
  then have p32: "?p < 2 ^ 32" using assms(2) by auto
  have sk: "fat_table_seek_cluster v (start_cluster file) ?p = Some (cs ! (?p div ?B), v)"
    using seek_inside [OF _ _ p p32] wf by simp
  have pk: "?p div ?B < length cs" using p by (simp add: div_less_iff_less_mult)
  have c0: "cs ! (?p div ?B) \<noteq> 0"
    using valid_cluster_bounds(1) [OF _ file_chain_valid [OF _ pk]] wf by fastforce
  show ?thesis
  proof (cases "offset mod ?B = 0 \<and> offset \<noteq> 0")
    case True
    then have k1: "offset div ?B = ?p div ?B + 1"
      using div_pred [of offset ?B] by simp
    have "offset div ?B < length cs + card (free_clusters v)"
      using assms(3,4) by (simp add: div_less_iff_less_mult)
    then have "?p div ?B + 1 < length cs \<or> free_clusters v \<noteq> {}" using k1 by fastforce
    from next_or_new_cluster_chain [OF _ _ _ pk this] wf obtain ns v1 where
      "next_or_new_cluster v (cs ! (?p div ?B)) = Some ((cs @ ns) ! (?p div ?B + 1), v1)"
      "grows v cs v1 ns" "data_byte v1 = data_byte v" "?p div ?B + 1 < length (cs @ ns)"
      by blast
    then show ?thesis using True sk c0 unfolding k1
      by (intro exI [of _ "cs ! (?p div ?B)"] exI [of _ ns] exI [of _ v1]) simp
  next
    case False
    then have "?p div ?B = offset div ?B"
      using div_pred [of offset ?B] by auto
    then show ?thesis using False sk c0 pk grows_refl [of v cs] wf
      by (intro exI [of _ "cs ! (?p div ?B)"] exI [of _ "[]"] exI [of _ v]) auto
  qed
qed


lemma fat_file_pwrite_ok:
  fixes v :: "'a fat_vol_scheme"
  assumes ok: "file_ok v file d cs parent" and off: "offset \<le> unat (file_size d)" "0 < sz"
    and room: "offset + sz \<le> (length cs + card (free_clusters v)) * cluster_bytes v"
    and fits: "offset + sz < 2 ^ 32"
  shows "\<exists>v' ns d'. fat_file_pwrite v file m buf sz offset parent
      = Some (int sz, file\<lparr>dentry := Some d'\<rparr>, v')
    \<and> file_ok v' (file\<lparr>dentry := Some d'\<rparr>) d' (cs @ ns) parent
    \<and> unat (file_size d') = max (unat (file_size d)) (offset + sz)
    \<and> file_written v cs v' ns m buf offset sz
    \<and> set ns \<subseteq> free_clusters v \<and> free_clusters v' = free_clusters v - set ns
    \<and> cluster_order v' = cluster_order v
    \<and> disk_read v' (dir_slot v' parent file) 32 = dentry_bytes d'
    \<and> (\<exists>v2. grows v cs v2 ns \<and> v' = disk_write v2 (dir_slot v2 parent file) (dentry_bytes d'))"
proof -
  let ?B = "cluster_bytes v"
  note wf = ok [unfolded file_ok_def]
  obtain c ns1 v1 where st: "fat_table_seek_cluster v (start_cluster file) (if offset \<noteq> 0 then offset - 1 else 0) = Some (c, v)"
    "c \<noteq> 0" "(if offset mod ?B = 0 \<and> offset \<noteq> 0 then next_or_new_cluster v c else Some (c, v))
        = Some ((cs @ ns1) ! (offset div ?B), v1)"
    "grows v cs v1 ns1" "data_byte v1 = data_byte v" "offset div ?B < length (cs @ ns1)"
    using pwrite_start [OF ok off room] by blast
  have used: "chain_used v cs" using wf by simp
  note gr1 = st(4) [unfolded grows_def]
  have "distinct ns1" "set ns1 \<subseteq> free_clusters v" using gr1 by (simp_all add: file_chain_def)
  then have "length ns1 + card (free_clusters v1) = card (free_clusters v)"
    using grows_free [OF st(4) used] card_mono [of "free_clusters v" "set ns1"]
    by (simp add: card_Diff_subset distinct_card)
  then have total: "length (cs @ ns1) + card (free_clusters v1) = length cs + card (free_clusters v)" by simp
  have B1: "cluster_order v1 = cluster_order v" using gr1 by simp
  have "\<exists>v2 ms. pwrite_loop v1 m buf offset (int sz) ((cs @ ns1) ! (offset div ?B)) = Some (0, v2)
      \<and> grows v1 (cs @ ns1) v2 ms \<and> file_written v1 (cs @ ns1) v2 ms m buf offset sz
      \<and> offset + sz \<le> length ((cs @ ns1) @ ms) * cluster_bytes v1"
    by (rule pwrite_loop_chain)
      (use gr1 off st(6) room [folded total] in \<open>simp_all add: B1\<close>)
  then obtain v2 ms where lp: "pwrite_loop v1 m buf offset (int sz) ((cs @ ns1) ! (offset div ?B)) = Some (0, v2)"
      "grows v1 (cs @ ns1) v2 ms" "file_written v1 (cs @ ns1) v2 ms m buf offset sz"
      "offset + sz \<le> length ((cs @ ns1) @ ms) * ?B"
    unfolding B1 by blast
  let ?ns = "ns1 @ ms"
  have gr: "grows v cs v2 ?ns" by (rule grows_trans [OF st(4) lp(2) used])
  note g = gr [unfolded grows_def]
  have B2: "cluster_order v2 = cluster_order v" using g by simp
  have fw: "file_written v cs v2 ?ns m buf offset sz"
  proof -
    have "file_written v cs v1 ns1 m buf offset 0"
      using file_byte_cong [OF st(5) B1] by (auto simp: file_written_def file_byte_append)
    moreover have "offset < length (cs @ ns1) * ?B" using st(6) by (simp add: div_less_iff_less_mult)
    ultimately show ?thesis using file_written_trans [of v cs v1 ns1 m buf offset 0 v2 ms sz] lp(3) B1 by simp
  qed
  define d1 where "d1 = (if offset + sz > unat (file_size d) then d\<lparr>file_size := of_nat (offset + sz)\<rparr> else d)"
  define d' where "d' = snd (fill_dentry_time_now (clock v2) d1 False True)"
  let ?f = "file\<lparr>dentry := Some d'\<rparr>"
  have d': "base_name d' = base_name d" "extension d' = extension d"
    "unat (file_size d') = max (unat (file_size d)) (offset + sz)"
    using of_nat_inverse [OF refl, of "offset + sz", where 'a = 32] fits
    by (auto simp: d'_def d1_def fill_dentry_time_now_def Let_def simp del: of_nat_add split: prod.splits)
  have slot: "valid_cluster v2 (start_cluster parent)" "start_cluster parent \<notin> set (cs @ ?ns)"
    "fat_entry v2 (start_cluster parent) \<noteq> Some 0"
    using grows_slot [OF gr, of "start_cluster parent"] wf by simp_all
  define v' where "v' = disk_write v2 (dir_slot v2 parent ?f) (dentry_bytes d')"
  have len: "length (dentry_bytes d') = 32" using length_dentry_bytes [of d'] d' wf by simp
  have wd: "write_dir_entry v2 parent ?f = Some v'"
    unfolding v'_def by (rule write_dir_entry_ok) (use g wf d' in simp_all)
  have fr: "fat_wf v'" "file_chain v' (cs @ ?ns)" "disk_read v' (dir_slot v' parent ?f) 32 = dentry_bytes d'"
    "\<forall>p < length (cs @ ?ns) * ?B. file_byte v' (cs @ ?ns) p = file_byte v2 (cs @ ?ns) p"
    using entry_write_frame [of v2 "cs @ ?ns" parent ?f "dentry_bytes d'"] g wf len slot B2
    by (simp_all add: v'_def)
  have Bv: "cluster_order v' = cluster_order v" using B2 by (simp add: v'_def)
  have size': "unat (file_size d') \<le> length (cs @ ?ns) * ?B"
  proof -
    have "length cs * ?B \<le> length (cs @ ?ns) * ?B" by (rule mult_right_mono) simp_all
    then have "unat (file_size d) \<le> length (cs @ ?ns) * ?B" using wf by linarith
    then show ?thesis using d'(3) lp(4) by simp
  qed
  have "cs \<noteq> []" using wf file_chain_nonempty by blast
  then have hd: "hd (cs @ ns1 @ ms) = hd cs" by simp
  have fok: "file_ok v' ?f d' (cs @ ?ns) parent"
    using fr(1,2) wf d'(1,2) slot g size' Bv by (simp add: file_ok_def v'_def hd)
  have "file_written v cs v' ?ns m buf offset sz"
    unfolding file_written_def
  proof (intro conjI allI impI)
    fix p assume "offset \<le> p \<and> p < offset + sz"
    then show "file_byte v' (cs @ ?ns) p = m (buf + int (p - offset))"
      using fr(4) fw lp(4) by (simp add: file_written_def)
  next
    fix p assume p: "p < length cs * ?B" "p < offset \<or> offset + sz \<le> p"
    have "length cs * ?B \<le> length (cs @ ?ns) * ?B" by (rule mult_right_mono) simp_all
    then have "p < length (cs @ ?ns) * ?B" using p(1) by linarith
    then have "file_byte v' (cs @ ?ns) p = file_byte v2 (cs @ ?ns) p" using fr(4) by blast
    also have "\<dots> = file_byte v cs p" using p fw unfolding file_written_def by blast
    finally show "file_byte v' (cs @ ?ns) p = file_byte v cs p" .
  qed
  moreover have "fat_file_pwrite v file m buf sz offset parent = Some (int sz, ?f, v')"
  proof -
    have e: "err v = E_OK" "err v1 = E_OK" using wf gr1 by (simp_all add: fat_wf_def)
    have lt: "uint (file_size d) < int offset + int sz \<longleftrightarrow> unat (file_size d) < offset + sz"
      by (simp only: of_nat_add [symmetric] of_nat_less_iff uint_nat)
    have dd: "unat (file_size d) < offset + sz \<Longrightarrow>
        snd (fill_dentry_time_now (clock v2) (d\<lparr>file_size := word_of_nat offset + word_of_nat sz\<rparr>) False True) = d'"
      "\<not> unat (file_size d) < offset + sz \<Longrightarrow> snd (fill_dentry_time_now (clock v2) d False True) = d'"
      by (simp_all add: d'_def d1_def)
    show ?thesis
      using st(1-3) lp(1) wd wf e
      by (cases "unat (file_size d) < offset + sz")
        (simp_all add: fat_file_pwrite_def bytes_per_cluster_eq Let_def leD [OF off(1)] lt dd)
  qed
  moreover have "free_clusters v' = free_clusters v - set ?ns" "set ?ns \<subseteq> free_clusters v"
    using grows_free [OF gr used] g by (simp_all add: v'_def)
  moreover have "\<exists>v2. grows v cs v2 ?ns \<and> v' = disk_write v2 (dir_slot v2 parent file) (dentry_bytes d')"
    using gr v'_def by (intro exI [of _ v2]) (simp add: dir_slot_def)
  ultimately show ?thesis
    using fok d'(3) fr(3) Bv by (intro exI [of _ v'] exI [of _ ?ns] exI [of _ d']) (simp add: dir_slot_def)
qed

section \<open>Freeing a chain\<close>

lemma release_data:
  fixes v :: "'a fat_vol_scheme"
  assumes "fat_wf v" "\<forall>c \<in> set cs. valid_cluster v c" "release fat_table_set_next_cluster x v cs = Some v'"
  shows "data_byte v' = data_byte v \<and> cluster_order v' = cluster_order v
    \<and> data_start_offset v' = data_start_offset v \<and> clock v' = clock v"
  using assms
proof (induction cs arbitrary: v)
  case (Cons c cs)
  then obtain v1 where v1: "fat_table_set_next_cluster v c x = Some v1"
    "release fat_table_set_next_cluster x v1 cs = Some v'" by auto
  have vc: "valid_cluster v c" using Cons.prems by simp
  note laws = set_next_cluster_laws [OF Cons.prems(1) vc v1(1)]
  have "\<forall>d \<in> set cs. valid_cluster v1 d" using Cons.prems(2) laws(2) by simp
  then show ?case
    using Cons.IH [OF laws(1) _ v1(2)] data_byte_set_next [OF Cons.prems(1) vc v1(1)]
      set_next_clock [OF Cons.prems(1) vc v1(1)] by simp
qed simp

lemma release_free:
  fixes v :: "'a fat_vol_scheme"
  assumes "fat_wf v" "\<forall>c \<in> set cs. valid_cluster v c"
  obtains v' where "release fat_table_set_next_cluster FAT_CLUSTER_FREE v cs = Some v'" "fat_wf v'"
    "valid_cluster v' = valid_cluster v"
    "fat_entry v' = (\<lambda>c. if c \<in> set cs then Some 0 else fat_entry v c)"
    "data_byte v' = data_byte v" "cluster_order v' = cluster_order v"
    "data_start_offset v' = data_start_offset v" "clock v' = clock v"
  using raw.release [OF assms(1) assms(2), of FAT_CLUSTER_FREE] release_data [OF assms] fat_consts(3) by metis

lemma free_valid_from_chain:
  fixes v :: "'a fat_vol_scheme"
  assumes "fat_wf v" "cs = [] \<or> file_chain v cs"
  shows "free_valid_from v (if cs = [] then FAT_CLUSTER_END_OF_CHAIN_MAX else hd cs)
    = release fat_table_set_next_cluster FAT_CLUSTER_FREE v cs"
  using assms
proof (induction cs arbitrary: v)
  case (Cons c cs)
  then have fc: "file_chain v (c # cs)" and vc: "valid_cluster v c" by (simp_all add: file_chain_def)
  obtain v1 where v1: "fat_table_set_next_cluster v c FAT_CLUSTER_FREE = Some v1" "fat_wf v1"
    "valid_cluster v1 = valid_cluster v"
    using links.put_obtain [OF Cons.prems(1) vc] by metis
  have "cs = [] \<or> file_chain v1 cs"
    using fc v1(3) links.put_frame [OF Cons.prems(1) vc v1(1), of cs] by (auto simp: file_chain_def chain_Cons)
  then have "free_valid_from v1 (if cs = [] then FAT_CLUSTER_END_OF_CHAIN_MAX else hd cs)
    = release fat_table_set_next_cluster FAT_CLUSTER_FREE v1 cs" by (rule Cons.IH [OF v1(2)])
  moreover have "fat_table_get_next_cluster v c = Some (if cs = [] then FAT_CLUSTER_END_OF_CHAIN_MAX else hd cs)"
    using fc by (simp add: file_chain_def chain_Cons)
  ultimately show ?case
    using valid_cluster_plain(2) [OF Cons.prems(1) vc] v1(1) by (simp add: free_valid_from.simps [of v])
qed (simp add: free_valid_from.simps)

lemma free_to_EOC_from_chain:
  fixes v :: "'a fat_vol_scheme"
  assumes "fat_wf v" "cs = [] \<or> file_chain v cs"
  shows "free_to_EOC_from v (if cs = [] then FAT_CLUSTER_END_OF_CHAIN_MAX else hd cs)
    = release fat_table_set_next_cluster FAT_CLUSTER_FREE v cs"
  using assms
proof (induction cs arbitrary: v)
  case (Cons c cs)
  then have fc: "file_chain v (c # cs)" and vc: "valid_cluster v c" by (simp_all add: file_chain_def)
  obtain v1 where v1: "fat_table_set_next_cluster v c FAT_CLUSTER_FREE = Some v1" "fat_wf v1"
    "valid_cluster v1 = valid_cluster v"
    using links.put_obtain [OF Cons.prems(1) vc] by metis
  have "cs = [] \<or> file_chain v1 cs"
    using fc v1(3) links.put_frame [OF Cons.prems(1) vc v1(1), of cs] by (auto simp: file_chain_def chain_Cons)
  then have "free_to_EOC_from v1 (if cs = [] then FAT_CLUSTER_END_OF_CHAIN_MAX else hd cs)
    = release fat_table_set_next_cluster FAT_CLUSTER_FREE v1 cs" by (rule Cons.IH [OF v1(2)])
  moreover have "fat_table_get_next_cluster v c = Some (if cs = [] then FAT_CLUSTER_END_OF_CHAIN_MAX else hd cs)"
    using fc by (simp add: file_chain_def chain_Cons)
  ultimately show ?case
    using valid_cluster_plain(1) [OF Cons.prems(1) vc] v1(1) by (simp add: free_to_EOC_from.simps [of v])
qed (simp add: free_to_EOC_from.simps)

lemma file_chain_same:
  fixes v v' :: "'a fat_vol_scheme"
  assumes "valid_cluster v' = valid_cluster v" "\<forall>c \<in> set cs. fat_entry v' c = fat_entry v c" "file_chain v cs"
  shows "file_chain v' cs"
proof -
  have "fat_norm v' = fat_norm v" using assms(1) by (simp add: fun_eq_iff fat_norm_def)
  then have "fat_table_get_next_cluster v' c = fat_table_get_next_cluster v c" if "c \<in> set cs" for c
    using assms(2) that by (simp add: get_next_eq)
  then show ?thesis
    using assms(1,3) chain_cong [of "fat_table_get_next_cluster v" _ cs "fat_table_get_next_cluster v'"]
    by (auto simp: file_chain_def)
qed


section \<open>Truncating and deleting a file\<close>

text \<open>The chain is cut behind position \<open>k\<close> and the rest of it is marked free.\<close>

lemma cut_and_free:
  fixes v :: "'a fat_vol_scheme"
  assumes wf: "fat_wf v" and fc: "file_chain v cs" and used: "chain_used v cs" and k: "k < length cs"
  obtains v1 v2 where
    "fat_table_get_next_cluster v (cs ! k)
      = Some (if drop (k + 1) cs = [] then FAT_CLUSTER_END_OF_CHAIN_MAX else hd (drop (k + 1) cs))"
    "fat_table_set_next_cluster v (cs ! k) FAT_CLUSTER_END_OF_CHAIN_MAX = Some v1" "err v1 = E_OK"
    "free_valid_from v1 (if drop (k + 1) cs = [] then FAT_CLUSTER_END_OF_CHAIN_MAX else hd (drop (k + 1) cs)) = Some v2"
    "fat_wf v2" "file_chain v2 (take (k + 1) cs)" "chain_used v2 (take (k + 1) cs)"
    "valid_cluster v2 = valid_cluster v" "free_clusters v2 = free_clusters v \<union> set (drop (k + 1) cs)"
    "\<forall>c. c \<notin> set cs \<longrightarrow> fat_entry v2 c = fat_entry v c"
    "data_byte v2 = data_byte v" "cluster_order v2 = cluster_order v" "data_start_offset v2 = data_start_offset v"
    "clock v2 = clock v"
proof -
  let ?keep = "take (k + 1) cs" and ?rest = "drop (k + 1) cs"
  note vc = file_chain_valid [OF fc k]
  have all: "\<forall>c \<in> set cs. valid_cluster v c" and dist: "distinct cs" using fc by (simp_all add: file_chain_def)
  obtain v1 where v1: "fat_table_set_next_cluster v (cs ! k) FAT_CLUSTER_END_OF_CHAIN_MAX = Some v1"
    "fat_wf v1" "valid_cluster v1 = valid_cluster v"
    using links.put_obtain [OF wf vc] by metis
  have e1: "fat_entry v1 = (fat_entry v)(cs ! k \<mapsto> FAT_CLUSTER_END_OF_CHAIN_MAX)"
    by (rule set_next_cluster_laws(3) [OF wf vc v1(1)])
  have "fat_norm v FAT_CLUSTER_END_OF_CHAIN_MAX = FAT_CLUSTER_END_OF_CHAIN_MAX" by (simp add: fat_norm_def)
  then have keep1: "file_chain v1 ?keep"
    using links.cut [OF wf _ dist k vc _ v1(1)] fc v1(3) dist all
    by (auto simp: file_chain_def dest: in_set_takeD)
  have rest: "?rest = [] \<or> file_chain v ?rest"
  proof (cases "k + 1 < length cs")
    case True
    then show ?thesis
      using fc chain_drop [of _ _ cs "k + 1"] by (auto simp: file_chain_def dest: in_set_dropD)
  qed simp
  have kr: "cs ! k \<notin> set ?rest"
    using dist k set_take_disj_set_drop_if_distinct [OF dist, of "k + 1" "k + 1"]
    by (auto simp: take_Suc_conv_app_nth)
  have rest1: "?rest = [] \<or> file_chain v1 ?rest"
    using rest links.put_frame [OF wf vc v1(1) kr] v1(3) by (auto simp: file_chain_def)
  have allr: "\<forall>c \<in> set ?rest. valid_cluster v1 c" using all v1(3) by (auto dest: in_set_dropD)
  obtain v2 where v2: "release fat_table_set_next_cluster FAT_CLUSTER_FREE v1 ?rest = Some v2" "fat_wf v2"
    "valid_cluster v2 = valid_cluster v1"
    "fat_entry v2 = (\<lambda>c. if c \<in> set ?rest then Some 0 else fat_entry v1 c)"
    "data_byte v2 = data_byte v1" "cluster_order v2 = cluster_order v1"
    "data_start_offset v2 = data_start_offset v1" "clock v2 = clock v1"
    by (rule release_free [OF v1(2) allr])
  have disj: "c \<notin> set ?rest" if "c \<in> set ?keep" for c
    using set_take_disj_set_drop_if_distinct [OF dist, of "k + 1" "k + 1"] that by blast
  have keep2: "file_chain v2 ?keep"
    by (rule file_chain_same [OF v2(3) _ keep1]) (use disj in \<open>auto simp: v2(4)\<close>)
  have cs: "set cs = set ?keep \<union> set ?rest" by (metis append_take_drop_id set_append)
  have ent: "fat_entry v2 c = (if c \<in> set ?rest then Some 0
      else if c = cs ! k then Some FAT_CLUSTER_END_OF_CHAIN_MAX else fat_entry v c)" for c
    by (simp add: v2(4) e1)
  have used2: "chain_used v2 ?keep"
    using used cs disj by (auto simp: ent fat_consts)
  have kin: "cs ! k \<in> set cs" using k by simp
  have free: "free_clusters v2 = free_clusters v \<union> set ?rest"
    using used all kr kin unfolding free_clusters_def v2(3) v1(3)
    by (auto simp: ent fat_consts dest: in_set_dropD)
  have nx: "fat_table_get_next_cluster v (cs ! k)
      = Some (if ?rest = [] then FAT_CLUSTER_END_OF_CHAIN_MAX else hd ?rest)"
    using file_chain_next [OF fc k] k by (auto simp: hd_drop_conv_nth)
  show thesis
  proof (rule that [of v1 v2])
    show "free_valid_from v1 (if ?rest = [] then FAT_CLUSTER_END_OF_CHAIN_MAX else hd ?rest) = Some v2"
      using free_valid_from_chain [OF v1(2) rest1] v2(1) by simp
    show "err v1 = E_OK" using v1(2) by (simp add: fat_wf_def)
    show "\<forall>c. c \<notin> set cs \<longrightarrow> fat_entry v2 c = fat_entry v c" using cs kin by (auto simp: ent)
    show "data_byte v2 = data_byte v" "cluster_order v2 = cluster_order v" "data_start_offset v2 = data_start_offset v"
      "clock v2 = clock v"
      using data_byte_set_next [OF wf vc v1(1)] set_next_clock [OF wf vc v1(1)] v2 by simp_all
  qed (use nx v1 v2 keep2 used2 free in simp_all)
qed

lemma fat_file_truncate_ok:
  fixes v :: "'a fat_vol_scheme"
  assumes ok: "file_ok v file d cs parent" and off: "offset \<le> unat (file_size d)" "offset < length cs * cluster_bytes v"
  defines "keep \<equiv> take (offset div cluster_bytes v + 1) cs"
  shows "\<exists>v' d'. fat_file_truncate v file offset parent = Some (file\<lparr>dentry := Some d'\<rparr>, v')
    \<and> file_ok v' (file\<lparr>dentry := Some d'\<rparr>) d' keep parent
    \<and> unat (file_size d') = offset
    \<and> free_clusters v' = free_clusters v \<union> set (drop (length keep) cs)
    \<and> (\<forall>p < offset. file_byte v' keep p = file_byte v cs p)
    \<and> disk_read v' (dir_slot v' parent file) 32 = dentry_bytes d'"
proof -
  let ?B = "cluster_bytes v" and ?k = "offset div cluster_bytes v"
  note wf = ok [unfolded file_ok_def]
  have k: "?k < length cs" using off(2) by (simp add: div_less_iff_less_mult)
  have fwf: "fat_wf v" and fc: "file_chain v cs" and used: "chain_used v cs" using wf by simp_all
  obtain v1 v2 where c: "fat_table_get_next_cluster v (cs ! ?k)
      = Some (if drop (?k + 1) cs = [] then FAT_CLUSTER_END_OF_CHAIN_MAX else hd (drop (?k + 1) cs))"
    "fat_table_set_next_cluster v (cs ! ?k) FAT_CLUSTER_END_OF_CHAIN_MAX = Some v1" "err v1 = E_OK"
    "free_valid_from v1 (if drop (?k + 1) cs = [] then FAT_CLUSTER_END_OF_CHAIN_MAX else hd (drop (?k + 1) cs)) = Some v2"
    "fat_wf v2" "file_chain v2 keep" "chain_used v2 keep"
    "valid_cluster v2 = valid_cluster v" "free_clusters v2 = free_clusters v \<union> set (drop (?k + 1) cs)"
    "\<forall>c. c \<notin> set cs \<longrightarrow> fat_entry v2 c = fat_entry v c"
    "data_byte v2 = data_byte v" "cluster_order v2 = cluster_order v" "data_start_offset v2 = data_start_offset v"
    "clock v2 = clock v"
    using cut_and_free [OF fwf fc used k] unfolding keep_def by blast
  have "unat (file_size d) < 2 ^ 32" using unsigned_less [of "file_size d"] by simp
  then have o32: "offset < 2 ^ 32" using off(1) by simp
  have sk: "fat_table_seek_cluster v (start_cluster file) offset = Some (cs ! ?k, v)"
    using seek_inside [OF fwf fc off(2) o32] wf by simp
  define d' where "d' = snd (fill_dentry_time_now (clock v2) (d\<lparr>file_size := of_nat offset\<rparr>) False True)"
  let ?f = "file\<lparr>dentry := Some d'\<rparr>"
  have d': "base_name d' = base_name d" "extension d' = extension d" "unat (file_size d') = offset"
    using of_nat_inverse [OF refl, of offset, where 'a = 32] o32
    by (simp_all add: d'_def fill_dentry_time_now_def Let_def split: prod.splits)
  have len: "length (dentry_bytes d') = 32" using length_dentry_bytes [of d'] d' wf by simp
  define v' where "v' = disk_write v2 (dir_slot v2 parent ?f) (dentry_bytes d')"
  have wd: "write_dir_entry v2 parent ?f = Some v'"
    unfolding v'_def by (rule write_dir_entry_ok) (use c wf d' in simp_all)
  have sub: "set keep \<subseteq> set cs" by (simp add: keep_def set_take_subset)
  have lk: "length keep = ?k + 1" using k by (simp add: keep_def)
  have slot: "valid_cluster v2 (start_cluster parent)" "start_cluster parent \<notin> set keep"
    "fat_entry v2 (start_cluster parent) \<noteq> Some 0"
    using wf c(8,10) sub by auto
  have fr: "fat_wf v'" "file_chain v' keep" "disk_read v' (dir_slot v' parent ?f) 32 = dentry_bytes d'"
    "\<forall>p < length keep * ?B. file_byte v' keep p = file_byte v2 keep p"
    using entry_write_frame [of v2 keep parent ?f "dentry_bytes d'"] c wf len slot by (simp_all add: v'_def)
  have olk: "offset < length keep * ?B" using lk dividend_less_div_times [of ?B offset] by simp
  have "?k * ?B \<le> offset" by (rule div_times_less_eq_dividend)
  have hd: "hd keep = hd cs" using k by (simp add: keep_def)
  have "file_ok v' ?f d' keep parent"
    using fr(1,2) wf d' slot c(7) olk c(12) hd by (simp add: file_ok_def v'_def)
  moreover have "file_byte v' keep p = file_byte v cs p" if "p < offset" for p
  proof -
    have "p div ?B < length keep" using that olk by (simp add: div_less_iff_less_mult)
    then show ?thesis using fr(4) that olk c(11,12) by (simp add: file_byte_def keep_def)
  qed
  moreover have "fat_file_truncate v file offset parent = Some (?f, v')"
    using wf off(1) sk c(1-4) wd fwf
    by (simp add: fat_file_truncate_def Let_def fat_wf_def flip: d'_def)
  ultimately show ?thesis
    using d'(3) fr(3) c(9) lk by (intro exI [of _ v'] exI [of _ d']) (simp add: dir_slot_def v'_def)
qed


lemma fat_file_eliminate_ok:
  fixes v :: "'a fat_vol_scheme"
  assumes ok: "file_ok v file d cs parent"
  defines "d' \<equiv> d\<lparr>base_name := (base_name d)[0 := 0xE5]\<rparr>"
  shows "\<exists>v'. fat_file_eliminate v file parent = Some (file\<lparr>dentry := Some d'\<rparr>, v')
    \<and> fat_wf v' \<and> free_clusters v' = free_clusters v \<union> set cs
    \<and> disk_read v' (dir_slot v' parent file) 32 = dentry_bytes d'
    \<and> (\<forall>ds. file_chain v ds \<and> set ds \<inter> set cs = {} \<longrightarrow> file_chain v' ds)"
proof -
  note wf = ok [unfolded file_ok_def]
  have fwf: "fat_wf v" and fc: "file_chain v cs" and cs: "cs \<noteq> []"
    and all: "\<forall>c \<in> set cs. valid_cluster v c"
    using wf file_chain_nonempty by (auto simp: file_chain_def)
  obtain v1 where v1: "release fat_table_set_next_cluster FAT_CLUSTER_FREE v cs = Some v1" "fat_wf v1"
    "valid_cluster v1 = valid_cluster v"
    "fat_entry v1 = (\<lambda>c. if c \<in> set cs then Some 0 else fat_entry v c)"
    "data_byte v1 = data_byte v" "cluster_order v1 = cluster_order v"
    "data_start_offset v1 = data_start_offset v" "clock v1 = clock v"
    by (rule release_free [OF fwf all])
  have fr: "free_to_EOC_from v (start_cluster file) = Some v1"
    using free_to_EOC_from_chain [OF fwf, of cs] fc v1(1) cs wf by simp
  let ?f = "file\<lparr>dentry := Some d'\<rparr>"
  have d': "length (base_name d') = 8" "length (extension d') = 3" using wf by (simp_all add: d'_def)
  define v' where "v' = disk_write v1 (dir_slot v1 parent ?f) (dentry_bytes d')"
  have wd: "write_dir_entry v1 parent ?f = Some v'"
    unfolding v'_def by (rule write_dir_entry_ok) (use v1 wf d' in simp_all)
  have slot: "valid_cluster v1 (start_cluster parent)" "unat (pos_in_parent ?f) * 32 + 32 \<le> cluster_bytes v1"
    using wf v1 by simp_all
  have "dir_slot v1 parent ?f + length (dentry_bytes d') \<le> dsize v1"
    using cluster_in_device(2) [OF v1(2) slot(1)] slot(2) length_dentry_bytes [OF d'] by (simp add: dir_slot_def)
  then have "fat_wf v'" unfolding v'_def by (rule fat_wf_data_write [OF v1(2)])
  moreover have "disk_read v' (dir_slot v' parent file) 32 = dentry_bytes d'"
    using disk_read_write_same [of v1 "dir_slot v1 parent ?f" "dentry_bytes d'"] length_dentry_bytes [OF d']
    by (simp add: v'_def dir_slot_def cluster_offset_eq)
  moreover have "free_clusters v' = free_clusters v \<union> set cs"
    using all by (auto simp: v'_def free_clusters_def v1(3,4))
  moreover have "file_chain v' ds" if "file_chain v ds" "set ds \<inter> set cs = {}" for ds
  proof -
    have "\<forall>c \<in> set ds. fat_entry v1 c = fat_entry v c" using that(2) by (auto simp: v1(4))
    then show ?thesis using file_chain_same [OF v1(3) _ that(1)] by (simp add: v'_def)
  qed
  moreover have "fat_file_eliminate v file parent = Some (?f, v')"
    using fr wd wf by (simp add: fat_file_eliminate_def Let_def d'_def)
  ultimately show ?thesis by blast
qed

section \<open>Properties\<close>

text \<open>A volume with one directory (cluster 5) that holds one file of 40 bytes (clusters 2 and 4).\<close>

definition small_vol :: fat_vol where
  "small_vol = fat_table.extend small_fat \<lparr>clock = 1660000000\<rparr>"

definition small_dentry :: fat_dir_entry where
  "small_dentry = \<lparr>base_name = [0x41, 0x20, 0x20, 0x20, 0x20, 0x20, 0x20, 0x20], extension = [0x54, 0x58, 0x54],
     attribs = FILE_ATTRIBUTE_ARCHIVE, reserved = 0, create_time_fine_res = 0, create_time = 0, create_date = 0,
     last_access_date = 0, fat32_start_cluster_high = 0, last_modified_time = 0, last_modified_date = 0,
     start_cluster_low = 2, file_size = 40\<rparr>"

definition small_file :: fat_file where
  "small_file = \<lparr>dentry = Some small_dentry, fname = [0x41, 0x2E, 0x54, 0x58, 0x54],
     filepath = [0x2F, 0x41, 0x2E, 0x54, 0x58, 0x54], start_cluster = 2, nentries = 2, pos_in_parent = 0,
     num_times_opened = 0, children_read = False\<rparr>"

definition small_dir :: fat_file where
  "small_dir = \<lparr>dentry = None, fname = [], filepath = [0x2F], start_cluster = 5, nentries = 1,
     pos_in_parent = 0, num_times_opened = 0, children_read = True\<rparr>"

lemma small_vol_sel [simp]:
  "script small_vol = []" "err small_vol = E_OK" "dsize small_vol = 512" "fat_map small_vol = fat_map small_fat"
  "fat_offset small_vol = 32" "num_data_clusters small_vol = 4" "data_start_offset small_vol = 64"
  "cluster_order small_vol = 5"
  by (simp_all add: small_vol_def small_fat_def fat_table.defs)

lemma small_vol_wf: "fat_wf small_vol"
  by (simp add: fat_wf_def small_fat_def)

lemma small_vol_chain: "file_chain small_vol [2, 4]"
  by (simp add: file_chain_def small_fat_def fat_table_get_next_cluster_def fat_entry_def
      fat_table_is_valid_cluster_number_def fat_consts)

lemma small_vol_free: "3 \<in> free_clusters small_vol"
  by (simp add: free_clusters_def fat_entry_def small_fat_def fat_table_is_valid_cluster_number_def)

lemma small_file_ok: "file_ok small_vol small_file small_dentry [2, 4] small_dir"
  using small_vol_wf small_vol_chain
  by (simp add: file_ok_def small_file_def small_dentry_def small_dir_def fat_entry_def
      small_fat_def fat_table_is_valid_cluster_number_def)

lemma small_vol_room: "0 < card (free_clusters small_vol)"
  using small_vol_free by (metis card_gt_0_iff empty_iff finite_free_clusters)


text \<open>
  C6: what \<open>fat_file_pwrite\<close> writes is what \<open>fat_file_pread\<close> reads back: for a file in good order,
  any offset up to its size and any length the free clusters leave room for, the write transfers
  every byte, growing the chain where needed, and the read of the same range gives the same bytes.
\<close>

theorem pwrite_pread_roundtrip:
  fixes v :: "'a fat_vol_scheme"
  assumes "file_ok v file d cs parent" and "offset \<le> unat (file_size d)" and "0 < sz"
    and "offset + sz \<le> (length cs + card (free_clusters v)) * 2 ^ cluster_order v" and "offset + sz < 2 ^ 32"
  shows "\<exists>f1 v1 m1 f2 v2. fat_file_pwrite v file m buf sz offset parent = Some (int sz, f1, v1)
    \<and> fat_file_pread v1 f1 m' buf' sz offset parent = Some (int sz, m1, f2, v2)
    \<and> mem_read m1 buf' sz = mem_read m buf sz"
proof -
  obtain v1 ns d' where w: "fat_file_pwrite v file m buf sz offset parent = Some (int sz, file\<lparr>dentry := Some d'\<rparr>, v1)"
    "file_ok v1 (file\<lparr>dentry := Some d'\<rparr>) d' (cs @ ns) parent"
    "unat (file_size d') = max (unat (file_size d)) (offset + sz)" "file_written v cs v1 ns m buf offset sz"
    using fat_file_pwrite_ok [OF assms] by blast
  have n: "min sz (unat (file_size d') - offset) = sz" and o: "offset \<le> unat (file_size d')" using w(3) by simp_all
  let ?data = "map (file_byte v1 (cs @ ns)) [offset..<offset + sz]"
  obtain f2 v2 where r: "fat_file_pread v1 (file\<lparr>dentry := Some d'\<rparr>) m' buf' sz offset parent
      = Some (int sz, mem_write m' buf' ?data, f2, v2)"
    using fat_file_pread_ok [OF w(2) o, where sz = sz and m = m' and buf = buf'] unfolding n by blast
  have "?data = mem_read m buf sz"
    using w(4) by (intro nth_equalityI) (simp_all add: file_written_def)
  then have "mem_read (mem_write m' buf' ?data) buf' sz = mem_read m buf sz"
    using mem_read_write_same [of m' buf' "mem_read m buf sz"] by simp
  then show ?thesis using w(1) r by blast
qed

theorem pwrite_pread_roundtrip_witness:
  "\<exists>f1 v1 m1 f2 v2. fat_file_pwrite small_vol small_file (\<lambda>p. of_int p) 7 60 30 small_dir = Some (60, f1, v1)
    \<and> fat_file_pread v1 f1 (\<lambda>_. 0) 100 60 30 small_dir = Some (60, m1, f2, v2)
    \<and> mem_read m1 100 60 = mem_read (\<lambda>p. of_int p) 7 60"
  using pwrite_pread_roundtrip [OF small_file_ok, of 30 60 "\<lambda>p. of_int p" 7 "\<lambda>_. 0" 100] small_vol_room
  by (simp add: small_dentry_def)

text \<open>
  C7: \<open>fat_file_pwrite\<close> on a file in good order leaves it in good order. The size becomes the
  larger of the old size and the end of the write, the bytes of the range are the buffer's and
  those outside it are as before, new clusters come from the free ones only, and the device holds
  the updated directory entry.
\<close>

theorem pwrite_spec:
  fixes v :: "'a fat_vol_scheme"
  assumes "file_ok v file d cs parent" and "offset \<le> unat (file_size d)" and "0 < sz"
    and "offset + sz \<le> (length cs + card (free_clusters v)) * 2 ^ cluster_order v" and "offset + sz < 2 ^ 32"
  shows "\<exists>v' ns d'. fat_file_pwrite v file m buf sz offset parent = Some (int sz, file\<lparr>dentry := Some d'\<rparr>, v')
    \<and> file_ok v' (file\<lparr>dentry := Some d'\<rparr>) d' (cs @ ns) parent
    \<and> unat (file_size d') = max (unat (file_size d)) (offset + sz)
    \<and> (\<forall>p. offset \<le> p \<and> p < offset + sz \<longrightarrow> file_byte v' (cs @ ns) p = m (buf + int (p - offset)))
    \<and> (\<forall>p < length cs * 2 ^ cluster_order v. p < offset \<or> offset + sz \<le> p \<longrightarrow> file_byte v' (cs @ ns) p = file_byte v cs p)
    \<and> set ns \<subseteq> free_clusters v \<and> free_clusters v' = free_clusters v - set ns
    \<and> disk_read v' (dir_slot v' parent file) 32 = dentry_bytes d'"
  using fat_file_pwrite_ok [OF assms] unfolding file_written_def by blast

theorem pwrite_spec_witness:
  "\<exists>v' ns d'. fat_file_pwrite small_vol small_file (\<lambda>_. 9) 0 60 30 small_dir = Some (60, small_file\<lparr>dentry := Some d'\<rparr>, v')
    \<and> file_ok v' (small_file\<lparr>dentry := Some d'\<rparr>) d' ([2, 4] @ ns) small_dir \<and> unat (file_size d') = 90"
proof -
  obtain v' ns d' where "fat_file_pwrite small_vol small_file (\<lambda>_. 9) 0 60 30 small_dir = Some (int 60, small_file\<lparr>dentry := Some d'\<rparr>, v')"
    "file_ok v' (small_file\<lparr>dentry := Some d'\<rparr>) d' ([2, 4] @ ns) small_dir"
    "unat (file_size d') = max (unat (file_size small_dentry)) (30 + 60)"
    using pwrite_spec [OF small_file_ok, of 30 60 "\<lambda>_. 9" 0] small_vol_room by (auto simp: small_dentry_def)
  then show ?thesis by (auto simp: small_dentry_def)
qed

text \<open>
  C8: writing to one file leaves every other chain alone: a chain of used clusters that shares
  no cluster with the file and does not hold the directory of the file is still the same chain
  after \<open>fat_file_pwrite\<close>, with the same bytes.
\<close>

theorem pwrite_keeps_others:
  fixes v :: "'a fat_vol_scheme"
  assumes "file_ok v file d cs parent" and "offset \<le> unat (file_size d)" and "0 < sz"
    and "offset + sz \<le> (length cs + card (free_clusters v)) * 2 ^ cluster_order v" and "offset + sz < 2 ^ 32"
    and "file_chain v ds" and "\<forall>c \<in> set ds. fat_entry v c \<noteq> Some 0" and "set ds \<inter> set cs = {}"
    and "start_cluster parent \<notin> set ds"
  shows "\<exists>f' v'. fat_file_pwrite v file m buf sz offset parent = Some (int sz, f', v') \<and> file_chain v' ds
    \<and> (\<forall>p < length ds * 2 ^ cluster_order v. file_byte v' ds p = file_byte v ds p)"
proof -
  obtain v' ns d' v2 where w: "fat_file_pwrite v file m buf sz offset parent = Some (int sz, file\<lparr>dentry := Some d'\<rparr>, v')"
    "file_ok v' (file\<lparr>dentry := Some d'\<rparr>) d' (cs @ ns) parent" "cluster_order v' = cluster_order v"
    and gr: "grows v cs v2 ns" and v': "v' = disk_write v2 (dir_slot v2 parent file) (dentry_bytes d')"
    using fat_file_pwrite_ok [OF assms(1-5)] by blast
  note g = gr [unfolded grows_def] and ok = assms(1) [unfolded file_ok_def] and ok' = w(2) [unfolded file_ok_def]
  have apart: "c \<notin> set (cs @ ns)" if "c \<in> set ds" for c
    using that assms(7,8) g by (auto simp: free_clusters_def)
  have fc2: "file_chain v2 ds"
    by (rule file_chain_same [OF _ _ assms(6)]) (use g apart in auto)
  have len: "length (dentry_bytes d') = 32" using length_dentry_bytes ok' by simp
  have slot: "valid_cluster v2 (start_cluster parent)" "unat (pos_in_parent file) * 32 + 32 \<le> cluster_bytes v2"
    using ok g by simp_all
  have fr: "file_chain v' ds" "\<forall>p < length ds * cluster_bytes v2. file_byte v' ds p = file_byte v2 ds p"
    using entry_write_frame [OF _ fc2 slot(1) assms(9) slot(2) len] g unfolding v' by blast+
  have "file_byte v2 ds p = file_byte v ds p" if "p < length ds * cluster_bytes v" for p
  proof -
    have q: "p div cluster_bytes v < length ds" using that by (simp add: div_less_iff_less_mult)
    then have "valid_cluster v (ds ! (p div cluster_bytes v))" "ds ! (p div cluster_bytes v) \<notin> set (cs @ ns)"
      using assms(6) apart [OF nth_mem [OF q]] by (simp_all add: file_chain_def)
    then show ?thesis using g by (simp add: file_byte_def)
  qed
  then show ?thesis using w(1) fr g by (intro exI [of _ "file\<lparr>dentry := Some d'\<rparr>"] exI [of _ v']) simp
qed

text \<open>The same volume with cluster 3 in use, as the chain of another file.\<close>

definition full_vol :: fat_vol where
  "full_vol = small_vol\<lparr>fat_map := (fat_map small_fat)[3 := 0x0FFFFFFF]\<rparr>"

lemma full_vol_facts:
  "file_ok full_vol small_file small_dentry [2, 4] small_dir" "file_chain full_vol [3]" "fat_entry full_vol 3 \<noteq> Some 0"
  by (simp_all add: file_ok_def full_vol_def fat_wf_def small_file_def small_dentry_def small_dir_def fat_entry_def
      small_fat_def fat_table_is_valid_cluster_number_def file_chain_def fat_table_get_next_cluster_def fat_consts)

theorem pwrite_keeps_others_witness:
  "\<exists>f' v'. fat_file_pwrite full_vol small_file (\<lambda>_. 9) 0 44 20 small_dir = Some (44, f', v') \<and> file_chain v' [3]
    \<and> (\<forall>p < 32. file_byte v' [3] p = file_byte full_vol [3] p)"
  using pwrite_keeps_others [OF full_vol_facts(1), of 20 44 "[3]" "\<lambda>_. 9" 0] full_vol_facts(2,3)
  by (simp add: small_dentry_def small_dir_def full_vol_def)

text \<open>
  \<open>fat_file_pread\<close> of a file in good order gives the bytes of the file from \<open>offset\<close> up to
  the requested length or the end of the file, whichever comes first; it leaves the contents as
  they are and the file in good order. Past the end it reports \<open>EOVERFLOW\<close> and reads nothing.
\<close>

theorem pread_spec:
  fixes v :: "'a fat_vol_scheme"
  assumes "file_ok v file d cs parent"
  shows "if offset \<le> unat (file_size d)
    then \<exists>v' d'. let n = min sz (unat (file_size d) - offset) in
      fat_file_pread v file m buf sz offset parent
        = Some (int n, mem_write m buf (map (file_byte v cs) [offset..<offset + n]), file\<lparr>dentry := Some d'\<rparr>, v')
      \<and> file_ok v' (file\<lparr>dentry := Some d'\<rparr>) d' cs parent
      \<and> (\<forall>p < length cs * 2 ^ cluster_order v. file_byte v' cs p = file_byte v cs p)
    else fat_file_pread v file m buf sz offset parent = Some (0, m, file, v\<lparr>err := EOVERFLOW\<rparr>)"
proof (cases "offset \<le> unat (file_size d)")
  case True
  then show ?thesis
    using fat_file_pread_ok [OF assms True, where sz = sz and m = m and buf = buf] by (auto simp: Let_def)
next
  case False
  then show ?thesis using assms by (simp add: fat_file_pread_def file_ok_def)
qed

theorem pread_spec_witness:
  "\<exists>v' d'. fat_file_pread small_vol small_file (\<lambda>_. 0) 0 60 30 small_dir
    = Some (10, mem_write (\<lambda>_. 0) 0 (map (file_byte small_vol [2, 4]) [30..<40]), small_file\<lparr>dentry := Some d'\<rparr>, v')"
  using pread_spec [OF small_file_ok, of 30 60 "\<lambda>_. 0" 0] by (auto simp: small_dentry_def Let_def)

text \<open>
  C9: \<open>fat_file_truncate\<close> to a smaller size keeps the clusters up to the one that holds the new
  end, with their bytes, frees exactly the others, and stores the new size on the device.
\<close>

theorem truncate_spec:
  fixes v :: "'a fat_vol_scheme"
  assumes "file_ok v file d cs parent" and "offset \<le> unat (file_size d)" and "offset < length cs * 2 ^ cluster_order v"
  shows "\<exists>v' d'. let keep = take (offset div 2 ^ cluster_order v + 1) cs in
    fat_file_truncate v file offset parent = Some (file\<lparr>dentry := Some d'\<rparr>, v')
    \<and> file_ok v' (file\<lparr>dentry := Some d'\<rparr>) d' keep parent
    \<and> unat (file_size d') = offset
    \<and> free_clusters v' = free_clusters v \<union> set (drop (length keep) cs)
    \<and> (\<forall>p < offset. file_byte v' keep p = file_byte v cs p)
    \<and> disk_read v' (dir_slot v' parent file) 32 = dentry_bytes d'"
  using fat_file_truncate_ok [OF assms] unfolding Let_def by blast

theorem truncate_spec_witness:
  "\<exists>v' d'. fat_file_truncate small_vol small_file 10 small_dir = Some (small_file\<lparr>dentry := Some d'\<rparr>, v')
    \<and> file_ok v' (small_file\<lparr>dentry := Some d'\<rparr>) d' [2] small_dir
    \<and> free_clusters v' = free_clusters small_vol \<union> {4}"
  using truncate_spec [OF small_file_ok, of 10] by (auto simp: small_dentry_def Let_def)

text \<open>
  a file whose size fills its clusters exactly cannot be truncated to its own size: the seek
  ends on the end mark, which the code then uses as a cluster number, outside the table.
\<close>

theorem truncate_at_end_undefined:
  assumes "file_ok v file d cs parent" and "unat (file_size d) = length cs * 2 ^ cluster_order v"
    and "length (fat_map v) \<le> 0x0FFFFFFF"
  shows "fat_file_truncate v file (unat (file_size d)) parent = None"
proof -
  note wf = assms(1) [unfolded file_ok_def]
  have "unat (file_size d) < 2 ^ 32" using unsigned_less [of "file_size d"] by simp
  then have "unat (file_size d) div cluster_bytes v < 2 ^ 32" using div_le_dividend le_less_trans by blast
  then have "fat_table_seek_cluster v (start_cluster file) (unat (file_size d)) = Some (FAT_CLUSTER_END_OF_CHAIN_MAX, v)"
    using seek_cluster_chain [of v cs "unat (file_size d)"] wf assms(2) by (simp add: Let_def)
  moreover have "fat_entry v FAT_CLUSTER_END_OF_CHAIN_MAX = None"
    using assms(3) by (simp add: fat_entry_def fat_consts)
  ultimately show ?thesis
    using wf by (simp add: fat_file_truncate_def fat_table_get_next_cluster_def fat_wf_def)
qed

lemma exact_file_ok: "file_ok small_vol (small_file\<lparr>dentry := Some (small_dentry\<lparr>file_size := 64\<rparr>)\<rparr>)
  (small_dentry\<lparr>file_size := 64\<rparr>) [2, 4] small_dir"
  using small_file_ok by (simp add: file_ok_def small_dentry_def small_file_def)

theorem truncate_at_end_undefined_witness:
  "fat_file_truncate small_vol (small_file\<lparr>dentry := Some (small_dentry\<lparr>file_size := 64\<rparr>)\<rparr>) 64 small_dir = None"
  using truncate_at_end_undefined [OF exact_file_ok] by (simp add: small_fat_def)

text \<open>
  C10: \<open>fat_file_eliminate\<close> frees exactly the clusters of the file, marks its directory entry on the
  device as deleted and leaves the chains of all other files in place.
\<close>

theorem eliminate_spec:
  fixes v :: "'a fat_vol_scheme"
  assumes "file_ok v file d cs parent"
  shows "\<exists>f' v'. fat_file_eliminate v file parent = Some (f', v')
    \<and> fat_wf v' \<and> free_clusters v' = free_clusters v \<union> set cs
    \<and> disk_read v' (dir_slot v' parent file) 32 = 0xE5 # drop 1 (dentry_bytes d)
    \<and> (\<forall>ds. file_chain v ds \<and> set ds \<inter> set cs = {} \<longrightarrow> file_chain v' ds)"
proof -
  have "base_name d \<noteq> []" using assms by (auto simp: file_ok_def)
  then have "dentry_bytes (d\<lparr>base_name := (base_name d)[0 := 0xE5]\<rparr>) = 0xE5 # drop 1 (dentry_bytes d)"
    by (cases "base_name d") (simp_all add: dentry_bytes_def)
  then show ?thesis using fat_file_eliminate_ok [OF assms] by (metis (no_types, lifting))
qed

theorem eliminate_spec_witness:
  "\<exists>f' v'. fat_file_eliminate small_vol small_file small_dir = Some (f', v')
    \<and> free_clusters v' = free_clusters small_vol \<union> {2, 4}"
  using eliminate_spec [OF small_file_ok] by auto

end
