(* ===== verification/Fat_Dir.thy ===== *)
theory Fat_Dir
  imports Fat_Data
begin

unbundle bit_operations_syntax

text \<open>
  Directories of \<open>Lab4/fat-fuse/fat_file.c\<close>: what the byte image of an entry keeps, and how
  entries are added to and read back from the cluster of a directory.
\<close>

section \<open>The byte image of an entry\<close>

lemma le_at_nth:
  "ucast (le16_bytes w ! 0) OR push_bit 8 (ucast (le16_bytes w ! Suc 0)) = w"
  "(ucast (le32_bytes u ! 0) OR push_bit 8 (ucast (le32_bytes u ! Suc 0)))
    OR push_bit 16 (ucast (le32_bytes u ! 2)) OR push_bit 24 (ucast (le32_bytes u ! 3)) = u"
  using le16_at_bytes [of w] le32_at_bytes [of u] by (simp_all add: le16_at_def le32_at_def numeral_2_eq_2)

lemma dentry_image:
  assumes "length (base_name d) = 8" "length (extension d) = 3"
  shows "dentry_of_bytes (dentry_bytes d) = d"
  using assms
  by (cases d) (simp add: dentry_of_bytes_def dentry_bytes_def le16_at_def le32_at_def nth_append le_at_nth)

text \<open>
  reading the 32 bytes of a directory entry gives back the entry that was written, and the
  start cluster split over its two fields is the one that was stored, whatever the name fields.
\<close>

theorem dentry_roundtrip:
  assumes "length (base_name d) = 8" and "length (extension d) = 3"
  shows "dentry_of_bytes (dentry_bytes (set_first_cluster d c)) = set_first_cluster d c
    \<and> file_start_cluster (dentry_of_bytes (dentry_bytes (set_first_cluster d c))) = c"
proof -
  have "file_start_cluster (set_first_cluster d c) = c"
    by (rule bit_word_eqI) (auto simp: file_start_cluster_def set_first_cluster_def bit_simps)
  moreover have "dentry_of_bytes (dentry_bytes (set_first_cluster d c)) = set_first_cluster d c"
    by (rule dentry_image) (simp_all add: set_first_cluster_def assms)
  ultimately show ?thesis by simp
qed

theorem dentry_roundtrip_witness:
  "dentry_of_bytes (dentry_bytes (set_first_cluster small_dentry 0x12345)) = set_first_cluster small_dentry 0x12345
    \<and> file_start_cluster (dentry_of_bytes (dentry_bytes (set_first_cluster small_dentry 0x12345))) = 0x12345"
  by (rule dentry_roundtrip) (simp_all add: small_dentry_def)

section \<open>Adding a child\<close>

abbreviation dir_entries :: "'a fat_table_scheme \<Rightarrow> u32 \<Rightarrow> fat_dir_entry list" where
  "dir_entries v c \<equiv> entries_of (disk_read v (fat_table_cluster_offset v c) (cluster_bytes v))"

lemma nth_entries_of:
  "i < length bs div 32 \<Longrightarrow> entries_of bs ! i = dentry_of_bytes (take 32 (drop (32 * i) bs))"
  by (simp add: entries_of_def)

lemma length_entries_of [simp]: "length (entries_of bs) = length bs div 32"
  by (simp add: entries_of_def)

lemma dir_entries_nth:
  assumes "32 * i + 32 \<le> cluster_bytes t"
  shows "dir_entries t c ! i = dentry_of_bytes (disk_read t (fat_table_cluster_offset t c + 32 * i) 32)"
proof -
  have "take 32 (drop (32 * i) (disk_read t (fat_table_cluster_offset t c) (cluster_bytes t)))
      = disk_read t (fat_table_cluster_offset t c + 32 * i) 32"
    using assms by (intro nth_equalityI) (auto simp: add.assoc)
  moreover have "i < cluster_bytes t div 32"
    using assms by (metis Suc_eq_plus1 add.commute div_le_mono mult_Suc_right nonzero_mult_div_cancel_left
        Suc_le_lessD zero_neq_numeral)
  ultimately show ?thesis by (simp add: nth_entries_of)
qed

lemma add_child_ok:
  fixes v :: "'a fat_vol_scheme"
  assumes "fat_wf v" "valid_cluster v (start_cluster parent)" "dentry child = Some d"
    and "length (base_name d) = 8" "length (extension d) = 3"
    and "32 * unat (nentries parent) + 32 \<le> cluster_bytes v"
  shows "\<exists>v'. fat_file_dentry_add_child v parent child
      = Some (parent\<lparr>nentries := nentries parent + 1\<rparr>, child\<lparr>pos_in_parent := nentries parent\<rparr>, v')
    \<and> err v' = E_OK
    \<and> dir_entries v' (start_cluster parent) = (dir_entries v (start_cluster parent))[unat (nentries parent) := d]"
proof -
  let ?n = "unat (nentries parent)" and ?c = "start_cluster parent" and ?B = "cluster_bytes v"
  let ?child = "child\<lparr>pos_in_parent := nentries parent\<rparr>"
  define off where "off = fat_table_cluster_offset v ?c"
  define v' where "v' = disk_write v (dir_slot v parent ?child) (dentry_bytes d)"
  have len: "length (dentry_bytes d) = 32" by (rule length_dentry_bytes [OF assms(4,5)])
  have slot: "dir_slot v parent ?child = off + 32 * ?n" by (simp add: dir_slot_def off_def)
  have off: "off + ?B \<le> dsize v" unfolding off_def by (rule cluster_in_device(2) [OF assms(1,2)])
  have wd: "write_dir_entry v parent ?child = Some v'"
    unfolding v'_def by (rule write_dir_entry_ok) (use assms in simp_all)
  have same: "cluster_order v' = cluster_order v" "fat_table_cluster_offset v' ?c = off"
    by (simp_all add: v'_def off_def cluster_offset_eq)
  have err: "err v' = E_OK" using assms(1) by (simp add: v'_def fat_wf_def)
  then have add: "fat_file_dentry_add_child v parent child
      = Some (parent\<lparr>nentries := nentries parent + 1\<rparr>, ?child, v')"
    using wd err by (simp add: fat_file_dentry_add_child_def Let_def)
  have "dir_entries v' ?c = (dir_entries v ?c)[?n := d]"
  proof (rule nth_equalityI)
    fix i assume "i < length (dir_entries v' ?c)"
    then have i: "32 * i + 32 \<le> ?B" using same by (simp add: less_eq_div_iff_mult_less_eq Suc_le_eq [symmetric])
    have rd: "dir_entries v' ?c ! i = dentry_of_bytes (disk_read v' (off + 32 * i) 32)"
      using dir_entries_nth [of i v' ?c] i same by simp
    show "dir_entries v' ?c ! i = (dir_entries v ?c)[?n := d] ! i"
    proof (cases "i = ?n")
      case True
      moreover have "disk_read v' (off + 32 * ?n) 32 = dentry_bytes d"
        using disk_read_write_same [of v "off + 32 * ?n" "dentry_bytes d"] len slot by (simp add: v'_def)
      moreover have "?n < length (dir_entries v ?c)"
        using assms(6) by (simp add: less_eq_div_iff_mult_less_eq Suc_le_eq [symmetric])
      ultimately show ?thesis using rd dentry_image [OF assms(4,5)] by simp
    next
      case False
      then have "off + 32 * i + 32 \<le> off + 32 * ?n \<or> off + 32 * ?n + 32 \<le> off + 32 * i" by linarith
      then have "disk_read v' (off + 32 * i) 32 = disk_read v (off + 32 * i) 32"
        using disk_read_write_disjoint [of "off + 32 * i" 32 "off + 32 * ?n" "dentry_bytes d" v] off len assms(6) slot
        by (auto simp: v'_def)
      then show ?thesis using rd False dir_entries_nth [of i v ?c] i by (simp add: off_def)
    qed
  qed (simp add: same)
  with add err show ?thesis by blast
qed

text \<open>
  \<open>fat_file_dentry_add_child\<close> on a directory with room stores the entry of the child at the
  next position of the directory's cluster and changes no other entry.
\<close>

theorem add_child_spec:
  fixes v :: "'a fat_vol_scheme"
  assumes "fat_wf v" and "valid_cluster v (start_cluster parent)" and "dentry child = Some d"
    and "length (base_name d) = 8" and "length (extension d) = 3"
    and "32 * unat (nentries parent) + 32 \<le> 2 ^ cluster_order v"
  shows "\<exists>v'. fat_file_dentry_add_child v parent child
      = Some (parent\<lparr>nentries := nentries parent + 1\<rparr>, child\<lparr>pos_in_parent := nentries parent\<rparr>, v')
    \<and> err v' = E_OK
    \<and> dir_entries v' (start_cluster parent) = (dir_entries v (start_cluster parent))[unat (nentries parent) := d]"
  by (rule add_child_ok [OF assms])

theorem add_child_spec_witness:
  "\<exists>v'. fat_file_dentry_add_child small_vol (small_dir\<lparr>nentries := 0\<rparr>) small_file
      = Some (small_dir\<lparr>nentries := 1\<rparr>, small_file\<lparr>pos_in_parent := 0\<rparr>, v')
    \<and> dir_entries v' 5 = [small_dentry]"
proof -
  let ?p = "small_dir\<lparr>nentries := 0\<rparr>"
  have "\<exists>v'. fat_file_dentry_add_child small_vol ?p small_file
      = Some (?p\<lparr>nentries := nentries ?p + 1\<rparr>, small_file\<lparr>pos_in_parent := nentries ?p\<rparr>, v')
    \<and> err v' = E_OK \<and> dir_entries v' (start_cluster ?p) = (dir_entries small_vol (start_cluster ?p))[unat (nentries ?p) := small_dentry]"
    by (rule add_child_spec)
      (simp_all add: small_vol_wf small_dir_def small_file_def small_dentry_def fat_table_is_valid_cluster_number_def)
  moreover have "length (dir_entries small_vol 5) = 1" by simp
  then have "(dir_entries small_vol 5)[0 := small_dentry] = [small_dentry]"
    by (metis length_0_conv length_Suc_conv One_nat_def list_update_code(2))
  ultimately have "\<exists>v'. fat_file_dentry_add_child small_vol ?p small_file
      = Some (small_dir\<lparr>nentries := 1\<rparr>, small_file\<lparr>pos_in_parent := 0\<rparr>, v') \<and> err v' = E_OK
    \<and> dir_entries v' 5 = [small_dentry]"
    by (simp add: small_dir_def)
  then show ?thesis by blast
qed

section \<open>A full directory\<close>

lemma read_entries_nentries:
  assumes "\<forall>d \<in> set ds. \<not> is_end_of_directory d" "ds \<noteq> []"
    and "read_cluster_dir_entries ds n dir es = Some (dir', es')"
  shows "nentries dir' = of_nat (n + length ds - 1) \<and> start_cluster dir' = start_cluster dir"
  using assms
proof (induction ds arbitrary: n dir es)
  case (Cons d ds)
  let ?dir = "dir\<lparr>nentries := of_nat n\<rparr>"
  have live: "\<not> is_end_of_directory d" "\<forall>d \<in> set ds. \<not> is_end_of_directory d" using Cons.prems(1) by simp_all
  have "\<exists>es1. read_cluster_dir_entries ds (n + 1) ?dir es1 = Some (dir', es')"
    using Cons.prems(3) live(1) by (auto simp: Let_def split: if_splits)
  then obtain es1 where rest: "read_cluster_dir_entries ds (n + 1) ?dir es1 = Some (dir', es')" ..
  show ?case
  proof (cases "ds = []")
    case True
    then show ?thesis using rest by auto
  next
    case False
    then show ?thesis using Cons.IH [OF live(2) _ rest] by simp
  qed
qed simp

text \<open>
  C35: after reading a directory whose cluster has no free entry, the count of entries is one too
  small, and the next child added overwrites the last entry on the device instead of being
  refused with \<open>ENOSPC\<close>.
\<close>

theorem full_directory_overwrites:
  fixes v :: "'a fat_vol_scheme"
  assumes "fat_wf v" and "valid_cluster v (start_cluster dir)" and "dentry child = Some d"
    and "length (base_name d) = 8" and "length (extension d) = 3"
    and "\<forall>d \<in> set (dir_entries v (start_cluster dir)). \<not> is_end_of_directory d"
    and "read_cluster_dir_entries (dir_entries v (start_cluster dir)) 0 dir [] = Some (dir1, es)"
  shows "\<exists>p c v'. fat_file_dentry_add_child v dir1 child = Some (p, c, v') \<and> err v' = E_OK
    \<and> dir_entries v' (start_cluster dir)
      = butlast (dir_entries v (start_cluster dir)) @ [d]"
proof -
  let ?es = "dir_entries v (start_cluster dir)" and ?B = "cluster_bytes v"
  have B: "32 \<le> ?B" "?B \<le> 2 ^ 19" by (rule cluster_bytes_bounds [OF assms(1)])+
  then have len: "0 < length ?es" "length ?es < 2 ^ 32" "32 * length ?es \<le> ?B"
    by (simp_all add: div_greater_zero_iff less_mult_imp_div_less)
  have ne: "?es \<noteq> []" using len(1) by (metis length_greater_0_conv)
  have n: "nentries dir1 = of_nat (length ?es - 1)" "start_cluster dir1 = start_cluster dir"
    using read_entries_nentries [OF assms(6) ne assms(7)] unfolding add_0 by blast+
  have un: "unat (nentries dir1) = length ?es - 1"
    unfolding n(1) using len(2) by (intro of_nat_inverse [OF refl]) simp
  have "\<exists>v'. fat_file_dentry_add_child v dir1 child
      = Some (dir1\<lparr>nentries := nentries dir1 + 1\<rparr>, child\<lparr>pos_in_parent := nentries dir1\<rparr>, v')
    \<and> err v' = E_OK
    \<and> dir_entries v' (start_cluster dir1) = (dir_entries v (start_cluster dir1))[unat (nentries dir1) := d]"
    by (rule add_child_ok) (use assms n(2) un len in auto)
  moreover have "?es[length ?es - 1 := d] = butlast ?es @ [d]"
    using len(1) by (metis append_butlast_last_id length_butlast length_greater_0_conv list_update_length)
  ultimately show ?thesis unfolding n(2) un by metis
qed

theorem full_directory_overwrites_witness:
  "\<exists>p c v'. fat_file_dentry_add_child (small_vol\<lparr>disk := \<lambda>_. 0xFF\<rparr>) (small_dir\<lparr>nentries := 0\<rparr>) small_file = Some (p, c, v')
    \<and> err v' = E_OK \<and> dir_entries v' 5 = [small_dentry]"
proof -
  let ?v = "small_vol\<lparr>disk := \<lambda>_. 0xFF\<rparr>"
  have es: "dir_entries ?v 5 = [dentry_of_bytes (replicate 32 0xFF)]"
    by (simp add: entries_of_def disk_read_def map_replicate_const)
  have e: "\<not> is_end_of_directory (dentry_of_bytes (replicate 32 0xFF))" "ignore_dentry (dentry_of_bytes (replicate 32 0xFF))"
    by (simp_all add: is_end_of_directory_def ignore_dentry_def dentry_of_bytes_def FILE_ATTRIBUTE_VOLUME_def)
  have c: "start_cluster small_dir = 5" by (simp add: small_dir_def)
  have wf: "fat_wf ?v" using small_vol_wf by (simp add: fat_wf_def)
  have read: "read_cluster_dir_entries (dir_entries ?v (start_cluster small_dir)) 0 small_dir []
      = Some (small_dir\<lparr>nentries := 0\<rparr>, [])"
    unfolding c es by (simp add: e Let_def)
  have "\<exists>p c v'. fat_file_dentry_add_child ?v (small_dir\<lparr>nentries := 0\<rparr>) small_file = Some (p, c, v') \<and> err v' = E_OK
    \<and> dir_entries v' (start_cluster small_dir) = butlast (dir_entries ?v (start_cluster small_dir)) @ [small_dentry]"
  proof (rule full_directory_overwrites [OF wf _ _ _ _ _ read])
    show "\<forall>d \<in> set (dir_entries ?v (start_cluster small_dir)). \<not> is_end_of_directory d"
      unfolding c es by (simp add: e(1))
  qed (simp_all add: c small_file_def small_dentry_def fat_table_is_valid_cluster_number_def)
  then show ?thesis unfolding c es by simp
qed

end
