(* ===== verification/H_Tree.thy ===== *)
theory H_Tree
  imports C_Prelude "HOL-Library.Tree"
begin

text \<open>
  \<open>Lab4/fat-fuse/hierarchy_tree.c\<close>: a binary search tree whose nodes also form the child lists of
  a hierarchy.

  Nodes live in a heap: a pointer is a number, 0 is \<open>NULL\<close>, \<open>malloc\<close> gives addresses in order
  and never fails. The data of a node is itself a pointer, \<open>None\<close> when \<open>NULL\<close>; the comparison
  functions are parameters, undefined (\<open>None\<close>) where they would follow a dangling pointer. The
  calls of \<open>data_destroy\<close> are recorded in \<open>destroyed\<close>, latest first.
\<close>

section \<open>Nodes and heap\<close>

type_synonym ptr = nat

record 'd h_node =
  data :: "'d option"
  nright :: ptr
  nleft :: ptr
  h_parent :: ptr
  h_next_sibling :: ptr
  h_children :: ptr
  nsize :: int

record 'd h_heap =
  nodes :: "ptr \<Rightarrow> 'd h_node option"
  brk :: ptr
  tree_errno :: errno
  destroyed :: "'d list"

definition upd_node :: "'d h_heap \<Rightarrow> ptr \<Rightarrow> ('d h_node \<Rightarrow> 'd h_node) \<Rightarrow> 'd h_heap option" where
  "upd_node s p f = do { n \<leftarrow> nodes s p; Some (s\<lparr>nodes := (nodes s)(p \<mapsto> f n)\<rparr>) }"

definition free_node :: "'d h_heap \<Rightarrow> ptr \<Rightarrow> 'd h_heap option" where
  "free_node s p = do { _ \<leftarrow> nodes s p; Some (s\<lparr>nodes := (nodes s)(p := None)\<rparr>) }"

definition data_destroy :: "'d h_heap \<Rightarrow> 'd option \<Rightarrow> 'd h_heap option" where
  "data_destroy s d = (case d of None \<Rightarrow> None | Some x \<Rightarrow> Some (s\<lparr>destroyed := x # destroyed s\<rparr>))"

definition h_node_init :: "'d h_heap \<Rightarrow> 'd \<Rightarrow> ptr \<Rightarrow> (ptr \<times> 'd h_heap) option" where
  "h_node_init s new_data hp =
     (let new_node = \<lparr>data = Some new_data, nright = 0, nleft = 0, h_parent = hp, h_next_sibling = 0,
        h_children = 0, nsize = 1\<rparr>; p = brk s in
      if hp \<noteq> 0 then do {
        parent \<leftarrow> nodes s hp;
        Some (p, s\<lparr>nodes := (nodes s)(hp \<mapsto> parent\<lparr>h_children := p\<rparr>,
          p \<mapsto> new_node\<lparr>h_next_sibling := h_children parent\<rparr>), brk := p + 1\<rparr>) }
      else Some (p, s\<lparr>nodes := (nodes s)(p \<mapsto> new_node), brk := p + 1\<rparr>))"

partial_function (option) h_tree_destroy :: "'d h_heap \<Rightarrow> ptr \<Rightarrow> 'd h_heap option" where
  "h_tree_destroy s root =
     (if root = 0 then Some s
      else do {
        n \<leftarrow> nodes s root;
        s1 \<leftarrow> data_destroy s (data n);
        s2 \<leftarrow> (if nright n \<noteq> 0 then h_tree_destroy s1 (nright n) else Some s1);
        s3 \<leftarrow> (if nleft n \<noteq> 0 then h_tree_destroy s2 (nleft n) else Some s2);
        free_node s3 root })"

section \<open>Accessors\<close>

definition h_tree_size :: "'d h_heap \<Rightarrow> ptr \<Rightarrow> int option" where
  "h_tree_size s root = (if root = 0 then Some 0 else map_option nsize (nodes s root))"

text \<open>The outer option is the defined outcome, the inner one the \<open>void *\<close> result.\<close>

definition h_tree_get_data :: "'d h_heap \<Rightarrow> ptr \<Rightarrow> ('d option \<times> 'd h_heap) option" where
  "h_tree_get_data s root =
     (if root = 0 then Some (None, s\<lparr>tree_errno := EINVAL\<rparr>)
      else do { n \<leftarrow> nodes s root; Some (data n, s) })"

definition h_tree_get_h_parent :: "'d h_heap \<Rightarrow> ptr \<Rightarrow> ptr option" where
  "h_tree_get_h_parent s root = (if root = 0 then Some 0 else map_option h_parent (nodes s root))"

partial_function (option) h_tree_search ::
  "('d \<Rightarrow> 'k \<Rightarrow> int option) \<Rightarrow> 'd h_heap \<Rightarrow> ptr \<Rightarrow> 'k option \<Rightarrow> (ptr \<times> 'd h_heap) option" where
  "h_tree_search cmp s root key =
     (if key = None then Some (0, s\<lparr>tree_errno := EINVAL\<rparr>)
      else if root = 0 then Some (0, s)
      else do {
        n \<leftarrow> nodes s root;
        d \<leftarrow> data n;
        smaller_data \<leftarrow> cmp d (the key);
        (if smaller_data < 0 then h_tree_search cmp s (nright n) key
         else if smaller_data > 0 then h_tree_search cmp s (nleft n) key
         else Some (root, s)) })"

section \<open>Modifiers\<close>

definition update_size :: "'d h_heap \<Rightarrow> ptr \<Rightarrow> 'd h_heap option" where
  "update_size s root = do {
     n \<leftarrow> nodes s root;
     l \<leftarrow> h_tree_size s (nleft n);
     r \<leftarrow> h_tree_size s (nright n);
     upd_node s root (\<lambda>n. n\<lparr>nsize := 1 + l + r\<rparr>) }"

partial_function (option) h_tree_insert ::
  "('d \<Rightarrow> 'd \<Rightarrow> int option) \<Rightarrow> 'd h_heap \<Rightarrow> ptr \<Rightarrow> 'd option \<Rightarrow> ptr \<Rightarrow> (ptr \<times> 'd h_heap) option" where
  "h_tree_insert cmp s root new_data hp =
     (if new_data = None then Some (root, s\<lparr>tree_errno := EINVAL\<rparr>)
      else if root = 0 then h_node_init s (the new_data) hp
      else do {
        n \<leftarrow> nodes s root;
        d \<leftarrow> data n;
        c \<leftarrow> cmp (the new_data) d;
        s2 \<leftarrow> (if c > 0 then do {
                (p, s1) \<leftarrow> h_tree_insert cmp s (nright n) new_data hp;
                upd_node s1 root (\<lambda>n. n\<lparr>nright := p\<rparr>) }
              else if c < 0 then do {
                (p, s1) \<leftarrow> h_tree_insert cmp s (nleft n) new_data hp;
                upd_node s1 root (\<lambda>n. n\<lparr>nleft := p\<rparr>) }
              else Some s);
        s3 \<leftarrow> update_size s2 root;
        Some (root, s3) })"

definition is_minimum :: "'d h_heap \<Rightarrow> ptr \<Rightarrow> bool option" where
  "is_minimum s root = map_option (\<lambda>n. nleft n = 0) (nodes s root)"

definition swap_nodes :: "'d h_heap \<Rightarrow> ptr \<Rightarrow> ptr \<Rightarrow> 'd h_heap option" where
  "swap_nodes s old_file new_file = do {
     old \<leftarrow> nodes s old_file;
     new \<leftarrow> nodes s new_file;
     s1 \<leftarrow> upd_node s old_file (\<lambda>n. n\<lparr>nleft := nleft new, nright := nright new\<rparr>);
     s2 \<leftarrow> upd_node s1 new_file (\<lambda>n. n\<lparr>nleft := nleft old, nright := nright old\<rparr>);
     s3 \<leftarrow> update_size s2 new_file;
     update_size s3 old_file }"

text \<open>The \<open>while\<close> of \<open>remove_child_from_h\<close> and its final assignment.\<close>

partial_function (option) unlink_sibling :: "'d h_heap \<Rightarrow> ptr \<Rightarrow> ptr \<Rightarrow> 'd h_heap option" where
  "unlink_sibling s h_child child_iterator = do {
     it \<leftarrow> nodes s child_iterator;
     (if h_next_sibling it \<noteq> h_child \<and> h_next_sibling it \<noteq> 0
      then unlink_sibling s h_child (h_next_sibling it)
      else do {
        c \<leftarrow> nodes s h_child;
        upd_node s child_iterator (\<lambda>n. n\<lparr>h_next_sibling := h_next_sibling c\<rparr>) }) }"

definition remove_child_from_h :: "'d h_heap \<Rightarrow> ptr \<Rightarrow> 'd h_heap option" where
  "remove_child_from_h s h_child =
     (if h_child = 0 then Some s
      else do {
        c \<leftarrow> nodes s h_child;
        (if h_parent c = 0 then Some s
         else do {
           parent \<leftarrow> nodes s (h_parent c);
           let child_iterator = h_children parent in
           if child_iterator = 0 then Some (s\<lparr>tree_errno := EINVAL\<rparr>)
           else if child_iterator = h_child
           then upd_node s (h_parent c) (\<lambda>n. n\<lparr>h_children := h_next_sibling c\<rparr>)
           else unlink_sibling s h_child child_iterator }) })"

text \<open>The descent of \<open>delete_root\<close> to the leftmost node; the result is the pair
  \<open>(minimum, minimum_parent)\<close>. Inside the loop both become the same node.\<close>

partial_function (option) descend :: "'d h_heap \<Rightarrow> ptr \<Rightarrow> ptr \<Rightarrow> (ptr \<times> ptr \<times> 'd h_heap) option" where
  "descend s minimum minimum_parent = do {
     m \<leftarrow> nodes s minimum;
     (if nleft m = 0 then Some (minimum, minimum_parent, s)
      else do {
        s1 \<leftarrow> upd_node s (nleft m) (\<lambda>n. n\<lparr>nsize := nsize n - 1\<rparr>);
        descend s1 (nleft m) (nleft m) }) }"

partial_function (option) delete_root :: "'d h_heap \<Rightarrow> ptr \<Rightarrow> (ptr \<times> 'd h_heap) option" where
  "delete_root s root = do {
     r \<leftarrow> nodes s root;
     s1 \<leftarrow> (if data r \<noteq> None then data_destroy s (data r) else Some s);
     (if nleft r = 0 \<or> nright r = 0 then do {
        s2 \<leftarrow> free_node s1 root;
        Some (if nleft r = 0 then nright r else nleft r, s2) }
      else do {
        mp \<leftarrow> nodes s1 (nright r);
        (if nleft mp = 0 then do {
           s2 \<leftarrow> upd_node s1 (nright r) (\<lambda>n. n\<lparr>nleft := nleft r\<rparr>);
           s3 \<leftarrow> update_size s2 (nright r);
           s4 \<leftarrow> free_node s3 root;
           Some (nright r, s4) }
         else do {
           s2 \<leftarrow> upd_node s1 (nright r) (\<lambda>n. n\<lparr>nsize := nsize n - 1\<rparr>);
           (minimum, minimum_parent, s3) \<leftarrow> descend s2 (nleft mp) (nright r);
           s4 \<leftarrow> swap_nodes s3 root minimum;
           (p, s5) \<leftarrow> delete_root s4 root;
           s6 \<leftarrow> upd_node s5 minimum_parent (\<lambda>n. n\<lparr>nleft := p\<rparr>);
           Some (minimum, s6) }) }) }"

partial_function (option) h_tree_delete ::
  "('d \<Rightarrow> 'k \<Rightarrow> int option) \<Rightarrow> 'd h_heap \<Rightarrow> ptr \<Rightarrow> 'k option \<Rightarrow> (ptr \<times> 'd h_heap) option" where
  "h_tree_delete cmp s root key =
     (if key = None \<or> root = 0 then Some (root, s)
      else do {
        n \<leftarrow> nodes s root;
        d \<leftarrow> data n;
        c \<leftarrow> cmp d (the key);
        (if c = 0 then do {
           s1 \<leftarrow> remove_child_from_h s root;
           delete_root s1 root }
         else do {
           s2 \<leftarrow> (if c < 0 then do {
                  (p, s1) \<leftarrow> h_tree_delete cmp s (nright n) key;
                  upd_node s1 root (\<lambda>n. n\<lparr>nright := p\<rparr>) }
                else do {
                  (p, s1) \<leftarrow> h_tree_delete cmp s (nleft n) key;
                  upd_node s1 root (\<lambda>n. n\<lparr>nleft := p\<rparr>) });
           s3 \<leftarrow> update_size s2 root;
           Some (root, s3) }) })"

section \<open>Iterators\<close>

text \<open>
  \<open>mod_fn\<close> acts on a state of its own (the objects the data point to), not on the tree. The
  flattening functions return the array they fill.
\<close>

partial_function (option) h_tree_iterate_preorder ::
  "'d h_heap \<Rightarrow> ptr \<Rightarrow> ('d option \<Rightarrow> 'x \<Rightarrow> 'x option) \<Rightarrow> 'x \<Rightarrow> 'x option" where
  "h_tree_iterate_preorder s root mod_fn x =
     (if root = 0 then Some x
      else do {
        n \<leftarrow> nodes s root;
        x1 \<leftarrow> mod_fn (data n) x;
        x2 \<leftarrow> h_tree_iterate_preorder s (nleft n) mod_fn x1;
        h_tree_iterate_preorder s (nright n) mod_fn x2 })"

partial_function (option) h_tree_iterate_h_ancestors ::
  "'d h_heap \<Rightarrow> ptr \<Rightarrow> ('d option \<Rightarrow> 'x \<Rightarrow> 'x option) \<Rightarrow> 'x \<Rightarrow> 'x option" where
  "h_tree_iterate_h_ancestors s root mod_fn x =
     (if root = 0 then Some x
      else do {
        n \<leftarrow> nodes s root;
        x1 \<leftarrow> mod_fn (data n) x;
        h_tree_iterate_h_ancestors s (h_parent n) mod_fn x1 })"

text \<open>Writing through a moving pointer, with the sizes as the distances.\<close>

definition store :: "'e list \<Rightarrow> int \<Rightarrow> 'e \<Rightarrow> 'e list option" where
  "store arr i v = (if 0 \<le> i \<and> nat i < length arr then Some (arr[nat i := v]) else None)"

partial_function (option) h_tree_flatten_preorder ::
  "'d h_heap \<Rightarrow> ptr \<Rightarrow> 'd option list \<Rightarrow> int \<Rightarrow> 'd option list option" where
  "h_tree_flatten_preorder s root arr i =
     (if root = 0 then Some arr
      else do {
        n \<leftarrow> nodes s root;
        arr1 \<leftarrow> store arr i (data n);
        arr2 \<leftarrow> h_tree_flatten_preorder s (nleft n) arr1 (i + 1);
        k \<leftarrow> h_tree_size s (nleft n);
        h_tree_flatten_preorder s (nright n) arr2 (i + 1 + k) })"

partial_function (option) flatten_siblings ::
  "'d h_heap \<Rightarrow> ptr \<Rightarrow> 'd option list \<Rightarrow> int \<Rightarrow> 'd option list option" where
  "flatten_siblings s child_it arr i =
     (if child_it = 0 then store arr i None
      else do {
        n \<leftarrow> nodes s child_it;
        arr1 \<leftarrow> store arr i (data n);
        flatten_siblings s (h_next_sibling n) arr1 (i + 1) })"

definition h_tree_flatten_h_children :: "'d h_heap \<Rightarrow> ptr \<Rightarrow> 'd option list \<Rightarrow> 'd option list option" where
  "h_tree_flatten_h_children s root arr =
     (if root = 0 then Some arr
      else do { n \<leftarrow> nodes s root; flatten_siblings s (h_children n) arr 0 })"

section \<open>The tree a heap represents\<close>

text \<open>
  \<open>rep nd p t\<close>: the node at \<open>p\<close> is the root of a binary tree in the heap that has the shape of
  \<open>t\<close>, a tree of addresses; every node holds data and the number of nodes below it.
\<close>

fun rep :: "(ptr \<Rightarrow> 'd h_node option) \<Rightarrow> ptr \<Rightarrow> ptr tree \<Rightarrow> bool" where
  "rep nd p Leaf \<longleftrightarrow> p = 0"
| "rep nd p (Node l x r) \<longleftrightarrow> p = x \<and> x \<noteq> 0 \<and> (\<exists>n. nd x = Some n \<and> data n \<noteq> None
     \<and> nsize n = int (size (Node l x r)) \<and> rep nd (nleft n) l \<and> rep nd (nright n) r)"

definition datum :: "(ptr \<Rightarrow> 'd h_node option) \<Rightarrow> ptr \<Rightarrow> 'd" where
  "datum nd x = the (data (the (nd x)))"

text \<open>The part of a node that the search tree consists of.\<close>

definition core :: "'d h_node \<Rightarrow> 'd option \<times> ptr \<times> ptr \<times> int" where
  "core n = (data n, nleft n, nright n, nsize n)"

abbreviation same_core :: "(ptr \<Rightarrow> 'd h_node option) \<Rightarrow> (ptr \<Rightarrow> 'd h_node option) \<Rightarrow> ptr set \<Rightarrow> bool" where
  "same_core nd nd' A \<equiv> \<forall>x \<in> A. map_option core (nd' x) = map_option core (nd x)"

lemma rep_cong: "rep nd p t \<Longrightarrow> same_core nd nd' (set_tree t) \<Longrightarrow> rep nd' p t"
proof (induction t arbitrary: p)
  case (Node l x r)
  then obtain n where n: "nd x = Some n" "p = x" "x \<noteq> 0" "data n \<noteq> None" "nsize n = int (size (Node l x r))"
    "rep nd (nleft n) l" "rep nd (nright n) r" by auto
  moreover obtain n' where "nd' x = Some n'" "core n' = core n"
    using Node.prems(2) n(1) by (cases "nd' x") auto
  moreover have "rep nd' (nleft n) l" "rep nd' (nright n) r"
    using Node.IH n(6,7) Node.prems(2) by auto
  ultimately show ?case by (auto simp: core_def)
qed simp

lemma rep_nodes: "rep nd p t \<Longrightarrow> x \<in> set_tree t \<Longrightarrow> \<exists>n d. nd x = Some n \<and> data n = Some d \<and> x \<noteq> 0"
  by (induction t arbitrary: p) auto

lemma rep_root: "rep nd p t \<Longrightarrow> t \<noteq> Leaf \<Longrightarrow> p \<in> set_tree t \<and> p \<noteq> 0"
  by (cases t) auto

lemma rep_size: "rep (nodes s) p t \<Longrightarrow> h_tree_size s p = Some (int (size t))"
  by (cases t) (auto simp: h_tree_size_def)

text \<open>The size written after a change below is the size of the new tree.\<close>

lemma update_size_ok:
  assumes "nodes s x = Some n" "rep (nodes s) (nleft n) l" "rep (nodes s) (nright n) r"
    "x \<noteq> 0" "x \<notin> set_tree l" "x \<notin> set_tree r" "data n \<noteq> None"
  shows "update_size s x = Some (s\<lparr>nodes := (nodes s)(x \<mapsto> n\<lparr>nsize := int (size (Node l x r))\<rparr>)\<rparr>)"
    "rep ((nodes s)(x \<mapsto> n\<lparr>nsize := int (size (Node l x r))\<rparr>)) x (Node l x r)"
proof -
  show "update_size s x = Some (s\<lparr>nodes := (nodes s)(x \<mapsto> n\<lparr>nsize := int (size (Node l x r))\<rparr>)\<rparr>)"
    using assms by (simp add: update_size_def upd_node_def rep_size algebra_simps)
  have "rep ((nodes s)(x \<mapsto> n\<lparr>nsize := int (size (Node l x r))\<rparr>)) (nleft n) l"
    by (rule rep_cong [OF assms(2)]) (use assms(5) in auto)
  moreover have "rep ((nodes s)(x \<mapsto> n\<lparr>nsize := int (size (Node l x r))\<rparr>)) (nright n) r"
    by (rule rep_cong [OF assms(3)]) (use assms(6) in auto)
  ultimately show "rep ((nodes s)(x \<mapsto> n\<lparr>nsize := int (size (Node l x r))\<rparr>)) x (Node l x r)"
    using assms(4,7) by simp
qed

lemma rep_unique: "rep nd p t \<Longrightarrow> rep nd q t \<Longrightarrow> p = q"
  by (cases t) auto

text \<open>The part of a node that the hierarchy consists of.\<close>

definition hier :: "'d h_node \<Rightarrow> 'd option \<times> ptr \<times> ptr \<times> ptr" where
  "hier n = (data n, h_parent n, h_next_sibling n, h_children n)"

text \<open>
  What inserting a new node may change: the node is put in front of the children of its parent,
  and outside the tree nothing else changes.
\<close>

definition inserted :: "'d h_heap \<Rightarrow> 'd h_heap \<Rightarrow> ptr set \<Rightarrow> 'd \<Rightarrow> ptr \<Rightarrow> bool" where
  "inserted s s' A d hp \<longleftrightarrow> brk s' = brk s + 1 \<and> tree_errno s' = tree_errno s \<and> destroyed s' = destroyed s
     \<and> same_core (nodes s) (nodes s') (- (A \<union> {brk s}))
     \<and> map_option hier (nodes s' (brk s))
         = Some (Some d, hp, if hp = 0 then 0 else h_children (the (nodes s hp)), 0)
     \<and> (\<forall>y. y \<noteq> brk s \<longrightarrow> map_option hier (nodes s' y)
         = map_option (\<lambda>n. hier (if y = hp \<and> hp \<noteq> 0 then n\<lparr>h_children := brk s\<rparr> else n)) (nodes s y))"

text \<open>The same insertion on trees of addresses.\<close>

fun ins :: "(ptr \<Rightarrow> 'a::linorder) \<Rightarrow> 'a \<Rightarrow> ptr \<Rightarrow> ptr tree \<Rightarrow> ptr tree" where
  "ins f k a Leaf = Node Leaf a Leaf"
| "ins f k a (Node l x r) =
     (if f x < k then Node l x (ins f k a r)
      else if k < f x then Node (ins f k a l) x r
      else Node l x r)"

lemma set_tree_ins: "k \<notin> f ` set_tree t \<Longrightarrow> set_tree (ins f k a t) = insert a (set_tree t)"
  by (induction t) auto

lemma size_ins: "k \<notin> f ` set_tree t \<Longrightarrow> size (ins f k a t) = size t + 1"
  by (induction t) auto

lemma inserted_datum:
  assumes "inserted s s' A d hp" "y \<noteq> brk s"
  shows "datum (nodes s') y = datum (nodes s) y"
proof (cases "nodes s y")
  case None
  then have "nodes s' y = None" using assms by (cases "nodes s' y") (auto simp: inserted_def)
  then show ?thesis using None by (simp add: datum_def)
next
  case (Some n)
  then obtain n' where "nodes s' y = Some n'" "data n' = data n"
    using assms by (cases "nodes s' y") (auto simp: inserted_def hier_def split: if_splits)
  then show ?thesis using Some by (simp add: datum_def)
qed

lemma inserted_update:
  assumes "inserted s s' A d hp" "nodes s' x = Some n" "x \<in> A" "x \<noteq> brk s" "hier n' = hier n"
  shows "inserted s (s'\<lparr>nodes := (nodes s')(x \<mapsto> n')\<rparr>) A d hp"
  using assms unfolding inserted_def by (auto simp: assms(5))

lemma inserted_mono: "inserted s s' A d hp \<Longrightarrow> A \<subseteq> B \<Longrightarrow> inserted s s' B d hp"
  unfolding inserted_def by auto

section \<open>Ordered trees\<close>

text \<open>
  What the tree needs of its comparison functions: on the data in \<open>D\<close> and the keys in \<open>K\<close> they
  are defined and give the order of the keys, by the sign of the result.
\<close>

locale tree_order =
  fixes D :: "'d set"
    and K :: "'a::linorder set"
    and key :: "'d \<Rightarrow> 'a"
    and cmp :: "'d \<Rightarrow> 'd \<Rightarrow> int option"
    and cmp_key :: "'d \<Rightarrow> 'a \<Rightarrow> int option"
  assumes cmp_defined: "d \<in> D \<Longrightarrow> e \<in> D \<Longrightarrow> \<exists>c. cmp d e = Some c \<and> (0 < c \<longleftrightarrow> key e < key d) \<and> (c < 0 \<longleftrightarrow> key d < key e)"
    and cmp_key_defined: "d \<in> D \<Longrightarrow> k \<in> K \<Longrightarrow> \<exists>c. cmp_key d k = Some c \<and> (0 < c \<longleftrightarrow> k < key d) \<and> (c < 0 \<longleftrightarrow> key d < k)"
begin

definition ordered :: "(ptr \<Rightarrow> 'd h_node option) \<Rightarrow> ptr tree \<Rightarrow> bool" where
  "ordered nd t \<longleftrightarrow> bst_wrt (\<lambda>x y. key (datum nd x) < key (datum nd y)) t \<and> (\<forall>x \<in> set_tree t. datum nd x \<in> D)"

lemma ordered_Node:
  "ordered nd (Node l x r) \<longleftrightarrow> ordered nd l \<and> ordered nd r \<and> datum nd x \<in> D
    \<and> (\<forall>y \<in> set_tree l. key (datum nd y) < key (datum nd x)) \<and> (\<forall>y \<in> set_tree r. key (datum nd x) < key (datum nd y))"
  by (auto simp: ordered_def)

text \<open>Searching ends at the node of the key, or at \<open>NULL\<close> when the key is absent.\<close>

lemma search_ok:
  assumes "rep (nodes s) p t" "ordered (nodes s) t" "k \<in> K"
  shows "\<exists>q. h_tree_search cmp_key s p (Some k) = Some (q, s)
    \<and> (q \<noteq> 0 \<longleftrightarrow> (\<exists>x \<in> set_tree t. key (datum (nodes s) x) = k))
    \<and> (q \<noteq> 0 \<longrightarrow> q \<in> set_tree t \<and> key (datum (nodes s) q) = k)"
  using assms(1,2)
proof (induction t arbitrary: p)
  case Leaf
  then show ?case by (simp add: h_tree_search.simps)
next
  case (Node l x r)
  then obtain n d where n: "nodes s x = Some n" "p = x" "x \<noteq> 0" "data n = Some d"
    "rep (nodes s) (nleft n) l" "rep (nodes s) (nright n) r" by auto
  have d: "datum (nodes s) x = d" "d \<in> D" using n Node.prems(2) by (auto simp: ordered_Node datum_def)
  obtain c where c: "cmp_key d k = Some c" "0 < c \<longleftrightarrow> k < key d" "c < 0 \<longleftrightarrow> key d < k"
    using cmp_key_defined [OF d(2) assms(3)] by blast
  have step: "h_tree_search cmp_key s p (Some k) = (if c < 0 then h_tree_search cmp_key s (nright n) (Some k)
      else if 0 < c then h_tree_search cmp_key s (nleft n) (Some k) else Some (x, s))"
    using n c(1) by (subst h_tree_search.simps) simp
  note ord = Node.prems(2) [unfolded ordered_Node]
  consider "key d < k" | "k < key d" | "k = key d" by fastforce
  then show ?case
  proof cases
    case 1
    then have "\<not> (\<exists>y \<in> set_tree l \<union> {x}. key (datum (nodes s) y) = k)" using ord d by force
    then show ?thesis using Node.IH(2) [OF n(6)] ord step c 1 by auto
  next
    case 2
    then have "\<not> (\<exists>y \<in> set_tree r \<union> {x}. key (datum (nodes s) y) = k)" using ord d by force
    then show ?thesis using Node.IH(1) [OF n(5)] ord step c 2 by auto
  next
    case 3
    then show ?thesis using step c n(3) d by auto
  qed
qed


text \<open>The root of a subtree after a change in one of its children.\<close>

lemma ordered_disjoint:
  "ordered nd (Node l x r) \<Longrightarrow> x \<notin> set_tree l \<and> x \<notin> set_tree r \<and> set_tree l \<inter> set_tree r = {}"
  by (force simp: ordered_Node)

lemma ins_present: "k \<in> f ` set_tree t \<Longrightarrow> bst_wrt (\<lambda>x y. f x < f y) t \<Longrightarrow> ins f k a t = t"
  by (induction t) force+

lemma node_init_inserted:
  assumes "nodes s (brk s) = None" "hp = 0 \<or> nodes s hp \<noteq> None" "brk s \<noteq> 0"
  shows "\<exists>s'. h_node_init s d hp = Some (brk s, s') \<and> inserted s s' {} d hp \<and> rep (nodes s') (brk s) (Node Leaf (brk s) Leaf)"
proof (cases "hp = 0")
  case True
  then show ?thesis using assms by (auto simp: h_node_init_def Let_def inserted_def hier_def [abs_def])
next
  case False
  then obtain par where par: "nodes s hp = Some par" using assms(2) by auto
  moreover have "hp \<noteq> brk s" using par assms(1) by (metis option.distinct(1))
  ultimately show ?thesis using assms False
    by (auto simp: h_node_init_def Let_def inserted_def hier_def [abs_def] core_def)
qed

lemma rebuild:
  assumes "inserted s s1 A d hp" "A \<subseteq> B" "nodes s1 x = Some n1" "x \<in> B" "x \<noteq> brk s" "x \<noteq> 0"
    and "hier n' = hier n1" "data n' \<noteq> None"
    and "rep (nodes s1) (nleft n') l" "rep (nodes s1) (nright n') r" "x \<notin> set_tree l" "x \<notin> set_tree r"
  shows "\<exists>s3. update_size (s1\<lparr>nodes := (nodes s1)(x \<mapsto> n')\<rparr>) x = Some s3 \<and> rep (nodes s3) x (Node l x r)
    \<and> inserted s s3 B d hp"
proof -
  let ?s2 = "s1\<lparr>nodes := (nodes s1)(x \<mapsto> n')\<rparr>"
  let ?s3 = "?s2\<lparr>nodes := (nodes ?s2)(x \<mapsto> n'\<lparr>nsize := int (size (Node l x r))\<rparr>)\<rparr>"
  have n2: "nodes ?s2 x = Some n'" by simp
  have l2: "rep (nodes ?s2) (nleft n') l" by (rule rep_cong [OF assms(9)]) (use assms(11) in auto)
  have r2: "rep (nodes ?s2) (nright n') r" by (rule rep_cong [OF assms(10)]) (use assms(12) in auto)
  note us = update_size_ok [OF n2 l2 r2 assms(6,11,12,8)]
  have i2: "inserted s ?s2 B d hp"
    by (rule inserted_update [OF inserted_mono [OF assms(1,2)] assms(3,4,5,7)])
  have "inserted s ?s3 B d hp"
    by (rule inserted_update [OF i2 n2 assms(4,5)]) (simp add: hier_def)
  then show ?thesis using us by (intro exI [of _ ?s3]) simp
qed

lemma insert_ok:
  assumes "rep (nodes s) p t" "ordered (nodes s) t" "d \<in> D"
    and "nodes s (brk s) = None" "brk s \<noteq> 0" "hp = 0 \<or> nodes s hp \<noteq> None"
  defines "f \<equiv> \<lambda>x. key (datum (nodes s) x)"
  shows "\<exists>q s'. h_tree_insert cmp s p (Some d) hp = Some (q, s')
    \<and> rep (nodes s') q (ins f (key d) (brk s) t)
    \<and> (if key d \<in> f ` set_tree t then s' = s else inserted s s' (set_tree t) d hp)"
  using assms(1,2)
proof (induction t arbitrary: p)
  case Leaf
  then show ?case using node_init_inserted [OF assms(4,6,5), of d] by (auto simp: h_tree_insert.simps)
next
  case (Node l x r)
  then obtain n e where n: "nodes s x = Some n" "p = x" "x \<noteq> 0" "data n = Some e"
    "rep (nodes s) (nleft n) l" "rep (nodes s) (nright n) r" "nsize n = int (size (Node l x r))" by auto
  have e: "datum (nodes s) x = e" "e \<in> D" using n Node.prems(2) by (auto simp: ordered_Node datum_def)
  obtain c where c: "cmp d e = Some c" "0 < c \<longleftrightarrow> key e < key d" "c < 0 \<longleftrightarrow> key d < key e"
    using cmp_defined [OF assms(3) e(2)] by blast
  note ord = Node.prems(2) [unfolded ordered_Node]
  note dis = ordered_disjoint [OF Node.prems(2)]
  have xb: "x \<noteq> brk s" using n(1) assms(4) by auto
  have bt: "brk s \<notin> set_tree l" "brk s \<notin> set_tree r"
    using rep_nodes [OF n(5)] rep_nodes [OF n(6)] assms(4) by force+
  have same: "s\<lparr>nodes := (nodes s)(x \<mapsto> n)\<rparr> = s" using n(1) by (simp add: fun_upd_idem)
  have fe: "f x = key e" by (simp add: f_def e)
  have "n\<lparr>nsize := int (size (Node l x r))\<rparr> = n" using n(7) by (cases n) simp
  then have unchanged: "update_size s x = Some s"
    using update_size_ok(1) [OF n(1,5,6,3)] dis n(4) same by simp
  consider "key e < key d" | "key d < key e" | "key d = key e" by fastforce
  then show ?case
  proof cases
    case 1
    obtain q s1 where ih: "h_tree_insert cmp s (nright n) (Some d) hp = Some (q, s1)"
      "rep (nodes s1) q (ins f (key d) (brk s) r)"
      "if key d \<in> f ` set_tree r then s1 = s else inserted s s1 (set_tree r) d hp"
      using Node.IH(2) [OF n(6)] ord by blast
    have step: "h_tree_insert cmp s p (Some d) hp = do {
        s2 \<leftarrow> upd_node s1 x (\<lambda>n. n\<lparr>nright := q\<rparr>); s3 \<leftarrow> update_size s2 x; Some (x, s3) }"
      using n c 1 ih(1) by (subst h_tree_insert.simps) simp
    have left: "f y < key d" if "y \<in> set_tree l \<union> {x}" for y
      using ord that 1 e by (auto simp: f_def)
    show ?thesis
    proof (cases "key d \<in> f ` set_tree r")
      case True
      then have "s1 = s" "q = nright n"
        using ih(2,3) rep_unique [OF _ n(6)] ins_present [OF True] ord by (auto simp: ordered_def f_def)
      then have "upd_node s1 x (\<lambda>n. n\<lparr>nright := q\<rparr>) = Some s" using n(1) same by (simp add: upd_node_def)
      moreover have "key d \<in> f ` set_tree (Node l x r)" using True by auto
      moreover have "ins f (key d) (brk s) (Node l x r) = Node l x r"
        using 1 ins_present [OF True] ord fe by (simp add: ordered_def f_def)
      ultimately show ?thesis using step unchanged Node.prems(1) n(2) by auto
    next
      case False
      then have i1: "inserted s s1 (set_tree r) d hp" using ih(3) by simp
      then have new: "key d \<notin> f ` set_tree (Node l x r)" using False left by force
      have "map_option core (nodes s1 x) = map_option core (nodes s x)"
        using i1 dis xb unfolding inserted_def by blast
      then obtain n1 where n1: "nodes s1 x = Some n1" "core n1 = core n" using n(1) by auto
      have o1: "rep (nodes s1) (nleft (n1\<lparr>nright := q\<rparr>)) l"
        using rep_cong [OF n(5), of "nodes s1"] i1 dis bt n1(2) by (auto simp: inserted_def core_def)
      have xi: "x \<notin> set_tree (ins f (key d) (brk s) r)" using set_tree_ins [OF False] dis xb by auto
      have "\<exists>s3. update_size (s1\<lparr>nodes := (nodes s1)(x \<mapsto> n1\<lparr>nright := q\<rparr>)\<rparr>) x = Some s3
          \<and> rep (nodes s3) x (Node l x (ins f (key d) (brk s) r)) \<and> inserted s s3 (set_tree (Node l x r)) d hp"
        by (rule rebuild [OF i1 _ n1(1)])
          (use xb n(3,4) n1(2) o1 ih(2) xi dis in \<open>auto simp: hier_def core_def\<close>)
      then show ?thesis using step n1(1) new 1 fe by (auto simp: upd_node_def)
    qed
  next
    case 2
    obtain q s1 where ih: "h_tree_insert cmp s (nleft n) (Some d) hp = Some (q, s1)"
      "rep (nodes s1) q (ins f (key d) (brk s) l)"
      "if key d \<in> f ` set_tree l then s1 = s else inserted s s1 (set_tree l) d hp"
      using Node.IH(1) [OF n(5)] ord by blast
    have step: "h_tree_insert cmp s p (Some d) hp = do {
        s2 \<leftarrow> upd_node s1 x (\<lambda>n. n\<lparr>nleft := q\<rparr>); s3 \<leftarrow> update_size s2 x; Some (x, s3) }"
      using n c 2 ih(1) by (subst h_tree_insert.simps) simp
    have right: "key d < f y" if "y \<in> set_tree r \<union> {x}" for y
      using ord that 2 e by (auto simp: f_def)
    show ?thesis
    proof (cases "key d \<in> f ` set_tree l")
      case True
      then have "s1 = s" "q = nleft n"
        using ih(2,3) rep_unique [OF _ n(5)] ins_present [OF True] ord by (auto simp: ordered_def f_def)
      then have "upd_node s1 x (\<lambda>n. n\<lparr>nleft := q\<rparr>) = Some s" using n(1) same by (simp add: upd_node_def)
      moreover have "key d \<in> f ` set_tree (Node l x r)" using True by auto
      moreover have "ins f (key d) (brk s) (Node l x r) = Node l x r"
        using 2 less_not_sym [OF 2] ins_present [OF True] ord fe by (simp add: ordered_def f_def)
      ultimately show ?thesis using step unchanged Node.prems(1) n(2) by auto
    next
      case False
      then have i1: "inserted s s1 (set_tree l) d hp" using ih(3) by simp
      then have new: "key d \<notin> f ` set_tree (Node l x r)" using False right by force
      have "map_option core (nodes s1 x) = map_option core (nodes s x)"
        using i1 dis xb unfolding inserted_def by blast
      then obtain n1 where n1: "nodes s1 x = Some n1" "core n1 = core n" using n(1) by auto
      have o1: "rep (nodes s1) (nright (n1\<lparr>nleft := q\<rparr>)) r"
        using rep_cong [OF n(6), of "nodes s1"] i1 dis bt n1(2) by (auto simp: inserted_def core_def)
      have xi: "x \<notin> set_tree (ins f (key d) (brk s) l)" using set_tree_ins [OF False] dis xb by auto
      have "\<exists>s3. update_size (s1\<lparr>nodes := (nodes s1)(x \<mapsto> n1\<lparr>nleft := q\<rparr>)\<rparr>) x = Some s3
          \<and> rep (nodes s3) x (Node (ins f (key d) (brk s) l) x r) \<and> inserted s s3 (set_tree (Node l x r)) d hp"
        by (rule rebuild [OF i1 _ n1(1)])
          (use xb n(3,4) n1(2) o1 ih(2) xi dis in \<open>auto simp: hier_def core_def\<close>)
      then show ?thesis using step n1(1) new 2 fe by (auto simp: upd_node_def)
    qed
  next
    case 3
    then have "h_tree_insert cmp s p (Some d) hp = Some (x, s)"
      using n c unchanged by (subst h_tree_insert.simps) simp
    moreover have "key d \<in> f ` set_tree (Node l x r)" using 3 fe by auto
    moreover have "ins f (key d) (brk s) (Node l x r) = Node l x r" using 3 fe by simp
    ultimately show ?thesis using Node.prems(1) n(2) by auto
  qed
qed

end

lemma rep_null: "rep nd p t \<Longrightarrow> (p = 0) = (t = Leaf)"
  by (cases t) auto

section \<open>Flattening\<close>

lemma store_mid:
  "i = int (length xs) \<Longrightarrow> store (xs @ y # ys) i v = Some (xs @ v # ys)"
  by (simp add: store_def)

text \<open>
  The sizes kept in the nodes are what places the right subtree: with correct sizes the array is
  filled without a gap, in preorder.
\<close>

lemma flatten_preorder_ok:
  assumes "rep (nodes s) p t" "i = int (length xs)" "length ys = size t"
  shows "h_tree_flatten_preorder s p (xs @ ys @ zs) i
    = Some (xs @ map (\<lambda>x. Some (datum (nodes s) x)) (preorder t) @ zs)"
  using assms
proof (induction t arbitrary: p i xs ys zs)
  case Leaf
  then show ?case by (simp add: h_tree_flatten_preorder.simps)
next
  case (Node l x r)
  then obtain n e where n: "nodes s x = Some n" "p = x" "x \<noteq> 0" "data n = Some e"
    "rep (nodes s) (nleft n) l" "rep (nodes s) (nright n) r" by auto
  obtain y ls rs where ys: "ys = y # ls @ rs" "length ls = size l" "length rs = size r"
  proof -
    have "length (drop 1 ys) = size l + size r" using Node.prems(3) by simp
    then show thesis
      using that [of "hd ys" "take (size l) (drop 1 ys)" "drop (size l) (drop 1 ys)"] Node.prems(3)
      by (cases ys) auto
  qed
  have e: "datum (nodes s) x = e" using n by (simp add: datum_def)
  have s1: "store (xs @ ys @ zs) i (Some e) = Some ((xs @ [Some e]) @ ls @ rs @ zs)"
    using store_mid [OF Node.prems(2), of y "ls @ rs @ zs" "Some e"] ys by simp
  have s2: "h_tree_flatten_preorder s (nleft n) ((xs @ [Some e]) @ ls @ rs @ zs) (i + 1)
      = Some ((xs @ [Some e]) @ map (\<lambda>x. Some (datum (nodes s) x)) (preorder l) @ rs @ zs)"
    by (rule Node.IH(1) [OF n(5)]) (use Node.prems(2) ys in simp_all)
  let ?xs = "(xs @ [Some e]) @ map (\<lambda>x. Some (datum (nodes s) x)) (preorder l)"
  have s3: "h_tree_flatten_preorder s (nright n) (?xs @ rs @ zs) (i + 1 + int (size l))
      = Some (?xs @ map (\<lambda>x. Some (datum (nodes s) x)) (preorder r) @ zs)"
    by (rule Node.IH(2) [OF n(6)]) (use Node.prems(2) ys in simp_all)
  show ?case
    using n s1 s2 s3 rep_size [OF n(5)] e by (subst h_tree_flatten_preorder.simps) simp
qed

section \<open>Child lists\<close>

text \<open>The child list that starts at \<open>p\<close>.\<close>

fun siblings :: "(ptr \<Rightarrow> 'd h_node option) \<Rightarrow> ptr \<Rightarrow> ptr list \<Rightarrow> bool" where
  "siblings nd p [] \<longleftrightarrow> p = 0"
| "siblings nd p (c # cs) \<longleftrightarrow> p = c \<and> c \<noteq> 0 \<and> (\<exists>n. nd c = Some n \<and> siblings nd (h_next_sibling n) cs)"

lemma siblings_cong:
  "siblings nd p cs \<Longrightarrow> (\<And>c. c \<in> set cs \<Longrightarrow> map_option h_next_sibling (nd' c) = map_option h_next_sibling (nd c))
    \<Longrightarrow> siblings nd' p cs"
proof (induction cs arbitrary: p)
  case (Cons c cs)
  then obtain n where n: "nd c = Some n" "siblings nd (h_next_sibling n) cs" "p = c" "c \<noteq> 0" by auto
  moreover obtain n' where "nd' c = Some n'" "h_next_sibling n' = h_next_sibling n"
    using Cons.prems(2) [of c] n(1) by auto
  ultimately show ?case using Cons.IH [of "h_next_sibling n"] Cons.prems(2) by auto
qed simp

lemma siblings_nodes: "siblings nd p cs \<Longrightarrow> c \<in> set cs \<Longrightarrow> c \<noteq> 0 \<and> nd c \<noteq> None"
  by (induction cs arbitrary: p) auto

lemma flatten_siblings_ok:
  assumes "siblings (nodes s) p cs" "i = int (length xs)" "length ys = length cs + 1"
    and "\<And>c. c \<in> set cs \<Longrightarrow> data (the (nodes s c)) \<noteq> None"
  shows "flatten_siblings s p (xs @ ys @ zs) i
    = Some (xs @ map (\<lambda>x. Some (datum (nodes s) x)) cs @ None # zs)"
  using assms
proof (induction cs arbitrary: p i xs ys)
  case Nil
  then obtain y where "ys = [y]" by (cases ys) auto
  then show ?case using Nil by (simp add: flatten_siblings.simps store_mid)
next
  case (Cons c cs)
  then obtain n y ys' where n: "nodes s c = Some n" "p = c" "c \<noteq> 0" "siblings (nodes s) (h_next_sibling n) cs"
    and ys: "ys = y # ys'" by (cases ys) auto
  obtain e where e: "data n = Some e" using Cons.prems(4) [of c] n(1) by auto
  have "flatten_siblings s (h_next_sibling n) ((xs @ [Some e]) @ ys' @ zs) (i + 1)
    = Some ((xs @ [Some e]) @ map (\<lambda>x. Some (datum (nodes s) x)) cs @ None # zs)"
    by (rule Cons.IH) (use Cons.prems n ys in auto)
  then show ?case
    using n e ys store_mid [OF Cons.prems(2), of y "ys' @ zs" "Some e"]
    by (subst flatten_siblings.simps) (simp add: datum_def)
qed

definition same_rest :: "'d h_heap \<Rightarrow> 'd h_heap \<Rightarrow> bool" where
  "same_rest s s' \<longleftrightarrow> brk s' = brk s \<and> tree_errno s' = tree_errno s \<and> destroyed s' = destroyed s"

definition hier_links :: "'d h_node \<Rightarrow> ptr \<times> ptr" where
  "hier_links n = (h_parent n, h_children n)"

text \<open>Unlinking a child takes it out of the list of its parent.\<close>

lemma unlink_sibling_ok:
  assumes "siblings (nodes s) p cs" "distinct cs" "c \<in> set cs" "c \<noteq> p"
  shows "\<exists>s'. unlink_sibling s c p = Some s' \<and> siblings (nodes s') p (remove1 c cs)
    \<and> same_core (nodes s) (nodes s') UNIV \<and> same_rest s s'
    \<and> (\<forall>y. y \<notin> set cs \<longrightarrow> nodes s' y = nodes s y)
    \<and> (\<forall>y. map_option hier_links (nodes s' y) = map_option hier_links (nodes s y))"
  using assms
proof (induction cs arbitrary: p)
  case (Cons a cs)
  have pa: "p = a" using Cons.prems(1) by simp
  have "\<exists>n. nodes s p = Some n \<and> siblings (nodes s) (h_next_sibling n) cs" using Cons.prems(1) by simp
  then obtain n where "nodes s p = Some n" "siblings (nodes s) (h_next_sibling n) cs" by blast
  moreover have "p \<noteq> 0" using Cons.prems(1) by simp
  ultimately have n: "nodes s p = Some n" "a = p" "p \<noteq> 0" "siblings (nodes s) (h_next_sibling n) cs"
    using pa by simp_all
  have c: "c \<in> set cs" "c \<noteq> 0" "nodes s c \<noteq> None"
    using Cons.prems(3,4) n(2) siblings_nodes [OF n(4)] by auto
  then obtain m where m: "nodes s c = Some m" by auto
  show ?case
  proof (cases "h_next_sibling n = c")
    case True
    then obtain cs' where cs: "cs = c # cs'" using n(4) c(1,2) by (cases cs) auto
    let ?nd = "(nodes s)(p \<mapsto> n\<lparr>h_next_sibling := h_next_sibling m\<rparr>)"
    have unl: "unlink_sibling s c p = Some (s\<lparr>nodes := ?nd\<rparr>)"
      using n m True by (subst unlink_sibling.simps) (simp add: upd_node_def)
    have "siblings (nodes s) (h_next_sibling m) cs'" using n(4) cs m by auto
    then have "siblings ?nd (h_next_sibling m) cs'"
      by (rule siblings_cong) (use Cons.prems(2) cs n(2) in auto)
    moreover have "c \<noteq> p" "p \<notin> set cs'" using Cons.prems(2,4) n(2) cs by auto
    ultimately have "siblings ?nd p (p # cs')" using n(3) by simp
    moreover have "remove1 c (a # cs) = p # cs'" using \<open>c \<noteq> p\<close> n(2) cs by simp
    moreover have "same_core (nodes s) ?nd UNIV" using n(1) by (simp add: core_def)
    moreover have "\<forall>y. map_option hier_links (?nd y) = map_option hier_links (nodes s y)"
      using n(1) by (simp add: hier_links_def)
    moreover have "\<forall>y. y \<notin> set (a # cs) \<longrightarrow> ?nd y = nodes s y" using n(2) by simp
    ultimately show ?thesis using unl
      by (intro exI [of _ "s\<lparr>nodes := ?nd\<rparr>"]) (simp add: same_rest_def del: fun_upd_apply)
  next
    case False
    then have "h_next_sibling n \<noteq> 0" using n(4) c(1) by (cases cs) auto
    then have step: "unlink_sibling s c p = unlink_sibling s c (h_next_sibling n)"
      using n False by (subst unlink_sibling.simps) simp
    obtain s' where s': "unlink_sibling s c (h_next_sibling n) = Some s'"
      "siblings (nodes s') (h_next_sibling n) (remove1 c cs)" "same_core (nodes s) (nodes s') UNIV"
      "same_rest s s'" "\<forall>y. y \<notin> set cs \<longrightarrow> nodes s' y = nodes s y"
      "\<forall>y. map_option hier_links (nodes s' y) = map_option hier_links (nodes s y)"
      using Cons.IH [OF n(4)] Cons.prems(2) c(1) False by auto
    have "nodes s' p = Some n" using s'(5) Cons.prems(2) n by auto
    then have "siblings (nodes s') p (remove1 c (a # cs))" using s'(2) n(2,3) Cons.prems(4) by simp
    then show ?thesis using step s'(1,3-6) by (intro exI [of _ s']) simp
  qed
qed simp


lemma remove_child_ok:
  assumes "nodes s c = Some n" "h_parent n \<noteq> 0" "nodes s (h_parent n) = Some q" "c \<noteq> 0"
    and "siblings (nodes s) (h_children q) cs" "distinct cs" "c \<in> set cs" "h_parent n \<notin> set cs"
  shows "\<exists>s' q'. remove_child_from_h s c = Some s' \<and> same_core (nodes s) (nodes s') UNIV \<and> same_rest s s'
    \<and> nodes s' (h_parent n) = Some q' \<and> siblings (nodes s') (h_children q') (remove1 c cs)"
proof (cases "h_children q = c")
  case True
  let ?nd = "(nodes s)(h_parent n \<mapsto> q\<lparr>h_children := h_next_sibling n\<rparr>)"
  obtain cs' where cs: "cs = c # cs'" using assms(5,7) True by (cases cs) auto
  have "siblings (nodes s) (h_next_sibling n) cs'" using assms(1,5) cs by auto
  then have "siblings ?nd (h_next_sibling n) cs'"
    by (rule siblings_cong) (use assms(8) cs in auto)
  moreover have "remove_child_from_h s c = Some (s\<lparr>nodes := ?nd\<rparr>)"
    using assms True by (simp add: remove_child_from_h_def upd_node_def Let_def)
  moreover have "same_core (nodes s) ?nd UNIV" using assms(3) by (simp add: core_def)
  ultimately show ?thesis using cs
    by (intro exI [of _ "s\<lparr>nodes := ?nd\<rparr>"] exI [of _ "q\<lparr>h_children := h_next_sibling n\<rparr>"])
      (simp add: same_rest_def del: fun_upd_apply, simp)
next
  case False
  then have "c \<noteq> h_children q" "h_children q \<noteq> 0" using assms(5,7) by (cases cs; auto)+
  then obtain s' where s': "unlink_sibling s c (h_children q) = Some s'"
    "siblings (nodes s') (h_children q) (remove1 c cs)" "same_core (nodes s) (nodes s') UNIV" "same_rest s s'"
    "map_option hier_links (nodes s' (h_parent n)) = map_option hier_links (nodes s (h_parent n))"
    using unlink_sibling_ok [OF assms(5,6,7)] by blast
  moreover obtain q' where "nodes s' (h_parent n) = Some q'" "h_children q' = h_children q"
    using s'(5) assms(3) by (auto simp: hier_links_def)
  ultimately show ?thesis
    using assms(1-4) False \<open>h_children q \<noteq> 0\<close> by (simp add: remove_child_from_h_def Let_def)
qed

text \<open>Whatever the child lists look like, taking a child out of them keeps the search tree.\<close>

lemma upd_next_core:
  "upd_node s p (\<lambda>n. n\<lparr>h_next_sibling := q\<rparr>) = Some s' \<Longrightarrow> same_core (nodes s) (nodes s') UNIV \<and> same_rest s s'"
  by (auto simp: upd_node_def same_rest_def core_def)

lemma unlink_sibling_core:
  "unlink_sibling s c p = Some s' \<Longrightarrow> same_core (nodes s) (nodes s') UNIV \<and> same_rest s s'"
proof (rule unlink_sibling.raw_induct [where P = "\<lambda>s c p s'. same_core (nodes s) (nodes s') UNIV \<and> same_rest s s'"])
  fix g and s s' :: "'a h_heap" and c p
  assume ih: "\<And>s c p s'. g s c p = Some s' \<Longrightarrow> same_core (nodes s) (nodes s') UNIV \<and> same_rest s s'"
    and run: "nodes s p \<bind> (\<lambda>it. if h_next_sibling it \<noteq> c \<and> h_next_sibling it \<noteq> 0 then g s c (h_next_sibling it)
      else nodes s c \<bind> (\<lambda>ch. upd_node s p (\<lambda>n. n\<lparr>h_next_sibling := h_next_sibling ch\<rparr>))) = Some s'"
  from run show "same_core (nodes s) (nodes s') UNIV \<and> same_rest s s'"
    by (auto split: if_splits dest!: ih upd_next_core)
qed

lemma remove_child_core:
  assumes "remove_child_from_h s c = Some s'"
  shows "same_core (nodes s) (nodes s') UNIV \<and> brk s' = brk s \<and> destroyed s' = destroyed s"
  using assms
  by (auto simp: remove_child_from_h_def Let_def core_def same_rest_def upd_node_def split: if_splits
      dest!: unlink_sibling_core)

section \<open>Deleting the root of a tree\<close>

text \<open>
  The cases in which \<open>delete_root\<close> works: a child is missing, or the right child has no left
  child. The result is the tree without its root.
\<close>

fun del_root :: "ptr tree \<Rightarrow> ptr tree option" where
  "del_root (Node Leaf x r) = Some r"
| "del_root (Node l x Leaf) = Some l"
| "del_root (Node l x (Node Leaf y r)) = Some (Node l y r)"
| "del_root t = None"

lemma del_root_set: "del_root (Node l x r) = Some t \<Longrightarrow> set_tree t = set_tree l \<union> set_tree r"
  by (induction "Node l x r" rule: del_root.induct) auto

lemma delete_root_ok:
  assumes "rep (nodes s) p (Node l x r)" "distinct (inorder (Node l x r))" "del_root (Node l x r) = Some t"
  shows "\<exists>q s'. delete_root s p = Some (q, s') \<and> rep (nodes s') q t
    \<and> destroyed s' = datum (nodes s) x # destroyed s \<and> nodes s' x = None
    \<and> (\<forall>y. y \<noteq> x \<longrightarrow> map_option data (nodes s' y) = map_option data (nodes s y))
    \<and> same_core (nodes s) (nodes s') (- set_tree (Node l x r))
    \<and> brk s' = brk s \<and> tree_errno s' = tree_errno s"
proof -
  obtain n e where n: "nodes s x = Some n" "p = x" "x \<noteq> 0" "data n = Some e"
    "rep (nodes s) (nleft n) l" "rep (nodes s) (nright n) r" using assms(1) by auto
  have e: "datum (nodes s) x = e" using n by (simp add: datum_def)
  have dis: "x \<notin> set_tree l" "x \<notin> set_tree r" "set_tree l \<inter> set_tree r = {}"
    using assms(2) by auto
  let ?s1 = "s\<lparr>destroyed := e # destroyed s\<rparr>"
  consider "l = Leaf \<or> r = Leaf" | y r' where "l \<noteq> Leaf" "r = Node Leaf y r'" "t = Node l y r'"
    using assms(3) by (induction "Node l x r" rule: del_root.induct) auto
  then show ?thesis
  proof cases
    case 1
    let ?s2 = "?s1\<lparr>nodes := (nodes s)(x := None)\<rparr>" and ?q = "if nleft n = 0 then nright n else nleft n"
    have z: "(nleft n = 0) = (l = Leaf)" "(nright n = 0) = (r = Leaf)"
      using rep_null [OF n(5)] rep_null [OF n(6)] by simp_all
    then have "delete_root s p = Some (?q, ?s2)"
      using n 1 by (subst delete_root.simps) (auto simp: data_destroy_def free_node_def)
    moreover
    have t: "t = (if l = Leaf then r else l)"
      using assms(3) 1 by (induction "Node l x r" rule: del_root.induct) auto
    have q: "rep (nodes s) ?q t" unfolding t z(1) using n(5,6) by simp
    have "\<forall>z \<in> set_tree t. z \<noteq> x" using dis(1,2) del_root_set [OF assms(3)] by auto
    then have "rep (nodes ?s2) ?q t" by (intro rep_cong [OF q]) simp
    ultimately show ?thesis using e by (intro exI [of _ ?q] exI [of _ ?s2]) simp
  next
    case 2
    obtain m where m: "nodes s y = Some m" "nright n = y" "y \<noteq> 0" "data m \<noteq> None" "nleft m = 0"
      "rep (nodes s) (nright m) r'" using n(6) 2(2) by auto
    have dy: "y \<noteq> x" "y \<notin> set_tree l" "y \<notin> set_tree r'" using assms(2) 2(2) by auto
    have l0: "nleft n \<noteq> 0" using rep_null [OF n(5)] 2(1) by simp
    let ?m = "m\<lparr>nleft := nleft n\<rparr>"
    let ?s2 = "?s1\<lparr>nodes := (nodes s)(y \<mapsto> ?m)\<rparr>"
    have l2: "rep (nodes ?s2) (nleft ?m) l" using dy(2) by (auto intro: rep_cong [OF n(5)])
    have r2: "rep (nodes ?s2) (nright ?m) r'" using dy(3) by (auto intro: rep_cong [OF m(6)])
    have n2: "nodes ?s2 y = Some ?m" "data ?m \<noteq> None" using m(4) by simp_all
    note u = update_size_ok [OF n2(1) l2 r2 m(3) dy(2,3) n2(2)]
    let ?s4 = "?s1\<lparr>nodes := ((nodes s)(y \<mapsto> ?m\<lparr>nsize := int (size (Node l y r'))\<rparr>))(x := None)\<rparr>"
    have "delete_root s p = Some (y, ?s4)"
      using n m l0 dy(1) u(1)
      by (subst delete_root.simps) (simp add: data_destroy_def free_node_def upd_node_def)
    moreover have "rep (nodes ?s4) y t"
      unfolding 2(3) by (rule rep_cong [OF u(2)]) (use dis 2(2) dy in auto)
    ultimately show ?thesis using e 2(2) m(1) by (intro exI [of _ y] exI [of _ ?s4]) auto
  qed
qed


text \<open>
  When the right child has a left child, the root takes the place of the leftmost node and is
  deleted there by a second call, which destroys its data again.
\<close>

lemma delete_root_again:
  assumes "nodes s x = Some n" "nleft n = 0 \<or> nright n = 0" "data n = Some e"
  shows "delete_root s x = Some (if nleft n = 0 then nright n else nleft n,
    s\<lparr>nodes := (nodes s)(x := None), destroyed := e # destroyed s\<rparr>)"
  using assms by (subst delete_root.simps) (auto simp: data_destroy_def free_node_def)

lemma rep_left_node:
  "rep nd p (Node (Node l y r) x t) \<Longrightarrow> \<exists>n m. nd x = Some n \<and> nleft n = y \<and> nd y = Some m \<and> y \<noteq> 0 \<and> data n \<noteq> None
    \<and> data m \<noteq> None \<and> rep nd y (Node l y r) \<and> rep nd (nleft m) l \<and> rep nd (nright m) r \<and> rep nd (nright n) t"
  by auto

lemma delete_root_twice:
  assumes "rep (nodes s) p (Node l x (Node (Node Leaf m mr) y yr))" "l \<noteq> Leaf"
    and "distinct (inorder (Node l x (Node (Node Leaf m mr) y yr)))"
  shows "\<exists>s'. delete_root s p = Some (m, s')
    \<and> destroyed s' = datum (nodes s) x # datum (nodes s) x # destroyed s"
proof -
  let ?R = "Node (Node Leaf m mr) y yr"
  obtain n e where n: "nodes s x = Some n" "p = x" "x \<noteq> 0" "data n = Some e" "rep (nodes s) (nleft n) l"
    "rep (nodes s) (nright n) ?R" using assms(1) by (auto simp del: rep.simps(2) simp: rep.simps(2) [of _ p])
  have e: "datum (nodes s) x = e" using n by (simp add: datum_def)
  obtain yn mn where yn: "nodes s y = Some yn" "nleft yn = m" "nright n = y" "y \<noteq> 0" and mn: "nodes s m = Some mn" "nleft mn = 0" "m \<noteq> 0"
    "rep (nodes s) (nright mn) mr" "rep (nodes s) (nright yn) yr"
    using n(6) by auto
  have l0: "nleft n \<noteq> 0" using rep_null [OF n(5)] assms(2) by simp
  have ne: "x \<noteq> y" "x \<noteq> m" "y \<noteq> m" "x \<notin> set_tree l" "x \<notin> set_tree mr" "x \<notin> set_tree yr" "m \<notin> set_tree l"
    "y \<notin> set_tree l" "y \<notin> set_tree mr" "m \<notin> set_tree mr"
    using assms(3) by auto
  have sl: "h_tree_size t (nleft n) = Some (int (size l))"
    if "\<forall>z. z \<noteq> x \<and> z \<noteq> y \<and> z \<noteq> m \<longrightarrow> nodes t z = nodes s z" for t :: "'a h_heap"
    using rep_size [OF rep_cong [OF n(5), of "nodes t"]] ne that by metis
  have smr: "h_tree_size t (nright mn) = Some (int (size mr))"
    if "\<forall>z. z \<noteq> x \<and> z \<noteq> y \<and> z \<noteq> m \<longrightarrow> nodes t z = nodes s z" for t :: "'a h_heap"
    using rep_size [OF rep_cong [OF mn(4), of "nodes t"]] ne that by metis
  show ?thesis
    using n(1-4) yn mn l0 ne e
    by (subst delete_root.simps)
      (simp add: data_destroy_def upd_node_def descend.simps swap_nodes_def update_size_def sl smr delete_root_again
        fun_upd_twist h_tree_size_def [of _ 0] h_tree_size_def [of _ y])
qed

text \<open>
  Two levels further down the descent has lost the parent of the leftmost node: the left subtree
  of the deleted root is dropped and the tree gets a cycle.
\<close>

lemma delete_root_deep:
  assumes "rep (nodes s) p (Node l x (Node (Node (Node Leaf m mr) z zr) y yr))" "l \<noteq> Leaf"
    and "distinct (inorder (Node l x (Node (Node (Node Leaf m mr) z zr) y yr)))"
  shows "\<exists>s' mn' zn'. delete_root s p = Some (m, s') \<and> nodes s' m = Some mn' \<and> nright mn' = y
    \<and> rep (nodes s') (nleft mn') mr \<and> nodes s' z = Some zn' \<and> nleft zn' = m
    \<and> (\<forall>v. v \<noteq> x \<longrightarrow> map_option data (nodes s' v) = map_option data (nodes s v))"
proof -
  let ?R = "Node (Node (Node Leaf m mr) z zr) y yr"
  obtain n e where n: "nodes s x = Some n" "p = x" "x \<noteq> 0" "data n = Some e" "rep (nodes s) (nleft n) l"
    "rep (nodes s) (nright n) ?R" using assms(1) by (auto simp del: rep.simps(2) simp: rep.simps(2) [of _ p])
  obtain yn zn mn where yn: "nodes s y = Some yn" "nleft yn = z" "nright n = y" "y \<noteq> 0"
    and zn: "nodes s z = Some zn" "nleft zn = m" "z \<noteq> 0"
    and mn: "nodes s m = Some mn" "nleft mn = 0" "m \<noteq> 0" "rep (nodes s) (nright mn) mr"
    using n(6) by auto
  have l0: "nleft n \<noteq> 0" using rep_null [OF n(5)] assms(2) by simp
  have ne: "x \<noteq> y" "x \<noteq> m" "y \<noteq> m" "z \<noteq> x" "z \<noteq> y" "z \<noteq> m"
    and nl: "x \<notin> set_tree l" "y \<notin> set_tree l" "z \<notin> set_tree l" "m \<notin> set_tree l"
    and nr: "x \<notin> set_tree mr" "y \<notin> set_tree mr" "z \<notin> set_tree mr" "m \<notin> set_tree mr"
    using assms(3) by auto
  have sl: "h_tree_size t (nleft n) = Some (int (size l))"
    if "\<forall>v. v \<noteq> x \<and> v \<noteq> y \<and> v \<noteq> z \<and> v \<noteq> m \<longrightarrow> nodes t v = nodes s v" for t :: "'a h_heap"
    using rep_size [OF rep_cong [OF n(5), of "nodes t"]] nl that by metis
  have rmr: "rep nd (nright mn) mr"
    if "\<forall>v. v \<noteq> x \<and> v \<noteq> y \<and> v \<noteq> z \<and> v \<noteq> m \<longrightarrow> nd v = nodes s v" for nd
    using rep_cong [OF mn(4), of nd] nr that by metis
  have smr: "h_tree_size t (nright mn) = Some (int (size mr))"
    if "\<forall>v. v \<noteq> x \<and> v \<noteq> y \<and> v \<noteq> z \<and> v \<noteq> m \<longrightarrow> nodes t v = nodes s v" for t :: "'a h_heap"
    by (rule rep_size [OF rmr [OF that]])
  show ?thesis
    using n(1-4) yn zn mn(1-3) l0 ne
    by (subst delete_root.simps)
      (simp add: data_destroy_def upd_node_def descend.simps swap_nodes_def update_size_def sl smr delete_root_again
        fun_upd_twist h_tree_size_def [of _ 0] h_tree_size_def [of _ y] rmr)
qed

section \<open>Deleting by key\<close>

fun del :: "(ptr \<Rightarrow> 'a::linorder) \<Rightarrow> 'a \<Rightarrow> ptr tree \<Rightarrow> ptr tree option" where
  "del f k Leaf = Some Leaf"
| "del f k (Node l x r) =
     (if f x = k then del_root (Node l x r)
      else if f x < k then map_option (\<lambda>r'. Node l x r') (del f k r)
      else map_option (\<lambda>l'. Node l' x r) (del f k l))"

lemma set_tree_del:
  "del f k t = Some t' \<Longrightarrow> bst_wrt (\<lambda>x y. f x < f y) t \<Longrightarrow> set_tree t' = {x \<in> set_tree t. f x \<noteq> k}"
proof (induction t arbitrary: t')
  case (Node l x r)
  consider "f x = k" | "f x < k" | "k < f x" by fastforce
  then show ?case
  proof cases
    case 1
    then have "set_tree t' = set_tree l \<union> set_tree r" using Node.prems(1) del_root_set by fastforce
    then show ?thesis using Node.prems(2) 1 by force
  next
    case 2
    then obtain r' where "del f k r = Some r'" "t' = Node l x r'" using Node.prems(1) by (auto split: if_splits)
    then show ?thesis using Node.IH(2) [of r'] Node.prems(2) 2 by force
  next
    case 3
    then obtain l' where "del f k l = Some l'" "t' = Node l' x r" using Node.prems(1) by (auto split: if_splits)
    then show ?thesis using Node.IH(1) [of l'] Node.prems(2) 3 by force
  qed
qed simp

lemma bst_distinct: "bst_wrt (\<lambda>x y. (f x :: 'a::linorder) < f y) t \<Longrightarrow> distinct (inorder t)"
  by (induction t) force+

text \<open>What a deletion leaves of the heap: \<open>s\<close> before, \<open>s'\<close> after, the nodes of key \<open>k\<close> gone.\<close>

definition deleted :: "'d h_heap \<Rightarrow> 'd h_heap \<Rightarrow> ptr tree \<Rightarrow> ptr tree \<Rightarrow> bool" where
  "deleted s s' t t' \<longleftrightarrow> same_core (nodes s) (nodes s') (- set_tree t)
     \<and> (\<forall>y \<in> - set_tree t \<union> set_tree t'. map_option data (nodes s' y) = map_option data (nodes s y))
     \<and> (\<forall>y \<in> set_tree t - set_tree t'. nodes s' y = None)
     \<and> brk s' = brk s"


lemma rep_subst:
  "rep (nodes s) p t \<Longrightarrow> same_core (nodes s) nd UNIV \<Longrightarrow> rep nd p t"
  by (erule rep_cong) simp

lemma core_data: "map_option core a = map_option core b \<Longrightarrow> map_option data a = map_option data b"
  by (cases a; cases b) (auto simp: core_def)

lemma datum_cong: "map_option data (nd' y) = map_option data (nd y) \<Longrightarrow> nd y \<noteq> None \<Longrightarrow> datum nd' y = datum nd y"
  by (auto simp: datum_def)

text \<open>The root of a subtree after a deletion in one of its children.\<close>

lemma rebuild_deleted:
  assumes d: "deleted s s1 u u'" and n1: "nodes s1 x = Some n1" and dat: "data n' = data n1" "data n1 \<noteq> None"
    and x: "x \<noteq> 0" "x \<notin> set_tree l'" "x \<notin> set_tree r'" "x \<notin> set_tree u"
    and kids: "rep (nodes s1) (nleft n') l'" "rep (nodes s1) (nright n') r'"
    and sets: "set_tree u \<union> {x} \<subseteq> set_tree t" "set_tree t - set_tree (Node l' x r') = set_tree u - set_tree u'"
  shows "\<exists>s3. update_size (s1\<lparr>nodes := (nodes s1)(x \<mapsto> n')\<rparr>) x = Some s3 \<and> rep (nodes s3) x (Node l' x r')
    \<and> deleted s s3 t (Node l' x r') \<and> destroyed s3 = destroyed s1"
proof -
  let ?s2 = "s1\<lparr>nodes := (nodes s1)(x \<mapsto> n')\<rparr>"
  let ?s3 = "?s2\<lparr>nodes := (nodes ?s2)(x \<mapsto> n'\<lparr>nsize := int (size (Node l' x r'))\<rparr>)\<rparr>"
  have l2: "rep (nodes ?s2) (nleft n') l'" by (rule rep_cong [OF kids(1)]) (use x in auto)
  have r2: "rep (nodes ?s2) (nright n') r'" by (rule rep_cong [OF kids(2)]) (use x in auto)
  have n2: "nodes ?s2 x = Some n'" "data n' \<noteq> None" using dat by simp_all
  note us = update_size_ok [OF n2(1) l2 r2 x(1,2,3) n2(2)]
  have dx: "map_option data (nodes s1 x) = map_option data (nodes s x)"
    using d x(4) by (auto simp: deleted_def)
  have other: "map_option data (nodes s1 y) = map_option data (nodes s y)"
    if "y \<in> - set_tree t \<union> set_tree (Node l' x r')" for y
  proof -
    have "y \<in> - set_tree u \<union> set_tree u'" using that sets by blast
    then show ?thesis using d by (simp add: deleted_def)
  qed
  have "deleted s ?s3 t (Node l' x r')"
    unfolding deleted_def
  proof (intro conjI ballI)
    fix y assume "y \<in> - set_tree t"
    then show "map_option core (nodes ?s3 y) = map_option core (nodes s y)"
      using d sets(1) by (auto simp: deleted_def)
  next
    fix y assume y: "y \<in> - set_tree t \<union> set_tree (Node l' x r')"
    show "map_option data (nodes ?s3 y) = map_option data (nodes s y)"
      using other [OF y] dx dat n1 by (cases "y = x") auto
  next
    fix y assume y: "y \<in> set_tree t - set_tree (Node l' x r')"
    then show "nodes ?s3 y = None" using d sets(2) by (auto simp: deleted_def)
  qed (use d in \<open>simp_all add: deleted_def\<close>)
  then show ?thesis using us by (intro exI [of _ ?s3]) simp
qed

context tree_order
begin

lemma ordered_distinct: "ordered nd t \<Longrightarrow> distinct (inorder t)"
  unfolding ordered_def by (rule bst_distinct [where f = "\<lambda>x. key (datum nd x)"]) simp

lemma ordered_cong:
  "ordered nd t \<Longrightarrow> (\<And>u. u \<in> set_tree t \<Longrightarrow> datum nd' u = datum nd u) \<Longrightarrow> ordered nd' t"
proof (induction t)
  case (Node l x r)
  then show ?case by (auto simp: ordered_Node)
qed (simp add: ordered_def)

lemma delete_ok:
  assumes "rep (nodes s) p t" "ordered (nodes s) t"
  defines "f \<equiv> \<lambda>x. key (datum (nodes s) x)"
  assumes "del f k t = Some t'" and kK: "k \<in> K"
    and "\<And>x. x \<in> set_tree t \<Longrightarrow> f x = k \<Longrightarrow> remove_child_from_h s x \<noteq> None"
  shows "\<exists>q s'. h_tree_delete cmp_key s p (Some k) = Some (q, s') \<and> rep (nodes s') q t' \<and> deleted s s' t t'
    \<and> (if \<exists>x \<in> set_tree t. f x = k then \<exists>x \<in> set_tree t. f x = k \<and> destroyed s' = datum (nodes s) x # destroyed s
       else destroyed s' = destroyed s)"
  using assms(1,2,4,6)
proof (induction t arbitrary: p t')
  case Leaf
  then show ?case by (simp add: h_tree_delete.simps deleted_def)
next
  case (Node l x r)
  obtain n e where n: "nodes s x = Some n" "p = x" "x \<noteq> 0" "data n = Some e"
    "rep (nodes s) (nleft n) l" "rep (nodes s) (nright n) r" using Node.prems(1) by auto
  have e: "datum (nodes s) x = e" "e \<in> D" using n Node.prems(2) by (auto simp: ordered_Node datum_def)
  obtain c where c: "cmp_key e k = Some c" "0 < c \<longleftrightarrow> k < key e" "c < 0 \<longleftrightarrow> key e < k"
    using cmp_key_defined [OF e(2) kK] by blast
  note ord = Node.prems(2) [unfolded ordered_Node]
  have dis: "x \<notin> set_tree l" "x \<notin> set_tree r" "set_tree l \<inter> set_tree r = {}"
    using ordered_disjoint [OF Node.prems(2)] by auto
  have fx: "f x = key e" by (simp add: f_def e)
  consider "key e = k" | "key e < k" | "k < key e" by fastforce
  then show ?case
  proof cases
    case 1
    then have dr: "del_root (Node l x r) = Some t'" using Node.prems(3) fx by simp
    obtain s1 where s1: "remove_child_from_h s x = Some s1" using Node.prems(4) [of x] 1 fx by auto
    then have s1': "same_core (nodes s) (nodes s1) UNIV" "brk s1 = brk s" "destroyed s1 = destroyed s"
      using remove_child_core by blast+
    obtain q s' where dd: "delete_root s1 p = Some (q, s')" "rep (nodes s') q t'"
      "destroyed s' = datum (nodes s1) x # destroyed s1" "nodes s' x = None"
      "\<forall>y. y \<noteq> x \<longrightarrow> map_option data (nodes s' y) = map_option data (nodes s1 y)"
      "same_core (nodes s1) (nodes s') (- set_tree (Node l x r))" "brk s' = brk s1" "tree_errno s' = tree_errno s1"
      using delete_root_ok [OF rep_subst [OF Node.prems(1) s1'(1)] ordered_distinct [OF Node.prems(2)] dr] by blast
    have "h_tree_delete cmp_key s p (Some k) = Some (q, s')"
      using n c 1 s1 dd(1) by (subst h_tree_delete.simps) simp
    moreover have same: "map_option data (nodes s1 y) = map_option data (nodes s y)" for y
      using s1'(1) core_data by blast
    then have "datum (nodes s1) x = e" using datum_cong [of "nodes s1" x "nodes s"] same [of x] n e by simp
    moreover have t': "set_tree t' = set_tree l \<union> set_tree r" by (rule del_root_set [OF dr])
    moreover have "deleted s s' (Node l x r) t'"
    proof -
      have "\<forall>y \<in> set_tree l \<union> set_tree r. y \<noteq> x" using dis(1,2) by auto
      then show ?thesis using dd(4-7) s1' same t' by (auto simp: deleted_def)
    qed
    ultimately show ?thesis using dd(2,3) s1'(3) 1 fx e by auto
  next
    case 2
    then obtain r' where r': "del f k r = Some r'" "t' = Node l x r'" using Node.prems(3) fx by (auto split: if_splits)
    obtain q s1 where ih: "h_tree_delete cmp_key s (nright n) (Some k) = Some (q, s1)" "rep (nodes s1) q r'"
      "deleted s s1 r r'"
      "if \<exists>x \<in> set_tree r. f x = k then \<exists>x \<in> set_tree r. f x = k \<and> destroyed s1 = datum (nodes s) x # destroyed s
       else destroyed s1 = destroyed s"
      using Node.IH(2) [OF n(6) _ r'(1)] Node.prems(4) ord by auto
    have here: "(\<exists>y \<in> set_tree (Node l x r). f y = k) = (\<exists>y \<in> set_tree r. f y = k)"
      using ord 2 e by (force simp: f_def)
    have sub: "set_tree r' \<subseteq> set_tree r"
      using set_tree_del [OF r'(1)] ord by (auto simp: ordered_def f_def)
    have "map_option core (nodes s1 x) = map_option core (nodes s x)" using ih(3) dis(2) by (simp add: deleted_def)
    then obtain n1 where n1: "nodes s1 x = Some n1" "core n1 = core n" using n(1) by auto
    have l1: "rep (nodes s1) (nleft n) l"
      by (rule rep_cong [OF n(5)]) (use ih(3) dis(3) in \<open>auto simp: deleted_def\<close>)
    have "\<exists>s3. update_size (s1\<lparr>nodes := (nodes s1)(x \<mapsto> n1\<lparr>nright := q\<rparr>)\<rparr>) x = Some s3 \<and> rep (nodes s3) x (Node l x r')
      \<and> deleted s s3 (Node l x r) (Node l x r') \<and> destroyed s3 = destroyed s1"
      by (rule rebuild_deleted [OF ih(3) n1(1)])
        (use n1(2) n(3,4) dis sub l1 ih(2) in \<open>auto simp: core_def\<close>)
    then obtain s3 where "update_size (s1\<lparr>nodes := (nodes s1)(x \<mapsto> n1\<lparr>nright := q\<rparr>)\<rparr>) x = Some s3"
      "rep (nodes s3) x t'" "deleted s s3 (Node l x r) t'" "destroyed s3 = destroyed s1"
      using r'(2) by blast
    moreover from this(1) have "h_tree_delete cmp_key s p (Some k) = Some (x, s3)"
      using n c 2 ih(1) n1(1) by (subst h_tree_delete.simps) (simp add: upd_node_def)
    ultimately show ?thesis using ih(4) here by (auto split: if_splits)
  next
    case 3
    then obtain l' where l': "del f k l = Some l'" "t' = Node l' x r" using Node.prems(3) fx by (auto split: if_splits)
    obtain q s1 where ih: "h_tree_delete cmp_key s (nleft n) (Some k) = Some (q, s1)" "rep (nodes s1) q l'"
      "deleted s s1 l l'"
      "if \<exists>x \<in> set_tree l. f x = k then \<exists>x \<in> set_tree l. f x = k \<and> destroyed s1 = datum (nodes s) x # destroyed s
       else destroyed s1 = destroyed s"
      using Node.IH(1) [OF n(5) _ l'(1)] Node.prems(4) ord by auto
    have here: "(\<exists>y \<in> set_tree (Node l x r). f y = k) = (\<exists>y \<in> set_tree l. f y = k)"
      using ord 3 e by (force simp: f_def)
    have sub: "set_tree l' \<subseteq> set_tree l"
      using set_tree_del [OF l'(1)] ord by (auto simp: ordered_def f_def)
    have "map_option core (nodes s1 x) = map_option core (nodes s x)" using ih(3) dis(1) by (simp add: deleted_def)
    then obtain n1 where n1: "nodes s1 x = Some n1" "core n1 = core n" using n(1) by auto
    have r1: "rep (nodes s1) (nright n) r"
      by (rule rep_cong [OF n(6)]) (use ih(3) dis(3) in \<open>auto simp: deleted_def\<close>)
    have "\<exists>s3. update_size (s1\<lparr>nodes := (nodes s1)(x \<mapsto> n1\<lparr>nleft := q\<rparr>)\<rparr>) x = Some s3 \<and> rep (nodes s3) x (Node l' x r)
      \<and> deleted s s3 (Node l x r) (Node l' x r) \<and> destroyed s3 = destroyed s1"
      by (rule rebuild_deleted [OF ih(3) n1(1)])
        (use n1(2) n(3,4) dis sub r1 ih(2) in \<open>auto simp: core_def\<close>)
    then obtain s3 where "update_size (s1\<lparr>nodes := (nodes s1)(x \<mapsto> n1\<lparr>nleft := q\<rparr>)\<rparr>) x = Some s3"
      "rep (nodes s3) x t'" "deleted s s3 (Node l x r) t'" "destroyed s3 = destroyed s1"
      using l'(2) by blast
    moreover from this(1) have "h_tree_delete cmp_key s p (Some k) = Some (x, s3)"
      using n c 3 ih(1) n1(1) by (subst h_tree_delete.simps) (simp add: upd_node_def)
    ultimately show ?thesis using ih(4) here by (auto split: if_splits)
  qed
qed

text \<open>The keys of the left subtree that \<open>delete_root\<close> drops are not found any more.\<close>

lemma delete_root_loses:
  assumes "rep (nodes s) p (Node l x (Node (Node (Node Leaf m mr) z zr) y yr))"
    and "ordered (nodes s) (Node l x (Node (Node (Node Leaf m mr) z zr) y yr))" and "v \<in> set_tree l"
    and kK: "key (datum (nodes s) v) \<in> K"
  shows "\<exists>q s'. delete_root s p = Some (q, s')
    \<and> h_tree_search cmp_key s' q (Some (key (datum (nodes s) v))) = Some (0, s')"
proof -
  let ?t = "Node l x (Node (Node (Node Leaf m mr) z zr) y yr)" and ?k = "key (datum (nodes s) v)"
  have dist: "distinct (inorder ?t)" by (rule ordered_distinct [OF assms(2)])
  have "l \<noteq> Leaf" using assms(3) by auto
  then obtain s' mn zn where s': "delete_root s p = Some (m, s')" "nodes s' m = Some mn" "rep (nodes s') (nleft mn) mr"
    "\<forall>v. v \<noteq> x \<longrightarrow> map_option data (nodes s' v) = map_option data (nodes s v)"
    using delete_root_deep [OF assms(1) _ dist] by blast
  have same: "datum (nodes s') u = datum (nodes s) u" if "u \<in> set_tree mr \<union> {m}" for u
  proof (rule datum_cong)
    have "u \<in> set_tree ?t" "u \<noteq> x" using that dist by auto
    then show "map_option data (nodes s' u) = map_option data (nodes s u)" "nodes s u \<noteq> None"
      using s'(4) rep_nodes [OF assms(1), of u] by auto
  qed
  have ord: "ordered (nodes s) mr" "datum (nodes s) m \<in> D" "?k < key (datum (nodes s) m)"
    "\<forall>u \<in> set_tree mr. ?k < key (datum (nodes s) u)"
    using assms(2,3) by (auto simp: ordered_Node intro: less_trans)
  have ord': "ordered (nodes s') mr" by (rule ordered_cong [OF ord(1)]) (use same in blast)
  obtain d where d: "data mn = Some d" "datum (nodes s) m = d"
  proof -
    obtain n d where nd: "nodes s m = Some n" "data n = Some d" using rep_nodes [OF assms(1), of m] by auto
    have "m \<noteq> x" using dist by auto
    then have "map_option data (nodes s' m) = map_option data (nodes s m)" using s'(4) by blast
    then show thesis using that nd s'(2) by (simp add: datum_def)
  qed
  obtain c where c: "cmp_key d ?k = Some c" "0 < c" using cmp_key_defined [of d ?k] ord(2,3) d(2) kK by auto
  have "m \<noteq> 0" using rep_nodes [OF assms(1), of m] by auto
  then have "h_tree_search cmp_key s' m (Some ?k) = h_tree_search cmp_key s' (nleft mn) (Some ?k)"
    using s'(2) d(1) c by (subst h_tree_search.simps) simp
  moreover have "\<not> (\<exists>u \<in> set_tree mr. key (datum (nodes s') u) = ?k)" using ord(4) same by force
  then have "h_tree_search cmp_key s' (nleft mn) (Some ?k) = Some (0, s')"
    using search_ok [OF s'(3) ord' kK] by auto
  ultimately show ?thesis using s'(1) by auto
qed

end

end
