(* ===== verification/Fs_Tree.thy ===== *)
theory Fs_Tree
  imports Fat_Dir H_Tree "HOL-Library.List_Lexorder"
begin

unbundle bit_operations_syntax

text \<open>
  \<open>Lab4/fat-fuse/fat_fs_tree.c\<close>: the directory tree, a search tree of file pointers ordered by
  path.

  The state of a mounted volume adds to the volume the heap of \<open>struct fat_file_s\<close> objects, the
  heap of tree nodes and the pointer \<open>vol->file_tree\<close>: \<open>None\<close> when it is \<open>NULL\<close>, else \<open>Some\<close> of
  the root node its struct holds. The C program has one \<open>errno\<close>; the field \<open>err\<close> is that one, and
  the calls into the node heap carry it in and out.
\<close>

section \<open>The mounted volume\<close>

record fat_fs = fat_vol +
  files :: "ptr \<Rightarrow> fat_file option"
  next_file :: ptr
  node_heap :: "ptr h_heap"
  file_tree :: "ptr option"

definition enter_heap :: "'a fat_fs_scheme \<Rightarrow> ptr h_heap" where
  "enter_heap s = (node_heap s)\<lparr>tree_errno := err s, destroyed := []\<rparr>"

text \<open>The calls of \<open>fat_file_destroy\<close> made meanwhile free file objects, each at most once.\<close>

primrec free_files :: "(ptr \<Rightarrow> fat_file option) \<Rightarrow> ptr list \<Rightarrow> (ptr \<Rightarrow> fat_file option) option" where
  "free_files fs [] = Some fs"
| "free_files fs (p # ps) = do { fs1 \<leftarrow> free_files fs ps; _ \<leftarrow> fs1 p; Some (fs1(p := None)) }"

definition leave_heap :: "'a fat_fs_scheme \<Rightarrow> ptr h_heap \<Rightarrow> 'a fat_fs_scheme option" where
  "leave_heap s h = do {
     fs \<leftarrow> free_files (files s) (destroyed h);
     Some (s\<lparr>files := fs, node_heap := h\<lparr>destroyed := []\<rparr>, err := tree_errno h\<rparr>) }"

definition file_cmp :: "(ptr \<Rightarrow> fat_file option) \<Rightarrow> ptr \<Rightarrow> ptr \<Rightarrow> int option" where
  "file_cmp fs p q = do { f \<leftarrow> fs p; g \<leftarrow> fs q; Some (fat_file_cmp f g) }"

definition file_cmp_key :: "(ptr \<Rightarrow> fat_file option) \<Rightarrow> ptr \<Rightarrow> bytes \<Rightarrow> int option" where
  "file_cmp_key fs p key = do { f \<leftarrow> fs p; Some (fat_file_cmp_path f key) }"

section \<open>Operations\<close>

definition fat_tree_init :: "'a fat_fs_scheme \<Rightarrow> 'a fat_fs_scheme" where
  "fat_tree_init s = s\<lparr>file_tree := Some 0\<rparr>"

definition fat_tree_destroy :: "'a fat_fs_scheme \<Rightarrow> 'a fat_fs_scheme option" where
  "fat_tree_destroy s = (case file_tree s of
      None \<Rightarrow> Some s
    | Some root \<Rightarrow> if root \<noteq> 0 then do {
        h \<leftarrow> h_tree_destroy (enter_heap s) root;
        leave_heap s h } else Some s)"

definition fat_tree_size :: "'a fat_fs_scheme \<Rightarrow> int option" where
  "fat_tree_size s = (case file_tree s of None \<Rightarrow> Some (- 1) | Some root \<Rightarrow> h_tree_size (node_heap s) root)"

text \<open>\<open>fat_tree_insert (vol->file_tree, parent, new_file)\<close>; the result is the returned tree pointer.\<close>

definition fat_tree_insert ::
  "'a fat_fs_scheme \<Rightarrow> ptr \<Rightarrow> ptr option \<Rightarrow> (ptr option \<times> 'a fat_fs_scheme) option" where
  "fat_tree_insert s parent new_file =
     (if file_tree s = None \<or> new_file = None then Some (None, s\<lparr>err := EINVAL\<rparr>)
      else do {
        (root, h) \<leftarrow> h_tree_insert (file_cmp (files s)) (enter_heap s) (the (file_tree s)) new_file parent;
        s1 \<leftarrow> leave_heap s h;
        Some (Some root, s1\<lparr>file_tree := Some root\<rparr>) })"

definition fat_tree_node_search :: "'a fat_fs_scheme \<Rightarrow> bytes \<Rightarrow> (ptr \<times> 'a fat_fs_scheme) option" where
  "fat_tree_node_search s key = do {
     root \<leftarrow> file_tree s;
     (p, h) \<leftarrow> h_tree_search (file_cmp_key (files s)) (enter_heap s) root (Some key);
     s1 \<leftarrow> leave_heap s h;
     Some (p, s1) }"

definition fat_tree_get_file :: "'a fat_fs_scheme \<Rightarrow> ptr \<Rightarrow> (ptr option \<times> 'a fat_fs_scheme) option" where
  "fat_tree_get_file s node = do {
     (d, h) \<leftarrow> h_tree_get_data (enter_heap s) node;
     s1 \<leftarrow> leave_heap s h;
     Some (d, s1) }"

definition fat_tree_search :: "'a fat_fs_scheme \<Rightarrow> bytes \<Rightarrow> (ptr option \<times> 'a fat_fs_scheme) option" where
  "fat_tree_search s key =
     (if file_tree s = None \<or> file_tree s = Some 0 then Some (None, s)
      else do { (p, s1) \<leftarrow> fat_tree_node_search s key; fat_tree_get_file s1 p })"

definition fat_tree_get_parent :: "'a fat_fs_scheme \<Rightarrow> ptr \<Rightarrow> (ptr option \<times> 'a fat_fs_scheme) option" where
  "fat_tree_get_parent s node = do {
     p \<leftarrow> h_tree_get_h_parent (node_heap s) node;
     fat_tree_get_file s p }"

text \<open>The callbacks \<open>fat_file_inc_num_times_opened\<close> and \<open>_dec_\<close> accept \<open>NULL\<close>.\<close>

definition mod_file :: "(fat_file \<Rightarrow> fat_file) \<Rightarrow> ptr option \<Rightarrow> (ptr \<Rightarrow> fat_file option)
    \<Rightarrow> (ptr \<Rightarrow> fat_file option) option" where
  "mod_file g d fs = (case d of None \<Rightarrow> Some fs | Some p \<Rightarrow> do { f \<leftarrow> fs p; Some (fs(p \<mapsto> g f)) })"

definition fat_tree_inc_num_times_opened :: "'a fat_fs_scheme \<Rightarrow> ptr \<Rightarrow> 'a fat_fs_scheme option" where
  "fat_tree_inc_num_times_opened s node = do {
     fs \<leftarrow> h_tree_iterate_h_ancestors (node_heap s) node (mod_file fat_file_inc_num_times_opened) (files s);
     Some (s\<lparr>files := fs\<rparr>) }"

definition fat_tree_dec_num_times_opened :: "'a fat_fs_scheme \<Rightarrow> ptr \<Rightarrow> 'a fat_fs_scheme option" where
  "fat_tree_dec_num_times_opened s node = do {
     fs \<leftarrow> h_tree_iterate_h_ancestors (node_heap s) node (mod_file fat_file_dec_num_times_opened) (files s);
     Some (s\<lparr>files := fs\<rparr>) }"

definition fat_tree_delete ::
  "'a fat_fs_scheme \<Rightarrow> bytes option \<Rightarrow> (ptr option \<times> 'a fat_fs_scheme) option" where
  "fat_tree_delete s key = (case file_tree s of
      None \<Rightarrow> Some (None, s\<lparr>err := EINVAL\<rparr>)
    | Some root \<Rightarrow>
        if key = None \<or> root = 0 then Some (Some root, s)
        else do {
          (root1, h) \<leftarrow> h_tree_delete (file_cmp_key (files s)) (enter_heap s) root key;
          s1 \<leftarrow> leave_heap s h;
          Some (Some root1, s1\<lparr>file_tree := Some root1\<rparr>) })"

definition fat_tree_iterate_preorder :: "'a fat_fs_scheme \<Rightarrow> (ptr option \<Rightarrow> (ptr \<Rightarrow> fat_file option)
    \<Rightarrow> (ptr \<Rightarrow> fat_file option) option) \<Rightarrow> 'a fat_fs_scheme option" where
  "fat_tree_iterate_preorder s mod_fn = (case file_tree s of
      None \<Rightarrow> Some s
    | Some root \<Rightarrow> do {
        fs \<leftarrow> h_tree_iterate_preorder (node_heap s) root mod_fn (files s);
        Some (s\<lparr>files := fs\<rparr>) })"

text \<open>The flattening functions; the outer option is the defined outcome, \<open>Some None\<close> is \<open>NULL\<close>.\<close>

definition fat_tree_flatten_preorder :: "'a fat_fs_scheme \<Rightarrow> ptr option list option option" where
  "fat_tree_flatten_preorder s = (case file_tree s of
      None \<Rightarrow> Some None
    | Some root \<Rightarrow> do {
        n \<leftarrow> h_tree_size (node_heap s) root;
        (if n = 0 then Some None
         else do {
           arr \<leftarrow> h_tree_flatten_preorder (node_heap s) root (replicate (nat n) None) 0;
           Some (Some arr) }) })"

text \<open>The array has \<open>nentries + 1\<close> places, whatever the number of children in the tree.\<close>

definition fat_tree_flatten_h_children ::
  "'a fat_fs_scheme \<Rightarrow> ptr \<Rightarrow> (ptr option list option \<times> 'a fat_fs_scheme) option" where
  "fat_tree_flatten_h_children s dir_node =
     (if dir_node = 0 then Some (None, s)
      else do {
        n \<leftarrow> h_tree_size (node_heap s) dir_node;
        (if n = 0 then Some (None, s)
         else do {
           (d, s1) \<leftarrow> fat_tree_get_file s dir_node;
           p \<leftarrow> d;
           f \<leftarrow> files s1 p;
           let tree_size = sint (nentries f) in
           do {
           arr \<leftarrow> h_tree_flatten_h_children (node_heap s1) dir_node (replicate (nat (tree_size + 1)) None);
           Some (Some arr, s1) } }) })"

section \<open>Order of paths\<close>

text \<open>\<open>strcmp\<close> gives the lexicographic order of strings, which hold no zero byte.\<close>

definition c_strings :: "bytes set" where
  "c_strings = {bs. 0 \<notin> set bs}"

lemma strcmp_sign:
  "cs \<in> c_strings \<Longrightarrow> ds \<in> c_strings \<Longrightarrow> (strcmp cs ds < 0 \<longleftrightarrow> cs < ds) \<and> (0 < strcmp cs ds \<longleftrightarrow> ds < cs)"
proof (induction cs ds rule: strcmp.induct)
  case (2 d ds)
  then have "uint d \<noteq> 0" by (simp add: c_strings_def word_uint_eq_iff)
  moreover have "0 \<le> uint d" by simp
  ultimately have "0 < uint d" by linarith
  then show ?case by simp
next
  case (3 c cs)
  then have "uint c \<noteq> 0" by (simp add: c_strings_def word_uint_eq_iff)
  moreover have "0 \<le> uint c" by simp
  ultimately have "0 < uint c" by linarith
  then show ?case by simp
next
  case (4 c cs d ds)
  have "uint c - uint d < 0 \<longleftrightarrow> c < d" "0 < uint c - uint d \<longleftrightarrow> d < c" by (simp_all add: word_less_def)
  then show ?case using 4 by (auto simp: c_strings_def)
qed simp

definition path_of :: "(ptr \<Rightarrow> fat_file option) \<Rightarrow> ptr \<Rightarrow> bytes" where
  "path_of fs p = filepath (the (fs p))"

definition named_files :: "(ptr \<Rightarrow> fat_file option) \<Rightarrow> ptr set" where
  "named_files fs = {p. \<exists>f. fs p = Some f \<and> filepath f \<in> c_strings}"

interpretation paths: tree_order "named_files fs" c_strings "path_of fs" "file_cmp fs" "file_cmp_key fs"
  for fs :: "ptr \<Rightarrow> fat_file option"
  by unfold_locales
    (auto simp: named_files_def path_of_def file_cmp_def file_cmp_key_def fat_file_cmp_def fat_file_cmp_path_def
      dest: strcmp_sign)

section \<open>An example tree\<close>

text \<open>
  Files \<open>/a\<close> to \<open>/e\<close>: \<open>/b\<close> at the root, \<open>/a\<close> on its left, and on its right \<open>/e\<close>, \<open>/d\<close>,
  \<open>/c\<close>, each the left child of the one before. File 6, \<open>/f\<close>, is not in the tree.
\<close>

definition ex_node :: "ptr \<Rightarrow> ptr \<Rightarrow> ptr \<Rightarrow> int \<Rightarrow> ptr h_node" where
  "ex_node d l r n = \<lparr>data = Some d, nright = r, nleft = l, h_parent = 0, h_next_sibling = 0, h_children = 0, nsize = n\<rparr>"

definition ex_file :: "u8 \<Rightarrow> fat_file" where
  "ex_file c = \<lparr>dentry = Some small_dentry, fname = [c], filepath = [0x2F, c], start_cluster = 2, nentries = 0,
     pos_in_parent = 0, num_times_opened = 0, children_read = False\<rparr>"

definition ex_files :: "ptr \<Rightarrow> fat_file option" where
  "ex_files = [1 \<mapsto> ex_file 0x61, 2 \<mapsto> ex_file 0x62, 3 \<mapsto> ex_file 0x63, 4 \<mapsto> ex_file 0x64, 5 \<mapsto> ex_file 0x65, 6 \<mapsto> ex_file 0x66]"

definition ex_heap :: "ptr h_heap" where
  "ex_heap = \<lparr>nodes = [11 \<mapsto> ex_node 1 0 0 1, 12 \<mapsto> ex_node 2 11 15 5, 13 \<mapsto> ex_node 3 0 0 1, 14 \<mapsto> ex_node 4 13 0 2,
     15 \<mapsto> ex_node 5 14 0 3], brk = 16, tree_errno = E_OK, destroyed = []\<rparr>"

definition ex_fs :: fat_fs where
  "ex_fs = fat_vol.extend small_vol \<lparr>files = ex_files, next_file = 7, node_heap = ex_heap, file_tree = Some 12\<rparr>"

definition ex_tree :: "ptr tree" where
  "ex_tree = Node (Node Leaf 11 Leaf) 12 (Node (Node (Node Leaf 13 Leaf) 14 Leaf) 15 Leaf)"

lemma ex_fs_sel [simp]: "files ex_fs = ex_files" "node_heap ex_fs = ex_heap" "file_tree ex_fs = Some 12" "err ex_fs = E_OK"
  by (simp_all add: ex_fs_def fat_vol.defs small_vol_def small_fat_def fat_table.defs)

lemma ex_rep: "rep (nodes ex_heap) 12 ex_tree"
  by (simp add: ex_tree_def ex_heap_def ex_node_def)

lemma ex_ordered: "paths.ordered ex_files (nodes ex_heap) ex_tree"
  unfolding paths.ordered_def
  by (simp add: ex_tree_def ex_heap_def ex_node_def datum_def path_of_def ex_files_def ex_file_def
      named_files_def c_strings_def)

section \<open>The tree invariant\<close>

text \<open>
  The nodes form a search tree over the paths of the files they point to, with correct sizes, and
  \<open>malloc\<close> has not yet given out the address \<open>brk\<close>.
\<close>

definition tree_inv :: "'a fat_fs_scheme \<Rightarrow> ptr tree \<Rightarrow> bool" where
  "tree_inv s t \<longleftrightarrow> (\<exists>root. file_tree s = Some root \<and> rep (nodes (node_heap s)) root t
     \<and> paths.ordered (files s) (nodes (node_heap s)) t
     \<and> brk (node_heap s) \<noteq> 0 \<and> (\<forall>a \<ge> brk (node_heap s). nodes (node_heap s) a = None))"

definition node_path :: "'a fat_fs_scheme \<Rightarrow> ptr \<Rightarrow> bytes" where
  "node_path s x = path_of (files s) (datum (nodes (node_heap s)) x)"

lemma heap_sel [simp]: "nodes (enter_heap s) = nodes (node_heap s)" "brk (enter_heap s) = brk (node_heap s)"
  "destroyed (enter_heap s) = []" "tree_errno (enter_heap s) = err s"
  by (simp_all add: enter_heap_def)

lemma leave_enter: "leave_heap s (enter_heap s) = Some (s\<lparr>node_heap := (node_heap s)\<lparr>tree_errno := err s, destroyed := []\<rparr>\<rparr>)"
  by (simp add: leave_heap_def enter_heap_def)

text \<open>A search does not depend on the errors recorded in the node heap.\<close>

lemma get_file_ok:
  assumes "nodes (node_heap s) q = Some n" "q \<noteq> 0"
  shows "map_option fst (fat_tree_get_file s q) = Some (data n)"
  using assms by (simp add: fat_tree_get_file_def h_tree_get_data_def leave_heap_def)

lemma tree_search_ok:
  assumes "tree_inv s t" "key \<in> c_strings"
  shows "if \<exists>x \<in> set_tree t. node_path s x = key
    then \<exists>x \<in> set_tree t. node_path s x = key \<and> map_option fst (fat_tree_search s key) = Some (Some (datum (nodes (node_heap s)) x))
    else map_option fst (fat_tree_search s key) = Some None"
proof -
  let ?nd = "nodes (node_heap s)"
  obtain root where root: "file_tree s = Some root" "rep ?nd root t" "paths.ordered (files s) ?nd t"
    using assms(1) by (auto simp: tree_inv_def)
  obtain q where q: "h_tree_search (file_cmp_key (files s)) (enter_heap s) root (Some key) = Some (q, enter_heap s)"
    "(q \<noteq> 0) = (\<exists>x \<in> set_tree t. path_of (files s) (datum ?nd x) = key)"
    "q \<noteq> 0 \<longrightarrow> q \<in> set_tree t \<and> path_of (files s) (datum ?nd q) = key"
    using paths.search_ok [of "enter_heap s" root t "files s" key] root assms(2) by auto
  let ?s1 = "s\<lparr>node_heap := (node_heap s)\<lparr>tree_errno := err s, destroyed := []\<rparr>\<rparr>"
  have ns: "fat_tree_node_search s key = Some (q, ?s1)"
    using root(1) q(1) by (simp add: fat_tree_node_search_def leave_enter)
  show ?thesis
  proof (cases "q = 0")
    case True
    then have "map_option fst (fat_tree_search s key) = Some None"
      using root(1) ns by (auto simp: fat_tree_search_def fat_tree_get_file_def h_tree_get_data_def leave_heap_def)
    then show ?thesis using q(2) True by (auto simp: node_path_def)
  next
    case False
    then have qt: "q \<in> set_tree t" "path_of (files s) (datum ?nd q) = key" using q(3) by auto
    obtain n d where n: "?nd q = Some n" "data n = Some d" using rep_nodes [OF root(2) qt(1)] by auto
    have "root \<noteq> 0" using root(2) qt(1) by (cases t) auto
    then have "map_option fst (fat_tree_search s key) = Some (Some d)"
      using root(1) ns get_file_ok [of ?s1 q n] n False by (simp add: fat_tree_search_def)
    then have "map_option fst (fat_tree_search s key) = Some (Some (datum ?nd q))" using n by (simp add: datum_def)
    then show ?thesis using qt by (auto simp: node_path_def)
  qed
qed

lemma set_tree_ins_cases:
  "set_tree (ins f k a t) = (if k \<in> f ` set_tree t then set_tree t else insert a (set_tree t))"
  if "bst_wrt (\<lambda>x y. f x < f y) t"
  using set_tree_ins [of k f t a] paths.ins_present [OF _ that, of k a] by auto


section \<open>Insertion\<close>

lemma bst_ins:
  "bst_wrt (\<lambda>x y. g x < g y) t \<Longrightarrow> \<forall>x \<in> set_tree t. g x = f x \<Longrightarrow> g a = k \<Longrightarrow> bst_wrt (\<lambda>x y. g x < g y) (ins f k a t)"
proof (induction t)
  case (Node l x r)
  have sub: "set_tree (ins f k a u) \<subseteq> insert a (set_tree u)" for u by (induction u) auto
  show ?case using Node sub [of l] sub [of r] by auto
qed simp

lemma insert_tree_ok:
  assumes inv: "tree_inv s t" and f: "files s p = Some f" "filepath f \<in> c_strings"
    and new: "\<forall>x \<in> set_tree t. node_path s x \<noteq> filepath f"
    and par: "parent = 0 \<or> nodes (node_heap s) parent \<noteq> None"
  shows "\<exists>root' s' a t'. fat_tree_insert s parent (Some p) = Some (Some root', s') \<and> tree_inv s' t'
    \<and> set_tree t' = insert a (set_tree t) \<and> a \<notin> set_tree t
    \<and> datum (nodes (node_heap s')) a = p \<and> files s' = files s \<and> err s' = err s
    \<and> (\<forall>x \<in> set_tree t. datum (nodes (node_heap s')) x = datum (nodes (node_heap s)) x)
    \<and> fat_vol.truncate s' = fat_vol.truncate s"
proof -
  let ?nd = "nodes (node_heap s)" and ?h = "enter_heap s" and ?a = "brk (node_heap s)"
  obtain root where root: "file_tree s = Some root" "rep ?nd root t" "paths.ordered (files s) ?nd t"
    "?a \<noteq> 0" "\<forall>b \<ge> ?a. ?nd b = None" using inv by (auto simp: tree_inv_def)
  define g where "g = (\<lambda>x. path_of (files s) (datum ?nd x))"
  have pD: "p \<in> named_files (files s)" and kp: "path_of (files s) p = filepath f"
    using f by (auto simp: named_files_def path_of_def)
  have fresh: "filepath f \<notin> g ` set_tree t" using new by (auto simp: g_def node_path_def)
  obtain q h' where ins: "h_tree_insert (file_cmp (files s)) ?h root (Some p) parent = Some (q, h')"
    "rep (nodes h') q (ins g (filepath f) ?a t)" "inserted ?h h' (set_tree t) p parent"
    using paths.insert_ok [of ?h root t "files s" p parent] root pD par fresh kp by (auto simp: g_def)
  let ?t' = "ins g (filepath f) ?a t"
  let ?s' = "s\<lparr>node_heap := h'\<lparr>destroyed := []\<rparr>, err := tree_errno h', file_tree := Some q\<rparr>"
  have dest: "destroyed h' = []" "tree_errno h' = err s" "brk h' = ?a + 1"
    using ins(3) by (simp_all add: inserted_def)
  then have run: "fat_tree_insert s parent (Some p) = Some (Some q, ?s')"
    using root(1) ins(1) by (simp add: fat_tree_insert_def leave_heap_def)
  have at: "?a \<notin> set_tree t" using rep_nodes [OF root(2)] root(5) by force
  have st: "set_tree ?t' = insert ?a (set_tree t)" by (rule set_tree_ins [OF fresh])
  have da: "datum (nodes h') ?a = p"
    using ins(3) by (auto simp: inserted_def hier_def datum_def)
  have dx: "datum (nodes h') x = datum ?nd x" if "x \<in> set_tree t" for x
  proof -
    have "x \<noteq> brk ?h" using that at by auto
    then show ?thesis using inserted_datum [OF ins(3)] by simp
  qed
  have "paths.ordered (files s) (nodes h') ?t'"
    unfolding paths.ordered_def
  proof
    have "bst_wrt (\<lambda>x y. path_of (files s) (datum (nodes h') x) < path_of (files s) (datum (nodes h') y)) t"
      using paths.ordered_cong [OF root(3), of "nodes h'"] dx by (simp add: paths.ordered_def)
    then show "bst_wrt (\<lambda>x y. path_of (files s) (datum (nodes h') x) < path_of (files s) (datum (nodes h') y)) ?t'"
      by (rule bst_ins) (use dx da kp in \<open>auto simp: g_def\<close>)
    show "\<forall>x \<in> set_tree ?t'. datum (nodes h') x \<in> named_files (files s)"
      using st dx da pD root(3) by (auto simp: paths.ordered_def)
  qed
  moreover have "nodes h' b = None" if "b \<ge> ?a + 1" for b
  proof -
    have "?nd b = None" "b \<noteq> brk ?h" using root(5) that by auto
    then have "map_option hier (nodes h' b) = None" using ins(3) unfolding inserted_def by simp
    then show ?thesis by simp
  qed
  ultimately have "tree_inv ?s' ?t'" using ins(2) dest by (simp add: tree_inv_def)
  moreover have "fat_vol.truncate ?s' = fat_vol.truncate s"
    using dest(2) by (simp add: fat_vol.defs)
  ultimately show ?thesis using run st at da dx dest(2)
    by (intro exI [of _ q] exI [of _ ?s'] exI [of _ ?a] exI [of _ ?t']) simp
qed


lemma search_value:
  assumes "tree_inv s t" "key \<in> c_strings" "x \<in> set_tree t" "node_path s x = key"
  shows "map_option fst (fat_tree_search s key) = Some (Some (datum (nodes (node_heap s)) x))"
proof -
  obtain root where root: "paths.ordered (files s) (nodes (node_heap s)) t" using assms(1) by (auto simp: tree_inv_def)
  obtain y where y: "y \<in> set_tree t" "node_path s y = key"
    "map_option fst (fat_tree_search s key) = Some (Some (datum (nodes (node_heap s)) y))"
    using tree_search_ok [OF assms(1,2)] assms(3,4) by (auto split: if_splits)
  have "y = x"
    using root assms(3,4) y(1,2)
  proof (induction t)
    case (Node l z r)
    then show ?case by (force simp: paths.ordered_Node node_path_def)
  qed simp
  then show ?thesis using y(3) by simp
qed

lemma search_absent:
  assumes "tree_inv s t" "key \<in> c_strings" "\<forall>x \<in> set_tree t. node_path s x \<noteq> key"
  shows "map_option fst (fat_tree_search s key) = Some None"
  using tree_search_ok [OF assms(1,2)] assms(3) by auto

text \<open>
  C39: a file inserted under a path that is not in the tree is found under this path, every other
  search gives what it gave before, and the invariant is kept.
\<close>

theorem tree_insert_search:
  assumes "tree_inv s t" and "files s p = Some f" and "filepath f \<in> c_strings"
    and "map_option fst (fat_tree_search s (filepath f)) = Some None"
    and "parent = 0 \<or> nodes (node_heap s) parent \<noteq> None"
  shows "\<exists>root' s' t'. fat_tree_insert s parent (Some p) = Some (Some root', s') \<and> tree_inv s' t'
    \<and> map_option fst (fat_tree_search s' (filepath f)) = Some (Some p)
    \<and> (\<forall>key \<in> c_strings. key \<noteq> filepath f \<longrightarrow>
        map_option fst (fat_tree_search s' key) = map_option fst (fat_tree_search s key))"
proof -
  have new: "\<forall>x \<in> set_tree t. node_path s x \<noteq> filepath f"
    using search_value [OF assms(1,3)] assms(4) by force
  obtain root' s' a t' where r: "fat_tree_insert s parent (Some p) = Some (Some root', s')" "tree_inv s' t'"
    "set_tree t' = insert a (set_tree t)" "datum (nodes (node_heap s')) a = p" "files s' = files s"
    "\<forall>x \<in> set_tree t. datum (nodes (node_heap s')) x = datum (nodes (node_heap s)) x"
    using insert_tree_ok [OF assms(1-3) new assms(5)] by blast
  have pa: "node_path s' a = filepath f" using r(4,5) assms(2) by (simp add: node_path_def path_of_def)
  have px: "node_path s' x = node_path s x" if "x \<in> set_tree t" for x using r(5,6) that by (simp add: node_path_def)
  have "map_option fst (fat_tree_search s' (filepath f)) = Some (Some p)"
    using search_value [OF r(2) assms(3), of a] r(3,4) pa by simp
  moreover have "map_option fst (fat_tree_search s' key) = map_option fst (fat_tree_search s key)"
    if k: "key \<in> c_strings" "key \<noteq> filepath f" for key
  proof (cases "\<exists>x \<in> set_tree t. node_path s x = key")
    case True
    then obtain x where x: "x \<in> set_tree t" "node_path s x = key" by blast
    have "node_path s' x = key" "x \<in> set_tree t'" using px x r(3) by simp_all
    then have "map_option fst (fat_tree_search s' key) = Some (Some (datum (nodes (node_heap s')) x))"
      using search_value [OF r(2) k(1)] by blast
    then show ?thesis using search_value [OF assms(1) k(1) x] r(6) x(1) by metis
  next
    case False
    then show ?thesis
      using search_absent [OF assms(1) k(1)] search_absent [OF r(2) k(1)] r(3) px pa k(2) by auto
  qed
  ultimately show ?thesis using r(1,2) by blast
qed

lemma ex_inv: "tree_inv ex_fs ex_tree"
  using ex_rep ex_ordered by (simp add: tree_inv_def ex_heap_def)

lemma ex_paths: "node_path ex_fs 11 = [0x2F, 0x61]" "node_path ex_fs 12 = [0x2F, 0x62]" "node_path ex_fs 13 = [0x2F, 0x63]"
  "node_path ex_fs 14 = [0x2F, 0x64]" "node_path ex_fs 15 = [0x2F, 0x65]" "set_tree ex_tree = {11, 12, 13, 14, 15}"
  by (auto simp: node_path_def path_of_def datum_def ex_heap_def ex_node_def ex_files_def ex_file_def ex_tree_def)

theorem tree_insert_search_witness:
  "\<exists>root' s'. fat_tree_insert ex_fs 12 (Some 6) = Some (Some root', s')
    \<and> map_option fst (fat_tree_search s' [0x2F, 0x66]) = Some (Some 6)"
proof -
  have f: "files ex_fs 6 = Some (ex_file 0x66)" by (simp add: ex_files_def)
  have c: "filepath (ex_file 0x66) \<in> c_strings" by (simp add: ex_file_def c_strings_def)
  have "map_option fst (fat_tree_search ex_fs (filepath (ex_file 0x66))) = Some None"
    by (rule search_absent [OF ex_inv c]) (auto simp: ex_paths ex_file_def)
  from tree_insert_search [OF ex_inv f c this, of 12] show ?thesis by (auto simp: ex_heap_def ex_file_def)
qed

section \<open>Deletion\<close>

lemma bst_wrt_eq:
  "bst_wrt P t \<Longrightarrow> (\<And>x y. x \<in> set_tree t \<Longrightarrow> y \<in> set_tree t \<Longrightarrow> P x y \<Longrightarrow> Q x y) \<Longrightarrow> bst_wrt Q t"
  by (induction t) auto

lemma bst_del_root:
  "bst_wrt (\<lambda>x y. (f x :: 'b::linorder) < f y) (Node l x r) \<Longrightarrow> del_root (Node l x r) = Some t'
    \<Longrightarrow> bst_wrt (\<lambda>x y. f x < f y) t'"
  by (induction "Node l x r" rule: del_root.induct) (auto, (meson less_trans UnI1 UnI2)+)

lemma bst_del:
  "bst_wrt (\<lambda>x y. f x < f y) t \<Longrightarrow> del f k t = Some t' \<Longrightarrow> bst_wrt (\<lambda>x y. f x < f y) t'"
proof (induction t arbitrary: t')
  case (Node l x r)
  show ?case
  proof (cases "f x = k")
    case True
    then show ?thesis using Node.prems bst_del_root by fastforce
  next
    case False
    have bl: "bst_wrt (\<lambda>x y. f x < f y) l" and br: "bst_wrt (\<lambda>x y. f x < f y) r" using Node.prems(1) by simp_all
    consider r' where "del f k r = Some r'" "t' = Node l x r'" | l' where "del f k l = Some l'" "t' = Node l' x r"
      using Node.prems(2) False by (auto split: if_splits)
    then show ?thesis
    proof cases
      case 1
      then show ?thesis using Node.prems(1) Node.IH(2) [OF br 1(1)] set_tree_del [OF 1(1) br] by simp
    next
      case 2
      then show ?thesis using Node.prems(1) Node.IH(1) [OF bl 2(1)] set_tree_del [OF 2(1) bl] by simp
    qed
  qed
qed simp

text \<open>
  C40: deleting a path whose node has at most one child in the search tree, or whose right child
  has no left child, frees that file, makes its path unknown and keeps all other searches.
\<close>

theorem tree_delete_search:
  assumes "tree_inv s t" and "key \<in> c_strings" and "del (node_path s) key t = Some t'" and "t \<noteq> Leaf"
    and "\<forall>x \<in> set_tree t. node_path s x = key \<longrightarrow> remove_child_from_h (enter_heap s) x \<noteq> None"
    and "inj_on (datum (nodes (node_heap s))) (set_tree t)"
  shows "\<exists>root' s'. fat_tree_delete s (Some key) = Some (Some root', s') \<and> tree_inv s' t'
    \<and> map_option fst (fat_tree_search s' key) = Some None
    \<and> (\<forall>k \<in> c_strings. k \<noteq> key \<longrightarrow>
        map_option fst (fat_tree_search s' k) = map_option fst (fat_tree_search s k))"
proof -
  let ?nd = "nodes (node_heap s)" and ?h = "enter_heap s"
  obtain root where root: "file_tree s = Some root" "rep ?nd root t" "paths.ordered (files s) ?nd t"
    "brk (node_heap s) \<noteq> 0" "\<forall>b \<ge> brk (node_heap s). ?nd b = None"
    using assms(1) by (auto simp: tree_inv_def)
  have np: "node_path s = (\<lambda>x. path_of (files s) (datum (nodes ?h) x))" by (simp add: node_path_def fun_eq_iff)
  obtain q h' where d: "h_tree_delete (file_cmp_key (files s)) ?h root (Some key) = Some (q, h')"
    "rep (nodes h') q t'" "deleted ?h h' t t'"
    "if \<exists>x \<in> set_tree t. node_path s x = key then \<exists>x \<in> set_tree t. node_path s x = key \<and> destroyed h' = [datum ?nd x]
       else destroyed h' = []"
    using paths.delete_ok [of ?h root t "files s" key t', unfolded heap_sel] root(2,3) assms(2,3,5)
    unfolding np heap_sel by blast
  have bst: "bst_wrt (\<lambda>x y. node_path s x < node_path s y) t"
    using root(3) by (simp add: paths.ordered_def node_path_def)
  have st: "set_tree t' = {x \<in> set_tree t. node_path s x \<noteq> key}" by (rule set_tree_del [OF assms(3) bst])
  obtain fs where fs: "free_files (files s) (destroyed h') = Some fs"
    "\<forall>x \<in> set_tree t'. fs (datum ?nd x) = files s (datum ?nd x)"
  proof (cases "\<exists>x \<in> set_tree t. node_path s x = key")
    case True
    then obtain x where x: "x \<in> set_tree t" "node_path s x = key" "destroyed h' = [datum ?nd x]" using d(4) by auto
    have "datum ?nd x \<in> named_files (files s)" using root(3) x(1) by (simp add: paths.ordered_def)
    then have "free_files (files s) (destroyed h') = Some ((files s)(datum ?nd x := None))"
      using x(3) by (auto simp: named_files_def)
    moreover have "datum ?nd y \<noteq> datum ?nd x" if "y \<in> set_tree t'" for y
      using assms(6) that st x(1,2) by (auto dest: inj_onD)
    ultimately show thesis using that by auto
  qed (use d(4) that [of "files s"] in auto)
  let ?s' = "s\<lparr>files := fs, node_heap := h'\<lparr>destroyed := []\<rparr>, err := tree_errno h', file_tree := Some q\<rparr>"
  have "root \<noteq> 0" using rep_null [OF root(2)] assms(4) by simp
  then have run: "fat_tree_delete s (Some key) = Some (Some q, ?s')"
    using root(1) d(1) fs(1) by (simp add: fat_tree_delete_def leave_heap_def)
  have dat: "datum (nodes h') x = datum ?nd x" if "x \<in> set_tree t'" for x
    using d(3) that rep_nodes [OF root(2), of x] st by (intro datum_cong) (auto simp: deleted_def)
  have px: "node_path ?s' x = node_path s x" if "x \<in> set_tree t'" for x
    using dat [OF that] fs(2) that by (simp add: node_path_def path_of_def)
  have inv: "tree_inv ?s' t'"
  proof -
    have "bst_wrt (\<lambda>x y. node_path ?s' x < node_path ?s' y) t'"
      by (rule bst_wrt_eq [OF bst_del [OF bst assms(3)]]) (use px in auto)
    moreover have "datum (nodes h') x \<in> named_files fs" if "x \<in> set_tree t'" for x
    proof -
      have "datum ?nd x \<in> named_files (files s)" using root(3) st that by (simp add: paths.ordered_def)
      then show ?thesis using dat [OF that] fs(2) that by (simp add: named_files_def)
    qed
    moreover have "nodes h' b = None" if "b \<ge> brk (node_heap s)" for b
    proof -
      have "b \<notin> set_tree t" using rep_nodes [OF root(2)] root(5) that by force
      then have "map_option core (nodes h' b) = None" using d(3) root(5) that by (simp add: deleted_def)
      then show ?thesis by simp
    qed
    ultimately show ?thesis using d(2,3) root(4) by (simp add: tree_inv_def paths.ordered_def node_path_def deleted_def)
  qed
  have "map_option fst (fat_tree_search ?s' key) = Some None"
    by (rule search_absent [OF inv assms(2)]) (use px st in auto)
  moreover have "map_option fst (fat_tree_search ?s' k) = map_option fst (fat_tree_search s k)"
    if k: "k \<in> c_strings" "k \<noteq> key" for k
  proof (cases "\<exists>x \<in> set_tree t. node_path s x = k")
    case True
    then obtain x where x: "x \<in> set_tree t" "node_path s x = k" by blast
    then have xt: "x \<in> set_tree t'" using st k(2) by simp
    then have "node_path ?s' x = k" using px x(2) by blast
    then have "map_option fst (fat_tree_search ?s' k) = Some (Some (datum (nodes (node_heap ?s')) x))"
      using search_value [OF inv k(1)] xt by blast
    moreover have "datum (nodes (node_heap ?s')) x = datum ?nd x" using dat [OF xt] by simp
    ultimately show ?thesis using search_value [OF assms(1) k(1) x] by metis
  next
    case False
    then show ?thesis
      using search_absent [OF assms(1) k(1)] search_absent [OF inv k(1)] px st by auto
  qed
  ultimately show ?thesis using run inv by blast
qed


theorem tree_delete_search_witness:
  "\<exists>root' s'. fat_tree_delete ex_fs (Some [0x2F, 0x61]) = Some (Some root', s')
    \<and> map_option fst (fat_tree_search s' [0x2F, 0x61]) = Some None
    \<and> map_option fst (fat_tree_search s' [0x2F, 0x63]) = map_option fst (fat_tree_search ex_fs [0x2F, 0x63])"
proof -
  have "del (node_path ex_fs) [0x2F, 0x61] ex_tree
      = Some (Node Leaf 12 (Node (Node (Node Leaf 13 Leaf) 14 Leaf) 15 Leaf))"
    by (simp add: ex_tree_def ex_paths)
  moreover have "\<forall>x \<in> set_tree ex_tree. node_path ex_fs x = [0x2F, 0x61] \<longrightarrow> remove_child_from_h (enter_heap ex_fs) x \<noteq> None"
    by (auto simp: ex_paths remove_child_from_h_def ex_heap_def ex_node_def)
  moreover have "inj_on (datum (nodes (node_heap ex_fs))) (set_tree ex_tree)"
    by (auto simp: ex_paths datum_def ex_heap_def ex_node_def)
  ultimately obtain root' s' where "fat_tree_delete ex_fs (Some [0x2F, 0x61]) = Some (Some root', s')"
    "map_option fst (fat_tree_search s' [0x2F, 0x61]) = Some None"
    "\<forall>k \<in> c_strings. k \<noteq> [0x2F, 0x61] \<longrightarrow>
        map_option fst (fat_tree_search s' k) = map_option fst (fat_tree_search ex_fs k)"
    using tree_delete_search [OF ex_inv, of "[0x2F, 0x61]"] by (auto simp: c_strings_def ex_tree_def)
  moreover have "[0x2F, 0x63] \<in> c_strings" by (simp add: c_strings_def)
  ultimately show ?thesis by fastforce
qed

text \<open>
  deleting the file at the root of the search tree when its node has two children and the
  right one has a left child has no defined outcome: \<open>delete_root\<close> destroys the file, calls itself
  on the same node and destroys it a second time.
\<close>

theorem tree_delete_double_free:
  assumes "file_tree s = Some x"
    and "rep (nodes (node_heap s)) x (Node l x (Node (Node Leaf m mr) y yr))" and "l \<noteq> Leaf"
    and "distinct (inorder (Node l x (Node (Node Leaf m mr) y yr)))"
    and "node_path s x = key" and "datum (nodes (node_heap s)) x \<in> named_files (files s)" and "key \<in> c_strings"
  shows "fat_tree_delete s (Some key) = None"
proof -
  let ?d = "datum (nodes (node_heap s)) x" and ?t = "Node l x (Node (Node Leaf m mr) y yr)"
  obtain n where n: "nodes (node_heap s) x = Some n" "data n = Some ?d" "x \<noteq> 0"
    using assms(2) by (auto simp: datum_def)
  obtain f where f: "files s ?d = Some f" "filepath f \<in> c_strings" using assms(6) by (auto simp: named_files_def)
  then have "file_cmp_key (files s) ?d key = Some 0"
    using assms(5) strcmp_sign [of key key] assms(7)
    by (auto simp: file_cmp_key_def fat_file_cmp_path_def node_path_def path_of_def)
  then have step: "h_tree_delete (file_cmp_key (files s)) (enter_heap s) x (Some key)
      = do { s1 \<leftarrow> remove_child_from_h (enter_heap s) x; delete_root s1 x }"
    using n by (subst h_tree_delete.simps) simp
  show ?thesis
  proof (cases "remove_child_from_h (enter_heap s) x")
    case None
    then show ?thesis using step assms(1) n(3) by (simp add: fat_tree_delete_def)
  next
    case (Some s1)
    note core = remove_child_core [OF Some]
    have r1: "rep (nodes s1) x ?t" by (rule rep_subst [of "enter_heap s"]) (use assms(2) core in simp_all)
    have "datum (nodes s1) x = ?d"
    proof (rule datum_cong)
      show "map_option data (nodes s1 x) = map_option data (nodes (node_heap s) x)"
        using core core_data by fastforce
    qed (use n in simp)
    then obtain h where "delete_root s1 x = Some (m, h)" "destroyed h = [?d, ?d]"
      using delete_root_twice [OF r1 assms(3,4)] core by auto
    then show ?thesis
      using step Some assms(1) n(3) f by (simp add: fat_tree_delete_def leave_heap_def)
  qed
qed

text \<open>The example with \<open>/d\<close> next to the root's right child.\<close>

definition ex_heap2 :: "ptr h_heap" where
  "ex_heap2 = ex_heap\<lparr>nodes := [11 \<mapsto> ex_node 1 0 0 1, 12 \<mapsto> ex_node 2 11 15 4, 14 \<mapsto> ex_node 4 0 0 1, 15 \<mapsto> ex_node 5 14 0 2]\<rparr>"

theorem tree_delete_double_free_witness:
  "fat_tree_delete (ex_fs\<lparr>node_heap := ex_heap2\<rparr>) (Some [0x2F, 0x62]) = None"
  by (rule tree_delete_double_free [of _ 12 "Node Leaf 11 Leaf" 14 Leaf 15 Leaf])
    (simp_all add: ex_heap2_def ex_heap_def ex_node_def node_path_def path_of_def datum_def ex_files_def ex_file_def
      named_files_def c_strings_def)

text \<open>
  when the leftmost node of the right subtree lies two levels below it, \<open>delete_root\<close> drops
  the left subtree of the deleted node: a search for any path in it finds nothing.
\<close>

theorem delete_root_loses_left:
  assumes "rep (nodes h) p (Node l x (Node (Node (Node Leaf m mr) z zr) y yr))"
    and "paths.ordered fs (nodes h) (Node l x (Node (Node (Node Leaf m mr) z zr) y yr))" and "v \<in> set_tree l"
  shows "\<exists>q h'. delete_root h p = Some (q, h')
    \<and> h_tree_search (file_cmp_key fs) h' q (Some (path_of fs (datum (nodes h) v))) = Some (0, h')"
proof (rule paths.delete_root_loses [OF assms])
  have "datum (nodes h) v \<in> named_files fs" using assms(2,3) by (simp add: paths.ordered_Node paths.ordered_def)
  then show "path_of fs (datum (nodes h) v) \<in> c_strings" by (auto simp: named_files_def path_of_def)
qed

theorem delete_root_loses_left_witness:
  "\<exists>q h'. delete_root ex_heap 12 = Some (q, h')
    \<and> h_tree_search (file_cmp_key ex_files) h' q (Some (path_of ex_files (datum (nodes ex_heap) 11))) = Some (0, h')"
  by (rule delete_root_loses_left [OF ex_rep [unfolded ex_tree_def] ex_ordered [unfolded ex_tree_def]]) simp

section \<open>Flattening\<close>

text \<open>C32: \<open>fat_tree_flatten_preorder\<close> gives every file of the tree once, in preorder.\<close>

theorem tree_flatten_preorder:
  assumes "tree_inv s t" and "t \<noteq> Leaf"
  shows "fat_tree_flatten_preorder s = Some (Some (map (\<lambda>x. Some (datum (nodes (node_heap s)) x)) (preorder t)))"
proof -
  obtain root where root: "file_tree s = Some root" "rep (nodes (node_heap s)) root t"
    using assms(1) by (auto simp: tree_inv_def)
  have "size t \<noteq> 0" using assms(2) by (cases t) auto
  moreover have "h_tree_flatten_preorder (node_heap s) root ([] @ replicate (size t) None @ []) (int (length ([] :: ptr option list)))
      = Some ([] @ map (\<lambda>x. Some (datum (nodes (node_heap s)) x)) (preorder t) @ [])"
    by (rule flatten_preorder_ok [OF root(2)]) simp_all
  ultimately show ?thesis
    using root rep_size [OF root(2)] by (simp add: fat_tree_flatten_preorder_def)
qed

theorem tree_flatten_preorder_witness:
  "fat_tree_flatten_preorder ex_fs = Some (Some [Some 2, Some 1, Some 5, Some 4, Some 3])"
  using tree_flatten_preorder [OF ex_inv] by (simp add: ex_tree_def datum_def ex_heap_def ex_node_def)

end
