(* ===== verification/Fat_Volume.thy ===== *)
theory Fat_Volume
  imports Fs_Tree
begin

unbundle bit_operations_syntax

text \<open>
  \<open>Lab4/fat-fuse/fat_volume.c\<close>: reading the boot sector, mapping the table and mounting.

  \<open>struct fat_volume_s\<close> is the record \<open>vol_info\<close> and, for its \<open>table\<close> and \<open>file_tree\<close>, the
  state \<open>fat_fs\<close>. What the code asks of the system are arguments: the page size, whether \<open>open\<close>
  and \<open>mmap\<close> succeed, and the heap bytes behind a string (\<open>junk\<close>, see \<open>fat_file_init_direntry\<close>).
\<close>

record vol_info =
  oem_name :: bytes
  bytes_per_sector :: u16
  sector_order :: nat
  sectors_per_cluster :: u8
  sectors_per_cluster_order :: nat
  reserved_sectors :: u16
  num_tables :: u8
  max_root_entries :: u16
  media_descriptor :: u8
  total_sectors :: u32
  sectors_per_fat :: u32
  sectors_per_track :: u16
  num_heads :: u16
  hidden_sectors :: u32
  drive_description :: u16
  version :: u16
  root_dir_start_cluster :: u32
  fs_info_sector :: u16
  alt_boot_sector :: u16
  physical_drive_num :: u8
  extended_boot_sig :: u8
  volume_id :: u32
  volume_label :: bytes
  fs_type :: bytes
  mount_flags :: nat
  max_allocated_files :: nat

text \<open>\<open>calloc\<close> gives a volume of zero bytes.\<close>

definition vol_zero :: vol_info where
  "vol_zero = \<lparr>oem_name = replicate 9 0, bytes_per_sector = 0, sector_order = 0, sectors_per_cluster = 0,
     sectors_per_cluster_order = 0, reserved_sectors = 0, num_tables = 0, max_root_entries = 0,
     media_descriptor = 0, total_sectors = 0, sectors_per_fat = 0, sectors_per_track = 0, num_heads = 0,
     hidden_sectors = 0, drive_description = 0, version = 0, root_dir_start_cluster = 0, fs_info_sector = 0,
     alt_boot_sector = 0, physical_drive_num = 0, extended_boot_sig = 0, volume_id = 0,
     volume_label = replicate 12 0, fs_type = replicate 9 0, mount_flags = 0, max_allocated_files = 0\<rparr>"

definition FAT_MOUNT_FLAG_READWRITE :: nat where "FAT_MOUNT_FLAG_READWRITE = 2"

section \<open>The boot sector\<close>

text \<open>
  The offsets are those of \<open>struct fat_boot_sector_disk\<close>. \<open>sector_order\<close> is the value of \<open>bsr\<close>,
  which the instruction leaves undefined for 0; the test for a power of two rejects that case
  before the value matters.
\<close>

definition read_dos_2_0_bpb ::
  "'a fat_fs_scheme \<Rightarrow> vol_info \<Rightarrow> bytes \<Rightarrow> int \<times> vol_info \<times> 'a fat_fs_scheme" where
  "read_dos_2_0_bpb s vol boot_sec =
     (let vol = vol\<lparr>bytes_per_sector := le16_at boot_sec 11,
                    sector_order := bsr (unat (le16_at boot_sec 11))\<rparr> in
      if \<not> is_power_of_2 (ucast (bytes_per_sector vol)) \<or> sector_order vol < 5 \<or> sector_order vol > 12
      then (-1, vol, s\<lparr>err := EINVAL\<rparr>)
      else let vol = vol\<lparr>sectors_per_cluster := boot_sec ! 13,
                         sectors_per_cluster_order := bsr (unat (boot_sec ! 13))\<rparr> in
      if \<not> is_power_of_2 (ucast (sectors_per_cluster vol)) \<or> sectors_per_cluster_order vol > 7
      then (-1, vol, s\<lparr>err := EINVAL\<rparr>)
      else let s = s\<lparr>cluster_order := sector_order vol + sectors_per_cluster_order vol\<rparr>;
               vol = vol\<lparr>reserved_sectors := le16_at boot_sec 14, num_tables := boot_sec ! 16\<rparr> in
      if num_tables vol \<noteq> 1 \<and> num_tables vol \<noteq> 2 then (-1, vol, s\<lparr>err := EINVAL\<rparr>)
      else (0, vol\<lparr>max_root_entries := le16_at boot_sec 17, total_sectors := ucast (le16_at boot_sec 19),
                   media_descriptor := boot_sec ! 21, sectors_per_fat := ucast (le16_at boot_sec 22)\<rparr>, s))"

definition read_dos_3_31_bpb :: "vol_info \<Rightarrow> bytes \<Rightarrow> int \<times> vol_info" where
  "read_dos_3_31_bpb vol boot_sec =
     (0, vol\<lparr>sectors_per_track := le16_at boot_sec 24, num_heads := le16_at boot_sec 26,
             hidden_sectors := le32_at boot_sec 28\<rparr>)"

definition read_nonfat32_ebpb :: "vol_info \<Rightarrow> bytes \<Rightarrow> int \<times> vol_info" where
  "read_nonfat32_ebpb vol boot_sec =
     (0, vol\<lparr>physical_drive_num := boot_sec ! 64, extended_boot_sig := boot_sec ! 66,
             volume_id := le32_at boot_sec 67,
             volume_label := remove_trailing_spaces (take 11 (drop 71 boot_sec) @ drop 11 (volume_label vol)),
             fs_type := remove_trailing_spaces (take 8 (drop 82 boot_sec) @ drop 8 (fs_type vol))\<rparr>)"

definition read_fat32_ebpb ::
  "'a fat_fs_scheme \<Rightarrow> vol_info \<Rightarrow> bytes \<Rightarrow> int \<times> vol_info \<times> 'a fat_fs_scheme" where
  "read_fat32_ebpb s vol boot_sec =
     (let vol = (if le32_at boot_sec 36 \<noteq> 0 then vol\<lparr>sectors_per_fat := le32_at boot_sec 36\<rparr> else vol);
          wide = ucast (sectors_per_fat vol) :: 64 word in
      if le32_at boot_sec 36 \<noteq> 0 \<and> drop_bit (sector_order vol) (push_bit (sector_order vol) wide) \<noteq> wide
      then (-1, vol, s\<lparr>err := EINVAL\<rparr>)
      else let vol = vol\<lparr>drive_description := le16_at boot_sec 40, version := le16_at boot_sec 42\<rparr> in
      if version vol \<noteq> 0 then (-1, vol, s\<lparr>err := EINVAL\<rparr>)
      else let vol = vol\<lparr>root_dir_start_cluster := le32_at boot_sec 44\<rparr> in
      if root_dir_start_cluster vol = 0 then (-1, vol, s\<lparr>err := EINVAL\<rparr>)
      else let vol = vol\<lparr>fs_info_sector := le16_at boot_sec 48, alt_boot_sector := le16_at boot_sec 50\<rparr>;
               vol = (if fs_info_sector vol = 0xFFFF then vol\<lparr>fs_info_sector := 0\<rparr> else vol) in
      if fs_info_sector vol \<noteq> 0 \<and> sector_order vol < 9 then (-1, vol, s\<lparr>err := EINVAL\<rparr>)
      else (0, vol, s))"

text \<open>The number of data sectors is computed with 32 bits and leaves the tables out.\<close>

definition count_data_clusters :: "vol_info \<Rightarrow> u32" where
  "count_data_clusters vol =
     (let num_data_sectors = total_sectors vol - ucast (reserved_sectors vol)
            - drop_bit (sector_order vol) (push_bit 5 (ucast (max_root_entries vol)))
      in drop_bit (sectors_per_cluster_order vol) num_data_sectors)"

definition read_boot_sector :: "'a fat_fs_scheme \<Rightarrow> vol_info \<Rightarrow> int \<times> vol_info \<times> 'a fat_fs_scheme" where
  "read_boot_sector s vol =
     (case full_pread s (\<lambda>_. 0) 0 128 0 of (r, m, s) \<Rightarrow>
        if r \<noteq> 128 then (-1, vol, s)
        else let boot_sec = mem_read m 0 128;
                 vol = vol\<lparr>oem_name := remove_trailing_spaces (take 8 (drop 3 boot_sec) @ drop 8 (oem_name vol))\<rparr> in
        case read_dos_2_0_bpb s vol boot_sec of (ret, vol, s) \<Rightarrow>
        if ret \<noteq> 0 then (ret, vol, s) else
        case read_dos_3_31_bpb vol boot_sec of (ret, vol) \<Rightarrow>
        if ret \<noteq> 0 then (ret, vol, s) else
        case read_fat32_ebpb s vol boot_sec of (ret, vol, s) \<Rightarrow>
        if ret \<noteq> 0 then (ret, vol, s) else
        case read_nonfat32_ebpb vol boot_sec of (ret, vol) \<Rightarrow>
        if ret \<noteq> 0 then (ret, vol, s)
        else (0, vol, s\<lparr>num_data_clusters := count_data_clusters vol\<rparr>))"

section \<open>Mapping and mounting\<close>

text \<open>
  The mapping holds the entries of the table that lie inside the device file; touching pages
  behind its end faults. \<open>fat_size_bytes\<close> and the offsets stay below \<open>2 ^ 48\<close>, so the sum cannot
  wrap and the code's test for it is never true.
\<close>

definition map_fat :: "int \<Rightarrow> bool \<Rightarrow> 'a fat_fs_scheme \<Rightarrow> vol_info \<Rightarrow> int \<times> 'a fat_fs_scheme" where
  "map_fat page_size mmap_ok s vol =
     (if page_size \<le> 0 \<or> \<not> is_power_of_2 (of_int page_size) \<or> page_size > 2 ^ 31
      then (-1, s\<lparr>err := EINVAL\<rparr>)
      else let fat_off = push_bit (sector_order vol) (unat (reserved_sectors vol));
               fat_size_bytes = push_bit (sector_order vol) (unat (sectors_per_fat vol));
               n = min fat_size_bytes (dsize s - fat_off) div 4 in
      if \<not> mmap_ok then (-1, s)
      else (0, s\<lparr>fat_map := map (\<lambda>i. le32_at (disk_read s (fat_off + 4 * i) 4) 0) [0..<n],
                 fat_offset := fat_off\<rparr>))"

definition new_file_object :: "'a fat_fs_scheme \<Rightarrow> fat_file \<Rightarrow> ptr \<times> 'a fat_fs_scheme" where
  "new_file_object s f = (next_file s, s\<lparr>files := (files s)(next_file s \<mapsto> f), next_file := next_file s + 1\<rparr>)"

text \<open>The result \<open>Some None\<close> is \<open>NULL\<close>.\<close>

definition init_file_tree :: "bytes \<Rightarrow> 'a fat_fs_scheme \<Rightarrow> vol_info \<Rightarrow> 'a fat_fs_scheme option option" where
  "init_file_tree junk s vol = do {
     root_dir \<leftarrow> fat_file_init_orphan_dir junk [0x2F] s (root_dir_start_cluster vol);
     (case root_dir of
        None \<Rightarrow> Some None
      | Some f \<Rightarrow> (let (p, s1) = new_file_object s f in do {
          (tree, s2) \<leftarrow> fat_tree_insert (fat_tree_init s1) 0 (Some p);
          Some (Some (s2\<lparr>file_tree := tree\<rparr>)) })) }"

text \<open>The start of the data area is computed with 32 bits, then widened and shifted.\<close>

definition data_start :: "vol_info \<Rightarrow> nat" where
  "data_start vol = push_bit (sector_order vol)
     (unat (ucast (num_tables vol) * sectors_per_fat vol + ucast (reserved_sectors vol)
        + drop_bit (sector_order vol - 5) (ucast (max_root_entries vol)) :: u32))"

definition fat_volume_mount :: "bytes \<Rightarrow> int \<Rightarrow> bool \<Rightarrow> bool \<Rightarrow> 'a fat_fs_scheme \<Rightarrow> nat
    \<Rightarrow> (vol_info \<times> 'a fat_fs_scheme) option option" where
  "fat_volume_mount junk page_size open_ok mmap_ok s flags =
     (if \<not> open_ok then Some None
      else case read_boot_sector s vol_zero of (ret, vol, s1) \<Rightarrow>
        if ret \<noteq> 0 then Some None
        else case map_fat page_size mmap_ok s1 vol of (ret, s2) \<Rightarrow>
        if ret \<noteq> 0 then Some None
        else let vol = vol\<lparr>mount_flags := flags, max_allocated_files := 100\<rparr>;
                 s3 = s2\<lparr>data_start_offset := data_start vol\<rparr> in do {
        r \<leftarrow> init_file_tree junk s3 vol;
        Some (map_option (\<lambda>s4. (vol, s4)) r) })"

definition fat_volume_unmount :: "'a fat_fs_scheme \<Rightarrow> 'a fat_fs_scheme option" where
  "fat_volume_unmount s = fat_tree_destroy s"

section \<open>What an accepted boot sector says\<close>

lemma power_of_2_narrow:
  "is_power_of_2 (ucast (w :: u16)) \<Longrightarrow> unat w = 2 ^ bsr (unat w)"
  "is_power_of_2 (ucast (b :: u8)) \<Longrightarrow> unat b = 2 ^ bsr (unat b)"
  using is_power_of_2_bsr [of "ucast w"] is_power_of_2_bsr [of "ucast b"]
  by (simp_all add: unsigned_ucast_eq take_bit_nat_eq_self order_less_trans [OF unsigned_less])

lemma bpb_ok:
  assumes "read_dos_2_0_bpb s vol b = (0, vol', s')"
  shows "5 \<le> sector_order vol' \<and> sector_order vol' \<le> 12 \<and> unat (bytes_per_sector vol') = 2 ^ sector_order vol'
    \<and> sectors_per_cluster_order vol' \<le> 7 \<and> unat (sectors_per_cluster vol') = 2 ^ sectors_per_cluster_order vol'
    \<and> num_tables vol' \<in> {1, 2} \<and> cluster_order s' = sector_order vol' + sectors_per_cluster_order vol'
    \<and> total_sectors vol' = ucast (le16_at b 19)"
  using assms power_of_2_narrow(1) [of "le16_at b 11"] power_of_2_narrow(2) [of "b ! 13"]
  by (auto simp: read_dos_2_0_bpb_def Let_def split: if_splits)

lemma fat32_ok:
  assumes "read_fat32_ebpb s vol b = (0, vol', s')"
  shows "s' = s \<and> sector_order vol' = sector_order vol \<and> bytes_per_sector vol' = bytes_per_sector vol
    \<and> sectors_per_cluster_order vol' = sectors_per_cluster_order vol \<and> sectors_per_cluster vol' = sectors_per_cluster vol
    \<and> num_tables vol' = num_tables vol \<and> total_sectors vol' = total_sectors vol \<and> reserved_sectors vol' = reserved_sectors vol
    \<and> max_root_entries vol' = max_root_entries vol
    \<and> version vol' = 0 \<and> root_dir_start_cluster vol' \<noteq> 0 \<and> (fs_info_sector vol' \<noteq> 0 \<longrightarrow> 9 \<le> sector_order vol')"
  using assms by (auto simp: read_fat32_ebpb_def Let_def split: if_splits)

lemma boot_sector_ok:
  assumes "read_boot_sector s vol = (0, vol', s')"
  shows "5 \<le> sector_order vol' \<and> sector_order vol' \<le> 12 \<and> unat (bytes_per_sector vol') = 2 ^ sector_order vol'
    \<and> sectors_per_cluster_order vol' \<le> 7 \<and> unat (sectors_per_cluster vol') = 2 ^ sectors_per_cluster_order vol'
    \<and> num_tables vol' \<in> {1, 2} \<and> version vol' = 0 \<and> root_dir_start_cluster vol' \<noteq> 0
    \<and> cluster_order s' = sector_order vol' + sectors_per_cluster_order vol'
    \<and> num_data_clusters s' = count_data_clusters vol'
    \<and> (\<exists>m s1. full_pread s (\<lambda>_. 0) 0 128 0 = (128, m, s1) \<and> total_sectors vol' = ucast (le16_at (mem_read m 0 128) 19))"
proof -
  obtain m s1 where rd: "full_pread s (\<lambda>_. 0) 0 128 0 = (128, m, s1)"
    using assms by (auto simp: read_boot_sector_def split: prod.splits if_splits)
  let ?b = "mem_read m 0 128" and ?v0 = "vol\<lparr>oem_name := remove_trailing_spaces (take 8 (drop 3 (mem_read m 0 128)) @ drop 8 (oem_name vol))\<rparr>"
  obtain v1 s2 where b2: "read_dos_2_0_bpb s1 ?v0 ?b = (0, v1, s2)"
    using assms rd by (auto simp: read_boot_sector_def Let_def split: prod.splits if_splits)
  obtain v2 where b3: "read_dos_3_31_bpb v1 ?b = (0, v2)" by (simp add: read_dos_3_31_bpb_def)
  obtain v3 s3 where b32: "read_fat32_ebpb s2 v2 ?b = (0, v3, s3)"
    using assms rd b2 b3 by (auto simp: read_boot_sector_def Let_def split: prod.splits if_splits)
  obtain v4 where b4: "read_nonfat32_ebpb v3 ?b = (0, v4)" by (simp add: read_nonfat32_ebpb_def)
  have end_: "vol' = v4" "s' = s3\<lparr>num_data_clusters := count_data_clusters v4\<rparr>"
    using assms rd b2 b3 b32 b4 by (auto simp: read_boot_sector_def Let_def)
  show ?thesis
    using bpb_ok [OF b2] fat32_ok [OF b32] b3 b4 rd unfolding end_
    by (auto simp: read_dos_3_31_bpb_def read_nonfat32_ebpb_def count_data_clusters_def)
qed

text \<open>A boot sector of 512-byte sectors, one per cluster, 4096 sectors, one table of 8 sectors.\<close>

definition ex_boot :: "bytes" where
  "ex_boot = (replicate 128 0)[12 := 2, 13 := 1, 14 := 1, 16 := 1, 20 := 16, 36 := 8, 44 := 2]"

definition boot_device :: "bytes \<Rightarrow> fat_fs" where
  "boot_device b = ex_fs\<lparr>disk := (\<lambda>i. if i < 128 then b ! i else 0), dsize := 4096 * 512\<rparr>"

lemma boot_device_read:
  assumes "length b = 128"
  shows "full_pread (boot_device b) (\<lambda>_. 0) 0 128 0 = (128, mem_write (\<lambda>_. 0) 0 b, boot_device b)"
proof -
  have "disk_read (boot_device b) 0 128 = b" using assms by (intro nth_equalityI) (simp_all add: boot_device_def)
  then show ?thesis
    using full_pread_plain [of "boot_device b" 0 128 "\<lambda>_. 0" 0]
    by (simp add: boot_device_def ex_fs_def fat_vol.defs)
qed

lemma boot_sector_run:
  assumes "length b = 128"
  shows "read_boot_sector (boot_device b) vol =
    (let vol = vol\<lparr>oem_name := remove_trailing_spaces (take 8 (drop 3 b) @ drop 8 (oem_name vol))\<rparr> in
     case read_dos_2_0_bpb (boot_device b) vol b of (ret, vol, s) \<Rightarrow>
        if ret \<noteq> 0 then (ret, vol, s) else
        case read_dos_3_31_bpb vol b of (ret, vol) \<Rightarrow>
        if ret \<noteq> 0 then (ret, vol, s) else
        case read_fat32_ebpb s vol b of (ret, vol, s) \<Rightarrow>
        if ret \<noteq> 0 then (ret, vol, s) else
        case read_nonfat32_ebpb vol b of (ret, vol) \<Rightarrow>
        if ret \<noteq> 0 then (ret, vol, s)
        else (0, vol, s\<lparr>num_data_clusters := count_data_clusters vol\<rparr>))"
  using mem_read_write_same [of "\<lambda>_. 0" 0 b] assms
  by (simp add: read_boot_sector_def boot_device_read)

lemma bsr_512: "bsr 512 = 9" "bsr (Suc 0) = 0"
  using bsr_power [of 9] bsr_power [of 0] by simp_all

lemma ex_boot_read: "\<exists>vol' s'. read_boot_sector (boot_device ex_boot) vol_zero = (0, vol', s')"
  by (simp add: boot_sector_run ex_boot_def read_dos_2_0_bpb_def read_dos_3_31_bpb_def read_fat32_ebpb_def
      read_nonfat32_ebpb_def Let_def le16_at_def le32_at_def is_power_of_2_def bsr_512 push_bit_eq_mult)

text \<open>
  a boot sector that is accepted has 32 to 4096 bytes per sector and 1 to 128 sectors per
  cluster, both powers of two, so clusters of at most \<open>2 ^ 19\<close> bytes; one or two tables, version 0
  and a root directory.
\<close>

theorem accepted_boot_sector:
  assumes "read_boot_sector s vol = (0, vol', s')"
  shows "unat (bytes_per_sector vol') = 2 ^ sector_order vol' \<and> sector_order vol' \<in> {5..12}
    \<and> unat (sectors_per_cluster vol') = 2 ^ sectors_per_cluster_order vol' \<and> sectors_per_cluster_order vol' \<le> 7
    \<and> cluster_order s' = sector_order vol' + sectors_per_cluster_order vol' \<and> cluster_order s' \<in> {5..19}
    \<and> num_tables vol' \<in> {1, 2} \<and> version vol' = 0 \<and> root_dir_start_cluster vol' \<noteq> 0"
  using boot_sector_ok [OF assms] by auto

theorem accepted_boot_sector_witness:
  "\<exists>vol' s'. read_boot_sector (boot_device ex_boot) vol_zero = (0, vol', s') \<and> cluster_order s' \<in> {5..19}
    \<and> num_tables vol' \<in> {1, 2}"
  using ex_boot_read accepted_boot_sector by blast

text \<open>
  \<open>total_sectors_32\<close> is never read: when the 16-bit count is 0, as on every volume of 65536
  sectors or more, the number of clusters comes out of a 32-bit subtraction that wraps.
\<close>

theorem total_sectors_wrap:
  assumes "read_boot_sector (boot_device b) vol = (0, vol', s')" and "length b = 128"
    and "b ! 19 = 0" and "b ! 20 = 0" and "max_root_entries vol' = 0" and "reserved_sectors vol' \<noteq> 0"
  shows "unat (num_data_clusters s') = (2 ^ 32 - unat (reserved_sectors vol')) div 2 ^ sectors_per_cluster_order vol'"
proof -
  obtain m s1 where m: "full_pread (boot_device b) (\<lambda>_. 0) 0 128 0 = (128, m, s1)"
    "total_sectors vol' = ucast (le16_at (mem_read m 0 128) 19)"
    and n: "num_data_clusters s' = count_data_clusters vol'"
    using boot_sector_ok [OF assms(1)] by blast
  have "mem_read m 0 128 = b"
    using m(1) boot_device_read [OF assms(2)] mem_read_write_same [of "\<lambda>_. 0" 0 b] assms(2) by simp
  then have "total_sectors vol' = 0" using m(2) assms(3,4) by (simp add: le16_at_def)
  then have c: "num_data_clusters s' = drop_bit (sectors_per_cluster_order vol') (- ucast (reserved_sectors vol'))"
    using n assms(5) by (simp add: count_data_clusters_def)
  have r: "unat (ucast (reserved_sectors vol') :: u32) = unat (reserved_sectors vol')"
    by (simp add: unsigned_ucast_eq take_bit_nat_eq_self order_less_trans [OF unsigned_less])
  have "ucast (reserved_sectors vol') \<noteq> (0 :: u32)" using r assms(6) by (metis unat_0 unat_eq_zero)
  then have "unat (- ucast (reserved_sectors vol') :: u32) = 2 ^ 32 - unat (reserved_sectors vol')"
    using r assms(6) unat_sub_if' [of "0 :: u32" "ucast (reserved_sectors vol')"] by (simp add: unat_gt_0)
  then show ?thesis
    using c drop_bit_eq_div [of _ "_ :: nat"] by (simp only: unat_drop_bit_eq)
qed


theorem total_sectors_wrap_witness:
  "\<exists>vol' s'. read_boot_sector (boot_device (ex_boot[20 := 0])) vol_zero = (0, vol', s')
    \<and> unat (num_data_clusters s') = 2 ^ 32 - 1"
proof -
  have "\<exists>vol' s'. read_boot_sector (boot_device (ex_boot[20 := 0])) vol_zero = (0, vol', s')
    \<and> max_root_entries vol' = 0 \<and> reserved_sectors vol' = 1 \<and> sectors_per_cluster_order vol' = 0"
    by (simp add: boot_sector_run ex_boot_def read_dos_2_0_bpb_def read_dos_3_31_bpb_def read_fat32_ebpb_def
        read_nonfat32_ebpb_def Let_def le16_at_def le32_at_def is_power_of_2_def bsr_512 push_bit_eq_mult)
  then obtain vol' s' where r: "read_boot_sector (boot_device (ex_boot[20 := 0])) vol_zero = (0, vol', s')"
    "max_root_entries vol' = 0" "reserved_sectors vol' = 1" "sectors_per_cluster_order vol' = 0" by blast
  then have "unat (num_data_clusters s') = 2 ^ 32 - 1"
    using total_sectors_wrap [OF r(1)] by (simp add: ex_boot_def)
  then show ?thesis using r(1) by blast
qed

text \<open>
  the data sectors are counted without subtracting the tables: when the tables take at least
  one cluster, the last clusters the driver counts lie behind the last sector of the volume.
\<close>

theorem clusters_past_end:
  assumes "sector_order vol \<le> 12" and "max_root_entries vol = 0"
    and "unat (num_tables vol) * unat (sectors_per_fat vol) + unat (reserved_sectors vol) < 2 ^ 32"
    and "unat (reserved_sectors vol) \<le> unat (total_sectors vol)"
    and "2 ^ sectors_per_cluster_order vol \<le> unat (num_tables vol) * unat (sectors_per_fat vol)"
  shows "unat (total_sectors vol) * 2 ^ sector_order vol
    < data_start vol + unat (count_data_clusters vol) * 2 ^ (sector_order vol + sectors_per_cluster_order vol)"
proof -
  let ?t = "unat (total_sectors vol)" and ?r = "unat (reserved_sectors vol)" and ?k = "sectors_per_cluster_order vol"
  let ?f = "unat (num_tables vol) * unat (sectors_per_fat vol)"
  have r: "unat (ucast (reserved_sectors vol) :: u32) = ?r" and n: "unat (ucast (num_tables vol) :: u32) = unat (num_tables vol)"
    by (simp_all add: unsigned_ucast_eq take_bit_nat_eq_self order_less_trans [OF unsigned_less])
  have "unat (ucast (num_tables vol) * sectors_per_fat vol :: u32) = ?f"
    using n assms(3) by (subst unat_mult_lem [THEN iffD1]) simp_all
  then have "unat (ucast (num_tables vol) * sectors_per_fat vol + ucast (reserved_sectors vol) :: u32) = ?f + ?r"
    using r assms(3) by (subst unat_add_lem [THEN iffD1]) simp_all
  then have d: "data_start vol = (?f + ?r) * 2 ^ sector_order vol"
    using assms(2) by (simp add: data_start_def push_bit_eq_mult)
  have "ucast (reserved_sectors vol) \<le> total_sectors vol" using r assms(4) by (simp add: word_le_nat_alt)
  then have "unat (count_data_clusters vol) = (?t - ?r) div 2 ^ ?k"
    using r assms(2) drop_bit_eq_div [of _ "_ :: nat"]
    by (simp add: count_data_clusters_def unat_drop_bit_eq unat_sub)
  then have c: "unat (count_data_clusters vol) * 2 ^ ?k = (?t - ?r) div 2 ^ ?k * 2 ^ ?k" by simp
  have "?t - ?r < (?t - ?r) div 2 ^ ?k * 2 ^ ?k + 2 ^ ?k"
    using dividend_less_div_times [of "2 ^ ?k" "?t - ?r"] by simp
  then have "?t < ?f + ?r + unat (count_data_clusters vol) * 2 ^ ?k"
    unfolding c using assms(4,5) by linarith
  then have "?t * 2 ^ sector_order vol < (?f + ?r + unat (count_data_clusters vol) * 2 ^ ?k) * 2 ^ sector_order vol"
    by simp
  then show ?thesis using d by (simp add: algebra_simps power_add)
qed

theorem clusters_past_end_witness:
  "(4096 :: nat) * 2 ^ 9 < data_start (vol_zero\<lparr>sector_order := 9, reserved_sectors := 1, num_tables := 1,
      sectors_per_fat := 8, total_sectors := 4096\<rparr>)
    + unat (count_data_clusters (vol_zero\<lparr>sector_order := 9, reserved_sectors := 1, num_tables := 1,
        sectors_per_fat := 8, total_sectors := 4096\<rparr>)) * 2 ^ 9"
  using clusters_past_end [of "vol_zero\<lparr>sector_order := 9, reserved_sectors := 1, num_tables := 1,
      sectors_per_fat := 8, total_sectors := 4096\<rparr>"]
  by (simp add: vol_zero_def)

end
