(* ===== verification/Big_Brother.thy ===== *)
theory Big_Brother
  imports Fat_Volume Fat_Dir
begin

text \<open>
  \<open>Lab4/fat-fuse/big_brother.c\<close>: the hidden directory \<open>/bb\<close>, which has no entry in the root
  directory: its cluster is marked bad in the table and found again by a scan for such marks.

  Files are shared through pointers into \<open>files\<close>; an operation of \<open>fat_file.c\<close>, stated there over
  records, is applied to the file a pointer leads to. The argument \<open>junk\<close> stands for the heap
  bytes behind a duplicated path, as in \<open>fat_file_init_direntry\<close>.
\<close>

section \<open>Operations through file pointers\<close>

definition set_file :: "'a fat_fs_scheme \<Rightarrow> ptr \<Rightarrow> fat_file \<Rightarrow> 'a fat_fs_scheme" where
  "set_file s p f = s\<lparr>files := (files s)(p \<mapsto> f)\<rparr>"

definition read_children_at :: "'a fat_fs_scheme \<Rightarrow> ptr \<Rightarrow> (fat_file list \<times> 'a fat_fs_scheme) option" where
  "read_children_at s p = do {
     f \<leftarrow> files s p;
     (children, f1, s1) \<leftarrow> fat_file_read_children s f;
     Some (case children of None \<Rightarrow> [] | Some fs \<Rightarrow> fs, set_file s1 p f1) }"

text \<open>A tree insertion whose result replaces \<open>vol->file_tree\<close>.\<close>

definition insert_node :: "'a fat_fs_scheme \<Rightarrow> ptr \<Rightarrow> ptr option \<Rightarrow> 'a fat_fs_scheme option" where
  "insert_node s parent new_file = do {
     (tree, s1) \<leftarrow> fat_tree_insert s parent new_file;
     Some (s1\<lparr>file_tree := tree\<rparr>) }"

section \<open>Names\<close>

definition BB_LOG_FILE :: bytes where
  "BB_LOG_FILE = [0x2F, 0x62, 0x62, 0x2F, 0x66, 0x73, 0x2E, 0x6C, 0x6F, 0x67]"

definition BB_DIRNAME :: bytes where "BB_DIRNAME = [0x2F, 0x62, 0x62]"
definition LOG_FILE_BASENAME :: bytes where "LOG_FILE_BASENAME = [0x66, 0x73]"
definition LOG_FILE_EXTENSION :: bytes where "LOG_FILE_EXTENSION = [0x6C, 0x6F, 0x67]"
definition ROOT_PATH :: bytes where "ROOT_PATH = [0x2F]"

text \<open>
  \<open>strncmp (s, t, n) == 0\<close> for the string \<open>s\<close> and the array \<open>t\<close>: the first \<open>n\<close> characters agree,
  or both end before. \<open>None\<close>: the comparison runs over the end of \<open>t\<close>.
\<close>

fun strncmp_eq :: "bytes \<Rightarrow> bytes \<Rightarrow> nat \<Rightarrow> bool option" where
  "strncmp_eq s t 0 = Some True"
| "strncmp_eq s [] (Suc n) = None"
| "strncmp_eq [] (d # t) (Suc n) = Some (d = 0)"
| "strncmp_eq (c # s) (d # t) (Suc n) = (if c = d then strncmp_eq s t n else Some False)"

definition bb_is_log_file_dentry :: "fat_dir_entry \<Rightarrow> bool option" where
  "bb_is_log_file_dentry d = do {
     b \<leftarrow> strncmp_eq LOG_FILE_BASENAME (base_name d) 3;
     (if b then strncmp_eq LOG_FILE_EXTENSION (extension d) 3 else Some False) }"

definition bb_is_log_filepath :: "bytes \<Rightarrow> bool option" where
  "bb_is_log_filepath path = strncmp_eq BB_LOG_FILE (path @ [0]) 8"

definition bb_is_log_dirpath :: "bytes \<Rightarrow> bool option" where
  "bb_is_log_dirpath path = strncmp_eq BB_DIRNAME (path @ [0]) 15"

section \<open>Finding and making the directory\<close>

text \<open>The first iteration that finds the log sets the tree; the result says whether one did.\<close>

definition try_bb_cluster :: "bytes \<Rightarrow> 'a fat_fs_scheme \<Rightarrow> u32 \<Rightarrow> (bool \<times> 'a fat_fs_scheme) option" where
  "try_bb_cluster junk s cluster = do {
     dir \<leftarrow> fat_file_init_orphan_dir junk BB_DIRNAME s cluster;
     loaded_bb_dir \<leftarrow> dir;
     let (bb, s1) = new_file_object s loaded_bb_dir in do {
     (children, s2) \<leftarrow> read_children_at s1 bb;
     (case children of
        [] \<Rightarrow> Some (False, s2)
      | child # _ \<Rightarrow> do {
          d \<leftarrow> dentry child;
          b \<leftarrow> bb_is_log_file_dentry d;
          (if \<not> b then Some (False, s2)
           else let (log, s3) = new_file_object s2 child in do {
             (root_node, s4) \<leftarrow> fat_tree_node_search s3 ROOT_PATH;
             (_, s5) \<leftarrow> fat_tree_insert s4 root_node (Some bb);
             (bb_node, s6) \<leftarrow> fat_tree_node_search s5 BB_DIRNAME;
             s7 \<leftarrow> insert_node s6 bb_node (Some log);
             Some (True, s7) }) }) } }"

text \<open>The \<open>for\<close> loop with \<open>fuel\<close> iterations to go; reading behind the mapped table is \<open>None\<close>.\<close>

primrec search_bb_from :: "nat \<Rightarrow> bytes \<Rightarrow> 'a fat_fs_scheme \<Rightarrow> u32 \<Rightarrow> (u32 \<times> 'a fat_fs_scheme) option" where
  "search_bb_from 0 junk s cluster = Some (0, s)"
| "search_bb_from (Suc n) junk s cluster = do {
     clus \<leftarrow> fat_entry s cluster;
     (if clus = FAT_CLUSTER_BAD_SECTOR then do {
        (found, s1) \<leftarrow> try_bb_cluster junk s cluster;
        (if found then Some (cluster + 1, s1) else search_bb_from n junk s1 (cluster + 1)) }
      else search_bb_from n junk s (cluster + 1)) }"

definition search_bb_orphan_dir_cluster :: "bytes \<Rightarrow> 'a fat_fs_scheme \<Rightarrow> (u32 \<times> 'a fat_fs_scheme) option" where
  "search_bb_orphan_dir_cluster junk s = search_bb_from 9998 junk s 2"

definition bb_init_log_dir :: "bytes \<Rightarrow> 'a fat_fs_scheme \<Rightarrow> u32 \<Rightarrow> (int \<times> 'a fat_fs_scheme) option" where
  "bb_init_log_dir junk s cluster = (let s = s\<lparr>err := E_OK\<rparr> in do {
     dir \<leftarrow> fat_file_init_orphan_dir junk BB_DIRNAME s cluster;
     let (bb, s1) = (case dir of
         None \<Rightarrow> (None, s)
       | Some f \<Rightarrow> (let (p, s1) = new_file_object s f in (Some p, s1))) in do {
     (root_node, s2) \<leftarrow> fat_tree_node_search s1 ROOT_PATH;
     s3 \<leftarrow> insert_node s2 root_node bb;
     Some (- errno_code (err s3), s3) } })"

text \<open>
  \<open>errno = bb_init_log_dir (...)\<close> stores the negated code; the model keeps the code itself, since
  the one caller clears \<open>errno\<close> before anything but its being zero can show.
\<close>

definition bb_create_new_orphan_dir :: "bytes \<Rightarrow> 'a fat_fs_scheme \<Rightarrow> (int \<times> 'a fat_fs_scheme) option" where
  "bb_create_new_orphan_dir junk s = (let s = s\<lparr>err := E_OK\<rparr> in do {
     marked_cluster \<leftarrow> fat_table_get_next_free_cluster s;
     s1 \<leftarrow> fat_table_set_next_cluster s marked_cluster FAT_CLUSTER_BAD_SECTOR;
     (r, s2) \<leftarrow> bb_init_log_dir junk s1 marked_cluster;
     Some (- r, s2) })"

end
