(* ===== verification/Fuse_Ops.thy ===== *)
theory Fuse_Ops
  imports Big_Brother
begin

text \<open>
  \<open>Lab4/fat-fuse/fat_fuse_ops.c\<close>: the handlers the FUSE library calls.

  A handler takes and returns the state of the volume and gives the code's result, 0 or a byte
  count on success and a negated error number otherwise. \<open>fi->fh\<close> is an argument, and a result of
  the two \<open>open\<close> handlers. What the handlers ask of the system is the record \<open>fuse_env\<close>: the heap
  bytes behind a duplicated path (see \<open>fat_file_init_direntry\<close>), the text of the current time, the
  name \<open>getlogin\<close> gives, and the time zone.

  \<open>errno\<close> outlives a handler: only some of them clear it first.
\<close>

record fuse_env =
  junk :: bytes
  now_str :: bytes
  login :: "bytes option"
  tz :: int

definition ret_errno :: "'a fat_fs_scheme \<Rightarrow> int" where
  "ret_errno s = - errno_code (err s)"

definition fail :: "'a fat_fs_scheme \<Rightarrow> errno \<Rightarrow> int \<times> 'a fat_fs_scheme" where
  "fail s e = (- errno_code e, s\<lparr>err := e\<rparr>)"

section \<open>Files and their parents behind pointers\<close>

text \<open>
  The operations that write the directory entry of a file follow its parent pointer. The one file
  without a parent is the root directory, which no handler reads or writes as a file.
\<close>

definition fat_file_pread_at :: "'a fat_fs_scheme \<Rightarrow> ptr \<Rightarrow> nat \<Rightarrow> nat \<Rightarrow> ptr option
    \<Rightarrow> (int \<times> mem \<times> 'a fat_fs_scheme) option" where
  "fat_file_pread_at s p sz offset parent = do {
     f \<leftarrow> files s p;
     q \<leftarrow> parent;
     g \<leftarrow> files s q;
     (n, m, f1, s1) \<leftarrow> fat_file_pread s f (\<lambda>_. 0) 0 sz offset g;
     Some (n, m, set_file s1 p f1) }"

definition fat_file_pwrite_at :: "'a fat_fs_scheme \<Rightarrow> ptr \<Rightarrow> bytes \<Rightarrow> nat \<Rightarrow> ptr option
    \<Rightarrow> (int \<times> 'a fat_fs_scheme) option" where
  "fat_file_pwrite_at s p bs offset parent = do {
     f \<leftarrow> files s p;
     q \<leftarrow> parent;
     g \<leftarrow> files s q;
     (n, f1, s1) \<leftarrow> fat_file_pwrite s f (mem_write (\<lambda>_. 0) 0 bs) 0 (length bs) offset g;
     Some (n, set_file s1 p f1) }"

definition add_child_at :: "'a fat_fs_scheme \<Rightarrow> ptr \<Rightarrow> ptr \<Rightarrow> 'a fat_fs_scheme option" where
  "add_child_at s parent child = do {
     g \<leftarrow> files s parent;
     f \<leftarrow> files s child;
     (g1, f1, s1) \<leftarrow> fat_file_dentry_add_child s g f;
     Some (set_file (set_file s1 parent g1) child f1) }"

section \<open>The activity log\<close>

definition LOG_MESSAGE_SIZE :: nat where "LOG_MESSAGE_SIZE = 100"

definition log_message :: "fuse_env \<Rightarrow> bytes \<Rightarrow> bytes \<Rightarrow> bytes \<Rightarrow> bytes" where
  "log_message env user path operation_type =
     now_str env @ [9] @ user @ [9] @ path @ [9] @ operation_type @ [10]"

text \<open>Running over the end of the 100-byte buffer, its NUL included, is \<open>None\<close>.\<close>

definition fat_fuse_log_activity :: "fuse_env \<Rightarrow> 'a fat_fs_scheme \<Rightarrow> bytes \<Rightarrow> ptr \<Rightarrow> 'a fat_fs_scheme option" where
  "fat_fuse_log_activity env s operation_type file = do {
     user \<leftarrow> login env;
     f \<leftarrow> files s file;
     let buf = log_message env user (filepath f) operation_type in
     if LOG_MESSAGE_SIZE \<le> length buf then None else do {
     (log_node, s1) \<leftarrow> fat_tree_node_search s BB_LOG_FILE;
     (log_file, s2) \<leftarrow> fat_tree_get_file s1 log_node;
     (parent, s3) \<leftarrow> fat_tree_get_parent s2 log_node;
     p \<leftarrow> log_file;
     lf \<leftarrow> files s3 p;
     d \<leftarrow> dentry lf;
     (_, s4) \<leftarrow> fat_file_pwrite_at s3 p buf (unat (file_size d)) parent;
     Some s4 } }"

section \<open>Attributes, opening and closing\<close>

definition fat_fuse_fgetattr :: "fuse_env \<Rightarrow> 'a fat_fs_scheme \<Rightarrow> ptr \<Rightarrow> (int \<times> stat \<times> 'a fat_fs_scheme) option" where
  "fat_fuse_fgetattr env s fh = do {
     (file, s1) \<leftarrow> fat_tree_get_file s fh;
     p \<leftarrow> file;
     f \<leftarrow> files s1 p;
     st \<leftarrow> fat_file_to_stbuf (tz env) s1 f;
     Some (0, st, s1) }"

definition fat_fuse_getattr :: "fuse_env \<Rightarrow> 'a fat_fs_scheme \<Rightarrow> bytes
    \<Rightarrow> (int \<times> stat option \<times> 'a fat_fs_scheme) option" where
  "fat_fuse_getattr env s path = do {
     (file, s1) \<leftarrow> fat_tree_search s path;
     (case file of
        None \<Rightarrow> Some (- errno_code ENOENT, None, s1\<lparr>err := ENOENT\<rparr>)
      | Some p \<Rightarrow> do {
          f \<leftarrow> files s1 p;
          st \<leftarrow> fat_file_to_stbuf (tz env) s1 f;
          Some (0, Some st, s1) }) }"

text \<open>A missing node gives \<open>-errno\<close> without setting it.\<close>

definition fat_fuse_open :: "'a fat_fs_scheme \<Rightarrow> bytes \<Rightarrow> ptr \<Rightarrow> (int \<times> ptr \<times> 'a fat_fs_scheme) option" where
  "fat_fuse_open s path fh = do {
     (file_node, s1) \<leftarrow> fat_tree_node_search s path;
     (if file_node = 0 then Some (ret_errno s1, fh, s1)
      else do {
        (file, s2) \<leftarrow> fat_tree_get_file s1 file_node;
        p \<leftarrow> file;
        f \<leftarrow> files s2 p;
        (if fat_file_is_directory f then Some (- errno_code EISDIR, fh, s2)
         else do {
           s3 \<leftarrow> fat_tree_inc_num_times_opened s2 file_node;
           Some (0, file_node, s3) }) }) }"

definition fat_fuse_opendir :: "'a fat_fs_scheme \<Rightarrow> bytes \<Rightarrow> ptr \<Rightarrow> (int \<times> ptr \<times> 'a fat_fs_scheme) option" where
  "fat_fuse_opendir s path fh = do {
     (file_node, s1) \<leftarrow> fat_tree_node_search s path;
     (if file_node = 0 then Some (ret_errno s1, fh, s1)
      else do {
        (file, s2) \<leftarrow> fat_tree_get_file s1 file_node;
        p \<leftarrow> file;
        f \<leftarrow> files s2 p;
        (if \<not> fat_file_is_directory f then Some (- errno_code ENOTDIR, fh, s2)
         else do {
           s3 \<leftarrow> fat_tree_inc_num_times_opened s2 file_node;
           Some (0, file_node, s3) }) }) }"

definition fat_fuse_release :: "'a fat_fs_scheme \<Rightarrow> ptr \<Rightarrow> (int \<times> 'a fat_fs_scheme) option" where
  "fat_fuse_release s fh = do { s1 \<leftarrow> fat_tree_dec_num_times_opened s fh; Some (0, s1) }"

definition fat_fuse_releasedir :: "'a fat_fs_scheme \<Rightarrow> ptr \<Rightarrow> (int \<times> 'a fat_fs_scheme) option" where
  "fat_fuse_releasedir s fh = do { s1 \<leftarrow> fat_tree_dec_num_times_opened s fh; Some (0, s1) }"

section \<open>Making files and directories\<close>

text \<open>\<open>dirname\<close> of the C library: what precedes the last component.\<close>

definition strip_slashes :: "bytes \<Rightarrow> bytes" where
  "strip_slashes path = rev (dropWhile (\<lambda>c. c = 0x2F) (rev path))"

definition dirname :: "bytes \<Rightarrow> bytes" where
  "dirname path =
     (if path = [] then [0x2E]
      else let q = rev (dropWhile (\<lambda>c. c \<noteq> 0x2F) (rev (strip_slashes path))) in
        if strip_slashes path = [] then [0x2F]
        else if q = [] then [0x2E]
        else if strip_slashes q = [] then [0x2F] else strip_slashes q)"

text \<open>\<open>strdup (path)\<close> and the file object, \<open>NULL\<close> or new.\<close>

definition init_file_object :: "fuse_env \<Rightarrow> 'a fat_fs_scheme \<Rightarrow> bool \<Rightarrow> bytes \<Rightarrow> (ptr option \<times> 'a fat_fs_scheme) option" where
  "init_file_object env s is_dir path = do {
     (file, s1) \<leftarrow> fat_file_init (junk env) s is_dir path;
     Some (case file of None \<Rightarrow> (None, s1) | Some f \<Rightarrow> (let (p, s2) = new_file_object s1 f in (Some p, s2))) }"

definition fat_fuse_mkdir :: "fuse_env \<Rightarrow> 'a fat_fs_scheme \<Rightarrow> bytes \<Rightarrow> (int \<times> 'a fat_fs_scheme) option" where
  "fat_fuse_mkdir env s path = do {
     (parent_node, s1) \<leftarrow> fat_tree_node_search (s\<lparr>err := E_OK\<rparr>) (dirname path);
     (if parent_node = 0 then Some (fail s1 ENOENT)
      else do {
        (parent, s2) \<leftarrow> fat_tree_get_file s1 parent_node;
        q \<leftarrow> parent;
        g \<leftarrow> files s2 q;
        (if \<not> fat_file_is_directory g then Some (fail s2 ENOTDIR)
         else do {
           (new_file, s3) \<leftarrow> init_file_object env s2 True path;
           (if err s3 \<noteq> E_OK then Some (ret_errno s3, s3)
            else do {
              s4 \<leftarrow> insert_node s3 parent_node new_file;
              p \<leftarrow> new_file;
              s5 \<leftarrow> add_child_at s4 q p;
              Some (ret_errno s5, s5) }) }) }) }"

text \<open>\<open>mknod\<close> asks for \<open>errno < 0\<close>, which never holds: it goes on with a \<open>NULL\<close> file.\<close>

definition fat_fuse_mknod :: "fuse_env \<Rightarrow> 'a fat_fs_scheme \<Rightarrow> bytes \<Rightarrow> (int \<times> 'a fat_fs_scheme) option" where
  "fat_fuse_mknod env s path = do {
     (parent_node, s1) \<leftarrow> fat_tree_node_search (s\<lparr>err := E_OK\<rparr>) (dirname path);
     (if parent_node = 0 then Some (fail s1 ENOENT)
      else do {
        (parent, s2) \<leftarrow> fat_tree_get_file s1 parent_node;
        q \<leftarrow> parent;
        g \<leftarrow> files s2 q;
        (if \<not> fat_file_is_directory g then Some (fail s2 ENOTDIR)
         else do {
           (new_file, s3) \<leftarrow> init_file_object env s2 False path;
           (if errno_code (err s3) < 0 then Some (ret_errno s3, s3)
            else do {
              s4 \<leftarrow> insert_node s3 parent_node new_file;
              p \<leftarrow> new_file;
              s5 \<leftarrow> add_child_at s4 q p;
              Some (ret_errno s5, s5) }) }) }) }"

section \<open>Reading directories\<close>

primrec insert_children :: "ptr \<Rightarrow> fat_file list \<Rightarrow> 'a fat_fs_scheme \<Rightarrow> 'a fat_fs_scheme option" where
  "insert_children dir_node [] s = Some s"
| "insert_children dir_node (f # fs) s = (let (p, s1) = new_file_object s f in do {
     s2 \<leftarrow> insert_node s1 dir_node (Some p);
     insert_children dir_node fs s2 })"

definition fat_fuse_read_children :: "fuse_env \<Rightarrow> 'a fat_fs_scheme \<Rightarrow> ptr \<Rightarrow> 'a fat_fs_scheme option" where
  "fat_fuse_read_children env s dir_node = do {
     (dir, s1) \<leftarrow> fat_tree_get_file s dir_node;
     p \<leftarrow> dir;
     (children_list, s2) \<leftarrow> read_children_at s1 p;
     s3 \<leftarrow> insert_children dir_node children_list s2;
     (bb_cluster, s4) \<leftarrow> search_bb_orphan_dir_cluster (junk env) s3;
     (if bb_cluster = 0 then do {
        (_, s5) \<leftarrow> bb_create_new_orphan_dir (junk env) s4;
        (_, s6) \<leftarrow> fat_fuse_mknod env s5 BB_LOG_FILE;
        Some s6 }
      else Some s4) }"

text \<open>
  The walk over the array of children: \<open>NULL\<close> ends it, running over the end of the array is
  \<open>None\<close>. The result is the value of the last \<open>filler\<close> call and the buffer; \<open>/bb\<close> is hidden.
\<close>

fun fill_children :: "(ptr \<Rightarrow> fat_file option) \<Rightarrow> ('b \<Rightarrow> bytes \<Rightarrow> int \<times> 'b) \<Rightarrow> 'b \<Rightarrow> ptr option list
    \<Rightarrow> (int \<times> 'b) option" where
  "fill_children fs filler buf [] = None"
| "fill_children fs filler buf (None # _) = Some (0, buf)"
| "fill_children fs filler buf (Some p # children) = do {
     f \<leftarrow> fs p;
     (if strcmp (filepath f) BB_DIRNAME \<noteq> 0
      then let (error, buf1) = filler buf (fname f) in
        if error \<noteq> 0 then Some (error, buf1) else fill_children fs filler buf1 children
      else fill_children fs filler buf children) }"

definition fat_fuse_readdir :: "fuse_env \<Rightarrow> ('b \<Rightarrow> bytes \<Rightarrow> int \<times> 'b) \<Rightarrow> 'a fat_fs_scheme \<Rightarrow> 'b \<Rightarrow> ptr
    \<Rightarrow> (int \<times> 'b \<times> 'a fat_fs_scheme) option" where
  "fat_fuse_readdir env filler s buf fh = do {
     (dir, s1) \<leftarrow> fat_tree_get_file (s\<lparr>err := E_OK\<rparr>) fh;
     (case filler buf [0x2E] of (e1, buf) \<Rightarrow>
      if e1 \<noteq> 0 then Some (ret_errno s1, buf, s1)
      else case filler buf [0x2E, 0x2E] of (e2, buf) \<Rightarrow>
      if e2 \<noteq> 0 then Some (ret_errno s1, buf, s1)
      else do {
        p \<leftarrow> dir;
        f \<leftarrow> files s1 p;
        (if \<not> fat_file_is_directory f
         then (case fail s1 ENOTDIR of (r, s2) \<Rightarrow> Some (r, buf, s2))
         else do {
           s2 \<leftarrow> (if \<not> children_read f then fat_fuse_read_children env s1 fh else Some s1);
           (if \<not> children_read f \<and> errno_code (err s2) < 0 then Some (ret_errno s2, buf, s2)
            else do {
              (arr, s3) \<leftarrow> fat_tree_flatten_h_children s2 fh;
              children \<leftarrow> arr;
              (error, buf1) \<leftarrow> fill_children (files s3) filler buf children;
              Some (if error \<noteq> 0 then ret_errno s3 else 0, buf1, s3) }) }) }) }"

section \<open>Reading and writing files\<close>

definition FS_LOG :: bytes where "FS_LOG = [0x66, 0x73, 0x2E, 0x6C, 0x6F, 0x67]"
definition READ_OP :: bytes where "READ_OP = [0x52, 0x45, 0x41, 0x44]"
definition WRITE_OP :: bytes where "WRITE_OP = [0x57, 0x52, 0x49, 0x54, 0x45]"

text \<open>The result is the returned count and the bytes in the buffer.\<close>

definition fat_fuse_read :: "fuse_env \<Rightarrow> 'a fat_fs_scheme \<Rightarrow> nat \<Rightarrow> nat \<Rightarrow> ptr
    \<Rightarrow> (int \<times> bytes \<times> 'a fat_fs_scheme) option" where
  "fat_fuse_read env s sz offset fh = do {
     (file, s1) \<leftarrow> fat_tree_get_file (s\<lparr>err := E_OK\<rparr>) fh;
     (parent, s2) \<leftarrow> fat_tree_get_parent s1 fh;
     p \<leftarrow> file;
     (bytes_read, m, s3) \<leftarrow> fat_file_pread_at s2 p sz offset parent;
     (if err s3 \<noteq> E_OK then Some (ret_errno s3, mem_read m 0 sz, s3)
      else do {
        f \<leftarrow> files s3 p;
        s4 \<leftarrow> (if strcmp (fname f) FS_LOG \<noteq> 0 then fat_fuse_log_activity env s3 READ_OP p else Some s3);
        Some (bytes_read, mem_read m 0 sz, s4) }) }"

text \<open>\<open>errno\<close> is not cleared here.\<close>

definition fat_fuse_write :: "fuse_env \<Rightarrow> 'a fat_fs_scheme \<Rightarrow> bytes \<Rightarrow> nat \<Rightarrow> ptr \<Rightarrow> (int \<times> 'a fat_fs_scheme) option" where
  "fat_fuse_write env s buf offset fh = do {
     (file, s1) \<leftarrow> fat_tree_get_file s fh;
     (parent, s2) \<leftarrow> fat_tree_get_parent s1 fh;
     (if buf = [] then Some (0, s2)
      else do {
        p \<leftarrow> file;
        f \<leftarrow> files s2 p;
        d \<leftarrow> dentry f;
        (if offset > unat (file_size d) then Some (- errno_code EOVERFLOW, s2)
         else do {
           s3 \<leftarrow> fat_fuse_log_activity env s2 WRITE_OP p;
           fat_file_pwrite_at s3 p buf offset parent }) }) }"

section \<open>Times, truncation, deletion\<close>

text \<open>
  \<open>fat_fuse_utime\<close> and its siblings look a path up and give \<open>ENOENT\<close> when it is not there; a parent
  looked up for the root directory is \<open>NULL\<close> and sets \<open>errno\<close>.
\<close>

definition fat_fuse_utime :: "'a fat_fs_scheme \<Rightarrow> bytes \<Rightarrow> nat \<Rightarrow> nat \<Rightarrow> (int \<times> 'a fat_fs_scheme) option" where
  "fat_fuse_utime s path actime modtime = do {
     (file_node, s1) \<leftarrow> fat_tree_node_search (s\<lparr>err := E_OK\<rparr>) path;
     (if file_node = 0 \<or> err s1 \<noteq> E_OK then Some (fail s1 ENOENT)
      else do {
        (parent, s2) \<leftarrow> fat_tree_get_parent s1 file_node;
        (case parent of
           None \<Rightarrow> Some (0, s2)
         | Some q \<Rightarrow>
             if err s2 \<noteq> E_OK then Some (0, s2)
             else do {
               (file, s3) \<leftarrow> fat_tree_get_file s2 file_node;
               p \<leftarrow> file;
               f \<leftarrow> files s3 p;
               g \<leftarrow> files s3 q;
               (f1, s4) \<leftarrow> fat_utime s3 f g actime modtime;
               let s5 = set_file s4 p f1 in Some (ret_errno s5, s5) }) }) }"

definition fat_fuse_truncate :: "'a fat_fs_scheme \<Rightarrow> bytes \<Rightarrow> nat \<Rightarrow> (int \<times> 'a fat_fs_scheme) option" where
  "fat_fuse_truncate s path offset = do {
     (file_node, s1) \<leftarrow> fat_tree_node_search (s\<lparr>err := E_OK\<rparr>) path;
     (if file_node = 0 \<or> err s1 \<noteq> E_OK then Some (fail s1 ENOENT)
      else do {
        (file, s2) \<leftarrow> fat_tree_get_file s1 file_node;
        p \<leftarrow> file;
        f \<leftarrow> files s2 p;
        (if fat_file_is_directory f then Some (- errno_code EISDIR, s2)
         else do {
           (parent, s3) \<leftarrow> fat_tree_get_parent s2 file_node;
           s4 \<leftarrow> fat_tree_inc_num_times_opened s3 file_node;
           q \<leftarrow> parent;
           f \<leftarrow> files s4 p;
           g \<leftarrow> files s4 q;
           (f1, s5) \<leftarrow> fat_file_truncate s4 f offset g;
           let s6 = set_file s5 p f1 in Some (ret_errno s6, s6) }) }) }"

definition eliminate_node :: "'a fat_fs_scheme \<Rightarrow> bytes \<Rightarrow> ptr \<Rightarrow> ptr \<Rightarrow> (int \<times> 'a fat_fs_scheme) option" where
  "eliminate_node s path p q = do {
     f \<leftarrow> files s p;
     g \<leftarrow> files s q;
     (f1, s1) \<leftarrow> fat_file_eliminate s f g;
     (_, s2) \<leftarrow> fat_tree_delete (set_file s1 p f1) (Some path);
     Some (ret_errno s2, s2) }"

definition fat_fuse_unlink :: "'a fat_fs_scheme \<Rightarrow> bytes \<Rightarrow> (int \<times> 'a fat_fs_scheme) option" where
  "fat_fuse_unlink s path = do {
     (file_node, s1) \<leftarrow> fat_tree_node_search (s\<lparr>err := E_OK\<rparr>) path;
     (if file_node = 0 \<or> err s1 \<noteq> E_OK then Some (fail s1 ENOENT)
      else do {
        (file, s2) \<leftarrow> fat_tree_get_file s1 file_node;
        p \<leftarrow> file;
        f \<leftarrow> files s2 p;
        (if fat_file_is_directory f then Some (- errno_code EISDIR, s2)
         else do {
           (parent, s3) \<leftarrow> fat_tree_get_parent s2 file_node;
           q \<leftarrow> parent;
           eliminate_node s3 path p q }) }) }"

definition fat_fuse_rmdir :: "'a fat_fs_scheme \<Rightarrow> bytes \<Rightarrow> (int \<times> 'a fat_fs_scheme) option" where
  "fat_fuse_rmdir s path = do {
     (file_node, s1) \<leftarrow> fat_tree_node_search (s\<lparr>err := E_OK\<rparr>) path;
     (if file_node = 0 \<or> err s1 \<noteq> E_OK then Some (fail s1 ENOENT)
      else do {
        (dir, s2) \<leftarrow> fat_tree_get_file s1 file_node;
        p \<leftarrow> dir;
        f \<leftarrow> files s2 p;
        (if \<not> fat_file_is_directory f then Some (- errno_code ENOTDIR, s2)
         else do {
           (children, s3) \<leftarrow> read_children_at s2 p;
           (if children \<noteq> [] then Some (- errno_code ENOTEMPTY, s3)
            else do {
              (parent, s4) \<leftarrow> fat_tree_get_parent s3 file_node;
              (case parent of
                 None \<Rightarrow> Some (- errno_code EBUSY, s4)
               | Some q \<Rightarrow> eliminate_node s4 path p q) }) }) }) }"

section \<open>Looking up paths\<close>

text \<open>A lookup leaves nothing behind but the bookkeeping of the node heap.\<close>

definition touch :: "'a fat_fs_scheme \<Rightarrow> 'a fat_fs_scheme" where
  "touch s = s\<lparr>node_heap := (node_heap s)\<lparr>tree_errno := err s, destroyed := []\<rparr>\<rparr>"

lemma touch_sel [simp]:
  "files (touch s) = files s" "next_file (touch s) = next_file s" "file_tree (touch s) = file_tree s"
  "err (touch s) = err s" "nodes (node_heap (touch s)) = nodes (node_heap s)"
  "brk (node_heap (touch s)) = brk (node_heap s)" "touch (touch s) = touch s"
  "fat_vol.truncate (touch s) = fat_vol.truncate s"
  by (simp_all add: touch_def fat_vol.defs)

lemma tree_inv_touch [simp]: "tree_inv (touch s) t \<longleftrightarrow> tree_inv s t"
  by (simp add: tree_inv_def)

lemma node_path_touch [simp]: "node_path (touch s) = node_path s"
  by (rule ext) (simp add: node_path_def)

lemma leave_enter_touch: "leave_heap s (enter_heap s) = Some (touch s)"
  by (simp add: leave_enter touch_def)

lemma node_search_ok:
  assumes "tree_inv s t" and "key \<in> c_strings"
  obtains q where "fat_tree_node_search s key = Some (q, touch s)"
    and "q \<noteq> 0 \<longleftrightarrow> (\<exists>x \<in> set_tree t. node_path s x = key)"
    and "q \<noteq> 0 \<longrightarrow> q \<in> set_tree t \<and> node_path s q = key"
proof -
  let ?nd = "nodes (node_heap s)"
  obtain root where root: "file_tree s = Some root" "rep ?nd root t" "paths.ordered (files s) ?nd t"
    using assms(1) by (auto simp: tree_inv_def)
  obtain q where q: "h_tree_search (file_cmp_key (files s)) (enter_heap s) root (Some key) = Some (q, enter_heap s)"
    "(q \<noteq> 0) = (\<exists>x \<in> set_tree t. path_of (files s) (datum ?nd x) = key)"
    "q \<noteq> 0 \<longrightarrow> q \<in> set_tree t \<and> path_of (files s) (datum ?nd q) = key"
    using paths.search_ok [of "enter_heap s" root t "files s" key] root assms(2) by auto
  have "fat_tree_node_search s key = Some (q, touch s)"
    using root(1) q(1) by (simp add: fat_tree_node_search_def leave_enter_touch)
  then show thesis using that [of q] q(2,3) by (simp add: node_path_def)
qed

lemma get_file_node:
  assumes "tree_inv s t" and "x \<in> set_tree t"
  shows "fat_tree_get_file s x = Some (Some (datum (nodes (node_heap s)) x), touch s)"
proof -
  obtain root where "rep (nodes (node_heap s)) root t" using assms(1) by (auto simp: tree_inv_def)
  then obtain n d where "nodes (node_heap s) x = Some n" "data n = Some d" "x \<noteq> 0"
    using rep_nodes assms(2) by fastforce
  then show ?thesis by (simp add: fat_tree_get_file_def h_tree_get_data_def leave_enter_touch datum_def)
qed

lemma get_file_null: "fat_tree_get_file s 0 = Some (None, touch (s\<lparr>err := EINVAL\<rparr>))"
  by (simp add: fat_tree_get_file_def h_tree_get_data_def leave_heap_def enter_heap_def touch_def)

lemma node_file:
  assumes "tree_inv s t" and "x \<in> set_tree t"
  shows "\<exists>f. files s (datum (nodes (node_heap s)) x) = Some f \<and> filepath f = node_path s x"
proof -
  have "datum (nodes (node_heap s)) x \<in> named_files (files s)"
    using assms by (auto simp: tree_inv_def paths.ordered_def)
  then show ?thesis by (auto simp: named_files_def node_path_def path_of_def)
qed

lemma tree_search_node:
  assumes "tree_inv s t" and "key \<in> c_strings" and "x \<in> set_tree t" and "node_path s x = key"
  shows "\<exists>p f. fat_tree_search s key = Some (Some p, touch s) \<and> files s p = Some f \<and> filepath f = key"
proof -
  obtain q where q: "fat_tree_node_search s key = Some (q, touch s)" "q \<in> set_tree t" "node_path s q = key"
    using node_search_ok [OF assms(1,2)] assms(3,4) by metis
  have "file_tree s \<noteq> None" "file_tree s \<noteq> Some 0" using assms(1,3) by (cases t; auto simp: tree_inv_def)+
  then have "fat_tree_search s key = Some (Some (datum (nodes (node_heap s)) q), touch s)"
    using q get_file_node [of "touch s" t q] assms(1) by (simp add: fat_tree_search_def)
  then show ?thesis using node_file [OF assms(1) q(2)] q(3) by auto
qed

text \<open>
  \<open>getattr\<close> gives the attributes of the one file of the tree with this path, and \<open>ENOENT\<close> when
  there is none; no file and no byte of the device changes.
\<close>

theorem getattr_spec:
  assumes "tree_inv s t" and "path \<in> c_strings" and "t \<noteq> Leaf"
    and "\<forall>x \<in> set_tree t. \<exists>f. files s (datum (nodes (node_heap s)) x) = Some f \<and> dentry f \<noteq> None"
  shows "\<exists>r st s'. fat_fuse_getattr env s path = Some (r, st, s') \<and> files s' = files s \<and> disk s' = disk s
    \<and> (if \<exists>x \<in> set_tree t. node_path s x = path
       then r = 0 \<and> (\<exists>x \<in> set_tree t. \<exists>f. node_path s x = path
         \<and> files s (datum (nodes (node_heap s)) x) = Some f \<and> st = fat_file_to_stbuf (tz env) s f \<and> st \<noteq> None)
       else r = - 2 \<and> st = None \<and> err s' = ENOENT)"
proof -
  obtain q where q: "fat_tree_node_search s path = Some (q, touch s)"
    "q \<noteq> 0 \<longleftrightarrow> (\<exists>x \<in> set_tree t. node_path s x = path)" "q \<noteq> 0 \<longrightarrow> q \<in> set_tree t \<and> node_path s q = path"
    using node_search_ok [OF assms(1,2)] by blast
  obtain root where ft: "file_tree s = Some root" "root \<noteq> 0" using assms(1,3) by (cases t) (auto simp: tree_inv_def)
  have d: "disk (touch s) = disk s" by (simp add: touch_def)
  show ?thesis
  proof (cases "q = 0")
    case True
    then have "fat_tree_search s path = Some (None, touch (touch s\<lparr>err := EINVAL\<rparr>))"
      using q(1) ft by (simp add: fat_tree_search_def get_file_null)
    then have "fat_fuse_getattr env s path = Some (- 2, None, (touch (touch s\<lparr>err := EINVAL\<rparr>))\<lparr>err := ENOENT\<rparr>)"
      by (simp add: fat_fuse_getattr_def)
    then show ?thesis using q(2) True by (auto simp: touch_def)
  next
    case False
    then have x: "q \<in> set_tree t" "node_path s q = path" using q(3) by auto
    then obtain f d where f: "files s (datum (nodes (node_heap s)) q) = Some f" "dentry f = Some d" using assms(4) by fastforce
    have "fat_tree_search s path = Some (Some (datum (nodes (node_heap s)) q), touch s)"
      using q(1) ft get_file_node [of "touch s" t q] assms(1) x(1) by (simp add: fat_tree_search_def)
    moreover have "fat_file_to_stbuf (tz env) (touch s) f = fat_file_to_stbuf (tz env) s f" "fat_file_to_stbuf (tz env) s f \<noteq> None"
      using f(2) by (simp_all add: fat_file_to_stbuf_def touch_def fat_table_get_clusters_for_size_def fat_table_bytes_per_cluster_def)
    ultimately have "fat_fuse_getattr env s path = Some (0, fat_file_to_stbuf (tz env) s f, touch s)"
      using f by (auto simp: fat_fuse_getattr_def)
    then show ?thesis using d x f \<open>fat_file_to_stbuf (tz env) s f \<noteq> None\<close> by auto
  qed
qed

definition ex_env :: fuse_env where
  "ex_env = \<lparr>junk = replicate 7 0, now_str = replicate 16 0x30, login = Some [0x75], tz = 0\<rparr>"

theorem getattr_spec_witness:
  "\<exists>st s'. fat_fuse_getattr ex_env ex_fs [0x2F, 0x7A] = Some (- 2, st, s') \<and> err s' = ENOENT"
proof -
  have "\<forall>x \<in> set_tree ex_tree. \<exists>f. files ex_fs (datum (nodes (node_heap ex_fs)) x) = Some f \<and> dentry f \<noteq> None"
    by (simp add: ex_paths(6) datum_def ex_heap_def ex_node_def ex_files_def ex_file_def)
  moreover have "\<not> (\<exists>x \<in> set_tree ex_tree. node_path ex_fs x = [0x2F, 0x7A])" by (auto simp: ex_paths)
  ultimately show ?thesis
    using getattr_spec [OF ex_inv, of "[0x2F, 0x7A]" ex_env] by (auto simp: c_strings_def ex_tree_def)
qed

section \<open>Listing directories\<close>

lemma strcmp_zero:
  "cs \<in> c_strings \<Longrightarrow> ds \<in> c_strings \<Longrightarrow> strcmp cs ds = 0 \<longleftrightarrow> cs = ds"
  by (metis strcmp_sign linorder_less_linear less_irrefl)

lemma fill_children_append:
  assumes "\<forall>p \<in> set ps. \<exists>f. fs p = Some f \<and> filepath f \<in> c_strings"
  shows "fill_children fs (\<lambda>b n. (0, b @ [n])) buf (map Some ps @ None # zs)
    = Some (0, buf @ map (\<lambda>p. fname (the (fs p))) (filter (\<lambda>p. filepath (the (fs p)) \<noteq> BB_DIRNAME) ps))"
  using assms
proof (induction ps arbitrary: buf)
  case (Cons p ps)
  then obtain f where f: "fs p = Some f" "filepath f \<in> c_strings" by auto
  have "BB_DIRNAME \<in> c_strings" by (simp add: BB_DIRNAME_def c_strings_def)
  then have "strcmp (filepath f) BB_DIRNAME = 0 \<longleftrightarrow> filepath f = BB_DIRNAME"
    using strcmp_zero [OF f(2)] by simp
  then show ?case using Cons f by simp
qed simp

lemma flatten_siblings_overrun:
  assumes "siblings (nodes s) p cs" and "0 \<le> i" and "int (length arr) \<le> i + int (length cs)"
  shows "flatten_siblings s p arr i = None"
  using assms
proof (induction cs arbitrary: p i arr)
  case Nil
  then show ?case by (simp add: flatten_siblings.simps store_def)
next
  case (Cons c cs)
  then obtain n where n: "nodes s c = Some n" "p = c" "c \<noteq> 0" "siblings (nodes s) (h_next_sibling n) cs" by auto
  have "flatten_siblings s (h_next_sibling n) (arr[nat i := data n]) (i + 1) = None"
    by (rule Cons.IH) (use Cons.prems n in auto)
  then show ?case using n by (subst flatten_siblings.simps) (auto simp: store_def bind_eq_None_conv)
qed

text \<open>A directory whose children are in the tree: its node \<open>n\<close>, its file \<open>f\<close>, its child nodes.\<close>

definition dir_at :: "'a fat_fs_scheme \<Rightarrow> ptr \<Rightarrow> fat_file \<Rightarrow> ptr list \<Rightarrow> bool" where
  "dir_at s x f cs \<longleftrightarrow> x \<noteq> 0 \<and> (\<exists>n p. nodes (node_heap s) x = Some n \<and> data n = Some p \<and> files s p = Some f
     \<and> 0 < nsize n \<and> siblings (nodes (node_heap s)) (h_children n) cs)
   \<and> fat_file_is_directory f \<and> children_read f \<and> sint (nentries f) \<ge> 0"

lemma dir_at_get:
  assumes "dir_at s x f cs"
  obtains p where "fat_tree_get_file (s\<lparr>err := E_OK\<rparr>) x = Some (Some p, touch (s\<lparr>err := E_OK\<rparr>))" and "files s p = Some f"
  using assms that by (auto simp: dir_at_def fat_tree_get_file_def h_tree_get_data_def leave_enter_touch)

lemma dir_at_flatten:
  assumes "dir_at s x f cs" and "\<forall>c \<in> set cs. data (the (nodes (node_heap s) c)) \<noteq> None"
  shows "fat_tree_flatten_h_children s x = (if int (length cs) \<le> sint (nentries f)
     then Some (Some (map (\<lambda>c. Some (datum (nodes (node_heap s)) c)) cs
       @ None # replicate (nat (sint (nentries f)) - length cs) None), touch s)
     else None)"
proof -
  let ?k = "sint (nentries f)"
  obtain n p where n: "nodes (node_heap s) x = Some n" "data n = Some p" "files s p = Some f" "0 < nsize n"
    "siblings (nodes (node_heap s)) (h_children n) cs" "x \<noteq> 0" "?k \<ge> 0" using assms(1) by (auto simp: dir_at_def)
  have run: "fat_tree_flatten_h_children s x = do {
      arr \<leftarrow> flatten_siblings (node_heap (touch s)) (h_children n) (replicate (nat (?k + 1)) None) 0; Some (Some arr, touch s) }"
    using n by (simp add: fat_tree_flatten_h_children_def h_tree_size_def fat_tree_get_file_def h_tree_get_data_def
        leave_enter_touch h_tree_flatten_h_children_def)
  show ?thesis
  proof (cases "int (length cs) \<le> ?k")
    case True
    then have "nat (?k + 1) = length cs + 1 + (nat ?k - length cs)" using n(7) by linarith
    then have "replicate (nat (?k + 1)) (None :: ptr option) = [] @ replicate (length cs + 1) None @ replicate (nat ?k - length cs) None"
      by (simp only: replicate_add append_Nil)
    then show ?thesis
      using run True flatten_siblings_ok [of "node_heap (touch s)" "h_children n" cs 0 "[]" "replicate (length cs + 1) None"
          "replicate (nat ?k - length cs) None"] n(5) assms(2) by simp
  next
    case False
    then show ?thesis using run flatten_siblings_overrun [of "node_heap (touch s)" "h_children n" cs 0] n(5,7) by simp
  qed
qed

text \<open>
  listing a directory whose children have been read gives \<open>.\<close>, \<open>..\<close> and the names of its
  children in the order of the child list, all but the one with the path \<open>/bb\<close>.
\<close>

theorem readdir_spec:
  assumes "dir_at s x f cs" and "int (length cs) \<le> sint (nentries f)"
    and "\<forall>c \<in> set cs. \<exists>p g. map_option data (nodes (node_heap s) c) = Some (Some p) \<and> files s p = Some g \<and> filepath g \<in> c_strings"
  shows "\<exists>s'. fat_fuse_readdir env (\<lambda>b n. (0, b @ [n])) s [] x = Some (0,
      [[0x2E], [0x2E, 0x2E]] @ map (\<lambda>c. fname (the (files s (datum (nodes (node_heap s)) c))))
        (filter (\<lambda>c. node_path s c \<noteq> BB_DIRNAME) cs), s')"
proof -
  let ?s = "touch (s\<lparr>err := E_OK\<rparr>)" and ?d = "datum (nodes (node_heap s))"
  obtain p where p: "fat_tree_get_file (s\<lparr>err := E_OK\<rparr>) x = Some (Some p, ?s)" "files s p = Some f"
    using dir_at_get [OF assms(1)] by blast
  have d: "\<exists>g. files s (?d c) = Some g \<and> filepath g \<in> c_strings \<and> node_path s c = filepath g \<and> data (the (nodes (node_heap s) c)) \<noteq> None"
    if "c \<in> set cs" for c using assms(3) that by (fastforce simp: datum_def node_path_def path_of_def)
  have d': "\<forall>c \<in> set cs. data (the (nodes (node_heap s) c)) \<noteq> None" using d by fast
  have "dir_at ?s x f cs" using assms(1) by (simp add: dir_at_def)
  then have fl: "fat_tree_flatten_h_children ?s x
      = Some (Some (map Some (map ?d cs) @ None # replicate (nat (sint (nentries f)) - length cs) None), ?s)"
    using dir_at_flatten [of ?s x f cs] assms(2) d' by (simp add: comp_def)
  have "filter (\<lambda>p. filepath (the (files s p)) \<noteq> BB_DIRNAME) (map ?d cs) = map ?d (filter (\<lambda>c. node_path s c \<noteq> BB_DIRNAME) cs)"
    by (simp add: filter_map comp_def node_path_def path_of_def)
  moreover have "\<forall>p \<in> set (map ?d cs). \<exists>g. files s p = Some g \<and> filepath g \<in> c_strings" using d by fastforce
  ultimately have "fill_children (files s) (\<lambda>b n. (0, b @ [n])) [[0x2E], [0x2E, 0x2E]]
      (map Some (map ?d cs) @ None # replicate (nat (sint (nentries f)) - length cs) None)
    = Some (0, [[0x2E], [0x2E, 0x2E]] @ map (\<lambda>c. fname (the (files s (?d c)))) (filter (\<lambda>c. node_path s c \<noteq> BB_DIRNAME) cs))"
    using fill_children_append [of "map ?d cs" "files s"] by simp
  then show ?thesis
    using p fl assms(1) by (simp add: fat_fuse_readdir_def dir_at_def)
qed

text \<open>
  the array of children has one place per entry of the directory and one for the end mark, but
  \<open>/bb\<close> is a child without an entry: a root directory whose entries are all files has one child
  too many and listing it writes behind the array.
\<close>

theorem readdir_overrun:
  assumes "dir_at s x f cs" and "sint (nentries f) < int (length cs)"
    and "\<forall>c \<in> set cs. data (the (nodes (node_heap s) c)) \<noteq> None"
  shows "fat_fuse_readdir env (\<lambda>b n. (0, b @ [n])) s [] x = None"
proof -
  obtain p where p: "fat_tree_get_file (s\<lparr>err := E_OK\<rparr>) x = Some (Some p, touch (s\<lparr>err := E_OK\<rparr>))" "files s p = Some f"
    using dir_at_get [OF assms(1)] by blast
  have "dir_at (touch (s\<lparr>err := E_OK\<rparr>)) x f cs" using assms(1) by (simp add: dir_at_def)
  then have "fat_tree_flatten_h_children (touch (s\<lparr>err := E_OK\<rparr>)) x = None"
    using dir_at_flatten assms(2,3) by fastforce
  then show ?thesis using p assms(1) by (simp add: fat_fuse_readdir_def dir_at_def)
qed

text \<open>The root directory with the one file \<open>/A.TXT\<close>, and \<open>/bb\<close>.\<close>

definition dir_fs :: "u32 \<Rightarrow> fat_fs" where
  "dir_fs n = ex_fs\<lparr>files := [1 \<mapsto> small_dir\<lparr>nentries := n\<rparr>, 2 \<mapsto> small_file, 3 \<mapsto> small_dir\<lparr>filepath := BB_DIRNAME, fname := [0x62, 0x62]\<rparr>],
     node_heap := ex_heap\<lparr>nodes := [11 \<mapsto> (ex_node 1 0 12 3)\<lparr>h_children := 13\<rparr>,
       12 \<mapsto> (ex_node 2 0 13 2)\<lparr>h_parent := 11\<rparr>, 13 \<mapsto> (ex_node 3 0 0 1)\<lparr>h_parent := 11, h_next_sibling := 12\<rparr>]\<rparr>,
     file_tree := Some 11\<rparr>"

lemma dir_fs_sel: "nodes (node_heap (dir_fs n)) = [11 \<mapsto> (ex_node 1 0 12 3)\<lparr>h_children := 13\<rparr>,
       12 \<mapsto> (ex_node 2 0 13 2)\<lparr>h_parent := 11\<rparr>, 13 \<mapsto> (ex_node 3 0 0 1)\<lparr>h_parent := 11, h_next_sibling := 12\<rparr>]"
  "files (dir_fs n) = [1 \<mapsto> small_dir\<lparr>nentries := n\<rparr>, 2 \<mapsto> small_file, 3 \<mapsto> small_dir\<lparr>filepath := BB_DIRNAME, fname := [0x62, 0x62]\<rparr>]"
  by (simp_all add: dir_fs_def)

lemma dir_fs_dir: "sint n \<ge> 0 \<Longrightarrow> dir_at (dir_fs n) 11 (small_dir\<lparr>nentries := n\<rparr>) [13, 12]"
  by (simp add: dir_at_def dir_fs_sel ex_node_def small_dir_def fat_file_is_directory_def)

theorem readdir_spec_witness:
  "\<exists>s'. fat_fuse_readdir ex_env (\<lambda>b n. (0, b @ [n])) (dir_fs 2) [] 11
    = Some (0, [[0x2E], [0x2E, 0x2E], [0x41, 0x2E, 0x54, 0x58, 0x54]], s')"
proof -
  have "\<forall>c \<in> set [13, 12]. \<exists>p g. map_option data (nodes (node_heap (dir_fs 2)) c) = Some (Some p)
      \<and> files (dir_fs 2) p = Some g \<and> filepath g \<in> c_strings"
    by (simp add: dir_fs_sel ex_node_def c_strings_def BB_DIRNAME_def small_file_def)
  then show ?thesis
    using readdir_spec [OF dir_fs_dir, of 2 ex_env]
    by (simp add: dir_fs_sel ex_node_def datum_def node_path_def path_of_def small_dir_def BB_DIRNAME_def small_file_def)
qed

theorem readdir_overrun_witness:
  "fat_fuse_readdir ex_env (\<lambda>b n. (0, b @ [n])) (dir_fs 1) [] 11 = None"
  by (rule readdir_overrun [OF dir_fs_dir]) (simp_all add: dir_fs_sel ex_node_def small_dir_def)

section \<open>Creating files\<close>

lemma disk_write_fs [simp]:
  "files (disk_write s off bs) = files s" "next_file (disk_write s off bs) = next_file s"
  "node_heap (disk_write s off bs) = node_heap s" "file_tree (disk_write s off bs) = file_tree s"
  by (simp_all add: disk_write_def)

text \<open>The invariant only looks at the paths of the files in the tree.\<close>

lemma tree_inv_cong:
  assumes "tree_inv s t" and "file_tree s' = file_tree s" and "nodes (node_heap s') = nodes (node_heap s)"
    and "brk (node_heap s') = brk (node_heap s)"
    and "\<And>x. x \<in> set_tree t \<Longrightarrow> map_option filepath (files s' (datum (nodes (node_heap s)) x))
      = map_option filepath (files s (datum (nodes (node_heap s)) x))"
  shows "tree_inv s' t" and "\<And>x. x \<in> set_tree t \<Longrightarrow> node_path s' x = node_path s x"
proof -
  let ?d = "datum (nodes (node_heap s))"
  have named: "path_of (files s') (?d x) = path_of (files s) (?d x) \<and> ?d x \<in> named_files (files s')"
    if x: "x \<in> set_tree t" for x
  proof -
    have "?d x \<in> named_files (files s)" using assms(1) x by (auto simp: tree_inv_def paths.ordered_def)
    then obtain f where f: "files s (?d x) = Some f" "filepath f \<in> c_strings" by (auto simp: named_files_def)
    then obtain f' where "files s' (?d x) = Some f'" "filepath f' = filepath f" using assms(5) [OF x] by auto
    with f show ?thesis by (auto simp: path_of_def named_files_def)
  qed
  then show "node_path s' x = node_path s x" if "x \<in> set_tree t" for x
    using that assms(3) by (simp add: node_path_def)
  have "bst_wrt (\<lambda>x y. path_of (files s') (?d x) < path_of (files s') (?d y)) t"
    using assms(1) by (auto simp: tree_inv_def paths.ordered_def named elim!: bst_wrt_eq)
  then have "paths.ordered (files s') (nodes (node_heap s)) t" using named by (simp add: paths.ordered_def)
  then show "tree_inv s' t" using assms(1-4) by (auto simp: tree_inv_def)
qed

lemma search_after:
  assumes "tree_inv s t" "tree_inv s' t'" "set_tree t' = insert a (set_tree t)" "node_path s' a = k" "k \<in> c_strings"
    and "datum (nodes (node_heap s')) a = p"
    and "\<And>x. x \<in> set_tree t \<Longrightarrow> node_path s' x = node_path s x \<and> datum (nodes (node_heap s')) x = datum (nodes (node_heap s)) x"
  shows "map_option fst (fat_tree_search s' k) = Some (Some p)"
    and "key \<in> c_strings \<Longrightarrow> key \<noteq> k \<Longrightarrow> map_option fst (fat_tree_search s' key) = map_option fst (fat_tree_search s key)"
proof -
  show "map_option fst (fat_tree_search s' k) = Some (Some p)"
    using search_value [OF assms(2,5), of a] assms(3,4,6) by simp
  assume key: "key \<in> c_strings" "key \<noteq> k"
  show "map_option fst (fat_tree_search s' key) = map_option fst (fat_tree_search s key)"
  proof (cases "\<exists>x \<in> set_tree t. node_path s x = key")
    case True
    then obtain x where x: "x \<in> set_tree t" "node_path s x = key" by blast
    then have "node_path s' x = key" "x \<in> set_tree t'" "datum (nodes (node_heap s')) x = datum (nodes (node_heap s)) x"
      using assms(3,7) by auto
    then show ?thesis using search_value [OF assms(2) key(1)] search_value [OF assms(1) key(1) x] by metis
  next
    case False
    then have "\<forall>x \<in> set_tree t'. node_path s' x \<noteq> key" using assms(3,4,7) key(2) by auto
    then show ?thesis
      using search_absent [OF assms(1) key(1)] search_absent [OF assms(2) key(1)] False by auto
  qed
qed

text \<open>A path whose last component has an 8.3 form.\<close>

definition storable :: "bytes \<Rightarrow> bytes \<Rightarrow> bool" where
  "storable jk path \<longleftrightarrow> (\<exists>raw. filename_from_path (basename path @ 0 # jk) (replicate 32 0) = Some raw
     \<and> length raw = 32 \<and> build_filename (take 8 raw) (take 3 (drop 8 raw)) \<noteq> None)"

lemma init_direntry_ok:
  assumes "storable jk path"
  shows "\<exists>d nm. fat_file_init_direntry jk now is_dir path c = Some d \<and> build_filename (base_name d) (extension d) = Some nm
    \<and> file_size d = 0 \<and> file_start_cluster d = c \<and> length (base_name d) = 8 \<and> length (extension d) = 3
    \<and> attribs d = (if is_dir then FILE_ATTRIBUTE_DIRECTORY else FILE_ATTRIBUTE_ARCHIVE)"
proof -
  obtain raw nm where raw: "filename_from_path (basename path @ 0 # jk) (replicate 32 0) = Some raw" "length raw = 32"
    "build_filename (take 8 raw) (take 3 (drop 8 raw)) = Some nm" using assms by (auto simp: storable_def)
  have fc: "file_start_cluster ((set_first_cluster d c)\<lparr>file_size := 0\<rparr>) = c" for d :: fat_dir_entry
    by (rule bit_word_eqI) (auto simp: file_start_cluster_def set_first_cluster_def bit_simps)
  show ?thesis
    using raw fc by (auto simp: fat_file_init_direntry_def fill_dentry_time_now_def Let_def dentry_of_bytes_def
        set_first_cluster_def split: prod.splits)
qed

lemma fat_file_init_ok:
  assumes "fat_wf v" and "valid_cluster v e" and "fat_entry v e = Some 0" and "storable jk path"
  shows "\<exists>c d f v1. fat_table_get_next_free_cluster v = Some c \<and> valid_cluster v c \<and> fat_entry v c = Some 0
    \<and> fat_table_set_next_cluster v c FAT_CLUSTER_END_OF_CHAIN_MAX = Some v1
    \<and> fat_file_init jk v is_dir path = Some (Some f, v1) \<and> fat_wf v1 \<and> filepath f = path \<and> dentry f = Some d
    \<and> file_size d = 0 \<and> start_cluster f = c \<and> length (base_name d) = 8 \<and> length (extension d) = 3
    \<and> file_start_cluster d = c"
proof -
  obtain c where c: "fat_table_get_next_free_cluster v = Some c" "valid_cluster v c" "fat_entry v c = Some 0"
    using next_free_least [OF assms(1-3)] by blast
  obtain d nm where d: "fat_file_init_direntry jk (clock v) is_dir path c = Some d"
    "build_filename (base_name d) (extension d) = Some nm" "file_size d = 0" "file_start_cluster d = c"
    "length (base_name d) = 8" "length (extension d) = 3"
    using init_direntry_ok [OF assms(4)] by metis
  obtain v1 where v1: "fat_table_set_next_cluster v c FAT_CLUSTER_END_OF_CHAIN_MAX = Some v1" "fat_wf v1"
    using set_next_cluster_wf [OF assms(1) c(2)] set_next_cluster_laws(1) [OF assms(1) c(2)] by blast
  have "err v = E_OK" "err v1 = E_OK" using assms(1) v1(2) by (simp_all add: fat_wf_def)
  then show ?thesis
    using c d v1 by (simp add: fat_file_init_def fat_table_is_cluster_used_def fat_file_init_empty_def Let_def)
qed

lemma truncate_eq:
  assumes "fat_vol.truncate a = fat_vol.truncate b"
  shows "fat_wf a = fat_wf b" "fat_entry a = fat_entry b" "cluster_order a = cluster_order b" "err a = err b"
proof -
  have e: "script a = script b" "err a = err b" "fat_map a = fat_map b" "num_data_clusters a = num_data_clusters b"
    "cluster_order a = cluster_order b" "fat_offset a = fat_offset b" "data_start_offset a = data_start_offset b"
    "dsize a = dsize b"
    using assms by (simp_all add: fat_vol.defs)
  then show "fat_wf a = fat_wf b" "cluster_order a = cluster_order b" "err a = err b" by (simp_all add: fat_wf_def)
  show "fat_entry a = fat_entry b" by (rule ext) (simp add: fat_entry_def e)
qed

lemma node_path_inj:
  assumes "tree_inv s t" "x \<in> set_tree t" "y \<in> set_tree t" "node_path s x = node_path s y"
  shows "x = y"
proof -
  have "paths.ordered (files s) (nodes (node_heap s)) t" using assms(1) by (auto simp: tree_inv_def)
  then show ?thesis
    using assms(2-4)
  proof (induction t)
    case (Node l z r)
    then show ?case by (force simp: paths.ordered_Node node_path_def)
  qed simp
qed

lemma set_rev_dropWhile: "set (rev (dropWhile P (rev xs))) \<subseteq> set xs"
  using set_dropWhileD [of _ P "rev xs"] by auto

lemma dirname_c_string:
  assumes "path \<in> c_strings"
  shows "dirname path \<in> c_strings"
proof -
  let ?s = "strip_slashes path" and ?q = "rev (dropWhile (\<lambda>c. c \<noteq> 0x2F) (rev (strip_slashes path)))"
  have "set (strip_slashes ?q) \<subseteq> set ?q" "set ?q \<subseteq> set ?s" "set ?s \<subseteq> set path"
    unfolding strip_slashes_def by (rule set_rev_dropWhile)+
  then have "0 \<notin> set (strip_slashes ?q)" using assms by (auto simp: c_strings_def)
  then show ?thesis by (simp add: dirname_def c_strings_def Let_def)
qed

lemma insert_node_ok:
  assumes "tree_inv s t" "files s p = Some f" "filepath f \<in> c_strings"
    and "\<forall>x \<in> set_tree t. node_path s x \<noteq> filepath f" "x \<in> set_tree t"
  shows "\<exists>s' a t'. insert_node s x (Some p) = Some s' \<and> tree_inv s' t'
    \<and> set_tree t' = insert a (set_tree t) \<and> datum (nodes (node_heap s')) a = p \<and> node_path s' a = filepath f
    \<and> files s' = files s \<and> fat_vol.truncate s' = fat_vol.truncate s
    \<and> (\<forall>y \<in> set_tree t. datum (nodes (node_heap s')) y = datum (nodes (node_heap s)) y \<and> node_path s' y = node_path s y)"
proof -
  have "nodes (node_heap s) x \<noteq> None" using assms(1,5) rep_nodes by (fastforce simp: tree_inv_def)
  then obtain root' s' a t' where i: "fat_tree_insert s x (Some p) = Some (Some root', s')" "tree_inv s' t'"
    "set_tree t' = insert a (set_tree t)" "datum (nodes (node_heap s')) a = p" "files s' = files s"
    "\<forall>y \<in> set_tree t. datum (nodes (node_heap s')) y = datum (nodes (node_heap s)) y"
    "fat_vol.truncate s' = fat_vol.truncate s"
    using insert_tree_ok [OF assms(1-4), of x] by blast
  have "file_tree s' = Some root'" using i(1) by (auto simp: fat_tree_insert_def split: if_splits)
  then have "insert_node s x (Some p) = Some s'" using i(1) by (simp add: insert_node_def)
  then show ?thesis
    using i assms(2) by (intro exI [of _ s'] exI [of _ a] exI [of _ t']) (simp add: node_path_def path_of_def)
qed

text \<open>A directory with room for one more entry, and what adding the entry leaves.\<close>

lemma add_child_at_ok:
  assumes "fat_wf s" "files s q = Some g" "files s p = Some f" "p \<noteq> q" "dentry f = Some d"
    and "length (base_name d) = 8" "length (extension d) = 3" "32 * unat (nentries g) + 32 \<le> 2 ^ cluster_order s"
  shows "\<exists>off. add_child_at s q p = Some ((disk_write s off (dentry_bytes d))
    \<lparr>files := (files s)(q \<mapsto> g\<lparr>nentries := nentries g + 1\<rparr>, p \<mapsto> f\<lparr>pos_in_parent := nentries g\<rparr>)\<rparr>)"
proof -
  let ?f = "f\<lparr>pos_in_parent := nentries g\<rparr>"
  have "write_dir_entry s g ?f = Some (disk_write s (dir_slot s g ?f) (dentry_bytes d))"
    by (rule write_dir_entry_ok) (use assms in simp_all)
  moreover have "err s = E_OK" using assms(1) by (simp add: fat_wf_def)
  ultimately have "fat_file_dentry_add_child s g f
      = Some (g\<lparr>nentries := nentries g + 1\<rparr>, ?f, disk_write s (dir_slot s g ?f) (dentry_bytes d))"
    by (simp add: fat_file_dentry_add_child_def Let_def)
  then show ?thesis using assms(2-4) by (auto simp: add_child_at_def set_file_def intro!: exI [of _ "dir_slot s g ?f"])
qed

lemma set_next_cluster_fs:
  fixes s :: "'a fat_fs_scheme"
  assumes "fat_wf s" "valid_cluster s c" "fat_table_set_next_cluster s c v = Some s1"
  shows "files s1 = files s" "next_file s1 = next_file s" "node_heap s1 = node_heap s" "file_tree s1 = file_tree s"
    "cluster_order s1 = cluster_order s" "fat_entry s1 = (fat_entry s)(c \<mapsto> v)"
  using set_next_cluster_wf [OF assms(1,2), of v] set_next_cluster_laws(3) [OF assms] assms(3) by auto


lemma ex_storable: "storable (junk ex_env) [0x2F, 0x66]"
proof -
  have b: "name_part [0x66]" by (simp only: name_part_def) simp
  have "basename [0x2F, 0x66] @ 0 # junk ex_env = [0x66] @ replicate 8 0" by (simp add: basename_def ex_env_def replicate_Suc [of 7, symmetric, simplified])
  moreover obtain d where d: "filename_from_path ([0x66] @ replicate 8 0) blank_entry = Some d" "length d = 32"
    "\<forall>j < 32. d ! j = (if j < length [0x66 :: u8] then [0x66] ! j else 0)"
    using from_path_plain [OF b] by auto
  moreover have "take 8 d = 0x66 # replicate 7 0" "take 3 (drop 8 d) = replicate 3 0"
    using d(2,3) by (auto intro!: nth_equalityI simp: nth_Cons' )
  moreover have "build_filename (0x66 # replicate 7 0) (replicate 3 0) \<noteq> None"
    by (code_simp)
  ultimately show ?thesis by (simp add: storable_def)
qed

lemma dir_fs_inv: "tree_inv (dir_fs n) (Node Leaf 11 (Node Leaf 12 (Node Leaf 13 Leaf)))"
  unfolding tree_inv_def paths.ordered_def
  by (simp add: dir_fs_def ex_heap_def ex_node_def datum_def path_of_def small_dir_def small_file_def BB_DIRNAME_def named_files_def c_strings_def)


section \<open>Errors that outlive a handler\<close>

lemma seek_loop_err:
  "seek_loop n t c = Some (c', t') \<Longrightarrow> \<exists>e. t' = t\<lparr>err := e\<rparr> \<and> (err t \<noteq> E_OK \<longrightarrow> e \<noteq> E_OK)"
proof (induction n arbitrary: c)
  case 0
  then have "t' = t\<lparr>err := err t\<rparr>" by simp
  then show ?case by blast
next
  case (Suc n)
  then show ?case by (auto split: if_splits)
qed

lemma h_tree_search_same: "h_tree_search cmp s root (Some k) = Some (q, s') \<Longrightarrow> s' = s"
proof -
  assume "h_tree_search cmp s root (Some k) = Some (q, s')"
  then have "Some k \<noteq> None \<longrightarrow> snd (q, s') = s"
  proof (rule h_tree_search.raw_induct [where P = "\<lambda>cmp s root key r. key \<noteq> None \<longrightarrow> snd r = s", rotated])
    fix f and cmp :: "'d \<Rightarrow> 'k \<Rightarrow> int option" and s :: "'d h_heap" and root key r
    assume "\<And>cmp s root key r. f cmp s root key = Some r \<Longrightarrow> key \<noteq> None \<longrightarrow> snd r = s"
      and "(if key = None then Some (0, s\<lparr>tree_errno := EINVAL\<rparr>)
        else if root = 0 then Some (0, s)
        else do {
          n \<leftarrow> nodes s root;
          d \<leftarrow> data n;
          smaller_data \<leftarrow> cmp d (the key);
          (if smaller_data < 0 then f cmp s (nright n) key
           else if smaller_data > 0 then f cmp s (nleft n) key
           else Some (root, s)) }) = Some r"
    then show "key \<noteq> None \<longrightarrow> snd r = s" by (cases r) (auto split: if_splits)
  qed
  then show "s' = s" by simp
qed

lemma node_search_touch: "fat_tree_node_search s key = Some (q, s1) \<Longrightarrow> s1 = touch s"
  by (auto simp: fat_tree_node_search_def leave_enter_touch dest!: h_tree_search_same)

lemma get_file_frame:
  "fat_tree_get_file s x = Some (d, s1) \<Longrightarrow> files s1 = files s \<and> (err s \<noteq> E_OK \<longrightarrow> err s1 \<noteq> E_OK)
    \<and> nodes (node_heap s1) = nodes (node_heap s)"
proof (cases "x = 0")
  case True
  assume "fat_tree_get_file s x = Some (d, s1)"
  then show ?thesis using get_file_null [of s] True by auto
next
  case False
  assume "fat_tree_get_file s x = Some (d, s1)"
  then show ?thesis using False by (auto simp: fat_tree_get_file_def h_tree_get_data_def leave_enter_touch)
qed

lemma get_parent_frame:
  "fat_tree_get_parent s x = Some (d, s1) \<Longrightarrow> files s1 = files s \<and> (err s \<noteq> E_OK \<longrightarrow> err s1 \<noteq> E_OK)
    \<and> nodes (node_heap s1) = nodes (node_heap s)"
  by (auto simp: fat_tree_get_parent_def dest: get_file_frame)

lemma set_next_frame:
  fixes s :: "'a fat_fs_scheme"
  shows "fat_table_set_next_cluster s c v = Some s1 \<Longrightarrow> files s1 = files s \<and> (err s \<noteq> E_OK \<longrightarrow> err s1 \<noteq> E_OK)"
  by (auto simp: fat_table_set_next_cluster_def sys_pwrite_def next_answer_def Let_def disk_write_def
      split: if_splits list.splits io_answer.splits)

lemma next_or_new_frame:
  fixes s :: "'a fat_fs_scheme"
  shows "next_or_new_cluster s c = Some (c', s1) \<Longrightarrow> files s1 = files s \<and> (err s \<noteq> E_OK \<longrightarrow> err s1 \<noteq> E_OK)"
  by (auto simp: next_or_new_cluster_def Let_def dest!: set_next_frame split: if_splits)

text \<open>With \<open>errno\<close> set, \<open>fat_file_pwrite\<close> gives up before the first byte.\<close>

lemma pwrite_stale:
  fixes s :: "'a fat_fs_scheme"
  assumes "fat_file_pwrite s f m buf n offset g = Some (r, f1, s1)" and "err s \<noteq> E_OK"
    and "dentry f = Some d" and "offset \<le> unat (file_size d)"
  shows "r = - errno_code (err s1) \<and> err s1 \<noteq> E_OK \<and> f1 = f \<and> files s1 = files s"
proof -
  obtain c s2 where seek: "fat_table_seek_cluster s (start_cluster f) (if offset \<noteq> 0 then offset - 1 else 0) = Some (c, s2)"
    using assms by (auto simp: fat_file_pwrite_def Let_def)
  then have s2: "files s2 = files s" "err s2 \<noteq> E_OK"
    using assms(2) by (auto simp: fat_table_seek_cluster_def Let_def dest!: seek_loop_err)
  obtain c3 s3 where n: "(if offset mod fat_table_bytes_per_cluster s2 = 0 \<and> c \<noteq> 0 \<and> offset \<noteq> 0
      then next_or_new_cluster s2 c else Some (c, s2)) = Some (c3, s3)"
    using assms seek by (auto simp: fat_file_pwrite_def Let_def)
  then have s3: "files s3 = files s" "err s3 \<noteq> E_OK"
    using s2 by (auto dest!: next_or_new_frame split: if_splits)
  have "fat_file_pwrite s f m buf n offset g = Some (- errno_code (err s3), f, s3)"
    using assms(3,4) seek n s3(2) by (simp add: fat_file_pwrite_def Let_def)
  then show ?thesis using assms(1) s3 by simp
qed

lemma pwrite_at_stale:
  assumes "fat_file_pwrite_at s p bs offset parent = Some (r, s1)" and "err s \<noteq> E_OK"
    and "files s p = Some f" and "dentry f = Some d" and "offset \<le> unat (file_size d)"
  shows "r = - errno_code (err s1) \<and> err s1 \<noteq> E_OK \<and> files s1 = files s"
  using assms by (auto simp: fat_file_pwrite_at_def set_file_def fun_upd_idem dest!: pwrite_stale)

lemma log_stale:
  assumes "fat_fuse_log_activity env s op p = Some s1" and "err s \<noteq> E_OK"
  shows "files s1 = files s \<and> err s1 \<noteq> E_OK"
proof -
  obtain user and f0 :: fat_file and x s2 s3 q s4 l lf ld r where steps: "fat_tree_node_search s BB_LOG_FILE = Some (x, s2)"
    "fat_tree_get_file s2 x = Some (Some l, s3)" "fat_tree_get_parent s3 x = Some (q, s4)"
    "files s4 l = Some lf" "dentry lf = Some ld"
    "fat_file_pwrite_at s4 l (log_message env user (filepath f0) op) (unat (file_size ld)) q = Some (r, s1)"
    using assms(1) by (auto simp: fat_fuse_log_activity_def Let_def split: if_splits)
  have s4: "files s4 = files s" "err s4 \<noteq> E_OK"
    using assms(2) node_search_touch [OF steps(1)] get_file_frame [OF steps(2)] get_parent_frame [OF steps(3)] by auto
  then show ?thesis using pwrite_at_stale [OF steps(6) s4(2) steps(4,5)] by simp
qed

text \<open>
  \<open>fat_fuse_write\<close> does not clear \<open>errno\<close>: after a handler that failed, such as \<open>getattr\<close> on a
  path that does not exist, a write to an open file fails with that old error (or the one met on
  the way) and no file changes.
\<close>

theorem stale_errno_write:
  assumes "err s \<noteq> E_OK" and "fat_fuse_write env s buf offset fh = Some (r, s')"
    and "fat_tree_get_file s fh = Some (Some p, s1)" and "files s p = Some f" and "dentry f = Some d"
    and "buf \<noteq> []" and "offset \<le> unat (file_size d)"
  shows "r < 0 \<and> r = - errno_code (err s') \<and> files s' = files s"
proof -
  obtain q s2 s3 where steps: "fat_tree_get_parent s1 fh = Some (q, s2)" "fat_fuse_log_activity env s2 WRITE_OP p = Some s3"
    "fat_file_pwrite_at s3 p buf offset q = Some (r, s')"
    using assms get_file_frame [OF assms(3)] by (auto simp: fat_fuse_write_def dest!: get_parent_frame split: if_splits)
  have s2: "files s2 = files s" "err s2 \<noteq> E_OK"
    using assms(1) get_file_frame [OF assms(3)] get_parent_frame [OF steps(1)] by auto
  have s3: "files s3 = files s" "err s3 \<noteq> E_OK" using log_stale [OF steps(2) s2(2)] s2(1) by auto
  have w: "r = - errno_code (err s') \<and> err s' \<noteq> E_OK \<and> files s' = files s3"
    using pwrite_at_stale [OF steps(3) s3(2)] s3(1) assms(4,5,7) by simp
  moreover have "0 < errno_code (err s')" using w by (cases "err s'") auto
  ultimately show ?thesis using s3(1) by simp
qed

text \<open>The root directory, \<open>/A.TXT\<close> and the log, after a handler failed with \<open>ENOENT\<close>.\<close>

definition log_fs :: fat_fs where
  "log_fs = ex_fs\<lparr>err := ENOENT, files := [1 \<mapsto> small_dir, 2 \<mapsto> small_file, 3 \<mapsto> small_file\<lparr>filepath := BB_LOG_FILE\<rparr>],
     node_heap := ex_heap\<lparr>nodes := [11 \<mapsto> ex_node 1 0 12 3,
       12 \<mapsto> (ex_node 2 0 13 2)\<lparr>h_parent := 11\<rparr>, 13 \<mapsto> (ex_node 3 0 0 1)\<lparr>h_parent := 11\<rparr>]\<rparr>,
     file_tree := Some 11\<rparr>"

lemma log_fs_inv: "tree_inv log_fs (Node Leaf 11 (Node Leaf 12 (Node Leaf 13 Leaf)))"
  unfolding tree_inv_def paths.ordered_def
  by (simp add: log_fs_def ex_heap_def ex_node_def datum_def path_of_def small_dir_def small_file_def BB_LOG_FILE_def
      named_files_def c_strings_def)

lemma log_fs_search: "fat_tree_node_search (touch log_fs) BB_LOG_FILE = Some (13, touch log_fs)"
proof -
  have p: "node_path log_fs 13 = BB_LOG_FILE"
    by (simp add: node_path_def path_of_def datum_def log_fs_def ex_heap_def ex_node_def)
  have inv: "tree_inv (touch log_fs) (Node Leaf 11 (Node Leaf 12 (Node Leaf 13 Leaf)))" using log_fs_inv by simp
  have c: "BB_LOG_FILE \<in> c_strings" by (simp add: BB_LOG_FILE_def c_strings_def)
  obtain q where q: "fat_tree_node_search (touch log_fs) BB_LOG_FILE = Some (q, touch log_fs)"
    "q \<noteq> 0 \<longleftrightarrow> (\<exists>x \<in> set_tree (Node Leaf 11 (Node Leaf 12 (Node Leaf 13 Leaf))). node_path log_fs x = BB_LOG_FILE)"
    "q \<noteq> 0 \<longrightarrow> q \<in> set_tree (Node Leaf 11 (Node Leaf 12 (Node Leaf 13 Leaf))) \<and> node_path log_fs q = BB_LOG_FILE"
    using node_search_ok [OF inv c] by auto
  have "q \<noteq> 0" using q(2) p by simp
  then have "q = 13" using node_path_inj [OF log_fs_inv, of q 13] q(3) p by simp
  then show ?thesis using q(1) by simp
qed

theorem stale_errno_write_witness:
  "\<exists>r s'. fat_fuse_write ex_env log_fs [1] 0 12 = Some (r, s') \<and> r < 0 \<and> files s' 2 = Some small_file"
proof -
  note ds = log_fs_def ex_heap_def ex_node_def small_file_def small_dentry_def ex_env_def small_dir_def
  have get: "fat_tree_get_file log_fs 12 = Some (Some 2, touch log_fs)" "fat_tree_get_parent (touch log_fs) 12 = Some (Some 1, touch log_fs)"
    using get_file_node [OF log_fs_inv, of 12] get_file_node [of "touch log_fs", OF _, of _ 11] log_fs_inv
    by (auto simp: fat_tree_get_parent_def h_tree_get_h_parent_def datum_def ds)
  have fs: "files log_fs 2 = Some small_file" "files log_fs 1 = Some small_dir" "err log_fs = ENOENT"
    "files log_fs 3 = Some (small_file\<lparr>filepath := BB_LOG_FILE\<rparr>)"
    by (simp_all add: log_fs_def)
  let ?s3 = "set_file (touch log_fs) 3 (small_file\<lparr>filepath := BB_LOG_FILE\<rparr>)"
  have m: "fat_map (touch log_fs) = fat_map small_fat" "cluster_order (touch log_fs) = 5" "num_data_clusters (touch log_fs) = 4"
    by (simp_all add: touch_def log_fs_def ex_fs_def fat_vol.defs small_vol_def small_fat_def fat_table.defs)
  have "drop_bit 5 (39 :: nat) = 1" by (simp add: drop_bit_eq_div)
  then have seek: "fat_table_seek_cluster (touch log_fs) 2 39 = Some (4, touch log_fs)" "fat_table_seek_cluster ?s3 2 0 = Some (2, ?s3)"
    using m by (simp_all add: fat_table_seek_cluster_def fat_table_get_next_cluster_def fat_entry_def fat_consts
        fat_table_is_valid_cluster_number_def small_fat_def)
  have w: "fat_file_pwrite_at (touch log_fs) 3 bs 40 (Some 1) = Some (- 2, ?s3)"
    "fat_file_pwrite_at ?s3 2 [1] 0 (Some 1) = Some (- 2, set_file ?s3 2 small_file)" for bs
    using fs m seek by (simp_all add: fat_file_pwrite_at_def fat_file_pwrite_def small_file_def small_dentry_def
        bytes_per_cluster_eq set_file_def)
  have l: "fat_tree_get_file (touch log_fs) 13 = Some (Some 3, touch log_fs)" "fat_tree_get_parent (touch log_fs) 13 = Some (Some 1, touch log_fs)"
    using get_file_node [of "touch log_fs", OF _, of _ 13] get_file_node [of "touch log_fs", OF _, of _ 11] log_fs_inv
    by (auto simp: fat_tree_get_parent_def h_tree_get_h_parent_def datum_def ds)
  have "fat_fuse_log_activity ex_env (touch log_fs) WRITE_OP 2 = Some (set_file (touch log_fs) 3 (small_file\<lparr>filepath := BB_LOG_FILE\<rparr>))"
    using log_fs_search l w(1) fs by (simp add: fat_fuse_log_activity_def log_message_def ex_env_def LOG_MESSAGE_SIZE_def WRITE_OP_def small_file_def small_dentry_def)
  then have "fat_fuse_write ex_env log_fs [1] 0 12 \<noteq> None"
    using get fs w(2) by (simp add: fat_fuse_write_def small_file_def)
  then obtain r s' where "fat_fuse_write ex_env log_fs [1] 0 12 = Some (r, s')" by fastforce
  then show ?thesis
    using stale_errno_write [OF _ _ get(1) fs(1), of ex_env "[1]" 0 r s' small_dentry] fs by (auto simp: small_file_def)
qed

section \<open>The scan for the hidden directory\<close>

lemma search_bb_overrun:
  assumes "length (fat_map s) < unat c + n" and "unat c + n < 2 ^ 32" and "2 \<le> unat c" and "unat c \<le> length (fat_map s)"
    and "\<forall>i. 2 \<le> i \<and> i < length (fat_map s) \<longrightarrow> fat_map s ! i \<noteq> FAT_CLUSTER_BAD_SECTOR"
  shows "search_bb_from n jk s c = None"
  using assms
proof (induction n arbitrary: c)
  case (Suc n)
  show ?case
  proof (cases "unat c < length (fat_map s)")
    case True
    have "unat (c + 1) = unat c + 1" using Suc.prems(2) by (simp add: unat_word_ariths)
    then have "search_bb_from n jk s (c + 1) = None" using Suc.IH [of "c + 1"] Suc.prems True by simp
    then show ?thesis using True Suc.prems(3,5) by (simp add: fat_entry_def)
  qed (simp add: fat_entry_def)
qed simp

text \<open>
  the scan for the mark of \<open>/bb\<close> always looks at ten thousand entries: on a volume with a
  smaller table and no such mark it leaves the mapping.
\<close>

theorem search_bb_small_table:
  assumes "2 \<le> length (fat_map s)" and "length (fat_map s) < 10000"
    and "\<forall>i. 2 \<le> i \<and> i < length (fat_map s) \<longrightarrow> fat_map s ! i \<noteq> FAT_CLUSTER_BAD_SECTOR"
  shows "search_bb_orphan_dir_cluster jk s = None"
  unfolding search_bb_orphan_dir_cluster_def by (rule search_bb_overrun) (use assms in simp_all)

theorem search_bb_small_table_witness: "search_bb_orphan_dir_cluster [] ex_fs = None"
proof (rule search_bb_small_table)
  have m: "fat_map ex_fs = fat_map small_fat" by (simp add: ex_fs_def fat_vol.defs small_vol_def fat_table.defs)
  show "2 \<le> length (fat_map ex_fs)" "length (fat_map ex_fs) < 10000" by (simp_all add: m small_fat_def)
  show "\<forall>i. 2 \<le> i \<and> i < length (fat_map ex_fs) \<longrightarrow> fat_map ex_fs ! i \<noteq> FAT_CLUSTER_BAD_SECTOR"
    by (auto simp: m small_fat_def fat_consts nth_Cons split: nat.splits)
qed

section \<open>Creation when the table cannot be written\<close>

text \<open>
  when the device rejects the table entry of the new file, \<open>mkdir\<close> reports the error; \<open>mknod\<close>,
  which asks for a negative \<open>errno\<close>, goes on with the \<open>NULL\<close> file and has no defined outcome.
\<close>

theorem mknod_table_error:
  assumes "fat_tree_node_search (s\<lparr>err := E_OK\<rparr>) (dirname path) = Some (x, s1)" and "x \<noteq> 0"
    and "fat_tree_get_file s1 x = Some (Some q, s2)" and "files s2 q = Some g" and "fat_file_is_directory g"
    and "\<forall>b. fat_file_init (junk env) s2 b path = Some (None, s3)" and "err s3 \<noteq> E_OK"
  shows "fat_fuse_mknod env s path = None \<and> fat_fuse_mkdir env s path = Some (- errno_code (err s3), s3)"
  using assms by (simp add: fat_fuse_mknod_def fat_fuse_mkdir_def init_file_object_def insert_node_def fat_tree_insert_def
      ret_errno_def linorder_not_less)

definition bad_fs :: fat_fs where "bad_fs = (dir_fs 0)\<lparr>script := [IO_Error EIO], err := E_OK\<rparr>"

theorem mknod_table_error_witness:
  "fat_fuse_mknod ex_env bad_fs [0x2F, 0x66] = None \<and> map_option fst (fat_fuse_mkdir ex_env bad_fs [0x2F, 0x66]) = Some (- 5)"
proof -
  let ?t = "Node Leaf (11 :: ptr) (Node Leaf 12 (Node Leaf 13 Leaf))" and ?s = "touch bad_fs"
  have sel: "files bad_fs = files (dir_fs 0)" "node_heap bad_fs = node_heap (dir_fs 0)" "err bad_fs = E_OK"
    "script bad_fs = [IO_Error EIO]" "fat_map bad_fs = fat_map small_fat" "num_data_clusters bad_fs = 4"
    by (simp_all add: bad_fs_def dir_fs_def ex_fs_def fat_vol.defs small_vol_def small_fat_def fat_table.defs)
  have inv: "tree_inv bad_fs ?t" by (rule tree_inv_cong(1) [OF dir_fs_inv [of 0]]) (simp_all add: bad_fs_def)
  have p: "node_path bad_fs 11 = [0x2F]" by (simp add: node_path_def sel path_of_def datum_def dir_fs_sel ex_node_def small_dir_def)
  have c: "[0x2F] \<in> c_strings" by (simp add: c_strings_def)
  obtain q where q: "fat_tree_node_search bad_fs [0x2F] = Some (q, ?s)" "q \<noteq> 0 \<longleftrightarrow> (\<exists>x \<in> set_tree ?t. node_path bad_fs x = [0x2F])"
    "q \<noteq> 0 \<longrightarrow> q \<in> set_tree ?t \<and> node_path bad_fs q = [0x2F]"
    using node_search_ok [OF inv c] by blast
  have q0: "q \<noteq> 0" using q(2) p by simp
  have "q = 11" using node_path_inj [OF inv, of q 11] q(3) q0 p by simp
  have get: "fat_tree_get_file ?s 11 = Some (Some 1, ?s)"
    using get_file_node [of ?s ?t 11] inv by (simp add: sel datum_def dir_fs_sel ex_node_def)
  have m: "fat_map ?s = fat_map small_fat" "num_data_clusters ?s = 4" "script ?s = [IO_Error EIO]" by (simp_all add: touch_def sel)
  have "next_free_from ?s 2 = Some (of_nat 3)"
    by (rule next_free_from_least) (auto simp: m small_fat_def nth_Cons split: nat.splits)
  then have c: "fat_table_get_next_free_cluster ?s = Some 3" "fat_table_is_cluster_used ?s 3 = Some False"
    by (simp_all add: fat_table_get_next_free_cluster_def fat_table_is_valid_cluster_number_def fat_table_is_cluster_used_def
        fat_entry_def m small_fat_def)
  have w: "fat_table_set_next_cluster ?s 3 v = Some (?s\<lparr>script := [], err := EIO\<rparr>)" for v
    by (simp add: fat_table_set_next_cluster_def sys_pwrite_def next_answer_def m)
  have "fat_file_init (junk ex_env) ?s b [0x2F, 0x66] = Some (None, ?s\<lparr>script := [], err := EIO\<rparr>)" for b
  proof -
    obtain d nm where "fat_file_init_direntry (junk ex_env) (clock ?s) b [0x2F, 0x66] 3 = Some d"
      "build_filename (base_name d) (extension d) = Some nm" using init_direntry_ok [OF ex_storable] by metis
    then show ?thesis using c w sel by (simp add: fat_file_init_def fat_file_init_empty_def)
  qed
  moreover have "dirname [0x2F, 0x66] = [0x2F]" "bad_fs\<lparr>err := E_OK\<rparr> = bad_fs"
    by (simp add: dirname_def strip_slashes_def) (simp add: bad_fs_def)
  then have "fat_tree_node_search (bad_fs\<lparr>err := E_OK\<rparr>) (dirname [0x2F, 0x66]) = Some (11, ?s)"
    using q(1) \<open>q = 11\<close> by simp
  ultimately show ?thesis
    using mknod_table_error [of bad_fs "[0x2F, 0x66]" 11 ?s 1 ?s "small_dir\<lparr>nentries := 0\<rparr>" ex_env "?s\<lparr>script := [], err := EIO\<rparr>"]
      get by (simp add: sel dir_fs_sel small_dir_def fat_file_is_directory_def)
qed

end
