(* ===== verification/Shell_Command.thy ===== *)
theory Shell_Command
  imports C_Prelude
begin

text \<open>
  \<open>Lab1/strextra.c\<close> and \<open>Lab1/command.c\<close>: joining strings, simple commands, pipelines.

  A C string is a list of characters other than NUL; a buffer is the list of all its characters.
  \<open>None\<close> stands for a failed \<open>assert\<close> or an access outside a buffer. Handles of the two abstract
  types are never \<open>NULL\<close> here: the \<open>NULL\<close> a parser may give is an option where it can occur.
\<close>

section \<open>String buffers\<close>

definition NUL :: char where "NUL = CHR 0x00"

definition c_str :: "string \<Rightarrow> bool" where "c_str s \<longleftrightarrow> NUL \<notin> set s"

text \<open>The string a buffer holds; none when it has no NUL.\<close>

definition buf_str :: "string \<Rightarrow> string option" where
  "buf_str b = (if NUL \<in> set b then Some (takeWhile (\<lambda>c. c \<noteq> NUL) b) else None)"

definition calloc_chars :: "nat \<Rightarrow> string" where "calloc_chars n = replicate n NUL"

text \<open>Storing \<open>xs\<close> at offset \<open>i\<close>.\<close>

definition buf_store :: "string \<Rightarrow> nat \<Rightarrow> string \<Rightarrow> string option" where
  "buf_store b i xs = (if i + length xs \<le> length b then Some (take i b @ xs @ drop (i + length xs) b) else None)"

definition c_strncpy :: "string \<Rightarrow> string \<Rightarrow> nat \<Rightarrow> string option" where
  "c_strncpy b s n = buf_store b 0 (take n s @ replicate (n - length s) NUL)"

definition c_strncat :: "string \<Rightarrow> string \<Rightarrow> nat \<Rightarrow> string option" where
  "c_strncat b s n = do { d \<leftarrow> buf_str b; buf_store b (length d) (take n s @ [NUL]) }"

definition strmerge :: "string \<Rightarrow> string \<Rightarrow> string option" where
  "strmerge s1 s2 = do {
     merge \<leftarrow> c_strncpy (calloc_chars (length s1 + length s2 + 1)) s1 (length s1);
     merge \<leftarrow> c_strncat merge s2 (length s2);
     r \<leftarrow> buf_str merge;
     (if length r = length s1 + length s2 then Some r else None) }"

text \<open>\<open>reallocarray\<close> keeps the characters of \<open>s1\<close>; \<open>more\<close> stands for the new ones.\<close>

definition strreallocmerge :: "string \<Rightarrow> string \<Rightarrow> string \<Rightarrow> string option" where
  "strreallocmerge more s1 s2 =
     (let a = length s1; size_ab = a + length s2 + 1 in do {
      b \<leftarrow> buf_store (take size_ab (s1 @ [NUL] @ more @ replicate size_ab NUL)) a (s2 @ [NUL]);
      buf_str b })"

lemma buf_str_append: "c_str s \<Longrightarrow> buf_str (s @ NUL # zs) = Some s"
  by (induction s) (auto simp: buf_str_def c_str_def split: if_splits)

lemma buf_store_end: "length b = length s1 + length xs \<Longrightarrow> take (length s1) b = s1
    \<Longrightarrow> buf_store b (length s1) xs = Some (s1 @ xs)"
  by (simp add: buf_store_def)

lemma strmerge_eq: "c_str s1 \<Longrightarrow> c_str s2 \<Longrightarrow> strmerge s1 s2 = Some (s1 @ s2)"
proof -
  assume c: "c_str s1" "c_str s2"
  have "c_strncpy (calloc_chars (length s1 + length s2 + 1)) s1 (length s1) = Some (s1 @ replicate (length s2 + 1) NUL)"
    by (simp add: c_strncpy_def buf_store_def calloc_chars_def del: replicate_Suc)
  moreover have "c_strncat (s1 @ replicate (length s2 + 1) NUL) s2 (length s2) = Some (s1 @ s2 @ [NUL])"
    using c(1) by (simp add: c_strncat_def buf_str_append buf_store_def)
  moreover have "c_str (s1 @ s2)" using c by (simp add: c_str_def)
  then have "buf_str (s1 @ s2 @ [NUL]) = Some (s1 @ s2)" using buf_str_append [of "s1 @ s2" "[]"] by simp
  ultimately show ?thesis by (simp add: strmerge_def)
qed

lemma strreallocmerge_eq: "c_str s1 \<Longrightarrow> c_str s2 \<Longrightarrow> strreallocmerge more s1 s2 = Some (s1 @ s2)"
proof -
  assume c: "c_str s1" "c_str s2"
  let ?n = "length s1 + length s2 + 1"
  have "buf_store (take ?n (s1 @ [NUL] @ more @ replicate ?n NUL)) (length s1) (s2 @ [NUL]) = Some (s1 @ s2 @ [NUL])"
    by (rule buf_store_end) auto
  moreover have "c_str (s1 @ s2)" using c by (simp add: c_str_def)
  then have "buf_str (s1 @ s2 @ [NUL]) = Some (s1 @ s2)" using buf_str_append [of "s1 @ s2" "[]"] by simp
  ultimately show ?thesis by (simp add: strreallocmerge_def)
qed

section \<open>Simple commands\<close>

record scommand =
  command :: "string list"
  cmd_in :: "string option"
  cmd_out :: "string option"

definition scommand_new :: scommand where
  "scommand_new = \<lparr>command = [], cmd_in = None, cmd_out = None\<rparr>"

definition scommand_length :: "scommand \<Rightarrow> nat" where "scommand_length self = length (command self)"

definition scommand_is_empty :: "scommand \<Rightarrow> bool" where "scommand_is_empty self \<longleftrightarrow> scommand_length self = 0"

definition scommand_push_back :: "scommand \<Rightarrow> string \<Rightarrow> scommand" where
  "scommand_push_back self argument = self\<lparr>command := command self @ [argument]\<rparr>"

definition scommand_pop_front :: "scommand \<Rightarrow> scommand option" where
  "scommand_pop_front self = (if scommand_is_empty self then None else Some (self\<lparr>command := tl (command self)\<rparr>))"

definition scommand_front :: "scommand \<Rightarrow> string option" where
  "scommand_front self = (if scommand_is_empty self then None else Some (command self ! 0))"

definition scommand_set_redir_in :: "scommand \<Rightarrow> string \<Rightarrow> scommand" where
  "scommand_set_redir_in self filename = self\<lparr>cmd_in := Some filename\<rparr>"

definition scommand_set_redir_out :: "scommand \<Rightarrow> string \<Rightarrow> scommand" where
  "scommand_set_redir_out self filename = self\<lparr>cmd_out := Some filename\<rparr>"

definition scommand_get_redir_in :: "scommand \<Rightarrow> string option" where "scommand_get_redir_in self = cmd_in self"
definition scommand_get_redir_out :: "scommand \<Rightarrow> string option" where "scommand_get_redir_out self = cmd_out self"

definition scommand_frontpop :: "scommand \<Rightarrow> (string \<times> scommand) option" where
  "scommand_frontpop self = (case command self of
      [] \<Rightarrow> None
    | result # _ \<Rightarrow> Some (result, self\<lparr>command := tl (command self)\<rparr>))"

text \<open>
  The arguments are taken out of the command. The array has \<open>8 n + 1\<close> bytes; its elements are
  modelled whatever its size, see \<open>argv_bytes\<close>.
\<close>

primrec take_args :: "nat \<Rightarrow> scommand \<Rightarrow> (string list \<times> scommand) option" where
  "take_args 0 self = Some ([], self)"
| "take_args (Suc n) self = do {
     (arg, self) \<leftarrow> scommand_frontpop self;
     (args, self) \<leftarrow> take_args n self;
     Some (arg # args, self) }"

definition scommand_to_argv :: "scommand \<Rightarrow> (string option list \<times> scommand) option" where
  "scommand_to_argv self = do {
     (args, self) \<leftarrow> take_args (scommand_length self) self;
     Some (map Some args @ [None], self) }"

definition argv_bytes :: "scommand \<Rightarrow> nat" where "argv_bytes self = 8 * scommand_length self + 1"

text \<open>\<open>strreallocmerge\<close> over a list of pieces.\<close>

fun merge_all :: "string \<Rightarrow> string list \<Rightarrow> string option" where
  "merge_all res [] = Some res"
| "merge_all res (s # ss) = do { res \<leftarrow> strreallocmerge [] res s; merge_all res ss }"

definition scommand_to_string :: "scommand \<Rightarrow> string option" where
  "scommand_to_string self =
     (if scommand_is_empty self then Some ''''
      else do {
        res \<leftarrow> merge_all '''' [command self ! 0, '' ''];
        res \<leftarrow> merge_all res (concat (map (\<lambda>i. [command self ! i, '' '']) [1..<scommand_length self]));
        res \<leftarrow> (case cmd_in self of None \<Rightarrow> Some res | Some f \<Rightarrow> merge_all res ['' < '', f]);
        (case cmd_out self of None \<Rightarrow> Some res | Some f \<Rightarrow> merge_all res ['' > '', f]) })"

section \<open>Pipelines\<close>

record pipeline =
  cmds :: "scommand list"
  pwait :: bool

definition pipeline_new :: pipeline where "pipeline_new = \<lparr>cmds = [], pwait = True\<rparr>"

definition pipeline_is_empty :: "pipeline \<Rightarrow> bool" where "pipeline_is_empty self \<longleftrightarrow> length (cmds self) = 0"

definition pipeline_length :: "pipeline \<Rightarrow> nat" where "pipeline_length self = length (cmds self)"

text \<open>The argument is \<open>NULL\<close> when a command could not be parsed: the assertion fails.\<close>

definition pipeline_push_back :: "pipeline \<Rightarrow> scommand option \<Rightarrow> pipeline option" where
  "pipeline_push_back self sc = do { c \<leftarrow> sc; Some (self\<lparr>cmds := cmds self @ [c]\<rparr>) }"

definition pipeline_pop_front :: "pipeline \<Rightarrow> pipeline option" where
  "pipeline_pop_front self = (if pipeline_is_empty self then None else Some (self\<lparr>cmds := tl (cmds self)\<rparr>))"

definition pipeline_front :: "pipeline \<Rightarrow> scommand option" where
  "pipeline_front self = (if pipeline_is_empty self then None else Some (cmds self ! 0))"

definition pipeline_set_wait :: "pipeline \<Rightarrow> bool \<Rightarrow> pipeline" where "pipeline_set_wait self w = self\<lparr>pwait := w\<rparr>"
definition pipeline_get_wait :: "pipeline \<Rightarrow> bool" where "pipeline_get_wait self = pwait self"

text \<open>The loop of \<open>pipeline_to_string\<close> over the commands behind the first.\<close>

fun join_commands :: "string \<Rightarrow> scommand list \<Rightarrow> string option" where
  "join_commands str_c [] = Some str_c"
| "join_commands str_c (c # cs) = do {
     conc_cmd \<leftarrow> scommand_to_string c;
     str_c \<leftarrow> merge_all str_c ['' | '', conc_cmd];
     join_commands str_c cs }"

definition pipeline_to_string :: "pipeline \<Rightarrow> string option" where
  "pipeline_to_string self = (case cmds self of
      [] \<Rightarrow> Some ''''
    | c # cs \<Rightarrow> do {
        fst_command \<leftarrow> scommand_to_string c;
        str_c \<leftarrow> strreallocmerge [] '''' fst_command;
        str_c \<leftarrow> join_commands str_c cs;
        (if pipeline_get_wait self then Some str_c else strreallocmerge [] str_c '' &'') })"

section \<open>Both are queues\<close>

text \<open>
  The contract of \<open>command.h\<close>: a sequence filled at the back and emptied at the front. \<open>seq\<close> is
  the sequence a queue holds; the operations are undefined where the contract requires a non-empty
  queue.
\<close>

locale fifo =
  fixes empty :: 'q and push :: "'q \<Rightarrow> 'e \<Rightarrow> 'q option" and pop :: "'q \<Rightarrow> 'q option" and front :: "'q \<Rightarrow> 'e option"
    and is_empty :: "'q \<Rightarrow> bool" and count :: "'q \<Rightarrow> nat" and seq :: "'q \<Rightarrow> 'e list"
  assumes seq_empty: "seq empty = []"
    and push_ok: "\<exists>q'. push q x = Some q' \<and> seq q' = seq q @ [x]"
    and pop_empty: "seq q = [] \<Longrightarrow> pop q = None"
    and pop_ok: "seq q = x # xs \<Longrightarrow> \<exists>q'. pop q = Some q' \<and> seq q' = xs"
    and front_eq: "front q = (if seq q = [] then None else Some (hd (seq q)))"
    and is_empty_eq: "is_empty q \<longleftrightarrow> seq q = []"
    and count_eq: "count q = length (seq q)"
begin

fun push_list :: "'q \<Rightarrow> 'e list \<Rightarrow> 'q option" where
  "push_list q [] = Some q"
| "push_list q (x # xs) = do { q' \<leftarrow> push q x; push_list q' xs }"

fun drain :: "nat \<Rightarrow> 'q \<Rightarrow> ('e list \<times> 'q) option" where
  "drain 0 q = Some ([], q)"
| "drain (Suc n) q = do { x \<leftarrow> front q; q' \<leftarrow> pop q; (xs, q'') \<leftarrow> drain n q'; Some (x # xs, q'') }"

lemma push_list_ok: "\<exists>q'. push_list q xs = Some q' \<and> seq q' = seq q @ xs"
proof (induction xs arbitrary: q)
  case (Cons x xs)
  obtain q1 where q1: "push q x = Some q1" "seq q1 = seq q @ [x]" using push_ok by blast
  obtain q2 where "push_list q1 xs = Some q2" "seq q2 = seq q1 @ xs" using Cons.IH by blast
  with q1 show ?case by simp
qed simp

lemma drain_ok: "seq q = xs @ ys \<Longrightarrow> \<exists>q'. drain (length xs) q = Some (xs, q') \<and> seq q' = ys"
proof (induction xs arbitrary: q)
  case (Cons x xs)
  then obtain q1 where q1: "pop q = Some q1" "seq q1 = xs @ ys" using pop_ok by fastforce
  obtain q2 where "drain (length xs) q1 = Some (xs, q2)" "seq q2 = ys" using Cons.IH q1(2) by blast
  with q1 Cons.prems show ?case using front_eq [of q] by simp
qed simp

text \<open>First in, first out; taking one more is a violated requirement.\<close>

lemma first_in_first_out:
  "\<exists>q q'. push_list empty xs = Some q \<and> count q = length xs \<and> drain (length xs) q = Some (xs, q') \<and> is_empty q'"
proof -
  obtain q where q: "push_list empty xs = Some q" "seq q = xs" using push_list_ok [of empty xs] seq_empty by auto
  moreover obtain q' where "drain (length xs) q = Some (xs, q')" "seq q' = []" using drain_ok [of q xs "[]"] q(2) by auto
  ultimately show ?thesis by (auto simp: count_eq is_empty_eq)
qed

lemma drain_too_many: "length (seq q) < n \<Longrightarrow> drain n q = None"
proof (induction n arbitrary: q)
  case (Suc n)
  show ?case
  proof (cases "seq q")
    case (Cons x xs)
    then obtain q1 where "pop q = Some q1" "seq q1 = xs" using pop_ok by blast
    then show ?thesis using Suc Cons by simp
  qed (use front_eq [of q] in simp)
qed simp

end

lemmas scommand_defs = scommand_new_def scommand_length_def scommand_is_empty_def scommand_push_back_def
  scommand_pop_front_def scommand_front_def scommand_frontpop_def

lemmas pipeline_defs = pipeline_new_def pipeline_length_def pipeline_is_empty_def pipeline_push_back_def
  pipeline_pop_front_def pipeline_front_def

interpretation args: fifo scommand_new "\<lambda>c s. Some (scommand_push_back c s)" scommand_pop_front scommand_front
    scommand_is_empty scommand_length command
  by unfold_locales (auto simp: scommand_defs hd_conv_nth)

interpretation stages: fifo pipeline_new "\<lambda>p c. pipeline_push_back p (Some c)" pipeline_pop_front pipeline_front
    pipeline_is_empty pipeline_length cmds
  by unfold_locales (auto simp: pipeline_defs hd_conv_nth)

section \<open>Properties\<close>

text \<open>
  strings pushed on a new command come out at the front in the order they went in, and the
  command is empty again after as many.
\<close>

theorem scommand_fifo:
  "\<exists>c c'. args.push_list scommand_new xs = Some c \<and> scommand_length c = length xs
    \<and> args.drain (length xs) c = Some (xs, c') \<and> scommand_is_empty c'"
  by (rule args.first_in_first_out)

lemma take_args_ok: "command self = xs @ ys \<Longrightarrow> take_args (length xs) self = Some (xs, self\<lparr>command := ys\<rparr>)"
proof (induction xs arbitrary: self)
  case (Cons x xs)
  then show ?case using Cons.IH [of "self\<lparr>command := xs @ ys\<rparr>"] by (simp add: scommand_frontpop_def)
qed simp

lemma to_argv_eq: "scommand_to_argv self = Some (map Some (command self) @ [None], self\<lparr>command := []\<rparr>)"
  using take_args_ok [of self "command self" "[]"] by (simp add: scommand_to_argv_def scommand_length_def)

text \<open>
  \<open>scommand_to_argv\<close> gives the arguments in order, ended by \<open>NULL\<close>, and empties the command; the
  end mark takes the bytes \<open>8 n\<close> to \<open>8 n + 7\<close> of an array allocated with \<open>8 n + 1\<close> bytes.
\<close>

theorem to_argv_spec:
  "scommand_to_argv self = Some (map Some (command self) @ [None], self\<lparr>command := []\<rparr>)
    \<and> argv_bytes self < 8 * length (map Some (command self) @ [None])"
  using to_argv_eq by (simp add: argv_bytes_def scommand_length_def)

definition well_formed :: "scommand \<Rightarrow> bool" where
  "well_formed c \<longleftrightarrow> (\<forall>s \<in> set (command c). c_str s) \<and> (\<forall>s. cmd_in c = Some s \<longrightarrow> c_str s) \<and> (\<forall>s. cmd_out c = Some s \<longrightarrow> c_str s)"

text \<open>The text of a command, its pieces concatenated.\<close>

definition redirection :: "string \<Rightarrow> string option \<Rightarrow> string" where
  "redirection arrow f = (case f of None \<Rightarrow> [] | Some s \<Rightarrow> arrow @ s)"

definition command_text :: "scommand \<Rightarrow> string" where
  "command_text c = (if command c = [] then [] else concat (map (\<lambda>s. s @ '' '') (command c))
     @ redirection '' < '' (cmd_in c) @ redirection '' > '' (cmd_out c))"

lemma merge_all_eq: "c_str res \<Longrightarrow> \<forall>s \<in> set ss. c_str s \<Longrightarrow> merge_all res ss = Some (res @ concat ss) \<and> c_str (res @ concat ss)"
proof (induction ss arbitrary: res)
  case (Cons s ss)
  then have "c_str (res @ s)" by (simp add: c_str_def)
  then show ?case using Cons.IH [of "res @ s"] Cons.prems by (simp add: strreallocmerge_eq)
qed simp

declare merge_all.simps [simp del]

lemma c_str_lits [simp]: "c_str []" "c_str '' ''" "c_str '' < ''" "c_str '' > ''" "c_str '' | ''" "c_str '' &''"
  by (simp_all add: c_str_def NUL_def)

lemma c_str_append [simp]: "c_str (s @ t) \<longleftrightarrow> c_str s \<and> c_str t"
  by (auto simp: c_str_def)

lemma merge_redirection:
  assumes "c_str res" "c_str arrow" "\<forall>s. f = Some s \<longrightarrow> c_str s"
  shows "(case f of None \<Rightarrow> Some res | Some s \<Rightarrow> merge_all res [arrow, s]) = Some (res @ redirection arrow f)"
    and "c_str (res @ redirection arrow f)"
  using assms by (auto simp: redirection_def merge_all_eq split: option.splits)

lemma scommand_to_string_eq:
  assumes "well_formed c"
  shows "scommand_to_string c = Some (command_text c)" and "c_str (command_text c)"
proof -
  have args: "\<forall>s \<in> set (command c). c_str s" "\<forall>s. cmd_in c = Some s \<longrightarrow> c_str s" "\<forall>s. cmd_out c = Some s \<longrightarrow> c_str s"
    using assms by (simp_all add: well_formed_def)
  have "scommand_to_string c = Some (command_text c) \<and> c_str (command_text c)"
  proof (cases "command c")
    case (Cons x xs)
    define r0 where "r0 = x @ '' ''"
    define r1 where "r1 = r0 @ concat (map (\<lambda>s. s @ '' '') xs)"
    define r2 where "r2 = r1 @ redirection '' < '' (cmd_in c)"
    have cc: "concat (concat (map (\<lambda>s. [s, '' '']) zs)) = concat (map (\<lambda>s. s @ '' '') zs)" for zs by (induction zs) auto
    have "map ((!) (command c)) [1..<length (command c)] = tl (command c)"
      by (rule nth_equalityI) (simp_all add: nth_tl)
    then have "map ((!) (command c)) [1..<scommand_length c] = xs" by (simp add: Cons scommand_length_def del: upt_Suc)
    then have "map (\<lambda>s. [s, '' '']) (map ((!) (command c)) [1..<scommand_length c]) = map (\<lambda>s. [s, '' '']) xs" by simp
    then have tl: "concat (map (\<lambda>i. [command c ! i, '' '']) [1..<scommand_length c]) = concat (map (\<lambda>s. [s, '' '']) xs)"
      by (simp add: comp_def)
    have m1: "merge_all [] [x, '' ''] = Some r0" "c_str r0"
      using merge_all_eq [of "[]" "[x, '' '']"] args Cons by (simp_all add: r0_def)
    have m2: "merge_all r0 (concat (map (\<lambda>s. [s, '' '']) xs)) = Some r1" "c_str r1"
      using merge_all_eq [OF m1(2), of "concat (map (\<lambda>s. [s, '' '']) xs)"] args Cons by (auto simp: cc r1_def)
    note m3 = merge_redirection [OF m2(2) c_str_lits(3) args(2), folded r2_def]
    note m4 = merge_redirection [OF m3(2) c_str_lits(4) args(3)]
    have "scommand_to_string c = Some (r2 @ redirection '' > '' (cmd_out c))"
      using m1(1) m2(1) m3(1) m4(1) Cons tl by (simp add: scommand_to_string_def scommand_is_empty_def scommand_length_def del: upt_Suc)
    then show ?thesis using m4(2) Cons by (simp add: command_text_def r0_def r1_def r2_def)
  qed (simp add: scommand_to_string_def command_text_def scommand_defs)
  then show "scommand_to_string c = Some (command_text c)" and "c_str (command_text c)" by simp_all
qed

lemma join_commands_eq:
  "c_str s \<Longrightarrow> \<forall>c \<in> set cs. well_formed c \<Longrightarrow> join_commands s cs = Some (s @ concat (map (\<lambda>c. '' | '' @ command_text c) cs))
    \<and> c_str (s @ concat (map (\<lambda>c. '' | '' @ command_text c) cs))"
proof (induction cs arbitrary: s)
  case (Cons c cs)
  then have "merge_all s ['' | '', command_text c] = Some (s @ '' | '' @ command_text c)" "c_str (s @ '' | '' @ command_text c)"
    using merge_all_eq [of s "['' | '', command_text c]"] scommand_to_string_eq(2) [of c] by auto
  then show ?case using Cons.IH [of "s @ '' | '' @ command_text c"] Cons.prems scommand_to_string_eq(1) [of c] by simp
qed simp

text \<open>
  \<open>pipeline_to_string\<close> writes the commands of a pipeline in order, separated by bars, with a
  final ampersand when the shell is not to wait; no string operation leaves its buffer.
\<close>

theorem pipeline_to_string_spec:
  assumes "\<forall>c \<in> set (cmds p). well_formed c"
  shows "pipeline_to_string p = Some (case cmds p of [] \<Rightarrow> [] | c # cs \<Rightarrow>
    command_text c @ concat (map (\<lambda>c. '' | '' @ command_text c) cs) @ (if pwait p then [] else '' &''))"
proof (cases "cmds p")
  case (Cons c cs)
  then have c: "scommand_to_string c = Some (command_text c)" "c_str (command_text c)"
    using assms scommand_to_string_eq by simp_all
  note j = join_commands_eq [OF c(2), of cs]
  show ?thesis
    using Cons c j assms by (simp add: pipeline_to_string_def strreallocmerge_eq pipeline_get_wait_def)
qed (simp add: pipeline_to_string_def)

theorem pipeline_to_string_spec_witness:
  "pipeline_to_string \<lparr>cmds = [\<lparr>command = [''ls''], cmd_in = None, cmd_out = None\<rparr>, \<lparr>command = [''wc''], cmd_in = None, cmd_out = Some ''o''\<rparr>],
     pwait = False\<rparr> = Some ''ls  | wc  > o &''"
  using pipeline_to_string_spec [of "\<lparr>cmds = [\<lparr>command = [''ls''], cmd_in = None, cmd_out = None\<rparr>,
      \<lparr>command = [''wc''], cmd_in = None, cmd_out = Some ''o''\<rparr>], pwait = False\<rparr>"]
  by (simp add: well_formed_def c_str_def NUL_def command_text_def redirection_def)

end
