(* ===== verification/Shell_Parsing.thy ===== *)
theory Shell_Parsing
  imports Shell_Command
begin

text \<open>
  \<open>Lab1/parsing.c\<close>: building a pipeline from the tokens of a line.

  The lexer behind \<open>parser.h\<close> comes as an object file without source: it is the record
  \<open>parser_api\<close> of the functions of that interface over a state \<open>'p\<close>. \<open>lexes\<close> states what
  \<open>parser.h\<close> documents, for a lexer whose remaining input is a list of tokens.
\<close>

section \<open>The lexer interface\<close>

datatype arg_kind = ARG_NORMAL | ARG_INPUT | ARG_OUTPUT

record 'p parser_api =
  parser_next_argument :: "'p \<Rightarrow> string option \<times> arg_kind \<times> 'p"
  parser_op_background :: "'p \<Rightarrow> bool \<times> 'p"
  parser_skip_blanks :: "'p \<Rightarrow> 'p"
  parser_op_pipe :: "'p \<Rightarrow> bool \<times> 'p"
  parser_garbage :: "'p \<Rightarrow> bool \<times> 'p"
  parser_at_eof :: "'p \<Rightarrow> bool"

section \<open>Parsing\<close>

fun strstr :: "string \<Rightarrow> string \<Rightarrow> bool" where
  "strstr [] t \<longleftrightarrow> t = []"
| "strstr (c # s) t \<longleftrightarrow> take (length t) (c # s) = t \<or> strstr s t"

definition toCheck :: "char list" where "toCheck = '',#!$%?*''"

text \<open>The inverted exclamation and question marks of the source are two UTF-8 bytes each.\<close>

definition toCheckstr :: "string list" where
  "toCheckstr = [''[]'', ''{}'', ''()'', [CHR 0xC2, CHR 0xA1], [CHR 0xC2, CHR 0xBF], '';'']"

definition has_no_symbols :: "string \<Rightarrow> bool" where
  "has_no_symbols argument \<longleftrightarrow> (\<forall>c \<in> set toCheck. c \<notin> set argument) \<and> (\<forall>t \<in> set toCheckstr. \<not> strstr argument t)"

fun add_argument :: "scommand \<Rightarrow> arg_kind \<Rightarrow> string \<Rightarrow> scommand" where
  "add_argument res ARG_NORMAL new_arg = scommand_push_back res new_arg"
| "add_argument res ARG_INPUT new_arg = scommand_set_redir_in res new_arg"
| "add_argument res ARG_OUTPUT new_arg = scommand_set_redir_out res new_arg"

text \<open>
  The loop of \<open>parse_scommand\<close> with an argument read: after one with invalid symbols, one more
  argument is read and the result is \<open>NULL\<close>.
\<close>

partial_function (option) parse_args ::
  "'p parser_api \<Rightarrow> 'p \<Rightarrow> scommand \<Rightarrow> arg_kind \<Rightarrow> string \<Rightarrow> (scommand option \<times> 'p) option" where
  "parse_args api p res arg_type new_arg =
     (case parser_next_argument api p of (next_arg, next_type, p) \<Rightarrow>
      if \<not> has_no_symbols new_arg then Some (None, p)
      else case next_arg of
          None \<Rightarrow> Some (Some (add_argument res arg_type new_arg), p)
        | Some a \<Rightarrow> parse_args api p (add_argument res arg_type new_arg) next_type a)"

definition parse_scommand :: "'p parser_api \<Rightarrow> 'p \<Rightarrow> (scommand option \<times> 'p) option" where
  "parse_scommand api p = (case parser_next_argument api p of (new_arg, arg_type, p) \<Rightarrow>
     case new_arg of None \<Rightarrow> Some (None, p) | Some a \<Rightarrow> parse_args api p scommand_new arg_type a)"

text \<open>The loop over the bars; a command that is \<open>NULL\<close> fails the assertion of \<open>pipeline_push_back\<close>.\<close>

partial_function (option) parse_stages :: "'p parser_api \<Rightarrow> 'p \<Rightarrow> pipeline \<Rightarrow> (pipeline \<times> 'p) option" where
  "parse_stages api p result = do {
     (cmd, p) \<leftarrow> parse_scommand api p;
     result \<leftarrow> pipeline_push_back result cmd;
     (case parser_op_pipe api p of (another_pipe, p) \<Rightarrow>
        if another_pipe then parse_stages api p result else Some (result, p)) }"

definition parse_commands :: "'p parser_api \<Rightarrow> 'p \<Rightarrow> scommand option \<Rightarrow> (pipeline \<times> 'p) option" where
  "parse_commands api p cmd = (case cmd of
      None \<Rightarrow> Some (pipeline_new, p)
    | Some c \<Rightarrow> do {
        result \<leftarrow> pipeline_push_back pipeline_new (Some c);
        (case parser_op_pipe api p of (another_pipe, p) \<Rightarrow>
           if another_pipe then parse_stages api p result else Some (result, p)) })"

text \<open>The result \<open>Some (None, p)\<close> is \<open>NULL\<close>.\<close>

definition parse_pipeline :: "'p parser_api \<Rightarrow> 'p \<Rightarrow> (pipeline option \<times> 'p) option" where
  "parse_pipeline api p =
     (if parser_at_eof api p then None
      else do {
        (cmd, p) \<leftarrow> parse_scommand api p;
        (result, p) \<leftarrow> parse_commands api p cmd;
        (case parser_op_background api (parser_skip_blanks api p) of (is_background, p) \<Rightarrow>
         let result = (if is_background then pipeline_set_wait result False else result) in
         case parser_garbage api p of (has_garbage, p) \<Rightarrow>
           Some (if has_garbage then None else Some result, p)) })"

section \<open>Lines of tokens\<close>

datatype token = Arg arg_kind string | Bar | Ampersand | Junk | Newline

definition lexes :: "'p parser_api \<Rightarrow> ('p \<Rightarrow> token list) \<Rightarrow> bool" where
  "lexes api rest \<longleftrightarrow> (\<forall>p.
     (case rest p of
        Arg k s # ts \<Rightarrow> (\<exists>p'. parser_next_argument api p = (Some s, k, p') \<and> rest p' = ts)
      | _ \<Rightarrow> (\<exists>k p'. parser_next_argument api p = (None, k, p') \<and> rest p' = rest p))
   \<and> (\<exists>p'. parser_op_pipe api p = (rest p \<noteq> [] \<and> hd (rest p) = Bar, p')
        \<and> rest p' = (if rest p \<noteq> [] \<and> hd (rest p) = Bar then tl (rest p) else rest p))
   \<and> (\<exists>p'. parser_op_background api p = (rest p \<noteq> [] \<and> hd (rest p) = Ampersand, p')
        \<and> rest p' = (if rest p \<noteq> [] \<and> hd (rest p) = Ampersand then tl (rest p) else rest p))
   \<and> rest (parser_skip_blanks api p) = rest p
   \<and> (\<exists>p'. parser_garbage api p = (takeWhile (\<lambda>t. t \<noteq> Newline) (rest p) \<noteq> [], p')
        \<and> rest p' = tl (dropWhile (\<lambda>t. t \<noteq> Newline) (rest p)))
   \<and> (parser_at_eof api p \<longleftrightarrow> rest p = []))"

text \<open>A command as its arguments and redirections in the order of the line.\<close>

type_synonym words = "(arg_kind \<times> string) list"

definition command_of :: "words \<Rightarrow> scommand" where
  "command_of ws = foldl (\<lambda>c (k, s). add_argument c k s) scommand_new ws"

definition words_ok :: "words \<Rightarrow> bool" where
  "words_ok ws \<longleftrightarrow> ws \<noteq> [] \<and> (\<forall>(k, s) \<in> set ws. has_no_symbols s)"

definition arg_tokens :: "words \<Rightarrow> token list" where "arg_tokens ws = map (\<lambda>(k, s). Arg k s) ws"

fun stage_tokens :: "words list \<Rightarrow> token list" where
  "stage_tokens [] = []"
| "stage_tokens [ws] = arg_tokens ws"
| "stage_tokens (ws # wss) = arg_tokens ws @ Bar # stage_tokens wss"

lemma lexes_arg: "lexes api rest \<Longrightarrow> rest p = Arg k s # ts \<Longrightarrow> \<exists>p'. parser_next_argument api p = (Some s, k, p') \<and> rest p' = ts"
  by (auto simp: lexes_def dest: spec [of _ p])

definition no_arg :: "token list \<Rightarrow> bool" where "no_arg ts \<longleftrightarrow> (\<forall>k s ts'. ts \<noteq> Arg k s # ts')"

lemma no_arg_simps [simp]: "no_arg (Bar # ts)" "no_arg (Ampersand # ts)" "no_arg (Newline # ts)"
  by (simp_all add: no_arg_def)

lemma lexes_no_arg: "lexes api rest \<Longrightarrow> no_arg (rest p) \<Longrightarrow> \<exists>k p'. parser_next_argument api p = (None, k, p') \<and> rest p' = rest p"
  unfolding lexes_def no_arg_def by (drule spec [of _ p]) (auto split: list.splits token.splits)

lemma parse_args_ok:
  assumes "lexes api rest"
  shows "rest p = arg_tokens ws @ ts \<Longrightarrow> no_arg ts \<Longrightarrow> \<forall>(k, s) \<in> set ((k, a) # ws). has_no_symbols s
    \<Longrightarrow> \<exists>p'. parse_args api p res k a = Some (Some (foldl (\<lambda>c (k, s). add_argument c k s) res ((k, a) # ws)), p') \<and> rest p' = ts"
proof (induction ws arbitrary: p res k a)
  case Nil
  then obtain k' p' where "parser_next_argument api p = (None, k', p')" "rest p' = ts"
    using lexes_no_arg [OF assms, of p] by (auto simp: arg_tokens_def)
  then show ?case using Nil by (subst parse_args.simps) simp
next
  case (Cons w ws)
  obtain k2 a2 where w: "w = (k2, a2)" by fastforce
  then obtain p1 where p1: "parser_next_argument api p = (Some a2, k2, p1)" "rest p1 = arg_tokens ws @ ts"
    using lexes_arg [OF assms, of p k2 a2] Cons.prems(1) by (auto simp: arg_tokens_def)
  then obtain p' where "parse_args api p1 (add_argument res k a) k2 a2
      = Some (Some (foldl (\<lambda>c (k, s). add_argument c k s) (add_argument res k a) ((k2, a2) # ws)), p')" "rest p' = ts"
    using Cons.IH [of p1 k2 a2 "add_argument res k a"] Cons.prems w by auto
  then show ?case using p1(1) Cons.prems w by (subst parse_args.simps) simp
qed

lemma parse_scommand_ok:
  assumes "lexes api rest" "rest p = arg_tokens ws @ ts" "no_arg ts" "words_ok ws"
  shows "\<exists>p'. parse_scommand api p = Some (Some (command_of ws), p') \<and> rest p' = ts"
proof -
  obtain k a ws' where ws: "ws = (k, a) # ws'" using assms(4) by (cases ws) (auto simp: words_ok_def)
  then obtain p1 where p1: "parser_next_argument api p = (Some a, k, p1)" "rest p1 = arg_tokens ws' @ ts"
    using lexes_arg [OF assms(1), of p k a] assms(2) by (auto simp: arg_tokens_def)
  then show ?thesis
    using parse_args_ok [OF assms(1) p1(2) assms(3), of k a scommand_new] assms(4) ws
    by (simp add: parse_scommand_def command_of_def words_ok_def)
qed

lemma parse_scommand_none:
  "lexes api rest \<Longrightarrow> no_arg (rest p) \<Longrightarrow> \<exists>p'. parse_scommand api p = Some (None, p') \<and> rest p' = rest p"
  using lexes_no_arg [of api rest p] by (auto simp: parse_scommand_def)

lemma lexes_op_pipe:
  "lexes api rest \<Longrightarrow> \<exists>p'. parser_op_pipe api p = (rest p \<noteq> [] \<and> hd (rest p) = Bar, p')
    \<and> rest p' = (if rest p \<noteq> [] \<and> hd (rest p) = Bar then tl (rest p) else rest p)"
  by (simp add: lexes_def)

lemma lexes_op_background:
  "lexes api rest \<Longrightarrow> \<exists>p'. parser_op_background api p = (rest p \<noteq> [] \<and> hd (rest p) = Ampersand, p')
    \<and> rest p' = (if rest p \<noteq> [] \<and> hd (rest p) = Ampersand then tl (rest p) else rest p)"
  by (simp add: lexes_def)

lemma lexes_garbage:
  "lexes api rest \<Longrightarrow> \<exists>p'. parser_garbage api p = (takeWhile (\<lambda>t. t \<noteq> Newline) (rest p) \<noteq> [], p')
    \<and> rest p' = tl (dropWhile (\<lambda>t. t \<noteq> Newline) (rest p))"
  by (simp add: lexes_def)

lemma parse_stages_ok:
  assumes "lexes api rest"
  shows "rest p = stage_tokens wss @ ts \<Longrightarrow> wss \<noteq> [] \<Longrightarrow> \<forall>ws \<in> set wss. words_ok ws \<Longrightarrow> no_arg ts \<Longrightarrow> ts \<noteq> [] \<Longrightarrow> hd ts \<noteq> Bar
    \<Longrightarrow> \<exists>p'. parse_stages api p q = Some (q\<lparr>cmds := cmds q @ map command_of wss\<rparr>, p') \<and> rest p' = ts"
proof (induction wss arbitrary: p q rule: stage_tokens.induct)
  case (2 ws)
  then obtain p1 where p1: "parse_scommand api p = Some (Some (command_of ws), p1)" "rest p1 = ts"
    using parse_scommand_ok [OF assms, of p ws ts] by auto
  then obtain p2 where "parser_op_pipe api p1 = (False, p2)" "rest p2 = ts"
    using lexes_op_pipe [OF assms, of p1] 2 by auto
  then show ?case using p1 by (subst parse_stages.simps) (simp add: pipeline_push_back_def)
next
  case (3 ws ws2 wss)
  then obtain p1 where p1: "parse_scommand api p = Some (Some (command_of ws), p1)" "rest p1 = Bar # stage_tokens (ws2 # wss) @ ts"
    using parse_scommand_ok [OF assms, of p ws "Bar # stage_tokens (ws2 # wss) @ ts"] by auto
  then obtain p2 where p2: "parser_op_pipe api p1 = (True, p2)" "rest p2 = stage_tokens (ws2 # wss) @ ts"
    using lexes_op_pipe [OF assms, of p1] by auto
  obtain p' where "parse_stages api p2 (q\<lparr>cmds := cmds q @ [command_of ws]\<rparr>)
      = Some (q\<lparr>cmds := cmds q @ command_of ws # map command_of (ws2 # wss)\<rparr>, p')" "rest p' = ts"
    using "3.IH" [OF p2(2), of "q\<lparr>cmds := cmds q @ [command_of ws]\<rparr>"] "3.prems" by auto
  then show ?case using p1 p2 by (subst parse_stages.simps) (simp add: pipeline_push_back_def)
qed simp

section \<open>Properties\<close>

text \<open>
  C38: a line of commands separated by bars, each with valid arguments, gives the pipeline of these
  commands, to be waited for unless the line ends in an ampersand, and leaves the input at the
  next line.
\<close>

theorem parse_pipeline_spec:
  assumes "lexes api rest" and "wss \<noteq> []" and "\<forall>ws \<in> set wss. words_ok ws"
    and "rest p = stage_tokens wss @ (if bg then [Ampersand] else []) @ Newline # ts"
  shows "\<exists>p'. parse_pipeline api p = Some (Some \<lparr>cmds = map command_of wss, pwait = (\<not> bg)\<rparr>, p') \<and> rest p' = ts"
proof -
  let ?tl = "(if bg then [Ampersand] else []) @ Newline # ts"
  obtain ws wss' where wss: "wss = ws # wss'" using assms(2) by (cases wss) auto
  have eof: "\<not> parser_at_eof api p" using assms(1,4) by (simp add: lexes_def)
  have e: "no_arg ?tl" "?tl \<noteq> []" "hd ?tl \<noteq> Bar" by simp_all
  obtain c p1 p2 where p1: "parse_scommand api p = Some (c, p1)"
    and p2: "parse_commands api p1 c = Some (\<lparr>cmds = map command_of wss, pwait = True\<rparr>, p2)" "rest p2 = ?tl"
  proof (cases wss')
    case Nil
    then obtain p1 where p1: "parse_scommand api p = Some (Some (command_of ws), p1)" "rest p1 = ?tl"
      using parse_scommand_ok [OF assms(1), of p ws ?tl] assms(3,4) wss e(1) by auto
    then obtain p2 where "parser_op_pipe api p1 = (False, p2)" "rest p2 = ?tl"
      using lexes_op_pipe [OF assms(1), of p1] e by auto
    then show thesis using Nil wss by (intro that [OF p1(1), of p2]) (simp_all add: parse_commands_def pipeline_push_back_def pipeline_new_def)
  next
    case (Cons ws2 wss2)
    then obtain p1 where p1: "parse_scommand api p = Some (Some (command_of ws), p1)" "rest p1 = Bar # stage_tokens wss' @ ?tl"
      using parse_scommand_ok [OF assms(1), of p ws "Bar # stage_tokens wss' @ ?tl"] assms(3,4) wss by auto
    then obtain p2 where p2: "parser_op_pipe api p1 = (True, p2)" "rest p2 = stage_tokens wss' @ ?tl"
      using lexes_op_pipe [OF assms(1), of p1] by auto
    then obtain p3 where "parse_stages api p2 \<lparr>cmds = [command_of ws], pwait = True\<rparr>
        = Some (\<lparr>cmds = command_of ws # map command_of wss', pwait = True\<rparr>, p3)" "rest p3 = ?tl"
      using parse_stages_ok [OF assms(1) p2(2) _ _ e, of "\<lparr>cmds = [command_of ws], pwait = True\<rparr>"] assms(3) wss Cons by auto
    then show thesis using p2 wss by (intro that [OF p1(1), of p3]) (simp_all add: parse_commands_def pipeline_push_back_def pipeline_new_def)
  qed
  let ?p3 = "parser_skip_blanks api p2"
  have "rest ?p3 = ?tl" using assms(1) p2(2) by (simp add: lexes_def)
  then obtain p4 where p4: "parser_op_background api ?p3 = (bg, p4)" "rest p4 = Newline # ts"
    using lexes_op_background [OF assms(1), of ?p3] by (cases bg) auto
  obtain p5 where p5: "parser_garbage api p4 = (False, p5)" "rest p5 = ts"
    using lexes_garbage [OF assms(1), of p4] p4(2) by auto
  have "parse_pipeline api p = Some (Some \<lparr>cmds = map command_of wss, pwait = (\<not> bg)\<rparr>, p5)"
    using p1 p2(1) p4(1) p5(1) eof by (simp add: parse_pipeline_def pipeline_set_wait_def)
  then show ?thesis using p5(2) by blast
qed

text \<open>
  a bar without a command behind it ends the shell: \<open>parse_scommand\<close> gives \<open>NULL\<close> and pushing
  it on the pipeline fails an assertion.
\<close>

theorem empty_stage_aborts:
  assumes "lexes api rest" and "words_ok ws" and "rest p = arg_tokens ws @ Bar # ts" and "no_arg ts"
  shows "parse_pipeline api p = None"
proof -
  obtain p1 where p1: "parse_scommand api p = Some (Some (command_of ws), p1)" "rest p1 = Bar # ts"
    using parse_scommand_ok [OF assms(1,3) _ assms(2)] by auto
  obtain p2 where p2: "parser_op_pipe api p1 = (True, p2)" "rest p2 = ts"
    using lexes_op_pipe [OF assms(1), of p1] p1(2) by auto
  obtain p3 where "parse_scommand api p2 = Some (None, p3)"
    using parse_scommand_none [OF assms(1), of p2] p2(2) assms(4) by auto
  then have "parse_stages api p2 q = None" for q by (subst parse_stages.simps) (simp add: pipeline_push_back_def)
  then show ?thesis using p1 p2 by (simp add: parse_pipeline_def parse_commands_def pipeline_push_back_def)
qed

text \<open>A lexer over token lists.\<close>

definition list_lexer :: "token list parser_api" where
  "list_lexer = \<lparr>parser_next_argument = (\<lambda>ts. case ts of Arg k s # ts' \<Rightarrow> (Some s, k, ts') | _ \<Rightarrow> (None, ARG_NORMAL, ts)),
     parser_op_background = (\<lambda>ts. if ts \<noteq> [] \<and> hd ts = Ampersand then (True, tl ts) else (False, ts)),
     parser_skip_blanks = (\<lambda>ts. ts),
     parser_op_pipe = (\<lambda>ts. if ts \<noteq> [] \<and> hd ts = Bar then (True, tl ts) else (False, ts)),
     parser_garbage = (\<lambda>ts. (takeWhile (\<lambda>t. t \<noteq> Newline) ts \<noteq> [], tl (dropWhile (\<lambda>t. t \<noteq> Newline) ts))),
     parser_at_eof = (\<lambda>ts. ts = [])\<rparr>"

lemma list_lexer_lexes: "lexes list_lexer (\<lambda>ts. ts)"
  by (auto simp: lexes_def list_lexer_def split: list.splits token.splits)

theorem parse_pipeline_spec_witness:
  "\<exists>p'. parse_pipeline list_lexer [Arg ARG_NORMAL ''ls'', Arg ARG_INPUT ''f'', Bar, Arg ARG_NORMAL ''wc'', Ampersand, Newline]
    = Some (Some \<lparr>cmds = [\<lparr>command = [''ls''], cmd_in = Some ''f'', cmd_out = None\<rparr>, \<lparr>command = [''wc''], cmd_in = None, cmd_out = None\<rparr>],
        pwait = False\<rparr>, p')"
  using parse_pipeline_spec [OF list_lexer_lexes, of "[[(ARG_NORMAL, ''ls''), (ARG_INPUT, ''f'')], [(ARG_NORMAL, ''wc'')]]" _ True "[]"]
  by (simp add: words_ok_def has_no_symbols_def toCheck_def toCheckstr_def command_of_def scommand_new_def
      scommand_push_back_def scommand_set_redir_in_def arg_tokens_def)

theorem empty_stage_aborts_witness: "parse_pipeline list_lexer [Arg ARG_NORMAL ''ls'', Bar, Newline] = None"
  by (rule empty_stage_aborts [OF list_lexer_lexes, of "[(ARG_NORMAL, ''ls'')]" _ "[Newline]"])
    (simp_all add: words_ok_def has_no_symbols_def toCheck_def toCheckstr_def arg_tokens_def)

end
