(* ===== verification/Shell_Execute.thy ===== *)
theory Shell_Execute
  imports Shell_Parsing
begin

text \<open>
  \<open>Lab1/builtin.c\<close>, \<open>Lab1/execute.c\<close> and \<open>Lab1/mybash.c\<close>: internal commands, processes and pipes,
  the loop of the shell.

  What the kernel answers is the record \<open>os\<close>. A process is the list of the system calls it makes
  and how it ends; the calls that only print are left out. \<open>None\<close> is a failed \<open>assert\<close> (the shell
  aborts) or an access outside a buffer.
\<close>

section \<open>Internal commands\<close>

definition builtin_is_exit :: "scommand \<Rightarrow> bool option" where
  "builtin_is_exit cmd = do { s \<leftarrow> scommand_front cmd; Some (s = ''exit'') }"

definition builtin_is_cd :: "scommand \<Rightarrow> bool option" where
  "builtin_is_cd cmd = do { s \<leftarrow> scommand_front cmd; Some (s = ''cd'') }"

definition builtin_is_help :: "scommand \<Rightarrow> bool option" where
  "builtin_is_help cmd = do { s \<leftarrow> scommand_front cmd; Some (s = ''help'') }"

definition builtin_is_internal :: "scommand \<Rightarrow> bool option" where
  "builtin_is_internal cmd = do {
     e \<leftarrow> builtin_is_exit cmd;
     (if e then Some True else do {
        c \<leftarrow> builtin_is_cd cmd;
        (if c then Some True else builtin_is_help cmd) }) }"

text \<open>It asserts what it is to find out.\<close>

definition builtin_alone :: "pipeline \<Rightarrow> bool option" where
  "builtin_alone p = do {
     b \<leftarrow> (if pipeline_length p = 1 then do { c \<leftarrow> pipeline_front p; builtin_is_internal c } else Some False);
     (if b then Some True else None) }"

definition es_solo_espacio :: "string \<Rightarrow> bool" where
  "es_solo_espacio path \<longleftrightarrow> (\<forall>c \<in> set path. c = CHR '' '')"

definition path_special :: "nat \<Rightarrow> string \<Rightarrow> bool" where
  "path_special len_path path \<longleftrightarrow> path = ''..'' \<or> es_solo_espacio path \<or> path \<in> {''.'', ''/'', ''~''}"

definition PATH_SIZE :: nat where "PATH_SIZE = 1024"

text \<open>\<open>dirname\<close> of the C library.\<close>

definition drop_slashes :: "string \<Rightarrow> string" where
  "drop_slashes path = rev (dropWhile (\<lambda>c. c = CHR ''/'') (rev path))"

definition c_dirname :: "string option \<Rightarrow> string" where
  "c_dirname path = (case path of None \<Rightarrow> ''.'' | Some path \<Rightarrow>
     let q = rev (dropWhile (\<lambda>c. c \<noteq> CHR ''/'') (rev (drop_slashes path))) in
     if path = [] then ''.'' else if drop_slashes path = [] then ''/''
     else if q = [] then ''.'' else if drop_slashes q = [] then ''/'' else drop_slashes q)"

record shell =
  cwd :: string
  home :: "string option"

definition getcwd :: "shell \<Rightarrow> string option" where
  "getcwd sh = (if length (cwd sh) < PATH_SIZE then Some (cwd sh) else None)"

text \<open>\<open>chdir\<close> takes the directory and the path, \<open>NULL\<close> or a string, and gives the new directory.\<close>

type_synonym chdir = "string \<Rightarrow> string option \<Rightarrow> string option"

definition cd_target :: "shell \<Rightarrow> scommand \<Rightarrow> string option option" where
  "cd_target sh cmd =
     (let cwd = getcwd sh; final_path = c_dirname cwd in
      if scommand_is_empty cmd then Some (home sh)
      else do {
        path \<leftarrow> scommand_front cmd;
        let len_path = length path; is_special = path_special len_path path;
            relative = (path = [] \<or> hd path \<noteq> CHR ''/'') \<and> \<not> is_special in do {
        path \<leftarrow> (if relative then strmerge ''/'' path else Some path);
        (if is_special then
           Some (if path = ''.'' \<or> len_path = 0 then getcwd sh
                 else if hd path = CHR ''/'' then Some ''/''
                 else if path = ''..'' then Some final_path
                 else home sh)
         else if \<not> relative then Some (Some path)
         else do {
           cwd \<leftarrow> cwd;
           (if length cwd + length path < PATH_SIZE then Some (Some (cwd @ path)) else None) }) } })"

text \<open>The result says whether \<open>chdir\<close> succeeded.\<close>

definition run_cd :: "chdir \<Rightarrow> shell \<Rightarrow> scommand \<Rightarrow> (bool \<times> shell) option" where
  "run_cd chdir sh cmd = do {
     cmd \<leftarrow> scommand_pop_front cmd;
     final_path \<leftarrow> cd_target sh cmd;
     Some (case chdir (cwd sh) final_path of None \<Rightarrow> (False, sh) | Some d \<Rightarrow> (True, sh\<lparr>cwd := d\<rparr>)) }"

datatype 'a running = Running 'a | Exited int

definition builtin_run :: "chdir \<Rightarrow> shell \<Rightarrow> scommand \<Rightarrow> shell running option" where
  "builtin_run chdir sh cmd = do {
     b \<leftarrow> builtin_is_internal cmd;
     (if \<not> b then None else do {
        cd \<leftarrow> builtin_is_cd cmd;
        e \<leftarrow> builtin_is_exit cmd;
        (if cd then do { (_, sh1) \<leftarrow> run_cd chdir sh cmd; Some (Running sh1) }
         else if e then Some (Exited 0)
         else Some (Running sh)) }) }"

section \<open>Processes\<close>

datatype call = Open_In string | Open_Out string | Dup2 int int | Close int | Exec "string option list"
  | Pipe | Fork | Wait

text \<open>A process ends with a status, as another program, or by \<open>abort\<close>.\<close>

datatype ending = Exit int | Image "string option list" | Abort

record os =
  os_open_in :: "string \<Rightarrow> int"
  os_open_out :: "string \<Rightarrow> int"
  os_dup2 :: "int \<Rightarrow> int \<Rightarrow> int"
  os_close :: "int \<Rightarrow> int"
  os_exec :: "string option list \<Rightarrow> bool"
  os_pipe :: "nat \<Rightarrow> (int \<times> int) option"
  os_fork :: "nat \<Rightarrow> int"
  os_garbage :: "nat \<Rightarrow> int"
  os_chdir :: chdir

text \<open>\<open>close_all\<close> closes the descriptors of all pipes and looks at no result.\<close>

definition close_all :: "int list \<Rightarrow> nat \<Rightarrow> call list" where
  "close_all fds n = map (\<lambda>i. Close (fds ! i)) [0..<n * 2]"

text \<open>A redirection: the calls made, and whether the process goes on.\<close>

definition redirect :: "os \<Rightarrow> call \<Rightarrow> int \<Rightarrow> int \<Rightarrow> call list \<times> bool" where
  "redirect os opening file std =
     (if file = -1 then ([opening], False)
      else if os_dup2 os file std = -1 then ([opening, Dup2 file std], False)
      else ([opening, Dup2 file std, Close file], os_close os file \<noteq> -1))"

definition exec_ext :: "os \<Rightarrow> scommand \<Rightarrow> call list \<times> ending" where
  "exec_ext os cmd =
     (if scommand_is_empty cmd then ([], Abort)
      else case (case scommand_get_redir_in cmd of None \<Rightarrow> ([], True)
                 | Some f \<Rightarrow> redirect os (Open_In f) (os_open_in os f) 0) of (c1, ok) \<Rightarrow>
        if \<not> ok then (c1, Exit 1)
        else case (case scommand_get_redir_out cmd of None \<Rightarrow> ([], True)
                   | Some f \<Rightarrow> redirect os (Open_Out f) (os_open_out os f) 1) of (c2, ok) \<Rightarrow>
        if \<not> ok then (c1 @ c2, Exit 1)
        else case scommand_to_argv cmd of
            None \<Rightarrow> (c1 @ c2, Abort)
          | Some (argv, _) \<Rightarrow> (c1 @ c2 @ [Exec argv], if os_exec os argv then Image argv else Exit 1))"

definition execute_command :: "os \<Rightarrow> shell \<Rightarrow> scommand \<Rightarrow> call list \<times> ending" where
  "execute_command os sh cmd = (case builtin_is_internal cmd of
      None \<Rightarrow> ([], Abort)
    | Some True \<Rightarrow> ([], case builtin_run (os_chdir os) sh cmd of None \<Rightarrow> Abort | Some _ \<Rightarrow> Exit 0)
    | Some False \<Rightarrow> if \<not> scommand_is_empty cmd then exec_ext os cmd else ([], Exit 0))"

text \<open>What running a pipeline leaves: the shell, its own system calls, its children in order.\<close>

record run =
  sh_state :: "shell running"
  sh_calls :: "call list"
  sh_children :: "(call list \<times> ending) list"

definition execute_single :: "os \<Rightarrow> shell \<Rightarrow> pipeline \<Rightarrow> run option" where
  "execute_single os sh apipe =
     (if pipeline_length apipe \<noteq> 1 then None
      else do {
        cmd \<leftarrow> pipeline_front apipe;
        b \<leftarrow> builtin_is_internal cmd;
        (if b then do {
           r \<leftarrow> builtin_run (os_chdir os) sh cmd;
           Some \<lparr>sh_state = r, sh_calls = [], sh_children = []\<rparr> }
         else Some (if os_fork os 0 < 0 then \<lparr>sh_state = Exited 1, sh_calls = [Fork], sh_children = []\<rparr>
                    else \<lparr>sh_state = Running sh, sh_calls = [Fork], sh_children = [exec_ext os cmd]\<rparr>)) })"

text \<open>The array of descriptors after the \<open>pipe\<close> calls, and how many succeeded.\<close>

fun open_pipes :: "os \<Rightarrow> int list \<Rightarrow> nat \<Rightarrow> nat \<Rightarrow> int list \<times> bool \<times> call list" where
  "open_pipes os fds i 0 = (fds, True, [])"
| "open_pipes os fds i (Suc n) = (case os_pipe os i of
      None \<Rightarrow> (fds, False, [Pipe])
    | Some (r, w) \<Rightarrow> (case open_pipes os (fds[i * 2 := r, i * 2 + 1 := w]) (i + 1) n of
        (fds, ok, cs) \<Rightarrow> (fds, ok, Pipe # cs)))"

definition child_of_pipeline :: "os \<Rightarrow> shell \<Rightarrow> int list \<Rightarrow> nat \<Rightarrow> nat \<Rightarrow> pipeline \<Rightarrow> call list \<times> ending" where
  "child_of_pipeline os sh fds len_pipe i apipe =
     (let out = (if pipeline_length apipe > 1 then [Dup2 (fds ! (i + 1)) 1] else []);
          inp = (if i \<noteq> 0 then [Dup2 (fds ! (i - 2)) 0] else []) in
      if pipeline_length apipe > 1 \<and> os_dup2 os (fds ! (i + 1)) 1 = -1 then (out, Exit 1)
      else if i \<noteq> 0 \<and> os_dup2 os (fds ! (i - 2)) 0 = -1 then (out @ inp, Exit 1)
      else case pipeline_front apipe of
          None \<Rightarrow> (out @ inp @ close_all fds len_pipe, Abort)
        | Some cmd \<Rightarrow> (case execute_command os sh cmd of (cs, e) \<Rightarrow> (out @ inp @ close_all fds len_pipe @ cs, e)))"

function start_stages :: "os \<Rightarrow> shell \<Rightarrow> int list \<Rightarrow> nat \<Rightarrow> nat \<Rightarrow> pipeline \<Rightarrow> call list \<times> (call list \<times> ending) list" where
  "start_stages os sh fds len_pipe i apipe =
     (case pipeline_pop_front apipe of
        None \<Rightarrow> ([], [])
      | Some rest \<Rightarrow>
          if os_fork os (i div 2) < 0 then ([Fork], [])
          else case start_stages os sh fds len_pipe (i + 2) rest of (cs, children) \<Rightarrow>
            (Fork # cs, child_of_pipeline os sh fds len_pipe i apipe # children))"
  by pat_completeness auto
termination
  by (relation "measure (\<lambda>(os, sh, fds, n, i, p). pipeline_length p)")
    (auto simp: pipeline_defs split: if_splits)

declare start_stages.simps [simp del]

definition execute_multiple :: "os \<Rightarrow> shell \<Rightarrow> pipeline \<Rightarrow> run option" where
  "execute_multiple os sh apipe =
     (if pipeline_length apipe < 2 then None
      else let len_pipe = pipeline_length apipe - 1 in
        case open_pipes os (map (os_garbage os) [0..<len_pipe * 2]) 0 len_pipe of (fds, ok, pipes) \<Rightarrow>
        if \<not> ok then Some \<lparr>sh_state = Exited 0, sh_calls = pipes @ close_all fds len_pipe, sh_children = []\<rparr>
        else case start_stages os sh fds len_pipe 0 apipe of (forks, children) \<Rightarrow>
          Some \<lparr>sh_state = Running sh, sh_calls = pipes @ forks @ close_all fds len_pipe, sh_children = children\<rparr>)"

definition execute_pipeline_type :: "os \<Rightarrow> shell \<Rightarrow> pipeline \<Rightarrow> run option" where
  "execute_pipeline_type os sh apipe =
     (if pipeline_length apipe = 1 then execute_single os sh apipe
      else if pipeline_length apipe \<ge> 2 then execute_multiple os sh apipe
      else Some \<lparr>sh_state = Running sh, sh_calls = [], sh_children = []\<rparr>)"

text \<open>In the foreground, one \<open>wait\<close> per command, internal ones included.\<close>

definition execute_pipeline :: "os \<Rightarrow> shell \<Rightarrow> pipeline \<Rightarrow> run option" where
  "execute_pipeline os sh apipe = do {
     r \<leftarrow> execute_pipeline_type os sh apipe;
     Some (case sh_state r of
         Exited n \<Rightarrow> r
       | Running _ \<Rightarrow> if pipeline_get_wait apipe
           then r\<lparr>sh_calls := sh_calls r @ replicate (pipeline_length apipe) Wait\<rparr> else r) }"

section \<open>The shell\<close>

text \<open>The buffer \<open>prom_cwd_write\<close> allocates and fills.\<close>

definition prom_cwd_write :: "nat \<Rightarrow> string \<Rightarrow> string option" where
  "prom_cwd_write n word =
     (if length word < n then None
      else let lim = length word - n + 1 in Some (map (\<lambda>i. if i = 0 then CHR ''~'' else (word @ [NUL]) ! (i + n - 1)) [0..<lim]))"

text \<open>The directory shown in the prompt.\<close>

definition show_prompt :: "string \<Rightarrow> nat \<Rightarrow> string option" where
  "show_prompt dir lim =
     (if length dir > lim then do { b \<leftarrow> prom_cwd_write lim dir; buf_str b } else Some dir)"

text \<open>
  The loop of \<open>main\<close>; \<open>oss n\<close> is what the kernel answers in the iteration \<open>n\<close>, \<open>dir\<close> what the
  buffer of the current directory holds, which a failed \<open>getcwd\<close> does not change. The result is the
  exit status and the runs of the pipelines, in order.
\<close>

partial_function (option) main_loop ::
  "'p parser_api \<Rightarrow> (nat \<Rightarrow> os) \<Rightarrow> nat \<Rightarrow> nat \<Rightarrow> string option \<Rightarrow> 'p \<Rightarrow> shell \<Rightarrow> (int \<times> run list) option" where
  "main_loop api oss n cwd_lim dir p sh = do {
     d \<leftarrow> (case getcwd sh of None \<Rightarrow> dir | Some d \<Rightarrow> Some d);
     _ \<leftarrow> show_prompt d cwd_lim;
     (pipe, p) \<leftarrow> parse_pipeline api p;
     let quit = parser_at_eof api p in
     (case pipe of
        None \<Rightarrow> if quit then Some (0, []) else main_loop api oss (n + 1) cwd_lim (Some d) p sh
      | Some apipe \<Rightarrow> do {
          r \<leftarrow> execute_pipeline (oss n) sh apipe;
          (case sh_state r of
             Exited st \<Rightarrow> Some (st, [r])
           | Running sh1 \<Rightarrow>
               if quit then Some (0, [r])
               else do {
                 (st, rs) \<leftarrow> main_loop api oss (n + 1) cwd_lim (Some d) p sh1;
                 Some (st, r # rs) }) }) }"

section \<open>How the processes of a pipeline are connected\<close>

definition pipe_fds :: "(nat \<Rightarrow> int) \<Rightarrow> (nat \<Rightarrow> int) \<Rightarrow> nat \<Rightarrow> int list" where
  "pipe_fds r w n = map (\<lambda>j. if even j then r (j div 2) else w (j div 2)) [0..<n * 2]"

lemma open_pipes_ok:
  assumes "\<forall>i. os_pipe os i = Some (r i, w i)"
  shows "length fds = (i + n) * 2 \<Longrightarrow> \<exists>fds'. open_pipes os fds i n = (fds', True, replicate n Pipe) \<and> length fds' = length fds
    \<and> (\<forall>j < length fds. fds' ! j = (if j < i * 2 then fds ! j else if even j then r (j div 2) else w (j div 2)))"
proof (induction n arbitrary: i fds)
  case (Suc n)
  let ?f = "fds[i * 2 := r i, i * 2 + 1 := w i]"
  obtain fds' where f: "open_pipes os ?f (i + 1) n = (fds', True, replicate n Pipe)" "length fds' = length ?f"
    "\<forall>j < length ?f. fds' ! j = (if j < (i + 1) * 2 then ?f ! j else if even j then r (j div 2) else w (j div 2))"
    using Suc.IH [of ?f "i + 1"] Suc.prems by auto
  have "fds' ! j = (if j < i * 2 then fds ! j else if even j then r (j div 2) else w (j div 2))" if "j < length fds" for j
  proof -
    have "j < i * 2 \<or> j = i * 2 \<or> j = i * 2 + 1 \<or> (i + 1) * 2 \<le> j" by presburger
    then consider "j < i * 2" | "j = i * 2" | "j = i * 2 + 1" | "(i + 1) * 2 \<le> j" by blast
    then show ?thesis
    proof cases
      case 4
      then show ?thesis using f(3) that by simp
    qed (use f(3) that Suc.prems in \<open>simp_all add: nth_list_update\<close>)
  qed
  then show ?case using f assms by simp
qed simp

lemma open_pipes_all:
  assumes "\<forall>i. os_pipe os i = Some (r i, w i)"
  shows "open_pipes os (map (os_garbage os) [0..<n * 2]) 0 n = (pipe_fds r w n, True, replicate n Pipe)"
proof -
  obtain fds' where f: "open_pipes os (map (os_garbage os) [0..<n * 2]) 0 n = (fds', True, replicate n Pipe)" "length fds' = n * 2"
    "\<forall>j < n * 2. fds' ! j = (if even j then r (j div 2) else w (j div 2))"
    using open_pipes_ok [OF assms, of "map (os_garbage os) [0..<n * 2]" 0 n] by auto
  then have "fds' = pipe_fds r w n" by (auto simp: pipe_fds_def intro!: nth_equalityI)
  with f show ?thesis by simp
qed

definition pipe_closes :: "(nat \<Rightarrow> int) \<Rightarrow> (nat \<Rightarrow> int) \<Rightarrow> nat \<Rightarrow> call list" where
  "pipe_closes r w n = concat (map (\<lambda>i. [Close (r i), Close (w i)]) [0..<n])"

lemma close_all_pipes: "close_all (pipe_fds r w n) n = pipe_closes r w n"
proof -
  have "close_all (pipe_fds r w n) n = map (\<lambda>j. Close (if even j then r (j div 2) else w (j div 2))) [0..<n * 2]"
    by (simp add: close_all_def pipe_fds_def)
  also have "\<dots> = pipe_closes r w n" by (induction n) (simp_all add: pipe_closes_def)
  finally show ?thesis .
qed

lemma start_stages_ok:
  assumes "\<forall>i. 0 < os_fork os i"
  shows "start_stages os sh fds n i p = (replicate (length (cmds p)) Fork,
    map (\<lambda>j. child_of_pipeline os sh fds n (i + 2 * j) (p\<lparr>cmds := drop j (cmds p)\<rparr>)) [0..<length (cmds p)])"
proof (induction "cmds p" arbitrary: i p)
  case Nil
  then show ?case by (subst start_stages.simps) (simp add: pipeline_defs)
next
  case (Cons c cs)
  let ?q = "p\<lparr>cmds := cs\<rparr>"
  have pop: "pipeline_pop_front p = Some ?q" using Cons.hyps(2) [symmetric] by (simp add: pipeline_defs)
  have ih: "start_stages os sh fds n (i + 2) ?q = (replicate (length cs) Fork,
    map (\<lambda>j. child_of_pipeline os sh fds n (i + 2 + 2 * j) (p\<lparr>cmds := drop j cs\<rparr>)) [0..<length cs])"
    using Cons.hyps(1) [of ?q "i + 2"] by simp
  have self: "p\<lparr>cmds := c # cs\<rparr> = p" using Cons.hyps(2) by simp
  have up: "[0..<length (c # cs)] = 0 # map Suc [0..<length cs]" by (simp add: upt_conv_Cons map_Suc_upt del: upt_Suc)
  have nf: "\<not> os_fork os (i div 2) < 0" using assms by (simp add: order_less_imp_not_less)
  have f: "start_stages os sh fds n i p = (Fork # replicate (length cs) Fork, child_of_pipeline os sh fds n i p
      # map (\<lambda>j. child_of_pipeline os sh fds n (i + 2 + 2 * j) (p\<lparr>cmds := drop j cs\<rparr>)) [0..<length cs])"
    using pop ih nf by (subst start_stages.simps) simp
  show ?case unfolding f Cons.hyps(2) [symmetric] up by (simp add: self comp_def)
qed

text \<open>
  C37: when the kernel grants every pipe and process, a pipeline of \<open>n\<close> commands runs as \<open>n\<close>
  children: command \<open>k\<close> writes to pipe \<open>k\<close> unless it is the last and reads from pipe \<open>k - 1\<close> unless
  it is the first; each child, before it runs its command, and finally the shell close both ends of
  every pipe.
\<close>

theorem pipeline_wiring:
  assumes "2 \<le> length (cmds p)" and "\<forall>i. os_pipe os i = Some (r i, w i)" and "\<forall>i. 0 < os_fork os i"
    and "\<forall>a b. os_dup2 os a b \<noteq> -1"
  shows "\<exists>run. execute_multiple os sh p = Some run \<and> sh_state run = Running sh
    \<and> sh_calls run = replicate (length (cmds p) - 1) Pipe @ replicate (length (cmds p)) Fork @ pipe_closes r w (length (cmds p) - 1)
    \<and> length (sh_children run) = length (cmds p)
    \<and> (\<forall>k < length (cmds p). sh_children run ! k =
        ((if k + 1 < length (cmds p) then [Dup2 (w k) 1] else []) @ (if 0 < k then [Dup2 (r (k - 1)) 0] else [])
          @ pipe_closes r w (length (cmds p) - 1) @ fst (execute_command os sh (cmds p ! k)),
         snd (execute_command os sh (cmds p ! k))))"
proof -
  let ?n = "length (cmds p) - 1" and ?fds = "pipe_fds r w (length (cmds p) - 1)"
  let ?child = "\<lambda>k. child_of_pipeline os sh ?fds ?n (0 + 2 * k) (p\<lparr>cmds := drop k (cmds p)\<rparr>)"
  have "execute_multiple os sh p = Some \<lparr>sh_state = Running sh,
      sh_calls = replicate ?n Pipe @ replicate (length (cmds p)) Fork @ pipe_closes r w ?n,
      sh_children = map ?child [0..<length (cmds p)]\<rparr>"
    using assms(1) open_pipes_all [OF assms(2), of ?n] start_stages_ok [OF assms(3), of sh ?fds ?n 0 p]
    by (simp add: execute_multiple_def pipeline_length_def close_all_pipes Let_def)
  moreover have "?child k = ((if k + 1 < length (cmds p) then [Dup2 (w k) 1] else []) @ (if 0 < k then [Dup2 (r (k - 1)) 0] else [])
          @ pipe_closes r w ?n @ fst (execute_command os sh (cmds p ! k)), snd (execute_command os sh (cmds p ! k)))"
    if k: "k < length (cmds p)" for k
  proof -
    have len: "pipeline_length (p\<lparr>cmds := drop k (cmds p)\<rparr>) = length (cmds p) - k" by (simp add: pipeline_length_def)
    have front: "pipeline_front (p\<lparr>cmds := drop k (cmds p)\<rparr>) = Some (cmds p ! k)" using k by (simp add: pipeline_defs)
    have out: "?fds ! (2 * k + 1) = w k" if "k + 1 < length (cmds p)"
      using that by (subst pipe_fds_def, subst nth_map) auto
    have inp: "?fds ! (2 * k - 2) = r (k - 1)" if "0 < k"
    proof -
      have "2 * k - 2 = 2 * (k - 1)" by simp
      then show ?thesis using that k by (simp add: pipe_fds_def)
    qed
    show ?thesis
      using k out inp assms(4) front len
      by (auto simp: child_of_pipeline_def close_all_pipes split: prod.splits)
  qed
  ultimately show ?thesis by simp
qed

definition ex_os :: os where
  "ex_os = \<lparr>os_open_in = (\<lambda>_. 9), os_open_out = (\<lambda>_. 9), os_dup2 = (\<lambda>_ _. 0), os_close = (\<lambda>_. 0), os_exec = (\<lambda>_. True),
     os_pipe = (\<lambda>i. Some (3 + 2 * int i, 4 + 2 * int i)), os_fork = (\<lambda>i. 100 + int i), os_garbage = (\<lambda>i. 0), os_chdir = (\<lambda>_ d. d)\<rparr>"

definition ex_shell :: shell where "ex_shell = \<lparr>cwd = ''/tmp'', home = Some ''/home''\<rparr>"

definition ex_pipeline :: pipeline where
  "ex_pipeline = \<lparr>cmds = [\<lparr>command = [''ls''], cmd_in = None, cmd_out = None\<rparr>,
     \<lparr>command = [''wc''], cmd_in = None, cmd_out = Some ''f''\<rparr>], pwait = True\<rparr>"

theorem pipeline_wiring_witness:
  "\<exists>run. execute_multiple ex_os ex_shell ex_pipeline = Some run
    \<and> sh_children run ! 1 = ([Dup2 3 0, Close 3, Close 4, Open_Out ''f'', Dup2 9 1, Close 9, Exec [Some ''wc'', None]], Image [Some ''wc'', None])"
proof -
  have "execute_command ex_os ex_shell (cmds ex_pipeline ! 1)
      = ([Open_Out ''f'', Dup2 9 1, Close 9, Exec [Some ''wc'', None]], Image [Some ''wc'', None])"
    by (simp add: execute_command_def builtin_is_internal_def builtin_is_exit_def builtin_is_cd_def builtin_is_help_def ex_pipeline_def
        scommand_defs exec_ext_def scommand_get_redir_in_def scommand_get_redir_out_def redirect_def to_argv_eq ex_os_def)
  moreover obtain run where run: "execute_multiple ex_os ex_shell ex_pipeline = Some run"
    "\<forall>k < length (cmds ex_pipeline). sh_children run ! k =
        ((if k + 1 < length (cmds ex_pipeline) then [Dup2 (4 + 2 * int k) 1] else []) @ (if 0 < k then [Dup2 (3 + 2 * int (k - 1)) 0] else [])
          @ pipe_closes (\<lambda>i. 3 + 2 * int i) (\<lambda>i. 4 + 2 * int i) (length (cmds ex_pipeline) - 1)
          @ fst (execute_command ex_os ex_shell (cmds ex_pipeline ! k)), snd (execute_command ex_os ex_shell (cmds ex_pipeline ! k)))"
  proof -
    have h: "2 \<le> length (cmds ex_pipeline)" "\<forall>i. os_pipe ex_os i = Some (3 + 2 * int i, 4 + 2 * int i)" "\<forall>i. 0 < os_fork ex_os i"
      "\<forall>a b. os_dup2 ex_os a b \<noteq> -1" by (simp_all add: ex_pipeline_def ex_os_def)
    show thesis using pipeline_wiring [OF h, of ex_shell] that by blast
  qed
  moreover have "length (cmds ex_pipeline) = 2" by (simp add: ex_pipeline_def)
  ultimately show ?thesis using run(2) [rule_format, of 1] by (simp add: pipe_closes_def)
qed

text \<open>
  when \<open>pipe\<close> fails, the shell itself exits, with the status of success, after closing one
  descriptor per place of its array: those of the pipes that were never made hold whatever the
  allocated block held.
\<close>

theorem pipe_failure_exits:
  assumes "2 \<le> length (cmds p)" and "os_pipe os 0 = None"
  shows "execute_multiple os sh p = Some \<lparr>sh_state = Exited 0,
    sh_calls = Pipe # map (\<lambda>i. Close (os_garbage os i)) [0..<(length (cmds p) - 1) * 2], sh_children = []\<rparr>"
proof -
  obtain n where n: "length (cmds p) - 1 = Suc n" using assms(1) by (metis Suc_le_D Suc_1 diff_Suc_1 nat.discI One_nat_def Suc_diff_Suc Suc_le_lessD lessI)
  have "open_pipes os (map (os_garbage os) [0..<Suc n * 2]) 0 (Suc n) = (map (os_garbage os) [0..<Suc n * 2], False, [Pipe])"
    using assms(2) by simp
  then show ?thesis
    using assms(1) n by (simp add: execute_multiple_def pipeline_length_def close_all_def Let_def del: upt_Suc open_pipes.simps mult_Suc)
qed

theorem pipe_failure_exits_witness:
  "map_option sh_state (execute_multiple (ex_os\<lparr>os_pipe := \<lambda>_. None\<rparr>) ex_shell ex_pipeline) = Some (Exited 0)"
  using pipe_failure_exits [of ex_pipeline "ex_os\<lparr>os_pipe := \<lambda>_. None\<rparr>" ex_shell] by (simp add: ex_pipeline_def)

text \<open>
  a line that is only a redirection makes a command without words; asking whether it is internal
  fails an assertion of \<open>scommand_front\<close>: in a pipeline of one command the shell aborts, in a longer
  one its child does, before the test for the empty command is reached.
\<close>

theorem empty_command_aborts:
  assumes "scommand_is_empty c"
  shows "execute_pipeline os sh \<lparr>cmds = [c], pwait = b\<rparr> = None \<and> execute_command os sh c = ([], Abort)"
  using assms by (simp add: execute_pipeline_def execute_pipeline_type_def execute_single_def pipeline_defs
      builtin_is_internal_def builtin_is_exit_def scommand_front_def execute_command_def)

theorem empty_command_aborts_witness:
  "execute_pipeline ex_os ex_shell \<lparr>cmds = [\<lparr>command = [], cmd_in = None, cmd_out = Some ''f''\<rparr>], pwait = True\<rparr> = None"
  using empty_command_aborts [of "\<lparr>command = [], cmd_in = None, cmd_out = Some ''f''\<rparr>"] by (simp add: scommand_defs)

section \<open>The prompt and the current directory\<close>

text \<open>
  when the current directory is longer than the home directory, the prompt prints a buffer that
  has no room for a NUL: \<open>printf\<close> reads behind it.
\<close>

theorem prompt_overread:
  assumes "c_str dir" and "lim < length dir"
  shows "show_prompt dir lim = None"
proof -
  have "(dir @ [NUL]) ! (i + lim - 1) \<noteq> NUL" if "0 < i" "i < length dir - lim + 1" for i
  proof -
    have "i + lim - 1 < length dir" using that assms(2) by linarith
    then have "(dir @ [NUL]) ! (i + lim - 1) \<in> set dir" by (simp add: nth_append)
    then show ?thesis using assms(1) by (auto simp: c_str_def)
  qed
  moreover have "CHR ''~'' \<noteq> NUL" by (simp add: NUL_def)
  ultimately have "\<forall>c \<in> set (map (\<lambda>i. if i = 0 then CHR ''~'' else (dir @ [NUL]) ! (i + lim - 1)) [0..<length dir - lim + 1]). c \<noteq> NUL"
    by (auto simp del: upt_Suc)
  then have "NUL \<notin> set (map (\<lambda>i. if i = 0 then CHR ''~'' else (dir @ [NUL]) ! (i + lim - 1)) [0..<length dir - lim + 1])"
    by blast
  then show ?thesis using assms(2) by (simp add: show_prompt_def prom_cwd_write_def buf_str_def Let_def)
qed

theorem prompt_overread_witness: "show_prompt ''/home/u/src'' 7 = None"
  by (rule prompt_overread) (simp_all add: c_str_def NUL_def)

text \<open>
  \<open>cd\<close> with a name that does not start with a slash and is none of the special ones asks for the
  current directory, a slash and the name; without a name it asks for the home directory.
\<close>

theorem cd_relative:
  assumes "command cmd = ''cd'' # args" and "length (cwd sh) + length (concat args) + 1 < PATH_SIZE"
    and "c_str (concat args)" and "length args \<le> 1"
    and "args \<noteq> [] \<longrightarrow> \<not> path_special (length (hd args)) (hd args) \<and> hd (hd args) \<noteq> CHR ''/''"
  shows "builtin_run chdir sh cmd = Some (Running (case chdir (cwd sh)
      (if args = [] then home sh else Some (cwd sh @ ''/'' @ hd args)) of None \<Rightarrow> sh | Some d \<Rightarrow> sh\<lparr>cwd := d\<rparr>))"
proof -
  have pop: "scommand_pop_front cmd = Some (cmd\<lparr>command := args\<rparr>)" using assms(1) by (simp add: scommand_defs)
  have t: "cd_target sh (cmd\<lparr>command := args\<rparr>) = Some (if args = [] then home sh else Some (cwd sh @ ''/'' @ hd args))"
  proof (cases args)
    case (Cons a as)
    then have "as = []" using assms(4) by simp
    moreover have "strmerge ''/'' a = Some (''/'' @ a)"
      by (rule strmerge_eq) (use assms(3) Cons in \<open>auto simp: c_str_def NUL_def\<close>)
    ultimately show ?thesis
      using assms(2,5) Cons by (simp add: cd_target_def scommand_defs getcwd_def Let_def)
  qed (simp add: cd_target_def scommand_defs)
  show ?thesis
    using assms(1) pop t by (simp add: builtin_run_def builtin_is_internal_def builtin_is_exit_def builtin_is_cd_def
        run_cd_def scommand_front_def scommand_defs split: option.splits)
qed

theorem cd_relative_witness:
  "builtin_run (\<lambda>_ d. d) ex_shell \<lparr>command = [''cd'', ''x''], cmd_in = None, cmd_out = None\<rparr>
    = Some (Running (ex_shell\<lparr>cwd := ''/tmp/x''\<rparr>))"
  using cd_relative [of "\<lparr>command = [''cd'', ''x''], cmd_in = None, cmd_out = None\<rparr>" "[''x'']" ex_shell "\<lambda>_ d. d"]
  by (simp add: ex_shell_def PATH_SIZE_def path_special_def es_solo_espacio_def c_str_def NUL_def)

end
