(* ===== verification/X_String.thy ===== *)
theory X_String
  imports C_Prelude
begin

text \<open>
  The byte and string routines of the xv6 kernel (\<open>kernel/string.c\<close>) and of its user library
  (\<open>user/ulib.c\<close>, \<open>user/printf.c\<close>). Memory is \<open>mem\<close> of the prelude, pointers are integers. A loop
  that runs to a NUL byte is a \<open>partial_function (option)\<close>: a memory without that byte gives
  \<open>None\<close>. The \<open>uint\<close> parameters are \<open>u32\<close>; the \<open>int\<close> ones, whose sign the code tests, are \<open>int\<close>.
  The names of \<open>kernel/string.c\<close> carry the prefix \<open>k_\<close>, those of \<open>user/ulib.c\<close> the prefix \<open>u_\<close>.
\<close>

section \<open>The kernel's routines\<close>

text \<open>\<open>cdst[i] = c\<close> for \<open>i\<close> below \<open>n\<close>; the index is an \<open>int\<close>, so no \<open>n\<close> above \<open>2 ^ 31\<close> is ever passed.\<close>

definition k_memset :: "mem \<Rightarrow> int \<Rightarrow> u8 \<Rightarrow> u32 \<Rightarrow> mem" where
  "k_memset m dst c n = fold (\<lambda>i m'. m'(dst + int i := c)) [0..<unat n] m"

fun memcmp_loop :: "mem \<Rightarrow> int \<Rightarrow> int \<Rightarrow> nat \<Rightarrow> int" where
  "memcmp_loop m s1 s2 0 = 0"
| "memcmp_loop m s1 s2 (Suc n) =
    (if m s1 \<noteq> m s2 then uint (m s1) - uint (m s2) else memcmp_loop m (s1 + 1) (s2 + 1) n)"

definition k_memcmp :: "mem \<Rightarrow> int \<Rightarrow> int \<Rightarrow> u32 \<Rightarrow> int" where
  "k_memcmp m v1 v2 n = memcmp_loop m v1 v2 (unat n)"

text \<open>The two loops of \<open>memmove\<close>: \<open>*d++ = *s++\<close> and \<open>*--d = *--s\<close>.\<close>

fun move_up :: "mem \<Rightarrow> int \<Rightarrow> int \<Rightarrow> nat \<Rightarrow> mem" where
  "move_up m d s 0 = m"
| "move_up m d s (Suc n) = move_up (m(d := m s)) (d + 1) (s + 1) n"

fun move_down :: "mem \<Rightarrow> int \<Rightarrow> int \<Rightarrow> nat \<Rightarrow> mem" where
  "move_down m d s 0 = m"
| "move_down m d s (Suc n) = move_down (m(d - 1 := m (s - 1))) (d - 1) (s - 1) n"

definition k_memmove :: "mem \<Rightarrow> int \<Rightarrow> int \<Rightarrow> u32 \<Rightarrow> mem" where
  "k_memmove m dst src n =
    (if n = 0 then m
     else if src < dst \<and> src + uint n > dst
     then move_down m (dst + uint n) (src + uint n) (unat n)
     else move_up m dst src (unat n))"

definition k_memcpy :: "mem \<Rightarrow> int \<Rightarrow> int \<Rightarrow> u32 \<Rightarrow> mem" where
  "k_memcpy m dst src n = k_memmove m dst src n"

fun strncmp_loop :: "mem \<Rightarrow> int \<Rightarrow> int \<Rightarrow> nat \<Rightarrow> int" where
  "strncmp_loop m p q 0 = 0"
| "strncmp_loop m p q (Suc n) =
    (if m p \<noteq> 0 \<and> m p = m q then strncmp_loop m (p + 1) (q + 1) n
     else uint (m p) - uint (m q))"

definition k_strncmp :: "mem \<Rightarrow> int \<Rightarrow> int \<Rightarrow> u32 \<Rightarrow> int" where
  "k_strncmp m p q n = strncmp_loop m p q (unat n)"

text \<open>
  \<open>while(n-- > 0 && (*s++ = *t++) != 0)\<close>: the memory, \<open>s\<close> and \<open>n\<close> after it. The \<open>n\<close> that stops the
  loop has been decremented once more, to \<open>-1\<close>.
\<close>

function copy_until :: "mem \<Rightarrow> int \<Rightarrow> int \<Rightarrow> int \<Rightarrow> mem \<times> int \<times> int" where
  "copy_until m s t n =
    (if n \<le> 0 then (m, s, n - 1)
     else let m' = m(s := m t) in
       if m' s = 0 then (m', s + 1, n - 1) else copy_until m' (s + 1) (t + 1) (n - 1))"
  by auto
termination by (relation "measure (\<lambda>(m, s, t, n). nat n)") auto

declare copy_until.simps [simp del]

text \<open>\<open>while(n-- > 0) *s++ = 0;\<close>\<close>

definition zero_fill :: "mem \<Rightarrow> int \<Rightarrow> int \<Rightarrow> mem" where
  "zero_fill m s n = fold (\<lambda>i m'. m'(s + int i := 0)) [0..<nat n] m"

definition k_strncpy :: "mem \<Rightarrow> int \<Rightarrow> int \<Rightarrow> int \<Rightarrow> mem" where
  "k_strncpy m s t n = (case copy_until m s t n of (m', s', n') \<Rightarrow> zero_fill m' s' n')"

text \<open>\<open>while(--n > 0 && (*s++ = *t++) != 0)\<close> is the same loop entered with \<open>n - 1\<close>.\<close>

definition k_safestrcpy :: "mem \<Rightarrow> int \<Rightarrow> int \<Rightarrow> int \<Rightarrow> mem" where
  "k_safestrcpy m s t n =
    (if n \<le> 0 then m
     else case copy_until m s t (n - 1) of (m', s', _) \<Rightarrow> m'(s' := 0))"

partial_function (option) strlen_from :: "mem \<Rightarrow> int \<Rightarrow> int \<Rightarrow> int option" where
  "strlen_from m s n = (if m (s + n) = 0 then Some n else strlen_from m s (n + 1))"

definition k_strlen :: "mem \<Rightarrow> int \<Rightarrow> int option" where
  "k_strlen m s = strlen_from m s 0"

section \<open>The user library\<close>

partial_function (option) u_strcpy :: "mem \<Rightarrow> int \<Rightarrow> int \<Rightarrow> mem option" where
  "u_strcpy m s t =
    (let m' = m(s := m t) in if m' s \<noteq> 0 then u_strcpy m' (s + 1) (t + 1) else Some m')"

partial_function (option) u_strcmp :: "mem \<Rightarrow> int \<Rightarrow> int \<Rightarrow> int option" where
  "u_strcmp m p q =
    (if m p \<noteq> 0 \<and> m p = m q then u_strcmp m (p + 1) (q + 1)
     else Some (uint (m p) - uint (m q)))"

text \<open>The result is a pointer, or \<open>0\<close>.\<close>

partial_function (option) u_strchr :: "mem \<Rightarrow> int \<Rightarrow> u8 \<Rightarrow> int option" where
  "u_strchr m s c =
    (if m s = 0 then Some 0 else if m s = c then Some s else u_strchr m (s + 1) c)"

text \<open>
  \<open>n\<close> is an \<open>int\<close>: \<open>n--\<close> on the least one overflows and has no defined outcome. \<open>memcpy\<close> has a \<open>uint\<close>, which
  the call of \<open>memmove\<close> converts.
\<close>

definition u_memmove :: "mem \<Rightarrow> int \<Rightarrow> int \<Rightarrow> int \<Rightarrow> mem option" where
  "u_memmove m dst src n =
    (if n \<le> - 2147483648 then None
     else Some
      (if src > dst then move_up m dst src (nat n)
       else move_down m (dst + n) (src + n) (nat n)))"

definition u_memcpy :: "mem \<Rightarrow> int \<Rightarrow> int \<Rightarrow> u32 \<Rightarrow> mem option" where
  "u_memcpy m dst src n = u_memmove m dst src (sint n)"

text \<open>
  \<open>gets\<close> reads one byte at a time; \<open>input\<close> lists what the successive \<open>read(0, &c, 1)\<close> deliver, its
  end is end of file or an error. The buffer's contents up to the NUL and the unread input.
\<close>

function gets_loop :: "u8 list \<Rightarrow> int \<Rightarrow> int \<Rightarrow> u8 list \<times> u8 list" where
  "gets_loop input i mx =
    (if i + 1 < mx then
       (case input of
          [] \<Rightarrow> ([], [])
        | c # rest \<Rightarrow>
            if c = 10 \<or> c = 13 then ([c], rest)
            else let (line, left) = gets_loop rest (i + 1) mx in (c # line, left))
     else ([], input))"
  by auto
termination by (relation "measure (\<lambda>(input, i, mx). length input)") auto

declare gets_loop.simps [simp del]

definition u_gets :: "mem \<Rightarrow> u8 list \<Rightarrow> int \<Rightarrow> int \<Rightarrow> mem \<times> u8 list" where
  "u_gets m input buf mx =
    (let (line, left) = gets_loop input 0 mx in (mem_write m buf (line @ [0]), left))"

section \<open>Numbers\<close>

text \<open>\<open>n = n*10 + *s++ - '0'\<close> in an \<open>int\<close>: a sum past its range has no defined outcome.\<close>

partial_function (option) atoi_loop :: "mem \<Rightarrow> int \<Rightarrow> int \<Rightarrow> int option" where
  "atoi_loop m s n =
    (if 48 \<le> m s \<and> m s \<le> 57
     then (if n * 10 + uint (m s) \<le> 2147483647 then atoi_loop m (s + 1) (n * 10 + uint (m s) - 48) else None)
     else Some n)"

definition u_atoi :: "mem \<Rightarrow> int \<Rightarrow> int option" where
  "u_atoi m s = atoi_loop m s 0"

text \<open>\<open>digits[d]\<close> of \<open>"0123456789ABCDEF"\<close>.\<close>

definition digit :: "u32 \<Rightarrow> u8" where
  "digit d = (if d < 10 then 48 + ucast d else 55 + ucast d)"

text \<open>
  The \<open>do ... while\<close> of \<open>printint\<close>, with \<open>room\<close> bytes of \<open>buf\<close> left: the digits, the least
  significant first. Writing past \<open>buf\<close> and dividing by zero are \<open>None\<close>.
\<close>

fun digit_loop :: "nat \<Rightarrow> u32 \<Rightarrow> u32 \<Rightarrow> u8 list option" where
  "digit_loop 0 x base = None"
| "digit_loop (Suc room) x base =
    (if base = 0 then None
     else if x div base \<noteq> 0
     then map_option ((#) (digit (x mod base))) (digit_loop room (x div base) base)
     else Some [digit (x mod base)])"

text \<open>
  What \<open>printint\<close> writes to \<open>fd\<close>; \<open>buf\<close> has 16 bytes. The negation of the least \<open>int\<close> has no defined
  outcome.
\<close>

definition printint :: "u32 \<Rightarrow> u32 \<Rightarrow> bool \<Rightarrow> u8 list option" where
  "printint xx base sg =
    (let neg = sg \<and> sint xx < 0
     in if neg \<and> sint xx = - 2147483648 then None
        else let x = (if neg then - xx else xx)
          in case digit_loop 16 x base of
            None \<Rightarrow> None
          | Some buf \<Rightarrow>
              if neg then (if length buf < 16 then Some (rev (buf @ [45])) else None)
              else Some (rev buf))"

text \<open>\<open>printptr\<close>: the sixteen nibbles of \<open>x\<close>, shifted out at the top.\<close>

definition printptr :: "64 word \<Rightarrow> u8 list" where
  "printptr x = [48, 120] @ map (\<lambda>i. digit (ucast (drop_bit 60 (push_bit (4 * i) x)))) [0..<16]"

text \<open>
  The arguments of \<open>vprintf\<close>, each the register \<open>va_arg\<close> reads; a string argument is an address,
  and \<open>cstring\<close> of memory gives its bytes. Reading past the arguments is \<open>None\<close>.
\<close>

partial_function (option) cstring :: "mem \<Rightarrow> int \<Rightarrow> u8 list option" where
  "cstring m s =
    (if m s = 0 then Some [] else do { r \<leftarrow> cstring m (s + 1); Some (m s # r) })"

fun va_arg :: "64 word list \<Rightarrow> (64 word \<times> 64 word list) option" where
  "va_arg [] = None"
| "va_arg (a # ap) = Some (a, ap)"

text \<open>One conversion, \<open>c\<close> being the character after \<open>%\<close>: the output and the arguments left.\<close>

definition convert :: "mem \<Rightarrow> u8 \<Rightarrow> 64 word list \<Rightarrow> (u8 list \<times> 64 word list) option" where
  "convert m c ap =
    (if c = 100 then do { (a, ap') \<leftarrow> va_arg ap; o' \<leftarrow> printint (ucast a) 10 True; Some (o', ap') }
     else if c = 108 then do { (a, ap') \<leftarrow> va_arg ap; o' \<leftarrow> printint (ucast a) 10 False; Some (o', ap') }
     else if c = 120 then do { (a, ap') \<leftarrow> va_arg ap; o' \<leftarrow> printint (ucast a) 16 False; Some (o', ap') }
     else if c = 112 then do { (a, ap') \<leftarrow> va_arg ap; Some (printptr a, ap') }
     else if c = 115 then do {
       (a, ap') \<leftarrow> va_arg ap;
       if a = 0 then Some ([40, 110, 117, 108, 108, 41], ap')
       else do { o' \<leftarrow> cstring m (uint a); Some (o', ap') } }
     else if c = 99 then do { (a, ap') \<leftarrow> va_arg ap; Some ([ucast a], ap') }
     else if c = 37 then Some ([c], ap)
     else Some ([37, c], ap))"

text \<open>\<open>vprintf\<close> over the bytes of the format: \<open>pct\<close> is \<open>state == '%'\<close>.\<close>

fun vprintf_loop :: "mem \<Rightarrow> u8 list \<Rightarrow> bool \<Rightarrow> 64 word list \<Rightarrow> u8 list option" where
  "vprintf_loop m [] pct ap = Some []"
| "vprintf_loop m (c # fmt) False ap =
    (if c = 37 then vprintf_loop m fmt True ap
     else do { r \<leftarrow> vprintf_loop m fmt False ap; Some (c # r) })"
| "vprintf_loop m (c # fmt) True ap = do {
     (o', ap') \<leftarrow> convert m c ap;
     r \<leftarrow> vprintf_loop m fmt False ap';
     Some (o' @ r) }"

definition vprintf :: "mem \<Rightarrow> u8 list \<Rightarrow> 64 word list \<Rightarrow> u8 list option" where
  "vprintf m fmt ap = vprintf_loop m fmt False ap"

section \<open>Block moves\<close>

lemma mem_write_fun_upd:
  "q < p \<or> p + int (length bs) \<le> q \<Longrightarrow> mem_write (m(q := v)) p bs = (mem_write m p bs)(q := v)"
  by (rule ext) (auto simp: mem_write_def)

lemma mem_write_Cons: "mem_write m p (b # bs) = mem_write (m(p := b)) (p + 1) bs"
  by (rule ext) (auto simp: mem_write_def nth_Cons' intro!: arg_cong [where f = "(!) bs"])

lemma mem_write_snoc: "mem_write m p (bs @ [b]) = (mem_write m p bs)(p + int (length bs) := b)"
  by (simp add: mem_write_append mem_write_Cons)

lemma mem_read_fun_upd:
  "q < p \<or> p + int n \<le> q \<Longrightarrow> mem_read (m(q := v)) p n = mem_read m p n"
  by (rule nth_equalityI) auto

lemma mem_read_Suc: "mem_read m p (Suc n) = m p # mem_read m (p + 1) n"
  using mem_read_append [of m p 1 n] by (simp add: mem_read_def)

lemma mem_read_snoc: "mem_read m p (Suc n) = mem_read m p n @ [m (p + int n)]"
  using mem_read_append [of m p n 1] by (simp add: mem_read_def)

lemma move_up_spec:
  "d \<le> s \<or> s + int n \<le> d \<Longrightarrow> move_up m d s n = mem_write m d (mem_read m s n)"
proof (induction n arbitrary: m d s)
  case (Suc n)
  have "move_up m d s (Suc n) = mem_write (m(d := m s)) (d + 1) (mem_read (m(d := m s)) (s + 1) n)"
    using Suc.prems by (auto intro: Suc.IH)
  also have "mem_read (m(d := m s)) (s + 1) n = mem_read m (s + 1) n"
    using Suc.prems by (intro mem_read_fun_upd) auto
  finally show ?case
    by (simp only: mem_read_Suc mem_write_Cons)
qed (simp add: mem_read_def)

lemma move_down_spec:
  "s \<le> d \<or> d + int n \<le> s \<Longrightarrow>
    move_down m (d + int n) (s + int n) n = mem_write m d (mem_read m s n)"
proof (induction n arbitrary: m)
  case (Suc n)
  let ?m = "m(d + int n := m (s + int n))"
  have "move_down m (d + int (Suc n)) (s + int (Suc n)) (Suc n) = move_down ?m (d + int n) (s + int n) n"
    by (simp add: algebra_simps del: fun_upd_apply)
  also have "\<dots> = mem_write ?m d (mem_read ?m s n)"
    using Suc.prems by (intro Suc.IH) auto
  also have "mem_read ?m s n = mem_read m s n"
    using Suc.prems by (intro mem_read_fun_upd) auto
  also have "mem_write ?m d (mem_read m s n) = (mem_write m d (mem_read m s n))(d + int n := m (s + int n))"
    by (intro mem_write_fun_upd) simp
  finally show ?case
    by (simp only: mem_read_snoc mem_write_snoc length_mem_read)
qed (simp add: mem_read_def)

lemma unat_u32_less: "unat (x :: u32) < 4294967296"
  using unsigned_less [of x] by simp

lemma sint_u32: "sint (n :: u32) = (if uint n < 2147483648 then uint n else uint n - 4294967296)"
proof -
  have u: "0 \<le> uint n" "uint n < 4294967296"
    using unsigned_less [of n, where ?'a = int] by simp_all
  have "sint n = (uint n + 2147483648) mod 4294967296 - 2147483648"
    by (simp add: sint_uint signed_take_bit_eq_take_bit_shift take_bit_eq_mod)
  also have "\<dots> = (if uint n < 2147483648 then uint n else uint n - 4294967296)"
  proof (cases "uint n < 2147483648")
    case True
    then show ?thesis using u(1) by (simp add: mod_pos_pos_trivial)
  next
    case False
    then have "(uint n - 2147483648 + 4294967296) mod 4294967296 = uint n - 2147483648"
      using u(2) by (subst mod_add_self2) (simp add: mod_pos_pos_trivial)
    then show ?thesis using False by (simp add: add.commute)
  qed
  finally show ?thesis .
qed

text \<open>
  C33: The kernel's and the user library's \<open>memmove\<close> both have the effect of reading the whole
  source before writing the destination, however the two areas overlap, although they choose the
  direction of the copy by different tests; a negative count copies nothing. The user library's \<open>memcpy\<close>
  does the same below \<open>2 ^ 31\<close> bytes; from there on its count turns negative and nothing is copied
  (and at exactly \<open>2 ^ 31\<close> there is no defined outcome).
\<close>

theorem memmove_spec:
  "k_memmove m dst src n = mem_write m dst (mem_read m src (unat n)) \<and>
   k_memcpy m dst src n = k_memmove m dst src n \<and>
   u_memmove m dst src k =
     (if k \<le> - 2147483648 then None else Some (mem_write m dst (mem_read m src (nat k)))) \<and>
   u_memcpy m dst src n =
     (if uint n < 2147483648 then Some (k_memmove m dst src n) else if uint n = 2147483648 then None else Some m)"
proof -
  have u: "u_memmove m dst src k =
     (if k \<le> - 2147483648 then None else Some (mem_write m dst (mem_read m src (nat k))))" for k
  proof (cases "0 \<le> k")
    case True
    then show ?thesis
      using move_up_spec [of dst src "nat k" m] move_down_spec [of src dst "nat k" m]
      by (cases "dst < src") (simp_all add: u_memmove_def)
  next
    case False
    then show ?thesis by (simp add: u_memmove_def mem_read_def)
  qed
  have k: "k_memmove m dst src n = mem_write m dst (mem_read m src (unat n))"
  proof (cases "n = 0")
    case False
    then show ?thesis
      using move_up_spec [of dst src "unat n" m] move_down_spec [of src dst "unat n" m]
      by (cases "src < dst \<and> dst < src + int (unat n)") (auto simp: k_memmove_def)
  qed (simp add: k_memmove_def mem_read_def)
  have "mem_write m dst (mem_read m src 0) = m" by (simp add: mem_read_def)
  moreover have "uint n < 4294967296" using unsigned_less [of n, where ?'a = int] by simp
  moreover have "\<not> uint n \<le> - 2147483648" using unsigned_greater_eq [of n, where ?'a = int] by linarith
  ultimately show ?thesis
    by (auto simp: u k k_memcpy_def u_memcpy_def sint_u32)
qed

section \<open>Strings\<close>

definition is_str :: "mem \<Rightarrow> int \<Rightarrow> u8 list \<Rightarrow> bool" where
  "is_str m p bs \<longleftrightarrow> mem_read m p (length bs) = bs \<and> m (p + int (length bs)) = 0 \<and> 0 \<notin> set bs"

lemma is_str_Nil: "is_str m p [] \<longleftrightarrow> m p = 0"
  by (simp add: is_str_def)

lemma is_str_Cons: "is_str m p (b # bs) \<longleftrightarrow> m p = b \<and> b \<noteq> 0 \<and> is_str m (p + 1) bs"
  by (auto simp: is_str_def mem_read_Suc ac_simps)

lemma is_str_fun_upd:
  "q < p \<or> p + int (length bs) < q \<Longrightarrow> is_str (m(q := v)) p bs = is_str m p bs"
  by (auto simp: is_str_def mem_read_fun_upd)

lemma is_str_mem_write: "0 \<notin> set bs \<Longrightarrow> is_str (mem_write m p (bs @ 0 # cs)) p bs"
  by (auto simp: is_str_def mem_write_def nth_append intro: nth_equalityI)

lemma strlen_from_str: "is_str m p bs \<Longrightarrow> s + n = p \<Longrightarrow> strlen_from m s n = Some (n + int (length bs))"
proof (induction bs arbitrary: p n)
  case Nil then show ?case by (subst strlen_from.simps) (simp add: is_str_Nil)
next
  case (Cons b bs)
  then show ?case by (subst strlen_from.simps) (auto simp: is_str_Cons)
qed

lemma replicate_snoc: "replicate (Suc n) x = replicate n x @ [x]"
  by (simp add: replicate_append_same)

lemma zero_fill_spec: "zero_fill m s n = mem_write m s (replicate (nat n) 0)"
proof -
  have "fold (\<lambda>i m'. m'(s + int i := 0)) [0..<k] m = mem_write m s (replicate k 0)" for k
  proof (induction k)
    case (Suc k)
    then show ?case
      by (simp only: upt_Suc_append [OF le0] fold_append fold_simps o_apply mem_write_snoc
          replicate_snoc length_replicate)
  qed simp
  then show ?thesis by (simp add: zero_fill_def)
qed

lemma copy_until_str:
  assumes "is_str m t bs" and "s + n \<le> t \<or> t + int (length bs) < s" and "0 \<le> n"
  shows "copy_until m s t n =
    (let k = min (nat n) (Suc (length bs))
     in (mem_write m s (take k (bs @ [0])), s + int k,
         n - int k - (if nat n \<le> length bs then 1 else 0)))"
  using assms
proof (induction bs arbitrary: m s t n)
  case Nil
  then show ?case
    by (subst copy_until.simps) (auto simp: is_str_Nil Let_def mem_write_Cons min_def mem_read_def)
next
  case (Cons b bs)
  show ?case
  proof (cases "n = 0")
    case True
    then show ?thesis by (subst copy_until.simps) simp
  next
    case False
    let ?m = "m(s := b)"
    have b: "m t = b" "b \<noteq> 0" and str: "is_str ?m (t + 1) bs"
      using Cons.prems by (auto simp: is_str_Cons is_str_fun_upd)
    have "copy_until m s t n = copy_until ?m (s + 1) (t + 1) (n - 1)"
      using False Cons.prems b by (subst copy_until.simps) simp
    also have "\<dots> = (let k = min (nat (n - 1)) (Suc (length bs))
       in (mem_write ?m (s + 1) (take k (bs @ [0])), s + 1 + int k,
         n - 1 - int k - (if nat (n - 1) \<le> length bs then 1 else 0)))"
      using Cons.prems False by (intro Cons.IH [OF str]) auto
    finally have eq: "copy_until m s t n = \<dots>" .
    obtain j where j: "n = int (Suc j)" using Cons.prems(3) False
      by (metis int_nat_eq not0_implies_Suc nat_0_iff order_antisym)
    have [simp]: "nat (1 + int j) = Suc j" by simp
    show ?thesis
    proof (cases "j \<le> length bs")
      case True
      then show ?thesis
        unfolding eq unfolding j by (simp add: Let_def min_def mem_write_Cons del: fun_upd_apply)
    next
      case False
      then show ?thesis
        unfolding eq unfolding j by (simp add: Let_def min_def mem_write_Cons del: fun_upd_apply)
    qed
  qed
qed

lemma k_strncpy_str:
  assumes "is_str m t bs" "s + n \<le> t \<or> t + int (length bs) < s" "0 \<le> n"
  shows "k_strncpy m s t n = mem_write m s (take (nat n) bs @ replicate (nat n - length bs) 0)"
proof (cases "nat n \<le> length bs")
  case True
  then show ?thesis
    using assms by (simp add: k_strncpy_def copy_until_str Let_def zero_fill_spec)
next
  case False
  then obtain k where k: "nat n = Suc (length bs + k)"
    by (metis less_natE linorder_not_le)
  then have n: "n = 1 + int (length bs) + int k"
    using assms(3) by linarith
  have "replicate (nat n - length bs) (0::u8) = [0] @ replicate k 0"
    unfolding k by simp
  then show ?thesis
    using assms False
    by (simp add: k_strncpy_def copy_until_str Let_def zero_fill_spec k n mem_write_append
        mem_write_Cons ac_simps del: fun_upd_apply)
qed

text \<open>
  For a string that does not overlap the destination, \<open>safestrcpy\<close> with \<open>n > 0\<close> stores its first
  \<open>n - 1\<close> bytes at most and a NUL (two when it ends early: the loop has already copied one), so the destination is a string that fits in its \<open>n\<close> bytes and
  nothing else is written; \<open>strncpy\<close> writes exactly \<open>n\<close> bytes, without a NUL when the string is
  longer; \<open>strlen\<close> of the result is what was copied.
\<close>

theorem safestrcpy_spec:
  assumes "is_str m t bs" "s + n \<le> t \<or> t + int (length bs) < s" "0 < n"
  shows "k_safestrcpy m s t n =
      mem_write m s (take (nat n - 1) bs @ (if Suc (length bs) < nat n then [0, 0] else [0])) \<and>
    is_str (k_safestrcpy m s t n) s (take (nat n - 1) bs) \<and>
    k_strlen (k_safestrcpy m s t n) s = Some (int (min (nat n - 1) (length bs))) \<and>
    k_strncpy m s t n = mem_write m s (take (nat n) bs @ replicate (nat n - length bs) 0)"
proof -
  obtain k where k: "n = 1 + int k"
    using assms(3) by (metis zless_iff_Suc_zadd of_nat_0 of_nat_Suc add.left_neutral)
  have "s + int k \<le> t \<or> t + int (length bs) < s"
    using assms(2) k by auto
  note cp = copy_until_str [OF assms(1) this, simplified]
  have [simp]: "nat (1 + int k) = Suc k" by simp
  have eq: "k_safestrcpy m s t n =
      mem_write m s (take (nat n - 1) bs @ (if Suc (length bs) < nat n then [0, 0] else [0]))"
  proof (cases "k \<le> length bs")
    case False
    then have "min k (Suc (length bs)) = Suc (length bs)" by simp
    with False show ?thesis
      by (simp add: k_safestrcpy_def cp Let_def k mem_write_append mem_write_Cons ac_simps
          del: fun_upd_apply)
  qed (simp add: k_safestrcpy_def cp Let_def k mem_write_snoc del: fun_upd_apply)
  have "0 \<notin> set (take (nat n - 1) bs)"
    using assms(1) by (auto simp: is_str_def dest: in_set_takeD)
  then have "is_str (k_safestrcpy m s t n) s (take (nat n - 1) bs)"
    unfolding eq
    using is_str_mem_write [of "take (nat n - 1) bs" m s "[]"]
      is_str_mem_write [of "take (nat n - 1) bs" m s "[0]"]
    by auto
  then show ?thesis
    using assms by (auto simp: k_strlen_def strlen_from_str k_strncpy_str eq min.commute)
qed

theorem safestrcpy_spec_witness:
  "k_safestrcpy (mem_write (\<lambda>_. 7) 100 [105, 110, 105, 116, 0]) 0 100 3 =
     mem_write (mem_write (\<lambda>_. 7) 100 [105, 110, 105, 116, 0]) 0 [105, 110, 0]"
  using safestrcpy_spec [of "mem_write (\<lambda>_. 7) 100 [105, 110, 105, 116, 0]" 100 "[105, 110, 105, 116]" 0 3]
    is_str_mem_write [of "[105, 110, 105, 116]" "\<lambda>_. 7" 100 "[]"]
  by simp

section \<open>Numbers in text\<close>

text \<open>A power of the base above \<open>x\<close> bounds the digits \<open>printint\<close> needs.\<close>

lemma digit_loop_fits:
  assumes "unat x < unat base ^ j" "0 < j" "j \<le> room" "2 \<le> unat base"
  shows "\<exists>ds. digit_loop room x base = Some ds \<and> ds \<noteq> [] \<and> length ds \<le> j"
  using assms
proof (induction room arbitrary: x j)
  case (Suc room)
  have base: "base \<noteq> 0" using Suc.prems(4) by auto
  show ?case
  proof (cases "x div base = 0")
    case False
    then have "unat x div unat base \<noteq> 0"
      by (metis unat_div unat_eq_zero)
    then have "unat base \<le> unat x" by (simp add: div_eq_0_iff) 
    with Suc.prems have "j \<noteq> 1" by auto
    with Suc.prems obtain i where j: "j = Suc i" "0 < i"
      by (metis One_nat_def Suc_pred not_gr_zero)
    have "unat (x div base) < unat base ^ i"
      using Suc.prems j by (simp add: unat_div less_mult_imp_div_less mult.commute)
    then obtain ds where "digit_loop room (x div base) base = Some ds" "length ds \<le> i"
      using Suc.IH [of "x div base" i] Suc.prems j by auto
    then show ?thesis using False base j by simp
  qed (use base Suc.prems in auto)
qed simp

text \<open>The value of a digit, and of digits, the most significant first.\<close>

definition digit_value :: "u8 \<Rightarrow> int" where
  "digit_value c = (if c < 58 then uint c - 48 else uint c - 55)"

definition digits_value :: "int \<Rightarrow> u8 list \<Rightarrow> int" where
  "digits_value base ds = foldl (\<lambda>n c. n * base + digit_value c) 0 ds"

lemma digit_value:
  assumes "d < 16"
  shows "digit_value (digit d) = uint d" "d < 10 \<Longrightarrow> 48 \<le> digit d \<and> digit d \<le> 57"
    "48 \<le> digit d \<and> digit d \<le> 57 \<or> 65 \<le> digit d \<and> digit d \<le> 70"
proof -
  have "unat d < 16" using assms by (simp add: word_less_nat_alt)
  then have "unat d = 0 \<or> unat d = 1 \<or> unat d = 2 \<or> unat d = 3 \<or> unat d = 4 \<or> unat d = 5 \<or> unat d = 6 \<or> unat d = 7 \<or>
    unat d = 8 \<or> unat d = 9 \<or> unat d = 10 \<or> unat d = 11 \<or> unat d = 12 \<or> unat d = 13 \<or> unat d = 14 \<or> unat d = 15"
    by presburger
  then have "unat d \<in> {0, 1, 2, 3, 4, 5, 6, 7, 8, 9, 10, 11, 12, 13, 14, 15}" by blast
  then have "d \<in> word_of_nat ` {0, 1, 2, 3, 4, 5, 6, 7, 8, 9, 10, 11, 12, 13, 14, 15}"
    by (metis imageI of_nat_unat ucast_id)
  then show "digit_value (digit d) = uint d" "d < 10 \<Longrightarrow> 48 \<le> digit d \<and> digit d \<le> 57"
    "48 \<le> digit d \<and> digit d \<le> 57 \<or> 65 \<le> digit d \<and> digit d \<le> 70"
    by (auto simp: digit_def digit_value_def)
qed

lemma digit_loop_value:
  assumes "base = 10 \<or> base = 16"
  shows "digit_loop room x base = Some ds \<Longrightarrow>
    digits_value (uint base) (rev ds) = uint x \<and> (base = 10 \<longrightarrow> (\<forall>c \<in> set ds. 48 \<le> c \<and> c \<le> 57)) \<and>
    (\<forall>c \<in> set ds. 48 \<le> c \<and> c \<le> 57 \<or> 65 \<le> c \<and> c \<le> 70)"
proof (induction room arbitrary: x ds)
  case (Suc room)
  have "0 < base" "base \<le> 16" using assms by auto
  then have lt: "x mod base < base" "x mod base < 16"
    using word_mod_less_divisor [of base x] by auto
  note d = digit_value [OF lt(2)]
  have dec: "base = 10 \<longrightarrow> 48 \<le> digit (x mod base) \<and> digit (x mod base) \<le> 57" using d(2) lt(1) by auto
  have x: "uint (x div base) * uint base + uint (x mod base) = uint x"
    by (simp add: uint_div uint_mod)
  show ?case
  proof (cases "x div base = 0")
    case True
    then have "uint (x mod base) = uint x" using x by simp
    then show ?thesis using Suc.prems True d(1,3) dec by (auto simp: digits_value_def split: if_splits)
  next
    case False
    then obtain ds' where ds': "digit_loop room (x div base) base = Some ds'" "ds = digit (x mod base) # ds'"
      using Suc.prems by (auto split: if_splits)
    with Suc.IH [OF ds'(1)] d(1,3) dec x show ?thesis by (auto simp: digits_value_def)
  qed
qed simp

lemma foldl_digits_le:
  "\<lbrakk>0 \<le> n; \<forall>c \<in> set (bs :: u8 list). 48 \<le> c\<rbrakk> \<Longrightarrow> n \<le> foldl (\<lambda>n c. n * 10 + uint c - 48) n bs"
proof (induction bs arbitrary: n)
  case (Cons b bs)
  have "48 \<le> uint b" using Cons.prems(2) by (simp add: word_le_def)
  then show ?case using Cons.IH [of "n * 10 + uint b - 48"] Cons.prems by simp
qed simp

text \<open>\<open>atoi\<close> reads a number that stays 48 below the largest \<open>int\<close>: it adds the digit before it takes off \<open>'0'\<close>.\<close>

lemma atoi_loop_str:
  "\<lbrakk>is_str m p bs; bs \<noteq> []; \<forall>c \<in> set bs. 48 \<le> c \<and> c \<le> 57; 0 \<le> n;
    foldl (\<lambda>n c. n * 10 + uint c - 48) n bs < 4294967296\<rbrakk> \<Longrightarrow>
    atoi_loop m p n = (let v = foldl (\<lambda>n c. n * 10 + uint c - 48) n bs in if v \<le> 2147483599 then Some v else None)"
proof (induction bs arbitrary: p n)
  case (Cons b bs)
  let ?n = "n * 10 + uint b - 48"
  have b: "m p = b" "b \<noteq> 0" "is_str m (p + 1) bs" "48 \<le> uint b" "48 \<le> b" "b \<le> 57"
    using Cons.prems(1,3) by (auto simp: is_str_Cons word_le_def)
  show ?case
  proof (cases bs)
    case Nil
    have "atoi_loop m (p + 1) ?n = Some ?n"
      using b(3) by (subst atoi_loop.simps) (simp add: Nil is_str_Nil)
    then show ?thesis using b(1,5,6) by (subst atoi_loop.simps) (simp add: Nil)
  next
    case (Cons c cs)
    have "48 \<le> uint c" using Cons.prems(3) Cons by (simp add: word_le_def)
    then have "?n * 10 \<le> foldl (\<lambda>n c. n * 10 + uint c - 48) ?n bs"
      using foldl_digits_le [of "?n * 10 + uint c - 48" cs] Cons.prems(3,4) b(4) Cons by simp
    then have "n * 10 + uint b \<le> 2147483647" using Cons.prems(5) by simp
    then have "atoi_loop m p n = atoi_loop m (p + 1) ?n"
      using b(1,5,6) by (subst atoi_loop.simps) simp
    then show ?thesis
      using Cons.IH [OF b(3), of ?n] Cons Cons.prems(3-5) b(4) by simp
  qed
qed simp

lemma digits_value_decimal:
  "\<forall>c \<in> set ds. 48 \<le> c \<and> c \<le> 57 \<Longrightarrow> digits_value 10 ds = foldl (\<lambda>n c. n * 10 + uint c - 48) 0 ds"
  unfolding digits_value_def
  by (rule foldl_cong) (auto simp: digit_value_def word_less_def word_le_def)

lemma printint_digits:
  assumes "base = 10 \<or> base = 16"
  shows "\<exists>ds. digit_loop 16 x base = Some ds \<and> ds \<noteq> [] \<and> length ds \<le> (if base = 10 then 10 else 8) \<and>
    digits_value (uint base) (rev ds) = uint x \<and> (base = 10 \<longrightarrow> (\<forall>c \<in> set ds. 48 \<le> c \<and> c \<le> 57)) \<and>
    (\<forall>c \<in> set ds. 48 \<le> c \<and> c \<le> 57 \<or> 65 \<le> c \<and> c \<le> 70)"
proof -
  have "unat x < unat base ^ (if base = 10 then 10 else 8)" "2 \<le> unat base"
    using unat_u32_less [of x] assms by auto
  then obtain ds where "digit_loop 16 x base = Some ds" "ds \<noteq> []" "length ds \<le> (if base = 10 then 10 else 8)"
    using digit_loop_fits [of x base "if base = 10 then 10 else 8" 16] by (auto split: if_splits)
  then show ?thesis using digit_loop_value [OF assms] by blast
qed

lemma atoi_digits:
  assumes "ds \<noteq> []" "\<forall>c \<in> set ds. 48 \<le> c \<and> c \<le> 57" "digits_value 10 ds = v" "v < 4294967296" "is_str m p ds"
  shows "u_atoi m p = (if v \<le> 2147483599 then Some v else None)"
  using atoi_loop_str [OF assms(5,1,2), of 0] digits_value_decimal [OF assms(2)] assms(3,4)
  by (simp add: u_atoi_def Let_def)

text \<open>
  C34: \<open>printint\<close> in the three ways \<open>vprintf\<close> calls it. \<open>%d\<close> of any \<open>int\<close> but the least (whose negation
  is not defined) and \<open>%l\<close> write the decimal digits of its magnitude, behind a sign when it is negative,
  at most 11 bytes; \<open>%x\<close> writes the hexadecimal digits, at most 8; so the 16-byte buffer is never overrun.
  \<open>atoi\<close> reads the digits \<open>%d\<close> and \<open>%l\<close> write back to the magnitude when it is at most
  \<open>2147483599\<close>; a larger one overflows an \<open>int\<close> inside \<open>atoi\<close>.
\<close>

theorem printint_roundtrip:
  "(if sg \<and> sint x = - 2147483648 then printint x 10 sg = None
    else \<exists>ds v. printint x 10 sg = Some ((if sg \<and> sint x < 0 then [45] else []) @ ds) \<and>
      v = (if sg then \<bar>sint x\<bar> else uint x) \<and> ds \<noteq> [] \<and> length ds \<le> 10 \<and> (\<forall>c \<in> set ds. 48 \<le> c \<and> c \<le> 57) \<and> digits_value 10 ds = v \<and>
      (\<forall>m p. is_str m p ds \<longrightarrow> u_atoi m p = (if v \<le> 2147483599 then Some v else None))) \<and>
   (\<exists>ds. printint x 16 False = Some ds \<and> ds \<noteq> [] \<and> length ds \<le> 8 \<and>
      (\<forall>c \<in> set ds. 48 \<le> c \<and> c \<le> 57 \<or> 65 \<le> c \<and> c \<le> 70) \<and> digits_value 16 ds = uint x)"
proof
  let ?neg = "sg \<and> sint x < 0"
  define y where "y = (if ?neg then - x else x)"
  obtain ds where ds: "digit_loop 16 y 10 = Some ds" "ds \<noteq> []" "length ds \<le> 10" "digits_value 10 (rev ds) = uint y"
    "\<forall>c \<in> set ds. 48 \<le> c \<and> c \<le> 57"
    using printint_digits [of 10 y] by auto
  have y: "uint y < 4294967296" using unsigned_less [of y, where ?'a = int] by simp
  have abs: "uint y = (if sg then \<bar>sint x\<bar> else uint x)" if "\<not> (sg \<and> sint x = - 2147483648)"
  proof -
    have m: "uint (- x) = (if uint x = 0 then 0 else 4294967296 - uint x)"
    proof -
      have "uint x mod 4294967296 = uint x"
        using unsigned_less [of x, where ?'a = int] by (intro mod_pos_pos_trivial) simp_all
      then show ?thesis by (simp add: uint_word_ariths zmod_zminus1_eq_if)
    qed
    show ?thesis
      using m unsigned_less [of x, where ?'a = int] that by (auto simp: y_def sint_u32 split: if_splits)
  qed
  have p: "printint x 10 sg = Some ((if ?neg then [45] else []) @ rev ds)" if "\<not> (sg \<and> sint x = - 2147483648)"
    using ds(1,3) that by (auto simp: printint_def y_def Let_def split: if_splits)
  have a: "\<forall>m p. is_str m p (rev ds) \<longrightarrow> u_atoi m p = (if uint y \<le> 2147483599 then Some (uint y) else None)"
    using atoi_digits [of "rev ds" "uint y"] ds y by auto
  show "if sg \<and> sint x = - 2147483648 then printint x 10 sg = None
    else \<exists>ds v. printint x 10 sg = Some ((if sg \<and> sint x < 0 then [45] else []) @ ds) \<and>
      v = (if sg then \<bar>sint x\<bar> else uint x) \<and> ds \<noteq> [] \<and> length ds \<le> 10 \<and> (\<forall>c \<in> set ds. 48 \<le> c \<and> c \<le> 57) \<and> digits_value 10 ds = v \<and>
      (\<forall>m p. is_str m p ds \<longrightarrow> u_atoi m p = (if v \<le> 2147483599 then Some v else None))"
  proof (cases "sg \<and> sint x = - 2147483648")
    case True
    then show ?thesis by (simp add: printint_def)
  next
    case False
    show ?thesis
      unfolding if_not_P [OF False] using p [OF False] abs [OF False] ds(2-5) a
      by (intro exI [of _ "rev ds"] exI [of _ "uint y"]) simp
  qed
next
  obtain ds where "digit_loop 16 x 16 = Some ds" "ds \<noteq> []" "length ds \<le> 8" "digits_value 16 (rev ds) = uint x"
    "\<forall>c \<in> set ds. 48 \<le> c \<and> c \<le> 57 \<or> 65 \<le> c \<and> c \<le> 70"
    using printint_digits [of 16 x] by auto
  then show "\<exists>ds. printint x 16 False = Some ds \<and> ds \<noteq> [] \<and> length ds \<le> 8 \<and>
      (\<forall>c \<in> set ds. 48 \<le> c \<and> c \<le> 57 \<or> 65 \<le> c \<and> c \<le> 70) \<and> digits_value 16 ds = uint x"
    by (auto simp: printint_def Let_def)
qed

theorem printint_roundtrip_witness:
  "\<exists>ds. printint (- 1234) 10 True = Some (45 # ds) \<and> u_atoi (mem_write (\<lambda>_. 0) 0 (ds @ [0])) 0 = Some 1234"
proof -
  have x: "sint (- 1234 :: u32) = - 1234" by simp
  obtain ds where ds: "printint (- 1234) 10 True = Some (45 # ds)" "\<forall>c \<in> set ds. 48 \<le> c \<and> c \<le> 57"
    and d: "\<forall>m p. is_str m p ds \<longrightarrow> u_atoi m p = Some 1234"
    using printint_roundtrip [of True "- 1234"] x by auto
  have "\<not> (48 :: u8) \<le> 0" by simp
  then have "0 \<notin> set ds" using ds(2) by auto
  then have "is_str (mem_write (\<lambda>_. 0) 0 (ds @ [0])) 0 ds" by (rule is_str_mem_write)
  then show ?thesis using ds(1) d by blast
qed

text \<open>
  \<open>vprintf\<close> takes \<open>%l\<close> as a 64-bit argument and prints only its low 32 bits; an unknown
  conversion is printed as it stands and consumes no argument.
\<close>

theorem vprintf_spec:
  "vprintf m [37, 108] [a] = vprintf m [37, 108] [ucast (ucast a :: u32)] \<and>
   (c \<notin> {100, 108, 120, 112, 115, 99, 37} \<longrightarrow> vprintf m (37 # c # fmt) ap =
      map_option ((@) [37, c]) (vprintf m fmt ap))"
proof -
  have "(ucast (ucast b :: 64 word) :: u32) = b" for b :: u32
    by (rule bit_word_eqI) (simp add: bit_simps)
  then show ?thesis
    by (cases "vprintf_loop m fmt False ap") (auto simp: vprintf_def convert_def)
qed

theorem vprintf_spec_witness:
  "vprintf (\<lambda>_. 0) [37, 122] [] = Some [37, 122]"
  using vprintf_spec [of "\<lambda>_. 0" 0 122 "[]" "[]"] by (simp add: vprintf_def)

end
