(* ===== verification/X_Lock.thy ===== *)
theory X_Lock
  imports C_Prelude
begin

text \<open>
  The spin locks of the xv6 kernel (\<open>kernel/spinlock.c\<close>): what the code keeps per CPU (interrupt
  flag, \<open>noff\<close>, \<open>intena\<close>), the lock, and each routine as it runs on CPU \<open>i\<close>. A \<open>panic\<close> is
  \<open>None\<close>. The atomic swap of \<open>acquire\<close> is one attempt; an attempt that finds the lock taken
  leaves the CPU spinning with interrupts off. The memory fences have no counterpart.
\<close>

record cpu =
  noff :: int
  intena :: bool
  intr :: bool

record spinlock =
  locked :: bool
  lcpu :: "nat option"

definition initlock :: spinlock where
  "initlock = \<lparr>locked = False, lcpu = None\<rparr>"

definition holding :: "nat \<Rightarrow> spinlock \<Rightarrow> bool" where
  "holding i lk \<longleftrightarrow> locked lk \<and> lcpu lk = Some i"

definition push_off :: "cpu \<Rightarrow> cpu" where
  "push_off c =
    (let old = intr c;
         c1 = c\<lparr>intr := False\<rparr>;
         c2 = (if noff c1 = 0 then c1\<lparr>intena := old\<rparr> else c1)
     in c2\<lparr>noff := noff c2 + 1\<rparr>)"

definition pop_off :: "cpu \<Rightarrow> cpu option" where
  "pop_off c =
    (if intr c then None
     else if noff c < 1 then None
     else let c1 = c\<lparr>noff := noff c - 1\<rparr>
       in Some (if noff c1 = 0 \<and> intena c1 then c1\<lparr>intr := True\<rparr> else c1))"

text \<open>One attempt of CPU \<open>i\<close>: the flag tells whether the lock was obtained.\<close>

definition try_swap :: "nat \<Rightarrow> spinlock \<Rightarrow> bool \<times> spinlock" where
  "try_swap i lk = (if locked lk then (False, lk) else (True, \<lparr>locked = True, lcpu = Some i\<rparr>))"

definition acquire :: "nat \<Rightarrow> cpu \<Rightarrow> spinlock \<Rightarrow> (bool \<times> cpu \<times> spinlock) option" where
  "acquire i c lk =
    (let c' = push_off c in
     if holding i lk then None
     else case try_swap i lk of (got, lk') \<Rightarrow> Some (got, c', lk'))"

definition release :: "nat \<Rightarrow> cpu \<Rightarrow> spinlock \<Rightarrow> (cpu \<times> spinlock) option" where
  "release i c lk =
    (if \<not> holding i lk then None
     else do { c' \<leftarrow> pop_off c; Some (c', \<lparr>locked = False, lcpu = None\<rparr>) })"

text \<open>
  What every caller respects: \<open>noff\<close> counts the open \<open>push_off\<close>s, and interrupts are off while it
  is positive.
\<close>

definition cpu_ok :: "cpu \<Rightarrow> bool" where
  "cpu_ok c \<longleftrightarrow> 0 \<le> noff c \<and> (0 < noff c \<longrightarrow> \<not> intr c)"

lemma cpu_ok_push_off: "cpu_ok c \<Longrightarrow> cpu_ok (push_off c)"
  by (auto simp: cpu_ok_def push_off_def Let_def)

lemma pop_off_push_off:
  "cpu_ok c \<Longrightarrow> pop_off (push_off c) = Some (if noff c = 0 then c\<lparr>intena := intr c\<rparr> else c)"
  by (cases c) (auto simp: cpu_ok_def push_off_def pop_off_def Let_def)

text \<open>
  On a CPU whose interrupt bookkeeping is in order, acquiring a free lock and releasing it gives
  the lock and the CPU back as they were, except for the saved \<open>intena\<close> when no other lock is held,
  and the critical section runs with interrupts off; while one CPU holds the lock every other one
  spins, and the holder that acquires again, or a CPU that releases a lock it does not hold, panics.
\<close>

theorem acquire_release:
  assumes "cpu_ok c" "j \<noteq> i" "lk = initlock"
  shows "\<exists>c' lk'. acquire i c lk = Some (True, c', lk') \<and> \<not> intr c' \<and> cpu_ok c' \<and> holding i lk' \<and>
    release i c' lk' = Some (if noff c = 0 then c\<lparr>intena := intr c\<rparr> else c, lk) \<and>
    acquire j d lk' = Some (False, push_off d, lk') \<and>
    acquire i c' lk' = None \<and> release j d lk' = None"
  using pop_off_push_off [OF assms(1)] cpu_ok_push_off [OF assms(1)] assms(2,3)
  by (auto simp: acquire_def release_def try_swap_def holding_def initlock_def Let_def push_off_def)

theorem acquire_release_witness:
  "\<exists>c' lk'. acquire 0 \<lparr>noff = 0, intena = False, intr = True\<rparr> initlock = Some (True, c', lk') \<and>
    release 0 c' lk' = Some (\<lparr>noff = 0, intena = True, intr = True\<rparr>, initlock)"
  using acquire_release [of "\<lparr>noff = 0, intena = False, intr = True\<rparr>" 1 0 initlock "\<lparr>noff = 0, intena = False, intr = True\<rparr>"]
  by (auto simp: cpu_ok_def)

end
