(* ===== verification/X_Proc.thy ===== *)
theory X_Proc
  imports C_Prelude
begin

text \<open>
  The process table of the xv6 kernel (\<open>kernel/proc.c\<close>, \<open>kernel/proc.h\<close>) with the scheduling fields
  added in \<open>Lab3\<close>: process creation, exit, wait, kill, sleep and wakeup. A process is named by its
  index in \<open>proc[]\<close>. Each definition is the routine run while no other CPU is inside it: the
  \<open>acquire\<close>s and \<open>release\<close>s it makes are matched and leave the locks as they were (theory
  \<open>X_Lock\<close>), so the table shows no locks; interleavings on several CPUs are the subject of
  \<open>X_Sched\<close>. A \<open>panic\<close> is \<open>None\<close>. Memory, files and the log are reached through the record \<open>kapi\<close>
  of the routines that \<open>proc.c\<close> calls, over a state of their own, about which nothing is assumed.
\<close>

section \<open>Constants and types\<close>

type_synonym u64 = "64 word"

definition NPROC :: nat where "NPROC = 64"
definition NOFILE :: nat where "NOFILE = 16"
definition NPRIO :: int where "NPRIO = 3"
definition PGSIZE :: u64 where "PGSIZE = 4096"
definition MAXVA :: u64 where "MAXVA = push_bit 38 1"
definition TRAMPOLINE :: u64 where "TRAMPOLINE = MAXVA - PGSIZE"
definition TRAPFRAME :: u64 where "TRAPFRAME = TRAMPOLINE - PGSIZE"
definition KSTACK :: "nat \<Rightarrow> u64" where
  "KSTACK p = TRAMPOLINE - (of_nat p + 1) * 2 * PGSIZE"
definition PTE_R :: int where "PTE_R = 2"
definition PTE_W :: int where "PTE_W = 4"
definition PTE_X :: int where "PTE_X = 8"

datatype procstate = UNUSED | USED | SLEEPING | RUNNABLE | RUNNING | ZOMBIE

text \<open>What a process sleeps on is the address of an object; distinct objects are distinct channels.\<close>

datatype chan = ChNull | ChProc nat | ChPipeRead nat | ChPipeWrite nat | ChSem int | ChSleeplock nat
  | ChLog | ChTicks

record context_regs =
  ctx_ra :: u64
  ctx_sp :: u64
  ctx_s :: "u64 list"

record tframe =
  epc :: u64
  tf_sp :: u64
  tf_a0 :: u64
  tf_regs :: "u64 list"

text \<open>Pointers to pages are addresses, \<open>0\<close> being \<open>NULL\<close>; open files and inodes are indices.\<close>

record proc =
  pstate :: procstate
  pchan :: chan
  pkilled :: int
  xstate :: int
  pid :: int
  parent :: "nat option"
  kstack :: u64
  psz :: u64
  pagetable :: u64
  trapframe :: u64
  pcontext :: context_regs
  ofile :: "nat option list"
  pcwd :: "nat option"
  pname :: bytes
  prio :: int
  times_exec :: int

record 'e kapi =
  api_trampoline :: u64
  api_forkret :: u64
  api_kalloc :: "'e \<Rightarrow> u64 \<times> 'e"
  api_kfree :: "u64 \<Rightarrow> 'e \<Rightarrow> 'e"
  api_uvmcreate :: "'e \<Rightarrow> u64 \<times> 'e"
  api_mappages :: "u64 \<Rightarrow> u64 \<Rightarrow> u64 \<Rightarrow> u64 \<Rightarrow> int \<Rightarrow> 'e \<Rightarrow> int \<times> 'e"
  api_uvmunmap :: "u64 \<Rightarrow> u64 \<Rightarrow> u64 \<Rightarrow> bool \<Rightarrow> 'e \<Rightarrow> 'e"
  api_uvmfree :: "u64 \<Rightarrow> u64 \<Rightarrow> 'e \<Rightarrow> 'e"
  api_uvmcopy :: "u64 \<Rightarrow> u64 \<Rightarrow> u64 \<Rightarrow> 'e \<Rightarrow> int \<times> 'e"
  api_uvmalloc :: "u64 \<Rightarrow> u64 \<Rightarrow> u64 \<Rightarrow> int \<Rightarrow> 'e \<Rightarrow> u64 \<times> 'e"
  api_uvmdealloc :: "u64 \<Rightarrow> u64 \<Rightarrow> u64 \<Rightarrow> 'e \<Rightarrow> u64 \<times> 'e"
  api_uvmfirst :: "u64 \<Rightarrow> bytes \<Rightarrow> 'e \<Rightarrow> 'e"
  api_kvmmap :: "u64 \<Rightarrow> u64 \<Rightarrow> u64 \<Rightarrow> u64 \<Rightarrow> int \<Rightarrow> 'e \<Rightarrow> 'e"
  api_copyout :: "u64 \<Rightarrow> u64 \<Rightarrow> bytes \<Rightarrow> 'e \<Rightarrow> int \<times> 'e"
  api_copyin :: "u64 \<Rightarrow> u64 \<Rightarrow> nat \<Rightarrow> 'e \<Rightarrow> bytes option"
  api_kwrite :: "u64 \<Rightarrow> bytes \<Rightarrow> 'e \<Rightarrow> 'e"
  api_kread :: "u64 \<Rightarrow> nat \<Rightarrow> 'e \<Rightarrow> bytes"
  api_filedup :: "nat \<Rightarrow> 'e \<Rightarrow> 'e"
  api_fileclose :: "nat \<Rightarrow> 'e \<Rightarrow> 'e"
  api_idup :: "nat \<Rightarrow> 'e \<Rightarrow> 'e"
  api_iput :: "nat \<Rightarrow> 'e \<Rightarrow> 'e"
  api_begin_op :: "'e \<Rightarrow> 'e"
  api_end_op :: "'e \<Rightarrow> 'e"
  api_namei :: "string \<Rightarrow> 'e \<Rightarrow> nat option \<times> 'e"

text \<open>The kernel's process state; \<open>cur\<close> is \<open>myproc()\<close>, \<open>tframes\<close> the contents of trap frame pages.\<close>

record 'e kstate =
  procs :: "proc list"
  nextpid :: int
  initproc :: "nat option"
  cur :: "nat option"
  tframes :: "u64 \<Rightarrow> tframe"
  env :: 'e

definition upd_proc :: "nat \<Rightarrow> (proc \<Rightarrow> proc) \<Rightarrow> 'e kstate \<Rightarrow> 'e kstate" where
  "upd_proc i f s = s\<lparr>procs := (procs s)[i := f (procs s ! i)]\<rparr>"

section \<open>Initialisation\<close>

text \<open>Before \<open>procinit\<close> the table is the zeroed static array.\<close>

definition proc_zero :: proc where
  "proc_zero = \<lparr>pstate = UNUSED, pchan = ChNull, pkilled = 0, xstate = 0, pid = 0, parent = None,
     kstack = 0, psz = 0, pagetable = 0, trapframe = 0,
     pcontext = \<lparr>ctx_ra = 0, ctx_sp = 0, ctx_s = replicate 12 0\<rparr>,
     ofile = replicate NOFILE None, pcwd = None, pname = replicate 16 0, prio = 0, times_exec = 0\<rparr>"

definition procinit :: "proc list \<Rightarrow> proc list" where
  "procinit ps = map (\<lambda>i. (ps ! i)\<lparr>pstate := UNUSED, kstack := KSTACK i, times_exec := 0\<rparr>) [0..<NPROC]"

text \<open>\<open>None\<close> is the panic of a failing \<open>kalloc\<close>.\<close>

fun mapstacks_loop :: "'e kapi \<Rightarrow> u64 \<Rightarrow> nat list \<Rightarrow> 'e \<Rightarrow> 'e option" where
  "mapstacks_loop api kpgtbl [] e = Some e"
| "mapstacks_loop api kpgtbl (i # is) e =
    (case api_kalloc api e of (pa, e1) \<Rightarrow>
       if pa = 0 then None
       else mapstacks_loop api kpgtbl is
         (api_kvmmap api kpgtbl (KSTACK i) pa PGSIZE (or PTE_R PTE_W) e1))"

definition proc_mapstacks :: "'e kapi \<Rightarrow> u64 \<Rightarrow> 'e \<Rightarrow> 'e option" where
  "proc_mapstacks api kpgtbl e = mapstacks_loop api kpgtbl [0..<NPROC] e"

section \<open>Allocating and freeing process slots\<close>

text \<open>The signed \<open>nextpid\<close> must not pass its maximum: there the increment is undefined.\<close>

definition allocpid :: "'e kstate \<Rightarrow> (int \<times> 'e kstate) option" where
  "allocpid s =
    (if nextpid s \<ge> 2147483647 then None else Some (nextpid s, s\<lparr>nextpid := nextpid s + 1\<rparr>))"

definition proc_pagetable :: "'e kapi \<Rightarrow> u64 \<Rightarrow> 'e \<Rightarrow> u64 \<times> 'e" where
  "proc_pagetable api tf e =
    (case api_uvmcreate api e of (pt, e1) \<Rightarrow>
       if pt = 0 then (0, e1)
       else case api_mappages api pt TRAMPOLINE PGSIZE (api_trampoline api) (or PTE_R PTE_X) e1 of (r, e2) \<Rightarrow>
         if r < 0 then (0, api_uvmfree api pt 0 e2)
         else case api_mappages api pt TRAPFRAME PGSIZE tf (or PTE_R PTE_W) e2 of (r', e3) \<Rightarrow>
           if r' < 0 then (0, api_uvmfree api pt 0 (api_uvmunmap api pt TRAMPOLINE 1 False e3))
           else (pt, e3))"

definition proc_freepagetable :: "'e kapi \<Rightarrow> u64 \<Rightarrow> u64 \<Rightarrow> 'e \<Rightarrow> 'e" where
  "proc_freepagetable api pt sz e =
    api_uvmfree api pt sz (api_uvmunmap api pt TRAPFRAME 1 False
      (api_uvmunmap api pt TRAMPOLINE 1 False e))"

definition freeproc :: "'e kapi \<Rightarrow> nat \<Rightarrow> 'e kstate \<Rightarrow> 'e kstate" where
  "freeproc api i s =
    (let p = procs s ! i;
         s1 = (if trapframe p \<noteq> 0 then s\<lparr>env := api_kfree api (trapframe p) (env s)\<rparr> else s);
         s2 = (if pagetable p \<noteq> 0
               then s1\<lparr>env := proc_freepagetable api (pagetable p) (psz p) (env s1)\<rparr> else s1)
     in upd_proc i (\<lambda>p. p\<lparr>trapframe := 0, pagetable := 0, psz := 0, pid := 0, parent := None,
          pname := (pname p)[0 := 0], pchan := ChNull, pkilled := 0, xstate := 0,
          pstate := UNUSED, times_exec := 0, prio := 0\<rparr>) s2)"

text \<open>The index of the first process that satisfies a test, in table order.\<close>

definition first_proc :: "(proc \<Rightarrow> bool) \<Rightarrow> proc list \<Rightarrow> nat option" where
  "first_proc P ps = find (\<lambda>i. P (ps ! i)) [0..<NPROC]"

definition allocproc :: "'e kapi \<Rightarrow> 'e kstate \<Rightarrow> (nat option \<times> 'e kstate) option" where
  "allocproc api s =
    (case first_proc (\<lambda>p. pstate p = UNUSED) (procs s) of
       None \<Rightarrow> Some (None, s)
     | Some i \<Rightarrow> do {
         (n, s1) \<leftarrow> allocpid s;
         let s2 = upd_proc i (\<lambda>p. p\<lparr>pid := n, pstate := USED, prio := 0\<rparr>) s1;
             (tf, e3) = api_kalloc api (env s2);
             s3 = upd_proc i (\<lambda>p. p\<lparr>trapframe := tf\<rparr>) (s2\<lparr>env := e3\<rparr>)
         in if tf = 0 then Some (None, freeproc api i s3)
         else let (pt, e4) = proc_pagetable api tf (env s3);
             s4 = upd_proc i (\<lambda>p. p\<lparr>pagetable := pt\<rparr>) (s3\<lparr>env := e4\<rparr>)
         in if pt = 0 then Some (None, freeproc api i s4)
         else Some (Some i, upd_proc i (\<lambda>p. p\<lparr>pcontext := \<lparr>ctx_ra = api_forkret api,
             ctx_sp = kstack p + PGSIZE, ctx_s = replicate 12 0\<rparr>\<rparr>) s4) })"

section \<open>The first process, and growing one\<close>

definition initcode :: bytes where
  "initcode = [
    0x17, 0x05, 0x00, 0x00, 0x13, 0x05, 0x45, 0x02,
    0x97, 0x05, 0x00, 0x00, 0x93, 0x85, 0x35, 0x02,
    0x93, 0x08, 0x70, 0x00, 0x73, 0x00, 0x00, 0x00,
    0x93, 0x08, 0x20, 0x00, 0x73, 0x00, 0x00, 0x00,
    0xef, 0xf0, 0x9f, 0xff, 0x2f, 0x69, 0x6e, 0x69,
    0x74, 0x00, 0x00, 0x24, 0x00, 0x00, 0x00, 0x00,
    0x00, 0x00, 0x00, 0x00]"

text \<open>
  \<open>safestrcpy\<close> into the 16 bytes of a process name, on the string \<open>bs\<close> without its NUL: the bytes
  \<open>X_String.safestrcpy_spec\<close> gives, over those the field held.
\<close>

definition set_name :: "bytes \<Rightarrow> bytes \<Rightarrow> bytes" where
  "set_name old bs =
    (let new = take 15 bs @ (if Suc (length bs) < 16 then [0, 0] else [0])
     in new @ drop (length new) old)"

definition name_str :: "bytes \<Rightarrow> bytes" where
  "name_str nm = takeWhile (\<lambda>c. c \<noteq> 0) nm"

text \<open>\<open>allocproc\<close> failing is not checked: the \<open>NULL\<close> is dereferenced, \<open>None\<close>.\<close>

definition userinit :: "'e kapi \<Rightarrow> 'e kstate \<Rightarrow> 'e kstate option" where
  "userinit api s = do {
     (r, s1) \<leftarrow> allocproc api s;
     i \<leftarrow> r;
     let s2 = s1\<lparr>initproc := Some i\<rparr>;
         p = procs s2 ! i;
         s3 = s2\<lparr>env := api_uvmfirst api (pagetable p) initcode (env s2)\<rparr>;
         tf = trapframe p;
         s4 = s3\<lparr>tframes := (tframes s3)(tf := (tframes s3 tf)\<lparr>epc := 0, tf_sp := PGSIZE\<rparr>)\<rparr>;
         (d, e5) = api_namei api ''/'' (env s4);
         s5 = s4\<lparr>env := e5\<rparr>
     in Some (upd_proc i (\<lambda>p. p\<lparr>psz := PGSIZE,
          pname := set_name (pname p) [105, 110, 105, 116, 99, 111, 100, 101],
          pcwd := d, pstate := RUNNABLE\<rparr>) s5) }"

text \<open>\<open>n\<close> is an \<open>int\<close>, sign-extended to the 64 bits of \<open>sz\<close>.\<close>

definition growproc :: "'e kapi \<Rightarrow> int \<Rightarrow> 'e kstate \<Rightarrow> (int \<times> 'e kstate) option" where
  "growproc api n s = do {
     i \<leftarrow> cur s;
     let p = procs s ! i; old = psz p
     in if n > 0 then
          (case api_uvmalloc api (pagetable p) old (old + of_int n) PTE_W (env s) of (new, e') \<Rightarrow>
             if new = 0 then Some (- 1, s\<lparr>env := e'\<rparr>)
             else Some (0, upd_proc i (\<lambda>p. p\<lparr>psz := new\<rparr>) (s\<lparr>env := e'\<rparr>)))
        else if n < 0 then
          (case api_uvmdealloc api (pagetable p) old (old + of_int n) (env s) of (new, e') \<Rightarrow>
             Some (0, upd_proc i (\<lambda>p. p\<lparr>psz := new\<rparr>) (s\<lparr>env := e'\<rparr>)))
        else Some (0, s) }"

section \<open>Sleeping and waking\<close>

text \<open>
  The part of \<open>sleep\<close> before \<open>sched\<close> and the part after it: in between the process does not run.
  \<open>sched\<close> hands the CPU to the scheduler.
\<close>

definition sleep_begin :: "chan \<Rightarrow> 'e kstate \<Rightarrow> 'e kstate option" where
  "sleep_begin ch s = do {
     i \<leftarrow> cur s;
     Some (upd_proc i (\<lambda>p. p\<lparr>pchan := ch, pstate := SLEEPING\<rparr>) s) }"

definition sleep_end :: "'e kstate \<Rightarrow> 'e kstate option" where
  "sleep_end s = do {
     i \<leftarrow> cur s;
     Some (upd_proc i (\<lambda>p. p\<lparr>pchan := ChNull\<rparr>) s) }"

definition wake_one :: "chan \<Rightarrow> proc \<Rightarrow> proc" where
  "wake_one ch p = (if pstate p = SLEEPING \<and> pchan p = ch then p\<lparr>pstate := RUNNABLE\<rparr> else p)"

definition wakeup :: "chan \<Rightarrow> 'e kstate \<Rightarrow> 'e kstate" where
  "wakeup ch s = fold (\<lambda>i s. if cur s \<noteq> Some i then upd_proc i (wake_one ch) s else s) [0..<NPROC] s"

definition kill :: "int \<Rightarrow> 'e kstate \<Rightarrow> int \<times> 'e kstate" where
  "kill n s =
    (case first_proc (\<lambda>p. pid p = n) (procs s) of
       None \<Rightarrow> (- 1, s)
     | Some i \<Rightarrow> (0, upd_proc i (\<lambda>p. p\<lparr>pkilled := 1,
         pstate := (if pstate p = SLEEPING then RUNNABLE else pstate p)\<rparr>) s))"

definition setkilled :: "nat \<Rightarrow> 'e kstate \<Rightarrow> 'e kstate" where
  "setkilled i s = upd_proc i (\<lambda>p. p\<lparr>pkilled := 1\<rparr>) s"

definition killed :: "nat \<Rightarrow> 'e kstate \<Rightarrow> int" where
  "killed i s = pkilled (procs s ! i)"

text \<open>\<open>yield\<close> up to \<open>sched\<close>.\<close>

definition lower_prio :: "int \<Rightarrow> int" where
  "lower_prio q = (if q \<ge> 0 \<and> q < NPRIO - 1 then q + 1 else NPRIO - 1)"

definition yield_begin :: "'e kstate \<Rightarrow> 'e kstate option" where
  "yield_begin s = do {
     i \<leftarrow> cur s;
     Some (upd_proc i (\<lambda>p. p\<lparr>pstate := RUNNABLE, prio := lower_prio (prio p)\<rparr>) s) }"

section \<open>fork, exit and wait\<close>

definition dup_files :: "'e kapi \<Rightarrow> nat option list \<Rightarrow> 'e \<Rightarrow> 'e" where
  "dup_files api fs e = fold (\<lambda>f e. case f of None \<Rightarrow> e | Some x \<Rightarrow> api_filedup api x e) fs e"

text \<open>
  \<open>filedup\<close> and \<open>idup\<close> return their argument. An open slot of the parent overwrites the child's,
  an empty one leaves it.
\<close>

definition merge_ofile :: "nat option list \<Rightarrow> nat option list \<Rightarrow> nat option list" where
  "merge_ofile mine fs = map2 (\<lambda>m f. case f of None \<Rightarrow> m | Some x \<Rightarrow> Some x) mine fs"

definition fork :: "'e kapi \<Rightarrow> 'e kstate \<Rightarrow> (int \<times> 'e kstate) option" where
  "fork api s = do {
     i \<leftarrow> cur s;
     (r, s1) \<leftarrow> allocproc api s;
     case r of
       None \<Rightarrow> Some (- 1, s1)
     | Some j \<Rightarrow>
         let p = procs s1 ! i; np = procs s1 ! j;
             (c, e2) = api_uvmcopy api (pagetable p) (pagetable np) (psz p) (env s1);
             s2 = s1\<lparr>env := e2\<rparr>
         in if c < 0 then Some (- 1, freeproc api j s2)
         else do {
           d \<leftarrow> pcwd p;
           let s3 = s2\<lparr>tframes := (tframes s2)(trapframe np := (tframes s2 (trapframe p))\<lparr>tf_a0 := 0\<rparr>),
                 env := api_idup api d (dup_files api (ofile p) (env s2))\<rparr>
           in Some (pid np, upd_proc j (\<lambda>q. q\<lparr>psz := psz p, ofile := merge_ofile (ofile q) (ofile p),
                pcwd := Some d, pname := set_name (pname q) (name_str (pname p)),
                parent := Some i, pstate := RUNNABLE\<rparr>) s3) } }"

text \<open>\<open>wakeup(initproc)\<close> runs once for each child handed over.\<close>

definition reparent :: "nat \<Rightarrow> 'e kstate \<Rightarrow> 'e kstate" where
  "reparent i s = fold (\<lambda>j s.
     if parent (procs s ! j) = Some i
     then let s' = upd_proc j (\<lambda>q. q\<lparr>parent := initproc s\<rparr>) s
       in (case initproc s of Some k \<Rightarrow> wakeup (ChProc k) s' | None \<Rightarrow> wakeup ChNull s')
     else s) [0..<NPROC] s"

definition close_files :: "'e kapi \<Rightarrow> nat option list \<Rightarrow> 'e \<Rightarrow> 'e" where
  "close_files api fs e = fold (\<lambda>f e. case f of None \<Rightarrow> e | Some x \<Rightarrow> api_fileclose api x e) fs e"

text \<open>\<open>exit\<close> up to \<open>sched\<close>, from which it never returns.\<close>

definition exit_proc :: "'e kapi \<Rightarrow> int \<Rightarrow> 'e kstate \<Rightarrow> 'e kstate option" where
  "exit_proc api status s = do {
     i \<leftarrow> cur s;
     if initproc s = Some i then None
     else do {
       d \<leftarrow> pcwd (procs s ! i);
       let e1 = close_files api (ofile (procs s ! i)) (env s);
           e2 = api_end_op api (api_iput api d (api_begin_op api e1));
           s1 = upd_proc i (\<lambda>p. p\<lparr>ofile := replicate NOFILE None, pcwd := None\<rparr>) (s\<lparr>env := e2\<rparr>);
           s2 = reparent i s1;
           s3 = (case parent (procs s2 ! i) of Some k \<Rightarrow> wakeup (ChProc k) s2 | None \<Rightarrow> wakeup ChNull s2)
       in Some (upd_proc i (\<lambda>p. p\<lparr>xstate := status, pstate := ZOMBIE\<rparr>) s3) } }"

definition int32_bytes :: "int \<Rightarrow> bytes" where
  "int32_bytes x = le32_bytes (of_int x)"

text \<open>
  One round of the \<open>for(;;)\<close> of \<open>wait\<close>: it returns a value, or goes to sleep on the caller itself
  and starts the next round when woken.
\<close>

datatype wait_outcome = Wait_return int | Wait_sleep

definition wait_round :: "'e kapi \<Rightarrow> u64 \<Rightarrow> 'e kstate \<Rightarrow> (wait_outcome \<times> 'e kstate) option" where
  "wait_round api addr s = do {
     i \<leftarrow> cur s;
     case first_proc (\<lambda>p. parent p = Some i \<and> pstate p = ZOMBIE) (procs s) of
       Some j \<Rightarrow>
         let q = procs s ! j;
             (r, e1) = (if addr \<noteq> 0
               then api_copyout api (pagetable (procs s ! i)) addr (int32_bytes (xstate q)) (env s)
               else (0, env s));
             s1 = s\<lparr>env := e1\<rparr>
         in if addr \<noteq> 0 \<and> r < 0 then Some (Wait_return (- 1), s1)
            else Some (Wait_return (pid q), freeproc api j s1)
     | None \<Rightarrow>
         let havekids = (first_proc (\<lambda>p. parent p = Some i) (procs s) \<noteq> None)
         in if \<not> havekids \<or> killed i s \<noteq> 0 then Some (Wait_return (- 1), s)
            else do { s1 \<leftarrow> sleep_begin (ChProc i) s; Some (Wait_sleep, s1) } }"

section \<open>Copies and the listing\<close>

definition either_copyout :: "'e kapi \<Rightarrow> bool \<Rightarrow> u64 \<Rightarrow> bytes \<Rightarrow> 'e kstate \<Rightarrow> (int \<times> 'e kstate) option" where
  "either_copyout api user_dst dst src s = do {
     i \<leftarrow> cur s;
     if user_dst
     then (case api_copyout api (pagetable (procs s ! i)) dst src (env s) of (r, e') \<Rightarrow> Some (r, s\<lparr>env := e'\<rparr>))
     else Some (0, s\<lparr>env := api_kwrite api dst src (env s)\<rparr>) }"

text \<open>The bytes copied, or \<open>Inl (- 1)\<close>.\<close>

definition either_copyin :: "'e kapi \<Rightarrow> bool \<Rightarrow> u64 \<Rightarrow> nat \<Rightarrow> 'e kstate \<Rightarrow> (int + bytes) option" where
  "either_copyin api user_src src len s = do {
     i \<leftarrow> cur s;
     if user_src
     then (case api_copyin api (pagetable (procs s ! i)) src len (env s) of
             None \<Rightarrow> Some (Inl (- 1)) | Some bs \<Rightarrow> Some (Inr bs))
     else Some (Inr (api_kread api src len (env s))) }"

fun state_name :: "procstate \<Rightarrow> string" where
  "state_name UNUSED = ''unused''"
| "state_name USED = ''used''"
| "state_name SLEEPING = ''sleeping''"
| "state_name RUNNABLE = ''runnable''"
| "state_name RUNNING = ''running''"
| "state_name ZOMBIE = ''zombie''"

text \<open>What \<open>procdump\<close> prints, one entry for each line: pid, state, name, executions and priority.\<close>

definition procdump :: "proc list \<Rightarrow> (int \<times> string \<times> bytes \<times> int \<times> int) list" where
  "procdump ps = map (\<lambda>p. (pid p, state_name (pstate p), name_str (pname p), times_exec p, prio p))
     (filter (\<lambda>p. pstate p \<noteq> UNUSED) (map ((!) ps) [0..<NPROC]))"

end
