(* ===== verification/X_Proc_Wf.thy ===== *)
theory X_Proc_Wf
  imports X_Proc
begin

text \<open>
  What the routines of \<open>X_Proc\<close> keep and do: the well-formedness invariant of the process table and
  its preservation by every routine, \<open>reparent\<close> and \<open>wakeup\<close> slot by slot, and the contracts of
  \<open>fork\<close>, \<open>exit\<close>, \<open>wait\<close>, \<open>wakeup\<close> and \<open>kill\<close>, with a small system as their witness.
\<close>

section \<open>Frame lemmas\<close>

lemma upd_proc_simps [simp]:
  "length (procs (upd_proc i f s)) = length (procs s)"
  "nextpid (upd_proc i f s) = nextpid s"
  "initproc (upd_proc i f s) = initproc s"
  "cur (upd_proc i f s) = cur s"
  "tframes (upd_proc i f s) = tframes s"
  "env (upd_proc i f s) = env s"
  by (simp_all add: upd_proc_def)

lemma procs_upd_proc:
  "j < length (procs s) \<Longrightarrow> procs (upd_proc i f s) ! j = (if i = j then f (procs s ! j) else procs s ! j)"
  by (simp add: upd_proc_def nth_list_update)

lemma procs_upd_same [simp]:
  "i < length (procs s) \<Longrightarrow> procs (upd_proc i f s) ! i = f (procs s ! i)"
  by (simp add: procs_upd_proc)

lemma procs_upd_other [simp]: "i \<noteq> j \<Longrightarrow> procs (upd_proc i f s) ! j = procs s ! j"
  by (simp add: upd_proc_def)

lemma first_proc_Some:
  "first_proc P ps = Some i \<Longrightarrow> i < NPROC \<and> P (ps ! i) \<and> (\<forall>j < i. \<not> P (ps ! j))"
  by (auto simp: first_proc_def find_Some_iff)

lemma first_procI: "\<lbrakk>i < NPROC; P (ps ! i); \<And>j. j < i \<Longrightarrow> \<not> P (ps ! j)\<rbrakk> \<Longrightarrow> first_proc P ps = Some i"
  unfolding first_proc_def by (subst find_Some_iff) (auto intro!: exI [of _ i])

lemma first_proc_None: "first_proc P ps = None \<longleftrightarrow> (\<forall>i < NPROC. \<not> P (ps ! i))"
  by (auto simp: first_proc_def find_None_iff)

text \<open>\<open>wakeup\<close> is the pointwise \<open>wake_one\<close>, the caller left out.\<close>

lemma wakeup_prefix:
  assumes "n \<le> length (procs s)"
  shows "\<exists>ps. fold (\<lambda>i s. if cur s \<noteq> Some i then upd_proc i (wake_one ch) s else s) [0..<n] s = s\<lparr>procs := ps\<rparr> \<and>
    length ps = length (procs s) \<and>
    (\<forall>j < length (procs s). ps ! j =
      (if j < n \<and> cur s \<noteq> Some j then wake_one ch (procs s ! j) else procs s ! j))"
  using assms
proof (induction n)
  case 0
  then show ?case by (intro exI [of _ "procs s"]) simp
next
  case (Suc n)
  then obtain ps where ps: "fold (\<lambda>i s. if cur s \<noteq> Some i then upd_proc i (wake_one ch) s else s) [0..<n] s = s\<lparr>procs := ps\<rparr>"
    "length ps = length (procs s)" "\<forall>j < length (procs s). ps ! j =
      (if j < n \<and> cur s \<noteq> Some j then wake_one ch (procs s ! j) else procs s ! j)"
    by auto
  show ?case
    by (rule exI [of _ "if cur s = Some n then ps else ps[n := wake_one ch (ps ! n)]"])
      (use ps Suc.prems in \<open>auto simp: upd_proc_def nth_list_update less_Suc_eq\<close>)
qed

definition table_ok :: "'e kstate \<Rightarrow> bool" where
  "table_ok s \<longleftrightarrow> length (procs s) = NPROC"

lemma wakeup_simps [simp]:
  assumes "table_ok s"
  shows "length (procs (wakeup ch s)) = NPROC" "nextpid (wakeup ch s) = nextpid s"
    "initproc (wakeup ch s) = initproc s" "cur (wakeup ch s) = cur s"
    "tframes (wakeup ch s) = tframes s" "env (wakeup ch s) = env s"
  using wakeup_prefix [of NPROC s ch] assms by (auto simp: wakeup_def table_ok_def)

lemma procs_wakeup:
  assumes "table_ok s" "j < NPROC"
  shows "procs (wakeup ch s) ! j =
    (if cur s = Some j then procs s ! j else wake_one ch (procs s ! j))"
  using wakeup_prefix [of NPROC s ch] assms by (auto simp: wakeup_def table_ok_def)

lemma table_ok_upd_proc [simp]: "table_ok (upd_proc i f s) = table_ok s"
  by (simp add: table_ok_def)

lemma table_ok_wakeup [simp]: "table_ok s \<Longrightarrow> table_ok (wakeup ch s)"
  by (simp add: table_ok_def)

lemma wake_one_simps [simp]:
  "pid (wake_one ch p) = pid p" "prio (wake_one ch p) = prio p" "parent (wake_one ch p) = parent p"
  "ofile (wake_one ch p) = ofile p" "pcwd (wake_one ch p) = pcwd p"
  "times_exec (wake_one ch p) = times_exec p" "pkilled (wake_one ch p) = pkilled p"
  "pstate (wake_one ch p) = UNUSED \<longleftrightarrow> pstate p = UNUSED"
  "pstate (wake_one ch p) = ZOMBIE \<longleftrightarrow> pstate p = ZOMBIE"
  "pstate (wake_one ch p) = USED \<longleftrightarrow> pstate p = USED"
  "pstate (wake_one ch p) = RUNNING \<longleftrightarrow> pstate p = RUNNING"
  by (auto simp: wake_one_def)

section \<open>The well-formed process table\<close>

text \<open>
  \<open>slot_ok n p\<close>: the fields of one slot are consistent when \<open>n\<close> is the next pid. An unused slot
  has no pid, parent or pages; a slot that never ran or has exited has no open file.
\<close>

definition slot_ok :: "int \<Rightarrow> proc \<Rightarrow> bool" where
  "slot_ok n p \<longleftrightarrow> 0 \<le> prio p \<and> prio p < NPRIO \<and> length (ofile p) = NOFILE \<and>
     (\<forall>k. parent p = Some k \<longrightarrow> k < NPROC) \<and>
     (if pstate p = UNUSED then pid p = 0 \<and> parent p = None \<and> trapframe p = 0 \<and> pagetable p = 0
      else 0 < pid p \<and> pid p < n) \<and>
     (pstate p \<in> {UNUSED, USED, ZOMBIE} \<longrightarrow> ofile p = replicate NOFILE None)"

definition proc_wf :: "'e kstate \<Rightarrow> bool" where
  "proc_wf s \<longleftrightarrow> table_ok s \<and> 0 < nextpid s \<and>
     (\<forall>k. initproc s = Some k \<longrightarrow> k < NPROC) \<and> (\<forall>k. cur s = Some k \<longrightarrow> k < NPROC) \<and>
     (\<forall>i < NPROC. slot_ok (nextpid s) (procs s ! i)) \<and>
     (\<forall>i < NPROC. \<forall>j < NPROC. i \<noteq> j \<and> pstate (procs s ! i) \<noteq> UNUSED \<and> pstate (procs s ! j) \<noteq> UNUSED
        \<longrightarrow> pid (procs s ! i) \<noteq> pid (procs s ! j))"

lemma proc_wfD:
  assumes "proc_wf s"
  shows "table_ok s" "0 < nextpid s" "length (procs s) = NPROC"
    "\<And>k. initproc s = Some k \<Longrightarrow> k < NPROC" "\<And>k. cur s = Some k \<Longrightarrow> k < NPROC"
    "\<And>i. i < NPROC \<Longrightarrow> slot_ok (nextpid s) (procs s ! i)"
  using assms by (auto simp: proc_wf_def table_ok_def)

lemma proc_wf_cong:
  "\<lbrakk>procs t = procs s; nextpid t = nextpid s; initproc t = initproc s; cur t = cur s\<rbrakk>
    \<Longrightarrow> proc_wf t = proc_wf s"
  by (simp add: proc_wf_def table_ok_def)

lemma proc_wf_env [simp]: "proc_wf (s\<lparr>env := e\<rparr>) = proc_wf s"
  by (rule proc_wf_cong) auto

lemma proc_wf_tframes [simp]: "proc_wf (s\<lparr>tframes := e\<rparr>) = proc_wf s"
  by (rule proc_wf_cong) auto

text \<open>An update keeps the table well formed when the new slot is consistent and its pid its own.\<close>

lemma proc_wf_upd:
  assumes wf: "proc_wf s" and i: "i < NPROC" and ok: "slot_ok (nextpid s) (f (procs s ! i))"
    and own: "\<And>j. \<lbrakk>j < NPROC; j \<noteq> i; pstate (f (procs s ! i)) \<noteq> UNUSED; pstate (procs s ! j) \<noteq> UNUSED\<rbrakk>
      \<Longrightarrow> pid (procs s ! j) \<noteq> pid (f (procs s ! i))"
  shows "proc_wf (upd_proc i f s)"
  using wf i ok own unfolding proc_wf_def
  by (auto simp: procs_upd_proc table_ok_def) metis+

text \<open>The common case: pid and liveness stay.\<close>

lemma proc_wf_upd_same:
  assumes wf: "proc_wf s" and i: "i < NPROC" and ok: "slot_ok (nextpid s) (f (procs s ! i))"
    and "pid (f (procs s ! i)) = pid (procs s ! i)"
    and "pstate (f (procs s ! i)) = UNUSED \<longleftrightarrow> pstate (procs s ! i) = UNUSED"
  shows "proc_wf (upd_proc i f s)"
  using assms by (intro proc_wf_upd) (auto simp: proc_wf_def)

lemma slot_ok_wake_one: "slot_ok n p \<Longrightarrow> slot_ok n (wake_one ch p)"
  by (auto simp: slot_ok_def wake_one_def)

lemma proc_wf_wakeup:
  assumes wf: "proc_wf s"
  shows "proc_wf (wakeup ch s)"
proof -
  note p = procs_wakeup [OF proc_wfD(1) [OF wf]]
  have "slot_ok (nextpid s) (procs (wakeup ch s) ! i)" if "i < NPROC" for i
    using proc_wfD(6) [OF wf that] that by (simp add: p slot_ok_wake_one)
  moreover have "pid (procs (wakeup ch s) ! i) = pid (procs s ! i)"
    "pstate (procs (wakeup ch s) ! i) = UNUSED \<longleftrightarrow> pstate (procs s ! i) = UNUSED" if "i < NPROC" for i
    using that by (simp_all add: p)
  ultimately show ?thesis
    using wf by (simp add: proc_wf_def)
qed

section \<open>Allocation\<close>

lemma upd_proc_twice:
  "i < length (procs s) \<Longrightarrow> upd_proc i f (upd_proc i g s) = upd_proc i (\<lambda>p. f (g p)) s"
  by (simp add: upd_proc_def)

lemma upd_proc_commute:
  "upd_proc i f (s\<lparr>env := e\<rparr>) = (upd_proc i f s)\<lparr>env := e\<rparr>"
  "upd_proc i f (s\<lparr>tframes := t\<rparr>) = (upd_proc i f s)\<lparr>tframes := t\<rparr>"
  "upd_proc i f (s\<lparr>nextpid := n\<rparr>) = (upd_proc i f s)\<lparr>nextpid := n\<rparr>"
  "upd_proc i f (s\<lparr>initproc := k\<rparr>) = (upd_proc i f s)\<lparr>initproc := k\<rparr>"
  by (simp_all add: upd_proc_def)

definition freed :: "proc \<Rightarrow> proc" where
  "freed p = p\<lparr>trapframe := 0, pagetable := 0, psz := 0, pid := 0, parent := None,
     pname := (pname p)[0 := 0], pchan := ChNull, pkilled := 0, xstate := 0,
     pstate := UNUSED, times_exec := 0, prio := 0\<rparr>"

lemma freeproc_eq: "\<exists>e. freeproc api i s = (upd_proc i freed s)\<lparr>env := e\<rparr>"
  by (rule exI [of _ "env (freeproc api i s)"])
    (simp add: freeproc_def Let_def freed_def [abs_def] upd_proc_def)

lemma allocproc_Some:
  assumes "allocproc api s = Some (Some j, s')" and "table_ok s"
  shows "\<exists>tf pt e. tf \<noteq> 0 \<and> pt \<noteq> 0 \<and> nextpid s < 2147483647 \<and>
    first_proc (\<lambda>p. pstate p = UNUSED) (procs s) = Some j \<and>
    s' = (upd_proc j (\<lambda>p. p\<lparr>pid := nextpid s, pstate := USED, prio := 0, trapframe := tf,
       pagetable := pt, pcontext := \<lparr>ctx_ra = api_forkret api, ctx_sp = kstack p + PGSIZE,
         ctx_s = replicate 12 0\<rparr>\<rparr>) s)\<lparr>nextpid := nextpid s + 1, env := e\<rparr>"
proof -
  obtain i where i: "first_proc (\<lambda>p. pstate p = UNUSED) (procs s) = Some i"
    using assms(1) by (auto simp: allocproc_def split: option.splits)
  then have "i < length (procs s)"
    using first_proc_Some [OF i] assms(2) by (simp add: table_ok_def)
  then show ?thesis
    using assms(1) i
    by (auto simp: allocproc_def allocpid_def Let_def upd_proc_commute upd_proc_twice
        split: if_splits prod.splits)
qed

lemma allocproc_None:
  assumes "allocproc api s = Some (None, s')" and "table_ok s"
  shows "s' = s \<or> (\<exists>j f e. first_proc (\<lambda>p. pstate p = UNUSED) (procs s) = Some j \<and>
    s' = (upd_proc j (\<lambda>p. freed (f p)) s)\<lparr>nextpid := nextpid s + 1, env := e\<rparr> \<and>
    (\<forall>p. ofile (f p) = ofile p))"
proof (cases "first_proc (\<lambda>p. pstate p = UNUSED) (procs s)")
  case None
  then show ?thesis using assms by (simp add: allocproc_def)
next
  case (Some j)
  then have j: "j < length (procs s)"
    using first_proc_Some [OF Some] assms(2) by (simp add: table_ok_def)
  obtain e where e: "\<And>s. freeproc api j s = (upd_proc j freed s)\<lparr>env := e s\<rparr>"
    using freeproc_eq by metis
  show ?thesis
    using assms(1) Some j
    by (auto simp: allocproc_def allocpid_def Let_def upd_proc_commute upd_proc_twice e
        split: if_splits prod.splits)
qed


section \<open>The operations keep the table well formed\<close>

lemma freed_ok: "slot_ok n p \<Longrightarrow> ofile p = replicate NOFILE None \<Longrightarrow> slot_ok n (freed p)"
  by (auto simp: slot_ok_def freed_def)

lemma proc_wf_freeproc:
  assumes wf: "proc_wf s" and i: "i < NPROC" and "pstate (procs s ! i) \<in> {UNUSED, USED, ZOMBIE}"
  shows "proc_wf (freeproc api i s)"
proof -
  obtain e where e: "freeproc api i s = (upd_proc i freed s)\<lparr>env := e\<rparr>"
    using freeproc_eq by metis
  have ok: "slot_ok (nextpid s) (procs s ! i)" by (rule proc_wfD(6) [OF wf i])
  with assms(3) have "ofile (procs s ! i) = replicate NOFILE None"
    by (simp add: slot_ok_def)
  with ok have "slot_ok (nextpid s) (freed (procs s ! i))"
    by (intro freed_ok)
  then have "proc_wf (upd_proc i freed s)"
    by (rule proc_wf_upd [OF wf i]) (simp add: freed_def)
  then show ?thesis by (simp add: e)
qed

lemma slot_ok_Suc: "slot_ok n p \<Longrightarrow> slot_ok (n + 1) p"
  by (simp add: slot_ok_def split: if_splits)

lemma proc_wf_nextpid: "proc_wf s \<Longrightarrow> proc_wf (s\<lparr>nextpid := nextpid s + 1\<rparr>)"
  by (simp add: proc_wf_def table_ok_def slot_ok_Suc)

lemma proc_wf_allocproc:
  assumes wf: "proc_wf s" and run: "allocproc api s = Some (r, s')"
  shows "proc_wf s'"
proof (cases r)
  case None
  from allocproc_None [OF run [unfolded None] proc_wfD(1) [OF wf]] show ?thesis
  proof (elim disjE exE conjE)
    fix j f e
    assume j: "first_proc (\<lambda>p. pstate p = UNUSED) (procs s) = Some j"
      and s': "s' = (upd_proc j (\<lambda>p. freed (f p)) s)\<lparr>nextpid := nextpid s + 1, env := e\<rparr>"
      and f: "\<forall>p. ofile (f p) = ofile p"
    have slot: "slot_ok (nextpid s) (procs s ! j)" "j < NPROC"
      using first_proc_Some [OF j] proc_wfD(6) [OF wf] by auto
    have "proc_wf (upd_proc j (\<lambda>p. freed (f p)) s)"
      using slot f first_proc_Some [OF j] by (intro proc_wf_upd [OF wf]) (auto simp: freed_def slot_ok_def NPRIO_def)
    from proc_wf_nextpid [OF this] show ?thesis
      by (simp add: s')
  qed (simp add: wf)
next
  case (Some j)
  from allocproc_Some [OF run [unfolded Some] proc_wfD(1) [OF wf]] obtain tf pt e where
    j: "first_proc (\<lambda>p. pstate p = UNUSED) (procs s) = Some j"
    and s': "s' = (upd_proc j (\<lambda>p. p\<lparr>pid := nextpid s, pstate := USED, prio := 0, trapframe := tf,
       pagetable := pt, pcontext := \<lparr>ctx_ra = api_forkret api, ctx_sp = kstack p + PGSIZE,
         ctx_s = replicate 12 0\<rparr>\<rparr>) s)\<lparr>nextpid := nextpid s + 1, env := e\<rparr>"
    by auto
  have slot: "slot_ok (nextpid s) (procs s ! j)" "j < NPROC" "pstate (procs s ! j) = UNUSED"
    using first_proc_Some [OF j] proc_wfD(6) [OF wf] by auto
  let ?t = "s\<lparr>nextpid := nextpid s + 1\<rparr>"
  let ?f = "\<lambda>p. p\<lparr>pid := nextpid s, pstate := USED, prio := 0, trapframe := tf,
       pagetable := pt, pcontext := \<lparr>ctx_ra = api_forkret api, ctx_sp = kstack p + PGSIZE,
         ctx_s = replicate 12 0\<rparr>\<rparr>"
  have t: "proc_wf ?t" by (rule proc_wf_nextpid [OF wf])
  have "proc_wf (upd_proc j ?f ?t)"
  proof (rule proc_wf_upd [OF t slot(2)])
    show "slot_ok (nextpid ?t) (?f (procs ?t ! j))"
      using slot proc_wfD(2) [OF wf] by (simp add: slot_ok_def NPRIO_def)
    fix i assume "i < NPROC" "pstate (procs ?t ! i) \<noteq> UNUSED"
    then show "pid (procs ?t ! i) \<noteq> pid (?f (procs ?t ! j))"
      using proc_wfD(6) [OF wf, of i] by (simp add: slot_ok_def)
  qed
  then show ?thesis by (simp add: s' upd_proc_commute)
qed

text \<open>A process that is neither unused nor gone changes its state to another such state.\<close>

definition running :: "nat \<Rightarrow> 'e kstate \<Rightarrow> bool" where
  "running i s \<longleftrightarrow> cur s = Some i \<and> i < NPROC \<and> pstate (procs s ! i) = RUNNING"

lemma slot_ok_restate:
  "\<lbrakk>slot_ok n p; pstate p \<noteq> UNUSED; st \<notin> {UNUSED, USED, ZOMBIE}\<rbrakk> \<Longrightarrow> slot_ok n (p\<lparr>pstate := st\<rparr>)"
  by (auto simp: slot_ok_def split: if_splits)

lemma slot_ok_fields [simp]:
  "slot_ok n (p\<lparr>pchan := c\<rparr>) = slot_ok n p" "slot_ok n (p\<lparr>pkilled := k\<rparr>) = slot_ok n p"
  "slot_ok n (p\<lparr>psz := z\<rparr>) = slot_ok n p" "slot_ok n (p\<lparr>pname := nm\<rparr>) = slot_ok n p"
  "slot_ok n (p\<lparr>pcwd := d\<rparr>) = slot_ok n p" "slot_ok n (p\<lparr>xstate := x\<rparr>) = slot_ok n p"
  by (simp_all add: slot_ok_def)

lemma slot_ok_lower_prio: "slot_ok n p \<Longrightarrow> slot_ok n (p\<lparr>prio := lower_prio (prio p)\<rparr>)"
  by (auto simp: slot_ok_def lower_prio_def NPRIO_def)

lemma runningD: "proc_wf s \<Longrightarrow> running i s \<Longrightarrow> slot_ok (nextpid s) (procs s ! i)"
  by (auto simp: running_def dest: proc_wfD)

lemma proc_wf_sleep_begin: "\<lbrakk>proc_wf s; running i s; sleep_begin ch s = Some s'\<rbrakk> \<Longrightarrow> proc_wf s'"
  using slot_ok_restate [of "nextpid s" "(procs s ! i)\<lparr>pchan := ch\<rparr>" SLEEPING]
  by (auto simp: sleep_begin_def running_def proc_wfD intro!: proc_wf_upd_same dest: runningD)

lemma proc_wf_yield_begin: "\<lbrakk>proc_wf s; running i s; yield_begin s = Some s'\<rbrakk> \<Longrightarrow> proc_wf s'"
  using slot_ok_lower_prio [OF slot_ok_restate [of "nextpid s" "procs s ! i" RUNNABLE]]
  by (auto simp: yield_begin_def running_def proc_wfD intro!: proc_wf_upd_same dest: runningD)

lemma proc_wf_kill:
  assumes wf: "proc_wf s"
  shows "proc_wf (snd (kill n s))"
proof (cases "first_proc (\<lambda>p. pid p = n) (procs s)")
  case (Some i)
  then have i: "i < NPROC" by (simp add: first_proc_Some)
  have ok: "slot_ok (nextpid s) ((procs s ! i)\<lparr>pkilled := 1\<rparr>)"
    using proc_wfD(6) [OF wf i] by simp
  show ?thesis
    using Some wf i ok slot_ok_restate [OF ok, of RUNNABLE]
    by (cases "pstate (procs s ! i) = SLEEPING") (simp_all add: kill_def proc_wfD proc_wf_upd_same)
qed (simp add: kill_def wf)

lemma proc_wf_setkilled: "proc_wf s \<Longrightarrow> i < NPROC \<Longrightarrow> proc_wf (setkilled i s)"
  by (auto simp: setkilled_def proc_wfD intro!: proc_wf_upd_same)

lemma proc_wf_growproc: "proc_wf s \<Longrightarrow> growproc api n s = Some (r, s') \<Longrightarrow> proc_wf s'"
  by (auto simp: growproc_def Let_def proc_wfD intro!: proc_wf_upd_same split: if_splits prod.splits)

lemma length_merge_ofile [simp]: "length (merge_ofile a b) = min (length a) (length b)"
  by (simp add: merge_ofile_def)

lemma proc_wf_fork:
  assumes wf: "proc_wf s" and run: "running i s" and f: "fork api s = Some (r, s')"
  shows "proc_wf s'"
proof -
  have cur: "cur s = Some i" using run by (simp add: running_def)
  obtain a s1 where a: "allocproc api s = Some (a, s1)" using f cur by (auto simp: fork_def)
  have wf1: "proc_wf s1" by (rule proc_wf_allocproc [OF wf a])
  show ?thesis
  proof (cases a)
    case None
    then show ?thesis using f cur a wf1 by (simp add: fork_def)
  next
    case (Some j)
    from allocproc_Some [OF a [unfolded Some] proc_wfD(1) [OF wf]] obtain tf pt e where
      j: "first_proc (\<lambda>p. pstate p = UNUSED) (procs s) = Some j"
      and s1: "s1 = (upd_proc j (\<lambda>p. p\<lparr>pid := nextpid s, pstate := USED, prio := 0, trapframe := tf,
         pagetable := pt, pcontext := \<lparr>ctx_ra = api_forkret api, ctx_sp = kstack p + PGSIZE,
         ctx_s = replicate 12 0\<rparr>\<rparr>) s)\<lparr>nextpid := nextpid s + 1, env := e\<rparr>"
      by auto
    have jN: "j < NPROC" "pstate (procs s1 ! j) = USED"
      using first_proc_Some [OF j] proc_wfD(3) [OF wf] by (auto simp: s1)
    note jok = proc_wfD(6) [OF wf1 jN(1)]
    have iN: "i < NPROC" and len: "length (ofile (procs s1 ! i)) = NOFILE"
      using run proc_wfD(6) [OF wf1, of i] by (auto simp: running_def slot_ok_def)
    obtain c e2 where c: "api_uvmcopy api (pagetable (procs s1 ! i)) (pagetable (procs s1 ! j))
        (psz (procs s1 ! i)) (env s1) = (c, e2)" by (cases "api_uvmcopy api (pagetable (procs s1 ! i))
        (pagetable (procs s1 ! j)) (psz (procs s1 ! i)) (env s1)")
    have child_wf: "proc_wf (upd_proc j (\<lambda>q. q\<lparr>psz := z, ofile := merge_ofile (ofile q) (ofile (procs s1 ! i)),
        pcwd := d, pname := nm q, parent := Some i, pstate := RUNNABLE\<rparr>) s1)" for z d nm
      using jN jok len iN
      by (intro proc_wf_upd_same [OF wf1]) (simp_all add: slot_ok_def)
    show ?thesis
    proof (cases "c < 0")
      case True
      then show ?thesis
        using f cur a Some c wf1 jN by (auto simp: fork_def Let_def intro!: proc_wf_freeproc)
    next
      case False
      then show ?thesis
        using f cur a Some c by (auto simp: fork_def Let_def upd_proc_commute child_wf)
    qed
  qed
qed

lemma reparent_step_wf:
  assumes wf: "proc_wf s" and "j < NPROC" and "parent (procs s ! j) = Some i" "initproc s \<noteq> None"
  shows "proc_wf (upd_proc j (\<lambda>q. q\<lparr>parent := initproc s\<rparr>) s)"
proof (rule proc_wf_upd_same [OF wf])
  have ok: "slot_ok (nextpid s) (procs s ! j)" by (rule proc_wfD(6) [OF wf assms(2)])
  with assms(3) have "pstate (procs s ! j) \<noteq> UNUSED" by (auto simp: slot_ok_def)
  with ok show "slot_ok (nextpid s) ((procs s ! j)\<lparr>parent := initproc s\<rparr>)"
    using proc_wfD(4) [OF wf] by (simp add: slot_ok_def)
qed (use assms in simp_all)


text \<open>The children \<open>reparent\<close> hands over: only their parent changes, and \<open>init\<close> may be woken.\<close>

definition reparent_step :: "nat \<Rightarrow> nat \<Rightarrow> 'e kstate \<Rightarrow> 'e kstate" where
  "reparent_step i j s =
     (if parent (procs s ! j) = Some i
     then let s' = upd_proc j (\<lambda>q. q\<lparr>parent := initproc s\<rparr>) s
       in (case initproc s of Some k \<Rightarrow> wakeup (ChProc k) s' | None \<Rightarrow> wakeup ChNull s')
     else s)"

lemma reparent_fold: "reparent i s = fold (reparent_step i) [0..<NPROC] s"
  by (simp add: reparent_def reparent_step_def [abs_def])

text \<open>A lemma for loops over the table: what each step keeps, the whole loop keeps.\<close>

lemma fold_inv: "\<lbrakk>I s; \<And>j s. \<lbrakk>j \<in> set js; I s\<rbrakk> \<Longrightarrow> I (f j s)\<rbrakk> \<Longrightarrow> I (fold f js s)"
  by (induction js arbitrary: s) auto

lemma reparent_step_inv:
  assumes "proc_wf s" "initproc s = Some k" "j < NPROC"
  shows "proc_wf (reparent_step i j s) \<and> initproc (reparent_step i j s) = Some k \<and>
    cur (reparent_step i j s) = cur s \<and> env (reparent_step i j s) = env s \<and>
    tframes (reparent_step i j s) = tframes s \<and> nextpid (reparent_step i j s) = nextpid s"
proof (cases "parent (procs s ! j) = Some i")
  case True
  have "proc_wf (upd_proc j (\<lambda>q. q\<lparr>parent := initproc s\<rparr>) s)"
    using assms True by (intro reparent_step_wf) auto
  then show ?thesis
    using True assms proc_wfD(1) [OF assms(1)]
    by (simp add: reparent_step_def Let_def proc_wf_wakeup)
qed (simp add: reparent_step_def assms)

text \<open>
  What the loop does to slot \<open>q\<close>: a child of \<open>i\<close> becomes a child of \<open>init\<close>; a sleeper on \<open>init\<close>
  may have been woken; the rest stays.
\<close>

definition handed :: "nat \<Rightarrow> nat option \<Rightarrow> proc \<Rightarrow> proc \<Rightarrow> bool" where
  "handed i k p q \<longleftrightarrow>
     q = p\<lparr>pstate := pstate q, parent := parent q\<rparr> \<and>
     (parent q = parent p \<or> parent p = Some i \<and> parent q = k) \<and>
     (pstate q = pstate p \<or> pstate p = SLEEPING \<and> pstate q = RUNNABLE)"

lemma handed_refl [simp]: "handed i k p p"
  by (simp add: handed_def)

lemma handed_wake_one: "handed i k p q \<Longrightarrow> handed i k p (wake_one ch q)"
  by (cases p; cases q) (auto simp: handed_def wake_one_def)

lemma handed_parent: "handed i k p q \<Longrightarrow> parent q = Some i \<Longrightarrow> handed i k p (q\<lparr>parent := k\<rparr>)"
  by (cases p; cases q) (auto simp: handed_def)

lemma handed_fields:
  assumes "handed i k p q"
  shows "pid q = pid p" "xstate q = xstate p" "pcwd q = pcwd p" "ofile q = ofile p"
    "pchan q = pchan p" "prio q = prio p" "times_exec q = times_exec p" "pkilled q = pkilled p"
    "pstate q = UNUSED \<longleftrightarrow> pstate p = UNUSED" "pstate q = ZOMBIE \<longleftrightarrow> pstate p = ZOMBIE"
  using assms by (cases p; cases q; auto simp: handed_def)+

lemma reparent_step_handed:
  assumes "table_ok s" "initproc s = Some k" "l < NPROC" "j < NPROC"
    and "handed i (Some k) p (procs s ! l)"
  shows "handed i (Some k) p (procs (reparent_step i j s) ! l)"
  using assms
  by (auto simp: reparent_step_def Let_def procs_wakeup procs_upd_proc table_ok_def
      intro: handed_wake_one handed_parent)

lemma reparent_step_parent:
  assumes "table_ok s" "initproc s = Some k" "l < NPROC" "j < NPROC" "k \<noteq> i"
    and "l = j \<or> parent (procs s ! l) \<noteq> Some i"
  shows "parent (procs (reparent_step i j s) ! l) \<noteq> Some i"
  using assms
  by (auto simp: reparent_step_def Let_def procs_wakeup procs_upd_proc table_ok_def)

lemma reparent_inv:
  assumes "proc_wf s" "initproc s = Some k"
  shows "proc_wf (reparent i s) \<and> initproc (reparent i s) = Some k \<and>
    cur (reparent i s) = cur s \<and> env (reparent i s) = env s \<and>
    tframes (reparent i s) = tframes s \<and> nextpid (reparent i s) = nextpid s \<and>
    (\<forall>l < NPROC. handed i (Some k) (procs s ! l) (procs (reparent i s) ! l))"
  unfolding reparent_fold
  by (rule fold_inv) (use assms reparent_step_inv in \<open>auto intro!: reparent_step_handed dest: proc_wfD(1)\<close>)

lemma reparent_parent:
  assumes "proc_wf s" "initproc s = Some k" "k \<noteq> i" "l < NPROC"
  shows "parent (procs (reparent i s) ! l) \<noteq> Some i"
proof -
  have "n \<le> NPROC \<Longrightarrow> let t = fold (reparent_step i) [0..<n] s in proc_wf t \<and> initproc t = Some k \<and>
      (\<forall>l < n. parent (procs t ! l) \<noteq> Some i)" for n
  proof (induction n)
    case (Suc n)
    then have t: "proc_wf (fold (reparent_step i) [0..<n] s)" "initproc (fold (reparent_step i) [0..<n] s) = Some k"
      "\<forall>l < n. parent (procs (fold (reparent_step i) [0..<n] s) ! l) \<noteq> Some i"
      by (auto simp: Let_def)
    let ?t = "fold (reparent_step i) [0..<n] s"
    have "parent (procs (reparent_step i n ?t) ! l) \<noteq> Some i" if "l < Suc n" for l
      using t Suc.prems assms(3) that
      by (intro reparent_step_parent [OF proc_wfD(1) [OF t(1)] t(2)]) (auto simp: less_Suc_eq)
    then show ?case
      using Suc.prems reparent_step_inv [OF t(1,2), of n i] by (simp add: Let_def)
  qed (use assms in simp)
  from this [of NPROC] assms show ?thesis
    by (simp add: reparent_fold Let_def)
qed

section \<open>What exit and wait do\<close>

lemma wake_parent_inv:
  assumes "proc_wf s"
  shows "proc_wf (case q of Some k \<Rightarrow> wakeup (ChProc k) s | None \<Rightarrow> wakeup ChNull s)"
  using assms by (cases q) (simp_all add: proc_wf_wakeup)

lemma exit_slot_ok: "slot_ok n p \<Longrightarrow> pstate p \<noteq> UNUSED \<Longrightarrow> ofile p = replicate NOFILE None \<Longrightarrow>
    slot_ok n (p\<lparr>xstate := x, pstate := ZOMBIE\<rparr>)"
  by (auto simp: slot_ok_def)

text \<open>The table while process \<open>i\<close> exits: after its files are closed, after \<open>reparent\<close>, and at the end.\<close>

lemma exit_proc_steps:
  assumes wf: "proc_wf s" and run: "running i s" and init: "initproc s = Some k" "k \<noteq> i"
    and x: "exit_proc api status s = Some s'"
  obtains s1 s2 s3 where
    "s1 = upd_proc i (\<lambda>p. p\<lparr>ofile := replicate NOFILE None, pcwd := None\<rparr>) (s\<lparr>env := env s1\<rparr>)"
    "proc_wf s1" "initproc s1 = Some k" "cur s1 = Some i"
    "s2 = reparent i s1"
    "s3 = (case parent (procs s2 ! i) of Some k \<Rightarrow> wakeup (ChProc k) s2 | None \<Rightarrow> wakeup ChNull s2)"
    "s' = upd_proc i (\<lambda>p. p\<lparr>xstate := status, pstate := ZOMBIE\<rparr>) s3"
proof -
  have cur: "cur s = Some i" and iN: "i < NPROC" and st: "pstate (procs s ! i) = RUNNING"
    using run by (auto simp: running_def)
  obtain d where d: "pcwd (procs s ! i) = Some d" using x cur init by (auto simp: exit_proc_def)
  define e2 where "e2 = api_end_op api (api_iput api d (api_begin_op api
      (close_files api (ofile (procs s ! i)) (env s))))"
  define s1 where "s1 = upd_proc i (\<lambda>p. p\<lparr>ofile := replicate NOFILE None, pcwd := None\<rparr>) (s\<lparr>env := e2\<rparr>)"
  have wf1: "proc_wf s1"
    unfolding s1_def using proc_wfD(6) [OF wf iN] wf iN st
    by (intro proc_wf_upd_same) (auto simp: slot_ok_def)
  have eq: "s1 = upd_proc i (\<lambda>p. p\<lparr>ofile := replicate NOFILE None, pcwd := None\<rparr>) (s\<lparr>env := env s1\<rparr>)"
    by (simp add: s1_def)
  have s1: "initproc s1 = Some k" "cur s1 = Some i"
    using init cur by (simp_all add: s1_def)
  have "s' = upd_proc i (\<lambda>p. p\<lparr>xstate := status, pstate := ZOMBIE\<rparr>)
      (case parent (procs (reparent i s1) ! i) of
         Some k \<Rightarrow> wakeup (ChProc k) (reparent i s1) | None \<Rightarrow> wakeup ChNull (reparent i s1))"
    unfolding s1_def e2_def using x cur init d by (simp add: exit_proc_def Let_def)
  from that [OF eq wf1 s1 refl refl this] show ?thesis .
qed

lemma exit_parts:
  assumes wf: "proc_wf s" and run: "running i s" and init: "initproc s = Some k" "k \<noteq> i"
    and x: "exit_proc api status s = Some s'"
  shows "proc_wf s'" "cur s' = Some i" "nextpid s' = nextpid s" "initproc s' = Some k"
    "\<And>l. l < NPROC \<Longrightarrow> l \<noteq> i \<Longrightarrow> handed i (Some k) (procs s ! l) (procs s' ! l) \<and> parent (procs s' ! l) \<noteq> Some i"
    "\<And>m. \<lbrakk>parent (procs s ! i) = Some m; m < NPROC; m \<noteq> i; pstate (procs s ! m) = SLEEPING;
       pchan (procs s ! m) = ChProc m\<rbrakk> \<Longrightarrow> pstate (procs s' ! m) = RUNNABLE"
    "procs s' ! i = (procs s ! i)\<lparr>ofile := replicate NOFILE None, pcwd := None,
       parent := parent (procs s' ! i), xstate := status, pstate := ZOMBIE\<rparr>"
    "parent (procs s ! i) \<noteq> Some i \<Longrightarrow> parent (procs s' ! i) = parent (procs s ! i)"
proof -
  have iN: "i < NPROC" and st: "pstate (procs s ! i) = RUNNING"
    using run by (auto simp: running_def)
  obtain s1 s2 s3 where s1: "s1 = upd_proc i (\<lambda>p. p\<lparr>ofile := replicate NOFILE None, pcwd := None\<rparr>) (s\<lparr>env := env s1\<rparr>)"
    and wf1: "proc_wf s1" and i1: "initproc s1 = Some k" "cur s1 = Some i"
    and s2: "s2 = reparent i s1"
    and s3: "s3 = (case parent (procs s2 ! i) of Some k \<Rightarrow> wakeup (ChProc k) s2 | None \<Rightarrow> wakeup ChNull s2)"
    and s': "s' = upd_proc i (\<lambda>p. p\<lparr>xstate := status, pstate := ZOMBIE\<rparr>) s3"
    by (rule exit_proc_steps [OF wf run init x])
  have n1: "nextpid s1 = nextpid s" by (subst s1) simp
  have p1: "procs s1 ! l = (if l = i then (procs s ! l)\<lparr>ofile := replicate NOFILE None, pcwd := None\<rparr> else procs s ! l)"
    if "l < NPROC" for l
    using that proc_wfD(3) [OF wf] by (subst s1) (simp add: procs_upd_proc)
  note r = reparent_inv [OF wf1 i1(1), of i, folded s2]
  have wf2: "proc_wf s2" and c2: "cur s2 = Some i" and i2: "initproc s2 = Some k" and n2: "nextpid s2 = nextpid s"
    using r i1 n1 by auto
  have h2: "handed i (Some k) (procs s1 ! l) (procs s2 ! l)" if "l < NPROC" for l
    using r that by blast
  have par2: "parent (procs s2 ! l) \<noteq> Some i" if "l < NPROC" for l
    unfolding s2 by (rule reparent_parent [OF wf1 i1(1) init(2) that])
  obtain ch where ch: "s3 = wakeup ch s2" and ch_parent: "\<And>m. parent (procs s2 ! i) = Some m \<Longrightarrow> ch = ChProc m"
    using s3 by (cases "parent (procs s2 ! i)") auto
  have t2: "table_ok s2" by (rule proc_wfD(1) [OF wf2])
  have wf3: "proc_wf s3" unfolding ch by (rule proc_wf_wakeup [OF wf2])
  have p3: "procs s3 ! l = (if l = i then procs s2 ! l else wake_one ch (procs s2 ! l))" if "l < NPROC" for l
    using procs_wakeup [OF t2 that] c2 by (auto simp: ch)
  have len3: "length (procs s3) = NPROC" by (rule proc_wfD(3) [OF wf3])
  have st1: "pstate (procs s1 ! i) = RUNNING" using p1 [OF iN] st by simp
  have st2: "pstate (procs s2 ! i) = RUNNING"
    using h2 [OF iN] st1 by (auto simp: handed_def)
  have of2: "ofile (procs s2 ! i) = replicate NOFILE None"
    using handed_fields(4) [OF h2 [OF iN]] p1 [OF iN] by simp
  show "proc_wf s'"
    unfolding s' using proc_wfD(6) [OF wf3 iN] p3 [OF iN] st2 of2 iN
    by (intro proc_wf_upd_same wf3 exit_slot_ok) auto
  show "cur s' = Some i" "nextpid s' = nextpid s" "initproc s' = Some k"
    using c2 n2 i2 t2 by (simp_all add: s' ch)
  show "handed i (Some k) (procs s ! l) (procs s' ! l) \<and> parent (procs s' ! l) \<noteq> Some i"
    if "l < NPROC" "l \<noteq> i" for l
    using h2 [OF that(1)] par2 [OF that(1)] p1 [OF that(1)] p3 [OF that(1)] that len3
    by (auto simp: s' procs_upd_proc intro: handed_wake_one)
  show "pstate (procs s' ! m) = RUNNABLE"
    if "parent (procs s ! i) = Some m" "m < NPROC" "m \<noteq> i" "pstate (procs s ! m) = SLEEPING"
      "pchan (procs s ! m) = ChProc m" for m
  proof -
    have par: "parent (procs s2 ! i) = Some m"
      using h2 [OF iN] p1 [OF iN] that(1,3) by (auto simp: handed_def)
    have "pstate (procs s2 ! m) \<in> {SLEEPING, RUNNABLE}" "pchan (procs s2 ! m) = ChProc m"
      using h2 [OF that(2)] p1 [OF that(2)] that handed_fields(5) [OF h2 [OF that(2)]] by (auto simp: handed_def)
    then show ?thesis
      using p3 [OF that(2)] that len3 ch_parent [OF par] by (auto simp: s' procs_upd_proc wake_one_def)
  qed
  show "procs s' ! i = (procs s ! i)\<lparr>ofile := replicate NOFILE None, pcwd := None,
       parent := parent (procs s' ! i), xstate := status, pstate := ZOMBIE\<rparr>"
    using p3 [OF iN] h2 [OF iN] p1 [OF iN] iN len3
    by (cases "procs s ! i"; cases "procs s2 ! i") (auto simp: s' procs_upd_proc handed_def)
  show "parent (procs s' ! i) = parent (procs s ! i)" if "parent (procs s ! i) \<noteq> Some i"
    using p3 [OF iN] h2 [OF iN] p1 [OF iN] iN len3 that by (auto simp: s' procs_upd_proc handed_def)
qed

lemma first_proc_ex: "first_proc P ps \<noteq> None \<longleftrightarrow> (\<exists>i < NPROC. P (ps ! i))"
  by (simp add: first_proc_None del: not_None_eq)

lemma wait_round_no_zombie:
  assumes "cur s = Some i" "first_proc (\<lambda>p. parent p = Some i \<and> pstate p = ZOMBIE) (procs s) = None"
  shows "wait_round api addr s =
    (if (\<exists>l < NPROC. parent (procs s ! l) = Some i) \<and> pkilled (procs s ! i) = 0
     then do { s1 \<leftarrow> sleep_begin (ChProc i) s; Some (Wait_sleep, s1) }
     else Some (Wait_return (- 1), s))"
  using assms first_proc_ex [of "\<lambda>p. parent p = Some i" "procs s"]
  by (cases "first_proc (\<lambda>p. parent p = Some i) (procs s) = None")
    (auto simp: wait_round_def killed_def)

lemma wait_round_cases:
  assumes "wait_round api addr s = Some (w, s')" and "cur s = Some i" and wf: "proc_wf s"
  obtains (reaped) j e where "j < NPROC" "parent (procs s ! j) = Some i" "pstate (procs s ! j) = ZOMBIE"
      "\<forall>l < j. \<not> (parent (procs s ! l) = Some i \<and> pstate (procs s ! l) = ZOMBIE)"
      "w = Wait_return (pid (procs s ! j))" "s' = freeproc api j (s\<lparr>env := e\<rparr>)"
  | (fault) e where "w = Wait_return (- 1)" "s' = s\<lparr>env := e\<rparr>" "addr \<noteq> 0"
  | (none) "w = Wait_return (- 1)" "s' = s"
      "(\<forall>l < NPROC. parent (procs s ! l) \<noteq> Some i) \<or> pkilled (procs s ! i) \<noteq> 0"
  | (sleep) "w = Wait_sleep" "sleep_begin (ChProc i) s = Some s'"
      "\<exists>l < NPROC. parent (procs s ! l) = Some i" "pkilled (procs s ! i) = 0"
      "\<forall>l < NPROC. \<not> (parent (procs s ! l) = Some i \<and> pstate (procs s ! l) = ZOMBIE)"
proof (cases "first_proc (\<lambda>p. parent p = Some i \<and> pstate p = ZOMBIE) (procs s)")
  case None
  then have "\<forall>l < NPROC. \<not> (parent (procs s ! l) = Some i \<and> pstate (procs s ! l) = ZOMBIE)"
    by (simp add: first_proc_None)
  then show ?thesis
    using assms(1) wait_round_no_zombie [OF assms(2) None, of api addr] none sleep
    by (auto split: if_splits)
next
  case (Some j)
  note j = first_proc_Some [OF Some]
  show ?thesis
  proof (cases "addr = 0")
    case True
    then show ?thesis
      using assms(1,2) Some j reaped [of j "env s"] by (auto simp: wait_round_def Let_def)
  next
    case False
    obtain r e where r: "api_copyout api (pagetable (procs s ! i)) addr (int32_bytes (xstate (procs s ! j))) (env s) = (r, e)"
      by force
    then show ?thesis
      using assms(1,2) Some j False reaped [of j e] fault [of e]
      by (auto simp: wait_round_def Let_def split: if_splits)
  qed
qed

lemma proc_wf_wait_round:
  assumes wf: "proc_wf s" and run: "running i s" and w: "wait_round api addr s = Some (w, s')"
  shows "proc_wf s'"
proof -
  have cur: "cur s = Some i" using run by (simp add: running_def)
  from w cur wf show ?thesis
  proof (cases rule: wait_round_cases)
    case (reaped j e)
    then show ?thesis using wf by (simp add: proc_wf_freeproc)
  next
    case sleep
    then show ?thesis using proc_wf_sleep_begin [OF wf run] by blast
  qed (simp_all add: wf)
qed

section \<open>Properties of the process table\<close>

text \<open>
  C26: Every operation of the process table that the running process performs, \<open>fork\<close> and \<open>exit\<close>,
  \<open>wait\<close>, \<open>sbrk\<close>'s \<open>growproc\<close>, \<open>kill\<close>, \<open>setkilled\<close>, \<open>wakeup\<close>, and the halves of \<open>sleep\<close> and \<open>yield\<close>,
  whatever the allocations, copies and file operations it makes answer, keeps the table well formed:
  64 slots, priorities in \<open>0..2\<close>, live pids positive, distinct and below \<open>nextpid\<close>, unused slots
  without pid, parent and pages, no open file left in a slot that exited.
\<close>

theorem proc_table_wf:
  assumes "proc_wf s" "running i s" "initproc s = Some k" "k \<noteq> i"
  shows "(fork api s = Some (r, s') \<longrightarrow> proc_wf s') \<and>
    (exit_proc api st s = Some s' \<longrightarrow> proc_wf s') \<and>
    (wait_round api addr s = Some (w, s') \<longrightarrow> proc_wf s') \<and>
    (growproc api n s = Some (r, s') \<longrightarrow> proc_wf s') \<and>
    (sleep_begin ch s = Some s' \<longrightarrow> proc_wf s') \<and>
    (yield_begin s = Some s' \<longrightarrow> proc_wf s') \<and>
    proc_wf (snd (kill n s)) \<and> proc_wf (wakeup ch s) \<and> (j < NPROC \<longrightarrow> proc_wf (setkilled j s))"
  using assms proc_wf_fork [OF assms(1,2)] exit_parts(1) [OF assms]
    proc_wf_wait_round [OF assms(1,2)] proc_wf_growproc [OF assms(1)]
    proc_wf_sleep_begin [OF assms(1,2)] proc_wf_yield_begin [OF assms(1,2)]
    proc_wf_kill [OF assms(1)] proc_wf_wakeup [OF assms(1)] proc_wf_setkilled [OF assms(1)]
  by blast

text \<open>
  A \<open>fork\<close> that succeeds returns the next pid and fills the first unused slot with a runnable
  child of the caller at the best priority, which has the caller's size, current directory and open
  files and whose saved registers return 0; the other slots are untouched.
\<close>

theorem fork_child:
  assumes wf: "proc_wf s" and run: "running i s" and f: "fork api s = Some (r, s')" and "0 \<le> r"
  shows "\<exists>j. first_proc (\<lambda>p. pstate p = UNUSED) (procs s) = Some j \<and> r = nextpid s \<and>
    (let p = procs s ! i; q = procs s' ! j
     in pstate q = RUNNABLE \<and> pid q = r \<and> parent q = Some i \<and> prio q = 0 \<and> psz q = psz p \<and>
        pcwd q = pcwd p \<and> ofile q = ofile p \<and> pkilled q = pkilled (procs s ! j) \<and>
        times_exec q = times_exec (procs s ! j) \<and>
        tf_a0 (tframes s' (trapframe q)) = 0 \<and>
        tf_regs (tframes s' (trapframe q)) = tf_regs (tframes s (trapframe p))) \<and>
    (\<forall>l. l \<noteq> j \<longrightarrow> procs s' ! l = procs s ! l)"
proof -
  have cur: "cur s = Some i" using run by (simp add: running_def)
  obtain a s1 where a: "allocproc api s = Some (a, s1)" using f cur by (auto simp: fork_def)
  have "a \<noteq> None" using f cur a assms(4) by (cases a) (auto simp: fork_def)
  then obtain j where j': "a = Some j" by auto
  from allocproc_Some [OF a [unfolded j'] proc_wfD(1) [OF wf]] obtain tf pt e where
    j: "first_proc (\<lambda>p. pstate p = UNUSED) (procs s) = Some j"
    and s1: "s1 = (upd_proc j (\<lambda>p. p\<lparr>pid := nextpid s, pstate := USED, prio := 0, trapframe := tf,
       pagetable := pt, pcontext := \<lparr>ctx_ra = api_forkret api, ctx_sp = kstack p + PGSIZE,
       ctx_s = replicate 12 0\<rparr>\<rparr>) s)\<lparr>nextpid := nextpid s + 1, env := e\<rparr>"
    by auto
  have jN: "j < length (procs s)" "pstate (procs s ! j) = UNUSED" "j \<noteq> i"
    using first_proc_Some [OF j] proc_wfD(3) [OF wf] run by (auto simp: running_def)
  have of: "ofile (procs s ! j) = replicate NOFILE None" "length (ofile (procs s ! i)) = NOFILE"
    using proc_wfD(6) [OF wf, of j] proc_wfD(6) [OF wf, of i] jN run proc_wfD(3) [OF wf]
    by (auto simp: slot_ok_def running_def)
  have m: "merge_ofile (replicate NOFILE None) (ofile (procs s ! i)) = ofile (procs s ! i)"
    using of(2) by (intro nth_equalityI) (auto simp: merge_ofile_def split: option.split)
  obtain c e2 where c: "api_uvmcopy api (pagetable (procs s ! i)) pt (psz (procs s ! i)) e = (c, e2)"
    by force
  show ?thesis
    using f cur a j' c jN of m assms(4) j
    by (auto simp: fork_def Let_def s1 procs_upd_proc split: if_splits)
qed


text \<open>
  After \<open>wakeup\<close> no process but the caller is asleep on the channel; the sleepers there are
  runnable and every other process is as it was. A \<open>sleep\<close> on the channel that has begun is
  therefore ended by the next \<open>wakeup\<close>, whatever the order of the slots.
\<close>

theorem wakeup_all:
  assumes "table_ok s"
  shows "\<forall>l < NPROC. procs (wakeup ch s) ! l =
      (if cur s \<noteq> Some l \<and> pstate (procs s ! l) = SLEEPING \<and> pchan (procs s ! l) = ch
       then (procs s ! l)\<lparr>pstate := RUNNABLE\<rparr> else procs s ! l) \<and>
    (cur s \<noteq> Some l \<longrightarrow> \<not> (pstate (procs (wakeup ch s) ! l) = SLEEPING \<and> pchan (procs (wakeup ch s) ! l) = ch))"
  using procs_wakeup [OF assms] by (auto simp: wake_one_def)

text \<open>
  \<open>kill(0)\<close> succeeds when there is an unused slot, whose pid is 0, and marks that slot as killed;
  neither \<open>allocproc\<close> nor \<open>fork\<close> clears the mark, so the next child is born killed.
\<close>

theorem kill_zero:
  assumes wf: "proc_wf s" and run: "running i s"
    and j: "first_proc (\<lambda>p. pstate p = UNUSED) (procs s) = Some j"
    and f: "fork api (snd (kill 0 s)) = Some (r, s')" "0 \<le> r"
  shows "fst (kill 0 s) = 0 \<and> pstate (procs s' ! j) = RUNNABLE \<and> killed j s' = 1"
proof -
  have un: "j < NPROC" "pstate (procs s ! j) = UNUSED" "\<forall>l < j. pstate (procs s ! l) \<noteq> UNUSED"
    using first_proc_Some [OF j] by auto
  have pid0: "pid (procs s ! l) = 0 \<longleftrightarrow> pstate (procs s ! l) = UNUSED" if "l < NPROC" for l
    using proc_wfD(6) [OF wf that] by (auto simp: slot_ok_def split: if_splits)
  have fp: "first_proc (\<lambda>p. pid p = 0) (procs s) = Some j"
  proof -
    have "find (\<lambda>l. pid (procs s ! l) = 0) [0..<NPROC] = find (\<lambda>l. pstate (procs s ! l) = UNUSED) [0..<NPROC]"
      by (rule find_cong) (simp_all add: pid0)
    then show ?thesis using j by (simp add: first_proc_def)
  qed
  let ?s = "snd (kill 0 s)"
  have ks: "fst (kill 0 s) = 0" "?s = upd_proc j (\<lambda>p. p\<lparr>pkilled := 1, pstate := UNUSED\<rparr>) s"
    using fp un(2) proc_wfD(3) [OF wf] un(1) by (auto simp: kill_def upd_proc_def)
  have len: "length (procs s) = NPROC" by (rule proc_wfD(3) [OF wf])
  have "running i ?s"
    using run un len by (auto simp: ks(2) running_def procs_upd_proc)
  from fork_child [OF proc_wf_kill [OF wf] this f] obtain j' where
    j': "first_proc (\<lambda>p. pstate p = UNUSED) (procs ?s) = Some j'"
    "pstate (procs s' ! j') = RUNNABLE" "pkilled (procs s' ! j') = pkilled (procs ?s ! j')"
    by (auto simp: Let_def)
  have "j' = j"
  proof -
    have "find (\<lambda>l. pstate (procs ?s ! l) = UNUSED) [0..<NPROC] = find (\<lambda>l. pstate (procs s ! l) = UNUSED) [0..<NPROC]"
      by (rule find_cong) (use un len in \<open>auto simp: ks(2) procs_upd_proc\<close>)
    then show ?thesis using j j'(1) by (simp add: first_proc_def)
  qed
  then show ?thesis
    using j' ks un len by (simp add: killed_def)
qed

section \<open>A small system\<close>

text \<open>\<open>init\<close> and its child sleep in \<open>wait\<close>; the grandchild, in slot 2, runs.\<close>

definition demo_api :: "unit kapi" where
  "demo_api = \<lparr>api_trampoline = 0, api_forkret = 0, api_kalloc = (\<lambda>e. (4096, e)), api_kfree = (\<lambda>_ e. e),
    api_uvmcreate = (\<lambda>e. (8192, e)), api_mappages = (\<lambda>_ _ _ _ _ e. (0, e)),
    api_uvmunmap = (\<lambda>_ _ _ _ e. e), api_uvmfree = (\<lambda>_ _ e. e), api_uvmcopy = (\<lambda>_ _ _ e. (0, e)),
    api_uvmalloc = (\<lambda>_ _ n _ e. (n, e)), api_uvmdealloc = (\<lambda>_ _ n e. (n, e)),
    api_uvmfirst = (\<lambda>_ _ e. e), api_kvmmap = (\<lambda>_ _ _ _ _ e. e), api_copyout = (\<lambda>_ _ _ e. (0, e)),
    api_copyin = (\<lambda>_ _ _ _. None), api_kwrite = (\<lambda>_ _ e. e), api_kread = (\<lambda>_ _ _. []),
    api_filedup = (\<lambda>_ e. e), api_fileclose = (\<lambda>_ e. e), api_idup = (\<lambda>_ e. e), api_iput = (\<lambda>_ e. e),
    api_begin_op = (\<lambda>e. e), api_end_op = (\<lambda>e. e), api_namei = (\<lambda>_ e. (None, e))\<rparr>"

definition demo_proc :: "int \<Rightarrow> procstate \<Rightarrow> chan \<Rightarrow> nat option \<Rightarrow> proc" where
  "demo_proc n st ch par = proc_zero\<lparr>pid := n, pstate := st, pchan := ch, parent := par, pcwd := Some 0\<rparr>"

definition demo :: "unit kstate" where
  "demo = \<lparr>procs = [demo_proc 1 SLEEPING (ChProc 0) None, demo_proc 2 SLEEPING (ChProc 1) (Some 0),
      demo_proc 3 RUNNING ChNull (Some 1)] @ replicate 61 proc_zero,
    nextpid = 4, initproc = Some 0, cur = Some 2,
    tframes = (\<lambda>_. \<lparr>epc = 0, tf_sp = 0, tf_a0 = 0, tf_regs = []\<rparr>), env = ()\<rparr>"

lemma demo_nth:
  "procs demo ! 0 = demo_proc 1 SLEEPING (ChProc 0) None"
  "procs demo ! 1 = demo_proc 2 SLEEPING (ChProc 1) (Some 0)"
  "procs demo ! 2 = demo_proc 3 RUNNING ChNull (Some 1)"
  "3 \<le> i \<Longrightarrow> i < NPROC \<Longrightarrow> procs demo ! i = proc_zero"
  by (simp_all add: demo_def nth_append NPROC_def)

lemma less_NPROC_cases: "i < NPROC \<Longrightarrow> i = 0 \<or> i = 1 \<or> i = 2 \<or> 3 \<le> i"
  by auto

lemma demo_slots: "i < NPROC \<Longrightarrow> slot_ok 4 (procs demo ! i)"
  using less_NPROC_cases [of i]
  by (auto simp: demo_nth demo_nth(2) [simplified] slot_ok_def demo_proc_def proc_zero_def NPRIO_def NPROC_def)

lemma demo_wf: "proc_wf demo" "running 2 demo" "initproc demo = Some 0"
proof -
  have "pid (procs demo ! i) \<noteq> pid (procs demo ! j)"
    if "i < NPROC" "j < NPROC" "i \<noteq> j" "pstate (procs demo ! i) \<noteq> UNUSED" "pstate (procs demo ! j) \<noteq> UNUSED" for i j
    using less_NPROC_cases [OF that(1)] less_NPROC_cases [OF that(2)] that
    by (auto simp: demo_nth demo_nth(2) [simplified] demo_proc_def proc_zero_def)
  moreover have "length (procs demo) = NPROC" "nextpid demo = 4" "initproc demo = Some 0" "cur demo = Some 2"
    by (simp_all add: demo_def NPROC_def)
  ultimately show "proc_wf demo" "running 2 demo" "initproc demo = Some 0"
    using demo_slots by (auto simp: proc_wf_def table_ok_def running_def NPROC_def demo_nth demo_proc_def)
qed

lemma demo_first_unused: "first_proc (\<lambda>p. pstate p = UNUSED) (procs demo) = Some 3"
proof (rule first_procI)
  fix j :: nat assume "j < 3"
  then have "j = 0 \<or> j = 1 \<or> j = 2" by auto
  then show "\<not> pstate (procs demo ! j) = UNUSED"
    by (auto simp: demo_nth demo_nth(2) [simplified] demo_proc_def)
qed (simp_all add: demo_nth NPROC_def proc_zero_def)

theorem proc_table_wf_witness: "proc_wf (wakeup (ChProc 1) demo)"
  using proc_table_wf [OF demo_wf, of demo_api] by simp

lemma demo_fork: "\<exists>s'. fork demo_api demo = Some (4, s')"
proof -
  have "cur demo = Some 2" "nextpid demo = 4" "pcwd (procs demo ! 2) = Some 0"
    by (simp_all add: demo_def demo_proc_def)
  then show ?thesis
    using demo_first_unused
    by (simp add: fork_def allocproc_def allocpid_def Let_def demo_api_def proc_pagetable_def
        procs_upd_proc demo_def[THEN arg_cong, of "\<lambda>s. length (procs s)"])
qed

theorem fork_child_witness:
  "\<exists>s'. fork demo_api demo = Some (4, s') \<and> parent (procs s' ! 3) = Some 2 \<and> pstate (procs s' ! 3) = RUNNABLE"
proof -
  obtain s' where f: "fork demo_api demo = Some (4, s')" using demo_fork by auto
  show ?thesis
    using fork_child [OF demo_wf(1,2) f] f demo_first_unused by (auto simp: Let_def)
qed

lemma demo_exit: "\<exists>s'. exit_proc demo_api 7 demo = Some s'"
  by (simp add: exit_proc_def demo_def demo_proc_def Let_def)


theorem wakeup_all_witness: "pstate (procs (wakeup (ChProc 1) demo) ! 1) = RUNNABLE"
proof -
  have "table_ok demo" "(1::nat) < NPROC" "cur demo = Some 2"
    by (simp_all add: table_ok_def demo_def NPROC_def)
  then show ?thesis
    using wakeup_all [of demo "ChProc 1"] by (simp add: demo_nth demo_nth(2) [simplified] demo_proc_def)
qed

lemma demo_kill_fork: "\<exists>s'. fork demo_api (snd (kill 0 demo)) = Some (4, s')"
proof -
  have fp: "first_proc (\<lambda>p. pid p = 0) (procs demo) = Some 3"
  proof (rule first_procI)
    fix j :: nat assume "j < 3"
    then have "j = 0 \<or> j = 1 \<or> j = 2" by auto
    then show "\<not> pid (procs demo ! j) = 0"
      by (auto simp: demo_nth demo_nth(2) [simplified] demo_proc_def)
  qed (simp_all add: demo_nth NPROC_def proc_zero_def)
  let ?s = "snd (kill 0 demo)"
  have s: "?s = upd_proc 3 (\<lambda>p. p\<lparr>pkilled := 1, pstate := if pstate p = SLEEPING then RUNNABLE else pstate p\<rparr>) demo"
    by (simp add: kill_def fp)
  have d: "cur demo = Some 2" "nextpid demo = 4" "pcwd (procs demo ! 2) = Some 0" "length (procs demo) = 64"
    by (simp_all add: demo_def demo_proc_def)
  have fu: "first_proc (\<lambda>p. pstate p = UNUSED) (procs ?s) = Some 3"
  proof (rule first_procI)
    fix j :: nat assume "j < 3"
    then have "j = 0 \<or> j = 1 \<or> j = 2" by auto
    then show "\<not> pstate (procs ?s ! j) = UNUSED"
      by (auto simp: s demo_nth demo_nth(2) [simplified] demo_proc_def)
  qed (simp_all add: s d procs_upd_proc demo_nth NPROC_def proc_zero_def)
  have "cur ?s = Some 2" "nextpid ?s = 4" "pcwd (procs ?s ! 2) = Some 0" "length (procs ?s) = 64"
    by (simp_all add: s d)
  then show ?thesis
    using fu by (simp add: fork_def allocproc_def allocpid_def Let_def demo_api_def proc_pagetable_def
        procs_upd_proc)
qed

theorem kill_zero_witness:
  "\<exists>s'. fork demo_api (snd (kill 0 demo)) = Some (4, s') \<and> killed 3 s' = 1"
proof -
  obtain s' where f: "fork demo_api (snd (kill 0 demo)) = Some (4, s')" using demo_kill_fork by auto
  show ?thesis
    using kill_zero [OF demo_wf(1,2) demo_first_unused f] f by auto
qed

end
