(* ===== verification/X_Sched.thy ===== *)
theory X_Sched
  imports X_Proc_Wf
begin

text \<open>
  The scheduler of \<open>Lab3\<close> (\<open>scheduler\<close> in \<open>kernel/proc.c\<close>): a multilevel feedback queue without
  queues. On one CPU the scheduler and the process it runs alternate: \<open>sched_step\<close> is one iteration
  of the \<open>for\<close> loop up to \<open>swtch\<close>, \<open>sched_return\<close> the rest of that iteration, and \<open>sys_step\<close> adds
  what the running process and the devices do in between. \<open>smp_step\<close> shows several CPUs in the
  scheduler, with the process locks.
\<close>

section \<open>The choice\<close>

text \<open>The inner loop: \<open>mx\<close> is \<open>maxproc\<close>, \<open>p1\<close> the candidate.\<close>

definition pick_step :: "proc list \<Rightarrow> nat \<Rightarrow> nat \<Rightarrow> nat" where
  "pick_step ps p1 mx =
    (if pstate (ps ! p1) = RUNNABLE then
       (if prio (ps ! mx) > prio (ps ! p1) then p1
        else if prio (ps ! mx) = prio (ps ! p1) \<and> times_exec (ps ! mx) > times_exec (ps ! p1) then p1
        else mx)
     else mx)"

definition pick :: "proc list \<Rightarrow> nat \<Rightarrow> nat" where
  "pick ps p = fold (pick_step ps) [0..<NPROC] p"

section \<open>One CPU\<close>

text \<open>
  The locals of \<open>scheduler\<close>: the loop variable \<open>p\<close>, \<open>maxproc\<close> and \<open>cant_proc\<close>; \<open>c->proc\<close> is
  \<open>cur\<close> of the kernel state.
\<close>

record 'e sched =
  ks :: "'e kstate"
  loop_p :: nat
  maxproc :: nat
  cant_proc :: int

definition prio_boost :: int where "prio_boost = 300"

definition scheduler_init :: "'e kstate \<Rightarrow> 'e sched" where
  "scheduler_init k = \<lparr>ks = k\<lparr>cur := None\<rparr>, loop_p = 0, maxproc = 0, cant_proc = prio_boost\<rparr>"

text \<open>The end of an iteration, after the lock is released: the boost, which ends the scan, and \<open>p++\<close>.\<close>

definition clear_prio :: "proc list \<Rightarrow> proc list" where
  "clear_prio ps = map (\<lambda>p. p\<lparr>prio := 0\<rparr>) ps"

definition sched_tail :: "'e sched \<Rightarrow> 'e sched" where
  "sched_tail s =
    (if times_exec (procs (ks s) ! maxproc s) \<ge> cant_proc s
     then s\<lparr>cant_proc := cant_proc s + prio_boost, ks := (ks s)\<lparr>procs := clear_prio (procs (ks s))\<rparr>,
            loop_p := NPROC + 1\<rparr>
     else s\<lparr>loop_p := loop_p s + 1\<rparr>)"

definition sched_step :: "'e sched \<Rightarrow> 'e sched" where
  "sched_step s =
    (if loop_p s \<ge> NPROC then s\<lparr>loop_p := 0\<rparr>
     else if pstate (procs (ks s) ! loop_p s) = RUNNABLE
     then let m = pick (procs (ks s)) (loop_p s)
       in s\<lparr>maxproc := m, loop_p := m,
            ks := (upd_proc m (\<lambda>p. p\<lparr>pstate := RUNNING\<rparr>) (ks s))\<lparr>cur := Some m\<rparr>\<rparr>
     else sched_tail s)"

text \<open>After \<open>swtch\<close> comes back: \<open>loop_p\<close> is the process that ran.\<close>

definition sched_return :: "'e sched \<Rightarrow> 'e sched" where
  "sched_return s = sched_tail (s\<lparr>ks :=
     (upd_proc (loop_p s) (\<lambda>p. p\<lparr>times_exec := times_exec p + 1\<rparr>) (ks s))\<lparr>cur := None\<rparr>\<rparr>)"

text \<open>
  The machine on one CPU. The running process gives the CPU up in \<open>yield\<close>, \<open>sleep\<close>, \<open>exit\<close> and a
  \<open>wait\<close> that sleeps, and keeps it in the other calls; a device interrupt may wake processes at any time.
\<close>

inductive sys_step :: "'e kapi \<Rightarrow> 'e sched \<Rightarrow> 'e sched \<Rightarrow> bool" for api :: "'e kapi" where
  Sched: "cur (ks s) = None \<Longrightarrow> sys_step api s (sched_step s)"
| Yield: "yield_begin (ks s) = Some k \<Longrightarrow> sys_step api s (sched_return (s\<lparr>ks := k\<rparr>))"
| Sleep: "sleep_begin ch (ks s) = Some k \<Longrightarrow> sys_step api s (sched_return (s\<lparr>ks := k\<rparr>))"
| Exit: "exit_proc api st (ks s) = Some k \<Longrightarrow> sys_step api s (sched_return (s\<lparr>ks := k\<rparr>))"
| Resume: "sleep_end (ks s) = Some k \<Longrightarrow> sys_step api s (s\<lparr>ks := k\<rparr>)"
| Wait_block: "wait_round api addr (ks s) = Some (Wait_sleep, k) \<Longrightarrow> sys_step api s (sched_return (s\<lparr>ks := k\<rparr>))"
| Wait_done: "wait_round api addr (ks s) = Some (Wait_return r, k) \<Longrightarrow> sys_step api s (s\<lparr>ks := k\<rparr>)"
| Fork: "fork api (ks s) = Some (r, k) \<Longrightarrow> sys_step api s (s\<lparr>ks := k\<rparr>)"
| Growproc: "growproc api n (ks s) = Some (r, k) \<Longrightarrow> sys_step api s (s\<lparr>ks := k\<rparr>)"
| Kill: "cur (ks s) = Some i \<Longrightarrow> kill n (ks s) = (r, k) \<Longrightarrow> sys_step api s (s\<lparr>ks := k\<rparr>)"
| Wakeup: "sys_step api s (s\<lparr>ks := wakeup ch (ks s)\<rparr>)"

inductive_cases sys_stepE: "sys_step api s t"

inductive reach :: "'e kapi \<Rightarrow> 'e sched \<Rightarrow> 'e sched \<Rightarrow> bool" for api :: "'e kapi" and s0 :: "'e sched" where
  Start: "reach api s0 s0"
| Next: "reach api s0 s \<Longrightarrow> sys_step api s t \<Longrightarrow> reach api s0 t"

text \<open>A CPU whose processes always use up their quantum: every dispatched process yields.\<close>

definition quantum_step :: "'e sched \<Rightarrow> 'e sched" where
  "quantum_step s =
    (case yield_begin (ks s) of
       None \<Rightarrow> sched_step s
     | Some k \<Rightarrow> sched_return (s\<lparr>ks := k\<rparr>))"

section \<open>Several CPUs\<close>

text \<open>
  Where a CPU is: about to take the lock of slot \<open>p\<close> in the scan; with \<open>maxproc\<close> chosen and no lock
  held, between \<open>release(&p->lock)\<close> and the second \<open>acquire\<close>; switched to a process that still
  holds its lock; running a process that has released it (in \<open>forkret\<close>, or after \<open>sched\<close> in \<open>yield\<close>
  and \<open>sleep\<close>).
\<close>

datatype pc = Scan nat | Chosen nat | Switched nat | Running nat

record smp =
  sprocs :: "proc list"
  plock :: "nat \<Rightarrow> nat option"
  pcs :: "nat \<Rightarrow> pc"

inductive smp_step :: "smp \<Rightarrow> smp \<Rightarrow> bool" where
  Skip: "\<lbrakk>pcs s c = Scan p; p < NPROC; plock s p = None; pstate (sprocs s ! p) \<noteq> RUNNABLE\<rbrakk>
    \<Longrightarrow> smp_step s (s\<lparr>pcs := (pcs s)(c := Scan ((p + 1) mod NPROC))\<rparr>)"
| Choose: "\<lbrakk>pcs s c = Scan p; p < NPROC; plock s p = None; pstate (sprocs s ! p) = RUNNABLE\<rbrakk>
    \<Longrightarrow> smp_step s (s\<lparr>pcs := (pcs s)(c := Chosen (pick (sprocs s) p))\<rparr>)"
| Dispatch: "\<lbrakk>pcs s c = Chosen m; plock s m = None\<rbrakk>
    \<Longrightarrow> smp_step s (s\<lparr>plock := (plock s)(m := Some c),
          sprocs := (sprocs s)[m := (sprocs s ! m)\<lparr>pstate := RUNNING\<rparr>], pcs := (pcs s)(c := Switched m)\<rparr>)"
| Unlock: "\<lbrakk>pcs s c = Switched m; plock s m = Some c\<rbrakk>
    \<Longrightarrow> smp_step s (s\<lparr>plock := (plock s)(m := None), pcs := (pcs s)(c := Running m)\<rparr>)"

inductive_cases smp_stepE: "smp_step s t"

section \<open>The choice is minimal\<close>

definition key_le :: "proc \<Rightarrow> proc \<Rightarrow> bool" where
  "key_le p q \<longleftrightarrow> prio p < prio q \<or> prio p = prio q \<and> times_exec p \<le> times_exec q"

lemma key_le_refl [simp]: "key_le p p" by (simp add: key_le_def)

lemma key_le_trans: "key_le p q \<Longrightarrow> key_le q r \<Longrightarrow> key_le p r"
  by (auto simp: key_le_def)

lemma pick_prefix:
  assumes "pstate (ps ! p) = RUNNABLE" "p < NPROC" "n \<le> NPROC"
  shows "let m = fold (pick_step ps) [0..<n] p in m < NPROC \<and> pstate (ps ! m) = RUNNABLE \<and>
    key_le (ps ! m) (ps ! p) \<and> (\<forall>q < n. pstate (ps ! q) = RUNNABLE \<longrightarrow> key_le (ps ! m) (ps ! q))"
  using assms(3)
proof (induction n)
  case (Suc n)
  define m where "m = fold (pick_step ps) [0..<n] p"
  have m: "m < NPROC" "pstate (ps ! m) = RUNNABLE" "key_le (ps ! m) (ps ! p)"
    "\<And>q. q < n \<Longrightarrow> pstate (ps ! q) = RUNNABLE \<Longrightarrow> key_le (ps ! m) (ps ! q)"
    using Suc by (auto simp: Let_def m_def)
  let ?m = "pick_step ps n m"
  have le: "key_le (ps ! ?m) (ps ! m)" by (auto simp: pick_step_def key_le_def)
  have "pstate (ps ! n) = RUNNABLE \<Longrightarrow> key_le (ps ! ?m) (ps ! n)" by (auto simp: pick_step_def key_le_def)
  moreover have "?m < NPROC" "pstate (ps ! ?m) = RUNNABLE" using m Suc.prems by (auto simp: pick_step_def)
  ultimately show ?case
    using m(3,4) key_le_trans [OF le] by (auto simp: Let_def less_Suc_eq m_def [symmetric])
qed (use assms in simp)

text \<open>
  C24: Started at a runnable process, the inner loop of the scheduler chooses a runnable process of
  the best priority among all runnable ones and, among those of that priority, one that has been
  run least often.
\<close>

theorem pick_minimal:
  assumes "p < NPROC" "pstate (ps ! p) = RUNNABLE"
  shows "pick ps p < NPROC \<and> pstate (ps ! pick ps p) = RUNNABLE \<and>
    (\<forall>q < NPROC. pstate (ps ! q) = RUNNABLE \<longrightarrow> prio (ps ! pick ps p) < prio (ps ! q) \<or>
       prio (ps ! pick ps p) = prio (ps ! q) \<and> times_exec (ps ! pick ps p) \<le> times_exec (ps ! q))"
  using pick_prefix [OF assms(2,1), of NPROC] by (simp add: pick_def Let_def key_le_def)

lemma pick_ok:
  assumes "p < NPROC" "pstate (ps ! p) = RUNNABLE"
  shows "pick ps p < NPROC" "pstate (ps ! pick ps p) = RUNNABLE"
    "\<And>q. q < NPROC \<Longrightarrow> pstate (ps ! q) = RUNNABLE \<Longrightarrow> key_le (ps ! pick ps p) (ps ! q)"
  using pick_prefix [OF assms(2,1), of NPROC] by (simp_all add: pick_def Let_def)

section \<open>One process runs\<close>

definition sys_ok :: "'e sched \<Rightarrow> bool" where
  "sys_ok s \<longleftrightarrow> proc_wf (ks s) \<and> initproc (ks s) \<noteq> None \<and> maxproc s < NPROC \<and>
     (\<forall>i < NPROC. pstate (procs (ks s) ! i) = RUNNING \<longleftrightarrow> cur (ks s) = Some i) \<and>
     (\<forall>i. cur (ks s) = Some i \<longrightarrow> loop_p s = i)"

lemma proc_wf_clear_prio:
  assumes "proc_wf k"
  shows "proc_wf (k\<lparr>procs := clear_prio (procs k)\<rparr>)"
  using assms by (auto simp: proc_wf_def table_ok_def clear_prio_def slot_ok_def NPRIO_def)

lemma proc_wf_cur_None: "proc_wf k \<Longrightarrow> proc_wf (k\<lparr>cur := None\<rparr>)"
  by (simp add: proc_wf_def table_ok_def)

lemma proc_wf_cur_Some: "proc_wf k \<Longrightarrow> i < NPROC \<Longrightarrow> proc_wf (k\<lparr>cur := Some i\<rparr>)"
  by (simp add: proc_wf_def table_ok_def)

text \<open>The kernel state while nobody runs.\<close>

definition idle_ok :: "'e kstate \<Rightarrow> bool" where
  "idle_ok k \<longleftrightarrow> proc_wf k \<and> initproc k \<noteq> None \<and> (\<forall>i < NPROC. pstate (procs k ! i) \<noteq> RUNNING)"

lemma sched_tail_ok:
  assumes "idle_ok (ks s)" "cur (ks s) = None" "maxproc s < NPROC"
  shows "sys_ok (sched_tail s)"
  using assms proc_wf_clear_prio [of "ks s"]
  by (auto simp: sched_tail_def sys_ok_def idle_ok_def proc_wfD(3) clear_prio_def)

lemma sched_return_ok:
  assumes "idle_ok k" "loop_p s < NPROC" "maxproc s < NPROC"
  shows "sys_ok (sched_return (s\<lparr>ks := k\<rparr>))"
proof -
  have wf: "proc_wf k" using assms by (simp add: idle_ok_def)
  have "proc_wf (upd_proc (loop_p s) (\<lambda>p. p\<lparr>times_exec := times_exec p + 1\<rparr>) k)"
    using proc_wfD(6) [OF wf assms(2)] by (intro proc_wf_upd_same wf assms(2)) (auto simp: slot_ok_def)
  then show ?thesis
    unfolding sched_return_def using assms proc_wfD(3) [OF wf]
    by (intro sched_tail_ok) (auto simp: idle_ok_def procs_upd_proc proc_wf_cur_None)
qed

lemma sched_step_ok:
  assumes ok: "sys_ok s" and idle: "cur (ks s) = None"
  shows "sys_ok (sched_step s)"
proof -
  have wf: "proc_wf (ks s)" and nr: "\<forall>i < NPROC. pstate (procs (ks s) ! i) \<noteq> RUNNING"
    using ok idle by (auto simp: sys_ok_def)
  consider "loop_p s \<ge> NPROC" | "loop_p s < NPROC" "pstate (procs (ks s) ! loop_p s) = RUNNABLE"
    | "loop_p s < NPROC" "pstate (procs (ks s) ! loop_p s) \<noteq> RUNNABLE" by fastforce
  then show ?thesis
  proof cases
    case 1 then show ?thesis using ok idle by (simp add: sched_step_def sys_ok_def)
  next
    case 2
    note m = pick_ok [OF 2]
    let ?m = "pick (procs (ks s)) (loop_p s)"
    have "proc_wf (upd_proc ?m (\<lambda>p. p\<lparr>pstate := RUNNING\<rparr>) (ks s))"
      using proc_wfD(6) [OF wf m(1)] m by (intro proc_wf_upd_same wf m(1) slot_ok_restate) auto
    then show ?thesis
      using 2 ok m(1) nr proc_wfD(3) [OF wf]
      by (auto simp: sched_step_def Let_def sys_ok_def procs_upd_proc proc_wf_cur_Some)
  next
    case 3
    then have "sched_step s = sched_tail s" by (simp add: sched_step_def)
    moreover have "sys_ok (sched_tail s)"
      using ok idle nr by (intro sched_tail_ok) (auto simp: idle_ok_def sys_ok_def)
    ultimately show ?thesis by simp
  qed
qed

text \<open>A call that keeps the CPU keeps the invariant when it keeps who is running.\<close>

lemma keep_ok:
  assumes "sys_ok s" "proc_wf k" "cur k = cur (ks s)" "initproc k = initproc (ks s)"
    "\<And>l. l < NPROC \<Longrightarrow> pstate (procs k ! l) = RUNNING \<longleftrightarrow> pstate (procs (ks s) ! l) = RUNNING"
  shows "sys_ok (s\<lparr>ks := k\<rparr>)"
  using assms by (auto simp: sys_ok_def)

lemma sys_ok_running:
  assumes "sys_ok s" "cur (ks s) = Some i"
  shows "proc_wf (ks s)" "running i (ks s)" "loop_p s = i" "i < NPROC" "maxproc s < NPROC"
    "\<And>l. l < NPROC \<Longrightarrow> l \<noteq> i \<Longrightarrow> pstate (procs (ks s) ! l) \<noteq> RUNNING" "length (procs (ks s)) = NPROC"
  using assms proc_wfD [of "ks s"] by (auto simp: sys_ok_def running_def)

text \<open>A call that gives the CPU up changes the caller's state and wakes others at most.\<close>

lemma give_up_ok:
  assumes "sys_ok s" "cur (ks s) = Some i" "proc_wf k" "initproc k = initproc (ks s)"
    "pstate (procs k ! i) \<noteq> RUNNING"
    "\<And>l. l < NPROC \<Longrightarrow> l \<noteq> i \<Longrightarrow> pstate (procs k ! l) = RUNNING \<Longrightarrow> pstate (procs (ks s) ! l) = RUNNING"
  shows "sys_ok (sched_return (s\<lparr>ks := k\<rparr>))"
proof (rule sched_return_ok)
  note r = sys_ok_running [OF assms(1,2)]
  have "pstate (procs k ! l) \<noteq> RUNNING" if "l < NPROC" for l
    using assms(5) assms(6) [of l] r(6) [OF that] that by (cases "l = i") auto
  then show "idle_ok k"
    using assms(1,3,4) by (auto simp: idle_ok_def sys_ok_def)
qed (use sys_ok_running [OF assms(1,2)] in auto)

lemma fork_frame:
  assumes wf: "proc_wf k" and run: "running i k" and f: "fork api k = Some (r, k')"
  shows "cur k' = cur k" "initproc k' = initproc k"
    "\<And>l. l < NPROC \<Longrightarrow> pstate (procs k' ! l) = RUNNING \<longleftrightarrow> pstate (procs k ! l) = RUNNING"
proof -
  have cur: "cur k = Some i" using run by (simp add: running_def)
  have len: "length (procs k) = NPROC" by (rule proc_wfD(3) [OF wf])
  obtain a k1 where a: "allocproc api k = Some (a, k1)" using f cur by (auto simp: fork_def)
  have "cur k' = cur k \<and> initproc k' = initproc k \<and>
    (\<forall>l < NPROC. pstate (procs k' ! l) = RUNNING \<longleftrightarrow> pstate (procs k ! l) = RUNNING)"
  proof (cases a)
    case None
    then have "k' = k1" using f cur a by (simp add: fork_def)
    with allocproc_None [OF a [unfolded None] proc_wfD(1) [OF wf]] show ?thesis
      by (auto simp: procs_upd_proc len freed_def dest!: first_proc_Some split: if_splits)
  next
    case (Some j)
    from allocproc_Some [OF a [unfolded Some] proc_wfD(1) [OF wf]] obtain tf pt e where
      j: "first_proc (\<lambda>p. pstate p = UNUSED) (procs k) = Some j"
      and k1: "k1 = (upd_proc j (\<lambda>p. p\<lparr>pid := nextpid k, pstate := USED, prio := 0, trapframe := tf,
         pagetable := pt, pcontext := \<lparr>ctx_ra = api_forkret api, ctx_sp = kstack p + PGSIZE,
         ctx_s = replicate 12 0\<rparr>\<rparr>) k)\<lparr>nextpid := nextpid k + 1, env := e\<rparr>"
      by auto
    obtain e' where e': "\<And>s. freeproc api j s = (upd_proc j freed s)\<lparr>env := e' s\<rparr>"
      using freeproc_eq by metis
    have "pstate (procs k ! j) = UNUSED" "j < NPROC" using first_proc_Some [OF j] by auto
    then show ?thesis
      using f cur a Some len
      by (auto simp: fork_def Let_def e' k1 procs_upd_proc freed_def split: if_splits prod.splits)
  qed
  then show "cur k' = cur k" "initproc k' = initproc k"
    "\<And>l. l < NPROC \<Longrightarrow> pstate (procs k' ! l) = RUNNING \<longleftrightarrow> pstate (procs k ! l) = RUNNING" by auto
qed

lemma kill_frame:
  assumes "length (procs k) = NPROC"
  shows "cur (snd (kill n k)) = cur k" "initproc (snd (kill n k)) = initproc k"
    "l < NPROC \<Longrightarrow> pstate (procs (snd (kill n k)) ! l) = RUNNING \<longleftrightarrow> pstate (procs k ! l) = RUNNING"
  using assms by (auto simp: kill_def procs_upd_proc split: option.split)

lemma growproc_frame:
  assumes "growproc api n k = Some (r, k')" "length (procs k) = NPROC"
  shows "cur k' = cur k" "initproc k' = initproc k"
    "\<And>l. l < NPROC \<Longrightarrow> pstate (procs k' ! l) = RUNNING \<longleftrightarrow> pstate (procs k ! l) = RUNNING"
  using assms by (auto simp: growproc_def Let_def procs_upd_proc split: if_splits prod.splits)

lemma sys_step_ok:
  assumes step: "sys_step api s t" and ok: "sys_ok s"
  shows "sys_ok t"
  using step
proof cases
  case Sched then show ?thesis using sched_step_ok [OF ok] by simp
next
  case (Yield k)
  then obtain i where i: "cur (ks s) = Some i" by (auto simp: yield_begin_def)
  note r = sys_ok_running [OF ok i]
  show ?thesis unfolding Yield(1)
    by (rule give_up_ok [OF ok i])
      (use Yield(2) i r proc_wf_yield_begin [OF r(1,2) Yield(2)] in \<open>auto simp: yield_begin_def procs_upd_proc split: if_splits\<close>)
next
  case (Sleep ch k)
  then obtain i where i: "cur (ks s) = Some i" by (auto simp: sleep_begin_def)
  note r = sys_ok_running [OF ok i]
  show ?thesis unfolding Sleep(1)
    by (rule give_up_ok [OF ok i])
      (use Sleep(2) i r proc_wf_sleep_begin [OF r(1,2) Sleep(2)] in \<open>auto simp: sleep_begin_def procs_upd_proc split: if_splits\<close>)
next
  case (Exit st k)
  then obtain i where i: "cur (ks s) = Some i" by (auto simp: exit_proc_def)
  note r = sys_ok_running [OF ok i]
  obtain m where m: "initproc (ks s) = Some m" using ok by (auto simp: sys_ok_def)
  then have mi: "m \<noteq> i" using Exit(2) i by (auto simp: exit_proc_def)
  note parts = exit_parts [OF r(1,2) m mi Exit(2)]
  show ?thesis unfolding Exit(1)
  proof (rule give_up_ok [OF ok i])
    show "pstate (procs k ! i) \<noteq> RUNNING" by (subst parts(7)) simp
    show "pstate (procs (ks s) ! l) = RUNNING" if "l < NPROC" "l \<noteq> i" "pstate (procs k ! l) = RUNNING" for l
      using parts(5) [OF that(1,2)] that(3) by (auto simp: handed_def)
  qed (use parts m in auto)
next
  case (Resume k)
  then obtain i where i: "cur (ks s) = Some i" by (auto simp: sleep_end_def)
  note r = sys_ok_running [OF ok i]
  have "proc_wf k"
    using Resume(2) i r proc_wfD(6) [OF r(1,4)]
    by (auto simp: sleep_end_def intro!: proc_wf_upd_same)
  then show ?thesis unfolding Resume(1)
    using Resume(2) i r by (intro keep_ok [OF ok]) (auto simp: sleep_end_def procs_upd_proc split: if_splits)
next
  case (Wait_block addr k)
  then obtain i where i: "cur (ks s) = Some i" by (auto simp: wait_round_def)
  note r = sys_ok_running [OF ok i]
  from Wait_block(2) i r(1) have sl: "sleep_begin (ChProc i) (ks s) = Some k"
    by (cases rule: wait_round_cases) auto
  show ?thesis unfolding Wait_block(1)
    by (rule give_up_ok [OF ok i])
      (use sl i r proc_wf_sleep_begin [OF r(1,2) sl] in \<open>auto simp: sleep_begin_def procs_upd_proc split: if_splits\<close>)
next
  case (Wait_done addr r' k)
  then obtain i where i: "cur (ks s) = Some i" by (auto simp: wait_round_def)
  note r = sys_ok_running [OF ok i]
  have wf: "proc_wf k" by (rule proc_wf_wait_round [OF r(1,2) Wait_done(2)])
  from Wait_done(2) i r(1) have "cur k = cur (ks s) \<and> initproc k = initproc (ks s) \<and>
     (\<forall>l < NPROC. pstate (procs k ! l) = RUNNING \<longleftrightarrow> pstate (procs (ks s) ! l) = RUNNING)"
  proof (cases rule: wait_round_cases)
    case (reaped j e)
    obtain e' where "\<And>s. freeproc api j s = (upd_proc j freed s)\<lparr>env := e' s\<rparr>"
      using freeproc_eq by metis
    then show ?thesis using reaped r(7) by (auto simp: procs_upd_proc freed_def split: if_splits)
  qed auto
  then show ?thesis unfolding Wait_done(1) using wf by (intro keep_ok [OF ok]) auto
next
  case (Fork r' k)
  then obtain i where i: "cur (ks s) = Some i" by (auto simp: fork_def)
  note r = sys_ok_running [OF ok i]
  show ?thesis unfolding Fork(1)
    using proc_wf_fork [OF r(1,2) Fork(2)] fork_frame [OF r(1,2) Fork(2)] by (intro keep_ok [OF ok]) auto
next
  case (Growproc n r' k)
  then obtain i where i: "cur (ks s) = Some i" by (auto simp: growproc_def)
  note r = sys_ok_running [OF ok i]
  show ?thesis unfolding Growproc(1)
    using proc_wf_growproc [OF r(1) Growproc(2)] growproc_frame [OF Growproc(2) r(7)] by (intro keep_ok [OF ok]) auto
next
  case (Kill i n r' k)
  note r = sys_ok_running [OF ok Kill(2)]
  show ?thesis unfolding Kill(1)
    using Kill(3) proc_wf_kill [OF r(1), of n] kill_frame [OF r(7), where n = n] by (intro keep_ok [OF ok]) auto
next
  case (Wakeup ch)
  have wf: "proc_wf (ks s)" using ok by (simp add: sys_ok_def)
  note t = proc_wfD(1) [OF wf]
  show ?thesis unfolding Wakeup(1)
    using proc_wf_wakeup [OF wf] wakeup_simps [OF t] procs_wakeup [OF t]
    by (intro keep_ok [OF ok]) auto
qed

text \<open>
  C23: On one CPU, from a well-formed idle table with an \<open>init\<close>, whatever the running processes do
  (\<open>yield\<close>, \<open>sleep\<close>, \<open>exit\<close>, \<open>wait\<close>, \<open>fork\<close>, \<open>sbrk\<close>, \<open>kill\<close>) and whichever interrupts wake others,
  the table stays well formed and at every moment the process the CPU runs is the one process in
  state \<open>RUNNING\<close>.
\<close>

theorem one_running:
  assumes "reach api (scheduler_init k) s" and "proc_wf k" "initproc k \<noteq> None"
    "\<forall>i < NPROC. pstate (procs k ! i) \<noteq> RUNNING"
  shows "proc_wf (ks s) \<and> (\<forall>i < NPROC. pstate (procs (ks s) ! i) = RUNNING \<longleftrightarrow> cur (ks s) = Some i)"
proof -
  from assms(1) have "sys_ok s"
  proof induction
    case Start
    then show ?case
      using assms(2-) by (auto simp: sys_ok_def scheduler_init_def proc_wf_cur_None NPROC_def)
  next
    case (Next s t)
    then show ?case by (blast intro: sys_step_ok)
  qed
  then show ?thesis by (simp add: sys_ok_def)
qed

section \<open>Every runnable process runs\<close>

text \<open>
  A measure for a runnable process \<open>t\<close> that is not running: its own priority, which only a boost
  changes; what the others can still run before they rank behind it (\<open>lag\<close>), and, while \<open>t\<close> is below
  the best priority, how far they can still be demoted; whether someone runs; the boosts due at once;
  and the slots the scan has yet to pass.
\<close>

definition lag :: "nat \<Rightarrow> proc list \<Rightarrow> nat" where
  "lag t ps = (\<Sum>q < NPROC. nat (times_exec (ps ! t) + 1 - times_exec (ps ! q)))"

definition demotable :: "proc list \<Rightarrow> nat" where
  "demotable ps = (\<Sum>q < NPROC. nat (2 - prio (ps ! q)))"

definition waiting_rank :: "nat \<Rightarrow> proc list \<Rightarrow> nat" where
  "waiting_rank t ps = (if prio (ps ! t) = 0 then lag t ps else lag t ps + demotable ps)"

definition scan_left :: "nat \<Rightarrow> nat \<Rightarrow> nat" where
  "scan_left t p = (if p \<ge> NPROC then Suc t else if p \<le> t then t - p else NPROC - p + Suc t)"

definition wait_order :: "nat \<Rightarrow> ('e sched \<times> 'e sched) set" where
  "wait_order t = measures [
     \<lambda>s. nat (prio (procs (ks s) ! t)),
     \<lambda>s. waiting_rank t (procs (ks s)),
     \<lambda>s. if cur (ks s) = None then 1 else 0,
     \<lambda>s. nat (times_exec (procs (ks s) ! maxproc s) + 1 - cant_proc s),
     \<lambda>s. scan_left t (loop_p s)]"

definition waiting :: "nat \<Rightarrow> 'e sched \<Rightarrow> bool" where
  "waiting t s \<longleftrightarrow> sys_ok s \<and> t < NPROC \<and> pstate (procs (ks s) ! t) = RUNNABLE \<and>
     (\<forall>m. cur (ks s) = Some m \<longrightarrow> key_le (procs (ks s) ! m) (procs (ks s) ! t))"

lemma waiting_rank_cong:
  "\<lbrakk>\<And>q. q < NPROC \<Longrightarrow> prio (qs ! q) = prio (ps ! q) \<and> times_exec (qs ! q) = times_exec (ps ! q); t < NPROC\<rbrakk>
    \<Longrightarrow> waiting_rank t qs = waiting_rank t ps"
  by (simp add: waiting_rank_def lag_def demotable_def)

text \<open>After a process that ranks before \<open>t\<close> has used its quantum.\<close>

lemma waiting_rank_ran:
  assumes "m < NPROC" "t < NPROC" "m \<noteq> t" "key_le (ps ! m) (ps ! t)"
    and "0 \<le> prio (ps ! m)" "prio (ps ! t) < NPRIO"
    and te: "\<And>q. q < NPROC \<Longrightarrow> times_exec (qs ! q) = times_exec (ps ! q) + (if q = m then 1 else 0)"
    and pr: "(\<forall>q < NPROC. prio (qs ! q) = (if q = m then lower_prio (prio (ps ! m)) else prio (ps ! q)))
      \<or> prio (ps ! t) = 0 \<and> prio (qs ! t) = 0"
  shows "waiting_rank t qs < waiting_rank t ps"
proof -
  have lag_le: "lag t qs \<le> lag t ps"
    unfolding lag_def by (rule sum_mono) (use te assms in auto)
  have lag_less: "lag t qs < lag t ps" if "times_exec (ps ! m) \<le> times_exec (ps ! t)"
    unfolding lag_def by (rule sum_strict_mono_ex1) (use te assms that in \<open>auto intro!: bexI [of _ m]\<close>)
  show ?thesis
  proof (cases "prio (ps ! t) = 0")
    case True
    then have "times_exec (ps ! m) \<le> times_exec (ps ! t)" "prio (qs ! t) = 0"
      using assms by (auto simp: key_le_def)
    then show ?thesis using True lag_less by (simp add: waiting_rank_def)
  next
    case False
    then have pr': "\<And>q. q < NPROC \<Longrightarrow> prio (qs ! q) = (if q = m then lower_prio (prio (ps ! m)) else prio (ps ! q))"
      using pr by auto
    have dem_le: "demotable qs \<le> demotable ps"
      unfolding demotable_def by (rule sum_mono) (use pr' assms in \<open>auto simp: lower_prio_def NPRIO_def\<close>)
    have dem_less: "demotable qs < demotable ps" if "prio (ps ! m) < prio (ps ! t)"
      unfolding demotable_def
      by (rule sum_strict_mono_ex1)
        (use pr' assms that in \<open>auto simp: lower_prio_def NPRIO_def intro!: bexI [of _ m]\<close>)
    have "lag t qs + demotable qs < lag t ps + demotable ps"
      using assms(4) lag_le lag_less dem_le dem_less unfolding key_le_def by linarith
    then show ?thesis using False pr' assms(2,3) by (simp add: waiting_rank_def)
  qed
qed

lemma wait_order_lag:
  assumes "prio (procs (ks s') ! t) = prio (procs (ks s) ! t) \<or> prio (procs (ks s') ! t) = 0"
    and "0 \<le> prio (procs (ks s) ! t)"
    and "prio (procs (ks s') ! t) = prio (procs (ks s) ! t) \<Longrightarrow>
      waiting_rank t (procs (ks s')) < waiting_rank t (procs (ks s))"
  shows "(s', s) \<in> wait_order t"
proof (cases "prio (procs (ks s') ! t) = prio (procs (ks s) ! t)")
  case True
  then show ?thesis using assms(3) by (simp add: wait_order_def)
next
  case False
  then have "nat (prio (procs (ks s') ! t)) < nat (prio (procs (ks s) ! t))"
    using assms(1,2) by auto
  then show ?thesis by (simp add: wait_order_def)
qed

lemma clear_prio_nth:
  "q < length ps \<Longrightarrow> clear_prio ps ! q = (ps ! q)\<lparr>prio := 0\<rparr>"
  by (simp add: clear_prio_def)

lemma waiting_wf:
  assumes "waiting t s"
  shows "proc_wf (ks s)" "length (procs (ks s)) = NPROC" "t < NPROC" "sys_ok s"
    "\<And>q. q < NPROC \<Longrightarrow> 0 \<le> prio (procs (ks s) ! q) \<and> prio (procs (ks s) ! q) < NPRIO"
  using assms proc_wfD [of "ks s"] by (auto simp: waiting_def sys_ok_def slot_ok_def)

lemma waiting_idle_step:
  assumes w: "waiting t s" and idle: "cur (ks s) = None"
  shows "cur (ks (sched_step s)) = Some t \<or> waiting t (sched_step s) \<and> (sched_step s, s) \<in> wait_order t"
proof -
  note wf = waiting_wf [OF w]
  note ok' = sched_step_ok [OF wf(4) idle]
  have t: "pstate (procs (ks s) ! t) = RUNNABLE" using w by (simp add: waiting_def)
  consider (wrap) "loop_p s \<ge> NPROC"
    | (run) "loop_p s < NPROC" "pstate (procs (ks s) ! loop_p s) = RUNNABLE"
    | (skip) "loop_p s < NPROC" "pstate (procs (ks s) ! loop_p s) \<noteq> RUNNABLE" by fastforce
  then show ?thesis
  proof cases
    case wrap
    then have "sched_step s = s\<lparr>loop_p := 0\<rparr>" by (simp add: sched_step_def)
    then show ?thesis
      using w wf idle ok' wrap by (simp add: waiting_def wait_order_def scan_left_def NPROC_def)
  next
    case run
    let ?m = "pick (procs (ks s)) (loop_p s)"
    note m = pick_ok [OF run]
    have st: "sched_step s = s\<lparr>maxproc := ?m, loop_p := ?m,
        ks := (upd_proc ?m (\<lambda>p. p\<lparr>pstate := RUNNING\<rparr>) (ks s))\<lparr>cur := Some ?m\<rparr>\<rparr>"
      using run by (simp add: sched_step_def Let_def)
    show ?thesis
    proof (cases "?m = t")
      case False
      have "waiting_rank t (procs (upd_proc ?m (\<lambda>p. p\<lparr>pstate := RUNNING\<rparr>) (ks s))) = waiting_rank t (procs (ks s))"
        by (rule waiting_rank_cong) (use wf in \<open>auto simp: procs_upd_proc\<close>)
      then show ?thesis
        using False m(1) m(3) [OF wf(3) t] w wf idle ok'
        by (simp add: st waiting_def wait_order_def procs_upd_proc key_le_def)
    qed (simp add: st)
  next
    case skip
    then have st: "sched_step s = sched_tail s" by (simp add: sched_step_def)
    show ?thesis
    proof (cases "times_exec (procs (ks s) ! maxproc s) \<ge> cant_proc s")
      case True
      then have s': "sched_tail s = s\<lparr>cant_proc := cant_proc s + prio_boost,
          ks := (ks s)\<lparr>procs := clear_prio (procs (ks s))\<rparr>, loop_p := NPROC + 1\<rparr>"
        by (simp add: sched_tail_def)
      have mx: "maxproc s < NPROC" using wf(4) by (simp add: sys_ok_def)
      have "lag t (clear_prio (procs (ks s))) = lag t (procs (ks s))"
        using wf by (simp add: lag_def clear_prio_nth)
      then show ?thesis
        using w wf(2,3) wf(5) [OF wf(3)] idle ok' True mx
        by (auto simp: st s' waiting_def wait_order_def clear_prio_nth waiting_rank_def prio_boost_def)
    next
      case False
      then have "sched_tail s = s\<lparr>loop_p := loop_p s + 1\<rparr>" by (simp add: sched_tail_def)
      moreover have "loop_p s \<noteq> t" using skip t by auto
      ultimately show ?thesis
        using w wf(2,3) idle ok' skip by (auto simp: st waiting_def wait_order_def scan_left_def)
    qed
  qed
qed

lemma waiting_yield_step:
  assumes w: "waiting t s" and m: "cur (ks s) = Some m" "m \<noteq> t" and y: "yield_begin (ks s) = Some k"
  shows "waiting t (sched_return (s\<lparr>ks := k\<rparr>)) \<and> (sched_return (s\<lparr>ks := k\<rparr>), s) \<in> wait_order t"
proof -
  let ?s = "sched_return (s\<lparr>ks := k\<rparr>)"
  note wf = waiting_wf [OF w]
  note r = sys_ok_running [OF wf(4) m(1)]
  have ok': "sys_ok ?s"
    using sys_step_ok [OF sys_step.Yield [OF y] wf(4)] .
  have t: "pstate (procs (ks s) ! t) = RUNNABLE" and le: "key_le (procs (ks s) ! m) (procs (ks s) ! t)"
    using w m by (auto simp: waiting_def)
  define ps1 where "ps1 = (procs (ks s))[m := (procs (ks s) ! m)\<lparr>pstate := RUNNABLE,
      prio := lower_prio (prio (procs (ks s) ! m)), times_exec := times_exec (procs (ks s) ! m) + 1\<rparr>]"
  define boost where "boost \<longleftrightarrow> times_exec (ps1 ! maxproc s) \<ge> cant_proc s"
  have k: "k = upd_proc m (\<lambda>p. p\<lparr>pstate := RUNNABLE, prio := lower_prio (prio p)\<rparr>) (ks s)"
    using y m by (simp add: yield_begin_def)
  have ps: "procs (ks ?s) = (if boost then clear_prio ps1 else ps1)" and c: "cur (ks ?s) = None"
    using r by (auto simp: sched_return_def sched_tail_def k upd_proc_def ps1_def boost_def)
  have len: "length ps1 = NPROC" using wf(2) by (simp add: ps1_def)
  have te: "times_exec (procs (ks ?s) ! q) = times_exec (procs (ks s) ! q) + (if q = m then 1 else 0)" if "q < NPROC" for q
    using that wf(2) by (simp add: ps len clear_prio_nth) (simp add: ps1_def nth_list_update)
  have pr: "prio (procs (ks ?s) ! q) =
      (if boost then 0 else if q = m then lower_prio (prio (procs (ks s) ! m)) else prio (procs (ks s) ! q))"
    if "q < NPROC" for q
    using that wf(2) by (simp add: ps len clear_prio_nth) (simp add: ps1_def nth_list_update)
  have "pstate (procs (ks ?s) ! t) = RUNNABLE"
    using wf(2,3) t m(2) by (simp add: ps len clear_prio_nth) (simp add: ps1_def nth_list_update)
  then have "waiting t ?s" using ok' wf(3) c by (simp add: waiting_def)
  moreover have "(?s, s) \<in> wait_order t"
  proof (rule wait_order_lag)
    show "prio (procs (ks ?s) ! t) = prio (procs (ks s) ! t) \<or> prio (procs (ks ?s) ! t) = 0"
      using pr [OF wf(3)] m(2) by simp
    show "0 \<le> prio (procs (ks s) ! t)" using wf(5) [OF wf(3)] by simp
    assume same: "prio (procs (ks ?s) ! t) = prio (procs (ks s) ! t)"
    show "waiting_rank t (procs (ks ?s)) < waiting_rank t (procs (ks s))"
      by (rule waiting_rank_ran [OF r(4) wf(3) m(2) le])
        (use same wf(5) [OF r(4)] wf(5) [OF wf(3)] te pr wf(3) in \<open>auto split: if_splits\<close>)
  qed
  ultimately show ?thesis by blast
qed

lemma wf_wait_order: "wf (wait_order t)"
  by (simp add: wait_order_def)

text \<open>
  C22: No process starves while the processes that run use up their quanta and nobody joins: on one
  CPU every runnable process is eventually dispatched, whatever its priority and however often the
  others have run, through demotions and priority boosts.
\<close>

theorem runnable_runs:
  assumes "sys_ok s" "t < NPROC" "pstate (procs (ks s) ! t) = RUNNABLE" "cur (ks s) = None"
  shows "\<exists>n. cur (ks ((quantum_step ^^ n) s)) = Some t"
proof -
  have "waiting t s" using assms by (simp add: waiting_def)
  then show ?thesis
  proof (induction s rule: wf_induct_rule [OF wf_wait_order [of t]])
    case (1 s)
    show ?case
    proof (cases "cur (ks s) = Some t")
      case True
      then show ?thesis by (intro exI [of _ 0]) simp
    next
      case False
      have "cur (ks (quantum_step s)) = Some t \<or> waiting t (quantum_step s) \<and> (quantum_step s, s) \<in> wait_order t"
      proof (cases "cur (ks s)")
        case None
        then have "quantum_step s = sched_step s" by (simp add: quantum_step_def yield_begin_def)
        then show ?thesis using waiting_idle_step [OF 1(2) None] by simp
      next
        case (Some m)
        then obtain k where "yield_begin (ks s) = Some k" by (simp add: yield_begin_def)
        then show ?thesis
          using waiting_yield_step [OF 1(2) Some] False Some by (simp add: quantum_step_def)
      qed
      then obtain n where "cur (ks ((quantum_step ^^ n) (quantum_step s))) = Some t"
        using 1(1) by (metis funpow_0)
      then show ?thesis by (intro exI [of _ "Suc n"]) (simp add: funpow_swap1)
    qed
  qed
qed

section \<open>Two CPUs\<close>

text \<open>
  C25: With two CPUs the scheduler can run one process on both. It releases the lock of the slot it
  scans before it takes the lock of the process it chose and does not look at the state again: when
  two CPUs scan the same runnable slot one after the other, both choose the same process, and after
  the first has switched to it and the process has released its lock, the second switches to it too.
\<close>

theorem double_dispatch:
  assumes "c \<noteq> d" "pcs s c = Scan p" "pcs s d = Scan p" "p < NPROC"
    and "pstate (sprocs s ! p) = RUNNABLE" "\<forall>i. plock s i = None"
  shows "\<exists>s'. smp_step\<^sup>*\<^sup>* s s' \<and> pcs s' c = Running (pick (sprocs s) p) \<and>
    pcs s' d = Switched (pick (sprocs s) p)"
proof -
  let ?m = "pick (sprocs s) p"
  define s1 where "s1 = s\<lparr>pcs := (pcs s)(c := Chosen ?m)\<rparr>"
  define s2 where "s2 = s1\<lparr>pcs := (pcs s1)(d := Chosen ?m)\<rparr>"
  define s3 where "s3 = s2\<lparr>plock := (plock s2)(?m := Some c),
    sprocs := (sprocs s2)[?m := (sprocs s2 ! ?m)\<lparr>pstate := RUNNING\<rparr>], pcs := (pcs s2)(c := Switched ?m)\<rparr>"
  define s4 where "s4 = s3\<lparr>plock := (plock s3)(?m := None), pcs := (pcs s3)(c := Running ?m)\<rparr>"
  define s5 where "s5 = s4\<lparr>plock := (plock s4)(?m := Some d),
    sprocs := (sprocs s4)[?m := (sprocs s4 ! ?m)\<lparr>pstate := RUNNING\<rparr>], pcs := (pcs s4)(d := Switched ?m)\<rparr>"
  have "smp_step s s1"
    unfolding s1_def using assms by (intro smp_step.Choose) auto
  moreover have "smp_step s1 s2"
    using smp_step.Choose [of s1 d p] assms by (simp add: s1_def s2_def)
  moreover have "smp_step s2 s3"
    unfolding s3_def using assms by (intro smp_step.Dispatch) (simp_all add: s2_def s1_def)
  moreover have "smp_step s3 s4"
    unfolding s4_def using assms by (intro smp_step.Unlock) (simp_all add: s3_def)
  moreover have "smp_step s4 s5"
    unfolding s5_def using assms by (intro smp_step.Dispatch) (simp_all add: s4_def s3_def s2_def)
  ultimately have "smp_step\<^sup>*\<^sup>* s s5" by (meson converse_rtranclp_into_rtranclp rtranclp.rtrancl_refl)
  then show ?thesis
    using assms(1) by (intro exI [of _ s5]) (simp add: s5_def s4_def)
qed

section \<open>The small system, idle\<close>

definition demo_idle :: "unit kstate" where
  "demo_idle = (upd_proc 2 (\<lambda>p. p\<lparr>pstate := RUNNABLE\<rparr>) demo)\<lparr>cur := None\<rparr>"

lemma demo_idle_ok: "proc_wf demo_idle" "initproc demo_idle = Some 0"
  "i < NPROC \<Longrightarrow> pstate (procs demo_idle ! i) \<noteq> RUNNING" "pstate (procs demo_idle ! 2) = RUNNABLE"
  "length (procs demo_idle) = NPROC"
proof -
  have 2: "(2::nat) < NPROC" by (simp add: NPROC_def)
  have len: "length (procs demo) = NPROC" by (rule proc_wfD(3) [OF demo_wf(1)])
  have "slot_ok 4 ((procs demo ! 2)\<lparr>pstate := RUNNABLE\<rparr>)"
    by (rule slot_ok_restate [OF demo_slots [OF 2]]) (simp_all add: demo_nth demo_proc_def)
  then have "proc_wf (upd_proc 2 (\<lambda>p. p\<lparr>pstate := RUNNABLE\<rparr>) demo)"
    by (intro proc_wf_upd_same demo_wf 2) (simp_all add: demo_nth demo_proc_def, simp add: demo_def demo_proc_def)
  then show "proc_wf demo_idle" unfolding demo_idle_def by (rule proc_wf_cur_None)
  show "initproc demo_idle = Some 0" using demo_wf(3) by (simp add: demo_idle_def)
  show "pstate (procs demo_idle ! 2) = RUNNABLE" "length (procs demo_idle) = NPROC"
    using 2 len by (simp_all add: demo_idle_def)
  assume "i < NPROC"
  then show "pstate (procs demo_idle ! i) \<noteq> RUNNING"
    using less_NPROC_cases [of i] len
    by (auto simp: demo_idle_def procs_upd_proc demo_nth demo_nth(2) [simplified] demo_proc_def proc_zero_def)
qed

theorem pick_minimal_witness: "pstate (procs demo_idle ! pick (procs demo_idle) 2) = RUNNABLE"
  using pick_minimal [of 2 "procs demo_idle"] demo_idle_ok(4) by (simp add: NPROC_def)

theorem one_running_witness:
  "proc_wf (ks (sched_step (scheduler_init demo_idle)))"
proof -
  have "reach demo_api (scheduler_init demo_idle) (sched_step (scheduler_init demo_idle))"
    by (intro reach.Next [OF reach.Start] sys_step.Sched) (simp add: scheduler_init_def)
  from one_running [OF this demo_idle_ok(1)] demo_idle_ok(2,3) show ?thesis by simp
qed

theorem runnable_runs_witness:
  "\<exists>n. cur (ks ((quantum_step ^^ n) (scheduler_init demo_idle))) = Some 2"
proof (rule runnable_runs)
  show "sys_ok (scheduler_init demo_idle)"
    using demo_idle_ok by (auto simp: sys_ok_def scheduler_init_def proc_wf_cur_None NPROC_def)
qed (simp_all add: scheduler_init_def demo_idle_ok NPROC_def)

theorem double_dispatch_witness:
  "\<exists>s'. smp_step\<^sup>*\<^sup>* \<lparr>sprocs = procs demo_idle, plock = (\<lambda>_. None), pcs = (\<lambda>_. Scan 2)\<rparr> s' \<and>
    (\<exists>m. pcs s' 0 = Running m \<and> pcs s' 1 = Switched m)"
  using double_dispatch [of 0 1 "\<lparr>sprocs = procs demo_idle, plock = (\<lambda>_. None), pcs = (\<lambda>_. Scan 2)\<rparr>" 2]
    demo_idle_ok(4) by (auto simp: NPROC_def)

end
