(* ===== verification/X_Pipe.thy ===== *)
theory X_Pipe
  imports X_Proc_Wf
begin

text \<open>
  Pipes (\<open>kernel/pipe.c\<close>) and the file table they use (\<open>kernel/file.c\<close>, \<open>kernel/file.h\<close>). A pipe is a
  ring buffer of 512 bytes with two free-running 32-bit counters; \<open>pipewrite\<close> and \<open>piperead\<close> run
  until they return or go to sleep, and are entered again where they slept. The pipe's own lock is
  held throughout, so one run is atomic. \<open>bounded_fifo\<close> is the queue a client sees; the ring buffer
  is an instance of it, and the two loops refine its operations.
\<close>

section \<open>The ring buffer\<close>

definition PIPESIZE :: nat where "PIPESIZE = 512"

record pipe =
  pdata :: bytes
  nread :: u32
  nwrite :: u32
  readopen :: bool
  writeopen :: bool

definition pipe_empty :: "pipe \<Rightarrow> bool" where
  "pipe_empty pi \<longleftrightarrow> nread pi = nwrite pi"

definition pipe_full :: "pipe \<Rightarrow> bool" where
  "pipe_full pi \<longleftrightarrow> nwrite pi = nread pi + of_nat PIPESIZE"

text \<open>\<open>pi->data[pi->nwrite++ % PIPESIZE] = ch\<close> and \<open>ch = pi->data[pi->nread++ % PIPESIZE]\<close>.\<close>

definition pipe_put :: "u8 \<Rightarrow> pipe \<Rightarrow> pipe" where
  "pipe_put ch pi = pi\<lparr>pdata := (pdata pi)[unat (nwrite pi) mod PIPESIZE := ch], nwrite := nwrite pi + 1\<rparr>"

definition pipe_get :: "pipe \<Rightarrow> u8 \<times> pipe" where
  "pipe_get pi = (pdata pi ! (unat (nread pi) mod PIPESIZE), pi\<lparr>nread := nread pi + 1\<rparr>)"

section \<open>Reading and writing\<close>

text \<open>A call returns, or sleeps with its loop counter \<open>i\<close> and is resumed there.\<close>

datatype pipe_outcome = Pipe_return int | Pipe_block int

text \<open>
  The lock of the pipe does not keep another CPU from killing the caller: \<open>kl i\<close> says that it has, by the time
  \<open>pipewrite\<close> looks at \<open>killed\<close> with its counter at \<open>i\<close>.
\<close>

definition struck :: "(int \<Rightarrow> bool) \<Rightarrow> int \<Rightarrow> nat \<Rightarrow> 'e kstate \<Rightarrow> 'e kstate" where
  "struck kl i pr k = (if kl i then setkilled pr k else k)"

text \<open>
  The loop of \<open>pipewrite\<close> from counter \<open>i\<close>, for the pipe at address \<open>a\<close>; the caller is the current
  process \<open>pr\<close>.
\<close>

function pipewrite_loop :: "'e kapi \<Rightarrow> (int \<Rightarrow> bool) \<Rightarrow> nat \<Rightarrow> nat \<Rightarrow> u64 \<Rightarrow> int \<Rightarrow> int \<Rightarrow> pipe \<Rightarrow> 'e kstate \<Rightarrow>
    (pipe_outcome \<times> pipe \<times> 'e kstate) option" where
  "pipewrite_loop api kl a pr addr n i pi k =
    (if i < n then
       (if \<not> readopen pi \<or> killed pr (struck kl i pr k) \<noteq> 0 then Some (Pipe_return (- 1), pi, struck kl i pr k)
        else if pipe_full pi then do {
          k' \<leftarrow> sleep_begin (ChPipeWrite a) (wakeup (ChPipeRead a) (struck kl i pr k));
          Some (Pipe_block i, pi, k') }
        else (case api_copyin api (pagetable (procs k ! pr)) (addr + of_int i) 1 (env k) of
            None \<Rightarrow> Some (Pipe_return i, pi, wakeup (ChPipeRead a) (struck kl i pr k))
          | Some bs \<Rightarrow> pipewrite_loop api kl a pr addr n (i + 1) (pipe_put (hd bs) pi) (struck kl i pr k)))
     else Some (Pipe_return i, pi, wakeup (ChPipeRead a) k))"
  by auto
termination by (relation "measure (\<lambda>(api, kl, a, pr, addr, n, i, pi, k). nat (n - i))") auto

declare pipewrite_loop.simps [simp del]

definition pipewrite :: "'e kapi \<Rightarrow> (int \<Rightarrow> bool) \<Rightarrow> nat \<Rightarrow> u64 \<Rightarrow> int \<Rightarrow> pipe \<Rightarrow> 'e kstate \<Rightarrow>
    (pipe_outcome \<times> pipe \<times> 'e kstate) option" where
  "pipewrite api kl a addr n pi k = do {
     pr \<leftarrow> cur k;
     pipewrite_loop api kl a pr addr n 0 pi k }"

text \<open>The copy loop of \<open>piperead\<close>: the byte is taken before \<open>copyout\<close> is tried.\<close>

function piperead_copy :: "'e kapi \<Rightarrow> nat \<Rightarrow> u64 \<Rightarrow> int \<Rightarrow> int \<Rightarrow> pipe \<Rightarrow> 'e kstate \<Rightarrow> int \<times> pipe \<times> 'e kstate" where
  "piperead_copy api pr addr n i pi k =
    (if i < n then
       (if pipe_empty pi then (i, pi, k)
        else (case pipe_get pi of (ch, pi') \<Rightarrow>
          case api_copyout api (pagetable (procs k ! pr)) (addr + of_int i) [ch] (env k) of (r, e) \<Rightarrow>
            if r = - 1 then (i, pi', k\<lparr>env := e\<rparr>)
            else piperead_copy api pr addr n (i + 1) pi' (k\<lparr>env := e\<rparr>)))
     else (i, pi, k))"
  by auto
termination by (relation "measure (\<lambda>(api, pr, addr, n, i, pi, k). nat (n - i))") auto

declare piperead_copy.simps [simp del]

definition piperead :: "'e kapi \<Rightarrow> nat \<Rightarrow> u64 \<Rightarrow> int \<Rightarrow> pipe \<Rightarrow> 'e kstate \<Rightarrow>
    (pipe_outcome \<times> pipe \<times> 'e kstate) option" where
  "piperead api a addr n pi k = do {
     pr \<leftarrow> cur k;
     if pipe_empty pi \<and> writeopen pi then
       (if killed pr k \<noteq> 0 then Some (Pipe_return (- 1), pi, k)
        else do { k' \<leftarrow> sleep_begin (ChPipeRead a) k; Some (Pipe_block 0, pi, k') })
     else (case piperead_copy api pr addr n 0 pi k of (i, pi', k') \<Rightarrow>
       Some (Pipe_return i, pi', wakeup (ChPipeWrite a) k')) }"

section \<open>The file table and the ends of a pipe\<close>

definition NFILE :: nat where "NFILE = 100"

datatype file_type = FD_NONE | FD_PIPE | FD_INODE | FD_DEVICE

record kfile =
  f_type :: file_type
  f_ref :: int
  f_readable :: bool
  f_writable :: bool
  f_pipe :: nat
  f_ip :: nat
  f_off :: u32
  f_major :: int

text \<open>\<open>pipes\<close> gives the \<open>struct pipe\<close> in a page, by its address.\<close>

record 'e fstate =
  fk :: "'e kstate"
  ftable :: "kfile list"
  pipes :: "nat \<Rightarrow> pipe"

definition upd_file :: "nat \<Rightarrow> (kfile \<Rightarrow> kfile) \<Rightarrow> 'e fstate \<Rightarrow> 'e fstate" where
  "upd_file f g s = s\<lparr>ftable := (ftable s)[f := g (ftable s ! f)]\<rparr>"

definition filealloc :: "'e fstate \<Rightarrow> nat option \<times> 'e fstate" where
  "filealloc s =
    (case find (\<lambda>f. f_ref (ftable s ! f) = 0) [0..<NFILE] of
       None \<Rightarrow> (None, s)
     | Some f \<Rightarrow> (Some f, upd_file f (\<lambda>x. x\<lparr>f_ref := 1\<rparr>) s))"

definition filedup :: "nat \<Rightarrow> 'e fstate \<Rightarrow> 'e fstate option" where
  "filedup f s =
    (if f_ref (ftable s ! f) < 1 then None
     else Some (upd_file f (\<lambda>x. x\<lparr>f_ref := f_ref x + 1\<rparr>) s))"

text \<open>The page goes back to the allocator when both ends are closed.\<close>

definition pipeclose :: "'e kapi \<Rightarrow> nat \<Rightarrow> bool \<Rightarrow> 'e fstate \<Rightarrow> 'e fstate" where
  "pipeclose api a writable s =
    (let pi = pipes s a;
         pi' = (if writable then pi\<lparr>writeopen := False\<rparr> else pi\<lparr>readopen := False\<rparr>);
         k' = wakeup (if writable then ChPipeRead a else ChPipeWrite a) (fk s);
         s' = s\<lparr>pipes := (pipes s)(a := pi'), fk := k'\<rparr>
     in if \<not> readopen pi' \<and> \<not> writeopen pi'
        then s'\<lparr>fk := k'\<lparr>env := api_kfree api (of_nat a) (env k')\<rparr>\<rparr>
        else s')"

definition fileclose :: "'e kapi \<Rightarrow> nat \<Rightarrow> 'e fstate \<Rightarrow> 'e fstate option" where
  "fileclose api f s =
    (let x = ftable s ! f
     in if f_ref x < 1 then None
        else if f_ref x - 1 > 0 then Some (upd_file f (\<lambda>x. x\<lparr>f_ref := f_ref x - 1\<rparr>) s)
        else let s1 = upd_file f (\<lambda>x. x\<lparr>f_ref := 0, f_type := FD_NONE\<rparr>) s
          in if f_type x = FD_PIPE then Some (pipeclose api (f_pipe x) (f_writable x) s1)
             else if f_type x = FD_INODE \<or> f_type x = FD_DEVICE
             then Some (s1\<lparr>fk := (fk s1)\<lparr>env :=
               api_end_op api (api_iput api (f_ip x) (api_begin_op api (env (fk s1))))\<rparr>\<rparr>)
             else Some s1)"

definition new_pipe :: "pipe \<Rightarrow> pipe" where
  "new_pipe pi = pi\<lparr>readopen := True, writeopen := True, nwrite := 0, nread := 0\<rparr>"

text \<open>The two files, or \<open>Inl (- 1)\<close>; on failure what was allocated is closed again.\<close>

definition pipealloc :: "'e kapi \<Rightarrow> 'e fstate \<Rightarrow> ((int + nat \<times> nat) \<times> 'e fstate) option" where
  "pipealloc api s =
    (case filealloc s of
       (None, s1) \<Rightarrow> Some (Inl (- 1), s1)
     | (Some f0, s1) \<Rightarrow>
         (case filealloc s1 of
            (None, s2) \<Rightarrow> do { s3 \<leftarrow> fileclose api f0 s2; Some (Inl (- 1), s3) }
          | (Some f1, s2) \<Rightarrow>
              (case api_kalloc api (env (fk s2)) of (pg, e) \<Rightarrow>
                 let s3 = s2\<lparr>fk := (fk s2)\<lparr>env := e\<rparr>\<rparr>
                 in if pg = 0
                    then do { s4 \<leftarrow> fileclose api f0 s3; s5 \<leftarrow> fileclose api f1 s4; Some (Inl (- 1), s5) }
                    else let a = unat pg;
                        s4 = s3\<lparr>pipes := (pipes s3)(a := new_pipe (pipes s3 a))\<rparr>;
                        s5 = upd_file f0 (\<lambda>x. x\<lparr>f_type := FD_PIPE, f_readable := True,
                               f_writable := False, f_pipe := a\<rparr>) s4
                      in Some (Inr (f0, f1), upd_file f1 (\<lambda>x. x\<lparr>f_type := FD_PIPE,
                               f_readable := False, f_writable := True, f_pipe := a\<rparr>) s5))))"

section \<open>The queue a pipe implements\<close>

locale bounded_fifo =
  fixes ok :: "'q \<Rightarrow> bool" and contents :: "'q \<Rightarrow> 'b list" and cap :: nat
    and full :: "'q \<Rightarrow> bool" and empty :: "'q \<Rightarrow> bool"
    and put :: "'b \<Rightarrow> 'q \<Rightarrow> 'q" and get :: "'q \<Rightarrow> 'b \<times> 'q"
  assumes bound: "ok q \<Longrightarrow> length (contents q) \<le> cap"
    and full_iff: "ok q \<Longrightarrow> full q \<longleftrightarrow> length (contents q) = cap"
    and empty_iff: "ok q \<Longrightarrow> empty q \<longleftrightarrow> contents q = []"
    and put_ok: "\<lbrakk>ok q; \<not> full q\<rbrakk> \<Longrightarrow> ok (put b q)"
    and put_contents: "\<lbrakk>ok q; \<not> full q\<rbrakk> \<Longrightarrow> contents (put b q) = contents q @ [b]"
    and get_ok: "\<lbrakk>ok q; \<not> empty q; get q = (b, q')\<rbrakk> \<Longrightarrow> ok q'"
    and get_contents: "\<lbrakk>ok q; \<not> empty q; get q = (b, q')\<rbrakk> \<Longrightarrow> contents q = b # contents q'"
begin

lemma put_list:
  "\<lbrakk>ok q; length (contents q) + length bs \<le> cap\<rbrakk> \<Longrightarrow>
    ok (fold put bs q) \<and> contents (fold put bs q) = contents q @ bs"
proof (induction bs arbitrary: q)
  case (Cons b bs)
  then have "\<not> full q" by (simp add: full_iff)
  with Cons.prems Cons.IH [of "put b q"] put_ok put_contents show ?case by simp
qed simp

lemma get_after_put: "\<lbrakk>ok q; contents q = []; 0 < cap; get (put b q) = (c, q')\<rbrakk> \<Longrightarrow> c = b \<and> contents q' = []"
  using get_contents [of "put b q" c q'] put_ok [of q b] put_contents [of q b]
  by (simp add: full_iff empty_iff)

end

definition pipe_count :: "pipe \<Rightarrow> nat" where
  "pipe_count pi = unat (nwrite pi - nread pi)"

definition pipe_ok :: "pipe \<Rightarrow> bool" where
  "pipe_ok pi \<longleftrightarrow> length (pdata pi) = PIPESIZE \<and> pipe_count pi \<le> PIPESIZE"

definition pipe_contents :: "pipe \<Rightarrow> bytes" where
  "pipe_contents pi = map (\<lambda>j. pdata pi ! ((unat (nread pi) + j) mod PIPESIZE)) [0..<pipe_count pi]"

text \<open>The size divides \<open>2 ^ 32\<close>, so the wrap of the counters does not disturb the positions.\<close>

lemma unat_add_mod_PIPESIZE: "unat (r + of_nat j :: u32) mod PIPESIZE = (unat r + j) mod PIPESIZE"
  by (simp add: PIPESIZE_def unat_word_ariths unat_of_nat mod_mod_cancel mod_simps)

lemma nwrite_eq: "nwrite pi = nread pi + of_nat (pipe_count pi)"
  by (simp add: pipe_count_def)

lemma mod_PIPESIZE_neq:
  assumes "j < c" "c < PIPESIZE"
  shows "(r + j) mod PIPESIZE \<noteq> (r + c) mod PIPESIZE"
proof
  assume "(r + j) mod PIPESIZE = (r + c) mod PIPESIZE"
  then have "PIPESIZE dvd (r + c) - (r + j)" using assms by (metis mod_eq_dvd_iff_nat add_le_cancel_left less_imp_le)
  then have "PIPESIZE dvd c - j" by simp
  then show False using assms by (auto dest: dvd_imp_le)
qed

lemma pipe_count_put: "pipe_count pi < PIPESIZE \<Longrightarrow> pipe_count (pipe_put b pi) = Suc (pipe_count pi)"
proof -
  assume "pipe_count pi < PIPESIZE"
  then have "Suc (pipe_count pi) < 2 ^ 32" by (simp add: PIPESIZE_def)
  then have "unat (of_nat (Suc (pipe_count pi)) :: u32) = Suc (pipe_count pi)"
    by (simp only: unat_of_nat take_bit_nat_eq_self) (simp add: take_bit_nat_eq_self)
  moreover have "nwrite (pipe_put b pi) - nread (pipe_put b pi) = of_nat (Suc (pipe_count pi))"
    using nwrite_eq [of pi] by (simp add: pipe_put_def)
  ultimately show ?thesis
    unfolding pipe_count_def [of "pipe_put b pi"] by (simp only:)
qed

lemma pipe_count_get:
  assumes "pipe_get pi = (b, pi')" "0 < pipe_count pi" "pipe_count pi \<le> PIPESIZE"
  shows "pipe_count pi = Suc (pipe_count pi')"
proof -
  obtain c where c: "pipe_count pi = Suc c" using assms(2) by (cases "pipe_count pi") auto
  have "nwrite pi - (nread pi + 1) = of_nat c"
    using nwrite_eq [of pi] by (simp add: c)
  then show ?thesis
    using assms c by (auto simp: pipe_get_def pipe_count_def PIPESIZE_def unat_of_nat)
qed

lemma pipe_full_count: "pipe_ok pi \<Longrightarrow> pipe_full pi \<longleftrightarrow> pipe_count pi = PIPESIZE"
proof -
  have "pipe_full pi \<longleftrightarrow> nwrite pi - nread pi = of_nat PIPESIZE"
    by (auto simp: pipe_full_def algebra_simps)
  also have "\<dots> \<longleftrightarrow> unat (nwrite pi - nread pi) = unat (of_nat PIPESIZE :: u32)"
    by (simp add: word_unat_eq_iff)
  finally show ?thesis by (simp add: pipe_count_def PIPESIZE_def)
qed

lemma pipe_empty_count: "pipe_empty pi \<longleftrightarrow> pipe_count pi = 0"
  by (auto simp: pipe_empty_def pipe_count_def unat_eq_0)

lemma pipe_contents_put:
  assumes "pipe_ok pi" "\<not> pipe_full pi"
  shows "pipe_ok (pipe_put b pi)" "pipe_contents (pipe_put b pi) = pipe_contents pi @ [b]"
proof -
  have c: "pipe_count pi < PIPESIZE" "length (pdata pi) = PIPESIZE"
    using assms by (auto simp: pipe_full_count pipe_ok_def)
  note n = pipe_count_put [OF c(1), of b]
  show "pipe_ok (pipe_put b pi)" using c n by (simp add: pipe_ok_def) (simp add: pipe_put_def)
  have w: "unat (nwrite pi) mod PIPESIZE = (unat (nread pi) + pipe_count pi) mod PIPESIZE"
    by (subst nwrite_eq) (rule unat_add_mod_PIPESIZE)
  have p: "pdata (pipe_put b pi) = (pdata pi)[(unat (nread pi) + pipe_count pi) mod PIPESIZE := b]"
    "nread (pipe_put b pi) = nread pi"
    by (simp_all add: pipe_put_def w)
  have "PIPESIZE > 0" by (simp add: PIPESIZE_def)
  then show "pipe_contents (pipe_put b pi) = pipe_contents pi @ [b]"
    using c mod_PIPESIZE_neq [OF _ c(1), of _ "unat (nread pi)"]
    by (auto simp: pipe_contents_def n p nth_list_update_neq [OF not_sym])
qed

lemma pipe_contents_get:
  assumes "pipe_ok pi" "\<not> pipe_empty pi" "pipe_get pi = (b, pi')"
  shows "pipe_ok pi'" "pipe_contents pi = b # pipe_contents pi'"
proof -
  have c: "0 < pipe_count pi" "pipe_count pi \<le> PIPESIZE" "length (pdata pi) = PIPESIZE"
    using assms by (auto simp: pipe_empty_count pipe_ok_def)
  note n = pipe_count_get [OF assms(3) c(1,2)]
  have p: "pdata pi' = pdata pi" "nread pi' = nread pi + of_nat 1" "b = pdata pi ! (unat (nread pi) mod PIPESIZE)"
    using assms(3) by (auto simp: pipe_get_def)
  show "pipe_ok pi'" using c n p by (simp add: pipe_ok_def)
  have "(unat (nread pi') + j) mod PIPESIZE = (unat (nread pi) + Suc j) mod PIPESIZE" for j
    unfolding p(2) by (metis unat_add_mod_PIPESIZE mod_add_left_eq add.assoc add_Suc_right plus_1_eq_Suc add_Suc)
  then show "pipe_contents pi = b # pipe_contents pi'"
    unfolding pipe_contents_def n by (simp add: p upt_conv_Cons map_Suc_upt [symmetric] del: upt_Suc)
qed

interpretation ring: bounded_fifo pipe_ok pipe_contents PIPESIZE pipe_full pipe_empty pipe_put pipe_get
proof unfold_locales
  fix q q' b
  show "pipe_ok q \<Longrightarrow> length (pipe_contents q) \<le> PIPESIZE" by (simp add: pipe_ok_def pipe_contents_def)
  show "pipe_ok q \<Longrightarrow> pipe_full q \<longleftrightarrow> length (pipe_contents q) = PIPESIZE"
    by (simp add: pipe_full_count pipe_contents_def)
  show "pipe_ok q \<Longrightarrow> pipe_empty q \<longleftrightarrow> pipe_contents q = []"
    by (simp add: pipe_empty_count pipe_contents_def)
qed (rule pipe_contents_put pipe_contents_get; assumption)+

section \<open>The loops refine the queue\<close>

lemma sleep_begin_simps:
  assumes "sleep_begin ch k = Some k'"
  shows "env k' = env k" "cur k' = cur k" "length (procs k') = length (procs k)"
    "\<And>l. cur k \<noteq> Some l \<Longrightarrow> procs k' ! l = procs k ! l"
  using assms by (auto simp: sleep_begin_def)

text \<open>The bytes \<open>bs\<close> are what the user memory holds from \<open>addr + i\<close> on.\<close>

definition user_bytes :: "'e kapi \<Rightarrow> nat \<Rightarrow> u64 \<Rightarrow> int \<Rightarrow> bytes \<Rightarrow> 'e kstate \<Rightarrow> bool" where
  "user_bytes api pr addr i bs k \<longleftrightarrow> (\<forall>j < length bs. \<exists>ds.
     api_copyin api (pagetable (procs k ! pr)) (addr + of_int (i + int j)) 1 (env k) = Some ds \<and> hd ds = bs ! j)"

lemma user_bytes_Nil [simp]: "user_bytes api pr addr i [] k"
  by (simp add: user_bytes_def)

lemma user_bytes_Cons:
  "user_bytes api pr addr i (b # bs) k \<longleftrightarrow>
    (\<exists>ds. api_copyin api (pagetable (procs k ! pr)) (addr + of_int i) 1 (env k) = Some ds \<and> hd ds = b) \<and>
    user_bytes api pr addr (i + 1) bs k"
  by (simp add: user_bytes_def All_less_Suc2 ac_simps)

lemma struck_simps [simp]:
  "env (struck kl i pr k) = env k" "cur (struck kl i pr k) = cur k" "table_ok (struck kl i pr k) = table_ok k"
  by (simp_all add: struck_def setkilled_def table_ok_def)

lemma struck_other: "l \<noteq> pr \<Longrightarrow> procs (struck kl i pr k) ! l = procs k ! l"
  by (simp add: struck_def setkilled_def)

lemma struck_alive:
  assumes "table_ok k" "pr < NPROC"
  shows "killed pr (struck kl i pr k) = 0 \<longleftrightarrow> \<not> kl i \<and> killed pr k = 0"
    "\<not> kl i \<Longrightarrow> struck kl i pr k = k"
  using assms by (simp_all add: struck_def setkilled_def killed_def table_ok_def)

text \<open>
  One run of \<open>pipewrite\<close> from counter \<open>i\<close>: the bytes \<open>bs\<close> go into the pipe, and it ends with the counter
  behind them, or with \<open>-1\<close>.
\<close>

definition write_run :: "'e kapi \<Rightarrow> (int \<Rightarrow> bool) \<Rightarrow> nat \<Rightarrow> nat \<Rightarrow> u64 \<Rightarrow> int \<Rightarrow> int \<Rightarrow> pipe \<Rightarrow> 'e kstate \<Rightarrow> bytes \<Rightarrow>
    pipe_outcome \<Rightarrow> pipe \<Rightarrow> 'e kstate \<Rightarrow> bool" where
  "write_run api kl a pr addr n i pi k bs out pi' k' \<longleftrightarrow>
     pipe_ok pi' \<and> pipe_contents pi' = pipe_contents pi @ bs \<and> user_bytes api pr addr i bs k \<and>
     readopen pi' = readopen pi \<and> writeopen pi' = writeopen pi \<and> (\<forall>t < length bs. \<not> kl (i + int t)) \<and>
     (bs \<noteq> [] \<longrightarrow> i + int (length bs) \<le> n \<and> readopen pi \<and> killed pr k = 0) \<and>
     (let j = i + int (length bs) in case out of
        Pipe_return r \<Rightarrow>
          r = - 1 \<and> j < n \<and> (\<not> readopen pi \<or> killed pr k \<noteq> 0 \<or> kl j) \<and> k' = struck kl j pr k \<or>
          r = j \<and> n \<le> j \<and> k' = wakeup (ChPipeRead a) k \<or>
          r = j \<and> j < n \<and> \<not> pipe_full pi' \<and> k' = wakeup (ChPipeRead a) k \<and>
            api_copyin api (pagetable (procs k ! pr)) (addr + of_int j) 1 (env k) = None
      | Pipe_block r \<Rightarrow> r = j \<and> j < n \<and> readopen pi \<and> killed pr k = 0 \<and> \<not> kl j \<and> pipe_full pi' \<and>
          sleep_begin (ChPipeWrite a) (wakeup (ChPipeRead a) k) = Some k')"

lemma write_run_Nil:
  "pipe_ok pi \<Longrightarrow> write_run api kl a pr addr n i pi k [] out pi k' \<longleftrightarrow>
     (case out of
        Pipe_return r \<Rightarrow>
          r = - 1 \<and> i < n \<and> (\<not> readopen pi \<or> killed pr k \<noteq> 0 \<or> kl i) \<and> k' = struck kl i pr k \<or>
          r = i \<and> n \<le> i \<and> k' = wakeup (ChPipeRead a) k \<or>
          r = i \<and> i < n \<and> \<not> pipe_full pi \<and> k' = wakeup (ChPipeRead a) k \<and>
            api_copyin api (pagetable (procs k ! pr)) (addr + of_int i) 1 (env k) = None
      | Pipe_block r \<Rightarrow> r = i \<and> i < n \<and> readopen pi \<and> killed pr k = 0 \<and> \<not> kl i \<and> pipe_full pi \<and>
          sleep_begin (ChPipeWrite a) (wakeup (ChPipeRead a) k) = Some k')"
  by (simp add: write_run_def)

lemma write_run_Cons:
  assumes "write_run api kl a pr addr n (i + 1) (pipe_put b pi) k bs out pi' k'" "pipe_ok pi" "\<not> pipe_full pi" "i < n"
    "readopen pi" "killed pr k = 0" "\<not> kl i"
    "api_copyin api (pagetable (procs k ! pr)) (addr + of_int i) 1 (env k) = Some ds" "hd ds = b"
  shows "write_run api kl a pr addr n i pi k (b # bs) out pi' k'"
proof -
  have j: "i + int (length (b # bs)) = i + 1 + int (length bs)" by simp
  have o: "readopen (pipe_put b pi) = readopen pi" "writeopen (pipe_put b pi) = writeopen pi" by (simp_all add: pipe_put_def)
  have le: "i + 1 + int (length bs) \<le> n" using assms(1,4) by (cases "bs = []") (auto simp: write_run_def)
  have kl: "\<forall>t < length (b # bs). \<not> kl (i + int t)"
    using assms(1,7) by (simp add: write_run_def All_less_Suc2 ac_simps)
  show ?thesis
    using assms(1,5,6,8,9) le kl pipe_contents_put(2) [OF assms(2,3), of b]
    unfolding write_run_def Let_def j o user_bytes_Cons by auto
qed

lemma pipewrite_loop_spec:
  "\<lbrakk>pipe_ok pi; table_ok k; cur k = Some pr; pr < NPROC\<rbrakk> \<Longrightarrow>
   \<exists>out pi' k' bs. pipewrite_loop api kl a pr addr n i pi k = Some (out, pi', k') \<and>
     write_run api kl a pr addr n i pi k bs out pi' k'"
proof (induction api kl a pr addr n i pi k rule: pipewrite_loop.induct)
  case (1 api kl a pr addr n i pi k)
  note ok = 1(2) and t = 1(3) and c = 1(4) and pr = 1(5)
  note alive = struck_alive [OF t pr, of kl i]
  consider (fin) "\<not> i < n" | (stop) "i < n" "\<not> readopen pi \<or> killed pr k \<noteq> 0 \<or> kl i"
    | (full) "i < n" "readopen pi" "killed pr k = 0" "\<not> kl i" "pipe_full pi"
    | (fault) "i < n" "readopen pi" "killed pr k = 0" "\<not> kl i" "\<not> pipe_full pi"
        "api_copyin api (pagetable (procs k ! pr)) (addr + of_int i) 1 (env k) = None"
    | (byte) ds where "i < n" "readopen pi" "killed pr k = 0" "\<not> kl i" "\<not> pipe_full pi"
        "api_copyin api (pagetable (procs k ! pr)) (addr + of_int i) 1 (env k) = Some ds"
    by fastforce
  then show ?case
  proof cases
    case byte
    let ?pi = "pipe_put (hd ds) pi"
    have al: "killed pr (struck kl i pr k) = 0" "struck kl i pr k = k" using alive byte by simp_all
    have cond: "\<not> (\<not> readopen pi \<or> killed pr (struck kl i pr k) \<noteq> 0)" using al byte by simp
    have run: "pipewrite_loop api kl a pr addr n i pi k = pipewrite_loop api kl a pr addr n (i + 1) ?pi k"
      using byte al by (subst pipewrite_loop.simps) simp
    from 1(1) [OF byte(1) cond byte(5,6), unfolded al(2), OF pipe_contents_put(1) [OF ok byte(5)] t c pr]
    obtain out pi' k' bs where "pipewrite_loop api kl a pr addr n (i + 1) ?pi k = Some (out, pi', k')"
      and w: "write_run api kl a pr addr n (i + 1) ?pi k bs out pi' k'"
      by (elim exE conjE) (rule that)
    then have "pipewrite_loop api kl a pr addr n i pi k = Some (out, pi', k')" using run by simp
    moreover have "write_run api kl a pr addr n i pi k (hd ds # bs) out pi' k'"
      by (rule write_run_Cons [where ds = ds, OF w ok byte(5,1-3) byte(4,6)]) (rule refl)
    ultimately show ?thesis by blast
  next
    case fin
    then have "pipewrite_loop api kl a pr addr n i pi k = Some (Pipe_return i, pi, wakeup (ChPipeRead a) k)"
      by (subst pipewrite_loop.simps) simp
    then show ?thesis using fin write_run_Nil [OF ok] by (force intro!: exI [of _ "[]"])
  next
    case stop
    then have "pipewrite_loop api kl a pr addr n i pi k = Some (Pipe_return (- 1), pi, struck kl i pr k)"
      using alive by (subst pipewrite_loop.simps) auto
    then show ?thesis using stop write_run_Nil [OF ok] by (force intro!: exI [of _ "[]"])
  next
    case full
    have "\<exists>k'. sleep_begin (ChPipeWrite a) (wakeup (ChPipeRead a) k) = Some k'" using c t by (simp add: sleep_begin_def)
    then obtain k' where k': "sleep_begin (ChPipeWrite a) (wakeup (ChPipeRead a) k) = Some k'" by blast
    then have "pipewrite_loop api kl a pr addr n i pi k = Some (Pipe_block i, pi, k')"
      using full alive by (subst pipewrite_loop.simps) auto
    then show ?thesis using full k' write_run_Nil [OF ok] by (force intro!: exI [of _ "[]"])
  next
    case fault
    then have "pipewrite_loop api kl a pr addr n i pi k = Some (Pipe_return i, pi, wakeup (ChPipeRead a) k)"
      using alive by (subst pipewrite_loop.simps) auto
    then show ?thesis using fault write_run_Nil [OF ok] by (force intro!: exI [of _ "[]"])
  qed
qed

text \<open>The user memory after the bytes have been copied out one by one, from \<open>addr + i\<close> on; \<open>None\<close> when one is refused.\<close>

primrec copied_out :: "'e kapi \<Rightarrow> u64 \<Rightarrow> u64 \<Rightarrow> int \<Rightarrow> bytes \<Rightarrow> 'e \<Rightarrow> 'e option" where
  "copied_out api pt addr i [] e = Some e"
| "copied_out api pt addr i (b # bs) e =
    (case api_copyout api pt (addr + of_int i) [b] e of (c, e') \<Rightarrow>
       if c = - 1 then None else copied_out api pt addr (i + 1) bs e')"

text \<open>The bytes \<open>bs\<close> leave the pipe: all are delivered, or all but the last, which \<open>copyout\<close> refuses.\<close>

definition read_copies :: "'e kapi \<Rightarrow> u64 \<Rightarrow> u64 \<Rightarrow> int \<Rightarrow> int \<Rightarrow> bytes \<Rightarrow> bytes \<Rightarrow> int \<Rightarrow> 'e \<Rightarrow> 'e \<Rightarrow> bool" where
  "read_copies api pt addr n i bs rest r e e' \<longleftrightarrow> (bs \<noteq> [] \<longrightarrow> i + int (length bs) \<le> n) \<and>
     (r = i + int (length bs) \<and> (n \<le> r \<or> rest = []) \<and> copied_out api pt addr i bs e = Some e' \<or>
      (\<exists>ds b e1. bs = ds @ [b] \<and> r = i + int (length ds) \<and> copied_out api pt addr i ds e = Some e1 \<and>
        api_copyout api pt (addr + of_int r) [b] e1 = (- 1, e')))"

lemma piperead_copy_spec:
  "pipe_ok pi \<Longrightarrow> \<exists>r pi' bs e. piperead_copy api pr addr n i pi k = (r, pi', k\<lparr>env := e\<rparr>) \<and>
     pipe_ok pi' \<and> pipe_contents pi = bs @ pipe_contents pi' \<and> readopen pi' = readopen pi \<and> writeopen pi' = writeopen pi \<and>
     read_copies api (pagetable (procs k ! pr)) addr n i bs (pipe_contents pi') r (env k) e"
proof (induction api pr addr n i pi k rule: piperead_copy.induct)
  case (1 api pr addr n i pi k)
  note ok = 1(2)
  obtain ch pi1 where get: "pipe_get pi = (ch, pi1)" by force
  obtain c e where out: "api_copyout api (pagetable (procs k ! pr)) (addr + of_int i) [ch] (env k) = (c, e)" by force
  have fl: "readopen pi1 = readopen pi" "writeopen pi1 = writeopen pi" using get by (auto simp: pipe_get_def)
  consider (fin) "\<not> i < n" | (drained) "i < n" "pipe_empty pi" | (fault) "i < n" "\<not> pipe_empty pi" "c = - 1"
    | (byte) "i < n" "\<not> pipe_empty pi" "c \<noteq> - 1" by blast
  then show ?case
  proof cases
    case fin
    then have "piperead_copy api pr addr n i pi k = (i, pi, k\<lparr>env := env k\<rparr>)" by (subst piperead_copy.simps) simp
    then show ?thesis using fin ok
      by (intro exI [of _ i] exI [of _ pi] exI [of _ "[]"] exI [of _ "env k"]) (simp add: read_copies_def)
  next
    case drained
    then have "piperead_copy api pr addr n i pi k = (i, pi, k\<lparr>env := env k\<rparr>)" by (subst piperead_copy.simps) simp
    then show ?thesis using ok ring.empty_iff [OF ok] drained
      by (intro exI [of _ i] exI [of _ pi] exI [of _ "[]"] exI [of _ "env k"]) (simp add: read_copies_def)
  next
    case fault
    then have "piperead_copy api pr addr n i pi k = (i, pi1, k\<lparr>env := e\<rparr>)"
      using get out by (subst piperead_copy.simps) simp
    moreover have "read_copies api (pagetable (procs k ! pr)) addr n i [ch] (pipe_contents pi1) i (env k) e"
      using fault out by (simp add: read_copies_def)
    ultimately show ?thesis
      using fl pipe_contents_get [OF ok fault(2) get] by (intro exI [of _ i] exI [of _ pi1] exI [of _ "[ch]"] exI [of _ e]) simp
  next
    case byte
    note g = pipe_contents_get [OF ok byte(2) get]
    have run: "piperead_copy api pr addr n i pi k = piperead_copy api pr addr n (i + 1) pi1 (k\<lparr>env := e\<rparr>)"
      using get out byte by (subst piperead_copy.simps) simp
    from 1(1) [OF byte(1,2) get [symmetric] out [symmetric] byte(3) g(1)]
    obtain r pi' bs e' where ih: "piperead_copy api pr addr n (i + 1) pi1 (k\<lparr>env := e\<rparr>) = (r, pi', k\<lparr>env := e\<rparr>\<lparr>env := e'\<rparr>)"
      "pipe_ok pi'" "pipe_contents pi1 = bs @ pipe_contents pi'" "readopen pi' = readopen pi1" "writeopen pi' = writeopen pi1"
      "read_copies api (pagetable (procs (k\<lparr>env := e\<rparr>) ! pr)) addr n (i + 1) bs (pipe_contents pi') r (env (k\<lparr>env := e\<rparr>)) e'"
      by (elim exE conjE) (rule that)
    have "read_copies api (pagetable (procs k ! pr)) addr n i (ch # bs) (pipe_contents pi') r (env k) e'"
    proof -
      have le: "i + int (length (ch # bs)) \<le> n" using ih(6) byte(1) by (cases bs) (auto simp: read_copies_def)
      consider (all) "r = i + 1 + int (length bs)" "n \<le> r \<or> pipe_contents pi' = []"
          "copied_out api (pagetable (procs k ! pr)) addr (i + 1) bs e = Some e'"
        | (some) ds b e1 where "bs = ds @ [b]" "r = i + 1 + int (length ds)"
          "copied_out api (pagetable (procs k ! pr)) addr (i + 1) ds e = Some e1"
          "api_copyout api (pagetable (procs k ! pr)) (addr + of_int r) [b] e1 = (- 1, e')"
        using ih(6) by (auto simp: read_copies_def)
      then show ?thesis
      proof cases
        case all
        then show ?thesis using le out byte(3) by (simp add: read_copies_def)
      next
        case some
        then have "ch # bs = (ch # ds) @ [b]" "r = i + int (length (ch # ds))"
          "copied_out api (pagetable (procs k ! pr)) addr i (ch # ds) (env k) = Some e1"
          using out byte(3) by simp_all
        with some(4) le show ?thesis unfolding read_copies_def by blast
      qed
    qed
    then show ?thesis
      using ih(1-5) g fl run by (intro exI [of _ r] exI [of _ pi'] exI [of _ "ch # bs"] exI [of _ e']) simp
  qed
qed

lemma piperead_run:
  assumes "pipe_ok pi" "cur k = Some pr" "\<not> (pipe_empty pi \<and> writeopen pi)"
  shows "\<exists>r pi' bs e. piperead api a addr n pi k = Some (Pipe_return r, pi', wakeup (ChPipeWrite a) (k\<lparr>env := e\<rparr>)) \<and>
    pipe_ok pi' \<and> pipe_contents pi = bs @ pipe_contents pi' \<and>
    read_copies api (pagetable (procs k ! pr)) addr n 0 bs (pipe_contents pi') r (env k) e"
proof -
  obtain r pi' bs e where c: "piperead_copy api pr addr n 0 pi k = (r, pi', k\<lparr>env := e\<rparr>)"
    "pipe_ok pi'" "pipe_contents pi = bs @ pipe_contents pi'"
    "read_copies api (pagetable (procs k ! pr)) addr n 0 bs (pipe_contents pi') r (env k) e"
    using piperead_copy_spec [OF assms(1), of api pr addr n 0 k] by (elim exE conjE) (rule that)
  have "piperead api a addr n pi k = Some (Pipe_return r, pi', wakeup (ChPipeWrite a) (k\<lparr>env := e\<rparr>))"
    using assms(2,3) c(1) by (auto simp: piperead_def)
  then show ?thesis using c(2-4) by (intro exI conjI)
qed

section \<open>Properties of pipes\<close>

text \<open>
  C30: The ring buffer refines a FIFO of at most 512 bytes, also when the 32-bit counters wrap.
  A run of \<open>pipewrite\<close>, from its start or from the counter \<open>i\<close> at which it slept, always comes to an
  outcome. It appends bytes of the user's buffer in order, and reports the counter behind them:
  returning it when all \<open>n\<close> are in or \<open>copyin\<close> refuses the next byte, sleeping with it when the pipe
  is full. It returns -1 only when the read end is closed or the caller was killed, before its first
  byte or, by another CPU, at the counter it has reached. \<open>piperead\<close> returns -1 for a killed caller or
  sleeps only when the pipe is empty with an open write end. Otherwise it removes bytes from the front
  and delivers them to the user's buffer in order; it reports as many as it removed, \<open>n\<close> unless the
  pipe is drained, or one less, when \<open>copyout\<close> refuses the last.
\<close>

theorem pipe_refines_fifo:
  assumes "pipe_ok pi" "table_ok k" "cur k = Some pr" "pr < NPROC"
  shows "pipewrite api kl a addr n pi k = pipewrite_loop api kl a pr addr n 0 pi k \<and>
    (\<exists>out pi' k' bs. pipewrite_loop api kl a pr addr n i pi k = Some (out, pi', k') \<and>
      pipe_ok pi' \<and> pipe_contents pi' = pipe_contents pi @ bs \<and> length (pipe_contents pi') \<le> 512 \<and>
      user_bytes api pr addr i bs k \<and> (bs \<noteq> [] \<longrightarrow> i + int (length bs) \<le> n \<and> readopen pi \<and> killed pr k = 0) \<and>
      (let j = i + int (length bs) in case out of
         Pipe_return r \<Rightarrow> r = j \<and> n \<le> j \<or>
           r = j \<and> api_copyin api (pagetable (procs k ! pr)) (addr + of_int j) 1 (env k) = None \<or>
           r = - 1 \<and> j < n \<and> (\<not> readopen pi \<or> killed pr k \<noteq> 0 \<or> kl j)
       | Pipe_block r \<Rightarrow> r = j \<and> j < n \<and> length (pipe_contents pi') = 512)) \<and>
    (\<exists>out pi' k'. piperead api a addr n pi k = Some (out, pi', k') \<and>
      (if pipe_contents pi = [] \<and> writeopen pi
       then pi' = pi \<and> out = (if killed pr k \<noteq> 0 then Pipe_return (- 1) else Pipe_block 0)
       else \<exists>r bs e. out = Pipe_return r \<and> k' = wakeup (ChPipeWrite a) (k\<lparr>env := e\<rparr>) \<and>
         pipe_ok pi' \<and> pipe_contents pi = bs @ pipe_contents pi' \<and> (bs \<noteq> [] \<longrightarrow> int (length bs) \<le> n) \<and>
         (r = int (length bs) \<and> (n \<le> r \<or> pipe_contents pi' = []) \<and>
            copied_out api (pagetable (procs k ! pr)) addr 0 bs (env k) = Some e \<or>
          (\<exists>ds b e1. bs = ds @ [b] \<and> r = int (length ds) \<and>
            copied_out api (pagetable (procs k ! pr)) addr 0 ds (env k) = Some e1 \<and>
            api_copyout api (pagetable (procs k ! pr)) (addr + of_int r) [b] e1 = (- 1, e)))))"
proof (intro conjI)
  show "pipewrite api kl a addr n pi k = pipewrite_loop api kl a pr addr n 0 pi k"
    using assms(3) by (simp add: pipewrite_def)
  obtain out pi' k' bs where w: "pipewrite_loop api kl a pr addr n i pi k = Some (out, pi', k')"
    "write_run api kl a pr addr n i pi k bs out pi' k'"
    using pipewrite_loop_spec [OF assms] by blast
  have ok: "pipe_ok pi'" using w(2) by (simp add: write_run_def)
  have "length (pipe_contents pi') \<le> 512" "pipe_full pi' \<longleftrightarrow> length (pipe_contents pi') = 512"
    using ring.bound [OF ok] ring.full_iff [OF ok] by (simp_all add: PIPESIZE_def)
  with w show "\<exists>out pi' k' bs. pipewrite_loop api kl a pr addr n i pi k = Some (out, pi', k') \<and>
      pipe_ok pi' \<and> pipe_contents pi' = pipe_contents pi @ bs \<and> length (pipe_contents pi') \<le> 512 \<and>
      user_bytes api pr addr i bs k \<and> (bs \<noteq> [] \<longrightarrow> i + int (length bs) \<le> n \<and> readopen pi \<and> killed pr k = 0) \<and>
      (let j = i + int (length bs) in case out of
         Pipe_return r \<Rightarrow> r = j \<and> n \<le> j \<or>
           r = j \<and> api_copyin api (pagetable (procs k ! pr)) (addr + of_int j) 1 (env k) = None \<or>
           r = - 1 \<and> j < n \<and> (\<not> readopen pi \<or> killed pr k \<noteq> 0 \<or> kl j)
       | Pipe_block r \<Rightarrow> r = j \<and> j < n \<and> length (pipe_contents pi') = 512)"
    by (intro exI [of _ out] exI [of _ pi'] exI [of _ k'] exI [of _ bs])
      (auto simp: write_run_def Let_def split: pipe_outcome.splits)
  show "\<exists>out pi' k'. piperead api a addr n pi k = Some (out, pi', k') \<and>
      (if pipe_contents pi = [] \<and> writeopen pi
       then pi' = pi \<and> out = (if killed pr k \<noteq> 0 then Pipe_return (- 1) else Pipe_block 0)
       else \<exists>r bs e. out = Pipe_return r \<and> k' = wakeup (ChPipeWrite a) (k\<lparr>env := e\<rparr>) \<and>
         pipe_ok pi' \<and> pipe_contents pi = bs @ pipe_contents pi' \<and> (bs \<noteq> [] \<longrightarrow> int (length bs) \<le> n) \<and>
         (r = int (length bs) \<and> (n \<le> r \<or> pipe_contents pi' = []) \<and>
            copied_out api (pagetable (procs k ! pr)) addr 0 bs (env k) = Some e \<or>
          (\<exists>ds b e1. bs = ds @ [b] \<and> r = int (length ds) \<and>
            copied_out api (pagetable (procs k ! pr)) addr 0 ds (env k) = Some e1 \<and>
            api_copyout api (pagetable (procs k ! pr)) (addr + of_int r) [b] e1 = (- 1, e))))"
  proof (cases "pipe_contents pi = [] \<and> writeopen pi")
    case True
    then show ?thesis
      using assms(3) ring.empty_iff [OF assms(1)] by (auto simp: piperead_def sleep_begin_def)
  next
    case False
    then have ne: "\<not> (pipe_empty pi \<and> writeopen pi)" using ring.empty_iff [OF assms(1)] by simp
    obtain r pi' bs e where c: "piperead api a addr n pi k = Some (Pipe_return r, pi', wakeup (ChPipeWrite a) (k\<lparr>env := e\<rparr>))"
      "pipe_ok pi'" "pipe_contents pi = bs @ pipe_contents pi'"
      "read_copies api (pagetable (procs k ! pr)) addr n 0 bs (pipe_contents pi') r (env k) e"
      using piperead_run [OF assms(1,3) ne, of api a addr n] by (elim exE conjE) (rule that)
    from c(4) have d: "bs \<noteq> [] \<longrightarrow> int (length bs) \<le> n"
      "r = int (length bs) \<and> (n \<le> r \<or> pipe_contents pi' = []) \<and>
         copied_out api (pagetable (procs k ! pr)) addr 0 bs (env k) = Some e \<or>
       (\<exists>ds b e1. bs = ds @ [b] \<and> r = int (length ds) \<and>
         copied_out api (pagetable (procs k ! pr)) addr 0 ds (env k) = Some e1 \<and>
         api_copyout api (pagetable (procs k ! pr)) (addr + of_int r) [b] e1 = (- 1, e))"
      unfolding read_copies_def add_0 by (rule conjunct1, rule conjunct2)
    show ?thesis
      unfolding if_not_P [OF False] by (intro exI conjI, rule c(1), rule refl, rule refl, rule c(2), rule c(3), rule d(1), rule d(2))
  qed
qed


text \<open>
  C32: A wake-up that is lost: a reader asleep on the empty pipe, a writer that stores its first byte and is
  then killed by another CPU. \<open>pipewrite\<close> returns -1, the byte is in the pipe, and the reader sleeps on.
\<close>

theorem killed_writer_wakes_nobody:
  assumes "pipe_ok pi" "pipe_contents pi = []" "readopen pi" "table_ok k" "cur k = Some pr" "pr < NPROC" "killed pr k = 0"
    and "1 < n" "\<not> kl 0" "kl 1" "api_copyin api (pagetable (procs k ! pr)) addr 1 (env k) = Some [b]"
    and "l < NPROC" "l \<noteq> pr" "pstate (procs k ! l) = SLEEPING" "pchan (procs k ! l) = ChPipeRead a"
  shows "\<exists>pi' k'. pipewrite api kl a addr n pi k = Some (Pipe_return (- 1), pi', k') \<and> pipe_contents pi' = [b] \<and>
    pstate (procs k' ! l) = SLEEPING \<and> pchan (procs k' ! l) = ChPipeRead a"
proof -
  have ne: "\<not> pipe_full pi" using ring.full_iff [OF assms(1)] assms(2) by (simp add: PIPESIZE_def)
  note s0 = struck_alive [OF assms(4,6), of kl 0] and s1 = struck_alive [OF assms(4,6), of kl 1]
  have "pipewrite_loop api kl a pr addr n 0 pi k = pipewrite_loop api kl a pr addr n 1 (pipe_put b pi) k"
    using assms(3,7-11) ne s0 by (subst pipewrite_loop.simps) simp
  also have "\<dots> = Some (Pipe_return (- 1), pipe_put b pi, struck kl 1 pr k)"
    using assms(8,10) s1 by (subst pipewrite_loop.simps) simp
  finally show ?thesis
    using assms(2,5,14,15) pipe_contents_put(2) [OF assms(1) ne, of b] struck_other [OF assms(13), of kl 1 k]
    by (simp add: pipewrite_def)
qed

definition demo_pipe :: pipe where
  "demo_pipe = \<lparr>pdata = replicate 512 0, nread = 4294967295, nwrite = 0, readopen = True, writeopen = False\<rparr>"

lemma demo_pipe_ok: "pipe_ok demo_pipe" "pipe_contents demo_pipe = [0]" "table_ok demo" "cur demo = Some 2"
  by (simp_all add: pipe_ok_def pipe_count_def demo_pipe_def PIPESIZE_def pipe_contents_def table_ok_def
      demo_def NPROC_def)

lemma demo_alive: "(2::nat) < NPROC" "killed 2 demo = 0"
  by (simp_all add: NPROC_def killed_def demo_nth demo_proc_def proc_zero_def)

theorem pipe_refines_fifo_witness:
  "\<exists>pi' k'. pipewrite (demo_api\<lparr>api_copyin := \<lambda>_ _ _ _. Some [65]\<rparr>) (\<lambda>_. False) 0 0 2 demo_pipe demo =
      Some (Pipe_return 2, pi', k') \<and> pipe_contents pi' = [0, 65, 65]"
proof -
  let ?api = "demo_api\<lparr>api_copyin := \<lambda>_ _ _ _. Some [65]\<rparr>"
  have o: "readopen demo_pipe" by (simp add: demo_pipe_def)
  note f = pipe_refines_fifo [OF demo_pipe_ok(1,3,4) demo_alive(1), of ?api "\<lambda>_. False" 0 0 2 0]
  from conjunct1 [OF conjunct2 [OF f]] obtain out pi' k' bs where w: "pipewrite_loop ?api (\<lambda>_. False) 0 2 0 2 0 demo_pipe demo = Some (out, pi', k')"
    "pipe_contents pi' = pipe_contents demo_pipe @ bs" "user_bytes ?api 2 0 0 bs demo" "bs \<noteq> [] \<longrightarrow> 0 + int (length bs) \<le> 2 \<and> readopen demo_pipe \<and> killed 2 demo = 0"
    "let j = 0 + int (length bs) in case out of
         Pipe_return r \<Rightarrow> r = j \<and> 2 \<le> j \<or> r = j \<and> api_copyin ?api (pagetable (procs demo ! 2)) (0 + of_int j) 1 (env demo) = None \<or>
           r = - 1 \<and> j < 2 \<and> (\<not> readopen demo_pipe \<or> killed 2 demo \<noteq> 0 \<or> False)
       | Pipe_block r \<Rightarrow> r = j \<and> j < 2 \<and> length (pipe_contents pi') = 512"
    by (elim exE conjE) (rule that)
  have c: "pipe_contents pi' = 0 # bs" using w(2) by (simp add: demo_pipe_ok(2))
  have le: "length bs \<le> 2" using w(4) by (cases "bs = []") auto
  have out: "out = Pipe_return (int (length bs)) \<and> 2 \<le> length bs"
    using w(5) o demo_alive(2) c le by (auto simp: Let_def split: pipe_outcome.splits)
  moreover from this le have two: "length bs = 2" by simp
  moreover have "bs = [65, 65]"
    using w(3) two by (auto simp: user_bytes_def intro!: nth_equalityI simp: less_2_cases_iff)
  ultimately show ?thesis using w(1) c conjunct1 [OF f] by auto
qed


theorem killed_writer_wakes_nobody_witness:
  "\<exists>pi' k'. pipewrite (demo_api\<lparr>api_copyin := \<lambda>_ _ _ _. Some [65]\<rparr>) (\<lambda>i. i = 1) 0 0 2 (demo_pipe\<lparr>nread := 0\<rparr>)
      (upd_proc 1 (\<lambda>p. p\<lparr>pstate := SLEEPING, pchan := ChPipeRead 0\<rparr>) demo) = Some (Pipe_return (- 1), pi', k') \<and>
    pipe_contents pi' = [65] \<and> pstate (procs k' ! 1) = SLEEPING"
proof -
  let ?k = "upd_proc 1 (\<lambda>p. p\<lparr>pstate := SLEEPING, pchan := ChPipeRead 0\<rparr>) demo" and ?pi = "demo_pipe\<lparr>nread := 0\<rparr>"
  have k: "table_ok ?k" "cur ?k = Some 2" "killed 2 ?k = 0" "pstate (procs ?k ! 1) = SLEEPING" "pchan (procs ?k ! 1) = ChPipeRead 0"
    "(1::nat) < NPROC" "(1::nat) \<noteq> 2"
    using demo_pipe_ok(3,4) demo_alive(2) by (simp_all add: table_ok_def killed_def upd_proc_def NPROC_def)
  have p: "pipe_ok ?pi" "pipe_contents ?pi = []" "readopen ?pi"
    by (simp_all add: pipe_ok_def pipe_count_def demo_pipe_def PIPESIZE_def pipe_contents_def)
  show ?thesis
    using killed_writer_wakes_nobody [OF p k(1,2) demo_alive(1) k(3), of 2 "\<lambda>i. i = 1" "demo_api\<lparr>api_copyin := \<lambda>_ _ _ _. Some [65]\<rparr>" 0 65 1 0]
      k(4-7) by auto
qed

section \<open>The life of a pipe\<close>

lemma upd_file_simps [simp]:
  "length (ftable (upd_file f g s)) = length (ftable s)" "fk (upd_file f g s) = fk s"
  "pipes (upd_file f g s) = pipes s"
  by (simp_all add: upd_file_def)

lemma ftable_upd_file:
  "h < length (ftable s) \<Longrightarrow> ftable (upd_file f g s) ! h = (if f = h then g (ftable s ! h) else ftable s ! h)"
  by (simp add: upd_file_def nth_list_update)

lemma filealloc_Some:
  assumes "filealloc s = (Some f, s')"
  shows "f < NFILE" "f_ref (ftable s ! f) = 0" "s' = upd_file f (\<lambda>x. x\<lparr>f_ref := 1\<rparr>) s"
  using assms by (auto simp: filealloc_def find_Some_iff split: option.splits)

text \<open>
  A pipe that \<open>pipealloc\<close> makes has two distinct files that were free, one readable and one
  writable, on an empty buffer; closing one end and then the other frees both files and returns the
  page to the allocator, exactly once and only at the second close.
\<close>

theorem pipe_lifecycle:
  assumes len: "length (ftable s) = NFILE" and tok: "table_ok (fk s)"
    and pa: "pipealloc api s = Some (Inr (f0, f1), s')" and pg: "api_kalloc api (env (fk s)) = (pg, e)"
  shows "f0 \<noteq> f1 \<and> f_ref (ftable s ! f0) = 0 \<and> f_ref (ftable s ! f1) = 0 \<and>
    pipe_empty (pipes s' (unat pg)) \<and>
    f_readable (ftable s' ! f0) \<and> \<not> f_writable (ftable s' ! f0) \<and>
    \<not> f_readable (ftable s' ! f1) \<and> f_writable (ftable s' ! f1) \<and>
    (\<exists>s1 s2. fileclose api f0 s' = Some s1 \<and> env (fk s1) = e \<and>
       fileclose api f1 s1 = Some s2 \<and> env (fk s2) = api_kfree api pg e \<and>
       (\<forall>f < NFILE. f_ref (ftable s2 ! f) = f_ref (ftable s ! f)))"
proof -
  obtain s1 where a0: "filealloc s = (Some f0, s1)"
    using pa by (auto simp: pipealloc_def Let_def split: prod.splits option.splits if_splits bind_splits)
  obtain s2 where a1: "filealloc s1 = (Some f1, s2)"
    using pa a0 by (auto simp: pipealloc_def Let_def split: prod.splits option.splits if_splits bind_splits)
  note f0 = filealloc_Some [OF a0] and f1 = filealloc_Some [OF a1]
  have ne: "f0 \<noteq> f1" using f1(2) f0(1,3) len by (auto simp: ftable_upd_file)
  have ref1: "f_ref (ftable s ! f1) = 0" using f1(1,2) f0(3) ne len by (simp add: ftable_upd_file)
  have e2: "env (fk s2) = env (fk s)" by (simp add: f1(3) f0(3))
  have pg0: "pg \<noteq> 0" using pa a0 a1 pg e2 by (auto simp: pipealloc_def Let_def bind_eq_Some_conv split: if_splits)
  define a where "a = unat pg"
  have s': "s' = upd_file f1 (\<lambda>x. x\<lparr>f_type := FD_PIPE, f_readable := False, f_writable := True, f_pipe := a\<rparr>)
     (upd_file f0 (\<lambda>x. x\<lparr>f_type := FD_PIPE, f_readable := True, f_writable := False, f_pipe := a\<rparr>)
       (s2\<lparr>fk := (fk s2)\<lparr>env := e\<rparr>, pipes := (pipes s2)(a := new_pipe (pipes s2 a))\<rparr>))"
    using pa a0 a1 pg e2 pg0 by (simp add: pipealloc_def Let_def a_def)
  have t': "table_ok (fk s')" "fk s' = (fk s)\<lparr>env := e\<rparr>" using tok by (simp_all add: s' f1(3) f0(3) table_ok_def)
  have file0: "ftable s' ! f0 = (ftable s ! f0)\<lparr>f_ref := 1, f_type := FD_PIPE, f_readable := True, f_writable := False, f_pipe := a\<rparr>"
    using ne f0 f1 len by (simp add: s' ftable_upd_file)
  have file1: "ftable s' ! f1 = (ftable s ! f1)\<lparr>f_ref := 1, f_type := FD_PIPE, f_readable := False, f_writable := True, f_pipe := a\<rparr>"
    using ne f0 f1 len by (simp add: s' ftable_upd_file)
  have other: "ftable s' ! f = ftable s ! f" if "f < NFILE" "f \<noteq> f0" "f \<noteq> f1" for f
    using that f0 f1 len by (simp add: s' ftable_upd_file)
  have len': "length (ftable s') = NFILE" using len by (simp add: s' f1(3) f0(3))
  have pipe: "pipes s' a = new_pipe (pipes s2 a)" by (simp add: s')
  define t1 where "t1 = pipeclose api a False (upd_file f0 (\<lambda>x. x\<lparr>f_ref := 0, f_type := FD_NONE\<rparr>) s')"
  have c0: "fileclose api f0 s' = Some t1"
    by (simp add: fileclose_def Let_def file0 t1_def)
  have t1: "ftable t1 = ftable (upd_file f0 (\<lambda>x. x\<lparr>f_ref := 0, f_type := FD_NONE\<rparr>) s')"
    "fk t1 = wakeup (ChPipeWrite a) (fk s')" "pipes t1 a = (new_pipe (pipes s2 a))\<lparr>readopen := False\<rparr>"
    by (simp_all add: t1_def pipeclose_def Let_def pipe new_pipe_def)
  have file1': "ftable t1 ! f1 = ftable s' ! f1"
    using ne f1(1) len' by (simp add: t1 ftable_upd_file)
  define t2 where "t2 = pipeclose api a True (upd_file f1 (\<lambda>x. x\<lparr>f_ref := 0, f_type := FD_NONE\<rparr>) t1)"
  have c1: "fileclose api f1 t1 = Some t2"
    by (simp add: fileclose_def Let_def file1' file1 t2_def)
  have t2: "ftable t2 = ftable (upd_file f1 (\<lambda>x. x\<lparr>f_ref := 0, f_type := FD_NONE\<rparr>) t1)"
    "env (fk t2) = api_kfree api (of_nat a) (env (wakeup (ChPipeRead a) (fk t1)))"
    by (simp_all add: t2_def pipeclose_def Let_def t1 new_pipe_def)
  have "env (fk t1) = e" "env (fk t2) = api_kfree api pg e"
    using t' by (simp_all add: t1 t2 a_def)
  moreover have "f_ref (ftable t2 ! f) = f_ref (ftable s ! f)" if "f < NFILE" for f
    using that len' ne f0(1,2) f1(1) ref1 other [OF that] t1(1) by (auto simp: t2 ftable_upd_file)
  ultimately show ?thesis
    using ne f0(2) ref1 c0 c1 file0 file1 pipe by (auto simp: a_def [symmetric] new_pipe_def pipe_empty_def)
qed

definition demo_files :: "unit fstate" where
  "demo_files = \<lparr>fk = demo, ftable = replicate 100 \<lparr>f_type = FD_NONE, f_ref = 0, f_readable = False,
     f_writable = False, f_pipe = 0, f_ip = 0, f_off = 0, f_major = 0\<rparr>, pipes = (\<lambda>_. demo_pipe)\<rparr>"

theorem pipe_lifecycle_witness:
  "\<exists>s' s1 s2. pipealloc demo_api demo_files = Some (Inr (0, 1), s') \<and>
     fileclose demo_api 0 s' = Some s1 \<and> fileclose demo_api 1 s1 = Some s2"
proof -
  have a0: "filealloc demo_files = (Some 0, upd_file 0 (\<lambda>x. x\<lparr>f_ref := 1\<rparr>) demo_files)"
    by (simp add: filealloc_def demo_files_def NFILE_def upt_conv_Cons)
  have a1: "filealloc (upd_file 0 (\<lambda>x. x\<lparr>f_ref := 1\<rparr>) demo_files) =
      (Some 1, upd_file 1 (\<lambda>x. x\<lparr>f_ref := 1\<rparr>) (upd_file 0 (\<lambda>x. x\<lparr>f_ref := 1\<rparr>) demo_files))"
    by (simp add: filealloc_def demo_files_def NFILE_def upt_conv_Cons upd_file_def)
  have "\<exists>s'. pipealloc demo_api demo_files = Some (Inr (0, 1), s')"
    by (simp add: pipealloc_def a0 a1 Let_def demo_api_def)
  then obtain s' where p: "pipealloc demo_api demo_files = Some (Inr (0, 1), s')" by blast
  have "length (ftable demo_files) = NFILE" "table_ok (fk demo_files)"
    "api_kalloc demo_api (env (fk demo_files)) = (4096, ())"
    using demo_pipe_ok(3) by (simp_all add: demo_files_def NFILE_def demo_api_def)
  from pipe_lifecycle [OF this(1,2) p this(3)] p show ?thesis by blast
qed

end
