(* ===== verification/X_Sem.thy ===== *)
theory X_Sem
  imports X_Lock X_Proc_Wf
begin

text \<open>
  The semaphores added in \<open>Lab2\<close> (\<open>kernel/sem.c\<close>). The four system calls are given twice: as they run on a CPU, with the spin
  lock and the array bounds, and as the atomic sections the lock makes of \<open>sem_up\<close> and \<open>sem_down\<close>,
  from which the step relation of the interleavings is built.
\<close>

section \<open>The system calls\<close>

definition N_SEM :: nat where "N_SEM = 10"

record semaphore =
  sactive :: int
  svalue :: int
  slock :: spinlock

text \<open>The globals of \<open>sem.c\<close>: the array, and \<open>sem\<close> and \<open>value\<close>, into which \<open>argint\<close> stores; \<open>scpu\<close> is the CPU.\<close>

record 'e semstate =
  sk :: "'e kstate"
  sem_a :: "semaphore list"
  sem_g :: int
  value_g :: int
  scpu :: cpu

datatype sem_outcome = Sem_return int | Sem_spin | Sem_sleep | Sem_exit

text \<open>\<open>a[b]\<close>, and its update; an index outside the array has no defined outcome.\<close>

definition sem_at :: "int \<Rightarrow> 'e semstate \<Rightarrow> semaphore option" where
  "sem_at b s = (if 0 \<le> b \<and> b < int (length (sem_a s)) then Some (sem_a s ! nat b) else None)"

definition set_sem :: "int \<Rightarrow> semaphore \<Rightarrow> 'e semstate \<Rightarrow> 'e semstate" where
  "set_sem b x s = s\<lparr>sem_a := (sem_a s)[nat b := x]\<rparr>"

text \<open>\<open>value\<close> is an \<open>int\<close>: past its range the increment has no defined outcome.\<close>

definition value_plus :: "int \<Rightarrow> int option" where
  "value_plus v = (if v < 2147483647 then Some (v + 1) else None)"

text \<open>
  The call \<open>sem_open(n, v)\<close> on CPU \<open>c\<close>. The lock is initialised whether or not the semaphore is in
  use; it is released only on the branch that activates the semaphore.
\<close>

definition sys_sem_open :: "'e kapi \<Rightarrow> nat \<Rightarrow> int \<Rightarrow> int \<Rightarrow> 'e semstate \<Rightarrow> (sem_outcome \<times> 'e semstate) option" where
  "sys_sem_open api c n v s =
    (let s0 = s\<lparr>sem_g := n, value_g := v\<rparr>; b = sem_g s0
     in if b > int N_SEM then do {
          k \<leftarrow> exit_proc api 1 (sk s0);
          Some (Sem_exit, s0\<lparr>sk := k\<rparr>) }
        else do {
          x \<leftarrow> sem_at b s0;
          (got, c1, lk) \<leftarrow> acquire c (scpu s0) initlock;
          let x1 = x\<lparr>slock := lk\<rparr>; s1 = s0\<lparr>scpu := c1\<rparr>
          in if sactive x1 = 0 then do {
               let x2 = x1\<lparr>sactive := 1, svalue := value_g s1\<rparr>;
               (c2, lk') \<leftarrow> release c c1 (slock x2);
               Some (Sem_return b, set_sem b (x2\<lparr>slock := lk'\<rparr>) (s1\<lparr>scpu := c2\<rparr>)) }
             else Some (Sem_return b, set_sem b x1 s1) })"

definition sys_sem_up :: "nat \<Rightarrow> int \<Rightarrow> 'e semstate \<Rightarrow> (sem_outcome \<times> 'e semstate) option" where
  "sys_sem_up c n s =
    (let s0 = s\<lparr>sem_g := n\<rparr>; b = sem_g s0
     in do {
       x \<leftarrow> sem_at b s0;
       (got, c1, lk) \<leftarrow> acquire c (scpu s0) (slock x);
       let s1 = s0\<lparr>scpu := c1\<rparr>
       in if \<not> got then Some (Sem_spin, s1)
          else do {
            let s2 = (if svalue x \<ge> 0 then s1\<lparr>sk := wakeup (ChSem b) (sk s1)\<rparr> else s1);
            v \<leftarrow> value_plus (svalue x);
            (c2, lk') \<leftarrow> release c c1 lk;
            Some (Sem_return b, set_sem b (x\<lparr>svalue := v, slock := lk'\<rparr>) (s2\<lparr>scpu := c2\<rparr>)) } })"

text \<open>
  \<open>sem_down\<close> up to where it returns or sleeps; woken, it takes the lock again and repeats the test,
  which is a new run of this definition. \<open>sleep\<close> releases the semaphore's lock.
\<close>

definition sys_sem_down :: "nat \<Rightarrow> int \<Rightarrow> 'e semstate \<Rightarrow> (sem_outcome \<times> 'e semstate) option" where
  "sys_sem_down c n s =
    (let s0 = s\<lparr>sem_g := n\<rparr>; b = sem_g s0
     in do {
       x \<leftarrow> sem_at b s0;
       (got, c1, lk) \<leftarrow> acquire c (scpu s0) (slock x);
       let s1 = s0\<lparr>scpu := c1\<rparr>
       in if \<not> got then Some (Sem_spin, s1)
          else if svalue x \<le> 0 then do {
            (c2, lk') \<leftarrow> release c c1 lk;
            k \<leftarrow> sleep_begin (ChSem b) (sk s1);
            Some (Sem_sleep, set_sem b (x\<lparr>slock := lk'\<rparr>) (s1\<lparr>scpu := c2, sk := k\<rparr>)) }
          else do {
            (c2, lk') \<leftarrow> release c c1 lk;
            Some (Sem_return b, set_sem b (x\<lparr>svalue := svalue x - 1, slock := lk'\<rparr>) (s1\<lparr>scpu := c2\<rparr>)) } })"

definition sys_sem_close :: "nat \<Rightarrow> int \<Rightarrow> 'e semstate \<Rightarrow> (sem_outcome \<times> 'e semstate) option" where
  "sys_sem_close c n s =
    (let s0 = s\<lparr>sem_g := n\<rparr>; b = sem_g s0
     in do {
       x \<leftarrow> sem_at b s0;
       (got, c1, lk) \<leftarrow> acquire c (scpu s0) (slock x);
       let s1 = s0\<lparr>scpu := c1\<rparr>
       in if \<not> got then Some (Sem_spin, s1)
          else do {
            (c2, lk') \<leftarrow> release c c1 lk;
            Some (Sem_return b, set_sem b (x\<lparr>sactive := 0, slock := lk'\<rparr>) (s1\<lparr>scpu := c2\<rparr>)) } })"

section \<open>The atomic sections and their interleavings\<close>

definition up_section :: "int \<Rightarrow> int \<times> 'e kstate \<Rightarrow> (int \<times> 'e kstate) option" where
  "up_section b vk = (case vk of (v, k) \<Rightarrow>
     let k' = (if v \<ge> 0 then wakeup (ChSem b) k else k)
     in do { v' \<leftarrow> value_plus v; Some (v', k') })"

text \<open>\<open>Inl\<close>: the caller sleeps; \<open>Inr\<close>: it has passed.\<close>

definition down_section :: "int \<Rightarrow> int \<times> 'e kstate \<Rightarrow> ((int \<times> 'e kstate) + (int \<times> 'e kstate)) option" where
  "down_section b vk = (case vk of (v, k) \<Rightarrow>
     if v \<le> 0 then do { k' \<leftarrow> sleep_begin (ChSem b) k; Some (Inl (v, k')) } else Some (Inr (v - 1, k)))"

text \<open>The value, the completed \<open>up\<close>s and \<open>down\<close>s, and the kernel.\<close>

record 'e semsys =
  sv :: int
  ups :: int
  downs :: int
  kern :: "'e kstate"

definition asleep_on :: "chan \<Rightarrow> 'e kstate \<Rightarrow> bool" where
  "asleep_on ch k \<longleftrightarrow> (\<exists>l < NPROC. pstate (procs k ! l) = SLEEPING \<and> pchan (procs k ! l) = ch)"

text \<open>
  Between two sections the rest of the kernel may do anything that puts nobody to sleep on this
  semaphore: schedule, fork, exit, wake, kill, sleep elsewhere.
\<close>

inductive sem_step :: "int \<Rightarrow> 'e semsys \<Rightarrow> 'e semsys \<Rightarrow> bool" for b :: int where
  Up: "\<lbrakk>running i (kern s); table_ok (kern s); up_section b (sv s, kern s) = Some (v, k)\<rbrakk>
    \<Longrightarrow> sem_step b s (s\<lparr>sv := v, ups := ups s + 1, kern := k\<rparr>)"
| Down_sleep: "\<lbrakk>running i (kern s); down_section b (sv s, kern s) = Some (Inl (v, k))\<rbrakk>
    \<Longrightarrow> sem_step b s (s\<lparr>sv := v, kern := k\<rparr>)"
| Down_pass: "\<lbrakk>running i (kern s); down_section b (sv s, kern s) = Some (Inr (v, k))\<rbrakk>
    \<Longrightarrow> sem_step b s (s\<lparr>sv := v, downs := downs s + 1, kern := k\<rparr>)"
| Other: "asleep_on (ChSem b) k \<longrightarrow> asleep_on (ChSem b) (kern s) \<Longrightarrow> sem_step b s (s\<lparr>kern := k\<rparr>)"

inductive_cases sem_stepE: "sem_step b s t"

inductive sem_reach :: "int \<Rightarrow> 'e semsys \<Rightarrow> 'e semsys \<Rightarrow> bool" for b :: int and s0 :: "'e semsys" where
  Sem_start: "sem_reach b s0 s0"
| Sem_next: "sem_reach b s0 s \<Longrightarrow> sem_step b s t \<Longrightarrow> sem_reach b s0 t"

text \<open>A semaphore just opened with \<open>v\<close>: nobody sleeps on it.\<close>

definition sem_fresh :: "int \<Rightarrow> 'e kstate \<Rightarrow> 'e semsys" where
  "sem_fresh v k = \<lparr>sv = v, ups = 0, downs = 0, kern = k\<rparr>"

lemma awake_after_wakeup:
  assumes "table_ok k" "running i k"
  shows "\<not> asleep_on ch (wakeup ch k)"
proof
  assume "asleep_on ch (wakeup ch k)"
  then obtain l where l: "l < NPROC" "pstate (procs (wakeup ch k) ! l) = SLEEPING"
    "pchan (procs (wakeup ch k) ! l) = ch" by (auto simp: asleep_on_def)
  from l(2,3) show False
    using assms(2) unfolding procs_wakeup [OF assms(1) l(1)]
    by (auto simp: running_def wake_one_def split: if_splits)
qed

text \<open>
  C28: The semaphore is sound under every interleaving of the sections on it with the rest of the kernel:
  opened with \<open>v\<close> between 0 and the largest \<open>int\<close>, its value stays in that range and is always
  \<open>v + ups - downs\<close>, so no more \<open>down\<close>s pass than \<open>v\<close> plus the \<open>up\<close>s (with \<open>v = 1\<close>, mutual
  exclusion); no wake-up is lost: while the value is positive nobody is asleep on it. At the largest
  \<open>int\<close>, and only there, an \<open>up\<close> has no defined outcome.
\<close>

theorem semaphore_invariant:
  assumes "sem_reach b (sem_fresh v k) s" "0 \<le> v" "v \<le> 2147483647" "\<not> asleep_on (ChSem b) k"
  shows "0 \<le> sv s \<and> sv s \<le> 2147483647 \<and> sv s = v + ups s - downs s \<and> downs s \<le> v + ups s \<and>
    (0 < sv s \<longrightarrow> \<not> asleep_on (ChSem b) (kern s)) \<and>
    (up_section b (sv s, kern s) = None \<longleftrightarrow> sv s = 2147483647)"
proof -
  from assms(1) have "0 \<le> sv s \<and> sv s \<le> 2147483647 \<and> sv s = v + ups s - downs s \<and>
    (0 < sv s \<longrightarrow> \<not> asleep_on (ChSem b) (kern s))"
  proof induction
    case Sem_start
    then show ?case using assms(2-4) by (simp add: sem_fresh_def)
  next
    case (Sem_next s t)
    from Sem_next(2) show ?case
    proof cases
      case (Up i v' k')
      then show ?thesis
        using Sem_next.IH awake_after_wakeup [OF Up(3,2), of "ChSem b"]
        by (auto simp: up_section_def value_plus_def Let_def split: if_splits)
    next
      case (Down_sleep i v' k')
      then show ?thesis
        using Sem_next.IH by (auto simp: down_section_def split: if_splits)
    next
      case (Down_pass i v' k')
      then show ?thesis
        using Sem_next.IH by (auto simp: down_section_def split: if_splits)
    next
      case (Other k')
      then show ?thesis using Sem_next.IH by auto
    qed
  qed
  then show ?thesis by (auto simp: up_section_def value_plus_def Let_def)
qed

section \<open>The calls implement the sections\<close>

lemma acquire_free:
  assumes "cpu_ok c" "\<not> locked lk"
  shows "acquire i c lk = Some (True, push_off c, \<lparr>locked = True, lcpu = Some i\<rparr>)"
    "release i (push_off c) \<lparr>locked = True, lcpu = Some i\<rparr> =
      Some (if noff c = 0 then c\<lparr>intena := intr c\<rparr> else c, initlock)"
  using pop_off_push_off [OF assms(1)] assms(2)
  by (simp_all add: acquire_def release_def holding_def try_swap_def initlock_def Let_def)

text \<open>
  C29: With the semaphore's lock free, \<open>sem_up\<close> and \<open>sem_down\<close> run exactly the atomic sections of the
  step relation on the semaphore they name and leave its lock free, and \<open>sem_up\<close> has an outcome
  exactly when its section has; \<open>sem_close\<close> clears the active
  mark only, and neither wakes the processes asleep on the semaphore nor changes its value, so it
  works on after \<open>sem_close\<close> as before.
\<close>

theorem sem_calls_refine:
  assumes "cpu_ok (scpu s)" "0 \<le> b" "b < int (length (sem_a s))" "\<not> locked (slock (sem_a s ! nat b))"
  shows "(case up_section b (svalue (sem_a s ! nat b), sk s) of
        Some vk \<Rightarrow> \<exists>s'. sys_sem_up c b s = Some (Sem_return b, s') \<and>
          (svalue (sem_a s' ! nat b), sk s') = vk \<and> \<not> locked (slock (sem_a s' ! nat b))
      | None \<Rightarrow> sys_sem_up c b s = None) \<and>
    (down_section b (svalue (sem_a s ! nat b), sk s) = Some (Inr (v, k)) \<longrightarrow>
      (\<exists>s'. sys_sem_down c b s = Some (Sem_return b, s') \<and> svalue (sem_a s' ! nat b) = v \<and> sk s' = k \<and>
        \<not> locked (slock (sem_a s' ! nat b)))) \<and>
    (down_section b (svalue (sem_a s ! nat b), sk s) = Some (Inl (v, k)) \<longrightarrow>
      (\<exists>s'. sys_sem_down c b s = Some (Sem_sleep, s') \<and> svalue (sem_a s' ! nat b) = v \<and> sk s' = k \<and>
        \<not> locked (slock (sem_a s' ! nat b)))) \<and>
    (\<exists>s'. sys_sem_close c b s = Some (Sem_return b, s') \<and> sk s' = sk s \<and>
      sem_a s' ! nat b = (sem_a s ! nat b)\<lparr>sactive := 0, slock := initlock\<rparr>)"
proof -
  have b: "sem_at b (s\<lparr>sem_g := b\<rparr>) = Some (sem_a s ! nat b)" "nat b < length (sem_a s)"
    using assms(2,3) by (auto simp: sem_at_def)
  have lk: "\<not> locked initlock" by (simp add: initlock_def)
  note a = acquire_free [OF assms(1,4)]
  show ?thesis
    using b a lk
    by (auto simp: sys_sem_up_def sys_sem_down_def sys_sem_close_def up_section_def down_section_def
        value_plus_def set_sem_def Let_def split: if_splits)
qed

text \<open>
  Opening a semaphore that is already active does not do nothing: it re-initialises the lock,
  takes it and returns without releasing it, with the CPU's interrupts off. The next \<open>sem_up\<close> or
  \<open>sem_down\<close> on that CPU panics, and on any other CPU it spins.
\<close>

theorem reopen_keeps_lock:
  assumes "cpu_ok (scpu s)" "0 \<le> b" "b < int (length (sem_a s))" "b \<le> int N_SEM"
    "sactive (sem_a s ! nat b) \<noteq> 0" "d \<noteq> c"
  shows "\<exists>s'. sys_sem_open api c b v s = Some (Sem_return b, s') \<and> holding c (slock (sem_a s' ! nat b)) \<and>
    \<not> intr (scpu s') \<and> 0 < noff (scpu s') \<and> svalue (sem_a s' ! nat b) = svalue (sem_a s ! nat b) \<and>
    sys_sem_up c b s' = None \<and> sys_sem_down c b s' = None \<and>
    fst (the (sys_sem_up d b (s'\<lparr>scpu := other\<rparr>))) = Sem_spin \<and>
    fst (the (sys_sem_down d b (s'\<lparr>scpu := other\<rparr>))) = Sem_spin"
proof -
  have b: "sem_at b (s\<lparr>sem_g := b, value_g := v\<rparr>) = Some (sem_a s ! nat b)" "nat b < length (sem_a s)"
    using assms(2,3) by (auto simp: sem_at_def)
  have lk: "\<not> locked initlock" by (simp add: initlock_def)
  note a = acquire_free(1) [OF assms(1) lk]
  have nf: "0 < noff (push_off (scpu s))" "\<not> intr (push_off (scpu s))"
    using assms(1) by (auto simp: cpu_ok_def push_off_def Let_def)
  let ?s = "set_sem b ((sem_a s ! nat b)\<lparr>slock := \<lparr>locked = True, lcpu = Some c\<rparr>\<rparr>)
    (s\<lparr>sem_g := b, value_g := v, scpu := push_off (scpu s)\<rparr>)"
  have open_eq: "sys_sem_open api c b v s = Some (Sem_return b, ?s)"
    using b a assms(4,5) by (simp add: sys_sem_open_def Let_def)
  have at: "sem_at b (t\<lparr>sem_g := b\<rparr>) = Some ((sem_a s ! nat b)\<lparr>slock := \<lparr>locked = True, lcpu = Some c\<rparr>\<rparr>)"
    if "sem_a t = sem_a ?s" for t :: "'a semstate"
    using that b(2) assms(2,3) by (simp add: sem_at_def set_sem_def)
  show ?thesis
    using open_eq nf b(2) assms(6) at [of ?s] at [of "?s\<lparr>scpu := other\<rparr>"]
    by (simp add: sys_sem_up_def sys_sem_down_def Let_def acquire_def holding_def try_swap_def set_sem_def)
qed

text \<open>
  The bounds check of \<open>sem_open\<close> accepts 10, one past the end of the array of 10 semaphores, and
  every negative number: there the call has no defined outcome. It is the number \<open>ping_pong\<close> opens.
\<close>

theorem sem_open_out_of_bounds:
  assumes "length (sem_a s) = N_SEM" "b = 10 \<or> b < 0"
  shows "sys_sem_open api c b v s = None"
  using assms by (auto simp: sys_sem_open_def sem_at_def N_SEM_def Let_def)

section \<open>The small system\<close>

definition demo_sem :: "unit semstate" where
  "demo_sem = \<lparr>sk = demo, sem_a = replicate 10 \<lparr>sactive = 1, svalue = 1, slock = initlock\<rparr>,
     sem_g = 0, value_g = 0, scpu = \<lparr>noff = 0, intena = False, intr = True\<rparr>\<rparr>"

theorem semaphore_invariant_witness:
  "\<exists>s. sem_reach 3 (sem_fresh 1 demo) s \<and> ups s = 1 \<and> sv s = 2"
proof -
  let ?s = "(sem_fresh 1 demo)\<lparr>sv := 2, ups := 1, kern := wakeup (ChSem 3) demo\<rparr>"
  have "sem_step 3 (sem_fresh 1 demo) ((sem_fresh 1 demo)\<lparr>sv := 2, ups := ups (sem_fresh 1 demo) + 1,
      kern := wakeup (ChSem 3) demo\<rparr>)"
    by (rule sem_step.Up [of 2]) (use demo_wf in \<open>simp_all add: sem_fresh_def up_section_def value_plus_def proc_wfD(1)\<close>)
  then have r: "sem_reach 3 (sem_fresh 1 demo) ?s"
    using sem_reach.Sem_next [OF sem_reach.Sem_start] by (fastforce simp: sem_fresh_def)
  have "\<not> asleep_on (ChSem 3) demo"
    unfolding asleep_on_def
  proof (intro notI, elim exE conjE)
    fix l assume "l < NPROC" "pchan (procs demo ! l) = ChSem 3"
    then show False
      using less_NPROC_cases [of l]
      by (auto simp: demo_nth demo_nth(2) [simplified] demo_proc_def proc_zero_def)
  qed
  from semaphore_invariant [OF r _ _ this] r show ?thesis by auto
qed


lemma demo_sem_nth: "sem_a demo_sem ! nat 3 = \<lparr>sactive = 1, svalue = 1, slock = initlock\<rparr>"
  "length (sem_a demo_sem) = 10" "cpu_ok (scpu demo_sem)"
  by (simp_all add: demo_sem_def cpu_ok_def)

theorem sem_calls_refine_witness:
  "\<exists>s'. sys_sem_down 0 3 demo_sem = Some (Sem_return 3, s') \<and> svalue (sem_a s' ! nat 3) = 0"
  using sem_calls_refine [of demo_sem 3 0 0 "sk demo_sem"] demo_sem_nth
  by (auto simp: initlock_def down_section_def)

theorem reopen_keeps_lock_witness:
  "\<exists>s'. sys_sem_open demo_api 0 3 1 demo_sem = Some (Sem_return 3, s') \<and> sys_sem_up 0 3 s' = None"
  using reopen_keeps_lock [of demo_sem 3 1 0 demo_api 1 "scpu demo_sem"] demo_sem_nth
  by (auto simp: N_SEM_def)

theorem sem_open_out_of_bounds_witness: "sys_sem_open demo_api 0 10 1 demo_sem = None"
  using sem_open_out_of_bounds [of demo_sem 10] by (simp add: demo_sem_def N_SEM_def)

end
