(* ===== verification/X_Bio.thy ===== *)
theory X_Bio
  imports X_Proc_Wf
begin

text \<open>
  Sleep locks (\<open>kernel/sleeplock.c\<close>) and the buffer cache (\<open>kernel/bio.c\<close>, \<open>kernel/buf.h\<close>). The list
  through the \<open>prev\<close> and \<open>next\<close> fields of the buffers is given as the list \<open>lru\<close> of their indices, the
  most recently used first. The disk is a map from blocks to bytes with the sequence of writes it
  has performed. The locale \<open>buffer_cache\<close> is the interface the log uses; the last section shows that
  the cache provides it.
\<close>

section \<open>Sleep locks\<close>

record sleeplock =
  sl_locked :: bool
  sl_pid :: int

definition initsleeplock :: sleeplock where
  "initsleeplock = \<lparr>sl_locked = False, sl_pid = 0\<rparr>"

text \<open>\<open>acquiresleep\<close> of the lock \<open>a\<close> up to where it has the lock (\<open>True\<close>) or sleeps; woken, it starts again.\<close>

definition acquiresleep :: "nat \<Rightarrow> sleeplock \<Rightarrow> 'e kstate \<Rightarrow> (bool \<times> sleeplock \<times> 'e kstate) option" where
  "acquiresleep a lk k = do {
     pr \<leftarrow> cur k;
     if sl_locked lk then do { k' \<leftarrow> sleep_begin (ChSleeplock a) k; Some (False, lk, k') }
     else Some (True, \<lparr>sl_locked = True, sl_pid = pid (procs k ! pr)\<rparr>, k) }"

definition releasesleep :: "nat \<Rightarrow> sleeplock \<Rightarrow> 'e kstate \<Rightarrow> sleeplock \<times> 'e kstate" where
  "releasesleep a lk k = (\<lparr>sl_locked = False, sl_pid = 0\<rparr>, wakeup (ChSleeplock a) k)"

definition holdingsleep :: "sleeplock \<Rightarrow> 'e kstate \<Rightarrow> bool option" where
  "holdingsleep lk k = do {
     pr \<leftarrow> cur k;
     Some (sl_locked lk \<and> sl_pid lk = pid (procs k ! pr)) }"

section \<open>The buffer cache\<close>

definition NBUF :: nat where "NBUF = 30"
definition BSIZE :: nat where "BSIZE = 1024"

record buf =
  bvalid :: bool
  bdev :: u32
  blockno :: u32
  block :: sleeplock
  refcnt :: int
  bdata :: bytes

record 'e bcache =
  bufs :: "buf list"
  lru :: "nat list"
  bdisk :: "u32 \<Rightarrow> u32 \<Rightarrow> bytes"
  bwrites :: "(u32 \<times> u32 \<times> bytes) list"
  bk :: "'e kstate"

definition upd_buf :: "nat \<Rightarrow> (buf \<Rightarrow> buf) \<Rightarrow> 'e bcache \<Rightarrow> 'e bcache" where
  "upd_buf i f s = s\<lparr>bufs := (bufs s)[i := f (bufs s ! i)]\<rparr>"

text \<open>Each buffer is put in front of the list in turn.\<close>

definition binit :: "'e bcache \<Rightarrow> 'e bcache" where
  "binit s = fold (\<lambda>i s. (upd_buf i (\<lambda>b. b\<lparr>block := initsleeplock\<rparr>) s)\<lparr>lru := i # lru s\<rparr>) [0..<NBUF]
     (s\<lparr>lru := []\<rparr>)"

text \<open>The buffer, and whether its lock was obtained or the caller sleeps on it; \<open>None\<close> is the panic.\<close>

definition lock_buf :: "nat \<Rightarrow> 'e bcache \<Rightarrow> (bool \<times> nat \<times> 'e bcache) option" where
  "lock_buf i s = do {
     (got, lk, k) \<leftarrow> acquiresleep i (block (bufs s ! i)) (bk s);
     Some (got, i, (upd_buf i (\<lambda>b. b\<lparr>block := lk\<rparr>) s)\<lparr>bk := k\<rparr>) }"

definition bget :: "u32 \<Rightarrow> u32 \<Rightarrow> 'e bcache \<Rightarrow> (bool \<times> nat \<times> 'e bcache) option" where
  "bget dev bno s =
    (case find (\<lambda>i. bdev (bufs s ! i) = dev \<and> blockno (bufs s ! i) = bno) (lru s) of
       Some i \<Rightarrow> lock_buf i (upd_buf i (\<lambda>b. b\<lparr>refcnt := refcnt b + 1\<rparr>) s)
     | None \<Rightarrow>
         (case find (\<lambda>i. refcnt (bufs s ! i) = 0) (rev (lru s)) of
            Some i \<Rightarrow> lock_buf i (upd_buf i (\<lambda>b. b\<lparr>bdev := dev, blockno := bno, bvalid := False, refcnt := 1\<rparr>) s)
          | None \<Rightarrow> None))"

text \<open>The disk transfer, which returns when the device has done it.\<close>

definition virtio_disk_rw :: "nat \<Rightarrow> bool \<Rightarrow> 'e bcache \<Rightarrow> 'e bcache" where
  "virtio_disk_rw i write s =
    (let b = bufs s ! i
     in if write
        then s\<lparr>bdisk := (bdisk s)(bdev b := (bdisk s (bdev b))(blockno b := bdata b)),
               bwrites := bwrites s @ [(bdev b, blockno b, bdata b)]\<rparr>
        else upd_buf i (\<lambda>x. x\<lparr>bdata := bdisk s (bdev b) (blockno b)\<rparr>) s)"

definition bread :: "u32 \<Rightarrow> u32 \<Rightarrow> 'e bcache \<Rightarrow> (bool \<times> nat \<times> 'e bcache) option" where
  "bread dev bno s = do {
     (got, i, s1) \<leftarrow> bget dev bno s;
     if got \<and> \<not> bvalid (bufs s1 ! i)
     then Some (got, i, upd_buf i (\<lambda>b. b\<lparr>bvalid := True\<rparr>) (virtio_disk_rw i False s1))
     else Some (got, i, s1) }"

definition bwrite :: "nat \<Rightarrow> 'e bcache \<Rightarrow> 'e bcache option" where
  "bwrite i s = do {
     h \<leftarrow> holdingsleep (block (bufs s ! i)) (bk s);
     if \<not> h then None else Some (virtio_disk_rw i True s) }"

definition brelse :: "nat \<Rightarrow> 'e bcache \<Rightarrow> 'e bcache option" where
  "brelse i s = do {
     h \<leftarrow> holdingsleep (block (bufs s ! i)) (bk s);
     if \<not> h then None
     else let (lk, k) = releasesleep i (block (bufs s ! i)) (bk s);
         s1 = (upd_buf i (\<lambda>b. b\<lparr>block := lk, refcnt := refcnt b - 1\<rparr>) s)\<lparr>bk := k\<rparr>
       in Some (if refcnt (bufs s1 ! i) = 0 then s1\<lparr>lru := i # remove1 i (lru s1)\<rparr> else s1) }"

definition bpin :: "nat \<Rightarrow> 'e bcache \<Rightarrow> 'e bcache" where
  "bpin i s = upd_buf i (\<lambda>b. b\<lparr>refcnt := refcnt b + 1\<rparr>) s"

definition bunpin :: "nat \<Rightarrow> 'e bcache \<Rightarrow> 'e bcache" where
  "bunpin i s = upd_buf i (\<lambda>b. b\<lparr>refcnt := refcnt b - 1\<rparr>) s"

section \<open>The interface\<close>

text \<open>
  The operations a client calls, over a state of its own; a run in which \<open>bread\<close> has to wait for
  another process is not a run of the client alone and is \<open>None\<close> here.
\<close>

record 's bio_api =
  api_bread :: "u32 \<Rightarrow> u32 \<Rightarrow> 's \<Rightarrow> (nat \<times> 's) option"
  api_data :: "nat \<Rightarrow> 's \<Rightarrow> bytes"
  api_set_data :: "nat \<Rightarrow> bytes \<Rightarrow> 's \<Rightarrow> 's"
  api_blockno :: "nat \<Rightarrow> 's \<Rightarrow> u32"
  api_bwrite :: "nat \<Rightarrow> 's \<Rightarrow> 's option"
  api_brelse :: "nat \<Rightarrow> 's \<Rightarrow> 's option"
  api_bpin :: "nat \<Rightarrow> 's \<Rightarrow> 's"
  api_bunpin :: "nat \<Rightarrow> 's \<Rightarrow> 's"
  api_sleep :: "chan \<Rightarrow> 's \<Rightarrow> 's option"
  api_wakeup :: "chan \<Rightarrow> 's \<Rightarrow> 's"

definition bio :: "'e bcache bio_api" where
  "bio = \<lparr>api_bread = (\<lambda>dev bno s. case bread dev bno s of Some (True, i, s') \<Rightarrow> Some (i, s') | _ \<Rightarrow> None),
     api_data = (\<lambda>i s. bdata (bufs s ! i)),
     api_set_data = (\<lambda>i d s. upd_buf i (\<lambda>b. b\<lparr>bdata := d\<rparr>) s),
     api_blockno = (\<lambda>i s. blockno (bufs s ! i)),
     api_bwrite = bwrite, api_brelse = brelse, api_bpin = bpin, api_bunpin = bunpin,
     api_sleep = (\<lambda>ch s. map_option (\<lambda>k. s\<lparr>bk := k\<rparr>) (sleep_begin ch (bk s))),
     api_wakeup = (\<lambda>ch s. s\<lparr>bk := wakeup ch (bk s)\<rparr>)\<rparr>"

text \<open>
  What the client may rely on, on one device: \<open>view\<close> is the content of a block as the cache shows it,
  \<open>disk\<close> what is on the device, \<open>held\<close> the block of each buffer the client has locked, \<open>pins\<close> the
  references to a block beyond that, \<open>writes\<close> the device writes so far. \<open>cap\<close> blocks can be in use at
  once. A buffer may be released only when its block is pinned or written.
\<close>

locale buffer_cache =
  fixes api :: "'s bio_api" and dev :: u32 and cap :: nat
    and view :: "'s \<Rightarrow> u32 \<Rightarrow> bytes" and disk :: "'s \<Rightarrow> u32 \<Rightarrow> bytes"
    and held :: "'s \<Rightarrow> nat \<Rightarrow> u32 option" and pins :: "'s \<Rightarrow> u32 \<Rightarrow> nat"
    and writes :: "'s \<Rightarrow> (u32 \<times> bytes) list" and inv :: "'s \<Rightarrow> bool"
  assumes view_length: "inv s \<Longrightarrow> length (view s b) = BSIZE"
    and bread_law: "\<lbrakk>inv s; b \<notin> ran (held s); card (insert b ({b. 0 < pins s b} \<union> ran (held s))) \<le> cap\<rbrakk>
      \<Longrightarrow> \<exists>i s'. api_bread api dev b s = Some (i, s') \<and> inv s' \<and> view s' = view s \<and> disk s' = disk s \<and>
        held s i = None \<and> held s' = (held s)(i \<mapsto> b) \<and> pins s' = pins s \<and> writes s' = writes s"
    and data_law: "\<lbrakk>inv s; held s i = Some b\<rbrakk> \<Longrightarrow> api_data api i s = view s b \<and> api_blockno api i s = b"
    and set_data_law: "\<lbrakk>inv s; held s i = Some b; length x = BSIZE\<rbrakk> \<Longrightarrow>
      inv (api_set_data api i x s) \<and> view (api_set_data api i x s) = (view s)(b := x) \<and>
      disk (api_set_data api i x s) = disk s \<and> held (api_set_data api i x s) = held s \<and>
      pins (api_set_data api i x s) = pins s \<and> writes (api_set_data api i x s) = writes s"
    and bwrite_law: "\<lbrakk>inv s; held s i = Some b\<rbrakk> \<Longrightarrow>
      \<exists>s'. api_bwrite api i s = Some s' \<and> inv s' \<and> view s' = view s \<and> disk s' = (disk s)(b := view s b) \<and>
        held s' = held s \<and> pins s' = pins s \<and> writes s' = writes s @ [(b, view s b)]"
    and brelse_law: "\<lbrakk>inv s; held s i = Some b; 0 < pins s b \<or> view s b = disk s b\<rbrakk> \<Longrightarrow>
      \<exists>s'. api_brelse api i s = Some s' \<and> inv s' \<and> view s' = view s \<and> disk s' = disk s \<and>
        held s' = (held s)(i := None) \<and> pins s' = pins s \<and> writes s' = writes s"
    and bpin_law: "\<lbrakk>inv s; held s i = Some b\<rbrakk> \<Longrightarrow>
      inv (api_bpin api i s) \<and> view (api_bpin api i s) = view s \<and> disk (api_bpin api i s) = disk s \<and>
      held (api_bpin api i s) = held s \<and> pins (api_bpin api i s) = (pins s)(b := pins s b + 1) \<and>
      writes (api_bpin api i s) = writes s"
    and bunpin_law: "\<lbrakk>inv s; held s i = Some b; 0 < pins s b\<rbrakk> \<Longrightarrow>
      inv (api_bunpin api i s) \<and> view (api_bunpin api i s) = view s \<and> disk (api_bunpin api i s) = disk s \<and>
      held (api_bunpin api i s) = held s \<and> pins (api_bunpin api i s) = (pins s)(b := pins s b - 1) \<and>
      writes (api_bunpin api i s) = writes s"
    and wakeup_law: "inv s \<Longrightarrow> inv (api_wakeup api ch s) \<and> view (api_wakeup api ch s) = view s \<and>
      disk (api_wakeup api ch s) = disk s \<and> held (api_wakeup api ch s) = held s \<and>
      pins (api_wakeup api ch s) = pins s \<and> writes (api_wakeup api ch s) = writes s"

section \<open>What the cache shows\<close>

definition caches :: "u32 \<Rightarrow> u32 \<Rightarrow> buf \<Rightarrow> bool" where
  "caches d b x \<longleftrightarrow> bdev x = d \<and> blockno x = b"

definition slot :: "u32 \<Rightarrow> 'e bcache \<Rightarrow> u32 \<Rightarrow> nat option" where
  "slot d s b = find (\<lambda>i. caches d b (bufs s ! i)) [0..<NBUF]"

definition cview :: "u32 \<Rightarrow> 'e bcache \<Rightarrow> u32 \<Rightarrow> bytes" where
  "cview d s b = (case slot d s b of Some i \<Rightarrow> bdata (bufs s ! i) | None \<Rightarrow> bdisk s d b)"

definition cdisk :: "u32 \<Rightarrow> 'e bcache \<Rightarrow> u32 \<Rightarrow> bytes" where
  "cdisk d s = bdisk s d"

definition cheld :: "'e bcache \<Rightarrow> nat \<Rightarrow> u32 option" where
  "cheld s i = (if i < NBUF \<and> sl_locked (block (bufs s ! i)) then Some (blockno (bufs s ! i)) else None)"

definition extra :: "buf \<Rightarrow> nat" where
  "extra x = nat (refcnt x - (if sl_locked (block x) then 1 else 0))"

definition cpins :: "u32 \<Rightarrow> 'e bcache \<Rightarrow> u32 \<Rightarrow> nat" where
  "cpins d s b = (case slot d s b of Some i \<Rightarrow> extra (bufs s ! i) | None \<Rightarrow> 0)"

definition cwrites :: "u32 \<Rightarrow> 'e bcache \<Rightarrow> (u32 \<times> bytes) list" where
  "cwrites d s = map snd (filter (\<lambda>w. fst w = d) (bwrites s))"

definition mypid :: "'e kstate \<Rightarrow> int" where
  "mypid k = pid (procs k ! the (cur k))"

text \<open>
  The invariant between two calls of one process: no other process has a buffer locked, a referenced
  buffer is of the device, a block of the device is cached once and is valid, and an unreferenced
  copy is what the disk holds.
\<close>

definition buf_ok :: "u32 \<Rightarrow> (u32 \<Rightarrow> bytes) \<Rightarrow> int \<Rightarrow> buf \<Rightarrow> bool" where
  "buf_ok d dk me x \<longleftrightarrow> 0 \<le> refcnt x \<and>
     (sl_locked (block x) \<longrightarrow> 1 \<le> refcnt x \<and> sl_pid (block x) = me) \<and>
     (0 < refcnt x \<longrightarrow> bdev x = d) \<and>
     (bdev x = d \<longrightarrow> bvalid x \<and> length (bdata x) = BSIZE \<and> (refcnt x = 0 \<longrightarrow> bdata x = dk (blockno x)))"

definition cached_once :: "u32 \<Rightarrow> buf list \<Rightarrow> bool" where
  "cached_once d bs \<longleftrightarrow> (\<forall>i < NBUF. \<forall>j < NBUF. bdev (bs ! i) = d \<and> bdev (bs ! j) = d \<and>
     blockno (bs ! i) = blockno (bs ! j) \<longrightarrow> i = j)"

definition cinv :: "u32 \<Rightarrow> 'e bcache \<Rightarrow> bool" where
  "cinv d s \<longleftrightarrow> length (bufs s) = NBUF \<and> (\<forall>i < NBUF. buf_ok d (bdisk s d) (mypid (bk s)) (bufs s ! i)) \<and>
     cached_once d (bufs s) \<and> distinct (lru s) \<and> set (lru s) = {..<NBUF} \<and>
     (\<forall>b. length (bdisk s d b) = BSIZE) \<and>
     table_ok (bk s) \<and> (\<exists>p < NPROC. cur (bk s) = Some p)"

section \<open>Frame lemmas\<close>

lemma upd_buf_simps [simp]:
  "length (bufs (upd_buf i f s)) = length (bufs s)" "lru (upd_buf i f s) = lru s"
  "bdisk (upd_buf i f s) = bdisk s" "bwrites (upd_buf i f s) = bwrites s" "bk (upd_buf i f s) = bk s"
  by (simp_all add: upd_buf_def)

lemma bufs_upd_buf:
  "j < length (bufs s) \<Longrightarrow> bufs (upd_buf i f s) ! j = (if i = j then f (bufs s ! j) else bufs s ! j)"
  by (simp add: upd_buf_def nth_list_update)

lemma find_unique:
  assumes "x \<in> set xs" "P x" "\<And>y. \<lbrakk>y \<in> set xs; P y\<rbrakk> \<Longrightarrow> y = x"
  shows "find P xs = Some x"
proof -
  obtain y where y: "find P xs = Some y"
    using assms(1,2) by (cases "find P xs") (auto simp: find_None_iff)
  then have "y \<in> set xs" "P y" by (auto simp: find_Some_iff)
  then show ?thesis using assms(3) y by simp
qed

lemma cached_onceD:
  "\<lbrakk>cached_once d bs; i < NBUF; j < NBUF; caches d b (bs ! i); caches d b (bs ! j)\<rbrakk> \<Longrightarrow> i = j"
  unfolding cached_once_def caches_def by blast

lemma slot_eq:
  assumes "cached_once d (bufs s)" "i < NBUF" "caches d b (bufs s ! i)"
  shows "slot d s b = Some i"
  unfolding slot_def
proof (rule find_unique)
  show "j = i" if "j \<in> set [0..<NBUF]" "caches d b (bufs s ! j)" for j
    using cached_onceD [OF assms(1) _ assms(2) that(2) assms(3)] that(1) by simp
qed (use assms in simp_all)

lemma slot_None: "slot d s b = None \<longleftrightarrow> (\<forall>i < NBUF. \<not> caches d b (bufs s ! i))"
  by (auto simp: slot_def find_None_iff)

lemma slot_SomeD: "slot d s b = Some i \<Longrightarrow> i < NBUF \<and> caches d b (bufs s ! i)"
  by (auto simp: slot_def find_Some_iff)

text \<open>One buffer changes and keeps its block; the disk may change at that block.\<close>

lemma put_same_block:
  assumes inv: "cinv d s" and i: "i < NBUF" "caches d b (bufs s ! i)"
    and bufs': "bufs s' = (bufs s)[i := y]" and y: "caches d b y" "buf_ok d (bdisk s' d) (mypid (bk s)) y"
    and disk': "bdisk s' d = (bdisk s d)(b := v)" "length v = BSIZE"
    and lru': "distinct (lru s')" "set (lru s') = {..<NBUF}"
    and k': "table_ok (bk s')" "cur (bk s') = cur (bk s)" "mypid (bk s') = mypid (bk s)"
  shows "cinv d s'" "cview d s' = (cview d s)(b := bdata y)" "cdisk d s' = (cdisk d s)(b := v)"
    "cheld s' = (cheld s)(i := if sl_locked (block y) then Some b else None)"
    "cpins d s' = (cpins d s)(b := extra y)"
proof -
  have len: "length (bufs s) = NBUF" and once: "cached_once d (bufs s)"
    using inv by (simp_all add: cinv_def)
  have key: "caches e c (bufs s' ! j) \<longleftrightarrow> caches e c (bufs s ! j)" if "j < NBUF" for e c j
    using that i y(1) len by (auto simp: bufs' nth_list_update caches_def)
  have slot: "slot d s' = slot d s"
    by (rule ext) (auto simp: slot_def key intro!: find_cong)
  have here: "slot d s b = Some i" and there: "\<And>c. c \<noteq> b \<Longrightarrow> slot d s c \<noteq> Some i"
    using slot_eq [OF once i] slot_SomeD [of d s _ i] i(2) by (auto simp: caches_def)
  have other: "bufs s' ! j = bufs s ! j" if "j \<noteq> i" for j
    using that by (simp add: bufs')
  have elsewhere: "\<And>c j. \<lbrakk>c \<noteq> b; slot d s c = Some j\<rbrakk> \<Longrightarrow> bufs s' ! j = bufs s ! j"
    using there other by metis
  have self: "bufs s' ! i = y" using i len by (simp add: bufs')
  have bd: "bdev (bufs s' ! j) = bdev (bufs s ! j)" "blockno (bufs s' ! j) = blockno (bufs s ! j)" if "j < NBUF" for j
    using key [OF that] by (auto simp: caches_def)
  have once': "cached_once d (bufs s')"
    using once by (auto simp: cached_once_def bd)
  have "buf_ok d (bdisk s' d) (mypid (bk s)) (bufs s' ! j)" if "j < NBUF" for j
  proof (cases "j = i")
    case True
    then show ?thesis using y(2) self by simp
  next
    case False
    have "\<not> caches d b (bufs s ! j)"
      using cached_onceD [OF once that i(1) _ i(2)] False by auto
    moreover have "buf_ok d (bdisk s d) (mypid (bk s)) (bufs s ! j)"
      using inv that by (simp add: cinv_def)
    ultimately show ?thesis
      using other [OF False] by (auto simp: buf_ok_def caches_def disk'(1))
  qed
  then show "cinv d s'"
    using inv once' lru' k' disk' by (auto simp: cinv_def bufs')
  show "cview d s' = (cview d s)(b := bdata y)"
    using here elsewhere self
    by (intro ext) (auto simp: cview_def slot disk'(1) split: option.splits)
  show "cdisk d s' = (cdisk d s)(b := v)"
    by (simp add: cdisk_def disk'(1))
  show "cheld s' = (cheld s)(i := if sl_locked (block y) then Some b else None)"
    using i y(1) self other by (intro ext) (auto simp: cheld_def caches_def)
  show "cpins d s' = (cpins d s)(b := extra y)"
    using here elsewhere self
    by (intro ext) (auto simp: cpins_def slot split: option.splits)
qed

text \<open>An unreferenced buffer is taken over for a block that is not cached.\<close>

lemma put_new_block:
  assumes inv: "cinv d s" and i: "i < NBUF" "refcnt (bufs s ! i) = 0" and new: "slot d s b = None"
    and bufs': "bufs s' = (bufs s)[i := y]" and y: "caches d b y" "buf_ok d (bdisk s d) (mypid (bk s)) y"
    "sl_locked (block y)" "refcnt y = 1" "bdata y = bdisk s d b"
    and rest: "bdisk s' = bdisk s" "lru s' = lru s" "bk s' = bk s"
  shows "cinv d s'" "cview d s' = cview d s" "cdisk d s' = cdisk d s"
    "cheld s' = (cheld s)(i \<mapsto> b)" "cpins d s' = cpins d s" "cheld s i = None"
proof -
  have len: "length (bufs s) = NBUF" and once: "cached_once d (bufs s)"
    and ok: "\<And>j. j < NBUF \<Longrightarrow> buf_ok d (bdisk s d) (mypid (bk s)) (bufs s ! j)"
    using inv by (simp_all add: cinv_def)
  have other: "bufs s' ! j = bufs s ! j" if "j \<noteq> i" for j
    using that by (simp add: bufs')
  have self: "bufs s' ! i = y" using i len by (simp add: bufs')
  have free: "\<not> caches d b (bufs s ! j)" if "j < NBUF" for j
    using new that by (simp add: slot_None)
  have once': "cached_once d (bufs s')"
    unfolding cached_once_def
  proof (intro allI impI, elim conjE)
    fix j k assume jk: "j < NBUF" "k < NBUF" "bdev (bufs s' ! j) = d" "bdev (bufs s' ! k) = d"
      "blockno (bufs s' ! j) = blockno (bufs s' ! k)"
    show "j = k"
      using jk free [of j] free [of k] once y(1) self other
      by (cases "j = i"; cases "k = i") (auto simp: caches_def cached_once_def)
  qed
  show inv': "cinv d s'"
  proof -
    have "buf_ok d (bdisk s d) (mypid (bk s)) (bufs s' ! j)" if "j < NBUF" for j
      using ok [OF that] y(2) self other [of j] by (cases "j = i") simp_all
    then show ?thesis
      using inv once' by (simp add: cinv_def rest bufs')
  qed
  have slot': "slot d s' c = (if c = b then Some i else if slot d s c = Some i then None else slot d s c)" for c
  proof (cases "c = b")
    case True
    then show ?thesis using slot_eq [OF once' i(1)] y(1) self by simp
  next
    case False
    then have ni: "\<not> caches d c (bufs s' ! i)" using y(1) self by (auto simp: caches_def)
    show ?thesis
    proof (cases "slot d s c")
      case None
      then have "slot d s' c = None" using ni other by (auto simp: slot_None) metis
      then show ?thesis using None False by simp
    next
      case (Some j)
      note j = slot_SomeD [OF Some]
      show ?thesis
      proof (cases "j = i")
        case True
        have "slot d s' c = None"
          using ni other cached_onceD [OF once _ i(1)] j True by (auto simp: slot_None) metis
        then show ?thesis using True Some False by simp
      next
        case ji: False
        then show ?thesis using slot_eq [OF once', of j c] other [OF ji] j Some False by simp
      qed
    qed
  qed
  have clean: "bdata (bufs s ! i) = bdisk s d c \<and> extra (bufs s ! i) = 0" if "slot d s c = Some i" for c
    using slot_SomeD [OF that] ok [OF i(1)] i(2) by (auto simp: buf_ok_def caches_def extra_def)
  show "cview d s' = cview d s"
    using clean new y(5) self other
    by (intro ext) (auto simp: cview_def slot' rest(1) split: option.splits)
  show "cpins d s' = cpins d s"
    using clean new y(3,4) self other
    by (intro ext) (auto simp: cpins_def slot' extra_def split: option.splits)
  show "cdisk d s' = cdisk d s" by (simp add: cdisk_def rest(1))
  show "cheld s' = (cheld s)(i \<mapsto> b)"
    using i(1) y(1,3) self other by (intro ext) (auto simp: cheld_def caches_def)
  show "cheld s i = None"
    using ok [OF i(1)] i by (auto simp: cheld_def buf_ok_def)
qed

section \<open>The laws\<close>

lemma cheldD:
  assumes "cinv d s" "cheld s i = Some b"
  shows "i < NBUF" "caches d b (bufs s ! i)" "sl_locked (block (bufs s ! i))" "slot d s b = Some i"
    "buf_ok d (bdisk s d) (mypid (bk s)) (bufs s ! i)" "holdingsleep (block (bufs s ! i)) (bk s) = Some True"
    "cview d s b = bdata (bufs s ! i)" "cpins d s b = extra (bufs s ! i)"
proof -
  show i: "i < NBUF" and l: "sl_locked (block (bufs s ! i))"
    using assms(2) by (auto simp: cheld_def split: if_splits)
  show ok: "buf_ok d (bdisk s d) (mypid (bk s)) (bufs s ! i)"
    using assms(1) i by (simp add: cinv_def)
  show c: "caches d b (bufs s ! i)"
    using assms(2) ok by (auto simp: cheld_def caches_def buf_ok_def split: if_splits)
  show slot: "slot d s b = Some i"
    using assms(1) slot_eq [OF _ i c] by (simp add: cinv_def)
  show "holdingsleep (block (bufs s ! i)) (bk s) = Some True"
    using assms(1) ok l by (auto simp: holdingsleep_def cinv_def buf_ok_def mypid_def)
  show "cview d s b = bdata (bufs s ! i)" "cpins d s b = extra (bufs s ! i)"
    using slot by (simp_all add: cview_def cpins_def)
qed

lemma extra_pos: "0 < extra x \<Longrightarrow> (if sl_locked (block x) then 2 else 1) \<le> refcnt x"
  by (auto simp: extra_def split: if_splits)

lemma mypid_wakeup: "\<lbrakk>table_ok k; cur k = Some p; p < NPROC\<rbrakk> \<Longrightarrow> mypid (wakeup ch k) = mypid k"
  by (simp add: mypid_def procs_wakeup)

lemma cinv_wakeup:
  assumes "cinv d s"
  shows "cinv d (s\<lparr>bk := wakeup ch (bk s)\<rparr>)"
  using assms by (auto simp: cinv_def mypid_wakeup)

lemma brelse_cache:
  assumes "cinv d s" "cheld s i = Some b" "0 < cpins d s b \<or> cview d s b = cdisk d s b"
  shows "\<exists>s'. brelse i s = Some s' \<and> cinv d s' \<and> cview d s' = cview d s \<and> cdisk d s' = cdisk d s \<and>
    cheld s' = (cheld s)(i := None) \<and> cpins d s' = cpins d s \<and> cwrites d s' = cwrites d s"
proof -
  note h = cheldD [OF assms(1,2)]
  obtain p where p: "cur (bk s) = Some p" "p < NPROC" "table_ok (bk s)"
    using assms(1) by (auto simp: cinv_def)
  define y where "y = (bufs s ! i)\<lparr>block := \<lparr>sl_locked = False, sl_pid = 0\<rparr>, refcnt := refcnt (bufs s ! i) - 1\<rparr>"
  define l where "l = (if refcnt y = 0 then i # remove1 i (lru s) else lru s)"
  define s' where "s' = s\<lparr>bufs := (bufs s)[i := y], lru := l, bk := wakeup (ChSleeplock i) (bk s)\<rparr>"
  have len: "length (bufs s) = NBUF" using assms(1) by (simp add: cinv_def)
  have run: "brelse i s = Some s'"
    using h(1,6) len by (simp add: brelse_def releasesleep_def Let_def s'_def y_def l_def upd_buf_def)
  have y: "caches d b y" "buf_ok d (bdisk s d) (mypid (bk s)) y"
    using h(2,3,5) assms(3) extra_pos [of "bufs s ! i"] h(7,8)
    by (auto simp: y_def buf_ok_def caches_def cdisk_def)
  have l: "distinct l" "set l = {..<NBUF}"
    using assms(1) h(1) by (auto simp: l_def cinv_def)
  have ex: "extra y = extra (bufs s ! i)" "bdata y = bdata (bufs s ! i)" "\<not> sl_locked (block y)"
    using h(3) by (auto simp: extra_def y_def)
  note put = put_same_block [OF assms(1) h(1,2), of s' y "bdisk s d b"]
  have "cinv d s'" "cview d s' = (cview d s)(b := bdata y)" "cdisk d s' = (cdisk d s)(b := bdisk s d b)"
    "cheld s' = (cheld s)(i := if sl_locked (block y) then Some b else None)"
    "cpins d s' = (cpins d s)(b := extra y)"
    using y l p mypid_wakeup [OF p(3,1,2)] assms(1)
    by (intro put; simp add: s'_def cinv_def)+
  then show ?thesis
    using run ex h(7,8) by (auto simp: cdisk_def s'_def cwrites_def fun_upd_idem)
qed

lemma set_data_cache:
  assumes "cinv d s" "cheld s i = Some b" "length x = BSIZE"
  shows "cinv d (upd_buf i (\<lambda>b. b\<lparr>bdata := x\<rparr>) s)"
    "cview d (upd_buf i (\<lambda>b. b\<lparr>bdata := x\<rparr>) s) = (cview d s)(b := x)"
    "cdisk d (upd_buf i (\<lambda>b. b\<lparr>bdata := x\<rparr>) s) = cdisk d s"
    "cheld (upd_buf i (\<lambda>b. b\<lparr>bdata := x\<rparr>) s) = cheld s"
    "cpins d (upd_buf i (\<lambda>b. b\<lparr>bdata := x\<rparr>) s) = cpins d s"
    "cwrites d (upd_buf i (\<lambda>b. b\<lparr>bdata := x\<rparr>) s) = cwrites d s"
proof -
  note h = cheldD [OF assms(1,2)]
  let ?y = "(bufs s ! i)\<lparr>bdata := x\<rparr>" and ?s = "upd_buf i (\<lambda>b. b\<lparr>bdata := x\<rparr>) s"
  have "caches d b ?y" "buf_ok d (bdisk s d) (mypid (bk s)) ?y" "extra ?y = extra (bufs s ! i)"
    using h(2,3,5) assms(3) by (auto simp: buf_ok_def caches_def extra_def)
  note y = this
  note put = put_same_block [OF assms(1) h(1,2), of ?s ?y "bdisk s d b"]
  have "cinv d ?s" "cview d ?s = (cview d s)(b := bdata ?y)" "cdisk d ?s = (cdisk d s)(b := bdisk s d b)"
    "cheld ?s = (cheld s)(i := if sl_locked (block ?y) then Some b else None)"
    "cpins d ?s = (cpins d s)(b := extra ?y)"
    using y assms(1) by (intro put; auto simp: upd_buf_def cinv_def)+
  then show "cinv d ?s" "cview d ?s = (cview d s)(b := x)" "cdisk d ?s = cdisk d s" "cheld ?s = cheld s"
    "cpins d ?s = cpins d s" "cwrites d ?s = cwrites d s"
    using y(3) h(3,8) assms(2) by (auto simp: cdisk_def cwrites_def fun_upd_idem)
qed

lemma refcnt_cache:
  fixes f :: "int \<Rightarrow> int"
  assumes "cinv d s" "cheld s i = Some b" "1 \<le> f (refcnt (bufs s ! i))"
  defines "s' \<equiv> upd_buf i (\<lambda>b. b\<lparr>refcnt := f (refcnt b)\<rparr>) s"
  shows "cinv d s'" "cview d s' = cview d s" "cdisk d s' = cdisk d s" "cheld s' = cheld s"
    "cpins d s' = (cpins d s)(b := nat (f (refcnt (bufs s ! i)) - 1))" "cwrites d s' = cwrites d s"
proof -
  note h = cheldD [OF assms(1,2)]
  let ?y = "(bufs s ! i)\<lparr>refcnt := f (refcnt (bufs s ! i))\<rparr>"
  have y: "caches d b ?y" "buf_ok d (bdisk s d) (mypid (bk s)) ?y" "extra ?y = nat (f (refcnt (bufs s ! i)) - 1)"
    using h(2,3,5) assms(3) by (auto simp: buf_ok_def caches_def extra_def)
  note put = put_same_block [OF assms(1) h(1,2), of s' ?y "bdisk s d b"]
  have "cinv d s'" "cview d s' = (cview d s)(b := bdata ?y)" "cdisk d s' = (cdisk d s)(b := bdisk s d b)"
    "cheld s' = (cheld s)(i := if sl_locked (block ?y) then Some b else None)"
    "cpins d s' = (cpins d s)(b := extra ?y)"
    using y assms(1) by (intro put; auto simp: upd_buf_def cinv_def s'_def)+
  then show "cinv d s'" "cview d s' = cview d s" "cdisk d s' = cdisk d s" "cheld s' = cheld s"
    "cpins d s' = (cpins d s)(b := nat (f (refcnt (bufs s ! i)) - 1))" "cwrites d s' = cwrites d s"
    using y(3) h(3,7,8) assms(2) by (auto simp: cdisk_def cwrites_def fun_upd_idem s'_def)
qed

lemma bwrite_cache:
  assumes "cinv d s" "cheld s i = Some b"
  shows "\<exists>s'. bwrite i s = Some s' \<and> cinv d s' \<and> cview d s' = cview d s \<and>
    cdisk d s' = (cdisk d s)(b := cview d s b) \<and> cheld s' = cheld s \<and> cpins d s' = cpins d s \<and>
    cwrites d s' = cwrites d s @ [(b, cview d s b)]"
proof -
  note h = cheldD [OF assms]
  let ?y = "bufs s ! i" and ?s = "virtio_disk_rw i True s"
  have len: "i < length (bufs s)" using h(1) assms(1) by (simp add: cinv_def)
  have key: "bdev ?y = d" "blockno ?y = b" using h(2) by (auto simp: caches_def)
  have d: "length (bdata ?y) = BSIZE" "buf_ok d ((bdisk s d)(b := bdata ?y)) (mypid (bk s)) ?y"
    using h(5) key by (auto simp: buf_ok_def)
  note put = put_same_block [OF assms(1) h(1,2), of ?s ?y "bdata ?y"]
  have "cinv d ?s" "cview d ?s = (cview d s)(b := bdata ?y)" "cdisk d ?s = (cdisk d s)(b := bdata ?y)"
    "cheld ?s = (cheld s)(i := if sl_locked (block ?y) then Some b else None)"
    "cpins d ?s = (cpins d s)(b := extra ?y)"
    using d h(2) assms(1) key by (intro put; auto simp: virtio_disk_rw_def cinv_def Let_def)+
  then show ?thesis
    using h(3,6,7,8) assms(2) key
    by (auto simp: bwrite_def fun_upd_idem virtio_disk_rw_def Let_def cwrites_def)
qed

lemma find_lru:
  assumes "cinv d s"
  shows "find (\<lambda>i. bdev (bufs s ! i) = d \<and> blockno (bufs s ! i) = b) (lru s) = slot d s b"
proof (cases "slot d s b")
  case None
  then have "find (\<lambda>i. bdev (bufs s ! i) = d \<and> blockno (bufs s ! i) = b) (lru s) = None"
    using assms by (auto simp: find_None_iff slot_None cinv_def caches_def)
  then show ?thesis using None by simp
next
  case (Some i)
  have once: "cached_once d (bufs s)" and l: "set (lru s) = {..<NBUF}"
    using assms by (simp_all add: cinv_def)
  have "find (\<lambda>i. bdev (bufs s ! i) = d \<and> blockno (bufs s ! i) = b) (lru s) = Some i"
  proof (rule find_unique)
    show "j = i" if "j \<in> set (lru s)" "bdev (bufs s ! j) = d \<and> blockno (bufs s ! j) = b" for j
      using cached_onceD [OF once, of j i b] that slot_SomeD [OF Some] l by (auto simp: caches_def)
  qed (use slot_SomeD [OF Some] l in \<open>auto simp: caches_def\<close>)
  then show ?thesis using Some by simp
qed

text \<open>While fewer than \<open>NBUF\<close> blocks are in use some buffer is free.\<close>

lemma free_buffer:
  assumes inv: "cinv d s" and new: "slot d s b = None"
    and room: "card (insert b ({b. 0 < cpins d s b} \<union> ran (cheld s))) \<le> NBUF"
  shows "\<exists>i. find (\<lambda>i. refcnt (bufs s ! i) = 0) (rev (lru s)) = Some i \<and> i < NBUF \<and> refcnt (bufs s ! i) = 0"
proof (cases "find (\<lambda>i. refcnt (bufs s ! i) = 0) (rev (lru s))")
  case (Some i)
  then have "i \<in> set (rev (lru s))" "refcnt (bufs s ! i) = 0" by (auto simp: find_Some_iff simp del: set_rev)
  then show ?thesis using Some inv by (simp add: cinv_def)
next
  case None
  let ?no = "\<lambda>i. blockno (bufs s ! i)" and ?busy = "{b. 0 < cpins d s b} \<union> ran (cheld s)"
  have ok: "buf_ok d (bdisk s d) (mypid (bk s)) (bufs s ! i)" if "i < NBUF" for i
    using inv that by (simp add: cinv_def)
  have pos: "0 < refcnt (bufs s ! i)" "bdev (bufs s ! i) = d" if "i < NBUF" for i
    using None inv ok [OF that] that by (fastforce simp: find_None_iff cinv_def buf_ok_def)+
  have once: "cached_once d (bufs s)" using inv by (simp add: cinv_def)
  have inj: "inj_on ?no {..<NBUF}"
    using once pos by (auto simp: inj_on_def cached_once_def)
  have "?no i \<in> ?busy" if "i < NBUF" for i
  proof (cases "sl_locked (block (bufs s ! i))")
    case True
    then show ?thesis using that by (auto simp: ran_def cheld_def intro!: exI [of _ i])
  next
    case False
    have "slot d s (?no i) = Some i" using slot_eq [OF once that] pos [OF that] by (simp add: caches_def)
    then show ?thesis using False pos [OF that] by (simp add: cpins_def extra_def)
  qed
  then have sub: "insert b (?no ` {..<NBUF}) \<subseteq> insert b ?busy" by auto
  have "?busy \<subseteq> ?no ` {..<NBUF}"
    by (auto simp: ran_def cheld_def cpins_def caches_def split: option.splits if_splits dest!: slot_SomeD)
  then have fin: "finite ?busy" by (rule finite_subset) simp
  have "b \<notin> ?no ` {..<NBUF}" using new pos by (auto simp: slot_None caches_def)
  then have "card (insert b (?no ` {..<NBUF})) = Suc NBUF"
    using card_image [OF inj] by simp
  then show ?thesis using card_mono [OF _ sub] fin room by simp
qed

lemma acquiresleep_free:
  "\<lbrakk>cur k = Some p; \<not> sl_locked lk\<rbrakk> \<Longrightarrow> acquiresleep a lk k = Some (True, \<lparr>sl_locked = True, sl_pid = mypid k\<rparr>, k)"
  by (simp add: acquiresleep_def mypid_def)

lemma bread_cache:
  assumes inv: "cinv d s" and nb: "b \<notin> ran (cheld s)"
    and room: "card (insert b ({b. 0 < cpins d s b} \<union> ran (cheld s))) \<le> NBUF"
  shows "\<exists>i s'. bread d b s = Some (True, i, s') \<and> cinv d s' \<and> cview d s' = cview d s \<and> cdisk d s' = cdisk d s \<and>
    cheld s i = None \<and> cheld s' = (cheld s)(i \<mapsto> b) \<and> cpins d s' = cpins d s \<and> cwrites d s' = cwrites d s"
proof -
  obtain p where p: "cur (bk s) = Some p" using inv by (auto simp: cinv_def)
  have len: "length (bufs s) = NBUF" using inv by (simp add: cinv_def)
  define lk where "lk = \<lparr>sl_locked = True, sl_pid = mypid (bk s)\<rparr>"
  show ?thesis
  proof (cases "slot d s b")
    case (Some i)
    have i: "i < NBUF" "caches d b (bufs s ! i)" using slot_SomeD [OF Some] by auto
    have ok: "buf_ok d (bdisk s d) (mypid (bk s)) (bufs s ! i)" using inv i by (simp add: cinv_def)
    have free: "\<not> sl_locked (block (bufs s ! i))"
    proof
      assume "sl_locked (block (bufs s ! i))"
      then have "cheld s i = Some b" using i by (simp add: cheld_def caches_def)
      then show False using nb by (auto simp: ran_def)
    qed
    define y where "y = (bufs s ! i)\<lparr>refcnt := refcnt (bufs s ! i) + 1, block := lk\<rparr>"
    define s' where "s' = s\<lparr>bufs := (bufs s)[i := y]\<rparr>"
    have run: "bread d b s = Some (True, i, s')"
      using p free i len ok
      by (simp add: bread_def bget_def find_lru [OF inv] Some lock_buf_def acquiresleep_free upd_buf_def
          s'_def y_def lk_def buf_ok_def caches_def)
    have y: "caches d b y" "buf_ok d (bdisk s d) (mypid (bk s)) y"
      using ok i(2) by (auto simp: y_def lk_def buf_ok_def caches_def)
    note put = put_same_block [OF inv i, of s' y "bdisk s d b"]
    have "cinv d s'" "cview d s' = (cview d s)(b := bdata y)" "cdisk d s' = (cdisk d s)(b := bdisk s d b)"
      "cheld s' = (cheld s)(i := if sl_locked (block y) then Some b else None)"
      "cpins d s' = (cpins d s)(b := extra y)"
      using y inv by (intro put; auto simp: s'_def cinv_def)+
    moreover have "cview d s b = bdata y" "cpins d s b = extra y" "sl_locked (block y)" "cheld s i = None"
      using Some free i(1) by (simp_all add: cview_def cpins_def extra_def y_def lk_def cheld_def)
    ultimately show ?thesis
      using run by (auto simp: cdisk_def s'_def cwrites_def fun_upd_idem)
  next
    case None
    obtain i where f: "find (\<lambda>i. refcnt (bufs s ! i) = 0) (rev (lru s)) = Some i"
      and i: "i < NBUF" "refcnt (bufs s ! i) = 0"
      using free_buffer [OF inv None room] by auto
    have ok: "buf_ok d (bdisk s d) (mypid (bk s)) (bufs s ! i)" using inv i by (simp add: cinv_def)
    have free: "\<not> sl_locked (block (bufs s ! i))" using ok i(2) by (auto simp: buf_ok_def)
    define y where "y = (bufs s ! i)\<lparr>bdev := d, blockno := b, refcnt := 1, block := lk,
      bdata := bdisk s d b, bvalid := True\<rparr>"
    define s' where "s' = s\<lparr>bufs := (bufs s)[i := y]\<rparr>"
    have run: "bread d b s = Some (True, i, s')"
      using p free i len
      by (simp add: bread_def bget_def find_lru [OF inv] None f lock_buf_def acquiresleep_free upd_buf_def
          s'_def y_def lk_def virtio_disk_rw_def Let_def)
    have y: "caches d b y" "buf_ok d (bdisk s d) (mypid (bk s)) y" "sl_locked (block y)" "refcnt y = 1"
      "bdata y = bdisk s d b"
      using inv by (auto simp: y_def lk_def buf_ok_def caches_def cinv_def)
    show ?thesis
      using put_new_block [OF inv i None, of s' y] y run by (auto simp: s'_def cwrites_def)
  qed
qed

text \<open>The cache, over one device, provides the interface with room for \<open>NBUF\<close> blocks.\<close>

interpretation cache: buffer_cache bio d NBUF "cview d" "cdisk d" cheld "cpins d" "cwrites d" "cinv d"
  for d :: u32
proof
  fix s :: "'a bcache" and b i x ch
  show "length (cview d s b) = BSIZE" if "cinv d s"
    using that by (auto simp: cview_def cinv_def buf_ok_def caches_def split: option.split dest!: slot_SomeD)
  show "\<exists>i s'. api_bread bio d b s = Some (i, s') \<and> cinv d s' \<and> cview d s' = cview d s \<and> cdisk d s' = cdisk d s \<and>
      cheld s i = None \<and> cheld s' = (cheld s)(i \<mapsto> b) \<and> cpins d s' = cpins d s \<and> cwrites d s' = cwrites d s"
    if "cinv d s" "b \<notin> ran (cheld s)" "card (insert b ({b. 0 < cpins d s b} \<union> ran (cheld s))) \<le> NBUF"
    using bread_cache [OF that] by (auto simp: bio_def)
  show "cinv d (api_wakeup bio ch s) \<and> cview d (api_wakeup bio ch s) = cview d s \<and>
      cdisk d (api_wakeup bio ch s) = cdisk d s \<and> cheld (api_wakeup bio ch s) = cheld s \<and>
      cpins d (api_wakeup bio ch s) = cpins d s \<and> cwrites d (api_wakeup bio ch s) = cwrites d s" if "cinv d s"
    using cinv_wakeup [OF that, of ch]
    by (simp add: bio_def cview_def cdisk_def cheld_def cpins_def cwrites_def slot_def fun_eq_iff split: option.split)
  assume h: "cinv d s" "cheld s i = Some b"
  note hd = cheldD [OF h]
  show "api_data bio i s = cview d s b \<and> api_blockno bio i s = b"
    using hd by (auto simp: bio_def caches_def)
  show "cinv d (api_set_data bio i x s) \<and> cview d (api_set_data bio i x s) = (cview d s)(b := x) \<and>
      cdisk d (api_set_data bio i x s) = cdisk d s \<and> cheld (api_set_data bio i x s) = cheld s \<and>
      cpins d (api_set_data bio i x s) = cpins d s \<and> cwrites d (api_set_data bio i x s) = cwrites d s"
    if "length x = BSIZE"
    using set_data_cache [OF h that] by (simp add: bio_def)
  show "\<exists>s'. api_bwrite bio i s = Some s' \<and> cinv d s' \<and> cview d s' = cview d s \<and>
      cdisk d s' = (cdisk d s)(b := cview d s b) \<and> cheld s' = cheld s \<and> cpins d s' = cpins d s \<and>
      cwrites d s' = cwrites d s @ [(b, cview d s b)]"
    using bwrite_cache [OF h] by (simp add: bio_def)
  show "\<exists>s'. api_brelse bio i s = Some s' \<and> cinv d s' \<and> cview d s' = cview d s \<and> cdisk d s' = cdisk d s \<and>
      cheld s' = (cheld s)(i := None) \<and> cpins d s' = cpins d s \<and> cwrites d s' = cwrites d s"
    if "0 < cpins d s b \<or> cview d s b = cdisk d s b"
    using brelse_cache [OF h that] by (simp add: bio_def)
  show "cinv d (api_bpin bio i s) \<and> cview d (api_bpin bio i s) = cview d s \<and>
      cdisk d (api_bpin bio i s) = cdisk d s \<and> cheld (api_bpin bio i s) = cheld s \<and>
      cpins d (api_bpin bio i s) = (cpins d s)(b := cpins d s b + 1) \<and> cwrites d (api_bpin bio i s) = cwrites d s"
    using refcnt_cache [OF h, of "\<lambda>n. n + 1"] hd(3,5,8)
    by (auto simp: bio_def bpin_def buf_ok_def extra_def nat_diff_distrib intro!: arg_cong [where f = "fun_upd (cpins d s) b"])
  show "cinv d (api_bunpin bio i s) \<and> cview d (api_bunpin bio i s) = cview d s \<and>
      cdisk d (api_bunpin bio i s) = cdisk d s \<and> cheld (api_bunpin bio i s) = cheld s \<and>
      cpins d (api_bunpin bio i s) = (cpins d s)(b := cpins d s b - 1) \<and>
      cwrites d (api_bunpin bio i s) = cwrites d s"
    if "0 < cpins d s b"
    using refcnt_cache [OF h, of "\<lambda>n. n - 1"] hd(3,5,8) that extra_pos [of "bufs s ! i"]
    by (auto simp: bio_def bunpin_def buf_ok_def extra_def nat_diff_distrib intro!: arg_cong [where f = "fun_upd (cpins d s) b"])
qed

section \<open>The cache after start-up\<close>

definition buf_zero :: buf where
  "buf_zero = \<lparr>bvalid = False, bdev = 0, blockno = 0, block = initsleeplock, refcnt = 0, bdata = replicate BSIZE 0\<rparr>"

text \<open>A kernel that has just booted on a disk: the zeroed static buffers, initialised.\<close>

definition booted :: "(u32 \<Rightarrow> u32 \<Rightarrow> bytes) \<Rightarrow> 'e kstate \<Rightarrow> 'e bcache" where
  "booted dk k = binit \<lparr>bufs = replicate NBUF buf_zero, lru = [], bdisk = dk, bwrites = [], bk = k\<rparr>"

lemma binit_prefix:
  "n \<le> length (bufs s) \<Longrightarrow>
   \<exists>bs. fold (\<lambda>i s. (upd_buf i (\<lambda>b. b\<lparr>block := initsleeplock\<rparr>) s)\<lparr>lru := i # lru s\<rparr>) [0..<n] s =
      s\<lparr>bufs := bs, lru := rev [0..<n] @ lru s\<rparr> \<and> length bs = length (bufs s) \<and>
      (\<forall>i < length (bufs s). bs ! i = (if i < n then (bufs s ! i)\<lparr>block := initsleeplock\<rparr> else bufs s ! i))"
proof (induction n)
  case 0
  then show ?case by (intro exI [of _ "bufs s"]) simp
next
  case (Suc n)
  then obtain bs where bs: "fold (\<lambda>i s. (upd_buf i (\<lambda>b. b\<lparr>block := initsleeplock\<rparr>) s)\<lparr>lru := i # lru s\<rparr>) [0..<n] s =
      s\<lparr>bufs := bs, lru := rev [0..<n] @ lru s\<rparr>" "length bs = length (bufs s)"
      "\<forall>i < length (bufs s). bs ! i = (if i < n then (bufs s ! i)\<lparr>block := initsleeplock\<rparr> else bufs s ! i)"
    by auto
  show ?case
    by (rule exI [of _ "bs[n := (bs ! n)\<lparr>block := initsleeplock\<rparr>]"])
      (use bs Suc.prems in \<open>auto simp: upd_buf_def nth_list_update less_Suc_eq\<close>)
qed

lemma binit_spec:
  assumes "length (bufs s) = NBUF"
  shows "lru (binit s) = rev [0..<NBUF]" "length (bufs (binit s)) = NBUF" "bdisk (binit s) = bdisk s"
    "bwrites (binit s) = bwrites s" "bk (binit s) = bk s"
    "i < NBUF \<Longrightarrow> bufs (binit s) ! i = (bufs s ! i)\<lparr>block := initsleeplock\<rparr>"
  using binit_prefix [of NBUF "s\<lparr>lru := []\<rparr>"] assms by (auto simp: binit_def)

lemma booted_cache:
  assumes "d \<noteq> 0" "\<And>b. length (dk d b) = BSIZE" "table_ok k" "cur k = Some p" "p < NPROC"
  shows "cinv d (booted dk k)" "cview d (booted dk k) = dk d" "cdisk d (booted dk k) = dk d"
    "cheld (booted dk k) = Map.empty" "cpins d (booted dk k) = (\<lambda>_. 0)" "cwrites d (booted dk k) = []"
proof -
  let ?s = "booted dk k"
  have b: "bufs ?s ! i = buf_zero" if "i < NBUF" for i
    using that binit_spec(6) [of "\<lparr>bufs = replicate NBUF buf_zero, lru = [], bdisk = dk, bwrites = [], bk = k\<rparr>" i]
    by (simp add: booted_def buf_zero_def)
  have f: "lru ?s = rev [0..<NBUF]" "length (bufs ?s) = NBUF" "bdisk ?s = dk" "bwrites ?s = []" "bk ?s = k"
    using binit_spec [of "\<lparr>bufs = replicate NBUF buf_zero, lru = [], bdisk = dk, bwrites = [], bk = k\<rparr>"]
    by (simp_all add: booted_def)
  have slot: "slot d ?s c = None" for c
    using assms(1) by (simp add: slot_None b caches_def buf_zero_def)
  show "cinv d ?s"
    using assms by (auto simp: cinv_def b f buf_ok_def buf_zero_def initsleeplock_def cached_once_def)
  show "cview d ?s = dk d" "cdisk d ?s = dk d" "cheld ?s = Map.empty" "cpins d ?s = (\<lambda>_. 0)" "cwrites d ?s = []"
    by (simp_all add: cview_def slot f cdisk_def cheld_def b cpins_def cwrites_def fun_eq_iff
        buf_zero_def initsleeplock_def)
qed

text \<open>
  \<open>bread\<close> of a block the caller does not have, while the blocks in use and it fit the cache,
  returns a locked buffer with the block's current content, and what every block shows is unchanged,
  also when a buffer had to be recycled.
\<close>

theorem bread_returns_block:
  assumes "cinv d s" "b \<notin> ran (cheld s)" "card (insert b ({b. 0 < cpins d s b} \<union> ran (cheld s))) \<le> NBUF"
  shows "\<exists>i s'. bread d b s = Some (True, i, s') \<and> cinv d s' \<and> bdata (bufs s' ! i) = cview d s b \<and>
    blockno (bufs s' ! i) = b \<and> cview d s' = cview d s \<and> cdisk d s' = cdisk d s \<and>
    cheld s' = (cheld s)(i \<mapsto> b)"
proof -
  obtain i s' where r: "bread d b s = Some (True, i, s')" "cinv d s'" "cview d s' = cview d s"
    "cdisk d s' = cdisk d s" "cheld s' = (cheld s)(i \<mapsto> b)"
    using bread_cache [OF assms] by auto
  then have "cheld s' i = Some b" by simp
  from cheldD [OF r(2) this] r show ?thesis by (auto simp: caches_def)
qed

end
