(* ===== verification/X_Log.thy ===== *)
theory X_Log
  imports X_Bio
begin

text \<open>
  The log (\<open>kernel/log.c\<close>), which makes the block writes of a group of file system calls atomic: its
  routines over the interface \<open>bio_api\<close> of the buffer cache, what each writes to the disk, and what
  recovery makes of a disk on which the kernel stopped between any two block writes. The routines
  are run while no other process is inside them; \<open>begin_op\<close> and \<open>end_op\<close> show where they sleep.
\<close>

section \<open>Types\<close>

definition MAXOPBLOCKS :: int where "MAXOPBLOCKS = 10"
definition LOGSIZE :: int where "LOGSIZE = MAXOPBLOCKS * 3"

lemma LOGSIZE_pos [simp]: "0 < LOGSIZE"
  by (simp add: LOGSIZE_def MAXOPBLOCKS_def)

record superblock =
  sb_magic :: u32
  sb_size :: u32
  sb_nblocks :: u32
  sb_ninodes :: u32
  sb_nlog :: u32
  sb_logstart :: u32
  sb_inodestart :: u32
  sb_bmapstart :: u32

text \<open>Block numbers are kept in \<open>int\<close>s of which only the bits matter: they are words here.\<close>

record log =
  lstart :: u32
  lsize :: int
  outstanding :: int
  committing :: bool
  ldev :: u32
  lh_n :: int
  lh_block :: "u32 list"

section \<open>The routines\<close>

primrec foreach :: "('a \<Rightarrow> 's \<Rightarrow> 's option) \<Rightarrow> 'a list \<Rightarrow> 's \<Rightarrow> 's option" where
  "foreach f [] s = Some s"
| "foreach f (x # xs) s = do { s' \<leftarrow> f x s; foreach f xs s' }"

text \<open>The array \<open>lh.block\<close> has \<open>LOGSIZE\<close> entries; past them the access is undefined.\<close>

definition logged_block :: "log \<Rightarrow> nat \<Rightarrow> u32 option" where
  "logged_block l tail = (if tail < length (lh_block l) then Some (lh_block l ! tail) else None)"

definition install_one :: "'s bio_api \<Rightarrow> bool \<Rightarrow> log \<Rightarrow> nat \<Rightarrow> 's \<Rightarrow> 's option" where
  "install_one api recovering l tail s = do {
     (lbuf, s1) \<leftarrow> api_bread api (ldev l) (lstart l + of_nat tail + 1) s;
     h \<leftarrow> logged_block l tail;
     (dbuf, s2) \<leftarrow> api_bread api (ldev l) h s1;
     s3 \<leftarrow> api_bwrite api dbuf (api_set_data api dbuf (api_data api lbuf s2) s2);
     s4 \<leftarrow> api_brelse api lbuf (if recovering then s3 else api_bunpin api dbuf s3);
     api_brelse api dbuf s4 }"

definition install_trans :: "'s bio_api \<Rightarrow> bool \<Rightarrow> log \<Rightarrow> 's \<Rightarrow> 's option" where
  "install_trans api recovering l s = foreach (install_one api recovering l) [0..<nat (lh_n l)] s"

definition header_n :: "bytes \<Rightarrow> int" where
  "header_n d = sint (le32_at d 0)"

definition header_blocks :: "bytes \<Rightarrow> u32 list" where
  "header_blocks d = map (\<lambda>i. le32_at d (4 + 4 * i)) [0..<nat (header_n d)]"

definition read_head :: "'s bio_api \<Rightarrow> log \<Rightarrow> 's \<Rightarrow> (log \<times> 's) option" where
  "read_head api l s = do {
     (b, s1) \<leftarrow> api_bread api (ldev l) (lstart l) s;
     let d = api_data api b s1;
     if LOGSIZE < header_n d then None
     else do {
       s2 \<leftarrow> api_brelse api b s1;
       Some (l\<lparr>lh_n := header_n d,
               lh_block := header_blocks d @ drop (nat (header_n d)) (lh_block l)\<rparr>, s2) } }"

definition header_bytes :: "int \<Rightarrow> u32 list \<Rightarrow> bytes \<Rightarrow> bytes" where
  "header_bytes n bs d = le32_bytes (word_of_int n) @ concat (map le32_bytes (take (nat n) bs)) @
     drop (4 + 4 * nat n) d"

definition write_head :: "'s bio_api \<Rightarrow> log \<Rightarrow> 's \<Rightarrow> 's option" where
  "write_head api l s = do {
     (b, s1) \<leftarrow> api_bread api (ldev l) (lstart l) s;
     if length (lh_block l) < nat (lh_n l) then None
     else do {
       s2 \<leftarrow> api_bwrite api b (api_set_data api b (header_bytes (lh_n l) (lh_block l) (api_data api b s1)) s1);
       api_brelse api b s2 } }"

definition recover_from_log :: "'s bio_api \<Rightarrow> log \<Rightarrow> 's \<Rightarrow> (log \<times> 's) option" where
  "recover_from_log api l s = do {
     (l1, s1) \<leftarrow> read_head api l s;
     s2 \<leftarrow> install_trans api True l1 s1;
     let l2 = l1\<lparr>lh_n := 0\<rparr>;
     s3 \<leftarrow> write_head api l2 s2;
     Some (l2, s3) }"

text \<open>The header of \<open>4 + 4 * LOGSIZE\<close> bytes must fit a block.\<close>

definition initlog :: "'s bio_api \<Rightarrow> u32 \<Rightarrow> superblock \<Rightarrow> log \<Rightarrow> 's \<Rightarrow> (log \<times> 's) option" where
  "initlog api dev sb l s =
    (if int BSIZE \<le> 4 + 4 * LOGSIZE then None
     else recover_from_log api (l\<lparr>lstart := sb_logstart sb, lsize := sint (sb_nlog sb), ldev := dev\<rparr>) s)"

text \<open>One turn of the loop of \<open>begin_op\<close>: whether the operation may start, or the caller sleeps.\<close>

definition begin_op :: "'s bio_api \<Rightarrow> log \<Rightarrow> 's \<Rightarrow> (bool \<times> log \<times> 's) option" where
  "begin_op api l s =
    (if committing l \<or> LOGSIZE < lh_n l + (outstanding l + 1) * MAXOPBLOCKS
     then do { s' \<leftarrow> api_sleep api ChLog s; Some (False, l, s') }
     else Some (True, l\<lparr>outstanding := outstanding l + 1\<rparr>, s))"

definition write_log_one :: "'s bio_api \<Rightarrow> log \<Rightarrow> nat \<Rightarrow> 's \<Rightarrow> 's option" where
  "write_log_one api l tail s = do {
     (dst, s1) \<leftarrow> api_bread api (ldev l) (lstart l + of_nat tail + 1) s;
     h \<leftarrow> logged_block l tail;
     (src, s2) \<leftarrow> api_bread api (ldev l) h s1;
     s3 \<leftarrow> api_bwrite api dst (api_set_data api dst (api_data api src s2) s2);
     s4 \<leftarrow> api_brelse api src s3;
     api_brelse api dst s4 }"

definition write_log :: "'s bio_api \<Rightarrow> log \<Rightarrow> 's \<Rightarrow> 's option" where
  "write_log api l s = foreach (write_log_one api l) [0..<nat (lh_n l)] s"

definition commit :: "'s bio_api \<Rightarrow> log \<Rightarrow> 's \<Rightarrow> (log \<times> 's) option" where
  "commit api l s =
    (if 0 < lh_n l then do {
       s1 \<leftarrow> write_log api l s;
       s2 \<leftarrow> write_head api l s1;
       s3 \<leftarrow> install_trans api False l s2;
       let l' = l\<lparr>lh_n := 0\<rparr>;
       s4 \<leftarrow> write_head api l' s3;
       Some (l', s4) }
     else Some (l, s))"

definition end_op :: "'s bio_api \<Rightarrow> log \<Rightarrow> 's \<Rightarrow> (log \<times> 's) option" where
  "end_op api l s =
    (let l1 = l\<lparr>outstanding := outstanding l - 1\<rparr> in
     if committing l1 then None
     else if outstanding l1 = 0 then do {
       (l2, s2) \<leftarrow> commit api (l1\<lparr>committing := True\<rparr>) s;
       Some (l2\<lparr>committing := False\<rparr>, api_wakeup api ChLog s2) }
     else Some (l1, api_wakeup api ChLog s))"

text \<open>The position of a block in the log, or the first free one.\<close>

definition log_index :: "log \<Rightarrow> u32 \<Rightarrow> nat" where
  "log_index l b = length (takeWhile (\<lambda>x. x \<noteq> b) (take (nat (lh_n l)) (lh_block l)))"

definition log_write :: "'s bio_api \<Rightarrow> nat \<Rightarrow> log \<Rightarrow> 's \<Rightarrow> (log \<times> 's) option" where
  "log_write api b l s =
    (if LOGSIZE \<le> lh_n l \<or> lsize l - 1 \<le> lh_n l then None
     else if outstanding l < 1 then None
     else
       let i = log_index l (api_blockno api b s);
           l1 = l\<lparr>lh_block := (lh_block l)[i := api_blockno api b s]\<rparr>
       in if i = nat (lh_n l) then Some (l1\<lparr>lh_n := lh_n l + 1\<rparr>, api_bpin api b s)
          else Some (l1, s))"

section \<open>The header block\<close>

lemma concat_le32_length [simp]: "length (concat (map le32_bytes xs)) = 4 * length xs"
  by (induction xs) auto

lemma le32_at_concat:
  "i < length xs \<Longrightarrow> le32_at (concat (map le32_bytes xs) @ ys) (4 * i) = xs ! i"
proof (induction xs arbitrary: i)
  case (Cons x xs)
  show ?case
  proof (cases i)
    case 0
    then show ?thesis using le32_at_append [of 0 "le32_bytes x"] le32_at_bytes [of x] by simp
  next
    case (Suc j)
    then show ?thesis using Cons le32_at_skip [of "le32_bytes x" "4 * i"] by simp
  qed
qed simp

lemma header_length:
  "\<lbrakk>0 \<le> n; n \<le> LOGSIZE; nat n \<le> length bs; length d = BSIZE\<rbrakk> \<Longrightarrow> length (header_bytes n bs d) = BSIZE"
  by (simp add: header_bytes_def LOGSIZE_def MAXOPBLOCKS_def BSIZE_def)

lemma header_n_bytes:
  assumes "0 \<le> n" "n \<le> LOGSIZE"
  shows "header_n (header_bytes n bs d) = n"
proof -
  have "le32_at (header_bytes n bs d) 0 = word_of_int n"
    by (simp add: header_bytes_def le32_at_append le32_at_bytes)
  then show ?thesis
    using assms by (simp add: header_n_def LOGSIZE_def MAXOPBLOCKS_def sint_sbintrunc' signed_take_bit_int_eq_self)
qed

lemma header_blocks_bytes:
  assumes "0 \<le> n" "n \<le> LOGSIZE" "nat n \<le> length bs"
  shows "header_blocks (header_bytes n bs d) = take (nat n) bs"
proof -
  have "le32_at (header_bytes n bs d) (4 + 4 * i) = bs ! i" if "i < nat n" for i
    using that assms(3) le32_at_concat [of i "take (nat n) bs" "drop (4 + 4 * nat n) d"]
    by (simp add: header_bytes_def le32_at_skip)
  then show ?thesis
    using assms by (intro nth_equalityI) (auto simp: header_blocks_def header_n_bytes)
qed

section \<open>What the routines write\<close>

text \<open>
  The log's blocks on a disk of \<open>mkfs\<close>, \<open>LOGSIZE\<close> in all: the header and the data blocks behind it. So
  no more than \<open>LOGSIZE - 1\<close> blocks may be logged, although \<open>lh.block\<close> has room for one more.
\<close>

definition log_area :: "u32 \<Rightarrow> u32 set" where
  "log_area st = (\<lambda>k. st + of_nat k) ` {..<nat LOGSIZE}"

definition log_data :: "u32 \<Rightarrow> nat \<Rightarrow> u32" where
  "log_data st t = st + of_nat t + 1"

lemma log_area_head [simp]: "st \<in> log_area st"
  by (auto simp: log_area_def LOGSIZE_def MAXOPBLOCKS_def intro!: image_eqI [of _ _ 0])

lemma log_data_area: "Suc t < nat LOGSIZE \<Longrightarrow> log_data st t \<in> log_area st"
  unfolding log_area_def log_data_def by (rule image_eqI [of _ _ "Suc t"]) (simp_all add: algebra_simps)

lemma of_nat_small_eq: "\<lbrakk>a \<le> 100; b \<le> 100; (of_nat a :: u32) = of_nat b\<rbrakk> \<Longrightarrow> a = b"
  by (drule arg_cong [where f = unat]) (simp add: unat_of_nat)

lemma log_data_inj: "\<lbrakk>t < nat LOGSIZE; u < nat LOGSIZE; log_data st t = log_data st u\<rbrakk> \<Longrightarrow> t = u"
  using of_nat_small_eq [of t u] by (simp add: log_data_def LOGSIZE_def MAXOPBLOCKS_def)

lemma log_data_head: "t < nat LOGSIZE \<Longrightarrow> log_data st t \<noteq> st"
  using of_nat_small_eq [of "Suc t" 0]
  by (auto simp: log_data_def LOGSIZE_def MAXOPBLOCKS_def algebra_simps)

text \<open>The writes a sequence of pairs makes, the later ones winning.\<close>

primrec put_blocks :: "(u32 \<times> bytes) list \<Rightarrow> (u32 \<Rightarrow> bytes) \<Rightarrow> u32 \<Rightarrow> bytes" where
  "put_blocks [] D = D"
| "put_blocks (w # ws) D = put_blocks ws (D(fst w := snd w))"

lemma put_blocks_append: "put_blocks (xs @ ys) D = put_blocks ys (put_blocks xs D)"
  by (induction xs arbitrary: D) auto

lemma put_blocks_notin: "b \<notin> fst ` set ws \<Longrightarrow> put_blocks ws D b = D b"
  by (induction ws arbitrary: D) auto

lemma put_blocks_distinct:
  "distinct (map fst ws) \<Longrightarrow> put_blocks ws D b = (case map_of ws b of Some x \<Rightarrow> x | None \<Rightarrow> D b)"
proof (induction ws arbitrary: D)
  case (Cons w ws)
  then show ?case by (cases "b = fst w") (auto simp: put_blocks_notin split: option.split)
qed simp

lemma foreach_append: "foreach f (xs @ ys) s = foreach f xs s \<bind> foreach f ys"
  by (induction xs arbitrary: s) (auto simp: bind_assoc split: option.splits)

definition log_ok :: "log \<Rightarrow> bool" where
  "log_ok l \<longleftrightarrow> lh_n l < LOGSIZE \<and> nat (lh_n l) \<le> length (lh_block l) \<and>
     distinct (take (nat (lh_n l)) (lh_block l)) \<and>
     set (take (nat (lh_n l)) (lh_block l)) \<inter> log_area (lstart l) = {}"

definition logged :: "log \<Rightarrow> u32 list" where
  "logged l = take (nat (lh_n l)) (lh_block l)"

lemma logged_facts:
  assumes "log_ok l" "t < nat (lh_n l)"
  shows "length (logged l) = nat (lh_n l)" "logged_block l t = Some (logged l ! t)" "Suc t < nat LOGSIZE"
    "logged l ! t \<in> set (logged l)" "logged l ! t \<notin> log_area (lstart l)"
    "log_data (lstart l) t \<noteq> logged l ! t" "log_data (lstart l) t \<notin> set (logged l)"
proof -
  show len: "length (logged l) = nat (lh_n l)" using assms by (simp add: logged_def log_ok_def)
  show "logged_block l t = Some (logged l ! t)"
    using assms by (simp add: logged_block_def logged_def log_ok_def)
  show t: "Suc t < nat LOGSIZE" using assms by (auto simp: log_ok_def)
  show i: "logged l ! t \<in> set (logged l)" using len assms(2) by simp
  have d: "set (logged l) \<inter> log_area (lstart l) = {}" using assms(1) by (simp add: log_ok_def logged_def)
  then show "logged l ! t \<notin> log_area (lstart l)" using i by auto
  then show "log_data (lstart l) t \<noteq> logged l ! t" using log_data_area [OF t, of "lstart l"] by auto
  show "log_data (lstart l) t \<notin> set (logged l)" using d log_data_area [OF t, of "lstart l"] by auto
qed

text \<open>The writes of the routines, when the blocks show \<open>V\<close>.\<close>

definition log_writes :: "log \<Rightarrow> (u32 \<Rightarrow> bytes) \<Rightarrow> nat \<Rightarrow> (u32 \<times> bytes) list" where
  "log_writes l V k = map (\<lambda>t. (log_data (lstart l) t, V (logged l ! t))) [0..<k]"

definition install_writes :: "log \<Rightarrow> (nat \<Rightarrow> bytes) \<Rightarrow> nat \<Rightarrow> (u32 \<times> bytes) list" where
  "install_writes l X k = map (\<lambda>t. (logged l ! t, X t)) [0..<k]"

definition commit_writes :: "log \<Rightarrow> (u32 \<Rightarrow> bytes) \<Rightarrow> (u32 \<times> bytes) list" where
  "commit_writes l V =
    (let n = nat (lh_n l); hd = header_bytes (lh_n l) (lh_block l) (V (lstart l)) in
     log_writes l V n @ [(lstart l, hd)] @ install_writes l (\<lambda>t. V (logged l ! t)) n @
     [(lstart l, header_bytes 0 (lh_block l) hd)])"

lemma writes_Suc:
  "log_writes l V (Suc k) = log_writes l V k @ [(log_data (lstart l) k, V (logged l ! k))]"
  "install_writes l X (Suc k) = install_writes l X k @ [(logged l ! k, X k)]"
  by (simp_all add: log_writes_def install_writes_def)

lemma fst_log_writes: "fst ` set (log_writes l V k) = log_data (lstart l) ` {..<k}"
  by (auto simp: log_writes_def image_image)

lemma fst_install_writes: "k \<le> length (logged l) \<Longrightarrow> fst ` set (install_writes l X k) = set (take k (logged l))"
  by (simp add: install_writes_def image_image nth_image)

lemma log_writes_outside:
  assumes "b \<notin> log_area (lstart l)" "k < nat LOGSIZE"
  shows "b \<notin> fst ` set (log_writes l V k)"
proof -
  have "log_data (lstart l) ` {..<k} \<subseteq> log_area (lstart l)"
    using assms(2) by (auto intro!: log_data_area)
  then show ?thesis using assms(1) by (auto simp: fst_log_writes)
qed

lemma distinct_log_writes: "k \<le> nat LOGSIZE \<Longrightarrow> distinct (map fst (log_writes l V k))"
  by (auto simp: log_writes_def comp_def distinct_map inj_on_def intro: log_data_inj)

lemma map_fst_install_writes: "k \<le> length (logged l) \<Longrightarrow> map fst (install_writes l X k) = take k (logged l)"
  by (rule nth_equalityI) (auto simp: install_writes_def)

lemma put_log_data:
  assumes "t < k" "k \<le> nat LOGSIZE"
  shows "put_blocks (log_writes l V k) D (log_data (lstart l) t) = V (logged l ! t)"
proof -
  have "map_of (log_writes l V k) (log_data (lstart l) t) = Some (V (logged l ! t))"
    using assms(1) by (simp add: map_of_eq_Some_iff [OF distinct_log_writes [OF assms(2)]])
      (auto simp: log_writes_def)
  then show ?thesis by (simp add: put_blocks_distinct [OF distinct_log_writes [OF assms(2)]])
qed

lemma install_writes_alt:
  "k \<le> length (logged l) \<Longrightarrow> install_writes l (\<lambda>t. V (logged l ! t)) k = map (\<lambda>b. (b, V b)) (take k (logged l))"
  by (rule nth_equalityI) (auto simp: install_writes_def)

lemma install_writes_cong:
  "(\<And>t. t < k \<Longrightarrow> X t = Y t) \<Longrightarrow> install_writes l X k = install_writes l Y k"
  by (simp add: install_writes_def)

lemma put_installed:
  assumes "k \<le> length (logged l)" "distinct (logged l)"
  shows "put_blocks (install_writes l (\<lambda>t. V (logged l ! t)) k) D b = (if b \<in> set (take k (logged l)) then V b else D b)"
  using assms by (subst put_blocks_distinct)
    (simp_all add: install_writes_alt comp_def map_of_map_restrict restrict_map_def)

lemma logged_head:
  assumes "log_ok l" "k \<le> nat (lh_n l)"
  shows "lstart l \<notin> fst ` set (log_writes l V k)" "lstart l \<notin> set (logged l)"
proof -
  have "k \<le> nat LOGSIZE" using assms by (auto simp: log_ok_def)
  then show "lstart l \<notin> fst ` set (log_writes l V k)"
    using log_data_head [of _ "lstart l"] by (auto simp: fst_log_writes) (metis less_le_trans)
  show "lstart l \<notin> set (logged l)"
    using assms(1) log_area_head [of "lstart l"] by (auto simp: log_ok_def logged_def)
qed

section \<open>The log of a disk\<close>

text \<open>
  What a disk says is logged, the disk after recovery (outside the log), and the writes of a
  recovery from it.
\<close>

definition log_pairs :: "u32 \<Rightarrow> (u32 \<Rightarrow> bytes) \<Rightarrow> (u32 \<times> bytes) list" where
  "log_pairs st D = (let bs = header_blocks (D st) in map (\<lambda>t. (bs ! t, D (log_data st t))) [0..<length bs])"

definition recovered :: "u32 \<Rightarrow> (u32 \<Rightarrow> bytes) \<Rightarrow> u32 \<Rightarrow> bytes" where
  "recovered st D b = (case map_of (log_pairs st D) b of Some x \<Rightarrow> x | None \<Rightarrow> D b)"

definition recover_writes :: "u32 \<Rightarrow> (u32 \<Rightarrow> bytes) \<Rightarrow> (u32 \<times> bytes) list" where
  "recover_writes st D = log_pairs st D @ [(st, header_bytes 0 [] (D st))]"

definition log_disk :: "u32 \<Rightarrow> (u32 \<Rightarrow> bytes) \<Rightarrow> bool" where
  "log_disk st D \<longleftrightarrow> header_n (D st) < LOGSIZE \<and> distinct (header_blocks (D st)) \<and>
     set (header_blocks (D st)) \<inter> log_area st = {} \<and> (\<forall>b. length (D b) = BSIZE)"

context buffer_cache
begin

definition fits :: "'s \<Rightarrow> u32 list \<Rightarrow> bool" where
  "fits s bs \<longleftrightarrow> finite {b. 0 < pins s b} \<and> card {b. 0 < pins s b} < cap \<and>
     (\<forall>b \<in> set bs. card (insert b {b. 0 < pins s b}) < cap)"

lemma fits_mono:
  assumes "fits s bs" "\<And>b. pins s' b \<le> pins s b"
  shows "fits s' bs"
proof -
  have sub: "{b. 0 < pins s' b} \<subseteq> {b. 0 < pins s b}" using assms(2) order_less_le_trans by blast
  have fin: "finite {b. 0 < pins s b}" using assms(1) by (simp add: fits_def)
  have "card {b. 0 < pins s' b} \<le> card {b. 0 < pins s b}" by (rule card_mono [OF fin sub])
  moreover have "card (insert b {b. 0 < pins s' b}) \<le> card (insert b {b. 0 < pins s b})" for b
    using fin sub by (intro card_mono) auto
  ultimately show ?thesis
    using assms(1) finite_subset [OF sub fin] unfolding fits_def by (meson le_less_trans)
qed

lemma bread_none:
  assumes "inv s" "held s = Map.empty" "fits s bs"
  shows "\<exists>i s'. api_bread api dev b s = Some (i, s') \<and> inv s' \<and> view s' = view s \<and> disk s' = disk s \<and>
    held s' = [i \<mapsto> b] \<and> pins s' = pins s \<and> writes s' = writes s"
proof -
  have "card (insert b ({b. 0 < pins s b} \<union> ran (held s))) \<le> cap"
    using assms(2,3) card_insert_le_m1 [of cap "{b. 0 < pins s b}" b]
    by (auto simp: fits_def card_insert_if)
  from bread_law [OF assms(1) _ this] show ?thesis using assms(2) by auto
qed

text \<open>The first buffer read, then a logged block.\<close>

lemma bread_pair:
  assumes "inv s" "held s = Map.empty" "fits s bs" "h \<in> set bs" "g \<noteq> h"
  shows "\<exists>i j s1 s2. api_bread api dev g s = Some (i, s1) \<and> api_bread api dev h s1 = Some (j, s2) \<and>
    i \<noteq> j \<and> inv s2 \<and> view s2 = view s \<and> disk s2 = disk s \<and>
    held s2 = [i \<mapsto> g, j \<mapsto> h] \<and> pins s2 = pins s \<and> writes s2 = writes s"
proof -
  obtain i s1 where 1: "api_bread api dev g s = Some (i, s1)" "inv s1" "view s1 = view s" "disk s1 = disk s"
    "held s1 = [i \<mapsto> g]" "pins s1 = pins s" "writes s1 = writes s"
    using bread_none [OF assms(1-3), of g] by auto
  have "card (insert g (insert h {b. 0 < pins s b})) \<le> cap"
    using assms(3,4) by (auto simp: fits_def card_insert_if)
  then have "card (insert h ({b. 0 < pins s1 b} \<union> ran (held s1))) \<le> cap"
    using 1 by (simp add: insert_commute)
  from bread_law [OF 1(2) _ this] obtain j s2 where 2: "api_bread api dev h s1 = Some (j, s2)" "inv s2"
    "view s2 = view s1" "disk s2 = disk s1" "held s1 j = None" "held s2 = (held s1)(j \<mapsto> h)"
    "pins s2 = pins s1" "writes s2 = writes s1"
    using 1 assms(5) by auto
  moreover have "i \<noteq> j" using 1 2 by (auto split: if_splits)
  ultimately show ?thesis using 1 by auto
qed

lemma release_pair:
  assumes "inv s" "held s = [i \<mapsto> g, j \<mapsto> h]" "i \<noteq> j"
    "0 < pins s g \<or> view s g = disk s g" "0 < pins s h \<or> view s h = disk s h"
  shows "\<exists>s1 s2. api_brelse api i s = Some s1 \<and> api_brelse api j s1 = Some s2 \<and> inv s2 \<and>
    view s2 = view s \<and> disk s2 = disk s \<and> held s2 = Map.empty \<and> pins s2 = pins s \<and> writes s2 = writes s"
proof -
  obtain s1 where 1: "api_brelse api i s = Some s1" "inv s1" "view s1 = view s" "disk s1 = disk s"
    "held s1 = (held s)(i := None)" "pins s1 = pins s" "writes s1 = writes s"
    using brelse_law [OF assms(1), of i g] assms by auto
  moreover obtain s2 where "api_brelse api j s1 = Some s2" "inv s2" "view s2 = view s1" "disk s2 = disk s1"
    "held s2 = (held s1)(j := None)" "pins s2 = pins s1" "writes s2 = writes s1"
    using brelse_law [OF 1(2), of j h] 1 assms by auto
  ultimately show ?thesis using assms(2,3) by auto
qed

lemma install_one_spec:
  assumes l: "ldev l = dev" "logged_block l t = Some h" "log_data (lstart l) t \<noteq> h"
    and s: "inv s" "held s = Map.empty" "fits s bs" "h \<in> set bs"
    and g: "view s (log_data (lstart l) t) = disk s (log_data (lstart l) t)"
    and r: "recovering \<or> 0 < pins s h"
  defines "x \<equiv> view s (log_data (lstart l) t)"
  shows "\<exists>s'. install_one api recovering l t s = Some s' \<and> inv s' \<and> view s' = (view s)(h := x) \<and>
    disk s' = (disk s)(h := x) \<and> held s' = Map.empty \<and>
    pins s' = (if recovering then pins s else (pins s)(h := pins s h - 1)) \<and> writes s' = writes s @ [(h, x)]"
proof -
  let ?g = "log_data (lstart l) t"
  obtain i j s1 s2 where 2: "api_bread api dev ?g s = Some (i, s1)" "api_bread api dev h s1 = Some (j, s2)"
    "i \<noteq> j" "inv s2" "view s2 = view s" "disk s2 = disk s" "held s2 = [i \<mapsto> ?g, j \<mapsto> h]" "pins s2 = pins s"
    "writes s2 = writes s"
    using bread_pair [OF s l(3)] by metis
  have hi: "held s2 i = Some ?g" and hj: "held s2 j = Some h" using 2 by auto
  have x: "api_data api i s2 = x" "length x = BSIZE"
    using data_law [OF 2(4) hi] view_length [OF 2(4)] 2(5) by (simp_all add: x_def)
  define s3 where "s3 = api_set_data api j x s2"
  have 3: "inv s3" "view s3 = (view s)(h := x)" "disk s3 = disk s" "held s3 = held s2" "pins s3 = pins s"
    "writes s3 = writes s"
    using set_data_law [OF 2(4) hj x(2)] 2 by (auto simp: s3_def)
  obtain s4 where 4: "api_bwrite api j s3 = Some s4" "inv s4" "view s4 = view s3" "disk s4 = (disk s)(h := x)"
    "held s4 = held s2" "pins s4 = pins s" "writes s4 = writes s @ [(h, x)]"
    using bwrite_law [OF 3(1), of j h] 3 hj by auto
  define s5 where "s5 = (if recovering then s4 else api_bunpin api j s4)"
  have 5: "inv s5" "view s5 = view s3" "disk s5 = (disk s)(h := x)" "held s5 = held s2"
    "pins s5 = (if recovering then pins s else (pins s)(h := pins s h - 1))" "writes s5 = writes s @ [(h, x)]"
    using bunpin_law [OF 4(2), of j h] 4 hj r by (auto simp: s5_def)
  obtain s6 s7 where 6: "api_brelse api i s5 = Some s6" "api_brelse api j s6 = Some s7" "inv s7"
    "view s7 = view s5" "disk s7 = disk s5" "held s7 = Map.empty" "pins s7 = pins s5" "writes s7 = writes s5"
    using release_pair [of s5 i ?g j h] 5 2(3,7) 3(2) g l(3) by auto
  have "install_one api recovering l t s = Some s7"
    using 2(1,2) 4(1) 6(1,2) x(1) l(1,2)
    by (simp add: install_one_def log_data_def s3_def s5_def)
  then show ?thesis using 5 6 3(2) by auto
qed

lemma write_log_one_spec:
  assumes l: "ldev l = dev" "logged_block l t = Some h" "log_data (lstart l) t \<noteq> h"
    and s: "inv s" "held s = Map.empty" "fits s bs" "h \<in> set bs"
    and r: "0 < pins s h"
  shows "\<exists>s'. write_log_one api l t s = Some s' \<and> inv s' \<and>
    view s' = (view s)(log_data (lstart l) t := view s h) \<and>
    disk s' = (disk s)(log_data (lstart l) t := view s h) \<and> held s' = Map.empty \<and>
    pins s' = pins s \<and> writes s' = writes s @ [(log_data (lstart l) t, view s h)]"
proof -
  let ?g = "log_data (lstart l) t" and ?x = "view s h"
  obtain i j s1 s2 where 2: "api_bread api dev ?g s = Some (i, s1)" "api_bread api dev h s1 = Some (j, s2)"
    "i \<noteq> j" "inv s2" "view s2 = view s" "disk s2 = disk s" "held s2 = [i \<mapsto> ?g, j \<mapsto> h]" "pins s2 = pins s"
    "writes s2 = writes s"
    using bread_pair [OF s l(3)] by metis
  have hi: "held s2 i = Some ?g" and hj: "held s2 j = Some h" using 2 by auto
  have x: "api_data api j s2 = ?x" "length ?x = BSIZE"
    using data_law [OF 2(4) hj] view_length [OF 2(4)] 2(5) by simp_all
  define s3 where "s3 = api_set_data api i ?x s2"
  have 3: "inv s3" "view s3 = (view s)(?g := ?x)" "disk s3 = disk s" "held s3 = held s2" "pins s3 = pins s"
    "writes s3 = writes s"
    using set_data_law [OF 2(4) hi x(2)] 2 by (auto simp: s3_def)
  obtain s4 where 4: "api_bwrite api i s3 = Some s4" "inv s4" "view s4 = view s3" "disk s4 = (disk s)(?g := ?x)"
    "held s4 = held s2" "pins s4 = pins s" "writes s4 = writes s @ [(?g, ?x)]"
    using bwrite_law [OF 3(1), of i ?g] 3 hi by auto
  have swap: "held s4 = [j \<mapsto> h, i \<mapsto> ?g]" using 2(3,7) 4(5) by (auto simp: fun_upd_twist)
  obtain s6 s7 where 6: "api_brelse api j s4 = Some s6" "api_brelse api i s6 = Some s7" "inv s7"
    "view s7 = view s4" "disk s7 = disk s4" "held s7 = Map.empty" "pins s7 = pins s4" "writes s7 = writes s4"
    using release_pair [of s4 j h i ?g] 4 swap 2(3) 3(2) r by auto
  have "write_log_one api l t s = Some s7"
    using 2(1,2) 4(1) 6(1,2) x(1) l(1,2) by (simp add: write_log_one_def log_data_def s3_def)
  then show ?thesis using 4 6 3(2) by auto
qed

lemma write_head_spec:
  assumes l: "ldev l = dev" "lh_n l \<le> LOGSIZE" "nat (lh_n l) \<le> length (lh_block l)" "0 \<le> lh_n l"
    and s: "inv s" "held s = Map.empty" "fits s bs"
  defines "x \<equiv> header_bytes (lh_n l) (lh_block l) (view s (lstart l))"
  shows "\<exists>s'. write_head api l s = Some s' \<and> inv s' \<and> view s' = (view s)(lstart l := x) \<and>
    disk s' = (disk s)(lstart l := x) \<and> held s' = Map.empty \<and> pins s' = pins s \<and>
    writes s' = writes s @ [(lstart l, x)]"
proof -
  obtain i s1 where 1: "api_bread api dev (lstart l) s = Some (i, s1)" "inv s1" "view s1 = view s"
    "disk s1 = disk s" "held s1 = [i \<mapsto> lstart l]" "pins s1 = pins s" "writes s1 = writes s"
    using bread_none [OF s] by blast
  have hi: "held s1 i = Some (lstart l)" using 1 by simp
  have x: "header_bytes (lh_n l) (lh_block l) (api_data api i s1) = x" "length x = BSIZE"
    using data_law [OF 1(2) hi] header_length [OF l(4,2,3)] view_length [OF s(1)] 1(3)
    by (simp_all add: x_def)
  define s2 where "s2 = api_set_data api i x s1"
  have 2: "inv s2" "view s2 = (view s)(lstart l := x)" "disk s2 = disk s" "held s2 = held s1"
    "pins s2 = pins s" "writes s2 = writes s"
    using set_data_law [OF 1(2) hi x(2)] 1 by (auto simp: s2_def)
  obtain s3 where 3: "api_bwrite api i s2 = Some s3" "inv s3" "view s3 = view s2"
    "disk s3 = (disk s)(lstart l := x)" "held s3 = held s1" "pins s3 = pins s" "writes s3 = writes s @ [(lstart l, x)]"
    using bwrite_law [OF 2(1), of i "lstart l"] 2 hi by auto
  obtain s4 where 4: "api_brelse api i s3 = Some s4" "inv s4" "view s4 = view s3" "disk s4 = disk s3"
    "held s4 = (held s3)(i := None)" "pins s4 = pins s3" "writes s4 = writes s3"
    using brelse_law [OF 3(2), of i "lstart l"] 3 2(2) hi by auto
  have "write_head api l s = Some s4"
    using 1(1) 3(1) 4(1) x(1) l by (simp add: write_head_def s2_def)
  then show ?thesis using 1 2 3 4 by auto
qed

lemma write_log_prefix:
  assumes l: "ldev l = dev" "log_ok l" and s: "inv s" "held s = Map.empty" "fits s (logged l)"
    and r: "\<And>b. b \<in> set (logged l) \<Longrightarrow> 0 < pins s b"
  shows "k \<le> nat (lh_n l) \<Longrightarrow> \<exists>s'. foreach (write_log_one api l) [0..<k] s = Some s' \<and> inv s' \<and>
    view s' = put_blocks (log_writes l (view s) k) (view s) \<and>
    disk s' = put_blocks (log_writes l (view s) k) (disk s) \<and> held s' = Map.empty \<and> pins s' = pins s \<and>
    writes s' = writes s @ log_writes l (view s) k"
proof (induction k)
  case 0
  then show ?case using s by (simp add: log_writes_def)
next
  case (Suc k)
  then obtain s1 where 1: "foreach (write_log_one api l) [0..<k] s = Some s1" "inv s1"
    "view s1 = put_blocks (log_writes l (view s) k) (view s)"
    "disk s1 = put_blocks (log_writes l (view s) k) (disk s)" "held s1 = Map.empty" "pins s1 = pins s"
    "writes s1 = writes s @ log_writes l (view s) k"
    by auto
  have k: "k < nat (lh_n l)" using Suc.prems by simp
  note f = logged_facts [OF l(2) k]
  have same: "view s1 (logged l ! k) = view s (logged l ! k)"
    unfolding 1(3) using f(5) k l(2) by (intro put_blocks_notin log_writes_outside) (auto simp: log_ok_def)
  obtain s2 where "write_log_one api l k s1 = Some s2" "inv s2"
    "view s2 = (view s1)(log_data (lstart l) k := view s (logged l ! k))"
    "disk s2 = (disk s1)(log_data (lstart l) k := view s (logged l ! k))" "held s2 = Map.empty"
    "pins s2 = pins s1" "writes s2 = writes s1 @ [(log_data (lstart l) k, view s (logged l ! k))]"
    using write_log_one_spec [OF l(1) f(2,6) 1(2,5) fits_mono [OF s(3)] f(4)] r [OF f(4)] 1(6)
    by (auto simp: same simp del: fun_upd_apply)
  then show ?case
    using 1 by (simp add: foreach_append writes_Suc put_blocks_append del: fun_upd_apply)
qed

lemma install_prefix:
  fixes recovering :: bool
  assumes l: "ldev l = dev" "log_ok l" and s: "inv s" "held s = Map.empty" "fits s (logged l)"
    and r: "\<And>b. b \<in> set (logged l) \<Longrightarrow> recovering \<or> 0 < pins s b"
    and g: "\<And>t. t < nat (lh_n l) \<Longrightarrow> view s (log_data (lstart l) t) = disk s (log_data (lstart l) t)"
  defines "X \<equiv> \<lambda>t. view s (log_data (lstart l) t)"
  shows "k \<le> nat (lh_n l) \<Longrightarrow> \<exists>s'. foreach (install_one api recovering l) [0..<k] s = Some s' \<and> inv s' \<and>
    view s' = put_blocks (install_writes l X k) (view s) \<and>
    disk s' = put_blocks (install_writes l X k) (disk s) \<and> held s' = Map.empty \<and>
    pins s' = (\<lambda>b. if \<not> recovering \<and> b \<in> set (take k (logged l)) then pins s b - 1 else pins s b) \<and>
    writes s' = writes s @ install_writes l X k"
proof (induction k)
  case 0
  then show ?case using s by (simp add: install_writes_def)
next
  case (Suc k)
  then obtain s1 where 1: "foreach (install_one api recovering l) [0..<k] s = Some s1" "inv s1"
    "view s1 = put_blocks (install_writes l X k) (view s)"
    "disk s1 = put_blocks (install_writes l X k) (disk s)" "held s1 = Map.empty"
    "pins s1 = (\<lambda>b. if \<not> recovering \<and> b \<in> set (take k (logged l)) then pins s b - 1 else pins s b)"
    "writes s1 = writes s @ install_writes l X k"
    by auto
  have k: "k < nat (lh_n l)" using Suc.prems by simp
  note f = logged_facts [OF l(2) k]
  have kl: "k < length (logged l)" using f(1) k by simp
  have "distinct (logged l)" using l(2) by (simp add: log_ok_def logged_def)
  then have new: "logged l ! k \<notin> set (take k (logged l))"
    using kl by (auto simp: in_set_conv_nth nth_eq_iff_index_eq)
  have "log_data (lstart l) k \<notin> set (take k (logged l))"
    using f(7) set_take_subset by fastforce
  then have same: "put_blocks (install_writes l X k) D (log_data (lstart l) k) = D (log_data (lstart l) k)" for D
    using kl by (intro put_blocks_notin) (simp add: fst_install_writes)
  have x: "view s1 (log_data (lstart l) k) = X k" "disk s1 (log_data (lstart l) k) = X k"
    unfolding 1(3,4) same using g [OF k] by (simp_all add: X_def)
  have fit: "fits s1 (logged l)" using fits_mono [OF s(3)] 1(6) by auto
  have pin: "recovering \<or> 0 < pins s1 (logged l ! k)" using r [OF f(4)] new 1(6) by auto
  obtain s2 where "install_one api recovering l k s1 = Some s2" "inv s2"
    "view s2 = (view s1)(logged l ! k := X k)" "disk s2 = (disk s1)(logged l ! k := X k)" "held s2 = Map.empty"
    "pins s2 = (if recovering then pins s1 else (pins s1)(logged l ! k := pins s1 (logged l ! k) - 1))"
    "writes s2 = writes s1 @ [(logged l ! k, X k)]"
    using install_one_spec [OF l(1) f(2,6) 1(2,5) fit f(4) _ pin] x by auto
  then show ?case
    using 1 new kl by (auto simp: foreach_append writes_Suc put_blocks_append take_Suc_conv_app_nth)
qed

lemma commit_spec:
  assumes l: "ldev l = dev" "log_ok l" "0 < lh_n l"
    and s: "inv s" "held s = Map.empty" "fits s (logged l)" "\<And>b. b \<in> set (logged l) \<Longrightarrow> 0 < pins s b"
  shows "\<exists>s'. commit api l s = Some (l\<lparr>lh_n := 0\<rparr>, s') \<and> inv s' \<and> held s' = Map.empty \<and>
    pins s' = (\<lambda>b. if b \<in> set (logged l) then pins s b - 1 else pins s b) \<and>
    view s' = put_blocks (commit_writes l (view s)) (view s) \<and>
    disk s' = put_blocks (commit_writes l (view s)) (disk s) \<and>
    writes s' = writes s @ commit_writes l (view s)"
proof -
  let ?n = "nat (lh_n l)" and ?st = "lstart l" and ?V = "view s"
  let ?hd = "header_bytes (lh_n l) (lh_block l) (?V ?st)"
  have n: "?n \<le> nat LOGSIZE" "?n \<le> length (lh_block l)" "length (logged l) = ?n" "lh_n l \<le> LOGSIZE"
    using l(2) by (auto simp: log_ok_def logged_def)
  note hd = logged_head [OF l(2) order_refl]
  obtain s1 where 1: "write_log api l s = Some s1" "inv s1" "view s1 = put_blocks (log_writes l ?V ?n) ?V"
    "disk s1 = put_blocks (log_writes l ?V ?n) (disk s)" "held s1 = Map.empty" "pins s1 = pins s"
    "writes s1 = writes s @ log_writes l ?V ?n"
    using write_log_prefix [OF l(1,2) s order_refl] unfolding write_log_def by metis
  have fit1: "fits s1 (logged l)" using fits_mono [OF s(3)] 1(6) by simp
  have h1: "view s1 ?st = ?V ?st" unfolding 1(3) by (rule put_blocks_notin [OF hd(1)])
  obtain s2 where 2: "write_head api l s1 = Some s2" "inv s2" "view s2 = (view s1)(?st := ?hd)"
    "disk s2 = (disk s1)(?st := ?hd)" "held s2 = Map.empty" "pins s2 = pins s"
    "writes s2 = writes s1 @ [(?st, ?hd)]"
    using write_head_spec [OF l(1) n(4,2) _ 1(2,5) fit1] l(3) h1 1(6) by (metis less_imp_le)
  have fit2: "fits s2 (logged l)" using fits_mono [OF s(3)] 2(6) by simp
  have data: "view s2 (log_data ?st t) = ?V (logged l ! t) \<and> disk s2 (log_data ?st t) = ?V (logged l ! t)"
    if "t < ?n" for t
    using put_log_data [OF that n(1)] log_data_head [of t ?st] that n(1) by (simp add: 2(3,4) 1(3,4))
  have iw: "install_writes l (\<lambda>t. view s2 (log_data ?st t)) ?n = install_writes l (\<lambda>t. ?V (logged l ! t)) ?n"
    using data by (intro install_writes_cong) simp
  obtain s3 where 3: "install_trans api False l s2 = Some s3" "inv s3"
    "view s3 = put_blocks (install_writes l (\<lambda>t. ?V (logged l ! t)) ?n) (view s2)"
    "disk s3 = put_blocks (install_writes l (\<lambda>t. ?V (logged l ! t)) ?n) (disk s2)" "held s3 = Map.empty"
    "pins s3 = (\<lambda>b. if b \<in> set (logged l) then pins s2 b - 1 else pins s2 b)"
    "writes s3 = writes s2 @ install_writes l (\<lambda>t. ?V (logged l ! t)) ?n"
    using install_prefix [OF l(1,2) 2(2,5) fit2, of False ?n] s(4) data n(3) 2(6)
    unfolding install_trans_def iw by auto
  have p3: "pins s3 = (\<lambda>b. if b \<in> set (logged l) then pins s b - 1 else pins s b)"
    unfolding 3(6) 2(6) ..
  have fit3: "fits s3 (logged l)" using fits_mono [OF s(3)] 3(6) 2(6) by simp
  have h3: "view s3 ?st = ?hd"
    unfolding 3(3) using hd(2) n(3) by (subst put_blocks_notin) (simp_all add: fst_install_writes 2(3))
  obtain s4 where 4: "write_head api (l\<lparr>lh_n := 0\<rparr>) s3 = Some s4" "inv s4"
    "view s4 = (view s3)(?st := header_bytes 0 (lh_block l) ?hd)"
    "disk s4 = (disk s3)(?st := header_bytes 0 (lh_block l) ?hd)" "held s4 = Map.empty" "pins s4 = pins s3"
    "writes s4 = writes s3 @ [(?st, header_bytes 0 (lh_block l) ?hd)]"
    using write_head_spec [of "l\<lparr>lh_n := 0\<rparr>", OF _ _ _ _ 3(2,5) fit3] l(1) h3
    by (auto simp: LOGSIZE_def MAXOPBLOCKS_def)
  have "commit api l s = Some (l\<lparr>lh_n := 0\<rparr>, s4)"
    using l(3) 1(1) 2(1) 3(1) 4(1) by (simp add: commit_def Let_def)
  then show ?thesis
    using 1 2 3(1-5,7) p3 4 by (simp add: commit_writes_def Let_def put_blocks_append del: fun_upd_apply)
qed

lemma recover_spec:
  assumes l: "ldev l = dev" "length (lh_block l) = nat LOGSIZE"
    and s: "inv s" "held s = Map.empty" "view s = disk s" "log_disk (lstart l) (disk s)"
    and fit: "fits s (header_blocks (disk s (lstart l)))"
  shows "\<exists>bs s'. recover_from_log api l s = Some (l\<lparr>lh_n := 0, lh_block := bs\<rparr>, s') \<and>
    length bs = nat LOGSIZE \<and> inv s' \<and> held s' = Map.empty \<and> pins s' = pins s \<and>
    disk s' = put_blocks (recover_writes (lstart l) (disk s)) (disk s) \<and> view s' = disk s' \<and>
    writes s' = writes s @ recover_writes (lstart l) (disk s)"
proof -
  let ?st = "lstart l" and ?D = "disk s" and ?n = "header_n (disk s (lstart l))"
  let ?l = "l\<lparr>lh_n := ?n, lh_block := header_blocks (?D ?st) @ drop (nat ?n) (lh_block l)\<rparr>"
  have g: "?n < LOGSIZE" "distinct (header_blocks (?D ?st))" "set (header_blocks (?D ?st)) \<inter> log_area ?st = {}"
    using s(4) by (auto simp: log_disk_def)
  have len: "length (header_blocks (?D ?st)) = nat ?n" by (simp add: header_blocks_def)
  have lg: "logged ?l = header_blocks (?D ?st)" using len by (simp add: logged_def)
  have ok: "log_ok ?l" "ldev ?l = dev" using g len l lg by (auto simp: log_ok_def logged_def)
  obtain i s0 where 0: "api_bread api dev ?st s = Some (i, s0)" "inv s0" "view s0 = ?D" "disk s0 = ?D"
    "held s0 = [i \<mapsto> ?st]" "pins s0 = pins s" "writes s0 = writes s"
    using bread_none [OF s(1,2) fit, of ?st] s(3) by metis
  have hi: "held s0 i = Some ?st" using 0 by simp
  obtain s1 where 1: "api_brelse api i s0 = Some s1" "inv s1" "view s1 = ?D" "disk s1 = ?D"
    "held s1 = Map.empty" "pins s1 = pins s" "writes s1 = writes s"
    using brelse_law [OF 0(2) hi] 0 by auto
  have rh: "read_head api l s = Some (?l, s1)"
    using 0(1,3) 1(1) l(1) data_law [OF 0(2) hi] g(1) by (simp add: read_head_def Let_def)
  have fit1: "fits s1 (logged ?l)" using fits_mono [OF fit] 1(6) lg by simp
  have iw: "install_writes ?l (\<lambda>t. view s1 (log_data (lstart ?l) t)) (nat ?n) = log_pairs ?st ?D"
    using lg len 1(3) by (simp add: install_writes_def log_pairs_def Let_def)
  obtain s2 where 2: "install_trans api True ?l s1 = Some s2" "inv s2" "view s2 = put_blocks (log_pairs ?st ?D) ?D"
    "disk s2 = put_blocks (log_pairs ?st ?D) ?D" "held s2 = Map.empty" "pins s2 = pins s"
    "writes s2 = writes s @ log_pairs ?st ?D"
    using install_prefix [OF ok(2,1) 1(2,5) fit1, of True "nat ?n"] 1(3,4,6,7)
    unfolding install_trans_def iw by auto
  have fit2: "fits s2 (logged ?l)" using fits_mono [OF fit] 2(6) lg by simp
  have "?st \<notin> fst ` set (log_pairs ?st ?D)"
    using g(3) by (auto simp: log_pairs_def Let_def disjoint_iff) (metis log_area_head nth_mem)
  then have st: "view s2 ?st = ?D ?st" unfolding 2(3) by (rule put_blocks_notin)
  have hb: "header_bytes 0 (lh_block ?l) d = header_bytes 0 [] d" for d by (simp add: header_bytes_def)
  obtain s3 where 3: "write_head api (?l\<lparr>lh_n := 0\<rparr>) s2 = Some s3" "inv s3"
    "view s3 = (view s2)(?st := header_bytes 0 [] (?D ?st))"
    "disk s3 = (disk s2)(?st := header_bytes 0 [] (?D ?st))" "held s3 = Map.empty" "pins s3 = pins s2"
    "writes s3 = writes s2 @ [(?st, header_bytes 0 [] (?D ?st))]"
    using write_head_spec [of "?l\<lparr>lh_n := 0\<rparr>", OF _ _ _ _ 2(2,5) fit2] l(1) st hb
    by (auto simp: LOGSIZE_def MAXOPBLOCKS_def)
  have "recover_from_log api l s = Some (?l\<lparr>lh_n := 0\<rparr>, s3)"
    using rh 2(1) 3(1) by (simp add: recover_from_log_def Let_def)
  moreover have "?l\<lparr>lh_n := 0\<rparr> = l\<lparr>lh_n := 0, lh_block := lh_block ?l\<rparr>" by simp
  moreover have "length (lh_block ?l) = nat LOGSIZE" using len l(2) g(1) by auto
  ultimately show ?thesis
    using 2 3 by (intro exI [of _ "lh_block ?l"] exI [of _ s3])
      (simp add: recover_writes_def put_blocks_append del: fun_upd_apply)
qed

end

end
