(* ===== verification/X_Recovery.thy ===== *)
theory X_Recovery
  imports X_Log
begin

text \<open>
  What the log is for: a transaction over the log and the buffer cache of the kernel is atomic, however
  often the machine stops while it commits or recovers. \<open>commit_prefix\<close> and \<open>recovered_prefix\<close>
  are about the disk contents between any two block writes; \<open>crash_image\<close> is the disk an
  interrupted start leaves, computed by the code of \<open>initlog\<close>.
\<close>

section \<open>Crashes\<close>

lemma length_header_blocks [simp]: "length (header_blocks d) = nat (header_n d)"
  by (simp add: header_blocks_def)

lemma log_disk_size: "log_disk st D \<Longrightarrow> length (header_blocks (D st)) < nat LOGSIZE"
  by (auto simp: log_disk_def)

lemma map_fst_log_pairs: "map fst (log_pairs st D) = header_blocks (D st)"
  by (rule nth_equalityI) (auto simp: log_pairs_def Let_def)

lemma snd_log_pairs: "w \<in> set (log_pairs st D) \<Longrightarrow> \<exists>b. snd w = D b"
  by (auto simp: log_pairs_def Let_def)

lemma put_blocks_length:
  assumes "\<And>b. length (D b) = BSIZE" "\<And>w. w \<in> set ws \<Longrightarrow> length (snd w) = BSIZE"
  shows "length (put_blocks ws D b) = BSIZE"
  using assms by (induction ws arbitrary: D) auto

lemma map_of_take:
  assumes "distinct (map fst ws)" "map_of (take j ws) b = Some x"
  shows "map_of ws b = Some x"
  using assms by (metis map_of_SomeD map_of_is_SomeI in_set_takeD)

text \<open>Recovery writes what is logged, whatever it has already written, and then clears the header.\<close>

lemma recovered_prefix:
  assumes "log_disk st D"
  defines "D' \<equiv> \<lambda>j. put_blocks (take j (recover_writes st D)) D"
  shows "log_disk st (D' j)" "b \<notin> log_area st \<Longrightarrow> recovered st (D' j) b = recovered st D b"
    "length (recover_writes st D) \<le> j \<Longrightarrow> b \<notin> log_area st \<Longrightarrow> D' j b = recovered st D b"
proof -
  let ?ps = "log_pairs st D" and ?hb = "header_blocks (D st)"
  have g: "distinct (map fst ?ps)" "fst ` set ?ps \<inter> log_area st = {}" "\<And>b. length (D b) = BSIZE"
    "nat (header_n (D st)) < nat LOGSIZE"
    using assms(1) map_fst_log_pairs [of st D] by (auto simp: log_disk_def simp flip: set_map)
  have dt: "distinct (map fst (take j ?ps))" using g(1) by (simp add: take_map [symmetric])
  have area: "put_blocks (take j ?ps) D b = D b" if "b \<in> log_area st" for b j
    using g(2) that by (intro put_blocks_notin) (auto dest: in_set_takeD)
  have lens: "length (put_blocks (take j ?ps) D b) = BSIZE" for b j
    using g(3) snd_log_pairs by (intro put_blocks_length) (auto dest!: in_set_takeD, metis snd_conv)
  have finished: "put_blocks ?ps D b = recovered st D b" for b
    by (simp add: put_blocks_distinct [OF g(1)] recovered_def)
  consider (early) "j \<le> length ?ps" | (late) "length ?ps < j" by linarith
  then have "log_disk st (D' j) \<and> (b \<notin> log_area st \<longrightarrow> recovered st (D' j) b = recovered st D b) \<and>
    (length (recover_writes st D) \<le> j \<longrightarrow> b \<notin> log_area st \<longrightarrow> D' j b = recovered st D b)"
  proof cases
    case early
    then have D': "D' j = put_blocks (take j ?ps) D" by (simp add: D'_def recover_writes_def)
    have st: "D' j st = D st" unfolding D' by (rule area) simp
    have "D' j (log_data st t) = D (log_data st t)" if "t < length ?hb" for t
      unfolding D' using that g(4) by (intro area log_data_area) simp
    then have ps: "log_pairs st (D' j) = ?ps"
      using st by (simp add: log_pairs_def Let_def)
    have "D' j b = (case map_of (take j ?ps) b of Some x \<Rightarrow> x | None \<Rightarrow> D b)"
      unfolding D' by (rule put_blocks_distinct [OF dt])
    then have "recovered st (D' j) b = recovered st D b"
      using map_of_take [OF g(1), of j b] by (auto simp: recovered_def ps split: option.splits)
    moreover have "log_disk st (D' j)"
      using assms(1) st lens by (simp add: log_disk_def D')
    ultimately show ?thesis using early by (simp add: recover_writes_def)
  next
    case late
    then have D': "D' j = (put_blocks ?ps D)(st := header_bytes 0 [] (D st))"
      by (simp add: D'_def recover_writes_def put_blocks_append)
    have h: "header_n (D' j st) = 0" "header_blocks (D' j st) = []"
      using header_n_bytes [of 0 "[]"] header_blocks_bytes [of 0 "[]"] by (simp_all add: D' LOGSIZE_def MAXOPBLOCKS_def)
    have "length (header_bytes 0 [] (D st)) = BSIZE"
      using g(3) by (intro header_length) (simp_all add: LOGSIZE_def MAXOPBLOCKS_def)
    then have "log_disk st (D' j)"
      using h lens [of "length ?ps"] by (auto simp: log_disk_def D' LOGSIZE_def MAXOPBLOCKS_def)
    moreover have "recovered st (D' j) b = D' j b"
      by (simp add: recovered_def log_pairs_def h(2))
    moreover have "b \<notin> log_area st \<longrightarrow> D' j b = recovered st D b"
      using finished by (auto simp: D')
    ultimately show ?thesis by simp
  qed
  then show "log_disk st (D' j)" "b \<notin> log_area st \<Longrightarrow> recovered st (D' j) b = recovered st D b"
    "length (recover_writes st D) \<le> j \<Longrightarrow> b \<notin> log_area st \<Longrightarrow> D' j b = recovered st D b"
    by auto
qed

text \<open>A disk whose header lists the logged blocks and whose log holds their contents.\<close>

lemma committed_image:
  assumes l: "log_ok l" "0 < lh_n l" and D: "\<And>b. length (D b) = BSIZE"
    and st: "D (lstart l) = header_bytes (lh_n l) (lh_block l) d"
    and data: "\<And>t. t < nat (lh_n l) \<Longrightarrow> D (log_data (lstart l) t) = V (logged l ! t)"
  shows "log_disk (lstart l) D"
    "recovered (lstart l) D b = (if b \<in> set (logged l) then V b else D b)"
proof -
  have n: "lh_n l \<le> LOGSIZE" "nat (lh_n l) \<le> length (lh_block l)" "length (logged l) = nat (lh_n l)"
    using l(1) by (simp_all add: log_ok_def logged_def)
  have h: "header_n (D (lstart l)) = lh_n l" "header_blocks (D (lstart l)) = logged l"
    using header_n_bytes [of "lh_n l" "lh_block l" d] header_blocks_bytes [OF _ n(1,2), of d] l(2) n(1)
    by (simp_all add: st logged_def)
  then show "log_disk (lstart l) D"
    using l(1) D n(1) by (simp add: log_disk_def log_ok_def logged_def)
  have "log_pairs (lstart l) D = map (\<lambda>t. (logged l ! t, V (logged l ! t))) [0..<length (logged l)]"
    using data h n(3) by (simp add: log_pairs_def Let_def)
  also have "\<dots> = map (\<lambda>b. (b, V b)) (map ((!) (logged l)) [0..<length (logged l)])" by simp
  finally have "log_pairs (lstart l) D = map (\<lambda>b. (b, V b)) (logged l)" by (simp only: map_nth)
  then show "recovered (lstart l) D b = (if b \<in> set (logged l) then V b else D b)"
    by (simp add: recovered_def map_of_map_restrict restrict_map_def)
qed

text \<open>
  The disk after the first \<open>k\<close> writes of a commit recovers to the old contents up to the write of
  the header and to the new contents from it on.
\<close>

lemma commit_prefix:
  fixes k :: nat
  assumes l: "log_ok l" "0 < lh_n l"
    and D: "log_disk (lstart l) D" "header_n (D (lstart l)) \<le> 0"
    and V: "\<And>b. length (V b) = BSIZE"
  defines "D' \<equiv> put_blocks (take k (commit_writes l V)) D"
  shows "log_disk (lstart l) D'"
    "b \<notin> log_area (lstart l) \<Longrightarrow> recovered (lstart l) D' b =
       (if nat (lh_n l) < k \<and> b \<in> set (logged l) then V b else D b)"
proof -
  let ?n = "nat (lh_n l)" and ?st = "lstart l"
  define hd where "hd = header_bytes (lh_n l) (lh_block l) (V ?st)"
  define lw where "lw = log_writes l V ?n"
  define iw where "iw = install_writes l (\<lambda>t. V (logged l ! t)) ?n"
  have n: "?n < nat LOGSIZE" "lh_n l \<le> LOGSIZE" "?n \<le> length (lh_block l)" "length (logged l) = ?n"
    "distinct (logged l)" "set (logged l) \<inter> log_area ?st = {}"
    using l(1) by (auto simp: log_ok_def logged_def)
  have ln: "length lw = ?n" "length iw = ?n" by (simp_all add: lw_def iw_def log_writes_def install_writes_def)
  have W: "commit_writes l V = lw @ [(?st, hd)] @ iw @ [(?st, header_bytes 0 (lh_block l) hd)]"
    by (simp add: commit_writes_def Let_def hd_def lw_def iw_def)
  have lens: "length hd = BSIZE" "length (header_bytes 0 (lh_block l) hd) = BSIZE"
    using V header_length [of "lh_n l"] header_length [of 0 _ hd] n l(2)
    by (simp_all add: hd_def LOGSIZE_def MAXOPBLOCKS_def)
  have len': "length (D' b) = BSIZE" for b
  proof -
    have "length (snd w) = BSIZE" if "w \<in> set (commit_writes l V)" for w
      using that lens V unfolding W by (auto simp: lw_def iw_def log_writes_def install_writes_def)
    then show ?thesis
      unfolding D'_def using D(1) by (intro put_blocks_length) (auto simp: log_disk_def dest: in_set_takeD)
  qed
  have old: "header_blocks (D ?st) = []" using D(2) by (simp add: header_blocks_def)
  consider (logging) "k \<le> ?n" | (installing) j where "k = Suc ?n + j" "j \<le> ?n" | (cleared) "Suc ?n + ?n < k"
    using le_Suc_ex [of "Suc ?n" k] by (metis add_le_cancel_left not_less not_less_eq_eq)
  then have "log_disk ?st D' \<and> (b \<notin> log_area ?st \<longrightarrow>
      recovered ?st D' b = (if ?n < k \<and> b \<in> set (logged l) then V b else D b))"
  proof cases
    case logging
    then have D': "D' = put_blocks (log_writes l V k) D"
      by (simp add: D'_def W ln) (simp add: lw_def log_writes_def take_map take_upt)
    have st: "D' ?st = D ?st"
      unfolding D' using logged_head(1) [OF l(1) logging] by (rule put_blocks_notin)
    have "log_disk ?st D'" using D(1) len' by (simp add: log_disk_def st)
    moreover have "recovered ?st D' b = (if ?n < k \<and> b \<in> set (logged l) then V b else D b)" if "b \<notin> log_area ?st"
      using logging st old that log_writes_outside [OF that, of k V] n(1)
      by (simp add: recovered_def log_pairs_def D' put_blocks_notin)
    ultimately show ?thesis by blast
  next
    case installing
    define D1 where "D1 = (put_blocks lw D)(?st := hd)"
    have "take k (commit_writes l V) = lw @ [(?st, hd)] @ take j iw"
      using installing by (simp add: W ln)
    moreover have "take j iw = install_writes l (\<lambda>t. V (logged l ! t)) j"
      using installing by (simp add: iw_def install_writes_def take_map take_upt)
    ultimately have D': "D' = put_blocks (install_writes l (\<lambda>t. V (logged l ! t)) j) D1"
      by (simp add: D'_def D1_def put_blocks_append)
    have pt: "D' b = (if b \<in> set (take j (logged l)) then V b else D1 b)" for b
      unfolding D' using installing n by (intro put_installed) simp_all
    have out: "b \<notin> set (take j (logged l))" if "b \<in> log_area ?st" for b
      using that n(6) by (auto dest: in_set_takeD)
    have "D' (log_data ?st t) = V (logged l ! t)" if "t < ?n" for t
      using that n out [OF log_data_area] put_log_data [OF that less_imp_le [OF n(1)]] log_data_head [of t ?st]
      by (simp add: pt D1_def lw_def)
    moreover have "D' ?st = header_bytes (lh_n l) (lh_block l) (V ?st)"
      using out [of ?st] by (simp add: pt D1_def hd_def)
    ultimately have c: "log_disk ?st D'" "recovered ?st D' b = (if b \<in> set (logged l) then V b else D' b)"
      using committed_image [of l D' "V ?st" V] l len' by auto
    have "log_disk ?st D'" by (rule c)
    moreover have "recovered ?st D' b = (if ?n < k \<and> b \<in> set (logged l) then V b else D b)" if "b \<notin> log_area ?st"
      using c(2) installing that log_writes_outside [OF that, of ?n V] n(1)
      by (auto simp: pt D1_def lw_def put_blocks_notin dest: in_set_takeD)
    ultimately show ?thesis by blast
  next
    case cleared
    then have D': "D' = (put_blocks iw ((put_blocks lw D)(?st := hd)))(?st := header_bytes 0 (lh_block l) hd)"
      by (simp add: D'_def W ln put_blocks_append)
    have h: "header_n (D' ?st) = 0" "header_blocks (D' ?st) = []"
      using header_n_bytes [of 0 "lh_block l" hd] header_blocks_bytes [of 0 "lh_block l" hd]
      by (simp_all add: D' LOGSIZE_def MAXOPBLOCKS_def)
    have "log_disk ?st D'" using h len' by (simp add: log_disk_def LOGSIZE_def MAXOPBLOCKS_def)
    moreover have "recovered ?st D' b = (if ?n < k \<and> b \<in> set (logged l) then V b else D b)" if "b \<notin> log_area ?st"
      using that cleared h put_installed [of ?n l V] n log_writes_outside [OF that, of ?n V]
      by (auto simp: recovered_def log_pairs_def D' iw_def lw_def put_blocks_notin)
    ultimately show ?thesis by blast
  qed
  then show "log_disk ?st D'" "b \<notin> log_area ?st \<Longrightarrow> recovered ?st D' b =
      (if ?n < k \<and> b \<in> set (logged l) then V b else D b)"
    by auto
qed

section \<open>A transaction\<close>

text \<open>
  The use of the log by a file system call, as the comment of \<open>log_write\<close> describes it: each block is
  read, changed, logged and released, between \<open>begin_op\<close> and \<open>end_op\<close>.
\<close>

definition update_block :: "'s bio_api \<Rightarrow> u32 \<times> bytes \<Rightarrow> log \<times> 's \<Rightarrow> (log \<times> 's) option" where
  "update_block api w c = do {
     (b, s1) \<leftarrow> api_bread api (ldev (fst c)) (fst w) (snd c);
     (l2, s2) \<leftarrow> log_write api b (fst c) (api_set_data api b (snd w) s1);
     s3 \<leftarrow> api_brelse api b s2;
     Some (l2, s3) }"

definition transaction :: "'s bio_api \<Rightarrow> (u32 \<times> bytes) list \<Rightarrow> log \<Rightarrow> 's \<Rightarrow> (log \<times> 's) option" where
  "transaction api ws l s = do {
     (go, l1, s1) \<leftarrow> begin_op api l s;
     if \<not> go then None
     else do {
       (l2, s2) \<leftarrow> foreach (update_block api) ws (l1, s1);
       end_op api l2 s2 } }"

lemma takeWhile_stops: "b \<in> set xs \<Longrightarrow> length (takeWhile (\<lambda>x. x \<noteq> b) xs) < length xs"
  by (induction xs) auto

lemma log_index_eq:
  assumes "log_ok l"
  shows "log_index l b = nat (lh_n l) \<longleftrightarrow> b \<notin> set (logged l)"
    "b \<in> set (logged l) \<Longrightarrow> lh_block l ! log_index l b = b \<and> log_index l b < nat (lh_n l)"
proof -
  have len: "length (logged l) = nat (lh_n l)" using assms by (simp add: log_ok_def logged_def)
  have i: "log_index l b = length (takeWhile (\<lambda>x. x \<noteq> b) (logged l))"
    by (simp add: log_index_def logged_def)
  have le: "log_index l b \<le> nat (lh_n l)" unfolding i len [symmetric] by (rule length_takeWhile_le)
  show in': "b \<in> set (logged l) \<Longrightarrow> lh_block l ! log_index l b = b \<and> log_index l b < nat (lh_n l)"
  proof -
    assume b: "b \<in> set (logged l)"
    have lt: "log_index l b < nat (lh_n l)"
      unfolding i len [symmetric] using b by (rule takeWhile_stops)
    then have "logged l ! log_index l b = b"
      unfolding i using nth_length_takeWhile [of "\<lambda>x. x \<noteq> b" "logged l"] len by auto
    then show ?thesis using lt by (simp add: logged_def)
  qed
  show "log_index l b = nat (lh_n l) \<longleftrightarrow> b \<notin> set (logged l)"
  proof
    show "b \<notin> set (logged l) \<Longrightarrow> log_index l b = nat (lh_n l)"
      unfolding i len [symmetric] by (subst takeWhile_eq_all_conv [THEN iffD2]) auto
  qed (use in' in auto)
qed

text \<open>Logging a block: it is added when it is not yet in the log.\<close>

definition logs :: "u32 \<Rightarrow> log \<Rightarrow> log" where
  "logs b l = (if b \<in> set (logged l) then l
     else l\<lparr>lh_n := lh_n l + 1, lh_block := (lh_block l)[nat (lh_n l) := b]\<rparr>)"

lemma logs_simps [simp]:
  "ldev (logs b l) = ldev l" "lstart (logs b l) = lstart l" "lsize (logs b l) = lsize l"
  "outstanding (logs b l) = outstanding l" "committing (logs b l) = committing l"
  "length (lh_block (logs b l)) = length (lh_block l)"
  by (simp_all add: logs_def)

lemma logs_ok:
  assumes "log_ok l" "0 \<le> lh_n l" "lh_n l + 1 < LOGSIZE" "length (lh_block l) = nat LOGSIZE" "b \<notin> log_area (lstart l)"
  shows "logged (logs b l) = (if b \<in> set (logged l) then logged l else logged l @ [b])"
    "log_ok (logs b l)" "lh_n (logs b l) = int (length (logged (logs b l)))"
proof -
  have lt: "nat (lh_n l) < length (lh_block l)" using assms by simp
  have n: "nat (lh_n l + 1) = Suc (nat (lh_n l))" using assms(2) by simp
  show e: "logged (logs b l) = (if b \<in> set (logged l) then logged l else logged l @ [b])"
    using lt by (simp add: logs_def logged_def n take_Suc_conv_app_nth)
  show "log_ok (logs b l)"
  proof (cases "b \<in> set (logged l)")
    case False
    have "take (nat (lh_n l + 1)) ((lh_block l)[nat (lh_n l) := b]) = logged l @ [b]"
      using e False by (simp add: logs_def logged_def)
    then show ?thesis
      using False assms lt by (auto simp: logs_def log_ok_def logged_def)
  qed (use assms in \<open>simp add: logs_def\<close>)
  then show "lh_n (logs b l) = int (length (logged (logs b l)))"
    using assms(2,4) by (auto simp: logged_def log_ok_def logs_def)
qed

lemma log_write_eq:
  assumes "log_ok l" "0 \<le> lh_n l" "api_blockno api i s = b"
  shows "log_write api i l s =
    (if LOGSIZE \<le> lh_n l \<or> lsize l - 1 \<le> lh_n l \<or> outstanding l < 1 then None
     else Some (logs b l, if b \<in> set (logged l) then s else api_bpin api i s))"
proof (cases "b \<in> set (logged l)")
  case True
  then show ?thesis
    using log_index_eq [OF assms(1), of b] assms(3) list_update_id [of "lh_block l" "log_index l b"]
    by (simp add: log_write_def logs_def Let_def)
next
  case False
  then show ?thesis
    using log_index_eq [OF assms(1), of b] assms(3) by (simp add: log_write_def logs_def Let_def)
qed

text \<open>A log in use by one process: nothing is held, and the pins are those of the logged blocks.\<close>

context buffer_cache
begin

definition in_op :: "log \<Rightarrow> 's \<Rightarrow> bool" where
  "in_op l s \<longleftrightarrow> ldev l = dev \<and> log_ok l \<and> 0 \<le> lh_n l \<and> length (lh_block l) = nat LOGSIZE \<and>
     lh_n l = int (length (logged l)) \<and>
     inv s \<and> held s = Map.empty \<and> pins s = (\<lambda>b. if b \<in> set (logged l) then 1 else 0)"

lemma in_op_fits: "\<lbrakk>in_op l s; lh_n l + 1 < int cap\<rbrakk> \<Longrightarrow> fits s (b # logged l)"
  using card_length [of "logged l"]
  by (auto simp: in_op_def fits_def card_insert_if)

lemma update_block_spec:
  assumes s: "in_op l s" and room: "lh_n l + 1 < LOGSIZE" "lh_n l < lsize l - 1" "lh_n l + 1 < int cap"
    and o: "1 \<le> outstanding l" and w: "b \<notin> log_area (lstart l)" "length x = BSIZE"
  shows "\<exists>s'. update_block api (b, x) (l, s) = Some (logs b l, s') \<and> in_op (logs b l) s' \<and>
    view s' = (view s)(b := x) \<and> disk s' = disk s \<and> writes s' = writes s"
proof -
  have op: "ldev l = dev" "log_ok l" "0 \<le> lh_n l" "length (lh_block l) = nat LOGSIZE"
    "inv s" "held s = Map.empty" "pins s = (\<lambda>b. if b \<in> set (logged l) then 1 else 0)"
    using s by (simp_all add: in_op_def)
  note lg = logs_ok [OF op(2,3) room(1) op(4) w(1)]
  obtain i s1 where 1: "api_bread api dev b s = Some (i, s1)" "inv s1" "view s1 = view s" "disk s1 = disk s"
    "held s1 = [i \<mapsto> b]" "pins s1 = pins s" "writes s1 = writes s"
    using bread_none [OF op(5,6) in_op_fits [OF s room(3), of b], of b] by auto
  have hi: "held s1 i = Some b" using 1 by simp
  define s2 where "s2 = api_set_data api i x s1"
  have 2: "inv s2" "view s2 = (view s)(b := x)" "disk s2 = disk s" "held s2 = held s1" "pins s2 = pins s"
    "writes s2 = writes s"
    using set_data_law [OF 1(2) hi w(2)] 1 by (auto simp: s2_def)
  have hi2: "held s2 i = Some b" using 2 hi by simp
  define s3 where "s3 = (if b \<in> set (logged l) then s2 else api_bpin api i s2)"
  have 3: "inv s3" "view s3 = view s2" "disk s3 = disk s" "held s3 = held s1"
    "pins s3 = (\<lambda>c. if c \<in> set (logged (logs b l)) then 1 else 0)" "writes s3 = writes s"
    using bpin_law [OF 2(1) hi2] 2 op(7) lg(1) by (auto simp: s3_def)
  have lw: "log_write api i l s2 = Some (logs b l, s3)"
    using log_write_eq [OF op(2,3), of api i s2 b] data_law [OF 2(1) hi2] room o by (simp add: s3_def)
  have "0 < pins s3 b" using lg(1) by (auto simp: 3(5))
  then obtain s4 where 4: "api_brelse api i s3 = Some s4" "inv s4" "view s4 = view s3" "disk s4 = disk s3"
    "held s4 = (held s3)(i := None)" "pins s4 = pins s3" "writes s4 = writes s3"
    using brelse_law [OF 3(1), of i b] 3(4) hi by auto
  have "update_block api (b, x) (l, s) = Some (logs b l, s4)"
    using 1(1) lw 4(1) op(1) by (simp add: update_block_def s2_def)
  moreover have "in_op (logs b l) s4"
    using lg op(1,4) 1(5) 3(4) 4 3(5) by (simp add: in_op_def)
  ultimately show ?thesis using 2(2) 3(2,3,6) 4 by auto
qed

lemma updates_spec:
  assumes "in_op l s" "lh_n l + int (length ws) < LOGSIZE" "lh_n l + int (length ws) \<le> lsize l - 1"
    "lh_n l + int (length ws) < int cap" "1 \<le> outstanding l"
    "\<And>w. w \<in> set ws \<Longrightarrow> fst w \<notin> log_area (lstart l) \<and> length (snd w) = BSIZE"
  shows "\<exists>s'. foreach (update_block api) ws (l, s) = Some (fold (\<lambda>w. logs (fst w)) ws l, s') \<and>
    in_op (fold (\<lambda>w. logs (fst w)) ws l) s' \<and> view s' = put_blocks ws (view s) \<and> disk s' = disk s \<and>
    writes s' = writes s"
  using assms
proof (induction ws arbitrary: l s)
  case (Cons w ws)
  obtain b x where w: "w = (b, x)" by (cases w)
  have bx: "b \<notin> log_area (lstart l)" "length x = BSIZE" using Cons.prems(6) [of w] w by auto
  have room: "lh_n l + 1 < LOGSIZE" "lh_n l < lsize l - 1" "lh_n l + 1 < int cap" using Cons.prems by auto
  obtain s1 where 1: "update_block api (b, x) (l, s) = Some (logs b l, s1)" "in_op (logs b l) s1"
    "view s1 = (view s)(b := x)" "disk s1 = disk s" "writes s1 = writes s"
    using update_block_spec [OF Cons.prems(1) room Cons.prems(5) bx] by auto
  have n: "lh_n (logs b l) \<le> lh_n l + 1" by (simp add: logs_def)
  obtain s2 where "foreach (update_block api) ws (logs b l, s1) = Some (fold (\<lambda>w. logs (fst w)) ws (logs b l), s2)"
    "in_op (fold (\<lambda>w. logs (fst w)) ws (logs b l)) s2" "view s2 = put_blocks ws (view s1)" "disk s2 = disk s1"
    "writes s2 = writes s1"
    using Cons.IH [OF 1(2)] n Cons.prems by fastforce
  then show ?case using 1 w by simp
qed simp

end

lemma fold_logs:
  assumes "log_ok l" "0 \<le> lh_n l" "length (lh_block l) = nat LOGSIZE" "lh_n l + int (length ws) < LOGSIZE"
    "\<And>w. w \<in> set ws \<Longrightarrow> fst w \<notin> log_area (lstart l)"
  defines "l' \<equiv> fold (\<lambda>w. logs (fst w)) ws l"
  shows "set (logged l') = set (logged l) \<union> fst ` set ws \<and> ldev l' = ldev l \<and> lstart l' = lstart l \<and>
    outstanding l' = outstanding l \<and> committing l' = committing l \<and> log_ok l' \<and> 0 \<le> lh_n l'"
  unfolding l'_def using assms(1-5)
proof (induction ws arbitrary: l)
  case (Cons w ws)
  note lg = logs_ok [OF Cons.prems(1,2) _ Cons.prems(3), of "fst w"]
  have "lh_n (logs (fst w) l) \<le> lh_n l + 1" "0 \<le> lh_n (logs (fst w) l)" using Cons.prems(2) by (auto simp: logs_def)
  then show ?case
    using Cons.IH [of "logs (fst w) l"] lg Cons.prems by auto
qed simp

lemma commit_header:
  "header_n (put_blocks (commit_writes l V) D (lstart l)) = 0"
  using header_n_bytes [of 0] by (simp add: commit_writes_def Let_def put_blocks_append LOGSIZE_def MAXOPBLOCKS_def)

lemma put_blocks_in: "b \<in> fst ` set ws \<Longrightarrow> put_blocks ws D b = put_blocks ws E b"
proof (induction ws arbitrary: D E)
  case (Cons w ws)
  show ?case
  proof (cases "b \<in> fst ` set ws")
    case True
    then show ?thesis using Cons.IH by simp
  next
    case False
    then show ?thesis using Cons.prems by (simp add: put_blocks_notin)
  qed
qed simp

text \<open>What a transaction has logged when it commits.\<close>

definition full_log :: "(u32 \<times> bytes) list \<Rightarrow> log \<Rightarrow> log" where
  "full_log ws l = fold (\<lambda>w. logs (fst w)) ws (l\<lparr>outstanding := 1\<rparr>)"

definition transaction_writes :: "(u32 \<times> bytes) list \<Rightarrow> log \<Rightarrow> (u32 \<Rightarrow> bytes) \<Rightarrow> (u32 \<times> bytes) list" where
  "transaction_writes ws l V = (if ws = [] then [] else commit_writes (full_log ws l) (put_blocks ws V))"

lemma full_log_facts:
  assumes "lh_n l = 0" "length (lh_block l) = nat LOGSIZE" "int (length ws) < LOGSIZE"
    "\<And>w. w \<in> set ws \<Longrightarrow> fst w \<notin> log_area (lstart l)"
  shows "set (logged (full_log ws l)) = fst ` set ws" "ldev (full_log ws l) = ldev l"
    "lstart (full_log ws l) = lstart l" "outstanding (full_log ws l) = 1" "committing (full_log ws l) = committing l"
    "log_ok (full_log ws l)" "0 \<le> lh_n (full_log ws l)"
  using fold_logs [of "l\<lparr>outstanding := 1\<rparr>" ws] assms
  by (auto simp: full_log_def logged_def log_ok_def LOGSIZE_def MAXOPBLOCKS_def)

lemma fold_logs_size [simp]: "lsize (fold (\<lambda>w. logs (fst w)) ws l) = lsize l"
  by (induction ws arbitrary: l) auto

context buffer_cache
begin

lemma in_op_commit_flags: "in_op (l\<lparr>outstanding := n, committing := c\<rparr>) s = in_op l s"
  by (simp add: in_op_def log_ok_def logged_def)

lemma transaction_spec:
  assumes s: "in_op l s" "lh_n l = 0" "outstanding l = 0" "\<not> committing l"
    and ws: "int (length ws) \<le> MAXOPBLOCKS" "int (length ws) \<le> lsize l - 1" "length ws < cap"
    "\<And>w. w \<in> set ws \<Longrightarrow> fst w \<notin> log_area (lstart l) \<and> length (snd w) = BSIZE"
  defines "W \<equiv> transaction_writes ws l (view s)"
  shows "\<exists>l' s'. transaction api ws l s = Some (l', s') \<and> in_op l' s' \<and> lh_n l' = 0 \<and> outstanding l' = 0 \<and>
    \<not> committing l' \<and> lstart l' = lstart l \<and> lsize l' = lsize l \<and>
    writes s' = writes s @ W \<and> disk s' = put_blocks W (disk s)"
proof -
  let ?l0 = "l\<lparr>outstanding := 1\<rparr>" and ?l1 = "full_log ws l"
  have lg: "logged l = []" using s(2) by (simp add: logged_def)
  have begin_op: "begin_op api l s = Some (True, ?l0, s)"
    using s(2,3,4) by (simp add: begin_op_def LOGSIZE_def MAXOPBLOCKS_def)
  have fl: "set (logged ?l1) = fst ` set ws" "outstanding ?l1 = 1" "\<not> committing ?l1" "lstart ?l1 = lstart l"
    using full_log_facts [of l ws] s ws by (auto simp: in_op_def LOGSIZE_def MAXOPBLOCKS_def)
  have sz: "lsize ?l1 = lsize l" by (simp add: full_log_def)
  have op0: "in_op ?l0 s" using s(1) by (simp add: in_op_def log_ok_def logged_def)
  obtain s1 where 1: "foreach (update_block api) ws (?l0, s) = Some (?l1, s1)" "in_op ?l1 s1"
    "view s1 = put_blocks ws (view s)" "disk s1 = disk s" "writes s1 = writes s"
    using updates_spec [OF op0, of ws] s(2) ws by (auto simp: full_log_def LOGSIZE_def MAXOPBLOCKS_def)
  let ?l2 = "?l1\<lparr>outstanding := 0, committing := True\<rparr>"
  have op2: "in_op ?l2 s1" using 1(2) by (simp add: in_op_commit_flags)
  have c: "\<exists>l3 s3. commit api ?l2 s1 = Some (l3, s3) \<and> l3 = ?l2\<lparr>lh_n := 0\<rparr> \<and> in_op (l3\<lparr>committing := False\<rparr>) s3 \<and>
    writes s3 = writes s @ W \<and> disk s3 = put_blocks W (disk s)"
  proof (cases "ws = []")
    case True
    then have "?l1 = ?l0" by (simp add: full_log_def)
    then show ?thesis using True s(2) 1 op0
      by (auto simp: commit_def W_def transaction_writes_def in_op_def log_ok_def logged_def)
  next
    case False
    have n: "lh_n ?l1 = int (length (logged ?l1))" using 1(2) by (simp add: in_op_def)
    then have pos: "0 < lh_n ?l2" using False fl(1) by (cases "logged ?l1") auto
    have lg2: "logged ?l2 = logged ?l1" by (simp add: logged_def)
    have "length (logged ?l1) = card (fst ` set ws)"
      using 1(2) fl(1) distinct_card [of "logged ?l1"] by (auto simp: in_op_def log_ok_def logged_def)
    also have "\<dots> \<le> length ws" by (metis List.finite_set card_image_le card_length le_trans)
    finally have le: "length (logged ?l1) \<le> length ws" .
    have "card (set (logged ?l1)) < cap" using card_length [of "logged ?l1"] le ws(3) by linarith
    then have fit: "fits s1 (logged ?l2)"
      using 1(2) lg2 by (auto simp: fits_def in_op_def insert_absorb)
    have ok: "ldev ?l2 = dev" "log_ok ?l2" "inv s1" "held s1 = Map.empty"
      "\<And>b. b \<in> set (logged ?l2) \<Longrightarrow> 0 < pins s1 b"
      using op2 by (auto simp: in_op_def)
    have cw: "commit_writes ?l2 V = commit_writes ?l1 V" for V
      by (simp add: commit_writes_def log_writes_def install_writes_def logged_def)
    obtain s3 where 3: "commit api ?l2 s1 = Some (?l2\<lparr>lh_n := 0\<rparr>, s3)" "inv s3" "held s3 = Map.empty"
      "pins s3 = (\<lambda>b. if b \<in> set (logged ?l2) then pins s1 b - 1 else pins s1 b)"
      "disk s3 = put_blocks (commit_writes ?l1 (view s1)) (disk s1)"
      "writes s3 = writes s1 @ commit_writes ?l1 (view s1)"
      using commit_spec [OF ok(1,2) pos ok(3,4) fit ok(5)] unfolding cw by auto
    have "pins s3 = (\<lambda>b. 0)" using op2 by (auto simp: 3(4) in_op_def)
    then have "in_op (?l2\<lparr>lh_n := 0, committing := False\<rparr>) s3"
      using 3 op2 by (simp add: in_op_def log_ok_def logged_def LOGSIZE_def MAXOPBLOCKS_def)
    then show ?thesis
      using 3 1 False by (auto simp: W_def transaction_writes_def)
  qed
  then obtain s3 where 3: "commit api ?l2 s1 = Some (?l2\<lparr>lh_n := 0\<rparr>, s3)"
    "in_op (?l2\<lparr>lh_n := 0, committing := False\<rparr>) s3" "writes s3 = writes s @ W" "disk s3 = put_blocks W (disk s)"
    by auto
  let ?l4 = "?l1\<lparr>outstanding := 0, committing := False, lh_n := 0\<rparr>" and ?s4 = "api_wakeup api ChLog s3"
  have l4: "?l2\<lparr>lh_n := 0, committing := False\<rparr> = ?l4" by simp
  have eo: "end_op api ?l1 s1 = Some (?l4, ?s4)"
    using fl(2,3) 3(1) by (simp add: end_op_def Let_def)
  have "in_op ?l4 ?s4 \<and> writes ?s4 = writes s @ W \<and> disk ?s4 = put_blocks W (disk s)"
    using 3 wakeup_law [of s3 ChLog] unfolding l4 by (simp add: in_op_def)
  then show ?thesis
    using begin_op 1(1) eo fl(4) sz by (auto simp: transaction_def)
qed

end

section \<open>Atomicity\<close>

text \<open>
  The log between operations, on the buffer cache of the kernel: no buffer is in use, and the log on
  the disk is empty.
\<close>

definition log_idle :: "u32 \<Rightarrow> log \<Rightarrow> 'e bcache \<Rightarrow> bool" where
  "log_idle d l s \<longleftrightarrow> cinv d s \<and> cheld s = Map.empty \<and> cpins d s = (\<lambda>_. 0) \<and> ldev l = d \<and> lh_n l = 0 \<and>
     outstanding l = 0 \<and> \<not> committing l \<and> length (lh_block l) = nat LOGSIZE \<and>
     log_disk (lstart l) (cdisk d s) \<and> header_n (cdisk d s (lstart l)) = 0"

text \<open>The log structure of a kernel that has just been loaded.\<close>

definition log_zero :: log where
  "log_zero = \<lparr>lstart = 0, lsize = 0, outstanding = 0, committing = False, ldev = 0, lh_n = 0,
     lh_block = replicate (nat LOGSIZE) 0\<rparr>"

text \<open>The disk after the machine has booted on the disk \<open>D\<close> and stopped after \<open>j\<close> writes of \<open>initlog\<close>.\<close>

definition crash_image :: "u32 \<Rightarrow> superblock \<Rightarrow> 'e kstate \<Rightarrow> nat \<Rightarrow> (u32 \<Rightarrow> bytes) \<Rightarrow> u32 \<Rightarrow> bytes" where
  "crash_image d sb k j D =
    (case initlog bio d sb log_zero (booted (\<lambda>_. D) k) of
       Some (l, s) \<Rightarrow> put_blocks (take j (cwrites d s)) D
     | None \<Rightarrow> D)"

lemma initlog_booted:
  assumes d: "d \<noteq> 0" and k: "table_ok k" "cur k = Some p" "p < NPROC" and D: "log_disk (sb_logstart sb) D"
  shows "\<exists>l s. initlog bio d sb log_zero (booted (\<lambda>_. D) k) = Some (l, s) \<and> log_idle d l s \<and>
    lstart l = sb_logstart sb \<and> lsize l = sint (sb_nlog sb) \<and>
    cdisk d s = put_blocks (recover_writes (sb_logstart sb) D) D \<and>
    cwrites d s = recover_writes (sb_logstart sb) D"
proof -
  let ?l = "log_zero\<lparr>lstart := sb_logstart sb, lsize := sint (sb_nlog sb), ldev := d\<rparr>"
  let ?s = "booted (\<lambda>_. D) k :: 'a bcache"
  have D': "\<And>b. length (D b) = BSIZE" using D by (simp add: log_disk_def)
  note b = booted_cache [OF d, of "\<lambda>_. D", OF D' k]
  have "card {b :: u32. 0 < cpins d ?s b} < NBUF" "card (insert c {b. 0 < cpins d ?s b}) < NBUF" for c
    using b(5) by (simp_all add: NBUF_def)
  then have fit: "cache.fits d ?s (header_blocks (cdisk d ?s (lstart ?l)))"
    using b(5) by (simp add: cache.fits_def)
  obtain bs s where 1: "recover_from_log bio ?l ?s = Some (?l\<lparr>lh_n := 0, lh_block := bs\<rparr>, s)"
    "length bs = nat LOGSIZE" "cinv d s" "cheld s = Map.empty" "cpins d s = cpins d ?s"
    "cdisk d s = put_blocks (recover_writes (lstart ?l) (cdisk d ?s)) (cdisk d ?s)"
    "cwrites d s = cwrites d ?s @ recover_writes (lstart ?l) (cdisk d ?s)"
    using cache.recover_spec [of ?l d ?s] b D fit by (auto simp: log_zero_def)
  let ?st = "sb_logstart sb"
  have disk: "cdisk d s = put_blocks (recover_writes ?st D) D" using 1(6) b(3) by simp
  have "log_disk ?st (cdisk d s)"
    using recovered_prefix(1) [OF D, of "length (recover_writes ?st D)"] by (simp add: disk)
  moreover have "header_n (cdisk d s ?st) = 0"
    using header_n_bytes [of 0 "[]"]
    by (simp add: disk recover_writes_def put_blocks_append LOGSIZE_def MAXOPBLOCKS_def)
  ultimately have "log_idle d (?l\<lparr>lh_n := 0, lh_block := bs\<rparr>) s"
    using 1(2-5) b(5) by (simp add: log_idle_def log_zero_def)
  moreover have "initlog bio d sb log_zero ?s = Some (?l\<lparr>lh_n := 0, lh_block := bs\<rparr>, s)"
    using 1(1) by (simp add: initlog_def BSIZE_def LOGSIZE_def MAXOPBLOCKS_def)
  ultimately show ?thesis using 1(7) b(3,6) disk by auto
qed

lemma crash_images:
  assumes d: "d \<noteq> 0" and k: "table_ok k" "cur k = Some p" "p < NPROC"
  shows "log_disk (sb_logstart sb) D \<Longrightarrow> log_disk (sb_logstart sb) (fold (crash_image d sb k) js D) \<and>
    (\<forall>b. b \<notin> log_area (sb_logstart sb) \<longrightarrow>
       recovered (sb_logstart sb) (fold (crash_image d sb k) js D) b = recovered (sb_logstart sb) D b)"
proof (induction js arbitrary: D)
  case (Cons j js)
  obtain l s where "initlog bio d sb log_zero (booted (\<lambda>_. D) k) = Some (l, s)"
    "cwrites d s = recover_writes (sb_logstart sb) D"
    using initlog_booted [OF d k Cons.prems] by auto
  then have "crash_image d sb k j D = put_blocks (take j (recover_writes (sb_logstart sb) D)) D"
    by (simp add: crash_image_def)
  then show ?case
    using Cons.IH [of "crash_image d sb k j D"] recovered_prefix(1,2) [OF Cons.prems, where j = j] by auto
qed simp

lemma log_idleD:
  assumes "log_idle d l s"
  shows "cinv d s" "cheld s = Map.empty" "ldev l = d" "lh_n l = 0" "length (lh_block l) = nat LOGSIZE"
    "log_disk (lstart l) (cdisk d s)" "header_n (cdisk d s (lstart l)) = 0" "\<not> committing l" "outstanding l = 0"
    "cache.in_op d l s"
  using assms by (auto simp: log_idle_def cache.in_op_def log_ok_def logged_def LOGSIZE_def MAXOPBLOCKS_def)

text \<open>What recovery makes of the disk after the first \<open>k\<close> writes of a transaction.\<close>

lemma transaction_image:
  fixes k :: nat
  assumes s: "log_idle d l s" and len: "int (length ws) < LOGSIZE"
    and ws: "\<And>w. w \<in> set ws \<Longrightarrow> fst w \<notin> log_area (lstart l) \<and> length (snd w) = BSIZE"
  defines "D' \<equiv> put_blocks (take k (transaction_writes ws l (cview d s))) (cdisk d s)"
  shows "log_disk (lstart l) D'" "b \<notin> log_area (lstart l) \<Longrightarrow> recovered (lstart l) D' b =
    (if card (fst ` set ws) < k then put_blocks ws (cdisk d s) b else cdisk d s b)"
proof -
  let ?D = "cdisk d s" and ?fl = "full_log ws l"
  note i = log_idleD [OF s]
  have area: "\<And>w. w \<in> set ws \<Longrightarrow> fst w \<notin> log_area (lstart l)" using ws by auto
  note fl = full_log_facts [OF i(4,5) len area]
  have n: "nat (lh_n ?fl) = card (fst ` set ws)"
  proof -
    have "length (logged ?fl) = nat (lh_n ?fl)" "distinct (logged ?fl)"
      using fl(6) by (simp_all add: log_ok_def logged_def)
    then show ?thesis using distinct_card [of "logged ?fl"] fl(1) by simp
  qed
  have "log_disk (lstart l) D' \<and> (b \<notin> log_area (lstart l) \<longrightarrow> recovered (lstart l) D' b =
    (if card (fst ` set ws) < k then put_blocks ws ?D b else ?D b))"
  proof (cases "ws = []")
    case True
    then show ?thesis
      using i(6,7) by (simp add: D'_def transaction_writes_def recovered_def log_pairs_def header_blocks_def)
  next
    case False
    have pos: "0 < lh_n ?fl" using n False fl(7) by (cases "lh_n ?fl = 0") auto
    have V: "length (put_blocks ws (cview d s) b) = BSIZE" for b
      using cache.view_length [OF i(1)] ws by (intro put_blocks_length) auto
    have "put_blocks ws (cview d s) b = put_blocks ws ?D b" if "b \<in> fst ` set ws" for b
      using that by (rule put_blocks_in)
    then show ?thesis
      using commit_prefix [OF fl(6) pos _ _ V, where D = ?D and k = k] i(6,7) n fl(1,3) False
      by (auto simp: D'_def transaction_writes_def put_blocks_notin)
  qed
  then show "log_disk (lstart l) D'" "b \<notin> log_area (lstart l) \<Longrightarrow> recovered (lstart l) D' b =
    (if card (fst ` set ws) < k then put_blocks ws (cdisk d s) b else cdisk d s b)" by auto
qed

text \<open>
  C2: A transaction of at most \<open>MAXOPBLOCKS\<close> block updates on an idle log runs to its end and leaves the
  log idle. If the machine stops after any number \<open>k\<close> of its disk writes, and then any number of
  times (\<open>js\<close>) in the middle of the recovery, the next start finds outside the log either the disk
  as it was or the disk with all the updates: the latter from the write of the header on.
\<close>

theorem transaction_atomic:
  assumes s: "log_idle d l s" and d: "d \<noteq> 0"
    and ws: "int (length ws) \<le> MAXOPBLOCKS" "int (length ws) \<le> lsize l - 1"
      "\<forall>w \<in> set ws. fst w \<notin> log_area (lstart l) \<and> length (snd w) = BSIZE"
    and sb: "sb_logstart sb = lstart l"
    and k: "table_ok kst" "cur kst = Some p" "p < NPROC"
  shows "\<exists>l' s' W. transaction bio ws l s = Some (l', s') \<and> log_idle d l' s' \<and>
    cwrites d s' = cwrites d s @ W \<and> cdisk d s' = put_blocks W (cdisk d s) \<and>
    (\<forall>k js. \<exists>l2 s2.
       initlog bio d sb log_zero
         (booted (\<lambda>_. fold (crash_image d sb kst) js (put_blocks (take k W) (cdisk d s))) kst) = Some (l2, s2) \<and>
       log_idle d l2 s2 \<and>
       (\<forall>b. b \<notin> log_area (lstart l) \<longrightarrow> cdisk d s2 b =
          (if card (fst ` set ws) < k then put_blocks ws (cdisk d s) b else cdisk d s b)))"
proof -
  define W where "W = transaction_writes ws l (cview d s)"
  let ?D = "cdisk d s" and ?st = "lstart l"
  note i = log_idleD [OF s]
  have len: "length ws < NBUF" "int (length ws) < LOGSIZE"
    using ws by (auto simp: MAXOPBLOCKS_def LOGSIZE_def NBUF_def)
  note image = transaction_image [OF s len(2) bspec [OF ws(3)], folded W_def]
  obtain l' s' where 1: "transaction bio ws l s = Some (l', s')" "cache.in_op d l' s'" "lh_n l' = 0"
    "outstanding l' = 0" "\<not> committing l'" "lstart l' = ?st" "cwrites d s' = cwrites d s @ W"
    "cdisk d s' = put_blocks W ?D"
    using cache.transaction_spec [OF i(10,4,9,8) ws(1,2) len(1)] ws(3) unfolding W_def by blast
  have "header_n (put_blocks W ?D ?st) = 0"
    using i(7) commit_header [of "full_log ws l" _ ?D] full_log_facts(3) [OF i(4,5) len(2)] ws(3)
    by (simp add: W_def transaction_writes_def)
  then have idle: "log_idle d l' s'"
    using 1 image(1) [of "length W"] by (simp add: log_idle_def cache.in_op_def logged_def)
  have "\<exists>l2 s2. initlog bio d sb log_zero (booted (\<lambda>_. fold (crash_image d sb kst) js (put_blocks (take k W) ?D)) kst) =
      Some (l2, s2) \<and> log_idle d l2 s2 \<and> (\<forall>b. b \<notin> log_area ?st \<longrightarrow> cdisk d s2 b =
        (if card (fst ` set ws) < k then put_blocks ws ?D b else ?D b))" for k js
  proof -
    let ?D1 = "put_blocks (take k W) ?D"
    let ?D2 = "fold (crash_image d sb kst) js ?D1"
    have c: "log_disk ?st ?D2" "\<And>b. b \<notin> log_area ?st \<Longrightarrow> recovered ?st ?D2 b = recovered ?st ?D1 b"
      using crash_images [OF d k, of sb ?D1 js] image(1) [of k] sb by auto
    obtain l2 s2 where 2: "initlog bio d sb log_zero (booted (\<lambda>_. ?D2) kst) = Some (l2, s2)" "log_idle d l2 s2"
      "cdisk d s2 = put_blocks (recover_writes ?st ?D2) ?D2"
      using initlog_booted [OF d k, of sb ?D2] c(1) sb by auto
    have "cdisk d s2 b = recovered ?st ?D2 b" if "b \<notin> log_area ?st" for b
      using recovered_prefix(3) [OF c(1) order_refl that] by (simp add: 2(3))
    then show ?thesis using 2(1,2) c(2) image(2) [of _ k] by auto
  qed
  then show ?thesis using 1(1,7,8) idle by blast
qed

text \<open>An example: one block of a zeroed disk, the log at block 2.\<close>

definition demo_log :: log where
  "demo_log = log_zero\<lparr>lstart := 2, lsize := 30, ldev := 1\<rparr>"

definition demo_cache :: "unit bcache" where
  "demo_cache = booted (\<lambda>_ _. replicate BSIZE 0) demo"

lemma header_zero: "header_n (replicate BSIZE 0) = 0"
  by (simp add: header_n_def le32_at_def BSIZE_def)

lemma demo_idle: "log_idle 1 demo_log demo_cache"
proof -
  have "table_ok demo" "cur demo = Some 2" "(2::nat) < NPROC"
    using demo_wf(1) by (auto simp: proc_wf_def demo_def NPROC_def)
  note b = booted_cache [of 1 "\<lambda>_ _. replicate BSIZE 0", OF _ _ this, folded demo_cache_def]
  show ?thesis
    using b header_zero
    by (simp add: log_idle_def demo_log_def log_zero_def log_disk_def header_blocks_def LOGSIZE_def MAXOPBLOCKS_def)
qed

lemma log_area_iff: "b \<in> log_area st \<longleftrightarrow> unat (b - st) < nat LOGSIZE"
proof
  assume "b \<in> log_area st"
  then obtain k where "b = st + of_nat k" "k < nat LOGSIZE" by (auto simp: log_area_def)
  then show "unat (b - st) < nat LOGSIZE"
    by (simp add: LOGSIZE_def MAXOPBLOCKS_def unat_of_nat)
qed (auto simp: log_area_def intro!: image_eqI [of _ _ "unat (b - st)"])

theorem transaction_atomic_witness:
  "\<exists>l' s' W. transaction bio [(50, replicate BSIZE 7)] demo_log demo_cache = Some (l', s') \<and>
    (\<forall>k. \<exists>l2 s2. initlog bio 1 \<lparr>sb_magic = 0, sb_size = 2000, sb_nblocks = 1954, sb_ninodes = 200, sb_nlog = 30,
        sb_logstart = 2, sb_inodestart = 32, sb_bmapstart = 45\<rparr> log_zero
      (booted (\<lambda>_. put_blocks (take k W) (\<lambda>_. replicate BSIZE 0)) demo) = Some (l2, s2) \<and>
      cdisk 1 s2 50 = (if 1 < k then replicate BSIZE 7 else replicate BSIZE 0))"
proof -
  let ?sb = "\<lparr>sb_magic = 0, sb_size = 2000, sb_nblocks = 1954, sb_ninodes = 200, sb_nlog = 30,
        sb_logstart = 2, sb_inodestart = 32, sb_bmapstart = 45\<rparr>"
  have d: "table_ok demo" "cur demo = Some 2" "(2::nat) < NPROC"
    using demo_wf(1) by (auto simp: proc_wf_def demo_def NPROC_def)
  have disk: "cdisk 1 demo_cache = (\<lambda>_. replicate BSIZE 0)"
    using booted_cache(3) [of 1 "\<lambda>_ _. replicate BSIZE 0", OF _ _ d] by (simp add: demo_cache_def)
  have area: "50 \<notin> log_area 2" by (simp add: log_area_iff LOGSIZE_def MAXOPBLOCKS_def)
  then have ws: "\<forall>w \<in> set [(50, replicate BSIZE 7)]. fst w \<notin> log_area (lstart demo_log) \<and> length (snd w) = BSIZE"
    by (simp add: demo_log_def)
  have "int (length [(50 :: u32, replicate BSIZE (7 :: u8))]) \<le> lsize demo_log - 1" "sb_logstart ?sb = lstart demo_log"
    "int (length [(50 :: u32, replicate BSIZE (7 :: u8))]) \<le> MAXOPBLOCKS"
    by (simp_all add: demo_log_def MAXOPBLOCKS_def)
  from transaction_atomic [OF demo_idle one_neq_zero this(3,1) ws this(2) d] obtain l' s' W where
    "transaction bio [(50, replicate BSIZE 7)] demo_log demo_cache = Some (l', s')" and
    c: "\<forall>k js. \<exists>l2 s2. initlog bio 1 ?sb log_zero (booted (\<lambda>_. fold (crash_image 1 ?sb demo) js
        (put_blocks (take k W) (cdisk 1 demo_cache))) demo) = Some (l2, s2) \<and> log_idle 1 l2 s2 \<and>
      (\<forall>b. b \<notin> log_area (lstart demo_log) \<longrightarrow> cdisk 1 s2 b = (if card (fst ` set [(50 :: u32, replicate BSIZE (7 :: u8))]) < k
         then put_blocks [(50, replicate BSIZE 7)] (cdisk 1 demo_cache) b else cdisk 1 demo_cache b))"
    by (elim exE conjE) (rule that)
  moreover have "\<exists>l2 s2. initlog bio 1 ?sb log_zero
      (booted (\<lambda>_. put_blocks (take k W) (\<lambda>_. replicate BSIZE 0)) demo) = Some (l2, s2) \<and>
      cdisk 1 s2 50 = (if 1 < k then replicate BSIZE 7 else replicate BSIZE 0)" for k
    using spec [OF spec [OF c, of k], of "[]"] area unfolding disk by (auto simp: demo_log_def)
  ultimately show ?thesis by blast
qed

end
