(* ===== verification/X_Log_Space.thy ===== *)
theory X_Log_Space
  imports X_Recovery
begin

text \<open>
  The space in the log (\<open>begin_op\<close>, \<open>log_write\<close>): what \<open>begin_op\<close> reserves for the operations in progress,
  and the size of log that \<open>mkfs\<close> makes.
\<close>

section \<open>Reserving log space\<close>

text \<open>
  Several operations run at once: \<open>rem\<close> gives for each operation in progress how many more blocks it
  may write. A step is one call of a log routine, over any buffer cache.
\<close>

inductive log_step :: "'s bio_api \<Rightarrow> log \<times> 's \<times> nat list \<Rightarrow> log \<times> 's \<times> nat list \<Rightarrow> bool"
  for api where
  op_begins: "begin_op api l s = Some (True, l', s') \<Longrightarrow> log_step api (l, s, rem) (l', s', rem @ [nat MAXOPBLOCKS])"
| op_waits: "begin_op api l s = Some (False, l', s') \<Longrightarrow> log_step api (l, s, rem) (l', s', rem)"
| op_writes: "\<lbrakk>i < length rem; 0 < rem ! i; log_write api b l s = Some (l', s')\<rbrakk>
    \<Longrightarrow> log_step api (l, s, rem) (l', s', rem[i := rem ! i - 1])"
| op_ends: "\<lbrakk>i < length rem; end_op api l s = Some (l', s')\<rbrakk>
    \<Longrightarrow> log_step api (l, s, rem) (l', s', take i rem @ drop (Suc i) rem)"
| cache_changes: "log_step api (l, s, rem) (l, s', rem)"

definition reserved :: "log \<times> 's \<times> nat list \<Rightarrow> bool" where
  "reserved c = (case c of (l, s, rem) \<Rightarrow> 0 \<le> lh_n l \<and> outstanding l = int (length rem) \<and>
     (\<forall>r \<in> set rem. r \<le> nat MAXOPBLOCKS) \<and> lh_n l + int (sum_list rem) \<le> LOGSIZE)"

lemma sum_list_le: "\<forall>r \<in> set xs. r \<le> m \<Longrightarrow> sum_list xs \<le> length xs * (m :: nat)"
  by (induction xs) auto

lemma sum_list_decrease: "\<lbrakk>i < length xs; 0 < xs ! i\<rbrakk> \<Longrightarrow> Suc (sum_list (xs[i := xs ! i - 1])) = sum_list (xs :: nat list)"
proof (induction xs arbitrary: i)
  case (Cons x xs)
  then show ?case by (cases i) auto
qed simp

lemma sum_list_remove: "i < length xs \<Longrightarrow> sum_list (take i xs @ drop (Suc i) xs) + xs ! i = sum_list (xs :: nat list)"
  by (subst (3) id_take_nth_drop [of i xs]) simp_all

lemma log_write_size: "log_write api b l s = Some (l', s') \<Longrightarrow>
    outstanding l' = outstanding l \<and> lsize l' = lsize l \<and> lh_n l \<le> lh_n l' \<and> lh_n l' \<le> lh_n l + 1"
  by (auto simp: log_write_def Let_def split: if_splits)

lemma commit_size: "commit api l s = Some (l', s') \<Longrightarrow>
    l' = l\<lparr>lh_n := 0\<rparr> \<or> l' = l \<and> lh_n l \<le> 0"
  by (auto simp: commit_def Let_def split: if_splits)

lemma end_op_size: "end_op api l s = Some (l', s') \<Longrightarrow>
    outstanding l' = outstanding l - 1 \<and> lsize l' = lsize l \<and> (lh_n l' = lh_n l \<or> lh_n l' = 0)"
  by (auto simp: end_op_def Let_def split: if_splits dest!: commit_size)

lemma begin_op_size: "begin_op api l s = Some (go, l', s') \<Longrightarrow>
    (if go then l' = l\<lparr>outstanding := outstanding l + 1\<rparr> \<and> lh_n l + (outstanding l + 1) * MAXOPBLOCKS \<le> LOGSIZE
     else l' = l)"
  by (auto simp: begin_op_def split: if_splits)

lemma reserved_step:
  assumes "log_step api c c'" "reserved c"
  shows "reserved c' \<and> lsize (fst c') = lsize (fst c)"
  using assms
proof cases
  case (op_begins l s l' s' rem)
  then have "int (sum_list rem) \<le> outstanding l * MAXOPBLOCKS"
    using assms(2) sum_list_le [of rem "nat MAXOPBLOCKS"] by (auto simp: reserved_def MAXOPBLOCKS_def)
  then show ?thesis
    using op_begins assms(2) begin_op_size [OF op_begins(3)] by (auto simp: reserved_def MAXOPBLOCKS_def)
next
  case (op_waits l s l' s' rem)
  then show ?thesis using assms(2) begin_op_size [OF op_waits(3)] by (auto simp: reserved_def)
next
  case (op_writes i rem b l s l' s')
  note lw = log_write_size [OF op_writes(5)]
  have rem: "Suc (sum_list (rem[i := rem ! i - 1])) = sum_list rem"
    using op_writes(3,4) by (rule sum_list_decrease)
  have all: "\<forall>r \<in> set rem. r \<le> nat MAXOPBLOCKS"
    using assms(2) op_writes(1) by (simp add: reserved_def)
  then have "rem ! i - 1 \<le> nat MAXOPBLOCKS" using nth_mem [OF op_writes(3)] by fastforce
  then have "\<forall>r \<in> set (rem[i := rem ! i - 1]). r \<le> nat MAXOPBLOCKS"
    using all set_update_subset_insert [of rem i "rem ! i - 1"] by blast
  then show ?thesis
    using op_writes(1,2) lw rem assms(2) by (auto simp: reserved_def)
next
  case (op_ends i rem l s l' s')
  note e = end_op_size [OF op_ends(4)]
  have "sum_list (take i rem @ drop (Suc i) rem) + rem ! i = sum_list rem" by (rule sum_list_remove [OF op_ends(3)])
  then show ?thesis
    using op_ends(1-3) e assms(2)
    by (auto simp: reserved_def of_nat_diff LOGSIZE_def MAXOPBLOCKS_def dest: in_set_takeD in_set_dropD)
qed (use assms(2) in \<open>auto simp: reserved_def\<close>)

text \<open>
  C17: \<open>begin_op\<close> reserves enough: while every operation logs at most \<open>MAXOPBLOCKS\<close> blocks, in every
  interleaving of any number of operations the log never holds more than \<open>LOGSIZE\<close> blocks, and on a
  log of more than \<open>LOGSIZE\<close> blocks (the header included) no \<open>log_write\<close> panics.
\<close>

theorem log_reservation:
  assumes "(log_step api)\<^sup>*\<^sup>* (l, s, []) (l', s', rem)" "lh_n l = 0" "outstanding l = 0"
  shows "outstanding l' = int (length rem) \<and> lh_n l' + int (sum_list rem) \<le> LOGSIZE \<and>
    (LOGSIZE < lsize l \<longrightarrow> (\<forall>i b. i < length rem \<and> 0 < rem ! i \<longrightarrow> log_write api b l' s' \<noteq> None))"
proof -
  have inv: "reserved c \<and> lsize (fst c) = lsize l" if "(log_step api)\<^sup>*\<^sup>* (l, s, []) c" for c
    using that
  proof (induction rule: rtranclp_induct)
    case base
    then show ?case using assms(2,3) by (simp add: reserved_def LOGSIZE_def MAXOPBLOCKS_def)
  next
    case (step c c')
    then show ?case using reserved_step by metis
  qed
  have r: "reserved (l', s', rem)" "lsize l' = lsize l" using inv [OF assms(1)] by simp_all
  moreover have "log_write api b l' s' \<noteq> None" if "LOGSIZE < lsize l" "i < length rem" "0 < rem ! i" for i b
  proof -
    have "rem ! i \<le> sum_list rem" using that(2) by (simp add: member_le_sum_list)
    then have "lh_n l' < LOGSIZE" "1 \<le> outstanding l'" using r(1) that(2,3) by (auto simp: reserved_def)
    then show ?thesis using r(2) that(1) by (simp add: log_write_def Let_def)
  qed
  ultimately show ?thesis by (auto simp: reserved_def)
qed

theorem log_reservation_witness:
  "\<exists>l'. (log_step bio)\<^sup>*\<^sup>* (demo_log\<lparr>lsize := 31\<rparr>, demo_cache, []) (l', demo_cache, [10]) \<and>
    log_write bio 0 l' demo_cache \<noteq> None"
proof -
  have "begin_op bio (demo_log\<lparr>lsize := 31\<rparr>) demo_cache = Some (True, demo_log\<lparr>lsize := 31, outstanding := 1\<rparr>, demo_cache)"
    by (simp add: begin_op_def demo_log_def log_zero_def LOGSIZE_def MAXOPBLOCKS_def)
  from op_begins [OF this, of "[]"]
  have r: "(log_step bio)\<^sup>*\<^sup>* (demo_log\<lparr>lsize := 31\<rparr>, demo_cache, []) (demo_log\<lparr>lsize := 31, outstanding := 1\<rparr>, demo_cache, [10])"
    by (simp add: MAXOPBLOCKS_def)
  from log_reservation [OF r] r show ?thesis
    by (auto simp: demo_log_def log_zero_def LOGSIZE_def MAXOPBLOCKS_def)
qed

text \<open>
  C18: \<open>mkfs\<close> makes the log \<open>LOGSIZE\<close> blocks long, one of them the header, while \<open>begin_op\<close> admits
  operations for \<open>LOGSIZE\<close> data blocks. On such a log three operations may be in progress, each
  within its \<open>MAXOPBLOCKS\<close>, and the thirtieth block they log panics the kernel.
\<close>

theorem log_too_small:
  fixes s :: "'e bcache"
  assumes s: "log_idle d l s" and size: "lsize l = LOGSIZE"
    and ws: "length ws = 29" "distinct (map fst ws)"
      "\<forall>w \<in> set ws. fst w \<notin> log_area (lstart l) \<and> length (snd w) = BSIZE"
  shows "\<exists>l1 l2 l3 l4 s4. begin_op bio l s = Some (True, l1, s) \<and> begin_op bio l1 s = Some (True, l2, s) \<and>
    begin_op bio l2 s = Some (True, l3, s) \<and> foreach (update_block bio) ws (l3, s) = Some (l4, s4) \<and>
    int (length ws) + 1 \<le> outstanding l4 * MAXOPBLOCKS \<and> (\<forall>b (s' :: 'e bcache). log_write bio b l4 s' = None)"
proof -
  note i = log_idleD [OF s]
  let ?l = "\<lambda>n. l\<lparr>outstanding := n\<rparr>"
  have b: "begin_op bio l s = Some (True, ?l 1, s)" "begin_op bio (?l 1) s = Some (True, ?l 2, s)"
    "begin_op bio (?l 2) s = Some (True, ?l 3, s)"
    using i by (simp_all add: begin_op_def LOGSIZE_def MAXOPBLOCKS_def)
  let ?l4 = "fold (\<lambda>w. logs (fst w)) ws (?l 3)"
  have op: "cache.in_op d (?l 3) s" using i(10) by (simp add: cache.in_op_def log_ok_def logged_def)
  have area: "\<And>w. w \<in> set ws \<Longrightarrow> fst w \<notin> log_area (lstart (?l 3)) \<and> length (snd w) = BSIZE" using ws(3) by auto
  obtain s4 where 4: "foreach (update_block bio) ws (?l 3, s) = Some (?l4, s4)" "cache.in_op d ?l4 s4"
    using cache.updates_spec [OF op, of ws] i(4) ws(1) size area by (auto simp: LOGSIZE_def MAXOPBLOCKS_def NBUF_def)
  have f: "set (logged ?l4) = fst ` set ws" "outstanding ?l4 = 3" "lsize ?l4 = LOGSIZE"
    using fold_logs [of "?l 3" ws] i area ws(1) size by (auto simp: logged_def log_ok_def LOGSIZE_def MAXOPBLOCKS_def)
  have "lh_n ?l4 = int (card (fst ` set ws))"
    using 4(2) distinct_card [of "logged ?l4"] f(1) by (auto simp: cache.in_op_def log_ok_def logged_def)
  also have "card (fst ` set ws) = 29" using distinct_card [OF ws(2)] ws(1) by simp
  finally have "log_write bio b ?l4 s' = None" for b and s' :: "'e bcache"
    using f(3) by (simp add: log_write_def LOGSIZE_def MAXOPBLOCKS_def)
  then show ?thesis using b 4(1) f(2) ws(1) by (auto simp: MAXOPBLOCKS_def)
qed

theorem log_too_small_witness:
  "\<exists>l1 l2 l3 l4 s4. begin_op bio demo_log demo_cache = Some (True, l1, demo_cache) \<and>
    begin_op bio l1 demo_cache = Some (True, l2, demo_cache) \<and> begin_op bio l2 demo_cache = Some (True, l3, demo_cache) \<and>
    foreach (update_block bio) (map (\<lambda>i. (of_nat i, replicate BSIZE 7)) [50..<79]) (l3, demo_cache) = Some (l4, s4) \<and>
    (\<forall>b. log_write bio b l4 s4 = None)"
proof -
  let ?ws = "map (\<lambda>i. (of_nat i, replicate BSIZE 7)) [50..<79] :: (u32 \<times> bytes) list"
  have "lsize demo_log = LOGSIZE" "length ?ws = 29" by (simp_all add: demo_log_def LOGSIZE_def MAXOPBLOCKS_def)
  moreover have "distinct (map fst ?ws)"
    using of_nat_small_eq by (auto simp: distinct_map inj_on_def comp_def simp del: upt_rec_numeral)
  moreover have "\<forall>w \<in> set ?ws. fst w \<notin> log_area (lstart demo_log) \<and> length (snd w) = BSIZE"
  proof -
    have "(of_nat i :: u32) \<notin> log_area 2" if "i \<in> {50..<79}" for i
    proof
      assume "(of_nat i :: u32) \<in> log_area 2"
      then obtain k where "(of_nat i :: u32) = of_nat (2 + k)" "k \<le> 30"
        by (auto simp: log_area_def LOGSIZE_def MAXOPBLOCKS_def)
      then show False using of_nat_small_eq [of i "2 + k"] that by simp
    qed
    then show ?thesis by (auto simp: demo_log_def simp del: upt_rec_numeral)
  qed
  ultimately have "\<exists>l1 l2 l3 l4 s4. begin_op bio demo_log demo_cache = Some (True, l1, demo_cache) \<and>
    begin_op bio l1 demo_cache = Some (True, l2, demo_cache) \<and> begin_op bio l2 demo_cache = Some (True, l3, demo_cache) \<and>
    foreach (update_block bio) ?ws (l3, demo_cache) = Some (l4, s4) \<and>
    int (length ?ws) + 1 \<le> outstanding l4 * MAXOPBLOCKS \<and> (\<forall>b (s' :: unit bcache). log_write bio b l4 s' = None)"
    by (rule log_too_small [OF demo_idle])
  then show ?thesis by blast
qed

end
