(* ===== verification/X_Block.thy ===== *)
theory X_Block
  imports X_Log_Space
begin

text \<open>
  What the file system (\<open>kernel/fs.c\<close>) sees of the layers below it: blocks that are read, changed,
  logged and released inside a transaction. The record \<open>blk_api\<close> has the routines it calls, the locale
  \<open>block_store\<close> what it relies on; the log over the buffer cache provides it.
\<close>

section \<open>The interface\<close>

record 's blk_api =
  blk_bread :: "u32 \<Rightarrow> u32 \<Rightarrow> 's \<Rightarrow> (nat \<times> 's) option"
  blk_data :: "nat \<Rightarrow> 's \<Rightarrow> bytes"
  blk_set :: "nat \<Rightarrow> bytes \<Rightarrow> 's \<Rightarrow> 's"
  blk_log_write :: "nat \<Rightarrow> 's \<Rightarrow> 's option"
  blk_brelse :: "nat \<Rightarrow> 's \<Rightarrow> 's option"
  blk_initlog :: "u32 \<Rightarrow> superblock \<Rightarrow> 's \<Rightarrow> 's option"
  blk_begin_op :: "'s \<Rightarrow> 's option"
  blk_end_op :: "'s \<Rightarrow> 's option"
  blk_acquiresleep :: "nat \<Rightarrow> sleeplock \<Rightarrow> 's \<Rightarrow> (sleeplock \<times> 's) option"
  blk_releasesleep :: "nat \<Rightarrow> sleeplock \<Rightarrow> 's \<Rightarrow> sleeplock \<times> 's"
  blk_holdingsleep :: "sleeplock \<Rightarrow> 's \<Rightarrow> bool option"

text \<open>
  The kernel's: the state is the log and the cache. A call that has to wait for another process is \<open>None\<close>.
\<close>

definition logged_bio :: "(log \<times> 'e bcache) blk_api" where
  "logged_bio = \<lparr>
     blk_bread = (\<lambda>dev b (l, s). map_option (\<lambda>(i, s'). (i, (l, s'))) (api_bread bio dev b s)),
     blk_data = (\<lambda>i (l, s). api_data bio i s),
     blk_set = (\<lambda>i x (l, s). (l, api_set_data bio i x s)),
     blk_log_write = (\<lambda>i (l, s). log_write bio i l s),
     blk_brelse = (\<lambda>i (l, s). map_option (Pair l) (api_brelse bio i s)),
     blk_initlog = (\<lambda>dev sb (l, s). initlog bio dev sb l s),
     blk_begin_op = (\<lambda>(l, s). case begin_op bio l s of Some (True, c) \<Rightarrow> Some c | _ \<Rightarrow> None),
     blk_end_op = (\<lambda>(l, s). end_op bio l s),
     blk_acquiresleep = (\<lambda>a lk (l, s). case acquiresleep a lk (bk s) of
        Some (True, lk', k) \<Rightarrow> Some (lk', (l, s\<lparr>bk := k\<rparr>)) | _ \<Rightarrow> None),
     blk_releasesleep = (\<lambda>a lk (l, s). case releasesleep a lk (bk s) of (lk', k) \<Rightarrow> (lk', (l, s\<lparr>bk := k\<rparr>))),
     blk_holdingsleep = (\<lambda>lk (l, s). holdingsleep lk (bk s))\<rparr>"

text \<open>
  What the client may rely on, on one device and inside an operation: \<open>logged\<close> are the blocks in the log,
  at most \<open>lim\<close>; at most two buffers are held at a time. A buffer is released when its block is logged
  or unchanged. \<open>me\<close> is the process that holds the sleep locks it takes.
\<close>

locale block_store =
  fixes api :: "'s blk_api" and dev :: u32 and lim :: nat and log_blocks :: "u32 set"
    and view :: "'s \<Rightarrow> u32 \<Rightarrow> bytes" and disk :: "'s \<Rightarrow> u32 \<Rightarrow> bytes"
    and held :: "'s \<Rightarrow> nat \<Rightarrow> u32 option" and logged :: "'s \<Rightarrow> u32 set"
    and me :: "'s \<Rightarrow> int" and inv :: "'s \<Rightarrow> bool"
  assumes view_length: "inv s \<Longrightarrow> length (view s b) = BSIZE"
    and clean_law: "\<lbrakk>inv s; b \<notin> logged s; b \<notin> ran (held s)\<rbrakk> \<Longrightarrow> view s b = disk s b"
    and logged_finite: "inv s \<Longrightarrow> finite (logged s)"
    and bread_law: "\<lbrakk>inv s; b \<notin> ran (held s); held s = Map.empty \<or> (\<exists>j c. held s = [j \<mapsto> c])\<rbrakk>
      \<Longrightarrow> \<exists>i s'. blk_bread api dev b s = Some (i, s') \<and> inv s' \<and> view s' = view s \<and> disk s' = disk s \<and>
        held s i = None \<and> held s' = (held s)(i \<mapsto> b) \<and> logged s' = logged s \<and> me s' = me s"
    and data_law: "\<lbrakk>inv s; held s i = Some b\<rbrakk> \<Longrightarrow> blk_data api i s = view s b"
    and set_law: "\<lbrakk>inv s; held s i = Some b; length x = BSIZE\<rbrakk> \<Longrightarrow>
      inv (blk_set api i x s) \<and> view (blk_set api i x s) = (view s)(b := x) \<and>
      disk (blk_set api i x s) = disk s \<and> held (blk_set api i x s) = held s \<and>
      logged (blk_set api i x s) = logged s \<and> me (blk_set api i x s) = me s"
    and log_write_law: "\<lbrakk>inv s; held s i = Some b; b \<notin> log_blocks; card (insert b (logged s)) \<le> lim\<rbrakk> \<Longrightarrow>
      \<exists>s'. blk_log_write api i s = Some s' \<and> inv s' \<and> view s' = view s \<and> disk s' = disk s \<and>
        held s' = held s \<and> logged s' = insert b (logged s) \<and> me s' = me s"
    and brelse_law: "\<lbrakk>inv s; held s i = Some b; b \<in> logged s \<or> view s b = disk s b\<rbrakk> \<Longrightarrow>
      \<exists>s'. blk_brelse api i s = Some s' \<and> inv s' \<and> view s' = view s \<and> disk s' = disk s \<and>
        held s' = (held s)(i := None) \<and> logged s' = logged s \<and> me s' = me s"
    and acquire_law: "\<lbrakk>inv s; \<not> sl_locked lk\<rbrakk> \<Longrightarrow>
      blk_acquiresleep api a lk s = Some (\<lparr>sl_locked = True, sl_pid = me s\<rparr>, s)"
    and release_law: "inv s \<Longrightarrow> \<exists>s'. blk_releasesleep api a lk s = (\<lparr>sl_locked = False, sl_pid = 0\<rparr>, s') \<and>
      inv s' \<and> view s' = view s \<and> disk s' = disk s \<and> held s' = held s \<and> logged s' = logged s \<and> me s' = me s"
    and holding_law: "inv s \<Longrightarrow> blk_holdingsleep api lk s = Some (sl_locked lk \<and> sl_pid lk = me s)"

section \<open>The log and the cache provide it\<close>

definition store_inv :: "u32 \<Rightarrow> u32 \<Rightarrow> log \<times> 'e bcache \<Rightarrow> bool" where
  "store_inv d st c = (case c of (l, s) \<Rightarrow> ldev l = d \<and> lstart l = st \<and> log_ok l \<and> 0 \<le> lh_n l \<and> lh_n l \<le> 28 \<and>
     length (lh_block l) = nat LOGSIZE \<and> LOGSIZE \<le> lsize l \<and> 1 \<le> outstanding l \<and>
     cinv d s \<and> cpins d s = (\<lambda>b. if b \<in> set (X_Log.logged l) then 1 else 0))"

lemma mypid_brelse:
  assumes "cinv d s" "brelse i s = Some s'"
  shows "mypid (bk s') = mypid (bk s)"
proof -
  obtain p where "cur (bk s) = Some p" "p < NPROC" "table_ok (bk s)" using assms(1) by (auto simp: cinv_def)
  then show ?thesis
    using assms(2) mypid_wakeup [of "bk s" p]
    by (auto simp: brelse_def releasesleep_def Let_def upd_buf_def split: if_splits bind_splits)
qed

lemma mypid_bread: "bread d b s = Some (True, i, s') \<Longrightarrow> bk s' = bk s"
  by (auto simp: bread_def bget_def lock_buf_def acquiresleep_def virtio_disk_rw_def Let_def
      split: option.splits bind_splits if_splits)

lemma clean_cache:
  assumes "cinv d s" "cpins d s b = 0" "b \<notin> ran (cheld s)"
  shows "cview d s b = cdisk d s b"
proof (cases "slot d s b")
  case None
  then show ?thesis by (simp add: cview_def cdisk_def)
next
  case (Some i)
  note i = slot_SomeD [OF Some]
  have ok: "buf_ok d (bdisk s d) (mypid (bk s)) (bufs s ! i)" using assms(1) i by (simp add: cinv_def)
  have "\<not> sl_locked (block (bufs s ! i))"
  proof
    assume "sl_locked (block (bufs s ! i))"
    then have "cheld s i = Some b" using i by (simp add: cheld_def caches_def)
    then show False using assms(3) by (auto intro: ranI)
  qed
  then have "refcnt (bufs s ! i) = 0"
    using assms(2) Some ok by (simp add: cpins_def extra_def buf_ok_def)
  then show ?thesis using Some i ok by (auto simp: cview_def cdisk_def buf_ok_def caches_def)
qed

interpretation store: block_store logged_bio d 28 "log_area st" "\<lambda>(l, s). cview d s" "\<lambda>(l, s). cdisk d s"
  "\<lambda>(l, s). cheld s" "\<lambda>(l, s). set (X_Log.logged l)" "\<lambda>(l, s). mypid (bk s)" "store_inv d st"
  for d st :: u32
proof
  fix c :: "log \<times> 'a bcache" and b i x lk a
  obtain l s where c: "c = (l, s)" by (cases c)
  assume inv: "store_inv d st c"
  then have ci: "cinv d s" and pins: "cpins d s = (\<lambda>b. if b \<in> set (X_Log.logged l) then 1 else 0)"
    and l: "ldev l = d" "lstart l = st" "log_ok l" "0 \<le> lh_n l" "lh_n l \<le> 28" "length (lh_block l) = nat LOGSIZE"
      "LOGSIZE \<le> lsize l" "1 \<le> outstanding l"
    by (simp_all add: store_inv_def c)
  have len: "length (X_Log.logged l) = nat (lh_n l)" "distinct (X_Log.logged l)"
    using l(3) by (simp_all add: log_ok_def X_Log.logged_def)
  show "length ((case c of (l, s) \<Rightarrow> cview d s) b) = BSIZE"
    using cache.view_length [OF ci] by (simp add: c)
  show "finite (case c of (l, s) \<Rightarrow> set (X_Log.logged l))" by (simp add: c)
  show "(case c of (l, s) \<Rightarrow> cview d s) b = (case c of (l, s) \<Rightarrow> cdisk d s) b"
    if "b \<notin> (case c of (l, s) \<Rightarrow> set (X_Log.logged l))" "b \<notin> ran (case c of (l, s) \<Rightarrow> cheld s)"
    using that clean_cache [OF ci] pins by (simp add: c)
  show "\<exists>i s'. blk_bread logged_bio d b c = Some (i, s') \<and> store_inv d st s' \<and>
      (case s' of (l, s) \<Rightarrow> cview d s) = (case c of (l, s) \<Rightarrow> cview d s) \<and>
      (case s' of (l, s) \<Rightarrow> cdisk d s) = (case c of (l, s) \<Rightarrow> cdisk d s) \<and>
      (case c of (l, s) \<Rightarrow> cheld s) i = None \<and>
      (case s' of (l, s) \<Rightarrow> cheld s) = (case c of (l, s) \<Rightarrow> cheld s)(i \<mapsto> b) \<and>
      (case s' of (l, s) \<Rightarrow> set (X_Log.logged l)) = (case c of (l, s) \<Rightarrow> set (X_Log.logged l)) \<and>
      (case s' of (l, s) \<Rightarrow> mypid (bk s)) = (case c of (l, s) \<Rightarrow> mypid (bk s))"
    if nb: "b \<notin> ran (case c of (l, s) \<Rightarrow> cheld s)"
      and one: "(case c of (l, s) \<Rightarrow> cheld s) = Map.empty \<or> (\<exists>j e. (case c of (l, s) \<Rightarrow> cheld s) = [j \<mapsto> e])"
  proof -
    have pn: "{b. 0 < cpins d s b} = set (X_Log.logged l)" by (simp add: pins)
    obtain e where e: "ran (cheld s) \<subseteq> {e}" using one by (auto simp: c)
    have "insert b ({b. 0 < cpins d s b} \<union> ran (cheld s)) \<subseteq> insert b (insert e (set (X_Log.logged l)))"
      using e unfolding pn by blast
    then have "card (insert b ({b. 0 < cpins d s b} \<union> ran (cheld s))) \<le> card (insert b (insert e (set (X_Log.logged l))))"
      by (intro card_mono) simp_all
    also have "\<dots> \<le> Suc (Suc (length (X_Log.logged l)))"
      using card_length [of "X_Log.logged l"] by (simp add: card_insert_if)
    also have "\<dots> \<le> NBUF" using len(1) l(5) by (simp add: NBUF_def)
    finally have room: "card (insert b ({b. 0 < cpins d s b} \<union> ran (cheld s))) \<le> NBUF" .
    have nb': "b \<notin> ran (cheld s)" using nb by (simp add: c)
    from cache.bread_law [OF ci nb' room] obtain i s' where
      r: "api_bread bio d b s = Some (i, s')" "cinv d s'" "cview d s' = cview d s" "cdisk d s' = cdisk d s"
        "cheld s i = None" "cheld s' = (cheld s)(i \<mapsto> b)" "cpins d s' = cpins d s" by blast
    have "bread d b s = Some (True, i, s')" using r(1) by (auto simp: bio_def split: option.splits bool.splits)
    then have "bk s' = bk s" by (rule mypid_bread)
    then show ?thesis
      using r l pins by (intro exI [of _ i] exI [of _ "(l, s')"]) (simp add: c logged_bio_def store_inv_def)
  qed
  show "blk_acquiresleep logged_bio a lk c = Some (\<lparr>sl_locked = True, sl_pid = case c of (l, s) \<Rightarrow> mypid (bk s)\<rparr>, c)"
    if "\<not> sl_locked lk"
    using ci that by (auto simp: c logged_bio_def acquiresleep_def cinv_def mypid_def)
  show "\<exists>s'. blk_releasesleep logged_bio a lk c = (\<lparr>sl_locked = False, sl_pid = 0\<rparr>, s') \<and> store_inv d st s' \<and>
      (case s' of (l, s) \<Rightarrow> cview d s) = (case c of (l, s) \<Rightarrow> cview d s) \<and>
      (case s' of (l, s) \<Rightarrow> cdisk d s) = (case c of (l, s) \<Rightarrow> cdisk d s) \<and>
      (case s' of (l, s) \<Rightarrow> cheld s) = (case c of (l, s) \<Rightarrow> cheld s) \<and>
      (case s' of (l, s) \<Rightarrow> set (X_Log.logged l)) = (case c of (l, s) \<Rightarrow> set (X_Log.logged l)) \<and>
      (case s' of (l, s) \<Rightarrow> mypid (bk s)) = (case c of (l, s) \<Rightarrow> mypid (bk s))"
  proof -
    obtain p where "cur (bk s) = Some p" "p < NPROC" "table_ok (bk s)" using ci by (auto simp: cinv_def)
    then have "mypid (wakeup (ChSleeplock a) (bk s)) = mypid (bk s)" by (simp add: mypid_wakeup)
    moreover note cache.wakeup_law [OF ci, of "ChSleeplock a"]
    ultimately show ?thesis
      using l pins by (simp add: c logged_bio_def releasesleep_def store_inv_def bio_def)
  qed
  show "blk_holdingsleep logged_bio lk c = Some (sl_locked lk \<and> sl_pid lk = (case c of (l, s) \<Rightarrow> mypid (bk s)))"
    using ci by (auto simp: c logged_bio_def holdingsleep_def cinv_def mypid_def)
  assume "(case c of (l, s) \<Rightarrow> cheld s) i = Some b"
  then have h: "cheld s i = Some b" by (simp add: c)
  show "blk_data logged_bio i c = (case c of (l, s) \<Rightarrow> cview d s) b"
    using cache.data_law [OF ci h] by (simp add: c logged_bio_def)
  show "store_inv d st (blk_set logged_bio i x c) \<and>
      (case blk_set logged_bio i x c of (l, s) \<Rightarrow> cview d s) = (case c of (l, s) \<Rightarrow> cview d s)(b := x) \<and>
      (case blk_set logged_bio i x c of (l, s) \<Rightarrow> cdisk d s) = (case c of (l, s) \<Rightarrow> cdisk d s) \<and>
      (case blk_set logged_bio i x c of (l, s) \<Rightarrow> cheld s) = (case c of (l, s) \<Rightarrow> cheld s) \<and>
      (case blk_set logged_bio i x c of (l, s) \<Rightarrow> set (X_Log.logged l)) = (case c of (l, s) \<Rightarrow> set (X_Log.logged l)) \<and>
      (case blk_set logged_bio i x c of (l, s) \<Rightarrow> mypid (bk s)) = (case c of (l, s) \<Rightarrow> mypid (bk s))"
    if "length x = BSIZE"
  proof -
    have "bk (api_set_data bio i x s) = bk s" by (simp add: bio_def)
    then show ?thesis
      using cache.set_data_law [OF ci h that] l pins by (simp add: c logged_bio_def store_inv_def)
  qed
  show "\<exists>s'. blk_brelse logged_bio i c = Some s' \<and> store_inv d st s' \<and>
      (case s' of (l, s) \<Rightarrow> cview d s) = (case c of (l, s) \<Rightarrow> cview d s) \<and>
      (case s' of (l, s) \<Rightarrow> cdisk d s) = (case c of (l, s) \<Rightarrow> cdisk d s) \<and>
      (case s' of (l, s) \<Rightarrow> cheld s) = (case c of (l, s) \<Rightarrow> cheld s)(i := None) \<and>
      (case s' of (l, s) \<Rightarrow> set (X_Log.logged l)) = (case c of (l, s) \<Rightarrow> set (X_Log.logged l)) \<and>
      (case s' of (l, s) \<Rightarrow> mypid (bk s)) = (case c of (l, s) \<Rightarrow> mypid (bk s))"
    if "b \<in> (case c of (l, s) \<Rightarrow> set (X_Log.logged l)) \<or>
      (case c of (l, s) \<Rightarrow> cview d s) b = (case c of (l, s) \<Rightarrow> cdisk d s) b"
  proof -
    have "0 < cpins d s b \<or> cview d s b = cdisk d s b" using that by (auto simp: c pins)
    from cache.brelse_law [OF ci h this] obtain s' where
      r: "api_brelse bio i s = Some s'" "cinv d s'" "cview d s' = cview d s" "cdisk d s' = cdisk d s"
        "cheld s' = (cheld s)(i := None)" "cpins d s' = cpins d s" by blast
    have "mypid (bk s') = mypid (bk s)" using mypid_brelse [OF ci] r(1) by (simp add: bio_def)
    then show ?thesis
      using r l pins by (intro exI [of _ "(l, s')"]) (simp add: c logged_bio_def store_inv_def)
  qed
  show "\<exists>s'. blk_log_write logged_bio i c = Some s' \<and> store_inv d st s' \<and>
      (case s' of (l, s) \<Rightarrow> cview d s) = (case c of (l, s) \<Rightarrow> cview d s) \<and>
      (case s' of (l, s) \<Rightarrow> cdisk d s) = (case c of (l, s) \<Rightarrow> cdisk d s) \<and>
      (case s' of (l, s) \<Rightarrow> cheld s) = (case c of (l, s) \<Rightarrow> cheld s) \<and>
      (case s' of (l, s) \<Rightarrow> set (X_Log.logged l)) = insert b (case c of (l, s) \<Rightarrow> set (X_Log.logged l)) \<and>
      (case s' of (l, s) \<Rightarrow> mypid (bk s)) = (case c of (l, s) \<Rightarrow> mypid (bk s))"
    if b: "b \<notin> log_area st" and room: "card (insert b (case c of (l, s) \<Rightarrow> set (X_Log.logged l))) \<le> 28"
  proof -
    have lt: "lh_n l + 1 < LOGSIZE" using l(5) by (simp add: LOGSIZE_def MAXOPBLOCKS_def)
    note lg = logs_ok [OF l(3,4) lt l(6), of b]
    have bn: "api_blockno bio i s = b" using cache.data_law [OF ci h] by simp
    have "log_write bio i l s = Some (logs b l, if b \<in> set (X_Log.logged l) then s else api_bpin bio i s)"
      using log_write_eq [OF l(3,4) bn] l(5,7,8) by (simp add: LOGSIZE_def MAXOPBLOCKS_def)
    moreover have "card (set (X_Log.logged (logs b l))) \<le> 28" "lh_n (logs b l) = int (card (set (X_Log.logged (logs b l))))"
    proof -
      have bs: "b \<notin> log_area (lstart l)" using b l(2) by simp
      have "set (X_Log.logged (logs b l)) = insert b (set (X_Log.logged l))" using lg(1) bs by auto
      then show "card (set (X_Log.logged (logs b l))) \<le> 28" using room by (simp add: c)
      have "distinct (X_Log.logged (logs b l))" using lg(2) bs by (simp add: log_ok_def X_Log.logged_def)
      then show "lh_n (logs b l) = int (card (set (X_Log.logged (logs b l))))"
        using lg(3) bs by (simp add: distinct_card)
    qed
    moreover have "bk (api_bpin bio i s) = bk s" by (simp add: bio_def bpin_def)
    moreover have "(if b \<in> set (X_Log.logged l) then cpins d s else cpins d (api_bpin bio i s)) =
        (\<lambda>c. if c \<in> set (X_Log.logged (logs b l)) then 1 else 0)"
      using cache.bpin_law [OF ci h] lg(1) b l(2) by (auto simp: pins)
    ultimately show ?thesis
      using cache.bpin_law [OF ci h] lg b l h ci
      by (auto simp: c logged_bio_def store_inv_def split: if_splits)
  qed
qed

end
