(* ===== verification/X_Fs.thy ===== *)
theory X_Fs
  imports X_Block
begin

text \<open>
  The file system (\<open>kernel/fs.c\<close>, \<open>kernel/fs.h\<close>, \<open>kernel/file.h\<close>, \<open>kernel/stat.h\<close>) over the interface
  \<open>blk_api\<close> of logged blocks: blocks, inodes, file contents, directories and path names. An inode is
  named by its index in \<open>itable.inode[]\<close>. The routines are run while no other process is inside them;
  \<open>None\<close> is a \<open>panic\<close>, an undefined access, or a wait for another process.
\<close>

section \<open>Blocks\<close>

definition ROOTDEV :: u32 where "ROOTDEV = 1"
definition ROOTINO :: u32 where "ROOTINO = 1"
definition FSMAGIC :: u32 where "FSMAGIC = 0x10203040"
definition BPB :: nat where "BPB = BSIZE * 8"
definition IPB :: nat where "IPB = BSIZE div 64"
definition NDIRECT :: nat where "NDIRECT = 12"
definition NINDIRECT :: nat where "NINDIRECT = BSIZE div 4"
definition MAXFILE :: nat where "MAXFILE = NDIRECT + NINDIRECT"
definition NINODE :: nat where "NINODE = 50"
definition DIRSIZ :: nat where "DIRSIZ = 14"
definition T_DIR :: u16 where "T_DIR = 1"
definition T_FILE :: u16 where "T_FILE = 2"
definition T_DEVICE :: u16 where "T_DEVICE = 3"

definition IBLOCK :: "u32 \<Rightarrow> superblock \<Rightarrow> u32" where
  "IBLOCK i sb = i div of_nat IPB + sb_inodestart sb"

definition BBLOCK :: "u32 \<Rightarrow> superblock \<Rightarrow> u32" where
  "BBLOCK b sb = b div of_nat BPB + sb_bmapstart sb"

text \<open>A part of a block overwritten.\<close>

definition splice :: "bytes \<Rightarrow> nat \<Rightarrow> bytes \<Rightarrow> bytes" where
  "splice d off bs = take off d @ bs @ drop (off + length bs) d"

definition superblock_of :: "bytes \<Rightarrow> superblock" where
  "superblock_of d = \<lparr>sb_magic = le32_at d 0, sb_size = le32_at d 4, sb_nblocks = le32_at d 8,
     sb_ninodes = le32_at d 12, sb_nlog = le32_at d 16, sb_logstart = le32_at d 20,
     sb_inodestart = le32_at d 24, sb_bmapstart = le32_at d 28\<rparr>"

definition readsb :: "'s blk_api \<Rightarrow> u32 \<Rightarrow> 's \<Rightarrow> (superblock \<times> 's) option" where
  "readsb api dev s = do {
     (bp, s1) \<leftarrow> blk_bread api dev 1 s;
     s2 \<leftarrow> blk_brelse api bp s1;
     Some (superblock_of (blk_data api bp s1), s2) }"

definition fsinit :: "'s blk_api \<Rightarrow> u32 \<Rightarrow> 's \<Rightarrow> (superblock \<times> 's) option" where
  "fsinit api dev s = do {
     (sb, s1) \<leftarrow> readsb api dev s;
     if sb_magic sb \<noteq> FSMAGIC then None
     else do { s2 \<leftarrow> blk_initlog api dev sb s1; Some (sb, s2) } }"

definition bzero :: "'s blk_api \<Rightarrow> u32 \<Rightarrow> u32 \<Rightarrow> 's \<Rightarrow> 's option" where
  "bzero api dev bno s = do {
     (bp, s1) \<leftarrow> blk_bread api dev bno s;
     s2 \<leftarrow> blk_log_write api bp (blk_set api bp (replicate BSIZE 0) s1);
     blk_brelse api bp s2 }"

text \<open>The bit of a block in a block of the bitmap, and the inner loop of \<open>balloc\<close> from \<open>bi\<close> on.\<close>

definition bit_used :: "bytes \<Rightarrow> nat \<Rightarrow> bool" where
  "bit_used d bi \<longleftrightarrow> and (d ! (bi div 8)) (push_bit (bi mod 8) 1) \<noteq> 0"

definition set_bit_used :: "bytes \<Rightarrow> nat \<Rightarrow> bytes" where
  "set_bit_used d bi = d[bi div 8 := or (d ! (bi div 8)) (push_bit (bi mod 8) 1)]"

definition clear_bit_used :: "bytes \<Rightarrow> nat \<Rightarrow> bytes" where
  "clear_bit_used d bi = d[bi div 8 := and (d ! (bi div 8)) (not (push_bit (bi mod 8) 1))]"

function first_unused :: "superblock \<Rightarrow> u32 \<Rightarrow> bytes \<Rightarrow> nat \<Rightarrow> nat option" where
  "first_unused sb b d bi =
    (if bi < BPB \<and> b + of_nat bi < sb_size sb
     then if \<not> bit_used d bi then Some bi else first_unused sb b d (bi + 1)
     else None)"
  by auto
termination by (relation "measure (\<lambda>(sb, b, d, bi). BPB - bi)") auto

declare first_unused.simps [simp del]

partial_function (option) balloc_from :: "'s blk_api \<Rightarrow> superblock \<Rightarrow> u32 \<Rightarrow> u32 \<Rightarrow> 's \<Rightarrow> (u32 \<times> 's) option" where
  "balloc_from api sb dev b s =
    (if b < sb_size sb then do {
       (bp, s1) \<leftarrow> blk_bread api dev (BBLOCK b sb) s;
       (case first_unused sb b (blk_data api bp s1) 0 of
          Some bi \<Rightarrow> do {
            s2 \<leftarrow> blk_log_write api bp (blk_set api bp (set_bit_used (blk_data api bp s1) bi) s1);
            s3 \<leftarrow> blk_brelse api bp s2;
            s4 \<leftarrow> bzero api dev (b + of_nat bi) s3;
            Some (b + of_nat bi, s4) }
        | None \<Rightarrow> do {
            s2 \<leftarrow> blk_brelse api bp s1;
            balloc_from api sb dev (b + of_nat BPB) s2 }) }
     else Some (0, s))"

definition balloc :: "'s blk_api \<Rightarrow> superblock \<Rightarrow> u32 \<Rightarrow> 's \<Rightarrow> (u32 \<times> 's) option" where
  "balloc api sb dev s = balloc_from api sb dev 0 s"

definition bfree :: "'s blk_api \<Rightarrow> superblock \<Rightarrow> u32 \<Rightarrow> u32 \<Rightarrow> 's \<Rightarrow> 's option" where
  "bfree api sb dev b s = do {
     (bp, s1) \<leftarrow> blk_bread api dev (BBLOCK b sb) s;
     let bi = unat b mod BPB;
     if \<not> bit_used (blk_data api bp s1) bi then None
     else do {
       s2 \<leftarrow> blk_log_write api bp (blk_set api bp (clear_bit_used (blk_data api bp s1) bi) s1);
       blk_brelse api bp s2 } }"

section \<open>Inodes\<close>

record inode =
  idev :: u32
  inum :: u32
  iref :: int
  ilk :: sleeplock
  ivalid :: bool
  itype :: u16
  imajor :: u16
  iminor :: u16
  inlink :: u16
  isize :: u32
  iaddrs :: "u32 list"

text \<open>\<open>fcwd\<close> is the working directory of the process that calls.\<close>

record 's fs =
  fblk :: 's
  fsb :: superblock
  itab :: "inode list"
  fcwd :: nat

definition upd_ino :: "nat \<Rightarrow> (inode \<Rightarrow> inode) \<Rightarrow> 's fs \<Rightarrow> 's fs" where
  "upd_ino i g f = f\<lparr>itab := (itab f)[i := g (itab f ! i)]\<rparr>"

definition iinit :: "'s fs \<Rightarrow> 's fs" where
  "iinit f = f\<lparr>itab := map (\<lambda>ip. ip\<lparr>ilk := initsleeplock\<rparr>) (itab f)\<rparr>"

text \<open>The on-disk inode \<open>struct dinode\<close> of 64 bytes, at its place in its block.\<close>

definition dinode_off :: "u32 \<Rightarrow> nat" where
  "dinode_off n = 64 * (unat n mod IPB)"

definition dinode_bytes :: "inode \<Rightarrow> bytes" where
  "dinode_bytes ip = le16_bytes (itype ip) @ le16_bytes (imajor ip) @ le16_bytes (iminor ip) @ le16_bytes (inlink ip) @
     le32_bytes (isize ip) @ concat (map le32_bytes (iaddrs ip))"

definition load_dinode :: "bytes \<Rightarrow> nat \<Rightarrow> inode \<Rightarrow> inode" where
  "load_dinode d k ip = ip\<lparr>itype := le16_at d k, imajor := le16_at d (k + 2), iminor := le16_at d (k + 4),
     inlink := le16_at d (k + 6), isize := le32_at d (k + 8),
     iaddrs := map (\<lambda>j. le32_at d (k + 12 + 4 * j)) [0..<NDIRECT + 1]\<rparr>"

definition iget :: "u32 \<Rightarrow> u32 \<Rightarrow> 's fs \<Rightarrow> (nat \<times> 's fs) option" where
  "iget dev n f =
    (case find (\<lambda>i. 0 < iref (itab f ! i) \<and> idev (itab f ! i) = dev \<and> inum (itab f ! i) = n) [0..<NINODE] of
       Some i \<Rightarrow> Some (i, upd_ino i (\<lambda>ip. ip\<lparr>iref := iref ip + 1\<rparr>) f)
     | None \<Rightarrow>
         (case find (\<lambda>i. iref (itab f ! i) = 0) [0..<NINODE] of
            Some i \<Rightarrow> Some (i, upd_ino i (\<lambda>ip. ip\<lparr>idev := dev, inum := n, iref := 1, ivalid := False\<rparr>) f)
          | None \<Rightarrow> None))"

definition idup :: "nat \<Rightarrow> 's fs \<Rightarrow> 's fs" where
  "idup i f = upd_ino i (\<lambda>ip. ip\<lparr>iref := iref ip + 1\<rparr>) f"

text \<open>The inode number \<open>n\<close> is free: it is marked allocated, in the block read.\<close>

partial_function (option) ialloc_from :: "'s blk_api \<Rightarrow> u32 \<Rightarrow> u16 \<Rightarrow> u32 \<Rightarrow> 's fs \<Rightarrow> (nat option \<times> 's fs) option" where
  "ialloc_from api dev ty n f =
    (if n < sb_ninodes (fsb f) then do {
       (bp, s1) \<leftarrow> blk_bread api dev (IBLOCK n (fsb f)) (fblk f);
       let d = blk_data api bp s1;
       if le16_at d (dinode_off n) = 0 then do {
         s2 \<leftarrow> blk_log_write api bp (blk_set api bp
            (splice d (dinode_off n) (le16_bytes ty @ replicate 62 0)) s1);
         s3 \<leftarrow> blk_brelse api bp s2;
         (i, f') \<leftarrow> iget dev n (f\<lparr>fblk := s3\<rparr>);
         Some (Some i, f') }
       else do {
         s2 \<leftarrow> blk_brelse api bp s1;
         ialloc_from api dev ty (n + 1) (f\<lparr>fblk := s2\<rparr>) } }
     else Some (None, f))"

definition ialloc :: "'s blk_api \<Rightarrow> u32 \<Rightarrow> u16 \<Rightarrow> 's fs \<Rightarrow> (nat option \<times> 's fs) option" where
  "ialloc api dev ty f = ialloc_from api dev ty 1 f"

definition iupdate :: "'s blk_api \<Rightarrow> nat \<Rightarrow> 's fs \<Rightarrow> 's fs option" where
  "iupdate api i f = do {
     let ip = itab f ! i;
     (bp, s1) \<leftarrow> blk_bread api (idev ip) (IBLOCK (inum ip) (fsb f)) (fblk f);
     s2 \<leftarrow> blk_log_write api bp (blk_set api bp
        (splice (blk_data api bp s1) (dinode_off (inum ip)) (dinode_bytes ip)) s1);
     s3 \<leftarrow> blk_brelse api bp s2;
     Some (f\<lparr>fblk := s3\<rparr>) }"

definition ilock :: "'s blk_api \<Rightarrow> nat \<Rightarrow> 's fs \<Rightarrow> 's fs option" where
  "ilock api i f =
    (if iref (itab f ! i) < 1 then None
     else do {
       (lk, s) \<leftarrow> blk_acquiresleep api (NBUF + i) (ilk (itab f ! i)) (fblk f);
       let f1 = upd_ino i (\<lambda>ip. ip\<lparr>ilk := lk\<rparr>) (f\<lparr>fblk := s\<rparr>);
       if ivalid (itab f1 ! i) then Some f1
       else do {
         let ip = itab f1 ! i;
         (bp, s1) \<leftarrow> blk_bread api (idev ip) (IBLOCK (inum ip) (fsb f1)) (fblk f1);
         s2 \<leftarrow> blk_brelse api bp s1;
         let ip' = (load_dinode (blk_data api bp s1) (dinode_off (inum ip)) ip)\<lparr>ivalid := True\<rparr>;
         if itype ip' = 0 then None
         else Some (upd_ino i (\<lambda>_. ip') (f1\<lparr>fblk := s2\<rparr>)) } })"

definition iunlock :: "'s blk_api \<Rightarrow> nat \<Rightarrow> 's fs \<Rightarrow> 's fs option" where
  "iunlock api i f = do {
     h \<leftarrow> blk_holdingsleep api (ilk (itab f ! i)) (fblk f);
     if \<not> h \<or> iref (itab f ! i) < 1 then None
     else case blk_releasesleep api (NBUF + i) (ilk (itab f ! i)) (fblk f) of (lk, s) \<Rightarrow>
       Some (upd_ino i (\<lambda>ip. ip\<lparr>ilk := lk\<rparr>) (f\<lparr>fblk := s\<rparr>)) }"

section \<open>Contents\<close>

text \<open>An entry of the block of addresses.\<close>

definition indirect_at :: "bytes \<Rightarrow> nat \<Rightarrow> u32" where
  "indirect_at d k = le32_at d (4 * k)"

definition bmap :: "'s blk_api \<Rightarrow> nat \<Rightarrow> u32 \<Rightarrow> 's fs \<Rightarrow> (u32 \<times> 's fs) option" where
  "bmap api i bn f =
    (let ip = itab f ! i in
     if unat bn < NDIRECT then
       (if iaddrs ip ! unat bn \<noteq> 0 then Some (iaddrs ip ! unat bn, f)
        else do {
          (a, s) \<leftarrow> balloc api (fsb f) (idev ip) (fblk f);
          if a = 0 then Some (0, f\<lparr>fblk := s\<rparr>)
          else Some (a, upd_ino i (\<lambda>ip. ip\<lparr>iaddrs := (iaddrs ip)[unat bn := a]\<rparr>) (f\<lparr>fblk := s\<rparr>)) })
     else
       let k = unat bn - NDIRECT in
       if k < NINDIRECT then do {
         (ind, f1) \<leftarrow> (if iaddrs ip ! NDIRECT \<noteq> 0 then Some (iaddrs ip ! NDIRECT, f)
           else do {
             (a, s) \<leftarrow> balloc api (fsb f) (idev ip) (fblk f);
             if a = 0 then Some (0, f\<lparr>fblk := s\<rparr>)
             else Some (a, upd_ino i (\<lambda>ip. ip\<lparr>iaddrs := (iaddrs ip)[NDIRECT := a]\<rparr>) (f\<lparr>fblk := s\<rparr>)) });
         if ind = 0 then Some (0, f1)
         else do {
           (bp, s1) \<leftarrow> blk_bread api (idev ip) ind (fblk f1);
           let d = blk_data api bp s1;
           if indirect_at d k \<noteq> 0 then do {
             s2 \<leftarrow> blk_brelse api bp s1;
             Some (indirect_at d k, f1\<lparr>fblk := s2\<rparr>) }
           else do {
             (a, s2) \<leftarrow> balloc api (fsb f) (idev ip) s1;
             s3 \<leftarrow> (if a \<noteq> 0 then blk_log_write api bp
                       (blk_set api bp (splice (blk_data api bp s2) (4 * k) (le32_bytes a)) s2)
                    else Some s2);
             s4 \<leftarrow> blk_brelse api bp s3;
             Some (a, f1\<lparr>fblk := s4\<rparr>) } } }
       else None)"

definition free_direct :: "'s blk_api \<Rightarrow> nat \<Rightarrow> nat \<Rightarrow> 's fs \<Rightarrow> 's fs option" where
  "free_direct api i j f =
    (if iaddrs (itab f ! i) ! j \<noteq> 0 then do {
       s \<leftarrow> bfree api (fsb f) (idev (itab f ! i)) (iaddrs (itab f ! i) ! j) (fblk f);
       Some (upd_ino i (\<lambda>ip. ip\<lparr>iaddrs := (iaddrs ip)[j := 0]\<rparr>) (f\<lparr>fblk := s\<rparr>)) }
     else Some f)"

definition free_indirect :: "'s blk_api \<Rightarrow> superblock \<Rightarrow> u32 \<Rightarrow> nat \<Rightarrow> nat \<Rightarrow> 's \<Rightarrow> 's option" where
  "free_indirect api sb dev bp j s =
    (if indirect_at (blk_data api bp s) j \<noteq> 0 then bfree api sb dev (indirect_at (blk_data api bp s) j) s
     else Some s)"

definition itrunc :: "'s blk_api \<Rightarrow> nat \<Rightarrow> 's fs \<Rightarrow> 's fs option" where
  "itrunc api i f = do {
     f1 \<leftarrow> foreach (free_direct api i) [0..<NDIRECT] f;
     let ip = itab f1 ! i;
     f2 \<leftarrow> (if iaddrs ip ! NDIRECT \<noteq> 0 then do {
         (bp, s1) \<leftarrow> blk_bread api (idev ip) (iaddrs ip ! NDIRECT) (fblk f1);
         s2 \<leftarrow> foreach (free_indirect api (fsb f1) (idev ip) bp) [0..<NINDIRECT] s1;
         s3 \<leftarrow> blk_brelse api bp s2;
         s4 \<leftarrow> bfree api (fsb f1) (idev ip) (iaddrs ip ! NDIRECT) s3;
         Some (upd_ino i (\<lambda>ip. ip\<lparr>iaddrs := (iaddrs ip)[NDIRECT := 0]\<rparr>) (f1\<lparr>fblk := s4\<rparr>)) }
       else Some f1);
     iupdate api i (upd_ino i (\<lambda>ip. ip\<lparr>isize := 0\<rparr>) f2) }"

definition iput :: "'s blk_api \<Rightarrow> nat \<Rightarrow> 's fs \<Rightarrow> 's fs option" where
  "iput api i f = do {
     let ip = itab f ! i;
     f' \<leftarrow> (if iref ip = 1 \<and> ivalid ip \<and> inlink ip = 0 then do {
         (lk, s) \<leftarrow> blk_acquiresleep api (NBUF + i) (ilk ip) (fblk f);
         f1 \<leftarrow> itrunc api i (upd_ino i (\<lambda>ip. ip\<lparr>ilk := lk\<rparr>) (f\<lparr>fblk := s\<rparr>));
         f2 \<leftarrow> iupdate api i (upd_ino i (\<lambda>ip. ip\<lparr>itype := 0\<rparr>) f1);
         let f3 = upd_ino i (\<lambda>ip. ip\<lparr>ivalid := False\<rparr>) f2;
         case blk_releasesleep api (NBUF + i) (ilk (itab f3 ! i)) (fblk f3) of (lk', s') \<Rightarrow>
           Some (upd_ino i (\<lambda>ip. ip\<lparr>ilk := lk'\<rparr>) (f3\<lparr>fblk := s'\<rparr>)) }
       else Some f);
     Some (upd_ino i (\<lambda>ip. ip\<lparr>iref := iref ip - 1\<rparr>) f') }"

definition iunlockput :: "'s blk_api \<Rightarrow> nat \<Rightarrow> 's fs \<Rightarrow> 's fs option" where
  "iunlockput api i f = do { f1 \<leftarrow> iunlock api i f; iput api i f1 }"

record stat =
  st_dev :: u32
  st_ino :: u32
  st_type :: u16
  st_nlink :: u16
  st_size :: u64

definition stati :: "nat \<Rightarrow> 's fs \<Rightarrow> stat" where
  "stati i f = (let ip = itab f ! i in
     \<lparr>st_dev = idev ip, st_ino = inum ip, st_type = itype ip, st_nlink = inlink ip, st_size = ucast (isize ip)\<rparr>)"

text \<open>
  \<open>either_copyout\<close> and \<open>either_copyin\<close> are parameters: \<open>put\<close> takes bytes to an address of the memory \<open>m\<close> of
  the destination; \<open>get\<close> gives the result and the bytes that have arrived in the buffer, also when it
  fails. The result, a \<open>uint\<close>, is returned as an \<open>int\<close>.
\<close>

partial_function (option) readi_loop :: "'s blk_api \<Rightarrow> (u64 \<Rightarrow> bytes \<Rightarrow> 'm \<Rightarrow> int \<times> 'm) \<Rightarrow> nat \<Rightarrow> u64 \<Rightarrow> u32 \<Rightarrow>
    u32 \<Rightarrow> u32 \<Rightarrow> 'm \<Rightarrow> 's fs \<Rightarrow> (int \<times> 'm \<times> 's fs) option" where
  "readi_loop api put i dst off n tot m f =
    (if tot < n then do {
       (addr, f1) \<leftarrow> bmap api i (off div of_nat BSIZE) f;
       if addr = 0 then Some (sint tot, m, f1)
       else do {
         (bp, s1) \<leftarrow> blk_bread api (idev (itab f1 ! i)) addr (fblk f1);
         let k = min (n - tot) (of_nat BSIZE - off mod of_nat BSIZE);
         (case put dst (take (unat k) (drop (unat off mod BSIZE) (blk_data api bp s1))) m of (r, m') \<Rightarrow> do {
            s2 \<leftarrow> blk_brelse api bp s1;
            if r = -1 then Some (-1, m', f1\<lparr>fblk := s2\<rparr>)
            else readi_loop api put i (dst + ucast k) (off + k) n (tot + k) m' (f1\<lparr>fblk := s2\<rparr>) }) } }
     else Some (sint tot, m, f))"

definition readi :: "'s blk_api \<Rightarrow> (u64 \<Rightarrow> bytes \<Rightarrow> 'm \<Rightarrow> int \<times> 'm) \<Rightarrow> nat \<Rightarrow> u64 \<Rightarrow> u32 \<Rightarrow> u32 \<Rightarrow> 'm \<Rightarrow>
    's fs \<Rightarrow> (int \<times> 'm \<times> 's fs) option" where
  "readi api put i dst off n m f =
    (let sz = isize (itab f ! i) in
     if sz < off \<or> off + n < off then Some (0, m, f)
     else readi_loop api put i dst off (if sz < off + n then sz - off else n) 0 m f)"

partial_function (option) writei_loop :: "'s blk_api \<Rightarrow> (u64 \<Rightarrow> nat \<Rightarrow> int \<times> bytes) \<Rightarrow> nat \<Rightarrow> u64 \<Rightarrow> u32 \<Rightarrow>
    u32 \<Rightarrow> u32 \<Rightarrow> 's fs \<Rightarrow> (u32 \<times> u32 \<times> 's fs) option" where
  "writei_loop api get i src off n tot f =
    (if tot < n then do {
       (addr, f1) \<leftarrow> bmap api i (off div of_nat BSIZE) f;
       if addr = 0 then Some (tot, off, f1)
       else do {
         (bp, s1) \<leftarrow> blk_bread api (idev (itab f1 ! i)) addr (fblk f1);
         let k = min (n - tot) (of_nat BSIZE - off mod of_nat BSIZE);
         (case get src (unat k) of (r, bs) \<Rightarrow> do {
            let s2 = blk_set api bp (splice (blk_data api bp s1) (unat off mod BSIZE) bs) s1;
            if r = -1 then do {
              s3 \<leftarrow> blk_brelse api bp s2;
              Some (tot, off, f1\<lparr>fblk := s3\<rparr>) }
            else do {
              s3 \<leftarrow> blk_log_write api bp s2;
              s4 \<leftarrow> blk_brelse api bp s3;
              writei_loop api get i (src + ucast k) (off + k) n (tot + k) (f1\<lparr>fblk := s4\<rparr>) } }) } }
     else Some (tot, off, f))"

definition writei :: "'s blk_api \<Rightarrow> (u64 \<Rightarrow> nat \<Rightarrow> int \<times> bytes) \<Rightarrow> nat \<Rightarrow> u64 \<Rightarrow> u32 \<Rightarrow> u32 \<Rightarrow> 's fs \<Rightarrow>
    (int \<times> 's fs) option" where
  "writei api get i src off n f =
    (if isize (itab f ! i) < off \<or> off + n < off then Some (-1, f)
     else if of_nat (MAXFILE * BSIZE) < off + n then Some (-1, f)
     else do {
       (tot, off', f1) \<leftarrow> writei_loop api get i src off n 0 f;
       f2 \<leftarrow> iupdate api i (if isize (itab f1 ! i) < off' then upd_ino i (\<lambda>ip. ip\<lparr>isize := off'\<rparr>) f1 else f1);
       Some (sint tot, f2) })"

text \<open>A kernel buffer as destination and as source.\<close>

definition to_buffer :: "u64 \<Rightarrow> bytes \<Rightarrow> bytes \<Rightarrow> int \<times> bytes" where
  "to_buffer a bs m = (0, m @ bs)"

definition from_buffer :: "bytes \<Rightarrow> u64 \<Rightarrow> nat \<Rightarrow> int \<times> bytes" where
  "from_buffer bs a k = (0, take k (drop (unat a) bs))"

section \<open>Directories\<close>

text \<open>A name is a list of bytes that ends with a NUL unless it fills its buffer; behind its end are zeros.\<close>

definition char_at :: "bytes \<Rightarrow> nat \<Rightarrow> u8" where
  "char_at s i = (if i < length s then s ! i else 0)"

fun strncmp_from :: "bytes \<Rightarrow> bytes \<Rightarrow> nat \<Rightarrow> nat \<Rightarrow> int" where
  "strncmp_from s t i 0 = 0"
| "strncmp_from s t i (Suc n) =
    (if char_at s i \<noteq> 0 \<and> char_at s i = char_at t i then strncmp_from s t (i + 1) n
     else uint (char_at s i) - uint (char_at t i))"

definition namecmp :: "bytes \<Rightarrow> bytes \<Rightarrow> int" where
  "namecmp s t = strncmp_from s t 0 DIRSIZ"

text \<open>What \<open>strncpy\<close> leaves in the \<open>DIRSIZ\<close> bytes of \<open>de.name\<close>.\<close>

definition name_field :: "bytes \<Rightarrow> bytes" where
  "name_field nm = take DIRSIZ (takeWhile (\<lambda>c. c \<noteq> 0) nm @ replicate DIRSIZ 0)"

definition dirent_size :: nat where "dirent_size = 16"

definition dirent_bytes :: "u16 \<Rightarrow> bytes \<Rightarrow> bytes" where
  "dirent_bytes n nm = le16_bytes n @ name_field nm"

definition read_dirent :: "'s blk_api \<Rightarrow> nat \<Rightarrow> u32 \<Rightarrow> 's fs \<Rightarrow> (bytes \<times> 's fs) option" where
  "read_dirent api i off f = do {
     (r, de, f1) \<leftarrow> readi api to_buffer i 0 off (of_nat dirent_size) [] f;
     if r \<noteq> int dirent_size then None else Some (de, f1) }"

partial_function (option) dirlookup_from :: "'s blk_api \<Rightarrow> nat \<Rightarrow> bytes \<Rightarrow> u32 \<Rightarrow> 's fs \<Rightarrow>
    ((nat \<times> u32) option \<times> 's fs) option" where
  "dirlookup_from api i name off f =
    (if off < isize (itab f ! i) then do {
       (de, f1) \<leftarrow> read_dirent api i off f;
       if le16_at de 0 \<noteq> 0 \<and> namecmp name (drop 2 de) = 0 then do {
         (j, f2) \<leftarrow> iget (idev (itab f1 ! i)) (ucast (le16_at de 0)) f1;
         Some (Some (j, off), f2) }
       else dirlookup_from api i name (off + of_nat dirent_size) f1 }
     else Some (None, f))"

text \<open>The inode and \<open>*poff\<close>.\<close>

definition dirlookup :: "'s blk_api \<Rightarrow> nat \<Rightarrow> bytes \<Rightarrow> 's fs \<Rightarrow> ((nat \<times> u32) option \<times> 's fs) option" where
  "dirlookup api i name f =
    (if itype (itab f ! i) \<noteq> T_DIR then None else dirlookup_from api i name 0 f)"

partial_function (option) empty_dirent :: "'s blk_api \<Rightarrow> nat \<Rightarrow> u32 \<Rightarrow> 's fs \<Rightarrow> (u32 \<times> 's fs) option" where
  "empty_dirent api i off f =
    (if off < isize (itab f ! i) then do {
       (de, f1) \<leftarrow> read_dirent api i off f;
       if le16_at de 0 = 0 then Some (off, f1)
       else empty_dirent api i (off + of_nat dirent_size) f1 }
     else Some (off, f))"

definition dirlink :: "'s blk_api \<Rightarrow> nat \<Rightarrow> bytes \<Rightarrow> u32 \<Rightarrow> 's fs \<Rightarrow> (int \<times> 's fs) option" where
  "dirlink api i name n f = do {
     (found, f1) \<leftarrow> dirlookup api i name f;
     case found of
       Some (j, _) \<Rightarrow> do { f2 \<leftarrow> iput api j f1; Some (-1, f2) }
     | None \<Rightarrow> do {
         (off, f2) \<leftarrow> empty_dirent api i 0 f1;
         (r, f3) \<leftarrow> writei api (from_buffer (dirent_bytes (ucast n) name)) i 0 off (of_nat dirent_size) f2;
         Some (if r \<noteq> int dirent_size then -1 else 0, f3) } }"

section \<open>Paths\<close>

definition SLASH :: u8 where "SLASH = 47"

text \<open>
  A path without its final NUL. The name buffer has \<open>DIRSIZ\<close> bytes; a shorter element is followed by a
  NUL and what the buffer held before.
\<close>

definition skipelem :: "bytes \<Rightarrow> bytes \<Rightarrow> (bytes \<times> bytes) option" where
  "skipelem path name =
    (let p = dropWhile (\<lambda>c. c = SLASH) path in
     if p = [] then None
     else
       let e = takeWhile (\<lambda>c. c \<noteq> SLASH) p;
           rest = dropWhile (\<lambda>c. c = SLASH) (drop (length e) p)
       in Some (rest, if DIRSIZ \<le> length e then take DIRSIZ e else e @ [0] @ drop (length e + 1) name))"

partial_function (option) namex_loop :: "'s blk_api \<Rightarrow> bool \<Rightarrow> bytes \<Rightarrow> bytes \<Rightarrow> nat \<Rightarrow> 's fs \<Rightarrow>
    (nat option \<times> bytes \<times> 's fs) option" where
  "namex_loop api par path name ip f =
    (case skipelem path name of
       None \<Rightarrow> if par then do { f1 \<leftarrow> iput api ip f; Some (None, name, f1) } else Some (Some ip, name, f)
     | Some (path', name') \<Rightarrow> do {
         f1 \<leftarrow> ilock api ip f;
         if itype (itab f1 ! ip) \<noteq> T_DIR then do { f2 \<leftarrow> iunlockput api ip f1; Some (None, name', f2) }
         else if par \<and> path' = [] then do { f2 \<leftarrow> iunlock api ip f1; Some (Some ip, name', f2) }
         else do {
           (found, f2) \<leftarrow> dirlookup api ip name' f1;
           f3 \<leftarrow> iunlockput api ip f2;
           (case found of
              None \<Rightarrow> Some (None, name', f3)
            | Some (nxt, _) \<Rightarrow> namex_loop api par path' name' nxt f3) } })"

definition namex :: "'s blk_api \<Rightarrow> bool \<Rightarrow> bytes \<Rightarrow> bytes \<Rightarrow> 's fs \<Rightarrow> (nat option \<times> bytes \<times> 's fs) option" where
  "namex api par path name f =
    (if path \<noteq> [] \<and> hd path = SLASH then do {
       (ip, f1) \<leftarrow> iget ROOTDEV ROOTINO f;
       namex_loop api par path name ip f1 }
     else namex_loop api par path name (fcwd f) (idup (fcwd f) f))"

definition namei :: "'s blk_api \<Rightarrow> bytes \<Rightarrow> 's fs \<Rightarrow> (nat option \<times> 's fs) option" where
  "namei api path f = do {
     (ip, name, f1) \<leftarrow> namex api False path (replicate DIRSIZ 0) f;
     Some (ip, f1) }"

definition nameiparent :: "'s blk_api \<Rightarrow> bytes \<Rightarrow> bytes \<Rightarrow> 's fs \<Rightarrow> (nat option \<times> bytes \<times> 's fs) option" where
  "nameiparent api path name f = namex api True path name f"

end
