(* ===== verification/X_Fs_Alloc.thy ===== *)
theory X_Fs_Alloc
  imports X_Fs
begin

text \<open>
  The bitmap of blocks: what \<open>balloc\<close> and \<open>bfree\<close> do, over any \<open>block_store\<close>.
\<close>

section \<open>Bits\<close>

lemma u8_bit: "and (x :: u8) (push_bit k 1) \<noteq> 0 \<longleftrightarrow> bit x k"
  using and_exp_eq_0_iff_not_bit [of x k] by (simp add: push_bit_eq_mult)

lemma bit_used_iff: "bit_used d bi \<longleftrightarrow> bit (d ! (bi div 8)) (bi mod 8)"
  unfolding bit_used_def u8_bit ..

lemma div_mod_eq: "i div 8 = j div 8 \<and> i mod 8 = j mod 8 \<longleftrightarrow> i = (j :: nat)"
  by (metis div_mult_mod_eq)

lemma BPB_8: "bi < BPB \<Longrightarrow> bi div 8 < BSIZE"
  by (auto simp: BPB_def)

lemma set_bit_used:
  assumes "length d = BSIZE" "bi < BPB" "bj < BPB"
  shows "bit_used (set_bit_used d bi) bj \<longleftrightarrow> bj = bi \<or> bit_used d bj"
  using assms BPB_8 [of bi] BPB_8 [of bj] div_mod_eq [of bi bj]
  by (auto simp: bit_used_iff set_bit_used_def nth_list_update bit_simps)

lemma clear_bit_used:
  assumes "length d = BSIZE" "bi < BPB" "bj < BPB"
  shows "bit_used (clear_bit_used d bi) bj \<longleftrightarrow> bj \<noteq> bi \<and> bit_used d bj"
  using assms BPB_8 [of bi] BPB_8 [of bj] div_mod_eq [of bi bj]
  by (auto simp: bit_used_iff clear_bit_used_def nth_list_update bit_simps)

lemma length_bit_used [simp]: "length (set_bit_used d bi) = length d" "length (clear_bit_used d bi) = length d"
  by (simp_all add: set_bit_used_def clear_bit_used_def)

text \<open>A block and its place in the bitmap.\<close>

definition used :: "superblock \<Rightarrow> (u32 \<Rightarrow> bytes) \<Rightarrow> u32 \<Rightarrow> bool" where
  "used sb V b \<longleftrightarrow> bit_used (V (BBLOCK b sb)) (unat b mod BPB)"

lemma BPB_val: "BPB = 8192"
  by (simp add: BPB_def BSIZE_def)

lemma BBLOCK_inj: "BBLOCK b sb = BBLOCK c sb \<Longrightarrow> unat b mod BPB = unat c mod BPB \<Longrightarrow> b = c"
proof -
  assume "BBLOCK b sb = BBLOCK c sb" "unat b mod BPB = unat c mod BPB"
  then have "b div 8192 = c div 8192" "unat b mod 8192 = unat c mod 8192" by (simp_all add: BBLOCK_def BPB_val)
  then have "unat b div 8192 = unat c div 8192" "unat b mod 8192 = unat c mod 8192"
    using unat_div [of b 8192] unat_div [of c 8192] by simp_all
  then show "b = c" by (metis div_mult_mod_eq word_unat_eq_iff)
qed

lemma used_set:
  assumes "length (V (BBLOCK b sb)) = BSIZE"
  shows "used sb (V(BBLOCK b sb := set_bit_used (V (BBLOCK b sb)) (unat b mod BPB))) c \<longleftrightarrow> c = b \<or> used sb V c"
  using set_bit_used [OF assms, of "unat b mod BPB" "unat c mod BPB"] BBLOCK_inj [of c sb b]
  by (auto simp: used_def BPB_val)

lemma used_clear:
  assumes "length (V (BBLOCK b sb)) = BSIZE"
  shows "used sb (V(BBLOCK b sb := clear_bit_used (V (BBLOCK b sb)) (unat b mod BPB))) c \<longleftrightarrow> c \<noteq> b \<and> used sb V c"
  using clear_bit_used [OF assms, of "unat b mod BPB" "unat c mod BPB"] BBLOCK_inj [of c sb b]
  by (auto simp: used_def BPB_val)

lemma set_clear_bit:
  assumes "length d = BSIZE" "bi < BPB" "\<not> bit_used d bi"
  shows "clear_bit_used (set_bit_used d bi) bi = d"
proof -
  have "and (or (d ! (bi div 8)) (push_bit (bi mod 8) 1)) (not (push_bit (bi mod 8) 1)) = d ! (bi div 8)"
    using assms(3) by (intro bit_word_eqI) (auto simp: bit_used_iff bit_simps)
  then show ?thesis using assms BPB_8 [of bi] by (simp add: set_bit_used_def clear_bit_used_def)
qed

lemma first_unused_spec:
  "case first_unused sb b d bi of
     Some j \<Rightarrow> bi \<le> j \<and> j < BPB \<and> b + of_nat j < sb_size sb \<and> \<not> bit_used d j \<and> (\<forall>k. bi \<le> k \<and> k < j \<longrightarrow> bit_used d k)
   | None \<Rightarrow> \<exists>m. (m = BPB \<or> bi \<le> m \<and> m < BPB \<and> \<not> b + of_nat m < sb_size sb) \<and> (\<forall>k. bi \<le> k \<and> k < m \<longrightarrow> bit_used d k)"
proof (induction sb b d bi rule: first_unused.induct)
  case (1 sb b d bi)
  show ?case
  proof (cases "bi < BPB \<and> b + of_nat bi < sb_size sb")
    case False
    then have "first_unused sb b d bi = None" by (subst first_unused.simps) auto
    then show ?thesis
      using False by (cases "bi < BPB") (auto intro: exI [of _ bi] exI [of _ BPB])
  next
    case bnd: True
    show ?thesis
    proof (cases "bit_used d bi")
      case False
      then have "first_unused sb b d bi = Some bi" using bnd by (subst first_unused.simps) auto
      then show ?thesis using False bnd by auto
    next
      case True
      then have "first_unused sb b d bi = first_unused sb b d (bi + 1)" using bnd by (subst first_unused.simps) auto
      moreover have "(\<forall>k. bi \<le> k \<and> k < m \<longrightarrow> bit_used d k) \<longleftrightarrow> (\<forall>k. bi + 1 \<le> k \<and> k < m \<longrightarrow> bit_used d k)" for m
        using True by (auto simp: Suc_le_eq) (metis nat_less_le)
      note step = calculation this
      show ?thesis
      proof (cases "first_unused sb b d (bi + 1)")
        case None
        then obtain m where m: "m = BPB \<or> bi + 1 \<le> m \<and> m < BPB \<and> \<not> b + of_nat m < sb_size sb"
          "\<forall>k. bi + 1 \<le> k \<and> k < m \<longrightarrow> bit_used d k" using 1 [OF bnd] True by auto
        then have "m = BPB \<or> bi \<le> m \<and> m < BPB \<and> \<not> b + of_nat m < sb_size sb" by linarith
        then show ?thesis using step m(2) None by auto
      next
        case (Some j)
        then show ?thesis using step 1 [OF bnd] True by simp
      qed
    qed
  qed
qed

text \<open>The blocks after an allocation and after freeing.\<close>

definition free_view :: "superblock \<Rightarrow> u32 \<Rightarrow> (u32 \<Rightarrow> bytes) \<Rightarrow> u32 \<Rightarrow> bytes" where
  "free_view sb b V = V(BBLOCK b sb := clear_bit_used (V (BBLOCK b sb)) (unat b mod BPB))"

definition alloc_view :: "superblock \<Rightarrow> u32 \<Rightarrow> (u32 \<Rightarrow> bytes) \<Rightarrow> u32 \<Rightarrow> bytes" where
  "alloc_view sb b V = V(BBLOCK b sb := set_bit_used (V (BBLOCK b sb)) (unat b mod BPB), b := replicate BSIZE 0)"

section \<open>Steps of the store\<close>

context block_store
begin

definition few :: "'s \<Rightarrow> bool" where
  "few s \<longleftrightarrow> held s = Map.empty \<or> (\<exists>j c. held s = [j \<mapsto> c])"

definition evolves :: "'s \<Rightarrow> (u32 \<Rightarrow> bytes) \<Rightarrow> u32 set \<Rightarrow> 's \<Rightarrow> bool" where
  "evolves s V B s' \<longleftrightarrow> inv s' \<and> view s' = V \<and> disk s' = disk s \<and> held s' = held s \<and>
     logged s' = logged s \<union> B \<and> me s' = me s"

definition room :: "'s \<Rightarrow> u32 set \<Rightarrow> bool" where
  "room s B \<longleftrightarrow> finite B \<and> card (logged s \<union> B) \<le> lim \<and> B \<inter> log_blocks = {}"

lemma evolves_refl: "inv s \<Longrightarrow> evolves s (view s) {} s"
  by (simp add: evolves_def)

lemma evolves_trans: "\<lbrakk>evolves s V B s1; evolves s1 V' C s2; D = B \<union> C\<rbrakk> \<Longrightarrow> evolves s V' D s2"
  by (auto simp: evolves_def)

lemma few_evolves: "evolves s V B s' \<Longrightarrow> few s' = few s"
  by (simp add: evolves_def few_def)

lemma room_evolves: "\<lbrakk>evolves s V B s'; room s (B \<union> C)\<rbrakk> \<Longrightarrow> room s' C"
  by (auto simp: evolves_def room_def Un_assoc)

lemma room_subset: "\<lbrakk>room s B; C \<subseteq> B; inv s\<rbrakk> \<Longrightarrow> room s C"
proof -
  assume a: "room s B" "C \<subseteq> B" "inv s"
  then have "card (logged s \<union> C) \<le> card (logged s \<union> B)"
    using logged_finite by (intro card_mono) (auto simp: room_def)
  then show "room s C" using a by (auto simp: room_def dest: finite_subset)
qed

lemma read_block:
  assumes "inv s" "few s" "b \<notin> ran (held s)"
  shows "\<exists>i s1 s2. blk_bread api dev b s = Some (i, s1) \<and> blk_data api i s1 = view s b \<and>
    blk_brelse api i s1 = Some s2 \<and> evolves s (view s) {} s2 \<and>
    inv s1 \<and> view s1 = view s \<and> disk s1 = disk s \<and> held s i = None \<and> held s1 = (held s)(i \<mapsto> b) \<and>
    logged s1 = logged s \<and> me s1 = me s"
proof -
  obtain i s1 where 1: "blk_bread api dev b s = Some (i, s1)" "inv s1" "view s1 = view s" "disk s1 = disk s"
    "held s i = None" "held s1 = (held s)(i \<mapsto> b)" "logged s1 = logged s" "me s1 = me s"
    using bread_law [OF assms(1,3)] assms(2) unfolding few_def by blast
  have h: "held s1 i = Some b" using 1 by simp
  have "b \<in> logged s1 \<or> view s1 b = disk s1 b" using clean_law [OF assms(1) _ assms(3)] 1 by auto
  from brelse_law [OF 1(2) h this] obtain s2 where "blk_brelse api i s1 = Some s2" "evolves s (view s) {} s2"
    using 1 by (auto simp: evolves_def fun_upd_idem)
  then show ?thesis using 1 data_law [OF 1(2) h] by auto
qed

lemma release_logged:
  assumes "inv s" "held s i = Some b" "length x = BSIZE" "b \<notin> log_blocks" "card (insert b (logged s)) \<le> lim"
  shows "\<exists>s1 s2. blk_log_write api i (blk_set api i x s) = Some s1 \<and> blk_brelse api i s1 = Some s2 \<and>
    inv s2 \<and> view s2 = (view s)(b := x) \<and> disk s2 = disk s \<and> held s2 = (held s)(i := None) \<and>
    logged s2 = insert b (logged s) \<and> me s2 = me s"
proof -
  note set = set_law [OF assms(1-3)]
  obtain s1 where 1: "blk_log_write api i (blk_set api i x s) = Some s1" "inv s1" "view s1 = (view s)(b := x)"
    "disk s1 = disk s" "held s1 = held s" "logged s1 = insert b (logged s)" "me s1 = me s"
    using log_write_law [of "blk_set api i x s" i b] set assms by auto
  then show ?thesis using brelse_law [OF 1(2), of i b] assms(2) by auto
qed

lemma update_block:
  assumes "inv s" "few s" "b \<notin> ran (held s)" "room s {b}" "length x = BSIZE"
  shows "\<exists>i s1 s2 s3. blk_bread api dev b s = Some (i, s1) \<and> blk_data api i s1 = view s b \<and>
    blk_log_write api i (blk_set api i x s1) = Some s2 \<and> blk_brelse api i s2 = Some s3 \<and>
    evolves s ((view s)(b := x)) {b} s3"
proof -
  obtain i s1 where 1: "blk_bread api dev b s = Some (i, s1)" "blk_data api i s1 = view s b" "inv s1"
    "view s1 = view s" "disk s1 = disk s" "held s i = None" "held s1 = (held s)(i \<mapsto> b)" "logged s1 = logged s"
    "me s1 = me s"
    using read_block [OF assms(1-3)] by blast
  have "\<exists>s2 s3. blk_log_write api i (blk_set api i x s1) = Some s2 \<and> blk_brelse api i s2 = Some s3 \<and>
    inv s3 \<and> view s3 = (view s1)(b := x) \<and> disk s3 = disk s1 \<and> held s3 = (held s1)(i := None) \<and>
    logged s3 = insert b (logged s1) \<and> me s3 = me s1"
    using 1 assms(4,5) by (intro release_logged) (simp_all add: room_def Un_commute)
  then show ?thesis using 1 by (auto simp: evolves_def fun_upd_idem)
qed

lemma bzero_spec:
  assumes "inv s" "few s" "b \<notin> ran (held s)" "room s {b}"
  shows "\<exists>s'. bzero api dev b s = Some s' \<and> evolves s ((view s)(b := replicate BSIZE 0)) {b} s'"
  using update_block [OF assms, of "replicate BSIZE 0"] by (auto simp: bzero_def)

lemma bfree_spec:
  assumes "inv s" "few s" "BBLOCK b sb \<notin> ran (held s)" "room s {BBLOCK b sb}"
  shows "if used sb (view s) b
    then \<exists>s'. bfree api sb dev b s = Some s' \<and> evolves s (free_view sb b (view s)) {BBLOCK b sb} s'
    else bfree api sb dev b s = None"
proof -
  let ?x = "clear_bit_used (view s (BBLOCK b sb)) (unat b mod BPB)"
  have "length ?x = BSIZE" using view_length [OF assms(1)] by simp
  from update_block [OF assms this] obtain i s1 s2 s3 where
    "blk_bread api dev (BBLOCK b sb) s = Some (i, s1)" "blk_data api i s1 = view s (BBLOCK b sb)"
    "blk_log_write api i (blk_set api i ?x s1) = Some s2" "blk_brelse api i s2 = Some s3"
    "evolves s (free_view sb b (view s)) {BBLOCK b sb} s3"
    unfolding free_view_def by blast
  then show ?thesis by (simp add: bfree_def used_def)
qed

text \<open>
  The blocks of the bitmap itself, the log and block 0 are marked as used, and no block number
  overflows.
\<close>

definition bitmap_ok :: "superblock \<Rightarrow> (u32 \<Rightarrow> bytes) \<Rightarrow> bool" where
  "bitmap_ok sb V \<longleftrightarrow> unat (sb_size sb) + BPB < 2 ^ 32 \<and> used sb V 0 \<and>
     (\<forall>b < sb_size sb. BBLOCK b sb < sb_size sb \<and> used sb V (BBLOCK b sb) \<and> BBLOCK b sb \<notin> log_blocks \<and>
        (b \<in> log_blocks \<longrightarrow> used sb V b))"

text \<open>The buffers held are not in the way of an allocation.\<close>

definition apart :: "superblock \<Rightarrow> 's \<Rightarrow> bool" where
  "apart sb s \<longleftrightarrow> few s \<and> (\<forall>b < sb_size sb. BBLOCK b sb \<notin> ran (held s) \<and> (b \<in> ran (held s) \<longrightarrow> used sb (view s) b))"

lemma BBLOCK_group:
  assumes "unat b0 mod BPB = 0" "unat b0 + BPB < 2 ^ 32" "bi < BPB"
  shows "unat (b0 + of_nat bi) = unat b0 + bi" "BBLOCK (b0 + of_nat bi) sb = BBLOCK b0 sb"
    "unat (b0 + of_nat bi) mod BPB = bi"
proof -
  obtain q where q: "unat b0 = 8192 * q" using assms(1) by (auto simp: BPB_val elim: dvdE)
  have bi: "bi < 8192" using assms(3) by (simp add: BPB_val)
  then have "unat (of_nat bi :: u32) = bi" by (simp add: unat_of_nat)
  moreover have "unat b0 + bi < 2 ^ 32" using assms(2) bi by (simp add: BPB_val)
  ultimately show u: "unat (b0 + of_nat bi) = unat b0 + bi" by (simp add: unat_word_ariths(1))
  show "unat (b0 + of_nat bi) mod BPB = bi" using bi unfolding u q BPB_val by simp
  have "(8192 * q + bi) div 8192 = 8192 * q div 8192" using bi by simp
  then have "unat (b0 + of_nat bi) div 8192 = unat b0 div 8192" unfolding u q .
  then have "unat ((b0 + of_nat bi) div 8192) = unat (b0 div 8192)"
    using unat_div [of "b0 + of_nat bi" 8192] unat_div [of b0 8192] by simp
  then have "(b0 + of_nat bi) div 8192 = b0 div 8192" using word_unat_eq_iff by blast
  then show "BBLOCK (b0 + of_nat bi) sb = BBLOCK b0 sb" by (simp add: BBLOCK_def BPB_val)
qed

lemma balloc_from_spec:
  assumes "inv s" "apart sb s" "bitmap_ok sb (view s)" "unat b0 mod BPB = 0"
    "\<forall>c < sb_size sb. c < b0 \<longrightarrow> used sb (view s) c"
    "\<forall>b < sb_size sb. \<not> used sb (view s) b \<longrightarrow> room s {BBLOCK b sb, b}"
  shows "\<exists>b s'. balloc_from api sb dev b0 s = Some (b, s') \<and>
    (if \<exists>c < sb_size sb. \<not> used sb (view s) c
     then b < sb_size sb \<and> \<not> used sb (view s) b \<and> (\<forall>c < b. used sb (view s) c) \<and>
       evolves s (alloc_view sb b (view s)) {BBLOCK b sb, b} s'
     else b = 0 \<and> evolves s (view s) {} s')"
  using assms
proof (induction "unat (sb_size sb) - unat b0" arbitrary: b0 s rule: less_induct)
  case less
  have sz: "unat (sb_size sb) + BPB < 2 ^ 32" using less.prems(3) by (simp add: bitmap_ok_def)
  have few: "few s" using less.prems(2) by (simp add: apart_def)
  show ?case
  proof (cases "b0 < sb_size sb")
    case False
    then have "\<forall>c < sb_size sb. used sb (view s) c" using less.prems(5) by (auto simp: not_less)
    then show ?thesis
      using False less.prems(1) evolves_refl by (subst balloc_from.simps) auto
  next
    case True
    have b0: "unat b0 + BPB < 2 ^ 32" using True sz by (simp add: word_less_nat_alt)
    note grp = BBLOCK_group [OF less.prems(4) b0]
    have nb: "BBLOCK b0 sb \<notin> ran (held s)" using less.prems(2) True by (simp add: apart_def)
    obtain i s1 s2 where 1: "blk_bread api dev (BBLOCK b0 sb) s = Some (i, s1)"
      "blk_data api i s1 = view s (BBLOCK b0 sb)" "blk_brelse api i s1 = Some s2" "evolves s (view s) {} s2"
      "inv s1" "view s1 = view s" "disk s1 = disk s" "held s i = None" "held s1 = (held s)(i \<mapsto> BBLOCK b0 sb)"
      "logged s1 = logged s" "me s1 = me s"
      using read_block [OF less.prems(1) few nb] by blast
    have usd: "used sb (view s) (b0 + of_nat k) \<longleftrightarrow> bit_used (view s (BBLOCK b0 sb)) k" if "k < BPB" for k
      using grp(2,3) [OF that] by (simp add: used_def)
    let ?fu = "first_unused sb b0 (view s (BBLOCK b0 sb)) 0"
    have below: "c < b0 \<or> (\<exists>k < j. c = b0 + of_nat k)" if "unat c < unat b0 + j" "j \<le> BPB" for c j
    proof (cases "c < b0")
      case False
      then have "c = b0 + of_nat (unat c - unat b0)" by (simp add: word_unat_eq_iff word_less_nat_alt unat_sub_if_size word_le_nat_alt)
      then show ?thesis using that False by (auto simp: word_less_nat_alt intro!: exI [of _ "unat c - unat b0"])
    qed simp
    show ?thesis
    proof (cases ?fu)
      case (Some j)
      then have j: "j < BPB" "b0 + of_nat j < sb_size sb" "\<not> bit_used (view s (BBLOCK b0 sb)) j"
        "\<forall>k < j. bit_used (view s (BBLOCK b0 sb)) k"
        using first_unused_spec [where sb = sb and b = b0 and d = "view s (BBLOCK b0 sb)" and bi = 0] by auto
      let ?b = "b0 + of_nat j" and ?x = "set_bit_used (view s (BBLOCK b0 sb)) j"
      have free: "\<not> used sb (view s) ?b" using usd [OF j(1)] j(3) by simp
      have all: "\<forall>c < ?b. used sb (view s) c"
      proof (intro allI impI)
        fix c assume c: "c < ?b"
        then have "unat c < unat b0 + j" using grp(1) [OF j(1)] by (simp add: word_less_nat_alt)
        then show "used sb (view s) c" using below [of c j] j less.prems(5) usd c by (auto intro: less_trans)
      qed
      have bb: "BBLOCK ?b sb = BBLOCK b0 sb" "unat ?b mod BPB = j" using grp(2,3) [OF j(1)] by simp_all
      have rm: "room s {BBLOCK b0 sb, ?b}" using less.prems(6) j(2) free bb(1) by metis
      have ne: "?b \<noteq> BBLOCK b0 sb" using less.prems(3) j(2) free bb(1) unfolding bitmap_ok_def by metis
      have lx: "length ?x = BSIZE" using view_length [OF less.prems(1)] by simp
      have sub: "room s {BBLOCK b0 sb}" by (rule room_subset [OF rm _ less.prems(1)]) simp
      obtain i' t1 t2 t3 where 2: "blk_bread api dev (BBLOCK b0 sb) s = Some (i', t1)"
        "blk_data api i' t1 = view s (BBLOCK b0 sb)" "blk_log_write api i' (blk_set api i' ?x t1) = Some t2"
        "blk_brelse api i' t2 = Some t3" "evolves s ((view s)(BBLOCK b0 sb := ?x)) {BBLOCK b0 sb} t3"
        using update_block [OF less.prems(1) few nb sub lx] by blast
      have rm3: "room t3 {?b}" by (rule room_evolves [OF 2(5)]) (use rm in \<open>simp add: insert_commute\<close>)
      have 3: "inv t3" "few t3" "?b \<notin> ran (held t3)"
        using 2(5) few_evolves [OF 2(5)] few less.prems(2) j(2) free by (auto simp: evolves_def apart_def)
      obtain t4 where 4: "bzero api dev ?b t3 = Some t4" "evolves t3 ((view t3)(?b := replicate BSIZE 0)) {?b} t4"
        using bzero_spec [OF 3 rm3] by blast
      have v: "(view t3)(?b := replicate BSIZE 0) = alloc_view sb ?b (view s)"
        using 2(5) by (simp add: evolves_def alloc_view_def bb)
      have "evolves s (alloc_view sb ?b (view s)) {BBLOCK ?b sb, ?b} t4"
        using evolves_trans [OF 2(5) 4(2)] v bb(1) by (simp add: insert_commute)
      moreover have "balloc_from api sb dev b0 s = Some (?b, t4)"
        using True 2 4(1) Some by (subst balloc_from.simps) simp
      ultimately show ?thesis using j(2) free all by auto
    next
      case None
      then obtain m where m: "m = BPB \<or> m < BPB \<and> \<not> b0 + of_nat m < sb_size sb"
        "\<forall>k < m. bit_used (view s (BBLOCK b0 sb)) k"
        using first_unused_spec [where sb = sb and b = b0 and d = "view s (BBLOCK b0 sb)" and bi = 0] by auto
      have u: "unat (b0 + of_nat BPB) = unat b0 + BPB"
        using b0 by (simp add: unat_word_ariths(1) BPB_val)
      have all: "\<forall>c < sb_size sb. c < b0 + of_nat BPB \<longrightarrow> used sb (view s) c"
      proof (intro allI impI)
        fix c assume c: "c < sb_size sb" "c < b0 + of_nat BPB"
        have "unat c < unat b0 + m"
          using m(1) c u grp(1) [of m] by (auto simp: word_less_nat_alt)
        moreover have "m \<le> BPB" using m(1) by auto
        ultimately show "used sb (view s) c" using below [of c m] m(2) less.prems(5) usd c(1) by auto
      qed
      have 2: "inv s2" "view s2 = view s" using 1(4) by (simp_all add: evolves_def)
      have ap: "apart sb s2" using less.prems(2) 1(4) few_evolves [OF 1(4)] by (simp add: apart_def evolves_def)
      have md: "unat (b0 + of_nat BPB) mod BPB = 0" using less.prems(4) u by simp
      have rm: "\<forall>b < sb_size sb. \<not> used sb (view s) b \<longrightarrow> room s2 {BBLOCK b sb, b}"
        using less.prems(6) 1(4) by (simp add: room_def evolves_def)
      have dec: "unat (sb_size sb) - unat (b0 + of_nat BPB) < unat (sb_size sb) - unat b0"
        using u True by (simp add: word_less_nat_alt BPB_val)
      obtain b s' where b: "balloc_from api sb dev (b0 + of_nat BPB) s2 = Some (b, s')"
        "if \<exists>c < sb_size sb. \<not> used sb (view s) c
         then b < sb_size sb \<and> \<not> used sb (view s) b \<and> (\<forall>c < b. used sb (view s) c) \<and>
           evolves s2 (alloc_view sb b (view s)) {BBLOCK b sb, b} s'
         else b = 0 \<and> evolves s2 (view s) {} s'"
        using less.hyps [of "b0 + of_nat BPB" s2, unfolded 2(2), OF dec 2(1) ap less.prems(3) md all rm]
        by (elim exE conjE) (rule that)
      have "balloc_from api sb dev b0 s = Some (b, s')"
        using True 1(1,2,3) None b(1) by (subst balloc_from.simps) simp
      moreover have "evolves s V B s'" if "evolves s2 V B s'" for V B
        using evolves_trans [OF 1(4) that] by simp
      then have "if \<exists>c < sb_size sb. \<not> used sb (view s) c
         then b < sb_size sb \<and> \<not> used sb (view s) b \<and> (\<forall>c < b. used sb (view s) c) \<and>
           evolves s (alloc_view sb b (view s)) {BBLOCK b sb, b} s'
         else b = 0 \<and> evolves s (view s) {} s'"
        using b(2) by presburger
      ultimately show ?thesis by blast
    qed
  qed
qed

text \<open>The result of \<open>balloc\<close>: the first free block, or none.\<close>

lemma balloc_spec:
  assumes "inv s" "apart sb s" "bitmap_ok sb (view s)"
    "\<forall>b < sb_size sb. \<not> used sb (view s) b \<longrightarrow> room s {BBLOCK b sb, b}"
  shows "\<exists>b s'. balloc api sb dev s = Some (b, s') \<and>
    (if \<exists>c < sb_size sb. \<not> used sb (view s) c
     then b \<noteq> 0 \<and> b < sb_size sb \<and> \<not> used sb (view s) b \<and> (\<forall>c < b. used sb (view s) c) \<and>
       evolves s (alloc_view sb b (view s)) {BBLOCK b sb, b} s'
     else b = 0 \<and> evolves s (view s) {} s')"
proof -
  have "used sb (view s) 0" using assms(3) by (simp add: bitmap_ok_def)
  then show ?thesis
    using balloc_from_spec [OF assms(1-3), of 0] assms(4) unfolding balloc_def by (auto simp: BPB_val split: if_splits)
qed

end

end
