(* ===== verification/X_Fs_File.thy ===== *)
theory X_Fs_File
  imports X_Fs_Alloc
begin

text \<open>
  The contents of files: what \<open>bmap\<close>, \<open>readi\<close> and \<open>writei\<close> do to the blocks of an inode and to those of
  every other file, over any \<open>block_store\<close>.
\<close>

section \<open>The blocks of an inode\<close>

lemma sizes: "NDIRECT = 12" "NINDIRECT = 256" "MAXFILE = 268" "IPB = 16" "BSIZE = 1024"
  by (simp_all add: NDIRECT_def NINDIRECT_def MAXFILE_def IPB_def BSIZE_def)

text \<open>The block with the \<open>n\<close>-th part of the contents, \<open>0\<close> if there is none.\<close>

definition addr :: "(u32 \<Rightarrow> bytes) \<Rightarrow> inode \<Rightarrow> nat \<Rightarrow> u32" where
  "addr V ip n = (if n < NDIRECT then iaddrs ip ! n
     else if iaddrs ip ! NDIRECT = 0 then 0 else indirect_at (V (iaddrs ip ! NDIRECT)) (n - NDIRECT))"

definition own :: "(u32 \<Rightarrow> bytes) \<Rightarrow> inode \<Rightarrow> u32 set" where
  "own V ip = insert (iaddrs ip ! NDIRECT) (addr V ip ` {..<MAXFILE}) - {0}"

definition data_block :: "u32 set \<Rightarrow> superblock \<Rightarrow> u32 \<Rightarrow> bool" where
  "data_block L sb b \<longleftrightarrow> b \<noteq> 0 \<and> b < sb_size sb \<and> b \<notin> L \<and> (\<forall>c < sb_size sb. BBLOCK c sb \<noteq> b) \<and>
     (\<forall>n < sb_ninodes sb. IBLOCK n sb \<noteq> b)"

definition ino_ok :: "u32 set \<Rightarrow> superblock \<Rightarrow> (u32 \<Rightarrow> bytes) \<Rightarrow> inode \<Rightarrow> bool" where
  "ino_ok L sb V ip \<longleftrightarrow> length (iaddrs ip) = NDIRECT + 1 \<and> (\<forall>b \<in> own V ip. data_block L sb b \<and> used sb V b) \<and>
     (\<forall>m < MAXFILE. \<forall>n < MAXFILE. addr V ip m = addr V ip n \<and> addr V ip m \<noteq> 0 \<longrightarrow> m = n) \<and>
     (\<forall>m < MAXFILE. addr V ip m \<noteq> 0 \<longrightarrow> addr V ip m \<noteq> iaddrs ip ! NDIRECT)"

text \<open>Only blocks for data are free.\<close>

definition meta_ok :: "u32 set \<Rightarrow> superblock \<Rightarrow> (u32 \<Rightarrow> bytes) \<Rightarrow> bool" where
  "meta_ok L sb V \<longleftrightarrow> 0 < sb_size sb \<and> unat (sb_size sb) + BPB < 2 ^ 32 \<and>
     (\<forall>b < sb_size sb. BBLOCK b sb < sb_size sb \<and> BBLOCK b sb \<notin> L \<and> (\<forall>n < sb_ninodes sb. IBLOCK n sb \<noteq> BBLOCK b sb)) \<and>
     (\<forall>n < sb_ninodes sb. IBLOCK n sb \<notin> L \<and> IBLOCK n sb \<noteq> 0) \<and>
     (\<forall>b < sb_size sb. \<not> data_block L sb b \<longrightarrow> used sb V b)"

lemma own_addr: "\<lbrakk>m < MAXFILE; addr V ip m \<noteq> 0\<rbrakk> \<Longrightarrow> addr V ip m \<in> own V ip"
  by (auto simp: own_def)

lemma own_indirect: "iaddrs ip ! NDIRECT \<noteq> 0 \<Longrightarrow> iaddrs ip ! NDIRECT \<in> own V ip"
  by (auto simp: own_def)

lemma ino_okD:
  assumes "ino_ok L sb V ip" "b \<in> own V ip"
  shows "data_block L sb b" "used sb V b"
  using assms by (auto simp: ino_ok_def)

text \<open>Contents that agree on the indirect block give the same addresses.\<close>

lemma addr_cong: "V' (iaddrs ip ! NDIRECT) = V (iaddrs ip ! NDIRECT) \<or> iaddrs ip ! NDIRECT = 0 \<Longrightarrow> addr V' ip m = addr V ip m"
  by (auto simp: addr_def)

lemma own_cong: "V' (iaddrs ip ! NDIRECT) = V (iaddrs ip ! NDIRECT) \<or> iaddrs ip ! NDIRECT = 0 \<Longrightarrow> own V' ip = own V ip"
  by (simp add: own_def addr_cong cong: image_cong)

lemma used_cong: "(b < sb_size sb \<Longrightarrow> V' (BBLOCK b sb) = V (BBLOCK b sb)) \<Longrightarrow> b < sb_size sb \<Longrightarrow> used sb V' b = used sb V b"
  by (simp add: used_def)

section \<open>Allocation and the blocks of files\<close>

lemma alloc_facts:
  assumes m: "meta_ok L sb V" and V: "\<And>b. length (V b) = BSIZE" and a: "a < sb_size sb" "\<not> used sb V a"
  defines "V' \<equiv> alloc_view sb a V"
  shows "data_block L sb a" "V' a = replicate BSIZE 0"
    "b \<noteq> a \<Longrightarrow> b \<noteq> BBLOCK a sb \<Longrightarrow> V' b = V b" "data_block L sb b \<Longrightarrow> b \<noteq> a \<Longrightarrow> V' b = V b"
    "b < sb_size sb \<Longrightarrow> used sb V' b \<longleftrightarrow> b = a \<or> used sb V b"
    "\<And>b. length (V' b) = BSIZE" "meta_ok L sb V'"
proof -
  show d: "data_block L sb a" using m a by (auto simp: meta_ok_def)
  then have ne: "BBLOCK c sb \<noteq> a" if "c < sb_size sb" for c using that by (simp add: data_block_def)
  show "V' a = replicate BSIZE 0" by (simp add: V'_def alloc_view_def)
  show o: "V' b = V b" if "b \<noteq> a" "b \<noteq> BBLOCK a sb" for b using that by (simp add: V'_def alloc_view_def)
  show "V' b = V b" if "data_block L sb b" "b \<noteq> a" using that a by (intro o) (auto simp: data_block_def)
  show u: "used sb V' b \<longleftrightarrow> b = a \<or> used sb V b" if "b < sb_size sb" for b
  proof -
    have "used sb V' b = used sb (V(BBLOCK a sb := set_bit_used (V (BBLOCK a sb)) (unat a mod BPB))) b"
      using ne [OF that] by (simp add: V'_def alloc_view_def used_def)
    then show ?thesis using used_set [OF V] by simp
  qed
  show "length (V' b) = BSIZE" for b using V by (simp add: V'_def alloc_view_def)
  show "meta_ok L sb V'" using m u by (auto simp: meta_ok_def)
qed

lemma alloc_ino:
  assumes "meta_ok L sb V" "\<And>b. length (V b) = BSIZE" "a < sb_size sb" "\<not> used sb V a" "ino_ok L sb V ip"
  shows "a \<notin> own V ip" "addr (alloc_view sb a V) ip m = addr V ip m" "own (alloc_view sb a V) ip = own V ip"
    "ino_ok L sb (alloc_view sb a V) ip"
proof -
  note f = alloc_facts [OF assms(1-4)]
  show no: "a \<notin> own V ip" using ino_okD [OF assms(5)] assms(4) by auto
  have c: "alloc_view sb a V (iaddrs ip ! NDIRECT) = V (iaddrs ip ! NDIRECT) \<or> iaddrs ip ! NDIRECT = 0"
    using f(4) no own_indirect ino_okD [OF assms(5)] by metis
  show ad: "addr (alloc_view sb a V) ip m = addr V ip m" for m using c by (rule addr_cong)
  show ow: "own (alloc_view sb a V) ip = own V ip" using c by (rule own_cong)
  have "used sb (alloc_view sb a V) b" if "b \<in> own V ip" for b
    using f(5) [of b] ino_okD [OF assms(5) that] by (simp add: data_block_def)
  then show "ino_ok L sb (alloc_view sb a V) ip" using assms(5) unfolding ino_ok_def ad ow by blast
qed

text \<open>One address more.\<close>

lemma ino_extend:
  assumes ok: "ino_ok L sb V ip" and ip': "length (iaddrs ip') = NDIRECT + 1" "iaddrs ip' ! NDIRECT = iaddrs ip ! NDIRECT"
    and n: "n < MAXFILE" "addr V ip n = 0"
    and new: "\<And>m. m < MAXFILE \<Longrightarrow> addr V' ip' m = (if m = n then a else addr V ip m)"
    and a: "a \<notin> own V ip" "data_block L sb a" "used sb V' a" and us: "\<And>b. b \<in> own V ip \<Longrightarrow> used sb V' b"
  shows "own V' ip' = insert a (own V ip)" "ino_ok L sb V' ip'"
proof -
  have a0: "a \<noteq> 0" using a(2) by (simp add: data_block_def)
  have "addr V' ip' ` {..<MAXFILE} = insert a (addr V ip ` ({..<MAXFILE} - {n}))" using n(1) new by auto
  moreover have "addr V ip ` {..<MAXFILE} = insert 0 (addr V ip ` ({..<MAXFILE} - {n}))" using n by auto
  ultimately show ow: "own V' ip' = insert a (own V ip)" using a0 by (auto simp: own_def ip'(2))
  have ne: "addr V ip m \<noteq> a" "iaddrs ip ! NDIRECT \<noteq> a" if "m < MAXFILE" for m
    using a(1) a0 own_addr [OF that, of V ip] own_indirect [of ip V] by auto
  show "ino_ok L sb V' ip'"
    unfolding ino_ok_def ow
  proof (intro conjI allI impI ballI)
    show "length (iaddrs ip') = NDIRECT + 1" by (rule ip')
    show "data_block L sb b" "used sb V' b" if "b \<in> insert a (own V ip)" for b
      using that a(2,3) us ino_okD [OF ok] by auto
    fix m assume m: "m < MAXFILE"
    have old: "addr V ip m \<noteq> 0 \<Longrightarrow> addr V ip m \<noteq> iaddrs ip ! NDIRECT"
      "\<And>k. \<lbrakk>k < MAXFILE; addr V ip m = addr V ip k; addr V ip m \<noteq> 0\<rbrakk> \<Longrightarrow> m = k"
      using ok m unfolding ino_ok_def by blast+
    show "addr V' ip' m \<noteq> iaddrs ip' ! NDIRECT" if "addr V' ip' m \<noteq> 0"
      using that new [OF m] ne(2) [OF m] old(1) ip'(2) by (cases "m = n") auto
    fix k assume k: "k < MAXFILE" "addr V' ip' m = addr V' ip' k \<and> addr V' ip' m \<noteq> 0"
    show "m = k"
    proof (cases "m = n \<or> k = n")
      case True
      then show ?thesis using k new [OF m] new [OF k(1)] ne(1) [OF m] ne(1) [OF k(1)] by metis
    next
      case False
      then show ?thesis using k new [OF m] new [OF k(1)] old(2) [OF k(1)] by metis
    qed
  qed
qed

lemma set_direct:
  assumes "ino_ok L sb V ip" "n < NDIRECT" "addr V ip n = 0" "a \<notin> own V ip" "data_block L sb a" "used sb V a"
  defines "ip' \<equiv> ip\<lparr>iaddrs := (iaddrs ip)[n := a]\<rparr>"
  shows "addr V ip' m = (if m = n then a else addr V ip m)" "own V ip' = insert a (own V ip)" "ino_ok L sb V ip'"
proof -
  have len: "length (iaddrs ip) = NDIRECT + 1" using assms(1) by (simp add: ino_ok_def)
  show ad: "addr V ip' m = (if m = n then a else addr V ip m)" for m
    using assms(2) len by (auto simp: ip'_def addr_def nth_list_update)
  have "n < MAXFILE" using assms(2) by (simp add: sizes)
  moreover have "length (iaddrs ip') = NDIRECT + 1" "iaddrs ip' ! NDIRECT = iaddrs ip ! NDIRECT"
    using len assms(2) by (simp_all add: ip'_def)
  ultimately show "own V ip' = insert a (own V ip)" "ino_ok L sb V ip'"
    using ino_extend [OF assms(1) _ _ _ assms(3) ad assms(4-6) ino_okD(2) [OF assms(1)]] by simp_all
qed

lemma indirect_zero: "indirect_at (replicate BSIZE 0) k = 0" if "k < NINDIRECT"
  using that by (simp add: indirect_at_def le32_at_def sizes)

lemma set_indirect:
  assumes "ino_ok L sb V ip" "iaddrs ip ! NDIRECT = 0" "a \<notin> own V ip" "data_block L sb a" "used sb V a"
    "V a = replicate BSIZE 0"
  defines "ip' \<equiv> ip\<lparr>iaddrs := (iaddrs ip)[NDIRECT := a]\<rparr>"
  shows "m < MAXFILE \<Longrightarrow> addr V ip' m = addr V ip m" "own V ip' = insert a (own V ip)" "ino_ok L sb V ip'"
proof -
  have len: "length (iaddrs ip) = NDIRECT + 1" using assms(1) by (simp add: ino_ok_def)
  have a0: "a \<noteq> 0" using assms(4) by (simp add: data_block_def)
  show ad: "addr V ip' m = addr V ip m" if "m < MAXFILE" for m
  proof (cases "m < NDIRECT")
    case False
    then have "m - NDIRECT < NINDIRECT" using that by (simp add: sizes)
    then show ?thesis using False len assms(2,6) indirect_zero by (simp add: ip'_def addr_def)
  qed (simp add: ip'_def addr_def)
  then have im: "addr V ip' ` {..<MAXFILE} = addr V ip ` {..<MAXFILE}" by (intro image_cong) simp_all
  then show ow: "own V ip' = insert a (own V ip)"
    using assms(2) len a0 by (auto simp: own_def ip'_def)
  have "addr V ip m \<noteq> a" if "m < MAXFILE" for m using own_addr [OF that] assms(3) a0 by metis
  then show "ino_ok L sb V ip'"
    using assms(1,4,5) ad len unfolding ino_ok_def ow by (auto simp: ip'_def)
qed

lemma length_splice [simp]: "k + length bs \<le> length d \<Longrightarrow> length (splice d k bs) = length d"
  by (simp add: splice_def)

lemma nth_splice:
  "\<lbrakk>k + length bs \<le> length d; j < length d\<rbrakk> \<Longrightarrow>
    splice d k bs ! j = (if k \<le> j \<and> j < k + length bs then bs ! (j - k) else d ! j)"
  by (auto simp: splice_def nth_append nth_drop min_def)

lemma indirect_splice:
  assumes "length d = BSIZE" "k < NINDIRECT" "j < NINDIRECT"
  shows "indirect_at (splice d (4 * k) (le32_bytes a)) j = (if j = k then a else indirect_at d j)"
proof -
  have "le32_at (splice d (4 * k) (le32_bytes a)) (4 * k) = le32_at (le32_bytes a) 0"
    using assms by (simp add: le32_at_def nth_splice sizes numeral_2_eq_2)
  moreover have "le32_at (splice d (4 * k) (le32_bytes a)) (4 * j) = le32_at d (4 * j)" if "j \<noteq> k"
    using assms that by (auto simp: le32_at_def nth_splice sizes)
  ultimately show ?thesis by (simp add: indirect_at_def le32_at_bytes)
qed

lemma set_entry:
  assumes "ino_ok L sb V ip" "k < NINDIRECT" "addr V ip (NDIRECT + k) = 0" "a \<notin> own V ip" "data_block L sb a" "used sb V a"
    and ind: "iaddrs ip ! NDIRECT = ind" "ind \<noteq> 0" and V: "length (V ind) = BSIZE"
  defines "V' \<equiv> V(ind := splice (V ind) (4 * k) (le32_bytes a))"
  shows "m < MAXFILE \<Longrightarrow> addr V' ip m = (if m = NDIRECT + k then a else addr V ip m)"
    "own V' ip = insert a (own V ip)" "ino_ok L sb V' ip" "b < sb_size sb \<Longrightarrow> used sb V' b = used sb V b"
proof -
  have dI: "data_block L sb ind" using ino_okD(1) [OF assms(1)] own_indirect [of ip V] ind by auto
  show us: "used sb V' b = used sb V b" if "b < sb_size sb" for b
    using dI that by (auto simp: used_def V'_def data_block_def)
  show ad: "addr V' ip m = (if m = NDIRECT + k then a else addr V ip m)" if "m < MAXFILE" for m
    using indirect_splice [OF V assms(2), of "m - NDIRECT" a] ind that by (auto simp: addr_def V'_def sizes)
  have len: "length (iaddrs ip) = NDIRECT + 1" using assms(1) by (simp add: ino_ok_def)
  have n: "NDIRECT + k < MAXFILE" using assms(2) by (simp add: sizes)
  have "used sb V' b" if "b \<in> own V ip" for b
    using us [of b] ino_okD [OF assms(1) that] by (simp add: data_block_def)
  moreover have "used sb V' a" using us [of a] assms(5,6) by (simp add: data_block_def)
  ultimately show "own V' ip = insert a (own V ip)" "ino_ok L sb V' ip"
    using ino_extend [OF assms(1) len refl n assms(3) ad assms(4,5)] by simp_all
qed

text \<open>
  An inode that has grown: the blocks it gets were free, and every block that is in use by others, as
  well as every block outside the bitmap and the data, is as before.
\<close>

definition extends :: "u32 set \<Rightarrow> superblock \<Rightarrow> (u32 \<Rightarrow> bytes) \<Rightarrow> inode \<Rightarrow> (u32 \<Rightarrow> bytes) \<Rightarrow> inode \<Rightarrow> bool" where
  "extends L sb V ip V' ip' \<longleftrightarrow> ino_ok L sb V' ip' \<and> meta_ok L sb V' \<and> (\<exists>xs. ip' = ip\<lparr>iaddrs := xs\<rparr>) \<and>
     (iaddrs ip ! NDIRECT \<noteq> 0 \<longrightarrow> iaddrs ip' ! NDIRECT = iaddrs ip ! NDIRECT) \<and>
     own V ip \<subseteq> own V' ip' \<and> own V' ip' \<subseteq> own V ip \<union> {b. data_block L sb b \<and> \<not> used sb V b} \<and>
     (\<forall>b < sb_size sb. used sb V' b \<longleftrightarrow> used sb V b \<or> b \<in> own V' ip') \<and>
     (\<forall>b. (data_block L sb b \<longrightarrow> used sb V b) \<and> b \<noteq> iaddrs ip ! NDIRECT \<and> (\<forall>c < sb_size sb. BBLOCK c sb \<noteq> b) \<longrightarrow> V' b = V b) \<and>
     (\<forall>m < MAXFILE. addr V ip m \<noteq> 0 \<longrightarrow> addr V' ip' m = addr V ip m)"

lemma extends_refl: "\<lbrakk>ino_ok L sb V ip; meta_ok L sb V\<rbrakk> \<Longrightarrow> extends L sb V ip V ip"
  by (auto simp: extends_def ino_ok_def intro!: exI [of _ "iaddrs ip"])

lemma extendsD:
  assumes "extends L sb V ip V' ip'"
  shows "ino_ok L sb V' ip'" "meta_ok L sb V'" "\<exists>xs. ip' = ip\<lparr>iaddrs := xs\<rparr>"
    "iaddrs ip ! NDIRECT \<noteq> 0 \<Longrightarrow> iaddrs ip' ! NDIRECT = iaddrs ip ! NDIRECT"
    "own V ip \<subseteq> own V' ip'" "own V' ip' \<subseteq> own V ip \<union> {b. data_block L sb b \<and> \<not> used sb V b}"
    "b < sb_size sb \<Longrightarrow> used sb V' b \<longleftrightarrow> used sb V b \<or> b \<in> own V' ip'"
    "\<lbrakk>data_block L sb b \<longrightarrow> used sb V b; b \<noteq> iaddrs ip ! NDIRECT; \<forall>c < sb_size sb. BBLOCK c sb \<noteq> b\<rbrakk> \<Longrightarrow> V' b = V b"
    "\<lbrakk>m < MAXFILE; addr V ip m \<noteq> 0\<rbrakk> \<Longrightarrow> addr V' ip' m = addr V ip m"
  using assms unfolding extends_def by blast+

lemma extends_trans:
  assumes 1: "extends L sb V ip V1 ip1" and 2: "extends L sb V1 ip1 V2 ip2"
  shows "extends L sb V ip V2 ip2"
  unfolding extends_def
proof (intro conjI allI impI)
  note d1 = extendsD [OF 1] and d2 = extendsD [OF 2]
  have us: "used sb V1 b" if "b < sb_size sb" "used sb V b" for b using d1(7) that by blast
  show "ino_ok L sb V2 ip2" "meta_ok L sb V2" by (rule d2)+
  show "\<exists>xs. ip2 = ip\<lparr>iaddrs := xs\<rparr>" using d1(3) d2(3) by auto
  show "iaddrs ip2 ! NDIRECT = iaddrs ip ! NDIRECT" if "iaddrs ip ! NDIRECT \<noteq> 0"
    using that d1(4) d2(4) by simp
  show "own V ip \<subseteq> own V2 ip2" using d1(5) d2(5) by blast
  show "own V2 ip2 \<subseteq> own V ip \<union> {b. data_block L sb b \<and> \<not> used sb V b}"
    using d1(6) d2(6) us by (auto simp: data_block_def)
  show "used sb V2 b \<longleftrightarrow> used sb V b \<or> b \<in> own V2 ip2" if "b < sb_size sb" for b
    using d1(5) d1(7) [OF that] d2(5) d2(7) [OF that] by blast
  show "V2 b = V b" if b: "(data_block L sb b \<longrightarrow> used sb V b) \<and> b \<noteq> iaddrs ip ! NDIRECT \<and> (\<forall>c < sb_size sb. BBLOCK c sb \<noteq> b)" for b
  proof -
    have "V1 b = V b" using d1(8) b by blast
    moreover have "data_block L sb b \<longrightarrow> used sb V1 b" using b us [of b] by (auto simp: data_block_def)
    moreover have "b \<noteq> iaddrs ip1 ! NDIRECT"
    proof
      assume e: "b = iaddrs ip1 ! NDIRECT"
      have z: "iaddrs ip ! NDIRECT = 0" using e b d1(4) by auto
      then have "b \<noteq> 0" using b by auto
      then have "b \<in> own V1 ip1" using own_indirect [of ip1 V1] e by simp
      then have "b \<in> own V ip" using d1(6) b by auto
      then obtain m where m: "m < MAXFILE" "addr V ip m = b" using z by (auto simp: own_def)
      then have "addr V1 ip1 m = b" using d1(9) \<open>b \<noteq> 0\<close> by simp
      then show False using d1(1) m(1) e \<open>b \<noteq> 0\<close> unfolding ino_ok_def by metis
    qed
    ultimately show ?thesis using d2(8) b by simp
  qed
  show "addr V2 ip2 m = addr V ip m" if "m < MAXFILE" "addr V ip m \<noteq> 0" for m
    using d2(9) [OF that(1)] d1(9) [OF that] that(2) by simp
qed

lemma extends_direct:
  assumes "ino_ok L sb V ip" "meta_ok L sb V" "\<And>b. length (V b) = BSIZE" "a < sb_size sb" "\<not> used sb V a"
    "n < NDIRECT" "addr V ip n = 0"
  defines "V' \<equiv> alloc_view sb a V" and "ip' \<equiv> ip\<lparr>iaddrs := (iaddrs ip)[n := a]\<rparr>"
  shows "extends L sb V ip V' ip'" "addr V' ip' m = (if m = n then a else addr V ip m)" "V' a = replicate BSIZE 0"
proof -
  note f = alloc_facts [OF assms(2-5), folded V'_def] and i = alloc_ino [OF assms(2-5,1), folded V'_def]
  have "used sb V' a" using f(5) [OF assms(4)] by simp
  moreover have "addr V' ip n = 0" "a \<notin> own V' ip" using i assms(7) by simp_all
  ultimately have d: "addr V' ip' m = (if m = n then a else addr V' ip m)" "own V' ip' = insert a (own V' ip)" "ino_ok L sb V' ip'" for m
    using set_direct [OF i(4) assms(6) _ _ f(1)] unfolding ip'_def by blast+
  show ad: "addr V' ip' m = (if m = n then a else addr V ip m)" for m using d(1) i(2) by simp
  show "V' a = replicate BSIZE 0" by (rule f(2))
  show "extends L sb V ip V' ip'"
    unfolding extends_def
  proof (intro conjI allI impI)
    show "\<exists>xs. ip' = ip\<lparr>iaddrs := xs\<rparr>" by (auto simp: ip'_def)
    show "used sb V' b \<longleftrightarrow> used sb V b \<or> b \<in> own V' ip'" if "b < sb_size sb" for b
      using f(5) [OF that] d(2) i(3) ino_okD [OF assms(1)] by auto
    show "V' b = V b" if "(data_block L sb b \<longrightarrow> used sb V b) \<and> b \<noteq> iaddrs ip ! NDIRECT \<and> (\<forall>c < sb_size sb. BBLOCK c sb \<noteq> b)" for b
      using that assms(4,5) f(1) by (intro f(3)) auto
    show "addr V' ip' m = addr V ip m" if "m < MAXFILE" "addr V ip m \<noteq> 0" for m using ad that assms(7) by auto
  qed (use d i f assms in \<open>auto simp: ip'_def\<close>)
qed

lemma extends_indirect:
  assumes "ino_ok L sb V ip" "meta_ok L sb V" "\<And>b. length (V b) = BSIZE" "a < sb_size sb" "\<not> used sb V a"
    "iaddrs ip ! NDIRECT = 0"
  defines "V' \<equiv> alloc_view sb a V" and "ip' \<equiv> ip\<lparr>iaddrs := (iaddrs ip)[NDIRECT := a]\<rparr>"
  shows "extends L sb V ip V' ip'" "m < MAXFILE \<Longrightarrow> addr V' ip' m = addr V ip m"
proof -
  note f = alloc_facts [OF assms(2-5), folded V'_def] and i = alloc_ino [OF assms(2-5,1), folded V'_def]
  have "used sb V' a" using f(5) [OF assms(4)] by simp
  moreover have "a \<notin> own V' ip" using i by simp
  ultimately have d: "m < MAXFILE \<Longrightarrow> addr V' ip' m = addr V' ip m" "own V' ip' = insert a (own V' ip)" "ino_ok L sb V' ip'" for m
    using set_indirect [OF i(4) assms(6) _ f(1) _ f(2)] unfolding ip'_def by blast+
  show ad: "m < MAXFILE \<Longrightarrow> addr V' ip' m = addr V ip m" for m using d(1) i(2) by simp
  show "extends L sb V ip V' ip'"
    unfolding extends_def
  proof (intro conjI allI impI)
    show "\<exists>xs. ip' = ip\<lparr>iaddrs := xs\<rparr>" by (auto simp: ip'_def)
    show "used sb V' b \<longleftrightarrow> used sb V b \<or> b \<in> own V' ip'" if "b < sb_size sb" for b
      using f(5) [OF that] d(2) i(3) ino_okD [OF assms(1)] by auto
    show "V' b = V b" if "(data_block L sb b \<longrightarrow> used sb V b) \<and> b \<noteq> iaddrs ip ! NDIRECT \<and> (\<forall>c < sb_size sb. BBLOCK c sb \<noteq> b)" for b
      using that assms(4,5) f(1) by (intro f(3)) auto
    show "addr V' ip' m = addr V ip m" if "m < MAXFILE" "addr V ip m \<noteq> 0" for m using ad that by auto
  qed (use d i f assms in \<open>auto simp: ip'_def\<close>)
qed

lemma extends_entry:
  assumes "ino_ok L sb V ip" "meta_ok L sb V" "\<And>b. length (V b) = BSIZE" "a < sb_size sb" "\<not> used sb V a"
    "k < NINDIRECT" "addr V ip (NDIRECT + k) = 0" "iaddrs ip ! NDIRECT = ind" "ind \<noteq> 0"
  defines "V1 \<equiv> alloc_view sb a V"
  defines "V' \<equiv> V1(ind := splice (V1 ind) (4 * k) (le32_bytes a))"
  shows "extends L sb V ip V' ip" "m < MAXFILE \<Longrightarrow> addr V' ip m = (if m = NDIRECT + k then a else addr V ip m)"
    "V' a = replicate BSIZE 0" "V1 ind = V ind" "a \<noteq> ind"
proof -
  note f = alloc_facts [OF assms(2-5), folded V1_def] and i = alloc_ino [OF assms(2-5,1), folded V1_def]
  have io: "ind \<in> own V ip" using own_indirect [of ip V] assms(8,9) by simp
  show ai: "a \<noteq> ind" using i(1) io by auto
  show "V1 ind = V ind" using f(4) [of ind] ino_okD [OF assms(1) io] ai by auto
  have us: "used sb V1 a" using f(5) [OF assms(4)] by simp
  have z: "addr V1 ip (NDIRECT + k) = 0" "a \<notin> own V1 ip" using i assms(7) by simp_all
  note e = set_entry [OF i(4) assms(6) z f(1) us assms(8,9) f(6), folded V'_def]
  show ad: "m < MAXFILE \<Longrightarrow> addr V' ip m = (if m = NDIRECT + k then a else addr V ip m)" for m using e(1) i(2) by simp
  show "V' a = replicate BSIZE 0" using f(2) ai by (simp add: V'_def)
  show "extends L sb V ip V' ip"
    unfolding extends_def
  proof (intro conjI allI impI)
    show "\<exists>xs. ip = ip\<lparr>iaddrs := xs\<rparr>" by (rule exI [of _ "iaddrs ip"]) simp
    show "used sb V' b \<longleftrightarrow> used sb V b \<or> b \<in> own V' ip" if "b < sb_size sb" for b
      using e(4) [OF that] f(5) [OF that] e(2) i(3) ino_okD [OF assms(1)] by auto
    show "V' b = V b" if "(data_block L sb b \<longrightarrow> used sb V b) \<and> b \<noteq> iaddrs ip ! NDIRECT \<and> (\<forall>c < sb_size sb. BBLOCK c sb \<noteq> b)" for b
    proof -
      have "V' b = V1 b" using that assms(8) by (simp add: V'_def)
      also have "\<dots> = V b" using that assms(4,5) f(1) by (intro f(3)) auto
      finally show ?thesis .
    qed
    show "addr V' ip m = addr V ip m" if "m < MAXFILE" "addr V ip m \<noteq> 0" for m using ad that assms(7) by auto
    show "meta_ok L sb V'" using f(7) e(4) by (simp add: meta_ok_def)
  qed (use e i f assms in auto)
qed

section \<open>Mapping a block of a file\<close>

context block_store
begin

text \<open>Room for \<open>k\<close> more blocks in the log.\<close>

definition spare :: "'s \<Rightarrow> nat \<Rightarrow> bool" where
  "spare s k \<longleftrightarrow> card (logged s) + k \<le> lim"

lemma spare_mono: "\<lbrakk>spare s k; j \<le> k\<rbrakk> \<Longrightarrow> spare s j"
  by (simp add: spare_def)

lemma spare_room: "\<lbrakk>spare s k; inv s; finite B; card B \<le> k; B \<inter> log_blocks = {}\<rbrakk> \<Longrightarrow> room s B"
  using card_Un_le [of "logged s" B] by (simp add: spare_def room_def)

lemma spare_evolves: "\<lbrakk>evolves s V B s'; spare s (j + k); finite B; card B \<le> j\<rbrakk> \<Longrightarrow> spare s' k"
  using card_Un_le [of "logged s" B] by (simp add: spare_def evolves_def)

lemma meta_bitmap: "meta_ok log_blocks sb V \<Longrightarrow> bitmap_ok sb V"
  by (auto simp: meta_ok_def bitmap_ok_def data_block_def)

lemma balloc_fs:
  assumes "inv s" "apart sb s" "meta_ok log_blocks sb (view s)" "spare s 2"
  shows "\<exists>a s'. balloc api sb dev s = Some (a, s') \<and>
    (if a = 0 then evolves s (view s) {} s' \<and> (\<forall>b < sb_size sb. used sb (view s) b)
     else a < sb_size sb \<and> \<not> used sb (view s) a \<and> evolves s (alloc_view sb a (view s)) {BBLOCK a sb, a} s')"
proof -
  have "room s {BBLOCK b sb, b}" if "b < sb_size sb" "\<not> used sb (view s) b" for b
  proof (rule spare_room [OF assms(4,1)])
    have "data_block log_blocks sb b" using assms(3) that by (auto simp: meta_ok_def)
    then show "{BBLOCK b sb, b} \<inter> log_blocks = {}" using assms(3) that(1) by (auto simp: meta_ok_def data_block_def)
  qed (simp_all add: card_insert_if)
  then show ?thesis
    using balloc_spec [OF assms(1,2) meta_bitmap [OF assms(3)]] by (auto split: if_splits)
qed

lemma apart_empty: "held s = Map.empty \<Longrightarrow> apart sb s"
  by (simp add: apart_def few_def)

lemma apart_one: "\<lbrakk>held s = [i \<mapsto> c]; \<forall>b < sb_size sb. BBLOCK b sb \<noteq> c; used sb (view s) c\<rbrakk> \<Longrightarrow> apart sb s"
  by (auto simp: apart_def few_def)

text \<open>The state of the file system with the inode of slot \<open>i\<close> and the store replaced.\<close>

definition with_ino :: "nat \<Rightarrow> inode \<Rightarrow> 's \<Rightarrow> 's fs \<Rightarrow> 's fs" where
  "with_ino i ip s f = f\<lparr>fblk := s, itab := (itab f)[i := ip]\<rparr>"

lemma with_ino_simps [simp]:
  "fblk (with_ino i ip s f) = s" "fsb (with_ino i ip s f) = fsb f" "fcwd (with_ino i ip s f) = fcwd f"
  "length (itab (with_ino i ip s f)) = length (itab f)"
  "i < length (itab f) \<Longrightarrow> itab (with_ino i ip s f) ! i = ip"
  "j \<noteq> i \<Longrightarrow> itab (with_ino i ip s f) ! j = itab f ! j"
  "with_ino i ip' s' (with_ino i ip s f) = with_ino i ip' s' f"
  by (simp_all add: with_ino_def)

lemma with_ino_upd:
  "i < length (itab f) \<Longrightarrow> upd_ino i g (f\<lparr>fblk := s\<rparr>) = with_ino i (g (itab f ! i)) s f"
  "i < length (itab f) \<Longrightarrow> upd_ino i g f = with_ino i (g (itab f ! i)) (fblk f) f"
  "f\<lparr>fblk := s\<rparr> = with_ino i (itab f ! i) s f"
  by (simp_all add: with_ino_def upd_ino_def)

text \<open>A quiet file system: nothing held, and the inode \<open>i\<close> in order.\<close>

definition file_ok :: "nat \<Rightarrow> 's fs \<Rightarrow> bool" where
  "file_ok i f \<longleftrightarrow> inv (fblk f) \<and> held (fblk f) = Map.empty \<and> i < length (itab f) \<and> idev (itab f ! i) = dev \<and>
     ino_ok log_blocks (fsb f) (view (fblk f)) (itab f ! i) \<and> meta_ok log_blocks (fsb f) (view (fblk f))"

text \<open>A step of an operation on inode \<open>i\<close> that logs at most \<open>k\<close> blocks.\<close>

definition grows_to :: "nat \<Rightarrow> nat \<Rightarrow> 's fs \<Rightarrow> 's fs \<Rightarrow> bool" where
  "grows_to i k f f' \<longleftrightarrow> (\<exists>ip' s' V' B. f' = with_ino i ip' s' f \<and> evolves (fblk f) V' B s' \<and> finite B \<and> card B \<le> k \<and>
     extends log_blocks (fsb f) (view (fblk f)) (itab f ! i) V' ip')"

lemma grows_toI:
  assumes "f' = with_ino i ip' s' f" "evolves (fblk f) V' B s'" "finite B" "card B \<le> k"
    "extends log_blocks (fsb f) (view (fblk f)) (itab f ! i) V' ip'"
  shows "grows_to i k f f'"
  using assms unfolding grows_to_def by blast

lemma grows_toD:
  assumes "grows_to i k f f'" "file_ok i f"
  shows "file_ok i f'" "extends log_blocks (fsb f) (view (fblk f)) (itab f ! i) (view (fblk f')) (itab f' ! i)"
    "fsb f' = fsb f" "fcwd f' = fcwd f" "length (itab f') = length (itab f)" "j \<noteq> i \<Longrightarrow> itab f' ! j = itab f ! j"
    "\<exists>B. evolves (fblk f) (view (fblk f')) B (fblk f') \<and> finite B \<and> card B \<le> k"
proof -
  obtain ip' s' V' B where g: "f' = with_ino i ip' s' f" "evolves (fblk f) V' B s'" "finite B" "card B \<le> k"
    "extends log_blocks (fsb f) (view (fblk f)) (itab f ! i) V' ip'"
    using assms(1) unfolding grows_to_def by blast
  have i: "i < length (itab f)" using assms(2) by (simp add: file_ok_def)
  have v: "view s' = V'" using g(2) by (simp add: evolves_def)
  show "extends log_blocks (fsb f) (view (fblk f)) (itab f ! i) (view (fblk f')) (itab f' ! i)"
    "fsb f' = fsb f" "fcwd f' = fcwd f" "length (itab f') = length (itab f)" "j \<noteq> i \<Longrightarrow> itab f' ! j = itab f ! j"
    "\<exists>B. evolves (fblk f) (view (fblk f')) B (fblk f') \<and> finite B \<and> card B \<le> k"
    using g i v by auto
  note e = extendsD [OF g(5)]
  obtain xs where "ip' = (itab f ! i)\<lparr>iaddrs := xs\<rparr>" using e(3) by blast
  then show "file_ok i f'"
    using assms(2) g(1,2) e(1,2) v by (simp add: file_ok_def evolves_def)
qed

lemma grows_to_refl: "file_ok i f \<Longrightarrow> evolves (fblk f) (view (fblk f)) {} s \<Longrightarrow> grows_to i 0 f (f\<lparr>fblk := s\<rparr>)"
  by (rule grows_toI [where ip' = "itab f ! i"]) (auto simp: file_ok_def with_ino_def intro: extends_refl)

lemma grows_to_trans:
  assumes "file_ok i f" "grows_to i j f f1" "grows_to i k f1 f2"
  shows "grows_to i (j + k) f f2"
proof -
  note 1 = grows_toD [OF assms(2,1)]
  obtain ip1 s1 where f1: "f1 = with_ino i ip1 s1 f" using assms(2) unfolding grows_to_def by blast
  obtain ip2 s2 V2 B2 where f2: "f2 = with_ino i ip2 s2 f1" "evolves (fblk f1) V2 B2 s2" "finite B2" "card B2 \<le> k"
    "extends log_blocks (fsb f1) (view (fblk f1)) (itab f1 ! i) V2 ip2"
    using assms(3) unfolding grows_to_def by blast
  obtain B where B: "evolves (fblk f) (view (fblk f1)) B (fblk f1)" "finite B" "card B \<le> j" using 1(7) by blast
  show ?thesis
  proof (rule grows_toI)
    show "f2 = with_ino i ip2 s2 f" using f1 f2(1) by simp
    show "evolves (fblk f) V2 (B \<union> B2) s2" by (rule evolves_trans [OF B(1) f2(2) refl])
    show "card (B \<union> B2) \<le> j + k" using card_Un_le [of B B2] B(3) f2(4) by simp
    show "extends log_blocks (fsb f) (view (fblk f)) (itab f ! i) V2 ip2"
      using extends_trans [OF 1(2)] f2(5) 1(3) by simp
  qed (use B f2 in simp)
qed

lemma spare_grows: "\<lbrakk>grows_to i j f f'; file_ok i f; spare (fblk f) (j + k)\<rbrakk> \<Longrightarrow> spare (fblk f') k"
  using grows_toD(7) spare_evolves by blast

lemma grows_to_mono: "\<lbrakk>grows_to i j f f'; j \<le> k\<rbrakk> \<Longrightarrow> grows_to i k f f'"
  unfolding grows_to_def using le_trans by blast

definition maps_block :: "nat \<Rightarrow> 's fs \<Rightarrow> nat \<Rightarrow> u32 \<Rightarrow> 's fs \<Rightarrow> bool" where
  "maps_block i f n a f' \<longleftrightarrow>
     (\<forall>m < MAXFILE. addr (view (fblk f')) (itab f' ! i) m = (if m = n then a else addr (view (fblk f)) (itab f ! i) m)) \<and>
     (a \<noteq> 0 \<and> addr (view (fblk f)) (itab f ! i) n = 0 \<longrightarrow>
        a < sb_size (fsb f) \<and> \<not> used (fsb f) (view (fblk f)) a \<and> view (fblk f') a = replicate BSIZE 0) \<and>
     (a = 0 \<longrightarrow> (\<forall>b < sb_size (fsb f). used (fsb f) (view (fblk f')) b))"

lemma bmap_direct:
  assumes f: "file_ok i f" and bn: "unat bn < NDIRECT" and sp: "spare (fblk f) 2"
  shows "\<exists>a f'. bmap api i bn f = Some (a, f') \<and> grows_to i 2 f f' \<and> maps_block i f (unat bn) a f'"
proof -
  let ?ip = "itab f ! i" and ?V = "view (fblk f)"
  have ok: "inv (fblk f)" "held (fblk f) = Map.empty" "i < length (itab f)" "idev ?ip = dev"
    "ino_ok log_blocks (fsb f) ?V ?ip" "meta_ok log_blocks (fsb f) ?V" using f by (simp_all add: file_ok_def)
  have ad: "addr ?V ?ip (unat bn) = iaddrs ?ip ! unat bn" using bn by (simp add: addr_def)
  show ?thesis
  proof (cases "iaddrs ?ip ! unat bn = 0")
    case False
    then have "bmap api i bn f = Some (iaddrs ?ip ! unat bn, f)" using bn by (simp add: bmap_def Let_def)
    moreover have "grows_to i 2 f f"
      using grows_to_mono [OF grows_to_refl [OF f evolves_refl [OF ok(1)]]] by simp
    ultimately show ?thesis using False ad by (auto simp: maps_block_def)
  next
    case True
    obtain a s' where a: "balloc api (fsb f) dev (fblk f) = Some (a, s')"
      "if a = 0 then evolves (fblk f) ?V {} s' \<and> (\<forall>b < sb_size (fsb f). used (fsb f) ?V b)
       else a < sb_size (fsb f) \<and> \<not> used (fsb f) ?V a \<and> evolves (fblk f) (alloc_view (fsb f) a ?V) {BBLOCK a (fsb f), a} s'"
      using balloc_fs [OF ok(1) apart_empty [OF ok(2)] ok(6) sp] by blast
    show ?thesis
    proof (cases "a = 0")
      case z: True
      have "bmap api i bn f = Some (0, f\<lparr>fblk := s'\<rparr>)"
        using bn True a(1) z ok(4) by (simp add: bmap_def Let_def)
      moreover have "grows_to i 2 f (f\<lparr>fblk := s'\<rparr>)"
        using grows_to_mono [OF grows_to_refl [OF f]] a(2) z by simp
      moreover have "maps_block i f (unat bn) 0 (f\<lparr>fblk := s'\<rparr>)"
        using a(2) z ad True by (auto simp: maps_block_def evolves_def)
      ultimately show ?thesis by blast
    next
      case nz: False
      define ip' where "ip' = ?ip\<lparr>iaddrs := (iaddrs ?ip)[unat bn := a]\<rparr>"
      have a': "a < sb_size (fsb f)" "\<not> used (fsb f) ?V a" "evolves (fblk f) (alloc_view (fsb f) a ?V) {BBLOCK a (fsb f), a} s'"
        using a(2) nz by auto
      note e = extends_direct [OF ok(5,6) view_length [OF ok(1)] a'(1,2) bn, folded ip'_def]
      have run: "bmap api i bn f = Some (a, with_ino i ip' s' f)"
        using bn True a(1) nz ok(3,4) with_ino_upd(1) [where s = s'] by (simp add: bmap_def Let_def ip'_def)
      have z: "addr ?V ?ip (unat bn) = 0" using ad True by simp
      have g: "grows_to i 2 f (with_ino i ip' s' f)"
        by (rule grows_toI [OF refl a'(3)]) (use e(1) [OF z] in \<open>auto simp: card_insert_if\<close>)
      have "view s' = alloc_view (fsb f) a ?V" using a'(3) by (simp add: evolves_def)
      then have "maps_block i f (unat bn) a (with_ino i ip' s' f)"
        using e(2,3) [OF z] ok(3) a' nz by (auto simp: maps_block_def)
      then show ?thesis using run g by blast
    qed
  qed
qed

text \<open>The first part of the indirect case: the block of addresses, allocated if necessary.\<close>

lemma indirect_block:
  assumes f: "file_ok i f" and sp: "spare (fblk f) 2"
  shows "\<exists>ind f1. (if iaddrs (itab f ! i) ! NDIRECT \<noteq> 0 then Some (iaddrs (itab f ! i) ! NDIRECT, f)
       else do {
         (a, s) \<leftarrow> balloc api (fsb f) (idev (itab f ! i)) (fblk f);
         if a = 0 then Some (0, f\<lparr>fblk := s\<rparr>)
         else Some (a, upd_ino i (\<lambda>ip. ip\<lparr>iaddrs := (iaddrs ip)[NDIRECT := a]\<rparr>) (f\<lparr>fblk := s\<rparr>)) }) = Some (ind, f1) \<and>
     grows_to i 2 f f1 \<and> ind = iaddrs (itab f1 ! i) ! NDIRECT \<and>
     (ind = 0 \<longrightarrow> (\<forall>b < sb_size (fsb f). used (fsb f) (view (fblk f1)) b)) \<and>
     (\<forall>m < MAXFILE. addr (view (fblk f1)) (itab f1 ! i) m = addr (view (fblk f)) (itab f ! i) m)"
proof -
  let ?ip = "itab f ! i" and ?V = "view (fblk f)"
  have ok: "inv (fblk f)" "held (fblk f) = Map.empty" "i < length (itab f)" "idev ?ip = dev"
    "ino_ok log_blocks (fsb f) ?V ?ip" "meta_ok log_blocks (fsb f) ?V" using f by (simp_all add: file_ok_def)
  show ?thesis
  proof (cases "iaddrs ?ip ! NDIRECT = 0")
    case False
    have "grows_to i 2 f f"
      using grows_to_mono [OF grows_to_refl [OF f evolves_refl [OF ok(1)]]] by simp
    then show ?thesis using False by auto
  next
    case True
    obtain a s' where a: "balloc api (fsb f) dev (fblk f) = Some (a, s')"
      "if a = 0 then evolves (fblk f) ?V {} s' \<and> (\<forall>b < sb_size (fsb f). used (fsb f) ?V b)
       else a < sb_size (fsb f) \<and> \<not> used (fsb f) ?V a \<and> evolves (fblk f) (alloc_view (fsb f) a ?V) {BBLOCK a (fsb f), a} s'"
      using balloc_fs [OF ok(1) apart_empty [OF ok(2)] ok(6) sp] by blast
    show ?thesis
    proof (cases "a = 0")
      case z: True
      then have e: "evolves (fblk f) ?V {} s'" using a(2) by simp
      have "grows_to i 2 f (f\<lparr>fblk := s'\<rparr>)" using grows_to_mono [OF grows_to_refl [OF f e]] by simp
      moreover have "view s' = ?V" using e by (simp add: evolves_def)
      ultimately show ?thesis
        using True a z ok(4) by (intro exI [of _ 0] exI [of _ "f\<lparr>fblk := s'\<rparr>"]) simp
    next
      case nz: False
      define ip' where "ip' = ?ip\<lparr>iaddrs := (iaddrs ?ip)[NDIRECT := a]\<rparr>"
      have a': "a < sb_size (fsb f)" "\<not> used (fsb f) ?V a" "evolves (fblk f) (alloc_view (fsb f) a ?V) {BBLOCK a (fsb f), a} s'"
        using a(2) nz by auto
      note e = extends_indirect [OF ok(5,6) view_length [OF ok(1)] a'(1,2) True, folded ip'_def]
      have g: "grows_to i 2 f (with_ino i ip' s' f)"
        by (rule grows_toI [OF refl a'(3)]) (use e(1) in \<open>auto simp: card_insert_if\<close>)
      have "view s' = alloc_view (fsb f) a ?V" using a'(3) by (simp add: evolves_def)
      moreover have "length (iaddrs ?ip) = NDIRECT + 1" using ok(5) by (simp add: ino_ok_def)
      moreover have "upd_ino i (\<lambda>ip. ip\<lparr>iaddrs := (iaddrs ip)[NDIRECT := a]\<rparr>) (f\<lparr>fblk := s'\<rparr>) = with_ino i ip' s' f"
        using with_ino_upd(1) [OF ok(3), where s = s'] by (simp add: ip'_def)
      ultimately show ?thesis
        using True a(1) nz ok(3,4) g e(2)
        by (intro exI [of _ a] exI [of _ "with_ino i ip' s' f"]) (simp add: ip'_def)
    qed
  qed
qed

lemma release_clean:
  assumes "inv s1" "held s1 i = Some b" "view s1 b = view s b" "disk s1 = disk s" "inv s" "b \<notin> ran (held s)" "logged s \<subseteq> logged s1"
  shows "\<exists>s2. blk_brelse api i s1 = Some s2 \<and> inv s2 \<and> view s2 = view s1 \<and> disk s2 = disk s1 \<and>
    held s2 = (held s1)(i := None) \<and> logged s2 = logged s1 \<and> me s2 = me s1"
proof (rule brelse_law [OF assms(1,2)])
  show "b \<in> logged s1 \<or> view s1 b = disk s1 b" using clean_law [OF assms(5) _ assms(6)] assms by auto
qed

lemma bmap_entry:
  assumes f: "file_ok i f" and k: "k < NINDIRECT" and ind: "iaddrs (itab f ! i) ! NDIRECT = ind" "ind \<noteq> 0"
    and sp: "spare (fblk f) 3"
  shows "\<exists>a f'. (do {
           (bp, s1) \<leftarrow> blk_bread api (idev (itab f ! i)) ind (fblk f);
           let d = blk_data api bp s1;
           if indirect_at d k \<noteq> 0 then do {
             s2 \<leftarrow> blk_brelse api bp s1;
             Some (indirect_at d k, f\<lparr>fblk := s2\<rparr>) }
           else do {
             (a, s2) \<leftarrow> balloc api (fsb f) (idev (itab f ! i)) s1;
             s3 \<leftarrow> (if a \<noteq> 0 then blk_log_write api bp
                       (blk_set api bp (splice (blk_data api bp s2) (4 * k) (le32_bytes a)) s2)
                    else Some s2);
             s4 \<leftarrow> blk_brelse api bp s3;
             Some (a, f\<lparr>fblk := s4\<rparr>) } }) = Some (a, f') \<and>
    grows_to i 3 f f' \<and> maps_block i f (NDIRECT + k) a f'"
proof -
  let ?ip = "itab f ! i" and ?V = "view (fblk f)" and ?s = "fblk f"
  have ok: "inv ?s" "held ?s = Map.empty" "i < length (itab f)" "idev ?ip = dev"
    "ino_ok log_blocks (fsb f) ?V ?ip" "meta_ok log_blocks (fsb f) ?V" using f by (simp_all add: file_ok_def)
  have io: "ind \<in> own ?V ?ip" using own_indirect [of ?ip ?V] ind by simp
  have di: "data_block log_blocks (fsb f) ind" "used (fsb f) ?V ind" using ino_okD [OF ok(5) io] by simp_all
  have ad: "addr ?V ?ip (NDIRECT + k) = indirect_at (?V ind) k" using ind by (simp add: addr_def)
  have nr: "ind \<notin> ran (held ?s)" "few ?s" using ok(2) by (simp_all add: few_def)
  obtain bp s1 s2 where 1: "blk_bread api dev ind ?s = Some (bp, s1)" "blk_data api bp s1 = ?V ind"
    "blk_brelse api bp s1 = Some s2" "evolves ?s ?V {} s2" "inv s1" "view s1 = ?V" "disk s1 = disk ?s"
    "held s1 = [bp \<mapsto> ind]" "logged s1 = logged ?s" "me s1 = me ?s"
    using read_block [OF ok(1) nr(2,1)] ok(2) by auto
  show ?thesis
  proof (cases "indirect_at (?V ind) k = 0")
    case False
    have "grows_to i 3 f (f\<lparr>fblk := s2\<rparr>)" using grows_to_mono [OF grows_to_refl [OF f 1(4)]] by simp
    moreover have "maps_block i f (NDIRECT + k) (indirect_at (?V ind) k) (f\<lparr>fblk := s2\<rparr>)"
      using 1(4) ad False by (auto simp: maps_block_def evolves_def)
    ultimately show ?thesis using 1 ok(4) False by simp
  next
    case z: True
    have ap: "apart (fsb f) s1" using di 1(6) by (intro apart_one [OF 1(8)]) (auto simp: data_block_def)
    have mo: "meta_ok log_blocks (fsb f) (view s1)" "spare s1 2" using ok(6) 1(6,9) sp by (simp_all add: spare_def)
    obtain a t where a: "balloc api (fsb f) dev s1 = Some (a, t)"
      "if a = 0 then evolves s1 ?V {} t \<and> (\<forall>b < sb_size (fsb f). used (fsb f) ?V b)
       else a < sb_size (fsb f) \<and> \<not> used (fsb f) ?V a \<and> evolves s1 (alloc_view (fsb f) a ?V) {BBLOCK a (fsb f), a} t"
      using balloc_fs [OF 1(5) ap mo, unfolded 1(6)] by (elim exE conjE) (rule that)
    show ?thesis
    proof (cases "a = 0")
      case True
      then have e: "evolves s1 ?V {} t" using a(2) by simp
      have "\<exists>t'. blk_brelse api bp t = Some t' \<and> inv t' \<and> view t' = view t \<and> disk t' = disk t \<and>
          held t' = (held t)(bp := None) \<and> logged t' = logged t \<and> me t' = me t"
        by (rule release_clean [where s = ?s]) (use e 1 ok nr in \<open>auto simp: evolves_def\<close>)
      then obtain t' where t': "blk_brelse api bp t = Some t'" "evolves ?s ?V {} t'"
        using e 1 ok(2) by (auto simp: evolves_def)
      have "grows_to i 3 f (f\<lparr>fblk := t'\<rparr>)" using grows_to_mono [OF grows_to_refl [OF f t'(2)]] by simp
      moreover have "maps_block i f (NDIRECT + k) 0 (f\<lparr>fblk := t'\<rparr>)"
        using t'(2) ad z a(2) True by (auto simp: maps_block_def evolves_def)
      ultimately show ?thesis using 1(1,2) a(1) True ok(4) z t'(1) by simp
    next
      case False
      then have a': "a < sb_size (fsb f)" "\<not> used (fsb f) ?V a" "evolves s1 (alloc_view (fsb f) a ?V) {BBLOCK a (fsb f), a} t"
        using a(2) by auto
      have adz: "addr ?V ?ip (NDIRECT + k) = 0" using ad z by simp
      note e = extends_entry [OF ok(5,6) view_length [OF ok(1)] a'(1,2) k adz ind]
      let ?V1 = "alloc_view (fsb f) a ?V" and ?x = "splice (?V ind) (4 * k) (le32_bytes a)"
      have t: "inv t" "view t = ?V1" "held t = [bp \<mapsto> ind]" "disk t = disk ?s" "logged t = logged ?s \<union> {BBLOCK a (fsb f), a}" "me t = me ?s"
        using a'(3) 1 by (simp_all add: evolves_def)
      have h: "held t bp = Some ind" using t(3) by simp
      have "card (insert ind (logged t)) \<le> card (logged ?s) + card {ind, BBLOCK a (fsb f), a}"
        unfolding t(5) using card_Un_le [of "logged ?s" "{ind, BBLOCK a (fsb f), a}"] by simp
      also have "card {ind, BBLOCK a (fsb f), a} \<le> 3" by (simp add: card_insert_if)
      finally have room: "card (insert ind (logged t)) \<le> lim" using sp by (simp add: spare_def)
      have lx: "length ?x = BSIZE" using view_length [OF ok(1)] k by (simp add: sizes)
      have nl: "ind \<notin> log_blocks" using di(1) by (simp add: data_block_def)
      have "\<exists>u v. blk_log_write api bp (blk_set api bp ?x t) = Some u \<and> blk_brelse api bp u = Some v \<and>
          inv v \<and> view v = (view t)(ind := ?x) \<and> disk v = disk t \<and> held v = (held t)(bp := None) \<and>
          logged v = insert ind (logged t) \<and> me v = me t"
        by (rule release_logged [OF t(1) h lx nl room])
      then obtain u v where uv: "blk_log_write api bp (blk_set api bp ?x t) = Some u" "blk_brelse api bp u = Some v"
        "evolves ?s (?V1(ind := ?x)) {ind, BBLOCK a (fsb f), a} v"
        using t ok(2) by (auto simp: evolves_def)
      have dt: "blk_data api bp t = ?V ind" using data_law [OF t(1) h] t(2) e(4) by simp
      have v: "view v = ?V1(ind := ?x)" using uv(3) by (simp add: evolves_def)
      have g: "grows_to i 3 f (f\<lparr>fblk := v\<rparr>)"
        by (rule grows_toI [OF with_ino_upd(3) uv(3)]) (use e(1,4) in \<open>auto simp: card_insert_if\<close>)
      have "maps_block i f (NDIRECT + k) a (f\<lparr>fblk := v\<rparr>)"
        using e(2-4) a'(1,2) False by (simp add: maps_block_def v)
      then show ?thesis using g 1(1,2) a(1) False ok(4) z uv(1,2) dt by simp
    qed
  qed
qed

lemma bmap_spec:
  assumes f: "file_ok i f" and bn: "unat bn < MAXFILE" and sp: "spare (fblk f) 5"
  shows "\<exists>a f'. bmap api i bn f = Some (a, f') \<and> grows_to i 5 f f' \<and> maps_block i f (unat bn) a f'"
proof (cases "unat bn < NDIRECT")
  case True
  then show ?thesis using bmap_direct [OF f True spare_mono [OF sp]] grows_to_mono [of i 2 f _ 5] by auto
next
  case False
  let ?k = "unat bn - NDIRECT"
  have k: "?k < NINDIRECT" "NDIRECT + ?k = unat bn" using False bn by (simp_all add: sizes)
  obtain ind f1 where 1: "(if iaddrs (itab f ! i) ! NDIRECT \<noteq> 0 then Some (iaddrs (itab f ! i) ! NDIRECT, f)
       else do {
         (a, s) \<leftarrow> balloc api (fsb f) (idev (itab f ! i)) (fblk f);
         if a = 0 then Some (0, f\<lparr>fblk := s\<rparr>)
         else Some (a, upd_ino i (\<lambda>ip. ip\<lparr>iaddrs := (iaddrs ip)[NDIRECT := a]\<rparr>) (f\<lparr>fblk := s\<rparr>)) }) = Some (ind, f1)"
     "grows_to i 2 f f1" "ind = iaddrs (itab f1 ! i) ! NDIRECT"
     "ind = 0 \<longrightarrow> (\<forall>b < sb_size (fsb f). used (fsb f) (view (fblk f1)) b)"
     "\<forall>m < MAXFILE. addr (view (fblk f1)) (itab f1 ! i) m = addr (view (fblk f)) (itab f ! i) m"
    using indirect_block [OF f spare_mono [OF sp]] by fastforce
  note g = grows_toD [OF 1(2) f]
  have dv: "idev (itab f1 ! i) = idev (itab f ! i)" using g(1) f by (simp add: file_ok_def)
  show ?thesis
  proof (cases "ind = 0")
    case True
    have "bmap api i bn f = Some (0, f1)" unfolding bmap_def Let_def using False k(1) 1(1) True by simp
    moreover have "maps_block i f (unat bn) 0 f1"
    proof -
      have "addr (view (fblk f1)) (itab f1 ! i) (unat bn) = 0" using False True 1(3) by (simp add: addr_def)
      then show ?thesis using 1(4,5) True bn by (simp add: maps_block_def)
    qed
    ultimately show ?thesis using grows_to_mono [OF 1(2), of 5] by auto
  next
    case nz: False
    have sp1: "spare (fblk f1) 3" by (rule spare_grows [OF 1(2) f]) (use sp in simp)
    obtain a f' where 2: "(do {
           (bp, s1) \<leftarrow> blk_bread api (idev (itab f1 ! i)) ind (fblk f1);
           let d = blk_data api bp s1;
           if indirect_at d ?k \<noteq> 0 then do {
             s2 \<leftarrow> blk_brelse api bp s1;
             Some (indirect_at d ?k, f1\<lparr>fblk := s2\<rparr>) }
           else do {
             (a, s2) \<leftarrow> balloc api (fsb f1) (idev (itab f1 ! i)) s1;
             s3 \<leftarrow> (if a \<noteq> 0 then blk_log_write api bp
                       (blk_set api bp (splice (blk_data api bp s2) (4 * ?k) (le32_bytes a)) s2)
                    else Some s2);
             s4 \<leftarrow> blk_brelse api bp s3;
             Some (a, f1\<lparr>fblk := s4\<rparr>) } }) = Some (a, f')" "grows_to i 3 f1 f'" "maps_block i f1 (unat bn) a f'"
      using bmap_entry [OF g(1) k(1) 1(3) [symmetric] nz sp1] k(2) by auto
    have "bmap api i bn f = Some (a, f')"
      unfolding bmap_def Let_def using False k(1) 1(1) nz 2(1) [unfolded dv g(3)] by (simp add: Let_def)
    moreover have "grows_to i 5 f f'" using grows_to_trans [OF f 1(2) 2(2)] by simp
    moreover have "maps_block i f (unat bn) a f'"
      unfolding maps_block_def
    proof (intro conjI allI impI)
      fix m assume m: "m < MAXFILE"
      show "addr (view (fblk f')) (itab f' ! i) m = (if m = unat bn then a else addr (view (fblk f)) (itab f ! i) m)"
        using 2(3) 1(5) m by (simp add: maps_block_def)
    next
      assume a: "a \<noteq> 0 \<and> addr (view (fblk f)) (itab f ! i) (unat bn) = 0"
      then have "addr (view (fblk f1)) (itab f1 ! i) (unat bn) = 0" using 1(5) bn by simp
      then have u: "a < sb_size (fsb f1)" "\<not> used (fsb f1) (view (fblk f1)) a" "view (fblk f') a = replicate BSIZE 0"
        using 2(3) a by (auto simp: maps_block_def)
      then show "a < sb_size (fsb f)" "view (fblk f') a = replicate BSIZE 0" using g(3) by simp_all
      show "\<not> used (fsb f) (view (fblk f)) a" using extendsD(7) [OF g(2), of a] u g(3) by simp
    next
      fix b assume "a = 0" "b < sb_size (fsb f)"
      then show "used (fsb f) (view (fblk f')) b" using 2(3) g(3) by (simp add: maps_block_def)
    qed
    ultimately show ?thesis by blast
  qed
qed

end

end
