(* ===== verification/X_Fs_Io.thy ===== *)
theory X_Fs_Io
  imports X_Fs_File
begin

text \<open>
  The bytes of a file under \<open>writei\<close> and \<open>readi\<close>.
\<close>

section \<open>Contents\<close>

definition byte :: "(u32 \<Rightarrow> bytes) \<Rightarrow> inode \<Rightarrow> nat \<Rightarrow> u8" where
  "byte V ip j = (let a = addr V ip (j div BSIZE) in if a = 0 then 0 else V a ! (j mod BSIZE))"

text \<open>Every byte below the size has a block.\<close>

definition dense :: "(u32 \<Rightarrow> bytes) \<Rightarrow> inode \<Rightarrow> bool" where
  "dense V ip \<longleftrightarrow> unat (isize ip) \<le> MAXFILE * BSIZE \<and> (\<forall>j < unat (isize ip). addr V ip (j div BSIZE) \<noteq> 0)"

text \<open>
  What a write does to the disk: as \<open>extends\<close>, but the blocks the inode has may change.
\<close>

definition overwrites :: "u32 set \<Rightarrow> superblock \<Rightarrow> (u32 \<Rightarrow> bytes) \<Rightarrow> inode \<Rightarrow> (u32 \<Rightarrow> bytes) \<Rightarrow> inode \<Rightarrow> bool" where
  "overwrites L sb V ip V' ip' \<longleftrightarrow> ino_ok L sb V' ip' \<and> meta_ok L sb V' \<and> (\<exists>xs. ip' = ip\<lparr>iaddrs := xs\<rparr>) \<and>
     own V ip \<subseteq> own V' ip' \<and> own V' ip' \<subseteq> own V ip \<union> {b. data_block L sb b \<and> \<not> used sb V b} \<and>
     (\<forall>b < sb_size sb. used sb V' b \<longleftrightarrow> used sb V b \<or> b \<in> own V' ip') \<and>
     (\<forall>b. (data_block L sb b \<longrightarrow> used sb V b) \<and> b \<notin> own V ip \<and> b \<noteq> 0 \<and> (\<forall>c < sb_size sb. BBLOCK c sb \<noteq> b) \<longrightarrow> V' b = V b) \<and>
     (\<forall>m < MAXFILE. addr V ip m \<noteq> 0 \<longrightarrow> addr V' ip' m = addr V ip m)"

lemma overwritesD:
  assumes "overwrites L sb V ip V' ip'"
  shows "ino_ok L sb V' ip'" "meta_ok L sb V'" "\<exists>xs. ip' = ip\<lparr>iaddrs := xs\<rparr>"
    "own V ip \<subseteq> own V' ip'" "own V' ip' \<subseteq> own V ip \<union> {b. data_block L sb b \<and> \<not> used sb V b}"
    "b < sb_size sb \<Longrightarrow> used sb V' b \<longleftrightarrow> used sb V b \<or> b \<in> own V' ip'"
    "\<lbrakk>data_block L sb b \<longrightarrow> used sb V b; b \<notin> own V ip; b \<noteq> 0; \<forall>c < sb_size sb. BBLOCK c sb \<noteq> b\<rbrakk> \<Longrightarrow> V' b = V b"
    "\<lbrakk>m < MAXFILE; addr V ip m \<noteq> 0\<rbrakk> \<Longrightarrow> addr V' ip' m = addr V ip m"
  using assms unfolding overwrites_def by blast+

lemma overwrites_refl: "\<lbrakk>ino_ok L sb V ip; meta_ok L sb V\<rbrakk> \<Longrightarrow> overwrites L sb V ip V ip"
  by (auto simp: overwrites_def ino_ok_def intro!: exI [of _ "iaddrs ip"])

lemma data_not_bitmap: "data_block L sb b \<Longrightarrow> \<forall>c < sb_size sb. BBLOCK c sb \<noteq> b"
  by (simp add: data_block_def)

lemma extends_overwrites:
  assumes "extends L sb V ip V' ip'"
  shows "overwrites L sb V ip V' ip'"
  unfolding overwrites_def
proof (intro conjI allI impI)
  note e = extendsD [OF assms]
  show "ino_ok L sb V' ip'" "meta_ok L sb V'" "\<exists>xs. ip' = ip\<lparr>iaddrs := xs\<rparr>" "own V ip \<subseteq> own V' ip'"
    "own V' ip' \<subseteq> own V ip \<union> {b. data_block L sb b \<and> \<not> used sb V b}" by (rule e)+
  show "used sb V' b \<longleftrightarrow> used sb V b \<or> b \<in> own V' ip'" if "b < sb_size sb" for b by (rule e(7) [OF that])
  show "V' b = V b"
    if b: "(data_block L sb b \<longrightarrow> used sb V b) \<and> b \<notin> own V ip \<and> b \<noteq> 0 \<and> (\<forall>c < sb_size sb. BBLOCK c sb \<noteq> b)" for b
  proof (rule e(8))
    show "b \<noteq> iaddrs ip ! NDIRECT" using own_indirect [of ip V] b by auto
  qed (use b in auto)
  show "addr V' ip' m = addr V ip m" if "m < MAXFILE" "addr V ip m \<noteq> 0" for m by (rule e(9) [OF that])
qed

lemma overwrites_trans:
  assumes 1: "overwrites L sb V ip V1 ip1" and 2: "overwrites L sb V1 ip1 V2 ip2"
  shows "overwrites L sb V ip V2 ip2"
  unfolding overwrites_def
proof (intro conjI allI impI)
  note d1 = overwritesD [OF 1] and d2 = overwritesD [OF 2]
  have us: "used sb V1 b" if "data_block L sb b" "used sb V b" for b
    using d1(6) that by (auto simp: data_block_def)
  show "ino_ok L sb V2 ip2" "meta_ok L sb V2" by (rule d2)+
  show "\<exists>xs. ip2 = ip\<lparr>iaddrs := xs\<rparr>" using d1(3) d2(3) by auto
  show "own V ip \<subseteq> own V2 ip2" using d1(4) d2(4) by blast
  show "own V2 ip2 \<subseteq> own V ip \<union> {b. data_block L sb b \<and> \<not> used sb V b}" using d1(5) d2(5) us by blast
  show "used sb V2 b \<longleftrightarrow> used sb V b \<or> b \<in> own V2 ip2" if "b < sb_size sb" for b
    using d1(4) d1(6) [OF that] d2(4) d2(6) [OF that] by blast
  show "V2 b = V b"
    if b: "(data_block L sb b \<longrightarrow> used sb V b) \<and> b \<notin> own V ip \<and> b \<noteq> 0 \<and> (\<forall>c < sb_size sb. BBLOCK c sb \<noteq> b)" for b
  proof -
    have "V1 b = V b" using d1(7) b by blast
    moreover have "data_block L sb b \<longrightarrow> used sb V1 b" "b \<notin> own V1 ip1" using b us d1(5) by blast+
    ultimately show ?thesis using d2(7) b by simp
  qed
  show "addr V2 ip2 m = addr V ip m" if "m < MAXFILE" "addr V ip m \<noteq> 0" for m
    using d2(8) [OF that(1)] d1(8) [OF that] that(2) by simp
qed

text \<open>A block of the contents replaced.\<close>

lemma data_write:
  fixes x :: bytes
  assumes ok: "ino_ok L sb V ip" and mo: "meta_ok L sb V" and m: "m < MAXFILE" "addr V ip m = a" "a \<noteq> 0"
  defines "V' \<equiv> V(a := x)"
  shows "addr V' ip k = addr V ip k" "overwrites L sb V ip V' ip"
    "j < MAXFILE * BSIZE \<Longrightarrow> byte V' ip j = (if j div BSIZE = m then x ! (j mod BSIZE) else byte V ip j)"
proof -
  have ao: "a \<in> own V ip" using own_addr [of m V ip] m by simp
  have ai: "a \<noteq> iaddrs ip ! NDIRECT" using ok m unfolding ino_ok_def by metis
  show ad: "addr V' ip k = addr V ip k" for k by (rule addr_cong) (use ai in \<open>simp add: V'_def\<close>)
  have ow: "own V' ip = own V ip" by (rule own_cong) (use ai in \<open>simp add: V'_def\<close>)
  have da: "data_block L sb a" by (rule ino_okD [OF ok ao])
  have us: "used sb V' b = used sb V b" if "b < sb_size sb" for b
    using da that by (auto simp: used_def V'_def data_block_def)
  have usd: "used sb V' b = used sb V b" if "data_block L sb b" for b using us that by (simp add: data_block_def)
  show "byte V' ip j = (if j div BSIZE = m then x ! (j mod BSIZE) else byte V ip j)" if "j < MAXFILE * BSIZE"
  proof -
    have jm: "j div BSIZE < MAXFILE" using that by (simp add: sizes)
    have "addr V ip (j div BSIZE) \<noteq> a" if "j div BSIZE \<noteq> m"
      using ok m jm that unfolding ino_ok_def by metis
    then show ?thesis unfolding byte_def ad Let_def using m by (auto simp: V'_def)
  qed
  show "overwrites L sb V ip V' ip"
    unfolding overwrites_def
  proof (intro conjI allI impI)
    show "ino_ok L sb V' ip" using ok usd ino_okD [OF ok] unfolding ino_ok_def ad ow by blast
    show "meta_ok L sb V'" using mo us unfolding meta_ok_def by simp
    show "\<exists>xs. ip = ip\<lparr>iaddrs := xs\<rparr>" by (rule exI [of _ "iaddrs ip"]) simp
    show "used sb V' b \<longleftrightarrow> used sb V b \<or> b \<in> own V' ip" if "b < sb_size sb" for b
      using us [OF that] ino_okD [OF ok] ow by auto
  qed (use ad ow ao in \<open>auto simp: V'_def\<close>)
qed

text \<open>What a bigger inode reads like.\<close>

lemma byte_extend:
  assumes "\<And>m. m < MAXFILE \<Longrightarrow> addr V' ip' m = (if m = n then a else addr V ip m)"
    and "a \<noteq> 0 \<and> addr V ip n = 0 \<longrightarrow> V' a = replicate BSIZE 0"
    and "addr V ip n \<noteq> 0 \<Longrightarrow> a = addr V ip n"
    and "\<And>b. b \<in> own V ip \<Longrightarrow> b \<noteq> iaddrs ip ! NDIRECT \<Longrightarrow> V' b = V b" and ok: "ino_ok L sb V ip" and j: "j < MAXFILE * BSIZE"
  shows "byte V' ip' j = byte V ip j"
proof -
  have m: "j div BSIZE < MAXFILE" using j by (simp add: sizes)
  have z: "addr V ip (j div BSIZE) \<noteq> 0 \<Longrightarrow> V' (addr V ip (j div BSIZE)) = V (addr V ip (j div BSIZE))"
    using assms(4) own_addr [OF m] ok m unfolding ino_ok_def by blast
  have "j mod BSIZE < BSIZE" by (simp add: sizes)
  then show ?thesis
    using assms(1) [OF m] assms(2,3) z by (cases "j div BSIZE = n") (auto simp: byte_def Let_def)
qed

text \<open>The files of others.\<close>

lemma overwrites_other:
  assumes "overwrites L sb V ip V' ip'" "ino_ok L sb V jp" "own V ip \<inter> own V jp = {}"
  shows "own V' jp = own V jp" "own V' ip' \<inter> own V' jp = {}" "ino_ok L sb V' jp" "j < MAXFILE * BSIZE \<Longrightarrow> byte V' jp j = byte V jp j"
proof -
  note r = overwritesD [OF assms(1)] and o = ino_okD [OF assms(2)]
  have eq: "V' b = V b" if "b \<in> own V jp" for b
    by (rule r(7)) (use that o [OF that] assms(3) in \<open>auto simp: data_block_def\<close>)
  have c: "V' (iaddrs jp ! NDIRECT) = V (iaddrs jp ! NDIRECT) \<or> iaddrs jp ! NDIRECT = 0" using eq own_indirect by blast
  have ad: "addr V' jp m = addr V jp m" for m using c by (rule addr_cong)
  show ow: "own V' jp = own V jp" using c by (rule own_cong)
  show "own V' ip' \<inter> own V' jp = {}" using assms(3) r(5) o(2) unfolding ow by blast
  have "used sb V' b" if "b \<in> own V jp" for b
    using r(6) [of b] o [OF that] by (simp add: data_block_def)
  then show "ino_ok L sb V' jp" using assms(2) unfolding ino_ok_def ad ow by blast
  show "byte V' jp j = byte V jp j" if "j < MAXFILE * BSIZE"
  proof -
    have "j div BSIZE < MAXFILE" using that by (simp add: sizes)
    then show ?thesis using eq own_addr [of "j div BSIZE" V jp] by (auto simp: byte_def ad Let_def)
  qed
qed

section \<open>Writing\<close>

text \<open>A source of the bytes \<open>bs\<close>: every part of them can be fetched.\<close>

definition source :: "(u64 \<Rightarrow> nat \<Rightarrow> int \<times> bytes) \<Rightarrow> u64 \<Rightarrow> bytes \<Rightarrow> bool" where
  "source get src bs \<longleftrightarrow> (\<forall>t k. t + k \<le> length bs \<longrightarrow> get (src + of_nat t) k = (0, take k (drop t bs)))"

lemma source_drop: "source get src bs \<Longrightarrow> t \<le> length bs \<Longrightarrow> source get (src + of_nat t) (drop t bs)"
  unfolding source_def
proof (intro allI impI)
  fix t' k
  assume a: "\<forall>t k. t + k \<le> length bs \<longrightarrow> get (src + of_nat t) k = (0, take k (drop t bs))" "t \<le> length bs" "t' + k \<le> length (drop t bs)"
  then have "get (src + of_nat (t + t')) k = (0, take k (drop (t + t') bs))" by (intro a(1) [rule_format]) simp
  then show "get (src + of_nat t + of_nat t') k = (0, take k (drop t' (drop t bs)))" by (simp add: ac_simps)
qed

lemma source_take: "source get src bs \<Longrightarrow> k \<le> length bs \<Longrightarrow> get src k = (0, take k bs)"
  unfolding source_def by (drule spec [of _ 0], drule spec [of _ k]) simp

lemma source_buffer: "length bs < 2 ^ 64 \<Longrightarrow> source (from_buffer bs) 0 bs"
  by (auto simp: source_def from_buffer_def unat_of_nat)

context block_store
begin

abbreviation file_byte :: "nat \<Rightarrow> 's fs \<Rightarrow> nat \<Rightarrow> u8" where
  "file_byte i f \<equiv> byte (view (fblk f)) (itab f ! i)"

abbreviation file_addr :: "nat \<Rightarrow> 's fs \<Rightarrow> nat \<Rightarrow> u32" where
  "file_addr i f \<equiv> addr (view (fblk f)) (itab f ! i)"

definition writes_to :: "nat \<Rightarrow> nat \<Rightarrow> 's fs \<Rightarrow> 's fs \<Rightarrow> bool" where
  "writes_to i k f f' \<longleftrightarrow> (\<exists>ip' s' V' B. f' = with_ino i ip' s' f \<and> evolves (fblk f) V' B s' \<and> finite B \<and> card B \<le> k \<and>
     overwrites log_blocks (fsb f) (view (fblk f)) (itab f ! i) V' ip')"

lemma writes_toI:
  assumes "f' = with_ino i ip' s' f" "evolves (fblk f) V' B s'" "finite B" "card B \<le> k"
    "overwrites log_blocks (fsb f) (view (fblk f)) (itab f ! i) V' ip'"
  shows "writes_to i k f f'"
  using assms unfolding writes_to_def by blast

lemma writes_toD:
  assumes "writes_to i k f f'" "file_ok i f"
  shows "file_ok i f'" "overwrites log_blocks (fsb f) (view (fblk f)) (itab f ! i) (view (fblk f')) (itab f' ! i)"
    "fsb f' = fsb f" "fcwd f' = fcwd f" "length (itab f') = length (itab f)" "j \<noteq> i \<Longrightarrow> itab f' ! j = itab f ! j"
    "\<exists>B. evolves (fblk f) (view (fblk f')) B (fblk f') \<and> finite B \<and> card B \<le> k"
proof -
  obtain ip' s' V' B where g: "f' = with_ino i ip' s' f" "evolves (fblk f) V' B s'" "finite B" "card B \<le> k"
    "overwrites log_blocks (fsb f) (view (fblk f)) (itab f ! i) V' ip'"
    using assms(1) unfolding writes_to_def by blast
  have i: "i < length (itab f)" using assms(2) by (simp add: file_ok_def)
  have v: "view s' = V'" using g(2) by (simp add: evolves_def)
  show "overwrites log_blocks (fsb f) (view (fblk f)) (itab f ! i) (view (fblk f')) (itab f' ! i)"
    "fsb f' = fsb f" "fcwd f' = fcwd f" "length (itab f') = length (itab f)" "j \<noteq> i \<Longrightarrow> itab f' ! j = itab f ! j"
    "\<exists>B. evolves (fblk f) (view (fblk f')) B (fblk f') \<and> finite B \<and> card B \<le> k"
    using g i v by auto
  note e = overwritesD [OF g(5)]
  obtain xs where "ip' = (itab f ! i)\<lparr>iaddrs := xs\<rparr>" using e(3) by blast
  then show "file_ok i f'"
    using assms(2) g(1,2) e(1,2) v by (simp add: file_ok_def evolves_def)
qed

lemma writes_to_refl: "file_ok i f \<Longrightarrow> writes_to i k f f"
  by (rule writes_toI [where ip' = "itab f ! i" and s' = "fblk f" and B = "{}"])
    (auto simp: file_ok_def with_ino_def intro: overwrites_refl evolves_refl)

lemma writes_to_mono: "\<lbrakk>writes_to i j f f'; j \<le> k\<rbrakk> \<Longrightarrow> writes_to i k f f'"
  unfolding writes_to_def using le_trans by blast

lemma grows_writes: "grows_to i k f f' \<Longrightarrow> writes_to i k f f'"
  unfolding grows_to_def writes_to_def using extends_overwrites by blast

lemma writes_to_trans:
  assumes "file_ok i f" "writes_to i j f f1" "writes_to i k f1 f2"
  shows "writes_to i (j + k) f f2"
proof -
  note 1 = writes_toD [OF assms(2,1)]
  obtain ip1 s1 where f1: "f1 = with_ino i ip1 s1 f" using assms(2) unfolding writes_to_def by blast
  obtain ip2 s2 V2 B2 where f2: "f2 = with_ino i ip2 s2 f1" "evolves (fblk f1) V2 B2 s2" "finite B2" "card B2 \<le> k"
    "overwrites log_blocks (fsb f1) (view (fblk f1)) (itab f1 ! i) V2 ip2"
    using assms(3) unfolding writes_to_def by blast
  obtain B where B: "evolves (fblk f) (view (fblk f1)) B (fblk f1)" "finite B" "card B \<le> j" using 1(7) by blast
  show ?thesis
  proof (rule writes_toI)
    show "f2 = with_ino i ip2 s2 f" using f1 f2(1) by simp
    show "evolves (fblk f) V2 (B \<union> B2) s2" by (rule evolves_trans [OF B(1) f2(2) refl])
    show "card (B \<union> B2) \<le> j + k" using card_Un_le [of B B2] B(3) f2(4) by simp
    show "overwrites log_blocks (fsb f) (view (fblk f)) (itab f ! i) V2 ip2"
      using overwrites_trans [OF 1(2)] f2(5) 1(3) by simp
  qed (use B f2 in simp)
qed

lemma spare_writes: "\<lbrakk>writes_to i j f f'; file_ok i f; spare (fblk f) (j + k)\<rbrakk> \<Longrightarrow> spare (fblk f') k"
  using writes_toD(7) spare_evolves by blast

text \<open>The bytes \<open>bs\<close> have arrived at the offset \<open>p\<close>.\<close>

definition wrote :: "nat \<Rightarrow> nat \<Rightarrow> bytes \<Rightarrow> 's fs \<Rightarrow> 's fs \<Rightarrow> bool" where
  "wrote i p bs f f' \<longleftrightarrow>
     (\<forall>j < MAXFILE * BSIZE. file_byte i f' j = (if p \<le> j \<and> j < p + length bs then bs ! (j - p) else file_byte i f j)) \<and>
     (\<forall>j < MAXFILE * BSIZE. p \<le> j \<and> j < p + length bs \<longrightarrow> file_addr i f' (j div BSIZE) \<noteq> 0)"

lemma wrote_Nil: "(\<And>j. j < MAXFILE * BSIZE \<Longrightarrow> file_byte i f' j = file_byte i f j) \<Longrightarrow> wrote i p [] f f'"
  by (auto simp: wrote_def)

lemma wrote_trans:
  assumes "wrote i p xs f f1" "wrote i (p + length xs) ys f1 f2" "writes_to i k f1 f2" "file_ok i f1"
  shows "wrote i p (xs @ ys) f f2"
proof -
  note a = overwritesD(8) [OF writes_toD(2) [OF assms(3,4)]]
  have m: "j div BSIZE < MAXFILE" if "j < MAXFILE * BSIZE" for j using that by (simp add: sizes)
  show ?thesis
    unfolding wrote_def
  proof (intro conjI allI impI)
    fix j assume j: "j < MAXFILE * BSIZE"
    show "file_byte i f2 j = (if p \<le> j \<and> j < p + length (xs @ ys) then (xs @ ys) ! (j - p) else file_byte i f j)"
      using assms(1,2) j by (auto simp: wrote_def nth_append diff_diff_add)
    assume "p \<le> j \<and> j < p + length (xs @ ys)"
    then consider "p \<le> j" "j < p + length xs" | "p + length xs \<le> j" "j < p + length xs + length ys" by fastforce
    then show "file_addr i f2 (j div BSIZE) \<noteq> 0"
    proof cases
      case 1
      then have "file_addr i f1 (j div BSIZE) \<noteq> 0" using assms(1) j by (simp add: wrote_def)
      then show ?thesis using a [OF m [OF j]] by simp
    next
      case 2
      then show ?thesis using assms(2) j by (simp add: wrote_def)
    qed
  qed
qed

lemma bmap_bytes:
  assumes f: "file_ok i f" and g: "grows_to i k f f'" and m: "maps_block i f n a f'" "n < MAXFILE"
  shows "file_addr i f' n = a" "j < MAXFILE * BSIZE \<Longrightarrow> file_byte i f' j = file_byte i f j"
proof -
  note e = extendsD [OF grows_toD(2) [OF g f]]
  show a: "file_addr i f' n = a" using m by (simp add: maps_block_def)
  have ok: "ino_ok log_blocks (fsb f) (view (fblk f)) (itab f ! i)" using f by (simp add: file_ok_def)
  show "file_byte i f' j = file_byte i f j" if j: "j < MAXFILE * BSIZE"
  proof (rule byte_extend [OF _ _ _ _ ok j])
    show "file_addr i f' m = (if m = n then a else file_addr i f m)" if "m < MAXFILE" for m
      using m(1) that by (simp add: maps_block_def)
    show "a \<noteq> 0 \<and> file_addr i f n = 0 \<longrightarrow> view (fblk f') a = replicate BSIZE 0" using m(1) by (simp add: maps_block_def)
    show "file_addr i f n \<noteq> 0 \<Longrightarrow> a = file_addr i f n" using e(9) [OF m(2)] a by simp
    show "view (fblk f') b = view (fblk f) b" if "b \<in> own (view (fblk f)) (itab f ! i)" "b \<noteq> iaddrs (itab f ! i) ! NDIRECT" for b
      by (rule e(8)) (use that ino_okD [OF ok that(1)] data_not_bitmap in blast)+
  qed
qed

lemma write_block:
  assumes f: "file_ok i f" and m: "m < MAXFILE" "file_addr i f m = a" "a \<noteq> 0" and x: "length x = BSIZE" and sp: "spare (fblk f) 1"
  shows "\<exists>bp s1 s2 s3. blk_bread api dev a (fblk f) = Some (bp, s1) \<and> blk_data api bp s1 = view (fblk f) a \<and>
    blk_log_write api bp (blk_set api bp x s1) = Some s2 \<and> blk_brelse api bp s2 = Some s3 \<and>
    writes_to i 1 f (f\<lparr>fblk := s3\<rparr>) \<and>
    (\<forall>j < MAXFILE * BSIZE. file_byte i (f\<lparr>fblk := s3\<rparr>) j = (if j div BSIZE = m then x ! (j mod BSIZE) else file_byte i f j)) \<and>
    file_addr i (f\<lparr>fblk := s3\<rparr>) = file_addr i f"
proof -
  let ?V = "view (fblk f)" and ?ip = "itab f ! i"
  have ok: "inv (fblk f)" "held (fblk f) = Map.empty" "i < length (itab f)"
    "ino_ok log_blocks (fsb f) ?V ?ip" "meta_ok log_blocks (fsb f) ?V" using f by (simp_all add: file_ok_def)
  note w = data_write [OF ok(4,5) m, where x = x]
  have ao: "a \<in> own ?V ?ip" using own_addr [of m ?V ?ip] m by simp
  have "room (fblk f) {a}"
    by (rule spare_room [OF sp ok(1)]) (use ino_okD(1) [OF ok(4) ao] in \<open>auto simp: data_block_def\<close>)
  moreover have "few (fblk f)" "a \<notin> ran (held (fblk f))" using ok(2) by (simp_all add: few_def)
  ultimately obtain bp s1 s2 s3 where r: "blk_bread api dev a (fblk f) = Some (bp, s1)" "blk_data api bp s1 = ?V a"
    "blk_log_write api bp (blk_set api bp x s1) = Some s2" "blk_brelse api bp s2 = Some s3" "evolves (fblk f) (?V(a := x)) {a} s3"
    using update_block [OF ok(1) _ _ _ x] by blast
  have v: "view s3 = ?V(a := x)" using r(5) by (simp add: evolves_def)
  have "writes_to i 1 f (f\<lparr>fblk := s3\<rparr>)"
    by (rule writes_toI [OF with_ino_upd(3) r(5) _ _ w(2)]) simp_all
  moreover have "file_addr i (f\<lparr>fblk := s3\<rparr>) = file_addr i f" by (rule ext) (simp add: v w(1))
  moreover have "\<forall>j < MAXFILE * BSIZE. file_byte i (f\<lparr>fblk := s3\<rparr>) j = (if j div BSIZE = m then x ! (j mod BSIZE) else file_byte i f j)"
    using w(3) by (simp add: v)
  ultimately show ?thesis using r by blast
qed

lemma block_range:
  assumes "r + k \<le> (B :: nat)" "j = q' * B + r'" "r' < B" "p = q * B + r" "0 < k"
  shows "p \<le> j \<and> j < p + k \<longleftrightarrow> q' = q \<and> r \<le> r' \<and> r' < r + k"
proof
  assume a: "p \<le> j \<and> j < p + k"
  have "\<not> q' < q"
  proof
    assume "q' < q"
    then have "Suc q' * B \<le> q * B" by (intro mult_le_mono1) simp
    then show False using a assms by simp
  qed
  moreover have "\<not> q < q'"
  proof
    assume "q < q'"
    then have "Suc q * B \<le> q' * B" by (intro mult_le_mono1) simp
    then show False using a assms by simp
  qed
  ultimately have "q' = q" by simp
  then show "q' = q \<and> r \<le> r' \<and> r' < r + k" using a assms by simp
qed (use assms in auto)

lemma next_block: "p + (1024 - p mod 1024) = 1024 * (p div 1024 + 1)" for p :: nat
proof -
  have "p = 1024 * (p div 1024) + p mod 1024" "p mod 1024 < 1024" by simp_all
  then show ?thesis unfolding distrib_left mult_1_right by linarith
qed

lemma block_step:
  fixes off :: u32 and bs :: bytes
  assumes len: "length bs = unat (n - tot)" "tot \<le> n" "bs \<noteq> []" and off: "unat off + length bs \<le> MAXFILE * BSIZE"
    and w: "unat off mod BSIZE + length bs \<le> Suc w * BSIZE"
  defines "k \<equiv> min (n - tot) (of_nat BSIZE - off mod of_nat BSIZE)"
  shows "tot < n" "unat k = min (length bs) (BSIZE - unat off mod BSIZE)" "0 < unat k" "tot + k \<le> n"
    "unat (n - (tot + k)) = length bs - unat k" "unat (off + k) = unat off + unat k"
    "unat (off div of_nat BSIZE) = unat off div BSIZE" "unat off div BSIZE < MAXFILE"
    "unat k < length bs \<Longrightarrow> unat (off + k) mod BSIZE + (length bs - unat k) \<le> w * BSIZE"
    "unat k < length bs \<Longrightarrow> unat (off + k) mod BSIZE = 0"
proof -
  have b: "(of_nat BSIZE :: u32) = 1024" by (simp add: sizes)
  have l0: "0 < length bs" using len(3) by simp
  have d: "unat (n - tot) = unat n - unat tot" using len(2) by (simp add: unat_sub)
  have md: "unat (off mod 1024) = unat off mod 1024" by (simp add: unat_mod)
  have lt: "unat off mod 1024 < 1024" by simp
  have "off mod 1024 \<le> 1024" unfolding word_le_nat_alt md by simp
  then have "unat (1024 - off mod 1024) = 1024 - unat off mod 1024" using md by (simp add: unat_sub)
  then show uk: "unat k = min (length bs) (BSIZE - unat off mod BSIZE)"
    unfolding k_def b by (simp add: min_def word_le_nat_alt len(1) sizes)
  show "0 < unat k" unfolding uk using l0 lt by (simp add: sizes)
  have kl: "unat k \<le> length bs" unfolding uk by simp
  show "tot < n" using l0 len(1) d by (simp add: word_less_nat_alt)
  have nt: "unat n < 2 ^ 32" using unsigned_less [of n] by simp
  have "unat (tot + k) = unat tot + unat k" using kl len(1) d nt len(2) [unfolded word_le_nat_alt] by (subst unat_plus_if') simp
  then show "tot + k \<le> n" "unat (n - (tot + k)) = length bs - unat k"
    using kl len d by (simp_all add: word_le_nat_alt unat_sub)
  show ok: "unat (off + k) = unat off + unat k" using kl off by (subst unat_plus_if') (simp add: sizes)
  show "unat (off div of_nat BSIZE) = unat off div BSIZE" by (simp add: sizes unat_div)
  have "unat off + length bs \<le> 274432" using off by (simp add: sizes)
  then have "unat off < 274432" using l0 by linarith
  then show "unat off div BSIZE < MAXFILE" by (simp add: sizes)
  show m: "unat (off + k) mod BSIZE = 0" if "unat k < length bs"
  proof -
    have ke: "unat k = BSIZE - unat off mod BSIZE" using that uk by simp
    have "unat off + unat k = BSIZE * (unat off div BSIZE + 1)"
      unfolding ke sizes by (rule next_block)
    then show ?thesis unfolding ok by simp
  qed
  show "unat (off + k) mod BSIZE + (length bs - unat k) \<le> w * BSIZE" if "unat k < length bs"
    using m [OF that] that w uk lt by (simp add: sizes)
qed

definition disk_full :: "'s fs \<Rightarrow> bool" where
  "disk_full f \<longleftrightarrow> (\<forall>b < sb_size (fsb f). used (fsb f) (view (fblk f)) b)"

text \<open>Why a write of \<open>bs\<close> at \<open>p\<close> may end after \<open>k\<close> bytes: at the end of a block, on a full disk.\<close>

definition stops :: "nat \<Rightarrow> bytes \<Rightarrow> nat \<Rightarrow> 's fs \<Rightarrow> bool" where
  "stops p bs k f \<longleftrightarrow> k = length bs \<or> disk_full f \<and> (k = 0 \<or> (p + k) mod BSIZE = 0)"

lemma writei_loop_spec:
  assumes "file_ok i f" "length bs = unat (n - tot)" "tot \<le> n" "unat off + length bs \<le> MAXFILE * BSIZE" "source get src bs"
    "bs = [] \<or> unat off mod BSIZE + length bs \<le> w * BSIZE" "spare (fblk f) (6 * w)"
  shows "\<exists>k f'. writei_loop api get i src off n tot f = Some (tot + of_nat k, off + of_nat k, f') \<and> k \<le> length bs \<and>
    writes_to i (6 * w) f f' \<and> wrote i (unat off) (take k bs) f f' \<and> stops (unat off) bs k f'"
  using assms
proof (induction w arbitrary: f bs tot off src)
  case 0
  then have "bs = []" by auto
  then have "\<not> tot < n" using 0(2,3) by (simp add: word_less_nat_alt word_le_nat_alt unat_sub)
  then have "writei_loop api get i src off n tot f = Some (tot, off, f)" by (simp add: writei_loop.simps)
  then show ?case using \<open>bs = []\<close> writes_to_refl [OF 0(1)] by (intro exI [of _ 0] exI [of _ f]) (simp add: wrote_Nil stops_def)
next
  case (Suc w)
  note f = Suc.prems(1) and len = Suc.prems(2) and sp = Suc.prems(7)
  show ?case
  proof (cases "bs = []")
    case True
    then have "\<not> tot < n" using Suc.prems(2,3) by (simp add: word_less_nat_alt word_le_nat_alt unat_sub)
    then have "writei_loop api get i src off n tot f = Some (tot, off, f)" by (simp add: writei_loop.simps)
    then show ?thesis using True writes_to_refl [OF f] by (intro exI [of _ 0] exI [of _ f]) (simp add: wrote_Nil stops_def)
  next
    case False
    define k where "k = min (n - tot) (of_nat BSIZE - off mod of_nat BSIZE)"
    have wo: "unat off mod BSIZE + length bs \<le> Suc w * BSIZE" using Suc.prems(6) False by simp
    note st = block_step [OF len Suc.prems(3) False Suc.prems(4) wo, folded k_def]
    let ?m = "unat off div BSIZE"
    obtain a f1 where 1: "bmap api i (off div of_nat BSIZE) f = Some (a, f1)" "grows_to i 5 f f1" "maps_block i f ?m a f1"
      using bmap_spec [OF f, of "off div of_nat BSIZE"] st(7,8) spare_mono [OF sp, of 5] by auto
    note by1 = bmap_bytes [OF f 1(2,3) st(8)]
    note g1 = grows_toD [OF 1(2) f]
    show ?thesis
    proof (cases "a = 0")
      case True
      then have "writei_loop api get i src off n tot f = Some (tot, off, f1)"
        using st(1) 1(1) by (subst writei_loop.simps) simp
      moreover have "writes_to i (6 * Suc w) f f1" by (rule writes_to_mono [OF grows_writes [OF 1(2)]]) simp
      moreover have "disk_full f1" using 1(3) True g1(3) by (simp add: maps_block_def disk_full_def)
      ultimately show ?thesis using by1(2) by (intro exI [of _ 0] exI [of _ f1]) (simp add: wrote_Nil stops_def)
    next
      case a0: False
      let ?x = "splice (view (fblk f1) a) (unat off mod BSIZE) (take (unat k) bs)"
      have kl: "unat k \<le> length bs" "unat off mod BSIZE + unat k \<le> BSIZE" unfolding st(2) by (simp_all add: sizes)
      have va: "length (view (fblk f1) a) = BSIZE" using g1(1) view_length by (simp add: file_ok_def)
      have lx: "length ?x = BSIZE" using va kl by simp
      have sp1: "spare (fblk f1) (6 * w + 1)" by (rule spare_grows [OF 1(2) f]) (use sp in \<open>simp add: ac_simps\<close>)
      obtain bp s1 s2 s3 where b: "blk_bread api dev a (fblk f1) = Some (bp, s1)" "blk_data api bp s1 = view (fblk f1) a"
        "blk_log_write api bp (blk_set api bp ?x s1) = Some s2" "blk_brelse api bp s2 = Some s3"
        "writes_to i 1 f1 (f1\<lparr>fblk := s3\<rparr>)"
        "\<forall>j < MAXFILE * BSIZE. file_byte i (f1\<lparr>fblk := s3\<rparr>) j = (if j div BSIZE = ?m then ?x ! (j mod BSIZE) else file_byte i f1 j)"
        "file_addr i (f1\<lparr>fblk := s3\<rparr>) = file_addr i f1"
        using write_block [OF g1(1) st(8) by1(1) a0 lx spare_mono [OF sp1]] by auto
      define f2 where "f2 = f1\<lparr>fblk := s3\<rparr>"
      have w2: "writes_to i 6 f f2" using writes_to_trans [OF f grows_writes [OF 1(2)] b(5)] by (simp add: f2_def)
      note d2 = writes_toD [OF w2 f]
      have wr: "wrote i (unat off) (take (unat k) bs) f f2"
        unfolding wrote_def
      proof (intro conjI allI impI)
        fix j assume j: "j < MAXFILE * BSIZE"
        have dm: "j = j div BSIZE * BSIZE + j mod BSIZE" "unat off = ?m * BSIZE + unat off mod BSIZE" by simp_all
        have jb: "j mod BSIZE < BSIZE" by (simp add: sizes)
        have iff: "unat off \<le> j \<and> j < unat off + unat k \<longleftrightarrow> j div BSIZE = ?m \<and> unat off mod BSIZE \<le> j mod BSIZE \<and> j mod BSIZE < unat off mod BSIZE + unat k"
          by (rule block_range [OF kl(2) dm(1) jb dm(2) st(3)])
        have e: "j - unat off = j mod BSIZE - unat off mod BSIZE" if "j div BSIZE = ?m"
          using dm unfolding that by linarith
        show "file_byte i f2 j = (if unat off \<le> j \<and> j < unat off + length (take (unat k) bs) then take (unat k) bs ! (j - unat off) else file_byte i f j)"
        proof (cases "j div BSIZE = ?m")
          case True
          have "?x ! (j mod BSIZE) = (if unat off mod BSIZE \<le> j mod BSIZE \<and> j mod BSIZE < unat off mod BSIZE + unat k
              then take (unat k) bs ! (j mod BSIZE - unat off mod BSIZE) else view (fblk f1) a ! (j mod BSIZE))"
            using nth_splice [of "unat off mod BSIZE" "take (unat k) bs" "view (fblk f1) a" "j mod BSIZE"] kl va jb by simp
          moreover have "file_byte i f1 j = view (fblk f1) a ! (j mod BSIZE)"
            using True by1(1) a0 by (simp add: byte_def)
          ultimately show ?thesis using b(6) j by1(2) [OF j] iff e True kl by (simp add: f2_def)
        next
          case False
          then show ?thesis using b(6) j by1(2) [OF j] iff kl by (simp add: f2_def) blast
        qed
        assume "unat off \<le> j \<and> j < unat off + length (take (unat k) bs)"
        then show "file_addr i f2 (j div BSIZE) \<noteq> 0" using iff kl b(7) by1(1) a0 by (simp add: f2_def)
      qed
      have sp2: "spare (fblk f2) (6 * w)" by (rule spare_writes [OF w2 f]) (use sp in simp)
      have "drop (unat k) bs = [] \<or> unat (off + k) mod BSIZE + length (drop (unat k) bs) \<le> w * BSIZE" using st(9) kl(1)
        by (cases "unat k < length bs") simp_all
      then obtain k' f' where r: "writei_loop api get i (src + ucast k) (off + k) n (tot + k) f2 = Some (tot + k + of_nat k', off + k + of_nat k', f')"
        "k' \<le> length (drop (unat k) bs)" "writes_to i (6 * w) f2 f'" "wrote i (unat (off + k)) (take k' (drop (unat k) bs)) f2 f'"
        "stops (unat (off + k)) (drop (unat k) bs) k' f'"
        using Suc.IH [OF d2(1) _ st(4) _ source_drop [OF Suc.prems(5) kl(1)] _ sp2, of "off + k"] st(5,6) kl Suc.prems(4) by auto
      have dv: "idev (itab f1 ! i) = dev" using g1(1) by (simp add: file_ok_def)
      have gt: "get src (unat k) = (0, take (unat k) bs)" by (rule source_take [OF Suc.prems(5) kl(1)])
      have "writei_loop api get i src off n tot f = writei_loop api get i (src + ucast k) (off + k) n (tot + k) f2"
        using st(1) 1(1) a0 b(1-4) dv gt by (subst writei_loop.simps) (simp add: Let_def f2_def flip: k_def)
      also have "\<dots> = Some (tot + of_nat (unat k + k'), off + of_nat (unat k + k'), f')"
        using r(1) by (simp add: add.assoc)
      finally have run: "writei_loop api get i src off n tot f = Some (tot + of_nat (unat k + k'), off + of_nat (unat k + k'), f')" .
      have "wrote i (unat off) (take (unat k) bs @ take k' (drop (unat k) bs)) f f'"
        by (rule wrote_trans [OF wr _ r(3) d2(1)]) (use r(4) st(6) kl in simp)
      then have "wrote i (unat off) (take (unat k + k') bs) f f'" by (simp add: take_add)
      moreover have "writes_to i (6 * Suc w) f f'" using writes_to_trans [OF f w2 r(3)] by simp
      moreover have "unat k + k' \<le> length bs" "stops (unat off) bs (unat k + k') f'"
        using r(2,5) kl st(6,10) by (auto simp: stops_def add.assoc)
      ultimately show ?thesis using run by blast
    qed
  qed
qed

end

end
