(* ===== verification/X_Fs_Inode.thy ===== *)
theory X_Fs_Inode
  imports X_Fs_Io
begin

text \<open>
  Inodes on disk: \<open>iupdate\<close> writes one that \<open>ilock\<close> reads back, and leaves the others alone.
\<close>

section \<open>The format\<close>

lemma le16_splice:
  "\<lbrakk>k + length bs \<le> length d; k \<le> j; j + 1 < k + length bs\<rbrakk> \<Longrightarrow> le16_at (splice d k bs) j = le16_at bs (j - k)"
  by (simp add: le16_at_def nth_splice Suc_diff_le)

lemma le32_splice:
  "\<lbrakk>k + length bs \<le> length d; k \<le> j; j + 3 < k + length bs\<rbrakk> \<Longrightarrow> le32_at (splice d k bs) j = le32_at bs (j - k)"
  by (simp add: le32_at_def nth_splice Suc_diff_le numeral_2_eq_2 numeral_3_eq_3)

lemma le16_splice_other:
  "\<lbrakk>k + length bs \<le> length d; j + 1 < length d; j + 1 < k \<or> k + length bs \<le> j\<rbrakk> \<Longrightarrow> le16_at (splice d k bs) j = le16_at d j"
  by (auto simp: le16_at_def nth_splice)

lemma le32_splice_other:
  "\<lbrakk>k + length bs \<le> length d; j + 3 < length d; j + 3 < k \<or> k + length bs \<le> j\<rbrakk> \<Longrightarrow> le32_at (splice d k bs) j = le32_at d j"
  by (auto simp: le32_at_def nth_splice)

lemma le_lengths [simp]: "length (le16_bytes w) = 2" "length (le32_bytes x) = 4"
  by (simp_all add: le16_bytes_def le32_bytes_def)

lemma length_words: "length (concat (map le32_bytes xs)) = 4 * length xs"
  by (induction xs) simp_all

lemma le32_words: "j < length xs \<Longrightarrow> le32_at (concat (map le32_bytes xs)) (4 * j) = xs ! j"
proof (induction xs arbitrary: j)
  case (Cons x xs)
  show ?case
  proof (cases j)
    case 0
    then show ?thesis by (simp add: le32_at_append le32_at_bytes)
  next
    case (Suc k)
    then show ?thesis using Cons by (simp add: le32_at_skip)
  qed
qed simp

lemma dinode_length: "length (iaddrs ip) = NDIRECT + 1 \<Longrightarrow> length (dinode_bytes ip) = 64"
  by (simp add: dinode_bytes_def length_words sizes)

text \<open>The fields that are on disk.\<close>

definition on_disk :: "inode \<Rightarrow> inode \<Rightarrow> inode" where
  "on_disk ip jp = jp\<lparr>itype := itype ip, imajor := imajor ip, iminor := iminor ip, inlink := inlink ip,
     isize := isize ip, iaddrs := iaddrs ip\<rparr>"

lemma dinode_fields:
  assumes "length (iaddrs ip) = NDIRECT + 1"
  shows "le16_at (dinode_bytes ip) 0 = itype ip" "le16_at (dinode_bytes ip) 2 = imajor ip"
    "le16_at (dinode_bytes ip) 4 = iminor ip" "le16_at (dinode_bytes ip) 6 = inlink ip"
    "le32_at (dinode_bytes ip) 8 = isize ip" "j < NDIRECT + 1 \<Longrightarrow> le32_at (dinode_bytes ip) (12 + 4 * j) = iaddrs ip ! j"
  using assms le32_words [of j "iaddrs ip"]
  by (simp_all add: dinode_bytes_def le16_at_append le16_at_skip le32_at_append le32_at_skip le16_at_bytes le32_at_bytes)

lemma dinode_off_bound: "dinode_off n + 64 \<le> BSIZE"
proof -
  have "unat n mod 16 < 16" by simp
  then show ?thesis unfolding dinode_off_def sizes by linarith
qed

lemma dinode_roundtrip:
  assumes "length d = BSIZE" "length (iaddrs ip) = NDIRECT + 1"
  shows "load_dinode (splice d (dinode_off n) (dinode_bytes ip)) (dinode_off n) jp = on_disk ip jp"
proof -
  note b = dinode_off_bound [of n] dinode_length [OF assms(2)]
  have "le32_at (splice d (dinode_off n) (dinode_bytes ip)) (dinode_off n + 12 + 4 * j) = iaddrs ip ! j" if "j < NDIRECT + 1" for j
    using b assms that dinode_fields(6) [OF assms(2) that] by (subst le32_splice) (simp_all add: sizes ac_simps)
  then have words: "map (\<lambda>j. le32_at (splice d (dinode_off n) (dinode_bytes ip)) (dinode_off n + 12 + 4 * j)) [0..<NDIRECT + 1] = iaddrs ip"
    using assms(2) by (intro nth_equalityI) (simp_all del: upt_Suc)
  have "le16_at (splice d (dinode_off n) (dinode_bytes ip)) (dinode_off n + k) = le16_at (dinode_bytes ip) k" if "k + 1 < 64" for k
    using b assms that by (subst le16_splice) simp_all
  note h = this [of 0] this [of 2] this [of 4] this [of 6]
  have "le32_at (splice d (dinode_off n) (dinode_bytes ip)) (dinode_off n + 8) = le32_at (dinode_bytes ip) 8"
    using b assms by (subst le32_splice) simp_all
  then show ?thesis
    using dinode_fields(1-5) [OF assms(2)] words h by (simp add: load_dinode_def on_disk_def del: upt_Suc)
qed

lemma dinode_other:
  assumes "length d = BSIZE" "length bs = 64" "unat m mod IPB \<noteq> unat n mod IPB"
  shows "load_dinode (splice d (dinode_off n) bs) (dinode_off m) jp = load_dinode d (dinode_off m) jp"
proof -
  have b: "dinode_off n + 64 \<le> BSIZE" "dinode_off m + 64 \<le> BSIZE" by (rule dinode_off_bound)+
  have d: "dinode_off m + 64 \<le> dinode_off n \<or> dinode_off n + 64 \<le> dinode_off m"
  proof (cases "unat m mod IPB < unat n mod IPB")
    case False
    then have "unat n mod IPB + 1 \<le> unat m mod IPB" using assms(3) by linarith
    then show ?thesis unfolding dinode_off_def by linarith
  qed (auto simp: dinode_off_def)
  have "le16_at (splice d (dinode_off n) bs) (dinode_off m + k) = le16_at d (dinode_off m + k)" if "k + 1 < 64" for k
    using b d assms that by (intro le16_splice_other) auto
  note h = this [of 0] this [of 2] this [of 4] this [of 6]
  have "le32_at (splice d (dinode_off n) bs) (dinode_off m + k) = le32_at d (dinode_off m + k)" if "k + 3 < 64" for k
    using b d assms that by (intro le32_splice_other) auto
  note w = this [of 8] this [of "12 + 4 * j" for j]
  have "map (\<lambda>j. le32_at (splice d (dinode_off n) bs) (dinode_off m + 12 + 4 * j)) [0..<NDIRECT + 1] =
      map (\<lambda>j. le32_at d (dinode_off m + 12 + 4 * j)) [0..<NDIRECT + 1]"
    by (rule map_cong [OF refl]) (use w(2) in \<open>simp add: ac_simps sizes del: upt_Suc\<close>)
  then show ?thesis using h w(1) by (simp add: load_dinode_def del: upt_Suc)
qed

text \<open>Two inodes in one block are at different places.\<close>

lemma IBLOCK_inj: "IBLOCK m sb = IBLOCK n sb \<Longrightarrow> unat m mod IPB = unat n mod IPB \<Longrightarrow> m = n"
proof -
  assume "IBLOCK m sb = IBLOCK n sb" "unat m mod IPB = unat n mod IPB"
  then have "m div 16 = n div 16" "unat m mod 16 = unat n mod 16" by (simp_all add: IBLOCK_def sizes)
  then have "unat m div 16 = unat n div 16" "unat m mod 16 = unat n mod 16"
    using unat_div [of m 16] unat_div [of n 16] by simp_all
  then show "m = n" by (metis div_mult_mod_eq word_unat_eq_iff)
qed

text \<open>The inode \<open>n\<close> on disk, read into \<open>jp\<close>.\<close>

definition disk_inode :: "superblock \<Rightarrow> (u32 \<Rightarrow> bytes) \<Rightarrow> u32 \<Rightarrow> inode \<Rightarrow> inode" where
  "disk_inode sb V n jp = load_dinode (V (IBLOCK n sb)) (dinode_off n) jp"

definition update_view :: "superblock \<Rightarrow> inode \<Rightarrow> (u32 \<Rightarrow> bytes) \<Rightarrow> u32 \<Rightarrow> bytes" where
  "update_view sb ip V = V(IBLOCK (inum ip) sb := splice (V (IBLOCK (inum ip) sb)) (dinode_off (inum ip)) (dinode_bytes ip))"

lemma update_disk_inode:
  assumes "\<And>b. length (V b) = BSIZE" "length (iaddrs ip) = NDIRECT + 1"
  shows "disk_inode sb (update_view sb ip V) n jp = (if n = inum ip then on_disk ip jp else disk_inode sb V n jp)"
proof (cases "n = inum ip")
  case True
  then show ?thesis using dinode_roundtrip [OF assms] by (simp add: disk_inode_def update_view_def)
next
  case False
  show ?thesis
  proof (cases "IBLOCK n sb = IBLOCK (inum ip) sb")
    case True
    then have "unat n mod IPB \<noteq> unat (inum ip) mod IPB" using IBLOCK_inj False by blast
    then show ?thesis
      using dinode_other [OF assms(1) dinode_length [OF assms(2)]] False True by (simp add: disk_inode_def update_view_def)
  qed (use False in \<open>simp add: disk_inode_def update_view_def\<close>)
qed

text \<open>Metadata of inodes is apart from the bitmap and the data.\<close>

lemma update_meta:
  assumes "meta_ok L sb V" "inum ip < sb_ninodes sb"
  shows "b < sb_size sb \<Longrightarrow> used sb (update_view sb ip V) b = used sb V b" "meta_ok L sb (update_view sb ip V)"
    "data_block L sb b \<Longrightarrow> update_view sb ip V b = V b"
proof -
  show u: "used sb (update_view sb ip V) b = used sb V b" if "b < sb_size sb" for b
    using assms that unfolding used_def update_view_def meta_ok_def by (metis fun_upd_other)
  show "meta_ok L sb (update_view sb ip V)" using assms(1) u unfolding meta_ok_def by simp
  show "data_block L sb b \<Longrightarrow> update_view sb ip V b = V b" using assms(2) by (auto simp: update_view_def data_block_def)
qed

lemma update_file:
  assumes "meta_ok L sb V" "inum ip < sb_ninodes sb" "ino_ok L sb V jp"
  shows "addr (update_view sb ip V) jp m = addr V jp m" "own (update_view sb ip V) jp = own V jp"
    "ino_ok L sb (update_view sb ip V) jp" "j < MAXFILE * BSIZE \<Longrightarrow> byte (update_view sb ip V) jp j = byte V jp j"
proof -
  let ?V = "update_view sb ip V"
  note u = update_meta [OF assms(1,2)] and o = ino_okD [OF assms(3)]
  have eq: "?V b = V b" if "b \<in> own V jp" for b by (rule u(3) [OF o(1) [OF that]])
  then have c: "?V (iaddrs jp ! NDIRECT) = V (iaddrs jp ! NDIRECT) \<or> iaddrs jp ! NDIRECT = 0" using own_indirect by blast
  show ad: "addr ?V jp m = addr V jp m" for m using c by (rule addr_cong)
  show ow: "own ?V jp = own V jp" using c by (rule own_cong)
  have "used sb ?V b" if "b \<in> own V jp" for b using u(1) [of b] o [OF that] by (simp add: data_block_def)
  then show "ino_ok L sb ?V jp" using assms(3) unfolding ino_ok_def ad ow by blast
  show "byte ?V jp j = byte V jp j" if "j < MAXFILE * BSIZE"
  proof -
    have "j div BSIZE < MAXFILE" using that by (simp add: sizes)
    then show ?thesis using eq own_addr [of "j div BSIZE" V jp] by (auto simp: byte_def ad Let_def)
  qed
qed

section \<open>Update and lock\<close>

context block_store
begin

lemma iupdate_spec:
  assumes "inv (fblk f)" "held (fblk f) = Map.empty" "idev (itab f ! i) = dev" "length (iaddrs (itab f ! i)) = NDIRECT + 1"
    "IBLOCK (inum (itab f ! i)) (fsb f) \<notin> log_blocks" "spare (fblk f) 1"
  shows "\<exists>s. iupdate api i f = Some (f\<lparr>fblk := s\<rparr>) \<and>
    evolves (fblk f) (update_view (fsb f) (itab f ! i) (view (fblk f))) {IBLOCK (inum (itab f ! i)) (fsb f)} s"
proof -
  let ?ip = "itab f ! i" and ?V = "view (fblk f)"
  let ?b = "IBLOCK (inum ?ip) (fsb f)"
  let ?x = "splice (?V ?b) (dinode_off (inum ?ip)) (dinode_bytes ?ip)"
  have "length ?x = BSIZE" using view_length [OF assms(1)] dinode_length [OF assms(4)] dinode_off_bound by simp
  moreover have "room (fblk f) {?b}" by (rule spare_room [OF assms(6,1)]) (use assms(5) in simp_all)
  ultimately obtain bp s1 s2 s3 where "blk_bread api dev ?b (fblk f) = Some (bp, s1)" "blk_data api bp s1 = ?V ?b"
    "blk_log_write api bp (blk_set api bp ?x s1) = Some s2" "blk_brelse api bp s2 = Some s3"
    "evolves (fblk f) (?V(?b := ?x)) {?b} s3"
    using update_block [OF assms(1), of ?b ?x] assms(2) by (auto simp: few_def)
  then show ?thesis using assms(3) by (intro exI [of _ s3]) (simp add: iupdate_def Let_def update_view_def)
qed

text \<open>\<open>ilock\<close> on an entry that is not yet valid.\<close>

lemma ilock_spec:
  assumes "inv (fblk f)" "held (fblk f) = Map.empty" "i < length (itab f)" "1 \<le> iref (itab f ! i)" "\<not> sl_locked (ilk (itab f ! i))"
    "\<not> ivalid (itab f ! i)" "idev (itab f ! i) = dev"
  defines "ip \<equiv> (disk_inode (fsb f) (view (fblk f)) (inum (itab f ! i)) (itab f ! i))
    \<lparr>ilk := \<lparr>sl_locked = True, sl_pid = me (fblk f)\<rparr>, ivalid := True\<rparr>"
  shows "if itype ip = 0 then ilock api i f = None
    else \<exists>s. ilock api i f = Some (with_ino i ip s f) \<and> evolves (fblk f) (view (fblk f)) {} s"
proof -
  let ?ip = "itab f ! i" and ?V = "view (fblk f)"
  let ?b = "IBLOCK (inum ?ip) (fsb f)"
  obtain bp s1 s2 where r: "blk_bread api dev ?b (fblk f) = Some (bp, s1)" "blk_data api bp s1 = ?V ?b"
    "blk_brelse api bp s1 = Some s2" "evolves (fblk f) ?V {} s2"
    using read_block [OF assms(1), of ?b] assms(2) by (auto simp: few_def)
  note a = acquire_law [OF assms(1,5), of "NBUF + i"]
  have ld: "load_dinode d k (?ip\<lparr>ilk := lk\<rparr>) = (load_dinode d k ?ip)\<lparr>ilk := lk\<rparr>" for d k lk by (simp add: load_dinode_def)
  show ?thesis
    using assms(3-7) a r
    by (simp add: ilock_def Let_def upd_ino_def with_ino_def ip_def disk_inode_def ld) blast
qed

text \<open>A write, as the caller of \<open>writei\<close> sees it.\<close>

lemma writei_spec:
  assumes f: "file_ok i f" and de: "dense (view (fblk f)) (itab f ! i)" and nn: "inum (itab f ! i) < sb_ninodes (fsb f)"
    and ok: "off \<le> isize (itab f ! i)" "unat off + length bs \<le> MAXFILE * BSIZE" "length bs = unat n"
    and src: "source get src bs" and w: "unat off mod BSIZE + length bs \<le> w * BSIZE" "spare (fblk f) (6 * w + 1)"
  shows "\<exists>k f1 f'. writei api get i src off n f = Some (int k, f') \<and> k \<le> length bs \<and>
    writes_to i (6 * w) f f1 \<and> wrote i (unat off) (take k bs) f f1 \<and> stops (unat off) bs k f1 \<and>
    itab f' = (itab f1)[i := (itab f1 ! i)\<lparr>isize := max (isize (itab f ! i)) (off + of_nat k)\<rparr>] \<and>
    fsb f' = fsb f1 \<and> fcwd f' = fcwd f1 \<and>
    evolves (fblk f1) (update_view (fsb f) (itab f' ! i) (view (fblk f1))) {IBLOCK (inum (itab f ! i)) (fsb f)} (fblk f')"
proof -
  let ?ip = "itab f ! i"
  have bn: "(of_nat (MAXFILE * BSIZE) :: u32) = 274432" by (simp add: sizes)
  have on: "unat (off + n) = unat off + length bs" using ok(2,3) by (subst unat_plus_if') (simp add: sizes)
  have c: "\<not> (isize ?ip < off \<or> off + n < off)" "\<not> of_nat (MAXFILE * BSIZE) < off + n"
    using ok on unfolding bn word_less_nat_alt word_le_nat_alt by (simp_all add: sizes)
  obtain k f1 where 1: "writei_loop api get i src off n 0 f = Some (0 + of_nat k, off + of_nat k, f1)" "k \<le> length bs"
    "writes_to i (6 * w) f f1" "wrote i (unat off) (take k bs) f f1" "stops (unat off) bs k f1"
    using writei_loop_spec [OF f _ _ ok(2) src _ spare_mono [OF w(2), of "6 * w"], of n 0] ok(3) w(1) by auto
  note d = writes_toD [OF 1(3) f] and e = overwritesD [OF writes_toD(2) [OF 1(3) f]]
  obtain xs where xs: "itab f1 ! i = ?ip\<lparr>iaddrs := xs\<rparr>" using e(3) by blast
  have f1: "inv (fblk f1)" "held (fblk f1) = Map.empty" "i < length (itab f1)" "idev (itab f1 ! i) = dev"
    "length (iaddrs (itab f1 ! i)) = NDIRECT + 1" using d(1) by (simp_all add: file_ok_def ino_ok_def)
  have nl: "IBLOCK (inum ?ip) (fsb f) \<notin> log_blocks" using f nn by (simp add: file_ok_def meta_ok_def)
  define f2 where "f2 = (if isize (itab f1 ! i) < off + of_nat k then upd_ino i (\<lambda>ip. ip\<lparr>isize := off + of_nat k\<rparr>) f1 else f1)"
  have f2: "itab f2 = (itab f1)[i := (itab f1 ! i)\<lparr>isize := max (isize ?ip) (off + of_nat k)\<rparr>]"
    "fblk f2 = fblk f1" "fsb f2 = fsb f1" "fcwd f2 = fcwd f1"
    using xs list_update_id [of "itab f1" i]
    by (auto simp: f2_def upd_ino_def max_def not_less simp del: list_update_id)
  have sp: "spare (fblk f1) 1" by (rule spare_writes [OF 1(3) f w(2)])
  obtain s where s: "iupdate api i f2 = Some (f2\<lparr>fblk := s\<rparr>)"
    "evolves (fblk f2) (update_view (fsb f2) (itab f2 ! i) (view (fblk f2))) {IBLOCK (inum (itab f2 ! i)) (fsb f2)} s"
    using iupdate_spec [of f2 i] f1 f2 xs nl d(3) sp by auto
  have kn: "k < 2 ^ 31" using 1(2) ok(2) by (simp add: sizes)
  have "sint (of_nat k :: u32) = int k" using kn by (simp add: sint_uint unsigned_of_nat signed_take_bit_int_eq_self take_bit_nat_eq_self)
  then have "writei api get i src off n f = Some (int k, f2\<lparr>fblk := s\<rparr>)"
    using c 1(1) s(1) by (simp add: writei_def Let_def f2_def)
  moreover have "evolves (fblk f1) (update_view (fsb f) (itab (f2\<lparr>fblk := s\<rparr>) ! i) (view (fblk f1))) {IBLOCK (inum ?ip) (fsb f)} s"
    using s(2) f2 f1(3) xs d(3) by simp
  ultimately show ?thesis using 1 f2 by (intro exI [of _ k] exI [of _ f1] exI [of _ "f2\<lparr>fblk := s\<rparr>"]) simp
qed

end

end
