(* ===== verification/X_Fs_Read.thy ===== *)
theory X_Fs_Read
  imports X_Fs_Inode
begin

text \<open>
  What \<open>readi\<close> returns, and files, inodes and free blocks on the kernel's log and cache.
\<close>

section \<open>Reading\<close>

text \<open>A destination that takes every part: \<open>deliver a xs m\<close> is the memory \<open>m\<close> with \<open>xs\<close> at \<open>a\<close>.\<close>

definition sink :: "(u64 \<Rightarrow> bytes \<Rightarrow> 'm \<Rightarrow> int \<times> 'm) \<Rightarrow> (u64 \<Rightarrow> bytes \<Rightarrow> 'm \<Rightarrow> 'm) \<Rightarrow> bool" where
  "sink put deliver \<longleftrightarrow> (\<forall>a xs m. put a xs m = (0, deliver a xs m)) \<and> (\<forall>a m. deliver a [] m = m) \<and>
     (\<forall>a xs ys m. deliver (a + of_nat (length xs)) ys (deliver a xs m) = deliver a (xs @ ys) m)"

lemma sink_buffer: "sink to_buffer (\<lambda>a xs m. m @ xs)"
  by (simp add: sink_def to_buffer_def)

lemma sinkD:
  assumes "sink put deliver"
  shows "put a xs m = (0, deliver a xs m)" "deliver a [] m = m"
    "deliver (a + of_nat (length xs)) ys (deliver a xs m) = deliver a (xs @ ys) m"
  using assms unfolding sink_def by blast+

lemma same_block:
  assumes "p mod B + j < (B :: nat)"
  shows "(p + j) div B = p div B" "(p + j) mod B = p mod B + j"
proof -
  have e: "p + j = (p mod B + j) + (p div B) * B" by simp
  show "(p + j) div B = p div B" using assms by (subst e, subst div_mult_self1) auto
  show "(p + j) mod B = p mod B + j" using assms by (subst e, subst mod_mult_self1) simp
qed

context block_store
begin

lemma bmap_mapped:
  assumes f: "file_ok i f" and bn: "unat bn < MAXFILE" and a: "file_addr i f (unat bn) = a" "a \<noteq> 0"
  shows "\<exists>s. bmap api i bn f = Some (a, f\<lparr>fblk := s\<rparr>) \<and> evolves (fblk f) (view (fblk f)) {} s"
proof -
  let ?ip = "itab f ! i" and ?V = "view (fblk f)"
  have ok: "inv (fblk f)" "held (fblk f) = Map.empty" "idev ?ip = dev" "ino_ok log_blocks (fsb f) ?V ?ip"
    using f by (simp_all add: file_ok_def)
  show ?thesis
  proof (cases "unat bn < NDIRECT")
    case True
    then show ?thesis using a evolves_refl [OF ok(1)] by (intro exI [of _ "fblk f"]) (simp add: bmap_def Let_def addr_def)
  next
    case False
    let ?k = "unat bn - NDIRECT" and ?ind = "iaddrs ?ip ! NDIRECT"
    have k: "?k < NINDIRECT" using False bn by (simp add: sizes)
    have i0: "?ind \<noteq> 0" "indirect_at (?V ?ind) ?k = a" using a False by (simp_all add: addr_def split: if_splits)
    obtain bp s1 s2 where r: "blk_bread api dev ?ind (fblk f) = Some (bp, s1)" "blk_data api bp s1 = ?V ?ind"
      "blk_brelse api bp s1 = Some s2" "evolves (fblk f) ?V {} s2"
      using read_block [OF ok(1), of ?ind] ok(2) by (auto simp: few_def)
    then show ?thesis using False k i0 a(2) ok(3) by (intro exI [of _ s2]) (simp add: bmap_def Let_def)
  qed
qed

lemma file_ok_cache: "\<lbrakk>file_ok i f; evolves (fblk f) (view (fblk f)) {} s\<rbrakk> \<Longrightarrow> file_ok i (f\<lparr>fblk := s\<rparr>)"
  by (simp add: file_ok_def evolves_def)

lemma readi_loop_spec:
  assumes "file_ok i f" "len = unat (n - tot)" "tot \<le> n" "unat off + len \<le> MAXFILE * BSIZE" "sink put deliver"
    "\<And>j. \<lbrakk>unat off \<le> j; j < unat off + len\<rbrakk> \<Longrightarrow> file_addr i f (j div BSIZE) \<noteq> 0"
    "len = 0 \<or> unat off mod BSIZE + len \<le> w * BSIZE"
  shows "\<exists>s. readi_loop api put i dst off n tot m f =
      Some (sint n, deliver dst (map (file_byte i f) [unat off..<unat off + len]) m, f\<lparr>fblk := s\<rparr>) \<and>
    evolves (fblk f) (view (fblk f)) {} s"
  using assms
proof (induction w arbitrary: f len tot off dst m)
  case 0
  then have "len = 0" by auto
  then have "tot = n" using 0(2,3) by (simp add: unat_eq_0)
  then have "readi_loop api put i dst off n tot m f = Some (sint n, m, f)" by (simp add: readi_loop.simps)
  then show ?case
    using \<open>len = 0\<close> sinkD(2) [OF 0(5)] evolves_refl 0(1) by (intro exI [of _ "fblk f"]) (simp add: file_ok_def)
next
  case (Suc w)
  note f = Suc.prems(1) and len = Suc.prems(2) and sk = sinkD [OF Suc.prems(5)]
  let ?V = "view (fblk f)" and ?p = "unat off"
  have iv: "inv (fblk f)" "held (fblk f) = Map.empty" "idev (itab f ! i) = dev" using f by (simp_all add: file_ok_def)
  show ?case
  proof (cases "len = 0")
    case True
    then have "tot = n" using len Suc.prems(3) by (simp add: unat_eq_0)
    then have "readi_loop api put i dst off n tot m f = Some (sint n, m, f)" by (simp add: readi_loop.simps)
    then show ?thesis using True sk(2) evolves_refl [OF iv(1)] by (intro exI [of _ "fblk f"]) simp
  next
    case False
    define k where "k = min (n - tot) (of_nat BSIZE - off mod of_nat BSIZE)"
    define bs where "bs = map (file_byte i f) [?p..<?p + len]"
    have lb: "length bs = len" by (simp add: bs_def)
    have wo: "?p mod BSIZE + length bs \<le> Suc w * BSIZE" using Suc.prems(7) False lb by simp
    have b0: "bs \<noteq> []" "length bs = unat (n - tot)" "?p + length bs \<le> MAXFILE * BSIZE" using False lb len Suc.prems(4) by auto
    note st = block_step [OF b0(2) Suc.prems(3) b0(1,3) wo, folded k_def]
    let ?q = "?p div BSIZE"
    define a where "a = file_addr i f ?q"
    have a0: "a \<noteq> 0" unfolding a_def by (rule Suc.prems(6)) (use False in simp_all)
    obtain s0 where 1: "bmap api i (off div of_nat BSIZE) f = Some (a, f\<lparr>fblk := s0\<rparr>)" "evolves (fblk f) ?V {} s0"
      using bmap_mapped [OF f, of "off div of_nat BSIZE"] st(7,8) a0 a_def by auto
    have f1: "file_ok i (f\<lparr>fblk := s0\<rparr>)" by (rule file_ok_cache [OF f 1(2)])
    have v0: "view s0 = ?V" "held s0 = Map.empty" "inv s0" using 1(2) iv(2) by (simp_all add: evolves_def)
    obtain bp s1 s2 where r: "blk_bread api dev a s0 = Some (bp, s1)" "blk_data api bp s1 = ?V a"
      "blk_brelse api bp s1 = Some s2" "evolves s0 ?V {} s2"
      using read_block [OF v0(3), of a] v0 by (auto simp: few_def)
    have kl: "unat k \<le> len" "?p mod BSIZE + unat k \<le> BSIZE" unfolding st(2) by (simp_all add: lb sizes)
    have va: "length (?V a) = BSIZE" by (rule view_length [OF iv(1)])
    have part: "take (unat k) (drop (?p mod BSIZE) (?V a)) = take (unat k) bs"
    proof (rule nth_equalityI)
      show "length (take (unat k) (drop (?p mod BSIZE) (?V a))) = length (take (unat k) bs)" using kl va lb by simp
      fix j assume "j < length (take (unat k) (drop (?p mod BSIZE) (?V a)))"
      then have j: "j < unat k" by simp
      have lt: "?p mod BSIZE + j < BSIZE" using j kl by simp
      have "(?p + j) div BSIZE = ?q" "(?p + j) mod BSIZE = ?p mod BSIZE + j"
        using same_block [OF lt] by simp_all
      then have "file_byte i f (?p + j) = ?V a ! (?p mod BSIZE + j)" using a0 by (simp add: byte_def a_def)
      then show "take (unat k) (drop (?p mod BSIZE) (?V a)) ! j = take (unat k) bs ! j" using j kl va by (simp add: bs_def)
    qed
    define f2 where "f2 = f\<lparr>fblk := s2\<rparr>"
    have e2: "evolves (fblk f) ?V {} s2" by (rule evolves_trans [OF 1(2) r(4)]) simp
    have f2: "file_ok i f2" "view (fblk f2) = ?V" "itab f2 = itab f"
      using file_ok_cache [OF f e2] e2 by (simp_all add: f2_def evolves_def)
    have up: "unat (off + k) + (len - unat k) = ?p + len" using st(6) kl by simp
    have "\<exists>s. readi_loop api put i (dst + ucast k) (off + k) n (tot + k) (deliver dst (take (unat k) bs) m) f2 =
        Some (sint n, deliver (dst + ucast k) (map (file_byte i f2) [unat (off + k)..<unat (off + k) + (len - unat k)])
          (deliver dst (take (unat k) bs) m), f2\<lparr>fblk := s\<rparr>) \<and> evolves (fblk f2) (view (fblk f2)) {} s"
    proof (rule Suc.IH [OF f2(1) _ st(4) _ Suc.prems(5)])
      show "len - unat k = unat (n - (tot + k))" using st(5) lb by simp
      show "unat (off + k) + (len - unat k) \<le> MAXFILE * BSIZE" using up Suc.prems(4) by simp
      show "file_addr i f2 (j div BSIZE) \<noteq> 0" if "unat (off + k) \<le> j" "j < unat (off + k) + (len - unat k)" for j
        using Suc.prems(6) [of j] that st(6) up f2(2,3) by simp
      show "len - unat k = 0 \<or> unat (off + k) mod BSIZE + (len - unat k) \<le> w * BSIZE"
        using st(9) lb by (cases "unat k < len") simp_all
    qed
    then obtain s where s: "readi_loop api put i (dst + ucast k) (off + k) n (tot + k) (deliver dst (take (unat k) bs) m) f2 =
        Some (sint n, deliver (dst + ucast k) (map (file_byte i f) [?p + unat k..<?p + len])
          (deliver dst (take (unat k) bs) m), f\<lparr>fblk := s\<rparr>)" "evolves s2 ?V {} s"
      unfolding up using st(6) f2(2,3) by (auto simp: f2_def)
    have "drop (unat k) bs = map (file_byte i f) [?p + unat k..<?p + len]" by (simp add: bs_def drop_map)
    then have d: "deliver (dst + ucast k) (map (file_byte i f) [?p + unat k..<?p + len]) (deliver dst (take (unat k) bs) m) = deliver dst bs m"
      using sk(3) [of dst "take (unat k) bs" "drop (unat k) bs" m] kl lb append_take_drop_id [of "unat k" bs] by simp
    have "readi_loop api put i dst off n tot m f =
        readi_loop api put i (dst + ucast k) (off + k) n (tot + k) (deliver dst (take (unat k) bs) m) f2"
      using st(1) 1(1) a0 r(1-3) iv(3) sk(1) part 
      by (subst readi_loop.simps) (simp add: Let_def f2_def k_def [symmetric])
    then show ?thesis using s(1) d evolves_trans [OF e2 s(2)] by (auto simp: bs_def)
  qed
qed

lemma readi_spec:
  assumes f: "file_ok i f" and de: "dense (view (fblk f)) (itab f ! i)" and sk: "sink put deliver"
    and off: "off \<le> isize (itab f ! i)" "unat off + unat n < 2 ^ 32"
  defines "len \<equiv> min (unat n) (unat (isize (itab f ! i)) - unat off)"
  shows "\<exists>s. readi api put i dst off n m f =
      Some (int len, deliver dst (map (file_byte i f) [unat off..<unat off + len]) m, f\<lparr>fblk := s\<rparr>) \<and>
    evolves (fblk f) (view (fblk f)) {} s"
proof -
  let ?sz = "isize (itab f ! i)"
  define n' where "n' = (if ?sz < off + n then ?sz - off else n)"
  have on: "unat (off + n) = unat off + unat n" using off(2) by (subst unat_plus_if') simp
  have c: "\<not> (?sz < off \<or> off + n < off)" using off(1) on by (auto simp: word_less_nat_alt word_le_nat_alt)
  have un: "unat n' = len"
    using off(1) on by (auto simp: n'_def len_def word_less_nat_alt unat_sub word_le_nat_alt min_def)
  have le: "unat off + len \<le> unat ?sz" using off(1) by (auto simp: len_def word_le_nat_alt)
  have sz: "unat ?sz \<le> MAXFILE * BSIZE" using de by (simp add: dense_def)
  have "\<exists>s. readi_loop api put i dst off n' 0 m f =
      Some (sint n', deliver dst (map (file_byte i f) [unat off..<unat off + len]) m, f\<lparr>fblk := s\<rparr>) \<and>
    evolves (fblk f) (view (fblk f)) {} s"
  proof (rule readi_loop_spec [OF f _ _ _ sk])
    show "file_addr i f (j div BSIZE) \<noteq> 0" if "unat off \<le> j" "j < unat off + len" for j
      using de le that by (simp add: dense_def)
    show "len = 0 \<or> unat off mod BSIZE + len \<le> (unat off mod BSIZE + len) * BSIZE" by (simp add: sizes)
  qed (use un le sz in simp_all)
  moreover have "sint n' = int len"
  proof -
    have "len < 2 ^ 31" using le sz by (simp add: sizes)
    moreover have "n' = of_nat len" unfolding un [symmetric] by simp
    ultimately show ?thesis by (simp add: sint_uint unsigned_of_nat signed_take_bit_int_eq_self take_bit_nat_eq_self)
  qed
  ultimately show ?thesis using c by (simp add: readi_def Let_def n'_def)
qed

end

end
