(* ===== verification/X_Mkfs.thy ===== *)
theory X_Mkfs
  imports X_Fs_File
begin

text \<open>
  The layout of the disk (\<open>mkfs/mkfs.c\<close>): the superblock that \<open>main\<close> writes and the bitmap that its
  \<open>balloc\<close> writes, and that they meet what the kernel's file system relies on.
\<close>

section \<open>The layout\<close>

definition FSSIZE :: nat where "FSSIZE = 2000"
definition NINODES :: nat where "NINODES = 200"
definition nbitmap :: nat where "nbitmap = FSSIZE div (BSIZE * 8) + 1"
definition ninodeblocks :: nat where "ninodeblocks = NINODES div IPB + 1"
definition nlog :: nat where "nlog = nat LOGSIZE"
definition nmeta :: nat where "nmeta = 2 + nlog + ninodeblocks + nbitmap"

definition mkfs_sb :: superblock where
  "mkfs_sb = \<lparr>sb_magic = FSMAGIC, sb_size = of_nat FSSIZE, sb_nblocks = of_nat (FSSIZE - nmeta),
     sb_ninodes = of_nat NINODES, sb_nlog = of_nat nlog, sb_logstart = 2, sb_inodestart = of_nat (2 + nlog),
     sb_bmapstart = of_nat (2 + nlog + ninodeblocks)\<rparr>"

text \<open>The bitmap block of \<open>balloc\<close>: the first \<open>n\<close> blocks are in use.\<close>

definition mkfs_bitmap :: "int \<Rightarrow> bytes" where
  "mkfs_bitmap n = fold (\<lambda>i buf. set_bit_used buf i) [0..<nat n] (replicate BSIZE 0)"

definition mkfs_balloc :: "int \<Rightarrow> (u32 \<Rightarrow> bytes) \<Rightarrow> (u32 \<Rightarrow> bytes) option" where
  "mkfs_balloc n D = (if n < int (BSIZE * 8) then Some (D(sb_bmapstart mkfs_sb := mkfs_bitmap n)) else None)"

lemma mkfs_sb_simps [simp]:
  "nmeta = 46" "sb_magic mkfs_sb = FSMAGIC" "sb_size mkfs_sb = 2000" "sb_nblocks mkfs_sb = 1954" "sb_ninodes mkfs_sb = 200"
  "sb_nlog mkfs_sb = 30" "sb_logstart mkfs_sb = 2" "sb_inodestart mkfs_sb = 32" "sb_bmapstart mkfs_sb = 45"
  by (simp_all add: mkfs_sb_def FSSIZE_def NINODES_def nmeta_def nlog_def ninodeblocks_def nbitmap_def IPB_def BSIZE_def
      LOGSIZE_def MAXOPBLOCKS_def)

section \<open>What the kernel relies on\<close>

lemma length_fold_bits [simp]: "length (fold (\<lambda>i buf. set_bit_used buf i) is d) = length d"
  by (induction "is" arbitrary: d) auto

lemma length_mkfs_bitmap [simp]: "length (mkfs_bitmap n) = BSIZE"
  by (simp add: mkfs_bitmap_def)

lemma fold_bits:
  "\<lbrakk>length d = BSIZE; set is \<subseteq> {..<BPB}; bj < BPB\<rbrakk> \<Longrightarrow>
    bit_used (fold (\<lambda>i buf. set_bit_used buf i) is d) bj \<longleftrightarrow> bj \<in> set is \<or> bit_used d bj"
  by (induction "is" arbitrary: d) (auto simp: set_bit_used)

lemma mkfs_bitmap_used:
  assumes "n \<le> int BPB" "bi < BPB"
  shows "bit_used (mkfs_bitmap n) bi \<longleftrightarrow> int bi < n"
proof -
  have "\<not> bit_used (replicate BSIZE 0) bi" using BPB_8 [OF assms(2)] by (simp add: bit_used_iff)
  moreover have "set [0..<nat n] \<subseteq> {..<BPB}" using assms(1) by auto
  ultimately show ?thesis using assms(2) by (auto simp: mkfs_bitmap_def fold_bits)
qed

lemma mkfs_blocks:
  "b < 2000 \<Longrightarrow> BBLOCK b mkfs_sb = 45" "n < 200 \<Longrightarrow> unat (IBLOCK n mkfs_sb) = unat n div 16 + 32"
proof -
  show "BBLOCK b mkfs_sb = 45" if "b < 2000"
  proof -
    have "unat b div 8192 = 0" using that by (simp add: word_less_nat_alt)
    then have "b div 8192 = 0" by (simp add: word_unat_eq_iff unat_div)
    then show ?thesis by (simp add: BBLOCK_def BPB_def BSIZE_def)
  qed
  show "unat (IBLOCK n mkfs_sb) = unat n div 16 + 32" if "n < 200"
  proof -
    have "unat n < 200" using that by (simp add: word_less_nat_alt)
    then show ?thesis by (simp add: IBLOCK_def IPB_def BSIZE_def unat_word_ariths unat_div)
  qed
qed

lemma mkfs_log: "b \<in> log_area 2 \<longleftrightarrow> 2 \<le> unat b \<and> unat b < 32"
  using unsigned_less [of b, where ?'a = nat] by (auto simp: log_area_iff unat_sub_if' LOGSIZE_def MAXOPBLOCKS_def)

lemma mkfs_data: "data_block (log_area 2) mkfs_sb b" if "46 \<le> unat b" "unat b < 2000"
proof -
  have "IBLOCK n mkfs_sb \<noteq> b" if "n < 200" for n
  proof
    assume "IBLOCK n mkfs_sb = b"
    then have "unat b = unat n div 16 + 32" using mkfs_blocks(2) [OF that] by simp
    moreover have "unat n < 200" using that by (simp add: word_less_nat_alt)
    ultimately show False using \<open>46 \<le> unat b\<close> by simp
  qed
  moreover have "b \<noteq> 45" "b \<noteq> 0" using that(1) by auto
  ultimately show ?thesis
    using that mkfs_blocks(1) by (auto simp: data_block_def mkfs_log word_less_nat_alt)
qed

lemma mkfs_used:
  assumes "V 45 = mkfs_bitmap n" "n \<le> int BPB" "b < 2000"
  shows "used mkfs_sb V b \<longleftrightarrow> int (unat b) < n"
proof -
  have "unat b < BPB" using assms(3) by (simp add: BPB_val word_less_nat_alt)
  then show ?thesis using assms mkfs_blocks(1) mkfs_bitmap_used by (simp add: used_def)
qed

lemma mkfs_meta:
  assumes "V 45 = mkfs_bitmap n" "int nmeta \<le> n" "n \<le> int BPB"
  shows "meta_ok (log_area 2) mkfs_sb V"
  unfolding meta_ok_def
proof (intro conjI allI impI)
  have ib: "32 \<le> unat (IBLOCK m mkfs_sb)" "unat (IBLOCK m mkfs_sb) < 45" if "m < sb_ninodes mkfs_sb" for m
    using mkfs_blocks(2) [of m] that by (simp_all add: word_less_nat_alt)
  show "0 < sb_size mkfs_sb" "unat (sb_size mkfs_sb) + BPB < 2 ^ 32" by (simp_all add: BPB_val)
  show "BBLOCK b mkfs_sb < sb_size mkfs_sb" "BBLOCK b mkfs_sb \<notin> log_area 2" if "b < sb_size mkfs_sb" for b
    using mkfs_blocks(1) [of b] that by (simp_all add: mkfs_log)
  show "IBLOCK m mkfs_sb \<noteq> BBLOCK b mkfs_sb" if "b < sb_size mkfs_sb" "m < sb_ninodes mkfs_sb" for b m
    using mkfs_blocks(1) [of b] ib [OF that(2)] that(1) by auto
  show "IBLOCK m mkfs_sb \<notin> log_area 2" "IBLOCK m mkfs_sb \<noteq> 0" if "m < sb_ninodes mkfs_sb" for m
    using ib [OF that] by (auto simp: mkfs_log)
  show "used mkfs_sb V b" if "b < sb_size mkfs_sb" "\<not> data_block (log_area 2) mkfs_sb b" for b
  proof -
    have "unat b < 46" using that mkfs_data [of b] by (force simp: word_less_nat_alt)
    then have "int (unat b) < 46" by linarith
    then have "uint b < 46" by simp
    then show ?thesis using mkfs_used [of V n b] assms that(1) by simp
  qed
qed

end
