(* ===== verification/X_Fs_Kernel.thy ===== *)
theory X_Fs_Kernel
  imports X_Fs_Read X_Mkfs
begin

text \<open>
  Files as lists of bytes, on the kernel's log and cache: what a write does to its file, to the inode on
  disk and to everything else, and what a read returns.
\<close>

section \<open>A write as a whole\<close>

lemma isize_free [simp]:
  "addr V (ip\<lparr>isize := s\<rparr>) = addr V ip" "own V (ip\<lparr>isize := s\<rparr>) = own V ip" "byte V (ip\<lparr>isize := s\<rparr>) = byte V ip"
  "ino_ok L sb V (ip\<lparr>isize := s\<rparr>) = ino_ok L sb V ip"
proof -
  show a: "addr V (ip\<lparr>isize := s\<rparr>) = addr V ip" by (simp add: addr_def fun_eq_iff)
  then show o: "own V (ip\<lparr>isize := s\<rparr>) = own V ip" by (simp add: own_def)
  show "byte V (ip\<lparr>isize := s\<rparr>) = byte V ip" by (simp add: byte_def fun_eq_iff a)
  show "ino_ok L sb V (ip\<lparr>isize := s\<rparr>) = ino_ok L sb V ip" unfolding ino_ok_def a o by simp
qed

text \<open>Everything apart from one inode: the files that share no block with it, and the other inodes on disk.\<close>

definition others_kept :: "u32 set \<Rightarrow> superblock \<Rightarrow> (u32 \<Rightarrow> bytes) \<Rightarrow> inode \<Rightarrow> (u32 \<Rightarrow> bytes) \<Rightarrow> inode \<Rightarrow> bool" where
  "others_kept L sb V ip V' ip' \<longleftrightarrow>
     (\<forall>jp. ino_ok L sb V jp \<and> own V ip \<inter> own V jp = {} \<longrightarrow> ino_ok L sb V' jp \<and> own V' jp = own V jp \<and>
        own V' ip' \<inter> own V' jp = {} \<and> (\<forall>j < MAXFILE * BSIZE. byte V' jp j = byte V jp j)) \<and>
     (\<forall>n < sb_ninodes sb. \<forall>jp. n \<noteq> inum ip \<longrightarrow> disk_inode sb V' n jp = disk_inode sb V n jp)"

lemma update_kept:
  fixes sz :: u32
  assumes ow: "overwrites L sb V ip V1 ip1" and len: "\<And>b. length (V1 b) = BSIZE"
    and ip: "inum ip < sb_ninodes sb" "ino_ok L sb V ip" "meta_ok L sb V"
  defines "ip' \<equiv> ip1\<lparr>isize := sz\<rparr>" and "V' \<equiv> update_view sb (ip1\<lparr>isize := sz\<rparr>) V1"
  shows "others_kept L sb V ip V' ip'"
  unfolding others_kept_def
proof (intro conjI allI impI)
  note d = overwritesD [OF ow]
  obtain xs where xs: "ip1 = ip\<lparr>iaddrs := xs\<rparr>" using d(3) by blast
  have n': "inum ip' < sb_ninodes sb" using ip(1) xs by (simp add: ip'_def)
  note u = update_file [OF d(2) n']
  show "ino_ok L sb V' jp" "own V' jp = own V jp" "own V' ip' \<inter> own V' jp = {}" "j < MAXFILE * BSIZE \<Longrightarrow> byte V' jp j = byte V jp j"
    if j: "ino_ok L sb V jp \<and> own V ip \<inter> own V jp = {}" for jp j
  proof -
    note r = overwrites_other [OF ow conjunct1 [OF j] conjunct2 [OF j]]
    have i1: "ino_ok L sb V1 ip'" using d(1) by (simp add: ip'_def)
    show "ino_ok L sb V' jp" using u(3) [OF r(3)] by (simp add: V'_def ip'_def)
    show o: "own V' jp = own V jp" using u(2) [OF r(3)] r(1) by (simp add: V'_def ip'_def)
    show "own V' ip' \<inter> own V' jp = {}" using u(2) [OF i1] u(2) [OF r(3)] r(2) by (simp add: V'_def ip'_def)
    show "j < MAXFILE * BSIZE \<Longrightarrow> byte V' jp j = byte V jp j" using u(4) [OF r(3)] r(4) by (simp add: V'_def ip'_def)
  qed
  show "disk_inode sb V' n jp = disk_inode sb V n jp" if "n < sb_ninodes sb" "n \<noteq> inum ip" for n jp
  proof -
    have l: "length (iaddrs ip') = NDIRECT + 1" using d(1) by (simp add: ino_ok_def ip'_def)
    have ne: "n \<noteq> inum ip'" using that(2) xs by (simp add: ip'_def)
    have "\<not> data_block L sb (IBLOCK n sb)" using that(1) by (auto simp: data_block_def)
    moreover have "IBLOCK n sb \<notin> own V ip" using ino_okD(1) [OF ip(2)] calculation by blast
    moreover have "IBLOCK n sb \<noteq> 0" "\<forall>c < sb_size sb. BBLOCK c sb \<noteq> IBLOCK n sb"
      using ip(3) that(1) unfolding meta_ok_def by metis+
    ultimately have "V1 (IBLOCK n sb) = V (IBLOCK n sb)" using d(7) by blast
    then show ?thesis using update_disk_inode [OF len l, where sb = sb and n = n and jp = jp] ne by (simp add: V'_def ip'_def disk_inode_def)
  qed
qed

context block_store
begin

lemma writei_effect:
  assumes f: "file_ok i f" and de: "dense (view (fblk f)) (itab f ! i)" and nn: "inum (itab f ! i) < sb_ninodes (fsb f)"
    and ok: "off \<le> isize (itab f ! i)" "unat off + length bs \<le> MAXFILE * BSIZE" "length bs = unat n"
    and src: "source get src bs" and w: "unat off mod BSIZE + length bs \<le> w * BSIZE" "spare (fblk f) (6 * w + 1)"
  shows "\<exists>k f'. writei api get i src off n f = Some (int k, f') \<and> k \<le> length bs \<and> stops (unat off) bs k f' \<and>
    file_ok i f' \<and> dense (view (fblk f')) (itab f' ! i) \<and>
    (\<exists>xs. itab f' = (itab f)[i := (itab f ! i)\<lparr>iaddrs := xs, isize := max (isize (itab f ! i)) (off + of_nat k)\<rparr>]) \<and>
    fsb f' = fsb f \<and> fcwd f' = fcwd f \<and>
    (\<forall>j < MAXFILE * BSIZE. file_byte i f' j =
       (if unat off \<le> j \<and> j < unat off + k then bs ! (j - unat off) else file_byte i f j)) \<and>
    others_kept log_blocks (fsb f) (view (fblk f)) (itab f ! i) (view (fblk f')) (itab f' ! i) \<and>
    (\<forall>jp. disk_inode (fsb f) (view (fblk f')) (inum (itab f ! i)) jp = on_disk (itab f' ! i) jp) \<and>
    (\<exists>B. evolves (fblk f) (view (fblk f')) B (fblk f') \<and> finite B \<and> card B \<le> 6 * w + 1)"
proof -
  let ?ip = "itab f ! i" and ?V = "view (fblk f)"
  obtain k f1 f' where 1: "writei api get i src off n f = Some (int k, f')" "k \<le> length bs" "writes_to i (6 * w) f f1"
    "wrote i (unat off) (take k bs) f f1" "stops (unat off) bs k f1"
    "itab f' = (itab f1)[i := (itab f1 ! i)\<lparr>isize := max (isize ?ip) (off + of_nat k)\<rparr>]" "fsb f' = fsb f1" "fcwd f' = fcwd f1"
    "evolves (fblk f1) (update_view (fsb f) (itab f' ! i) (view (fblk f1))) {IBLOCK (inum ?ip) (fsb f)} (fblk f')"
    using writei_spec [OF f de nn ok src w] by blast
  note d = writes_toD [OF 1(3) f] and e = overwritesD [OF writes_toD(2) [OF 1(3) f]]
  have i: "i < length (itab f)" "ino_ok log_blocks (fsb f) ?V ?ip" "meta_ok log_blocks (fsb f) ?V"
    using f by (simp_all add: file_ok_def)
  have f1: "inv (fblk f1)" "held (fblk f1) = Map.empty" "idev (itab f1 ! i) = dev"
    using d(1) by (simp_all add: file_ok_def)
  obtain xs where xs: "itab f1 ! i = ?ip\<lparr>iaddrs := xs\<rparr>" using e(3) by blast
  define sz where "sz = max (isize ?ip) (off + of_nat k)"
  have ip': "itab f' ! i = (itab f1 ! i)\<lparr>isize := sz\<rparr>" using 1(6) d(5) i(1) by (simp add: sz_def)
  define V' where "V' = update_view (fsb f) ((itab f1 ! i)\<lparr>isize := sz\<rparr>) (view (fblk f1))"
  have v: "view (fblk f') = V'" "inv (fblk f')" "held (fblk f') = Map.empty"
    using 1(9) f1 ip' by (simp_all add: evolves_def V'_def)
  have n1: "inum ((itab f1 ! i)\<lparr>isize := sz\<rparr>) < sb_ninodes (fsb f)" using nn xs by simp
  note um = update_meta [OF e(2) n1, folded V'_def]
  note uf = update_file [OF e(2) n1, folded V'_def]
  have ad: "file_addr i f' m = file_addr i f1 m" for m using uf(1) [OF e(1)] ip' v(1) by simp
  have bt: "file_byte i f' j = file_byte i f1 j" if "j < MAXFILE * BSIZE" for j using uf(4) [OF e(1) that] ip' v(1) by simp
  have l1: "length (itab f') = length (itab f)" using 1(6) d(5) by simp
  have "file_ok i f'"
    using v um(2) uf(3) [OF e(1)] ip' l1 i(1) f1(3) 1(7) d(3) by (simp add: file_ok_def)
  moreover have "itab f' = (itab f)[i := ?ip\<lparr>iaddrs := xs, isize := sz\<rparr>]"
  proof (rule nth_equalityI)
    show "itab f' ! j = (itab f)[i := ?ip\<lparr>iaddrs := xs, isize := sz\<rparr>] ! j" if "j < length (itab f')" for j
      using that l1 1(6) d(6) [of j] ip' xs by (cases "j = i") simp_all
  qed (simp add: l1)
  moreover have "stops (unat off) bs k f'"
    using 1(5,7) um(1) v(1) d(3) by (auto simp: stops_def disk_full_def)
  moreover have bytes: "\<forall>j < MAXFILE * BSIZE. file_byte i f' j =
      (if unat off \<le> j \<and> j < unat off + k then bs ! (j - unat off) else file_byte i f j)"
    using 1(2,4) bt by (auto simp: wrote_def)
  moreover have "dense (view (fblk f')) (itab f' ! i)"
    unfolding dense_def
  proof (intro conjI allI impI)
    have ok2: "unat (off + of_nat k) = unat off + k"
      using ok(2) 1(2) by (subst unat_plus_if') (simp add: sizes unat_of_nat)
    have us: "unat sz = max (unat (isize ?ip)) (unat off + k)"
      unfolding sz_def by (auto simp: max_def word_le_nat_alt ok2)
    have sm: "unat sz \<le> MAXFILE * BSIZE" unfolding us using de ok(2) 1(2) by (simp add: dense_def)
    then show "unat (isize (itab f' ! i)) \<le> MAXFILE * BSIZE" by (simp add: ip')
    fix j assume j: "j < unat (isize (itab f' ! i))"
    then have jm: "j < MAXFILE * BSIZE" using sm by (simp add: ip')
    then have jb: "j div BSIZE < MAXFILE" by (simp add: sizes)
    show "file_addr i f' (j div BSIZE) \<noteq> 0"
    proof (cases "j < unat (isize ?ip)")
      case True
      then have "file_addr i f (j div BSIZE) \<noteq> 0" using de by (simp add: dense_def)
      then show ?thesis using e(8) [OF jb] ad by simp
    next
      case False
      then have "unat off \<le> j" "j < unat off + k" using j ok(1) us by (auto simp: ip' word_le_nat_alt)
      then show ?thesis using 1(2,4) jm ad by (simp add: wrote_def)
    qed
  qed
  moreover have "others_kept log_blocks (fsb f) ?V ?ip (view (fblk f')) (itab f' ! i)"
    unfolding v(1) ip' V'_def
    by (rule update_kept [OF writes_toD(2) [OF 1(3) f] view_length [OF f1(1)] nn i(2,3)])
  moreover have "\<forall>jp. disk_inode (fsb f) (view (fblk f')) (inum ?ip) jp = on_disk (itab f' ! i) jp"
  proof
    fix jp
    have "length (iaddrs ((itab f1 ! i)\<lparr>isize := sz\<rparr>)) = NDIRECT + 1" using e(1) by (simp add: ino_ok_def)
    from update_disk_inode [OF view_length [OF f1(1)] this, where sb = "fsb f" and n = "inum ?ip" and jp = jp]
    show "disk_inode (fsb f) (view (fblk f')) (inum ?ip) jp = on_disk (itab f' ! i) jp"
      using xs by (simp add: v(1) V'_def ip')
  qed
  moreover have "\<exists>B. evolves (fblk f) (view (fblk f')) B (fblk f') \<and> finite B \<and> card B \<le> 6 * w + 1"
  proof -
    obtain B where B: "evolves (fblk f) (view (fblk f1)) B (fblk f1)" "finite B" "card B \<le> 6 * w" using d(7) by blast
    have "evolves (fblk f) (view (fblk f')) (B \<union> {IBLOCK (inum ?ip) (fsb f)}) (fblk f')"
      using evolves_trans [OF B(1) 1(9) refl] ip' by (simp add: v(1) V'_def)
    moreover have "card (B \<union> {IBLOCK (inum ?ip) (fsb f)}) \<le> 6 * w + 1" using B(2,3) by (simp add: card_insert_if)
    ultimately show ?thesis using B(2) by blast
  qed
  ultimately show ?thesis using 1(1,2,7,8) d(3,4) unfolding sz_def by (intro exI [of _ k] exI [of _ f']) auto
qed

end

section \<open>On the log and the cache\<close>

definition kview :: "u32 \<Rightarrow> (log \<times> 'e bcache) fs \<Rightarrow> u32 \<Rightarrow> bytes" where
  "kview d f = cview d (snd (fblk f))"

definition good_file :: "u32 \<Rightarrow> u32 \<Rightarrow> nat \<Rightarrow> (log \<times> 'e bcache) fs \<Rightarrow> bool" where
  "good_file d st i f \<longleftrightarrow> store_inv d st (fblk f) \<and> cheld (snd (fblk f)) = Map.empty \<and> i < length (itab f) \<and>
     idev (itab f ! i) = d \<and> inum (itab f ! i) < sb_ninodes (fsb f) \<and>
     ino_ok (log_area st) (fsb f) (kview d f) (itab f ! i) \<and> meta_ok (log_area st) (fsb f) (kview d f) \<and>
     dense (kview d f) (itab f ! i)"

definition contents :: "u32 \<Rightarrow> nat \<Rightarrow> (log \<times> 'e bcache) fs \<Rightarrow> bytes" where
  "contents d i f = map (byte (kview d f) (itab f ! i)) [0..<unat (isize (itab f ! i))]"

lemma kview_store: "kview d f = (case fblk f of (l, s) \<Rightarrow> cview d s)"
  by (simp add: kview_def case_prod_beta)

lemma good_file_store:
  "good_file d st i f \<longleftrightarrow> store.file_ok d st i f \<and> dense (kview d f) (itab f ! i) \<and> inum (itab f ! i) < sb_ninodes (fsb f)"
  by (auto simp: good_file_def store.file_ok_def kview_store case_prod_beta)

text \<open>The blocks still to be had in the log of the transaction.\<close>

definition log_room :: "(log \<times> 'e bcache) fs \<Rightarrow> nat" where
  "log_room f = 28 - card (set (X_Log.logged (fst (fblk f))))"

lemma contents_cong: "\<lbrakk>kview d f' = kview d f; itab f' ! i = itab f ! i\<rbrakk> \<Longrightarrow> contents d i f' = contents d i f"
  by (simp add: contents_def)

lemma good_file_size: "good_file d st i f \<Longrightarrow> unat (isize (itab f ! i)) \<le> 274432"
  by (simp add: good_file_def dense_def sizes)

text \<open>The result of \<open>writei_effect\<close> for the kernel.\<close>

lemma kernel_write:
  assumes f: "good_file d st i f" and room: "6 * w + 1 \<le> log_room f" and w: "unat off mod BSIZE + length bs \<le> w * BSIZE"
    and ok: "off \<le> isize (itab f ! i)" "unat off + length bs \<le> MAXFILE * BSIZE"
  shows "\<exists>k f'. writei logged_bio (from_buffer bs) i 0 off (of_nat (length bs)) f = Some (int k, f') \<and> k \<le> length bs \<and>
    (k = length bs \<or> (\<forall>b < sb_size (fsb f). used (fsb f) (kview d f') b) \<and> (k = 0 \<or> (unat off + k) mod BSIZE = 0)) \<and> good_file d st i f' \<and>
    (\<exists>xs. itab f' = (itab f)[i := (itab f ! i)\<lparr>iaddrs := xs, isize := max (isize (itab f ! i)) (off + of_nat k)\<rparr>]) \<and>
    fsb f' = fsb f \<and> fcwd f' = fcwd f \<and>
    (\<forall>j < MAXFILE * BSIZE. byte (kview d f') (itab f' ! i) j =
       (if unat off \<le> j \<and> j < unat off + k then bs ! (j - unat off) else byte (kview d f) (itab f ! i) j)) \<and>
    others_kept (log_area st) (fsb f) (kview d f) (itab f ! i) (kview d f') (itab f' ! i) \<and>
    (\<forall>jp. disk_inode (fsb f) (kview d f') (inum (itab f ! i)) jp = on_disk (itab f' ! i) jp) \<and>
    cdisk d (snd (fblk f')) = cdisk d (snd (fblk f)) \<and>
    card (set (X_Log.logged (fst (fblk f')))) \<le> card (set (X_Log.logged (fst (fblk f)))) + 6 * w + 1"
proof -
  have fs: "store.file_ok d st i f" "dense (kview d f) (itab f ! i)" "inum (itab f ! i) < sb_ninodes (fsb f)"
    using f good_file_store by blast+
  have lb: "length bs < 2 ^ 32" using ok(2) by (simp add: sizes)
  have n: "length bs = unat (of_nat (length bs) :: u32)" using lb by (simp add: unat_of_nat)
  have src: "source (from_buffer bs) 0 bs" by (rule source_buffer) (use lb in simp)
  have sp: "store.spare (fblk f) (6 * w + 1)"
    using room by (simp add: store.spare_def log_room_def case_prod_beta)
  from store.writei_effect [OF fs(1) fs(2) [unfolded kview_store] fs(3) ok n src w sp, folded kview_store]
  obtain k f' xs B where 1: "writei logged_bio (from_buffer bs) i 0 off (of_nat (length bs)) f = Some (int k, f')" "k \<le> length bs"
    "store.stops d (unat off) bs k f'" "store.file_ok d st i f'" "dense (kview d f') (itab f' ! i)"
    "itab f' = (itab f)[i := (itab f ! i)\<lparr>iaddrs := xs, isize := max (isize (itab f ! i)) (off + of_nat k)\<rparr>]"
    "fsb f' = fsb f" "fcwd f' = fcwd f"
    "\<forall>j < MAXFILE * BSIZE. byte (kview d f') (itab f' ! i) j =
       (if unat off \<le> j \<and> j < unat off + k then bs ! (j - unat off) else byte (kview d f) (itab f ! i) j)"
    "others_kept (log_area st) (fsb f) (kview d f) (itab f ! i) (kview d f') (itab f' ! i)"
    "\<forall>jp. disk_inode (fsb f) (kview d f') (inum (itab f ! i)) jp = on_disk (itab f' ! i) jp"
    and B: "store.evolves d st (fblk f) (kview d f') B (fblk f')" "finite B" "card B \<le> 6 * w + 1"
    by (elim exE conjE) (rule that)
  have i: "i < length (itab f)" using f by (simp add: good_file_def)
  have "inum (itab f' ! i) = inum (itab f ! i)" using 1(6) i by auto
  then have "good_file d st i f'" using good_file_store 1(4,5,7) fs(3) by metis
  moreover have "k = length bs \<or> (\<forall>b < sb_size (fsb f). used (fsb f) (kview d f') b) \<and> (k = 0 \<or> (unat off + k) mod BSIZE = 0)"
    using 1(3,7) by (simp add: store.stops_def store.disk_full_def kview_store)
  moreover have "cdisk d (snd (fblk f')) = cdisk d (snd (fblk f))"
    "set (X_Log.logged (fst (fblk f'))) = set (X_Log.logged (fst (fblk f))) \<union> B"
    using B(1) by (simp_all add: store.evolves_def case_prod_beta)
  moreover from this have "card (set (X_Log.logged (fst (fblk f')))) \<le> card (set (X_Log.logged (fst (fblk f)))) + 6 * w + 1"
    using card_Un_le [of "set (X_Log.logged (fst (fblk f)))" B] B(3) by simp
  ultimately show ?thesis using 1(1,2,6-11)
    by (intro exI [of _ k] exI [of _ f'] conjI; (assumption | blast))
qed

lemma kernel_read:
  assumes f: "good_file d st i f" and off: "off \<le> isize (itab f ! i)" "unat off + unat n < 2 ^ 32"
  defines "len \<equiv> min (unat n) (unat (isize (itab f ! i)) - unat off)"
  shows "\<exists>s. readi logged_bio to_buffer i a off n m f =
      Some (int len, m @ map (byte (kview d f) (itab f ! i)) [unat off..<unat off + len], f\<lparr>fblk := s\<rparr>) \<and>
    good_file d st i (f\<lparr>fblk := s\<rparr>) \<and> kview d (f\<lparr>fblk := s\<rparr>) = kview d f \<and> log_room (f\<lparr>fblk := s\<rparr>) = log_room f"
proof -
  have fs: "store.file_ok d st i f" "dense (kview d f) (itab f ! i)" "inum (itab f ! i) < sb_ninodes (fsb f)"
    using f good_file_store by blast+
  from store.readi_spec [OF fs(1) fs(2) [unfolded kview_store] sink_buffer off, folded kview_store len_def]
  obtain s where s: "readi logged_bio to_buffer i a off n m f =
      Some (int len, m @ map (byte (kview d f) (itab f ! i)) [unat off..<unat off + len], f\<lparr>fblk := s\<rparr>)"
    "store.evolves d st (fblk f) (kview d f) {} s" by blast
  have v: "kview d (f\<lparr>fblk := s\<rparr>) = kview d f" using s(2) by (simp add: store.evolves_def kview_store)
  have "store.file_ok d st i (f\<lparr>fblk := s\<rparr>)" by (rule store.file_ok_cache [OF fs(1)]) (use s(2) kview_store in metis)
  then have "good_file d st i (f\<lparr>fblk := s\<rparr>)" using good_file_store [of d st i "f\<lparr>fblk := s\<rparr>"] fs(2,3) v by simp
  moreover have "log_room (f\<lparr>fblk := s\<rparr>) = log_room f" using s(2) by (simp add: store.evolves_def log_room_def case_prod_beta)
  ultimately show ?thesis using s(1) v by blast
qed

section \<open>The contents of a file\<close>

lemma contents_length [simp]: "length (contents d i f) = unat (isize (itab f ! i))"
  by (simp add: contents_def)

text \<open>The contents after the bytes from \<open>off\<close> on have become the first \<open>k\<close> of \<open>bs\<close>.\<close>

lemma contents_written:
  assumes i: "i < length (itab f)" and off: "off \<le> isize (itab f ! i)" "unat off + length bs \<le> MAXFILE * BSIZE" "k \<le> length bs"
    and t: "itab f' = (itab f)[i := (itab f ! i)\<lparr>iaddrs := xs, isize := max (isize (itab f ! i)) (off + of_nat k)\<rparr>]"
    and b: "\<forall>j < MAXFILE * BSIZE. byte (kview d f') (itab f' ! i) j =
       (if unat off \<le> j \<and> j < unat off + k then bs ! (j - unat off) else byte (kview d f) (itab f ! i) j)"
    and sz: "unat (isize (itab f' ! i)) \<le> MAXFILE * BSIZE"
  shows "contents d i f' = take (unat off) (contents d i f) @ take k bs @ drop (unat off + k) (contents d i f)"
    "unat (isize (itab f' ! i)) = max (unat (isize (itab f ! i))) (unat off + k)"
proof -
  have "unat (off + of_nat k) = unat off + k"
    using off by (subst unat_plus_if') (simp add: sizes unat_of_nat)
  then show s: "unat (isize (itab f' ! i)) = max (unat (isize (itab f ! i))) (unat off + k)"
    using i t by (auto simp: max_def word_le_nat_alt)
  have ol: "unat off \<le> unat (isize (itab f ! i))" using off by (simp add: word_le_nat_alt)
  show "contents d i f' = take (unat off) (contents d i f) @ take k bs @ drop (unat off + k) (contents d i f)"
  proof (rule nth_equalityI)
    show "length (contents d i f') = length (take (unat off) (contents d i f) @ take k bs @ drop (unat off + k) (contents d i f))"
      using s ol off(3) by simp
    fix j assume j: "j < length (contents d i f')"
    then have jm: "j < MAXFILE * BSIZE" using sz by simp
    have js: "j < unat (isize (itab f ! i))" if "\<not> (unat off \<le> j \<and> j < unat off + k)"
      using j that ol s by auto
    show "contents d i f' ! j = (take (unat off) (contents d i f) @ take k bs @ drop (unat off + k) (contents d i f)) ! j"
      using j js off(3) b [rule_format, OF jm] ol by (auto simp: contents_def nth_append)
  qed
qed

lemma write_contents:
  assumes f: "good_file d st i f" and room: "6 * w + 1 \<le> log_room f" and w: "unat off mod BSIZE + length bs \<le> w * BSIZE"
    and ok: "off \<le> isize (itab f ! i)" "unat off + length bs \<le> MAXFILE * BSIZE"
  shows "\<exists>k f'. writei logged_bio (from_buffer bs) i 0 off (of_nat (length bs)) f = Some (int k, f') \<and> k \<le> length bs \<and>
    (k < length bs \<longrightarrow> (\<forall>b < sb_size (fsb f). used (fsb f) (kview d f') b)) \<and> good_file d st i f' \<and>
    unat off + k \<le> unat (isize (itab f' ! i)) \<and>
    contents d i f' = take (unat off) (contents d i f) @ take k bs @ drop (unat off + k) (contents d i f)"
proof -
  obtain k f' xs where 1: "writei logged_bio (from_buffer bs) i 0 off (of_nat (length bs)) f = Some (int k, f')" "k \<le> length bs"
    "k = length bs \<or> (\<forall>b < sb_size (fsb f). used (fsb f) (kview d f') b) \<and> (k = 0 \<or> (unat off + k) mod BSIZE = 0)" "good_file d st i f'"
    "itab f' = (itab f)[i := (itab f ! i)\<lparr>iaddrs := xs, isize := max (isize (itab f ! i)) (off + of_nat k)\<rparr>]"
    "\<forall>j < MAXFILE * BSIZE. byte (kview d f') (itab f' ! i) j =
       (if unat off \<le> j \<and> j < unat off + k then bs ! (j - unat off) else byte (kview d f) (itab f ! i) j)"
    using kernel_write [OF f room w ok] by (elim exE conjE) (rule that)
  have il: "i < length (itab f)" using f by (simp add: good_file_def)
  have sz: "unat (isize (itab f' ! i)) \<le> MAXFILE * BSIZE" using good_file_size [OF 1(4)] by (simp add: sizes)
  show ?thesis using 1(1-4) contents_written [OF il ok 1(2,5,6) sz] by (intro exI [of _ k] exI [of _ f']) auto
qed

lemma write_rejected:
  assumes f: "good_file d st i f" and lb: "length bs \<le> 4096"
    and no: "\<not> (off \<le> isize (itab f ! i) \<and> unat off + length bs \<le> MAXFILE * BSIZE)"
  shows "writei logged_bio (from_buffer bs) i 0 off (of_nat (length bs)) f = Some (-1, f)"
proof (cases "off \<le> isize (itab f ! i)")
  case True
  have n: "unat (of_nat (length bs) :: u32) = length bs" using lb by (simp add: unat_of_nat)
  have "unat off \<le> 274432" using good_file_size [OF f] True by (simp add: word_le_nat_alt)
  then have "unat (off + of_nat (length bs)) = unat off + length bs" using lb n by (subst unat_plus_if') simp
  then have "(of_nat (MAXFILE * BSIZE) :: u32) < off + of_nat (length bs)"
    using no True by (simp add: word_less_nat_alt sizes)
  then show ?thesis by (simp add: writei_def)
qed (simp add: writei_def not_le)

lemma read_contents:
  assumes f: "good_file d st i f" and ok: "off \<le> isize (itab f ! i)" "unat off + unat n < 2 ^ 32"
  shows "\<exists>f'. readi logged_bio to_buffer i a off n [] f =
      Some (int (length (take (unat n) (drop (unat off) (contents d i f)))), take (unat n) (drop (unat off) (contents d i f)), f') \<and>
    good_file d st i f' \<and> kview d f' = kview d f \<and> contents d i f' = contents d i f"
proof -
  let ?len = "min (unat n) (unat (isize (itab f ! i)) - unat off)"
  have "map (byte (kview d f) (itab f ! i)) [unat off..<unat off + ?len] = take (unat n) (drop (unat off) (contents d i f))"
    by (rule nth_equalityI) (auto simp: contents_def)
  then show ?thesis using kernel_read [OF f ok, of a "[]"] by (auto simp: contents_def min.commute)
qed

text \<open>
  C11: \<open>writei\<close> as one call on a file of the kernel, from a buffer and with room in the log. Inside the file
  and its bound, it replaces the bytes from the offset on by a prefix of the buffer, longer than before
  where that reaches beyond the end, returns the length of the prefix, and the prefix is the whole buffer
  unless no block is free. Otherwise it returns \<open>-1\<close> and changes nothing. The file stays well-formed.
\<close>

theorem writei_contents:
  assumes f: "good_file d st i f" and room: "6 * w + 1 \<le> log_room f" and w: "unat off mod BSIZE + length bs \<le> w * BSIZE"
  shows "if off \<le> isize (itab f ! i) \<and> unat off + length bs \<le> MAXFILE * BSIZE
    then \<exists>k f'. writei logged_bio (from_buffer bs) i 0 off (of_nat (length bs)) f = Some (int k, f') \<and> k \<le> length bs \<and>
      (k < length bs \<longrightarrow> (\<forall>b < sb_size (fsb f). used (fsb f) (kview d f') b)) \<and> good_file d st i f' \<and>
      contents d i f' = take (unat off) (contents d i f) @ take k bs @ drop (unat off + k) (contents d i f)
    else writei logged_bio (from_buffer bs) i 0 off (of_nat (length bs)) f = Some (-1, f)"
proof (cases "off \<le> isize (itab f ! i) \<and> unat off + length bs \<le> MAXFILE * BSIZE")
  case True
  then show ?thesis using write_contents [OF f room w conjunct1 [OF True] conjunct2 [OF True]] by auto
next
  case False
  have "w \<le> 4" using room by (simp add: log_room_def)
  then have "w * BSIZE \<le> 4 * BSIZE" by (rule mult_le_mono1)
  then have "length bs \<le> 4096" using w by (simp add: sizes)
  then show ?thesis unfolding if_not_P [OF False] by (rule write_rejected [OF f _ False])
qed

text \<open>
  C12: \<open>writei\<close> is local. Every file that shares no block with this one keeps its blocks and its bytes, every
  other inode on disk and in the table is as before, the inode on disk is the one in memory; nothing but
  the cache has changed until the transaction commits, and it has \<open>6 * w + 1\<close> blocks more at most.
\<close>

theorem writei_keeps_others:
  assumes "good_file d st i f" "6 * w + 1 \<le> log_room f" "unat off mod BSIZE + length bs \<le> w * BSIZE"
    "off \<le> isize (itab f ! i)" "unat off + length bs \<le> MAXFILE * BSIZE"
    and r: "writei logged_bio (from_buffer bs) i 0 off (of_nat (length bs)) f = Some (r, f')"
  shows "others_kept (log_area st) (fsb f) (kview d f) (itab f ! i) (kview d f') (itab f' ! i) \<and>
    (\<forall>j. j \<noteq> i \<longrightarrow> itab f' ! j = itab f ! j) \<and>
    (\<forall>jp. disk_inode (fsb f) (kview d f') (inum (itab f ! i)) jp = on_disk (itab f' ! i) jp) \<and>
    cdisk d (snd (fblk f')) = cdisk d (snd (fblk f)) \<and> log_room f \<le> log_room f' + 6 * w + 1"
proof -
  obtain k f2 xs where k: "writei logged_bio (from_buffer bs) i 0 off (of_nat (length bs)) f = Some (int k, f2)"
    "itab f2 = (itab f)[i := (itab f ! i)\<lparr>iaddrs := xs, isize := max (isize (itab f ! i)) (off + of_nat k)\<rparr>]"
    "others_kept (log_area st) (fsb f) (kview d f) (itab f ! i) (kview d f2) (itab f2 ! i)"
    "\<forall>jp. disk_inode (fsb f) (kview d f2) (inum (itab f ! i)) jp = on_disk (itab f2 ! i) jp"
    "cdisk d (snd (fblk f2)) = cdisk d (snd (fblk f))"
    "card (set (X_Log.logged (fst (fblk f2)))) \<le> card (set (X_Log.logged (fst (fblk f)))) + 6 * w + 1"
    using kernel_write [OF assms(1-5)] by (elim exE conjE) (rule that)
  moreover have "f2 = f'" using k(1) r by simp
  ultimately show ?thesis using assms(2) by (auto simp: log_room_def)
qed

text \<open>
  C13: \<open>readi\<close> into a buffer returns the bytes of the file from the offset on, at most as many as asked
  for and only up to the end of the file, and changes neither the file nor what any block reads like; from
  an offset beyond the end, or when offset and count overflow, it returns 0.
\<close>

theorem readi_contents:
  assumes f: "good_file d st i f"
  shows "if off \<le> isize (itab f ! i) \<and> unat off + unat n < 2 ^ 32
    then \<exists>f'. readi logged_bio to_buffer i a off n [] f =
        Some (int (length (take (unat n) (drop (unat off) (contents d i f)))), take (unat n) (drop (unat off) (contents d i f)), f') \<and>
      good_file d st i f' \<and> kview d f' = kview d f \<and> contents d i f' = contents d i f
    else readi logged_bio to_buffer i a off n [] f = Some (0, [], f)"
proof (cases "off \<le> isize (itab f ! i) \<and> unat off + unat n < 2 ^ 32")
  case True
  then show ?thesis using read_contents [OF f conjunct1 [OF True] conjunct2 [OF True]] by simp
next
  case False
  have "isize (itab f ! i) < off \<or> off + n < off"
  proof (cases "off \<le> isize (itab f ! i)")
    case True
    then have ge: "unat off + unat n \<ge> 2 ^ 32" using False by simp
    then have "unat (off + n) = unat off + unat n - 2 ^ 32" by (subst unat_plus_if') simp
    moreover have "unat n < 2 ^ 32" using unsigned_less [of n] by simp
    ultimately have "unat (off + n) < unat off" using ge by simp
    then show ?thesis by (simp add: word_less_nat_alt)
  qed (simp add: not_le)
  then have "readi logged_bio to_buffer i a off n [] f = Some (0, [], f)" by (simp add: readi_def Let_def)
  then show ?thesis unfolding if_not_P [OF False] .
qed

text \<open>C9: What one call of \<open>writei\<close> has taken, \<open>readi\<close> gives back.\<close>

theorem writei_readi_roundtrip:
  assumes f: "good_file d st i f" "6 * w + 1 \<le> log_room f" "unat off mod BSIZE + length bs \<le> w * BSIZE"
    "off \<le> isize (itab f ! i)" "unat off + length bs \<le> MAXFILE * BSIZE"
    and r: "writei logged_bio (from_buffer bs) i 0 off (of_nat (length bs)) f = Some (r, f')"
  shows "0 \<le> r \<and> r \<le> int (length bs) \<and>
    (\<exists>f''. readi logged_bio to_buffer i a off (of_int r) [] f' = Some (r, take (nat r) bs, f''))"
proof -
  obtain k where k: "r = int k" "k \<le> length bs" "good_file d st i f'" "unat off + k \<le> unat (isize (itab f' ! i))"
    "contents d i f' = take (unat off) (contents d i f) @ take k bs @ drop (unat off + k) (contents d i f)"
    using write_contents [OF assms(1-5)] r by auto
  have uk: "unat (of_int r :: u32) = k" using k(1,2) assms(5) by (simp add: unat_of_nat sizes)
  have ol: "unat off \<le> length (contents d i f)" using assms(4) by (simp add: contents_def word_le_nat_alt)
  have "off \<le> isize (itab f' ! i)" using k(4) by (simp add: word_le_nat_alt)
  moreover have "unat off + unat (of_int r :: u32) < 2 ^ 32" unfolding uk using assms(5) k(2) by (simp add: sizes)
  moreover have "take k (drop (unat off) (contents d i f')) = take k bs" using k(2) ol unfolding k(5) by simp
  ultimately show ?thesis using read_contents [OF k(3), of off "of_int r" a] k(1,2) unfolding uk by auto
qed

section \<open>Inodes and free blocks\<close>

text \<open>
  An inode that \<open>iupdate\<close> has written is what \<open>ilock\<close> reads into another entry of the table for the
  same number, with the lock taken and the entry valid; inodes with other numbers are read as before.
\<close>

theorem iupdate_ilock_roundtrip:
  assumes f: "good_file d st i f" "1 \<le> log_room f" and ty: "itype (itab f ! i) \<noteq> 0"
    and j: "j < length (itab f)" "1 \<le> iref (itab f ! j)" "\<not> sl_locked (ilk (itab f ! j))" "\<not> ivalid (itab f ! j)"
      "idev (itab f ! j) = d" "inum (itab f ! j) = inum (itab f ! i)"
  shows "\<exists>f1 f2. iupdate logged_bio i f = Some f1 \<and> ilock logged_bio j f1 = Some f2 \<and>
    itab f2 ! j = (on_disk (itab f ! i) (itab f ! j))\<lparr>ilk := \<lparr>sl_locked = True, sl_pid = mypid (bk (snd (fblk f)))\<rparr>, ivalid := True\<rparr> \<and>
    (\<forall>n jp. n \<noteq> inum (itab f ! i) \<longrightarrow> disk_inode (fsb f) (kview d f2) n jp = disk_inode (fsb f) (kview d f) n jp)"
proof -
  let ?ip = "itab f ! i"
  have k: "store_inv d st (fblk f)" "cheld (snd (fblk f)) = Map.empty" "idev ?ip = d" "length (iaddrs ?ip) = NDIRECT + 1"
    "IBLOCK (inum ?ip) (fsb f) \<notin> log_area st" using f(1) by (simp_all add: good_file_def ino_ok_def meta_ok_def)
  have h: "(case fblk f of (l, s) \<Rightarrow> cheld s) = Map.empty" using k(2) by (simp add: case_prod_beta)
  have sp: "store.spare (fblk f) 1" using f(2) by (simp add: store.spare_def log_room_def case_prod_beta)
  from store.iupdate_spec [OF k(1) h k(3-5) sp, folded kview_store] obtain s where
    s: "iupdate logged_bio i f = Some (f\<lparr>fblk := s\<rparr>)"
      "store.evolves d st (fblk f) (update_view (fsb f) ?ip (kview d f)) {IBLOCK (inum ?ip) (fsb f)} s" by blast
  let ?f1 = "f\<lparr>fblk := s\<rparr>"
  have v: "kview d ?f1 = update_view (fsb f) ?ip (kview d f)" "store_inv d st (fblk ?f1)"
    "(case fblk ?f1 of (l, s) \<Rightarrow> cheld s) = Map.empty" "(case s of (l, s) \<Rightarrow> mypid (bk s)) = mypid (bk (snd (fblk f)))"
    using s(2) h by (simp_all add: store.evolves_def kview_store) (simp_all add: case_prod_beta)
  have len: "\<And>b. length (kview d f b) = BSIZE" using store.view_length [OF k(1)] by (simp add: kview_store)
  note di = update_disk_inode [where V = "kview d f" and sb = "fsb f", OF len k(4), folded v(1)]
  have j1: "j < length (itab ?f1)" "1 \<le> iref (itab ?f1 ! j)" "\<not> sl_locked (ilk (itab ?f1 ! j))" "\<not> ivalid (itab ?f1 ! j)"
    "idev (itab ?f1 ! j) = d" using j by simp_all
  define ip where "ip = (on_disk ?ip (itab f ! j))\<lparr>ilk := \<lparr>sl_locked = True, sl_pid = mypid (bk (snd (fblk f)))\<rparr>, ivalid := True\<rparr>"
  have e: "disk_inode (fsb ?f1) (kview d ?f1) (inum (itab ?f1 ! j)) (itab ?f1 ! j) = on_disk ?ip (itab f ! j)"
    using di [where n = "inum ?ip" and jp = "itab f ! j"] j(6) by simp
  have m: "(case fblk ?f1 of (l, s) \<Rightarrow> mypid (bk s)) = mypid (bk (snd (fblk f)))" using v(4) by simp
  have "itype ip \<noteq> 0" using ty by (simp add: ip_def on_disk_def)
  then obtain s2 where s2: "ilock logged_bio j ?f1 = Some (store.with_ino j ip s2 ?f1)"
    "store.evolves d st (fblk ?f1) (kview d ?f1) {} s2"
    using store.ilock_spec [OF v(2,3) j1, folded kview_store, unfolded e m, folded ip_def] by auto
  have "kview d (store.with_ino j ip s2 ?f1) = kview d ?f1" using s2(2) by (simp add: store.evolves_def kview_store)
  then show ?thesis using s(1) s2(1) j(1) di by (auto simp: ip_def)
qed

text \<open>
  C16: \<open>balloc\<close> returns the lowest free block with its bit set and its bytes zeroed, and 0 exactly when no
  block is free, changing nothing else; \<open>bfree\<close> of the result makes the bitmap what it was.
\<close>

theorem balloc_bfree:
  assumes s: "store_inv d st (l, s)" "cheld s = Map.empty" and m: "meta_ok (log_area st) sb (cview d s)"
    and room: "card (set (X_Log.logged l)) + 2 \<le> 28"
  shows "if \<exists>c < sb_size sb. \<not> used sb (cview d s) c
    then \<exists>b l1 s1 l2 s2. balloc logged_bio sb d (l, s) = Some (b, (l1, s1)) \<and> b < sb_size sb \<and> \<not> used sb (cview d s) b \<and>
      (\<forall>c < b. used sb (cview d s) c) \<and> cview d s1 b = replicate BSIZE 0 \<and>
      (\<forall>c < sb_size sb. used sb (cview d s1) c \<longleftrightarrow> c = b \<or> used sb (cview d s) c) \<and>
      (\<forall>c. c \<noteq> b \<and> c \<noteq> BBLOCK b sb \<longrightarrow> cview d s1 c = cview d s c) \<and>
      bfree logged_bio sb d b (l1, s1) = Some (l2, s2) \<and> cview d s2 = (cview d s)(b := replicate BSIZE 0)
    else \<exists>l1 s1. balloc logged_bio sb d (l, s) = Some (0, (l1, s1)) \<and> cview d s1 = cview d s"
proof -
  let ?c = "(l, s)" and ?V = "cview d s"
  have h: "(case ?c of (l, s) \<Rightarrow> cheld s) = Map.empty" using s(2) by simp
  have ap: "store.apart d sb ?c" by (rule store.apart_empty [OF h])
  have bm: "store.bitmap_ok st sb (case ?c of (l, s) \<Rightarrow> cview d s)" using store.meta_bitmap m by simp
  have V: "\<And>b. length (?V b) = BSIZE" using store.view_length [OF s(1)] by simp
  have sp: "store.spare ?c 2" using room by (simp add: store.spare_def)
  have bl: "{BBLOCK b sb, b} \<inter> log_area st = {}" if "b < sb_size sb" "\<not> used sb ?V b" for b
    using alloc_facts(1) [OF m V that] m that(1) by (auto simp: meta_ok_def data_block_def)
  have "store.room st ?c {BBLOCK b sb, b}" if "b < sb_size sb" "\<not> used sb ?V b" for b
    by (rule store.spare_room [OF sp s(1)]) (use bl [OF that] in \<open>simp_all add: card_insert_if\<close>)
  then have "\<forall>b < sb_size sb. \<not> used sb (case ?c of (l, s) \<Rightarrow> cview d s) b \<longrightarrow> store.room st ?c {BBLOCK b sb, b}" by simp
  from store.balloc_spec [OF s(1) ap bm this, unfolded prod.case] obtain b c1 where a: "balloc logged_bio sb d ?c = Some (b, c1)"
    "if \<exists>c < sb_size sb. \<not> used sb ?V c
     then b \<noteq> 0 \<and> b < sb_size sb \<and> \<not> used sb ?V b \<and> (\<forall>c < b. used sb ?V c) \<and>
       store.evolves d st ?c (alloc_view sb b ?V) {BBLOCK b sb, b} c1
     else b = 0 \<and> store.evolves d st ?c ?V {} c1" by (elim exE conjE) (rule that)
  obtain l1 s1 where c1: "c1 = (l1, s1)" by (cases c1)
  show ?thesis
  proof (cases "\<exists>c < sb_size sb. \<not> used sb ?V c")
    case False
    then have "b = 0" "store.evolves d st ?c ?V {} c1" using a(2) by presburger+
    then have "balloc logged_bio sb d ?c = Some (0, (l1, s1)) \<and> cview d s1 = ?V"
      using a(1) by (simp add: store.evolves_def c1)
    then show ?thesis unfolding if_not_P [OF False] by blast
  next
    case True
    then have b: "b < sb_size sb" "\<not> used sb ?V b" "\<forall>c < b. used sb ?V c"
      "store.evolves d st ?c (alloc_view sb b ?V) {BBLOCK b sb, b} c1" using a(2) by presburger+
    note fa = alloc_facts [OF m V b(1,2)]
    have ne: "BBLOCK b sb \<noteq> b" using fa(1) b(1) by (auto simp: data_block_def)
    have e1: "store_inv d st c1" "cview d s1 = alloc_view sb b ?V" "cheld s1 = Map.empty"
      "set (X_Log.logged l1) = set (X_Log.logged l) \<union> {BBLOCK b sb, b}"
      using b(4) s(2) by (simp_all add: store.evolves_def c1)
    have us: "used sb (cview d s1) c \<longleftrightarrow> c = b \<or> used sb ?V c" if "c < sb_size sb" for c
      using fa(5) [OF that] e1(2) by simp
    have "card (set (X_Log.logged l) \<union> {BBLOCK b sb, b}) \<le> 28"
      using card_Un_le [of "set (X_Log.logged l)" "{BBLOCK b sb, b}"] room by (simp add: card_insert_if split: if_splits)
    then have rm: "store.room st c1 {BBLOCK b sb}"
      using bl [OF b(1,2)] e1(4) by (simp add: store.room_def c1 insert_absorb)
    have fw: "store.few c1" "BBLOCK b sb \<notin> ran (case c1 of (l, s) \<Rightarrow> cheld s)" using e1(3) by (simp_all add: store.few_def c1)
    obtain c2 where c2: "bfree logged_bio sb d b c1 = Some c2" "store.evolves d st c1 (free_view sb b (cview d s1)) {BBLOCK b sb} c2"
      using store.bfree_spec [OF e1(1) fw rm] us [OF b(1)] by (auto simp: c1)
    obtain l2 s2 where l2: "c2 = (l2, s2)" by (cases c2)
    have "cview d s2 = free_view sb b (alloc_view sb b ?V)" using c2(2) e1(2) by (simp add: store.evolves_def l2)
    also have "\<dots> = ?V(b := replicate BSIZE 0)"
      using set_clear_bit [of "?V (BBLOCK b sb)" "unat b mod BPB"] V ne b(2)
      by (auto simp: free_view_def alloc_view_def used_def BPB_val fun_eq_iff)
    finally have "cview d s2 = ?V(b := replicate BSIZE 0)" .
    then show ?thesis
      using a(1) b(1-3) us fa(2,3) e1(2) c2(1) unfolding if_P [OF True] c1 l2 by metis
  qed
qed

section \<open>An example\<close>

text \<open>
  A disk with the superblock and the bitmap of \<open>mkfs\<close>, on which only the root directory has a block, the
  first behind the bitmap, with one entry.
\<close>

definition demo_image :: "u32 \<Rightarrow> bytes" where
  "demo_image b = (if b = 45 then mkfs_bitmap 47 else
     if b = 46 then [5, 0, 97] @ replicate 1021 0 else replicate BSIZE 0)"

lemma length_demo_image [simp]: "length (demo_image b) = BSIZE"
  by (simp add: demo_image_def BSIZE_def)

definition demo_inode :: inode where
  "demo_inode = \<lparr>idev = 1, inum = 2, iref = 1, ilk = initsleeplock, ivalid = True, itype = T_FILE, imajor = 0, iminor = 0,
     inlink = 1, isize = 0, iaddrs = replicate 13 0\<rparr>"

definition demo_dir :: inode where
  "demo_dir = \<lparr>idev = 1, inum = ROOTINO, iref = 1, ilk = initsleeplock, ivalid = True, itype = T_DIR, imajor = 0, iminor = 0,
     inlink = 1, isize = 16, iaddrs = 46 # replicate 12 0\<rparr>"

definition demo_fs :: "(log \<times> unit bcache) fs" where
  "demo_fs = \<lparr>fblk = (demo_log\<lparr>outstanding := 1\<rparr>, booted (\<lambda>_. demo_image) demo), fsb = mkfs_sb,
     itab = [demo_inode, demo_inode\<lparr>ivalid := False\<rparr>, demo_dir], fcwd = 0\<rparr>"

lemma demo_cached:
  "cinv 1 (booted (\<lambda>_. demo_image) demo)" "cview 1 (booted (\<lambda>_. demo_image) demo) = demo_image"
  "cheld (booted (\<lambda>_. demo_image) demo) = Map.empty" "cpins 1 (booted (\<lambda>_. demo_image) demo) = (\<lambda>_. 0)"
proof -
  have "table_ok demo" "cur demo = Some 2" "(2::nat) < NPROC"
    using demo_wf(1) by (auto simp: proc_wf_def demo_def NPROC_def)
  moreover have "length (demo_image b) = BSIZE" for b by simp
  ultimately show "cinv 1 (booted (\<lambda>_. demo_image) demo)" "cview 1 (booted (\<lambda>_. demo_image) demo) = demo_image"
    "cheld (booted (\<lambda>_. demo_image) demo) = Map.empty" "cpins 1 (booted (\<lambda>_. demo_image) demo) = (\<lambda>_. 0)"
    using booted_cache [of 1 "\<lambda>_. demo_image" demo 2] by simp_all
qed

lemma demo_store: "store_inv 1 2 (fblk demo_fs)" "cheld (snd (fblk demo_fs)) = Map.empty" "kview 1 demo_fs = demo_image"
  "log_room demo_fs = 28"
  using demo_cached
  by (simp_all add: store_inv_def demo_fs_def kview_def log_room_def demo_log_def log_zero_def log_ok_def X_Log.logged_def
      LOGSIZE_def MAXOPBLOCKS_def)

lemma demo_used: "b < 2000 \<Longrightarrow> used mkfs_sb demo_image b \<longleftrightarrow> b < 47"
proof -
  assume "b < 2000"
  then have "used mkfs_sb demo_image b \<longleftrightarrow> int (unat b) < 47"
    by (intro mkfs_used) (simp_all add: demo_image_def BPB_val)
  also have "\<dots> \<longleftrightarrow> unat b < 47" by linarith
  finally show ?thesis by (simp add: word_less_nat_alt)
qed

lemma demo_meta: "meta_ok (log_area 2) mkfs_sb demo_image"
  by (rule mkfs_meta [where n = 47]) (simp_all add: demo_image_def BPB_val)

lemma demo_good_file: "good_file 1 2 0 demo_fs"
proof -
  have z: "addr V demo_inode m = 0" for V m
    by (auto simp: addr_def demo_inode_def sizes)
  then have o: "own V demo_inode = {}" for V by (auto simp: own_def demo_inode_def sizes)
  show ?thesis
    using demo_store demo_meta z o
    by (simp add: good_file_def demo_fs_def ino_ok_def dense_def) (simp add: demo_inode_def sizes)
qed

theorem writei_contents_witness:
  "\<exists>k f'. writei logged_bio (from_buffer [7, 8, 9]) 0 0 0 3 demo_fs = Some (int k, f') \<and> k \<le> 3 \<and> good_file 1 2 0 f' \<and>
    contents 1 0 f' = take k [7, 8, 9]"
proof -
  have e: "isize (itab demo_fs ! 0) = 0" "contents 1 0 demo_fs = []"
    by (simp_all add: contents_def demo_fs_def demo_inode_def)
  show ?thesis
    using writei_contents [OF demo_good_file, of 1 0 "[7, 8, 9]"] e demo_store(4) by (auto simp: sizes)
qed

theorem writei_keeps_others_witness:
  "\<exists>r f'. writei logged_bio (from_buffer [7, 8, 9]) 0 0 0 3 demo_fs = Some (r, f') \<and> itab f' ! 1 = itab demo_fs ! 1 \<and>
    cdisk 1 (snd (fblk f')) = cdisk 1 (snd (fblk demo_fs)) \<and> 21 \<le> log_room f'"
proof -
  have e: "isize (itab demo_fs ! 0) = 0" by (simp add: demo_fs_def demo_inode_def)
  have h: "6 * 1 + 1 \<le> log_room demo_fs" "unat (0 :: u32) mod BSIZE + length [7, 8, 9 :: u8] \<le> 1 * BSIZE"
    "(0 :: u32) \<le> isize (itab demo_fs ! 0)" "unat (0 :: u32) + length [7, 8, 9 :: u8] \<le> MAXFILE * BSIZE"
    using demo_store(4) by (simp_all add: sizes)
  obtain r f' where r: "writei logged_bio (from_buffer [7, 8, 9]) 0 0 0 (of_nat (length [7, 8, 9 :: u8])) demo_fs = Some (r, f')"
    using kernel_write [OF demo_good_file h] by blast
  then show ?thesis
    using writei_keeps_others [OF demo_good_file h r] demo_store(4) by auto
qed

theorem readi_contents_witness:
  "\<exists>f'. readi logged_bio to_buffer 0 0 0 100 [] demo_fs = Some (0, [], f') \<and> good_file 1 2 0 f'"
proof -
  have e: "isize (itab demo_fs ! 0) = 0" "contents 1 0 demo_fs = []"
    by (simp_all add: contents_def demo_fs_def demo_inode_def)
  show ?thesis using readi_contents [OF demo_good_file, of 0 100 0] e by auto
qed

theorem writei_readi_roundtrip_witness:
  "\<exists>r f' f''. writei logged_bio (from_buffer [7, 8, 9]) 0 0 0 3 demo_fs = Some (r, f') \<and>
    readi logged_bio to_buffer 0 0 0 (of_int r) [] f' = Some (r, take (nat r) [7, 8, 9], f'')"
proof -
  have h: "6 * 1 + 1 \<le> log_room demo_fs" "unat (0 :: u32) mod BSIZE + length [7, 8, 9 :: u8] \<le> 1 * BSIZE"
    "(0 :: u32) \<le> isize (itab demo_fs ! 0)" "unat (0 :: u32) + length [7, 8, 9 :: u8] \<le> MAXFILE * BSIZE"
    using demo_store(4) by (simp_all add: sizes)
  obtain r f' where r: "writei logged_bio (from_buffer [7, 8, 9]) 0 0 0 (of_nat (length [7, 8, 9 :: u8])) demo_fs = Some (r, f')"
    using kernel_write [OF demo_good_file h] by blast
  then show ?thesis using writei_readi_roundtrip [OF demo_good_file h r, of 0] by auto
qed

theorem iupdate_ilock_roundtrip_witness:
  "\<exists>f1 f2. iupdate logged_bio 0 demo_fs = Some f1 \<and> ilock logged_bio 1 f1 = Some f2 \<and> itype (itab f2 ! 1) = T_FILE \<and>
    ivalid (itab f2 ! 1)"
proof -
  have "1 \<le> log_room demo_fs" using demo_store(4) by simp
  moreover have "itype (itab demo_fs ! 0) \<noteq> 0" "1 < length (itab demo_fs)" "1 \<le> iref (itab demo_fs ! 1)"
    "\<not> sl_locked (ilk (itab demo_fs ! 1))" "\<not> ivalid (itab demo_fs ! 1)" "idev (itab demo_fs ! 1) = 1"
    "inum (itab demo_fs ! 1) = inum (itab demo_fs ! 0)"
    by (simp_all add: demo_fs_def demo_inode_def T_FILE_def initsleeplock_def)
  ultimately obtain f1 f2 where f: "iupdate logged_bio 0 demo_fs = Some f1" "ilock logged_bio 1 f1 = Some f2"
    "itab f2 ! 1 = (on_disk (itab demo_fs ! 0) (itab demo_fs ! 1))
      \<lparr>ilk := \<lparr>sl_locked = True, sl_pid = mypid (bk (snd (fblk demo_fs)))\<rparr>, ivalid := True\<rparr>"
    using iupdate_ilock_roundtrip [OF demo_good_file, of 1] by blast
  then show ?thesis by (simp add: on_disk_def) (simp add: demo_fs_def demo_inode_def)
qed

theorem balloc_bfree_witness:
  "\<exists>l1 s1 l2 s2. balloc logged_bio mkfs_sb 1 (fblk demo_fs) = Some (47, (l1, s1)) \<and>
    bfree logged_bio mkfs_sb 1 47 (l1, s1) = Some (l2, s2) \<and> cview 1 s2 = demo_image"
proof -
  obtain l s where c: "fblk demo_fs = (l, s)" by (cases "fblk demo_fs")
  have v: "cview 1 s = demo_image" using demo_store(3) by (simp add: kview_def c)
  have h: "store_inv 1 2 (l, s)" "cheld s = Map.empty" "meta_ok (log_area 2) mkfs_sb (cview 1 s)"
    using demo_store demo_meta by (simp_all add: c v)
  have room: "card (set (X_Log.logged l)) + 2 \<le> 28" using demo_store(4) by (simp add: log_room_def c)
  have "\<exists>c < sb_size mkfs_sb. \<not> used mkfs_sb (cview 1 s) c"
    unfolding v by (rule exI [of _ 47]) (simp add: demo_used)
  from balloc_bfree [OF h room, unfolded if_P [OF this]] obtain b l1 s1 l2 s2 where
    a: "balloc logged_bio mkfs_sb 1 (l, s) = Some (b, (l1, s1))" "b < sb_size mkfs_sb" "\<not> used mkfs_sb (cview 1 s) b"
      "\<forall>c < b. used mkfs_sb (cview 1 s) c" "bfree logged_bio mkfs_sb 1 b (l1, s1) = Some (l2, s2)"
      "cview 1 s2 = (cview 1 s)(b := replicate BSIZE 0)" by (elim exE conjE) (rule that)
  have "b < 2000" using a(2) by simp
  then have "47 \<le> b" using a(3) demo_used [of b] by (simp add: v)
  moreover have "\<not> 47 < b"
  proof
    assume "47 < b"
    then have "used mkfs_sb demo_image 47" using a(4) by (simp add: v)
    then show False using demo_used [of 47] by simp
  qed
  ultimately have "b = 47" by simp
  moreover have "demo_image(47 := replicate BSIZE 0) = demo_image" by (auto simp: demo_image_def)
  ultimately show ?thesis using a(1,5,6) by (auto simp: c v)
qed

end
