(* ===== verification/X_Fs_Dir.thy ===== *)
theory X_Fs_Dir
  imports X_Fs_Kernel
begin

text \<open>
  Directories as maps from names to inode numbers: \<open>dirlookup\<close> looks one up and \<open>dirlink\<close> adds one.
\<close>

section \<open>Names\<close>

definition name_of :: "bytes \<Rightarrow> bytes" where
  "name_of s = take DIRSIZ (takeWhile (\<lambda>c. c \<noteq> 0) s)"

lemma DIRSIZ_val: "DIRSIZ = 14" "dirent_size = 16"
  by (simp_all add: DIRSIZ_def dirent_size_def)

lemma takeWhile_char_at:
  "takeWhile (\<lambda>c. c \<noteq> 0) (drop i s) = (if char_at s i = 0 then [] else char_at s i # takeWhile (\<lambda>c. c \<noteq> 0) (drop (i + 1) s))"
  by (cases "i < length s") (auto simp: char_at_def simp flip: Cons_nth_drop_Suc)

lemma strncmp_zero:
  "strncmp_from s t i n = 0 \<longleftrightarrow>
    take n (takeWhile (\<lambda>c. c \<noteq> 0) (drop i s)) = take n (takeWhile (\<lambda>c. c \<noteq> 0) (drop i t))"
proof (induction n arbitrary: i)
  case (Suc n)
  have "uint x - uint y = 0 \<longleftrightarrow> x = y" for x y :: u8 by (simp add: word_uint_eq_iff)
  then show ?case
    using Suc [of "i + 1"] unfolding takeWhile_char_at [of i s] takeWhile_char_at [of i t] by auto
qed simp

lemma namecmp_zero: "namecmp s t = 0 \<longleftrightarrow> name_of s = name_of t"
  using strncmp_zero [of s t 0 DIRSIZ] by (simp add: namecmp_def name_of_def)

section \<open>Entries\<close>

text \<open>Entry \<open>k\<close> of a directory with the bytes \<open>c\<close>.\<close>

definition ent :: "bytes \<Rightarrow> nat \<Rightarrow> bytes" where
  "ent c k = take 16 (drop (16 * k) c)"

definition ent_inum :: "bytes \<Rightarrow> nat \<Rightarrow> u16" where
  "ent_inum c k = le16_at (ent c k) 0"

definition ent_name :: "bytes \<Rightarrow> nat \<Rightarrow> bytes" where
  "ent_name c k = name_of (drop 2 (ent c k))"

definition find_ent :: "bytes \<Rightarrow> bytes \<Rightarrow> nat \<Rightarrow> nat option" where
  "find_ent c nm k = find (\<lambda>k. ent_inum c k \<noteq> 0 \<and> ent_name c k = nm) [k..<length c div 16]"

text \<open>What a directory stands for.\<close>

definition dir_map :: "bytes \<Rightarrow> bytes \<Rightarrow> u16 option" where
  "dir_map c nm = map_option (ent_inum c) (find_ent c nm 0)"

text \<open>The place of a new entry: the first free one, or the end.\<close>

definition free_ent :: "bytes \<Rightarrow> nat \<Rightarrow> nat" where
  "free_ent c k = (case find (\<lambda>k. ent_inum c k = 0) [k..<length c div 16] of Some k \<Rightarrow> k | None \<Rightarrow> length c div 16)"

lemma find_upt: "k < n \<Longrightarrow> find P [k..<n] = (if P k then Some k else find P [k + 1..<n])"
  by (simp add: upt_conv_Cons)

lemma name_field_length: "length (name_field nm) = DIRSIZ"
  by (simp add: name_field_def)

lemma takeWhile_pad: "takeWhile (\<lambda>c. c \<noteq> 0) (takeWhile (\<lambda>c. c \<noteq> 0) nm @ replicate n 0) = takeWhile (\<lambda>c. c \<noteq> (0 :: u8)) nm"
proof -
  have "takeWhile (\<lambda>c. c \<noteq> (0 :: u8)) (replicate n 0) = []" by (cases n) simp_all
  then show ?thesis by (subst takeWhile_append2) (auto dest: set_takeWhileD)
qed

lemma takeWhile_take: "takeWhile P (take n xs) = take n (takeWhile P xs)"
  by (induction xs arbitrary: n) (auto simp: take_Cons split: nat.splits)

lemma name_of_field: "name_of (name_field nm) = name_of nm"
  unfolding name_of_def name_field_def takeWhile_take takeWhile_pad by simp

lemma dirent_entry:
  "length (dirent_bytes n nm) = 16" "le16_at (dirent_bytes n nm) 0 = n" "name_of (drop 2 (dirent_bytes n nm)) = name_of nm"
  by (simp_all add: dirent_bytes_def name_field_length DIRSIZ_val name_of_field le16_at_append le16_at_bytes)

text \<open>One entry replaced or added.\<close>

definition put_ent :: "bytes \<Rightarrow> nat \<Rightarrow> bytes \<Rightarrow> bytes" where
  "put_ent c k e = take (16 * k) c @ e @ drop (16 * k + 16) c"

lemma put_ent:
  assumes "length c = 16 * n" "k \<le> n" "length e = 16"
  shows "length (put_ent c k e) = 16 * max n (k + 1)" "j < max n (k + 1) \<Longrightarrow> ent (put_ent c k e) j = (if j = k then e else ent c j)"
proof -
  show "length (put_ent c k e) = 16 * max n (k + 1)" using assms by (auto simp: put_ent_def max_def)
  show "ent (put_ent c k e) j = (if j = k then e else ent c j)" if j: "j < max n (k + 1)"
  proof -
    consider "j < k" | "j = k" | "k < j" by linarith
    then show ?thesis
    proof cases
      case 1
      then have "16 * j + 16 \<le> 16 * k" "16 * k \<le> length c" using assms by simp_all
      then have "min 16 (16 * k - 16 * j) = 16" by linarith
      then show ?thesis using 1 \<open>16 * k \<le> length c\<close> by (simp add: ent_def put_ent_def drop_take)
    next
      case 2
      then show ?thesis using assms by (simp add: ent_def put_ent_def)
    next
      case 3
      then have "16 * j = 16 * k + 16 + (16 * j - (16 * k + 16))" by simp
      then show ?thesis using 3 assms by (simp add: ent_def put_ent_def)
    qed
  qed
qed

lemma find_append_None: "find P (xs @ ys) = (case find P xs of None \<Rightarrow> find P ys | Some x \<Rightarrow> Some x)"
  by (induction xs) auto

lemma free_ent_le: "length c = 16 * n \<Longrightarrow> k \<le> n \<Longrightarrow> free_ent c k \<le> n"
  by (auto simp: free_ent_def find_Some_iff split: option.splits)

lemma dir_map_put:
  assumes c: "length c = 16 * n" and free: "dir_map c (name_of nm) = None" and m: "m \<noteq> 0"
  defines "k \<equiv> free_ent c 0"
  shows "dir_map (put_ent c k (dirent_bytes m nm)) = (dir_map c)(name_of nm \<mapsto> m)"
proof
  fix x
  let ?e = "dirent_bytes m nm"
  let ?c = "put_ent c k ?e"
  have kn: "k \<le> n" unfolding k_def by (rule free_ent_le [OF c]) simp
  note p = put_ent [OF c kn dirent_entry(1)]
  have len: "length c div 16 = n" "length ?c div 16 = max n (k + 1)" using c p(1) by simp_all
  have new: "ent_inum ?c k = m" "ent_name ?c k = name_of nm"
    using p(2) [of k] dirent_entry(2,3) by (simp_all add: ent_inum_def ent_name_def)
  have old: "ent_inum ?c j = ent_inum c j" "ent_name ?c j = ent_name c j" if "j < max n (k + 1)" "j \<noteq> k" for j
    using p(2) [OF that(1)] that(2) by (simp_all add: ent_inum_def ent_name_def)
  have no: "\<not> (ent_inum c j \<noteq> 0 \<and> ent_name c j = name_of nm)" if "j < n" for j
    using free that by (auto simp: dir_map_def find_ent_def len(1) find_None_iff)
  have kz: "ent_inum c k = 0" if "k < n"
  proof (cases "find (\<lambda>k. ent_inum c k = 0) [0..<n]")
    case None
    then show ?thesis using that by (simp add: k_def free_ent_def len(1))
  next
    case (Some j)
    then have "k = j" by (simp add: k_def free_ent_def len(1))
    then show ?thesis using Some by (auto simp: find_Some_iff)
  qed
  show "dir_map ?c x = ((dir_map c)(name_of nm \<mapsto> m)) x"
  proof (cases "x = name_of nm")
    case True
    have "find (\<lambda>j. ent_inum ?c j \<noteq> 0 \<and> ent_name ?c j = x) [0..<max n (k + 1)] = Some k"
      unfolding find_Some_iff
      by (rule exI [of _ k]) (use True new m old no less_le_trans [OF _ kn] in \<open>auto simp del: upt_Suc\<close>)
    then show ?thesis using True new by (simp add: dir_map_def find_ent_def len(2))
  next
    case False
    have q: "find (\<lambda>j. ent_inum ?c j \<noteq> 0 \<and> ent_name ?c j = x) [0..<n] = find (\<lambda>j. ent_inum c j \<noteq> 0 \<and> ent_name c j = x) [0..<n]"
    proof (rule find_cong [OF refl])
      fix j assume "j \<in> set [0..<n]"
      then have j: "j < n" "j < max n (k + 1)" by auto
      show "(ent_inum ?c j \<noteq> 0 \<and> ent_name ?c j = x) = (ent_inum c j \<noteq> 0 \<and> ent_name c j = x)"
      proof (cases "j = k")
        case True
        then show ?thesis using j(1) False new kz by auto
      next
        case False
        then show ?thesis using old [OF j(2)] by simp
      qed
    qed
    have "find (\<lambda>j. ent_inum ?c j \<noteq> 0 \<and> ent_name ?c j = x) [0..<max n (k + 1)] = find (\<lambda>j. ent_inum c j \<noteq> 0 \<and> ent_name c j = x) [0..<n]"
    proof (cases "k < n")
      case True
      then have "max n (k + 1) = n" by simp
      then show ?thesis using q by (simp only:)
    next
      case kge: False
      then have "k = n" using kn by simp
      then show ?thesis using q False new by (simp add: find_append_None max_def split: option.split)
    qed
    moreover have "ent_inum ?c j = ent_inum c j" if "find (\<lambda>j. ent_inum c j \<noteq> 0 \<and> ent_name c j = x) [0..<n] = Some j" for j
      using that old [of j] kz by (cases "j = k") (auto simp: find_Some_iff less_max_iff_disj)
    ultimately show ?thesis
      using False
      by (cases "find (\<lambda>j. ent_inum c j \<noteq> 0 \<and> ent_name c j = x) [0..<n]")
        (simp_all add: dir_map_def find_ent_def len)
  qed
qed

section \<open>Lookup and link\<close>

definition good_dir :: "u32 \<Rightarrow> u32 \<Rightarrow> nat \<Rightarrow> (log \<times> 'e bcache) fs \<Rightarrow> bool" where
  "good_dir d st i f \<longleftrightarrow> good_file d st i f \<and> itype (itab f ! i) = T_DIR \<and> 16 dvd unat (isize (itab f ! i))"

text \<open>Only the cache has changed.\<close>

definition cached :: "u32 \<Rightarrow> u32 \<Rightarrow> nat \<Rightarrow> (log \<times> 'e bcache) fs \<Rightarrow> log \<times> 'e bcache \<Rightarrow> bool" where
  "cached d st i f s \<longleftrightarrow> good_file d st i (f\<lparr>fblk := s\<rparr>) \<and> kview d (f\<lparr>fblk := s\<rparr>) = kview d f \<and> log_room (f\<lparr>fblk := s\<rparr>) = log_room f"

lemma cached_contents: "cached d st i f s \<Longrightarrow> contents d i (f\<lparr>fblk := s\<rparr>) = contents d i f"
  by (simp add: cached_def contents_def)

lemma cached_refl: "good_file d st i f \<Longrightarrow> cached d st i f (fblk f)"
  by (simp add: cached_def)

lemma cached_trans: "\<lbrakk>cached d st i f s; cached d st i (f\<lparr>fblk := s\<rparr>) s'\<rbrakk> \<Longrightarrow> cached d st i f s'"
  by (simp add: cached_def)

lemma entry_offset:
  assumes "good_file d st i f" "length (contents d i f) = 16 * n" "k \<le> n"
  shows "unat (of_nat (16 * k) :: u32) = 16 * k" "of_nat (16 * k) < isize (itab f ! i) \<longleftrightarrow> k < n"
    "(of_nat (16 * k) :: u32) + of_nat dirent_size = of_nat (16 * (k + 1))" "16 * n \<le> 274432"
proof -
  show n: "16 * n \<le> 274432" using good_file_size [OF assms(1)] assms(2) by simp
  have "16 * k < 2 ^ 32" using n assms(3) by simp
  then show u: "unat (of_nat (16 * k) :: u32) = 16 * k" by (simp add: unat_of_nat del: of_nat_mult)
  show "of_nat (16 * k) < isize (itab f ! i) \<longleftrightarrow> k < n"
    unfolding word_less_nat_alt u using assms(2) by simp
  show "(of_nat (16 * k) :: u32) + of_nat dirent_size = of_nat (16 * (k + 1))" by (simp add: DIRSIZ_val)
qed

lemma read_entry:
  assumes f: "good_file d st i f" and n: "length (contents d i f) = 16 * n" and k: "k < n"
  shows "\<exists>s. read_dirent logged_bio i (of_nat (16 * k)) f = Some (ent (contents d i f) k, f\<lparr>fblk := s\<rparr>) \<and> cached d st i f s"
proof -
  note o = entry_offset [OF f n less_imp_le [OF k]]
  have sz: "unat (isize (itab f ! i)) = 16 * n" using n by simp
  have le: "of_nat (16 * k) \<le> isize (itab f ! i)" using k unfolding word_le_nat_alt o(1) sz by simp
  have m: "min (unat (16 :: u32)) (unat (isize (itab f ! i)) - unat (of_nat (16 * k) :: u32)) = 16"
    unfolding o(1) sz using k by simp
  have small: "unat (of_nat (16 * k) :: u32) + unat (16 :: u32) < 2 ^ 32" unfolding o(1) using k o(4) by simp
  have e: "map (byte (kview d f) (itab f ! i)) [16 * k..<16 * k + 16] = ent (contents d i f) k"
    by (rule nth_equalityI) (use k sz in \<open>auto simp: ent_def contents_def\<close>)
  from kernel_read [OF f le small, of 0 "[]", unfolded m, unfolded o(1) e] obtain s where
    "readi logged_bio to_buffer i 0 (of_nat (16 * k)) 16 [] f = Some (int 16, [] @ ent (contents d i f) k, f\<lparr>fblk := s\<rparr>)"
    "good_file d st i (f\<lparr>fblk := s\<rparr>)" "kview d (f\<lparr>fblk := s\<rparr>) = kview d f" "log_room (f\<lparr>fblk := s\<rparr>) = log_room f"
    by blast
  then show ?thesis by (intro exI [of _ s]) (simp add: read_dirent_def DIRSIZ_val cached_def)
qed

lemma bind_map: "x \<bind> (\<lambda>(j, y). Some (g j, y)) = map_option (\<lambda>(j, y). (g j, y)) x"
  by (cases x) auto

lemma dirlookup_from_spec:
  assumes "good_file d st i f" "length (contents d i f) = 16 * n" "k \<le> n"
  shows "\<exists>s. cached d st i f s \<and> dirlookup_from logged_bio i name (of_nat (16 * k)) f =
    (case find_ent (contents d i f) (name_of name) k of
       None \<Rightarrow> Some (None, f\<lparr>fblk := s\<rparr>)
     | Some m \<Rightarrow> map_option (\<lambda>(j, g). (Some (j, of_nat (16 * m)), g))
         (iget (idev (itab f ! i)) (ucast (ent_inum (contents d i f) m)) (f\<lparr>fblk := s\<rparr>)))"
  using assms
proof (induction "n - k" arbitrary: k f)
  case 0
  then have "\<not> of_nat (16 * k) < isize (itab f ! i)" using entry_offset(2) [OF 0(2-4)] by simp
  then have "dirlookup_from logged_bio i name (of_nat (16 * k)) f = Some (None, f)" by (subst dirlookup_from.simps) simp
  moreover have "find_ent (contents d i f) (name_of name) k = None" using 0 by (simp add: find_ent_def)
  ultimately show ?case using cached_refl [OF 0(2)] by (intro exI [of _ "fblk f"]) simp
next
  case (Suc x)
  let ?c = "contents d i f"
  have k: "k < n" using Suc(2) by simp
  note o = entry_offset [OF Suc(3-5)]
  have fe: "find_ent ?c nm k = (if ent_inum ?c k \<noteq> 0 \<and> ent_name ?c k = nm then Some k else find_ent ?c nm (k + 1))" for nm
    using k Suc(4) by (simp add: find_ent_def find_upt)
  obtain s where s: "read_dirent logged_bio i (of_nat (16 * k)) f = Some (ent ?c k, f\<lparr>fblk := s\<rparr>)" "cached d st i f s"
    using read_entry [OF Suc(3,4) k] by blast
  have step: "dirlookup_from logged_bio i name (of_nat (16 * k)) f =
    (if ent_inum ?c k \<noteq> 0 \<and> ent_name ?c k = name_of name
     then map_option (\<lambda>(j, g). (Some (j, of_nat (16 * k)), g)) (iget (idev (itab f ! i)) (ucast (ent_inum ?c k)) (f\<lparr>fblk := s\<rparr>))
     else dirlookup_from logged_bio i name (of_nat (16 * (k + 1))) (f\<lparr>fblk := s\<rparr>))"
    using o(2,3) k s(1)
    by (subst dirlookup_from.simps)
      (auto simp: namecmp_zero ent_inum_def ent_name_def bind_map simp del: of_nat_mult of_nat_add)
  show ?case
  proof (cases "ent_inum ?c k \<noteq> 0 \<and> ent_name ?c k = name_of name")
    case True
    then show ?thesis unfolding step using fe s(2) by (intro exI [of _ s]) simp
  next
    case False
    have c: "contents d i (f\<lparr>fblk := s\<rparr>) = ?c" by (rule cached_contents [OF s(2)])
    have kf: "good_file d st i (f\<lparr>fblk := s\<rparr>)" using s(2) by (simp add: cached_def)
    have p: "x = n - (k + 1)" "k + 1 \<le> n" using Suc(2) k by simp_all
    have u: "itab (f\<lparr>fblk := s\<rparr>) = itab f" "\<And>s'. (f\<lparr>fblk := s\<rparr>)\<lparr>fblk := s'\<rparr> = f\<lparr>fblk := s'\<rparr>" by simp_all
    from Suc(1) [OF p(1) kf _ p(2), unfolded c, OF Suc(4), unfolded u] obtain s' where
      s': "cached d st i (f\<lparr>fblk := s\<rparr>) s'"
      "dirlookup_from logged_bio i name (of_nat (16 * (k + 1))) (f\<lparr>fblk := s\<rparr>) =
        (case find_ent ?c (name_of name) (k + 1) of
           None \<Rightarrow> Some (None, f\<lparr>fblk := s'\<rparr>)
         | Some m \<Rightarrow> map_option (\<lambda>(j, g). (Some (j, of_nat (16 * m)), g))
             (iget (idev (itab f ! i)) (ucast (ent_inum ?c m)) (f\<lparr>fblk := s'\<rparr>)))"
      by (elim exE conjE) (rule that)
    have fe': "find_ent ?c (name_of name) k = find_ent ?c (name_of name) (k + 1)" unfolding fe if_not_P [OF False] ..
    show ?thesis unfolding step if_not_P [OF False] fe' using s'(2) cached_trans [OF s(2) s'(1)] by blast
  qed
qed

lemma empty_dirent_spec:
  assumes "good_file d st i f" "length (contents d i f) = 16 * n" "k \<le> n"
  shows "\<exists>s. cached d st i f s \<and> empty_dirent logged_bio i (of_nat (16 * k)) f =
    Some (of_nat (16 * free_ent (contents d i f) k), f\<lparr>fblk := s\<rparr>)"
  using assms
proof (induction "n - k" arbitrary: k f)
  case 0
  then have "\<not> of_nat (16 * k) < isize (itab f ! i)" using entry_offset(2) [OF 0(2-4)] by simp
  then have "empty_dirent logged_bio i (of_nat (16 * k)) f = Some (of_nat (16 * k), f)" by (subst empty_dirent.simps) simp
  moreover have "free_ent (contents d i f) k = k" using 0 by (simp add: free_ent_def)
  ultimately show ?case using cached_refl [OF 0(2)] by (intro exI [of _ "fblk f"]) simp
next
  case (Suc x)
  let ?c = "contents d i f"
  have k: "k < n" using Suc(2) by simp
  note o = entry_offset [OF Suc(3-5)]
  have fe: "free_ent ?c k = (if ent_inum ?c k = 0 then k else free_ent ?c (k + 1))"
    using k Suc(4) by (simp add: free_ent_def find_upt)
  obtain s where s: "read_dirent logged_bio i (of_nat (16 * k)) f = Some (ent ?c k, f\<lparr>fblk := s\<rparr>)" "cached d st i f s"
    using read_entry [OF Suc(3,4) k] by blast
  have step: "empty_dirent logged_bio i (of_nat (16 * k)) f =
    (if ent_inum ?c k = 0 then Some (of_nat (16 * k), f\<lparr>fblk := s\<rparr>)
     else empty_dirent logged_bio i (of_nat (16 * (k + 1))) (f\<lparr>fblk := s\<rparr>))"
    using o(2,3) k s(1)
    by (subst empty_dirent.simps) (auto simp: ent_inum_def simp del: of_nat_mult of_nat_add)
  show ?case
  proof (cases "ent_inum ?c k = 0")
    case True
    then show ?thesis unfolding step using fe s(2) by (intro exI [of _ s]) simp
  next
    case False
    have c: "contents d i (f\<lparr>fblk := s\<rparr>) = ?c" by (rule cached_contents [OF s(2)])
    have kf: "good_file d st i (f\<lparr>fblk := s\<rparr>)" using s(2) by (simp add: cached_def)
    have p: "x = n - (k + 1)" "k + 1 \<le> n" using Suc(2) k by simp_all
    have u: "itab (f\<lparr>fblk := s\<rparr>) = itab f" "\<And>s'. (f\<lparr>fblk := s\<rparr>)\<lparr>fblk := s'\<rparr> = f\<lparr>fblk := s'\<rparr>" by simp_all
    from Suc(1) [OF p(1) kf _ p(2), unfolded c, OF Suc(4), unfolded u] obtain s' where
      s': "cached d st i (f\<lparr>fblk := s\<rparr>) s'"
      "empty_dirent logged_bio i (of_nat (16 * (k + 1))) (f\<lparr>fblk := s\<rparr>) = Some (of_nat (16 * free_ent ?c (k + 1)), f\<lparr>fblk := s'\<rparr>)"
      by (elim exE conjE) (rule that)
    show ?thesis unfolding step if_not_P [OF False] using s'(2) fe False cached_trans [OF s(2) s'(1)]
      by (intro exI [of _ s']) simp
  qed
qed

lemma good_dirD:
  assumes "good_dir d st i f"
  obtains n where "good_file d st i f" "length (contents d i f) = 16 * n" "itype (itab f ! i) = T_DIR" "idev (itab f ! i) = d"
  using assms by (auto simp: good_dir_def good_file_def elim!: dvdE)

lemma lookup_result:
  assumes "good_dir d st i f"
  shows "\<exists>s. cached d st i f s \<and> dirlookup logged_bio i name f =
    (case find_ent (contents d i f) (name_of name) 0 of
       None \<Rightarrow> Some (None, f\<lparr>fblk := s\<rparr>)
     | Some m \<Rightarrow> map_option (\<lambda>(j, g). (Some (j, of_nat (16 * m)), g)) (iget d (ucast (ent_inum (contents d i f) m)) (f\<lparr>fblk := s\<rparr>)))"
proof -
  obtain n where n: "good_file d st i f" "length (contents d i f) = 16 * n" "itype (itab f ! i) = T_DIR" "idev (itab f ! i) = d"
    by (rule good_dirD [OF assms])
  show ?thesis using dirlookup_from_spec [OF n(1,2), of 0 name, unfolded n(4)] n(3) by (simp add: dirlookup_def)
qed

text \<open>
  C15: A directory refines the map from names (the bytes before a NUL, \<open>DIRSIZ\<close> at most) to inode numbers
  that its entries stand for: \<open>dirlookup\<close> returns the reference \<open>iget\<close> makes for the number of the name
  and the offset of the entry it found, or no inode when the map has none, and changes only the cache.
\<close>

theorem dirlookup_refines:
  assumes "good_dir d st i f"
  shows "\<exists>s. cached d st i f s \<and>
    (case dir_map (contents d i f) (name_of name) of
       None \<Rightarrow> dirlookup logged_bio i name f = Some (None, f\<lparr>fblk := s\<rparr>)
     | Some m \<Rightarrow> m \<noteq> 0 \<and> (\<exists>k. ent_inum (contents d i f) k = m \<and> ent_name (contents d i f) k = name_of name \<and>
         dirlookup logged_bio i name f =
           map_option (\<lambda>(j, g). (Some (j, of_nat (16 * k)), g)) (iget d (ucast m) (f\<lparr>fblk := s\<rparr>))))"
proof -
  obtain s where s: "cached d st i f s" "dirlookup logged_bio i name f =
    (case find_ent (contents d i f) (name_of name) 0 of
       None \<Rightarrow> Some (None, f\<lparr>fblk := s\<rparr>)
     | Some m \<Rightarrow> map_option (\<lambda>(j, g). (Some (j, of_nat (16 * m)), g)) (iget d (ucast (ent_inum (contents d i f) m)) (f\<lparr>fblk := s\<rparr>)))"
    using lookup_result [OF assms] by blast
  show ?thesis
  proof (cases "find_ent (contents d i f) (name_of name) 0")
    case None
    then show ?thesis using s by (intro exI [of _ s]) (simp add: dir_map_def)
  next
    case (Some k)
    then have "ent_inum (contents d i f) k \<noteq> 0" "ent_name (contents d i f) k = name_of name"
      by (auto simp: find_ent_def find_Some_iff)
    then show ?thesis using s Some by (intro exI [of _ s]) (auto simp: dir_map_def)
  qed
qed

lemma others_kept_refl: "others_kept L sb V ip V ip"
  by (auto simp: others_kept_def)

lemma entry_fits: "16 * k mod 1024 + 16 \<le> (1024 :: nat)"
proof -
  have "16 * k mod 1024 = 16 * (k mod 64)" using mult_mod_right [of 16 k 64] by simp
  then show ?thesis using mod_less_divisor [of 64 k] by linarith
qed

text \<open>\<open>dirlink\<close> finds the entry that is to be written and leaves it to \<open>writei\<close>.\<close>

lemma dirlink_slot:
  assumes dir: "good_dir d st i f" and free: "dir_map (contents d i f) (name_of name) = None"
  obtains N f2 where "length (contents d i f) = 16 * N" "free_ent (contents d i f) 0 \<le> N" "good_file d st i f2"
    "kview d f2 = kview d f" "log_room f2 = log_room f" "contents d i f2 = contents d i f" "itab f2 = itab f" "fsb f2 = fsb f"
    "dirlink logged_bio i name n f = map_option (\<lambda>(r, f3). (if r \<noteq> 16 then -1 else 0, f3))
      (writei logged_bio (from_buffer (dirent_bytes (ucast n) name)) i 0 (of_nat (16 * free_ent (contents d i f) 0))
        (of_nat (length (dirent_bytes (ucast n) name))) f2)"
proof -
  let ?c = "contents d i f"
  obtain N where N: "good_file d st i f" "length ?c = 16 * N" by (rule good_dirD [OF dir])
  have "find_ent ?c (name_of name) 0 = None" using free by (simp add: dir_map_def)
  then obtain s where s: "cached d st i f s" "dirlookup logged_bio i name f = Some (None, f\<lparr>fblk := s\<rparr>)"
    using lookup_result [OF dir, of name] by auto
  have c1: "contents d i (f\<lparr>fblk := s\<rparr>) = ?c" by (rule cached_contents [OF s(1)])
  have "good_file d st i (f\<lparr>fblk := s\<rparr>)" using s(1) by (simp add: cached_def)
  from empty_dirent_spec [OF this, unfolded c1, OF N(2), of 0] obtain s' where
    s': "cached d st i (f\<lparr>fblk := s\<rparr>) s'"
      "empty_dirent logged_bio i 0 (f\<lparr>fblk := s\<rparr>) = Some (of_nat (16 * free_ent ?c 0), f\<lparr>fblk := s'\<rparr>)"
    by auto
  have ca: "cached d st i f s'" by (rule cached_trans [OF s(1) s'(1)])
  show ?thesis
  proof (rule that [of N "f\<lparr>fblk := s'\<rparr>"])
    show "free_ent ?c 0 \<le> N" by (rule free_ent_le [OF N(2)]) simp
    show "dirlink logged_bio i name n f = map_option (\<lambda>(r, f3). (if r \<noteq> 16 then -1 else 0, f3))
      (writei logged_bio (from_buffer (dirent_bytes (ucast n) name)) i 0 (of_nat (16 * free_ent ?c 0))
        (of_nat (length (dirent_bytes (ucast n) name))) (f\<lparr>fblk := s'\<rparr>))"
      using s(2) s'(2) dirent_entry(1) [of "ucast n" name]
      by (simp add: dirlink_def DIRSIZ_val bind_map del: of_nat_mult)
  qed (use N ca cached_contents [OF ca] in \<open>simp_all add: cached_def\<close>)
qed

text \<open>A write that stops at the end of a block stops between entries.\<close>

lemma whole_entries: "\<lbrakk>t < 16; t = 0 \<or> (16 * k + t) mod 1024 = 0\<rbrakk> \<Longrightarrow> t = (0 :: nat)"
  using mod_mod_cancel [of 16 1024 "16 * k + t"] by auto

lemma good_dirI:
  "\<lbrakk>good_file d st i f; itype (itab f ! i) = T_DIR; length (contents d i f) = 16 * m\<rbrakk> \<Longrightarrow> good_dir d st i f"
  by (simp add: good_dir_def)

text \<open>
  C14: \<open>dirlink\<close> of a name that a directory does not have adds the name to its map, and nothing else, when
  it returns 0; it returns \<open>-1\<close> only on a full disk or a directory of the largest size, and the entries are then as
  before. Other files and inodes are not affected.
\<close>

theorem dirlink_refines:
  assumes dir: "good_dir d st i f" and room: "7 \<le> log_room f" and free: "dir_map (contents d i f) (name_of name) = None"
    and n0: "(ucast n :: u16) \<noteq> 0"
  shows "\<exists>r f'. dirlink logged_bio i name n f = Some (r, f') \<and> good_dir d st i f' \<and>
    others_kept (log_area st) (fsb f) (kview d f) (itab f ! i) (kview d f') (itab f' ! i) \<and>
    (r = 0 \<and> dir_map (contents d i f') = (dir_map (contents d i f))(name_of name \<mapsto> ucast n) \<or>
     r = -1 \<and> contents d i f' = contents d i f \<and>
       ((\<forall>b < sb_size (fsb f). used (fsb f) (kview d f') b) \<or> length (contents d i f) = MAXFILE * BSIZE))"
proof -
  let ?c = "contents d i f" and ?e = "dirent_bytes (ucast n) name" and ?k = "free_ent (contents d i f) 0"
  obtain N f2 where N: "length ?c = 16 * N" "?k \<le> N" and f2: "good_file d st i f2" "kview d f2 = kview d f"
    "log_room f2 = log_room f" "contents d i f2 = ?c" "itab f2 = itab f" "fsb f2 = fsb f" and
    run: "dirlink logged_bio i name n f = map_option (\<lambda>(r, f3). (if r \<noteq> 16 then -1 else 0, f3))
      (writei logged_bio (from_buffer ?e) i 0 (of_nat (16 * ?k)) (of_nat (length ?e)) f2)"
    by (rule dirlink_slot [OF dir free])
  have ip: "good_file d st i f" "itype (itab f ! i) = T_DIR" using dir by (simp_all add: good_dir_def)
  note o = entry_offset [OF ip(1) N]
  have le: "of_nat (16 * ?k) \<le> isize (itab f2 ! i)" unfolding f2(5) word_le_nat_alt o(1) using N contents_length [of d i f] by simp
  show ?thesis
  proof (cases "16 * ?k + 16 \<le> MAXFILE * BSIZE")
    case False
    then have "\<not> (of_nat (16 * ?k) \<le> isize (itab f2 ! i) \<and> unat (of_nat (16 * ?k) :: u32) + length ?e \<le> MAXFILE * BSIZE)"
      unfolding o(1) dirent_entry(1) by simp
    from write_rejected [OF f2(1) _ this] have "dirlink logged_bio i name n f = Some (-1, f2)"
      unfolding run by (simp add: dirent_entry(1))
    moreover have "length ?c = MAXFILE * BSIZE" using False N o(4) by (simp add: sizes del: contents_length)
    moreover have "good_dir d st i f2" by (rule good_dirI [OF f2(1)]) (simp_all only: f2 ip N)
    ultimately show ?thesis using f2 others_kept_refl by auto
  next
    case True
    have w: "unat (of_nat (16 * ?k) :: u32) mod BSIZE + length ?e \<le> 1 * BSIZE" "6 * 1 + 1 \<le> log_room f2"
      "unat (of_nat (16 * ?k) :: u32) + length ?e \<le> MAXFILE * BSIZE"
      unfolding o(1) dirent_entry(1) f2(3) using entry_fits [of ?k] room True by (simp_all add: sizes)
    obtain t f' xs where t: "writei logged_bio (from_buffer ?e) i 0 (of_nat (16 * ?k)) (of_nat (length ?e)) f2 = Some (int t, f')"
      "t \<le> length ?e" "t = length ?e \<or> (\<forall>b < sb_size (fsb f2). used (fsb f2) (kview d f') b) \<and>
         (t = 0 \<or> (unat (of_nat (16 * ?k) :: u32) + t) mod BSIZE = 0)" "good_file d st i f'"
      "itab f' = (itab f2)[i := (itab f2 ! i)\<lparr>iaddrs := xs, isize := max (isize (itab f2 ! i)) (of_nat (16 * ?k) + of_nat t)\<rparr>]"
      "others_kept (log_area st) (fsb f2) (kview d f2) (itab f2 ! i) (kview d f') (itab f' ! i)"
      using kernel_write [OF f2(1) w(2,1) le w(3)] by (elim exE conjE) (rule that)
    have c': "contents d i f' = take (16 * ?k) ?c @ take t ?e @ drop (16 * ?k + t) ?c"
      using write_contents [OF f2(1) w(2,1) le w(3)] t(1) f2(4) o(1) by auto
    have ty: "itype (itab f' ! i) = T_DIR" using t(5) f2(5) ip by (auto simp: good_file_def)
    have r: "dirlink logged_bio i name n f = Some (if t = 16 then 0 else -1, f')"
      unfolding run t(1) by simp
    show ?thesis
    proof (cases "t = 16")
      case full: True
      have pe: "contents d i f' = put_ent ?c ?k ?e" using c' full by (simp add: put_ent_def dirent_entry(1))
      have "length (contents d i f') = 16 * max N (?k + 1)"
        unfolding pe by (rule put_ent(1) [OF N dirent_entry(1)])
      then have "good_dir d st i f'" by (rule good_dirI [OF t(4) ty])
      moreover have "dir_map (contents d i f') = (dir_map ?c)(name_of name \<mapsto> ucast n)"
        unfolding pe by (rule dir_map_put [OF N(1) free n0])
      ultimately show ?thesis using r t(6) f2(2,5,6) full by auto
    next
      case part: False
      have "t < 16" using t(2) part unfolding dirent_entry(1) by simp
      moreover have t0: "t = 0 \<or> (16 * ?k + t) mod 1024 = 0" "\<forall>b < sb_size (fsb f). used (fsb f) (kview d f') b"
        using t(3) part unfolding dirent_entry(1) o(1) sizes f2(6) by auto
      ultimately have "t = 0" by (intro whole_entries)
      then have same: "contents d i f' = ?c" using c' by simp
      have "good_dir d st i f'" by (rule good_dirI [OF t(4) ty]) (simp only: same N)
      then show ?thesis using r t(6) f2(2,5,6) part t0(2) same by auto
    qed
  qed
qed

section \<open>An example\<close>

lemma demo_dir_addr: "addr V demo_dir m = (if m = 0 then 46 else 0)"
proof (cases "m < NDIRECT")
  case True
  then show ?thesis by (cases m) (simp_all add: addr_def demo_dir_def sizes)
next
  case False
  then show ?thesis by (simp add: addr_def demo_dir_def sizes)
qed

lemma demo_good_dir: "good_dir 1 2 2 demo_fs"
proof -
  have o: "own V demo_dir = {46}" for V by (auto simp: own_def demo_dir_addr sizes) (auto simp: demo_dir_def)
  have d: "data_block (log_area 2) mkfs_sb 46" by (rule mkfs_data) simp_all
  have u: "used mkfs_sb demo_image 46" using demo_used [of 46] by simp
  have "length (iaddrs demo_dir) = NDIRECT + 1" "idev demo_dir = 1" "inum demo_dir = ROOTINO" "isize demo_dir = 16"
    "itype demo_dir = T_DIR" "iaddrs demo_dir ! NDIRECT = 0" by (simp_all add: demo_dir_def sizes)
  then show ?thesis
    using demo_store demo_meta d u o
    by (auto simp: good_dir_def good_file_def demo_fs_def ino_ok_def dense_def demo_dir_addr sizes ROOTINO_def)
qed

lemma demo_entry: "contents 1 2 demo_fs = [5, 0, 97] @ replicate 13 0"
proof (rule nth_equalityI)
  show "length (contents 1 2 demo_fs) = length ([5, 0, 97] @ replicate 13 (0 :: u8))"
    by (simp add: contents_def demo_fs_def demo_dir_def)
  show "contents 1 2 demo_fs ! j = ([5, 0, 97] @ replicate 13 0) ! j" if "j < length (contents 1 2 demo_fs)" for j
  proof -
    have j: "j < 16" using that by (simp add: contents_def demo_fs_def demo_dir_def)
    have "itab demo_fs ! 2 = demo_dir" "unat (isize demo_dir) = 16" by (simp_all add: demo_fs_def demo_dir_def)
    moreover have "byte demo_image demo_dir j = demo_image 46 ! j" using j by (simp add: byte_def demo_dir_addr sizes)
    ultimately have "contents 1 2 demo_fs ! j = demo_image 46 ! j" using j demo_store(3) by (simp add: contents_def)
    then show ?thesis using j by (auto simp: demo_image_def nth_Cons split: nat.split)
  qed
qed

lemma demo_map: "dir_map (contents 1 2 demo_fs) nm = (if nm = [97] then Some 5 else None)"
  by (simp add: demo_entry dir_map_def find_ent_def ent_inum_def ent_name_def ent_def le16_at_def name_of_def DIRSIZ_val)

theorem dirlookup_refines_witness:
  "\<exists>s k. dirlookup logged_bio 2 [97] demo_fs =
    map_option (\<lambda>(j, g). (Some (j, of_nat (16 * k)), g)) (iget 1 5 (demo_fs\<lparr>fblk := s\<rparr>))"
  using dirlookup_refines [OF demo_good_dir, of "[97]"] by (auto simp: demo_map name_of_def DIRSIZ_val)

theorem dirlink_refines_witness:
  "\<exists>r f'. dirlink logged_bio 2 [98] 6 demo_fs = Some (r, f') \<and> good_dir 1 2 2 f' \<and>
    (r = 0 \<and> dir_map (contents 1 2 f') = [[97] \<mapsto> 5, [98] \<mapsto> 6] \<or> r = -1 \<and> dir_map (contents 1 2 f') = [[97] \<mapsto> 5])"
proof -
  have m: "dir_map (contents 1 2 demo_fs) = [[97] \<mapsto> 5]" by (rule ext) (simp add: demo_map)
  have nm: "name_of [98] = [98]" "(ucast (6 :: u32) :: u16) = 6" by (simp_all add: name_of_def DIRSIZ_val)
  have "7 \<le> log_room demo_fs" "dir_map (contents 1 2 demo_fs) (name_of [98]) = None" "(ucast (6 :: u32) :: u16) \<noteq> 0"
    using demo_store(4) by (simp_all add: demo_map nm)
  from dirlink_refines [OF demo_good_dir this] obtain r f' where "dirlink logged_bio 2 [98] 6 demo_fs = Some (r, f')" "good_dir 1 2 2 f'"
    "r = 0 \<and> dir_map (contents 1 2 f') = [[97] \<mapsto> 5, [98] \<mapsto> 6] \<or> r = -1 \<and> contents 1 2 f' = contents 1 2 demo_fs"
    unfolding m nm by blast
  then show ?thesis using m by (intro exI [of _ r] exI [of _ f']) auto
qed

end
