(* ===== verification/X_Sysfile.thy ===== *)
theory X_Sysfile
  imports X_Fs_Kernel X_Pipe
begin

text \<open>
  The file layer and the system calls on files (\<open>kernel/file.c\<close>, \<open>kernel/sysfile.c\<close>, \<open>kernel/fcntl.h\<close>), over the
  file system of \<open>X_Fs\<close> and the file table and pipes of \<open>X_Pipe\<close>. The arguments of a call are
  parameters, a path that \<open>argstr\<close> cannot fetch is \<open>None\<close>. Inside a call, \<open>None\<close> is a \<open>panic\<close> or a wait
  for another process in the file system.
\<close>

section \<open>State and interfaces\<close>

record ('s, 'e) sysst =
  sys_f :: "'e fstate"
  sys_fs :: "'s fs"

text \<open>The routines of other components: those of \<open>proc.c\<close>, \<open>copyin\<close> with the bytes that arrive when it fails, and \<open>devsw\<close>; the padding
  of a \<open>struct stat\<close> is what the stack holds.\<close>

record 'e fapi =
  fa_k :: "'e kapi"
  fa_copyin :: "u64 \<Rightarrow> u64 \<Rightarrow> nat \<Rightarrow> 'e \<Rightarrow> int \<times> bytes"
  fa_pad :: bytes
  fa_dev_read :: "int \<Rightarrow> (u64 \<Rightarrow> int \<Rightarrow> 'e \<Rightarrow> int \<times> 'e) option"
  fa_dev_write :: "int \<Rightarrow> (u64 \<Rightarrow> int \<Rightarrow> 'e \<Rightarrow> int \<times> 'e) option"

definition NDEV :: int where "NDEV = 10"
definition O_RDONLY :: u32 where "O_RDONLY = 0"
definition O_WRONLY :: u32 where "O_WRONLY = 1"
definition O_RDWR :: u32 where "O_RDWR = 2"
definition O_CREATE :: u32 where "O_CREATE = 0x200"
definition O_TRUNC :: u32 where "O_TRUNC = 0x400"

definition has_mode :: "u32 \<Rightarrow> u32 \<Rightarrow> bool" where
  "has_mode omode m \<longleftrightarrow> and omode m \<noteq> 0"

definition fs_begin :: "'s blk_api \<Rightarrow> 's fs \<Rightarrow> 's fs option" where
  "fs_begin blk f = do { s \<leftarrow> blk_begin_op blk (fblk f); Some (f\<lparr>fblk := s\<rparr>) }"

definition fs_end :: "'s blk_api \<Rightarrow> 's fs \<Rightarrow> 's fs option" where
  "fs_end blk f = do { s \<leftarrow> blk_end_op blk (fblk f); Some (f\<lparr>fblk := s\<rparr>) }"

definition set_env :: "'e \<Rightarrow> ('s, 'e) sysst \<Rightarrow> ('s, 'e) sysst" where
  "set_env e st = st\<lparr>sys_f := (sys_f st)\<lparr>fk := (fk (sys_f st))\<lparr>env := e\<rparr>\<rparr>\<rparr>"

definition sys_env :: "('s, 'e) sysst \<Rightarrow> 'e" where
  "sys_env st = env (fk (sys_f st))"

text \<open>The page table of the caller.\<close>

definition my_pagetable :: "('s, 'e) sysst \<Rightarrow> u64 option" where
  "my_pagetable st = map_option (\<lambda>p. pagetable (procs (fk (sys_f st)) ! p)) (cur (fk (sys_f st)))"

section \<open>Open files\<close>

definition fileclose_fs :: "'s blk_api \<Rightarrow> 'e fapi \<Rightarrow> nat \<Rightarrow> ('s, 'e) sysst \<Rightarrow> ('s, 'e) sysst option" where
  "fileclose_fs blk api f st =
    (let x = ftable (sys_f st) ! f
     in if f_ref x < 1 then None
        else if f_ref x - 1 > 0 then Some (st\<lparr>sys_f := upd_file f (\<lambda>x. x\<lparr>f_ref := f_ref x - 1\<rparr>) (sys_f st)\<rparr>)
        else let s1 = upd_file f (\<lambda>x. x\<lparr>f_ref := 0, f_type := FD_NONE\<rparr>) (sys_f st)
          in if f_type x = FD_PIPE then Some (st\<lparr>sys_f := pipeclose (fa_k api) (f_pipe x) (f_writable x) s1\<rparr>)
             else if f_type x = FD_INODE \<or> f_type x = FD_DEVICE then do {
               g1 \<leftarrow> fs_begin blk (sys_fs st);
               g2 \<leftarrow> iput blk (f_ip x) g1;
               g3 \<leftarrow> fs_end blk g2;
               Some (st\<lparr>sys_f := s1, sys_fs := g3\<rparr>) }
             else Some (st\<lparr>sys_f := s1\<rparr>))"

text \<open>The 24 bytes of \<open>struct stat\<close>; the four of padding before the size are not set by the code.\<close>

definition stat_bytes :: "bytes \<Rightarrow> stat \<Rightarrow> bytes" where
  "stat_bytes pad x = le32_bytes (st_dev x) @ le32_bytes (st_ino x) @ le16_bytes (st_type x) @ le16_bytes (st_nlink x) @
     pad @ le32_bytes (ucast (st_size x)) @ le32_bytes (ucast (drop_bit 32 (st_size x)))"

definition filestat :: "'s blk_api \<Rightarrow> 'e fapi \<Rightarrow> nat \<Rightarrow> u64 \<Rightarrow> ('s, 'e) sysst \<Rightarrow> (int \<times> ('s, 'e) sysst) option" where
  "filestat blk api f va st =
    (let x = ftable (sys_f st) ! f
     in if f_type x = FD_INODE \<or> f_type x = FD_DEVICE then do {
          pt \<leftarrow> my_pagetable st;
          g1 \<leftarrow> ilock blk (f_ip x) (sys_fs st);
          let b = stat_bytes (fa_pad api) (stati (f_ip x) g1);
          g2 \<leftarrow> iunlock blk (f_ip x) g1;
          (case api_copyout (fa_k api) pt va b (sys_env st) of (r, e) \<Rightarrow>
             Some (if r < 0 then -1 else 0, set_env e (st\<lparr>sys_fs := g2\<rparr>))) }
        else Some (-1, st))"

text \<open>\<open>readi\<close> and \<open>writei\<close> on the memory of the caller.\<close>

definition user_put :: "'e fapi \<Rightarrow> u64 \<Rightarrow> u64 \<Rightarrow> bytes \<Rightarrow> 'e \<Rightarrow> int \<times> 'e" where
  "user_put api pt a bs e = api_copyout (fa_k api) pt a bs e"

definition user_get :: "'e fapi \<Rightarrow> u64 \<Rightarrow> 'e \<Rightarrow> u64 \<Rightarrow> nat \<Rightarrow> int \<times> bytes" where
  "user_get api pt e a n = fa_copyin api pt a n e"

definition add_off :: "nat \<Rightarrow> int \<Rightarrow> 'e fstate \<Rightarrow> 'e fstate" where
  "add_off f r s = (if r > 0 then upd_file f (\<lambda>x. x\<lparr>f_off := f_off x + of_int r\<rparr>) s else s)"

definition fileread :: "'s blk_api \<Rightarrow> 'e fapi \<Rightarrow> nat \<Rightarrow> u64 \<Rightarrow> int \<Rightarrow> ('s, 'e) sysst \<Rightarrow>
    (pipe_outcome \<times> ('s, 'e) sysst) option" where
  "fileread blk api f va n st =
    (let x = ftable (sys_f st) ! f
     in if \<not> f_readable x then Some (Pipe_return (-1), st)
        else case f_type x of
          FD_PIPE \<Rightarrow> do {
            (r, pi, k) \<leftarrow> piperead (fa_k api) (f_pipe x) va n (pipes (sys_f st) (f_pipe x)) (fk (sys_f st));
            Some (r, st\<lparr>sys_f := (sys_f st)\<lparr>fk := k, pipes := (pipes (sys_f st))(f_pipe x := pi)\<rparr>\<rparr>) }
        | FD_DEVICE \<Rightarrow>
            if f_major x < 0 \<or> NDEV \<le> f_major x then Some (Pipe_return (-1), st)
            else (case fa_dev_read api (f_major x) of
               None \<Rightarrow> Some (Pipe_return (-1), st)
             | Some rd \<Rightarrow> (case rd va n (sys_env st) of (r, e) \<Rightarrow> Some (Pipe_return r, set_env e st)))
        | FD_INODE \<Rightarrow> do {
            pt \<leftarrow> my_pagetable st;
            g1 \<leftarrow> ilock blk (f_ip x) (sys_fs st);
            (r, e, g2) \<leftarrow> readi blk (user_put api pt) (f_ip x) va (f_off x) (of_int n) (sys_env st) g1;
            g3 \<leftarrow> iunlock blk (f_ip x) g2;
            Some (Pipe_return r, set_env e (st\<lparr>sys_f := add_off f r (sys_f st), sys_fs := g3\<rparr>)) }
        | FD_NONE \<Rightarrow> None)"

text \<open>The pieces of a write are transactions of their own; \<open>i\<close> bytes are done.\<close>

definition max_piece :: int where
  "max_piece = ((MAXOPBLOCKS - 1 - 1 - 2) div 2) * int BSIZE"

function filewrite_loop :: "'s blk_api \<Rightarrow> 'e fapi \<Rightarrow> u64 \<Rightarrow> nat \<Rightarrow> u64 \<Rightarrow> int \<Rightarrow> int \<Rightarrow> ('s, 'e) sysst \<Rightarrow>
    (int \<times> ('s, 'e) sysst) option" where
  "filewrite_loop blk api pt f va n i st =
    (if i < n then
       let n1 = min (n - i) max_piece;
           x = ftable (sys_f st) ! f
       in case do {
            g1 \<leftarrow> fs_begin blk (sys_fs st);
            g2 \<leftarrow> ilock blk (f_ip x) g1;
            (r, g3) \<leftarrow> writei blk (user_get api pt (sys_env st)) (f_ip x) (va + of_int i) (f_off x) (of_int n1) g2;
            g4 \<leftarrow> iunlock blk (f_ip x) g3;
            g5 \<leftarrow> fs_end blk g4;
            Some (r, st\<lparr>sys_f := add_off f r (sys_f st), sys_fs := g5\<rparr>) } of
          None \<Rightarrow> None
        | Some (r, st') \<Rightarrow> if r \<noteq> n1 then Some (i, st') else filewrite_loop blk api pt f va n (i + r) st'
     else Some (i, st))"
  by pat_completeness auto
termination
  by (relation "measure (\<lambda>(blk, api, pt, f, va, n, i, st). nat (n - i))")
    (auto simp: max_piece_def MAXOPBLOCKS_def BSIZE_def)

declare filewrite_loop.simps [simp del]

text \<open>\<open>kl\<close> says when another CPU kills the caller, as in \<open>pipewrite\<close>.\<close>

definition filewrite :: "'s blk_api \<Rightarrow> 'e fapi \<Rightarrow> (int \<Rightarrow> bool) \<Rightarrow> nat \<Rightarrow> u64 \<Rightarrow> int \<Rightarrow> ('s, 'e) sysst \<Rightarrow>
    (pipe_outcome \<times> ('s, 'e) sysst) option" where
  "filewrite blk api kl f va n st =
    (let x = ftable (sys_f st) ! f
     in if \<not> f_writable x then Some (Pipe_return (-1), st)
        else case f_type x of
          FD_PIPE \<Rightarrow> do {
            (r, pi, k) \<leftarrow> pipewrite (fa_k api) kl (f_pipe x) va n (pipes (sys_f st) (f_pipe x)) (fk (sys_f st));
            Some (r, st\<lparr>sys_f := (sys_f st)\<lparr>fk := k, pipes := (pipes (sys_f st))(f_pipe x := pi)\<rparr>\<rparr>) }
        | FD_DEVICE \<Rightarrow>
            if f_major x < 0 \<or> NDEV \<le> f_major x then Some (Pipe_return (-1), st)
            else (case fa_dev_write api (f_major x) of
               None \<Rightarrow> Some (Pipe_return (-1), st)
             | Some wr \<Rightarrow> (case wr va n (sys_env st) of (r, e) \<Rightarrow> Some (Pipe_return r, set_env e st)))
        | FD_INODE \<Rightarrow> do {
            pt \<leftarrow> my_pagetable st;
            (i, st') \<leftarrow> filewrite_loop blk api pt f va n 0 st;
            Some (Pipe_return (if i = n then n else -1), st') }
        | FD_NONE \<Rightarrow> None)"

section \<open>Descriptors\<close>

text \<open>\<open>Some None\<close> is the failure \<open>-1\<close>.\<close>

definition argfd :: "int \<Rightarrow> 'e fstate \<Rightarrow> nat option option" where
  "argfd fd s = do {
     p \<leftarrow> cur (fk s);
     Some (if fd < 0 \<or> int NOFILE \<le> fd then None else ofile (procs (fk s) ! p) ! nat fd) }"

definition set_fd :: "nat \<Rightarrow> nat \<Rightarrow> nat option \<Rightarrow> 'e fstate \<Rightarrow> 'e fstate" where
  "set_fd p fd x s = s\<lparr>fk := upd_proc p (\<lambda>q. q\<lparr>ofile := (ofile q)[fd := x]\<rparr>) (fk s)\<rparr>"

definition fdalloc :: "nat \<Rightarrow> 'e fstate \<Rightarrow> (int \<times> 'e fstate) option" where
  "fdalloc f s = do {
     p \<leftarrow> cur (fk s);
     Some (case find (\<lambda>fd. ofile (procs (fk s) ! p) ! fd = None) [0..<NOFILE] of
         Some fd \<Rightarrow> (int fd, set_fd p fd (Some f) s)
       | None \<Rightarrow> (-1, s)) }"

definition sys_dup :: "int \<Rightarrow> 'e fstate \<Rightarrow> (int \<times> 'e fstate) option" where
  "sys_dup fd s = do {
     x \<leftarrow> argfd fd s;
     case x of None \<Rightarrow> Some (-1, s)
     | Some f \<Rightarrow> do {
         (fd', s1) \<leftarrow> fdalloc f s;
         if fd' < 0 then Some (-1, s)
         else do { s2 \<leftarrow> filedup f s1; Some (fd', s2) } } }"

definition sys_read :: "'s blk_api \<Rightarrow> 'e fapi \<Rightarrow> int \<Rightarrow> u64 \<Rightarrow> int \<Rightarrow> ('s, 'e) sysst \<Rightarrow> (pipe_outcome \<times> ('s, 'e) sysst) option" where
  "sys_read blk api fd p n st = do {
     x \<leftarrow> argfd fd (sys_f st);
     case x of None \<Rightarrow> Some (Pipe_return (-1), st) | Some f \<Rightarrow> fileread blk api f p n st }"

definition sys_write :: "'s blk_api \<Rightarrow> 'e fapi \<Rightarrow> (int \<Rightarrow> bool) \<Rightarrow> int \<Rightarrow> u64 \<Rightarrow> int \<Rightarrow> ('s, 'e) sysst \<Rightarrow>
    (pipe_outcome \<times> ('s, 'e) sysst) option" where
  "sys_write blk api kl fd p n st = do {
     x \<leftarrow> argfd fd (sys_f st);
     case x of None \<Rightarrow> Some (Pipe_return (-1), st) | Some f \<Rightarrow> filewrite blk api kl f p n st }"

definition sys_close :: "'s blk_api \<Rightarrow> 'e fapi \<Rightarrow> int \<Rightarrow> ('s, 'e) sysst \<Rightarrow> (int \<times> ('s, 'e) sysst) option" where
  "sys_close blk api fd st = do {
     x \<leftarrow> argfd fd (sys_f st);
     p \<leftarrow> cur (fk (sys_f st));
     case x of None \<Rightarrow> Some (-1, st)
     | Some f \<Rightarrow> do {
         st' \<leftarrow> fileclose_fs blk api f (st\<lparr>sys_f := set_fd p (nat fd) None (sys_f st)\<rparr>);
         Some (0, st') } }"

definition sys_fstat :: "'s blk_api \<Rightarrow> 'e fapi \<Rightarrow> int \<Rightarrow> u64 \<Rightarrow> ('s, 'e) sysst \<Rightarrow> (int \<times> ('s, 'e) sysst) option" where
  "sys_fstat blk api fd p st = do {
     x \<leftarrow> argfd fd (sys_f st);
     case x of None \<Rightarrow> Some (-1, st) | Some f \<Rightarrow> filestat blk api f p st }"

text \<open>The common exit of the failures of \<open>sys_pipe\<close>.\<close>

definition pipe_fail :: "'s blk_api \<Rightarrow> 'e fapi \<Rightarrow> nat \<Rightarrow> nat \<Rightarrow> ('s, 'e) sysst \<Rightarrow> (int \<times> ('s, 'e) sysst) option" where
  "pipe_fail blk api f0 f1 st = do {
     st1 \<leftarrow> fileclose_fs blk api f0 st;
     st2 \<leftarrow> fileclose_fs blk api f1 st1;
     Some (-1, st2) }"

definition put_fds :: "'e fapi \<Rightarrow> u64 \<Rightarrow> u64 \<Rightarrow> int \<Rightarrow> int \<Rightarrow> 'e \<Rightarrow> bool \<times> 'e" where
  "put_fds api pt fdarray fd0 fd1 e =
    (case api_copyout (fa_k api) pt fdarray (le32_bytes (of_int fd0)) e of (r0, e0) \<Rightarrow>
       if r0 < 0 then (False, e0)
       else case api_copyout (fa_k api) pt (fdarray + 4) (le32_bytes (of_int fd1)) e0 of (r1, e1) \<Rightarrow> (\<not> r1 < 0, e1))"

definition sys_pipe :: "'s blk_api \<Rightarrow> 'e fapi \<Rightarrow> u64 \<Rightarrow> ('s, 'e) sysst \<Rightarrow> (int \<times> ('s, 'e) sysst) option" where
  "sys_pipe blk api fdarray st = do {
     p \<leftarrow> cur (fk (sys_f st));
     pt \<leftarrow> my_pagetable st;
     (r, s1) \<leftarrow> pipealloc (fa_k api) (sys_f st);
     case r of Inl _ \<Rightarrow> Some (-1, st\<lparr>sys_f := s1\<rparr>)
     | Inr (f0, f1) \<Rightarrow> do {
         (fd0, s2) \<leftarrow> fdalloc f0 s1;
         if fd0 < 0 then pipe_fail blk api f0 f1 (st\<lparr>sys_f := s2\<rparr>)
         else do {
           (fd1, s3) \<leftarrow> fdalloc f1 s2;
           if fd1 < 0 then pipe_fail blk api f0 f1 (st\<lparr>sys_f := set_fd p (nat fd0) None s3\<rparr>)
           else (case put_fds api pt fdarray fd0 fd1 (sys_env (st\<lparr>sys_f := s3\<rparr>)) of (copied, e) \<Rightarrow>
             if copied then Some (0, set_env e (st\<lparr>sys_f := s3\<rparr>))
             else pipe_fail blk api f0 f1 (set_env e
               (st\<lparr>sys_f := set_fd p (nat fd1) None (set_fd p (nat fd0) None s3)\<rparr>))) } } }"

section \<open>Names\<close>

definition link_at :: "'s blk_api \<Rightarrow> nat \<Rightarrow> bytes \<Rightarrow> 's fs \<Rightarrow> (bool \<times> 's fs) option" where
  "link_at blk ip new f = do {
     (dp, name, f1) \<leftarrow> nameiparent blk new (replicate DIRSIZ 0) f;
     case dp of None \<Rightarrow> Some (False, f1)
     | Some dp \<Rightarrow> do {
         f2 \<leftarrow> ilock blk dp f1;
         (r, f3) \<leftarrow> (if idev (itab f2 ! dp) \<noteq> idev (itab f2 ! ip) then Some (-1, f2)
                    else dirlink blk dp name (inum (itab f2 ! ip)) f2);
         f4 \<leftarrow> iunlockput blk dp f3;
         Some (0 \<le> r, f4) } }"

definition sys_link :: "'s blk_api \<Rightarrow> bytes option \<Rightarrow> bytes option \<Rightarrow> 's fs \<Rightarrow> (int \<times> 's fs) option" where
  "sys_link blk old new f =
    (case (old, new) of
       (Some old, Some new) \<Rightarrow> do {
         f1 \<leftarrow> fs_begin blk f;
         (ip, f2) \<leftarrow> namei blk old f1;
         case ip of None \<Rightarrow> do { f3 \<leftarrow> fs_end blk f2; Some (-1, f3) }
         | Some ip \<Rightarrow> do {
             f3 \<leftarrow> ilock blk ip f2;
             if itype (itab f3 ! ip) = T_DIR then do {
               f4 \<leftarrow> iunlockput blk ip f3;
               f5 \<leftarrow> fs_end blk f4;
               Some (-1, f5) }
             else do {
               f4 \<leftarrow> iupdate blk ip (upd_ino ip (\<lambda>x. x\<lparr>inlink := inlink x + 1\<rparr>) f3);
               f5 \<leftarrow> iunlock blk ip f4;
               (linked, f6) \<leftarrow> link_at blk ip new f5;
               if linked then do {
                 f7 \<leftarrow> iput blk ip f6;
                 f8 \<leftarrow> fs_end blk f7;
                 Some (0, f8) }
               else do {
                 f7 \<leftarrow> ilock blk ip f6;
                 f8 \<leftarrow> iupdate blk ip (upd_ino ip (\<lambda>x. x\<lparr>inlink := inlink x - 1\<rparr>) f7);
                 f9 \<leftarrow> iunlockput blk ip f8;
                 f10 \<leftarrow> fs_end blk f9;
                 Some (-1, f10) } } } }
     | _ \<Rightarrow> Some (-1, f))"

partial_function (option) isdirempty_from :: "'s blk_api \<Rightarrow> nat \<Rightarrow> u32 \<Rightarrow> 's fs \<Rightarrow> (bool \<times> 's fs) option" where
  "isdirempty_from blk i off f =
    (if off < isize (itab f ! i) then do {
       (de, f1) \<leftarrow> read_dirent blk i off f;
       if le16_at de 0 \<noteq> 0 then Some (False, f1)
       else isdirempty_from blk i (off + of_nat dirent_size) f1 }
     else Some (True, f))"

definition isdirempty :: "'s blk_api \<Rightarrow> nat \<Rightarrow> 's fs \<Rightarrow> (bool \<times> 's fs) option" where
  "isdirempty blk i f = isdirempty_from blk i (of_nat (2 * dirent_size)) f"

text \<open>Both inodes are locked; the entry is at \<open>off\<close>.\<close>

definition unlink_entry :: "'s blk_api \<Rightarrow> nat \<Rightarrow> nat \<Rightarrow> u32 \<Rightarrow> 's fs \<Rightarrow> 's fs option" where
  "unlink_entry blk dp ip off f = do {
     (r, f1) \<leftarrow> writei blk (from_buffer (replicate dirent_size 0)) dp 0 off (of_nat dirent_size) f;
     if r \<noteq> int dirent_size then None
     else do {
       f2 \<leftarrow> (if itype (itab f1 ! ip) = T_DIR
              then iupdate blk dp (upd_ino dp (\<lambda>x. x\<lparr>inlink := inlink x - 1\<rparr>) f1) else Some f1);
       f3 \<leftarrow> iunlockput blk dp f2;
       f4 \<leftarrow> iupdate blk ip (upd_ino ip (\<lambda>x. x\<lparr>inlink := inlink x - 1\<rparr>) f3);
       iunlockput blk ip f4 } }"

definition sys_unlink :: "'s blk_api \<Rightarrow> bytes option \<Rightarrow> 's fs \<Rightarrow> (int \<times> 's fs) option" where
  "sys_unlink blk path f =
    (case path of None \<Rightarrow> Some (-1, f)
     | Some path \<Rightarrow> do {
         f1 \<leftarrow> fs_begin blk f;
         (dp, name, f2) \<leftarrow> nameiparent blk path (replicate DIRSIZ 0) f1;
         case dp of None \<Rightarrow> do { f3 \<leftarrow> fs_end blk f2; Some (-1, f3) }
         | Some dp \<Rightarrow> do {
             f3 \<leftarrow> ilock blk dp f2;
             let bad = (\<lambda>g. do { g1 \<leftarrow> iunlockput blk dp g; g2 \<leftarrow> fs_end blk g1; Some (-1, g2) });
             if namecmp name [46] = 0 \<or> namecmp name [46, 46] = 0 then bad f3
             else do {
               (found, f4) \<leftarrow> dirlookup blk dp name f3;
               case found of None \<Rightarrow> bad f4
               | Some (ip, off) \<Rightarrow> do {
                   f5 \<leftarrow> ilock blk ip f4;
                   if sint (inlink (itab f5 ! ip)) < 1 then None
                   else do {
                     (empty, f6) \<leftarrow> (if itype (itab f5 ! ip) = T_DIR then isdirempty blk ip f5 else Some (True, f5));
                     if \<not> empty then do { f7 \<leftarrow> iunlockput blk ip f6; bad f7 }
                     else do {
                       f7 \<leftarrow> unlink_entry blk dp ip off f6;
                       f8 \<leftarrow> fs_end blk f7;
                       Some (0, f8) } } } } } })"

text \<open>The new inode gets its entries; on failure it is deallocated.\<close>

definition create_new :: "'s blk_api \<Rightarrow> nat \<Rightarrow> bytes \<Rightarrow> u16 \<Rightarrow> u16 \<Rightarrow> u16 \<Rightarrow> nat \<Rightarrow> 's fs \<Rightarrow> (nat option \<times> 's fs) option" where
  "create_new blk dp name ty mj mn ip f = do {
     f1 \<leftarrow> ilock blk ip f;
     f2 \<leftarrow> iupdate blk ip (upd_ino ip (\<lambda>x. x\<lparr>imajor := mj, iminor := mn, inlink := 1\<rparr>) f1);
     (ok1, f3) \<leftarrow> (if ty = T_DIR then do {
         (r1, g1) \<leftarrow> dirlink blk ip [46] (inum (itab f2 ! ip)) f2;
         if r1 < 0 then Some (False, g1)
         else do {
           (r2, g2) \<leftarrow> dirlink blk ip [46, 46] (inum (itab g1 ! dp)) g1;
           Some (0 \<le> r2, g2) } }
       else Some (True, f2));
     (ok2, f4) \<leftarrow> (if ok1 then do {
         (r, g) \<leftarrow> dirlink blk dp name (inum (itab f3 ! ip)) f3;
         Some (0 \<le> r, g) }
       else Some (False, f3));
     if ok2 then do {
       f5 \<leftarrow> (if ty = T_DIR then iupdate blk dp (upd_ino dp (\<lambda>x. x\<lparr>inlink := inlink x + 1\<rparr>) f4) else Some f4);
       f6 \<leftarrow> iunlockput blk dp f5;
       Some (Some ip, f6) }
     else do {
       f5 \<leftarrow> iupdate blk ip (upd_ino ip (\<lambda>x. x\<lparr>inlink := 0\<rparr>) f4);
       f6 \<leftarrow> iunlockput blk ip f5;
       f7 \<leftarrow> iunlockput blk dp f6;
       Some (None, f7) } }"

text \<open>The inode is returned locked.\<close>

definition create :: "'s blk_api \<Rightarrow> bytes \<Rightarrow> u16 \<Rightarrow> u16 \<Rightarrow> u16 \<Rightarrow> 's fs \<Rightarrow> (nat option \<times> 's fs) option" where
  "create blk path ty mj mn f = do {
     (dp, name, f1) \<leftarrow> nameiparent blk path (replicate DIRSIZ 0) f;
     case dp of None \<Rightarrow> Some (None, f1)
     | Some dp \<Rightarrow> do {
         f2 \<leftarrow> ilock blk dp f1;
         (found, f3) \<leftarrow> dirlookup blk dp name f2;
         case found of
           Some (ip, _) \<Rightarrow> do {
             f4 \<leftarrow> iunlockput blk dp f3;
             f5 \<leftarrow> ilock blk ip f4;
             if ty = T_FILE \<and> (itype (itab f5 ! ip) = T_FILE \<or> itype (itab f5 ! ip) = T_DEVICE) then Some (Some ip, f5)
             else do { f6 \<leftarrow> iunlockput blk ip f5; Some (None, f6) } }
         | None \<Rightarrow> do {
             (ip, f4) \<leftarrow> ialloc blk (idev (itab f3 ! dp)) ty f3;
             case ip of None \<Rightarrow> do { f5 \<leftarrow> iunlockput blk dp f4; Some (None, f5) }
             | Some ip \<Rightarrow> create_new blk dp name ty mj mn ip f4 } } }"

text \<open>The first part of \<open>sys_open\<close>: the inode of the path, locked.\<close>

definition open_inode :: "'s blk_api \<Rightarrow> bytes \<Rightarrow> u32 \<Rightarrow> 's fs \<Rightarrow> (nat option \<times> 's fs) option" where
  "open_inode blk path omode f = do {
     (ip, f1) \<leftarrow> (if has_mode omode O_CREATE then create blk path T_FILE 0 0 f
       else do {
         (ip, g) \<leftarrow> namei blk path f;
         case ip of None \<Rightarrow> Some (None, g)
         | Some ip \<Rightarrow> do {
             g1 \<leftarrow> ilock blk ip g;
             if itype (itab g1 ! ip) = T_DIR \<and> omode \<noteq> O_RDONLY then do { g2 \<leftarrow> iunlockput blk ip g1; Some (None, g2) }
             else Some (Some ip, g1) } });
     case ip of None \<Rightarrow> Some (None, f1)
     | Some ip \<Rightarrow>
         (let x = itab f1 ! ip in
          if itype x = T_DEVICE \<and> (sint (imajor x) < 0 \<or> NDEV \<le> sint (imajor x)) then do {
            f2 \<leftarrow> iunlockput blk ip f1;
            Some (None, f2) }
          else Some (Some ip, f1)) }"

definition open_file :: "inode \<Rightarrow> nat \<Rightarrow> u32 \<Rightarrow> kfile \<Rightarrow> kfile" where
  "open_file x ip omode y =
    (if itype x = T_DEVICE then y\<lparr>f_type := FD_DEVICE, f_major := sint (imajor x)\<rparr>
     else y\<lparr>f_type := FD_INODE, f_off := 0\<rparr>)
    \<lparr>f_ip := ip, f_readable := \<not> has_mode omode O_WRONLY, f_writable := has_mode omode O_WRONLY \<or> has_mode omode O_RDWR\<rparr>"

definition sys_open :: "'s blk_api \<Rightarrow> 'e fapi \<Rightarrow> bytes option \<Rightarrow> u32 \<Rightarrow> ('s, 'e) sysst \<Rightarrow> (int \<times> ('s, 'e) sysst) option" where
  "sys_open blk api path omode st =
    (case path of None \<Rightarrow> Some (-1, st)
     | Some path \<Rightarrow> do {
         f1 \<leftarrow> fs_begin blk (sys_fs st);
         (ip, f2) \<leftarrow> open_inode blk path omode f1;
         case ip of None \<Rightarrow> do { f3 \<leftarrow> fs_end blk f2; Some (-1, st\<lparr>sys_fs := f3\<rparr>) }
         | Some ip \<Rightarrow> do {
             let fail = (\<lambda>t. do {
               g1 \<leftarrow> iunlockput blk ip (sys_fs t);
               g2 \<leftarrow> fs_end blk g1;
               Some (-1, t\<lparr>sys_fs := g2\<rparr>) });
             let st1 = st\<lparr>sys_fs := f2\<rparr>;
             case filealloc (sys_f st) of
               (None, s) \<Rightarrow> fail (st1\<lparr>sys_f := s\<rparr>)
             | (Some f, s) \<Rightarrow> do {
                 (fd, s1) \<leftarrow> fdalloc f s;
                 if fd < 0 then do { st2 \<leftarrow> fileclose_fs blk api f (st1\<lparr>sys_f := s1\<rparr>); fail st2 }
                 else do {
                   let x = itab f2 ! ip;
                   f3 \<leftarrow> (if has_mode omode O_TRUNC \<and> itype x = T_FILE then itrunc blk ip f2 else Some f2);
                   f4 \<leftarrow> iunlock blk ip f3;
                   f5 \<leftarrow> fs_end blk f4;
                   Some (fd, st\<lparr>sys_f := upd_file f (open_file x ip omode) s1, sys_fs := f5\<rparr>) } } } })"

definition sys_mkdir :: "'s blk_api \<Rightarrow> bytes option \<Rightarrow> 's fs \<Rightarrow> (int \<times> 's fs) option" where
  "sys_mkdir blk path f = do {
     f1 \<leftarrow> fs_begin blk f;
     (ip, f2) \<leftarrow> (case path of None \<Rightarrow> Some (None, f1) | Some path \<Rightarrow> create blk path T_DIR 0 0 f1);
     case ip of None \<Rightarrow> do { f3 \<leftarrow> fs_end blk f2; Some (-1, f3) }
     | Some ip \<Rightarrow> do {
         f3 \<leftarrow> iunlockput blk ip f2;
         f4 \<leftarrow> fs_end blk f3;
         Some (0, f4) } }"

definition sys_mknod :: "'s blk_api \<Rightarrow> bytes option \<Rightarrow> int \<Rightarrow> int \<Rightarrow> 's fs \<Rightarrow> (int \<times> 's fs) option" where
  "sys_mknod blk path mj mn f = do {
     f1 \<leftarrow> fs_begin blk f;
     (ip, f2) \<leftarrow> (case path of None \<Rightarrow> Some (None, f1) | Some path \<Rightarrow> create blk path T_DEVICE (of_int mj) (of_int mn) f1);
     case ip of None \<Rightarrow> do { f3 \<leftarrow> fs_end blk f2; Some (-1, f3) }
     | Some ip \<Rightarrow> do {
         f3 \<leftarrow> iunlockput blk ip f2;
         f4 \<leftarrow> fs_end blk f3;
         Some (0, f4) } }"

definition sys_chdir :: "'s blk_api \<Rightarrow> bytes option \<Rightarrow> 's fs \<Rightarrow> (int \<times> 's fs) option" where
  "sys_chdir blk path f = do {
     f1 \<leftarrow> fs_begin blk f;
     (ip, f2) \<leftarrow> (case path of None \<Rightarrow> Some (None, f1) | Some path \<Rightarrow> namei blk path f1);
     case ip of None \<Rightarrow> do { f3 \<leftarrow> fs_end blk f2; Some (-1, f3) }
     | Some ip \<Rightarrow> do {
         f3 \<leftarrow> ilock blk ip f2;
         if itype (itab f3 ! ip) \<noteq> T_DIR then do {
           f4 \<leftarrow> iunlockput blk ip f3;
           f5 \<leftarrow> fs_end blk f4;
           Some (-1, f5) }
         else do {
           f4 \<leftarrow> iunlock blk ip f3;
           f5 \<leftarrow> iput blk (fcwd f4) f4;
           f6 \<leftarrow> fs_end blk f5;
           Some (0, f6\<lparr>fcwd := ip\<rparr>) } } }"

end
