(* ===== verification/X_Sysfile_Refs.thy ===== *)
theory X_Sysfile_Refs
  imports X_Sysfile "HOL-Library.Multiset"
begin

text \<open>
  Descriptors and the reference counts of files: in every state between two calls the count of a file is the
  number of descriptors, over all processes, that name it. Within a call some references are held by
  the kernel alone; they are the multiset \<open>H\<close>.
\<close>

section \<open>Counting references\<close>

definition fd_count :: "nat \<Rightarrow> nat option list list \<Rightarrow> nat" where
  "fd_count f os = (\<Sum>fds\<leftarrow>os. count_list fds (Some f))"

definition fd_table_ok :: "nat option list \<Rightarrow> bool" where
  "fd_table_ok fds \<longleftrightarrow> length fds = NOFILE \<and> (\<forall>x\<in>set fds. case x of None \<Rightarrow> True | Some f \<Rightarrow> f < NFILE)"

definition counts_ok :: "nat multiset \<Rightarrow> int list \<Rightarrow> nat option list list \<Rightarrow> bool" where
  "counts_ok H rs os \<longleftrightarrow> length rs = NFILE \<and> (\<forall>f < NFILE. rs ! f = int (fd_count f os + count H f)) \<and>
     (\<forall>fds\<in>set os. fd_table_ok fds) \<and> (\<forall>f\<in>#H. f < NFILE)"

lemma count_list_update:
  "n < length xs \<Longrightarrow> count_list (xs[n := x]) a + (if xs ! n = a then 1 else 0) = count_list xs a + (if x = a then 1 else 0)"
proof (induction xs arbitrary: n)
  case (Cons y ys)
  show ?case
  proof (cases n)
    case (Suc m)
    with Cons.prems Cons.IH [of m] show ?thesis by (auto split: if_splits)
  qed simp
qed simp

lemma fd_count_Cons [simp]: "fd_count f (fds # os) = count_list fds (Some f) + fd_count f os"
  by (simp add: fd_count_def)

lemma fd_count_update:
  "\<lbrakk>p < length os; fd < length (os ! p)\<rbrakk> \<Longrightarrow>
    fd_count f (os[p := (os ! p)[fd := x]]) + (if os ! p ! fd = Some f then 1 else 0) =
    fd_count f os + (if x = Some f then 1 else 0)"
proof (induction os arbitrary: p)
  case (Cons fds os)
  show ?case
  proof (cases p)
    case 0
    with Cons.prems count_list_update [of fd fds x "Some f"] show ?thesis by simp
  next
    case (Suc q)
    with Cons.prems Cons.IH [of q] show ?thesis by simp
  qed
qed simp

lemma fd_table_ok_update: "\<lbrakk>fd_table_ok fds; case x of None \<Rightarrow> True | Some f \<Rightarrow> f < NFILE\<rbrakk> \<Longrightarrow> fd_table_ok (fds[fd := x])"
  using set_update_subset_insert [of fds fd x] by (auto simp: fd_table_ok_def)

lemma fd_tables_ok_update:
  "\<lbrakk>\<forall>fds\<in>set os. fd_table_ok fds; p < length os; case x of None \<Rightarrow> True | Some f \<Rightarrow> f < NFILE; fds \<in> set (os[p := (os ! p)[fd := x]])\<rbrakk>
    \<Longrightarrow> fd_table_ok fds"
  using set_update_subset_insert [of os p "(os ! p)[fd := x]"] fd_table_ok_update [of "os ! p" x fd] by auto

lemma counts_entry: "\<lbrakk>counts_ok H rs os; p < length os\<rbrakk> \<Longrightarrow> length (os ! p) = NOFILE"
  by (simp add: counts_ok_def fd_table_ok_def)

lemma counts_entry_less: "\<lbrakk>counts_ok H rs os; p < length os; fd < NOFILE; os ! p ! fd = Some f\<rbrakk> \<Longrightarrow> f < NFILE"
proof -
  assume a: "counts_ok H rs os" "p < length os" "fd < NOFILE" "os ! p ! fd = Some f"
  then have "fd_table_ok (os ! p)" by (simp add: counts_ok_def)
  moreover have "os ! p ! fd \<in> set (os ! p)" using a(3) counts_entry [OF a(1,2)] by simp
  ultimately show "f < NFILE" using a(4) by (auto simp: fd_table_ok_def)
qed

lemma counts_fill:
  assumes c: "counts_ok H rs os" "p < length os" "fd < NOFILE" "os ! p ! fd = None" "f \<in># H"
  shows "counts_ok (H - {#f#}) rs (os[p := (os ! p)[fd := Some f]])"
proof -
  have e: "fd_count g (os[p := (os ! p)[fd := Some f]]) = fd_count g os + (if f = g then 1 else 0)" for g
    using fd_count_update [of p os fd g "Some f"] c counts_entry [OF c(1,2)] by simp
  have h: "count H f = Suc (count (H - {#f#}) f)" using c(5) by (simp add: Suc_diff_1 count_greater_zero_iff)
  have "\<forall>fds\<in>set (os[p := (os ! p)[fd := Some f]]). fd_table_ok fds"
    using fd_tables_ok_update [of os p "Some f" _ fd] c by (auto simp: counts_ok_def)
  then show ?thesis
    using c(1) e h by (auto simp: counts_ok_def dest: in_diffD)
qed

lemma counts_clear:
  assumes c: "counts_ok H rs os" "p < length os" "fd < NOFILE" "os ! p ! fd = Some f"
  shows "counts_ok (add_mset f H) rs (os[p := (os ! p)[fd := None]])"
proof -
  have e: "fd_count g (os[p := (os ! p)[fd := None]]) + (if f = g then 1 else 0) = fd_count g os" for g
    using fd_count_update [of p os fd g None] c counts_entry [OF c(1,2)] by simp
  have "rs ! g = int (fd_count g (os[p := (os ! p)[fd := None]]) + count (add_mset f H) g)" if "g < NFILE" for g
    using c(1) that e [of g] by (auto simp: counts_ok_def)
  moreover have "\<forall>fds\<in>set (os[p := (os ! p)[fd := None]]). fd_table_ok fds"
    using fd_tables_ok_update [of os p None _ fd] c by (auto simp: counts_ok_def)
  ultimately show ?thesis
    using c(1) counts_entry_less [OF c] by (auto simp: counts_ok_def)
qed

lemma counts_inc: "\<lbrakk>counts_ok H rs os; f < NFILE\<rbrakk> \<Longrightarrow> counts_ok (add_mset f H) (rs[f := rs ! f + 1]) os"
  by (auto simp: counts_ok_def nth_list_update)

lemma counts_held: "\<lbrakk>counts_ok H rs os; f \<in># H\<rbrakk> \<Longrightarrow> f < NFILE \<and> 1 \<le> rs ! f"
  by (auto simp: counts_ok_def) (metis count_greater_zero_iff less_one not_less of_nat_less_0_iff
    add_is_0 int_one_le_iff_zero_less not_gr_zero of_nat_0_less_iff of_nat_add)

lemma counts_dec:
  assumes c: "counts_ok H rs os" "f \<in># H"
  shows "counts_ok (H - {#f#}) (rs[f := rs ! f - 1]) os"
proof -
  have "count H f = Suc (count (H - {#f#}) f)" using c(2) by (simp add: Suc_diff_1 count_greater_zero_iff)
  then show ?thesis using c(1) by (auto simp: counts_ok_def nth_list_update dest: in_diffD)
qed

lemma counts_used: "\<lbrakk>counts_ok H rs os; p < length os; fd < NOFILE; os ! p ! fd = Some f\<rbrakk> \<Longrightarrow> 1 \<le> rs ! f"
  using counts_held [OF counts_clear, of H rs os p fd f f] by simp

section \<open>The operations on descriptors and files\<close>

definition ofiles :: "'e fstate \<Rightarrow> nat option list list" where
  "ofiles s = map ofile (procs (fk s))"

definition cur_ok :: "nat option \<Rightarrow> nat \<Rightarrow> bool" where
  "cur_ok c n = (case c of None \<Rightarrow> True | Some p \<Rightarrow> p < n)"

definition refs_with :: "nat multiset \<Rightarrow> 'e fstate \<Rightarrow> bool" where
  "refs_with H s \<longleftrightarrow> counts_ok H (map f_ref (ftable s)) (ofiles s) \<and> cur_ok (cur (fk s)) (length (ofiles s))"

abbreviation refs_ok :: "'e fstate \<Rightarrow> bool" where "refs_ok s \<equiv> refs_with {#} s"

definition same_fds :: "'e fstate \<Rightarrow> 'e fstate \<Rightarrow> bool" where
  "same_fds s s' \<longleftrightarrow> ofiles s' = ofiles s \<and> cur (fk s') = cur (fk s)"

lemma same_fds_refl [simp]: "same_fds s s"
  by (simp add: same_fds_def)

lemma same_fds_trans: "\<lbrakk>same_fds s s'; same_fds s' s''\<rbrakk> \<Longrightarrow> same_fds s s''"
  by (simp add: same_fds_def)

lemma length_ofiles [simp]: "length (ofiles s) = length (procs (fk s))"
  by (simp add: ofiles_def)

lemma refs_with_same:
  "\<lbrakk>refs_with H s; same_fds s s'; map f_ref (ftable s') = map f_ref (ftable s)\<rbrakk> \<Longrightarrow> refs_with H s'"
  unfolding refs_with_def same_fds_def by metis

lemma refs_withD:
  assumes "refs_with H s"
  shows "length (ftable s) = NFILE" "\<And>f. f \<in># H \<Longrightarrow> f < NFILE" "\<And>f. f \<in># H \<Longrightarrow> 1 \<le> f_ref (ftable s ! f)"
proof -
  have c: "counts_ok H (map f_ref (ftable s)) (ofiles s)" using assms by (simp add: refs_with_def)
  then show l: "length (ftable s) = NFILE" by (simp add: counts_ok_def)
  fix f assume "f \<in># H"
  from counts_held [OF c this] show "f < NFILE" "1 \<le> f_ref (ftable s ! f)" by (auto simp: l)
qed

lemma fk_upd_file [simp]: "fk (upd_file f g s) = fk s" "pipes (upd_file f g s) = pipes s"
  by (simp_all add: upd_file_def)

lemma ftable_upd: "ftable (upd_file f g s) = (ftable s)[f := g (ftable s ! f)]"
  by (simp add: upd_file_def)

lemma ofiles_upd_file [simp]: "ofiles (upd_file f g s) = ofiles s" "same_fds s (upd_file f g s)"
  by (simp_all add: ofiles_def same_fds_def)

lemma refs_upd:
  "\<lbrakk>refs_with H s; \<And>x. f_ref (g x) = f_ref x\<rbrakk> \<Longrightarrow> refs_with H (upd_file f g s)"
  by (erule refs_with_same) (simp_all add: ftable_upd map_update list_update_same_conv [symmetric] flip: map_update,
    metis (no_types, lifting) list_update_id list_update_beyond map_update not_le_imp_less nth_map)

lemma refs_inc:
  assumes "refs_with H s" "f < NFILE" "\<And>x. x = ftable s ! f \<Longrightarrow> f_ref (g x) = f_ref x + 1"
  shows "refs_with (add_mset f H) (upd_file f g s)"
  using assms counts_inc [of H "map f_ref (ftable s)" "ofiles s" f] refs_withD(1) [OF assms(1)]
  by (simp add: refs_with_def ftable_upd map_update)

lemma refs_dec:
  assumes "refs_with H s" "f \<in># H" "\<And>x. x = ftable s ! f \<Longrightarrow> f_ref (g x) = f_ref x - 1"
  shows "refs_with (H - {#f#}) (upd_file f g s)"
  using assms counts_dec [of H "map f_ref (ftable s)" "ofiles s" f] refs_withD(1,2) [OF assms(1)]
  by (simp add: refs_with_def ftable_upd map_update)

lemma filealloc_refs:
  assumes "filealloc s = (r, s')" "refs_with H s"
  shows "case r of None \<Rightarrow> s' = s
    | Some f \<Rightarrow> f < NFILE \<and> f_ref (ftable s ! f) = 0 \<and> s' = upd_file f (\<lambda>x. x\<lparr>f_ref := 1\<rparr>) s \<and> refs_with (add_mset f H) s'"
proof (cases "find (\<lambda>f. f_ref (ftable s ! f) = 0) [0..<NFILE]")
  case None
  then show ?thesis using assms by (simp add: filealloc_def)
next
  case (Some f)
  then have f: "f < NFILE" "f_ref (ftable s ! f) = 0" by (auto simp: find_Some_iff)
  moreover have "r = Some f" "s' = upd_file f (\<lambda>x. x\<lparr>f_ref := 1\<rparr>) s" using assms(1) Some by (simp_all add: filealloc_def)
  ultimately show ?thesis using refs_inc [OF assms(2), of f "\<lambda>x. x\<lparr>f_ref := 1\<rparr>"] by simp
qed

lemma filedup_refs:
  assumes "refs_with H s" "f < NFILE" "1 \<le> f_ref (ftable s ! f)"
  obtains s' where "filedup f s = Some s'" "refs_with (add_mset f H) s'" "same_fds s s'"
  using assms by (intro that [OF _ refs_inc [OF assms(1,2)]]) (auto simp: filedup_def)

lemma wakeup_fds:
  "map ofile (procs (wakeup ch k)) = map ofile (procs k)" "cur (wakeup ch k) = cur k" "env (wakeup ch k) = env k"
proof -
  have u: "map ofile (procs (upd_proc i (wake_one ch) s)) = map ofile (procs s)" "cur (upd_proc i (wake_one ch) s) = cur s"
    "env (upd_proc i (wake_one ch) s) = env s" for i :: nat and s :: "'a kstate"
    by (auto simp: upd_proc_def map_update wake_one_def) (metis list_update_id list_update_beyond map_update not_le_imp_less nth_map)+
  have "map ofile (procs (fold (\<lambda>i s. if cur s \<noteq> Some i then upd_proc i (wake_one ch) s else s) is k)) = map ofile (procs k) \<and>
    cur (fold (\<lambda>i s. if cur s \<noteq> Some i then upd_proc i (wake_one ch) s else s) is k) = cur k \<and>
    env (fold (\<lambda>i s. if cur s \<noteq> Some i then upd_proc i (wake_one ch) s else s) is k) = env k" for "is"
    by (induction "is" arbitrary: k) (auto simp: u)
  then show "map ofile (procs (wakeup ch k)) = map ofile (procs k)" "cur (wakeup ch k) = cur k" "env (wakeup ch k) = env k"
    by (simp_all add: wakeup_def)
qed

lemma pipeclose_frame: "ftable (pipeclose api a w s) = ftable s" "same_fds s (pipeclose api a w s)"
  by (simp_all add: pipeclose_def Let_def same_fds_def ofiles_def wakeup_fds)

lemma pipe_fds:
  "ftable (s\<lparr>fk := k\<rparr>) = ftable s" "ftable (s\<lparr>pipes := q\<rparr>) = ftable s"
  "same_fds s (s\<lparr>pipes := q\<rparr>)" "same_fds s (s\<lparr>fk := (fk s)\<lparr>env := e\<rparr>\<rparr>)"
  by (simp_all add: same_fds_def ofiles_def)

lemma fileclose_refs:
  assumes "refs_with H s" "f \<in># H"
  obtains s' where "fileclose api f s = Some s'" "refs_with (H - {#f#}) s'" "same_fds s s'"
    "\<And>g. g \<noteq> f \<Longrightarrow> ftable s' ! g = ftable s ! g"
proof -
  let ?d = "upd_file f (\<lambda>x. x\<lparr>f_ref := f_ref x - 1\<rparr>) s"
  let ?z = "upd_file f (\<lambda>x. x\<lparr>f_ref := 0, f_type := FD_NONE\<rparr>) s"
  have ref: "\<not> f_ref (ftable s ! f) < 1" using refs_withD(3) [OF assms] by simp
  have other: "\<And>g. g \<noteq> f \<Longrightarrow> ftable ?d ! g = ftable s ! g" "\<And>g. g \<noteq> f \<Longrightarrow> ftable ?z ! g = ftable s ! g"
    by (simp_all add: ftable_upd)
  show ?thesis
  proof (cases "f_ref (ftable s ! f) - 1 > 0")
    case True
    then show ?thesis
      using ref other by (intro that [OF _ refs_dec [OF assms]]) (auto simp: fileclose_def Let_def)
  next
    case False
    then have z: "refs_with (H - {#f#}) ?z" using ref by (intro refs_dec [OF assms]) auto
    have "\<exists>s'. fileclose api f s = Some s' \<and> same_fds ?z s' \<and> ftable s' = ftable ?z"
      using False ref unfolding fileclose_def Let_def if_not_P [OF ref] if_not_P [OF False]
      by (simp add: pipe_fds(1,2) pipe_fds(4) [of ?z, simplified] pipeclose_frame split: if_split)
    then obtain s' where s': "fileclose api f s = Some s'" "same_fds ?z s'" "ftable s' = ftable ?z" by blast
    have "refs_with (H - {#f#}) s'" by (rule refs_with_same [OF z s'(2)]) (simp add: s')
    then show ?thesis
      using that [OF s'(1)] other s' same_fds_trans [OF ofiles_upd_file(2) s'(2)] by simp
  qed
qed

text \<open>The same for \<open>fileclose\<close> over the file system, which may have to wait or panic there.\<close>

lemma fileclose_fs_refs:
  assumes "refs_with H (sys_f st)" "f \<in># H" "fileclose_fs blk api f st = Some st'"
  shows "refs_with (H - {#f#}) (sys_f st')" "same_fds (sys_f st) (sys_f st')"
    "\<And>g. g \<noteq> f \<Longrightarrow> ftable (sys_f st') ! g = ftable (sys_f st) ! g"
proof -
  let ?s = "sys_f st"
  let ?d = "upd_file f (\<lambda>x. x\<lparr>f_ref := f_ref x - 1\<rparr>) ?s"
  let ?z = "upd_file f (\<lambda>x. x\<lparr>f_ref := 0, f_type := FD_NONE\<rparr>) ?s"
  have ref: "\<not> f_ref (ftable ?s ! f) < 1" using refs_withD(3) [OF assms(1,2)] by simp
  have "refs_with (H - {#f#}) (sys_f st') \<and> same_fds ?s (sys_f st') \<and> (\<forall>g. g \<noteq> f \<longrightarrow> ftable (sys_f st') ! g = ftable ?s ! g)"
  proof (cases "f_ref (ftable ?s ! f) - 1 > 0")
    case True
    then have "sys_f st' = ?d" using ref assms(3) by (auto simp: fileclose_fs_def Let_def)
    then show ?thesis using refs_dec [OF assms(1,2), of "\<lambda>x. x\<lparr>f_ref := f_ref x - 1\<rparr>"] by (simp add: ftable_upd)
  next
    case False
    then have z: "refs_with (H - {#f#}) ?z" using ref by (intro refs_dec [OF assms(1,2)]) auto
    have s': "same_fds ?z (sys_f st')" "ftable (sys_f st') = ftable ?z"
      using False ref assms(3) by (auto simp: fileclose_fs_def Let_def pipeclose_frame split: if_splits Option.bind_splits)
    have "refs_with (H - {#f#}) (sys_f st')" by (rule refs_with_same [OF z s'(1)]) (simp add: s')
    then show ?thesis
      using s' same_fds_trans [OF ofiles_upd_file(2) s'(1)] by (simp add: ftable_upd)
  qed
  then show "refs_with (H - {#f#}) (sys_f st')" "same_fds ?s (sys_f st')"
    "\<And>g. g \<noteq> f \<Longrightarrow> ftable (sys_f st') ! g = ftable ?s ! g" by simp_all
qed

lemma ofiles_set_fd:
  "ofiles (set_fd p fd x s) = (if p < length (ofiles s) then (ofiles s)[p := (ofiles s ! p)[fd := x]] else ofiles s)"
  by (auto simp: ofiles_def set_fd_def upd_proc_def map_update list_update_beyond)

lemma set_fd_simps [simp]:
  "ftable (set_fd p fd x s) = ftable s" "cur (fk (set_fd p fd x s)) = cur (fk s)" "pipes (set_fd p fd x s) = pipes s"
  "env (fk (set_fd p fd x s)) = env (fk s)" "length (procs (fk (set_fd p fd x s))) = length (procs (fk s))"
  by (simp_all add: set_fd_def upd_proc_def)

lemma set_fd_fill:
  assumes "refs_with H s" "p < length (ofiles s)" "fd < NOFILE" "ofiles s ! p ! fd = None" "f \<in># H"
  shows "refs_with (H - {#f#}) (set_fd p fd (Some f) s)"
  using assms counts_fill [of H "map f_ref (ftable s)" "ofiles s" p fd f]
  by (simp add: refs_with_def ofiles_set_fd del: length_ofiles)

lemma set_fd_clear:
  assumes "refs_with H s" "p < length (ofiles s)" "fd < NOFILE" "ofiles s ! p ! fd = Some f"
  shows "refs_with (add_mset f H) (set_fd p fd None s)"
  using assms counts_clear [of H "map f_ref (ftable s)" "ofiles s" p fd f]
  by (simp add: refs_with_def ofiles_set_fd del: length_ofiles)

lemma refs_cur: "\<lbrakk>refs_with H s; cur (fk s) = Some p\<rbrakk> \<Longrightarrow> p < length (ofiles s) \<and> ofiles s ! p = ofile (procs (fk s) ! p)"
  by (simp add: refs_with_def cur_ok_def ofiles_def)

text \<open>The first empty slot gets the file.\<close>

lemma fdalloc_refs:
  assumes "fdalloc f s = Some (fd, s')" "refs_with H s" "f \<in># H" "cur (fk s) = Some p"
  shows "if fd < 0 then s' = s \<and> (\<forall>k < NOFILE. ofiles s ! p ! k \<noteq> None)
    else fd < int NOFILE \<and> ofiles s ! p ! nat fd = None \<and> (\<forall>k < nat fd. ofiles s ! p ! k \<noteq> None) \<and>
      s' = set_fd p (nat fd) (Some f) s \<and> refs_with (H - {#f#}) s'"
proof (cases "find (\<lambda>fd. ofile (procs (fk s) ! p) ! fd = None) [0..<NOFILE]")
  case None
  then have "\<forall>k < NOFILE. ofiles s ! p ! k \<noteq> None" using refs_cur [OF assms(2,4)] by (auto simp: find_None_iff)
  then show ?thesis using assms(1,4) None by (auto simp: fdalloc_def)
next
  case (Some k)
  then have k: "k < NOFILE" "ofiles s ! p ! k = None" "\<forall>j < k. ofiles s ! p ! j \<noteq> None"
    using refs_cur [OF assms(2,4)] by (auto simp: find_Some_iff)
  have e: "fd = int k" "s' = set_fd p k (Some f) s" using assms(1,4) Some by (auto simp: fdalloc_def)
  show ?thesis
    using k set_fd_fill [OF assms(2) conjunct1 [OF refs_cur [OF assms(2,4)]] k(1,2) assms(3)] by (simp add: e)
qed

lemma fdalloc_total: "cur (fk s) = Some p \<Longrightarrow> \<exists>fd s'. fdalloc f s = Some (fd, s')"
  by (cases "find (\<lambda>fd. ofile (procs (fk s) ! p) ! fd = None) [0..<NOFILE]") (auto simp: fdalloc_def)

lemma argfd_Some:
  assumes "argfd fd s = Some (Some f)" "refs_with H s" "cur (fk s) = Some p"
  shows "0 \<le> fd" "nat fd < NOFILE" "ofiles s ! p ! nat fd = Some f" "f < NFILE" "1 \<le> f_ref (ftable s ! f)"
proof -
  show a: "0 \<le> fd" "nat fd < NOFILE" "ofiles s ! p ! nat fd = Some f"
    using assms refs_cur [OF assms(2,3)] by (auto simp: argfd_def split: if_splits)
  have c: "counts_ok H (map f_ref (ftable s)) (ofiles s)" "p < length (ofiles s)"
    using assms(2) refs_cur [OF assms(2,3)] by (auto simp: refs_with_def)
  show f: "f < NFILE" by (rule counts_entry_less [OF c a(2,3)])
  show "1 \<le> f_ref (ftable s ! f)" using counts_used [OF c a(2,3)] f refs_withD(1) [OF assms(2)] by simp
qed

section \<open>Pipes and files from the table\<close>

lemma map_ofile_upd_proc:
  "(\<And>q. ofile (g q) = ofile q) \<Longrightarrow> map ofile (procs (upd_proc p g k)) = map ofile (procs k)"
  by (cases "p < length (procs k)") (auto simp: upd_proc_def map_update list_update_beyond intro: list_update_same_conv [THEN iffD2])

lemma sleep_begin_fds:
  "sleep_begin ch k = Some k' \<Longrightarrow> map ofile (procs k') = map ofile (procs k) \<and> cur k' = cur k"
  by (auto simp: sleep_begin_def map_ofile_upd_proc)

lemma struck_fds: "map ofile (procs (struck kl i pr k)) = map ofile (procs k)"
  by (simp add: struck_def setkilled_def map_ofile_upd_proc)

lemma pipewrite_loop_fds:
  "pipewrite_loop api kl a pr va n i pi k = Some (r, pi', k') \<Longrightarrow> map ofile (procs k') = map ofile (procs k) \<and> cur k' = cur k"
proof (induction api kl a pr va n i pi k rule: pipewrite_loop.induct)
  case (1 api kl a pr va n i pi k)
  show ?case
    using "1.prems" "1.IH" sleep_begin_fds [of "ChPipeWrite a" "wakeup (ChPipeRead a) (struck kl i pr k)" k']
    by (subst (asm) pipewrite_loop.simps) (auto simp: wakeup_fds struck_fds split: if_splits option.splits Option.bind_splits)
qed

lemma piperead_copy_fds:
  "piperead_copy api pr va n i pi k = (r, pi', k') \<Longrightarrow> procs k' = procs k \<and> cur k' = cur k"
proof (induction api pr va n i pi k rule: piperead_copy.induct)
  case (1 api pr va n i pi k)
  show ?case
    using "1.prems" "1.IH" by (subst (asm) piperead_copy.simps) (auto split: if_splits prod.splits)
qed

lemma piperead_fds:
  "piperead api a va n pi k = Some (r, pi', k') \<Longrightarrow> map ofile (procs k') = map ofile (procs k) \<and> cur k' = cur k"
  using sleep_begin_fds [of "ChPipeRead a" k k']
  by (auto simp: piperead_def wakeup_fds split: if_splits prod.splits Option.bind_splits dest!: piperead_copy_fds)

lemma pipewrite_fds:
  "pipewrite api kl a va n pi k = Some (r, pi', k') \<Longrightarrow> map ofile (procs k') = map ofile (procs k) \<and> cur k' = cur k"
  by (auto simp: pipewrite_def split: Option.bind_splits dest: pipewrite_loop_fds)

lemma refs_env [simp]:
  "refs_with H (s\<lparr>fk := (fk s)\<lparr>env := e\<rparr>\<rparr>) = refs_with H s" "refs_with H (s\<lparr>pipes := q\<rparr>) = refs_with H s"
  by (simp_all add: refs_with_def ofiles_def)

lemma refs_kernel:
  "\<lbrakk>refs_with H s; map ofile (procs k) = map ofile (procs (fk s)) \<and> cur k = cur (fk s)\<rbrakk> \<Longrightarrow>
    refs_with H (s\<lparr>fk := k, pipes := q\<rparr>)"
  by (erule refs_with_same) (simp_all add: same_fds_def ofiles_def)

lemma refs_fk:
  "\<lbrakk>refs_with H s; map ofile (procs k) = map ofile (procs (fk s)); cur k = cur (fk s)\<rbrakk> \<Longrightarrow> refs_with H (s\<lparr>fk := k\<rparr>)"
  by (erule refs_with_same) (simp_all add: same_fds_def ofiles_def)

lemma refs_set_env [simp]: "refs_with H (sys_f (set_env e st)) = refs_with H (sys_f st)"
  by (simp add: set_env_def)

lemma refs_add_off: "refs_with H s \<Longrightarrow> refs_with H (add_off f r s)"
  by (simp add: add_off_def refs_upd)

text \<open>\<open>pipealloc\<close> hands out two new files, the ends of one pipe, or leaves everything as it was.\<close>

definition pipe_end :: "nat \<Rightarrow> bool \<Rightarrow> kfile \<Rightarrow> bool" where
  "pipe_end a w x \<longleftrightarrow> f_type x = FD_PIPE \<and> f_pipe x = a \<and> f_ref x = 1 \<and> f_readable x = (\<not> w) \<and> f_writable x = w"

lemma pipealloc_refs:
  assumes s: "refs_with H s"
  obtains r s' where "pipealloc api s = Some (r, s')" "same_fds s s'"
    "case r of Inl _ \<Rightarrow> refs_with H s'
     | Inr (f0, f1) \<Rightarrow> f0 \<noteq> f1 \<and> f_ref (ftable s ! f0) = 0 \<and> f_ref (ftable s ! f1) = 0 \<and>
         refs_with (add_mset f1 (add_mset f0 H)) s' \<and>
         (\<exists>a. pipe_end a False (ftable s' ! f0) \<and> pipe_end a True (ftable s' ! f1) \<and> pipes s' a = new_pipe (pipes s a))"
proof -
  obtain r0 s1 where a0: "filealloc s = (r0, s1)" by force
  note f0 = filealloc_refs [OF a0 s]
  show ?thesis
  proof (cases r0)
    case None
    then show ?thesis using that [of "Inl (-1)" s] f0 a0 s by (simp add: pipealloc_def)
  next
    case [simp]: (Some f0)
    have r1: "f0 < NFILE" "f_ref (ftable s ! f0) = 0" "refs_with (add_mset f0 H) s1" "same_fds s s1"
      "ftable s1 = (ftable s)[f0 := (ftable s ! f0)\<lparr>f_ref := 1\<rparr>]" "pipes s1 = pipes s"
      using f0 by (auto simp: ftable_upd)
    have l: "length (ftable s) = NFILE" by (rule refs_withD(1) [OF s])
    obtain r1' s2 where a1: "filealloc s1 = (r1', s2)" by force
    note f1 = filealloc_refs [OF a1 r1(3)]
    show ?thesis
    proof (cases r1')
      case None
      then have [simp]: "s2 = s1" using f1 by simp
      obtain s3 where s3: "fileclose api f0 s1 = Some s3" "refs_with (add_mset f0 H - {#f0#}) s3" "same_fds s1 s3"
        using fileclose_refs [OF r1(3), of f0 api] by auto
      then show ?thesis
        using that [of "Inl (-1)" s3] None a0 a1 same_fds_trans [OF r1(4) s3(3)] by (simp add: pipealloc_def)
    next
      case [simp]: (Some f1)
      have r2: "f1 < NFILE" "f_ref (ftable s1 ! f1) = 0" "refs_with (add_mset f1 (add_mset f0 H)) s2" "same_fds s1 s2"
        "ftable s2 = (ftable s1)[f1 := (ftable s1 ! f1)\<lparr>f_ref := 1\<rparr>]" "pipes s2 = pipes s1"
        using f1 by (auto simp: ftable_upd)
      have ne: "f0 \<noteq> f1" using r2(2) r1(1,5) l by (auto simp: nth_list_update)
      then have z1: "f_ref (ftable s ! f1) = 0" using r2(2) r1(5) by simp
      obtain pg e where k: "api_kalloc api (env (fk s2)) = (pg, e)" by force
      let ?s3 = "s2\<lparr>fk := (fk s2)\<lparr>env := e\<rparr>\<rparr>"
      have r3: "refs_with (add_mset f1 (add_mset f0 H)) ?s3" "same_fds s ?s3"
        using r2(3) same_fds_trans [OF r1(4) r2(4)] by (simp_all add: same_fds_def ofiles_def)
      show ?thesis
      proof (cases "pg = 0")
        case True
        obtain s4 where s4: "fileclose api f0 ?s3 = Some s4" "refs_with (add_mset f1 (add_mset f0 H) - {#f0#}) s4" "same_fds ?s3 s4"
          using fileclose_refs [OF r3(1), of f0 api] by auto
        obtain s5 where s5: "fileclose api f1 s4 = Some s5" "refs_with (add_mset f1 (add_mset f0 H) - {#f0#} - {#f1#}) s5" "same_fds s4 s5"
          using fileclose_refs [OF s4(2), of f1 api] by (auto simp: ne)
        show ?thesis
          using that [of "Inl (-1)" s5] True a0 a1 k s4 s5 ne same_fds_trans [OF same_fds_trans [OF r3(2) s4(3)] s5(3)]
          by (simp add: pipealloc_def Let_def)
      next
        case False
        let ?a = "unat pg"
        let ?s4 = "?s3\<lparr>pipes := (pipes ?s3)(?a := new_pipe (pipes ?s3 ?a))\<rparr>"
        let ?s5 = "upd_file f0 (\<lambda>x. x\<lparr>f_type := FD_PIPE, f_readable := True, f_writable := False, f_pipe := ?a\<rparr>) ?s4"
        let ?s6 = "upd_file f1 (\<lambda>x. x\<lparr>f_type := FD_PIPE, f_readable := False, f_writable := True, f_pipe := ?a\<rparr>) ?s5"
        have run: "pipealloc api s = Some (Inr (f0, f1), ?s6)"
          using False a0 a1 k by (simp add: pipealloc_def Let_def)
        have "refs_with (add_mset f1 (add_mset f0 H)) ?s6" "same_fds s ?s6"
          using r3 by (simp_all add: refs_upd same_fds_def ofiles_def)
        moreover have "pipe_end ?a False (ftable ?s6 ! f0)" "pipe_end ?a True (ftable ?s6 ! f1)"
          using ne r1(1) r2(1) l by (simp_all add: ftable_upd r2(5) r1(5) nth_list_update pipe_end_def)
        ultimately show ?thesis
          using ne r1(2) z1 r1(6) r2(6) by (intro that [OF run]) auto
      qed
    qed
  qed
qed

section \<open>The system calls\<close>

lemma sys_dup_refs:
  assumes s: "refs_ok s" "cur (fk s) = Some p"
  obtains r s' where "sys_dup fd s = Some (r, s')" "refs_ok s'"
proof (cases "argfd fd s")
  case None
  then show ?thesis using s(2) by (simp add: argfd_def)
next
  case (Some x)
  show ?thesis
  proof (cases x)
    case None
    then show ?thesis using that [of "-1" s] Some s by (simp add: sys_dup_def)
  next
    case [simp]: (Some f)
    have a: "argfd fd s = Some (Some f)" using \<open>argfd fd s = Some x\<close> by simp
    note f = argfd_Some [OF a s]
    obtain fd' s1 where d: "fdalloc f s = Some (fd', s1)" using fdalloc_total [OF s(2)] by blast
    obtain s0 where s0: "filedup f s = Some s0" "refs_with (add_mset f {#}) s0" "same_fds s s0"
      using filedup_refs [OF s(1) f(4,5)] .
    show ?thesis
    proof (cases "fd' < 0")
      case True
      then show ?thesis using that [of "-1" s] a d s by (simp add: sys_dup_def)
    next
      case False
      have c: "cur (fk s0) = Some p" using s0(3) s(2) by (simp add: same_fds_def)
      have fk0: "fk s0 = fk s" using s0(1) by (auto simp: filedup_def split: if_splits)
      obtain k where k: "fd' = int k" "s1 = set_fd p k (Some f) s"
        using d s(2) False by (auto simp: fdalloc_def split: option.splits)
      have d0: "fdalloc f s0 = Some (fd', set_fd p k (Some f) s0)"
        using d k s(2) c by (auto simp: fdalloc_def fk0 split: option.splits)
      have "refs_ok (set_fd p k (Some f) s0)" using fdalloc_refs [OF d0 s0(2) _ c] False k by simp
      moreover have "filedup f s1 = Some (set_fd p k (Some f) s0)"
        using s0(1) by (auto simp: k(2) filedup_def set_fd_def upd_file_def split: if_splits)
      ultimately show ?thesis using that [of fd'] a d False by (simp add: sys_dup_def)
    qed
  qed
qed

lemma sys_close_refs:
  assumes "sys_close blk api fd st = Some (r, st')" "refs_ok (sys_f st)"
  shows "refs_ok (sys_f st')"
proof -
  obtain p where p: "cur (fk (sys_f st)) = Some p"
    using assms(1) by (auto simp: sys_close_def split: Option.bind_splits)
  show ?thesis
  proof (cases "r = 0")
    case True
    then obtain f where a: "argfd fd (sys_f st) = Some (Some f)"
      and c: "fileclose_fs blk api f (st\<lparr>sys_f := set_fd p (nat fd) None (sys_f st)\<rparr>) = Some st'"
      using assms(1) p by (auto simp: sys_close_def split: Option.bind_splits option.splits)
    note f = argfd_Some [OF a assms(2) p]
    have "refs_with {#f#} (set_fd p (nat fd) None (sys_f st))"
      using set_fd_clear [OF assms(2) conjunct1 [OF refs_cur [OF assms(2) p]] f(2,3)] by simp
    then show ?thesis using fileclose_fs_refs(1) [OF _ _ c, of "{#f#}"] by simp
  next
    case False
    then show ?thesis using assms p by (auto simp: sys_close_def split: Option.bind_splits option.splits)
  qed
qed

lemma fileclose_pipe_end:
  assumes "refs_with H (sys_f st)" "f \<in># H" "f_type (ftable (sys_f st) ! f) = FD_PIPE"
  obtains st' where "fileclose_fs blk api f st = Some st'" "refs_with (H - {#f#}) (sys_f st')"
    "same_fds (sys_f st) (sys_f st')" "\<And>g. g \<noteq> f \<Longrightarrow> ftable (sys_f st') ! g = ftable (sys_f st) ! g" "sys_fs st' = sys_fs st"
proof -
  have "\<not> f_ref (ftable (sys_f st) ! f) < 1" using refs_withD(3) [OF assms(1,2)] by simp
  then have "\<exists>st'. fileclose_fs blk api f st = Some st' \<and> sys_fs st' = sys_fs st"
    using assms(3) by (simp add: fileclose_fs_def Let_def)
  then obtain st' where "fileclose_fs blk api f st = Some st'" "sys_fs st' = sys_fs st" by blast
  then show ?thesis using that [OF _ fileclose_fs_refs [OF assms(1,2)]] by simp
qed

lemma pipe_fail_refs:
  assumes s: "refs_with {#f0, f1#} (sys_f st)" and ne: "f0 \<noteq> f1"
    and t: "f_type (ftable (sys_f st) ! f0) = FD_PIPE" "f_type (ftable (sys_f st) ! f1) = FD_PIPE"
  obtains st' where "pipe_fail blk api f0 f1 st = Some (-1, st')" "refs_ok (sys_f st')"
    "same_fds (sys_f st) (sys_f st')" "sys_fs st' = sys_fs st"
proof -
  obtain st1 where st1: "fileclose_fs blk api f0 st = Some st1" "refs_with ({#f0, f1#} - {#f0#}) (sys_f st1)"
    "same_fds (sys_f st) (sys_f st1)" "ftable (sys_f st1) ! f1 = ftable (sys_f st) ! f1" "sys_fs st1 = sys_fs st"
    using fileclose_pipe_end [OF s _ t(1), of blk api] ne by force
  obtain st2 where st2: "fileclose_fs blk api f1 st1 = Some st2" "refs_with {#} (sys_f st2)"
    "same_fds (sys_f st1) (sys_f st2)" "sys_fs st2 = sys_fs st1"
    using fileclose_pipe_end [OF st1(2), of f1 blk api] st1(4) t(2) by auto
  show ?thesis
    using that [of st2] st1 st2 same_fds_trans [OF st1(3) st2(3)] by (simp add: pipe_fail_def)
qed

lemma set_fd_undo:
  assumes "p < length (ofiles s)" "ofiles s ! p ! fd = None" "fd < length (ofiles s ! p)"
  shows "same_fds s (set_fd p fd None (set_fd p fd (Some f) s))"
proof -
  have "((ofiles s ! p)[fd := Some f])[fd := None] = ofiles s ! p" using assms(2,3) by (metis list_update_id list_update_overwrite)
  then show ?thesis using assms(1) by (simp add: same_fds_def ofiles_set_fd)
qed

text \<open>What a successful \<open>sys_pipe\<close> leaves in the state \<open>s'\<close>, for the caller \<open>p\<close>.\<close>

definition pipe_made :: "nat \<Rightarrow> 'e fstate \<Rightarrow> 'e fstate \<Rightarrow> bool" where
  "pipe_made p s s' \<longleftrightarrow> (\<exists>fd0 fd1 f0 f1 a. fd0 < fd1 \<and> fd1 < NOFILE \<and>
     ofiles s ! p ! fd0 = None \<and> ofiles s ! p ! fd1 = None \<and> (\<forall>k < fd1. k \<noteq> fd0 \<longrightarrow> ofiles s ! p ! k \<noteq> None) \<and>
     ofiles s' = (ofiles s)[p := (ofiles s ! p)[fd0 := Some f0, fd1 := Some f1]] \<and>
     f0 \<noteq> f1 \<and> f_ref (ftable s ! f0) = 0 \<and> f_ref (ftable s ! f1) = 0 \<and>
     pipe_end a False (ftable s' ! f0) \<and> pipe_end a True (ftable s' ! f1) \<and>
     readopen (pipes s' a) \<and> writeopen (pipes s' a) \<and> pipe_count (pipes s' a) = 0)"

lemma new_pipe_simps: "readopen (new_pipe q)" "writeopen (new_pipe q)" "pipe_count (new_pipe q) = 0"
  by (simp_all add: new_pipe_def pipe_count_def)

lemma sys_pipe_refs:
  assumes s: "refs_ok (sys_f st)" and c: "cur (fk (sys_f st)) = Some p"
  obtains r st' where "sys_pipe blk api fdarray st = Some (r, st')" "refs_ok (sys_f st')" "sys_fs st' = sys_fs st"
    "r = 0 \<and> pipe_made p (sys_f st) (sys_f st') \<or> r = -1 \<and> ofiles (sys_f st') = ofiles (sys_f st)"
proof -
  obtain pt where pt: "my_pagetable st = Some pt" using c by (simp add: my_pagetable_def)
  obtain r1 s1 where a: "pipealloc (fa_k api) (sys_f st) = Some (r1, s1)" "same_fds (sys_f st) s1"
    "case r1 of Inl _ \<Rightarrow> refs_with {#} s1
     | Inr (f0, f1) \<Rightarrow> f0 \<noteq> f1 \<and> f_ref (ftable (sys_f st) ! f0) = 0 \<and> f_ref (ftable (sys_f st) ! f1) = 0 \<and>
         refs_with (add_mset f1 (add_mset f0 {#})) s1 \<and>
         (\<exists>a. pipe_end a False (ftable s1 ! f0) \<and> pipe_end a True (ftable s1 ! f1) \<and> pipes s1 a = new_pipe (pipes (sys_f st) a))"
    using pipealloc_refs [OF s] by blast
  have c1: "cur (fk s1) = Some p" and o1: "ofiles s1 = ofiles (sys_f st)" using a(2) c by (simp_all add: same_fds_def)
  show ?thesis
  proof (cases r1)
    case (Inl x)
    then show ?thesis
      using that [of "-1" "st\<lparr>sys_f := s1\<rparr>"] a o1 c pt by (simp add: sys_pipe_def)
  next
    case (Inr ff)
    obtain f0 f1 where ff: "ff = (f0, f1)" by force
    with Inr a(3) obtain pg where ne: "f0 \<noteq> f1" and zero: "f_ref (ftable (sys_f st) ! f0) = 0" "f_ref (ftable (sys_f st) ! f1) = 0"
      and r1: "refs_with {#f0, f1#} s1"
      and pe: "pipe_end pg False (ftable s1 ! f0)" "pipe_end pg True (ftable s1 ! f1)" "pipes s1 pg = new_pipe (pipes (sys_f st) pg)"
      by (auto simp: add_mset_commute)
    have ty: "f_type (ftable s1 ! f0) = FD_PIPE" "f_type (ftable s1 ! f1) = FD_PIPE" using pe by (simp_all add: pipe_end_def)
    obtain fd0 s2 where d0: "fdalloc f0 s1 = Some (fd0, s2)" using fdalloc_total [OF c1] by blast
    note q0 = fdalloc_refs [OF d0 r1 _ c1, simplified]
    have head: "sys_pipe blk api fdarray st =
      (if fd0 < 0 then pipe_fail blk api f0 f1 (st\<lparr>sys_f := s2\<rparr>)
       else do {
           (fd1, s3) \<leftarrow> fdalloc f1 s2;
           if fd1 < 0 then pipe_fail blk api f0 f1 (st\<lparr>sys_f := set_fd p (nat fd0) None s3\<rparr>)
           else (case put_fds api pt fdarray fd0 fd1 (sys_env (st\<lparr>sys_f := s3\<rparr>)) of (copied, e) \<Rightarrow>
             if copied then Some (0, set_env e (st\<lparr>sys_f := s3\<rparr>))
             else pipe_fail blk api f0 f1 (set_env e
               (st\<lparr>sys_f := set_fd p (nat fd1) None (set_fd p (nat fd0) None s3)\<rparr>))) })"
      using c pt a(1) Inr ff d0 by (simp add: sys_pipe_def)
    have fail: "\<exists>st'. pipe_fail blk api f0 f1 (st\<lparr>sys_f := t\<rparr>) = Some (-1, st') \<and> refs_ok (sys_f st') \<and>
        ofiles (sys_f st') = ofiles (sys_f st) \<and> sys_fs st' = sys_fs st"
      if h: "refs_with {#f0, f1#} t" "ftable t = ftable s1" "same_fds s1 t" for t
    proof -
      obtain st' where "pipe_fail blk api f0 f1 (st\<lparr>sys_f := t\<rparr>) = Some (-1, st')" "refs_ok (sys_f st')"
        "same_fds t (sys_f st')" "sys_fs st' = sys_fs (st\<lparr>sys_f := t\<rparr>)"
        by (rule pipe_fail_refs [of f0 f1 "st\<lparr>sys_f := t\<rparr>" blk api]) (use h ne ty in simp_all)
      then show ?thesis using h(3) o1 by (auto simp: same_fds_def)
    qed
    show ?thesis
    proof (cases "fd0 < 0")
      case True
      then show ?thesis using fail [of s2] q0 r1 head by (auto intro: that)
    next
      case False
      define k0 where "k0 = nat fd0"
      have k0: "k0 < NOFILE" "ofiles s1 ! p ! k0 = None" "\<forall>k < k0. ofiles s1 ! p ! k \<noteq> None" "s2 = set_fd p k0 (Some f0) s1"
        "refs_with {#f1#} s2" "fd0 = int k0"
        using q0 False by (auto simp: k0_def)
      have pl: "p < length (ofiles s1)" using refs_cur [OF r1 c1] by simp
      have len: "length (ofiles s1 ! p) = NOFILE" using r1 pl by (auto simp: refs_with_def dest: counts_entry)
      have c2: "cur (fk s2) = Some p" using k0(4) c1 by simp
      have o2: "ofiles s2 = (ofiles s1)[p := (ofiles s1 ! p)[k0 := Some f0]]" using pl k0(4) by (simp add: ofiles_set_fd)
      obtain fd1 s3 where d1: "fdalloc f1 s2 = Some (fd1, s3)" using fdalloc_total [OF c2] by blast
      note q1 = fdalloc_refs [OF d1 k0(5) _ c2, simplified]
      have undo0: "same_fds s1 (set_fd p k0 None s2)" unfolding k0(4) using set_fd_undo [OF pl k0(2)] k0(1) len by simp
      show ?thesis
      proof (cases "fd1 < 0")
        case True
        then have "s3 = s2" using q1 by simp
        moreover have "refs_with {#f0, f1#} (set_fd p k0 None s2)"
          using refs_with_same [OF r1 undo0] by (simp add: k0(4))
        ultimately show ?thesis
          using fail [of "set_fd p k0 None s2"] undo0 True False head d1 k0 by (auto intro: that)
      next
        case F1: False
        define k1 where "k1 = nat fd1"
        have k1: "k1 < NOFILE" "ofiles s2 ! p ! k1 = None" "\<forall>k < k1. ofiles s2 ! p ! k \<noteq> None" "s3 = set_fd p k1 (Some f1) s2"
          "refs_ok s3" "fd1 = int k1"
          using q1 F1 by (auto simp: k1_def)
        have e2: "ofiles s2 ! p ! k = (if k = k0 then Some f0 else ofiles s1 ! p ! k)" for k
          using pl len k0(1) by (simp add: o2 nth_list_update)
        have lt: "k0 < k1"
          using k1(2,3) k0(3) e2 by (metis k0(2) linorder_neqE_nat option.distinct(1))
        obtain copied e where pf: "put_fds api pt fdarray fd0 fd1 (sys_env (st\<lparr>sys_f := s3\<rparr>)) = (copied, e)" by force
        show ?thesis
        proof (cases copied)
          case True
          let ?st = "set_env e (st\<lparr>sys_f := s3\<rparr>)"
          have run: "sys_pipe blk api fdarray st = Some (0, ?st)"
            unfolding head using False F1 d1 pf True by simp
          have o3: "ofiles (sys_f ?st) = (ofiles s1)[p := (ofiles s1 ! p)[k0 := Some f0, k1 := Some f1]]"
            using pl by (simp add: set_env_def ofiles_def [of "s\<lparr>fk := k\<rparr>" for s k] ofiles_def [symmetric] k1(4) ofiles_set_fd o2 del: length_ofiles)
          have fr: "ftable (sys_f ?st) = ftable s1" "pipes (sys_f ?st) = pipes s1" by (simp_all add: set_env_def k1(4) k0(4))
          have free: "ofiles s1 ! p ! k1 = None" "\<forall>k < k1. k \<noteq> k0 \<longrightarrow> ofiles s1 ! p ! k \<noteq> None"
            using k1(2,3) lt by (auto simp: e2 split: if_splits)
          have np: "readopen (pipes s1 pg)" "writeopen (pipes s1 pg)" "pipe_count (pipes s1 pg) = 0"
            by (simp_all add: pe(3) new_pipe_simps)
          have "pipe_made p (sys_f st) (sys_f ?st)"
            unfolding pipe_made_def fr o3 o1 [symmetric]
            by (intro exI [of _ k0] exI [of _ k1] exI [of _ f0] exI [of _ f1] exI [of _ pg] conjI)
              (rule lt k1(1) k0(2) free ne zero pe(1,2) np refl)+
          then show ?thesis using that [OF run] k1(5) by (simp add: set_env_def)
        next
          case F2: False
          let ?t = "set_fd p k1 None (set_fd p k0 None s3)"
          let ?u = "?t\<lparr>fk := (fk ?t)\<lparr>env := e\<rparr>\<rparr>"
          have "ofiles ?t = ofiles s1"
            using pl len k0 k1 lt e2 by (simp add: ofiles_set_fd list_update_swap del: length_ofiles)
              (metis list_update_id list_update_overwrite list_update_swap option.distinct(1))
          then have u: "same_fds s1 ?u" using c1 by (simp add: same_fds_def ofiles_def k1(4) k0(4))
          have "ftable ?u = ftable s1" by (simp add: k1(4) k0(4))
          then obtain st' where st': "pipe_fail blk api f0 f1 (st\<lparr>sys_f := ?u\<rparr>) = Some (-1, st')" "refs_ok (sys_f st')"
              "ofiles (sys_f st') = ofiles (sys_f st)" "sys_fs st' = sys_fs st"
            using fail [of ?u] u refs_with_same [OF r1 u] by auto
          have "sys_pipe blk api fdarray st = Some (-1, st')"
            unfolding head using False F1 d1 pf F2 st'(1) k0(6) k1(6) by (simp add: set_env_def)
          then show ?thesis using that st' by blast
        qed
      qed
    qed
  qed
qed

lemma sys_open_refs:
  assumes "sys_open blk api path omode st = Some (r, st')" "refs_ok (sys_f st)"
  shows "refs_ok (sys_f st')"
proof (cases path)
  case None
  then show ?thesis using assms by (simp add: sys_open_def)
next
  case [simp]: (Some path')
  obtain f1 ip f2 where o: "fs_begin blk (sys_fs st) = Some f1" "open_inode blk path' omode f1 = Some (ip, f2)"
    using assms(1) by (auto simp: sys_open_def split: Option.bind_splits)
  show ?thesis
  proof (cases ip)
    case None
    then show ?thesis using assms o by (auto simp: sys_open_def split: Option.bind_splits)
  next
    case [simp]: (Some i)
    obtain rf s where a: "filealloc (sys_f st) = (rf, s)" by force
    note al = filealloc_refs [OF a assms(2)]
    show ?thesis
    proof (cases rf)
      case None
      then show ?thesis using assms o a al by (auto simp: sys_open_def Let_def split: Option.bind_splits)
    next
      case [simp]: (Some f)
      have s: "refs_with {#f#} s" using al unfolding Some option.case by (elim conjE)
      have "fdalloc f s \<noteq> None"
      proof
        assume "fdalloc f s = None"
        then show False using assms(1) o a by (simp add: sys_open_def Let_def)
      qed
      then obtain fd s1 where d: "fdalloc f s = Some (fd, s1)" by force
      obtain p where p: "cur (fk s) = Some p" using d by (auto simp: fdalloc_def split: Option.bind_splits)
      note q = fdalloc_refs [OF d s _ p, simplified]
      show ?thesis
      proof (cases "fd < 0")
        case True
        then obtain st2 where "fileclose_fs blk api f (st\<lparr>sys_fs := f2, sys_f := s1\<rparr>) = Some st2" "sys_f st' = sys_f st2"
          using assms(1) o a d by (auto simp: sys_open_def Let_def split: Option.bind_splits)
        then show ?thesis using fileclose_fs_refs(1) [of "{#f#}" "st\<lparr>sys_fs := f2, sys_f := s1\<rparr>" f blk api st2] q s True by simp
      next
        case False
        then have "sys_f st' = upd_file f (open_file (itab f2 ! i) i omode) s1"
          using assms(1) o a d by (auto simp: sys_open_def Let_def split: Option.bind_splits)
        moreover have "refs_with ({#f#} - {#f#}) s1" using q False by metis
        ultimately show ?thesis by (simp add: refs_upd open_file_def)
      qed
    qed
  qed
qed

lemma fileread_refs:
  assumes "fileread blk api f va n st = Some (r, st')" "refs_with H (sys_f st)"
  shows "refs_with H (sys_f st')"
  using assms
  by (auto simp: fileread_def Let_def refs_kernel refs_fk refs_add_off dest!: piperead_fds
    split: if_splits file_type.splits Option.bind_splits option.splits prod.splits)

lemma filestat_refs:
  assumes "filestat blk api f va st = Some (r, st')" "refs_with H (sys_f st)"
  shows "refs_with H (sys_f st')"
  using assms by (auto simp: filestat_def Let_def case_prod_unfold split: if_split_asm Option.bind_split_asm)

lemma filewrite_loop_refs:
  "\<lbrakk>filewrite_loop blk api pt f va n i st = Some (r, st'); refs_with H (sys_f st)\<rbrakk> \<Longrightarrow> refs_with H (sys_f st')"
proof (induction blk api pt f va n i st rule: filewrite_loop.induct)
  case (1 blk api pt f va n i st)
  show ?case
  proof (cases "i < n")
    case False
    then show ?thesis using "1.prems" by (subst (asm) filewrite_loop.simps) simp
  next
    case True
    let ?n = "min (n - i) max_piece"
    let ?x = "ftable (sys_f st) ! f"
    let ?step = "do {
            g1 \<leftarrow> fs_begin blk (sys_fs st);
            g2 \<leftarrow> ilock blk (f_ip ?x) g1;
            (r, g3) \<leftarrow> writei blk (user_get api pt (sys_env st)) (f_ip ?x) (va + of_int i) (f_off ?x) (of_int ?n) g2;
            g4 \<leftarrow> iunlock blk (f_ip ?x) g3;
            g5 \<leftarrow> fs_end blk g4;
            Some (r, st\<lparr>sys_f := add_off f r (sys_f st), sys_fs := g5\<rparr>) }"
    obtain w st1 where step: "?step = Some (w, st1)"
      using "1.prems"(1) True by (subst (asm) filewrite_loop.simps) (auto simp: Let_def split: option.splits)
    then obtain g where st1: "st1 = st\<lparr>sys_f := add_off f w (sys_f st), sys_fs := g\<rparr>"
      by (auto split: Option.bind_splits)
    have ok: "refs_with H (sys_f st1)" using "1.prems"(2) by (simp add: st1 refs_add_off)
    have "(if w \<noteq> ?n then Some (i, st1) else filewrite_loop blk api pt f va n (i + w) st1) = Some (r, st')"
      using "1.prems"(1) True step by (subst (asm) filewrite_loop.simps) (simp add: Let_def)
    then show ?thesis using ok "1.IH" [OF True refl refl step refl] by (auto split: if_splits)
  qed
qed

lemma filewrite_refs:
  assumes "filewrite blk api kl f va n st = Some (r, st')" "refs_with H (sys_f st)"
  shows "refs_with H (sys_f st')"
  using assms
  by (auto simp: filewrite_def Let_def refs_kernel refs_fk dest!: pipewrite_fds filewrite_loop_refs
    split: if_splits file_type.splits Option.bind_splits option.splits prod.splits)

text \<open>
  A step of the system: a call of the current process, the rest of a \<open>pipewrite\<close> that slept, the work of another
  process in the file system, or a switch to another process, with its working directory.
\<close>

inductive file_call :: "'s blk_api \<Rightarrow> 'e fapi \<Rightarrow> ('s, 'e) sysst \<Rightarrow> ('s, 'e) sysst \<Rightarrow> bool"
  for blk :: "'s blk_api" and api :: "'e fapi" where
  call_dup: "sys_dup fd (sys_f st) = Some (r, s') \<Longrightarrow> file_call blk api st (st\<lparr>sys_f := s'\<rparr>)"
| call_close: "sys_close blk api fd st = Some (r, st') \<Longrightarrow> file_call blk api st st'"
| call_pipe: "sys_pipe blk api va st = Some (r, st') \<Longrightarrow> file_call blk api st st'"
| call_open: "sys_open blk api path omode st = Some (r, st') \<Longrightarrow> file_call blk api st st'"
| call_read: "sys_read blk api fd va n st = Some (out, st') \<Longrightarrow> file_call blk api st st'"
| call_write: "sys_write blk api kl fd va n st = Some (out, st') \<Longrightarrow> file_call blk api st st'"
| call_fstat: "sys_fstat blk api fd va st = Some (r, st') \<Longrightarrow> file_call blk api st st'"
| resume_write: "pipewrite_loop (fa_k api) kl a p va n i (pipes (sys_f st) a) (fk (sys_f st)) = Some (out, pi, k) \<Longrightarrow>
    file_call blk api st (st\<lparr>sys_f := (sys_f st)\<lparr>fk := k, pipes := (pipes (sys_f st))(a := pi)\<rparr>\<rparr>)"
| fs_work: "file_call blk api st (st\<lparr>sys_fs := g\<rparr>)"
| switch: "p < length (procs (fk (sys_f st))) \<Longrightarrow>
    file_call blk api st (st\<lparr>sys_f := (sys_f st)\<lparr>fk := (fk (sys_f st))\<lparr>cur := Some p\<rparr>\<rparr>, sys_fs := (sys_fs st)\<lparr>fcwd := d\<rparr>\<rparr>)"

lemma file_call_refs:
  assumes "file_call blk api st st'" "refs_ok (sys_f st)"
  shows "refs_ok (sys_f st')"
  using assms
proof (induction rule: file_call.induct)
  case (call_dup fd st r s')
  obtain p where "cur (fk (sys_f st)) = Some p"
    using call_dup(1) by (auto simp: sys_dup_def argfd_def split: Option.bind_splits)
  then show ?case using sys_dup_refs [OF call_dup(2), of p fd] call_dup(1) by fastforce
next
  case (call_pipe va st r st')
  obtain p where "cur (fk (sys_f st)) = Some p"
    using call_pipe(1) by (auto simp: sys_pipe_def split: Option.bind_splits)
  from sys_pipe_refs [OF call_pipe(2) this, of blk api va] show ?case using call_pipe(1) by fastforce
next
  case (resume_write kl a p va n i st out pi k)
  then show ?case using refs_kernel pipewrite_loop_fds by fastforce
next
  case (switch p st d)
  then show ?case by (simp add: refs_with_def ofiles_def cur_ok_def)
qed (auto simp: sys_read_def sys_write_def sys_fstat_def split: Option.bind_splits option.splits
      dest: sys_close_refs sys_open_refs fileread_refs filewrite_refs filestat_refs)


text \<open>
  C5: \<open>sys_pipe\<close> always returns: either 0, with the two lowest free descriptors of the caller naming two files that
  were free, the reading and the writing end of one empty pipe, or \<open>-1\<close>, after any failure in its course,
  with the descriptors and the counts of all files as before.
\<close>

theorem sys_pipe_all_or_nothing:
  assumes "refs_ok (sys_f st)" "cur (fk (sys_f st)) = Some p"
  shows "\<exists>r st'. sys_pipe blk api fdarray st = Some (r, st') \<and> refs_ok (sys_f st') \<and> sys_fs st' = sys_fs st \<and>
    (r = 0 \<and> pipe_made p (sys_f st) (sys_f st') \<or>
     r = -1 \<and> ofiles (sys_f st') = ofiles (sys_f st) \<and> map f_ref (ftable (sys_f st')) = map f_ref (ftable (sys_f st)))"
proof -
  obtain r st' where r: "sys_pipe blk api fdarray st = Some (r, st')" "refs_ok (sys_f st')" "sys_fs st' = sys_fs st"
    "r = 0 \<and> pipe_made p (sys_f st) (sys_f st') \<or> r = -1 \<and> ofiles (sys_f st') = ofiles (sys_f st)"
    using sys_pipe_refs [OF assms] .
  have "map f_ref (ftable (sys_f st')) = map f_ref (ftable (sys_f st))" if "ofiles (sys_f st') = ofiles (sys_f st)"
    using assms(1) r(2) that by (intro nth_equalityI) (auto simp: refs_with_def counts_ok_def)
  then show ?thesis using r by blast
qed

section \<open>An example\<close>

text \<open>The files are free, and no process has one open.\<close>

definition refs_api :: "unit fapi" where
  "refs_api = \<lparr>fa_k = demo_api, fa_copyin = (\<lambda>_ _ _ _. (-1, [])), fa_pad = replicate 4 0, fa_dev_read = (\<lambda>_. None),
     fa_dev_write = (\<lambda>_. None)\<rparr>"

definition refs_state :: "(log \<times> unit bcache, unit) sysst" where
  "refs_state = \<lparr>sys_f = demo_files, sys_fs = demo_fs\<rparr>"

lemma refs_state_ok: "refs_ok (sys_f refs_state)" "cur (fk (sys_f refs_state)) = Some 2"
proof -
  have "ofiles demo_files = replicate 64 (replicate NOFILE None)"
    by (simp add: ofiles_def demo_files_def demo_def demo_proc_def proc_zero_def numeral_eq_Suc)
  moreover have "fd_count f (replicate n (replicate m None)) = 0" for f n m
    by (induction n) (simp_all add: fd_count_def count_list_0_iff)
  ultimately show "refs_ok (sys_f refs_state)"
    by (simp add: refs_with_def refs_state_def counts_ok_def fd_table_ok_def)
      (simp add: demo_files_def demo_def NFILE_def cur_ok_def)
  show "cur (fk (sys_f refs_state)) = Some 2" by (simp add: refs_state_def demo_files_def demo_def)
qed

lemma refs_pipe: "\<exists>st'. file_call logged_bio refs_api refs_state st'"
  using sys_pipe_refs [OF refs_state_ok, of logged_bio refs_api 0] call_pipe by metis


theorem sys_pipe_all_or_nothing_witness: "sys_pipe logged_bio refs_api 0 refs_state \<noteq> None"
  using sys_pipe_all_or_nothing [OF refs_state_ok, of logged_bio refs_api 0] by auto

end
