(* ===== verification/X_Fs_Op.thy ===== *)
theory X_Fs_Op
  imports X_Fs_Kernel X_Sysfile
begin

text \<open>
  Files inside and outside of operations of the log: the routines of the file system keep the number of
  operations under way, the first \<open>begin_op\<close> on an idle log succeeds, and the last \<open>end_op\<close> puts on the
  disk what the cache shows.
\<close>

section \<open>The number of operations\<close>

text \<open>As \<open>store_inv\<close>, with \<open>n\<close> operations under way; without any, nothing can be logged.\<close>

definition op_inv :: "u32 \<Rightarrow> u32 \<Rightarrow> int \<Rightarrow> log \<times> 'e bcache \<Rightarrow> bool" where
  "op_inv d st n c = (case c of (l, s) \<Rightarrow> store_inv d st (l\<lparr>outstanding := 1\<rparr>, s) \<and> outstanding l = n \<and> \<not> committing l)"

lemma logged_outstanding [simp]: "X_Log.logged (l\<lparr>outstanding := n\<rparr>) = X_Log.logged l"
  by (simp add: X_Log.logged_def)

lemma log_write_outstanding:
  "1 \<le> outstanding l \<Longrightarrow> log_write bio i l s =
    map_option (\<lambda>(l', s'). (l'\<lparr>outstanding := outstanding l\<rparr>, s')) (log_write bio i (l\<lparr>outstanding := 1\<rparr>) s)"
  by (simp add: log_write_def Let_def log_index_def)

lemma log_write_flags: "log_write bio i l s = Some (l', s') \<Longrightarrow> outstanding l' = outstanding l \<and> committing l' = committing l"
  by (auto simp: log_write_def Let_def split: if_splits)

interpretation op: block_store logged_bio d "if 1 \<le> n then 28 else 0" "log_area st" "\<lambda>(l, s). cview d s" "\<lambda>(l, s). cdisk d s"
  "\<lambda>(l, s). cheld s" "\<lambda>(l, s). set (X_Log.logged l)" "\<lambda>(l, s). mypid (bk s)" "op_inv d st n"
  for d st :: u32 and n :: int
proof
  fix c :: "log \<times> 'a bcache" and b i x lk a
  obtain l s where c: "c = (l, s)" by (cases c)
  let ?l = "l\<lparr>outstanding := 1\<rparr>"
  assume "op_inv d st n c"
  then have inv: "store_inv d st (?l, s)" and n: "outstanding l = n" "\<not> committing l" by (simp_all add: op_inv_def c)
  note laws = store.bread_law [OF inv] store.view_length [OF inv]
  show "length ((case c of (l, s) \<Rightarrow> cview d s) b) = BSIZE"
    using store.view_length [OF inv] by (simp add: c)
  show "finite (case c of (l, s) \<Rightarrow> set (X_Log.logged l))" by (simp add: c)
  show "(case c of (l, s) \<Rightarrow> cview d s) b = (case c of (l, s) \<Rightarrow> cdisk d s) b"
    if "b \<notin> (case c of (l, s) \<Rightarrow> set (X_Log.logged l))" "b \<notin> ran (case c of (l, s) \<Rightarrow> cheld s)"
    using store.clean_law [OF inv, of b] that by (simp add: c)
  show "\<exists>i s'. blk_bread logged_bio d b c = Some (i, s') \<and> op_inv d st n s' \<and>
      (case s' of (l, s) \<Rightarrow> cview d s) = (case c of (l, s) \<Rightarrow> cview d s) \<and>
      (case s' of (l, s) \<Rightarrow> cdisk d s) = (case c of (l, s) \<Rightarrow> cdisk d s) \<and>
      (case c of (l, s) \<Rightarrow> cheld s) i = None \<and>
      (case s' of (l, s) \<Rightarrow> cheld s) = (case c of (l, s) \<Rightarrow> cheld s)(i \<mapsto> b) \<and>
      (case s' of (l, s) \<Rightarrow> set (X_Log.logged l)) = (case c of (l, s) \<Rightarrow> set (X_Log.logged l)) \<and>
      (case s' of (l, s) \<Rightarrow> mypid (bk s)) = (case c of (l, s) \<Rightarrow> mypid (bk s))"
    if "b \<notin> ran (case c of (l, s) \<Rightarrow> cheld s)"
      "(case c of (l, s) \<Rightarrow> cheld s) = Map.empty \<or> (\<exists>j e. (case c of (l, s) \<Rightarrow> cheld s) = [j \<mapsto> e])"
    using store.bread_law [OF inv, of b] that n by (auto simp: c logged_bio_def op_inv_def)
  show "blk_acquiresleep logged_bio a lk c = Some (\<lparr>sl_locked = True, sl_pid = case c of (l, s) \<Rightarrow> mypid (bk s)\<rparr>, c)"
    if "\<not> sl_locked lk"
    using store.acquire_law [OF inv that, of a]
    by (auto simp: c logged_bio_def split: option.splits bool.splits)
  show "\<exists>s'. blk_releasesleep logged_bio a lk c = (\<lparr>sl_locked = False, sl_pid = 0\<rparr>, s') \<and> op_inv d st n s' \<and>
      (case s' of (l, s) \<Rightarrow> cview d s) = (case c of (l, s) \<Rightarrow> cview d s) \<and>
      (case s' of (l, s) \<Rightarrow> cdisk d s) = (case c of (l, s) \<Rightarrow> cdisk d s) \<and>
      (case s' of (l, s) \<Rightarrow> cheld s) = (case c of (l, s) \<Rightarrow> cheld s) \<and>
      (case s' of (l, s) \<Rightarrow> set (X_Log.logged l)) = (case c of (l, s) \<Rightarrow> set (X_Log.logged l)) \<and>
      (case s' of (l, s) \<Rightarrow> mypid (bk s)) = (case c of (l, s) \<Rightarrow> mypid (bk s))"
    using store.release_law [OF inv, of a lk] n
    by (auto simp: c logged_bio_def op_inv_def split: prod.splits)
  show "blk_holdingsleep logged_bio lk c = Some (sl_locked lk \<and> sl_pid lk = (case c of (l, s) \<Rightarrow> mypid (bk s)))"
    using store.holding_law [OF inv, of lk] by (simp add: c logged_bio_def)
  assume "(case c of (l, s) \<Rightarrow> cheld s) i = Some b"
  then have h: "(case (?l, s) of (l, s) \<Rightarrow> cheld s) i = Some b" by (simp add: c)
  show "blk_data logged_bio i c = (case c of (l, s) \<Rightarrow> cview d s) b"
    using store.data_law [OF inv h] by (simp add: c logged_bio_def)
  show "op_inv d st n (blk_set logged_bio i x c) \<and>
      (case blk_set logged_bio i x c of (l, s) \<Rightarrow> cview d s) = (case c of (l, s) \<Rightarrow> cview d s)(b := x) \<and>
      (case blk_set logged_bio i x c of (l, s) \<Rightarrow> cdisk d s) = (case c of (l, s) \<Rightarrow> cdisk d s) \<and>
      (case blk_set logged_bio i x c of (l, s) \<Rightarrow> cheld s) = (case c of (l, s) \<Rightarrow> cheld s) \<and>
      (case blk_set logged_bio i x c of (l, s) \<Rightarrow> set (X_Log.logged l)) = (case c of (l, s) \<Rightarrow> set (X_Log.logged l)) \<and>
      (case blk_set logged_bio i x c of (l, s) \<Rightarrow> mypid (bk s)) = (case c of (l, s) \<Rightarrow> mypid (bk s))"
    if "length x = BSIZE"
    using store.set_law [OF inv h that] n by (simp add: c logged_bio_def op_inv_def)
  show "\<exists>s'. blk_brelse logged_bio i c = Some s' \<and> op_inv d st n s' \<and>
      (case s' of (l, s) \<Rightarrow> cview d s) = (case c of (l, s) \<Rightarrow> cview d s) \<and>
      (case s' of (l, s) \<Rightarrow> cdisk d s) = (case c of (l, s) \<Rightarrow> cdisk d s) \<and>
      (case s' of (l, s) \<Rightarrow> cheld s) = (case c of (l, s) \<Rightarrow> cheld s)(i := None) \<and>
      (case s' of (l, s) \<Rightarrow> set (X_Log.logged l)) = (case c of (l, s) \<Rightarrow> set (X_Log.logged l)) \<and>
      (case s' of (l, s) \<Rightarrow> mypid (bk s)) = (case c of (l, s) \<Rightarrow> mypid (bk s))"
    if "b \<in> (case c of (l, s) \<Rightarrow> set (X_Log.logged l)) \<or>
      (case c of (l, s) \<Rightarrow> cview d s) b = (case c of (l, s) \<Rightarrow> cdisk d s) b"
    using store.brelse_law [OF inv h] that n by (auto simp: c logged_bio_def op_inv_def)
  show "\<exists>s'. blk_log_write logged_bio i c = Some s' \<and> op_inv d st n s' \<and>
      (case s' of (l, s) \<Rightarrow> cview d s) = (case c of (l, s) \<Rightarrow> cview d s) \<and>
      (case s' of (l, s) \<Rightarrow> cdisk d s) = (case c of (l, s) \<Rightarrow> cdisk d s) \<and>
      (case s' of (l, s) \<Rightarrow> cheld s) = (case c of (l, s) \<Rightarrow> cheld s) \<and>
      (case s' of (l, s) \<Rightarrow> set (X_Log.logged l)) = insert b (case c of (l, s) \<Rightarrow> set (X_Log.logged l)) \<and>
      (case s' of (l, s) \<Rightarrow> mypid (bk s)) = (case c of (l, s) \<Rightarrow> mypid (bk s))"
    if b: "b \<notin> log_area st" and room: "card (insert b (case c of (l, s) \<Rightarrow> set (X_Log.logged l))) \<le> (if 1 \<le> n then 28 else 0)"
  proof -
    have n1: "1 \<le> outstanding l" and r: "card (insert b (case (?l, s) of (l, s) \<Rightarrow> set (X_Log.logged l))) \<le> 28"
      using room n by (auto simp: c card_insert_if split: if_splits)
    obtain l' s' where w: "log_write bio i ?l s = Some (l', s')" "store_inv d st (l', s')" "cview d s' = cview d s"
      "cdisk d s' = cdisk d s" "cheld s' = cheld s" "set (X_Log.logged l') = insert b (set (X_Log.logged l))"
      "mypid (bk s') = mypid (bk s)"
      using store.log_write_law [OF inv h b r] by (auto simp: logged_bio_def)
    have "l'\<lparr>outstanding := 1\<rparr> = l'" "\<not> committing l'" using log_write_flags [OF w(1)] n(2) by simp_all
    then have "op_inv d st n (l'\<lparr>outstanding := outstanding l\<rparr>, s')" using w(2) n by (simp add: op_inv_def)
    moreover have "blk_log_write logged_bio i c = Some (l'\<lparr>outstanding := outstanding l\<rparr>, s')"
      using log_write_outstanding [OF n1, of i s] w(1) by (simp add: c logged_bio_def)
    ultimately show ?thesis using w by (intro exI [of _ "(l'\<lparr>outstanding := outstanding l\<rparr>, s')"]) (simp add: c)
  qed
qed

section \<open>The end of an operation\<close>

lemma commit_view:
  assumes l: "log_ok l" and b: "b \<notin> log_area (lstart l)"
  shows "put_blocks (commit_writes l V) V b = V b"
proof -
  have n: "nat (lh_n l) \<le> length (X_Log.logged l)" "distinct (X_Log.logged l)" "nat (lh_n l) < nat LOGSIZE"
    using l by (auto simp: log_ok_def X_Log.logged_def)
  have h: "b \<noteq> lstart l" using b log_area_head by auto
  have e: "put_blocks (log_writes l V (nat (lh_n l))) V b = V b"
    by (rule put_blocks_notin [OF log_writes_outside [OF b n(3)]])
  show ?thesis
    using h e by (simp add: commit_writes_def Let_def put_blocks_append put_installed [OF n(1,2)])
qed

lemma commit_logged:
  assumes "store_inv d st (l\<lparr>outstanding := 1\<rparr>, s)" "cheld s = Map.empty"
  shows "\<exists>s'. commit bio l s = Some (l\<lparr>lh_n := 0\<rparr>, s') \<and> cinv d s' \<and> cheld s' = Map.empty \<and> cpins d s' = (\<lambda>_. 0) \<and>
    (\<forall>b. b \<notin> log_area st \<longrightarrow> cview d s' b = cview d s b)"
proof -
  have i: "ldev l = d" "lstart l = st" "log_ok l" "0 \<le> lh_n l" "lh_n l \<le> 28" "cinv d s"
    "cpins d s = (\<lambda>b. if b \<in> set (X_Log.logged l) then 1 else 0)"
    using assms(1) by (auto simp: store_inv_def log_ok_def)
  show ?thesis
  proof (cases "0 < lh_n l")
    case False
    then have "lh_n l = 0" using i(4) by simp
    moreover from this have "l\<lparr>lh_n := 0\<rparr> = l" "cpins d s = (\<lambda>_. 0)" using i(7) by (simp_all add: X_Log.logged_def)
    ultimately show ?thesis using assms(2) i(6) by (simp add: commit_def)
  next
    case True
    have "length (X_Log.logged l) \<le> 28" using i(5) by (simp add: X_Log.logged_def)
    then have c: "card (set (X_Log.logged l)) \<le> 28" using card_length le_trans by blast
    have "{b. 0 < cpins d s b} = set (X_Log.logged l)" by (simp add: i(7))
    then have "cache.fits d s (X_Log.logged l)"
      using c unfolding cache.fits_def by (simp add: NBUF_def card_insert_if)
    from cache.commit_spec [OF i(1,3) True i(6) assms(2) this] obtain s' where
      s': "commit bio l s = Some (l\<lparr>lh_n := 0\<rparr>, s')" "cinv d s'" "cheld s' = Map.empty"
        "cpins d s' = (\<lambda>b. if b \<in> set (X_Log.logged l) then cpins d s b - 1 else cpins d s b)"
        "cview d s' = put_blocks (commit_writes l (cview d s)) (cview d s)"
      using i(7) by auto
    have "cpins d s' = (\<lambda>_. 0)" using s'(4) i(7) by auto
    then show ?thesis using s' commit_view [OF i(3)] i(2) by auto
  qed
qed

text \<open>The last operation ends: the disk has what the cache shows.\<close>

lemma end_op_commits:
  assumes "op_inv d st 1 (l, s)" "cheld s = Map.empty"
  shows "\<exists>l' s'. end_op bio l s = Some (l', s') \<and> op_inv d st 0 (l', s') \<and> cheld s' = Map.empty \<and>
    lh_n l' = 0 \<and> cdisk d s' = cview d s' \<and> (\<forall>b. b \<notin> log_area st \<longrightarrow> cview d s' b = cview d s b)"
proof -
  have i: "store_inv d st (l\<lparr>outstanding := 1\<rparr>, s)" "outstanding l = 1" "\<not> committing l"
    using assms(1) by (simp_all add: op_inv_def)
  let ?l = "l\<lparr>outstanding := 0, committing := True\<rparr>"
  have "store_inv d st (?l\<lparr>outstanding := 1\<rparr>, s)"
    using i(1) by (auto simp: store_inv_def log_ok_def X_Log.logged_def)
  from commit_logged [OF this assms(2)] obtain s' where s': "commit bio ?l s = Some (?l\<lparr>lh_n := 0\<rparr>, s')"
    "cinv d s'" "cheld s' = Map.empty" "cpins d s' = (\<lambda>_. 0)" "\<forall>b. b \<notin> log_area st \<longrightarrow> cview d s' b = cview d s b" by blast
  let ?s = "api_wakeup bio ChLog s'" and ?e = "?l\<lparr>lh_n := 0, committing := False\<rparr>"
  note w = cache.wakeup_law [OF s'(2), of ChLog]
  have run: "end_op bio l s = Some (?e, ?s)" using i(2,3) s'(1) by (simp add: end_op_def Let_def)
  have op: "op_inv d st 0 (?e, ?s)"
    using i(1) w s'(4) by (auto simp: op_inv_def store_inv_def log_ok_def X_Log.logged_def LOGSIZE_def MAXOPBLOCKS_def)
  have "cdisk d ?s = cview d ?s"
    using op.clean_law [OF op] w s'(3) by (auto simp: fun_eq_iff X_Log.logged_def)
  then show ?thesis using run op w s'(3,5) by (intro exI [of _ ?e] exI [of _ ?s]) simp
qed

lemma begin_op_idle:
  "\<lbrakk>op_inv d st 0 (l, s); lh_n l = 0\<rbrakk> \<Longrightarrow> begin_op bio l s = Some (True, l\<lparr>outstanding := 1\<rparr>, s) \<and> op_inv d st 1 (l\<lparr>outstanding := 1\<rparr>, s)"
  by (simp add: op_inv_def begin_op_def LOGSIZE_def MAXOPBLOCKS_def)

section \<open>Files across an operation\<close>

text \<open>What is not in the log area determines the files.\<close>

lemma area_free:
  assumes V: "\<And>b. b \<notin> L \<Longrightarrow> V' b = V b" and m: "meta_ok L sb V" and ip: "ino_ok L sb V ip"
  shows "meta_ok L sb V'" "ino_ok L sb V' ip" "addr V' ip = addr V ip" "j < MAXFILE * BSIZE \<Longrightarrow> byte V' ip j = byte V ip j"
proof -
  have u: "used sb V' b = used sb V b" if "b < sb_size sb" for b
    by (rule used_cong [OF _ that]) (use V m that in \<open>auto simp: meta_ok_def\<close>)
  then show "meta_ok L sb V'" using m by (auto simp: meta_ok_def)
  have own: "V' b = V b" if "b \<in> own V ip" for b
    using ino_okD(1) [OF ip that] V by (simp add: data_block_def)
  then have c: "V' (iaddrs ip ! NDIRECT) = V (iaddrs ip ! NDIRECT) \<or> iaddrs ip ! NDIRECT = 0" using own_indirect by blast
  show ad: "addr V' ip = addr V ip" by (rule ext) (rule addr_cong, rule c)
  have ow: "own V' ip = own V ip" by (rule own_cong, rule c)
  have "used sb V' b" if "b \<in> own V ip" for b using u [of b] ino_okD [OF ip that] by (simp add: data_block_def)
  then show "ino_ok L sb V' ip" using ip unfolding ino_ok_def ad ow by blast
  show "byte V' ip j = byte V ip j" if "j < MAXFILE * BSIZE"
  proof -
    have "j div BSIZE < MAXFILE" using that by (simp add: sizes)
    then show ?thesis using own own_addr [of "j div BSIZE" V ip] by (simp add: byte_def ad Let_def)
  qed
qed

text \<open>An inode that is in memory and referenced, with \<open>n\<close> operations under way.\<close>

definition open_ino :: "u32 \<Rightarrow> u32 \<Rightarrow> int \<Rightarrow> nat \<Rightarrow> (log \<times> 'e bcache) fs \<Rightarrow> bool" where
  "open_ino d st n i f \<longleftrightarrow> op_inv d st n (fblk f) \<and> cheld (snd (fblk f)) = Map.empty \<and> i < length (itab f) \<and>
     idev (itab f ! i) = d \<and> inum (itab f ! i) < sb_ninodes (fsb f) \<and>
     ino_ok (log_area st) (fsb f) (kview d f) (itab f ! i) \<and> meta_ok (log_area st) (fsb f) (kview d f) \<and>
     dense (kview d f) (itab f ! i) \<and> ivalid (itab f ! i) \<and> 1 \<le> iref (itab f ! i)"

definition holder :: "(log \<times> 'e bcache) fs \<Rightarrow> int" where
  "holder f = mypid (bk (snd (fblk f)))"

definition with_lock :: "nat \<Rightarrow> sleeplock \<Rightarrow> 's fs \<Rightarrow> 's fs" where
  "with_lock i lk f = upd_ino i (\<lambda>ip. ip\<lparr>ilk := lk\<rparr>) f"

lemma open_ino_ok:
  "open_ino d st n i f \<longleftrightarrow> op.file_ok d st n i f \<and> dense (kview d f) (itab f ! i) \<and> inum (itab f ! i) < sb_ninodes (fsb f) \<and>
    ivalid (itab f ! i) \<and> 1 \<le> iref (itab f ! i)"
  by (auto simp: open_ino_def op.file_ok_def kview_store case_prod_beta)

lemma lock_free [simp]:
  "addr V (ip\<lparr>ilk := lk\<rparr>) = addr V ip" "own V (ip\<lparr>ilk := lk\<rparr>) = own V ip" "byte V (ip\<lparr>ilk := lk\<rparr>) = byte V ip"
  "ino_ok L sb V (ip\<lparr>ilk := lk\<rparr>) = ino_ok L sb V ip" "dense V (ip\<lparr>ilk := lk\<rparr>) = dense V ip"
proof -
  show a: "addr V (ip\<lparr>ilk := lk\<rparr>) = addr V ip" by (simp add: addr_def fun_eq_iff)
  then show o: "own V (ip\<lparr>ilk := lk\<rparr>) = own V ip" by (simp add: own_def)
  show "byte V (ip\<lparr>ilk := lk\<rparr>) = byte V ip" by (simp add: byte_def fun_eq_iff a)
  show "ino_ok L sb V (ip\<lparr>ilk := lk\<rparr>) = ino_ok L sb V ip" unfolding ino_ok_def a o by simp
  show "dense V (ip\<lparr>ilk := lk\<rparr>) = dense V ip" unfolding dense_def a by simp
qed

lemma with_lock_simps [simp]:
  "fblk (with_lock i lk f) = fblk f" "fsb (with_lock i lk f) = fsb f" "fcwd (with_lock i lk f) = fcwd f"
  "length (itab (with_lock i lk f)) = length (itab f)"
  "i < length (itab f) \<Longrightarrow> itab (with_lock i lk f) ! i = (itab f ! i)\<lparr>ilk := lk\<rparr>"
  "kview d (with_lock i lk f) = kview d f" "holder (with_lock i lk f) = holder f" "log_room (with_lock i lk f) = log_room f"
  by (simp_all add: with_lock_def upd_ino_def kview_def holder_def log_room_def)

lemma open_with_lock: "open_ino d st n i f \<Longrightarrow> open_ino d st n i (with_lock i lk f)"
  by (simp add: open_ino_def)

lemma contents_with_lock: "i < length (itab f) \<Longrightarrow> contents d i (with_lock i lk f) = contents d i f"
  by (simp add: contents_def)

lemma ilock_open:
  assumes "open_ino d st n i f" "\<not> sl_locked (ilk (itab f ! i))"
  shows "ilock logged_bio i f = Some (with_lock i \<lparr>sl_locked = True, sl_pid = holder f\<rparr> f)"
proof -
  have f: "op_inv d st n (fblk f)" "ivalid (itab f ! i)" "1 \<le> iref (itab f ! i)" "i < length (itab f)"
    using assms(1) by (simp_all add: open_ino_def)
  have "(case fblk f of (l, s) \<Rightarrow> mypid (bk s)) = holder f" by (simp add: holder_def case_prod_beta)
  then show ?thesis
    using op.acquire_law [OF f(1) assms(2), of "NBUF + i"] f(2-4)
    by (simp add: ilock_def with_lock_def upd_ino_def)
qed

lemma iunlock_open:
  assumes f: "open_ino d st n i f" and lk: "ilk (itab f ! i) = \<lparr>sl_locked = True, sl_pid = holder f\<rparr>"
  shows "\<exists>f'. iunlock logged_bio i f = Some f' \<and> open_ino d st n i f' \<and> \<not> sl_locked (ilk (itab f' ! i)) \<and>
    contents d i f' = contents d i f \<and> kview d f' = kview d f \<and> fst (fblk f') = fst (fblk f) \<and> holder f' = holder f \<and>
    itab f' = (itab f)[i := (itab f ! i)\<lparr>ilk := \<lparr>sl_locked = False, sl_pid = 0\<rparr>\<rparr>]"
proof -
  let ?free = "\<lparr>sl_locked = False, sl_pid = 0\<rparr>"
  have o: "op_inv d st n (fblk f)" "1 \<le> iref (itab f ! i)" "i < length (itab f)" "cheld (snd (fblk f)) = Map.empty"
    using f by (simp_all add: open_ino_def)
  obtain l s where ls: "fblk f = (l, s)" by force
  have me: "(case fblk f of (l, s) \<Rightarrow> mypid (bk s)) = holder f" by (simp add: holder_def case_prod_beta)
  note h = op.holding_law [OF o(1), of "ilk (itab f ! i)", unfolded me]
  obtain c where r: "blk_releasesleep logged_bio (NBUF + i) (ilk (itab f ! i)) (fblk f) = (?free, c)" "op_inv d st n c"
    "cview d (snd c) = kview d f" "cheld (snd c) = Map.empty" "mypid (bk (snd c)) = holder f"
    using op.release_law [OF o(1), of "NBUF + i" "ilk (itab f ! i)"] o(4)
    by (auto simp: kview_def holder_def case_prod_beta)
  have fc: "fst c = fst (fblk f)" using r(1) by (auto simp: ls logged_bio_def split: prod.splits)
  let ?f = "with_lock i ?free (f\<lparr>fblk := c\<rparr>)"
  have "iunlock logged_bio i f = Some ?f" using h lk o(2) r(1) by (simp add: iunlock_def with_lock_def)
  moreover have v: "kview d (f\<lparr>fblk := c\<rparr>) = kview d f" using r(3) by (simp add: kview_def)
  moreover have "open_ino d st n i (f\<lparr>fblk := c\<rparr>)"
    using f r(2,4) unfolding open_ino_def v by simp
  moreover have "contents d i (f\<lparr>fblk := c\<rparr>) = contents d i f" by (rule contents_cong [OF v]) simp
  moreover have "holder (f\<lparr>fblk := c\<rparr>) = holder f" using r(5) by (simp add: holder_def)
  ultimately show ?thesis
    using open_with_lock [of d st n i "f\<lparr>fblk := c\<rparr>" ?free] contents_with_lock [of i "f\<lparr>fblk := c\<rparr>" d ?free] o(3) fc
    by (intro exI [of _ ?f]) (simp add: with_lock_def upd_ino_def kview_def holder_def)
qed

definition disk_full :: "u32 \<Rightarrow> (log \<times> 'e bcache) fs \<Rightarrow> bool" where
  "disk_full d f \<longleftrightarrow> (\<forall>b < sb_size (fsb f). used (fsb f) (kview d f) b)"

lemma writei_open:
  assumes f: "open_ino d st 1 i f" and room: "6 * w + 1 \<le> log_room f" and w: "unat off mod BSIZE + length bs \<le> w * BSIZE"
    and ok: "off \<le> isize (itab f ! i)" "unat off + length bs \<le> MAXFILE * BSIZE" and src: "source get src bs"
  shows "\<exists>k f'. writei logged_bio get i src off (of_nat (length bs)) f = Some (int k, f') \<and> k \<le> length bs \<and>
    (k < length bs \<longrightarrow> disk_full d f') \<and> open_ino d st 1 i f' \<and> ilk (itab f' ! i) = ilk (itab f ! i) \<and> holder f' = holder f \<and>
    unat (isize (itab f' ! i)) = max (unat (isize (itab f ! i))) (unat off + k) \<and>
    contents d i f' = take (unat off) (contents d i f) @ take k bs @ drop (unat off + k) (contents d i f)"
proof -
  have fs: "op.file_ok d st 1 i f" "dense (kview d f) (itab f ! i)" "inum (itab f ! i) < sb_ninodes (fsb f)"
    and il: "i < length (itab f)" "ivalid (itab f ! i)" "1 \<le> iref (itab f ! i)"
    using f unfolding open_ino_ok by (auto simp: op.file_ok_def)
  have n: "length bs = unat (of_nat (length bs) :: u32)" using ok(2) by (simp add: sizes unat_of_nat)
  have sp: "op.spare 1 (fblk f) (6 * w + 1)"
    using room unfolding op.spare_def by (simp add: log_room_def case_prod_beta)
  from op.writei_effect [OF fs(1) fs(2) [unfolded kview_store] fs(3) ok n src w sp, folded kview_store]
  obtain k f' xs B where 1: "writei logged_bio get i src off (of_nat (length bs)) f = Some (int k, f')" "k \<le> length bs"
    "op.stops d (unat off) bs k f'" "op.file_ok d st 1 i f'" "dense (kview d f') (itab f' ! i)"
    "itab f' = (itab f)[i := (itab f ! i)\<lparr>iaddrs := xs, isize := max (isize (itab f ! i)) (off + of_nat k)\<rparr>]"
    "fsb f' = fsb f"
    "\<forall>j < MAXFILE * BSIZE. byte (kview d f') (itab f' ! i) j =
       (if unat off \<le> j \<and> j < unat off + k then bs ! (j - unat off) else byte (kview d f) (itab f ! i) j)"
    "op.evolves d st 1 (fblk f) (kview d f') B (fblk f')"
    by (elim exE conjE) (rule that)
  have sz: "unat (isize (itab f' ! i)) \<le> MAXFILE * BSIZE" using 1(5) by (simp add: dense_def)
  note c = contents_written [OF il(1) ok 1(2,6,8) sz]
  have ip: "inum (itab f' ! i) = inum (itab f ! i)" "ivalid (itab f' ! i)" "1 \<le> iref (itab f' ! i)" "ilk (itab f' ! i) = ilk (itab f ! i)"
    using 1(6) il by simp_all
  have "open_ino d st 1 i f'" using 1(4,5,7) fs(3) ip unfolding open_ino_ok by simp
  moreover have "k < length bs \<longrightarrow> disk_full d f'"
    using 1(3) by (auto simp: op.stops_def op.disk_full_def disk_full_def kview_store)
  moreover have "holder f' = holder f" using 1(9) by (simp add: op.evolves_def holder_def case_prod_beta)
  ultimately show ?thesis using 1(1,2) c ip(4) by blast
qed

lemma readi_open:
  assumes f: "open_ino d st n i f" and ok: "off \<le> isize (itab f ! i)" "unat off + unat m < 2 ^ 32" and sk: "sink put deliver"
  defines "bs \<equiv> take (unat m) (drop (unat off) (contents d i f))"
  shows "\<exists>f'. readi logged_bio put i a off m e f = Some (int (length bs), deliver a bs e, f') \<and>
    open_ino d st n i f' \<and> itab f' = itab f \<and> kview d f' = kview d f \<and> holder f' = holder f"
proof -
  have fs: "op.file_ok d st n i f" "dense (kview d f) (itab f ! i)" "inum (itab f ! i) < sb_ninodes (fsb f)"
    using f unfolding open_ino_ok by auto
  let ?len = "min (unat m) (unat (isize (itab f ! i)) - unat off)"
  have e: "map (byte (kview d f) (itab f ! i)) [unat off..<unat off + ?len] = bs"
    unfolding bs_def by (rule nth_equalityI) (auto simp: contents_def)
  have l: "?len = length bs" by (simp add: bs_def min.commute)
  from op.readi_spec [OF fs(1) fs(2) [unfolded kview_store] sk ok, folded kview_store, unfolded e, unfolded l]
  obtain s where s: "readi logged_bio put i a off m e f = Some (int (length bs), deliver a bs e, f\<lparr>fblk := s\<rparr>)"
    "op.evolves d st n (fblk f) (kview d f) {} s" by blast
  have v: "kview d (f\<lparr>fblk := s\<rparr>) = kview d f" using s(2) by (simp add: op.evolves_def kview_store)
  have "op.file_ok d st n i (f\<lparr>fblk := s\<rparr>)" by (rule op.file_ok_cache [OF fs(1)]) (use s(2) kview_store in metis)
  then have "open_ino d st n i (f\<lparr>fblk := s\<rparr>)" using f v unfolding open_ino_ok by simp
  moreover have "holder (f\<lparr>fblk := s\<rparr>) = holder f" using s(2) by (simp add: op.evolves_def holder_def case_prod_beta)
  ultimately show ?thesis using s(1) v by (intro exI [of _ "f\<lparr>fblk := s\<rparr>"]) simp
qed

lemma begin_open:
  assumes f: "open_ino d st 0 i f" and l: "lh_n (fst (fblk f)) = 0"
  shows "\<exists>f'. fs_begin logged_bio f = Some f' \<and> open_ino d st 1 i f' \<and> itab f' = itab f \<and> kview d f' = kview d f \<and>
    holder f' = holder f \<and> log_room f' = 28"
proof -
  obtain lg s where ls: "fblk f = (lg, s)" by force
  have o: "op_inv d st 0 (lg, s)" using f by (simp add: open_ino_def ls)
  let ?f = "f\<lparr>fblk := (lg\<lparr>outstanding := 1\<rparr>, s)\<rparr>"
  note b = begin_op_idle [OF o] l
  then have "fs_begin logged_bio f = Some ?f" by (simp add: fs_begin_def ls logged_bio_def)
  moreover have v: "kview d ?f = kview d f" "holder ?f = holder f" by (simp_all add: kview_def holder_def ls)
  moreover have "open_ino d st 1 i ?f" using f b unfolding open_ino_def v by (simp add: ls)
  moreover have "log_room ?f = 28" using l by (simp add: log_room_def ls X_Log.logged_def)
  ultimately show ?thesis by (intro exI [of _ ?f]) simp
qed

lemma end_open:
  assumes f: "open_ino d st 1 i f"
  shows "\<exists>f'. fs_end logged_bio f = Some f' \<and> open_ino d st 0 i f' \<and> itab f' = itab f \<and> contents d i f' = contents d i f \<and>
    lh_n (fst (fblk f')) = 0 \<and> cdisk d (snd (fblk f')) = kview d f' \<and> (disk_full d f \<longrightarrow> disk_full d f')"
proof -
  obtain lg s where ls: "fblk f = (lg, s)" by force
  have o: "op_inv d st 1 (lg, s)" "cheld s = Map.empty" using f by (simp_all add: open_ino_def ls)
  obtain l' s' where e: "end_op bio lg s = Some (l', s')" "op_inv d st 0 (l', s')" "cheld s' = Map.empty"
    "lh_n l' = 0" "cdisk d s' = cview d s'" "\<forall>b. b \<notin> log_area st \<longrightarrow> cview d s' b = cview d s b"
    using end_op_commits [OF o] by blast
  let ?f = "f\<lparr>fblk := (l', s')\<rparr>" and ?ip = "itab f ! i"
  have v: "kview d ?f b = kview d f b" if "b \<notin> log_area st" for b using e(6) that by (simp add: kview_def ls)
  have m: "meta_ok (log_area st) (fsb f) (kview d f)" "ino_ok (log_area st) (fsb f) (kview d f) ?ip" "dense (kview d f) ?ip"
    using f by (simp_all add: open_ino_def)
  note a = area_free [where V' = "kview d ?f", OF v m(1,2)]
  have "dense (kview d ?f) ?ip" using m(3) by (simp add: dense_def a(3))
  then have "open_ino d st 0 i ?f" using f a(1,2) e(2,3) unfolding open_ino_def by simp
  moreover have "contents d i ?f = contents d i f"
    using m(3) a(4) by (auto simp: contents_def dense_def intro!: map_cong)
  moreover have "disk_full d f \<longrightarrow> disk_full d ?f"
    unfolding disk_full_def
    using used_cong [where V' = "kview d ?f" and V = "kview d f" and sb = "fsb f"] v m(1) by (auto simp: meta_ok_def)
  ultimately show ?thesis
    using e by (intro exI [of _ ?f]) (simp add: fs_end_def ls logged_bio_def kview_def)
qed

end
