(* ===== verification/X_Sysfile_Io.thy ===== *)
theory X_Sysfile_Io
  imports X_Fs_Op
begin

text \<open>
  Reading and writing open files: \<open>filewrite\<close> over all its transactions, down to the disk, and \<open>fileread\<close>.
\<close>

section \<open>Files between operations\<close>

text \<open>The log is idle, and the inode in memory, referenced and not locked.\<close>

definition idle_file :: "u32 \<Rightarrow> u32 \<Rightarrow> nat \<Rightarrow> (log \<times> 'e bcache) fs \<Rightarrow> bool" where
  "idle_file d st i f \<longleftrightarrow> open_ino d st 0 i f \<and> lh_n (fst (fblk f)) = 0 \<and> \<not> sl_locked (ilk (itab f ! i))"

text \<open>The bytes \<open>bs\<close> of the contents \<open>c\<close> from \<open>off\<close> on.\<close>

definition overwrite :: "nat \<Rightarrow> bytes \<Rightarrow> bytes \<Rightarrow> bytes" where
  "overwrite off bs c = take off c @ bs @ drop (off + length bs) c"

lemma overwrite_Nil [simp]: "overwrite off [] c = c"
  by (simp add: overwrite_def)

lemma overwrite_append: "off \<le> length c \<Longrightarrow> overwrite (off + length xs) ys (overwrite off xs c) = overwrite off (xs @ ys) c"
  by (simp add: overwrite_def ac_simps)

lemma idle_on_disk: "idle_file d st i f \<Longrightarrow> cdisk d (snd (fblk f)) = kview d f"
proof -
  assume f: "idle_file d st i f"
  then have o: "op_inv d st 0 (fblk f)" "cheld (snd (fblk f)) = Map.empty" "X_Log.logged (fst (fblk f)) = []"
    by (simp_all add: idle_file_def open_ino_def X_Log.logged_def)
  show ?thesis using op.clean_law [OF o(1)] o(2,3) by (auto simp: kview_def case_prod_beta fun_eq_iff)
qed

text \<open>One piece of a write, a transaction of its own.\<close>

lemma write_piece:
  assumes f: "idle_file d st i f" and bs: "length bs \<le> 3072" and src: "source get src bs"
    and ok: "off \<le> isize (itab f ! i)" "unat off + length bs \<le> MAXFILE * BSIZE"
  shows "\<exists>g1 g2 k g3 g4 g5. fs_begin logged_bio f = Some g1 \<and> ilock logged_bio i g1 = Some g2 \<and>
    writei logged_bio get i src off (of_nat (length bs)) g2 = Some (int k, g3) \<and> iunlock logged_bio i g3 = Some g4 \<and>
    fs_end logged_bio g4 = Some g5 \<and> k \<le> length bs \<and> (k < length bs \<longrightarrow> disk_full d g5) \<and> idle_file d st i g5 \<and>
    contents d i g5 = overwrite (unat off) (take k bs) (contents d i f)"
proof -
  have o: "open_ino d st 0 i f" "lh_n (fst (fblk f)) = 0" "\<not> sl_locked (ilk (itab f ! i))" and il: "i < length (itab f)"
    using f by (simp_all add: idle_file_def open_ino_def)
  obtain g1 where 1: "fs_begin logged_bio f = Some g1" "open_ino d st 1 i g1" "itab g1 = itab f" "kview d g1 = kview d f"
    "log_room g1 = 28"
    using begin_open [OF o(1,2)] by blast
  define g2 where "g2 = with_lock i \<lparr>sl_locked = True, sl_pid = holder g1\<rparr> g1"
  have 2: "ilock logged_bio i g1 = Some g2" unfolding g2_def by (rule ilock_open [OF 1(2)]) (simp add: 1(3) o(3))
  have il1: "i < length (itab g1)" using il 1(3) by simp
  have g2: "open_ino d st 1 i g2" "log_room g2 = 28" "isize (itab g2 ! i) = isize (itab f ! i)"
    "ilk (itab g2 ! i) = \<lparr>sl_locked = True, sl_pid = holder g2\<rparr>" "contents d i g2 = contents d i f"
    using open_with_lock [OF 1(2)] 1(5) il1 contents_with_lock [OF il1, of d] contents_cong [OF 1(4)] 1(3)
    by (simp_all add: g2_def)
  have room: "6 * 4 + 1 \<le> log_room g2" using g2(2) by simp
  have "unat off mod BSIZE < BSIZE" by (simp add: sizes)
  then have w: "unat off mod BSIZE + length bs \<le> 4 * BSIZE" using bs by (simp add: sizes)
  have off2: "off \<le> isize (itab g2 ! i)" using ok(1) g2(3) by simp
  obtain k g3 where 3: "writei logged_bio get i src off (of_nat (length bs)) g2 = Some (int k, g3)" "k \<le> length bs"
    "k < length bs \<longrightarrow> disk_full d g3" "open_ino d st 1 i g3" "ilk (itab g3 ! i) = ilk (itab g2 ! i)" "holder g3 = holder g2"
    "contents d i g3 = take (unat off) (contents d i g2) @ take k bs @ drop (unat off + k) (contents d i g2)"
    using writei_open [OF g2(1) room w off2 ok(2) src] by blast
  have lk: "ilk (itab g3 ! i) = \<lparr>sl_locked = True, sl_pid = holder g3\<rparr>" using 3(5,6) g2(4) by simp
  obtain g4 where 4: "iunlock logged_bio i g3 = Some g4" "open_ino d st 1 i g4" "\<not> sl_locked (ilk (itab g4 ! i))"
    "contents d i g4 = contents d i g3" "kview d g4 = kview d g3"
    using iunlock_open [OF 3(4) lk] by blast
  have fsb4: "fsb g4 = fsb g3"
    using 4(1) by (auto simp: iunlock_def upd_ino_def split: Option.bind_splits if_splits prod.splits)
  obtain g5 where 5: "fs_end logged_bio g4 = Some g5" "open_ino d st 0 i g5" "itab g5 = itab g4"
    "contents d i g5 = contents d i g4" "lh_n (fst (fblk g5)) = 0" "disk_full d g4 \<longrightarrow> disk_full d g5"
    using end_open [OF 4(2)] by blast
  have "contents d i g5 = overwrite (unat off) (take k bs) (contents d i f)"
    using 5(4) 4(4) 3(2,7) g2(5) by (simp add: overwrite_def)
  moreover have "k < length bs \<longrightarrow> disk_full d g5" using 3(3) 4(5) fsb4 5(6) by (auto simp: disk_full_def)
  moreover have "idle_file d st i g5" using 5(2,3,5) 4(3) by (simp add: idle_file_def)
  ultimately show ?thesis using 1(1) 2 3(1,2) 4(1) 5(1) by blast
qed

section \<open>Writing\<close>

lemma upd_file_twice:
  "f < length (ftable s) \<Longrightarrow> upd_file f g (upd_file f h s) = upd_file f (\<lambda>x. g (h x)) s"
  by (simp add: upd_file_def)

lemma add_off_nat: "f < length (ftable s) \<Longrightarrow> add_off f (int k) s = upd_file f (\<lambda>x. x\<lparr>f_off := f_off x + of_nat k\<rparr>) s"
  by (cases "k = 0") (simp_all add: add_off_def upd_file_def)

lemma filewrite_loop_spec:
  assumes "idle_file d lst i (sys_fs st)" "f < length (ftable (sys_f st))" "f_ip (ftable (sys_f st) ! f) = i"
    "f_off (ftable (sys_f st) ! f) = off" "off \<le> isize (itab (sys_fs st) ! i)" "unat off + length bs \<le> MAXFILE * BSIZE"
    "source (user_get api pt (sys_env st)) (va + of_int j) bs" "n = j + int (length bs)"
  shows "\<exists>k r st'. filewrite_loop logged_bio api pt f va n j st = Some (r, st') \<and> k \<le> length bs \<and>
    (if k = length bs then r = n else r < n \<and> disk_full d (sys_fs st')) \<and> idle_file d lst i (sys_fs st') \<and>
    contents d i (sys_fs st') = overwrite (unat off) (take k bs) (contents d i (sys_fs st)) \<and>
    sys_f st' = upd_file f (\<lambda>x. x\<lparr>f_off := f_off x + of_nat k\<rparr>) (sys_f st)"
  using assms
proof (induction "length bs" arbitrary: st off bs j rule: less_induct)
  case less
  note f = less.prems(1) and fl = less.prems(2) and ok = less.prems(5,6) and src = less.prems(7)
  show ?case
  proof (cases "bs = []")
    case True
    then show ?thesis
      using f less.prems(8) add_off_nat [OF fl, of 0]
      by (subst filewrite_loop.simps) (auto intro!: exI [of _ 0] simp: add_off_def)
  next
    case False
    define p where "p = take 3072 bs"
    let ?x = "ftable (sys_f st) ! f"
    have mp: "max_piece = 3072" by (simp add: max_piece_def MAXOPBLOCKS_def sizes)
    have n1: "min (n - j) max_piece = int (length p)" using less.prems(8) by (simp add: p_def mp min_def)
    have pl: "length p \<le> 3072" "0 < length p" "length p \<le> length bs" using False by (simp_all add: p_def)
    have jn: "j < n" using False less.prems(8) by simp
    have srcp: "source (user_get api pt (sys_env st)) (va + of_int j) p"
      using src unfolding source_def p_def by (auto simp: take_drop min_def)
    have okp: "unat off + length p \<le> MAXFILE * BSIZE" using ok(2) pl(3) by simp
    obtain g1 g2 k g3 g4 g5 where w: "fs_begin logged_bio (sys_fs st) = Some g1" "ilock logged_bio i g1 = Some g2"
      "writei logged_bio (user_get api pt (sys_env st)) i (va + of_int j) off (of_nat (length p)) g2 = Some (int k, g3)"
      "iunlock logged_bio i g3 = Some g4" "fs_end logged_bio g4 = Some g5" "k \<le> length p"
      "k < length p \<longrightarrow> disk_full d g5" "idle_file d lst i g5"
      "contents d i g5 = overwrite (unat off) (take k p) (contents d i (sys_fs st))"
      using write_piece [OF f pl(1) srcp ok(1) okp] by blast
    define st1 where "st1 = st\<lparr>sys_f := add_off f (int k) (sys_f st), sys_fs := g5\<rparr>"
    have s1: "sys_f st1 = upd_file f (\<lambda>x. x\<lparr>f_off := f_off x + of_nat k\<rparr>) (sys_f st)" "sys_fs st1 = g5" "sys_env st1 = sys_env st"
      using add_off_nat [OF fl] by (simp_all add: st1_def sys_env_def upd_file_def)
    have run: "filewrite_loop logged_bio api pt f va n j st =
        (if int k \<noteq> int (length p) then Some (j, st1) else filewrite_loop logged_bio api pt f va n (j + int k) st1)"
      using jn n1 less.prems(3,4) w(1-5) by (subst filewrite_loop.simps) (simp add: Let_def st1_def)
    have tk: "take k p = take k bs" using w(6) pl(1) by (simp add: p_def)
    show ?thesis
    proof (cases "k = length p")
      case False
      then have lt: "k < length p" using w(6) by simp
      show ?thesis
        by (rule exI [of _ k], rule exI [of _ j], rule exI [of _ st1])
          (use run False lt w(7-9) s1 tk pl(3) jn in simp)
    next
      case True
      let ?bs = "drop k bs" and ?off = "off + of_nat k"
      have uo: "unat ?off = unat off + k" using ok(2) True pl(3) by (subst unat_plus_if') (simp add: sizes unat_of_nat)
      have lc: "unat (isize (itab (sys_fs st) ! i)) = length (contents d i (sys_fs st))" by simp
      have ol: "unat off \<le> length (contents d i (sys_fs st))" using ok(1) by (simp add: word_le_nat_alt)
      have "length (contents d i g5) \<ge> unat off + k" using w(9) ol True by (simp add: overwrite_def)
      then have off1: "?off \<le> isize (itab (sys_fs st1) ! i)" by (simp add: s1(2) word_le_nat_alt uo)
      have "source (user_get api pt (sys_env st)) (va + of_int j + of_nat k) ?bs"
        by (rule source_drop [OF src]) (use True pl(3) in simp)
      then have src1: "source (user_get api pt (sys_env st1)) (va + of_int (j + int k)) ?bs" by (simp add: s1(3) ac_simps)
      have "length ?bs < length bs" unfolding length_drop using True pl(2,3) by linarith
      moreover have "idle_file d lst i (sys_fs st1)" using w(8) by (simp add: s1(2))
      moreover have "f < length (ftable (sys_f st1))" "f_ip (ftable (sys_f st1) ! f) = i" "f_off (ftable (sys_f st1) ! f) = ?off"
        using fl less.prems(3,4) by (simp_all add: s1(1) upd_file_def)
      moreover have "unat ?off + length ?bs \<le> MAXFILE * BSIZE" "n = (j + int k) + int (length ?bs)"
        using uo ok(2) less.prems(8) True pl(3) by simp_all
      ultimately obtain k' r st' where ih: "filewrite_loop logged_bio api pt f va n (j + int k) st1 = Some (r, st')"
        "k' \<le> length ?bs" "if k' = length ?bs then r = n else r < n \<and> disk_full d (sys_fs st')" "idle_file d lst i (sys_fs st')"
        "contents d i (sys_fs st') = overwrite (unat ?off) (take k' ?bs) (contents d i (sys_fs st1))"
        "sys_f st' = upd_file f (\<lambda>x. x\<lparr>f_off := f_off x + of_nat k'\<rparr>) (sys_f st1)"
        using less.hyps [OF _ _ _ _ _ off1 _ src1] by blast
      have "take (k + k') bs = take k bs @ take k' ?bs" by (rule take_add)
      moreover have "length (take k bs) = k" using True pl(3) by simp
      ultimately have c: "contents d i (sys_fs st') = overwrite (unat off) (take (k + k') bs) (contents d i (sys_fs st))"
        using ih(5) w(9) overwrite_append [OF ol, of "take k bs" "take k' ?bs"] by (simp add: s1(2) uo tk)
      have fo: "sys_f st' = upd_file f (\<lambda>x. x\<lparr>f_off := f_off x + of_nat (k + k')\<rparr>) (sys_f st)"
        unfolding ih(6) s1(1) upd_file_twice [OF fl] by (simp add: ac_simps)
      have iff: "k + k' = length bs \<longleftrightarrow> k' = length ?bs" using True pl(3) by auto
      show ?thesis
        by (rule exI [of _ "k + k'"], rule exI [of _ r], rule exI [of _ st'], intro conjI)
          (use run True ih(1,2,3,4) c fo iff pl(3) in auto)
    qed
  qed
qed

section \<open>Reading\<close>

lemma fileread_file:
  assumes f: "open_ino d lst m i (sys_fs st)" "\<not> sl_locked (ilk (itab (sys_fs st) ! i))"
    and x: "ftable (sys_f st) ! f = x" "f < length (ftable (sys_f st))" "f_readable x" "f_type x = FD_INODE" "f_ip x = i"
    and pt: "my_pagetable st = Some pt" and sk: "sink (user_put api pt) deliver"
    and n: "0 \<le> n" "unat (f_off x) + nat n < 2 ^ 32"
  defines "bs \<equiv> take (nat n) (drop (unat (f_off x)) (contents d i (sys_fs st)))"
  shows "\<exists>st'. fileread logged_bio api f va n st = Some (Pipe_return (int (length bs)), st') \<and>
    sys_env st' = deliver va bs (sys_env st) \<and> open_ino d lst m i (sys_fs st') \<and> \<not> sl_locked (ilk (itab (sys_fs st') ! i)) \<and>
    contents d i (sys_fs st') = contents d i (sys_fs st) \<and> kview d (sys_fs st') = kview d (sys_fs st) \<and>
    ftable (sys_f st') = (ftable (sys_f st))[f := x\<lparr>f_off := f_off x + of_nat (length bs)\<rparr>]"
proof -
  let ?g = "sys_fs st" and ?off = "f_off x"
  have il: "i < length (itab ?g)" using f(1) by (simp add: open_ino_def)
  have un: "unat (of_int n :: u32) = nat n"
  proof -
    have "(of_int n :: u32) = of_nat (nat n)" using n(1) by (metis of_int_of_nat_eq nat_0_le)
    moreover have "nat n < 2 ^ 32" using n(2) by simp
    ultimately show ?thesis by (simp add: unat_of_nat take_bit_nat_eq_self)
  qed
  define g1 where "g1 = with_lock i \<lparr>sl_locked = True, sl_pid = holder ?g\<rparr> ?g"
  have 1: "ilock logged_bio i ?g = Some g1" unfolding g1_def by (rule ilock_open [OF f])
  have g1: "open_ino d lst m i g1" "isize (itab g1 ! i) = isize (itab ?g ! i)" "kview d g1 = kview d ?g"
    "ilk (itab g1 ! i) = \<lparr>sl_locked = True, sl_pid = holder g1\<rparr>" "contents d i g1 = contents d i ?g"
    using open_with_lock [OF f(1)] il contents_with_lock [OF il] by (simp_all add: g1_def)
  have "\<exists>g2. readi logged_bio (user_put api pt) i va ?off (of_int n) (sys_env st) g1 =
      Some (int (length bs), deliver va bs (sys_env st), g2) \<and>
    open_ino d lst m i g2 \<and> itab g2 = itab g1 \<and> kview d g2 = kview d g1 \<and> holder g2 = holder g1"
  proof (cases "?off \<le> isize (itab g1 ! i)")
    case True
    show ?thesis
      using readi_open [OF g1(1) True _ sk, of "of_int n" va "sys_env st"] n(2) un g1(5) by (simp add: bs_def)
  next
    case False
    then have "unat (isize (itab ?g ! i)) < unat ?off" using g1(2) by (simp add: word_le_nat_alt)
    then have "bs = []" by (simp add: bs_def)
    then show ?thesis using False g1(1) sinkD(2) [OF sk] by (simp add: readi_def not_le)
  qed
  then obtain g2 where 2: "readi logged_bio (user_put api pt) i va ?off (of_int n) (sys_env st) g1 =
      Some (int (length bs), deliver va bs (sys_env st), g2)"
    "open_ino d lst m i g2" "itab g2 = itab g1" "kview d g2 = kview d g1" "holder g2 = holder g1" by blast
  have lk: "ilk (itab g2 ! i) = \<lparr>sl_locked = True, sl_pid = holder g2\<rparr>" using 2(3,5) g1(4) by simp
  obtain g3 where 3: "iunlock logged_bio i g2 = Some g3" "open_ino d lst m i g3" "\<not> sl_locked (ilk (itab g3 ! i))"
    "contents d i g3 = contents d i g2" "kview d g3 = kview d g2"
    using iunlock_open [OF 2(2) lk] by blast
  have c: "contents d i g2 = contents d i g1" by (rule contents_cong [OF 2(4)]) (simp add: 2(3))
  let ?st = "set_env (deliver va bs (sys_env st)) (st\<lparr>sys_f := add_off f (int (length bs)) (sys_f st), sys_fs := g3\<rparr>)"
  have "fileread logged_bio api f va n st = Some (Pipe_return (int (length bs)), ?st)"
    using x pt 1 2(1) 3(1) by (simp add: fileread_def Let_def)
  moreover have "ftable (sys_f ?st) = (ftable (sys_f st))[f := x\<lparr>f_off := ?off + of_nat (length bs)\<rparr>]"
    using x(1) add_off_nat [OF x(2), of "length bs"] by (simp add: set_env_def upd_file_def)
  ultimately show ?thesis
    using 3(2-5) 2(4) c g1(3,5) by (intro exI [of _ ?st]) (simp add: set_env_def sys_env_def)
qed

lemma filewrite_file:
  assumes f: "idle_file d lst i (sys_fs st)"
    and x: "ftable (sys_f st) ! f = x" "f < length (ftable (sys_f st))" "f_writable x" "f_type x = FD_INODE" "f_ip x = i"
    and pt: "my_pagetable st = Some pt" and src: "source (user_get api pt (sys_env st)) va bs"
    and ok: "f_off x \<le> isize (itab (sys_fs st) ! i)" "unat (f_off x) + length bs \<le> MAXFILE * BSIZE"
  shows "\<exists>k st'. filewrite logged_bio api kl f va (int (length bs)) st =
      Some (Pipe_return (if k = length bs then int k else -1), st') \<and>
    k \<le> length bs \<and> (k < length bs \<longrightarrow> disk_full d (sys_fs st')) \<and> idle_file d lst i (sys_fs st') \<and>
    contents d i (sys_fs st') = overwrite (unat (f_off x)) (take k bs) (contents d i (sys_fs st)) \<and>
    ftable (sys_f st') = (ftable (sys_f st))[f := x\<lparr>f_off := f_off x + of_nat k\<rparr>] \<and> fk (sys_f st') = fk (sys_f st)"
proof -
  have "source (user_get api pt (sys_env st)) (va + of_int 0) bs" using src by simp
  from filewrite_loop_spec [OF f x(2) _ _ ok(1,2) this, of "int (length bs)"] x(1,5)
  obtain k r st' where w: "filewrite_loop logged_bio api pt f va (int (length bs)) 0 st = Some (r, st')" "k \<le> length bs"
    "if k = length bs then r = int (length bs) else r < int (length bs) \<and> disk_full d (sys_fs st')" "idle_file d lst i (sys_fs st')"
    "contents d i (sys_fs st') = overwrite (unat (f_off x)) (take k bs) (contents d i (sys_fs st))"
    "sys_f st' = upd_file f (\<lambda>x. x\<lparr>f_off := f_off x + of_nat k\<rparr>) (sys_f st)"
    by auto
  have "filewrite logged_bio api kl f va (int (length bs)) st = Some (Pipe_return (if k = length bs then int k else -1), st')"
    using x pt w(1,3) by (auto simp: filewrite_def Let_def split: if_splits)
  moreover have "ftable (sys_f st') = (ftable (sys_f st))[f := x\<lparr>f_off := f_off x + of_nat k\<rparr>]" "fk (sys_f st') = fk (sys_f st)"
    using x(1) by (simp_all add: w(6) upd_file_def)
  ultimately show ?thesis
    using w(2,3,4,5) by (intro exI [of _ k] exI [of _ st'] conjI; simp split: if_splits)
qed

section \<open>The system calls\<close>

text \<open>
  C1: \<open>filewrite\<close> on a regular file, from the call down to the disk. The bytes of the user's buffer, or a prefix of
  them when the disk fills up, replace those of the file from its offset on, over as many transactions as
  it takes; the offset moves by their number; the call returns the count when all are written and
  \<open>-1\<close> otherwise; and when it returns every block of the disk has what the cache shows.
\<close>

theorem filewrite_durable:
  assumes f: "idle_file d lst i (sys_fs st)"
    and x: "ftable (sys_f st) ! f = x" "f < length (ftable (sys_f st))" "f_writable x" "f_type x = FD_INODE" "f_ip x = i"
    and pt: "my_pagetable st = Some pt" and src: "source (user_get api pt (sys_env st)) va bs"
    and ok: "f_off x \<le> isize (itab (sys_fs st) ! i)" "unat (f_off x) + length bs \<le> MAXFILE * BSIZE"
  shows "\<exists>k st'. filewrite logged_bio api kl f va (int (length bs)) st =
      Some (Pipe_return (if k = length bs then int k else -1), st') \<and>
    k \<le> length bs \<and> (k < length bs \<longrightarrow> disk_full d (sys_fs st')) \<and> idle_file d lst i (sys_fs st') \<and>
    contents d i (sys_fs st') = overwrite (unat (f_off x)) (take k bs) (contents d i (sys_fs st)) \<and>
    ftable (sys_f st') = (ftable (sys_f st))[f := x\<lparr>f_off := f_off x + of_nat k\<rparr>] \<and> fk (sys_f st') = fk (sys_f st) \<and>
    cdisk d (snd (fblk (sys_fs st'))) = kview d (sys_fs st')"
  using filewrite_file [OF f x pt src ok, where kl = kl] idle_on_disk by blast


section \<open>An example\<close>

text \<open>A process with the bytes 7, 8, 9 at address 0 and the empty file of \<open>demo_fs\<close> open in every entry of the table.\<close>

definition io_api :: "bytes fapi" where
  "io_api = \<lparr>fa_k = \<lparr>api_trampoline = 0, api_forkret = 0, api_kalloc = (\<lambda>e. (4096, e)), api_kfree = (\<lambda>_ e. e),
    api_uvmcreate = (\<lambda>e. (8192, e)), api_mappages = (\<lambda>_ _ _ _ _ e. (0, e)),
    api_uvmunmap = (\<lambda>_ _ _ _ e. e), api_uvmfree = (\<lambda>_ _ e. e), api_uvmcopy = (\<lambda>_ _ _ e. (0, e)),
    api_uvmalloc = (\<lambda>_ _ n _ e. (n, e)), api_uvmdealloc = (\<lambda>_ _ n e. (n, e)),
    api_uvmfirst = (\<lambda>_ _ e. e), api_kvmmap = (\<lambda>_ _ _ _ _ e. e), api_copyout = (\<lambda>_ _ bs e. (0, e @ bs)),
    api_copyin = (\<lambda>_ _ _ _. None), api_kwrite = (\<lambda>_ _ e. e), api_kread = (\<lambda>_ _ _. []),
    api_filedup = (\<lambda>_ e. e), api_fileclose = (\<lambda>_ e. e), api_idup = (\<lambda>_ e. e), api_iput = (\<lambda>_ e. e),
    api_begin_op = (\<lambda>e. e), api_end_op = (\<lambda>e. e), api_namei = (\<lambda>_ e. (None, e))\<rparr>,
    fa_copyin = (\<lambda>_ a n _. (0, take n (drop (unat a) [7, 8, 9]))), fa_pad = replicate 4 0,
    fa_dev_read = (\<lambda>_. None), fa_dev_write = (\<lambda>_. None)\<rparr>"

definition io_state :: "(log \<times> unit bcache, bytes) sysst" where
  "io_state = \<lparr>sys_f = \<lparr>fk = \<lparr>procs = procs demo, nextpid = 4, initproc = Some 0, cur = Some 2, tframes = tframes demo, env = []\<rparr>,
      ftable = replicate NFILE \<lparr>f_type = FD_INODE, f_ref = 1, f_readable = True, f_writable = True, f_pipe = 0, f_ip = 0,
        f_off = 0, f_major = 0\<rparr>, pipes = (\<lambda>_. demo_pipe)\<rparr>,
    sys_fs = demo_fs\<lparr>fblk := (demo_log, booted (\<lambda>_. demo_image) demo)\<rparr>\<rparr>"

lemma io_idle: "idle_file 1 2 0 (sys_fs io_state)"
proof -
  let ?c = "booted (\<lambda>_. demo_image) demo"
  have k: "kview 1 (sys_fs io_state) = kview 1 demo_fs" by (simp add: io_state_def kview_def demo_fs_def)
  have "store_inv 1 2 (demo_log\<lparr>outstanding := 1\<rparr>, ?c)" using demo_good_file by (simp add: good_file_def demo_fs_def)
  then have "op_inv 1 2 0 (demo_log, ?c)" by (simp add: op_inv_def) (simp add: demo_log_def log_zero_def)
  then show ?thesis
    using demo_good_file unfolding idle_file_def open_ino_def good_file_def k
    by (simp add: io_state_def) (simp add: demo_fs_def demo_log_def log_zero_def demo_inode_def initsleeplock_def)
qed

lemma io_memory:
  "source (user_get io_api pt e) 0 [7, 8, 9]" "sink (user_put io_api pt) (\<lambda>_ bs e. e @ bs)"
proof -
  have "unat (of_nat t :: u64) = t" if "t \<le> 3" for t using that by (simp add: unat_of_nat take_bit_nat_eq_self)
  then show "source (user_get io_api pt e) 0 [7, 8, 9]" by (simp add: source_def user_get_def io_api_def)
  show "sink (user_put io_api pt) (\<lambda>_ bs e. e @ bs)" by (simp add: sink_def user_put_def io_api_def)
qed

lemma io_table:
  "f < NFILE \<Longrightarrow> ftable (sys_f io_state) ! f = \<lparr>f_type = FD_INODE, f_ref = 1, f_readable = True, f_writable = True, f_pipe = 0,
     f_ip = 0, f_off = 0, f_major = 0\<rparr>"
  "length (ftable (sys_f io_state)) = NFILE" "\<exists>pt. my_pagetable io_state = Some pt" "sys_env io_state = []"
  by (simp_all add: io_state_def my_pagetable_def sys_env_def)

lemma io_facts:
  "0 < length (ftable (sys_f io_state))" "1 < length (ftable (sys_f io_state))"
  "f < 2 \<Longrightarrow> f_readable (ftable (sys_f io_state) ! f)" "f < 2 \<Longrightarrow> f_writable (ftable (sys_f io_state) ! f)"
  "f < 2 \<Longrightarrow> f_type (ftable (sys_f io_state) ! f) = FD_INODE" "f < 2 \<Longrightarrow> f_ip (ftable (sys_f io_state) ! f) = 0"
  "f < 2 \<Longrightarrow> f_off (ftable (sys_f io_state) ! f) = 0"
  "f_off (ftable (sys_f io_state) ! 0) \<le> isize (itab (sys_fs io_state) ! 0)"
  "unat (f_off (ftable (sys_f io_state) ! 0)) + length [7, 8, 9 :: u8] \<le> MAXFILE * BSIZE"
  "contents 1 0 (sys_fs io_state) = []"
  using io_table(1) [of f] io_table(1) [of 0]
  by (simp_all add: io_table(2) NFILE_def sizes contents_def) (simp_all add: io_state_def demo_fs_def demo_inode_def)

theorem filewrite_durable_witness:
  "\<exists>k st'. filewrite logged_bio io_api (\<lambda>_. False) 0 0 3 io_state = Some (Pipe_return (if k = 3 then int k else -1), st') \<and>
    contents 1 0 (sys_fs st') = take k [7, 8, 9] \<and> cdisk 1 (snd (fblk (sys_fs st'))) = kview 1 (sys_fs st')"
proof -
  obtain pt where pt: "my_pagetable io_state = Some pt" using io_table(3) by blast
  have "(0::nat) < 2" by simp
  note z = io_facts(4-6) [OF this]
  obtain k st' where "filewrite logged_bio io_api (\<lambda>_. False) 0 0 (int (length [7, 8, 9 :: u8])) io_state =
      Some (Pipe_return (if k = length [7, 8, 9 :: u8] then int k else -1), st')"
    "contents 1 0 (sys_fs st') = overwrite (unat (f_off (ftable (sys_f io_state) ! 0))) (take k [7, 8, 9]) (contents 1 0 (sys_fs io_state))"
    "cdisk 1 (snd (fblk (sys_fs st'))) = kview 1 (sys_fs st')"
    using filewrite_durable [OF io_idle refl io_facts(1) z pt io_memory(1) io_facts(8,9), where kl = "\<lambda>_. False"] by (elim exE conjE) (rule that)
  then show ?thesis by (intro exI [of _ k] exI [of _ st']) (simp add: overwrite_def io_facts)
qed


end
