(* ===== verification/X_Kalloc.thy ===== *)
theory X_Kalloc
  imports X_Proc "HOL-Library.Multiset"
begin

text \<open>
  The physical page allocator (\<open>kernel/kalloc.c\<close>) over byte memory: the free list is the chain of
  pointers that the code keeps in the first eight bytes of each free page. \<open>kend\<close> is the linker's
  symbol \<open>end\<close>. A \<open>panic\<close> is \<open>None\<close>, as is a loop that does not return.
\<close>

section \<open>Words in memory\<close>

definition KERNBASE :: u64 where "KERNBASE = 0x80000000"
definition PHYSTOP :: u64 where "PHYSTOP = KERNBASE + 128 * 1024 * 1024"

definition PGROUNDUP :: "u64 \<Rightarrow> u64" where
  "PGROUNDUP sz = and (sz + PGSIZE - 1) (not (PGSIZE - 1))"

definition PGROUNDDOWN :: "u64 \<Rightarrow> u64" where
  "PGROUNDDOWN a = and a (not (PGSIZE - 1))"

definition le64_bytes :: "u64 \<Rightarrow> bytes" where
  "le64_bytes w = le32_bytes (ucast w) @ le32_bytes (ucast (drop_bit 32 w))"

definition le64_of :: "bytes \<Rightarrow> u64" where
  "le64_of bs = or (ucast (le32_at bs 0)) (push_bit 32 (ucast (le32_at bs 4)))"

definition ld64 :: "mem \<Rightarrow> u64 \<Rightarrow> u64" where
  "ld64 m a = le64_of (mem_read m (uint a) 8)"

definition st64 :: "u64 \<Rightarrow> u64 \<Rightarrow> mem \<Rightarrow> mem" where
  "st64 a w m = mem_write m (uint a) (le64_bytes w)"

text \<open>\<open>memset\<close> of a page.\<close>

definition fill_page :: "u64 \<Rightarrow> u8 \<Rightarrow> mem \<Rightarrow> mem" where
  "fill_page p c m = mem_write m (uint p) (replicate 4096 c)"

section \<open>The allocator\<close>

record kmem =
  freelist :: u64
  ram :: mem
  kend :: u64

definition kfree :: "u64 \<Rightarrow> kmem \<Rightarrow> kmem option" where
  "kfree pa s =
    (if pa mod PGSIZE \<noteq> 0 \<or> pa < kend s \<or> PHYSTOP \<le> pa then None
     else Some (s\<lparr>ram := st64 pa (freelist s) (fill_page pa 1 (ram s)), freelist := pa\<rparr>))"

definition kalloc :: "kmem \<Rightarrow> u64 \<times> kmem" where
  "kalloc s =
    (let r = freelist s in
     if r \<noteq> 0 then (r, s\<lparr>freelist := ld64 (ram s) r, ram := fill_page r 5 (ram s)\<rparr>)
     else (r, s))"

partial_function (option) freerange_loop :: "u64 \<Rightarrow> u64 \<Rightarrow> kmem \<Rightarrow> kmem option" where
  "freerange_loop p pa_end s =
    (if p + PGSIZE \<le> pa_end then do { s' \<leftarrow> kfree p s; freerange_loop (p + PGSIZE) pa_end s' } else Some s)"

definition freerange :: "u64 \<Rightarrow> u64 \<Rightarrow> kmem \<Rightarrow> kmem option" where
  "freerange pa_start pa_end s = freerange_loop (PGROUNDUP pa_start) pa_end s"

definition kinit :: "kmem \<Rightarrow> kmem option" where
  "kinit s = freerange (kend s) PHYSTOP s"

section \<open>Memory lemmas\<close>

lemma length_le64_bytes [simp]: "length (le64_bytes w) = 8"
  by (simp add: le64_bytes_def)

lemma le64_roundtrip [simp]: "le64_of (le64_bytes w) = w"
proof -
  have "le32_at (le64_bytes w) 0 = ucast w"
    by (simp add: le64_bytes_def le32_at_append le32_at_bytes)
  moreover have "le32_at (le64_bytes w) 4 = ucast (drop_bit 32 w)"
    by (simp add: le64_bytes_def le32_at_skip le32_at_bytes)
  ultimately have "le64_of (le64_bytes w) = or (ucast (ucast w :: u32)) (push_bit 32 (ucast (ucast (drop_bit 32 w) :: u32)))"
    by (simp add: le64_of_def)
  also have "\<dots> = w" by (rule bit_word_eqI) (auto simp: bit_simps)
  finally show ?thesis .
qed

lemma ld64_st64 [simp]: "ld64 (st64 a w m) a = w"
  using mem_read_write_same [of m "uint a" "le64_bytes w"] by (simp add: ld64_def st64_def)

text \<open>Memory that agrees on a range of addresses.\<close>

definition page :: "u64 \<Rightarrow> int set" where
  "page p = {uint p ..< uint p + 4096}"

definition agree :: "int set \<Rightarrow> mem \<Rightarrow> mem \<Rightarrow> bool" where
  "agree A m m' \<longleftrightarrow> (\<forall>q \<in> A. m q = m' q)"

lemma agree_refl [simp]: "agree A m m"
  by (simp add: agree_def)

lemma agree_trans: "\<lbrakk>agree A m1 m2; agree A m2 m3\<rbrakk> \<Longrightarrow> agree A m1 m3"
  by (simp add: agree_def)

lemma agree_sym: "agree A m m' \<Longrightarrow> agree A m' m"
  by (simp add: agree_def)

lemma agree_subset: "\<lbrakk>agree B m m'; A \<subseteq> B\<rbrakk> \<Longrightarrow> agree A m m'"
  by (auto simp: agree_def)

lemma ld64_agree: "agree {uint a ..< uint a + 8} m m' \<Longrightarrow> ld64 m a = ld64 m' a"
  by (auto simp: ld64_def agree_def mem_read_def intro!: arg_cong [where f = le64_of])

lemma agree_write: "A \<inter> {p ..< p + int (length bs)} = {} \<Longrightarrow> agree A (mem_write m p bs) m"
  by (auto simp: agree_def mem_write_def)

lemma agree_st64: "A \<inter> {uint a ..< uint a + 8} = {} \<Longrightarrow> agree A (st64 a w m) m"
  unfolding st64_def by (rule agree_write) simp

lemma agree_fill: "A \<inter> page p = {} \<Longrightarrow> agree A (fill_page p c m) m"
  unfolding fill_page_def by (rule agree_write) (simp add: page_def)

text \<open>Pages are aligned, so two of them are equal or disjoint.\<close>

definition aligned :: "u64 \<Rightarrow> bool" where
  "aligned p \<longleftrightarrow> p mod PGSIZE = 0"

lemma aligned_uint: "aligned p \<longleftrightarrow> uint p mod 4096 = 0"
  by (simp add: aligned_def PGSIZE_def word_uint_eq_iff uint_mod)

lemma aligned_pages_disjoint: "\<lbrakk>aligned p; aligned q; p \<noteq> q\<rbrakk> \<Longrightarrow> page p \<inter> page q = {}"
proof -
  assume "aligned p" "aligned q" "p \<noteq> q"
  then obtain j k where "uint p = 4096 * j" "uint q = 4096 * k" "j \<noteq> k"
    by (metis aligned_uint mod_0_imp_dvd dvdE word_uint_eq_iff)
  then show ?thesis by (auto simp: page_def)
qed

section \<open>The free list\<close>

fun free_list :: "mem \<Rightarrow> u64 \<Rightarrow> u64 list \<Rightarrow> bool" where
  "free_list m r [] \<longleftrightarrow> r = 0"
| "free_list m r (a # as) \<longleftrightarrow> r = a \<and> a \<noteq> 0 \<and> free_list m (ld64 m a) as"

definition good_page :: "kmem \<Rightarrow> u64 \<Rightarrow> bool" where
  "good_page s p \<longleftrightarrow> aligned p \<and> kend s \<le> p \<and> p < PHYSTOP \<and> p \<noteq> 0"

definition kmem_ok :: "kmem \<Rightarrow> u64 list \<Rightarrow> bool" where
  "kmem_ok s xs \<longleftrightarrow> free_list (ram s) (freelist s) xs \<and> distinct xs \<and> (\<forall>p \<in> set xs. good_page s p)"

lemma free_list_agree:
  "\<lbrakk>\<And>p. p \<in> set xs \<Longrightarrow> agree (page p) m m'\<rbrakk> \<Longrightarrow> free_list m r xs = free_list m' r xs"
proof (induction xs arbitrary: r)
  case (Cons a xs)
  have "ld64 m a = ld64 m' a"
    using Cons.prems [of a] by (intro ld64_agree) (auto simp: agree_def page_def)
  then show ?case using Cons by simp
qed simp

lemma page_head: "{uint p ..< uint p + 8} \<subseteq> page p"
  by (auto simp: page_def)

lemma kfree_spec:
  assumes "kmem_ok s xs" "good_page s p" "p \<notin> set xs"
  shows "\<exists>s'. kfree p s = Some s' \<and> kmem_ok s' (p # xs) \<and> kend s' = kend s \<and> agree (- page p) (ram s') (ram s)"
proof -
  let ?m = "st64 p (freelist s) (fill_page p 1 (ram s))"
  have good: "aligned p" "kend s \<le> p" "p < PHYSTOP" "p \<noteq> 0" using assms(2) by (simp_all add: good_page_def)
  have out: "agree (- page p) ?m (ram s)"
    using page_head [of p] by (intro agree_trans [OF agree_st64 agree_fill]) auto
  have "agree (page q) ?m (ram s)" if "q \<in> set xs" for q
    using out aligned_pages_disjoint [of q p] that assms good
    by (intro agree_subset [OF out]) (auto simp: kmem_ok_def good_page_def)
  then have "free_list ?m (freelist s) xs"
    using assms(1) free_list_agree [of xs ?m "ram s"] by (simp add: kmem_ok_def)
  then show ?thesis
    using assms good out by (auto simp: kfree_def kmem_ok_def good_page_def aligned_def)
qed

lemma kalloc_spec:
  assumes "kmem_ok s xs"
  shows "if xs = [] then kalloc s = (0, s)
    else \<exists>s'. kalloc s = (hd xs, s') \<and> kmem_ok s' (tl xs) \<and> kend s' = kend s \<and>
      agree (- page (hd xs)) (ram s') (ram s) \<and> mem_read (ram s') (uint (hd xs)) 4096 = replicate 4096 5"
proof (cases xs)
  case Nil
  then show ?thesis using assms by (simp add: kalloc_def kmem_ok_def)
next
  case (Cons p ps)
  let ?m = "fill_page p 5 (ram s)"
  have f: "freelist s = p" "p \<noteq> 0" "free_list (ram s) (ld64 (ram s) p) ps" "p \<notin> set ps" "distinct ps"
    "good_page s p" "\<forall>q \<in> set ps. good_page s q"
    using assms Cons by (simp_all add: kmem_ok_def)
  have out: "agree (- page p) ?m (ram s)" by (rule agree_fill) simp
  have "agree (page q) ?m (ram s)" if "q \<in> set ps" for q
    using out aligned_pages_disjoint [of q p] that f
    by (intro agree_subset [OF out]) (auto simp: good_page_def)
  then have "free_list ?m (ld64 (ram s) p) ps"
    using f(3) free_list_agree [of ps ?m "ram s"] by simp
  moreover have "mem_read ?m (uint p) 4096 = replicate 4096 5"
    using mem_read_write_same [of "ram s" "uint p" "replicate 4096 5"] by (simp add: fill_page_def)
  ultimately show ?thesis
    using Cons f out by (simp add: kalloc_def kmem_ok_def Let_def good_page_def)
qed

section \<open>Start-up\<close>

lemma PGROUNDDOWN_eq: "PGROUNDDOWN a = push_bit 12 (drop_bit 12 a)"
proof -
  have "(0xFFF :: u64) = mask 12" by (simp add: mask_eq_exp_minus_1)
  then have "PGROUNDDOWN a = and a (not (mask 12))" by (simp add: PGROUNDDOWN_def PGSIZE_def)
  also have "\<dots> = push_bit 12 (drop_bit 12 a)"
    by (rule bit_word_eqI) (auto simp: bit_simps)
  finally show ?thesis .
qed

lemma round_bounds: "(x :: int) div 4096 * 4096 \<le> x" "x - 4096 < x div 4096 * 4096"
  using div_mult_mod_eq [of x 4096] pos_mod_bound [of 4096 x] pos_mod_sign [of 4096 x] by linarith+

lemma uint_PGROUNDDOWN: "uint (PGROUNDDOWN a) = uint a div 4096 * 4096"
proof -
  have "0 \<le> uint a" "uint a < 18446744073709551616"
    using uint_bounded [of a] by simp_all
  then have "uint a div 4096 * 4096 < 18446744073709551616" "0 \<le> uint a div 4096 * 4096"
    using round_bounds [of "uint a"] by (simp_all add: pos_imp_zdiv_nonneg_iff)
  then show ?thesis
    by (simp add: PGROUNDDOWN_eq push_bit_eq_mult uint_word_ariths(3) unsigned_drop_bit_eq drop_bit_eq_div uint_div)
qed

lemma aligned_PGROUNDDOWN: "aligned (PGROUNDDOWN a)"
  by (simp add: aligned_uint uint_PGROUNDDOWN)

lemma PGROUNDUP_eq: "PGROUNDUP a = PGROUNDDOWN (a + (PGSIZE - 1))"
  by (simp add: PGROUNDUP_def PGROUNDDOWN_def algebra_simps)

lemma uint_plus_small: "uint (a :: u64) + uint b < 2 ^ 64 \<Longrightarrow> uint (a + b) = uint a + uint b"
  by (simp add: uint_plus_if_size word_size)

lemma uint_PGROUNDUP:
  assumes "uint a < 2 ^ 64 - 4096"
  shows "uint (PGROUNDUP a) = (uint a + 4095) div 4096 * 4096"
proof -
  have "uint (a + (PGSIZE - 1)) = uint a + 4095"
    using assms by (subst uint_plus_small) (simp_all add: PGSIZE_def)
  then show ?thesis by (simp add: PGROUNDUP_eq uint_PGROUNDDOWN)
qed

text \<open>The \<open>n\<close> pages from \<open>p\<close> on.\<close>

fun pages_from :: "u64 \<Rightarrow> nat \<Rightarrow> u64 list" where
  "pages_from p 0 = []"
| "pages_from p (Suc n) = p # pages_from (p + PGSIZE) n"

lemma freerange_loop_spec:
  assumes "kmem_ok s xs" "aligned p" "kend s \<le> p" "p \<noteq> 0" "uint p + 4096 * int n = uint PHYSTOP"
    "\<forall>q \<in> set xs. q < p"
  shows "\<exists>s'. freerange_loop p PHYSTOP s = Some s' \<and> kmem_ok s' (rev (pages_from p n) @ xs) \<and> kend s' = kend s"
  using assms
proof (induction n arbitrary: p s xs)
  case 0
  then have "p = PHYSTOP" by (simp add: word_uint_eq_iff)
  then have "\<not> p + PGSIZE \<le> PHYSTOP" by (simp add: PHYSTOP_def PGSIZE_def KERNBASE_def)
  then show ?case using 0 by (subst freerange_loop.simps) simp
next
  case (Suc n)
  have P: "uint PHYSTOP = 0x88000000" by (simp add: PHYSTOP_def KERNBASE_def)
  have nxt: "uint (p + PGSIZE) = uint p + 4096"
    using Suc.prems(5) P by (subst uint_plus_small) (simp_all add: PGSIZE_def)
  have pos: "0 < uint (p + PGSIZE)" using nxt uint_ge_0 [of p] by linarith
  have le: "p + PGSIZE \<le> PHYSTOP" "p < PHYSTOP"
    using nxt Suc.prems(5) by (simp_all add: word_le_def word_less_def)
  obtain s1 where 1: "kfree p s = Some s1" "kmem_ok s1 (p # xs)" "kend s1 = kend s"
    using kfree_spec [OF Suc.prems(1), of p] Suc.prems(2-4,6) le by (auto simp: good_page_def)
  have "aligned (p + PGSIZE)" using Suc.prems(2) nxt by (simp add: aligned_uint)
  moreover have "kend s1 \<le> p + PGSIZE" "p + PGSIZE \<noteq> 0" "p < p + PGSIZE"
    using Suc.prems(3) nxt pos 1(3) by (auto simp: word_le_def word_less_def word_uint_eq_iff)
  moreover have "uint (p + PGSIZE) + 4096 * int n = uint PHYSTOP" using nxt Suc.prems(5) by simp
  moreover have "\<forall>q \<in> set (p # xs). q < p + PGSIZE"
    using Suc.prems(6) \<open>p < p + PGSIZE\<close> by (auto intro: less_trans)
  ultimately obtain s2 where "freerange_loop (p + PGSIZE) PHYSTOP s1 = Some s2"
    "kmem_ok s2 (rev (pages_from (p + PGSIZE) n) @ p # xs)" "kend s2 = kend s1"
    using Suc.IH [OF 1(2)] by blast
  then show ?case using 1 le by (subst freerange_loop.simps) simp
qed

text \<open>All pages between the end of the kernel and the end of memory.\<close>

definition all_pages :: "u64 \<Rightarrow> u64 list" where
  "all_pages kend0 = pages_from (PGROUNDUP kend0) (nat ((uint PHYSTOP - uint (PGROUNDUP kend0)) div 4096))"

lemma kinit_spec:
  assumes "freelist s = 0" "kend s \<noteq> 0" "kend s \<le> PHYSTOP"
  shows "\<exists>s'. kinit s = Some s' \<and> kmem_ok s' (rev (all_pages (kend s))) \<and> kend s' = kend s"
proof -
  have P: "uint PHYSTOP = 0x88000000" by (simp add: PHYSTOP_def KERNBASE_def)
  have k: "uint (kend s) \<le> 0x88000000" "0 < uint (kend s)"
    using assms(2,3) P by (simp_all add: word_le_def word_uint_eq_iff order_less_le)
  let ?p = "PGROUNDUP (kend s)"
  have p: "uint ?p = (uint (kend s) + 4095) div 4096 * 4096"
    using k by (intro uint_PGROUNDUP) simp
  have al: "aligned ?p" by (simp add: PGROUNDUP_eq aligned_PGROUNDDOWN)
  have le: "uint (kend s) \<le> uint ?p" "uint ?p \<le> 0x88000000" 
  proof -
    show "uint (kend s) \<le> uint ?p" using round_bounds(2) [of "uint (kend s) + 4095"] by (simp add: p)
    have "(uint (kend s) + 4095) div 4096 \<le> (0x88000000 + 4095) div 4096" using k by (intro zdiv_mono1) simp_all
    then show "uint ?p \<le> 0x88000000" by (simp add: p)
  qed
  have "kend s \<le> ?p" "?p \<noteq> 0" using le k by (auto simp: word_le_def word_uint_eq_iff)
  moreover have "uint ?p + 4096 * int (nat ((uint PHYSTOP - uint ?p) div 4096)) = uint PHYSTOP"
  proof -
    obtain j where j: "uint ?p = 4096 * j" using al by (auto simp: aligned_uint elim: dvdE)
    then have "(uint PHYSTOP - uint ?p) div 4096 = 557056 - j"
      using P by (simp flip: right_diff_distrib' [of 4096 557056 j, simplified])
    then show ?thesis using j le P by simp
  qed
  ultimately show ?thesis
    using freerange_loop_spec [of s "[]" ?p] al assms(1)
    by (simp add: kinit_def freerange_def all_pages_def kmem_ok_def)
qed

section \<open>Pages in use\<close>

text \<open>
  What the kernel does with the allocator: \<open>out\<close> lists the pages handed out. A page may be freed only
  by who has it, and only pages handed out are written to.
\<close>

inductive page_step :: "kmem \<times> u64 list \<Rightarrow> kmem \<times> u64 list \<Rightarrow> bool" where
  takes: "\<lbrakk>kalloc s = (p, s'); p \<noteq> 0\<rbrakk> \<Longrightarrow> page_step (s, out) (s', p # out)"
| fails: "kalloc s = (0, s') \<Longrightarrow> page_step (s, out) (s', out)"
| gives: "\<lbrakk>p \<in> set out; kfree p s = Some s'\<rbrakk> \<Longrightarrow> page_step (s, out) (s', remove1 p out)"
| writes_page: "\<lbrakk>p \<in> set out; agree (- page p) m (ram s)\<rbrakk> \<Longrightarrow> page_step (s, out) (s\<lparr>ram := m\<rparr>, out)"

definition pages_ok :: "u64 list \<Rightarrow> kmem \<times> u64 list \<Rightarrow> bool" where
  "pages_ok ps c = (case c of (s, out) \<Rightarrow>
     (\<exists>xs. kmem_ok s xs \<and> mset (xs @ out) = mset ps) \<and> distinct ps \<and> (\<forall>p \<in> set ps. good_page s p))"

lemma mset_distinct: "\<lbrakk>mset xs = mset ys; distinct ys\<rbrakk> \<Longrightarrow> distinct xs \<and> set xs = set ys"
  by (metis mset_eq_imp_distinct_iff mset_eq_setD)

lemma pages_ok_step:
  assumes "page_step c c'" "pages_ok ps c"
  shows "pages_ok ps c' \<and> kend (fst c') = kend (fst c)"
  using assms
proof cases
  case (takes s p s' out)
  obtain xs where xs: "kmem_ok s xs" "mset (xs @ out) = mset ps" using assms(2) takes(1) by (auto simp: pages_ok_def)
  then have "xs \<noteq> []" using kalloc_spec [OF xs(1)] takes(3,4) by auto
  then obtain ys where ys: "xs = p # ys" "kmem_ok s' ys" "kend s' = kend s"
    using kalloc_spec [OF xs(1)] takes(3) by (cases xs) auto
  then show ?thesis
    using assms(2) takes(1,2) xs(2) by (auto simp: pages_ok_def good_page_def intro!: exI [of _ ys])
next
  case (fails s s' out)
  obtain xs where xs: "kmem_ok s xs" "mset (xs @ out) = mset ps" using assms(2) fails(1) by (auto simp: pages_ok_def)
  then have "xs = []" using kalloc_spec [OF xs(1)] fails(3)
    by (cases xs) (auto simp: kmem_ok_def good_page_def)
  then have "s' = s" using kalloc_spec [OF xs(1)] fails(3) by simp
  then show ?thesis using assms(2) fails(1,2) by simp
next
  case (gives p out s s')
  obtain xs where xs: "kmem_ok s xs" "mset (xs @ out) = mset ps" using assms(2) gives(1) by (auto simp: pages_ok_def)
  have d: "distinct (xs @ out)" "set (xs @ out) = set ps"
    using xs(2) assms(2) gives(1) mset_distinct [OF xs(2)] by (auto simp: pages_ok_def)
  then obtain s1 where "kfree p s = Some s1" "kmem_ok s1 (p # xs)" "kend s1 = kend s"
    using kfree_spec [OF xs(1), of p] assms(2) gives(1,3) by (auto simp: pages_ok_def)
  moreover have "mset ((p # xs) @ remove1 p out) = mset ps"
  proof -
    have "mset out = add_mset p (mset (remove1 p out))" using gives(3) by simp
    then show ?thesis using xs(2) by (simp del: mset_remove1)
  qed
  ultimately show ?thesis
    using assms(2) gives by (auto simp: pages_ok_def good_page_def intro!: exI [of _ "p # xs"])
next
  case (writes_page p out m s)
  obtain xs where xs: "kmem_ok s xs" "mset (xs @ out) = mset ps"
    using assms(2) writes_page(1) by (auto simp: pages_ok_def)
  have d: "distinct (xs @ out)" "set (xs @ out) = set ps"
    using xs(2) assms(2) writes_page(1) mset_distinct [OF xs(2)] by (auto simp: pages_ok_def)
  have "agree (page q) m (ram s)" if "q \<in> set xs" for q
  proof -
    have "good_page s p" "good_page s q" "p \<noteq> q"
      using assms(2) writes_page(1,3) d that by (auto simp: pages_ok_def)
    then show ?thesis
      using aligned_pages_disjoint [of q p] by (intro agree_subset [OF writes_page(4)]) (auto simp: good_page_def)
  qed
  then have "kmem_ok (s\<lparr>ram := m\<rparr>) xs"
    using xs(1) free_list_agree [of xs m "ram s"] by (simp add: kmem_ok_def good_page_def)
  then show ?thesis
    using assms(2) writes_page(1,2) xs(2) by (auto simp: pages_ok_def good_page_def)
qed

text \<open>
  C19: From \<open>kinit\<close> on, whatever sequence of allocations, frees and writes to allocated pages follows,
  every page between the end of the kernel and the end of memory is either on the free list or
  handed out, and never twice; \<open>kalloc\<close> fails exactly when all pages are out, otherwise it gives a
  page nobody has, filled with the pattern 5, and changes nothing outside it; freeing a page that
  is out never panics and changes nothing outside it.
\<close>

theorem page_conservation:
  assumes k: "kinit s0 = Some s1" "freelist s0 = 0" "kend s0 \<noteq> 0" "kend s0 \<le> PHYSTOP"
    and r: "page_step\<^sup>*\<^sup>* (s1, []) (s, out)"
  shows "distinct out \<and> set out \<subseteq> set (all_pages (kend s0)) \<and>
    (case kalloc s of (p, s') \<Rightarrow>
       if set out = set (all_pages (kend s0)) then p = 0 \<and> s' = s
       else p \<in> set (all_pages (kend s0)) - set out \<and> mem_read (ram s') (uint p) 4096 = replicate 4096 5 \<and>
         agree (- page p) (ram s') (ram s)) \<and>
    (\<forall>p \<in> set out. \<exists>s'. kfree p s = Some s' \<and> agree (- page p) (ram s') (ram s))"
proof -
  let ?ps = "all_pages (kend s0)"
  obtain s1' where "kinit s0 = Some s1'" "kmem_ok s1' (rev ?ps)" "kend s1' = kend s0"
    using kinit_spec [OF k(2-4)] by auto
  then have "pages_ok ?ps (s1, [])"
    using k(1) by (auto simp: pages_ok_def kmem_ok_def intro!: exI [of _ "rev ?ps"])
  with r have "pages_ok ?ps (s, out)"
    by (induction rule: rtranclp_induct) (auto dest: pages_ok_step)
  then obtain xs where xs: "kmem_ok s xs" "mset (xs @ out) = mset ?ps" "distinct ?ps"
    "\<forall>p \<in> set ?ps. good_page s p"
    by (auto simp: pages_ok_def)
  have d: "distinct (xs @ out)" "set (xs @ out) = set ?ps" using mset_distinct [OF xs(2,3)] by simp_all
  have "set out = set ?ps \<longleftrightarrow> xs = []" using d by (cases xs) auto
  moreover have "\<exists>s'. kfree p s = Some s' \<and> agree (- page p) (ram s') (ram s)" if "p \<in> set out" for p
    using kfree_spec [OF xs(1), of p] xs(4) d that by auto
  ultimately show ?thesis
    using kalloc_spec [OF xs(1)] d by (cases xs) auto
qed

theorem page_conservation_witness:
  "\<exists>s1. kinit \<lparr>freelist = 0, ram = (\<lambda>_. 0), kend = 0x87FFE800\<rparr> = Some s1 \<and> fst (kalloc s1) = 0x87FFF000"
proof -
  let ?s = "\<lparr>freelist = 0, ram = (\<lambda>_. 0), kend = 0x87FFE800\<rparr>"
  have "kend ?s \<le> PHYSTOP" by (simp add: PHYSTOP_def KERNBASE_def)
  then obtain s1 where s1: "kinit ?s = Some s1" using kinit_spec [of ?s] by auto
  have p: "all_pages 0x87FFE800 = [0x87FFF000]"
    by (simp add: all_pages_def PGROUNDUP_def PHYSTOP_def KERNBASE_def PGSIZE_def)
  have f: "freelist ?s = 0" "kend ?s \<noteq> 0" by simp_all
  note c = page_conservation [OF s1 f \<open>kend ?s \<le> PHYSTOP\<close> rtranclp.rtrancl_refl]
  obtain p s' where ps: "kalloc s1 = (p, s')" by (cases "kalloc s1")
  have k: "kend ?s = 0x87FFE800" by simp
  have "set [] \<noteq> set (all_pages (kend ?s))" unfolding k p by simp
  then have "p \<in> set (all_pages (kend ?s))"
    using conjunct1 [OF conjunct2 [OF conjunct2 [OF c]]] unfolding ps prod.case by (simp only: if_False) blast
  then show ?thesis using s1 ps unfolding k p by simp
qed

end
