(* ===== verification/X_Vm.thy ===== *)
theory X_Vm
  imports X_Kalloc
begin

text \<open>
  Virtual memory (\<open>kernel/vm.c\<close>): the three-level page tables in byte memory, the mapping and
  unmapping of ranges, user memory, and the copies between user and kernel memory. A page table is
  the address of its root page and an entry is read and written at its address, so sharing and
  stale pointers are visible. A \<open>panic\<close> and a loop that does not return are \<open>None\<close>. Kernel buffers are
  byte lists; \<open>satp\<close> and the TLB have no counterpart.
\<close>

section \<open>Page table entries\<close>

definition UART0 :: u64 where "UART0 = 0x10000000"
definition VIRTIO0 :: u64 where "VIRTIO0 = 0x10001000"
definition PLIC :: u64 where "PLIC = 0x0c000000"

definition PTE_V :: u64 where "PTE_V = 1"
definition PTE_U :: int where "PTE_U = 16"

definition PA2PTE :: "u64 \<Rightarrow> u64" where "PA2PTE pa = push_bit 10 (drop_bit 12 pa)"
definition PTE2PA :: "u64 \<Rightarrow> u64" where "PTE2PA pte = push_bit 12 (drop_bit 10 pte)"
definition PTE_FLAGS :: "u64 \<Rightarrow> u64" where "PTE_FLAGS pte = and pte 0x3FF"

definition PX :: "nat \<Rightarrow> u64 \<Rightarrow> nat" where
  "PX level va = unat (and (drop_bit (12 + 9 * level) va) 0x1FF)"

text \<open>The address of entry \<open>i\<close> of a page-table page.\<close>

definition entry_addr :: "u64 \<Rightarrow> nat \<Rightarrow> u64" where
  "entry_addr pt i = pt + 8 * of_nat i"

definition is_valid :: "u64 \<Rightarrow> bool" where
  "is_valid pte \<longleftrightarrow> and pte PTE_V \<noteq> 0"

definition has_flag :: "u64 \<Rightarrow> int \<Rightarrow> bool" where
  "has_flag pte f \<longleftrightarrow> and pte (word_of_int f) \<noteq> 0"

section \<open>Walking\<close>

text \<open>The address of the entry, or \<open>0\<close>.\<close>

fun walk_level :: "nat \<Rightarrow> u64 \<Rightarrow> u64 \<Rightarrow> bool \<Rightarrow> kmem \<Rightarrow> u64 \<times> kmem" where
  "walk_level 0 pt va alloc s = (entry_addr pt (PX 0 va), s)"
| "walk_level (Suc l) pt va alloc s =
    (let a = entry_addr pt (PX (Suc l) va); pte = ld64 (ram s) a in
     if is_valid pte then walk_level l (PTE2PA pte) va alloc s
     else if \<not> alloc then (0, s)
     else (case kalloc s of (p, s1) \<Rightarrow>
       if p = 0 then (0, s1)
       else walk_level l p va alloc (s1\<lparr>ram := st64 a (or (PA2PTE p) PTE_V) (fill_page p 0 (ram s1))\<rparr>)))"

definition walk :: "u64 \<Rightarrow> u64 \<Rightarrow> bool \<Rightarrow> kmem \<Rightarrow> (u64 \<times> kmem) option" where
  "walk pgt va alloc s = (if MAXVA \<le> va then None else Some (walk_level 2 pgt va alloc s))"

definition walkaddr :: "u64 \<Rightarrow> u64 \<Rightarrow> kmem \<Rightarrow> u64 option" where
  "walkaddr pgt va s =
    (if MAXVA \<le> va then Some 0
     else do {
       (pte, s') \<leftarrow> walk pgt va False s;
       Some (if pte = 0 then 0
             else if \<not> is_valid (ld64 (ram s) pte) then 0
             else if \<not> has_flag (ld64 (ram s) pte) PTE_U then 0
             else PTE2PA (ld64 (ram s) pte)) })"

section \<open>Mapping and unmapping\<close>

partial_function (option) mappages_loop ::
  "u64 \<Rightarrow> u64 \<Rightarrow> u64 \<Rightarrow> u64 \<Rightarrow> int \<Rightarrow> kmem \<Rightarrow> (int \<times> kmem) option" where
  "mappages_loop pgt a la pa perm s = do {
     (pte, s1) \<leftarrow> walk pgt a True s;
     if pte = 0 then Some (-1, s1)
     else if is_valid (ld64 (ram s1) pte) then None
     else
       let s2 = s1\<lparr>ram := st64 pte (or (or (PA2PTE pa) (word_of_int perm)) PTE_V) (ram s1)\<rparr> in
       if a = la then Some (0, s2)
       else mappages_loop pgt (a + PGSIZE) la (pa + PGSIZE) perm s2 }"

definition mappages :: "u64 \<Rightarrow> u64 \<Rightarrow> u64 \<Rightarrow> u64 \<Rightarrow> int \<Rightarrow> kmem \<Rightarrow> (int \<times> kmem) option" where
  "mappages pgt va sz pa perm s =
    (if sz = 0 then None
     else mappages_loop pgt (PGROUNDDOWN va) (PGROUNDDOWN (va + sz - 1)) pa perm s)"

definition kvmmap :: "u64 \<Rightarrow> u64 \<Rightarrow> u64 \<Rightarrow> u64 \<Rightarrow> int \<Rightarrow> kmem \<Rightarrow> kmem option" where
  "kvmmap kpgtbl va pa sz perm s = do {
     (r, s') \<leftarrow> mappages kpgtbl va sz pa perm s;
     if r \<noteq> 0 then None else Some s' }"

text \<open>
  \<open>etext\<close> and \<open>trampoline\<close> are symbols of the linker, \<open>stacks\<close> is \<open>proc_mapstacks\<close>. The result of \<open>kalloc\<close>
  is not checked: address \<open>0\<close> is not memory.
\<close>

definition kvmmake :: "u64 \<Rightarrow> u64 \<Rightarrow> (u64 \<Rightarrow> kmem \<Rightarrow> kmem option) \<Rightarrow> kmem \<Rightarrow> (u64 \<times> kmem) option" where
  "kvmmake etext trampoline stacks s =
    (case kalloc s of (kpgtbl, s0) \<Rightarrow>
       if kpgtbl = 0 then None
       else do {
         s1 \<leftarrow> kvmmap kpgtbl UART0 UART0 PGSIZE (or PTE_R PTE_W) (s0\<lparr>ram := fill_page kpgtbl 0 (ram s0)\<rparr>);
         s2 \<leftarrow> kvmmap kpgtbl VIRTIO0 VIRTIO0 PGSIZE (or PTE_R PTE_W) s1;
         s3 \<leftarrow> kvmmap kpgtbl PLIC PLIC 0x400000 (or PTE_R PTE_W) s2;
         s4 \<leftarrow> kvmmap kpgtbl KERNBASE KERNBASE (etext - KERNBASE) (or PTE_R PTE_X) s3;
         s5 \<leftarrow> kvmmap kpgtbl etext etext (PHYSTOP - etext) (or PTE_R PTE_W) s4;
         s6 \<leftarrow> kvmmap kpgtbl TRAMPOLINE trampoline PGSIZE (or PTE_R PTE_X) s5;
         s7 \<leftarrow> stacks kpgtbl s6;
         Some (kpgtbl, s7) })"

partial_function (option) uvmunmap_loop :: "u64 \<Rightarrow> u64 \<Rightarrow> u64 \<Rightarrow> bool \<Rightarrow> kmem \<Rightarrow> kmem option" where
  "uvmunmap_loop pgt a stop do_free s =
    (if a < stop then do {
       (pte, s1) \<leftarrow> walk pgt a False s;
       if pte = 0 then None
       else if \<not> is_valid (ld64 (ram s) pte) then None
       else if PTE_FLAGS (ld64 (ram s) pte) = PTE_V then None
       else do {
         s2 \<leftarrow> (if do_free then kfree (PTE2PA (ld64 (ram s) pte)) s else Some s);
         uvmunmap_loop pgt (a + PGSIZE) stop do_free (s2\<lparr>ram := st64 pte 0 (ram s2)\<rparr>) } }
     else Some s)"

definition uvmunmap :: "u64 \<Rightarrow> u64 \<Rightarrow> u64 \<Rightarrow> bool \<Rightarrow> kmem \<Rightarrow> kmem option" where
  "uvmunmap pgt va npages do_free s =
    (if va mod PGSIZE \<noteq> 0 then None
     else uvmunmap_loop pgt va (va + npages * PGSIZE) do_free s)"

section \<open>User memory\<close>

definition uvmcreate :: "kmem \<Rightarrow> u64 \<times> kmem" where
  "uvmcreate s = (case kalloc s of (pt, s') \<Rightarrow>
     if pt = 0 then (0, s') else (pt, s'\<lparr>ram := fill_page pt 0 (ram s')\<rparr>))"

text \<open>The result of \<open>mappages\<close> is ignored, that of \<open>kalloc\<close> not checked.\<close>

definition uvmfirst :: "u64 \<Rightarrow> bytes \<Rightarrow> kmem \<Rightarrow> kmem option" where
  "uvmfirst pgt src s =
    (if 4096 \<le> length src then None
     else case kalloc s of (p, s1) \<Rightarrow>
       if p = 0 then None
       else do {
         (r, s2) \<leftarrow> mappages pgt 0 PGSIZE p (or (or (or PTE_W PTE_R) PTE_X) PTE_U)
           (s1\<lparr>ram := fill_page p 0 (ram s1)\<rparr>);
         Some (s2\<lparr>ram := mem_write (ram s2) (uint p) src\<rparr>) })"

text \<open>The number of pages passes through an \<open>int\<close>.\<close>

definition uvmdealloc :: "u64 \<Rightarrow> u64 \<Rightarrow> u64 \<Rightarrow> kmem \<Rightarrow> (u64 \<times> kmem) option" where
  "uvmdealloc pgt oldsz newsz s =
    (if oldsz \<le> newsz then Some (oldsz, s)
     else if PGROUNDUP newsz < PGROUNDUP oldsz
     then do {
       s' \<leftarrow> uvmunmap pgt (PGROUNDUP newsz)
          (scast (ucast ((PGROUNDUP oldsz - PGROUNDUP newsz) div PGSIZE) :: u32)) True s;
       Some (newsz, s') }
     else Some (newsz, s))"

partial_function (option) uvmalloc_loop ::
  "u64 \<Rightarrow> u64 \<Rightarrow> u64 \<Rightarrow> u64 \<Rightarrow> int \<Rightarrow> kmem \<Rightarrow> (u64 \<times> kmem) option" where
  "uvmalloc_loop pgt a oldsz newsz xperm s =
    (if a < newsz then
       case kalloc s of (p, s1) \<Rightarrow>
         if p = 0 then do { (r, s2) \<leftarrow> uvmdealloc pgt a oldsz s1; Some (0, s2) }
         else do {
           (r, s2) \<leftarrow> mappages pgt a PGSIZE p (or (or PTE_R PTE_U) xperm)
             (s1\<lparr>ram := fill_page p 0 (ram s1)\<rparr>);
           if r \<noteq> 0 then do {
             s3 \<leftarrow> kfree p s2;
             (r', s4) \<leftarrow> uvmdealloc pgt a oldsz s3;
             Some (0, s4) }
           else uvmalloc_loop pgt (a + PGSIZE) oldsz newsz xperm s2 }
     else Some (newsz, s))"

definition uvmalloc :: "u64 \<Rightarrow> u64 \<Rightarrow> u64 \<Rightarrow> int \<Rightarrow> kmem \<Rightarrow> (u64 \<times> kmem) option" where
  "uvmalloc pgt oldsz newsz xperm s =
    (if newsz < oldsz then Some (oldsz, s)
     else uvmalloc_loop pgt (PGROUNDUP oldsz) (PGROUNDUP oldsz) newsz xperm s)"

text \<open>The recursion through the entries of a page-table page from \<open>i\<close> on; it ends if the table is a tree.\<close>

partial_function (option) freewalk_from :: "u64 \<Rightarrow> nat \<Rightarrow> kmem \<Rightarrow> kmem option" where
  "freewalk_from pgt i s =
    (if i < 512 then
       let pte = ld64 (ram s) (entry_addr pgt i) in
       if is_valid pte \<and> \<not> has_flag pte (or (or PTE_R PTE_W) PTE_X) then do {
         s1 \<leftarrow> freewalk_from (PTE2PA pte) 0 s;
         freewalk_from pgt (i + 1) (s1\<lparr>ram := st64 (entry_addr pgt i) 0 (ram s1)\<rparr>) }
       else if is_valid pte then None
       else freewalk_from pgt (i + 1) s
     else kfree pgt s)"

definition freewalk :: "u64 \<Rightarrow> kmem \<Rightarrow> kmem option" where
  "freewalk pgt s = freewalk_from pgt 0 s"

definition uvmfree :: "u64 \<Rightarrow> u64 \<Rightarrow> kmem \<Rightarrow> kmem option" where
  "uvmfree pgt sz s = do {
     s1 \<leftarrow> (if 0 < sz then uvmunmap pgt 0 (PGROUNDUP sz div PGSIZE) True s else Some s);
     freewalk pgt s1 }"

partial_function (option) uvmcopy_loop ::
  "u64 \<Rightarrow> u64 \<Rightarrow> u64 \<Rightarrow> u64 \<Rightarrow> kmem \<Rightarrow> (int \<times> kmem) option" where
  "uvmcopy_loop old new i sz s =
    (if i < sz then do {
       (pte, s0) \<leftarrow> walk old i False s;
       if pte = 0 then None
       else if \<not> is_valid (ld64 (ram s) pte) then None
       else
         let pa = PTE2PA (ld64 (ram s) pte);
             flags = PTE_FLAGS (ld64 (ram s) pte);
             err = (\<lambda>s. do { s' \<leftarrow> uvmunmap new 0 (i div PGSIZE) True s; Some (-1, s') })
         in case kalloc s of (p, s1) \<Rightarrow>
           if p = 0 then err s1
           else do {
             (r, s2) \<leftarrow> mappages new i PGSIZE p (uint flags)
               (s1\<lparr>ram := mem_write (ram s1) (uint p) (mem_read (ram s1) (uint pa) 4096)\<rparr>);
             if r \<noteq> 0 then do { s3 \<leftarrow> kfree p s2; err s3 }
             else uvmcopy_loop old new (i + PGSIZE) sz s2 } }
     else Some (0, s))"

definition uvmcopy :: "u64 \<Rightarrow> u64 \<Rightarrow> u64 \<Rightarrow> kmem \<Rightarrow> (int \<times> kmem) option" where
  "uvmcopy old new sz s = uvmcopy_loop old new 0 sz s"

definition uvmclear :: "u64 \<Rightarrow> u64 \<Rightarrow> kmem \<Rightarrow> kmem option" where
  "uvmclear pgt va s = do {
     (pte, s') \<leftarrow> walk pgt va False s;
     if pte = 0 then None
     else Some (s\<lparr>ram := st64 pte (and (ld64 (ram s) pte) (not (word_of_int PTE_U))) (ram s)\<rparr>) }"

section \<open>Copies between user and kernel memory\<close>

text \<open>How many bytes of the page of \<open>va\<close> are left from it on.\<close>

definition page_rest :: "u64 \<Rightarrow> nat" where
  "page_rest va = unat (PGSIZE - (va - PGROUNDDOWN va))"

partial_function (option) copyout :: "u64 \<Rightarrow> u64 \<Rightarrow> bytes \<Rightarrow> kmem \<Rightarrow> (int \<times> kmem) option" where
  "copyout pgt dstva src s =
    (if src = [] then Some (0, s)
     else do {
       pa0 \<leftarrow> walkaddr pgt (PGROUNDDOWN dstva) s;
       if pa0 = 0 then Some (-1, s)
       else
         let n = min (page_rest dstva) (length src);
             s' = s\<lparr>ram := mem_write (ram s) (uint (pa0 + (dstva - PGROUNDDOWN dstva))) (take n src)\<rparr>
         in copyout pgt (PGROUNDDOWN dstva + PGSIZE) (drop n src) s' })"

text \<open>The bytes read, up to where it fails, are the contents of the kernel buffer.\<close>

partial_function (option) copyin :: "u64 \<Rightarrow> bytes \<Rightarrow> u64 \<Rightarrow> nat \<Rightarrow> kmem \<Rightarrow> (int \<times> bytes) option" where
  "copyin pgt dst srcva len s =
    (if len = 0 then Some (0, dst)
     else do {
       pa0 \<leftarrow> walkaddr pgt (PGROUNDDOWN srcva) s;
       if pa0 = 0 then Some (-1, dst)
       else
         let n = min (page_rest srcva) len
         in copyin pgt (dst @ mem_read (ram s) (uint (pa0 + (srcva - PGROUNDDOWN srcva))) n)
              (PGROUNDDOWN srcva + PGSIZE) (len - n) s })"

text \<open>The inner loop: what is copied of the bytes of one page, and whether they end with a NUL.\<close>

fun copy_string :: "bytes \<Rightarrow> bytes \<times> bool" where
  "copy_string [] = ([], False)"
| "copy_string (c # cs) = (if c = 0 then ([0], True) else case copy_string cs of (d, z) \<Rightarrow> (c # d, z))"

partial_function (option) copyinstr :: "u64 \<Rightarrow> bytes \<Rightarrow> u64 \<Rightarrow> nat \<Rightarrow> kmem \<Rightarrow> (int \<times> bytes) option" where
  "copyinstr pgt dst srcva mx s =
    (if mx = 0 then Some (-1, dst)
     else do {
       pa0 \<leftarrow> walkaddr pgt (PGROUNDDOWN srcva) s;
       if pa0 = 0 then Some (-1, dst)
       else
         let n = min (page_rest srcva) mx
         in case copy_string (mem_read (ram s) (uint (pa0 + (srcva - PGROUNDDOWN srcva))) n) of (d, z) \<Rightarrow>
           if z then Some (0, dst @ d)
           else copyinstr pgt (dst @ d) (PGROUNDDOWN srcva + PGSIZE) (mx - n) s })"

end
