(* ===== verification/X_Vm_Map.thy ===== *)
theory X_Vm_Map
  imports X_Vm
begin

text \<open>
  Page tables as trees in memory and what \<open>walk\<close> and \<open>mappages\<close> do to the translation of every
  address. \<open>table_pages\<close> is the set of pages a table occupies; \<open>table_tree\<close> says that they form a tree, so
  that an update of one entry is seen on one path only.
\<close>

section \<open>Addresses of entries\<close>

lemma PX_less [simp]: "PX l va < 512"
proof -
  have "and (drop_bit (12 + 9 * l) va) (0x1FF :: u64) = take_bit 9 (drop_bit (12 + 9 * l) va)"
    by (simp add: take_bit_eq_mask mask_eq_exp_minus_1)
  then have "unat (and (drop_bit (12 + 9 * l) va) (0x1FF :: u64)) = take_bit 9 (unat (drop_bit (12 + 9 * l) va))"
    by (simp add: unsigned_take_bit_eq)
  also have "\<dots> < 2 ^ 9" by (rule take_bit_nat_less_exp)
  finally show ?thesis by (simp add: PX_def)
qed

lemma aligned_top: "aligned p \<Longrightarrow> uint p + 4096 \<le> 2 ^ 64"
proof -
  assume "aligned p"
  then obtain k where "uint p = 4096 * k" by (auto simp: aligned_uint elim: dvdE)
  moreover have "uint p < 2 ^ 64" using uint_bounded [of p] by simp
  ultimately show ?thesis by simp
qed

lemma uint_entry_addr: "\<lbrakk>aligned pt; i < 512\<rbrakk> \<Longrightarrow> uint (entry_addr pt i) = uint pt + 8 * int i"
proof -
  assume "aligned pt" "i < 512"
  have "uint (8 * of_nat i :: u64) = 8 * int i"
    using \<open>i < 512\<close> by (simp add: uint_word_ariths unsigned_of_nat take_bit_nat_eq_self)
  then show ?thesis
    using aligned_top [OF \<open>aligned pt\<close>] \<open>i < 512\<close> unfolding entry_addr_def
    by (subst uint_plus_small) simp_all
qed

lemma entry_in_page: "\<lbrakk>aligned pt; i < 512\<rbrakk> \<Longrightarrow> {uint (entry_addr pt i) ..< uint (entry_addr pt i) + 8} \<subseteq> page pt"
  by (auto simp: uint_entry_addr page_def)

lemma entries_disjoint: "\<lbrakk>aligned pt; i < 512; j < 512; i \<noteq> j\<rbrakk> \<Longrightarrow>
    {uint (entry_addr pt i) ..< uint (entry_addr pt i) + 8} \<inter> {uint (entry_addr pt j) ..< uint (entry_addr pt j) + 8} = {}"
  by (auto simp: uint_entry_addr)

lemma ld64_st64_other:
  "{uint a ..< uint a + 8} \<inter> {uint b ..< uint b + 8} = {} \<Longrightarrow> ld64 (st64 b w m) a = ld64 m a"
  by (rule ld64_agree) (rule agree_st64)

lemma PTE2PA_leaf:
  assumes "drop_bit 10 w = 0"
  shows "PTE2PA (or (or (PA2PTE pa) w) PTE_V) = PGROUNDDOWN pa"
proof (rule bit_word_eqI)
  have w: "\<not> bit w n" if "10 \<le> n" for n
    using arg_cong [OF assms, of "\<lambda>x. bit x (n - 10)"] that by (simp add: bit_drop_bit_eq)
  show "bit (PTE2PA (or (or (PA2PTE pa) w) PTE_V)) n = bit (PGROUNDDOWN pa) n" if "n < LENGTH(64)" for n
    using that w [of "n - 2"]
    by (auto simp: PTE2PA_def PA2PTE_def PTE_V_def PGROUNDDOWN_eq bit_simps)
qed

lemma PTE2PA_node: "aligned p \<Longrightarrow> PTE2PA (or (PA2PTE p) PTE_V) = p"
proof -
  assume "aligned p"
  then have "PGROUNDDOWN p = p"
    by (simp add: word_uint_eq_iff uint_PGROUNDDOWN aligned_uint mod_0_imp_dvd)
  then show ?thesis using PTE2PA_leaf [of 0 p] by simp
qed

lemma is_valid_or [simp]: "is_valid (or w PTE_V)"
proof -
  have "bit (and (or w PTE_V) PTE_V) 0" by (simp add: PTE_V_def bit_simps)
  then show ?thesis unfolding is_valid_def by force
qed

lemma is_valid_zero [simp]: "\<not> is_valid 0"
  by (simp add: is_valid_def)

lemma aligned_PTE2PA [simp]: "aligned (PTE2PA e)"
proof -
  have "PTE2PA e = PGROUNDDOWN (PTE2PA e)"
    by (rule bit_word_eqI) (auto simp: PTE2PA_def PGROUNDDOWN_eq bit_simps)
  then show ?thesis using aligned_PGROUNDDOWN by metis
qed

section \<open>Tables as trees\<close>

text \<open>The pages reached from a table and the tables its valid entries point to.\<close>

definition child :: "mem \<Rightarrow> u64 \<Rightarrow> nat \<Rightarrow> u64 option" where
  "child m pt i = (let e = ld64 m (entry_addr pt i) in if is_valid e then Some (PTE2PA e) else None)"

fun table_pages :: "nat \<Rightarrow> mem \<Rightarrow> u64 \<Rightarrow> u64 set" where
  "table_pages 0 m pt = {pt}"
| "table_pages (Suc l) m pt =
    {pt} \<union> (\<Union>i < 512. case child m pt i of Some c \<Rightarrow> table_pages l m c | None \<Rightarrow> {})"

fun table_tree :: "nat \<Rightarrow> mem \<Rightarrow> u64 \<Rightarrow> bool" where
  "table_tree 0 m pt \<longleftrightarrow> aligned pt"
| "table_tree (Suc l) m pt \<longleftrightarrow> aligned pt \<and>
    (\<forall>i < 512. \<forall>c. child m pt i = Some c \<longrightarrow> table_tree l m c \<and> pt \<notin> table_pages l m c \<and>
       (\<forall>j < 512. \<forall>d. j \<noteq> i \<and> child m pt j = Some d \<longrightarrow> table_pages l m c \<inter> table_pages l m d = {}))"

text \<open>The entry for an address: its place, or \<open>0\<close>, and its value, \<open>0\<close> where there is none.\<close>

fun find_pte :: "nat \<Rightarrow> mem \<Rightarrow> u64 \<Rightarrow> u64 \<Rightarrow> u64" where
  "find_pte 0 m pt va = entry_addr pt (PX 0 va)"
| "find_pte (Suc l) m pt va =
    (case child m pt (PX (Suc l) va) of Some c \<Rightarrow> find_pte l m c va | None \<Rightarrow> 0)"

definition entry :: "nat \<Rightarrow> mem \<Rightarrow> u64 \<Rightarrow> u64 \<Rightarrow> u64" where
  "entry l m pt va = (let a = find_pte l m pt va in if a = 0 then 0 else ld64 m a)"

lemma entry_Suc: "entry (Suc l) m pt va = (case child m pt (PX (Suc l) va) of Some c \<Rightarrow> entry l m c va | None \<Rightarrow> 0)"
  by (simp add: entry_def Let_def split: option.split)

lemma walk_level_find: "walk_level l pt va False s = (find_pte l (ram s) pt va, s)"
  by (induction l arbitrary: pt) (simp_all add: child_def Let_def)

lemma table_tree_aligned: "table_tree l m pt \<Longrightarrow> aligned pt"
  by (cases l) auto

lemma root_in_table [simp]: "pt \<in> table_pages l m pt"
  by (cases l) auto

lemma child_agree: "\<lbrakk>aligned pt; i < 512; agree (page pt) m m'\<rbrakk> \<Longrightarrow> child m pt i = child m' pt i"
  by (simp add: child_def ld64_agree [OF agree_subset [OF _ entry_in_page]])

lemma child_pages: "\<lbrakk>i < 512; child m pt i = Some c\<rbrakk> \<Longrightarrow> table_pages l m c \<subseteq> table_pages (Suc l) m pt"
  by force

text \<open>Memory outside the pages of a table does not matter for it.\<close>

lemma table_agree:
  assumes "table_tree l m pt" "\<And>p. p \<in> table_pages l m pt \<Longrightarrow> agree (page p) m m'"
  shows "table_pages l m' pt = table_pages l m pt \<and> table_tree l m' pt \<and> find_pte l m' pt va = find_pte l m pt va \<and>
    entry l m' pt va = entry l m pt va"
  using assms
proof (induction l arbitrary: pt)
  case 0
  then have al: "aligned pt" and ag: "agree (page pt) m m'" by simp_all
  have "ld64 m (entry_addr pt (PX 0 va)) = ld64 m' (entry_addr pt (PX 0 va))"
    by (rule ld64_agree [OF agree_subset [OF ag entry_in_page [OF al]]]) simp
  then show ?case using al by (simp add: entry_def Let_def)
next
  case (Suc l)
  have ch: "child m' pt i = child m pt i" if "i < 512" for i
    using child_agree [of pt i m m'] that Suc.prems by simp
  have IH: "table_pages l m' c = table_pages l m c \<and> table_tree l m' c \<and> find_pte l m' c va = find_pte l m c va \<and>
      entry l m' c va = entry l m c va" if "i < 512" "child m pt i = Some c" for i c
    using that Suc.prems child_pages [OF that, of l] by (intro Suc.IH) (simp, blast)
  have pages: "table_pages (Suc l) m' pt = table_pages (Suc l) m pt"
    using IH by (auto simp: ch split: option.splits)
  have "table_tree (Suc l) m' pt"
    using Suc.prems(1) IH by (simp add: ch)
  moreover have "find_pte (Suc l) m' pt va = find_pte (Suc l) m pt va"
    using IH [of "PX (Suc l) va"] by (simp add: ch split: option.split)
  moreover have "entry (Suc l) m' pt va = entry (Suc l) m pt va"
    using IH [of "PX (Suc l) va"] by (simp add: ch entry_Suc split: option.split)
  ultimately show ?case using pages by blast
qed

text \<open>A table with one child replaced.\<close>

definition other_pages :: "nat \<Rightarrow> mem \<Rightarrow> u64 \<Rightarrow> nat \<Rightarrow> u64 set" where
  "other_pages l m pt i = (\<Union>j \<in> {..<512} - {i}. case child m pt j of Some d \<Rightarrow> table_pages l m d | None \<Rightarrow> {})"

lemma table_pages_split:
  "i < 512 \<Longrightarrow> table_pages (Suc l) m pt =
    {pt} \<union> (case child m pt i of Some c \<Rightarrow> table_pages l m c | None \<Rightarrow> {}) \<union> other_pages l m pt i"
  by (auto simp: other_pages_def)

declare table_pages.simps(2) [simp del]

lemma other_pagesI: "\<lbrakk>j < 512; j \<noteq> i; child m pt j = Some d; p \<in> table_pages l m d\<rbrakk> \<Longrightarrow> p \<in> other_pages l m pt i"
  by (force simp: other_pages_def)

lemma other_pages_root: "\<lbrakk>table_tree (Suc l) m pt\<rbrakk> \<Longrightarrow> pt \<notin> other_pages l m pt i"
  by (auto simp: other_pages_def split: option.splits)

lemma other_pages_child:
  "\<lbrakk>table_tree (Suc l) m pt; i < 512; child m pt i = Some c\<rbrakk> \<Longrightarrow> table_pages l m c \<inter> other_pages l m pt i = {}"
  by (fastforce simp: other_pages_def split: option.splits)

lemma graft:
  assumes tree: "table_tree (Suc l) m pt" and i: "i < 512"
    and ci: "child m' pt i = Some c" and cj: "\<And>j. \<lbrakk>j < 512; j \<noteq> i\<rbrakk> \<Longrightarrow> child m' pt j = child m pt j"
    and c: "table_tree l m' c" "pt \<notin> table_pages l m' c" "table_pages l m' c \<inter> other_pages l m pt i = {}"
    and ag: "\<And>p. p \<in> other_pages l m pt i \<Longrightarrow> agree (page p) m m'"
  shows "table_tree (Suc l) m' pt"
    "table_pages (Suc l) m' pt = {pt} \<union> table_pages l m' c \<union> other_pages l m pt i"
    "entry (Suc l) m' pt va = (if PX (Suc l) va = i then entry l m' c va else entry (Suc l) m pt va)"
    "find_pte (Suc l) m' pt va = (if PX (Suc l) va = i then find_pte l m' c va else find_pte (Suc l) m pt va)"
proof -
  have d: "table_pages l m' d = table_pages l m d" "table_tree l m' d" "find_pte l m' d va = find_pte l m d va"
      "entry l m' d va = entry l m d va" "pt \<notin> table_pages l m d"
    if "j < 512" "j \<noteq> i" "child m pt j = Some d" for j d va
  proof -
    have "table_tree l m d" "pt \<notin> table_pages l m d" using tree that by simp_all
    moreover have "\<And>p. p \<in> table_pages l m d \<Longrightarrow> agree (page p) m m'"
      using ag other_pagesI [OF that] by blast
    ultimately show "table_pages l m' d = table_pages l m d" "table_tree l m' d" "find_pte l m' d va = find_pte l m d va"
      "entry l m' d va = entry l m d va" "pt \<notin> table_pages l m d"
      using table_agree [of l m d m' va] by blast+
  qed
  have dc: "table_pages l m' c \<inter> table_pages l m d = {}" if "j < 512" "j \<noteq> i" "child m pt j = Some d" for j d
    using c(3) other_pagesI [OF that] by blast
  have dd: "table_pages l m d \<inter> table_pages l m e = {}"
    if "j < 512" "child m pt j = Some d" "k < 512" "child m pt k = Some e" "k \<noteq> j" for j d k e
    using tree that by simp
  have "table_tree l m' f \<and> pt \<notin> table_pages l m' f \<and>
      (\<forall>k < 512. \<forall>e. k \<noteq> j \<and> child m' pt k = Some e \<longrightarrow> table_pages l m' f \<inter> table_pages l m' e = {})"
    if j: "j < 512" "child m' pt j = Some f" for j f
  proof (cases "j = i")
    case True
    then have f: "f = c" using ci j by simp
    have "table_pages l m' c \<inter> table_pages l m' e = {}" if "k < 512" "k \<noteq> i" "child m' pt k = Some e" for k e
    proof -
      have "child m pt k = Some e" using that cj by simp
      then show ?thesis using dc [OF that(1,2)] d(1) [OF that(1,2)] by simp
    qed
    then show ?thesis using c(1,2) True f by simp
  next
    case False
    then have f: "child m pt j = Some f" using cj j by simp
    have "table_pages l m' f \<inter> table_pages l m' e = {}" if "k < 512" "k \<noteq> j" "child m' pt k = Some e" for k e
    proof (cases "k = i")
      case True
      then show ?thesis using ci that(3) dc [OF j(1) False f] d(1) [OF j(1) False f] by auto
    next
      case ki: False
      then have "child m pt k = Some e" using cj that by simp
      then show ?thesis
        using dd [OF j(1) f that(1) _ that(2)] d(1) [OF j(1) False f] d(1) [OF that(1) ki] by simp
    qed
    then show ?thesis using d(1,2,5) [OF j(1) False f] by simp
  qed
  then show "table_tree (Suc l) m' pt" using tree by simp
  have "(case child m' pt j of Some d \<Rightarrow> table_pages l m' d | None \<Rightarrow> {}) =
      (case child m pt j of Some d \<Rightarrow> table_pages l m d | None \<Rightarrow> {})" if "j < 512" "j \<noteq> i" for j
    using cj [OF that] d(1) [OF that] by (simp split: option.split)
  then have "other_pages l m' pt i = other_pages l m pt i"
    by (simp add: other_pages_def)
  then show "table_pages (Suc l) m' pt = {pt} \<union> table_pages l m' c \<union> other_pages l m pt i"
    using table_pages_split [OF i, of l m' pt] ci by simp
  show "entry (Suc l) m' pt va = (if PX (Suc l) va = i then entry l m' c va else entry (Suc l) m pt va)"
    using ci cj [of "PX (Suc l) va"] d(4) [of "PX (Suc l) va"] by (auto simp: entry_Suc split: option.splits)
  show "find_pte (Suc l) m' pt va = (if PX (Suc l) va = i then find_pte l m' c va else find_pte (Suc l) m pt va)"
    using ci cj [of "PX (Suc l) va"] d(3) [of "PX (Suc l) va"] by (auto split: option.splits)
qed

section \<open>Walking with allocation\<close>

lemma zero_entry: "\<lbrakk>aligned p; i < 512; \<And>q. q \<in> page p \<Longrightarrow> m q = 0\<rbrakk> \<Longrightarrow> ld64 m (entry_addr p i) = 0"
proof -
  assume a: "aligned p" "i < 512" "\<And>q. q \<in> page p \<Longrightarrow> m q = 0"
  have "mem_read m (uint (entry_addr p i)) 8 = replicate 8 0"
    using a by (intro nth_equalityI) (auto simp: uint_entry_addr page_def)
  then show ?thesis by (simp add: ld64_def le64_of_def le32_at_def)
qed

lemma zero_table:
  assumes "aligned p" "\<And>q. q \<in> page p \<Longrightarrow> m q = 0"
  shows "table_pages l m p = {p} \<and> table_tree l m p \<and> entry l m p va = 0"
proof -
  have "child m p i = None" if "i < 512" for i
    using zero_entry [OF assms(1) that assms(2)] by (simp add: child_def)
  then show ?thesis
    using assms zero_entry [OF assms(1) _ assms(2)] by (cases l) (simp_all add: entry_def Let_def table_pages.simps(2))
qed

text \<open>The pages of a table are allocated pages.\<close>

definition table_in :: "nat \<Rightarrow> kmem \<Rightarrow> u64 list \<Rightarrow> u64 \<Rightarrow> bool" where
  "table_in l s xs pt \<longleftrightarrow> kmem_ok s xs \<and> table_tree l (ram s) pt \<and>
     (\<forall>p \<in> table_pages l (ram s) pt. good_page s p \<and> p \<notin> set xs)"

lemma disjoint_pages: "\<lbrakk>good_page s p; good_page s' q; p \<noteq> q\<rbrakk> \<Longrightarrow> page p \<inter> page q = {}"
  by (intro aligned_pages_disjoint) (simp_all add: good_page_def)

lemma agree_page_outside:
  assumes "agree (- (\<Union>p \<in> U. page p)) m' m" "\<And>p. p \<in> U \<Longrightarrow> page q \<inter> page p = {}"
  shows "agree (page q) m m'"
  by (rule agree_sym [OF agree_subset [OF assms(1)]]) (use assms(2) in auto)

lemma good_page_kend: "kend s' = kend s \<Longrightarrow> good_page s' p = good_page s p"
  by (simp add: good_page_def)

lemma kalloc_take:
  fixes w :: u64 and i :: nat
  assumes "kmem_ok s (p # ps)" "q \<noteq> p" "good_page s q" "q \<notin> set ps"
    and s2_def: "s2 = (snd (kalloc s))\<lparr>ram := st64 (entry_addr q i) w (fill_page p 0 (ram (snd (kalloc s))))\<rparr>"
    and i: "i < 512"
  shows "fst (kalloc s) = p" "kmem_ok s2 ps" "kend s2 = kend s" "agree (- (page p \<union> page q)) (ram s2) (ram s)"
    "ld64 (ram s2) (entry_addr q i) = w" "\<And>j. \<lbrakk>j < 512; j \<noteq> i\<rbrakk> \<Longrightarrow> ld64 (ram s2) (entry_addr q j) = ld64 (ram s) (entry_addr q j)"
    "\<And>x. x \<in> page p \<Longrightarrow> ram s2 x = 0"
proof -
  obtain s1 where 1: "kalloc s = (p, s1)" "kmem_ok s1 ps" "kend s1 = kend s" "agree (- page p) (ram s1) (ram s)"
    using kalloc_spec [OF assms(1)] by auto
  have al: "aligned q" using assms(3) by (simp add: good_page_def)
  have gp: "good_page s p" "\<forall>x \<in> set ps. good_page s x" "p \<notin> set ps" using assms(1) by (simp_all add: kmem_ok_def)
  have pq: "page q \<inter> page p = {}" using disjoint_pages [OF assms(3) gp(1) assms(2)] .
  have s2: "s2 = s1\<lparr>ram := st64 (entry_addr q i) w (fill_page p 0 (ram s1))\<rparr>" by (simp add: s2_def 1)
  let ?e = "{uint (entry_addr q i) ..< uint (entry_addr q i) + 8}"
  have eq: "?e \<subseteq> page q" by (rule entry_in_page [OF al i])
  have out: "agree (- (page p \<union> page q)) (ram s2) (ram s1)"
    unfolding s2 using eq by (auto intro!: agree_trans [OF agree_st64 agree_fill])
  show "fst (kalloc s) = p" "kend s2 = kend s" using 1 by (simp_all add: s2)
  have out1: "agree (- (page p \<union> page q)) (ram s1) (ram s)" by (rule agree_subset [OF 1(4)]) auto
  show "agree (- (page p \<union> page q)) (ram s2) (ram s)" by (rule agree_trans [OF out out1])
  have "agree (page x) (ram s2) (ram s1)" if "x \<in> set ps" for x
  proof (rule agree_subset [OF out])
    have "x \<noteq> p" "x \<noteq> q" using that gp assms(4) by auto
    then show "page x \<subseteq> - (page p \<union> page q)"
      using disjoint_pages [of s x s p] disjoint_pages [of s x s q] gp that assms(3) by auto
  qed
  then show "kmem_ok s2 ps"
    using 1(2) free_list_agree [of ps "ram s2" "ram s1"] by (simp add: kmem_ok_def s2 good_page_def)
  show "ld64 (ram s2) (entry_addr q i) = w" by (simp add: s2)
  show "ld64 (ram s2) (entry_addr q j) = ld64 (ram s) (entry_addr q j)" if j: "j < 512" "j \<noteq> i" for j
  proof -
    have "ld64 (ram s2) (entry_addr q j) = ld64 (fill_page p 0 (ram s1)) (entry_addr q j)"
      unfolding s2 using entries_disjoint [OF al j(1) i j(2)] by (simp add: ld64_st64_other)
    also have "\<dots> = ld64 (ram s) (entry_addr q j)"
      using entry_in_page [OF al j(1)] pq
      by (intro ld64_agree agree_trans [OF agree_fill agree_subset [OF 1(4)]]) auto
    finally show ?thesis .
  qed
  show "ram s2 x = 0" if "x \<in> page p" for x
  proof -
    have "x \<notin> ?e" using that pq eq by auto
    then show ?thesis
      using that by (auto simp: s2 st64_def fill_page_def mem_write_def page_def)
  qed
qed

lemma tree_child:
  "\<lbrakk>table_tree (Suc l) m pt; i < 512; child m pt i = Some c\<rbrakk> \<Longrightarrow> table_tree l m c \<and> pt \<notin> table_pages l m c"
  by auto

lemma table_inD:
  assumes "table_in l s xs pt"
  shows "kmem_ok s xs" "table_tree l (ram s) pt" "aligned pt" "good_page s pt" "pt \<notin> set xs"
    "\<And>p. p \<in> table_pages l (ram s) pt \<Longrightarrow> good_page s p \<and> p \<notin> set xs"
    "distinct xs" "\<And>x. x \<in> set xs \<Longrightarrow> good_page s x"
  using assms table_tree_aligned root_in_table [of pt l "ram s"] unfolding table_in_def kmem_ok_def by blast+

text \<open>A table with one child replaced by a table that has taken pages off the free list.\<close>

lemma regrow:
  assumes t: "table_in (Suc l) s xs pt" and i: "i < 512"
    and s': "kend s' = kend s" "table_in l s' ys c" "child (ram s') pt i = Some c"
    and cj: "\<And>j. \<lbrakk>j < 512; j \<noteq> i\<rbrakk> \<Longrightarrow> child (ram s') pt j = child (ram s) pt j"
    and C: "table_pages l (ram s') c =
      (case child (ram s) pt i of Some c' \<Rightarrow> table_pages l (ram s) c' | None \<Rightarrow> {}) \<union> set zs"
    and xs: "set ys \<subseteq> set xs" "set zs \<subseteq> set xs"
    and ag: "\<And>q. \<lbrakk>good_page s q; q \<notin> table_pages l (ram s') c; q \<noteq> pt\<rbrakk> \<Longrightarrow> agree (page q) (ram s) (ram s')"
  shows "table_in (Suc l) s' ys pt"
    "table_pages (Suc l) (ram s') pt = table_pages (Suc l) (ram s) pt \<union> set zs"
    "entry (Suc l) (ram s') pt va = (if PX (Suc l) va = i then entry l (ram s') c va else entry (Suc l) (ram s) pt va)"
    "PX (Suc l) va = i \<Longrightarrow> find_pte (Suc l) (ram s') pt va = find_pte l (ram s') c va"
proof -
  note d = table_inD [OF t]
  note split = table_pages_split [OF i, of l "ram s" pt]
  have root: "pt \<notin> table_pages l (ram s') c"
    using tree_child [OF d(2) i] d(5) xs(2) by (auto simp: C split: option.split)
  have o: "q \<notin> table_pages l (ram s') c \<and> good_page s q \<and> q \<noteq> pt \<and> q \<notin> set xs"
    if "q \<in> other_pages l (ram s) pt i" for q
  proof -
    have q: "q \<in> table_pages (Suc l) (ram s) pt" unfolding split using that by simp
    then have "q \<notin> set xs" "good_page s q" using d(6) by blast+
    moreover have "q \<notin> table_pages l (ram s') c"
      using other_pages_child [OF d(2) i] that xs(2) \<open>q \<notin> set xs\<close> by (auto simp: C split: option.split)
    ultimately show ?thesis using other_pages_root [OF d(2)] that by blast
  qed
  have disj: "table_pages l (ram s') c \<inter> other_pages l (ram s) pt i = {}" using o by auto
  have tc: "table_tree l (ram s') c" using s'(2) by (simp add: table_in_def)
  have ago: "agree (page q) (ram s) (ram s')" if "q \<in> other_pages l (ram s) pt i" for q
    using ag o [OF that] by blast
  note g = graft [OF d(2) i s'(3) cj tc root disj ago]
  have pages: "table_pages (Suc l) (ram s') pt = {pt} \<union> table_pages l (ram s') c \<union> other_pages l (ram s) pt i"
    by (rule g(2))
  have "good_page s' q \<and> q \<notin> set ys" if "q \<in> table_pages (Suc l) (ram s') pt" for q
    using that d(4,5) o xs(1) table_inD(6) [OF s'(2), of q] good_page_kend [OF s'(1)] unfolding pages by blast
  then show "table_in (Suc l) s' ys pt"
    using g(1) s'(2) by (simp add: table_in_def)
  show "table_pages (Suc l) (ram s') pt = table_pages (Suc l) (ram s) pt \<union> set zs"
    unfolding pages split C by blast
  show "entry (Suc l) (ram s') pt va = (if PX (Suc l) va = i then entry l (ram s') c va else entry (Suc l) (ram s) pt va)"
    by (rule g(3))
  show "PX (Suc l) va = i \<Longrightarrow> find_pte (Suc l) (ram s') pt va = find_pte l (ram s') c va"
    using g(4) [of va] by simp
qed

text \<open>
  \<open>walk\<close> with allocation takes pages off the free list and hangs them into the table, which changes no
  entry; it fails only when there is no page left.
\<close>

definition walked :: "nat \<Rightarrow> kmem \<Rightarrow> u64 list \<Rightarrow> u64 \<Rightarrow> u64 \<Rightarrow> kmem \<Rightarrow> nat \<Rightarrow> bool" where
  "walked l s xs pt va s' n \<longleftrightarrow> walk_level l pt va True s = (find_pte l (ram s') pt va, s') \<and>
    table_in l s' (drop n xs) pt \<and> n \<le> length xs \<and> n \<le> l \<and> kend s' = kend s \<and>
    table_pages l (ram s') pt = table_pages l (ram s) pt \<union> set (take n xs) \<and>
    (\<forall>va'. entry l (ram s') pt va' = entry l (ram s) pt va') \<and>
    agree (- (\<Union>p \<in> table_pages l (ram s) pt \<union> set (take n xs). page p)) (ram s') (ram s) \<and>
    (find_pte l (ram s') pt va = 0 \<longrightarrow> drop n xs = [])"

lemma walked_child:
  assumes t: "table_in (Suc l) s xs pt" and c: "child (ram s) pt (PX (Suc l) va) = Some c"
    and w: "walked l s xs c va s' n"
  shows "walked (Suc l) s xs pt va s' n"
proof -
  let ?i = "PX (Suc l) va" and ?U = "table_pages l (ram s) c \<union> set (take n xs)"
  note d = table_inD [OF t]
  have valid: "is_valid (ld64 (ram s) (entry_addr pt ?i))" "PTE2PA (ld64 (ram s) (entry_addr pt ?i)) = c"
    using c by (auto simp: child_def Let_def split: if_splits)
  have 1: "walk_level l c va True s = (find_pte l (ram s') c va, s')" "table_in l s' (drop n xs) c"
    "n \<le> length xs" "n \<le> l" "kend s' = kend s" "table_pages l (ram s') c = ?U"
    "\<forall>va'. entry l (ram s') c va' = entry l (ram s) c va'"
    "agree (- (\<Union>p \<in> ?U. page p)) (ram s') (ram s)" "find_pte l (ram s') c va = 0 \<longrightarrow> drop n xs = []"
    using w by (simp_all add: walked_def)
  have sub: "table_pages l (ram s) c \<subseteq> table_pages (Suc l) (ram s) pt" by (rule child_pages [OF _ c]) simp
  have U: "good_page s p" if "p \<in> ?U" for p using that d(6,8) sub by (auto dest: in_set_takeD)
  have agp: "agree (page q) (ram s) (ram s')" if "good_page s q" "q \<notin> ?U" for q
    using that disjoint_pages [OF that(1) U] by (intro agree_page_outside [OF 1(8)]) auto
  have "pt \<notin> ?U" using tree_child [OF d(2) _ c] d(5) by (auto dest: in_set_takeD)
  then have ch: "child (ram s') pt j = child (ram s) pt j" if "j < 512" for j
    using child_agree [OF d(3) that agp [OF d(4)]] by simp
  have g: "table_in (Suc l) s' (drop n xs) pt"
    "table_pages (Suc l) (ram s') pt = table_pages (Suc l) (ram s) pt \<union> set (take n xs)"
    "entry (Suc l) (ram s') pt va' = (if PX (Suc l) va' = ?i then entry l (ram s') c va' else entry (Suc l) (ram s) pt va')"
    "PX (Suc l) va' = ?i \<Longrightarrow> find_pte (Suc l) (ram s') pt va' = find_pte l (ram s') c va'" for va'
    using regrow [OF t _ 1(5,2) _ ch, where i = ?i and zs = "take n xs"] ch c 1(6) agp
    by (simp_all add: set_take_subset set_drop_subset)
  have "agree (- (\<Union>p \<in> table_pages (Suc l) (ram s) pt \<union> set (take n xs). page p)) (ram s') (ram s)"
    using sub by (intro agree_subset [OF 1(8)]) auto
  moreover have "entry (Suc l) (ram s') pt va' = entry (Suc l) (ram s) pt va'" for va'
    unfolding g(3) using 1(7) c by (simp add: entry_Suc)
  ultimately show ?thesis
    using 1(1,3,4,5,9) valid g(1,2) g(4) [of va] by (simp add: walked_def Let_def)
qed

lemma walked_new:
  assumes t: "table_in (Suc l) s (p # ps) pt" and c: "child (ram s) pt (PX (Suc l) va) = None"
    and s2_def: "s2 = (snd (kalloc s))\<lparr>ram := st64 (entry_addr pt (PX (Suc l) va)) (or (PA2PTE p) PTE_V)
      (fill_page p 0 (ram (snd (kalloc s))))\<rparr>"
    and w: "walked l s2 ps p va s' n"
  shows "walked (Suc l) s (p # ps) pt va s' (Suc n)"
proof -
  let ?i = "PX (Suc l) va" and ?U = "{p} \<union> set (take n ps)"
  note d = table_inD [OF t]
  have p: "good_page s p" "p \<noteq> pt" "aligned p" "p \<noteq> 0" "pt \<notin> set ps"
    using d(5,8) by (auto simp: good_page_def)
  note take = kalloc_take [OF d(1) p(2) [symmetric] d(4) p(5) s2_def PX_less]
  have z: "table_pages l (ram s2) p = {p}" "entry l (ram s2) p va' = 0" for va'
    using zero_table [OF p(3) take(7)] by simp_all
  have 1: "walk_level l p va True s2 = (find_pte l (ram s') p va, s')" "table_in l s' (drop n ps) p"
    "n \<le> length ps" "n \<le> l" "kend s' = kend s" "table_pages l (ram s') p = ?U" "\<forall>va'. entry l (ram s') p va' = 0"
    "agree (- (\<Union>p \<in> ?U. page p)) (ram s') (ram s2)" "find_pte l (ram s') p va = 0 \<longrightarrow> drop n ps = []"
    using w z take(3) by (simp_all add: walked_def)
  have U: "good_page s q" "q \<in> set (p # ps)" if "q \<in> ?U" for q using that d(8) by (auto dest: in_set_takeD)
  have ag2: "agree (page q) (ram s2) (ram s')" if "good_page s q" "q \<notin> ?U" for q
    using that disjoint_pages [OF that(1) U(1)] by (intro agree_page_outside [OF 1(8)]) auto
  have ag: "agree (page q) (ram s) (ram s')" if "good_page s q" "q \<notin> ?U" "q \<noteq> pt" for q
  proof (rule agree_trans [OF _ ag2 [OF that(1,2)]])
    show "agree (page q) (ram s) (ram s2)"
      using disjoint_pages [OF that(1) p(1)] disjoint_pages [OF that(1) d(4)] that
      by (intro agree_sym [OF agree_subset [OF take(4)]]) auto
  qed
  have "pt \<notin> ?U" using d(5) U(2) by auto
  then have slots: "ld64 (ram s') (entry_addr pt j) = ld64 (ram s2) (entry_addr pt j)" if "j < 512" for j
    using ld64_agree [OF agree_subset [OF ag2 [OF d(4)] entry_in_page [OF d(3) that]]] by simp
  have ci: "child (ram s') pt ?i = Some p"
    using slots [of ?i] take(5) PTE2PA_node [OF p(3)] by (simp add: child_def Let_def)
  have cj: "child (ram s') pt j = child (ram s) pt j" if "j < 512" "j \<noteq> ?i" for j
    using slots [OF that(1)] take(6) [OF that] by (simp add: child_def)
  have g: "table_in (Suc l) s' (drop n ps) pt"
    "table_pages (Suc l) (ram s') pt = table_pages (Suc l) (ram s) pt \<union> set (p # take n ps)"
    "entry (Suc l) (ram s') pt va' = (if PX (Suc l) va' = ?i then entry l (ram s') p va' else entry (Suc l) (ram s) pt va')"
    "PX (Suc l) va' = ?i \<Longrightarrow> find_pte (Suc l) (ram s') pt va' = find_pte l (ram s') p va'" for va'
    using regrow [OF t _ 1(5,2) ci cj, where zs = "p # take n ps"] c 1(6) ag
    by (simp_all add: set_take_subset set_drop_subset subset_insertI2)
  obtain s1 where "kalloc s = (p, s1)" using take(1) by (cases "kalloc s") simp
  moreover have "\<not> is_valid (ld64 (ram s) (entry_addr pt ?i))" using c by (simp add: child_def Let_def split: if_splits)
  ultimately have run: "walk_level (Suc l) pt va True s = walk_level l p va True s2"
    using p(4) by (subst walk_level.simps) (simp add: Let_def s2_def)
  have "agree (- (\<Union>p \<in> table_pages (Suc l) (ram s) pt \<union> set (take (Suc n) (p # ps)). page p)) (ram s') (ram s)"
    by (intro agree_trans [OF agree_subset [OF 1(8)] agree_subset [OF take(4)]]) auto
  moreover have "entry (Suc l) (ram s') pt va' = entry (Suc l) (ram s) pt va'" for va'
    unfolding g(3) using 1(7) c by (simp add: entry_Suc)
  ultimately show ?thesis
    using 1(1,3,4,5,9) g(1,2) g(4) [of va] run by (simp add: walked_def)
qed

lemma walk_alloc: "table_in l s xs pt \<Longrightarrow> \<exists>s' n. walked l s xs pt va s' n"
proof (induction l arbitrary: pt s xs)
  case 0
  then have "aligned pt" "pt \<noteq> 0" by (auto simp: table_in_def good_page_def)
  then have "uint pt \<noteq> 0" by (simp add: word_uint_eq_iff)
  then have "0 < uint pt" using uint_ge_0 [of pt] by linarith
  then have "0 < uint (entry_addr pt (PX 0 va))"
    using uint_entry_addr [OF \<open>aligned pt\<close>, of "PX 0 va"] uint_ge_0 [of pt] by simp
  then have "entry_addr pt (PX 0 va) \<noteq> 0" by force
  then show ?case using 0 by (intro exI [of _ s] exI [of _ 0]) (simp add: walked_def)
next
  case (Suc l)
  note d = table_inD [OF Suc.prems]
  show ?case
  proof (cases "child (ram s) pt (PX (Suc l) va)")
    case (Some c)
    have "table_in l s xs c"
      using tree_child [OF d(2) _ Some] child_pages [OF _ Some, of l] d(1,6) by (auto simp: table_in_def)
    then show ?thesis using Suc.IH walked_child [OF Suc.prems Some] by blast
  next
    case None
    show ?thesis
    proof (cases xs)
      case Nil
      then have "kalloc s = (0, s)" using kalloc_spec [OF d(1)] by simp
      moreover have "\<not> is_valid (ld64 (ram s) (entry_addr pt (PX (Suc l) va)))"
        using None by (simp add: child_def Let_def split: if_splits)
      ultimately show ?thesis
        using Suc.prems Nil None by (intro exI [of _ s] exI [of _ 0]) (simp add: walked_def Let_def)
    next
      case (Cons p ps)
      define s2 where "s2 = (snd (kalloc s))\<lparr>ram := st64 (entry_addr pt (PX (Suc l) va)) (or (PA2PTE p) PTE_V)
        (fill_page p 0 (ram (snd (kalloc s))))\<rparr>"
      have p: "good_page s p" "p \<noteq> pt" "aligned p" "pt \<notin> set ps" "p \<notin> set ps"
        using d(5,7,8) Cons by (auto simp: good_page_def)
      note take = kalloc_take [OF d(1) [unfolded Cons] p(2) [symmetric] d(4) p(4) s2_def PX_less]
      have "table_in l s2 ps p"
        using take(2) zero_table [OF p(3) take(7)] p good_page_kend [OF take(3)] by (simp add: table_in_def)
      then show ?thesis
        using Suc.IH walked_new [OF Suc.prems [unfolded Cons] None s2_def] Cons by blast
    qed
  qed
qed

section \<open>Writing an entry\<close>

lemma find_pte_place:
  "\<lbrakk>table_tree l m pt; find_pte l m pt va \<noteq> 0\<rbrakk> \<Longrightarrow>
    \<exists>q \<in> table_pages l m pt. {uint (find_pte l m pt va) ..< uint (find_pte l m pt va) + 8} \<subseteq> page q"
proof (induction l arbitrary: pt)
  case 0
  then show ?case using entry_in_page [of pt "PX 0 va"] by simp
next
  case (Suc l)
  then obtain c where c: "child m pt (PX (Suc l) va) = Some c" by (auto split: option.splits)
  then show ?case
    using Suc.IH [of c] Suc.prems tree_child [OF Suc.prems(1) PX_less c] child_pages [OF PX_less c, of l] by auto
qed

lemma table_pages_aligned: "\<lbrakk>table_tree l m pt; p \<in> table_pages l m pt\<rbrakk> \<Longrightarrow> aligned p"
proof (induction l arbitrary: pt)
  case (Suc l)
  show ?case
  proof (cases "p = pt")
    case False
    then obtain i c where "i < 512" "child m pt i = Some c" "p \<in> table_pages l m c"
      using Suc.prems(2) by (auto simp: table_pages.simps(2) split: option.splits)
    then show ?thesis using Suc.IH tree_child [OF Suc.prems(1)] by blast
  qed (use Suc.prems(1) in simp)
qed simp

lemma leaf_write:
  fixes w :: u64
  assumes "table_tree l m pt" "\<And>p. p \<in> table_pages l m pt \<Longrightarrow> p \<noteq> 0" "find_pte l m pt va \<noteq> 0"
  defines "m' \<equiv> st64 (find_pte l m pt va) w m"
  shows "table_pages l m' pt = table_pages l m pt \<and> table_tree l m' pt \<and> find_pte l m' pt va' = find_pte l m pt va' \<and>
    entry l m' pt va' = (if \<forall>k \<le> l. PX k va' = PX k va then w else entry l m pt va')"
  using assms(1-3) unfolding m'_def
proof (induction l arbitrary: pt)
  case 0
  then have al: "aligned pt" and "uint pt \<noteq> 0" by (simp_all add: word_uint_eq_iff)
  then have "0 < uint pt" using uint_ge_0 [of pt] by linarith
  then have "entry_addr pt i \<noteq> 0" if "i < 512" for i
    using uint_entry_addr [OF al that] by (auto simp: word_uint_eq_iff)
  then show ?case
    using 0 al ld64_st64_other [OF entries_disjoint [OF al, of "PX 0 va'" "PX 0 va"]]
    by (auto simp: entry_def Let_def)
next
  case (Suc l)
  let ?i = "PX (Suc l) va" and ?m = "st64 (find_pte (Suc l) m pt va) w m"
  obtain c where c: "child m pt ?i = Some c" using Suc.prems(3) by (auto split: option.splits)
  have a: "find_pte (Suc l) m pt va = find_pte l m c va" using c by simp
  note tc = tree_child [OF Suc.prems(1) PX_less c]
  have sub: "table_pages l m c \<subseteq> table_pages (Suc l) m pt" by (rule child_pages [OF PX_less c])
  have IH: "table_pages l ?m c = table_pages l m c \<and> table_tree l ?m c \<and> find_pte l ?m c va' = find_pte l m c va' \<and>
      entry l ?m c va' = (if \<forall>k \<le> l. PX k va' = PX k va then w else entry l m c va')"
    unfolding a
  proof (rule Suc.IH)
    show "p \<noteq> 0" if "p \<in> table_pages l m c" for p using that Suc.prems(2) sub by blast
  qed (use tc Suc.prems(3) a in simp_all)
  obtain q where q: "q \<in> table_pages l m c" "{uint (find_pte l m c va) ..< uint (find_pte l m c va) + 8} \<subseteq> page q"
    using find_pte_place [of l m c va] tc Suc.prems(3) a by auto
  have ag: "agree (page p) m ?m" if "p \<in> table_pages (Suc l) m pt" "p \<notin> table_pages l m c" for p
  proof (rule agree_sym)
    have "page p \<inter> page q = {}"
      using aligned_pages_disjoint [of p q] table_pages_aligned [OF Suc.prems(1)] that q(1) sub by blast
    then show "agree (page p) ?m m" unfolding a using q(2) by (intro agree_st64) auto
  qed
  have ch: "child ?m pt j = child m pt j" if "j < 512" for j
    using child_agree [OF _ that ag] tc Suc.prems(1) by simp
  have o: "agree (page p) m ?m" if "p \<in> other_pages l m pt ?i" for p
    using that other_pages_child [OF Suc.prems(1) PX_less c] table_pages_split [of ?i l m pt] by (intro ag) auto
  note g = graft [OF Suc.prems(1) PX_less, where m' = ?m and c = c]
  have "table_pages l ?m c \<inter> other_pages l m pt ?i = {}" "pt \<notin> table_pages l ?m c"
    using IH other_pages_child [OF Suc.prems(1) PX_less c] tc by simp_all
  note g = g [OF _ ch _ this(2,1) o, unfolded ch [OF PX_less]]
  have "table_pages (Suc l) ?m pt = table_pages (Suc l) m pt"
    using g(2) [OF c] IH table_pages_split [of ?i l m pt] c by simp
  moreover have "table_tree (Suc l) ?m pt" using g(1) [OF c] IH by simp
  moreover have "find_pte (Suc l) ?m pt va' = find_pte (Suc l) m pt va'"
    using g(4) [OF c, of va'] IH c by simp
  moreover have "entry (Suc l) ?m pt va' = (if \<forall>k \<le> Suc l. PX k va' = PX k va then w else entry (Suc l) m pt va')"
    using g(3) [OF c, of va'] IH c by (auto simp: le_Suc_eq entry_Suc)
  ultimately show ?case by blast
qed

section \<open>Pages of addresses\<close>

lemma PX_eq: "PX k va = unat (take_bit 9 (drop_bit (12 + 9 * k) va))"
  by (simp add: PX_def take_bit_eq_mask mask_eq_exp_minus_1)

lemma PX_PGROUNDDOWN: "PX k (PGROUNDDOWN va) = PX k va"
proof -
  have "drop_bit 12 (PGROUNDDOWN va) = drop_bit 12 va"
    by (rule bit_word_eqI) (auto simp: PGROUNDDOWN_eq bit_simps dest: bit_imp_le_length)
  then have "drop_bit (9 * k) (drop_bit 12 (PGROUNDDOWN va)) = drop_bit (9 * k) (drop_bit 12 va)" by simp
  then have "drop_bit (12 + 9 * k) (PGROUNDDOWN va) = drop_bit (12 + 9 * k) va"
    by (simp add: drop_bit_drop_bit add.commute)
  then show ?thesis by (simp add: PX_eq)
qed

lemma small_bit: "va < MAXVA \<Longrightarrow> 38 \<le> n \<Longrightarrow> \<not> bit va n"
proof
  assume a: "va < MAXVA" "38 \<le> n" "bit va n"
  then have "uint va < 2 ^ 38" by (simp add: MAXVA_def word_less_def)
  then have "take_bit 38 (uint va) = uint va" by (simp add: take_bit_int_eq_self_iff)
  then have "\<not> bit (uint va) n" using a(2) by (metis bit_take_bit_iff not_less)
  then show False using a(3) bit_imp_le_length [OF a(3)] by (simp add: bit_uint_iff)
qed

lemma same_page_iff:
  assumes "va < MAXVA" "va' < MAXVA"
  shows "(\<forall>k \<le> 2. PX k va' = PX k va) \<longleftrightarrow> PGROUNDDOWN va' = PGROUNDDOWN va"
proof
  assume px: "\<forall>k \<le> 2. PX k va' = PX k va"
  show "PGROUNDDOWN va' = PGROUNDDOWN va"
  proof (rule bit_word_eqI)
    fix n assume "n < LENGTH(64)"
    consider "n < 12" | "38 \<le> n" | "12 \<le> n" "n < 39" by linarith
    then show "bit (PGROUNDDOWN va') n = bit (PGROUNDDOWN va) n"
    proof cases
      case 3
      define k where "k = (n - 12) div 9"
      have k: "k \<le> 2" "n = 12 + 9 * k + (n - 12) mod 9" using 3 by (simp_all add: k_def)
      have "take_bit 9 (drop_bit (12 + 9 * k) va') = take_bit 9 (drop_bit (12 + 9 * k) va)"
        using px k(1) by (simp add: PX_eq word_unat_eq_iff)
      then have "bit (drop_bit (12 + 9 * k) va') ((n - 12) mod 9) = bit (drop_bit (12 + 9 * k) va) ((n - 12) mod 9)"
        by (metis bit_take_bit_iff mod_less_divisor zero_less_numeral)
      then have "bit va' n = bit va n" using k(2) by (simp add: bit_drop_bit_eq)
      then show ?thesis using 3 by (simp add: PGROUNDDOWN_eq bit_simps)
    qed (use small_bit [OF assms(1)] small_bit [OF assms(2)] in \<open>auto simp: PGROUNDDOWN_eq bit_simps\<close>)
  qed
next
  assume "PGROUNDDOWN va' = PGROUNDDOWN va"
  then show "\<forall>k \<le> 2. PX k va' = PX k va" by (metis PX_PGROUNDDOWN)
qed

section \<open>Mapping a range\<close>

definition leaf_pte :: "u64 \<Rightarrow> int \<Rightarrow> u64" where
  "leaf_pte pa perm = or (or (PA2PTE pa) (word_of_int perm)) PTE_V"

text \<open>A table that has taken the first \<open>k\<close> free pages.\<close>

definition grown :: "kmem \<Rightarrow> u64 list \<Rightarrow> u64 \<Rightarrow> kmem \<Rightarrow> nat \<Rightarrow> bool" where
  "grown s xs pt s' k \<longleftrightarrow> table_in 2 s' (drop k xs) pt \<and> k \<le> length xs \<and> kend s' = kend s \<and>
    table_pages 2 (ram s') pt = table_pages 2 (ram s) pt \<union> set (take k xs) \<and>
    agree (- (\<Union>p \<in> table_pages 2 (ram s) pt \<union> set (take k xs). page p)) (ram s') (ram s)"

lemma grown_trans:
  assumes "grown s xs pt s1 k" "grown s1 (drop k xs) pt s2 j"
  shows "grown s xs pt s2 (k + j)"
proof -
  let ?U = "table_pages 2 (ram s) pt \<union> set (take (k + j) xs)"
  have 1: "table_pages 2 (ram s1) pt = table_pages 2 (ram s) pt \<union> set (take k xs)"
    "agree (- (\<Union>p \<in> table_pages 2 (ram s) pt \<union> set (take k xs). page p)) (ram s1) (ram s)"
    "table_pages 2 (ram s2) pt = table_pages 2 (ram s1) pt \<union> set (take j (drop k xs))"
    "agree (- (\<Union>p \<in> table_pages 2 (ram s1) pt \<union> set (take j (drop k xs)). page p)) (ram s2) (ram s1)"
    "k \<le> length xs" "j \<le> length (drop k xs)"
    using assms by (simp_all add: grown_def)
  have U: "?U = table_pages 2 (ram s) pt \<union> set (take k xs) \<union> set (take j (drop k xs))"
    by (simp add: take_add Un_assoc)
  have "agree (- (\<Union>p \<in> ?U. page p)) (ram s2) (ram s1)"
    using 1(4) unfolding U 1(1) .
  moreover have "agree (- (\<Union>p \<in> ?U. page p)) (ram s1) (ram s)"
    unfolding U by (rule agree_subset [OF 1(2)]) blast
  ultimately have "agree (- (\<Union>p \<in> ?U. page p)) (ram s2) (ram s)" by (rule agree_trans)
  moreover have "table_pages 2 (ram s2) pt = ?U" unfolding U 1(3) 1(1) ..
  moreover have "k + j \<le> length xs" using 1(5,6) by simp
  moreover have "table_in 2 s2 (drop (k + j) xs) pt" "kend s2 = kend s"
    using assms by (simp_all add: grown_def add.commute)
  ultimately show ?thesis unfolding grown_def by blast
qed

lemma grown_walk:
  assumes "table_in 2 s xs pt" "va < MAXVA"
  shows "\<exists>s' k. walk pt va True s = Some (find_pte 2 (ram s') pt va, s') \<and> grown s xs pt s' k \<and>
    (\<forall>va'. entry 2 (ram s') pt va' = entry 2 (ram s) pt va') \<and>
    (find_pte 2 (ram s') pt va = 0 \<longrightarrow> drop k xs = []) \<and> k \<le> 2"
proof -
  obtain s' k where w: "walked 2 s xs pt va s' k" using walk_alloc [OF assms(1)] by blast
  moreover have "walk pt va True s = Some (find_pte 2 (ram s') pt va, s')"
    using w assms(2) by (simp add: walk_def walked_def not_le [symmetric])
  ultimately show ?thesis unfolding walked_def grown_def by blast
qed

lemma grown_leaf:
  assumes t: "table_in 2 s xs pt" and nz: "find_pte 2 (ram s) pt va \<noteq> 0" and va: "va < MAXVA"
    and s': "s' = s\<lparr>ram := st64 (find_pte 2 (ram s) pt va) w (ram s)\<rparr>"
  shows "grown s xs pt s' 0"
    "va' < MAXVA \<Longrightarrow> entry 2 (ram s') pt va' = (if PGROUNDDOWN va' = PGROUNDDOWN va then w else entry 2 (ram s) pt va')"
proof -
  note d = table_inD [OF t]
  have nzp: "p \<noteq> 0" if "p \<in> table_pages 2 (ram s) pt" for p using d(6) [OF that] by (simp add: good_page_def)
  have lw: "table_pages 2 (ram s') pt = table_pages 2 (ram s) pt" "table_tree 2 (ram s') pt"
    "entry 2 (ram s') pt va' = (if \<forall>k \<le> 2. PX k va' = PX k va then w else entry 2 (ram s) pt va')" for va'
    using leaf_write [OF d(2) nzp nz, of w va'] by (simp_all add: s')
  obtain q where q: "q \<in> table_pages 2 (ram s) pt"
    "{uint (find_pte 2 (ram s) pt va) ..< uint (find_pte 2 (ram s) pt va) + 8} \<subseteq> page q"
    using find_pte_place [OF d(2) nz] by auto
  have ag: "agree (- (\<Union>p \<in> table_pages 2 (ram s) pt. page p)) (ram s') (ram s)"
    unfolding s' using q by (simp, intro agree_st64) blast
  have "agree (page x) (ram s') (ram s)" if "x \<in> set xs" for x
  proof -
    have "good_page s x" "good_page s q" "x \<noteq> q" using d(6) [OF q(1)] d(8) that by auto
    then have "page x \<inter> page q = {}" by (rule disjoint_pages)
    then show ?thesis unfolding s' using q(2) by (simp, intro agree_st64) blast
  qed
  then have "kmem_ok s' xs"
    using d(1) free_list_agree [of xs "ram s'" "ram s"] by (simp add: kmem_ok_def s' good_page_def)
  then have "table_in 2 s' xs pt" using lw(1,2) d(6) by (simp add: table_in_def s' good_page_def)
  then show "grown s xs pt s' 0" using lw(1) ag by (simp add: grown_def s')
  show "va' < MAXVA \<Longrightarrow> entry 2 (ram s') pt va' = (if PGROUNDDOWN va' = PGROUNDDOWN va then w else entry 2 (ram s) pt va')"
    using lw(3) same_page_iff [OF va] by simp
qed

lemma aligned_PGROUNDDOWN_id: "aligned p \<Longrightarrow> PGROUNDDOWN p = p"
  by (simp add: word_uint_eq_iff uint_PGROUNDDOWN aligned_uint mod_0_imp_dvd)

lemma next_page:
  assumes "aligned a" "uint a + 4096 < 2 ^ 64"
  shows "aligned (a + PGSIZE)" "uint (a + PGSIZE) = uint a + 4096"
    "a \<le> PGROUNDDOWN va \<longleftrightarrow> PGROUNDDOWN va = a \<or> a + PGSIZE \<le> PGROUNDDOWN va"
proof -
  show u: "uint (a + PGSIZE) = uint a + 4096" using assms(2) by (subst uint_plus_small) (simp_all add: PGSIZE_def)
  then show "aligned (a + PGSIZE)" using assms(1) by (simp add: aligned_uint)
  obtain j where "uint a = 4096 * j" using assms(1) by (auto simp: aligned_uint elim: dvdE)
  moreover obtain k where "uint (PGROUNDDOWN va) = 4096 * k" by (auto simp: uint_PGROUNDDOWN)
  ultimately show "a \<le> PGROUNDDOWN va \<longleftrightarrow> PGROUNDDOWN va = a \<or> a + PGSIZE \<le> PGROUNDDOWN va"
    using u by (auto simp: word_le_def word_uint_eq_iff)
qed

text \<open>One turn of the loop of \<open>mappages\<close>: out of memory, or the entry is set.\<close>

lemma mappages_turn:
  assumes t: "table_in 2 s xs pt" and a: "aligned a" "a < MAXVA" and inv: "\<not> is_valid (entry 2 (ram s) pt a)"
  shows "(\<exists>s1 k. mappages_loop pt a la pa perm s = Some (-1, s1) \<and> grown s xs pt s1 k \<and> k \<le> 2 \<and> drop k xs = []) \<or>
    (\<exists>s2 k. mappages_loop pt a la pa perm s =
        (if a = la then Some (0, s2) else mappages_loop pt (a + PGSIZE) la (pa + PGSIZE) perm s2) \<and>
      grown s xs pt s2 k \<and> k \<le> 2 \<and>
      (\<forall>va < MAXVA. entry 2 (ram s2) pt va = (if PGROUNDDOWN va = a then leaf_pte pa perm else entry 2 (ram s) pt va)))"
proof -
  obtain s1 k where 1: "walk pt a True s = Some (find_pte 2 (ram s1) pt a, s1)" "grown s xs pt s1 k"
    "\<And>va'. entry 2 (ram s1) pt va' = entry 2 (ram s) pt va'" "find_pte 2 (ram s1) pt a = 0 \<longrightarrow> drop k xs = []" "k \<le> 2"
    using grown_walk [OF t a(2)] by blast
  show ?thesis
  proof (cases "find_pte 2 (ram s1) pt a = 0")
    case True
    then have "mappages_loop pt a la pa perm s = Some (-1, s1)"
      using 1(1) by (subst mappages_loop.simps) simp
    then show ?thesis using 1(2,4,5) True by blast
  next
    case False
    define s2 where "s2 = s1\<lparr>ram := st64 (find_pte 2 (ram s1) pt a) (leaf_pte pa perm) (ram s1)\<rparr>"
    have inv1: "\<not> is_valid (ld64 (ram s1) (find_pte 2 (ram s1) pt a))"
      using 1(3) [of a] False inv by (simp add: entry_def Let_def)
    have t1: "table_in 2 s1 (drop k xs) pt" using 1(2) by (simp add: grown_def)
    note l = grown_leaf [OF t1 False a(2) s2_def]
    have "mappages_loop pt a la pa perm s =
        (if a = la then Some (0, s2) else mappages_loop pt (a + PGSIZE) la (pa + PGSIZE) perm s2)"
      using 1(1) False inv1 by (subst mappages_loop.simps) (simp add: s2_def leaf_pte_def)
    moreover have "grown s xs pt s2 k" using grown_trans [OF 1(2) l(1)] by simp
    moreover have "\<forall>va < MAXVA. entry 2 (ram s2) pt va = (if PGROUNDDOWN va = a then leaf_pte pa perm else entry 2 (ram s) pt va)"
      using l(2) 1(3) aligned_PGROUNDDOWN_id [OF a(1)] by simp
    ultimately show ?thesis using 1(5) by blast
  qed
qed

lemma mappages_loop_spec:
  assumes "table_in 2 s xs pt" "aligned a" "uint la = uint a + 4096 * int n" "la < MAXVA"
    "\<And>va. \<lbrakk>va < MAXVA; a \<le> PGROUNDDOWN va; PGROUNDDOWN va \<le> la\<rbrakk> \<Longrightarrow> \<not> is_valid (entry 2 (ram s) pt va)"
  shows "\<exists>r s' k. mappages_loop pt a la pa perm s = Some (r, s') \<and> grown s xs pt s' k \<and> k \<le> 2 * Suc n \<and>
    (r = 0 \<and> (\<forall>va < MAXVA. entry 2 (ram s') pt va =
        (if a \<le> PGROUNDDOWN va \<and> PGROUNDDOWN va \<le> la then leaf_pte (pa + (PGROUNDDOWN va - a)) perm
         else entry 2 (ram s) pt va))
     \<or> r = -1 \<and> drop k xs = [])"
  using assms
proof (induction n arbitrary: a pa s xs)
  case (0 a pa s xs)
  have la: "la = a" using 0(3) by (simp add: word_uint_eq_iff)
  have r: "a \<le> PGROUNDDOWN va \<and> PGROUNDDOWN va \<le> la \<longleftrightarrow> PGROUNDDOWN va = a" for va using la by auto
  have "\<not> is_valid (entry 2 (ram s) pt a)" using 0(5) [of a] 0(4) la aligned_PGROUNDDOWN_id [OF 0(2)] by simp
  from mappages_turn [OF 0(1,2) _ this, of la pa perm] 0(4) la show ?case
    unfolding r by fastforce
next
  case (Suc n a pa s xs)
  have M: "uint MAXVA = 2 ^ 38" by (simp add: MAXVA_def)
  have lt: "uint a + 4096 + 4096 * int n < 2 ^ 38" using Suc.prems(3,4) M by (simp add: word_less_def)
  note nx = next_page [OF Suc.prems(2)]
  have a: "a < MAXVA" "a \<noteq> la" using lt M Suc.prems(3) by (auto simp: word_less_def)
  have la: "uint la = uint (a + PGSIZE) + 4096 * int n" "a \<le> la"
    using nx(2) lt Suc.prems(3) by (simp_all add: word_le_def)
  have inv: "\<not> is_valid (entry 2 (ram s) pt a)"
    using Suc.prems(5) [of a] a la(2) aligned_PGROUNDDOWN_id [OF Suc.prems(2)] by simp
  have rng: "a \<le> PGROUNDDOWN va \<longleftrightarrow> PGROUNDDOWN va = a \<or> a + PGSIZE \<le> PGROUNDDOWN va" for va
    using nx(3) lt by simp
  have step: "\<not> a + PGSIZE \<le> a" using nx(2) lt by (simp add: word_le_def)
  consider (full) s1 k where "mappages_loop pt a la pa perm s = Some (-1, s1)" "grown s xs pt s1 k" "drop k xs = []" "k \<le> 2"
    | (set) s2 k where "mappages_loop pt a la pa perm s = mappages_loop pt (a + PGSIZE) la (pa + PGSIZE) perm s2"
      "grown s xs pt s2 k" "k \<le> 2"
      "\<And>va. va < MAXVA \<Longrightarrow> entry 2 (ram s2) pt va = (if PGROUNDDOWN va = a then leaf_pte pa perm else entry 2 (ram s) pt va)"
    using mappages_turn [OF Suc.prems(1,2) a(1) inv, of la pa perm] a(2) by auto
  then show ?case
  proof cases
    case full
    then show ?thesis by auto
  next
    case set
    have t2: "table_in 2 s2 (drop k xs) pt" using set(2) by (simp add: grown_def)
    have free: "\<not> is_valid (entry 2 (ram s2) pt va)" if "va < MAXVA" "a + PGSIZE \<le> PGROUNDDOWN va" "PGROUNDDOWN va \<le> la" for va
      using that set(4) Suc.prems(5) [of va] rng step by auto
    obtain r s' j where 1: "mappages_loop pt (a + PGSIZE) la (pa + PGSIZE) perm s2 = Some (r, s')"
      "grown s2 (drop k xs) pt s' j" "j \<le> 2 * Suc n"
      "r = 0 \<and> (\<forall>va < MAXVA. entry 2 (ram s') pt va =
        (if a + PGSIZE \<le> PGROUNDDOWN va \<and> PGROUNDDOWN va \<le> la
         then leaf_pte (pa + PGSIZE + (PGROUNDDOWN va - (a + PGSIZE))) perm else entry 2 (ram s2) pt va))
       \<or> r = -1 \<and> drop j (drop k xs) = []"
      using Suc.IH [OF t2 _ la(1) Suc.prems(4) free, of "pa + PGSIZE"] nx(1) lt by auto
    have e: "pa + PGSIZE + (x - (a + PGSIZE)) = pa + (x - a)" for x by simp
    have "entry 2 (ram s') pt va =
        (if a \<le> PGROUNDDOWN va \<and> PGROUNDDOWN va \<le> la then leaf_pte (pa + (PGROUNDDOWN va - a)) perm
         else entry 2 (ram s) pt va)" if "r = 0" "va < MAXVA" for va
      using 1(4) that set(4) [OF that(2)] rng [of va] la(2) step unfolding e by auto
    then show ?thesis
      using set(1) 1(1,3,4) set(3) grown_trans [OF set(2) 1(2)] by (intro exI [of _ r] exI [of _ s'] exI [of _ "k + j"]) (auto simp: add.commute)
  qed
qed

end
