(* ===== verification/X_Vm_Trans.thy ===== *)
theory X_Vm_Trans
  imports X_Vm_Map
begin

section \<open>Translation\<close>

lemma has_flag_U: "has_flag e PTE_U \<longleftrightarrow> bit e 4"
  using and_exp_eq_0_iff_not_bit [of e 4] by (simp add: has_flag_def PTE_U_def)

lemma is_valid_bit: "is_valid e \<longleftrightarrow> bit e 0"
  by (simp add: is_valid_def PTE_V_def and_one_eq bit_0 odd_iff_mod_2_eq_one)

text \<open>What an entry translates to.\<close>

definition user_page :: "u64 \<Rightarrow> u64" where
  "user_page e = (if is_valid e \<and> bit e 4 then PTE2PA e else 0)"

lemma walkaddr_entry:
  assumes "va < MAXVA"
  shows "walkaddr pt va s = Some (user_page (entry 2 (ram s) pt va))"
  using assms by (auto simp: walkaddr_def walk_def walk_level_find entry_def Let_def has_flag_U not_le [symmetric] user_page_def)

lemma walkaddr_top: "MAXVA \<le> va \<Longrightarrow> walkaddr pt va s = Some 0"
  by (simp add: walkaddr_def)

lemma leaf_pte_facts:
  assumes "drop_bit 10 (word_of_int perm :: u64) = 0" "aligned pa"
  shows "is_valid (leaf_pte pa perm)" "PTE2PA (leaf_pte pa perm) = pa"
    "bit (leaf_pte pa perm) 4 \<longleftrightarrow> bit perm 4"
proof -
  show "is_valid (leaf_pte pa perm)" by (simp add: leaf_pte_def)
  show "PTE2PA (leaf_pte pa perm) = pa"
    using PTE2PA_leaf [OF assms(1), of pa] aligned_PGROUNDDOWN_id [OF assms(2)] by (simp add: leaf_pte_def)
  show "bit (leaf_pte pa perm) 4 \<longleftrightarrow> bit perm 4"
    by (simp add: leaf_pte_def PA2PTE_def PTE_V_def bit_simps)
qed

lemma aligned_word: "aligned (word_of_int x) \<longleftrightarrow> x mod 4096 = 0"
  unfolding aligned_uint by (simp add: unsigned_of_int take_bit_eq_mod mod_mod_cancel)

lemma aligned_add: "\<lbrakk>aligned p; aligned q\<rbrakk> \<Longrightarrow> aligned (p + q)"
  using aligned_word [of "uint p + uint q"] by (simp add: aligned_uint mod_eq_0_iff_dvd)

lemma aligned_diff: "\<lbrakk>aligned p; aligned q\<rbrakk> \<Longrightarrow> aligned (p - q)"
  using aligned_word [of "uint p - uint q"] by (simp add: aligned_uint mod_eq_0_iff_dvd)

lemma PGROUNDDOWN_le_iff: "PGROUNDDOWN a \<le> PGROUNDDOWN b \<longleftrightarrow> PGROUNDDOWN a \<le> b"
proof
  assume "PGROUNDDOWN a \<le> PGROUNDDOWN b"
  also have "PGROUNDDOWN b \<le> b" using round_bounds(1) [of "uint b"] by (simp add: word_le_def uint_PGROUNDDOWN)
  finally show "PGROUNDDOWN a \<le> b" .
next
  assume "PGROUNDDOWN a \<le> b"
  then have "uint a div 4096 * 4096 div 4096 \<le> uint b div 4096"
    unfolding word_le_def uint_PGROUNDDOWN by (intro zdiv_mono1) simp_all
  then show "PGROUNDDOWN a \<le> PGROUNDDOWN b" by (simp add: word_le_def uint_PGROUNDDOWN)
qed

lemma page_count: "x \<le> (y :: int) \<Longrightarrow> y div 4096 * 4096 = x div 4096 * 4096 + 4096 * int (nat (y div 4096 - x div 4096))"
  using zdiv_mono1 [of x y 4096] by simp

lemma PGROUNDDOWN_below: "PGROUNDDOWN a < MAXVA \<longleftrightarrow> a < MAXVA"
proof -
  have "uint a div 4096 < 67108864 \<longleftrightarrow> uint a < 67108864 * 4096" by linarith
  then show ?thesis by (simp add: word_less_def uint_PGROUNDDOWN MAXVA_def)
qed

text \<open>The number of pages that a range of addresses touches.\<close>

definition range_pages :: "u64 \<Rightarrow> u64 \<Rightarrow> nat" where
  "range_pages va sz = Suc (nat ((uint va + uint sz - 1) div 4096 - uint va div 4096))"

text \<open>A new page table.\<close>

lemma uvmcreate_spec:
  assumes "kmem_ok s (p # ps)"
  shows "\<exists>s'. uvmcreate s = (p, s') \<and> table_in 2 s' ps p \<and> kend s' = kend s \<and>
    table_pages 2 (ram s') p = {p} \<and> (\<forall>a. entry 2 (ram s') p a = 0) \<and> agree (- page p) (ram s') (ram s)"
proof -
  obtain s1 where 1: "kalloc s = (p, s1)" "kmem_ok s1 ps" "kend s1 = kend s" "agree (- page p) (ram s1) (ram s)"
    using kalloc_spec [OF assms] by auto
  have p: "good_page s p" "aligned p" "p \<noteq> 0" "p \<notin> set ps" "\<And>q. q \<in> set ps \<Longrightarrow> good_page s q"
    using assms by (auto simp: kmem_ok_def good_page_def)
  let ?m = "fill_page p 0 (ram s1)"
  have z: "?m q = 0" if "q \<in> page p" for q using that by (auto simp: fill_page_def mem_write_def page_def)
  have a: "agree (- page p) ?m (ram s1)" by (rule agree_fill) simp
  have "agree (page q) ?m (ram s1)" if "q \<in> set ps" for q
  proof (rule agree_subset [OF a])
    have "q \<noteq> p" using p(4) that by auto
    then show "page q \<subseteq> - page p" using disjoint_pages [OF p(5) [OF that] p(1)] by auto
  qed
  then have "kmem_ok (s1\<lparr>ram := ?m\<rparr>) ps"
    using 1(2) free_list_agree [of ps ?m "ram s1"] by (simp add: kmem_ok_def good_page_def)
  then have "table_in 2 (s1\<lparr>ram := ?m\<rparr>) ps p"
    using zero_table [OF p(2) z] p(1,4) 1(3) by (simp add: table_in_def good_page_def)
  then show ?thesis
    using 1 p(3) zero_table [OF p(2) z] agree_trans [OF a 1(4)] by (simp add: uvmcreate_def)
qed

lemma mappages_result:
  assumes t: "table_in 2 s xs pt" and sz: "0 < uint sz" "uint va + uint sz \<le> uint MAXVA"
    and pa: "aligned pa" "drop_bit 10 (word_of_int perm :: u64) = 0"
    and free: "\<forall>a. PGROUNDDOWN va \<le> PGROUNDDOWN a \<and> PGROUNDDOWN a \<le> va + sz - 1 \<longrightarrow> \<not> is_valid (entry 2 (ram s) pt a)"
  shows "\<exists>r s' k. mappages pt va sz pa perm s = Some (r, s') \<and> grown s xs pt s' k \<and> k \<le> 2 * range_pages va sz \<and>
    (r = 0 \<and> (\<forall>a. walkaddr pt a s' =
        (if PGROUNDDOWN va \<le> PGROUNDDOWN a \<and> PGROUNDDOWN a \<le> va + sz - 1
         then Some (if bit perm 4 then pa + (PGROUNDDOWN a - PGROUNDDOWN va) else 0) else walkaddr pt a s))
     \<or> r = -1 \<and> drop k xs = [])"
proof -
  let ?a = "PGROUNDDOWN va" and ?la = "PGROUNDDOWN (va + sz - 1)"
  have M: "uint MAXVA = 2 ^ 38" by (simp add: MAXVA_def)
  have "uint (va + sz) = uint va + uint sz" using sz M by (intro uint_plus_small) simp
  moreover have "uint (1 :: u64) \<le> uint (va + sz)" using sz(1) uint_ge_0 [of va] calculation unfolding uint_1 by linarith
  ultimately have top: "uint (va + sz - 1) = uint va + uint sz - 1" by (simp add: uint_sub_if_size)
  have n: "uint ?la = uint ?a + 4096 * int (nat ((uint va + uint sz - 1) div 4096 - uint va div 4096))"
    unfolding uint_PGROUNDDOWN top using sz by (intro page_count) simp
  have la: "?la < MAXVA" using PGROUNDDOWN_below [of "va + sz - 1"] top sz M by (simp add: word_less_def)
  have inv: "\<not> is_valid (entry 2 (ram s) pt a)" if "?a \<le> PGROUNDDOWN a" "PGROUNDDOWN a \<le> ?la" for a
    using free that by (simp add: PGROUNDDOWN_le_iff)
  have "mappages pt va sz pa perm s = mappages_loop pt ?a ?la pa perm s"
    using sz by (auto simp: mappages_def)
  then obtain r s' k where 1: "mappages pt va sz pa perm s = Some (r, s')" "grown s xs pt s' k"
    "r = 0 \<and> (\<forall>va < MAXVA. entry 2 (ram s') pt va =
        (if ?a \<le> PGROUNDDOWN va \<and> PGROUNDDOWN va \<le> ?la then leaf_pte (pa + (PGROUNDDOWN va - ?a)) perm
         else entry 2 (ram s) pt va)) \<or> r = -1 \<and> drop k xs = []"
    "k \<le> 2 * range_pages va sz"
    using mappages_loop_spec [OF t aligned_PGROUNDDOWN n la inv, of pa perm] by (auto simp: range_pages_def)
  have "walkaddr pt a s' = (if ?a \<le> PGROUNDDOWN a \<and> PGROUNDDOWN a \<le> va + sz - 1
      then Some (if bit perm 4 then pa + (PGROUNDDOWN a - ?a) else 0) else walkaddr pt a s)"
    if e: "\<forall>va < MAXVA. entry 2 (ram s') pt va =
        (if ?a \<le> PGROUNDDOWN va \<and> PGROUNDDOWN va \<le> ?la then leaf_pte (pa + (PGROUNDDOWN va - ?a)) perm
         else entry 2 (ram s) pt va)" for a
  proof (cases "a < MAXVA")
    case True
    have "aligned (pa + (PGROUNDDOWN a - ?a))"
      by (intro aligned_add aligned_diff pa aligned_PGROUNDDOWN)
    then show ?thesis
      using True e leaf_pte_facts [OF pa(2)] PGROUNDDOWN_le_iff [of a "va + sz - 1"] by (auto simp: walkaddr_entry user_page_def)
  next
    case False
    then have "\<not> PGROUNDDOWN a \<le> ?la" using la PGROUNDDOWN_below [of a] by simp
    then show ?thesis using False by (simp add: walkaddr_top PGROUNDDOWN_le_iff not_less)
  qed
  then show ?thesis using 1 by blast
qed

text \<open>A machine with four free pages, and a new page table in the first one handed out.\<close>

lemma four_pages:
  obtains s where "kmem_ok s [0x87FFF000, 0x87FFE000, 0x87FFD000, 0x87FFC000]"
proof -
  let ?s = "\<lparr>freelist = 0, ram = (\<lambda>_. 0), kend = 0x87FFB800\<rparr>"
  have "kend ?s \<le> PHYSTOP" by (simp add: PHYSTOP_def KERNBASE_def)
  then obtain s1 where s1: "kmem_ok s1 (rev (all_pages (kend ?s)))" using kinit_spec [of ?s] by auto
  have "pages_from p 4 = [p, p + PGSIZE, p + PGSIZE + PGSIZE, p + PGSIZE + PGSIZE + PGSIZE]" for p
    by (simp add: eval_nat_numeral)
  then have "all_pages 0x87FFB800 = [0x87FFC000, 0x87FFD000, 0x87FFE000, 0x87FFF000]"
    by (simp add: all_pages_def PGROUNDUP_def PHYSTOP_def KERNBASE_def PGSIZE_def)
  then show ?thesis using s1 that by simp
qed

text \<open>
  One page of user memory: the setting of the examples. The premise is what \<open>mappages\<close> is proved to do.
\<close>

lemma one_user_page:
  assumes maps: "\<And>s xs pt va sz pa perm. \<lbrakk>table_in 2 s xs pt; 0 < uint sz; uint va + uint sz \<le> uint MAXVA;
      aligned pa; drop_bit 10 (word_of_int perm :: u64) = 0;
      \<forall>a. PGROUNDDOWN va \<le> PGROUNDDOWN a \<and> PGROUNDDOWN a \<le> va + sz - 1 \<longrightarrow> \<not> is_valid (entry 2 (ram s) pt a)\<rbrakk> \<Longrightarrow>
    \<exists>r s' k. mappages pt va sz pa perm s = Some (r, s') \<and> grown s xs pt s' k \<and> k \<le> 2 * range_pages va sz \<and>
    (r = 0 \<and> (\<forall>a. walkaddr pt a s' =
        (if PGROUNDDOWN va \<le> PGROUNDDOWN a \<and> PGROUNDDOWN a \<le> va + sz - 1
         then Some (if bit perm 4 then pa + (PGROUNDDOWN a - PGROUNDDOWN va) else 0) else walkaddr pt a s))
     \<or> r = -1 \<and> drop k xs = [])"
  shows
  "\<exists>s s' k. mappages 0x87FFF000 0x1800 0x800 0x87000000 22 s = Some (0, s') \<and>
     grown s [0x87FFE000, 0x87FFD000, 0x87FFC000] 0x87FFF000 s' k \<and>
     table_pages 2 (ram s) 0x87FFF000 = {0x87FFF000} \<and>
     (\<forall>a. walkaddr 0x87FFF000 a s' = Some (if PGROUNDDOWN a = 0x1000 then 0x87000000 else 0))"
proof -
  obtain s where "kmem_ok s [0x87FFF000, 0x87FFE000, 0x87FFD000, 0x87FFC000]" by (rule four_pages)
  from uvmcreate_spec [OF this] obtain s0 where
    s0: "table_in 2 s0 [0x87FFE000, 0x87FFD000, 0x87FFC000] 0x87FFF000" "\<forall>a. entry 2 (ram s0) 0x87FFF000 a = 0"
      "table_pages 2 (ram s0) 0x87FFF000 = {0x87FFF000}"
    by blast
  have al: "aligned 0x87000000" by (simp add: aligned_def PGSIZE_def)
  have pe: "drop_bit 10 (word_of_int 22 :: u64) = 0" by simp
  have sz: "0 < uint (0x800 :: u64)" "uint (0x1800 :: u64) + uint (0x800 :: u64) \<le> uint MAXVA"
    by (simp_all add: MAXVA_def)
  have fr: "\<forall>a. PGROUNDDOWN 0x1800 \<le> PGROUNDDOWN a \<and> PGROUNDDOWN a \<le> 0x1800 + 0x800 - 1 \<longrightarrow>
      \<not> is_valid (entry 2 (ram s0) 0x87FFF000 a)" using s0(2) by simp
  have pg: "PGROUNDDOWN 0x1800 = 0x1000" "PGROUNDDOWN 0x1FFF = 0x1000" "0x1800 + 0x800 - 1 = (0x1FFF :: u64)"
    by (simp_all add: PGROUNDDOWN_def PGSIZE_def)
  have rp: "range_pages 0x1800 0x800 = 1" by (simp add: range_pages_def)
  have b: "bit (22 :: int) 4" by simp
  obtain r s' k where 1: "mappages 0x87FFF000 0x1800 0x800 0x87000000 22 s0 = Some (r, s')"
    "grown s0 [0x87FFE000, 0x87FFD000, 0x87FFC000] 0x87FFF000 s' k" "k \<le> 2"
    "r = 0 \<and> (\<forall>a. walkaddr 0x87FFF000 a s' =
        (if 0x1000 \<le> PGROUNDDOWN a \<and> PGROUNDDOWN a \<le> 0x1FFF
         then Some (if bit (22 :: int) 4 then 0x87000000 + (PGROUNDDOWN a - 0x1000) else 0)
         else walkaddr 0x87FFF000 a s0))
     \<or> r = -1 \<and> drop k [0x87FFE000 :: u64, 0x87FFD000, 0x87FFC000] = []"
    using maps [OF s0(1) sz al pe fr] unfolding pg rp by auto
  have "r = 0" using 1(3,4) by auto
  moreover have "walkaddr 0x87FFF000 a s' = Some (if PGROUNDDOWN a = 0x1000 then 0x87000000 else 0)" for a
  proof -
    have "walkaddr 0x87FFF000 a s0 = Some 0"
      using s0(2) by (cases "a < MAXVA") (simp_all add: walkaddr_entry walkaddr_top user_page_def)
    moreover have "0x1000 \<le> PGROUNDDOWN a \<and> PGROUNDDOWN a \<le> 0x1FFF \<longleftrightarrow> PGROUNDDOWN a = 0x1000"
      using PGROUNDDOWN_le_iff [of "0x1800" a] PGROUNDDOWN_le_iff [of a "0x1FFF"] unfolding pg by auto
    ultimately show ?thesis using 1(4) \<open>r = 0\<close> b by simp
  qed
  ultimately show ?thesis using 1(1,2) s0(3) by blast
qed

text \<open>
  C20: \<open>mappages\<close> of a range of addresses that are not mapped, on a page table whose pages are its own:
  it does not panic; it returns \<open>0\<close> and then exactly the pages of the range translate to the
  consecutive physical pages, if they are to be user pages, and every other address translates
  as before; or it returns \<open>-1\<close> and the free list is empty. The page table grows by the first \<open>k\<close>
  pages of the free list, at most two for each page mapped, and no memory outside these pages and the table changes.
\<close>

theorem mappages_maps:
  assumes t: "table_in 2 s xs pt" and sz: "0 < uint sz" "uint va + uint sz \<le> uint MAXVA"
    and pa: "aligned pa" "drop_bit 10 (word_of_int perm :: u64) = 0"
    and free: "\<forall>a. PGROUNDDOWN va \<le> PGROUNDDOWN a \<and> PGROUNDDOWN a \<le> va + sz - 1 \<longrightarrow> \<not> is_valid (entry 2 (ram s) pt a)"
  shows "\<exists>r s' k. mappages pt va sz pa perm s = Some (r, s') \<and> grown s xs pt s' k \<and> k \<le> 2 * range_pages va sz \<and>
    (r = 0 \<and> (\<forall>a. walkaddr pt a s' =
        (if PGROUNDDOWN va \<le> PGROUNDDOWN a \<and> PGROUNDDOWN a \<le> va + sz - 1
         then Some (if bit perm 4 then pa + (PGROUNDDOWN a - PGROUNDDOWN va) else 0) else walkaddr pt a s))
     \<or> r = -1 \<and> drop k xs = [])"
  using assms by (rule mappages_result)

theorem mappages_maps_witness:
  "\<exists>s s' k. mappages 0x87FFF000 0x1800 0x800 0x87000000 22 s = Some (0, s') \<and>
     grown s [0x87FFE000, 0x87FFD000, 0x87FFC000] 0x87FFF000 s' k \<and>
     table_pages 2 (ram s) 0x87FFF000 = {0x87FFF000} \<and>
     (\<forall>a. walkaddr 0x87FFF000 a s' = Some (if PGROUNDDOWN a = 0x1000 then 0x87000000 else 0))"
  by (rule one_user_page, rule mappages_maps)

end
