(* ===== verification/X_Vm_Copy.thy ===== *)
theory X_Vm_Copy
  imports X_Vm_Trans
begin

text \<open>
  The copies between user and kernel memory against the memory a user program sees: the bytes at the
  addresses its page table translates to.
\<close>

section \<open>User memory\<close>

text \<open>The physical address of a user address.\<close>

definition frame :: "kmem \<Rightarrow> u64 \<Rightarrow> u64 \<Rightarrow> u64" where
  "frame s pt a = the (walkaddr pt a s)"

definition place :: "kmem \<Rightarrow> u64 \<Rightarrow> u64 \<Rightarrow> int" where
  "place s pt a = uint (frame s pt a) + uint a mod 4096"

definition user_mem :: "kmem \<Rightarrow> u64 \<Rightarrow> u64 \<Rightarrow> nat \<Rightarrow> bytes" where
  "user_mem s pt va n = map (\<lambda>i. ram s (place s pt (va + of_nat i))) [0..<n]"

definition mapped :: "kmem \<Rightarrow> u64 \<Rightarrow> u64 \<Rightarrow> nat \<Rightarrow> bool" where
  "mapped s pt va n \<longleftrightarrow> (\<forall>i < n. frame s pt (va + of_nat i) \<noteq> 0)"

lemma walkaddr_Some: "walkaddr pt va s = Some (frame s pt va)"
  by (cases "va < MAXVA") (simp_all add: walkaddr_entry walkaddr_top frame_def)

lemma entry_page: "PGROUNDDOWN a = PGROUNDDOWN b \<Longrightarrow> entry l m pt a = entry l m pt b"
proof -
  assume "PGROUNDDOWN a = PGROUNDDOWN b"
  then have "PX k a = PX k b" for k by (metis PX_PGROUNDDOWN)
  then have "find_pte l m pt a = find_pte l m pt b"
    by (induction l arbitrary: pt) (simp_all split: option.split)
  then show ?thesis by (simp add: entry_def)
qed

lemma frame_page: "PGROUNDDOWN a = PGROUNDDOWN b \<Longrightarrow> frame s pt a = frame s pt b"
proof -
  assume p: "PGROUNDDOWN a = PGROUNDDOWN b"
  then have "a < MAXVA \<longleftrightarrow> b < MAXVA" using PGROUNDDOWN_below by metis
  then show ?thesis
    using entry_page [OF p] by (cases "a < MAXVA") (simp_all add: frame_def walkaddr_entry walkaddr_top)
qed

lemma PGROUNDDOWN_idem: "PGROUNDDOWN (PGROUNDDOWN a) = PGROUNDDOWN a"
  by (rule aligned_PGROUNDDOWN_id [OF aligned_PGROUNDDOWN])

lemma uint_offset: "uint (a - PGROUNDDOWN a) = uint a mod 4096"
proof -
  have "uint (PGROUNDDOWN a) + uint a mod 4096 = uint a" by (simp add: uint_PGROUNDDOWN)
  moreover have "uint (PGROUNDDOWN a) \<le> uint a" using calculation pos_mod_sign [of 4096 "uint a"] by linarith
  ultimately show ?thesis by (simp add: uint_sub_if_size)
qed

lemma page_rest_eq: "int (page_rest a) = 4096 - uint a mod 4096"
proof -
  have "uint (PGSIZE - (a - PGROUNDDOWN a)) = 4096 - uint a mod 4096"
    using uint_offset [of a] pos_mod_bound [of 4096 "uint a"] by (subst uint_sub_if_size) (simp add: PGSIZE_def)
  then show ?thesis by (simp add: page_rest_def)
qed

lemma page_rest_pos: "0 < page_rest a"
  using page_rest_eq [of a] pos_mod_bound [of 4096 "uint a"] by linarith

lemma same_page_add:
  assumes "i < page_rest a"
  shows "uint (a + of_nat i) = uint a + int i" "PGROUNDDOWN (a + of_nat i) = PGROUNDDOWN a"
    "uint (a + of_nat i) mod 4096 = uint a mod 4096 + int i"
proof -
  have i: "uint a mod 4096 + int i < 4096" using assms page_rest_eq [of a] by linarith
  have "uint a = uint (PGROUNDDOWN a) + uint a mod 4096" by (simp add: uint_PGROUNDDOWN)
  then have "uint a + int i < 2 ^ 64" using aligned_top [OF aligned_PGROUNDDOWN, of a] i by simp
  moreover have "uint (of_nat i :: u64) = int i"
    using i pos_mod_sign [of 4096 "uint a"] by (simp add: unsigned_of_nat take_bit_nat_eq_self)
  ultimately show u: "uint (a + of_nat i) = uint a + int i" by (subst uint_plus_small) simp_all
  have m: "(uint a + int i) mod 4096 = uint a mod 4096 + int i"
    using i pos_mod_sign [of 4096 "uint a"] by (subst mod_add_left_eq [symmetric]) (simp add: mod_pos_pos_trivial)
  then show "uint (a + of_nat i) mod 4096 = uint a mod 4096 + int i" unfolding u .
  have "uint a + int i - (uint a + int i) mod 4096 = uint a - uint a mod 4096" using m by simp
  then show "PGROUNDDOWN (a + of_nat i) = PGROUNDDOWN a"
    unfolding word_uint_eq_iff uint_PGROUNDDOWN u minus_mod_eq_div_mult .
qed

lemma next_page_start: "PGROUNDDOWN a + PGSIZE = a + of_nat (page_rest a)"
  by (simp add: page_rest_def)

lemma aligned_frame: "aligned (frame s pt a)"
  by (cases "a < MAXVA") (simp_all add: frame_def walkaddr_entry walkaddr_top user_page_def aligned_def [of 0])

lemma start_place: "uint (frame s pt a + (a - PGROUNDDOWN a)) = place s pt a"
proof -
  have "uint (frame s pt a) + uint a mod 4096 < 2 ^ 64"
    using aligned_top [OF aligned_frame, of s pt a] pos_mod_bound [of 4096 "uint a"] by linarith
  then show ?thesis by (simp add: uint_plus_small uint_offset place_def)
qed

lemma place_add: "i < page_rest a \<Longrightarrow> place s pt (a + of_nat i) = place s pt a + int i"
  using same_page_add [of i a] frame_page [of "a + of_nat i" a] by (simp add: place_def)

lemma user_mem_page: "n \<le> page_rest a \<Longrightarrow> user_mem s pt a n = mem_read (ram s) (place s pt a) n"
  by (simp add: user_mem_def mem_read_def place_add)

lemma user_mem_add: "user_mem s pt a (m + n) = user_mem s pt a m @ user_mem s pt (a + of_nat m) n"
  by (rule nth_equalityI) (auto simp: user_mem_def nth_append algebra_simps)

lemma mapped_add: "mapped s pt a (m + n) \<longleftrightarrow> mapped s pt a m \<and> mapped s pt (a + of_nat m) n"
proof -
  have "(\<forall>i < m + n. P i) \<longleftrightarrow> (\<forall>i < m. P i) \<and> (\<forall>i < n. P (m + i))" for P
    by (metis add_less_cancel_left le_Suc_ex not_le trans_less_add1)
  then show ?thesis by (simp add: mapped_def add.assoc)
qed

lemma mapped_page: "\<lbrakk>0 < n; n \<le> page_rest a\<rbrakk> \<Longrightarrow> mapped s pt a n \<longleftrightarrow> frame s pt a \<noteq> 0"
  using frame_page [OF same_page_add(2), of _ a s pt] by (auto simp: mapped_def)

section \<open>Reading\<close>

lemma copyin_page:
  fixes va :: u64
  assumes "0 < n"
  defines "k \<equiv> min (page_rest va) n"
  shows "copyin pt dst va n s =
    (if frame s pt va = 0 then Some (-1, dst)
     else copyin pt (dst @ user_mem s pt va k) (va + of_nat (page_rest va)) (n - k) s)"
  using assms(1) frame_page [OF PGROUNDDOWN_idem, of s pt va]
  by (subst copyin.simps) (simp add: walkaddr_Some start_place user_mem_page next_page_start k_def Let_def)

lemma copyin_result:
  "\<exists>r k. copyin pt dst va n s = Some (r, dst @ user_mem s pt va k) \<and> k \<le> n \<and> mapped s pt va k \<and>
     (if mapped s pt va n then r = 0 \<and> k = n
      else r = -1 \<and> frame s pt (va + of_nat k) = 0 \<and> k < n)"
proof (induction n arbitrary: va dst rule: less_induct)
  case (less n)
  show ?case
  proof (cases "n = 0")
    case True
    then show ?thesis
      by (intro exI [of _ 0] exI [of _ 0]) (simp add: copyin.simps user_mem_def mapped_def)
  next
    case n: False
    let ?k = "min (page_rest va) n" and ?n = "n - min (page_rest va) n"
    have k: "0 < ?k" "?k \<le> page_rest va" "?k \<le> n" "?k + ?n = n" using n page_rest_pos [of va] by auto
    show ?thesis
    proof (cases "frame s pt va = 0")
      case True
      then have "\<not> mapped s pt va n" using n by (auto simp: mapped_def intro!: exI [of _ 0])
      then show ?thesis
        using copyin_page [of n pt dst va s] n True
        by (intro exI [of _ "-1"] exI [of _ 0]) (simp add: user_mem_def mapped_def)
    next
      case False
      then have mk: "mapped s pt va ?k" using k by (simp add: mapped_page)
      have run: "copyin pt dst va n s = copyin pt (dst @ user_mem s pt va ?k) (va + of_nat ?k) ?n s"
      proof (cases "page_rest va \<le> n")
        case True
        then show ?thesis using copyin_page [of n pt dst va s] n False by (simp add: min_absorb1)
      next
        case False
        then have "?n = 0" "?k = n" by simp_all
        then show ?thesis
          using copyin_page [of n pt dst va s] n \<open>frame s pt va \<noteq> 0\<close> by (simp add: copyin.simps [of _ _ _ 0])
      qed
      obtain r j where j: "copyin pt (dst @ user_mem s pt va ?k) (va + of_nat ?k) ?n s =
          Some (r, (dst @ user_mem s pt va ?k) @ user_mem s pt (va + of_nat ?k) j)"
        "j \<le> ?n" "mapped s pt (va + of_nat ?k) j"
        "if mapped s pt (va + of_nat ?k) ?n then r = 0 \<and> j = ?n
         else r = -1 \<and> frame s pt (va + of_nat ?k + of_nat j) = 0 \<and> j < ?n"
        using less.IH [of ?n "dst @ user_mem s pt va ?k" "va + of_nat ?k"] k by auto
      have "copyin pt dst va n s = Some (r, dst @ user_mem s pt va (?k + j))"
        unfolding run j(1) by (simp add: user_mem_add)
      moreover have "mapped s pt va (?k + j)" using mk j(3) by (simp add: mapped_add)
      moreover have "mapped s pt va n \<longleftrightarrow> mapped s pt (va + of_nat ?k) ?n"
        using mk mapped_add [of s pt va ?k ?n] k(4) by simp
      moreover have "?k + j \<le> n" using j(2) k(4) by linarith
      ultimately show ?thesis
        using j(4) k(4) by (intro exI [of _ r] exI [of _ "?k + j"]) (auto simp: add.assoc split: if_splits)
    qed
  qed
qed

text \<open>
  \<open>copyin\<close> always returns. It succeeds exactly if every byte of the range is in a user page, and then
  it delivers the bytes the user program sees there, however the pages are spread over physical
  memory; otherwise it returns \<open>-1\<close> and has copied a prefix that ends at the first page that is missing.
\<close>

theorem copyin_reads:
  "\<exists>r k. copyin pt dst va n s = Some (r, dst @ user_mem s pt va k) \<and> k \<le> n \<and> mapped s pt va k \<and>
     (if mapped s pt va n then r = 0 \<and> k = n
      else r = -1 \<and> frame s pt (va + of_nat k) = 0 \<and> k < n)"
  by (rule copyin_result)

section \<open>Writing\<close>

lemma mapped_bound: "mapped s pt va n \<Longrightarrow> n = 0 \<or> uint va + int n \<le> 2 ^ 38"
proof (induction n)
  case (Suc n)
  have m: "mapped s pt va n" "frame s pt (va + of_nat n) \<noteq> 0" using Suc.prems by (simp_all add: mapped_def)
  then have "va + of_nat n < MAXVA" using walkaddr_top [of "va + of_nat n" pt s] by (force simp: frame_def not_le [symmetric])
  then have "uint (va + of_nat n) < 2 ^ 38" by (simp add: MAXVA_def word_less_def)
  moreover have "uint (va + of_nat n) = uint va + int n"
  proof (cases "n = 0")
    case False
    then have b: "uint va + int n \<le> 2 ^ 38" using Suc.IH m(1) by simp
    then have "int n \<le> 2 ^ 38" using uint_ge_0 [of va] by linarith
    then have "uint (of_nat n :: u64) = int n" by (simp add: unsigned_of_nat take_bit_nat_eq_self)
    then show ?thesis using b by (subst uint_plus_small) simp_all
  qed simp
  ultimately show ?case by simp
qed simp

lemma other_page:
  assumes "mapped s pt va (page_rest va + n)" "i < n"
  shows "PGROUNDDOWN (va + of_nat (page_rest va + i)) \<noteq> PGROUNDDOWN va"
proof -
  have "mapped s pt va (page_rest va + i)" using assms by (simp add: mapped_def)
  then have b: "uint va + int (page_rest va + i) \<le> 2 ^ 38"
    using mapped_bound page_rest_pos [of va] by fastforce
  then have "int (page_rest va + i) \<le> 2 ^ 38" using uint_ge_0 [of va] by linarith
  then have "uint (of_nat (page_rest va + i) :: u64) = int (page_rest va + i)"
    by (simp add: unsigned_of_nat take_bit_nat_eq_self del: of_nat_add)
  then have "uint (va + of_nat (page_rest va + i)) = uint va + int (page_rest va + i)"
    using b by (subst uint_plus_small) (simp_all del: of_nat_add)
  moreover have "uint va + int (page_rest va + i) = uint va div 4096 * 4096 + 4096 + int i"
    using page_rest_eq [of va] minus_mod_eq_div_mult [of "uint va" 4096] by simp
  ultimately have "uint va div 4096 * 4096 + 4096 \<le> uint (va + of_nat (page_rest va + i))" by linarith
  then have "(uint va div 4096 + 1) * 4096 div 4096 \<le> uint (va + of_nat (page_rest va + i)) div 4096"
    by (intro zdiv_mono1) simp_all
  then show ?thesis by (simp add: word_uint_eq_iff uint_PGROUNDDOWN)
qed

text \<open>
  The pages of a range are not pages of the table, and different pages are different memory.
\<close>

definition isolated :: "kmem \<Rightarrow> u64 \<Rightarrow> u64 \<Rightarrow> nat \<Rightarrow> bool" where
  "isolated s pt va n \<longleftrightarrow> table_tree 2 (ram s) pt \<and>
    (\<forall>i < n. frame s pt (va + of_nat i) \<noteq> 0 \<longrightarrow> frame s pt (va + of_nat i) \<notin> table_pages 2 (ram s) pt) \<and>
    (\<forall>i < n. \<forall>j < n. frame s pt (va + of_nat i) \<noteq> 0 \<and> frame s pt (va + of_nat i) = frame s pt (va + of_nat j) \<longrightarrow>
       PGROUNDDOWN (va + of_nat i) = PGROUNDDOWN (va + of_nat j))"

lemma isolated_pages:
  "\<lbrakk>isolated s pt va n; i < n; j < n; frame s pt (va + of_nat i) \<noteq> 0;
    frame s pt (va + of_nat i) = frame s pt (va + of_nat j)\<rbrakk> \<Longrightarrow>
    PGROUNDDOWN (va + of_nat i) = PGROUNDDOWN (va + of_nat j)"
  unfolding isolated_def by blast

definition places :: "kmem \<Rightarrow> u64 \<Rightarrow> u64 \<Rightarrow> nat \<Rightarrow> int set" where
  "places s pt va n = (\<lambda>i. place s pt (va + of_nat i)) ` {..<n}"

lemma places_add: "places s pt va (m + n) = places s pt va m \<union> places s pt (va + of_nat m) n"
proof -
  have "{..<m + n} = {..<m} \<union> (\<lambda>i. m + i) ` {..<n}"
  proof (rule set_eqI)
    show "x \<in> {..<m + n} \<longleftrightarrow> x \<in> {..<m} \<union> (\<lambda>i. m + i) ` {..<n}" for x
      by (cases "x < m") (auto simp: image_iff intro!: bexI [of _ "x - m"])
  qed
  then show ?thesis by (simp add: places_def image_Un image_image add.assoc)
qed

lemma place_in_page: "place s pt a \<in> page (frame s pt a)"
  using pos_mod_bound [of 4096 "uint a"] by (simp add: place_def page_def)

lemma copyout_page:
  fixes va :: u64
  assumes "src \<noteq> []"
  defines "k \<equiv> min (page_rest va) (length src)"
  shows "copyout pt va src s =
    (if frame s pt va = 0 then Some (-1, s)
     else copyout pt (va + of_nat (page_rest va)) (drop k src)
       (s\<lparr>ram := mem_write (ram s) (place s pt va) (take k src)\<rparr>))"
  using assms(1) frame_page [OF PGROUNDDOWN_idem, of s pt va]
  by (subst copyout.simps) (simp add: walkaddr_Some start_place next_page_start k_def Let_def)

text \<open>Writing within one isolated page.\<close>

lemma write_page:
  assumes iso: "isolated s pt va n" and f: "frame s pt va \<noteq> 0" and k: "length bs \<le> page_rest va" "0 < n"
  defines "s1 \<equiv> s\<lparr>ram := mem_write (ram s) (place s pt va) bs\<rparr>"
  shows "table_pages 2 (ram s1) pt = table_pages 2 (ram s) pt" "table_tree 2 (ram s1) pt"
    "walkaddr pt a s1 = walkaddr pt a s" "agree (- places s pt va (length bs)) (ram s1) (ram s)"
    "user_mem s1 pt va (length bs) = bs"
proof -
  have fr: "frame s pt va \<notin> table_pages 2 (ram s) pt" "table_tree 2 (ram s) pt"
    using iso f k(2) by (auto simp: isolated_def dest: spec [of _ 0])
  have sub: "{place s pt va ..< place s pt va + int (length bs)} \<subseteq> page (frame s pt va)"
    using k(1) page_rest_eq [of va] pos_mod_sign [of 4096 "uint va"] by (auto simp: place_def page_def)
  have ag: "agree (- {place s pt va ..< place s pt va + int (length bs)}) (ram s1) (ram s)"
    unfolding s1_def by (simp, rule agree_write) auto
  have "agree (page p) (ram s) (ram s1)" if "p \<in> table_pages 2 (ram s) pt" for p
  proof (rule agree_sym [OF agree_subset [OF ag]])
    have "page p \<inter> page (frame s pt va) = {}"
      using fr that by (intro aligned_pages_disjoint table_pages_aligned [OF fr(2)] aligned_frame) auto
    then show "page p \<subseteq> - {place s pt va ..< place s pt va + int (length bs)}" using sub by auto
  qed
  note t = table_agree [OF fr(2) this]
  show "table_pages 2 (ram s1) pt = table_pages 2 (ram s) pt" "table_tree 2 (ram s1) pt" using t by simp_all
  show w: "walkaddr pt a s1 = walkaddr pt a s" for a
    using t by (cases "a < MAXVA") (simp_all add: walkaddr_entry walkaddr_top)
  have p: "place s1 pt a = place s pt a" for a by (simp add: place_def frame_def w)
  have "places s pt va (length bs) = {place s pt va ..< place s pt va + int (length bs)}"
  proof -
    have "places s pt va (length bs) = (\<lambda>i. place s pt va + int i) ` {..<length bs}"
      unfolding places_def using k(1) by (intro image_cong) (simp_all add: place_add)
    also have "\<dots> = {place s pt va ..< place s pt va + int (length bs)}"
      by (auto simp: image_iff intro!: bexI [of _ "nat (x - place s pt va)" for x])
    finally show ?thesis .
  qed
  then show "agree (- places s pt va (length bs)) (ram s1) (ram s)" using ag by simp
  show "user_mem s1 pt va (length bs) = bs"
    unfolding user_mem_page [OF k(1)] p using mem_read_write_same [of "ram s" "place s pt va" bs] by (simp add: s1_def)
qed

lemma copyout_result:
  assumes "isolated s pt va (length src)"
  shows "\<exists>r k s'. copyout pt va src s = Some (r, s') \<and> k \<le> length src \<and> mapped s pt va k \<and>
    (if mapped s pt va (length src) then r = 0 \<and> k = length src
     else r = -1 \<and> frame s pt (va + of_nat k) = 0 \<and> k < length src) \<and>
    user_mem s' pt va k = take k src \<and> agree (- places s pt va k) (ram s') (ram s) \<and>
    (\<forall>a. walkaddr pt a s' = walkaddr pt a s)"
  using assms
proof (induction "length src" arbitrary: va src s rule: less_induct)
  case less
  let ?n = "length src"
  show ?case
  proof (cases "?n = 0")
    case True
    then show ?thesis
      by (intro exI [of _ 0] exI [of _ 0] exI [of _ s]) (simp add: copyout.simps user_mem_def mapped_def)
  next
    case n: False
    define k where "k = min (page_rest va) ?n"
    have k: "0 < k" "k \<le> page_rest va" "k \<le> ?n" "k + (?n - k) = ?n" using n page_rest_pos [of va] by (auto simp: k_def)
    show ?thesis
    proof (cases "frame s pt va = 0")
      case True
      then have "\<not> mapped s pt va ?n" using n by (auto simp: mapped_def intro!: exI [of _ 0])
      then show ?thesis
        using copyout_page [of src pt va s] n True
        by (intro exI [of _ "-1"] exI [of _ 0] exI [of _ s]) (simp add: user_mem_def mapped_def)
    next
      case False
      have lk: "length (take k src) = k" using k(3) by simp
      define s1 where "s1 = s\<lparr>ram := mem_write (ram s) (place s pt va) (take k src)\<rparr>"
      have n0: "0 < ?n" using n by simp
      note w = write_page [OF less.prems False, of "take k src", unfolded lk, OF k(2) n0, folded s1_def]
      have f: "frame s1 pt a = frame s pt a" "place s1 pt a = place s pt a" for a by (simp_all add: frame_def place_def w(3))
      have mm: "mapped s1 pt va' m = mapped s pt va' m" "places s1 pt va' m = places s pt va' m" for va' m
        by (simp_all add: mapped_def places_def f)
      have mk: "mapped s pt va k" using False k by (simp add: mapped_page)
      have run: "copyout pt va src s = copyout pt (va + of_nat k) (drop k src) s1"
      proof (cases "page_rest va \<le> ?n")
        case True
        then show ?thesis using copyout_page [of src pt va s] n False by (simp add: k_def min_absorb1 s1_def)
      next
        case below: False
        then have "drop k src = []" by (simp add: k_def)
        then show ?thesis
          using copyout_page [of src pt va s] n False by (simp add: copyout.simps [of _ _ "[]"] s1_def k_def)
      qed
      have "isolated s1 pt (va + of_nat k) (?n - k)"
      proof -
        have *: "va + of_nat k + of_nat i = va + of_nat (k + i)" "i < ?n - k \<Longrightarrow> k + i < ?n" for i by simp_all
        show ?thesis
          using less.prems w(1,2) unfolding isolated_def f * by (metis *(2))
      qed
      then obtain r j s' where j: "copyout pt (va + of_nat k) (drop k src) s1 = Some (r, s')" "j \<le> ?n - k"
        "mapped s pt (va + of_nat k) j"
        "if mapped s pt (va + of_nat k) (?n - k) then r = 0 \<and> j = ?n - k
         else r = -1 \<and> frame s pt (va + of_nat k + of_nat j) = 0 \<and> j < ?n - k"
        "user_mem s' pt (va + of_nat k) j = take j (drop k src)"
        "agree (- places s pt (va + of_nat k) j) (ram s') (ram s1)" "\<forall>a. walkaddr pt a s' = walkaddr pt a s1"
        using less.hyps [of "drop k src" s1 "va + of_nat k"] k n0 unfolding mm f length_drop by (meson diff_less)
      have p': "place s' pt a = place s pt a" for a using j(7) w(3) by (simp add: place_def frame_def)
      have "user_mem s' pt va k = user_mem s1 pt va k"
      proof (rule nth_equalityI)
        fix i assume "i < length (user_mem s' pt va k)"
        then have i: "i < k" by (simp add: user_mem_def)
        have "place s pt (va + of_nat i) \<notin> places s pt (va + of_nat k) j"
        proof
          assume "place s pt (va + of_nat i) \<in> places s pt (va + of_nat k) j"
          then obtain l where l: "l < j" "place s pt (va + of_nat i) = place s pt (va + of_nat (k + l))"
            by (auto simp: places_def add.assoc)
          have kp: "k = page_rest va" using l(1) j(2) by (auto simp: k_def)
          have m: "mapped s pt va (k + j)" using mk j(3) by (simp add: mapped_add)
          have pi: "PGROUNDDOWN (va + of_nat i) = PGROUNDDOWN va"
            by (rule same_page_add(2)) (use i k(2) in linarith)
          note fi = frame_page [OF pi] pi
          have ne: "frame s pt (va + of_nat i) \<noteq> frame s pt (va + of_nat (k + l))"
          proof
            assume "frame s pt (va + of_nat i) = frame s pt (va + of_nat (k + l))"
            then have "PGROUNDDOWN (va + of_nat i) = PGROUNDDOWN (va + of_nat (k + l))"
              using i l(1) j(2) k(3) False fi(1) by (intro isolated_pages [OF less.prems]) simp_all
            then show False using other_page [of s pt va j l] m l(1) fi(2) unfolding kp by simp
          qed
          have "page (frame s pt (va + of_nat i)) \<inter> page (frame s pt (va + of_nat (k + l))) = {}"
            by (rule aligned_pages_disjoint [OF aligned_frame aligned_frame ne])
          then show False using place_in_page l(2) by (metis disjoint_iff)
        qed
        then show "user_mem s' pt va k ! i = user_mem s1 pt va k ! i"
          using j(6) i by (simp add: user_mem_def agree_def p' f)
      qed (simp add: user_mem_def)
      then have um: "user_mem s' pt va (k + j) = take (k + j) src"
        using w(5) j(5) by (simp add: user_mem_add take_add)
      have "agree (- places s pt va (k + j)) (ram s') (ram s)"
        unfolding places_add
        by (rule agree_trans [OF agree_subset [OF j(6)] agree_subset [OF w(4)]]) auto
      moreover have "mapped s pt va (k + j)" using mk j(3) by (simp add: mapped_add)
      moreover have "mapped s pt va ?n \<longleftrightarrow> mapped s pt (va + of_nat k) (?n - k)"
        using mk mapped_add [of s pt va k "?n - k"] k(4) by simp
      ultimately show ?thesis
        using j(1,2,4,7) w(3) um k(4) unfolding run
        by (intro exI [of _ r] exI [of _ "k + j"] exI [of _ s']) (auto simp: add.assoc split: if_splits)
    qed
  qed
qed

text \<open>
  C21: \<open>copyout\<close> to user pages that are not pages of the table and do not overlap always returns. It
  succeeds exactly if every byte of the range is in a user page; then the program sees the bytes
  written and \<open>copyin\<close> of the range reads them back. Otherwise it returns \<open>-1\<close> and has written up to the
  first page that is missing. No translation changes, and no byte of memory but those written.
\<close>

theorem copyout_copyin:
  assumes "isolated s pt va (length src)"
  shows "\<exists>r k s'. copyout pt va src s = Some (r, s') \<and>
    (if mapped s pt va (length src) then r = 0 \<and> k = length src
     else r = -1 \<and> frame s pt (va + of_nat k) = 0 \<and> k < length src) \<and>
    user_mem s' pt va k = take k src \<and> agree (- places s pt va k) (ram s') (ram s) \<and>
    (\<forall>a. walkaddr pt a s' = walkaddr pt a s) \<and>
    (r = 0 \<longrightarrow> copyin pt dst va (length src) s' = Some (0, dst @ src))"
proof -
  obtain r k s' where 1: "copyout pt va src s = Some (r, s')"
    "if mapped s pt va (length src) then r = 0 \<and> k = length src
     else r = -1 \<and> frame s pt (va + of_nat k) = 0 \<and> k < length src"
    "user_mem s' pt va k = take k src" "agree (- places s pt va k) (ram s') (ram s)"
    "\<forall>a. walkaddr pt a s' = walkaddr pt a s"
    using copyout_result [OF assms] by blast
  have "copyin pt dst va (length src) s' = Some (0, dst @ src)" if "r = 0"
  proof -
    have m: "mapped s pt va (length src)" "k = length src" using 1(2) that by (auto split: if_splits)
    then have "mapped s' pt va (length src)" using 1(5) by (simp add: mapped_def frame_def)
    then show ?thesis using copyin_result [of pt dst va "length src" s'] 1(3) m by auto
  qed
  then show ?thesis using 1 by blast
qed

theorem copyout_copyin_witness:
  "\<exists>s s'. walkaddr 0x87FFF000 0x1FFE s = Some 0x87000000 \<and>
     copyout 0x87FFF000 0x1FFD [1, 2, 3] s = Some (0, s') \<and>
     copyin 0x87FFF000 [] 0x1FFD 3 s' = Some (0, [1, 2, 3])"
proof -
  have w: "\<exists>s s' k. mappages 0x87FFF000 0x1800 0x800 0x87000000 22 s = Some (0, s') \<and>
     grown s [0x87FFE000, 0x87FFD000, 0x87FFC000] 0x87FFF000 s' k \<and>
     table_pages 2 (ram s) 0x87FFF000 = {0x87FFF000} \<and>
     (\<forall>a. walkaddr 0x87FFF000 a s' = Some (if PGROUNDDOWN a = 0x1000 then 0x87000000 else 0))"
    by (rule one_user_page, rule mappages_result)
  obtain s0 s k where 1: "grown s0 [0x87FFE000, 0x87FFD000, 0x87FFC000] 0x87FFF000 s k"
    "table_pages 2 (ram s0) 0x87FFF000 = {0x87FFF000}"
    "\<And>a. walkaddr 0x87FFF000 a s = Some (if PGROUNDDOWN a = 0x1000 then 0x87000000 else 0)"
    using w by blast
  have f: "frame s 0x87FFF000 a = (if PGROUNDDOWN a = 0x1000 then 0x87000000 else 0)" for a
    by (simp add: frame_def 1(3))
  have pg: "PGROUNDDOWN (0x1FFD + of_nat i) = 0x1000" if "i < 3" for i :: nat
  proof -
    have "i = 0 \<or> i = 1 \<or> i = 2" using that by auto
    then show ?thesis by (auto simp: PGROUNDDOWN_def PGSIZE_def)
  qed
  have "table_pages 2 (ram s) 0x87FFF000 \<subseteq> {0x87FFF000, 0x87FFE000, 0x87FFD000, 0x87FFC000}"
    using 1(1,2) set_take_subset [of k "[0x87FFE000 :: u64, 0x87FFD000, 0x87FFC000]"] by (auto simp: grown_def)
  then have "isolated s 0x87FFF000 0x1FFD (length [1, 2, 3 :: u8])"
    using 1(1) pg by (auto simp: isolated_def grown_def table_in_def f)
  note c = copyout_copyin [OF this, of "[]"]
  have "mapped s 0x87FFF000 0x1FFD (length [1, 2, 3 :: u8])" using pg by (simp add: mapped_def f)
  then obtain s' where "copyout 0x87FFF000 0x1FFD [1, 2, 3] s = Some (0, s')"
    "copyin 0x87FFF000 [] 0x1FFD 3 s' = Some (0, [1, 2, 3])"
    using c by (auto simp: numeral_3_eq_3)
  moreover have "walkaddr 0x87FFF000 0x1FFE s = Some 0x87000000"
    using pg [of 1] by (simp add: 1(3))
  ultimately show ?thesis by blast
qed

end
