(* ===== verification/Spec2Isabelle.thy ===== *)
theory Spec2Isabelle
  imports Fuse_Ops Shell_Execute X_String X_Lock X_Sched X_Pipe X_Sem X_Fs_Dir X_Sysfile_Refs X_Sysfile_Io X_Vm_Copy
begin

text \<open>
  A verification library for the operating-systems projects of this repository: the FAT file system
  in user space (\<open>Lab4/fat-fuse\<close>), the command shell (\<open>Lab1\<close>), and the xv6 kernel with the semaphores
  of \<open>Lab2\<close> and the scheduler of \<open>Lab3\<close>.

  Conventions. Every operation is a function of the state it reads and changes. \<open>None\<close> means that the
  C code has no defined outcome: a null or dangling pointer, an access outside an object, a failed
  assertion, a \<open>panic\<close>, or a loop that does not end. Errors the code reports (\<open>errno\<close>, \<open>-1\<close>, a null
  result) are ordinary values. Fixed-width integers are words where they wrap. Code that is not in
  the repository (system calls, the FUSE library, the shell's lexer) is a parameter with its
  documented behaviour as a named hypothesis, where one is needed. \<open>C_Prelude\<close> holds the types,
  byte memory and the lemma collections.

  \<^bold>\<open>The FAT file system\<close> (\<open>Lab4/fat-fuse\<close>), bottom up.
  \<^item> \<open>Fat_Util\<close> (\<open>fat_util.c\<close>, \<open>fat_util.h\<close>): the device as bytes with a script of outcomes of
    \<open>pread\<close>/\<open>pwrite\<close>; short transfers, and what an interrupted one does; time stamps.
  \<^item> \<open>Fat_Table\<close> (\<open>fat_table.c\<close>): the table in memory and on the device; chains; seeking, the least
    free cluster, and the invariant that both copies agree.
  \<^item> \<open>Fat_Filename\<close> (\<open>fat_filename_util.c\<close>): 8.3 names, their round trip and where it fails.
  \<^item> \<open>Fat_File\<close>, \<open>Fat_Data\<close>, \<open>Fat_Dir\<close> (\<open>fat_file.c\<close>): directory entries and their byte image, reading,
    writing, truncation and deletion of files over their cluster chains, directories. The
    invariant \<open>fat_wf\<close> says that the files' chains are chains of the table, disjoint, and inside the
    device. That the data area is inside the device is a real restriction: \<open>fat_volume.c\<close> counts
    more clusters than the volume has (\<open>Fat_Volume.clusters_past_end\<close>).
  \<^item> \<open>H_Tree\<close>, \<open>Fs_Tree\<close> (\<open>hierarchy_tree.c\<close>, \<open>fat_fs_tree.c\<close>): the tree of files over an explicit heap
    of nodes, so that sharing and double frees are visible; \<open>tree_inv\<close> relates the heap to a tree.
  \<^item> \<open>Fat_Volume\<close> (\<open>fat_volume.c\<close>): boot sector and mounting. \<open>Big_Brother\<close> (\<open>big_brother.c\<close>): the
    hidden log directory. \<open>Fuse_Ops\<close> (\<open>fat_fuse_ops.c\<close>): every handler, with the global \<open>errno\<close> that
    connects them.

  \<^bold>\<open>The shell\<close> (\<open>Lab1\<close>).
  \<^item> \<open>Shell_Command\<close> (\<open>command.c\<close>, \<open>strextra.c\<close>): commands and pipelines; the locale \<open>fifo\<close> is the
    queue the rest uses, interpreted for the words of a command and the stages of a pipeline.
  \<^item> \<open>Shell_Parsing\<close> (\<open>parsing.c\<close>): lines to pipelines, over the lexer's operations \<open>parser_api\<close>.
  \<^item> \<open>Shell_Execute\<close> (\<open>builtin.c\<close>, \<open>execute.c\<close>, \<open>mybash.c\<close>): which processes are created and which
    descriptors each one duplicates and closes, the built-in commands and the main loop.

  \<^bold>\<open>The xv6 kernel\<close> (\<open>Lab3/xv6-riscv\<close>, and \<open>Lab2/xv6-riscv-riscv\<close>, whose other files are the same).
  \<^item> \<open>X_String\<close> (\<open>kernel/string.c\<close>, \<open>user/ulib.c\<close>, \<open>user/printf.c\<close>): block moves against a reference,
    bounded string copies, numbers to text and back. Loops to a NUL are \<open>partial_function\<close>s.
  \<^item> \<open>X_Lock\<close> (\<open>kernel/spinlock.c\<close>): spin locks and interrupt nesting on one CPU.
  \<^item> \<open>X_Proc\<close>, \<open>X_Proc_Wf\<close> (\<open>kernel/proc.c\<close>): the process table. Each definition is a routine run in
    its critical section; locks are omitted where they are matched (\<open>X_Lock.acquire_release\<close>).
    Memory, files and the log are fields of the record \<open>kapi\<close>, about which nothing is assumed.
    \<open>proc_wf\<close> is the invariant of the table.
  \<^item> \<open>X_Sched\<close>: the scheduler of \<open>Lab3\<close>. \<open>sys_step\<close> interleaves it with everything a process can do
    on one CPU; \<open>quantum_step\<close> is the case where processes use up their quanta, and \<open>wait_order\<close> the
    measure by which each runnable process is reached; \<open>smp_step\<close> shows several CPUs.
  \<^item> \<open>X_Pipe\<close> (\<open>kernel/pipe.c\<close>, part of \<open>kernel/file.c\<close>): the locale \<open>bounded_fifo\<close> and its
    interpretation \<open>ring\<close> by the ring buffer with wrapping counters. The predicate \<open>kl\<close> says at which of its
    steps \<open>pipewrite\<close> finds that another CPU has killed it; \<open>write_run\<close> and \<open>read_copies\<close> say what one run does.
  \<^item> \<open>X_Sem\<close> (\<open>Lab2: kernel/sem.c\<close>): the system calls on a CPU, the atomic sections they amount to, and
    the step relation of their interleavings. The number a call acts on is the one it has copied from
    the global \<open>sem\<close>, which calls on other CPUs overwrite; the value is an \<open>int\<close>, whose overflow has no
    defined outcome.
  \<^item> \<open>X_Bio\<close> (\<open>kernel/sleeplock.c\<close>, \<open>kernel/bio.c\<close>): sleep locks and the cache of disk blocks with its
    recency list. The locale \<open>buffer_cache\<close> is what the log relies on, over the record \<open>bio_api\<close> of the
    five operations; its interpretation \<open>cache\<close> proves it of \<open>bio.c\<close>. The disk driver appears by its
    effect, a block moved between disk and buffer.
  \<^item> \<open>X_Log\<close>, \<open>X_Recovery\<close>, \<open>X_Log_Space\<close> (\<open>kernel/log.c\<close>): transactions over \<open>bio_api\<close>. A commit is
    characterised by the sequence of its disk writes, so \<open>crash_image\<close> (the disk after some of them)
    and \<open>booted\<close> (the state after a restart) make atomicity a statement about every prefix;
    \<open>X_Log_Space\<close> shows that the reservations of \<open>begin_op\<close> suffice, and that the log of \<open>mkfs\<close> is too small.
  \<^item> \<open>X_Block\<close>: the record \<open>blk_api\<close> of the routines of the log and the cache that the file system calls,
    the locale \<open>block_store\<close> of what it relies on, and its interpretation \<open>store\<close> by the two together.
    \<open>X_Fs\<close> (\<open>kernel/fs.c\<close>): blocks, inodes, contents, directories and paths over that record, run by one
    process at a time. The lemmas are in \<open>block_store\<close>: \<open>X_Fs_Alloc\<close> follows the bitmap, \<open>X_Fs_File\<close> the
    blocks of an inode while it grows (\<open>extends\<close>), \<open>X_Fs_Io\<close> the loop of \<open>writei\<close> (\<open>overwrites\<close>),
    \<open>X_Fs_Inode\<close> inodes on disk, \<open>X_Fs_Read\<close> \<open>readi\<close>. \<open>X_Mkfs\<close> (\<open>mkfs/mkfs.c\<close>)
    gives the superblock and the bitmap of \<open>mkfs\<close>, and that they meet \<open>meta_ok\<close>, what \<open>fs.c\<close> relies on: in
    particular the log (\<open>log_area\<close>: \<open>LOGSIZE\<close> blocks with the header, as \<open>mkfs\<close> makes it) ends where
    the inodes begin. \<open>X_Fs_Kernel\<close> states the results through \<open>store\<close>: \<open>good_file\<close>
    is a well-formed file, \<open>contents\<close> its bytes, \<open>log_room\<close> the blocks left to the transaction. A write
    of \<open>w\<close> blocks is given \<open>6 * w + 1\<close> of them, which is enough for the pieces \<open>filewrite\<close> makes.
    \<open>X_Fs_Dir\<close> shows that a directory refines a map from names to inode numbers (\<open>dir_map\<close>).
  \<^item> \<open>X_Sysfile\<close> (\<open>kernel/file.c\<close>, \<open>kernel/sysfile.c\<close>): open files over inodes, devices and pipes, descriptors,
    and the calls that work on them and on paths; the state \<open>sysst\<close> joins that of \<open>X_Pipe\<close> (processes,
    file table, pipes) with that of \<open>X_Fs\<close>. \<open>X_Sysfile_Refs\<close> keeps the books of references to files:
    inside a call the kernel holds some itself, a multiset. \<open>X_Fs_Op\<close> interprets \<open>block_store\<close> once more
    (\<open>op\<close>), counting the operations under way, and follows a file through \<open>begin_op\<close> and the commit;
    \<open>X_Sysfile_Io\<close> puts the layers together, from \<open>filewrite\<close> and \<open>fileread\<close> to the disk.
  \<^item> \<open>X_Kalloc\<close> (\<open>kernel/kalloc.c\<close>): the page allocator over byte memory, the free list threaded
    through the free pages; \<open>page_step\<close> is what its clients do.
  \<^item> \<open>X_Vm\<close> (\<open>kernel/vm.c\<close>): page tables in byte memory. \<open>X_Vm_Map\<close> relates them to trees (\<open>table_tree\<close>)
    and follows \<open>walk\<close> and \<open>mappages\<close> as trees grow, \<open>X_Vm_Trans\<close> states the result for the translation
    of every address, \<open>X_Vm_Copy\<close> relates \<open>copyin\<close> and \<open>copyout\<close> to the memory a program sees.

  Fuel and bounds. The cluster loops of \<open>Fat_Table\<close> and \<open>Fat_Data\<close> recurse on the number of clusters
  left to visit, which the table's size bounds; where the code has no bound the definition is
  \<open>None\<close> past the table. Integers that the code tests for overflow, or whose overflow a call can reach
  (\<open>allocpid\<close>, \<open>sem_up\<close>, \<open>atoi\<close>, \<open>printint\<close>), carry it as \<open>None\<close>; two counters of the scheduler, \<open>times_exec\<close>
  and \<open>cant_proc\<close>, and the sizes of \<open>fat_file_pwrite\<close> and \<open>fat_file_pread\<close> (\<open>size_t\<close>) are unbounded integers,
  so what is shown of them is for values below \<open>2 ^ 31\<close> and \<open>2 ^ 64\<close>. The digit loop of \<open>printint\<close> recurses on the room left in its buffer. All
  other loops end by a measure on their counters.

  \<^bold>\<open>Not modelled.\<close> \<open>fat_fuse.c\<close> (option parsing), printing and debug output, memory allocation failure in
  the user programs; of xv6 \<open>exec\<close> with \<open>sys_exec\<close>, traps and system-call entry (the trap frame and
  assembly), the drivers and start-up code (device registers, assembly), and the user programs, which are clients and
  tests. \<open>ping_pong\<close> of \<open>Lab2\<close> is one of them: it opens semaphore 10 of an array of 10, so it has no defined
  behaviour to model. \<open>sched\<close>, \<open>swtch\<close> and \<open>forkret\<close>, which change stacks, are
  the boundaries between definitions. Memory-ordering effects (fences) are outside the model.
\<close>

end
